(* ===== verification/Prelude.thy ===== *)
theory Prelude
  imports Main "HOL-Library.Word"
begin

text \<open>
  The prelude of the development: names for the C integer types, the faults a C program can
  run into, the result type of code that can fault, checked array accesses, and the generic
  lemmas on lists, results and words that the component theories share.

  A C expression whose evaluation is undefined behaviour (a null dereference, an access outside
  an array, signed overflow, falling off the end of a value-returning function) evaluates to
  \<open>Inl\<close> of a fault. Everything else is \<open>Inr\<close> of a value. The collection
  \<open>c_simps\<close> holds the rewriting rules for this layer.
\<close>

unbundle bit_operations_syntax

named_theorems c_simps \<open>evaluation rules of the C layer: results, checked reads and writes\<close>

type_synonym byte = "8 word"
type_synonym u16 = "16 word"
type_synonym u32 = "32 word"
type_synonym u64 = "64 word"

section \<open>Faults and results\<close>

datatype c_fault =
    NullDeref         \<comment> \<open>a null pointer is read or written through\<close>
  | OutOfBounds       \<comment> \<open>an access outside the array it belongs to\<close>
  | SignedOverflow    \<comment> \<open>a signed operation leaves the range of its type\<close>
  | MissingReturn     \<comment> \<open>the end of a value-returning function is reached\<close>
  | DivideByZero      \<comment> \<open>an integer division or remainder by zero\<close>
  | AssertFailed      \<comment> \<open>an \<open>assert\<close> whose condition is false\<close>
  | BadPointer        \<comment> \<open>a pointer to memory that is not allocated, or no longer\<close>
  | BadArgument       \<comment> \<open>a variable argument that is missing or of another type\<close>

type_synonym 'a cres = "c_fault + 'a"

definition cbind :: "'e + 'a \<Rightarrow> ('a \<Rightarrow> 'e + 'b) \<Rightarrow> 'e + 'b" where
  "cbind r f = (case r of Inl e \<Rightarrow> Inl e | Inr x \<Rightarrow> f x)"

lemma cbind_Inl [simp, c_simps]: "cbind (Inl e) f = Inl e"
  by (simp add: cbind_def)

lemma cbind_Inr [simp, c_simps]: "cbind (Inr x) f = f x"
  by (simp add: cbind_def)

lemma cbind_eq_Inr_iff: "cbind r f = Inr y \<longleftrightarrow> (\<exists>x. r = Inr x \<and> f x = Inr y)"
  by (cases r) simp_all

lemma cbind_eq_Inl_iff: "cbind r f = Inl e \<longleftrightarrow> r = Inl e \<or> (\<exists>x. r = Inr x \<and> f x = Inl e)"
  by (cases r) simp_all

lemma cbind_assoc: "cbind (cbind r f) g = cbind r (\<lambda>x. cbind (f x) g)"
  by (cases r) simp_all

lemma cbind_cong [fundef_cong]:
  "r = r' \<Longrightarrow> (\<And>x. r' = Inr x \<Longrightarrow> f x = f' x) \<Longrightarrow> cbind r f = cbind r' f'"
  by (cases r') simp_all

text \<open>
  What holds of every result that is not a fault. The introduction rules walk through the code
  of an operation along its branches.
\<close>

definition all_ok :: "('a \<Rightarrow> bool) \<Rightarrow> 'e + 'a \<Rightarrow> bool" where
  "all_ok P r \<longleftrightarrow> (\<forall>x. r = Inr x \<longrightarrow> P x)"

lemma all_okD: "all_ok P r \<Longrightarrow> r = Inr x \<Longrightarrow> P x"
  by (simp add: all_ok_def)

lemma all_ok_Inl [simp]: "all_ok P (Inl e)"
  by (simp add: all_ok_def)

lemma all_ok_Inr [simp]: "all_ok P (Inr x) = P x"
  by (simp add: all_ok_def)

lemma all_ok_cbind: "(\<And>x. r = Inr x \<Longrightarrow> all_ok P (f x)) \<Longrightarrow> all_ok P (cbind r f)"
  by (auto simp: all_ok_def cbind_eq_Inr_iff)

lemma all_ok_if: "(b \<Longrightarrow> all_ok P r) \<Longrightarrow> (\<not> b \<Longrightarrow> all_ok P r') \<Longrightarrow> all_ok P (if b then r else r')"
  by simp

lemma all_ok_case_option:
  "(x = None \<Longrightarrow> all_ok P r) \<Longrightarrow> (\<And>y. x = Some y \<Longrightarrow> all_ok P (f y)) \<Longrightarrow>
   all_ok P (case x of None \<Rightarrow> r | Some y \<Rightarrow> f y)"
  by (cases x) simp_all

lemmas all_ok_intros = all_ok_cbind all_ok_if all_ok_case_option

text \<open>The conjunction of C, whose right operand is evaluated only if the left one holds.\<close>

definition and_then :: "bool cres \<Rightarrow> bool cres \<Rightarrow> bool cres" where
  "and_then a b = cbind a (\<lambda>x. if x then b else Inr False)"

lemma and_then_True: "and_then a b = Inr True \<longleftrightarrow> a = Inr True \<and> b = Inr True"
  by (auto simp: and_then_def cbind_eq_Inr_iff split: if_splits)

text \<open>Sequencing of code that may fault and need not end: \<open>None\<close> is divergence.\<close>

definition obind :: "'a cres option \<Rightarrow> ('a \<Rightarrow> 'b cres option) \<Rightarrow> 'b cres option" where
  "obind r f = (case r of None \<Rightarrow> None | Some (Inl e) \<Rightarrow> Some (Inl e) | Some (Inr x) \<Rightarrow> f x)"

lemma obind_simps [simp, c_simps]:
  "obind None f = None" "obind (Some (Inl e)) f = Some (Inl e)" "obind (Some (Inr x)) f = f x"
  by (simp_all add: obind_def)

section \<open>Checked array accesses\<close>

definition rd :: "'a list \<Rightarrow> nat \<Rightarrow> 'a cres" where
  "rd xs i = (if i < length xs then Inr (xs ! i) else Inl OutOfBounds)"

definition wr :: "'a list \<Rightarrow> nat \<Rightarrow> 'a \<Rightarrow> 'a list cres" where
  "wr xs i v = (if i < length xs then Inr (xs[i := v]) else Inl OutOfBounds)"

lemma rd_ok [simp, c_simps]: "i < length xs \<Longrightarrow> rd xs i = Inr (xs ! i)"
  by (simp add: rd_def)

lemma rd_bad [simp, c_simps]: "\<not> i < length xs \<Longrightarrow> rd xs i = Inl OutOfBounds"
  by (simp add: rd_def)

lemma wr_ok [simp, c_simps]: "i < length xs \<Longrightarrow> wr xs i v = Inr (xs[i := v])"
  by (simp add: wr_def)

lemma wr_bad [simp, c_simps]: "\<not> i < length xs \<Longrightarrow> wr xs i v = Inl OutOfBounds"
  by (simp add: wr_def)

lemma rd_eq_Inr_iff: "rd xs i = Inr v \<longleftrightarrow> i < length xs \<and> v = xs ! i"
  by (auto simp: rd_def)

lemma wr_eq_Inr_iff: "wr xs i v = Inr ys \<longleftrightarrow> i < length xs \<and> ys = xs[i := v]"
  by (auto simp: wr_def)

section \<open>Bytes of string literals\<close>

definition bytes :: "string \<Rightarrow> byte list" where
  "bytes s = map (\<lambda>c. word_of_nat (of_char c)) s"

lemma bytes_Nil [simp]: "bytes [] = []"
  by (simp add: bytes_def)

lemma bytes_append [simp]: "bytes (s @ t) = bytes s @ bytes t"
  by (simp add: bytes_def)

lemma length_bytes [simp]: "length (bytes s) = length s"
  by (simp add: bytes_def)

section \<open>Lists\<close>

lemma take_Suc_nth: "i < length xs \<Longrightarrow> take (Suc i) xs = take i xs @ [xs ! i]"
  by (rule take_Suc_conv_app_nth)

lemma drop_nth_Cons: "i < length xs \<Longrightarrow> drop i xs = xs ! i # drop (Suc i) xs"
  by (simp add: Cons_nth_drop_Suc)

lemma drop_append_exact: "length xs = n \<Longrightarrow> drop n (xs @ ys) = ys"
  by simp

lemma take_append_exact: "length xs = n \<Longrightarrow> take n (xs @ ys) = xs"
  by simp

lemma take_2_eq_iff: "take 2 xs = [a, b] \<longleftrightarrow> 1 < length xs \<and> xs ! 0 = a \<and> xs ! 1 = b"
proof (cases xs)
  case (Cons x ys)
  then show ?thesis by (cases ys) auto
qed simp

lemma prefix_starts_with:
  assumes "take (length d) b = d"
  shows "1 < length d \<and> b ! 0 = x \<and> b ! 1 = y \<longleftrightarrow> take 2 d = [x, y]"
proof -
  have "b ! k = d ! k" if "k < length d" for k
    using assms that by (metis nth_take)
  then have "1 < length d \<longrightarrow> b ! 0 = d ! 0 \<and> b ! 1 = d ! 1" by fastforce
  then show ?thesis unfolding take_2_eq_iff by metis
qed

section \<open>Blocks of an array\<close>

definition store_at :: "'a list \<Rightarrow> nat \<Rightarrow> 'a list \<Rightarrow> 'a list" where
  "store_at buf i bs = take i buf @ bs @ drop (i + length bs) buf"

lemma length_store_at [simp]:
  "i + length bs \<le> length buf \<Longrightarrow> length (store_at buf i bs) = length buf"
  by (simp add: store_at_def)

lemma take_store_at:
  "i + length bs \<le> length buf \<Longrightarrow> take (i + length bs) (store_at buf i bs) = take i buf @ bs"
  by (simp add: store_at_def)

lemma drop_store_at:
  "i + length bs \<le> length buf \<Longrightarrow> drop (i + length bs) (store_at buf i bs) = drop (i + length bs) buf"
  by (simp add: store_at_def)

lemma store_at_Nil [simp]: "store_at buf i [] = buf"
  by (simp add: store_at_def)

lemma store_at_snoc:
  "i + length bs < length buf \<Longrightarrow> (store_at buf i bs)[i + length bs := x] = store_at buf i (bs @ [x])"
  by (simp add: store_at_def list_update_append drop_nth_Cons)

lemma store_at_prepend:
  assumes "i < length buf" and "i + length bs < length buf"
  shows "(store_at buf (Suc i) bs)[i := x] = store_at buf i (x # bs)"
  using assms by (simp add: store_at_def list_update_append take_Suc_nth)

section \<open>Words\<close>

text \<open>The conversion of a wider integer to a 32-bit \<open>int\<close>.\<close>

definition to_int32 :: "int \<Rightarrow> int" where
  "to_int32 v = signed_take_bit 31 v"

lemma to_int32_small: "- (2 ^ 31) \<le> v \<Longrightarrow> v < 2 ^ 31 \<Longrightarrow> to_int32 v = v"
  unfolding to_int32_def by (rule signed_take_bit_int_eq_self)

lemma unat_less: "unat (w :: 'a::len word) < 2 ^ LENGTH('a)"
  by (rule unsigned_less)

lemma unat_byte_less: "unat (b :: byte) < 256"
  using unat_less [of b] by simp

lemma unat_of_nat_small: "n < 2 ^ LENGTH('a) \<Longrightarrow> unat (word_of_nat n :: 'a::len word) = n"
  by (simp add: unat_of_nat)

end
