(* ===== verification/CString.thy ===== *)
theory CString
  imports Prelude
begin

text \<open>
  The functions of the C string library that the sources call, on byte arrays: a C string is
  the part of an array from an offset up to the first zero byte. Every function reads byte by
  byte, so a missing terminator shows as an access outside the array.
\<close>

section \<open>Definitions\<close>

text \<open>Scanning from an offset for the first byte with a property.\<close>

fun scan :: "(byte \<Rightarrow> bool) \<Rightarrow> byte list \<Rightarrow> nat cres" where
  "scan p [] = Inl OutOfBounds"
| "scan p (c # cs) = (if p c then Inr 0 else cbind (scan p cs) (\<lambda>n. Inr (Suc n)))"

definition scan_from :: "(byte \<Rightarrow> bool) \<Rightarrow> byte list \<Rightarrow> nat \<Rightarrow> nat cres" where
  "scan_from p buf i = cbind (scan p (drop i buf)) (\<lambda>n. Inr (i + n))"

text \<open>\<open>strpbrk\<close> and \<open>strchr\<close> return a position in the array, \<open>None\<close> for the null pointer.\<close>

definition strpbrk :: "byte list \<Rightarrow> nat \<Rightarrow> byte list \<Rightarrow> nat option cres" where
  "strpbrk buf i accept =
     cbind (scan_from (\<lambda>c. c = 0 \<or> c \<in> set accept) buf i)
       (\<lambda>j. Inr (if buf ! j = 0 then None else Some j))"

definition strchr :: "byte list \<Rightarrow> nat \<Rightarrow> byte \<Rightarrow> nat option cres" where
  "strchr buf i ch =
     cbind (scan_from (\<lambda>c. c = 0 \<or> c = ch) buf i)
       (\<lambda>j. Inr (if buf ! j = ch then Some j else None))"

text \<open>\<open>strspn\<close> returns the length of the prefix made of accepted bytes.\<close>

definition strspn :: "byte list \<Rightarrow> nat \<Rightarrow> byte list \<Rightarrow> nat cres" where
  "strspn buf i accept = scan (\<lambda>c. c = 0 \<or> c \<notin> set accept) (drop i buf)"

definition strlen :: "byte list \<Rightarrow> nat \<Rightarrow> nat cres" where
  "strlen buf i = scan (\<lambda>c. c = 0) (drop i buf)"

definition tolower :: "byte \<Rightarrow> byte" where
  "tolower c = (if 65 \<le> c \<and> c \<le> 90 then c + 32 else c)"

text \<open>
  The case-insensitive comparisons: the difference of the first bytes that differ, 0 for equal
  strings. Both arguments are array suffixes; a literal is given with its terminator.
\<close>

fun strcasecmp :: "byte list \<Rightarrow> byte list \<Rightarrow> int cres" where
  "strcasecmp (a # s) (b # t) =
     (if tolower a \<noteq> tolower b then Inr (uint (tolower a) - uint (tolower b))
      else if a = 0 then Inr 0
      else strcasecmp s t)"
| "strcasecmp s t = Inl OutOfBounds"

fun strncasecmp :: "byte list \<Rightarrow> byte list \<Rightarrow> nat \<Rightarrow> int cres" where
  "strncasecmp s t 0 = Inr 0"
| "strncasecmp (a # s) (b # t) (Suc n) =
     (if tolower a \<noteq> tolower b then Inr (uint (tolower a) - uint (tolower b))
      else if a = 0 then Inr 0
      else strncasecmp s t n)"
| "strncasecmp s t (Suc n) = Inl OutOfBounds"

definition isspace :: "byte \<Rightarrow> bool" where
  "isspace c \<longleftrightarrow> c = 32 \<or> (9 \<le> c \<and> c \<le> 13)"

definition isdigit :: "byte \<Rightarrow> bool" where
  "isdigit c \<longleftrightarrow> 48 \<le> c \<and> c \<le> 57"

text \<open>
  \<open>strtol\<close> in base 10 (\<open>atol\<close> is \<open>strtol\<close> without the end pointer): white space, an
  optional sign, digits; a value outside the 64-bit range is clamped. The second component is
  the number of bytes consumed, 0 when there is no digit.
\<close>

fun digits_value :: "byte list \<Rightarrow> int \<Rightarrow> int \<times> nat" where
  "digits_value [] acc = (acc, 0)"
| "digits_value (c # cs) acc =
     (if isdigit c
      then (case digits_value cs (10 * acc + (uint c - 48)) of (v, n) \<Rightarrow> (v, Suc n))
      else (acc, 0))"

definition clamp64 :: "int \<Rightarrow> int" where
  "clamp64 v = max (- (2 ^ 63)) (min (2 ^ 63 - 1) v)"

definition strtol10 :: "byte list \<Rightarrow> int \<times> nat" where
  "strtol10 s =
     (let sp = length (takeWhile isspace s);
          s1 = drop sp s;
          (neg, sg) = (case s1 of [] \<Rightarrow> (False, 0)
                       | c # _ \<Rightarrow> if c = 45 then (True, 1) else if c = 43 then (False, 1)
                                  else (False, 0));
          (v, n) = digits_value (drop sg s1) 0
      in if n = 0 then (0, 0) else (clamp64 (if neg then - v else v), sp + sg + n))"

definition atol :: "byte list \<Rightarrow> nat \<Rightarrow> int cres" where
  "atol buf i = cbind (strlen buf i) (\<lambda>n. Inr (fst (strtol10 (take n (drop i buf)))))"

section \<open>Scanning\<close>

lemma scan_append:
  "\<forall>c \<in> set s. \<not> p c \<Longrightarrow> p d \<Longrightarrow> scan p (s @ d # t) = Inr (length s)"
  by (induction s) auto

lemma scan_Inr_iff:
  "scan p s = Inr n \<longleftrightarrow> n < length s \<and> p (s ! n) \<and> (\<forall>k < n. \<not> p (s ! k))"
proof (induction s arbitrary: n)
  case Nil
  then show ?case by simp
next
  case (Cons c cs)
  show ?case
  proof (cases "p c")
    case True
    then show ?thesis by (auto intro: gr0I)
  next
    case False
    then show ?thesis
      by (cases n) (auto simp: cbind_eq_Inr_iff Cons.IH All_less_Suc2)
  qed
qed

lemma scan_Inl_iff: "scan p s = Inl e \<longleftrightarrow> e = OutOfBounds \<and> (\<forall>c \<in> set s. \<not> p c)"
  by (induction s) (auto simp: cbind_eq_Inl_iff)

lemma scan_from_append:
  assumes "length a = i" "\<forall>c \<in> set s. \<not> p c" "p d"
  shows "scan_from p (a @ s @ d # t) i = Inr (i + length s)"
  using assms by (simp add: scan_from_def scan_append)

lemma strpbrk_found:
  assumes "length a = i" "\<forall>c \<in> set s. c \<noteq> 0 \<and> c \<notin> set accept" "d \<in> set accept" "d \<noteq> 0"
  shows "strpbrk (a @ s @ d # t) i accept = Inr (Some (i + length s))"
  using assms by (simp add: strpbrk_def scan_from_append nth_append)

lemma strpbrk_none:
  assumes "length a = i" "\<forall>c \<in> set s. c \<noteq> 0 \<and> c \<notin> set accept"
  shows "strpbrk (a @ s @ 0 # t) i accept = Inr None"
  using assms by (simp add: strpbrk_def scan_from_append nth_append)

lemma strchr_found:
  assumes "length a = i" "\<forall>c \<in> set s. c \<noteq> 0 \<and> c \<noteq> d"
  shows "strchr (a @ s @ d # t) i d = Inr (Some (i + length s))"
  using assms by (simp add: strchr_def scan_from_append nth_append)

lemma strspn_append:
  "\<forall>c \<in> set s. c \<noteq> 0 \<and> c \<in> set accept \<Longrightarrow> d = 0 \<or> d \<notin> set accept
   \<Longrightarrow> drop i buf = s @ d # t \<Longrightarrow> strspn buf i accept = Inr (length s)"
  by (simp add: strspn_def scan_append)

section \<open>Comparison\<close>

lemma tolower_0 [simp]: "tolower 0 = 0"
  by (simp add: tolower_def)

lemma tolower_0_iff [simp]: "tolower c = 0 \<longleftrightarrow> c = 0"
proof -
  have "c + 32 = 0 \<Longrightarrow> c = 224"
    by (simp add: eq_neg_iff_add_eq_0 [symmetric])
  then show ?thesis by (auto simp: tolower_def)
qed

text \<open>Two terminated strings compare equal exactly when they agree up to letter case.\<close>

lemma strcasecmp_eq_0_iff:
  "0 \<notin> set s \<Longrightarrow> 0 \<notin> set t \<Longrightarrow>
   strcasecmp (s @ 0 # u) (t @ 0 # w) = Inr 0 \<longleftrightarrow> map tolower s = map tolower t"
proof (induction s arbitrary: t)
  case Nil
  then show ?case
    by (cases t) (auto simp: uint_0_iff word_uint_eq_iff [symmetric])
next
  case (Cons a s)
  then show ?case
    by (cases t) (auto simp: uint_0_iff word_uint_eq_iff [symmetric])
qed

lemma strcasecmp_total:
  "0 \<notin> set s \<Longrightarrow> 0 \<notin> set t \<Longrightarrow> \<exists>d. strcasecmp (s @ 0 # u) (t @ 0 # w) = Inr d"
proof (induction s arbitrary: t)
  case Nil
  then show ?case by (cases t) auto
next
  case (Cons a s)
  then show ?case by (cases t) auto
qed

lemma strncasecmp_prefix:
  "0 \<notin> set t \<Longrightarrow> map tolower p = map tolower t \<Longrightarrow>
   strncasecmp (p @ u) (t @ w) (length t) = Inr 0"
proof (induction t arbitrary: p)
  case Nil
  then show ?case by simp
next
  case (Cons b t)
  then show ?case by (cases p) auto
qed

lemma strncasecmp_total:
  "0 \<in> set s \<Longrightarrow> n \<le> length t \<Longrightarrow> \<exists>d. strncasecmp s t n = Inr d"
proof (induction s t n rule: strncasecmp.induct)
  case (2 a s b t n)
  then show ?case by auto
qed auto

lemma strcasecmp_lit_total:
  "0 \<in> set s \<Longrightarrow> 0 \<notin> set t \<Longrightarrow> \<exists>d. strcasecmp s (t @ [0]) = Inr d"
proof (induction s arbitrary: t)
  case Nil
  then show ?case by simp
next
  case (Cons a s)
  then show ?case by (cases t) auto
qed

text \<open>After a prefix match the terminator still lies ahead.\<close>

lemma strncasecmp_match_tail:
  "strncasecmp s (t @ w) (length t) = Inr 0 \<Longrightarrow> 0 \<notin> set t \<Longrightarrow> 0 \<in> set s
   \<Longrightarrow> 0 \<in> set (drop (length t) s)"
proof (induction t arbitrary: s)
  case Nil
  then show ?case by simp
next
  case (Cons b t)
  then show ?case
    by (cases s) (auto simp: word_uint_eq_iff [symmetric] split: if_splits)
qed

lemma scan_total: "p 0 \<Longrightarrow> 0 \<in> set s \<Longrightarrow> \<exists>n. scan p s = Inr n"
  by (induction s) auto

lemma strspn_total:
  assumes "0 \<in> set (drop i buf)"
  obtains n where "strspn buf i accept = Inr n" and "0 \<in> set (drop (i + n) buf)"
proof -
  obtain n where n: "strspn buf i accept = Inr n"
    using scan_total [of "\<lambda>c. c = 0 \<or> c \<notin> set accept", OF _ assms] by (auto simp: strspn_def)
  then have "drop i buf ! n = 0 \<or> drop i buf ! n \<notin> set accept" "n < length (drop i buf)"
    and before: "\<forall>k < n. drop i buf ! k \<noteq> 0"
    by (auto simp: strspn_def scan_Inr_iff)
  obtain k where k: "k < length (drop i buf)" "drop i buf ! k = 0"
    using assms by (metis in_set_conv_nth)
  with before have "n \<le> k" by (meson not_le)
  then have "drop (i + n) buf ! (k - n) = 0" "k - n < length (drop (i + n) buf)"
    using k by auto
  then have "0 \<in> set (drop (i + n) buf)" by (metis nth_mem)
  with n show thesis by (rule that)
qed

lemma atol_total: "0 \<in> set (drop i buf) \<Longrightarrow> \<exists>v. atol buf i = Inr v"
  using scan_total [of "\<lambda>c. c = 0" "drop i buf"] by (auto simp: atol_def strlen_def)

end
