(* ===== verification/HttpConn.thy ===== *)
theory HttpConn
  imports CString
begin

text \<open>
  The class \<open>http_conn\<close> of \<open>webserver/http_conn.h\<close> and \<open>webserver/http_conn.cpp\<close>: the
  per-connection record, the non-blocking read into the fixed buffer, the line scanner, the
  request-line, header and body parsers, and the main state machine \<open>process_read\<close>.

  Pointers into \<open>m_read_buf\<close> are positions in it, \<open>None\<close> the null pointer. The static
  members \<open>m_epollfd\<close> and \<open>m_user_count\<close> and the epoll interest list belong to the
  server's state and are modelled with it in theory \<open>Server\<close>. \<open>printf\<close> is left out.
\<close>

section \<open>State\<close>

datatype METHOD = GET | POST | HEAD | PUT | DELETE | TRACE | OPTIONS | CONNECT

datatype CHECK_STATE = CHECK_STATE_REQUESTLINE | CHECK_STATE_HEADER | CHECK_STATE_CONTENT

datatype LINE_STATUS = LINE_OK | LINE_BAD | LINE_OPEN

datatype HTTP_CODE = NO_REQUEST | GET_REQUEST | BAD_REQUEST | NO_RESOURCE | FORBIDDEN_REQUEST
  | FILE_REQUEST | INTERNAL_ERROR | CLOSED_CONNECTION

definition READ_BUFFER_SIZE :: nat where
  "READ_BUFFER_SIZE = 2048"

record http_conn =
  m_checked_index :: nat
  m_start_line :: nat
  m_url :: "nat option"
  m_version :: "nat option"
  m_method :: METHOD
  m_host :: "nat option"
  m_linger :: bool
  m_content_length :: int
  m_check_state :: CHECK_STATE
  m_sockfd :: int
  m_address :: nat
  m_read_buf :: "byte list"
  m_read_idx :: nat

text \<open>
  The private \<open>init()\<close>. It writes neither \<open>m_content_length\<close> nor \<open>m_host\<close>: both keep
  what the previous user of the slot left in them.
\<close>

definition init_rest :: "http_conn \<Rightarrow> http_conn" where
  "init_rest c = c\<lparr> m_check_state := CHECK_STATE_REQUESTLINE,
                   m_checked_index := 0,
                   m_start_line := 0,
                   m_read_idx := 0,
                   m_method := GET,
                   m_url := None,
                   m_version := None,
                   m_linger := False,
                   m_read_buf := replicate READ_BUFFER_SIZE 0 \<rparr>"

section \<open>Reading from the socket\<close>

text \<open>
  A socket as \<open>recv\<close> sees it: the pieces the kernel hands out one per call (each cut to the
  room the caller offers), then what a call finds when no piece is left.
\<close>

datatype sock_end = SockAgain | SockEof | SockError

record sock =
  pieces :: "byte list list"
  at_end :: sock_end

datatype recv_result = RecvData "byte list" | RecvAgain | RecvZero | RecvError

fun recv_pieces :: "byte list list \<Rightarrow> nat \<Rightarrow> (byte list \<times> byte list list) option" where
  "recv_pieces [] cap = None"
| "recv_pieces ([] # ps) cap = recv_pieces ps cap"
| "recv_pieces ((b # bs) # ps) cap = Some (take cap (b # bs), drop cap (b # bs) # ps)"

text \<open>A call with no room reads nothing and returns 0, like the call that finds the end of file.\<close>

definition recv :: "sock \<Rightarrow> nat \<Rightarrow> recv_result \<times> sock" where
  "recv s cap =
     (if cap = 0 then (RecvZero, s)
      else case recv_pieces (pieces s) cap of
             Some (bs, ps) \<Rightarrow> (RecvData bs, s\<lparr>pieces := ps\<rparr>)
           | None \<Rightarrow> (case at_end s of SockAgain \<Rightarrow> RecvAgain | SockEof \<Rightarrow> RecvZero
                       | SockError \<Rightarrow> RecvError, s\<lparr>pieces := []\<rparr>))"

lemma recv_pieces_progress:
  "recv_pieces ps cap = Some (bs, ps') \<Longrightarrow> 0 < cap \<Longrightarrow>
   bs \<noteq> [] \<and> length bs \<le> cap \<and> concat ps = bs @ concat ps'"
  by (induction ps cap rule: recv_pieces.induct) auto

lemma recv_shrinks:
  "recv s cap = (RecvData bs, s') \<Longrightarrow>
   bs \<noteq> [] \<and> length bs \<le> cap \<and> concat (pieces s) = bs @ concat (pieces s') \<and> at_end s' = at_end s"
  by (auto simp: recv_def split: if_splits option.splits sock_end.splits prod.splits
      dest: recv_pieces_progress)

text \<open>The \<open>while (true)\<close> of \<open>read()\<close>: it ends because every piece of data shortens what is left.\<close>

function read_loop :: "http_conn \<Rightarrow> sock \<Rightarrow> bool \<times> http_conn \<times> sock" where
  "read_loop c s =
     (case recv s (READ_BUFFER_SIZE - m_read_idx c) of
        (RecvAgain, s') \<Rightarrow> (True, c, s')
      | (RecvError, s') \<Rightarrow> (False, c, s')
      | (RecvZero, s') \<Rightarrow> (False, c, s')
      | (RecvData bs, s') \<Rightarrow>
          read_loop (c\<lparr> m_read_buf := store_at (m_read_buf c) (m_read_idx c) bs,
                        m_read_idx := m_read_idx c + length bs \<rparr>) s')"
  by pat_completeness auto
termination
proof (relation "measure (\<lambda>(c, s). length (concat (pieces s)))", goal_cases)
  case 1
  show ?case by simp
next
  case (2 c s x y bs)
  then have "recv s (READ_BUFFER_SIZE - m_read_idx c) = (RecvData bs, y)" by simp
  from recv_shrinks [OF this] have "bs \<noteq> []" and "concat (pieces s) = bs @ concat (pieces y)"
    by auto
  then show ?case by simp
qed

declare read_loop.simps [simp del]

definition http_read :: "http_conn \<Rightarrow> sock \<Rightarrow> bool \<times> http_conn \<times> sock" where
  "http_read c s = (if m_read_idx c \<ge> READ_BUFFER_SIZE then (False, c, s) else read_loop c s)"

section \<open>Parsing\<close>

text \<open>
  \<open>parse_line\<close>. Every path through the body of its \<open>for\<close> loop returns, so the loop
  runs at most once and its increment is never reached.
\<close>

definition parse_line :: "http_conn \<Rightarrow> (LINE_STATUS \<times> http_conn) cres" where
  "parse_line c =
     (let i = m_checked_index c; buf = m_read_buf c in
      if i < m_read_idx c then
        cbind (rd buf i) (\<lambda>temp.
          if temp = 13 then
            if i + 1 = m_read_idx c then Inr (LINE_OPEN, c)
            else cbind (rd buf (i + 1)) (\<lambda>nxt.
              if nxt = 10 then
                Inr (LINE_OK, c\<lparr>m_read_buf := buf[i := 0, i + 1 := 0], m_checked_index := i + 2\<rparr>)
              else Inr (LINE_BAD, c))
          else if temp = 10 then
            if i > 1 \<and> buf ! (i - 1) = 13 then
              Inr (LINE_OK, c\<lparr>m_read_buf := buf[i - 1 := 0, i := 0], m_checked_index := i + 1\<rparr>)
            else Inr (LINE_BAD, c)
          else Inr (LINE_OPEN, c))
      else Inr (LINE_OK, c))"

definition blanks :: "byte list" where
  "blanks = [32, 9]"

definition parse_request_line :: "nat \<Rightarrow> http_conn \<Rightarrow> (HTTP_CODE \<times> http_conn) cres" where
  "parse_request_line text c =
     cbind (strpbrk (m_read_buf c) text blanks) (\<lambda>u.
     case u of
       None \<Rightarrow> Inl NullDeref
     | Some u \<Rightarrow>
       let c1 = c\<lparr>m_read_buf := (m_read_buf c)[u := 0], m_url := Some (u + 1)\<rparr> in
       cbind (strcasecmp (drop text (m_read_buf c1)) (bytes ''GET'' @ [0])) (\<lambda>d.
       if d \<noteq> 0 then Inr (BAD_REQUEST, c1)
       else
         let c2 = c1\<lparr>m_method := GET\<rparr> in
         cbind (strpbrk (m_read_buf c2) (u + 1) blanks) (\<lambda>v.
         case v of
           None \<Rightarrow> Inr (BAD_REQUEST, c2\<lparr>m_version := None\<rparr>)
         | Some v \<Rightarrow>
           let c3 = c2\<lparr>m_read_buf := (m_read_buf c2)[v := 0], m_version := Some (v + 1)\<rparr> in
           cbind (strcasecmp (drop (v + 1) (m_read_buf c3)) (bytes ''HTTP/1.1'' @ [0])) (\<lambda>d.
           if d \<noteq> 0 then Inr (BAD_REQUEST, c3)
           else
             cbind (strncasecmp (drop (u + 1) (m_read_buf c3)) (bytes ''http://'' @ [0]) 7) (\<lambda>d.
             cbind (if d = 0 then strchr (m_read_buf c3) (u + 1 + 7) 47 else Inr (Some (u + 1))) (\<lambda>w.
             let c4 = c3\<lparr>m_url := w\<rparr> in
             case w of
               None \<Rightarrow> Inr (BAD_REQUEST, c4)
             | Some w \<Rightarrow>
               cbind (rd (m_read_buf c4) w) (\<lambda>ch.
               if ch \<noteq> 47 then Inr (BAD_REQUEST, c4)
               else Inr (NO_REQUEST, c4\<lparr>m_check_state := CHECK_STATE_HEADER\<rparr>))))))))"

text \<open>\<open>atol\<close> returns a \<open>long\<close>, which is converted to the \<open>int\<close> it is stored in.\<close>

definition parse_headers :: "nat \<Rightarrow> http_conn \<Rightarrow> (HTTP_CODE \<times> http_conn) cres" where
  "parse_headers text c =
     (let buf = m_read_buf c in
      cbind (rd buf text) (\<lambda>ch.
      if ch = 0 then
        if m_content_length c \<noteq> 0
        then Inr (NO_REQUEST, c\<lparr>m_check_state := CHECK_STATE_CONTENT\<rparr>)
        else Inr (GET_REQUEST, c)
      else
      cbind (strncasecmp (drop text buf) (bytes ''Connection:'' @ [0]) 11) (\<lambda>d.
      if d = 0 then
        cbind (strspn buf (text + 11) blanks) (\<lambda>n.
        cbind (strcasecmp (drop (text + 11 + n) buf) (bytes ''keep-alive'' @ [0])) (\<lambda>e.
        Inr (NO_REQUEST, if e = 0 then c\<lparr>m_linger := True\<rparr> else c)))
      else
      cbind (strncasecmp (drop text buf) (bytes ''Content-Length:'' @ [0]) 15) (\<lambda>d.
      if d = 0 then
        cbind (strspn buf (text + 15) blanks) (\<lambda>n.
        cbind (atol buf (text + 15 + n)) (\<lambda>v.
        Inr (NO_REQUEST, c\<lparr>m_content_length := to_int32 v\<rparr>)))
      else
      cbind (strncasecmp (drop text buf) (bytes ''Host:'' @ [0]) 5) (\<lambda>d.
      if d = 0 then
        cbind (strspn buf (text + 5) blanks) (\<lambda>n.
        Inr (NO_REQUEST, c\<lparr>m_host := Some (text + 5 + n)\<rparr>))
      else Inr (NO_REQUEST, c))))))"

text \<open>
  \<open>parse_content\<close>: the sum of the two \<open>int\<close>s may overflow, and the store goes to
  \<open>text[m_content_length]\<close>, which a negative length puts before \<open>text\<close>.
\<close>

definition parse_content :: "nat \<Rightarrow> http_conn \<Rightarrow> (HTTP_CODE \<times> http_conn) cres" where
  "parse_content text c =
     (let need = m_content_length c + int (m_checked_index c) in
      if need > 2 ^ 31 - 1 then Inl SignedOverflow
      else if int (m_read_idx c) \<ge> need then
        (let k = int text + m_content_length c in
         if k < 0 then Inl OutOfBounds
         else cbind (wr (m_read_buf c) (nat k) 0) (\<lambda>buf.
              Inr (GET_REQUEST, c\<lparr>m_read_buf := buf\<rparr>)))
      else Inr (NO_REQUEST, c))"

text \<open>\<open>do_request\<close> has an empty body although it returns a value.\<close>

definition do_request :: "http_conn \<Rightarrow> (HTTP_CODE \<times> http_conn) cres" where
  "do_request c = Inl MissingReturn"

text \<open>
  One turn of the \<open>switch\<close> in \<open>process_read\<close>: either the function returns (\<open>Inl\<close>), or the
  loop goes on with the new \<open>line_status\<close>. The header case has no \<open>break\<close> and falls
  through to the body case. The \<open>default\<close> label is unreachable: \<open>m_check_state\<close> has
  three values.
\<close>

definition content_case ::
  "nat \<Rightarrow> http_conn \<Rightarrow> ((HTTP_CODE \<times> http_conn) + (LINE_STATUS \<times> http_conn)) cres" where
  "content_case text c =
     cbind (parse_content text c) (\<lambda>(ret, c1).
     if ret = GET_REQUEST then cbind (do_request c1) (\<lambda>r. Inr (Inl r))
     else Inr (Inr (LINE_OPEN, c1)))"

definition switch_turn ::
  "nat \<Rightarrow> LINE_STATUS \<Rightarrow> http_conn \<Rightarrow> ((HTTP_CODE \<times> http_conn) + (LINE_STATUS \<times> http_conn)) cres"
where
  "switch_turn text line_status c =
     (case m_check_state c of
        CHECK_STATE_REQUESTLINE \<Rightarrow>
          cbind (parse_request_line text c) (\<lambda>(ret, c1).
          if ret = BAD_REQUEST then Inr (Inl (BAD_REQUEST, c1)) else Inr (Inr (line_status, c1)))
      | CHECK_STATE_HEADER \<Rightarrow>
          cbind (parse_headers text c) (\<lambda>(ret, c1).
          if ret = BAD_REQUEST then Inr (Inl (BAD_REQUEST, c1))
          else if ret = GET_REQUEST then cbind (do_request c1) (\<lambda>r. Inr (Inl r))
          else content_case text c1)
      | CHECK_STATE_CONTENT \<Rightarrow> content_case text c)"

text \<open>
  The loop condition: in the body state a full line is not asked for, unless the status was
  already changed; otherwise \<open>parse_line\<close> runs.
\<close>

definition loop_cond :: "LINE_STATUS \<Rightarrow> http_conn \<Rightarrow> (LINE_STATUS \<times> http_conn) cres" where
  "loop_cond line_status c =
     (if m_check_state c = CHECK_STATE_CONTENT \<and> line_status = LINE_OK then Inr (LINE_OK, c)
      else parse_line c)"

text \<open>The loop of \<open>process_read\<close>; \<open>None\<close> is a loop that does not end.\<close>

partial_function (option) process_read_loop ::
  "LINE_STATUS \<Rightarrow> http_conn \<Rightarrow> (HTTP_CODE \<times> http_conn) cres option" where
  "process_read_loop line_status c =
     (case loop_cond line_status c of
        Inl e \<Rightarrow> Some (Inl e)
      | Inr (st, c1) \<Rightarrow>
          if st \<noteq> LINE_OK then Some (Inr (NO_REQUEST, c1))
          else (case switch_turn (m_start_line c1) st (c1\<lparr>m_start_line := m_checked_index c1\<rparr>) of
                  Inl e \<Rightarrow> Some (Inl e)
                | Inr (Inl r) \<Rightarrow> Some (Inr r)
                | Inr (Inr (st', c2)) \<Rightarrow> process_read_loop st' c2))"

definition process_read :: "http_conn \<Rightarrow> (HTTP_CODE \<times> http_conn) cres option" where
  "process_read c = process_read_loop LINE_OK c"

section \<open>Well-formed connections\<close>

definition conn_wf :: "http_conn \<Rightarrow> bool" where
  "conn_wf c \<longleftrightarrow> length (m_read_buf c) = READ_BUFFER_SIZE \<and> m_start_line c \<le> m_checked_index c
     \<and> m_checked_index c \<le> m_read_idx c \<and> m_read_idx c \<le> READ_BUFFER_SIZE"

lemma conn_wf_init_rest: "conn_wf (init_rest c)"
  by (simp add: conn_wf_def init_rest_def)

section \<open>Reading\<close>

lemma recv_pieces_None_iff: "recv_pieces ps cap = None \<longleftrightarrow> concat ps = []"
  by (induction ps cap rule: recv_pieces.induct) auto

text \<open>What one run of the read loop does, in terms of all the data the socket holds.\<close>

definition read_post :: "http_conn \<Rightarrow> sock \<Rightarrow> bool \<Rightarrow> http_conn \<Rightarrow> bool" where
  "read_post c s ok c' \<longleftrightarrow> conn_wf c' \<and>
    (ok \<longleftrightarrow> at_end s = SockAgain \<and> m_read_idx c + length (concat (pieces s)) < READ_BUFFER_SIZE) \<and>
    (ok \<longrightarrow> m_read_idx c' = m_read_idx c + length (concat (pieces s)) \<and>
       take (m_read_idx c') (m_read_buf c') = take (m_read_idx c) (m_read_buf c) @ concat (pieces s) \<and>
       drop (m_read_idx c') (m_read_buf c') = drop (m_read_idx c') (m_read_buf c))"

lemma read_loop_spec:
  assumes "conn_wf c" and "read_loop c s = (ok, c', s')"
  shows "read_post c s ok c'"
  using assms
proof (induction c s arbitrary: ok c' s' rule: read_loop.induct)
  case (1 c s)
  let ?cap = "READ_BUFFER_SIZE - m_read_idx c"
  obtain r t where rt: "recv s ?cap = (r, t)" by (cases "recv s ?cap")
  show ?case
  proof (cases r)
    case (RecvData bs)
    let ?d = "c\<lparr>m_read_buf := store_at (m_read_buf c) (m_read_idx c) bs,
                m_read_idx := m_read_idx c + length bs\<rparr>"
    from rt RecvData have sh: "bs \<noteq> []" "length bs \<le> ?cap"
      "concat (pieces s) = bs @ concat (pieces t)" "at_end t = at_end s"
      using recv_shrinks by metis+
    have fits: "m_read_idx c + length bs \<le> length (m_read_buf c)"
      using sh(2) "1.prems"(1) by (auto simp: conn_wf_def)
    have wf: "conn_wf ?d"
      using "1.prems"(1) fits by (auto simp: conn_wf_def)
    have eq: "read_loop ?d t = (ok, c', s')"
      using "1.prems"(2) rt RecvData by (simp add: read_loop.simps [of c s])
    note IH = "1.IH" [OF rt [symmetric] RecvData wf eq]
    show ?thesis
      using IH sh fits "1.prems"(1)
      by (auto simp: read_post_def take_store_at store_at_def conn_wf_def add_ac)
  next
    case RecvAgain
    with rt have "concat (pieces s) = []" "at_end s = SockAgain" "0 < ?cap"
      by (auto simp: recv_def recv_pieces_None_iff split: if_splits option.splits sock_end.splits prod.splits)
    with RecvAgain rt "1.prems" show ?thesis
      by (auto simp: read_post_def read_loop.simps [of c s] simp del: concat_eq_Nil_conv)
  next
    case RecvZero
    with rt have "?cap = 0 \<or> at_end s = SockEof"
      by (auto simp: recv_def split: if_splits option.splits sock_end.splits prod.splits)
    with RecvZero rt "1.prems" show ?thesis
      by (auto simp: read_post_def read_loop.simps [of c s])
  next
    case RecvError
    with rt have "at_end s = SockError"
      by (auto simp: recv_def split: if_splits option.splits sock_end.splits prod.splits)
    with RecvError rt "1.prems" show ?thesis
      by (auto simp: read_post_def read_loop.simps [of c s])
  qed
qed

lemma http_read_spec:
  assumes "conn_wf c" and "http_read c s = (ok, c', s')"
  shows "read_post c s ok c'"
proof (cases "m_read_idx c \<ge> READ_BUFFER_SIZE")
  case True
  with assms show ?thesis by (auto simp: http_read_def read_post_def)
next
  case False
  with assms show ?thesis by (auto simp: http_read_def intro: read_loop_spec)
qed

lemma read_loop_frame:
  "read_loop c s = (ok, c', s') \<Longrightarrow> m_check_state c' = m_check_state c \<and>
     m_checked_index c' = m_checked_index c \<and> m_start_line c' = m_start_line c"
proof (induction c s arbitrary: ok c' s' rule: read_loop.induct)
  case (1 c s)
  show ?case
    using "1.prems"
    by (auto simp: read_loop.simps [of c s] split: prod.splits recv_result.splits dest: "1.IH" [OF sym])
qed

lemma http_read_frame:
  "http_read c s = (ok, c', s') \<Longrightarrow> m_check_state c' = m_check_state c \<and>
     m_checked_index c' = m_checked_index c \<and> m_start_line c' = m_start_line c"
  by (auto simp: http_read_def split: if_splits dest: read_loop_frame)

section \<open>Parsing a line, a request line and a header\<close>

lemma parse_line_safe:
  "conn_wf c \<Longrightarrow> \<exists>st c'. parse_line c = Inr (st, c') \<and> conn_wf c'"
  by (auto simp: parse_line_def conn_wf_def Let_def)

lemma parse_line_none_left:
  "m_checked_index c = m_read_idx c \<Longrightarrow> parse_line c = Inr (LINE_OK, c)"
  by (simp add: parse_line_def)

lemma blanks_nonzero: "0 \<notin> set blanks"
  by (simp add: blanks_def)

definition plain :: "byte list \<Rightarrow> bool" where
  "plain s \<longleftrightarrow> (\<forall>c \<in> set s. c \<noteq> 0 \<and> c \<notin> set blanks)"

lemma plain_tolower: "map tolower s = map tolower t \<Longrightarrow> plain t \<Longrightarrow> plain s"
proof -
  have bl: "tolower c \<in> set blanks \<longleftrightarrow> c \<in> set blanks" for c
  proof -
    have "c + 32 = 9 \<Longrightarrow> c = 233"
      by (simp add: eq_diff_eq [symmetric])
    then show ?thesis by (auto simp: tolower_def blanks_def)
  qed
  assume eq: "map tolower s = map tolower t" and t: "plain t"
  have "\<forall>c \<in> set (map tolower t). c \<noteq> 0 \<and> c \<notin> set blanks"
    using t by (auto simp: plain_def bl)
  with eq have "\<forall>c \<in> set (map tolower s). c \<noteq> 0 \<and> c \<notin> set blanks" by simp
  then show "plain s" by (auto simp: plain_def bl)
qed

lemma plain_literals: "plain (bytes ''GET'')" "plain (bytes ''HTTP/1.1'')"
  by (simp_all add: plain_def blanks_def bytes_def)

lemma plain_no_zero: "plain s \<Longrightarrow> 0 \<notin> set s"
  by (auto simp: plain_def)

text \<open>A request line in the expected form is accepted, and cut into its three C strings.\<close>

lemma parse_request_line_accepts:
  assumes buf: "m_read_buf c = a @ mt @ b1 # (47 # path) @ b2 # ver @ 0 # t"
    and a: "length a = text"
    and mt: "map tolower mt = map tolower (bytes ''GET'')"
    and ver: "map tolower ver = map tolower (bytes ''HTTP/1.1'')"
    and b: "b1 \<in> set blanks" "b2 \<in> set blanks"
    and path: "plain (47 # path)"
  shows "parse_request_line text c = Inr (NO_REQUEST,
           c\<lparr> m_read_buf := a @ mt @ 0 # (47 # path) @ 0 # ver @ 0 # t,
              m_url := Some (text + length mt + 1),
              m_version := Some (text + length mt + length path + 3),
              m_method := GET,
              m_check_state := CHECK_STATE_HEADER \<rparr>)"
proof -
  define u where "u = text + length mt"
  define v where "v = u + 1 + length (47 # path)"
  define B1 where "B1 = a @ mt @ 0 # (47 # path) @ b2 # ver @ 0 # t"
  define B2 where "B2 = a @ mt @ 0 # (47 # path) @ 0 # ver @ 0 # t"
  have mtp: "plain mt" and verp: "plain ver"
    using mt ver plain_tolower plain_literals by blast+
  have nz: "b1 \<noteq> 0" "b2 \<noteq> 0" using b blanks_nonzero by metis+
  have p1: "strpbrk (m_read_buf c) text blanks = Inr (Some u)"
    unfolding buf u_def using strpbrk_found [OF a, of mt blanks b1] mtp b nz by (simp add: plain_def)
  have buf1: "(m_read_buf c)[u := 0] = B1"
    using buf a by (simp add: list_update_append u_def B1_def)
  have c1: "strcasecmp (drop text B1) (bytes ''GET'' @ [0]) = Inr 0"
    using strcasecmp_eq_0_iff [of mt "bytes ''GET''" _ "[]"] mt a mtp plain_literals
    by (simp add: plain_no_zero B1_def)
  have p2: "strpbrk B1 (Suc u) blanks = Inr (Some v)"
    using strpbrk_found [of "a @ mt @ [0]" "u + 1" "47 # path" blanks b2 "ver @ 0 # t"] a path b nz
    by (simp add: plain_def u_def v_def B1_def)
  have buf2: "B1[v := 0] = B2"
    using a by (simp add: list_update_append u_def v_def B1_def B2_def)
  have "drop (Suc v) B2 = ver @ 0 # t"
    using a by (simp add: u_def v_def B2_def numeral_3_eq_3)
  then have c2: "strcasecmp (drop (Suc v) B2) (bytes ''HTTP/1.1'' @ [0]) = Inr 0"
    using strcasecmp_eq_0_iff [of ver "bytes ''HTTP/1.1''" t "[]"] ver verp plain_literals
    by (simp add: plain_no_zero)
  have "drop (Suc u) B2 = 47 # path @ 0 # ver @ 0 # t"
    using a by (simp add: u_def B2_def)
  then have c3: "strncasecmp (drop (Suc u) B2) (bytes ''http://'' @ [0]) 7 = Inr (- 57)"
    using strncasecmp.simps(2) [of 47 "path @ 0 # ver @ 0 # t" 104 "[116, 116, 112, 58, 47, 47, 0]" 6]
    by (simp add: bytes_def tolower_def)
  have r: "rd B2 (Suc u) = Inr 47"
    using a by (simp add: nth_append u_def B2_def)
  have "parse_request_line text c = Inr (NO_REQUEST, c\<lparr> m_read_buf := B2, m_url := Some (Suc u),
      m_version := Some (Suc v), m_method := GET, m_check_state := CHECK_STATE_HEADER \<rparr>)"
    by (simp add: parse_request_line_def Let_def p1 buf1 c1 p2 buf2 c2 c3 r del: drop_update_cancel)
  then show ?thesis by (simp add: B2_def u_def v_def eval_nat_numeral)
qed

lemma no_zero_literals:
  "0 \<notin> set (bytes ''Connection:'')" "0 \<notin> set (bytes ''keep-alive'')"
  "0 \<notin> set (bytes ''Content-Length:'')" "0 \<notin> set (bytes ''Host:'')"
  by (simp_all add: bytes_def)

text \<open>A header test on a terminated line: it returns, and after a match the terminator is ahead.\<close>

lemma header_test:
  assumes z: "0 \<in> set (drop text buf)" and lit: "0 \<notin> set (bytes name)" and n: "length name = n"
  shows "\<exists>d. strncasecmp (drop text buf) (bytes name @ [0]) n = Inr d
           \<and> (d = 0 \<longrightarrow> 0 \<in> set (drop (text + n) buf))"
proof -
  obtain d where d: "strncasecmp (drop text buf) (bytes name @ [0]) n = Inr d"
    using strncasecmp_total [OF z, of n "bytes name @ [0]"] n by auto
  have "0 \<in> set (drop (text + n) buf)" if "d = 0"
    using strncasecmp_match_tail [of "drop text buf" "bytes name" "[0]"] d that z lit n
    by (simp add: add.commute)
  with d show ?thesis by blast
qed

lemma parse_headers_safe:
  assumes z: "0 \<in> set (drop text (m_read_buf c))"
  shows "\<exists>ret c'. parse_headers text c = Inr (ret, c') \<and> ret \<in> {NO_REQUEST, GET_REQUEST}
           \<and> m_read_buf c' = m_read_buf c \<and> m_read_idx c' = m_read_idx c
           \<and> m_checked_index c' = m_checked_index c \<and> m_start_line c' = m_start_line c"
proof -
  let ?b = "m_read_buf c"
  have len: "text < length ?b" using z by (metis drop_all empty_iff list.set(1) not_le)
  obtain d1 where d1: "strncasecmp (drop text ?b) (bytes ''Connection:'' @ [0]) 11 = Inr d1"
      "d1 = 0 \<longrightarrow> 0 \<in> set (drop (text + 11) ?b)"
    using header_test [OF z no_zero_literals(1), of 11] by auto
  obtain d2 where d2: "strncasecmp (drop text ?b) (bytes ''Content-Length:'' @ [0]) 15 = Inr d2"
      "d2 = 0 \<longrightarrow> 0 \<in> set (drop (text + 15) ?b)"
    using header_test [OF z no_zero_literals(3), of 15] by auto
  obtain d3 where d3: "strncasecmp (drop text ?b) (bytes ''Host:'' @ [0]) 5 = Inr d3"
      "d3 = 0 \<longrightarrow> 0 \<in> set (drop (text + 5) ?b)"
    using header_test [OF z no_zero_literals(4), of 5] by auto
  consider (empty) "?b ! text = 0" | (conn) "?b ! text \<noteq> 0" "d1 = 0"
    | (clen) "?b ! text \<noteq> 0" "d1 \<noteq> 0" "d2 = 0"
    | (host) "?b ! text \<noteq> 0" "d1 \<noteq> 0" "d2 \<noteq> 0" "d3 = 0"
    | (other) "?b ! text \<noteq> 0" "d1 \<noteq> 0" "d2 \<noteq> 0" "d3 \<noteq> 0"
    by blast
  then show ?thesis
  proof cases
    case empty
    then show ?thesis using len by (simp add: parse_headers_def)
  next
    case conn
    with d1 obtain n where n: "strspn ?b (text + 11) blanks = Inr n" "0 \<in> set (drop (text + 11 + n) ?b)"
      using strspn_total by metis
    then obtain e where "strcasecmp (drop (text + 11 + n) ?b) (bytes ''keep-alive'' @ [0]) = Inr e"
      using strcasecmp_lit_total no_zero_literals(2) by blast
    with conn n d1 len show ?thesis by (simp add: parse_headers_def)
  next
    case clen
    with d2 obtain n where n: "strspn ?b (text + 15) blanks = Inr n" "0 \<in> set (drop (text + 15 + n) ?b)"
      using strspn_total by metis
    then obtain v where "atol ?b (text + 15 + n) = Inr v"
      using atol_total by blast
    with clen n d1 d2 len show ?thesis by (simp add: parse_headers_def)
  next
    case host
    with d3 obtain n where n: "strspn ?b (text + 5) blanks = Inr n"
      using strspn_total by metis
    with host d1 d2 d3 len show ?thesis by (simp add: parse_headers_def)
  next
    case other
    with d1 d2 d3 len show ?thesis by (simp add: parse_headers_def)
  qed
qed

section \<open>The main state machine\<close>

lemma strpbrk_at_zero: "i < length buf \<Longrightarrow> buf ! i = 0 \<Longrightarrow> strpbrk buf i accept = Inr None"
  by (simp add: strpbrk_def scan_from_def drop_nth_Cons)

lemma request_line_empty:
  "text < length (m_read_buf c) \<Longrightarrow> m_read_buf c ! text = 0
   \<Longrightarrow> parse_request_line text c = Inl NullDeref"
  by (simp add: parse_request_line_def strpbrk_at_zero)

text \<open>What \<open>process_read\<close> does on a connection on which nothing has been parsed yet.\<close>

lemma process_read_first_call:
  assumes wf: "conn_wf c" and st: "m_check_state c = CHECK_STATE_REQUESTLINE"
    and zero: "m_checked_index c = 0" "m_start_line c = 0"
    and empty: "m_read_idx c = 0 \<longrightarrow> m_read_buf c ! 0 = 0"
  shows "process_read c =
    Some (if m_read_idx c = 0 \<or> (1 < m_read_idx c \<and> m_read_buf c ! 0 = 13 \<and> m_read_buf c ! 1 = 10)
          then Inl NullDeref else Inr (NO_REQUEST, c))"
proof -
  have len: "length (m_read_buf c) = 2048" "m_read_idx c \<le> 2048"
    using wf by (auto simp: conn_wf_def READ_BUFFER_SIZE_def)
  have unf: "process_read c = (case parse_line c of
        Inl e \<Rightarrow> Some (Inl e)
      | Inr (st, c1) \<Rightarrow>
          if st \<noteq> LINE_OK then Some (Inr (NO_REQUEST, c1))
          else (case switch_turn (m_start_line c1) st (c1\<lparr>m_start_line := m_checked_index c1\<rparr>) of
                  Inl e \<Rightarrow> Some (Inl e)
                | Inr (Inl r) \<Rightarrow> Some (Inr r)
                | Inr (Inr (st', c2)) \<Rightarrow> process_read_loop st' c2))"
    by (simp add: process_read_def process_read_loop.simps [of LINE_OK c] loop_cond_def st)
  consider (none) "m_read_idx c = 0"
    | (crlf) "1 < m_read_idx c" "m_read_buf c ! 0 = 13" "m_read_buf c ! 1 = 10"
    | (other) "m_read_idx c \<noteq> 0"
        "\<not> (1 < m_read_idx c \<and> m_read_buf c ! 0 = 13 \<and> m_read_buf c ! 1 = 10)"
    by blast
  then show ?thesis
  proof cases
    case none
    with empty zero st len show ?thesis
      by (simp add: unf parse_line_none_left switch_turn_def request_line_empty)
  next
    case crlf
    then have "parse_line c = Inr (LINE_OK, c\<lparr>m_read_buf := (m_read_buf c)[0 := 0, 1 := 0], m_checked_index := 2\<rparr>)"
      using zero len by (simp add: parse_line_def)
    with crlf zero st len show ?thesis
      by (simp add: unf switch_turn_def request_line_empty)
  next
    case other
    then have "parse_line c = Inr (LINE_OPEN, c) \<or> parse_line c = Inr (LINE_BAD, c)"
      using zero len by (auto simp: parse_line_def Let_def)
    with other show ?thesis by (auto simp: unf)
  qed
qed

lemma process_read_after_init:
  assumes "http_read (init_rest c) s = (True, c1, s')"
  shows "process_read c1 =
    Some (if concat (pieces s) = [] \<or> take 2 (concat (pieces s)) = [13, 10]
          then Inl NullDeref else Inr (NO_REQUEST, c1))"
proof -
  let ?d = "concat (pieces s)"
  have frame: "m_check_state c1 = m_check_state (init_rest c) \<and> m_checked_index c1 = m_checked_index (init_rest c)
      \<and> m_start_line c1 = m_start_line (init_rest c)"
    using http_read_frame [OF assms] by simp
  have post: "conn_wf c1" "m_read_idx c1 = length ?d" "take (length ?d) (m_read_buf c1) = ?d"
    "drop (length ?d) (m_read_buf c1) = drop (length ?d) (replicate READ_BUFFER_SIZE 0)"
    using http_read_spec [OF conn_wf_init_rest assms] by (auto simp: read_post_def init_rest_def)
  note two = prefix_starts_with [OF post(3), of 13 10]
  have z: "m_read_buf c1 ! 0 = 0" if "length ?d = 0"
    using post(4) that by (simp add: READ_BUFFER_SIZE_def)
  show ?thesis
    using process_read_first_call [OF post(1)] frame post(2) two z
    by (simp add: init_rest_def)
qed

section \<open>Properties\<close>

text \<open>C4: \<open>read()\<close> on a well-formed connection keeps it well-formed (no byte is stored outside
  the buffer). It returns true exactly when the socket then has no more data and everything it held
  fits with at least one byte to spare; in that case all of the data was appended in order after
  what was there, and the rest of the buffer is unchanged. A request that fills the buffer
  exactly is refused.\<close>

theorem http_read_correct:
  assumes "conn_wf c" and "http_read c s = (ok, c', s')"
  shows "conn_wf c' \<and>
    (ok \<longleftrightarrow> at_end s = SockAgain \<and> m_read_idx c + length (concat (pieces s)) < READ_BUFFER_SIZE) \<and>
    (ok \<longrightarrow> m_read_idx c' = m_read_idx c + length (concat (pieces s)) \<and>
       take (m_read_idx c') (m_read_buf c') = take (m_read_idx c) (m_read_buf c) @ concat (pieces s) \<and>
       drop (m_read_idx c') (m_read_buf c') = drop (m_read_idx c') (m_read_buf c))"
  using http_read_spec [OF assms] unfolding read_post_def .

text \<open>A slot of the connection table as the constructor leaves it, for the witnesses.\<close>

definition blank_conn :: http_conn where
  "blank_conn = \<lparr> m_checked_index = 0, m_start_line = 0, m_url = None, m_version = None,
     m_method = GET, m_host = None, m_linger = False, m_content_length = 0,
     m_check_state = CHECK_STATE_REQUESTLINE, m_sockfd = 5, m_address = 0,
     m_read_buf = replicate READ_BUFFER_SIZE 0, m_read_idx = 0 \<rparr>"

definition get_sock :: sock where
  "get_sock = \<lparr> pieces = [bytes ''GET / HT'', bytes ''TP/1.1'' @ [13, 10]], at_end = SockAgain \<rparr>"

lemma conn_wf_blank: "conn_wf blank_conn"
  by (simp add: blank_conn_def conn_wf_def)

theorem http_read_correct_witness:
  "conn_wf blank_conn \<and> (\<exists>c' s'. http_read blank_conn get_sock = (True, c', s') \<and> m_read_idx c' = 16)"
proof -
  obtain ok c' s' where r: "http_read blank_conn get_sock = (ok, c', s')"
    by (cases "http_read blank_conn get_sock")
  have "ok \<and> m_read_idx c' = 16"
    using http_read_correct [OF conn_wf_blank r]
    by (simp add: blank_conn_def get_sock_def READ_BUFFER_SIZE_def)
  with r conn_wf_blank show ?thesis by auto
qed

text \<open>C26: \<open>parse_request_line\<close> accepts \<open>GET <path> HTTP/1.1\<close> in any letter case, for a path
  that starts with a slash and has no blank: it returns \<open>NO_REQUEST\<close>, cuts the line into three C
  strings by overwriting the two blanks and nothing else, points \<open>m_url\<close> at the path and
  \<open>m_version\<close> at the version, and moves the state machine to the headers.\<close>

theorem parse_request_line_correct:
  assumes "m_read_buf c = a @ mt @ b1 # (47 # path) @ b2 # ver @ 0 # t"
    and "length a = text"
    and "map tolower mt = map tolower (bytes ''GET'')"
    and "map tolower ver = map tolower (bytes ''HTTP/1.1'')"
    and "b1 \<in> {32, 9}" and "b2 \<in> {32, 9}"
    and "\<forall>ch \<in> set path. ch \<noteq> 0 \<and> ch \<noteq> 32 \<and> ch \<noteq> 9"
  shows "parse_request_line text c = Inr (NO_REQUEST,
           c\<lparr> m_read_buf := a @ mt @ 0 # (47 # path) @ 0 # ver @ 0 # t,
              m_url := Some (text + length mt + 1),
              m_version := Some (text + length mt + length path + 3),
              m_method := GET,
              m_check_state := CHECK_STATE_HEADER \<rparr>)"
  by (rule parse_request_line_accepts [OF assms(1-4)])
    (use assms in \<open>simp_all add: plain_def blanks_def\<close>)

theorem parse_request_line_correct_witness:
  "\<exists>c'. parse_request_line 0 (blank_conn\<lparr>m_read_buf := bytes ''get /a http/1.1'' @ [0]\<rparr>) = Inr (NO_REQUEST, c')
     \<and> m_url c' = Some 4"
  using parse_request_line_correct [of "blank_conn\<lparr>m_read_buf := bytes ''get /a http/1.1'' @ [0]\<rparr>"
      "[]" "bytes ''get''" 32 "bytes ''a''" 32 "bytes ''http/1.1''" "[]" 0]
  by (simp add: bytes_def tolower_def)

text \<open>parsing a header line that is terminated inside the buffer never faults, never
  reports a bad request, and leaves the buffer and the scanning positions alone.\<close>

theorem parse_headers_no_fault:
  assumes "0 \<in> set (drop text (m_read_buf c))"
  shows "\<exists>ret c'. parse_headers text c = Inr (ret, c') \<and> ret \<in> {NO_REQUEST, GET_REQUEST}
           \<and> m_read_buf c' = m_read_buf c \<and> m_read_idx c' = m_read_idx c
           \<and> m_checked_index c' = m_checked_index c \<and> m_start_line c' = m_start_line c"
  using assms by (rule parse_headers_safe)

theorem parse_headers_no_fault_witness:
  "\<exists>ret c'. parse_headers 0 (blank_conn\<lparr>m_read_buf := bytes ''Host: a'' @ [0]\<rparr>) = Inr (ret, c')
     \<and> ret \<in> {NO_REQUEST, GET_REQUEST}"
  using parse_headers_no_fault [of 0 "blank_conn\<lparr>m_read_buf := bytes ''Host: a'' @ [0]\<rparr>"]
  by auto

text \<open>C29: the state machine as it stands parses no request at all. After \<open>init()\<close> and a
  successful \<open>read()\<close>, \<open>process_read\<close> dereferences a null pointer when no data has arrived or
  the data starts with an empty line, and in every other case returns \<open>NO_REQUEST\<close> with the
  connection unchanged, because \<open>parse_line\<close> gives up at the first ordinary byte.\<close>

theorem process_read_never_parses:
  assumes "http_read (init_rest c) s = (True, c1, s')"
  shows "process_read c1 =
    Some (if concat (pieces s) = [] \<or> take 2 (concat (pieces s)) = [13, 10]
          then Inl NullDeref else Inr (NO_REQUEST, c1))"
  using assms by (rule process_read_after_init)

theorem process_read_never_parses_witness:
  "\<exists>c1 s'. http_read (init_rest blank_conn) get_sock = (True, c1, s')
     \<and> process_read c1 = Some (Inr (NO_REQUEST, c1))"
proof -
  obtain ok c1 s' where r: "http_read (init_rest blank_conn) get_sock = (ok, c1, s')"
    by (cases "http_read (init_rest blank_conn) get_sock")
  have "ok"
    using http_read_spec [OF conn_wf_init_rest r]
    by (simp add: read_post_def init_rest_def get_sock_def READ_BUFFER_SIZE_def)
  with r have r': "http_read (init_rest blank_conn) get_sock = (True, c1, s')" by simp
  have "process_read c1 = Some (Inr (NO_REQUEST, c1))"
    using process_read_never_parses [OF r'] by (simp add: get_sock_def bytes_def)
  with r' show ?thesis by blast
qed

end
