(* ===== verification/Locker.thy ===== *)
theory Locker
  imports Prelude
begin

text \<open>
  The synchronisation wrappers of \<open>webserver/locker.h\<close>: \<open>locker\<close> over a mutex, \<open>sem\<close>
  over a counting semaphore and \<open>cond\<close> over a condition variable. A call that would block has
  the value \<open>None\<close>: in the step relation of the thread pool the thread then has no step.

  The two locales are the contracts the thread pool relies on; the wrappers interpret them.
\<close>

section \<open>Contracts\<close>

locale mutex =
  fixes lock :: "'t \<Rightarrow> 'l \<Rightarrow> 'l option"
    and unlock :: "'t \<Rightarrow> 'l \<Rightarrow> 'l option"
    and holder :: "'l \<Rightarrow> 't option"
  assumes lock_iff: "lock t l \<noteq> None \<longleftrightarrow> holder l = None"
    and lock_holder: "lock t l = Some l' \<Longrightarrow> holder l' = Some t"
    and unlock_iff: "unlock t l \<noteq> None \<longleftrightarrow> holder l = Some t"
    and unlock_holder: "unlock t l = Some l' \<Longrightarrow> holder l' = None"
begin

lemma lock_free: "lock t l = Some l' \<Longrightarrow> holder l = None"
  using lock_iff [of t l] by simp

lemma locked_excludes: "lock t l = Some l' \<Longrightarrow> lock u l' = None"
  using lock_iff [of u l'] lock_holder [of t l l'] by auto

lemma unlock_held: "unlock t l = Some l' \<Longrightarrow> holder l = Some t"
  using unlock_iff [of t l] by simp

lemma free_lockable: "holder l = None \<Longrightarrow> \<exists>l'. lock t l = Some l'"
  using lock_iff [of t l] by auto

lemma held_unlockable: "holder l = Some t \<Longrightarrow> \<exists>l'. unlock t l = Some l'"
  using unlock_iff [of t l] by auto

lemma unlock_then_lock: "unlock t l = Some l' \<Longrightarrow> \<exists>l''. lock u l' = Some l''"
  using unlock_holder [of t l l'] free_lockable [of l' u] by simp

end

locale semaphore =
  fixes sem_wait :: "'s \<Rightarrow> 's option"
    and sem_post :: "'s \<Rightarrow> bool \<times> 's"
    and value_of :: "'s \<Rightarrow> nat"
    and max_value :: nat
  assumes wait_iff: "sem_wait s \<noteq> None \<longleftrightarrow> 0 < value_of s"
    and wait_value: "sem_wait s = Some s' \<Longrightarrow> value_of s = Suc (value_of s')"
    and post_value: "sem_post s = (ok, s') \<Longrightarrow>
      ok = (value_of s < max_value) \<and> value_of s' = (if ok then Suc (value_of s) else value_of s)"
begin

lemma positive_waitable: "0 < value_of s \<Longrightarrow> \<exists>s'. sem_wait s = Some s'"
  using wait_iff [of s] by auto

lemma post_then_wait:
  "value_of s < max_value \<Longrightarrow> \<exists>s'. sem_wait (snd (sem_post s)) = Some s' \<and> value_of s' = value_of s"
proof -
  assume lt: "value_of s < max_value"
  obtain ok s1 where p: "sem_post s = (ok, s1)" by (cases "sem_post s")
  with post_value lt have v: "value_of s1 = Suc (value_of s)" by auto
  then obtain s' where "sem_wait s1 = Some s'" using positive_waitable by fastforce
  with wait_value v p show ?thesis by fastforce
qed

end

section \<open>The wrappers\<close>

text \<open>\<open>class locker\<close>: the state of its \<open>pthread_mutex_t\<close> is the thread that holds it.\<close>

record 't locker =
  m_mutex :: "'t option"

text \<open>The constructors throw when the initialisation of the primitive fails.\<close>

definition locker_new :: "bool \<Rightarrow> unit + 't locker" where
  "locker_new init_ok = (if init_ok then Inr \<lparr>m_mutex = None\<rparr> else Inl ())"

definition locker_lock :: "'t \<Rightarrow> 't locker \<Rightarrow> 't locker option" where
  "locker_lock t l = (if m_mutex l = None then Some (l\<lparr>m_mutex := Some t\<rparr>) else None)"

text \<open>Unlocking a mutex the thread does not hold is undefined for this mutex type.\<close>

definition locker_unlock :: "'t \<Rightarrow> 't locker \<Rightarrow> 't locker option" where
  "locker_unlock t l = (if m_mutex l = Some t then Some (l\<lparr>m_mutex := None\<rparr>) else None)"

text \<open>\<open>class sem\<close>: the counter of its \<open>sem_t\<close>, which saturates at \<open>SEM_VALUE_MAX\<close>.\<close>

record sem =
  m_sem :: nat

definition SEM_VALUE_MAX :: nat where
  "SEM_VALUE_MAX = 2 ^ 31 - 1"

definition sem_new :: "nat \<Rightarrow> bool \<Rightarrow> unit + sem" where
  "sem_new num init_ok = (if init_ok then Inr \<lparr>m_sem = num\<rparr> else Inl ())"

definition sem_wait :: "sem \<Rightarrow> sem option" where
  "sem_wait s = (if 0 < m_sem s then Some (s\<lparr>m_sem := m_sem s - 1\<rparr>) else None)"

definition sem_post :: "sem \<Rightarrow> bool \<times> sem" where
  "sem_post s = (if m_sem s < SEM_VALUE_MAX then (True, s\<lparr>m_sem := Suc (m_sem s)\<rparr>) else (False, s))"

text \<open>
  \<open>class cond\<close>: the threads that wait on the \<open>pthread_cond_t\<close>, longest first. A waiter gives
  up the mutex as it starts to wait; a signalled thread has to lock the mutex again.
\<close>

record 't cond =
  m_cond :: "'t list"

definition cond_new :: "bool \<Rightarrow> unit + 't cond" where
  "cond_new init_ok = (if init_ok then Inr \<lparr>m_cond = []\<rparr> else Inl ())"

definition cond_wait :: "'t \<Rightarrow> 't cond \<Rightarrow> 't locker \<Rightarrow> ('t cond \<times> 't locker) option" where
  "cond_wait t c l =
     (case locker_unlock t l of None \<Rightarrow> None
      | Some l' \<Rightarrow> Some (c\<lparr>m_cond := m_cond c @ [t]\<rparr>, l'))"

definition cond_signal :: "'t cond \<Rightarrow> 't cond" where
  "cond_signal c = c\<lparr>m_cond := tl (m_cond c)\<rparr>"

definition cond_broadcast :: "'t cond \<Rightarrow> 't cond" where
  "cond_broadcast c = c\<lparr>m_cond := []\<rparr>"

section \<open>The wrappers meet the contracts\<close>

interpretation mx: mutex locker_lock locker_unlock m_mutex
  by unfold_locales (auto simp: locker_lock_def locker_unlock_def split: if_splits)

interpretation qs: semaphore sem_wait sem_post m_sem SEM_VALUE_MAX
  by unfold_locales (auto simp: sem_wait_def sem_post_def split: if_splits)

end
