(* ===== verification/Threadpool.thy ===== *)
theory Threadpool
  imports Locker
begin

text \<open>
  The class \<open>threadpool\<close> of \<open>webserver/threadpool.h\<close>: the constructor, \<open>append\<close>, the worker
  loop \<open>run\<close> and the destructor. The threads interleave: a state holds the pool, the program
  counter of every worker and of every client (a thread that calls \<open>append\<close>), and two history
  variables (the requests pushed and the requests popped, in order). Every program point at
  which another thread can observe the pool is a program counter value.

  A request is a pointer, \<open>None\<close> the null pointer. \<open>sem_wait\<close> may be interrupted; \<open>run\<close>
  ignores its result, so an interrupted wait goes on without having taken a unit.
\<close>

section \<open>State\<close>

datatype thread = Worker nat | Client nat

datatype 'r worker_pc =
    W_loop                     \<comment> \<open>at \<open>while (!m_stop)\<close>\<close>
  | W_wait                     \<comment> \<open>at \<open>m_queuestat.wait()\<close>\<close>
  | W_lock                     \<comment> \<open>at \<open>m_queuelocker.lock()\<close>\<close>
  | W_check                    \<comment> \<open>holding the lock, at \<open>m_workqueue.empty()\<close>\<close>
  | W_unlock_empty             \<comment> \<open>holding the lock, the queue was empty\<close>
  | W_unlock "'r option"       \<comment> \<open>holding the lock, with the request taken\<close>
  | W_run "'r option"          \<comment> \<open>lock released, about to process\<close>
  | W_exit                     \<comment> \<open>\<open>run\<close> has returned\<close>

datatype 'r client_pc =
    A_idle                     \<comment> \<open>outside \<open>append\<close>\<close>
  | A_lock "'r option"         \<comment> \<open>at \<open>m_queuelocker.lock()\<close>\<close>
  | A_check "'r option"        \<comment> \<open>holding the lock, at the size test\<close>
  | A_unlock_full              \<comment> \<open>holding the lock, the queue was full\<close>
  | A_unlock                   \<comment> \<open>holding the lock, the request is pushed\<close>
  | A_post                     \<comment> \<open>lock released, at \<open>m_queuestat.post()\<close>\<close>

record 'r threadpool =
  m_thread_number :: nat
  m_max_requests :: nat
  m_workqueue :: "'r option list"
  m_queuelocker :: "thread locker"
  m_queuestat :: sem
  m_stop :: bool

record 'r system =
  pool :: "'r threadpool"
  wpc :: "nat \<Rightarrow> 'r worker_pc"
  cpc :: "nat \<Rightarrow> 'r client_pc"
  pushed :: "'r option list"
  popped :: "'r option list"

section \<open>Operations\<close>

text \<open>
  The constructor. \<open>new\<close> does not return null, so the test after it does not fire; the two
  arguments give the results of \<open>pthread_create\<close> and \<open>pthread_detach\<close> for each thread, true
  for success. Any failure throws.
\<close>

fun create_threads :: "(nat \<Rightarrow> bool) \<Rightarrow> (nat \<Rightarrow> bool) \<Rightarrow> nat \<Rightarrow> bool" where
  "create_threads create detach 0 = True"
| "create_threads create detach (Suc n) = (create_threads create detach n \<and> create n \<and> detach n)"

definition threadpool_new ::
  "int \<Rightarrow> int \<Rightarrow> (nat \<Rightarrow> bool) \<Rightarrow> (nat \<Rightarrow> bool) \<Rightarrow> unit + 'r threadpool" where
  "threadpool_new thread_number max_request create detach =
     (if thread_number \<le> 0 \<or> max_request \<le> 0 then Inl ()
      else if \<not> create_threads create detach (nat thread_number) then Inl ()
      else Inr \<lparr> m_thread_number = nat thread_number, m_max_requests = nat max_request,
                 m_workqueue = [], m_queuelocker = \<lparr>m_mutex = None\<rparr>, m_queuestat = \<lparr>m_sem = 0\<rparr>,
                 m_stop = False \<rparr>)"

text \<open>\<open>append\<close> as the calling thread sees it when no other thread runs.\<close>

definition append_seq :: "'r option \<Rightarrow> 'r threadpool \<Rightarrow> bool \<times> 'r threadpool" where
  "append_seq request p =
     (if length (m_workqueue p) > m_max_requests p then (False, p)
      else (True, p\<lparr> m_workqueue := m_workqueue p @ [request],
                     m_queuestat := snd (sem_post (m_queuestat p)) \<rparr>))"

text \<open>One step of client \<open>j\<close> through \<open>append\<close>.\<close>

inductive client_step :: "nat \<Rightarrow> 'r system \<Rightarrow> 'r system \<Rightarrow> bool" where
  append_call: "cpc s j = A_idle \<Longrightarrow>
     client_step j s (s\<lparr>cpc := (cpc s)(j := A_lock request)\<rparr>)"
| append_lock: "cpc s j = A_lock request \<Longrightarrow> locker_lock (Client j) (m_queuelocker (pool s)) = Some l \<Longrightarrow>
     client_step j s (s\<lparr>pool := (pool s)\<lparr>m_queuelocker := l\<rparr>, cpc := (cpc s)(j := A_check request)\<rparr>)"
| append_full: "cpc s j = A_check request \<Longrightarrow>
     length (m_workqueue (pool s)) > m_max_requests (pool s) \<Longrightarrow>
     client_step j s (s\<lparr>cpc := (cpc s)(j := A_unlock_full)\<rparr>)"
| append_push: "cpc s j = A_check request \<Longrightarrow>
     \<not> length (m_workqueue (pool s)) > m_max_requests (pool s) \<Longrightarrow>
     client_step j s (s\<lparr>pool := (pool s)\<lparr>m_workqueue := m_workqueue (pool s) @ [request]\<rparr>,
                        cpc := (cpc s)(j := A_unlock), pushed := pushed s @ [request]\<rparr>)"
| append_unlock_full: "cpc s j = A_unlock_full \<Longrightarrow>
     locker_unlock (Client j) (m_queuelocker (pool s)) = Some l \<Longrightarrow>
     client_step j s (s\<lparr>pool := (pool s)\<lparr>m_queuelocker := l\<rparr>, cpc := (cpc s)(j := A_idle)\<rparr>)"
| append_unlock: "cpc s j = A_unlock \<Longrightarrow>
     locker_unlock (Client j) (m_queuelocker (pool s)) = Some l \<Longrightarrow>
     client_step j s (s\<lparr>pool := (pool s)\<lparr>m_queuelocker := l\<rparr>, cpc := (cpc s)(j := A_post)\<rparr>)"
| append_post: "cpc s j = A_post \<Longrightarrow> sem_post (m_queuestat (pool s)) = (ok, q) \<Longrightarrow>
     client_step j s (s\<lparr>pool := (pool s)\<lparr>m_queuestat := q\<rparr>, cpc := (cpc s)(j := A_idle)\<rparr>)"

text \<open>One step of worker \<open>i\<close> through \<open>run\<close>.\<close>

inductive worker_step :: "nat \<Rightarrow> 'r system \<Rightarrow> 'r system \<Rightarrow> bool" where
  run_stop: "wpc s i = W_loop \<Longrightarrow> m_stop (pool s) \<Longrightarrow>
     worker_step i s (s\<lparr>wpc := (wpc s)(i := W_exit)\<rparr>)"
| run_enter: "wpc s i = W_loop \<Longrightarrow> \<not> m_stop (pool s) \<Longrightarrow>
     worker_step i s (s\<lparr>wpc := (wpc s)(i := W_wait)\<rparr>)"
| run_wait: "wpc s i = W_wait \<Longrightarrow> sem_wait (m_queuestat (pool s)) = Some q \<Longrightarrow>
     worker_step i s (s\<lparr>pool := (pool s)\<lparr>m_queuestat := q\<rparr>, wpc := (wpc s)(i := W_lock)\<rparr>)"
| run_wait_interrupted: "wpc s i = W_wait \<Longrightarrow>
     worker_step i s (s\<lparr>wpc := (wpc s)(i := W_lock)\<rparr>)"
| run_lock: "wpc s i = W_lock \<Longrightarrow> locker_lock (Worker i) (m_queuelocker (pool s)) = Some l \<Longrightarrow>
     worker_step i s (s\<lparr>pool := (pool s)\<lparr>m_queuelocker := l\<rparr>, wpc := (wpc s)(i := W_check)\<rparr>)"
| run_empty: "wpc s i = W_check \<Longrightarrow> m_workqueue (pool s) = [] \<Longrightarrow>
     worker_step i s (s\<lparr>wpc := (wpc s)(i := W_unlock_empty)\<rparr>)"
| run_pop: "wpc s i = W_check \<Longrightarrow> m_workqueue (pool s) = request # rest \<Longrightarrow>
     worker_step i s (s\<lparr>pool := (pool s)\<lparr>m_workqueue := rest\<rparr>, wpc := (wpc s)(i := W_unlock request),
                        popped := popped s @ [request]\<rparr>)"
| run_unlock_empty: "wpc s i = W_unlock_empty \<Longrightarrow>
     locker_unlock (Worker i) (m_queuelocker (pool s)) = Some l \<Longrightarrow>
     worker_step i s (s\<lparr>pool := (pool s)\<lparr>m_queuelocker := l\<rparr>, wpc := (wpc s)(i := W_loop)\<rparr>)"
| run_unlock: "wpc s i = W_unlock request \<Longrightarrow>
     locker_unlock (Worker i) (m_queuelocker (pool s)) = Some l \<Longrightarrow>
     worker_step i s (s\<lparr>pool := (pool s)\<lparr>m_queuelocker := l\<rparr>, wpc := (wpc s)(i := W_run request)\<rparr>)"
| run_process: "wpc s i = W_run request \<Longrightarrow>
     worker_step i s (s\<lparr>wpc := (wpc s)(i := W_loop)\<rparr>)"

text \<open>
  The body of the destructor: it sets the flag; \<open>delete[] m_threads\<close> frees memory no step reads. The
  members (the queue, its mutex and the semaphore) are destroyed after the body although the workers
  are detached and never joined; the steps below are those of the time before that, which in this
  program is the end of \<open>main\<close> and of the process.
\<close>

definition threadpool_destroy :: "'r threadpool \<Rightarrow> 'r threadpool" where
  "threadpool_destroy p = p\<lparr>m_stop := True\<rparr>"

text \<open>The whole system: \<open>k\<close> clients, the workers of the pool, and the destructor.\<close>

inductive pool_step :: "nat \<Rightarrow> 'r system \<Rightarrow> 'r system \<Rightarrow> bool" for k where
  by_client: "j < k \<Longrightarrow> client_step j s s' \<Longrightarrow> pool_step k s s'"
| by_worker: "i < m_thread_number (pool s) \<Longrightarrow> worker_step i s s' \<Longrightarrow> pool_step k s s'"
| by_destructor: "pool_step k s (s\<lparr>pool := threadpool_destroy (pool s)\<rparr>)"

definition init_system :: "'r threadpool \<Rightarrow> 'r system" where
  "init_system p = \<lparr> pool = p, wpc = (\<lambda>_. W_loop), cpc = (\<lambda>_. A_idle), pushed = [], popped = [] \<rparr>"

inductive pool_reachable :: "nat \<Rightarrow> 'r threadpool \<Rightarrow> 'r system \<Rightarrow> bool" for k p where
  start: "pool_reachable k p (init_system p)"
| step: "pool_reachable k p s \<Longrightarrow> pool_step k s s' \<Longrightarrow> pool_reachable k p s'"

inductive_cases client_stepE: "client_step j s s'"
inductive_cases worker_stepE: "worker_step i s s'"
inductive_cases pool_stepE: "pool_step k s s'"

section \<open>Counting threads at a program point\<close>

fun cnt :: "('a \<Rightarrow> bool) \<Rightarrow> (nat \<Rightarrow> 'a) \<Rightarrow> nat \<Rightarrow> nat" where
  "cnt P f 0 = 0"
| "cnt P f (Suc n) = cnt P f n + of_bool (P (f n))"

lemma cnt_upd_above: "n \<le> i \<Longrightarrow> cnt P (f(i := v)) n = cnt P f n"
  by (induction n) auto

lemma cnt_upd:
  "i < n \<Longrightarrow> cnt P (f(i := v)) n + of_bool (P (f i)) = cnt P f n + of_bool (P v)"
proof (induction n)
  case (Suc n)
  then show ?case by (cases "i = n") (simp_all add: cnt_upd_above fun_upd_same fun_upd_other del: fun_upd_apply)
qed simp

lemma cnt_pos: "0 < cnt P f n \<Longrightarrow> \<exists>i < n. P (f i)"
  by (induction n) (auto simp: less_Suc_eq split: if_splits)

section \<open>The invariant\<close>

text \<open>Program points at which a thread holds the lock, has a unit of the semaphore to use up, or
  has a request pushed that the semaphore does not count yet.\<close>

fun w_critical :: "'r worker_pc \<Rightarrow> bool" where
  "w_critical W_check = True"
| "w_critical W_unlock_empty = True"
| "w_critical (W_unlock r) = True"
| "w_critical _ = False"

fun c_critical :: "'r client_pc \<Rightarrow> bool" where
  "c_critical (A_check r) = True"
| "c_critical A_unlock_full = True"
| "c_critical A_unlock = True"
| "c_critical _ = False"

definition w_claims :: "'r worker_pc \<Rightarrow> bool" where
  "w_claims pc \<longleftrightarrow> pc = W_lock \<or> pc = W_check"

definition c_owes :: "'r client_pc \<Rightarrow> bool" where
  "c_owes pc \<longleftrightarrow> pc = A_unlock \<or> pc = A_post"

definition owner_inv :: "'r system \<Rightarrow> bool" where
  "owner_inv s \<longleftrightarrow>
     (\<forall>i. w_critical (wpc s i) \<longleftrightarrow> m_mutex (m_queuelocker (pool s)) = Some (Worker i)) \<and>
     (\<forall>j. c_critical (cpc s j) \<longleftrightarrow> m_mutex (m_queuelocker (pool s)) = Some (Client j))"

definition queue_inv :: "'r system \<Rightarrow> bool" where
  "queue_inv s \<longleftrightarrow> pushed s = popped s @ m_workqueue (pool s) \<and>
     length (m_workqueue (pool s)) \<le> m_max_requests (pool s) + 1"

definition sem_inv :: "nat \<Rightarrow> 'r system \<Rightarrow> bool" where
  "sem_inv k s \<longleftrightarrow> length (m_workqueue (pool s)) \<le>
     m_sem (m_queuestat (pool s)) + cnt w_claims (wpc s) (m_thread_number (pool s)) + cnt c_owes (cpc s) k"

definition exit_inv :: "'r system \<Rightarrow> bool" where
  "exit_inv s \<longleftrightarrow> (\<forall>i. wpc s i = W_exit \<longrightarrow> m_stop (pool s)) \<and>
     (\<forall>i \<ge> m_thread_number (pool s). wpc s i = W_loop)"

definition const_inv :: "'r threadpool \<Rightarrow> 'r system \<Rightarrow> bool" where
  "const_inv p s \<longleftrightarrow> m_thread_number (pool s) = m_thread_number p \<and> m_max_requests (pool s) = m_max_requests p"

text \<open>The lock is held exactly by the threads inside their critical sections.\<close>

lemma locker_lock_Some: "locker_lock t l = Some l' \<longleftrightarrow> m_mutex l = None \<and> l' = l\<lparr>m_mutex := Some t\<rparr>"
  by (auto simp: locker_lock_def)

lemma locker_unlock_Some: "locker_unlock t l = Some l' \<longleftrightarrow> m_mutex l = Some t \<and> l' = l\<lparr>m_mutex := None\<rparr>"
  by (auto simp: locker_unlock_def)

lemmas lock_simps = locker_lock_Some locker_unlock_Some

lemma owner_invD:
  "owner_inv s \<Longrightarrow> w_critical (wpc s i) \<longleftrightarrow> m_mutex (m_queuelocker (pool s)) = Some (Worker i)"
  "owner_inv s \<Longrightarrow> c_critical (cpc s j) \<longleftrightarrow> m_mutex (m_queuelocker (pool s)) = Some (Client j)"
  by (simp_all add: owner_inv_def)

lemma owner_inv_client:
  assumes step: "client_step j s s'" and inv: "owner_inv s"
  shows "owner_inv s'"
  using step owner_invD(2) [OF inv, of j] inv
  by (elim client_stepE) (auto simp: owner_inv_def lock_simps split: if_splits)

lemma owner_inv_worker:
  assumes step: "worker_step i s s'" and inv: "owner_inv s"
  shows "owner_inv s'"
  using step owner_invD(1) [OF inv, of i] inv
  by (elim worker_stepE) (auto simp: owner_inv_def lock_simps split: if_splits)

lemma destroy_keeps:
  "owner_inv (s\<lparr>pool := threadpool_destroy (pool s)\<rparr>) = owner_inv s"
  "queue_inv (s\<lparr>pool := threadpool_destroy (pool s)\<rparr>) = queue_inv s"
  "sem_inv k (s\<lparr>pool := threadpool_destroy (pool s)\<rparr>) = sem_inv k s"
  "const_inv p (s\<lparr>pool := threadpool_destroy (pool s)\<rparr>) = const_inv p s"
  "exit_inv s \<Longrightarrow> exit_inv (s\<lparr>pool := threadpool_destroy (pool s)\<rparr>)"
  by (simp_all add: owner_inv_def queue_inv_def sem_inv_def const_inv_def exit_inv_def threadpool_destroy_def)

lemma owner_inv_step: "pool_step k s s' \<Longrightarrow> owner_inv s \<Longrightarrow> owner_inv s'"
  by (erule pool_stepE) (auto intro: owner_inv_client owner_inv_worker simp: destroy_keeps)

text \<open>The queue is what was pushed less what was popped, and bounded.\<close>

lemma queue_inv_step: "pool_step k s s' \<Longrightarrow> queue_inv s \<Longrightarrow> queue_inv s'"
proof (erule pool_stepE)
  fix j assume "client_step j s s'" and "queue_inv s"
  then show ?thesis by (elim client_stepE) (auto simp: queue_inv_def)
next
  fix i assume "worker_step i s s'" and "queue_inv s"
  then show ?thesis by (elim worker_stepE) (auto simp: queue_inv_def)
qed (simp add: destroy_keeps)

lemma const_inv_step: "pool_step k s s' \<Longrightarrow> const_inv p s \<Longrightarrow> const_inv p s'"
proof (erule pool_stepE)
  fix j assume "client_step j s s'" and "const_inv p s"
  then show ?thesis by (elim client_stepE) (auto simp: const_inv_def)
next
  fix i assume "worker_step i s s'" and "const_inv p s"
  then show ?thesis by (elim worker_stepE) (auto simp: const_inv_def)
qed (simp add: destroy_keeps)

lemma exit_inv_step: "pool_step k s s' \<Longrightarrow> exit_inv s \<Longrightarrow> exit_inv s'"
proof (erule pool_stepE)
  fix j assume "client_step j s s'" and "exit_inv s"
  then show ?thesis by (elim client_stepE) (auto simp: exit_inv_def)
next
  fix i assume "i < m_thread_number (pool s)" and "worker_step i s s'" and "exit_inv s"
  then show ?thesis by (elim worker_stepE) (auto simp: exit_inv_def)
qed (simp add: destroy_keeps)

text \<open>The semaphore never counts fewer units than there are requests no thread is about to take.\<close>

lemma sem_inv_client:
  assumes step: "client_step j s s'" and j: "j < k" and inv: "sem_inv k s"
    and q: "queue_inv s" and bound: "m_max_requests (pool s) < SEM_VALUE_MAX"
  shows "sem_inv k s'"
proof -
  have c: "cnt c_owes ((cpc s)(j := v)) k + of_bool (c_owes (cpc s j)) = cnt c_owes (cpc s) k + of_bool (c_owes v)" for v
    by (rule cnt_upd [OF j])
  from step show ?thesis
  proof cases
    case (append_post ok q')
    from qs.post_value [OF append_post(3)] have
      "m_sem q' = (if m_sem (m_queuestat (pool s)) < SEM_VALUE_MAX then Suc (m_sem (m_queuestat (pool s)))
        else m_sem (m_queuestat (pool s)))" by simp
    with append_post c [of A_idle] inv q bound show ?thesis
      by (auto simp: sem_inv_def queue_inv_def c_owes_def split: if_splits)
  next
    case (append_call r)
    with c [of "A_lock r"] inv show ?thesis by (simp add: sem_inv_def c_owes_def)
  next
    case (append_lock r l)
    with c [of "A_check r"] inv show ?thesis by (simp add: sem_inv_def c_owes_def)
  next
    case (append_full r)
    with c [of A_unlock_full] inv show ?thesis by (simp add: sem_inv_def c_owes_def)
  next
    case (append_push r)
    with c [of A_unlock] inv show ?thesis by (simp add: sem_inv_def c_owes_def)
  next
    case (append_unlock_full l)
    with c [of A_idle] inv show ?thesis by (simp add: sem_inv_def c_owes_def)
  next
    case (append_unlock l)
    with c [of A_post] inv show ?thesis by (simp add: sem_inv_def c_owes_def)
  qed
qed

lemma sem_inv_worker:
  assumes step: "worker_step i s s'" and i: "i < m_thread_number (pool s)" and inv: "sem_inv k s"
  shows "sem_inv k s'"
proof -
  let ?n = "m_thread_number (pool s)"
  have c: "cnt w_claims ((wpc s)(i := v)) ?n + of_bool (w_claims (wpc s i)) = cnt w_claims (wpc s) ?n + of_bool (w_claims v)" for v
    by (rule cnt_upd [OF i])
  from step show ?thesis
  proof cases
    case run_stop
    with c [of W_exit] inv show ?thesis by (simp add: sem_inv_def w_claims_def)
  next
    case run_enter
    with c [of W_wait] inv show ?thesis by (simp add: sem_inv_def w_claims_def)
  next
    case (run_wait q)
    with c [of W_lock] inv qs.wait_value [OF run_wait(3)] show ?thesis by (simp add: sem_inv_def w_claims_def)
  next
    case run_wait_interrupted
    with c [of W_lock] inv show ?thesis by (simp add: sem_inv_def w_claims_def)
  next
    case (run_lock l)
    with c [of W_check] inv show ?thesis by (simp add: sem_inv_def w_claims_def)
  next
    case run_empty
    with c [of W_unlock_empty] inv show ?thesis by (simp add: sem_inv_def w_claims_def)
  next
    case (run_pop r rest)
    with c [of "W_unlock r"] inv show ?thesis by (simp add: sem_inv_def w_claims_def)
  next
    case (run_unlock_empty l)
    with c [of W_loop] inv show ?thesis by (simp add: sem_inv_def w_claims_def)
  next
    case (run_unlock r l)
    with c [of "W_run r"] inv show ?thesis by (simp add: sem_inv_def w_claims_def)
  next
    case (run_process r)
    with c [of W_loop] inv show ?thesis by (simp add: sem_inv_def w_claims_def)
  qed
qed

lemma sem_inv_step:
  "pool_step k s s' \<Longrightarrow> sem_inv k s \<Longrightarrow> queue_inv s \<Longrightarrow> m_max_requests (pool s) < SEM_VALUE_MAX
   \<Longrightarrow> sem_inv k s'"
  by (erule pool_stepE) (auto intro: sem_inv_client sem_inv_worker simp: destroy_keeps)

text \<open>A pool as the constructor makes it, and the invariant of everything reachable from it.\<close>

definition pool_fresh :: "'r threadpool \<Rightarrow> bool" where
  "pool_fresh p \<longleftrightarrow> m_workqueue p = [] \<and> m_mutex (m_queuelocker p) = None \<and> m_sem (m_queuestat p) = 0
     \<and> \<not> m_stop p \<and> 0 < m_thread_number p \<and> 0 < m_max_requests p \<and> m_max_requests p < SEM_VALUE_MAX"

lemma threadpool_new_fresh:
  "threadpool_new n m create detach = Inr p \<Longrightarrow> m < int SEM_VALUE_MAX \<Longrightarrow> pool_fresh p"
  by (auto simp: threadpool_new_def pool_fresh_def split: if_splits)

lemma reachable_invs:
  assumes "pool_reachable k p s" and fresh: "pool_fresh p"
  shows "owner_inv s \<and> queue_inv s \<and> sem_inv k s \<and> exit_inv s \<and> const_inv p s"
  using assms(1)
proof (induction rule: pool_reachable.induct)
  case start
  from fresh show ?case
    by (simp add: pool_fresh_def init_system_def owner_inv_def queue_inv_def sem_inv_def exit_inv_def const_inv_def)
next
  case (step s s')
  then have "m_max_requests (pool s) < SEM_VALUE_MAX"
    using fresh by (simp add: const_inv_def pool_fresh_def)
  with step show ?case
    by (blast intro: owner_inv_step queue_inv_step sem_inv_step exit_inv_step const_inv_step)
qed

section \<open>Progress\<close>

text \<open>A thread inside its critical section can always take its next step.\<close>

lemma holder_worker_steps:
  assumes inv: "owner_inv s" and crit: "w_critical (wpc s i)"
  shows "\<exists>s'. worker_step i s s'"
proof -
  have "m_mutex (m_queuelocker (pool s)) = Some (Worker i)"
    using owner_invD(1) [OF inv] crit by blast
  then obtain l where l: "locker_unlock (Worker i) (m_queuelocker (pool s)) = Some l"
    using mx.held_unlockable by metis
  from crit show ?thesis
    by (cases "wpc s i" rule: w_critical.cases; cases "m_workqueue (pool s)")
      (auto intro: worker_step.intros l)
qed

lemma holder_client_steps:
  assumes inv: "owner_inv s" and crit: "c_critical (cpc s j)"
  shows "\<exists>s'. client_step j s s'"
proof -
  have "m_mutex (m_queuelocker (pool s)) = Some (Client j)"
    using owner_invD(2) [OF inv] crit by blast
  then obtain l where l: "locker_unlock (Client j) (m_queuelocker (pool s)) = Some l"
    using mx.held_unlockable by metis
  from crit show ?thesis
    by (cases "cpc s j" rule: c_critical.cases;
        cases "length (m_workqueue (pool s)) > m_max_requests (pool s)")
      (auto intro: client_step.intros l)
qed

lemma free_worker_steps:
  assumes inv: "owner_inv s" and free: "m_mutex (m_queuelocker (pool s)) = None"
    and "wpc s i = W_wait \<longrightarrow> 0 < m_sem (m_queuestat (pool s))" and "wpc s i \<noteq> W_exit"
  shows "\<exists>s'. worker_step i s s'"
proof -
  obtain l where l: "locker_lock (Worker i) (m_queuelocker (pool s)) = Some l"
    using mx.free_lockable [OF free] by blast
  have "\<not> w_critical (wpc s i)" using owner_invD(1) [OF inv] free by simp
  with assms show ?thesis
    by (cases "wpc s i"; cases "m_stop (pool s)")
      (auto intro: worker_step.intros l dest: qs.positive_waitable)
qed

text \<open>A worker that can go on by itself, without waiting for the semaphore to be posted or for its wait to be
  interrupted.\<close>

definition unblocked :: "'r system \<Rightarrow> nat \<Rightarrow> bool" where
  "unblocked s i \<longleftrightarrow> (wpc s i = W_wait \<longrightarrow> 0 < m_sem (m_queuestat (pool s)))"

text \<open>A queued request keeps the system going: some worker, or a client inside \<open>append\<close>, can step.\<close>

lemma queued_progress:
  assumes own: "owner_inv s" and sem: "sem_inv k s" and ex: "exit_inv s"
    and queued: "m_workqueue (pool s) \<noteq> []" and running: "\<not> m_stop (pool s)"
    and n: "0 < m_thread_number (pool s)"
  shows "(\<exists>i < m_thread_number (pool s). unblocked s i \<and> (\<exists>s'. worker_step i s s')) \<or>
         (\<exists>j. cpc s j \<noteq> A_idle \<and> (\<exists>s'. client_step j s s'))"
proof (cases "m_mutex (m_queuelocker (pool s))")
  case (Some t)
  then show ?thesis
  proof (cases t)
    case (Client j)
    then have "c_critical (cpc s j)" using owner_invD(2) [OF own] Some by blast
    then have "cpc s j \<noteq> A_idle" "\<exists>s'. client_step j s s'"
      using holder_client_steps [OF own] by auto
    then show ?thesis by blast
  next
    case (Worker i)
    then have crit: "w_critical (wpc s i)" using owner_invD(1) [OF own] Some by blast
    then have "i < m_thread_number (pool s)" using ex by (cases "i < m_thread_number (pool s)") (auto simp: exit_inv_def)
    moreover have "unblocked s i" using crit by (auto simp: unblocked_def)
    ultimately show ?thesis using holder_worker_steps [OF own crit] by blast
  qed
next
  case None
  have "0 < length (m_workqueue (pool s))" using queued by simp
  then consider (units) "0 < m_sem (m_queuestat (pool s))"
    | (claims) "0 < cnt w_claims (wpc s) (m_thread_number (pool s))"
    | (owes) "0 < cnt c_owes (cpc s) k"
    using sem unfolding sem_inv_def by linarith
  then show ?thesis
  proof cases
    case units
    with free_worker_steps [OF own None, of 0] n ex running show ?thesis
      by (auto simp: exit_inv_def unblocked_def)
  next
    case claims
    then obtain i where "i < m_thread_number (pool s)" "w_claims (wpc s i)" using cnt_pos by blast
    with free_worker_steps [OF own None, of i] show ?thesis by (auto simp: w_claims_def unblocked_def)
  next
    case owes
    then obtain j where j: "c_owes (cpc s j)" using cnt_pos by blast
    have "\<not> c_critical (cpc s j)" using owner_invD(2) [OF own] None by simp
    with j have "cpc s j = A_post" by (auto simp: c_owes_def)
    moreover obtain ok q where "sem_post (m_queuestat (pool s)) = (ok, q)"
      by (cases "sem_post (m_queuestat (pool s))")
    ultimately have "cpc s j \<noteq> A_idle" "\<exists>s'. client_step j s s'"
      by (auto intro: client_step.append_post)
    then show ?thesis by blast
  qed
qed

section \<open>\<open>append\<close> on its own\<close>

text \<open>A client that runs through \<open>append\<close> without interference performs \<open>append_seq\<close>.\<close>

lemma append_runs:
  assumes idle: "cpc s j = A_idle" and free: "m_mutex (m_queuelocker (pool s)) = None"
  shows "(client_step j)\<^sup>*\<^sup>* s (s\<lparr> pool := snd (append_seq request (pool s)),
     pushed := pushed s @ (if fst (append_seq request (pool s)) then [request] else []) \<rparr>)"
proof -
  let ?t = "s\<lparr> pool := snd (append_seq request (pool s)),
     pushed := pushed s @ (if fst (append_seq request (pool s)) then [request] else []) \<rparr>"
  obtain n mx q ql qs st W C U V where
    s: "s = \<lparr>pool = \<lparr>m_thread_number = n, m_max_requests = mx, m_workqueue = q,
          m_queuelocker = \<lparr>m_mutex = ql\<rparr>, m_queuestat = qs, m_stop = st\<rparr>,
          wpc = W, cpc = C, pushed = U, popped = V\<rparr>"
    by (metis system.cases threadpool.cases locker.cases unit.exhaust)
  have ql: "ql = None" and C: "C j = A_idle" "C(j := A_idle) = C"
    using idle free by (auto simp: s)
  let ?at = "\<lambda>q' ql' qs' c u. \<lparr>pool = \<lparr>m_thread_number = n, m_max_requests = mx, m_workqueue = q',
          m_queuelocker = \<lparr>m_mutex = ql'\<rparr>, m_queuestat = qs', m_stop = st\<rparr>,
          wpc = W, cpc = C(j := c), pushed = u, popped = V\<rparr>"
  let ?me = "Some (Client j)"
  have s0: "s = ?at q None qs A_idle U" using ql C by (simp add: s)
  have s1: "client_step j (?at q None qs A_idle U) (?at q None qs (A_lock request) U)"
    using append_call [of "?at q None qs A_idle U" j request] by simp
  have s2: "client_step j (?at q None qs (A_lock request) U) (?at q ?me qs (A_check request) U)"
    using append_lock [of "?at q None qs (A_lock request) U" j request "\<lparr>m_mutex = ?me\<rparr>"]
    by (simp add: locker_lock_def)
  have r2: "(client_step j)\<^sup>*\<^sup>* s (?at q ?me qs (A_check request) U)"
    using s0 s1 s2 by (metis converse_rtranclp_into_rtranclp rtranclp.rtrancl_refl)
  show ?thesis
  proof (cases "length q > mx")
    case True
    have s3: "client_step j (?at q ?me qs (A_check request) U) (?at q ?me qs A_unlock_full U)"
      using append_full [of "?at q ?me qs (A_check request) U" j request] True by simp
    have s4: "client_step j (?at q ?me qs A_unlock_full U) (?at q None qs A_idle U)"
      using append_unlock_full [of "?at q ?me qs A_unlock_full U" j "\<lparr>m_mutex = None\<rparr>"]
      by (simp add: locker_unlock_def)
    have "?t = ?at q None qs A_idle U" using True ql C by (simp add: append_seq_def s)
    with r2 s3 s4 show ?thesis by (metis rtranclp.rtrancl_into_rtrancl)
  next
    case False
    let ?q = "q @ [request]" and ?U = "U @ [request]"
    have s3: "client_step j (?at q ?me qs (A_check request) U) (?at ?q ?me qs A_unlock ?U)"
      using append_push [of "?at q ?me qs (A_check request) U" j request] False by simp
    have s4: "client_step j (?at ?q ?me qs A_unlock ?U) (?at ?q None qs A_post ?U)"
      using append_unlock [of "?at ?q ?me qs A_unlock ?U" j "\<lparr>m_mutex = None\<rparr>"]
      by (simp add: locker_unlock_def)
    have s5: "client_step j (?at ?q None qs A_post ?U) (?at ?q None (snd (sem_post qs)) A_idle ?U)"
      using append_post [of "?at ?q None qs A_post ?U" j "fst (sem_post qs)" "snd (sem_post qs)"] by simp
    have "?t = ?at ?q None (snd (sem_post qs)) A_idle ?U" using False ql C by (simp add: append_seq_def s)
    with r2 s3 s4 s5 show ?thesis by (metis rtranclp.rtrancl_into_rtrancl)
  qed
qed

lemma client_run_reachable:
  "(client_step j)\<^sup>*\<^sup>* s s' \<Longrightarrow> pool_reachable k p s \<Longrightarrow> j < k \<Longrightarrow> pool_reachable k p s'"
  by (induction rule: rtranclp_induct) (auto intro: pool_reachable.step by_client)

lemma fill_queue:
  assumes fresh: "pool_fresh p" and m: "m \<le> m_max_requests p + 1"
  shows "\<exists>s. pool_reachable (Suc k) p s \<and> cpc s 0 = A_idle \<and> m_mutex (m_queuelocker (pool s)) = None \<and>
           length (m_workqueue (pool s)) = m \<and> m_max_requests (pool s) = m_max_requests p"
  using m
proof (induction m)
  case 0
  show ?case
    by (rule exI [of _ "init_system p"], intro conjI pool_reachable.start)
      (use fresh in \<open>simp_all add: init_system_def pool_fresh_def\<close>)
next
  case (Suc m)
  then obtain s where s: "pool_reachable (Suc k) p s" "cpc s 0 = A_idle"
      "m_mutex (m_queuelocker (pool s)) = None" "length (m_workqueue (pool s)) = m"
      "m_max_requests (pool s) = m_max_requests p"
    by (meson Suc_leD)
  let ?t = "s\<lparr> pool := snd (append_seq None (pool s)),
     pushed := pushed s @ (if fst (append_seq None (pool s)) then [None] else []) \<rparr>"
  have "pool_reachable (Suc k) p ?t"
    by (rule client_run_reachable [OF append_runs [OF s(2,3)] s(1)]) simp
  then show ?case
    using s Suc.prems by (intro exI [of _ ?t] conjI) (simp_all add: append_seq_def)
qed

section \<open>Properties\<close>

text \<open>C2: in every state the pool can reach, under any interleaving of its workers and of any number
  of clients, at most one thread is inside a critical section of the queue lock, the queue holds
  exactly the requests pushed and not yet popped, in first-in first-out order, and it never holds
  more than \<open>m_max_requests + 1\<close> of them.\<close>

theorem pool_safe:
  assumes new: "threadpool_new n m create detach = Inr p" and m: "m < int SEM_VALUE_MAX"
    and reach: "pool_reachable k p s"
  shows "(w_critical (wpc s i) \<and> w_critical (wpc s i') \<longrightarrow> i = i') \<and>
         (c_critical (cpc s j) \<and> c_critical (cpc s j') \<longrightarrow> j = j') \<and>
         \<not> (w_critical (wpc s i) \<and> c_critical (cpc s j)) \<and>
         pushed s = popped s @ m_workqueue (pool s) \<and>
         int (length (m_workqueue (pool s))) \<le> m + 1"
proof -
  note inv = reachable_invs [OF reach threadpool_new_fresh [OF new m]]
  have "int (m_max_requests p) = m" using new by (auto simp: threadpool_new_def split: if_splits)
  with inv show ?thesis
    by (auto simp: queue_inv_def const_inv_def owner_invD)
qed

definition small_pool :: "nat threadpool" where
  "small_pool = \<lparr> m_thread_number = 1, m_max_requests = 1, m_workqueue = [],
     m_queuelocker = \<lparr>m_mutex = None\<rparr>, m_queuestat = \<lparr>m_sem = 0\<rparr>, m_stop = False \<rparr>"

lemma small_pool_new: "threadpool_new 1 1 (\<lambda>_. True) (\<lambda>_. True) = Inr small_pool"
  by (simp add: threadpool_new_def small_pool_def)

lemma small_pool_fresh: "pool_fresh small_pool"
  by (simp add: pool_fresh_def small_pool_def SEM_VALUE_MAX_def)

theorem pool_safe_witness:
  "pool_reachable 1 small_pool (init_system small_pool) \<and> pushed (init_system small_pool) =
     popped (init_system small_pool) @ m_workqueue (pool (init_system small_pool))"
  using pool_safe [OF small_pool_new _ pool_reachable.start, of 1]
  by (simp add: pool_reachable.start SEM_VALUE_MAX_def)

text \<open>C3: the pool does not deadlock and loses no wake-up: as long as a request is queued and the
  pool is not being destroyed, some worker can take a step without waiting for anything (one that waits for
  the semaphore finds it positive), or a client inside \<open>append\<close> can.\<close>

theorem pool_progress:
  assumes new: "threadpool_new n m create detach = Inr p" and m: "m < int SEM_VALUE_MAX"
    and reach: "pool_reachable k p s" and queued: "m_workqueue (pool s) \<noteq> []"
    and running: "\<not> m_stop (pool s)"
  shows "(\<exists>i < m_thread_number (pool s). unblocked s i \<and> (\<exists>s'. worker_step i s s')) \<or>
         (\<exists>j. cpc s j \<noteq> A_idle \<and> (\<exists>s'. client_step j s s'))"
proof -
  have fresh: "pool_fresh p" by (rule threadpool_new_fresh [OF new m])
  with reachable_invs [OF reach] have inv: "owner_inv s" "sem_inv k s" "exit_inv s" "const_inv p s"
    by auto
  with fresh have "0 < m_thread_number (pool s)" by (simp add: pool_fresh_def const_inv_def)
  with inv queued running show ?thesis by (intro queued_progress)
qed

theorem pool_progress_witness:
  "\<exists>s. pool_reachable 1 small_pool s \<and> m_workqueue (pool s) = [Some 7] \<and>
     ((\<exists>i < m_thread_number (pool s). unblocked s i \<and> (\<exists>s'. worker_step i s s')) \<or>
      (\<exists>j. cpc s j \<noteq> A_idle \<and> (\<exists>s'. client_step j s s')))"
proof -
  let ?i = "init_system small_pool"
  let ?s = "?i\<lparr> pool := snd (append_seq (Some 7) (pool ?i)),
     pushed := pushed ?i @ (if fst (append_seq (Some 7) (pool ?i)) then [Some 7] else []) \<rparr>"
  have r: "pool_reachable 1 small_pool ?s"
    by (rule client_run_reachable [OF append_runs [of _ 0] pool_reachable.start])
      (simp_all add: init_system_def small_pool_def)
  have q: "m_workqueue (pool ?s) = [Some 7]" "\<not> m_stop (pool ?s)"
    by (simp_all add: init_system_def small_pool_def append_seq_def)
  have "m_workqueue (pool ?s) \<noteq> []" using q by simp
  from r q pool_progress [OF small_pool_new _ r this q(2)] show ?thesis
    by (intro exI [of _ ?s]) (simp add: SEM_VALUE_MAX_def)
qed

text \<open>\<open>append\<close> admits one request more than \<open>m_max_requests\<close>, the number its comment gives as
  the largest allowed: a queue of length \<open>m_max_requests + 1\<close> is reachable from every
  freshly constructed pool.\<close>

theorem append_admits_one_more:
  assumes new: "threadpool_new n m create detach = Inr p" and m: "m < int SEM_VALUE_MAX"
  shows "\<exists>s. pool_reachable 1 p s \<and> int (length (m_workqueue (pool s))) = m + 1"
proof -
  have "int (m_max_requests p) = m" using new by (auto simp: threadpool_new_def split: if_splits)
  then show ?thesis
    using fill_queue [OF threadpool_new_fresh [OF new m], of "m_max_requests p + 1" 0] by force
qed

theorem append_admits_one_more_witness:
  "\<exists>s. pool_reachable 1 small_pool s \<and> length (m_workqueue (pool s)) = 2"
  using append_admits_one_more [OF small_pool_new] by (auto simp: SEM_VALUE_MAX_def)

text \<open>the locked code of \<open>append\<close> implements its sequential meaning: a client that finds the
  lock free and is not interleaved with others goes through \<open>append\<close> and leaves the pool as
  \<open>append_seq\<close> does, pushing the request exactly when that accepts it.\<close>

theorem append_refines_seq:
  assumes "cpc s j = A_idle" and "m_mutex (m_queuelocker (pool s)) = None"
  shows "(client_step j)\<^sup>*\<^sup>* s (s\<lparr> pool := snd (append_seq request (pool s)),
     pushed := pushed s @ (if fst (append_seq request (pool s)) then [request] else []) \<rparr>)"
  using assms by (rule append_runs)

theorem append_refines_seq_witness:
  "(client_step 0)\<^sup>*\<^sup>* (init_system small_pool)
     ((init_system small_pool)\<lparr> pool := small_pool\<lparr>m_workqueue := [None], m_queuestat := \<lparr>m_sem = 1\<rparr>\<rparr>,
        pushed := [None] \<rparr>)"
  using append_refines_seq [of "init_system small_pool" 0 None]
  by (simp add: init_system_def small_pool_def append_seq_def sem_post_def SEM_VALUE_MAX_def)

end
