(* ===== verification/Server.thy ===== *)
theory Server
  imports HttpConn Threadpool
begin

text \<open>
  The server of \<open>webserver/main.cpp\<close> with the parts of \<open>http_conn.cpp\<close> that touch shared
  state: the epoll helpers \<open>addfd\<close>, \<open>removefd\<close> and \<open>modfd\<close>, the connection table
  \<open>users\<close>, \<open>init(sockfd, addr)\<close>, \<open>close_conn\<close>, \<open>write\<close>, \<open>process\<close>, the dispatch of one epoll
  event and the main loop over batches of events.

  The kernel is the environment: an epoll batch, the descriptor \<open>accept\<close> returns and the
  contents of the sockets are inputs. The interest list maps a descriptor to its event mask and
  to whether it is armed; delivering an event disarms a one-shot entry. A request in the pool's
  queue is the position of its connection in \<open>users\<close>. Socket options, signal set-up and the
  creation of the listening socket have no effect on this state.
\<close>

section \<open>State\<close>

definition MAX_FD :: int where "MAX_FD = 65535"
definition MAX_EVENT_NUMBER :: nat where "MAX_EVENT_NUMBER = 10000"

definition EPOLLIN :: u32 where "EPOLLIN = 0x1"
definition EPOLLOUT :: u32 where "EPOLLOUT = 0x4"
definition EPOLLERR :: u32 where "EPOLLERR = 0x8"
definition EPOLLHUP :: u32 where "EPOLLHUP = 0x10"
definition EPOLLRDHUP :: u32 where "EPOLLRDHUP = 0x2000"
definition EPOLLONESHOT :: u32 where "EPOLLONESHOT = 0x40000000"
definition EPOLLET :: u32 where "EPOLLET = 0x80000000"

record epoll_entry =
  interest :: u32
  armed :: bool

record epoll_event =
  ev_fd :: int
  ev_events :: u32

record server =
  listenfd :: int
  epoll :: "int \<rightharpoonup> epoll_entry"
  m_user_count :: int
  users :: "nat \<Rightarrow> http_conn"
  workers :: "nat threadpool"
  socks :: "int \<Rightarrow> sock"

section \<open>Epoll helpers\<close>

text \<open>\<open>epoll_ctl\<close> refuses to add a descriptor twice and to modify one that is not there.\<close>

definition addfd :: "int \<Rightarrow> bool \<Rightarrow> server \<Rightarrow> server" where
  "addfd fd one_shot s =
     (let ev = EPOLLIN OR EPOLLET OR EPOLLRDHUP;
          ev' = (if one_shot then ev OR EPOLLONESHOT else ev)
      in if epoll s fd = None then s\<lparr>epoll := (epoll s)(fd \<mapsto> \<lparr>interest = ev', armed = True\<rparr>)\<rparr> else s)"

definition removefd :: "int \<Rightarrow> server \<Rightarrow> server" where
  "removefd fd s = s\<lparr>epoll := (epoll s)(fd := None)\<rparr>"

definition modfd :: "int \<Rightarrow> u32 \<Rightarrow> server \<Rightarrow> server" where
  "modfd fd ev s =
     (if epoll s fd = None then s
      else s\<lparr>epoll := (epoll s)(fd \<mapsto> \<lparr>interest = ev OR EPOLLONESHOT OR EPOLLRDHUP, armed = True\<rparr>)\<rparr>)"

definition epoll_deliver :: "int \<Rightarrow> server \<Rightarrow> server" where
  "epoll_deliver fd s =
     (case epoll s fd of None \<Rightarrow> s
      | Some e \<Rightarrow> if interest e AND EPOLLONESHOT \<noteq> 0
                  then s\<lparr>epoll := (epoll s)(fd \<mapsto> e\<lparr>armed := False\<rparr>)\<rparr> else s)"

section \<open>Operations on one connection\<close>

definition upd_user :: "nat \<Rightarrow> http_conn \<Rightarrow> server \<Rightarrow> server" where
  "upd_user i c s = s\<lparr>users := (users s)(i := c)\<rparr>"

text \<open>Indexing \<open>users\<close>, an array of \<open>MAX_FD\<close> connections.\<close>

definition user_index :: "int \<Rightarrow> nat cres" where
  "user_index fd = (if 0 \<le> fd \<and> fd < MAX_FD then Inr (nat fd) else Inl OutOfBounds)"

definition conn_init :: "nat \<Rightarrow> int \<Rightarrow> nat \<Rightarrow> server \<Rightarrow> server" where
  "conn_init i sockfd addr s =
     (let c = (users s i)\<lparr>m_sockfd := sockfd, m_address := addr\<rparr>;
          s1 = addfd sockfd True s;
          s2 = s1\<lparr>m_user_count := m_user_count s1 + 1\<rparr>
      in upd_user i (init_rest c) s2)"

definition close_conn :: "nat \<Rightarrow> server \<Rightarrow> server" where
  "close_conn i s =
     (let c = users s i in
      if m_sockfd c \<noteq> -1 then
        (let s1 = upd_user i (c\<lparr>m_sockfd := -1\<rparr>) (removefd (m_sockfd c) s)
         in s1\<lparr>m_user_count := m_user_count s1 - 1\<rparr>)
      else s)"

definition conn_read :: "nat \<Rightarrow> server \<Rightarrow> bool \<times> server" where
  "conn_read i s =
     (let fd = m_sockfd (users s i) in
      case http_read (users s i) (socks s fd) of
        (ok, c, sk) \<Rightarrow> (ok, (upd_user i c s)\<lparr>socks := (socks s)(fd := sk)\<rparr>))"

text \<open>\<open>write()\<close> prints a line and reports success.\<close>

definition conn_write :: "nat \<Rightarrow> server \<Rightarrow> bool \<times> server" where
  "conn_write i s = (True, s)"

text \<open>\<open>process()\<close>, run by a worker: an incomplete request is waited for again; otherwise the
  input is parsed a second time and nothing is sent.\<close>

definition conn_process :: "nat \<Rightarrow> server \<Rightarrow> server cres option" where
  "conn_process i s =
     (case process_read (users s i) of
        None \<Rightarrow> None
      | Some (Inl e) \<Rightarrow> Some (Inl e)
      | Some (Inr (read_ret, c)) \<Rightarrow>
          let s1 = upd_user i c s in
          if read_ret = NO_REQUEST then Some (Inr (modfd (m_sockfd c) EPOLLIN s1))
          else (case process_read c of
                  None \<Rightarrow> None
                | Some (Inl e) \<Rightarrow> Some (Inl e)
                | Some (Inr (_, c')) \<Rightarrow> Some (Inr (upd_user i c' s1))))"

section \<open>The main loop\<close>

text \<open>
  One turn of the loop over the events of a batch; \<open>acc\<close> is what \<open>accept\<close> returns should it be
  called: the new descriptor (-1 on failure) and the client's address.
\<close>

definition handle_event :: "int \<times> nat \<Rightarrow> epoll_event \<Rightarrow> server \<Rightarrow> server cres" where
  "handle_event acc ev s =
     (let sockfd = ev_fd ev in
      if sockfd = listenfd s then
        (let connfd = fst acc in
         if m_user_count s \<ge> MAX_FD then Inr s
         else cbind (user_index connfd) (\<lambda>i. Inr (conn_init i connfd (snd acc) s)))
      else if ev_events ev AND (EPOLLRDHUP OR EPOLLHUP OR EPOLLERR) \<noteq> 0 then
        cbind (user_index sockfd) (\<lambda>i. Inr (close_conn i s))
      else if ev_events ev AND EPOLLIN \<noteq> 0 then
        cbind (user_index sockfd) (\<lambda>i.
          case conn_read i s of
            (True, s1) \<Rightarrow> Inr (s1\<lparr>workers := snd (append_seq (Some i) (workers s1))\<rparr>)
          | (False, s1) \<Rightarrow> Inr (close_conn i s1))
      else if ev_events ev AND EPOLLOUT \<noteq> 0 then
        cbind (user_index sockfd) (\<lambda>i.
          case conn_write i s of
            (True, s1) \<Rightarrow> Inr s1
          | (False, s1) \<Rightarrow> Inr (close_conn i s1))
      else Inr s)"

fun handle_events :: "((int \<times> nat) \<times> epoll_event) list \<Rightarrow> server \<Rightarrow> server cres" where
  "handle_events [] s = Inr s"
| "handle_events ((acc, ev) # evs) s =
     cbind (handle_event acc ev s) (handle_events evs)"

text \<open>
  What \<open>epoll_wait\<close> returns: a batch, an interruption, or another error, which ends the loop.
  The one-shot entries of a batch are disarmed when the batch is returned.
\<close>

datatype wait_result = Batch "((int \<times> nat) \<times> epoll_event) list" | Interrupted | WaitFailed

fun main_loop :: "wait_result list \<Rightarrow> server \<Rightarrow> server cres" where
  "main_loop [] s = Inr s"
| "main_loop (WaitFailed # ws) s = Inr s"
| "main_loop (Interrupted # ws) s = main_loop ws s"
| "main_loop (Batch evs # ws) s =
     (let batch = take MAX_EVENT_NUMBER evs in
      cbind (handle_events batch (fold (\<lambda>(_, ev). epoll_deliver (ev_fd ev)) batch s)) (main_loop ws))"

section \<open>What parsing keeps\<close>

definition keeps :: "http_conn \<Rightarrow> http_conn \<Rightarrow> bool" where
  "keeps c c' \<longleftrightarrow> m_sockfd c' = m_sockfd c \<and> (conn_wf c \<longrightarrow> conn_wf c')"

lemma keeps_refl [simp]: "keeps c c"
  by (simp add: keeps_def)

lemma keeps_trans: "keeps a b \<Longrightarrow> keeps b c \<Longrightarrow> keeps a c"
  by (simp add: keeps_def)

lemma parse_line_keeps: "parse_line c = Inr (st, c') \<Longrightarrow> keeps c c'"
  by (auto simp: parse_line_def keeps_def conn_wf_def Let_def cbind_eq_Inr_iff split: if_splits)

lemma loop_cond_keeps: "loop_cond st c = Inr (st', c') \<Longrightarrow> keeps c c'"
  by (auto simp: loop_cond_def dest: parse_line_keeps split: if_splits)

lemma parse_request_line_keeps: "parse_request_line text c = Inr (ret, c') \<Longrightarrow> keeps c c'"
proof -
  have "all_ok (\<lambda>(ret, c'). keeps c c') (parse_request_line text c)"
    unfolding parse_request_line_def Let_def
    by (intro all_ok_intros) (simp_all add: keeps_def conn_wf_def)
  then show "parse_request_line text c = Inr (ret, c') \<Longrightarrow> keeps c c'" by (auto dest: all_okD)
qed

lemma parse_headers_keeps: "parse_headers text c = Inr (ret, c') \<Longrightarrow> keeps c c'"
proof -
  have "all_ok (\<lambda>(ret, c'). keeps c c') (parse_headers text c)"
    unfolding parse_headers_def Let_def
    by (intro all_ok_intros) (simp_all add: keeps_def conn_wf_def)
  then show "parse_headers text c = Inr (ret, c') \<Longrightarrow> keeps c c'" by (auto dest: all_okD)
qed

lemma parse_content_keeps: "parse_content text c = Inr (ret, c') \<Longrightarrow> keeps c c'"
  by (auto simp: parse_content_def keeps_def conn_wf_def Let_def cbind_eq_Inr_iff wr_eq_Inr_iff split: if_splits)

lemma content_case_keeps: "content_case text c = Inr (Inr (st, c')) \<Longrightarrow> keeps c c'"
  "content_case text c \<noteq> Inr (Inl r)"
  by (auto simp: content_case_def cbind_eq_Inr_iff do_request_def split: if_splits dest: parse_content_keeps)

lemma switch_turn_keeps:
  "switch_turn text st c = Inr (Inr (st', c')) \<Longrightarrow> keeps c c'"
  "switch_turn text st c = Inr (Inl (ret, c')) \<Longrightarrow> keeps c c'"
  by (auto simp: switch_turn_def cbind_eq_Inr_iff do_request_def content_case_keeps(2)
      split: CHECK_STATE.splits if_splits
      dest: parse_request_line_keeps parse_headers_keeps content_case_keeps(1) intro: keeps_trans)

lemma keeps_start_line: "keeps (c\<lparr>m_start_line := m_checked_index c\<rparr>) d \<Longrightarrow> keeps c d"
  by (auto simp: keeps_def conn_wf_def)

lemma process_read_loop_keeps:
  assumes "process_read_loop st c = Some r"
  shows "\<forall>ret c'. r = Inr (ret, c') \<longrightarrow> keeps c c'"
proof (rule process_read_loop.raw_induct
    [where P = "\<lambda>st c r. \<forall>ret c'. r = Inr (ret, c') \<longrightarrow> keeps c c'", OF _ assms])
  fix f st c r
  assume IH: "\<And>st c r. f st c = Some r \<Longrightarrow> \<forall>ret c'. r = Inr (ret, c') \<longrightarrow> keeps c c'"
    and eq: "(case loop_cond st c of
        Inl e \<Rightarrow> Some (Inl e)
      | Inr (st, c1) \<Rightarrow>
          if st \<noteq> LINE_OK then Some (Inr (NO_REQUEST, c1))
          else (case switch_turn (m_start_line c1) st (c1\<lparr>m_start_line := m_checked_index c1\<rparr>) of
                  Inl e \<Rightarrow> Some (Inl e)
                | Inr (Inl r) \<Rightarrow> Some (Inr r)
                | Inr (Inr (st', c2)) \<Rightarrow> f st' c2)) = Some r"
  show "\<forall>ret c'. r = Inr (ret, c') \<longrightarrow> keeps c c'"
    using eq
    by (auto split: sum.splits prod.splits if_splits
        dest!: loop_cond_keeps switch_turn_keeps IH keeps_start_line intro: keeps_trans)
qed

lemma process_read_keeps: "process_read c = Some (Inr (ret, c')) \<Longrightarrow> keeps c c'"
  using process_read_loop_keeps by (fastforce simp: process_read_def)

lemma read_loop_sockfd: "read_loop c s = (ok, c', s') \<Longrightarrow> m_sockfd c' = m_sockfd c"
proof (induction c s arbitrary: ok c' s' rule: read_loop.induct)
  case (1 c s)
  show ?case
    using "1.prems"
    by (auto simp: read_loop.simps [of c s] split: prod.splits recv_result.splits dest: "1.IH" [OF sym])
qed

lemma http_read_keeps: "http_read c s = (ok, c', s') \<Longrightarrow> keeps c c'"
  using http_read_spec [of c s ok c' s']
  by (auto simp: keeps_def read_post_def http_read_def dest: read_loop_sockfd split: if_splits)

section \<open>The server as a step relation\<close>

text \<open>
  The state is the server with the connections that workers have taken from the queue and not
  finished. Events come for armed descriptors; a successful \<open>accept\<close> returns a descriptor that
  is not in use and, for these steps, inside the table.
\<close>

type_synonym sstate = "server \<times> nat list"

inductive server_step :: "sstate \<Rightarrow> sstate \<Rightarrow> bool" where
  event: "epoll s (ev_fd ev) = Some e \<Longrightarrow> armed e \<Longrightarrow>
     (ev_fd ev = listenfd s \<longrightarrow> epoll s (fst acc) = None \<and> 0 \<le> fst acc \<and> fst acc < MAX_FD) \<Longrightarrow>
     handle_event acc ev (epoll_deliver (ev_fd ev) s) = Inr s' \<Longrightarrow>
     server_step (s, fl) (s', fl)"
| take_request: "m_workqueue (workers s) = Some i # rest \<Longrightarrow>
     server_step (s, fl) (s\<lparr>workers := (workers s)\<lparr>m_workqueue := rest\<rparr>\<rparr>, i # fl)"
| finish: "i \<in> set fl \<Longrightarrow> conn_process i s = Some (Inr s') \<Longrightarrow> server_step (s, fl) (s', remove1 i fl)"
| arrive: "server_step (s, fl) (s\<lparr>socks := k\<rparr>, fl)"

text \<open>The set-up of \<open>main\<close>: a listening descriptor in an otherwise empty interest list.\<close>

definition server_start :: "int \<Rightarrow> (nat \<Rightarrow> http_conn) \<Rightarrow> nat threadpool \<Rightarrow> (int \<Rightarrow> sock) \<Rightarrow> server" where
  "server_start lfd us w k = addfd lfd False
     \<lparr> listenfd = lfd, epoll = Map.empty, m_user_count = 0, users = us, workers = w, socks = k \<rparr>"

inductive server_reachable :: "server \<Rightarrow> sstate \<Rightarrow> bool" for s0 :: server where
  start: "server_reachable s0 (s0, [])"
| step: "server_reachable s0 x \<Longrightarrow> server_step x y \<Longrightarrow> server_reachable s0 y"

inductive_cases server_stepE: "server_step x y"

definition clients :: "server \<Rightarrow> int set" where
  "clients s = dom (epoll s) - {listenfd s}"

text \<open>The descriptor table: the connections counted are those registered, each in its own slot.\<close>

definition table_inv :: "server \<Rightarrow> bool" where
  "table_inv s \<longleftrightarrow> finite (dom (epoll s)) \<and> listenfd s \<in> dom (epoll s) \<and>
     m_user_count s = int (card (clients s)) \<and>
     (\<forall>fd \<in> clients s. 0 \<le> fd \<and> fd < MAX_FD \<and> m_sockfd (users s (nat fd)) = fd \<and> conn_wf (users s (nat fd)))"

text \<open>One-shot discipline: a connection that is queued or being processed is disarmed and occurs once.\<close>

definition oneshot :: "epoll_entry \<Rightarrow> bool" where
  "oneshot e \<longleftrightarrow> interest e AND EPOLLONESHOT \<noteq> 0"

definition busy :: "sstate \<Rightarrow> nat list" where
  "busy x = map the (m_workqueue (workers (fst x))) @ snd x"

definition oneshot_inv :: "sstate \<Rightarrow> bool" where
  "oneshot_inv x \<longleftrightarrow> (\<forall>r \<in> set (m_workqueue (workers (fst x))). r \<noteq> None) \<and> distinct (busy x) \<and>
     (\<forall>i \<in> set (busy x). int i \<in> clients (fst x) \<and> (\<exists>e. epoll (fst x) (int i) = Some e \<and> \<not> armed e)) \<and>
     (\<forall>fd \<in> clients (fst x). \<exists>e. epoll (fst x) fd = Some e \<and> oneshot e)"

lemma deliver_frame [simp]:
  "listenfd (epoll_deliver fd s) = listenfd s" "m_user_count (epoll_deliver fd s) = m_user_count s"
  "users (epoll_deliver fd s) = users s" "workers (epoll_deliver fd s) = workers s"
  "socks (epoll_deliver fd s) = socks s"
  by (simp_all add: epoll_deliver_def split: option.splits)

lemma dom_deliver [simp]: "dom (epoll (epoll_deliver fd s)) = dom (epoll s)"
  by (auto simp: epoll_deliver_def split: option.splits)

lemma deliver_None [simp]: "epoll (epoll_deliver fd s) x = None \<longleftrightarrow> epoll s x = None"
  by (auto simp: epoll_deliver_def split: option.splits)

lemma clients_deliver [simp]: "clients (epoll_deliver fd s) = clients s"
  by (simp add: clients_def)

lemma table_inv_deliver: "table_inv (epoll_deliver fd s) = table_inv s"
  by (simp add: table_inv_def)

lemma table_inv_init:
  assumes inv: "table_inv s" and new: "epoll s fd = None" and fd: "0 \<le> fd" "fd < MAX_FD"
  shows "table_inv (conn_init (nat fd) fd addr s)"
proof -
  have fin: "finite (clients s)" using inv by (simp add: table_inv_def clients_def)
  have ne: "fd \<noteq> listenfd s" using inv new by (auto simp: table_inv_def)
  have cl: "clients (conn_init (nat fd) fd addr s) = insert fd (clients s)"
    using new ne by (auto simp: clients_def conn_init_def addfd_def upd_user_def Let_def)
  have "fd \<notin> clients s" using new by (auto simp: clients_def)
  with fin cl have card: "card (clients (conn_init (nat fd) fd addr s)) = Suc (card (clients s))" by simp
  have "nat fd \<noteq> nat x" if "x \<in> clients s" for x
    using that inv fd \<open>fd \<notin> clients s\<close> by (auto simp: table_inv_def eq_nat_nat_iff)
  with inv new fd card cl conn_wf_init_rest show ?thesis
    by (auto simp: table_inv_def conn_init_def addfd_def upd_user_def Let_def init_rest_def conn_wf_def)
qed

lemma close_conn_fields:
  assumes "m_sockfd (users s i) = fd" and "fd \<noteq> -1"
  shows "epoll (close_conn i s) = (epoll s)(fd := None)" "listenfd (close_conn i s) = listenfd s"
    "m_user_count (close_conn i s) = m_user_count s - 1" "workers (close_conn i s) = workers s"
    "users (close_conn i s) = (users s)(i := (users s i)\<lparr>m_sockfd := -1\<rparr>)"
  using assms by (simp_all add: close_conn_def removefd_def upd_user_def Let_def)

lemma table_inv_close:
  assumes inv: "table_inv s" and fd: "fd \<in> clients s"
  shows "table_inv (close_conn (nat fd) s)"
proof -
  have sock: "m_sockfd (users s (nat fd)) = fd" "0 \<le> fd" using inv fd by (auto simp: table_inv_def)
  then have "fd \<noteq> -1" by simp
  note f = close_conn_fields [OF sock(1) this]
  have fin: "finite (clients s)" using inv by (simp add: table_inv_def clients_def)
  have cl: "clients (close_conn (nat fd) s) = clients s - {fd}"
    by (auto simp: clients_def f)
  have "card (clients s) > 0" using fin fd by (auto simp: card_gt_0_iff)
  then have cnt: "m_user_count (close_conn (nat fd) s) = int (card (clients s - {fd}))"
    using fd inv by (simp add: f table_inv_def card_Diff_singleton of_nat_diff)
  have other: "users (close_conn (nat fd) s) (nat x) = users s (nat x)" if "x \<in> clients s - {fd}" for x
    using that inv sock by (auto simp: f table_inv_def eq_nat_nat_iff)
  have "listenfd s \<noteq> fd" using fd by (auto simp: clients_def)
  then show ?thesis
    unfolding table_inv_def using inv cl cnt other by (auto simp: f table_inv_def)
qed

text \<open>Writing a connection of the table back, when it kept its descriptor and stayed well-formed.\<close>

lemma table_inv_upd:
  "table_inv s \<Longrightarrow> keeps (users s i) c \<Longrightarrow> table_inv (upd_user i c s)"
  by (auto simp: table_inv_def keeps_def upd_user_def clients_def)

lemma table_inv_frame:
  "table_inv (s\<lparr>workers := w\<rparr>) = table_inv s" "table_inv (s\<lparr>socks := k\<rparr>) = table_inv s"
  by (simp_all add: table_inv_def clients_def)

lemma conn_read_props:
  assumes inv: "table_inv s" and r: "conn_read i s = (ok, s1)"
  shows "table_inv s1" "epoll s1 = epoll s" "listenfd s1 = listenfd s" "workers s1 = workers s"
proof -
  obtain c sk where h: "http_read (users s i) (socks s (m_sockfd (users s i))) = (ok, c, sk)"
      and s1: "s1 = (upd_user i c s)\<lparr>socks := (socks s)(m_sockfd (users s i) := sk)\<rparr>"
    using r by (auto simp: conn_read_def Let_def split: prod.splits)
  show "table_inv s1"
    using table_inv_upd [OF inv http_read_keeps [OF h]] by (simp add: s1 table_inv_frame)
  show "epoll s1 = epoll s" "listenfd s1 = listenfd s" "workers s1 = workers s"
    by (simp_all add: s1 upd_user_def)
qed

lemma user_index_client:
  "table_inv s \<Longrightarrow> fd \<in> clients s \<Longrightarrow> user_index fd = Inr (nat fd)"
  by (auto simp: table_inv_def user_index_def)

lemma clients_cong: "epoll s1 = epoll s \<Longrightarrow> listenfd s1 = listenfd s \<Longrightarrow> clients s1 = clients s"
  by (simp add: clients_def)

text \<open>One event on a well-formed table: no fault, and the table stays well-formed.\<close>

lemma handle_event_table:
  assumes inv: "table_inv s" and dom: "ev_fd ev \<in> dom (epoll s)"
    and acc: "ev_fd ev = listenfd s \<longrightarrow> epoll s (fst acc) = None \<and> 0 \<le> fst acc \<and> fst acc < MAX_FD"
  shows "\<exists>s'. handle_event acc ev s = Inr s' \<and> table_inv s'"
proof (cases "ev_fd ev = listenfd s")
  case True
  with acc have a: "epoll s (fst acc) = None" "0 \<le> fst acc" "fst acc < MAX_FD" by auto
  then show ?thesis
    using True inv table_inv_init [OF inv a] by (auto simp: handle_event_def user_index_def Let_def)
next
  case False
  then have fd: "ev_fd ev \<in> clients s" using dom by (simp add: clients_def)
  note ix = user_index_client [OF inv fd] and cl = table_inv_close [OF inv fd]
  obtain ok s1 where r: "conn_read (nat (ev_fd ev)) s = (ok, s1)"
    by (cases "conn_read (nat (ev_fd ev)) s")
  note rp = conn_read_props [OF inv r]
  have cl1: "table_inv (close_conn (nat (ev_fd ev)) s1)"
    using table_inv_close [OF rp(1)] fd clients_cong [OF rp(2,3)] by simp
  show ?thesis
    using False inv ix cl r rp(1) cl1
    by (cases ok) (auto simp: handle_event_def Let_def conn_write_def table_inv_frame)
qed

section \<open>One worker per connection\<close>

lemma oneshot_added: "oneshot \<lparr>interest = EPOLLIN OR EPOLLET OR EPOLLRDHUP OR EPOLLONESHOT, armed = True\<rparr>"
  by (simp add: oneshot_def EPOLLIN_def EPOLLET_def EPOLLRDHUP_def EPOLLONESHOT_def)

lemma oneshot_modified: "oneshot \<lparr>interest = EPOLLIN OR EPOLLONESHOT OR EPOLLRDHUP, armed = True\<rparr>"
  by (simp add: oneshot_def EPOLLIN_def EPOLLRDHUP_def EPOLLONESHOT_def)

lemma oneshot_armed: "oneshot (e\<lparr>armed := b\<rparr>) = oneshot e"
  by (simp add: oneshot_def)

text \<open>Delivering an event for an armed client disarms it and changes nothing else.\<close>

lemma deliver_client:
  assumes inv: "oneshot_inv (s, fl)" and cl: "fd \<in> clients s"
  shows "\<exists>e. epoll s fd = Some e \<and> epoll (epoll_deliver fd s) = (epoll s)(fd \<mapsto> e\<lparr>armed := False\<rparr>)"
proof -
  obtain e where "epoll s fd = Some e" "oneshot e" using inv cl by (auto simp: oneshot_inv_def)
  then show ?thesis by (simp add: epoll_deliver_def oneshot_def)
qed

lemma armed_not_busy:
  "oneshot_inv (s, fl) \<Longrightarrow> epoll s fd = Some e \<Longrightarrow> armed e \<Longrightarrow> i \<in> set (busy (s, fl)) \<Longrightarrow> int i \<noteq> fd"
  by (auto simp: oneshot_inv_def)

lemma oneshot_inv_deliver:
  assumes inv: "oneshot_inv (s, fl)"
  shows "oneshot_inv (epoll_deliver fd s, fl)"
proof -
  have busy: "busy (epoll_deliver fd s, fl) = busy (s, fl)" by (simp add: busy_def)
  have ep: "epoll (epoll_deliver fd s) = epoll s \<or>
      (\<exists>e. epoll s fd = Some e \<and> epoll (epoll_deliver fd s) = (epoll s)(fd \<mapsto> e\<lparr>armed := False\<rparr>))"
    by (auto simp: epoll_deliver_def split: option.splits)
  then show ?thesis
    using inv unfolding oneshot_inv_def busy by (elim disjE exE conjE) (fastforce simp: oneshot_armed)+
qed

text \<open>An idle client may be dropped, or put into the queue once it is disarmed.\<close>

lemma oneshot_inv_close:
  assumes inv: "oneshot_inv (s, fl)" and idle: "\<forall>i \<in> set (busy (s, fl)). int i \<noteq> fd"
    and ep: "epoll s' = (epoll s)(fd := None)" "listenfd s' = listenfd s" "workers s' = workers s"
  shows "oneshot_inv (s', fl)"
proof -
  have busy: "busy (s', fl) = busy (s, fl)" by (simp add: busy_def ep)
  have cl: "clients s' = clients s - {fd}" by (auto simp: clients_def ep)
  show ?thesis
    using inv idle unfolding oneshot_inv_def busy by (auto simp: cl ep)
qed

lemma oneshot_inv_append:
  assumes inv: "oneshot_inv (s, fl)" and idle: "i \<notin> set (busy (s, fl))"
    and e: "int i \<in> clients s" "epoll s (int i) = Some e" "\<not> armed e"
  shows "oneshot_inv (s\<lparr>workers := snd (append_seq (Some i) (workers s))\<rparr>, fl)"
proof (cases "fst (append_seq (Some i) (workers s))")
  case True
  then have "m_workqueue (snd (append_seq (Some i) (workers s))) = m_workqueue (workers s) @ [Some i]"
    by (auto simp: append_seq_def split: if_splits)
  with inv idle e show ?thesis
    by (auto simp: oneshot_inv_def busy_def clients_def)
next
  case False
  then have "snd (append_seq (Some i) (workers s)) = workers s"
    by (auto simp: append_seq_def split: if_splits)
  with inv show ?thesis by simp
qed

lemma oneshot_inv_init:
  assumes inv: "oneshot_inv (s, fl)" and new: "epoll s fd = None"
  shows "oneshot_inv (conn_init i fd addr s, fl)"
proof -
  let ?t = "conn_init i fd addr s"
  have ep: "epoll ?t = (epoll s)(fd \<mapsto> \<lparr>interest = EPOLLIN OR EPOLLET OR EPOLLRDHUP OR EPOLLONESHOT, armed = True\<rparr>)"
    and busy: "busy (?t, fl) = busy (s, fl)" and w: "workers ?t = workers s"
    using new by (simp_all add: conn_init_def addfd_def upd_user_def busy_def Let_def or.assoc)
  have cl: "clients ?t \<subseteq> insert fd (clients s)" "clients s \<subseteq> clients ?t"
    using new by (auto simp: clients_def conn_init_def addfd_def upd_user_def Let_def)
  have "int k \<noteq> fd" if "k \<in> set (busy (s, fl))" for k
    using inv new that by (auto simp: oneshot_inv_def)
  moreover have "x = fd \<or> x \<in> clients s" if "x \<in> clients ?t" for x using cl(1) that by blast
  moreover have "x \<in> clients ?t" if "x \<in> clients s" for x using cl(2) that by blast
  moreover have "\<exists>e. epoll ?t x = Some e \<and> oneshot e" if "x \<in> clients ?t" for x
    using inv oneshot_added cl(1) that by (auto simp: oneshot_inv_def ep)
  ultimately show ?thesis
    using inv unfolding oneshot_inv_def busy fst_conv w by (auto simp: ep)
qed

lemma oneshot_inv_event:
  assumes tab: "table_inv s" and inv: "oneshot_inv (s, fl)"
    and e: "epoll s (ev_fd ev) = Some e" "armed e"
    and acc: "ev_fd ev = listenfd s \<longrightarrow> epoll s (fst acc) = None \<and> 0 \<le> fst acc \<and> fst acc < MAX_FD"
    and h: "handle_event acc ev (epoll_deliver (ev_fd ev) s) = Inr s'"
  shows "oneshot_inv (s', fl)"
proof -
  let ?fd = "ev_fd ev" and ?s = "epoll_deliver (ev_fd ev) s"
  have inv': "oneshot_inv (?s, fl)" by (rule oneshot_inv_deliver [OF inv])
  have tab': "table_inv ?s" using tab by (simp add: table_inv_deliver)
  show ?thesis
  proof (cases "?fd = listenfd s")
    case True
    have "epoll ?s (fst acc) = None" using acc True by simp
    from oneshot_inv_init [OF inv' this] inv' h True show ?thesis
      by (auto simp: handle_event_def Let_def cbind_eq_Inr_iff split: if_splits)
  next
    case False
    then have fd: "?fd \<in> clients s" using e by (auto simp: clients_def)
    have idle: "\<forall>i \<in> set (busy (?s, fl)). int i \<noteq> ?fd"
      using armed_not_busy [OF inv e] by (simp add: busy_def)
    obtain e' where e': "epoll ?s ?fd = Some e'" "\<not> armed e'"
      using deliver_client [OF inv fd] by auto
    have ix: "user_index ?fd = Inr (nat ?fd)" and sock: "m_sockfd (users s (nat ?fd)) = ?fd" "?fd \<noteq> -1" "0 \<le> ?fd"
      using user_index_client [OF tab fd] tab fd by (auto simp: table_inv_def)
    obtain ok s1 where r: "conn_read (nat ?fd) ?s = (ok, s1)"
      by (cases "conn_read (nat ?fd) ?s")
    note rp = conn_read_props [OF tab' r]
    have sock1: "m_sockfd (users s1 (nat ?fd)) = ?fd"
      using rp(1) fd clients_cong [OF rp(2,3)] by (simp add: table_inv_def)
    have busy1: "busy (s1, fl) = busy (?s, fl)" by (simp add: busy_def rp)
    have inv1: "oneshot_inv (s1, fl)"
      using inv' clients_cong [OF rp(2,3)] unfolding oneshot_inv_def busy1 fst_conv rp(2,4) by simp
    have c: "oneshot_inv (close_conn (nat ?fd) ?s, fl)"
      by (rule oneshot_inv_close [OF inv' idle]) (simp_all add: close_conn_fields [OF _ sock(2)] sock)
    have c1: "oneshot_inv (close_conn (nat ?fd) s1, fl)"
      by (rule oneshot_inv_close [OF inv1 idle [folded busy1]])
        (simp_all add: close_conn_fields [OF sock1 sock(2)] sock1)
    have "nat ?fd \<notin> set (busy (s1, fl))" using idle sock(3) by (auto simp: busy1)
    then have a: "oneshot_inv (s1\<lparr>workers := snd (append_seq (Some (nat ?fd)) (workers s1))\<rparr>, fl)"
      using oneshot_inv_append [OF inv1, of "nat ?fd" e'] e' fd sock(3) clients_cong [OF rp(2,3)]
      by (simp add: rp)
    show ?thesis
      using h False ix c r c1 a inv'
      by (cases ok) (auto simp: handle_event_def Let_def conn_write_def cbind_eq_Inr_iff split: if_splits)
  qed
qed

lemma oneshot_inv_take:
  assumes inv: "oneshot_inv (s, fl)" and q: "m_workqueue (workers s) = Some i # rest"
  shows "oneshot_inv (s\<lparr>workers := (workers s)\<lparr>m_workqueue := rest\<rparr>\<rparr>, i # fl)"
  using inv q unfolding oneshot_inv_def by (auto simp: busy_def clients_def)

text \<open>A worker that finishes re-arms at most the connection it processed.\<close>

lemma conn_process_cases:
  assumes p: "conn_process i s = Some (Inr s')" and sock: "m_sockfd (users s i) = fd"
  obtains c where "keeps (users s i) c" and
    "s' = upd_user i c s \<or> s' = modfd fd EPOLLIN (upd_user i c s)"
proof -
  obtain ret c where 1: "process_read (users s i) = Some (Inr (ret, c))"
    using p by (auto simp: conn_process_def split: option.splits sum.splits prod.splits)
  note k = process_read_keeps [OF 1]
  show thesis
  proof (cases "ret = NO_REQUEST")
    case True
    with p 1 k sock that [OF k] show thesis by (simp add: conn_process_def Let_def keeps_def)
  next
    case False
    with p 1 obtain ret' c' where 2: "process_read c = Some (Inr (ret', c'))"
        and s': "s' = upd_user i c' (upd_user i c s)"
      by (auto simp: conn_process_def Let_def split: option.splits sum.splits prod.splits)
    then have "s' = upd_user i c' s" by (simp add: upd_user_def)
    with that keeps_trans [OF k process_read_keeps [OF 2]] show thesis by blast
  qed
qed

lemma oneshot_inv_finish:
  assumes tab: "table_inv s" and inv: "oneshot_inv (s, fl)" and i: "i \<in> set fl"
    and p: "conn_process i s = Some (Inr s')"
  shows "table_inv s' \<and> oneshot_inv (s', remove1 i fl)"
proof -
  have b: "i \<in> set (busy (s, fl))" and d: "distinct (busy (s, fl))"
    using i inv by (auto simp: busy_def oneshot_inv_def)
  then have cl: "int i \<in> clients s" using inv by (auto simp: oneshot_inv_def)
  then have sock: "m_sockfd (users s i) = int i" using tab by (auto simp: table_inv_def)
  obtain c where k: "keeps (users s i) c" and
      s': "s' = upd_user i c s \<or> s' = modfd (int i) EPOLLIN (upd_user i c s)"
    by (rule conn_process_cases [OF p sock])
  let ?e = "\<lparr>interest = EPOLLIN OR EPOLLONESHOT OR EPOLLRDHUP, armed = True\<rparr>"
  have w: "workers s' = workers s" "listenfd s' = listenfd s"
    and ep: "epoll s' = epoll s \<or> epoll s' = (epoll s)(int i \<mapsto> ?e)"
    using s' by (auto simp: upd_user_def modfd_def)
  have "int i \<in> dom (epoll s)" using cl by (simp add: clients_def)
  with ep have dom: "dom (epoll s') = dom (epoll s)"
    by (elim disjE) (simp_all add: insert_absorb)
  have cls: "clients s' = clients s" using w dom by (simp add: clients_def)
  have "users s' = users (upd_user i c s)" "m_user_count s' = m_user_count (upd_user i c s)"
    using s' by (auto simp: upd_user_def modfd_def)
  then have t: "table_inv s'"
    using dom table_inv_upd [OF tab k] cls w by (simp add: table_inv_def upd_user_def clients_def)
  have "set (busy (s', remove1 i fl)) = set (busy (s, fl)) - {i}" "distinct (busy (s', remove1 i fl))"
    using d i w by (auto simp: busy_def)
  with inv ep cls w oneshot_modified have "oneshot_inv (s', remove1 i fl)"
    unfolding oneshot_inv_def by auto
  with t show ?thesis ..
qed

lemma server_step_keeps_inv:
  assumes step: "server_step x y" and tab: "table_inv (fst x)" and one: "oneshot_inv x"
  shows "table_inv (fst y) \<and> oneshot_inv y"
  using step
proof cases
  case (event s ev e acc s' fl)
  let ?s = "epoll_deliver (ev_fd ev) s"
  have t: "table_inv s" and o: "oneshot_inv (s, fl)" using tab one event(1) by simp_all
  have "table_inv ?s" using t by (simp add: table_inv_deliver)
  moreover have "ev_fd ev \<in> dom (epoll ?s)" using event(3) by auto
  moreover have "ev_fd ev = listenfd ?s \<longrightarrow> epoll ?s (fst acc) = None \<and> 0 \<le> fst acc \<and> fst acc < MAX_FD"
    using event(5) by simp
  ultimately obtain s2 where "handle_event acc ev ?s = Inr s2" "table_inv s2"
    using handle_event_table by blast
  then have "table_inv s'" using event(6) by simp
  moreover have "oneshot_inv (s', fl)"
    by (rule oneshot_inv_event [OF t o event(3,4,5,6)])
  ultimately show ?thesis using event(2) by simp
next
  case (take_request s i rest fl)
  with tab one show ?thesis by (auto simp: table_inv_frame intro: oneshot_inv_take)
next
  case (finish i fl s s')
  with tab one oneshot_inv_finish show ?thesis by auto
next
  case (arrive s fl k)
  with tab one show ?thesis by (simp add: table_inv_frame oneshot_inv_def busy_def clients_def)
qed

lemma reachable_inv:
  assumes "server_reachable (server_start lfd us w k) x" and "m_workqueue w = []"
  shows "table_inv (fst x) \<and> oneshot_inv x"
  using assms(1)
proof (induction rule: server_reachable.induct)
  case start
  have "clients (server_start lfd us w k) = {}" by (auto simp: clients_def server_start_def addfd_def Let_def)
  then show ?case
    using assms(2)
    by (auto simp: table_inv_def oneshot_inv_def busy_def server_start_def addfd_def Let_def split: if_splits)
next
  case (step x y)
  then show ?case using server_step_keeps_inv by blast
qed

section \<open>Nothing is ever parsed\<close>

text \<open>A connection on which \<open>parse_line\<close> has never found a line.\<close>

definition conn_unparsed :: "http_conn \<Rightarrow> bool" where
  "conn_unparsed c \<longleftrightarrow> m_check_state c = CHECK_STATE_REQUESTLINE \<and> m_checked_index c = 0 \<and> m_start_line c = 0 \<and> (m_read_idx c = 0 \<longrightarrow> m_read_buf c ! 0 = 0)"

definition unparsed_inv :: "server \<Rightarrow> bool" where
  "unparsed_inv s \<longleftrightarrow> (\<forall>fd \<in> clients s. conn_unparsed (users s (nat fd)))"

lemma unparsed_init: "conn_unparsed (init_rest c)"
  by (simp add: conn_unparsed_def init_rest_def READ_BUFFER_SIZE_def)

lemma unparsed_read:
  assumes "conn_unparsed c" and "conn_wf c" and h: "http_read c sk = (True, c', sk')"
  shows "conn_unparsed c'"
proof -
  have "m_read_idx c' = m_read_idx c + length (concat (pieces sk))" "drop (m_read_idx c') (m_read_buf c') = drop (m_read_idx c') (m_read_buf c)"
    using http_read_spec [OF assms(2) h] unfolding read_post_def by blast+
  then have "m_read_idx c' = 0 \<longrightarrow> m_read_idx c = 0 \<and> m_read_buf c' = m_read_buf c" by (metis add_is_0 drop0)
  then show ?thesis using assms(1) http_read_frame [OF h] by (auto simp: conn_unparsed_def)
qed

lemma process_unparsed:
  assumes t: "table_inv s" and u: "unparsed_inv s" and i: "int i \<in> clients s"
  shows "conn_process i s = Some (let received = take (m_read_idx (users s i)) (m_read_buf (users s i)) in
    if received = [] \<or> take 2 received = [13, 10] then Inl NullDeref else Inr (modfd (int i) EPOLLIN s))"
proof -
  let ?c = "users s i"
  have c: "conn_wf ?c" "m_sockfd ?c = int i" "conn_unparsed ?c" using t u i by (fastforce simp: table_inv_def unparsed_inv_def)+
  have len: "length (m_read_buf ?c) = 2048" "m_read_idx ?c \<le> 2048" using c(1) by (auto simp: conn_wf_def READ_BUFFER_SIZE_def)
  have e: "take (m_read_idx ?c) (m_read_buf ?c) = [] \<longleftrightarrow> m_read_idx ?c = 0" using len by auto
  have two: "take 2 (take (m_read_idx ?c) (m_read_buf ?c)) = [13, 10] \<longleftrightarrow> 1 < m_read_idx ?c \<and> m_read_buf ?c ! 0 = 13 \<and> m_read_buf ?c ! 1 = 10"
    using prefix_starts_with [where b = "m_read_buf ?c" and d = "take (m_read_idx ?c) (m_read_buf ?c)" and x = 13 and y = 10] len by simp
  have "process_read ?c = Some (if m_read_idx ?c = 0 \<or> (1 < m_read_idx ?c \<and> m_read_buf ?c ! 0 = 13 \<and> m_read_buf ?c ! 1 = 10) then Inl NullDeref else Inr (NO_REQUEST, ?c))"
    using c(3) by (intro process_read_first_call [OF c(1)]) (simp_all add: conn_unparsed_def)
  moreover have "upd_user i ?c s = s" by (simp add: upd_user_def)
  ultimately show ?thesis unfolding Let_def e two by (simp add: conn_process_def Let_def c(2))
qed

lemma unparsed_close:
  assumes t: "table_inv s" and u: "unparsed_inv s" and fd: "fd \<in> clients s"
  shows "unparsed_inv (close_conn (nat fd) s)"
proof -
  have sock: "m_sockfd (users s (nat fd)) = fd" "0 \<le> fd" using t fd by (auto simp: table_inv_def)
  have "clients (close_conn (nat fd) s) = clients s - {fd}" using sock by (auto simp: close_conn_def Let_def clients_def removefd_def upd_user_def)
  moreover have "users (close_conn (nat fd) s) (nat x) = users s (nat x)" if "x \<in> clients s" "x \<noteq> fd" for x
    using that t fd by (auto simp: close_conn_def Let_def removefd_def upd_user_def table_inv_def eq_nat_nat_iff)
  ultimately show ?thesis using u by (simp add: unparsed_inv_def)
qed

lemma unparsed_event:
  assumes t: "table_inv s" and u: "unparsed_inv s" and dom: "ev_fd ev \<in> dom (epoll s)"
    and acc: "ev_fd ev = listenfd s \<longrightarrow> epoll s (fst acc) = None \<and> 0 \<le> fst acc \<and> fst acc < MAX_FD" and h: "handle_event acc ev s = Inr s'"
  shows "unparsed_inv s'"
proof (cases "ev_fd ev = listenfd s")
  case True
  let ?fd = "fst acc"
  have a: "epoll s ?fd = None" "0 \<le> ?fd" "?fd < MAX_FD" using acc True by auto
  have "unparsed_inv (conn_init (nat ?fd) ?fd (snd acc) s)"
  proof -
    have "clients (conn_init (nat ?fd) ?fd (snd acc) s) \<subseteq> insert ?fd (clients s)"
      by (auto simp: clients_def conn_init_def addfd_def upd_user_def Let_def split: if_splits)
    moreover have "users (conn_init (nat ?fd) ?fd (snd acc) s) j = (if j = nat ?fd then init_rest ((users s j)\<lparr>m_sockfd := ?fd, m_address := snd acc\<rparr>) else users s j)" for j
      by (simp add: conn_init_def addfd_def upd_user_def Let_def)
    ultimately show ?thesis using u by (auto simp: unparsed_inv_def unparsed_init)
  qed
  then show ?thesis using h True u a by (auto simp: handle_event_def user_index_def Let_def split: if_splits)
next
  case False
  let ?fd = "ev_fd ev"
  have fd: "?fd \<in> clients s" using dom False by (simp add: clients_def)
  note ix = user_index_client [OF t fd] and cl = unparsed_close [OF t u fd]
  have c: "m_sockfd (users s (nat ?fd)) = ?fd" "conn_wf (users s (nat ?fd))" "conn_unparsed (users s (nat ?fd))" using t u fd by (auto simp: table_inv_def unparsed_inv_def)
  obtain ok c1 sk where r: "http_read (users s (nat ?fd)) (socks s ?fd) = (ok, c1, sk)" by (cases "http_read (users s (nat ?fd)) (socks s ?fd)")
  define s1 where "s1 = (upd_user (nat ?fd) c1 s)\<lparr>socks := (socks s)(?fd := sk)\<rparr>"
  have cr: "conn_read (nat ?fd) s = (ok, s1)" using r c(1) by (simp add: conn_read_def Let_def s1_def)
  have cl1: "clients s1 = clients s" by (simp add: s1_def clients_def upd_user_def)
  have ok: "unparsed_inv s1" if ok
    using that unparsed_read [OF c(3,2)] r u unfolding unparsed_inv_def cl1 by (simp add: s1_def upd_user_def)
  have bad: "unparsed_inv (close_conn (nat ?fd) s1)"
  proof -
    have t1: "table_inv s1" using conn_read_props(1) [OF t cr] .
    have "m_sockfd (users s1 (nat ?fd)) = ?fd" using t1 fd cl1 by (auto simp: table_inv_def)
    moreover have "?fd \<noteq> -1" using t fd by (auto simp: table_inv_def)
    ultimately have "clients (close_conn (nat ?fd) s1) = clients s - {?fd}" using cl1 by (auto simp: close_conn_def Let_def clients_def removefd_def upd_user_def)
    moreover have "users (close_conn (nat ?fd) s1) (nat x) = users s (nat x)" if "x \<in> clients s" "x \<noteq> ?fd" for x
      using that t fd by (auto simp: s1_def close_conn_def Let_def removefd_def upd_user_def table_inv_def eq_nat_nat_iff)
    ultimately show ?thesis using u by (simp add: unparsed_inv_def)
  qed
  have wk: "unparsed_inv (s1\<lparr>workers := w\<rparr>) = unparsed_inv s1" for w by (simp add: unparsed_inv_def clients_def)
  show ?thesis using h False ix cr cl ok bad u wk
    by (cases ok) (auto simp: handle_event_def Let_def conn_write_def split: if_splits)
qed

lemma reachable_unparsed:
  assumes "server_reachable (server_start lfd us w k) x" and "m_workqueue w = []"
  shows "unparsed_inv (fst x)"
  using assms(1)
proof (induction rule: server_reachable.induct)
  case start
  then show ?case by (auto simp: unparsed_inv_def clients_def server_start_def addfd_def Let_def split: if_splits)
next
  case (step x y)
  have inv: "table_inv (fst x)" "oneshot_inv x" using reachable_inv [OF step(1) assms(2)] by simp_all
  show ?case using step(2)
  proof cases
    case (event s ev e acc s' fl)
    have "unparsed_inv (epoll_deliver (ev_fd ev) s)" using step(3) event(1) by (simp add: unparsed_inv_def)
    moreover have "table_inv (epoll_deliver (ev_fd ev) s)" using inv(1) event(1) by (simp add: table_inv_deliver)
    ultimately have "unparsed_inv s'" using event(3,5) by (intro unparsed_event [OF _ _ _ _ event(6)]) auto
    then show ?thesis using event(2) by simp
  next
    case (take_request s i rest fl)
    then show ?thesis using step(3) by (simp add: unparsed_inv_def clients_def)
  next
    case (finish i fl s s')
    have "int i \<in> clients s" using inv(2) finish(1,3) by (auto simp: oneshot_inv_def busy_def)
    then have "s' = modfd (int i) EPOLLIN s" using process_unparsed [of s i] inv(1) step(3) finish(1,4) by (auto simp: Let_def split: if_splits)
    moreover have "clients (modfd (int i) EPOLLIN s) = clients s" by (auto simp: modfd_def clients_def split: if_splits)
    ultimately show ?thesis using finish(1,2) step(3) by (simp add: unparsed_inv_def modfd_def)
  next
    case (arrive s fl k)
    then show ?thesis using step(3) by (simp add: unparsed_inv_def clients_def)
  qed
qed

section \<open>Properties\<close>

text \<open>C1: in every state the server can reach, the user count is the number of registered
  client descriptors; every connection that is queued or being processed is registered, has its
  descriptor disarmed (so that no event, and no \<open>read()\<close> of the main thread, can touch it) and
  occurs only once among the queued and the running ones.\<close>

theorem server_oneshot_safe:
  assumes "server_reachable (server_start lfd us w k) (s, fl)" and "m_workqueue w = []"
  shows "m_user_count s = int (card (clients s)) \<and> distinct (busy (s, fl)) \<and>
    (\<forall>i \<in> set (busy (s, fl)). int i \<in> clients s \<and> m_sockfd (users s i) = int i \<and>
       (\<exists>e. epoll s (int i) = Some e \<and> \<not> armed e))"
proof -
  have t: "table_inv s" and o: "oneshot_inv (s, fl)" using reachable_inv [OF assms] by simp_all
  have "m_sockfd (users s i) = int i" if "int i \<in> clients s" for i
    using t that by (auto simp: table_inv_def)
  with t o show ?thesis by (auto simp: table_inv_def oneshot_inv_def)
qed

definition start0 :: server where
  "start0 = server_start 3 (\<lambda>_. blank_conn) small_pool (\<lambda>_. get_sock)"

theorem server_oneshot_safe_witness:
  "server_reachable start0 (conn_init 5 5 0 start0, []) \<and> m_user_count (conn_init 5 5 0 start0) = 1"
proof -
  have "server_step (start0, []) (conn_init 5 5 0 start0, [])"
    by (rule server_step.event [where e = "\<lparr>interest = EPOLLIN OR EPOLLET OR EPOLLRDHUP, armed = True\<rparr>"
          and ev = "\<lparr>ev_fd = 3, ev_events = EPOLLIN\<rparr>" and acc = "(5, 0)"])
      (simp_all add: start0_def server_start_def addfd_def handle_event_def user_index_def MAX_FD_def Let_def
        epoll_deliver_def EPOLLIN_def EPOLLET_def EPOLLRDHUP_def EPOLLONESHOT_def)
  then have r: "server_reachable start0 (conn_init 5 5 0 start0, [])"
    by (blast intro: server_reachable.intros)
  have "clients (conn_init 5 5 0 start0) = {5}"
    by (auto simp: clients_def conn_init_def start0_def server_start_def addfd_def upd_user_def Let_def)
  with r server_oneshot_safe [OF r [unfolded start0_def]] show ?thesis
    by (simp add: small_pool_def start0_def)
qed

text \<open>C27: the faults of the dispatch, exactly. In a reachable state, an event for a registered descriptor, whatever \<open>accept\<close> returns (a failure with -1 included),
  is handled to the end, except that a new connection, when the table has room, faults if and only if \<open>accept\<close> failed or its descriptor is not below \<open>MAX_FD\<close>: the
  result of \<open>accept\<close> is used as an index without a test. An event for a client is always handled, and leaves the table well-formed.\<close>

theorem handle_event_faults_iff:
  assumes "server_reachable (server_start lfd us w k) (s, fl)" and "m_workqueue w = []" and "ev_fd ev \<in> dom (epoll s)"
  shows "((\<exists>f. handle_event acc ev (epoll_deliver (ev_fd ev) s) = Inl f) \<longleftrightarrow>
      ev_fd ev = listenfd s \<and> card (clients s) < nat MAX_FD \<and> \<not> (0 \<le> fst acc \<and> fst acc < MAX_FD)) \<and>
    (ev_fd ev = listenfd s \<or> (\<exists>s'. handle_event acc ev (epoll_deliver (ev_fd ev) s) = Inr s' \<and> table_inv s'))"
proof -
  have t: "table_inv s" using reachable_inv [OF assms(1,2)] by simp
  have c: "m_user_count s = int (card (clients s))" using t by (simp add: table_inv_def)
  show ?thesis
  proof (cases "ev_fd ev = listenfd s")
    case True
    then show ?thesis by (auto simp: handle_event_def user_index_def Let_def c MAX_FD_def)
  next
    case False
    then have "\<exists>s'. handle_event acc ev (epoll_deliver (ev_fd ev) s) = Inr s' \<and> table_inv s'"
      using t assms(3) by (intro handle_event_table) (simp_all add: table_inv_deliver domIff)
    then show ?thesis using False by auto
  qed
qed

theorem handle_event_faults_iff_witness:
  "(\<exists>f. handle_event (-1, 0) \<lparr>ev_fd = 3, ev_events = EPOLLIN\<rparr> (epoll_deliver 3 start0) = Inl f) \<and>
   \<not> (\<exists>f. handle_event (5, 0) \<lparr>ev_fd = 3, ev_events = EPOLLIN\<rparr> (epoll_deliver 3 start0) = Inl f)"
proof -
  have c: "clients start0 = {}" "listenfd start0 = 3" "3 \<in> dom (epoll start0)"
    by (auto simp: clients_def start0_def server_start_def addfd_def Let_def split: if_splits)
  have r: "server_reachable (server_start 3 (\<lambda>_. blank_conn) small_pool (\<lambda>_. get_sock)) (start0, [])"
    using server_reachable.start [of start0] by (simp add: start0_def)
  show ?thesis
    using handle_event_faults_iff [OF r, of "\<lparr>ev_fd = 3, ev_events = EPOLLIN\<rparr>" "(-1, 0)"] handle_event_faults_iff [OF r, of "\<lparr>ev_fd = 3, ev_events = EPOLLIN\<rparr>" "(5, 0)"] c
    by (simp add: small_pool_def MAX_FD_def)
qed

text \<open>a failed \<open>accept\<close> is not checked: unless the table is full, the listening socket's
  event then indexes \<open>users\<close> outside its bounds.\<close>

theorem accept_failure_faults:
  assumes "m_user_count s < MAX_FD"
  shows "handle_event (-1, addr) \<lparr>ev_fd = listenfd s, ev_events = EPOLLIN\<rparr> s = Inl OutOfBounds"
  using assms by (simp add: handle_event_def user_index_def)

theorem accept_failure_faults_witness:
  "handle_event (-1, 0) \<lparr>ev_fd = 3, ev_events = EPOLLIN\<rparr> start0 = Inl OutOfBounds"
  using accept_failure_faults [of start0 0]
  by (simp add: start0_def server_start_def addfd_def MAX_FD_def Let_def)

text \<open>C31: a request that the pool refuses is lost for good: when the queue is over its limit and
  a client's data arrives, the client's descriptor is left registered but disarmed and the
  connection is not in the queue, so that no further event for it is delivered.\<close>

theorem refused_request_is_stuck:
  assumes "table_inv s" and "fd \<in> clients s" and "epoll s fd = Some e" and "oneshot e"
    and "length (m_workqueue (workers s)) > m_max_requests (workers s)"
    and "at_end (socks s fd) = SockAgain"
    and "m_read_idx (users s (nat fd)) + length (concat (pieces (socks s fd))) < READ_BUFFER_SIZE"
  shows "\<exists>s'. handle_event acc \<lparr>ev_fd = fd, ev_events = EPOLLIN\<rparr> (epoll_deliver fd s) = Inr s' \<and>
     epoll s' fd = Some (e\<lparr>armed := False\<rparr>) \<and> m_workqueue (workers s') = m_workqueue (workers s)"
proof -
  let ?s = "epoll_deliver fd s"
  have tab: "table_inv ?s" using assms(1) by (simp add: table_inv_deliver)
  have c: "m_sockfd (users s (nat fd)) = fd" "conn_wf (users s (nat fd))"
    using assms(1,2) by (auto simp: table_inv_def)
  obtain ok s1 where r: "conn_read (nat fd) ?s = (ok, s1)" by (cases "conn_read (nat fd) ?s")
  note rp = conn_read_props [OF tab r]
  have ok
    using r c http_read_spec [OF c(2)] assms(6,7)
    by (auto simp: conn_read_def Let_def read_post_def split: prod.splits)
  moreover have "epoll ?s fd = Some (e\<lparr>armed := False\<rparr>)"
    using assms(3,4) by (simp add: epoll_deliver_def oneshot_def)
  moreover have "snd (append_seq (Some (nat fd)) (workers s1)) = workers s1"
    using rp(4) assms(5) by (simp add: append_seq_def)
  ultimately show ?thesis
    using r rp user_index_client [OF assms(1,2)] assms(2)
    by (simp add: handle_event_def Let_def clients_def EPOLLIN_def EPOLLRDHUP_def EPOLLHUP_def EPOLLERR_def)
qed

text \<open>The pool of the witnesses with a queue over its limit, and one idle client.\<close>

definition start_full :: server where
  "start_full = conn_init 5 5 0 (server_start 3 (\<lambda>_. blank_conn) (small_pool\<lparr>m_workqueue := [None, None]\<rparr>) (\<lambda>_. get_sock))"

theorem refused_request_is_stuck_witness:
  "\<exists>s' e. handle_event (7, 0) \<lparr>ev_fd = 5, ev_events = EPOLLIN\<rparr> (epoll_deliver 5 start_full) = Inr s' \<and>
     epoll s' 5 = Some e \<and> \<not> armed e \<and> m_workqueue (workers s') = [None, None]"
proof -
  let ?s0 = "server_start 3 (\<lambda>_. blank_conn) (small_pool\<lparr>m_workqueue := [None, None]\<rparr>) (\<lambda>_. get_sock)"
  have "clients ?s0 = {}" by (auto simp: clients_def server_start_def addfd_def Let_def)
  then have "table_inv ?s0" by (simp add: table_inv_def server_start_def addfd_def Let_def)
  from table_inv_init [OF this, of 5 0] have t: "table_inv start_full"
    by (simp add: start_full_def server_start_def addfd_def MAX_FD_def Let_def)
  have e: "epoll start_full 5 = Some \<lparr>interest = EPOLLIN OR EPOLLET OR EPOLLRDHUP OR EPOLLONESHOT, armed = True\<rparr>"
    and c: "5 \<in> clients start_full" and w: "m_workqueue (workers start_full) = [None, None]"
      "m_max_requests (workers start_full) = 1"
    by (simp_all add: start_full_def conn_init_def server_start_def addfd_def upd_user_def clients_def small_pool_def
        or.assoc Let_def)
  have k: "socks start_full 5 = get_sock" "m_read_idx (users start_full 5) = 0"
    by (simp_all add: start_full_def conn_init_def server_start_def addfd_def upd_user_def init_rest_def Let_def)
  obtain s' where "handle_event (7, 0) \<lparr>ev_fd = 5, ev_events = EPOLLIN\<rparr> (epoll_deliver 5 start_full) = Inr s'"
      "epoll s' 5 = Some \<lparr>interest = EPOLLIN OR EPOLLET OR EPOLLRDHUP OR EPOLLONESHOT, armed = False\<rparr>"
      "m_workqueue (workers s') = [None, None]"
    using refused_request_is_stuck [OF t c e oneshot_added, of "(7, 0)"]
    by (auto simp: w k get_sock_def bytes_def READ_BUFFER_SIZE_def)
  then show ?thesis by simp
qed

text \<open>C30: no request is ever answered. In every state that the server can reach, a worker that has taken a connection and processes it either leaves all as it is and
  waits for more input, whatever has been received, a complete \<open>GET\<close> request too; or, if nothing has been received or what was received starts with an empty line, it
  dereferences a null pointer.\<close>

theorem requests_never_answered:
  assumes r: "server_reachable (server_start lfd us w k) (s, fl)" and w: "m_workqueue w = []" and i: "i \<in> set fl"
  shows "conn_process i s = Some (let received = take (m_read_idx (users s i)) (m_read_buf (users s i)) in
    if received = [] \<or> take 2 received = [13, 10] then Inl NullDeref else Inr (modfd (int i) EPOLLIN s))"
proof -
  have t: "table_inv s" and o: "oneshot_inv (s, fl)" and f: "unparsed_inv s" using reachable_inv [OF r w] reachable_unparsed [OF r w] by simp_all
  have "int i \<in> clients s" using i o by (auto simp: oneshot_inv_def busy_def)
  then show ?thesis using process_unparsed [OF t f] by simp
qed

theorem requests_never_answered_witness:
  "\<exists>s. server_reachable start0 (s, [5]) \<and> conn_process 5 s = Some (Inr (modfd 5 EPOLLIN s))"
proof -
  let ?s = "conn_init 5 5 0 start0" and ?c = "blank_conn\<lparr>m_sockfd := 5, m_address := 0\<rparr>"
  let ?e = "\<lparr>interest = EPOLLIN OR EPOLLET OR EPOLLRDHUP OR EPOLLONESHOT, armed = True\<rparr>"
  have "server_step (start0, []) (?s, [])"
    by (rule server_step.event [where e = "\<lparr>interest = EPOLLIN OR EPOLLET OR EPOLLRDHUP, armed = True\<rparr>"
          and ev = "\<lparr>ev_fd = 3, ev_events = EPOLLIN\<rparr>" and acc = "(5, 0)"])
      (simp_all add: start0_def server_start_def addfd_def handle_event_def user_index_def MAX_FD_def Let_def
        epoll_deliver_def EPOLLIN_def EPOLLET_def EPOLLRDHUP_def EPOLLONESHOT_def)
  then have r1: "server_reachable start0 (?s, [])" by (blast intro: server_reachable.intros)
  let ?d = "epoll_deliver 5 ?s"
  have e: "epoll ?s 5 = Some ?e" and l: "listenfd ?s = 3" and wk: "workers ?s = small_pool" and u: "users ?s 5 = init_rest ?c" and k: "socks ?s = (\<lambda>_. get_sock)"
    by (simp_all add: start0_def server_start_def conn_init_def addfd_def upd_user_def Let_def or.assoc)
  obtain ok c1 sk where h: "http_read (init_rest ?c) get_sock = (ok, c1, sk)" by (cases "http_read (init_rest ?c) get_sock")
  note post = http_read_spec [OF conn_wf_init_rest h]
  have ok: "ok" using post by (simp add: read_post_def init_rest_def get_sock_def bytes_def READ_BUFFER_SIZE_def)
  moreover have i0: "m_read_idx (init_rest ?c) = 0" by (simp add: init_rest_def)
  ultimately have c1: "take (m_read_idx c1) (m_read_buf c1) = concat (pieces get_sock)" using post unfolding read_post_def i0 by (metis append_Nil take_0)
  have fd: "m_sockfd (init_rest ?c) = 5" by (simp add: init_rest_def)
  define s1 where "s1 = (upd_user 5 c1 ?d)\<lparr>socks := (socks ?d)(5 := sk)\<rparr>"
  have cr: "conn_read 5 ?d = (True, s1)" using h ok by (simp add: conn_read_def Let_def u k fd s1_def)
  define s2 where "s2 = s1\<lparr>workers := snd (append_seq (Some 5) (workers s1))\<rparr>"
  have w2: "m_workqueue (workers s2) = [Some 5]" by (simp add: s2_def s1_def upd_user_def wk append_seq_def small_pool_def)
  have "server_step (?s, []) (s2, [])"
    by (rule server_step.event [where e = ?e and ev = "\<lparr>ev_fd = 5, ev_events = EPOLLIN\<rparr>" and acc = "(7, 0)"])
      (use cr in \<open>simp_all add: e l handle_event_def user_index_def MAX_FD_def Let_def s2_def EPOLLIN_def EPOLLRDHUP_def EPOLLHUP_def EPOLLERR_def\<close>)
  then have r2: "server_reachable start0 (s2, [])" using r1 by (blast intro: server_reachable.intros)
  define s3 where "s3 = s2\<lparr>workers := (workers s2)\<lparr>m_workqueue := []\<rparr>\<rparr>"
  have "server_step (s2, []) (s3, [5])" unfolding s3_def by (rule server_step.take_request [OF w2])
  then have r3: "server_reachable start0 (s3, [5])" using r2 by (blast intro: server_reachable.intros)
  have u3: "users s3 5 = c1" by (simp add: s3_def s2_def s1_def upd_user_def)
  have "conn_process 5 s3 = Some (Inr (modfd 5 EPOLLIN s3))"
    using requests_never_answered [OF r3 [unfolded start0_def], of 5] by (simp add: u3 c1 small_pool_def get_sock_def bytes_def)
  then show ?thesis using r3 by blast
qed

end
