(* ===== verification/Bytes.thy ===== *)
theory Bytes
  imports Prelude
begin

text \<open>
  Little-endian images of unsigned numbers as byte lists, the layout that the compact encodings
  of Redis use on every host. Shared by the theories on byte order, integer sets and packed lists.
\<close>

fun le_val :: "byte list \<Rightarrow> nat" where
  "le_val [] = 0"
| "le_val (b # bs) = unat b + 256 * le_val bs"

fun le_enc :: "nat \<Rightarrow> nat \<Rightarrow> byte list" where
  "le_enc 0 v = []"
| "le_enc (Suc n) v = word_of_nat v # le_enc n (v div 256)"

lemma unat_of_nat_byte: "unat (word_of_nat v :: byte) = v mod 256"
  by (simp add: unat_of_nat)

lemma length_le_enc [simp]: "length (le_enc n v) = n"
  by (induction n arbitrary: v) simp_all

lemma le_val_le_enc: "le_val (le_enc n v) = v mod 256 ^ n"
proof (induction n arbitrary: v)
  case (Suc n)
  have "v mod 256 + 256 * (v div 256 mod 256 ^ n) = v mod (256 * 256 ^ n)"
    by (simp add: mod_mult2_eq)
  with Suc show ?case by (simp add: unat_of_nat_byte)
qed simp

lemma le_val_bound: "le_val bs < 256 ^ length bs"
proof (induction bs)
  case (Cons b bs)
  have "unat b < 256" by (rule unat_byte_less)
  with Cons show ?case by simp
qed simp

lemma le_enc_le_val: "le_enc (length bs) (le_val bs) = bs"
proof (induction bs)
  case (Cons b bs)
  have b: "unat b < 256" by (rule unat_byte_less)
  have "unat (word_of_nat (unat b + 256 * le_val bs) :: byte) = unat b"
    unfolding unat_of_nat_byte using b by simp
  then have "(word_of_nat (unat b + 256 * le_val bs) :: byte) = b"
    by (rule unsigned_word_eqI)
  with b Cons show ?case by simp
qed simp

lemma le_val_inj: "length xs = length ys \<Longrightarrow> le_val xs = le_val ys \<Longrightarrow> xs = ys"
  by (metis le_enc_le_val)

lemma le_val_append: "le_val (xs @ ys) = le_val xs + 256 ^ length xs * le_val ys"
  by (induction xs) (simp_all add: algebra_simps)

text \<open>A word of the given byte width as its memory image, and back.\<close>

definition word_bytes :: "'a::len word \<Rightarrow> byte list" where
  "word_bytes w = le_enc (LENGTH('a) div 8) (unat w)"

definition bytes_word :: "byte list \<Rightarrow> 'a::len word" where
  "bytes_word bs = word_of_nat (le_val bs)"

lemma length_word_bytes [simp]: "length (word_bytes (w :: 'a::len word)) = LENGTH('a) div 8"
  by (simp add: word_bytes_def)

lemma bytes_word_bytes:
  "8 dvd LENGTH('a) \<Longrightarrow> bytes_word (word_bytes (w :: 'a::len word)) = w"
proof -
  assume "8 dvd LENGTH('a)"
  then have "(256::nat) ^ (LENGTH('a) div 8) = 2 ^ LENGTH('a)"
    using power_mult [of "2::nat" 8 "LENGTH('a) div 8"] by simp
  then show ?thesis
    using unat_less [of w] by (simp add: bytes_word_def word_bytes_def le_val_le_enc)
qed

lemma word_bytes_word:
  "length bs * 8 = LENGTH('a::len) \<Longrightarrow> word_bytes (bytes_word bs :: 'a word) = bs"
proof -
  assume len: "length bs * 8 = LENGTH('a)"
  have "(256::nat) ^ length bs = 2 ^ (8 * length bs)" by (simp add: power_mult)
  then have "le_val bs < 2 ^ LENGTH('a)" using le_val_bound [of bs] len by (simp add: mult.commute)
  then have "unat (word_of_nat (le_val bs) :: 'a word) = le_val bs" by (simp add: unat_of_nat_small)
  then show ?thesis
    using len le_enc_le_val [of bs] by (simp add: bytes_word_def word_bytes_def flip: len)
qed

end
