(* ===== verification/Endianconv.thy ===== *)
theory Endianconv
  imports Bytes
begin

text \<open>
  \<open>endianconv.c\<close>: the byte-order toggles on 2, 4 and 8 bytes of memory and on integers. Memory
  is a byte list and the pointer a position in it; the host is little endian, so the image of an
  integer in memory is \<^const>\<open>word_bytes\<close>.
\<close>

section \<open>Operations\<close>

text \<open>\<open>t = x[i]; x[i] = x[j]; x[j] = t\<close>\<close>

definition swap_at :: "nat \<Rightarrow> nat \<Rightarrow> byte list \<Rightarrow> byte list cres" where
  "swap_at i j x = cbind (rd x i) (\<lambda>t. cbind (rd x j) (\<lambda>u. cbind (wr x i u) (\<lambda>x. wr x j t)))"

definition memrev16 :: "nat \<Rightarrow> byte list \<Rightarrow> byte list cres" where
  "memrev16 p x = swap_at p (p + 1) x"

definition memrev32 :: "nat \<Rightarrow> byte list \<Rightarrow> byte list cres" where
  "memrev32 p x = cbind (swap_at p (p + 3) x) (swap_at (p + 1) (p + 2))"

definition memrev64 :: "nat \<Rightarrow> byte list \<Rightarrow> byte list cres" where
  "memrev64 p x = cbind (swap_at p (p + 7) x) (\<lambda>x. cbind (swap_at (p + 1) (p + 6) x)
     (\<lambda>x. cbind (swap_at (p + 2) (p + 5) x) (swap_at (p + 3) (p + 4))))"

definition intrev16 :: "u16 \<Rightarrow> u16 cres" where
  "intrev16 v = cbind (memrev16 0 (word_bytes v)) (\<lambda>x. Inr (bytes_word x))"

definition intrev32 :: "u32 \<Rightarrow> u32 cres" where
  "intrev32 v = cbind (memrev32 0 (word_bytes v)) (\<lambda>x. Inr (bytes_word x))"

definition intrev64 :: "u64 \<Rightarrow> u64 cres" where
  "intrev64 v = cbind (memrev64 0 (word_bytes v)) (\<lambda>x. Inr (bytes_word x))"

section \<open>The toggles reverse the bytes of the field\<close>

text \<open>\<open>rev_at p n x\<close> is \<open>x\<close> with the \<open>n\<close> bytes from \<open>p\<close> on in reverse order.\<close>

definition rev_at :: "nat \<Rightarrow> nat \<Rightarrow> byte list \<Rightarrow> byte list" where
  "rev_at p n x = take p x @ rev (take n (drop p x)) @ drop (p + n) x"

lemma rev_at_split:
  "p + n \<le> length x \<Longrightarrow> \<exists>a f b. x = a @ f @ b \<and> length a = p \<and> length f = n"
  by (intro exI [of _ "take p x"] exI [of _ "take n (drop p x)"] exI [of _ "drop (p + n) x"])
    (simp add: add.commute flip: drop_drop)

lemma rev_at_field: "length a = p \<Longrightarrow> length f = n \<Longrightarrow> rev_at p n (a @ f @ b) = a @ rev f @ b"
  by (simp add: rev_at_def)

lemma length_2_elems: "length f = 2 \<Longrightarrow> \<exists>a b. f = [a, b]"
  and length_4_elems: "length f = 4 \<Longrightarrow> \<exists>a b c d. f = [a, b, c, d]"
  and length_8_elems: "length f = 8 \<Longrightarrow> \<exists>a b c d a' b' c' d'. f = [a, b, c, d, a', b', c', d']"
  by (auto simp: numeral_eq_Suc length_Suc_conv)

lemma memrev16_rev:
  assumes "p + 2 \<le> length x"
  shows "memrev16 p x = Inr (rev_at p 2 x)"
proof -
  obtain a f b where x: "x = a @ f @ b" "length a = p" "length f = 2"
    using rev_at_split [OF assms] by blast
  then show ?thesis
    using length_2_elems [OF x(3)]
    by (auto simp: memrev16_def swap_at_def rev_at_def nth_append list_update_append nth_Cons' list_update_code)
qed

lemma memrev32_rev:
  assumes "p + 4 \<le> length x"
  shows "memrev32 p x = Inr (rev_at p 4 x)"
proof -
  obtain a f b where x: "x = a @ f @ b" "length a = p" "length f = 4"
    using rev_at_split [OF assms] by blast
  then show ?thesis
    using length_4_elems [OF x(3)]
    by (auto simp: memrev32_def swap_at_def rev_at_def nth_append list_update_append nth_Cons' list_update_code)
qed

lemma memrev64_rev:
  assumes "p + 8 \<le> length x"
  shows "memrev64 p x = Inr (rev_at p 8 x)"
proof -
  obtain a f b where x: "x = a @ f @ b" "length a = p" "length f = 8"
    using rev_at_split [OF assms] by blast
  then show ?thesis
    using length_8_elems [OF x(3)]
    by (auto simp: memrev64_def swap_at_def rev_at_def nth_append list_update_append nth_Cons' list_update_code)
qed

lemma rev_at_rev_at: "p + n \<le> length x \<Longrightarrow> rev_at p n (rev_at p n x) = x"
  by (auto simp: rev_at_field dest!: rev_at_split)

lemma rev_at_whole: "length x = n \<Longrightarrow> rev_at 0 n x = rev x"
  by (simp add: rev_at_def)

lemma intrev_eq:
  "intrev16 v = Inr (bytes_word (rev (word_bytes v)))"
  "intrev32 w = Inr (bytes_word (rev (word_bytes w)))"
  "intrev64 u = Inr (bytes_word (rev (word_bytes u)))"
  by (simp_all add: intrev16_def intrev32_def intrev64_def memrev16_rev memrev32_rev memrev64_rev rev_at_whole)

section \<open>Properties\<close>

text \<open>The toggles on memory never touch a byte outside their field when the field lies inside
  the buffer: they reverse its bytes and keep all others; toggling twice gives the buffer back.\<close>

theorem memrev_correct:
  assumes "p + 8 \<le> length x"
  shows "memrev16 p x = Inr (rev_at p 2 x) \<and> memrev32 p x = Inr (rev_at p 4 x) \<and>
    memrev64 p x = Inr (rev_at p 8 x) \<and> cbind (memrev64 p x) (memrev64 p) = Inr x \<and>
    cbind (memrev32 p x) (memrev32 p) = Inr x \<and> cbind (memrev16 p x) (memrev16 p) = Inr x"
proof -
  have "length (rev_at p n x) = length x" if "n \<le> 8" for n using assms that by (simp add: rev_at_def)
  then show ?thesis
    using assms by (simp add: memrev16_rev memrev32_rev memrev64_rev rev_at_rev_at)
qed

theorem memrev_correct_witness:
  "memrev32 0 (bytes ''ciaoroma'') = Inr (bytes ''oaicroma'')"
  using memrev_correct [of 0 "bytes ''ciaoroma''"] by (simp add: rev_at_def bytes_def)

text \<open>Toggling the byte order of an integer twice is the identity, at each width.\<close>

theorem intrev_involutive:
  "cbind (intrev16 v) intrev16 = Inr v \<and> cbind (intrev32 w) intrev32 = Inr w \<and>
   cbind (intrev64 u) intrev64 = Inr u"
  by (simp add: intrev_eq word_bytes_word bytes_word_bytes)

end
