(* ===== verification/Rand48.thy ===== *)
theory Rand48
  imports Prelude
begin

text \<open>
  \<open>rand.c\<close>: the pseudo random generator that Redis carries so that scripts see the same sequence
  on every host. The 48-bit state is kept in three 16-bit digits inside 32-bit integers and
  advanced by schoolbook multiplication with explicit carries. The theory shows that this is the
  linear congruential generator \<open>X := (A X + C) mod 2\<^sup>4\<^sup>8\<close> and that the output is bits 17 to 47.
\<close>

section \<open>The generator\<close>

record rand48 =
  r_x0 :: u32
  r_x1 :: u32
  r_x2 :: u32
  r_a0 :: u32
  r_a1 :: u32
  r_a2 :: u32
  r_c :: u32

definition MASK :: int where
  "MASK = 65535"

definition LOW :: "u32 \<Rightarrow> u32" where
  "LOW x = x AND word_of_int MASK"

text \<open>\<open>HIGH\<close> of a signed value: the shift is arithmetic, the mask drops the sign bits again.\<close>

definition HIGH :: "u32 \<Rightarrow> u32" where
  "HIGH x = LOW (signed_drop_bit 16 x)"

text \<open>The product of two \<open>long\<close>s, truncated to \<open>int32_t\<close>.\<close>

definition MUL :: "u32 \<Rightarrow> u32 \<Rightarrow> u32 \<times> u32" where
  "MUL x y = (let l = word_of_int (uint x * uint y) in (LOW l, HIGH l))"

definition CARRY :: "u32 \<Rightarrow> u32 \<Rightarrow> bool" where
  "CARRY x y \<longleftrightarrow> sint x + uint y > MASK"

text \<open>\<open>ADDEQU(x, y, z)\<close> as the pair of the new \<open>x\<close> and the carry \<open>z\<close>.\<close>

definition ADDEQU :: "u32 \<Rightarrow> u32 \<Rightarrow> u32 \<times> u32" where
  "ADDEQU x y = (LOW (x + y), of_bool (CARRY x y))"

definition rand48_start :: rand48 where
  "rand48_start = \<lparr> r_x0 = 0x330E, r_x1 = 0xABCD, r_x2 = 0x1234, r_a0 = 0xE66D, r_a1 = 0xDEEC, r_a2 = 0x5, r_c = 0xB \<rparr>"

definition next_rand :: "rand48 \<Rightarrow> rand48" where
  "next_rand s =
     (let (p0, p1) = MUL (r_a0 s) (r_x0 s);
          (p0, carry0) = ADDEQU p0 (r_c s);
          (p1, carry1) = ADDEQU p1 carry0;
          (q0, q1) = MUL (r_a0 s) (r_x1 s);
          (p1, carry0) = ADDEQU p1 q0;
          (r0, r1) = MUL (r_a1 s) (r_x0 s);
          y2 = LOW (carry0 + carry1 + of_bool (CARRY p1 r0) + q1 + r1 +
                    r_a0 s * r_x2 s + r_a1 s * r_x1 s + r_a2 s * r_x0 s)
      in s\<lparr> r_x2 := y2, r_x1 := LOW (p1 + r0), r_x0 := LOW p0 \<rparr>)"

text \<open>The sum is unsigned; \<open>(int32_t)x[2] << 15\<close> does not overflow for a digit below \<open>2\<^sup>1\<^sup>6\<close>.\<close>

definition redisLrand48 :: "rand48 \<Rightarrow> int \<times> rand48" where
  "redisLrand48 s = (let s' = next_rand s in (sint (push_bit 15 (r_x2 s') + drop_bit 1 (r_x1 s')), s'))"

definition redisSrand48 :: "u32 \<Rightarrow> rand48" where
  "redisSrand48 seedval =
     \<lparr> r_x0 = 0x330E, r_x1 = LOW seedval, r_x2 = HIGH seedval, r_a0 = 0xE66D, r_a1 = 0xDEEC, r_a2 = 0x5, r_c = 0xB \<rparr>"

section \<open>The state as one number\<close>

definition digits_ok :: "rand48 \<Rightarrow> bool" where
  "digits_ok s \<longleftrightarrow> unat (r_x0 s) < 65536 \<and> unat (r_x1 s) < 65536 \<and> unat (r_x2 s) < 65536 \<and>
     r_a0 s = 0xE66D \<and> r_a1 s = 0xDEEC \<and> r_a2 s = 0x5 \<and> r_c s = 0xB"

definition state48 :: "rand48 \<Rightarrow> nat" where
  "state48 s = unat (r_x0 s) + 65536 * unat (r_x1 s) + 65536 ^ 2 * unat (r_x2 s)"

lemma unat_LOW: "unat (LOW w) = unat w mod 65536"
proof -
  have m: "(word_of_int MASK :: u32) = mask 16" by (simp add: MASK_def mask_eq_exp_minus_1)
  show ?thesis
    unfolding LOW_def m take_bit_eq_mask [symmetric] unsigned_take_bit_eq by (simp add: take_bit_eq_mod)
qed

lemma unat_HIGH: "unat (HIGH w) = unat w div 65536"
proof -
  have "LOW (signed_drop_bit 16 w) = drop_bit 16 w"
  proof (rule bit_word_eqI)
    fix n
    assume "n < LENGTH(32)"
    have m: "(word_of_int MASK :: u32) = mask 16" by (simp add: MASK_def mask_eq_exp_minus_1)
    show "bit (LOW (signed_drop_bit 16 w)) n = bit (drop_bit 16 w) n"
      using \<open>n < LENGTH(32)\<close> unfolding LOW_def m
      by (auto simp: bit_simps bit_signed_drop_bit_iff dest: bit_imp_le_length)
  qed
  then show ?thesis by (simp add: HIGH_def drop_bit_eq_div unat_div_distrib)
qed

lemma unat_LOW_of_nat: "unat (LOW (word_of_nat n)) = n mod 65536"
  by (simp add: unat_LOW unat_of_nat mod_mod_cancel)

lemma MUL_unat:
  assumes "unat x < 65536" and "unat y < 65536"
  shows "\<exists>l h. MUL x y = (l, h) \<and> unat l = unat x * unat y mod 65536 \<and> unat h = unat x * unat y div 65536"
proof -
  have "unat x * unat y \<le> 65535 * 65535" using assms by (intro mult_le_mono) auto
  then have small: "unat x * unat y < 2 ^ LENGTH(32)" by simp
  have "(word_of_int (uint x * uint y) :: u32) = word_of_nat (unat x * unat y)" by simp
  with small show ?thesis
    unfolding MUL_def Let_def by (auto simp del: of_nat_mult simp: unat_LOW unat_HIGH unat_of_nat_small)
qed

lemma sint_small:
  assumes "unat x < 2147483648"
  shows "sint (x :: u32) = int (unat x)"
proof -
  have "uint x < 2147483648" "0 \<le> uint x" using assms unfolding uint_nat by linarith+
  then have "signed_take_bit 31 (uint x) = uint x"
    by (intro signed_take_bit_int_eq_self; simp) (simp add: order_trans [of _ 0])
  then show ?thesis by (simp add: sint_uint)
qed

lemma CARRY_unat:
  assumes "unat x < 65536"
  shows "CARRY x y \<longleftrightarrow> unat x + unat y > 65535"
proof -
  have "sint x = int (unat x)" using assms by (intro sint_small) simp
  moreover have "uint y = int (unat y)" by (simp only: uint_nat)
  ultimately show ?thesis unfolding CARRY_def MASK_def by linarith
qed


lemma ADDEQU_unat:
  assumes "unat x < 65536" and "unat y < 65536"
  shows "\<exists>s k. ADDEQU x y = (s, k) \<and> unat s = (unat x + unat y) mod 65536 \<and> unat k = (unat x + unat y) div 65536"
proof -
  have "unat (x + y) = unat x + unat y"
    using assms by (subst unat_add_lem [symmetric]) simp
  moreover have "(unat x + unat y) div 65536 = of_bool (unat x + unat y > 65535)" using assms by auto
  ultimately show ?thesis by (simp add: ADDEQU_def unat_LOW CARRY_unat [OF assms(1)])
qed

text \<open>Schoolbook multiplication with three digits in base \<open>B\<close>.\<close>

lemma three_digits:
  fixes B :: nat
  assumes "0 < B" and "x0 + B * x1 = v + B ^ 2 * t" and "v < B ^ 2"
  shows "(x0 + B * x1 + B ^ 2 * x2 + B ^ 3 * z) mod B ^ 3 = v + B ^ 2 * ((t + x2) mod B)"
proof -
  have "x0 + B * x1 + B ^ 2 * x2 + B ^ 3 * z = v + B ^ 2 * (t + x2) + B ^ 3 * z"
    using assms(2) by (simp add: distrib_left)
  also have "\<dots> mod B ^ 3 = (v + B ^ 2 * (t + x2)) mod (B ^ 2 * B)"
    by (simp add: power2_eq_square power3_eq_cube)
  also have "\<dots> = v + B ^ 2 * ((t + x2) mod B)"
    using assms(1,3) by (subst mod_mult2_eq) simp
  finally show ?thesis .
qed


lemma lcg_digits:
  fixes B :: nat
  assumes "0 < B" and "p0 = (P mod B + c) mod B" and "k0 = (P mod B + c) div B"
    and "p1 = (P div B + k0) mod B" and "k1 = (P div B + k0) div B"
    and "p1' = (p1 + Q mod B) mod B" and "k0' = (p1 + Q mod B) div B"
    and "y1 = (p1' + R mod B) mod B" and "k2 = (p1' + R mod B) div B"
  shows "(P + c) + B * (Q + R) = (p0 + B * y1) + B ^ 2 * (k0' + k1 + k2 + Q div B + R div B)"
proof -
  have "P = P mod B + B * (P div B)" "Q = Q mod B + B * (Q div B)" "R = R mod B + B * (R div B)" by simp_all
  moreover have 1: "P mod B + c = p0 + B * k0" and 2: "P div B + k0 = p1 + B * k1"
    and 3: "p1 + Q mod B = p1' + B * k0'" and 4: "p1' + R mod B = y1 + B * k2"
    using assms by simp_all
  ultimately have "P + c = p0 + B * (p1 + B * k1)"
    by (metis add.assoc add.commute distrib_left)
  moreover have "B * (Q + R) = B * (Q mod B) + B * (R mod B) + B ^ 2 * (Q div B + R div B)"
  proof -
    have "B * n = B * (n mod B) + B ^ 2 * (n div B)" for n
      by (simp add: power2_eq_square mult.assoc flip: distrib_left)
    from this [of Q] this [of R] show ?thesis by (simp add: algebra_simps)
  qed
  moreover have "B * p1 + B * (Q mod B) + B * (R mod B) = B * y1 + B ^ 2 * (k0' + k2)"
  proof -
    have "p1 + Q mod B + R mod B = y1 + B * (k0' + k2)" using 3 4 by (simp add: algebra_simps)
    then have "B * (p1 + Q mod B + R mod B) = B * (y1 + B * (k0' + k2))" by simp
    then show ?thesis by (simp add: algebra_simps power2_eq_square)
  qed
  ultimately show ?thesis by (simp add: algebra_simps power2_eq_square)
qed

definition LCG_A :: nat where
  "LCG_A = 0x5DEECE66D"

lemma lcg_expand:
  fixes B :: nat
  shows "(a0 + B * a1 + B ^ 2 * a2) * (x0 + B * x1 + B ^ 2 * x2) + c =
    (a0 * x0 + c) + B * (a0 * x1 + a1 * x0) + B ^ 2 * (a0 * x2 + a1 * x1 + a2 * x0) +
    B ^ 3 * (a1 * x2 + a2 * x1 + B * (a2 * x2))"
  by (simp add: algebra_simps power2_eq_square power3_eq_cube)


lemma next_rand_digits:
  assumes ok: "digits_ok s"
  shows "digits_ok (next_rand s) \<and> state48 (next_rand s) = (LCG_A * state48 s + 11) mod 2 ^ 48"
proof -
  let ?B = "65536 :: nat"
  have d: "unat (r_x0 s) < ?B" "unat (r_x1 s) < ?B" "unat (r_x2 s) < ?B"
    and k: "r_a0 s = 0xE66D" "r_a1 s = 0xDEEC" "r_a2 s = 0x5" "r_c s = 0xB"
    using ok by (simp_all add: digits_ok_def)
  have ka: "unat (r_a0 s) = 58989" "unat (r_a1 s) = 57068" "unat (r_a2 s) = 5" "unat (r_c s) = 11"
    by (simp_all add: k)
  let ?P = "unat (r_a0 s) * unat (r_x0 s)" and ?Q = "unat (r_a0 s) * unat (r_x1 s)"
    and ?R = "unat (r_a1 s) * unat (r_x0 s)"
  obtain m0 m1 where P: "MUL (r_a0 s) (r_x0 s) = (m0, m1)" "unat m0 = ?P mod ?B" "unat m1 = ?P div ?B"
    using MUL_unat [of "r_a0 s" "r_x0 s"] d ka by auto
  obtain q0 q1 where Q: "MUL (r_a0 s) (r_x1 s) = (q0, q1)" "unat q0 = ?Q mod ?B" "unat q1 = ?Q div ?B"
    using MUL_unat [of "r_a0 s" "r_x1 s"] d ka by auto
  obtain r0 r1 where R: "MUL (r_a1 s) (r_x0 s) = (r0, r1)" "unat r0 = ?R mod ?B" "unat r1 = ?R div ?B"
    using MUL_unat [of "r_a1 s" "r_x0 s"] d ka by auto
  obtain p0 k0 where A0: "ADDEQU m0 (r_c s) = (p0, k0)" "unat p0 = (unat m0 + 11) mod ?B" "unat k0 = (unat m0 + 11) div ?B"
    using ADDEQU_unat [of m0 "r_c s"] P ka by auto
  have k0: "unat k0 \<le> 1" using A0(3) P(2) by simp
  have "?P \<le> 58989 * 65535" using d(1) ka(1) by simp
  then have "?P div ?B < ?B" by simp
  then obtain p1 k1 where A1: "ADDEQU m1 k0 = (p1, k1)" "unat p1 = (unat m1 + unat k0) mod ?B" "unat k1 = (unat m1 + unat k0) div ?B"
    using ADDEQU_unat [of m1 k0] P k0 by auto
  obtain p1' k0' where A2: "ADDEQU p1 q0 = (p1', k0')" "unat p1' = (unat p1 + unat q0) mod ?B" "unat k0' = (unat p1 + unat q0) div ?B"
    using ADDEQU_unat [of p1 q0] A1 Q by auto
  have lt: "unat p1' < ?B" "unat r0 < ?B" using A2 R by simp_all
  define k2 where "k2 = (unat p1' + unat r0) div ?B"
  have K2: "of_bool (CARRY p1' r0) = (word_of_nat k2 :: u32)"
  proof -
    have "k2 = of_bool (unat p1' + unat r0 > 65535)" using lt by (auto simp: k2_def)
    then show ?thesis by (simp add: CARRY_unat [OF lt(1)])
  qed
  define t where "t = unat k0' + unat k1 + k2 + ?Q div ?B + ?R div ?B"
  define u where "u = unat (r_a0 s) * unat (r_x2 s) + unat (r_a1 s) * unat (r_x1 s) + unat (r_a2 s) * unat (r_x0 s)"
  have "k0' + k1 + of_bool (CARRY p1' r0) + q1 + r1 + r_a0 s * r_x2 s + r_a1 s * r_x1 s + r_a2 s * r_x0 s
      = word_of_nat (t + u)"
    unfolding K2 t_def u_def using Q(3) R(3) by (simp add: algebra_simps flip: Q(3) R(3))
  then have x2: "unat (r_x2 (next_rand s)) = (t + u) mod ?B"
    unfolding next_rand_def Let_def P(1) Q(1) R(1) A0(1) A1(1) A2(1) prod.case by (simp del: of_nat_add add: unat_LOW_of_nat)
  have x1: "unat (r_x1 (next_rand s)) = (unat p1' + unat r0) mod ?B"
    unfolding next_rand_def Let_def P(1) Q(1) R(1) A0(1) A1(1) A2(1) prod.case
    using lt by (simp add: unat_LOW unat_add_lem [THEN iffD1])
  have x0: "unat (r_x0 (next_rand s)) = unat p0"
    unfolding next_rand_def Let_def P(1) Q(1) R(1) A0(1) A1(1) A2(1) prod.case using A0(2) by (simp add: unat_LOW)
  let ?v = "unat (r_x0 (next_rand s)) + ?B * unat (r_x1 (next_rand s))"
  have "(?P + 11) + ?B * (?Q + ?R) = ?v + ?B ^ 2 * t"
    unfolding t_def k2_def x0 x1
    by (rule lcg_digits [where ?k0.0 = "unat k0" and ?p1.0 = "unat p1" and p1' = "unat p1'"]) (simp_all add: A0 A1 A2 P Q R)
  moreover have "?v < ?B ^ 2" using x0 x1 A0(2) by simp
  moreover define z where "z = unat (r_a1 s) * unat (r_x2 s) + unat (r_a2 s) * unat (r_x1 s) +
      ?B * (unat (r_a2 s) * unat (r_x2 s))"
  ultimately have "((?P + 11) + ?B * (?Q + ?R) + ?B ^ 2 * u + ?B ^ 3 * z) mod ?B ^ 3 = ?v + ?B ^ 2 * ((t + u) mod ?B)"
    by (intro three_digits) simp
  moreover have A: "LCG_A = unat (r_a0 s) + ?B * unat (r_a1 s) + ?B ^ 2 * unat (r_a2 s)"
    by (simp add: LCG_A_def ka)
  have "LCG_A * state48 s + 11 = (?P + 11) + ?B * (?Q + ?R) + ?B ^ 2 * u + ?B ^ 3 * z"
    unfolding state48_def u_def z_def A by (rule lcg_expand)
  ultimately have "(LCG_A * state48 s + 11) mod ?B ^ 3 = ?v + ?B ^ 2 * ((t + u) mod ?B)" by (simp only:)
  then have "state48 (next_rand s) = (LCG_A * state48 s + 11) mod 2 ^ 48"
    by (simp add: state48_def x2)
  moreover have "digits_ok (next_rand s)"
    using k x0 x1 x2 A0(2) by (simp add: digits_ok_def) (simp add: next_rand_def Let_def split: prod.splits)
  ultimately show ?thesis by simp
qed


lemma srand_digits: "digits_ok (redisSrand48 seed)"
  using unat_less [of seed] by (simp add: digits_ok_def redisSrand48_def unat_LOW unat_HIGH)

lemma srand_state: "state48 (redisSrand48 seed) = 13070 + 65536 * unat seed"
proof -
  have "65536 * unat seed = 65536 * (unat seed mod 65536) + 4294967296 * (unat seed div 65536)"
    using mod_mult_div_eq [of "unat seed" 65536] by linarith
  then show ?thesis
    by (simp add: state48_def redisSrand48_def unat_LOW unat_HIGH)
qed

lemma lrand_out:
  assumes ok: "digits_ok s"
  shows "redisLrand48 s = (int (state48 (next_rand s) div 2 ^ 17), next_rand s)"
proof -
  let ?n = "next_rand s"
  have d: "unat (r_x0 ?n) < 65536" "unat (r_x1 ?n) < 65536" "unat (r_x2 ?n) < 65536"
    using next_rand_digits [OF ok] by (simp_all add: digits_ok_def)
  let ?w = "push_bit 15 (r_x2 ?n) + drop_bit 1 (r_x1 ?n)"
  have "unat (push_bit 15 (r_x2 ?n)) = 32768 * unat (r_x2 ?n)"
    using d(3) by (simp add: push_bit_eq_mult unat_word_ariths)
  moreover have "unat (drop_bit 1 (r_x1 ?n)) = unat (r_x1 ?n) div 2"
    by (simp add: drop_bit_eq_div unat_div_distrib)
  ultimately have u: "unat ?w = 32768 * unat (r_x2 ?n) + unat (r_x1 ?n) div 2"
    using d by (simp add: unat_word_ariths)
  then have "unat ?w < 2147483648" using d by simp
  then have "sint ?w = int (unat ?w)" by (rule sint_small)
  moreover have "state48 ?n div 2 ^ 17 = 32768 * unat (r_x2 ?n) + unat (r_x1 ?n) div 2"
    using d by (simp add: state48_def)
  ultimately show ?thesis by (simp only: redisLrand48_def Let_def u)
qed


text \<open>A run of \<open>n\<close> draws.\<close>

fun lrand_seq :: "nat \<Rightarrow> rand48 \<Rightarrow> int list" where
  "lrand_seq 0 s = []"
| "lrand_seq (Suc n) s = (case redisLrand48 s of (v, s') \<Rightarrow> v # lrand_seq n s')"

fun lcg_seq :: "nat \<Rightarrow> nat \<Rightarrow> int list" where
  "lcg_seq 0 X = []"
| "lcg_seq (Suc n) X = (let X' = (LCG_A * X + 11) mod 2 ^ 48 in int (X' div 2 ^ 17) # lcg_seq n X')"

lemma lrand_seq_lcg: "digits_ok s \<Longrightarrow> lrand_seq n s = lcg_seq n (state48 s)"
  by (induction n arbitrary: s) (simp_all add: lrand_out next_rand_digits Let_def)

section \<open>Properties\<close>

text \<open>after seeding, the numbers drawn are those of the 48-bit linear congruential generator
  with multiplier \<open>0x5DEECE66D\<close> and increment \<open>0xB\<close>, started from the seed's 32 bits followed by
  \<open>0x330E\<close>, each shifted right by 17: the digit arithmetic loses no carry, for every seed and
  every number of draws.\<close>

theorem lrand48_is_lcg:
  "lrand_seq n (redisSrand48 seed) = lcg_seq n (0x330E + 2 ^ 16 * unat seed)"
  by (simp add: lrand_seq_lcg [OF srand_digits] srand_state)

end
