(* ===== verification/Crc16.thy ===== *)
theory Crc16
  imports Prelude
begin

text \<open>
  \<open>crc16.c\<close> and the hash slot of a cluster key, \<open>keyHashSlot\<close> of \<open>cluster.c\<close>. A buffer with its
  length is the list of its bytes. The table-driven checksum is shown equal to the bit-serial
  definition of CRC-16 with polynomial \<open>0x1021\<close> that the comment in the source refers to.
\<close>

section \<open>The code\<close>

definition crc16tab :: "u16 list" where
  "crc16tab = [
    0x0000, 0x1021, 0x2042, 0x3063, 0x4084, 0x50a5, 0x60c6, 0x70e7,
    0x8108, 0x9129, 0xa14a, 0xb16b, 0xc18c, 0xd1ad, 0xe1ce, 0xf1ef,
    0x1231, 0x0210, 0x3273, 0x2252, 0x52b5, 0x4294, 0x72f7, 0x62d6,
    0x9339, 0x8318, 0xb37b, 0xa35a, 0xd3bd, 0xc39c, 0xf3ff, 0xe3de,
    0x2462, 0x3443, 0x0420, 0x1401, 0x64e6, 0x74c7, 0x44a4, 0x5485,
    0xa56a, 0xb54b, 0x8528, 0x9509, 0xe5ee, 0xf5cf, 0xc5ac, 0xd58d,
    0x3653, 0x2672, 0x1611, 0x0630, 0x76d7, 0x66f6, 0x5695, 0x46b4,
    0xb75b, 0xa77a, 0x9719, 0x8738, 0xf7df, 0xe7fe, 0xd79d, 0xc7bc,
    0x48c4, 0x58e5, 0x6886, 0x78a7, 0x0840, 0x1861, 0x2802, 0x3823,
    0xc9cc, 0xd9ed, 0xe98e, 0xf9af, 0x8948, 0x9969, 0xa90a, 0xb92b,
    0x5af5, 0x4ad4, 0x7ab7, 0x6a96, 0x1a71, 0x0a50, 0x3a33, 0x2a12,
    0xdbfd, 0xcbdc, 0xfbbf, 0xeb9e, 0x9b79, 0x8b58, 0xbb3b, 0xab1a,
    0x6ca6, 0x7c87, 0x4ce4, 0x5cc5, 0x2c22, 0x3c03, 0x0c60, 0x1c41,
    0xedae, 0xfd8f, 0xcdec, 0xddcd, 0xad2a, 0xbd0b, 0x8d68, 0x9d49,
    0x7e97, 0x6eb6, 0x5ed5, 0x4ef4, 0x3e13, 0x2e32, 0x1e51, 0x0e70,
    0xff9f, 0xefbe, 0xdfdd, 0xcffc, 0xbf1b, 0xaf3a, 0x9f59, 0x8f78,
    0x9188, 0x81a9, 0xb1ca, 0xa1eb, 0xd10c, 0xc12d, 0xf14e, 0xe16f,
    0x1080, 0x00a1, 0x30c2, 0x20e3, 0x5004, 0x4025, 0x7046, 0x6067,
    0x83b9, 0x9398, 0xa3fb, 0xb3da, 0xc33d, 0xd31c, 0xe37f, 0xf35e,
    0x02b1, 0x1290, 0x22f3, 0x32d2, 0x4235, 0x5214, 0x6277, 0x7256,
    0xb5ea, 0xa5cb, 0x95a8, 0x8589, 0xf56e, 0xe54f, 0xd52c, 0xc50d,
    0x34e2, 0x24c3, 0x14a0, 0x0481, 0x7466, 0x6447, 0x5424, 0x4405,
    0xa7db, 0xb7fa, 0x8799, 0x97b8, 0xe75f, 0xf77e, 0xc71d, 0xd73c,
    0x26d3, 0x36f2, 0x0691, 0x16b0, 0x6657, 0x7676, 0x4615, 0x5634,
    0xd94c, 0xc96d, 0xf90e, 0xe92f, 0x99c8, 0x89e9, 0xb98a, 0xa9ab,
    0x5844, 0x4865, 0x7806, 0x6827, 0x18c0, 0x08e1, 0x3882, 0x28a3,
    0xcb7d, 0xdb5c, 0xeb3f, 0xfb1e, 0x8bf9, 0x9bd8, 0xabbb, 0xbb9a,
    0x4a75, 0x5a54, 0x6a37, 0x7a16, 0x0af1, 0x1ad0, 0x2ab3, 0x3a92,
    0xfd2e, 0xed0f, 0xdd6c, 0xcd4d, 0xbdaa, 0xad8b, 0x9de8, 0x8dc9,
    0x7c26, 0x6c07, 0x5c64, 0x4c45, 0x3ca2, 0x2c83, 0x1ce0, 0x0cc1,
    0xef1f, 0xff3e, 0xcf5d, 0xdf7c, 0xaf9b, 0xbfba, 0x8fd9, 0x9ff8,
    0x6e17, 0x7e36, 0x4e55, 0x5e74, 0x2e93, 0x3eb2, 0x0ed1, 0x1ef0
  ]"

text \<open>\<open>*buf\<close> is a signed \<open>char\<close>: it is sign-extended before the mask.\<close>

definition crc16 :: "byte list \<Rightarrow> u16" where
  "crc16 buf = foldl (\<lambda>crc b. push_bit 8 crc XOR crc16tab ! unat ((drop_bit 8 crc XOR scast b) AND 0x00FF)) 0 buf"

text \<open>The first position from \<open>i\<close> on that holds \<open>ch\<close>, or the length of the key.\<close>

function find_from :: "byte \<Rightarrow> byte list \<Rightarrow> nat \<Rightarrow> nat" where
  "find_from ch key i = (if i < length key \<and> key ! i \<noteq> ch then find_from ch key (i + 1) else i)"
  by auto
termination by (relation "measure (\<lambda>(ch, key, i). length key - i)") auto

declare find_from.simps [simp del]

definition keyHashSlot :: "byte list \<Rightarrow> u16" where
  "keyHashSlot key =
     (let keylen = length key; s = find_from 0x7B key 0 in
      if s = keylen then crc16 key AND 0x3FFF
      else let e = find_from 0x7D key (s + 1) in
        if e = keylen \<or> e = s + 1 then crc16 key AND 0x3FFF
        else crc16 (take (e - s - 1) (drop (s + 1) key)) AND 0x3FFF)"

section \<open>Shift registers are linear\<close>

locale xor_linear =
  fixes f :: "'a::len word \<Rightarrow> 'a word"
  assumes f_xor: "f (a XOR b) = f a XOR f b"
begin

lemma funpow_xor: "(f ^^ n) (a XOR b) = (f ^^ n) a XOR (f ^^ n) b"
  by (induction n) (simp_all add: f_xor)

end

text \<open>One step of the 16-bit register, most significant bit first.\<close>

definition crc16_bit :: "u16 \<Rightarrow> u16" where
  "crc16_bit r = push_bit 1 r XOR (if bit r 15 then 0x1021 else 0)"

definition crc16_spec :: "byte list \<Rightarrow> u16" where
  "crc16_spec buf = foldl (\<lambda>r b. (crc16_bit ^^ 8) (r XOR push_bit 8 (ucast b))) 0 buf"

interpretation crc16: xor_linear crc16_bit
  by unfold_locales (auto simp: crc16_bit_def push_bit_xor bit_xor_iff xor.assoc xor.left_commute)


text \<open>The table of a linear function on all numbers of \<open>n\<close> bits, built by doubling.\<close>

definition grow :: "'a::len word \<Rightarrow> 'a word list \<Rightarrow> 'a word list" where
  "grow v xs = xs @ map (\<lambda>x. v XOR x) xs"

lemma of_nat_high_bit:
  assumes "i < 2 ^ k"
  shows "(word_of_nat (2 ^ k + i) :: 'a::len word) = word_of_nat (2 ^ k) XOR word_of_nat i"
proof -
  have "bit i n \<Longrightarrow> n < k" for n
    using assms by (metis bit_take_bit_iff take_bit_nat_eq_self)
  then have "(2 ^ k :: nat) AND i = 0"
    by (intro bit_eqI) (auto simp: bit_simps)
  then have "(2 ^ k + i :: nat) = 2 ^ k XOR i" by (rule disjunctive_add_eq_xor)
  then show ?thesis by (simp only: of_nat_xor_eq)
qed

context xor_linear
begin

lemma table_grow:
  "map (\<lambda>i. f (word_of_nat i)) [0..<2 ^ Suc k] = grow (f (word_of_nat (2 ^ k))) (map (\<lambda>i. f (word_of_nat i)) [0..<2 ^ k])"
proof -
  have "[0..<2 ^ Suc k] = [0..<2 ^ k] @ map (\<lambda>i. 2 ^ k + i) [0..<2 ^ k]"
    by (intro nth_equalityI) (auto simp: nth_append)
  then show ?thesis by (simp del: of_nat_add add: grow_def of_nat_high_bit f_xor)
qed

end

lemma crc16_step_literal:
  "crc16_bit r = (if r AND 0x8000 = 0 then 2 * r else 2 * r XOR 0x1021)"
proof -
  have "(0x8000 :: u16) = push_bit 15 1" by simp
  then have "bit r 15 \<longleftrightarrow> r AND 0x8000 \<noteq> 0" by (simp only: bit_iff_and_push_bit_not_eq_0)
  then show ?thesis by (simp add: crc16_bit_def push_bit_eq_mult mult.commute)
qed

lemma funpow_8: "(f ^^ 8) x = f (f (f (f (f (f (f (f x)))))))"
  by (simp add: eval_nat_numeral)

lemma crc16_basis:
  "(crc16_bit ^^ 8) 0x100 = 0x1021" "(crc16_bit ^^ 8) 0x200 = 0x2042" "(crc16_bit ^^ 8) 0x400 = 0x4084"
  "(crc16_bit ^^ 8) 0x800 = 0x8108" "(crc16_bit ^^ 8) 0x1000 = 0x1231" "(crc16_bit ^^ 8) 0x2000 = 0x2462"
  "(crc16_bit ^^ 8) 0x4000 = 0x48c4" "(crc16_bit ^^ 8) 0x8000 = 0x9188" "(crc16_bit ^^ 8) 0 = 0"
  by (simp_all add: funpow_8 crc16_step_literal)

interpretation crc16_byte: xor_linear "\<lambda>w. (crc16_bit ^^ 8) (push_bit 8 w)"
  by unfold_locales (simp add: push_bit_xor crc16.funpow_xor)

lemma crc16tab_spec: "crc16tab = map (\<lambda>i. (crc16_bit ^^ 8) (push_bit 8 (word_of_nat i))) [0..<256]"
proof -
  let ?f = "\<lambda>k. (crc16_bit ^^ 8) (push_bit 8 (word_of_nat (2 ^ k)))"
  have "map (\<lambda>i. (crc16_bit ^^ 8) (push_bit 8 (word_of_nat i))) [0..<2 ^ Suc (Suc (Suc (Suc (Suc (Suc (Suc (Suc 0)))))))]
      = grow 0x9188 (grow 0x48c4 (grow 0x2462 (grow 0x1231 (grow 0x8108 (grow 0x4084 (grow 0x2042 (grow 0x1021 [0])))))))"
    unfolding crc16_byte.table_grow by (simp add: crc16_basis)
  also have "\<dots> = crc16tab" by (simp add: grow_def crc16tab_def)
  finally show ?thesis by simp
qed

lemma crc16tab_nth: "i < 256 \<Longrightarrow> crc16tab ! i = (crc16_bit ^^ 8) (push_bit 8 (word_of_nat i))"
  unfolding crc16tab_spec by (simp only: nth_map length_upt nth_upt add_0 diff_zero)

lemma word_of_nat_unat: "word_of_nat (unat w) = w"
  by simp

lemma crc16_index: "(drop_bit 8 r XOR scast b) AND 0x00FF = drop_bit 8 r XOR (ucast (b :: byte) :: u16)"
proof -
  have m: "(0x00FF :: u16) = mask 8" by (simp add: mask_eq_exp_minus_1)
  show ?thesis unfolding m
  proof (rule bit_word_eqI)
    fix n
    show "bit ((drop_bit 8 r XOR scast b) AND mask 8) n = bit (drop_bit 8 r XOR (ucast b :: u16)) n"
      using bit_imp_le_length [of r "8 + n"] bit_imp_le_length [of b n]
      by (cases "n < 8") (auto simp: bit_simps min_absorb2)
  qed
qed

lemma crc16_index_bound: "unat (drop_bit 8 r XOR (ucast (b :: byte) :: u16)) < 256"
proof -
  have "drop_bit 8 r XOR ucast b = take_bit 8 (drop_bit 8 r XOR (ucast b :: u16))"
  proof (rule bit_word_eqI)
    fix n
    show "bit (drop_bit 8 r XOR ucast b) n = bit (take_bit 8 (drop_bit 8 r XOR (ucast b :: u16))) n"
      using bit_imp_le_length [of r "8 + n"] bit_imp_le_length [of b n]
      by (cases "n < 8") (auto simp: bit_simps)
  qed
  then have "unat (drop_bit 8 r XOR (ucast b :: u16)) = take_bit 8 (unat (drop_bit 8 r XOR (ucast b :: u16)))"
    by (metis unsigned_take_bit_eq)
  also have "\<dots> < 2 ^ 8" by (rule take_bit_nat_less_exp)
  finally show ?thesis by simp
qed

text \<open>The part of the register below the top byte is only shifted by eight steps.\<close>

lemma crc16_low_byte: "(crc16_bit ^^ 8) (take_bit 8 r) = push_bit 8 r"
proof -
  have "(crc16_bit ^^ n) (take_bit 8 r) = push_bit n (take_bit 8 r)" if "n \<le> 8" for n
    using that
  proof (induction n)
    case (Suc n)
    then have "\<not> bit (push_bit n (take_bit 8 r)) 15" by (auto simp: bit_simps)
    then have "crc16_bit (push_bit n (take_bit 8 r)) = push_bit (Suc n) (take_bit 8 r)"
      by (simp only: crc16_bit_def if_False xor.right_neutral push_bit_push_bit) simp
    with Suc show ?case by simp
  qed simp
  from this [of 8] have "(crc16_bit ^^ 8) (take_bit 8 r) = push_bit 8 (take_bit 8 r)" by simp
  also have "\<dots> = push_bit 8 r"
  proof (rule bit_word_eqI)
    fix n
    assume "n < LENGTH(16)"
    then show "bit (push_bit 8 (take_bit 8 r)) n = bit (push_bit 8 r) n" by (auto simp: bit_simps)
  qed
  finally show ?thesis .
qed

lemma crc16_table_step:
  "push_bit 8 r XOR crc16tab ! unat ((drop_bit 8 r XOR scast b) AND 0x00FF) =
   (crc16_bit ^^ 8) (r XOR push_bit 8 (ucast (b :: byte)))"
proof -
  let ?i = "drop_bit 8 r XOR (ucast b :: u16)"
  have "r = push_bit 8 (drop_bit 8 r) XOR take_bit 8 r"
    by (rule bit_word_eqI) (auto simp: bit_simps)
  then have "r XOR push_bit 8 (ucast b) = (push_bit 8 (drop_bit 8 r) XOR take_bit 8 r) XOR push_bit 8 (ucast b)"
    by (rule arg_cong [where f = "\<lambda>w. w XOR push_bit 8 (ucast b)"])
  also have "\<dots> = push_bit 8 ?i XOR take_bit 8 r"
    by (simp only: push_bit_xor ac_simps)
  finally have "r XOR push_bit 8 (ucast b) = push_bit 8 ?i XOR take_bit 8 r" .
  then have "(crc16_bit ^^ 8) (r XOR push_bit 8 (ucast b)) = (crc16_bit ^^ 8) (push_bit 8 ?i) XOR push_bit 8 r"
    by (simp add: crc16.funpow_xor crc16_low_byte)
  moreover have "crc16tab ! unat ?i = (crc16_bit ^^ 8) (push_bit 8 ?i)"
    by (simp only: crc16tab_nth [OF crc16_index_bound] word_of_nat_unat)
  ultimately show ?thesis by (simp only: crc16_index xor.commute [of "push_bit 8 r"])
qed

lemma crc16_correct: "crc16 buf = crc16_spec buf"
  unfolding crc16_def crc16_spec_def crc16_table_step ..

section \<open>Hash tags\<close>

lemma find_from_none: "i \<le> length key \<Longrightarrow> ch \<notin> set (drop i key) \<Longrightarrow> find_from ch key i = length key"
proof (induction ch key i rule: find_from.induct)
  case (1 ch key i)
  show ?case
  proof (cases "i < length key")
    case True
    with "1.prems" have "key ! i \<noteq> ch" "ch \<notin> set (drop (i + 1) key)" by (auto simp: drop_nth_Cons)
    with True 1 show ?thesis by (simp add: find_from.simps [of ch key i])
  next
    case False
    then have "find_from ch key i = i" by (subst find_from.simps) simp
    with False "1.prems" show ?thesis by simp
  qed
qed

lemma find_from_at:
  assumes "key = a @ xs @ ch # b" and "length a = i" and "ch \<notin> set xs"
  shows "find_from ch key i = i + length xs"
  using assms
proof (induction xs arbitrary: a i)
  case Nil
  then have "\<not> (i < length key \<and> key ! i \<noteq> ch)" by (simp add: nth_append)
  then have "find_from ch key i = i" by (subst find_from.simps) (rule if_not_P)
  then show ?case by simp
next
  case (Cons x xs)
  then have "i < length key \<and> key ! i \<noteq> ch" by (auto simp: nth_append)
  then have "find_from ch key i = find_from ch key (i + 1)" by (subst find_from.simps) (rule if_P)
  also have "\<dots> = i + 1 + length xs" by (rule Cons.IH [of "a @ [x]"]) (use Cons.prems in simp_all)
  finally show ?case by simp
qed

section \<open>Properties\<close>

text \<open>C34: \<open>crc16\<close> is the CRC-16 of the comment (width 16, polynomial \<open>0x1021\<close>, initial value 0, no
  reflection, no final xor): every entry of the table is right, and the byte-wise loop computes
  on every buffer what shifting the message bit by bit through the register computes.\<close>

theorem crc16_is_xmodem: "crc16 buf = crc16_spec buf"
  by (rule crc16_correct)

text \<open>two keys with the same non-empty hash tag (the bytes between the first opening brace and
  the first closing brace after it) have the same slot, that of the tag itself when the tag has
  no brace; and every slot is below 16384.\<close>

theorem same_tag_same_slot:
  assumes "0x7B \<notin> set a" and "0x7D \<notin> set tag" and "tag \<noteq> []" and "0x7B \<notin> set tag"
  shows "keyHashSlot (a @ [0x7B] @ tag @ [0x7D] @ b) = keyHashSlot tag \<and> unat (keyHashSlot key) < 16384"
proof -
  let ?key = "a @ [0x7B] @ tag @ [0x7D] @ b"
  have s: "find_from 0x7B ?key 0 = length a"
    using find_from_at [of ?key "[]" a "0x7B" "tag @ [0x7D] @ b" 0] assms(1) by simp
  have e: "find_from 0x7D ?key (length a + 1) = length a + 1 + length tag"
    by (rule find_from_at [where a = "a @ [0x7B]" and xs = tag]) (use assms in auto)
  have t: "find_from 0x7B tag 0 = length tag"
    by (rule find_from_none) (use assms in simp_all)
  have "keyHashSlot ?key = crc16 tag AND 0x3FFF"
    unfolding keyHashSlot_def Let_def s e using assms(3) by simp
  moreover have "keyHashSlot tag = crc16 tag AND 0x3FFF"
    unfolding keyHashSlot_def Let_def t by simp
  ultimately have "keyHashSlot ?key = keyHashSlot tag" by simp
  moreover have "w AND 0x3FFF < 16384" for w :: u16
    by (rule le_less_trans [OF word_and_le1]) simp
  then have "unat (w AND 0x3FFF) < 16384" for w :: u16
    using word_less_nat_alt [of "w AND 0x3FFF" 16384] by simp
  then have "unat (keyHashSlot key) < 16384" by (simp add: keyHashSlot_def Let_def)
  ultimately show ?thesis by simp
qed

theorem same_tag_same_slot_witness:
  "keyHashSlot (bytes ''{user1000}.following'') = keyHashSlot (bytes ''user1000'')"
  using same_tag_same_slot [of "[]" "bytes ''user1000''" "bytes ''.following''"]
  by (simp add: bytes_def)

end
