(* ===== verification/Numconv.thy ===== *)
theory Numconv
  imports CString
begin

text \<open>
  The conversions between integers and decimal strings of \<open>util.c\<close>: \<open>digits10\<close>, \<open>sdigits10\<close>,
  \<open>ll2string\<close>, \<open>string2ll\<close>, \<open>string2l\<close> and \<open>memtoll\<close>. An \<open>unsigned long long\<close> is a number below
  \<open>2\<^sup>6\<^sup>4\<close>, with \<open>mod 2 ^ 64\<close> written out where the code computes; a \<open>long long\<close> is an integer from
  \<open>-2\<^sup>6\<^sup>3\<close> to \<open>2\<^sup>6\<^sup>3 - 1\<close>; a string with its length is the list of its bytes. The reference is the
  decimal numeral of an integer, \<open>sdec\<close>.
\<close>

section \<open>Numbers to strings\<close>

definition LLONG_MAX :: int where "LLONG_MAX = 2 ^ 63 - 1"
definition LLONG_MIN :: int where "LLONG_MIN = - (2 ^ 63)"
definition ULLONG_MAX :: nat where "ULLONG_MAX = 2 ^ 64 - 1"

function digits10 :: "nat \<Rightarrow> nat" where
  "digits10 v =
     (if v < 10 then 1
      else if v < 100 then 2
      else if v < 1000 then 3
      else if v < 1000000000000 then
        (if v < 100000000 then
           (if v < 1000000 then (if v < 10000 then 4 else 5 + of_bool (v \<ge> 100000))
            else 7 + of_bool (v \<ge> 10000000))
         else if v < 10000000000 then 9 + of_bool (v \<ge> 1000000000)
         else 11 + of_bool (v \<ge> 100000000000))
      else 12 + digits10 (v div 1000000000000))"
  by auto
termination by (relation "measure id") auto

declare digits10.simps [simp del]

definition sdigits10 :: "int \<Rightarrow> nat" where
  "sdigits10 v =
     (if v < 0 then
        (let uv = (if v \<noteq> LLONG_MIN then nat (- v) else nat LLONG_MAX + 1) in digits10 uv + 1)
      else digits10 (nat v))"

definition digits :: "byte list" where
  "digits = bytes (
     ''0001020304050607080910111213141516171819'' @
     ''2021222324252627282930313233343536373839'' @
     ''4041424344454647484950515253545556575859'' @
     ''6061626364656667686970717273747576777879'' @
     ''8081828384858687888990919293949596979899'')"

definition u32_minus :: "nat \<Rightarrow> nat \<Rightarrow> nat" where
  "u32_minus a b = nat ((int a - int b) mod 2 ^ 32)"

text \<open>The loop that writes two digits per turn, from the end of the buffer.\<close>

function ll2string_loop :: "nat \<Rightarrow> nat \<Rightarrow> byte list \<Rightarrow> (nat \<times> nat \<times> byte list) cres" where
  "ll2string_loop value next dst =
     (if value \<ge> 100 then
        let i = (value mod 100) * 2; value' = value div 100 in
        cbind (rd digits (i + 1)) (\<lambda>lo. cbind (wr dst next lo) (\<lambda>dst.
        cbind (rd digits i) (\<lambda>hi. cbind (wr dst (u32_minus next 1) hi) (\<lambda>dst.
        ll2string_loop value' (u32_minus next 2) dst))))
      else Inr (value, next, dst))"
  by auto
termination by (relation "measure fst") auto

declare ll2string_loop.simps [simp del]

definition ll2string :: "byte list \<Rightarrow> nat \<Rightarrow> int \<Rightarrow> (nat \<times> byte list) cres" where
  "ll2string dst dstlen svalue =
     (let value = (if svalue < 0 then (if svalue \<noteq> LLONG_MIN then nat (- svalue) else nat LLONG_MAX + 1)
                   else nat svalue);
          negative = of_bool (svalue < 0);
          len = digits10 value + negative
      in if len \<ge> dstlen then Inr (0, dst)
         else cbind (wr dst len 0) (\<lambda>dst.
              cbind (ll2string_loop value (u32_minus len 1) dst) (\<lambda>(value, next, dst).
              cbind (if value < 10 then wr dst next (word_of_nat (48 + value))
                     else let i = value * 2 in
                       cbind (rd digits (i + 1)) (\<lambda>lo. cbind (wr dst next lo) (\<lambda>dst.
                       cbind (rd digits i) (\<lambda>hi. wr dst (u32_minus next 1) hi)))) (\<lambda>dst.
              cbind (if svalue < 0 then wr dst 0 45 else Inr dst) (\<lambda>dst.
              Inr (len, dst))))))"

section \<open>Strings to numbers\<close>

text \<open>The digit loop: \<open>None\<close> for overflow, otherwise the value and the bytes left.\<close>

primrec string2ll_loop :: "byte list \<Rightarrow> nat \<Rightarrow> (nat \<times> byte list) option" where
  "string2ll_loop [] v = Some (v, [])"
| "string2ll_loop (c # p) v =
     (if 48 \<le> c \<and> c \<le> 57 then
        (if v > ULLONG_MAX div 10 then None
         else let v1 = (v * 10) mod 2 ^ 64 in
           if v1 > ULLONG_MAX - (unat c - 48) then None
           else string2ll_loop p ((v1 + (unat c - 48)) mod 2 ^ 64))
      else Some (v, c # p))"

text \<open>The bits of an \<open>unsigned long long\<close> read as a \<open>long long\<close>.\<close>

definition to_ll :: "nat \<Rightarrow> int" where
  "to_ll v = (if v < 2 ^ 63 then int v else int v - 2 ^ 64)"

definition string2ll :: "byte list \<Rightarrow> int option" where
  "string2ll s =
     (if s = [] then None
      else if length s = 1 \<and> s ! 0 = 48 then Some 0
      else let negative = (s ! 0 = 45); p = (if negative then tl s else s) in
        if p = [] then None
        else if 49 \<le> p ! 0 \<and> p ! 0 \<le> 57 then
          (case string2ll_loop (tl p) (unat (p ! 0) - 48) of
             None \<Rightarrow> None
           | Some (v, rest) \<Rightarrow>
               if rest \<noteq> [] then None
               else if negative then
                 (if v > nat (- (LLONG_MIN + 1)) + 1 then None else Some (to_ll (nat ((- int v) mod 2 ^ 64))))
               else (if int v > LLONG_MAX then None else Some (to_ll v)))
        else None)"

definition string2l :: "byte list \<Rightarrow> int option" where
  "string2l s = (case string2ll s of None \<Rightarrow> None
     | Some llval \<Rightarrow> if llval < - (2 ^ 63) \<or> llval > 2 ^ 63 - 1 then None else Some llval)"

section \<open>Decimal numerals\<close>

fun dec :: "nat \<Rightarrow> byte list" where
  "dec v = (if v < 10 then [word_of_nat (48 + v)] else dec (v div 10) @ [word_of_nat (48 + v mod 10)])"

declare dec.simps [simp del]

definition sdec :: "int \<Rightarrow> byte list" where
  "sdec v = (if v < 0 then 45 # dec (nat (- v)) else dec (nat v))"

lemma dec_small: "v < 10 \<Longrightarrow> dec v = [word_of_nat (48 + v)]"
  by (simp add: dec.simps [of v])

lemma dec_step: "10 \<le> v \<Longrightarrow> dec v = dec (v div 10) @ [word_of_nat (48 + v mod 10)]"
  by (simp add: dec.simps [of v])

lemma dec_nonempty: "dec v \<noteq> []"
  by (simp add: dec.simps [of v])

lemma length_dec_shift: "10 ^ k \<le> v \<Longrightarrow> length (dec v) = k + length (dec (v div 10 ^ k))"
proof (induction k arbitrary: v)
  case (Suc k)
  then have v: "10 \<le> v" using order_trans [of 10 "10 ^ Suc k" v] by simp
  have "10 ^ k \<le> v div 10" using Suc.prems by (simp add: less_eq_div_iff_mult_less_eq mult.commute)
  from Suc.IH [OF this] v show ?case by (simp add: dec_step div_mult2_eq)
qed simp

lemma length_dec: "10 ^ k \<le> v \<Longrightarrow> v < 10 ^ Suc k \<Longrightarrow> length (dec v) = Suc k"
proof -
  assume v: "10 ^ k \<le> v" "v < 10 ^ Suc k"
  then have "v div 10 ^ k < 10" by (simp add: div_less_iff_less_mult)
  with v show ?thesis by (simp add: length_dec_shift dec_small)
qed

lemma digits10_dec: "digits10 v = length (dec v)"
proof (induction v rule: digits10.induct)
  case (1 v)
  show ?case
  proof (cases "v < 1000000000000")
    case True
    then have "v < 10 \<or> 10 \<le> v \<and> v < 100 \<or> 100 \<le> v \<and> v < 1000 \<or> 1000 \<le> v \<and> v < 10000 \<or>
      10000 \<le> v \<and> v < 100000 \<or> 100000 \<le> v \<and> v < 1000000 \<or> 1000000 \<le> v \<and> v < 10000000 \<or>
      10000000 \<le> v \<and> v < 100000000 \<or> 100000000 \<le> v \<and> v < 1000000000 \<or>
      1000000000 \<le> v \<and> v < 10000000000 \<or> 10000000000 \<le> v \<and> v < 100000000000 \<or>
      100000000000 \<le> v \<and> v < 1000000000000" by linarith
    then show ?thesis
      by (elim disjE conjE; subst digits10.simps)
        (simp_all add: dec_small length_dec [of 1] length_dec [of 2] length_dec [of 3] length_dec [of 4]
          length_dec [of 5] length_dec [of 6] length_dec [of 7] length_dec [of 8] length_dec [of 9]
          length_dec [of 10] length_dec [of 11])
  next
    case False
    then show ?thesis
      using 1 length_dec_shift [of 12 v] by (subst digits10.simps) simp
  qed
qed

lemma length_digits: "length digits = 200"
  by (simp add: digits_def)

lemma digits_concat:
  "digits = concat (map (\<lambda>i. [word_of_nat (48 + i div 10), word_of_nat (48 + i mod 10)]) [0..<100])"
  by (simp add: digits_def bytes_def upt_conv_Cons)

lemma nth_concat_pairs:
  "i < n \<Longrightarrow> concat (map (\<lambda>i. [f i, g i]) [0..<n]) ! (i * 2) = f i \<and>
    concat (map (\<lambda>i. [f i, g i]) [0..<n]) ! (i * 2 + 1) = g i"
proof (induction n)
  case (Suc n)
  have "length (concat (map (\<lambda>i. [f i, g i]) [0..<n])) = n * 2" by (induction n) simp_all
  with Suc show ?case by (cases "i = n") (auto simp: nth_append)
qed simp

lemma digits_pair:
  assumes "i < 100"
  shows "rd digits (i * 2) = Inr (word_of_nat (48 + i div 10))" "rd digits (i * 2 + 1) = Inr (word_of_nat (48 + i mod 10))"
  using nth_concat_pairs [OF assms, of "\<lambda>i. word_of_nat (48 + i div 10) :: byte" "\<lambda>i. word_of_nat (48 + i mod 10)"] assms
  unfolding digits_concat [symmetric] by (simp_all add: length_digits)

lemma dec_step2:
  assumes "100 \<le> v"
  shows "dec v = dec (v div 100) @ [word_of_nat (48 + v mod 100 div 10), word_of_nat (48 + v mod 100 mod 10)]"
proof -
  have "v div 10 mod 10 = v mod 100 div 10" using mod_mult2_eq [of v 10 10] by simp
  moreover have "v mod 100 mod 10 = v mod 10" by (simp add: mod_mod_cancel)
  moreover have "v div 10 div 10 = v div 100" by (simp add: div_mult2_eq [symmetric])
  moreover have "dec v = dec (v div 10) @ [word_of_nat (48 + v mod 10)]"
    and "dec (v div 10) = dec (v div 10 div 10) @ [word_of_nat (48 + v div 10 mod 10)]"
    using assms by (simp_all add: dec_step)
  ultimately show ?thesis by simp
qed

lemma u32_minus_small: "b \<le> a \<Longrightarrow> a < 2 ^ 32 \<Longrightarrow> u32_minus a b = a - b"
  by (simp add: u32_minus_def nat_mod_distrib flip: of_nat_diff)

text \<open>Writing two digits below a block extends the block.\<close>

lemma write_two:
  assumes "p + 2 + length bs \<le> length buf"
  shows "wr (store_at buf (p + 2) bs) (p + 1) lo = Inr (store_at buf (p + 1) (lo # bs))"
    and "wr (store_at buf (p + 1) (lo # bs)) p hi = Inr (store_at buf p (hi # lo # bs))"
  using assms store_at_prepend [of "p + 1" buf bs lo] store_at_prepend [of p buf "lo # bs" hi] by simp_all

text \<open>The two-digit loop with its tail: the numeral of \<open>value\<close> lands right before what is there.\<close>

definition ll2string_tail :: "nat \<times> nat \<times> byte list \<Rightarrow> byte list cres" where
  "ll2string_tail = (\<lambda>(value, next, dst).
     if value < 10 then wr dst next (word_of_nat (48 + value))
     else let i = value * 2 in
       cbind (rd digits (i + 1)) (\<lambda>lo. cbind (wr dst next lo) (\<lambda>dst.
       cbind (rd digits i) (\<lambda>hi. wr dst (u32_minus next 1) hi))))"

lemma ll2string_run:
  assumes "off + length (dec n) + length bs \<le> length buf" and "off + length (dec n) < 2 ^ 32"
  shows "cbind (ll2string_loop n (off + length (dec n) - 1) (store_at buf (off + length (dec n)) bs)) ll2string_tail
    = Inr (store_at buf off (dec n @ bs))"
  using assms
proof (induction n arbitrary: bs rule: less_induct)
  case (less n)
  show ?case
  proof (cases "100 \<le> n")
    case True
    let ?d = "dec (n div 100)" and ?v = "n mod 100"
    let ?lo = "word_of_nat (48 + ?v mod 10)" and ?hi = "word_of_nat (48 + ?v div 10)"
    have dec: "dec n = ?d @ [?hi, ?lo]" by (rule dec_step2 [OF True])
    let ?p = "off + length ?d"
    have nx: "off + length (dec n) - 1 = ?p + 1" "off + length (dec n) = ?p + 2" by (simp_all add: dec)
    have room: "?p + 2 + length bs \<le> length buf" using less.prems(1) by (simp add: dec)
    have small: "?p + 2 < 2 ^ 32" using less.prems(2) by (simp add: dec)
    have pos: "1 \<le> ?p" using dec_nonempty [of "n div 100"] by (cases ?d) auto
    have "ll2string_loop n (?p + 1) (store_at buf (?p + 2) bs)
        = ll2string_loop (n div 100) (?p - 1) (store_at buf ?p (?hi # ?lo # bs))"
      using True small pos write_two(1) [OF room, of ?lo] write_two(2) [OF room, of ?lo ?hi]
      by (subst ll2string_loop.simps) (simp add: digits_pair [simplified] u32_minus_small)
    then show ?thesis
      using less.IH [of "n div 100" "?hi # ?lo # bs"] True room small by (simp add: nx dec)
  next
    case False
    then have loop: "ll2string_loop n k b = Inr (n, k, b)" for k b
      by (subst ll2string_loop.simps) simp
    show ?thesis
    proof (cases "n < 10")
      case True
      with less.prems show ?thesis
        using store_at_prepend [of off buf bs] by (simp add: loop ll2string_tail_def dec_small)
    next
      case ten: False
      then have d: "dec n = [word_of_nat (48 + n div 10), word_of_nat (48 + n mod 10)]"
        using False by (simp add: dec_step dec_small)
      have room: "off + 2 + length bs \<le> length buf" and small: "off + 1 < 2 ^ 32"
        using less.prems by (simp_all add: d)
      show ?thesis
        using False ten small write_two [OF room]
        by (simp add: d loop ll2string_tail_def digits_pair [simplified] u32_minus_small Let_def)
    qed
  qed
qed

definition ll_range :: "int \<Rightarrow> bool" where
  "ll_range v \<longleftrightarrow> LLONG_MIN \<le> v \<and> v \<le> LLONG_MAX"

lemma ll_abs: "(if v < 0 then if v \<noteq> LLONG_MIN then nat (- v) else nat LLONG_MAX + 1 else nat v) = nat \<bar>v\<bar>"
  by (auto simp: LLONG_MIN_def LLONG_MAX_def)

lemma sdec_abs: "sdec v = (if v < 0 then [45] else []) @ dec (nat \<bar>v\<bar>)"
  by (auto simp: sdec_def)

lemma length_dec_le: "v < 10 ^ Suc k \<Longrightarrow> length (dec v) \<le> Suc k"
proof (induction k arbitrary: v)
  case 0
  then show ?case by (simp add: dec_small)
next
  case (Suc k)
  then show ?case
    by (cases "v < 10") (simp_all add: dec_small dec_step div_less_iff_less_mult mult.commute)
qed

lemma length_dec_20: "v < 10 ^ 20 \<Longrightarrow> length (dec v) \<le> 20"
  using length_dec_le [of v 19] by simp

lemma ll2string_sdec:
  assumes r: "ll_range v" and len: "dstlen \<le> length dst"
  shows "ll2string dst dstlen v =
    (if length (sdec v) \<ge> dstlen then Inr (0, dst)
     else Inr (length (sdec v), store_at dst 0 (sdec v @ [0])))"
proof (cases "length (sdec v) \<ge> dstlen")
  case True
  then show ?thesis
    unfolding ll2string_def Let_def ll_abs digits10_dec by (auto simp: sdec_abs)
next
  case False
  let ?d = "dec (nat \<bar>v\<bar>)" and ?off = "of_bool (v < 0) :: nat"
  have n: "length (sdec v) = length ?d + ?off" by (simp add: sdec_abs)
  have "\<bar>v\<bar> < 10 ^ 20" using r by (simp add: ll_range_def LLONG_MIN_def LLONG_MAX_def abs_less_iff)
  then have "nat \<bar>v\<bar> < 10 ^ 20" by (simp add: nat_less_iff)
  then have small: "?off + length ?d < 2 ^ 32" using length_dec_20 [of "nat \<bar>v\<bar>"] by (cases "v < 0") simp_all
  have room: "?off + length ?d + length [0] \<le> length dst" using False len n by simp
  have w: "wr dst (length ?d + ?off) 0 = Inr (store_at dst (?off + length ?d) [0])"
    using room by (simp add: store_at_def upd_conv_take_nth_drop add.commute)
  have m: "u32_minus (length ?d + ?off) 1 = ?off + length ?d - 1"
    using small dec_nonempty [of "nat \<bar>v\<bar>"] by (simp add: u32_minus_small add.commute Suc_le_eq)
  have neg: "(if v < 0 then wr (store_at dst ?off (?d @ [0])) 0 45 else Inr (store_at dst ?off (?d @ [0])))
      = Inr (store_at dst 0 (sdec v @ [0]))"
  proof (cases "v < 0")
    case True
    have "0 < length dst" using room by (cases dst) simp_all
    then have "0 < length (store_at dst 1 (?d @ [0]))" using True room by simp
    moreover have "(store_at dst (Suc 0) (?d @ [0]))[0 := 45] = store_at dst 0 (45 # ?d @ [0])"
    proof (rule store_at_prepend)
      show "0 < length dst" using room by (cases dst) simp_all
      show "0 + length (?d @ [0]) < length dst" using True room by simp
    qed
    ultimately show ?thesis using True by (simp add: sdec_abs)
  qed (simp add: sdec_abs)
  have "ll2string dst dstlen v =
      cbind (cbind (ll2string_loop (nat \<bar>v\<bar>) (?off + length ?d - 1) (store_at dst (?off + length ?d) [0])) ll2string_tail)
        (\<lambda>dst. cbind (if v < 0 then wr dst 0 45 else Inr dst) (\<lambda>dst. Inr (length (sdec v), dst)))"
    using False unfolding ll2string_def Let_def ll_abs digits10_dec w m n ll2string_tail_def cbind_assoc
    by (simp add: n cbind_def split: sum.splits prod.splits)
  then show ?thesis
    using False neg unfolding ll2string_run [OF room small] by simp
qed

section \<open>Parsing is the inverse\<close>

definition dig :: "byte \<Rightarrow> bool" where
  "dig c \<longleftrightarrow> 48 \<le> c \<and> c \<le> 57"

definition dval :: "nat \<Rightarrow> byte list \<Rightarrow> nat" where
  "dval a s = foldl (\<lambda>a c. a * 10 + (unat c - 48)) a s"

lemma dval_append [simp]: "dval a (s @ t) = dval (dval a s) t"
  by (simp add: dval_def)

lemma dval_Cons: "dval a (c # s) = dval (a * 10 + (unat c - 48)) s"
  by (simp add: dval_def)

lemma dval_Nil [simp]: "dval a [] = a"
  by (simp add: dval_def)

lemma dval_ge: "a \<le> dval a s"
proof (induction s arbitrary: a)
  case (Cons c s)
  from Cons [of "a * 10 + (unat c - 48)"] show ?case unfolding dval_Cons by linarith
qed (simp add: dval_def)

lemma dig_9: "dig c \<Longrightarrow> unat c - 48 \<le> 9"
  by (simp add: dig_def word_le_nat_alt le_diff_conv)

text \<open>The loop accepts exactly a run of digits whose value fits in 64 bits.\<close>

lemma string2ll_loop_iff:
  assumes "v < 2 ^ 64" and "v > 0"
  shows "string2ll_loop p v = Some (w, []) \<longleftrightarrow> (\<forall>c \<in> set p. dig c) \<and> w = dval v p \<and> w < 2 ^ 64"
  using assms
proof (induction p arbitrary: v)
  case Nil
  then show ?case by (auto simp: dval_def)
next
  case (Cons c p)
  show ?case
  proof (cases "dig c")
    case False
    then show ?thesis by (auto simp: dig_def)
  next
    case True
    then have c: "48 \<le> c \<and> c \<le> 57" by (simp add: dig_def)
    note c9 = dig_9 [OF True]
    let ?w = "v * 10 + (unat c - 48)"
    show ?thesis
    proof (cases "?w < 2 ^ 64")
      case fits: True
      then have "\<not> v > ULLONG_MAX div 10" "(v * 10) mod 2 ^ 64 = v * 10"
        "\<not> v * 10 > ULLONG_MAX - (unat c - 48)" "?w mod 2 ^ 64 = ?w"
        by (simp_all add: ULLONG_MAX_def)
      then have "string2ll_loop (c # p) v = string2ll_loop p ?w"
        using c by (simp only: string2ll_loop.simps Let_def if_True if_False simp_thms)
      with Cons.IH [OF fits] Cons.prems True show ?thesis by (simp add: dval_Cons)
    next
      case over: False
      then have "string2ll_loop (c # p) v = None"
        using c c9 by (simp add: ULLONG_MAX_def Let_def) linarith
      moreover have "\<not> dval v (c # p) < 2 ^ 64"
        using over dval_ge [of ?w p] unfolding dval_Cons by linarith
      ultimately show ?thesis by auto
    qed
  qed
qed

lemma unat_digit: "d < 10 \<Longrightarrow> unat (word_of_nat (48 + d) :: byte) = 48 + d"
  by (simp add: unat_of_nat_small del: of_nat_add)

lemma dig_digit: "d < 10 \<Longrightarrow> dig (word_of_nat (48 + d))"
  by (simp add: dig_def word_le_nat_alt unat_digit del: of_nat_add)

lemma dec_digits: "c \<in> set (dec n) \<Longrightarrow> dig c"
proof (induction n rule: less_induct)
  case (less n)
  from less.IH [of "n div 10"] less.prems show ?case
    by (cases "n < 10") (auto simp: dec_small dec_step dig_digit simp del: of_nat_add)
qed

lemma dval_dec: "dval 0 (dec n) = n"
proof (induction n rule: less_induct)
  case (less n)
  from less.IH [of "n div 10"] show ?case
    by (cases "n < 10") (simp_all add: dec_small dec_step dval_Cons dval_Nil unat_digit del: of_nat_add)
qed

lemma dec_hd: "0 < n \<Longrightarrow> 49 \<le> hd (dec n)"
proof (induction n rule: less_induct)
  case (less n)
  show ?case
  proof (cases "n < 10")
    case True
    with less.prems show ?thesis
      by (simp add: dec_small word_le_nat_alt unat_digit del: of_nat_add)
  next
    case False
    with less.IH [of "n div 10"] show ?thesis by (simp add: dec_step dec_nonempty)
  qed
qed

lemma dec_first: "c # p = dec n \<Longrightarrow> 0 < n \<Longrightarrow> 49 \<le> c \<and> c \<le> 57"
  using dec_hd [of n] dec_digits [of c n] by (metis dig_def list.sel(1) list.set_intros(1))

lemma dec_dval:
  assumes "s \<noteq> []" and "\<forall>c \<in> set s. dig c" and "49 \<le> hd s"
  shows "dec (dval 0 s) = s"
  using assms
proof (induction s rule: rev_induct)
  case (snoc c t)
  have c: "unat c - 48 \<le> 9" "word_of_nat (48 + (unat c - 48)) = c"
    using snoc.prems(2) dig_9 by (auto simp: dig_def word_le_nat_alt)
  show ?case
  proof (cases "t = []")
    case True
    then show ?thesis using c by (simp add: dval_def dec_small)
  next
    case False
    then have IH: "dec (dval 0 t) = t" using snoc by simp
    have "0 < dval 0 t"
    proof (rule ccontr)
      assume "\<not> 0 < dval 0 t"
      then have "t = [48]" using IH by (simp add: dec_small)
      with snoc.prems(3) show False by simp
    qed
    then have "10 \<le> dval 0 t * 10 + (unat c - 48)" by simp
    then show ?thesis using c IH by (simp add: dval_def dec_step)
  qed
qed simp

lemma sdec_pos: "0 < n \<Longrightarrow> sdec (int n) = dec n" and sdec_neg: "0 < n \<Longrightarrow> sdec (- int n) = 45 # dec n"
  by (simp_all add: sdec_def)

text \<open>A run of digits that does not start with 0: what the loop makes of it.\<close>

lemma positive_numeral:
  assumes "49 \<le> c \<and> c \<le> 57"
  shows "string2ll_loop p (unat c - 48) = Some (n, []) \<longleftrightarrow> n < 2 ^ 64 \<and> 0 < n \<and> c # p = dec n"
proof -
  have c: "unat c - 48 > 0" "unat c - 48 \<le> 9" "dig c"
    using assms by (auto simp: dig_def word_le_nat_alt le_diff_conv)
  have v: "unat c - 48 < 2 ^ 64" using c(2) by (rule le_less_trans) simp
  have "string2ll_loop p (unat c - 48) = Some (n, []) \<longleftrightarrow> (\<forall>x \<in> set (c # p). dig x) \<and> n = dval 0 (c # p) \<and> n < 2 ^ 64"
    using string2ll_loop_iff [OF v c(1), of p n] c(3) by (simp add: dval_Cons)
  also have "\<dots> \<longleftrightarrow> n < 2 ^ 64 \<and> 0 < n \<and> c # p = dec n"
  proof
    assume a: "(\<forall>x \<in> set (c # p). dig x) \<and> n = dval 0 (c # p) \<and> n < 2 ^ 64"
    then have "dec n = c # p" using dec_dval [of "c # p"] assms by simp
    moreover have "0 < n" using a dval_ge [of "unat c - 48" p] c(1) by (simp add: dval_Cons)
    ultimately show "n < 2 ^ 64 \<and> 0 < n \<and> c # p = dec n" using a by simp
  next
    assume a: "n < 2 ^ 64 \<and> 0 < n \<and> c # p = dec n"
    then show "(\<forall>x \<in> set (c # p). dig x) \<and> n = dval 0 (c # p) \<and> n < 2 ^ 64"
      using dec_digits dval_dec by metis
  qed
  finally show ?thesis .
qed

lemma to_ll_small: "int n \<le> LLONG_MAX \<Longrightarrow> to_ll n = int n"
  by (simp add: to_ll_def LLONG_MAX_def)

lemma to_ll_neg:
  assumes "0 < n" and "n \<le> 2 ^ 63"
  shows "to_ll (nat ((- int n) mod 2 ^ 64)) = - int n"
proof -
  have "(- int n) mod 2 ^ 64 = 2 ^ 64 - int n"
    using assms by (simp add: zmod_zminus1_eq_if)
  then show ?thesis using assms by (simp add: to_ll_def)
qed

lemma string2ll_positive:
  assumes "s \<noteq> []" and "s \<noteq> [48]" and "hd s \<noteq> 45"
  shows "string2ll s = Some v \<longleftrightarrow> (\<exists>n. 0 < n \<and> v = int n \<and> v \<le> LLONG_MAX \<and> s = dec n)"
proof -
  obtain c p where s: "s = c # p" using assms(1) by (cases s) auto
  show ?thesis
  proof (cases "49 \<le> c \<and> c \<le> 57")
    case False
    have "s \<noteq> dec n" if "0 < n" for n
      using False dec_first [OF _ that] by (auto simp: s)
    then show ?thesis using False assms by (auto simp: s string2ll_def)
  next
    case True
    note pn = positive_numeral [OF True, of p]
    have "string2ll s = Some v \<longleftrightarrow> (\<exists>n. string2ll_loop p (unat c - 48) = Some (n, []) \<and> int n \<le> LLONG_MAX \<and> v = int n)"
      using True assms by (auto simp: s string2ll_def Let_def to_ll_small split: option.splits if_splits)
    also have "\<dots> \<longleftrightarrow> (\<exists>n. 0 < n \<and> v = int n \<and> v \<le> LLONG_MAX \<and> s = dec n)"
      unfolding pn s by (auto simp: LLONG_MAX_def)
    finally show ?thesis .
  qed
qed

lemma string2ll_negative:
  "string2ll (45 # t) = Some v \<longleftrightarrow> (\<exists>n. 0 < n \<and> v = - int n \<and> LLONG_MIN \<le> v \<and> t = dec n)"
proof (cases t)
  case Nil
  then show ?thesis using dec_nonempty [symmetric] by (auto simp: string2ll_def)
next
  case (Cons c p)
  have bound: "nat (- (LLONG_MIN + 1)) + 1 = 2 ^ 63" by (simp add: LLONG_MIN_def)
  show ?thesis
  proof (cases "49 \<le> c \<and> c \<le> 57")
    case False
    have "t \<noteq> dec n" if "0 < n" for n
      using False dec_first [OF _ that] by (auto simp: Cons)
    then show ?thesis using False by (auto simp: Cons string2ll_def)
  next
    case True
    note pn = positive_numeral [OF True, of p]
    have "string2ll (45 # t) = Some v \<longleftrightarrow>
        (\<exists>n. string2ll_loop p (unat c - 48) = Some (n, []) \<and> n \<le> 2 ^ 63 \<and> v = to_ll (nat ((- int n) mod 2 ^ 64)))"
      using True unfolding string2ll_def Let_def bound by (auto simp: Cons split: option.splits if_splits)
    also have "\<dots> \<longleftrightarrow> (\<exists>n. 0 < n \<and> n \<le> 2 ^ 63 \<and> v = - int n \<and> t = dec n)"
    proof -
      have "n < 2 ^ 64" if "n \<le> 2 ^ 63" for n :: nat using that by (rule le_less_trans) simp
      then show ?thesis
        unfolding pn Cons using to_ll_neg by (metis (no_types))
    qed
    also have "\<dots> \<longleftrightarrow> (\<exists>n. 0 < n \<and> v = - int n \<and> LLONG_MIN \<le> v \<and> t = dec n)"
      by (auto simp: LLONG_MIN_def)
    finally show ?thesis .
  qed
qed

lemma string2ll_iff: "string2ll s = Some v \<longleftrightarrow> ll_range v \<and> s = sdec v"
proof (cases "s = [] \<or> s = [48]")
  case True
  have d0: "dec 0 = [48]" by (simp add: dec_small)
  have "sdec v = [48] \<longleftrightarrow> v = 0"
    using dec_hd [of "nat v"] by (cases "v = 0") (auto simp: sdec_def d0)
  moreover have "ll_range 0" by (simp add: ll_range_def LLONG_MIN_def LLONG_MAX_def)
  moreover have "sdec v \<noteq> []" using dec_nonempty by (simp add: sdec_def)
  moreover have "string2ll [] = None" "string2ll [48] = Some 0" by (simp_all add: string2ll_def)
  ultimately show ?thesis
    using True by (metis option.distinct(1) option.inject)
next
  case False
  show ?thesis
  proof (cases "hd s = 45")
    case True
    with False obtain t where s: "s = 45 # t" by (cases s) auto
    have "45 # t \<noteq> dec n" for n
      using dec_digits [of 45 n] by (auto simp: dig_def dest: sym)
    then show ?thesis
      unfolding s string2ll_negative by (auto simp: sdec_def ll_range_def LLONG_MIN_def LLONG_MAX_def intro!: exI [of _ "nat (- v)"])
  next
    case pos: False
    note p = string2ll_positive [of s v]
    show ?thesis
    proof
      assume "string2ll s = Some v"
      then obtain n where "0 < n" "v = int n" "v \<le> LLONG_MAX" "s = dec n" using p False pos by auto
      then show "ll_range v \<and> s = sdec v" by (simp add: ll_range_def LLONG_MIN_def sdec_def)
    next
      assume a: "ll_range v \<and> s = sdec v"
      then have "\<not> v < 0" using pos by (auto simp: sdec_def)
      moreover have "v \<noteq> 0" using a False by (auto simp: sdec_def dec_small)
      ultimately show "string2ll s = Some v"
        using a p False pos by (auto simp: sdec_def ll_range_def intro!: exI [of _ "nat v"])
    qed
  qed
qed

section \<open>Sizes with units\<close>

text \<open>
  \<open>memtoll\<close> on a string without its terminator: \<open>None\<close> when it reports an error. \<open>strtoll\<close> clamps
  a value out of range and does not set \<open>EINVAL\<close>; on an empty run of digits it returns 0 and
  consumes nothing. The value is multiplied in \<open>long long\<close>, so a product out of range is a
  signed overflow.
\<close>

definition unit_is :: "byte list \<Rightarrow> string \<Rightarrow> bool" where
  "unit_is u lit \<longleftrightarrow> strcasecmp (u @ [0]) (bytes lit @ [0]) = Inr 0"

definition unit_mul :: "byte list \<Rightarrow> int option" where
  "unit_mul u =
     (if u = [] \<or> unit_is u ''b'' then Some 1
      else if unit_is u ''k'' then Some 1000
      else if unit_is u ''kb'' then Some 1024
      else if unit_is u ''m'' then Some (1000 * 1000)
      else if unit_is u ''mb'' then Some (1024 * 1024)
      else if unit_is u ''g'' then Some (1000 * 1000 * 1000)
      else if unit_is u ''gb'' then Some (1024 * 1024 * 1024)
      else None)"

definition memtoll :: "byte list \<Rightarrow> int option cres" where
  "memtoll p =
     (let sg = (if p \<noteq> [] \<and> hd p = 45 then 1 else 0);
          n = sg + length (takeWhile isdigit (drop sg p))
      in case unit_mul (drop n p) of
           None \<Rightarrow> Inr None
         | Some mul \<Rightarrow>
             if n \<ge> 128 then Inr None
             else (case strtol10 (take n p) of (v, used) \<Rightarrow>
               if used \<noteq> n then Inr None
               else if \<not> ll_range (v * mul) then Inl SignedOverflow
               else Inr (Some (v * mul))))"

lemma isdigit_dig: "isdigit = dig"
  by (rule ext) (simp add: isdigit_def dig_def)

lemma digits_value_dval:
  "\<forall>c \<in> set s. dig c \<Longrightarrow> digits_value s (int a) = (int (dval a s), length s)"
proof (induction s arbitrary: a)
  case (Cons c s)
  have "48 \<le> unat c" using Cons.prems by (auto simp: dig_def word_le_nat_alt)
  then have "10 * int a + (uint c - 48) = int (a * 10 + (unat c - 48))" by (simp add: of_nat_diff)
  then have "digits_value (c # s) (int a) = (case digits_value s (int (a * 10 + (unat c - 48))) of (v, n) \<Rightarrow> (v, Suc n))"
    using Cons.prems by (simp only: digits_value.simps isdigit_dig) simp
  also have "\<dots> = (int (dval a (c # s)), length (c # s))"
    using Cons by (simp add: dval_Cons del: of_nat_add of_nat_mult)
  finally show ?case .
qed simp

lemma strtol10_sdec:
  assumes "ll_range v"
  shows "strtol10 (sdec v) = (v, length (sdec v))"
proof -
  let ?d = "dec (nat \<bar>v\<bar>)"
  have d: "digits_value ?d 0 = (\<bar>v\<bar>, length ?d)"
    using digits_value_dval [of ?d 0] dec_digits dval_dec by simp
  have ne: "?d \<noteq> []" by (rule dec_nonempty)
  then have h: "dig (hd ?d)" by (intro dec_digits [of _ "nat \<bar>v\<bar>"]) simp
  have sp: "\<not> isspace 45" "\<not> isspace c" "c \<noteq> 45" "c \<noteq> 43" if "dig c" for c
    using that by (auto simp: isspace_def dig_def word_le_nat_alt)
  have cl: "clamp64 v = v" using assms by (simp add: clamp64_def ll_range_def LLONG_MIN_def LLONG_MAX_def)
  show ?thesis
    using ne h sp [OF h] d cl unfolding sdec_abs strtol10_def
    by (cases "v < 0"; cases ?d) (auto simp: Let_def)
qed

lemma unit_mul_nodigit:
  assumes "unit_mul u = Some k" and "0 \<notin> set u" and "u \<noteq> []"
  shows "\<not> isdigit (hd u)"
proof -
  have nz: "0 \<notin> set (bytes lit)" if "lit \<in> {''b'', ''k'', ''kb'', ''m'', ''mb'', ''g'', ''gb''}" for lit
    using that by (auto simp: bytes_def)
  have "\<exists>lit \<in> {''b'', ''k'', ''kb'', ''m'', ''mb'', ''g'', ''gb''}. unit_is u lit"
    using assms by (auto simp: unit_mul_def split: if_splits)
  then obtain lit where l: "lit \<in> {''b'', ''k'', ''kb'', ''m'', ''mb'', ''g'', ''gb''}" "unit_is u lit" by blast
  then have "map tolower u = map tolower (bytes lit)"
    using strcasecmp_eq_0_iff [OF assms(2) nz [OF l(1)], of "[]" "[]"] by (simp add: unit_is_def)
  then have "tolower (hd u) = tolower (hd (bytes lit))"
    using assms(3) l(1) by (cases u) (auto simp: bytes_def)
  then have "tolower (hd u) \<in> {98, 107, 109, 103}" using l(1) by (auto simp: bytes_def tolower_def)
  then show ?thesis by (auto simp: isdigit_def tolower_def word_le_nat_alt split: if_splits)
qed

section \<open>Properties\<close>

text \<open>C32: \<open>string2ll\<close> accepts a string exactly when it is the decimal numeral of a \<open>long long\<close>, and
  returns that number: no sign or zero too many, no other byte, no value out of range, and no
  overflow of the 64-bit accumulator goes unnoticed. So the string can be recovered from the
  number, as the comment promises.\<close>

theorem string2ll_correct:
  "string2ll s = Some v \<longleftrightarrow> LLONG_MIN \<le> v \<and> v \<le> LLONG_MAX \<and> s = sdec v"
  using string2ll_iff [of s v] by (auto simp: ll_range_def)

text \<open>C33: \<open>ll2string\<close> writes the numeral of every \<open>long long\<close> with a terminating zero at the start of
  the buffer, leaves the rest of the buffer alone and returns the length; when the numeral and
  its terminator do not fit it returns 0 and writes nothing. What it writes is read back by
  \<open>string2ll\<close>, and \<open>sdigits10\<close> predicts its length.\<close>

theorem ll2string_correct:
  assumes "LLONG_MIN \<le> v" and "v \<le> LLONG_MAX" and "dstlen \<le> length dst"
  shows "ll2string dst dstlen v =
      (if length (sdec v) < dstlen then Inr (length (sdec v), sdec v @ 0 # drop (length (sdec v) + 1) dst)
       else Inr (0, dst)) \<and>
    string2ll (sdec v) = Some v \<and> sdigits10 v = length (sdec v)"
proof -
  have r: "ll_range v" using assms by (simp add: ll_range_def)
  have "sdigits10 v = length (sdec v)"
    by (auto simp: sdigits10_def digits10_dec sdec_def Let_def LLONG_MIN_def LLONG_MAX_def)
  then show ?thesis
    using ll2string_sdec [OF r assms(3)] string2ll_iff [of "sdec v" v] r
    by (auto simp: store_at_def not_le)
qed

theorem ll2string_correct_witness:
  "ll2string (replicate 8 1) 8 (-1203) = Inr (5, bytes ''-1203'' @ [0, 1, 1])"
proof -
  have "sdec (-1203) = bytes ''-1203''"
    by (simp add: sdec_def bytes_def dec_small dec_step)
  then show ?thesis
    using ll2string_correct [of "-1203" 8 "replicate 8 1"]
    by (simp add: LLONG_MIN_def LLONG_MAX_def bytes_def numeral_eq_Suc)
qed

text \<open>\<open>memtoll\<close> reads a number followed by a unit (in any letter case): the result is the number
  times the unit's factor, whenever that product fits.\<close>

theorem memtoll_correct:
  assumes "LLONG_MIN \<le> v" and "v \<le> LLONG_MAX" and "unit_mul u = Some k" and "0 \<notin> set u"
    and "LLONG_MIN \<le> v * k" and "v * k \<le> LLONG_MAX"
  shows "memtoll (sdec v @ u) = Inr (Some (v * k))"
proof -
  have r: "ll_range v" "ll_range (v * k)" using assms by (simp_all add: ll_range_def)
  let ?d = "dec (nat \<bar>v\<bar>)" and ?sg = "of_bool (v < 0) :: nat"
  have "\<bar>v\<bar> < 10 ^ 20" using r by (simp add: ll_range_def LLONG_MIN_def LLONG_MAX_def abs_less_iff)
  then have len: "length ?d \<le> 20" by (intro length_dec_20) (simp add: nat_less_iff)
  have "dig (hd ?d)" by (rule dec_digits [OF hd_in_set [OF dec_nonempty]])
  then have h: "hd ?d \<noteq> 45" by (auto simp: dig_def)
  have sg: "(if sdec v @ u \<noteq> [] \<and> hd (sdec v @ u) = 45 then 1 else 0) = ?sg"
    using h dec_nonempty [of "nat \<bar>v\<bar>"] by (auto simp: sdec_abs)
  have "takeWhile isdigit u = []" using unit_mul_nodigit [OF assms(3,4)] by (cases u) auto
  then have tw: "takeWhile isdigit (drop ?sg (sdec v @ u)) = ?d"
    using dec_digits by (auto simp: sdec_abs takeWhile_append isdigit_dig)
  have n: "?sg + length ?d = length (sdec v)" by (simp add: sdec_abs)
  have "length (sdec v) < 128" using len by (cases "v < 0") (simp_all add: sdec_abs)
  then show ?thesis
    unfolding memtoll_def Let_def sg tw n using assms(3) strtol10_sdec [OF r(1)] r(2) by simp
qed

theorem memtoll_correct_witness: "memtoll (bytes ''1Gb'') = Inr (Some 1073741824)"
proof -
  have "sdec 1 = bytes ''1''" by (simp add: sdec_def bytes_def dec_small)
  then show ?thesis
    using memtoll_correct [of 1 "bytes ''Gb''" 1073741824]
    by (simp add: LLONG_MIN_def LLONG_MAX_def unit_mul_def unit_is_def bytes_def tolower_def)
qed

end
