(* ===== verification/Glob.thy ===== *)
theory Glob
  imports CString
begin

text \<open>
  The glob-style matcher of \<open>util.c\<close>, \<open>stringmatchlen\<close>, that \<open>KEYS\<close>, \<open>SCAN\<close>, \<open>PSUBSCRIBE\<close> and others
  use. The pattern is a buffer with its terminating zero, a position \<open>p\<close> in it and the position
  \<open>e\<close> of its end: in the code \<open>pattern\<close> and \<open>patternLen\<close> always move together, so that
  \<open>patternLen\<close> is \<open>e - p\<close>. The string is the list of the bytes left. The reference semantics
  splits the pattern into tokens, a star or a predicate on one byte.
\<close>

section \<open>The matcher\<close>

text \<open>\<open>tolower((int)c)\<close> and the comparison of plain \<open>char\<close>s, which are signed.\<close>

definition same_char :: "bool \<Rightarrow> byte \<Rightarrow> byte \<Rightarrow> bool" where
  "same_char nocase a b = (if \<not> nocase then a = b else tolower a = tolower b)"

definition in_range :: "bool \<Rightarrow> byte \<Rightarrow> byte \<Rightarrow> byte \<Rightarrow> bool" where
  "in_range nocase start0 end0 c0 =
     (let (start, end') = (if sint start0 > sint end0 then (end0, start0) else (start0, end0));
          lower = (\<lambda>b. sint (if nocase then tolower b else b))
      in lower c0 \<ge> lower start \<and> lower c0 \<le> lower end')"

text \<open>The loop over a class \<open>[...]\<close>: the flag \<open>match\<close> and the position it stops at.\<close>

function class_loop :: "bool \<Rightarrow> byte list \<Rightarrow> nat \<Rightarrow> byte \<Rightarrow> nat \<Rightarrow> bool \<Rightarrow> (bool \<times> nat) cres" where
  "class_loop nocase P e ch p match =
     cbind (rd P p) (\<lambda>c0.
       if c0 = 0x5C \<and> p + 2 \<le> e then
         cbind (rd P (p + 1)) (\<lambda>c1. class_loop nocase P e ch (p + 2) (match \<or> c1 = ch))
       else if c0 = 0x5D then Inr (match, p)
       else if p = e then Inr (match, p - 1)
       else cbind (rd P (p + 1)) (\<lambda>c1.
         if c1 = 0x2D \<and> p + 3 \<le> e then
           cbind (rd P (p + 2)) (\<lambda>c2. class_loop nocase P e ch (p + 3) (match \<or> in_range nocase c0 c2 ch))
         else class_loop nocase P e ch (p + 1) (match \<or> same_char nocase c0 ch)))"
  by pat_completeness auto
termination
  by (relation "measure (\<lambda>(nocase, P, e, ch, p, match). length P - p)") (auto simp: rd_eq_Inr_iff)

function skip_stars :: "byte list \<Rightarrow> nat \<Rightarrow> nat cres" where
  "skip_stars P p = cbind (rd P p) (\<lambda>c. if c = 0x2A then skip_stars P (p + 1) else Inr p)"
  by pat_completeness auto
termination by (relation "measure (\<lambda>(P, p). length P - p)") (auto simp: rd_eq_Inr_iff)

declare class_loop.simps [simp del] skip_stars.simps [simp del]

text \<open>
  \<open>while (pattern[1] == '*') pattern++\<close>: the position of the last star of the run.
\<close>

definition last_star :: "byte list \<Rightarrow> nat \<Rightarrow> nat cres" where
  "last_star P p = cbind (skip_stars P (p + 1)) (\<lambda>q. Inr (q - 1))"

text \<open>The loop \<open>while (stringLen)\<close> of the star: the first match among the suffixes.\<close>

fun try_suffixes :: "(byte list \<Rightarrow> bool cres) \<Rightarrow> byte list \<Rightarrow> bool cres" where
  "try_suffixes f [] = Inr False"
| "try_suffixes f (c # s) = cbind (f (c # s)) (\<lambda>m. if m then Inr True else try_suffixes f s)"

lemma try_suffixes_cong [fundef_cong]:
  "s = s' \<Longrightarrow> (\<And>t. f t = f' t) \<Longrightarrow> try_suffixes f s = try_suffixes f' s'"
proof -
  assume "s = s'" and eq: "\<And>t. f t = f' t"
  have "f = f'" by (rule ext) (rule eq)
  with \<open>s = s'\<close> show ?thesis by simp
qed

text \<open>The tests on one byte: whether it matches and the position before the final \<open>pattern++\<close>.\<close>

definition match_one :: "bool \<Rightarrow> byte list \<Rightarrow> nat \<Rightarrow> byte \<Rightarrow> nat \<Rightarrow> byte \<Rightarrow> (bool \<times> nat) cres" where
  "match_one nocase P e c0 p ch =
     (if c0 = 0x3F then Inr (True, p)
      else if c0 = 0x5B then
        cbind (rd P (p + 1)) (\<lambda>c1.
          let neg = (c1 = 0x5E) in
          cbind (class_loop nocase P e ch (if neg then p + 2 else p + 1) False) (\<lambda>(match, q).
          Inr (if neg then \<not> match else match, q)))
      else
        let q = (if c0 = 0x5C \<and> p + 2 \<le> e then p + 1 else p) in
        cbind (rd P q) (\<lambda>c. Inr (same_char nocase c ch, q)))"

text \<open>A test ends at or after the position it started at, so the main loop advances.\<close>

lemma class_loop_ge_all: "all_ok (\<lambda>(m, q). p \<le> q + 1) (class_loop nocase P e ch p match)"
proof (induction "length P - p" arbitrary: p match rule: less_induct)
  case less
  have step: "all_ok (\<lambda>(m, q). p \<le> q + 1) (class_loop nocase P e ch r match')"
    if "rd P p = Inr c" "p < r" for r c match'
  proof -
    have "all_ok (\<lambda>(m, q). r \<le> q + 1) (class_loop nocase P e ch r match')"
      using that by (intro less) (auto simp: rd_eq_Inr_iff)
    then show ?thesis using that(2) by (fastforce simp: all_ok_def)
  qed
  show ?case
    by (subst class_loop.simps) (intro all_ok_intros; (rule step; assumption?)?; simp)
qed

lemma class_loop_ge: "class_loop nocase P e ch p match = Inr (m, q) \<Longrightarrow> p \<le> q + 1"
  using class_loop_ge_all by (fastforce simp: all_ok_def)

lemma skip_stars_ge: "skip_stars P p = Inr q \<Longrightarrow> p \<le> q"
proof (induction P p arbitrary: q rule: skip_stars.induct)
  case (1 P p)
  then show ?case
    by (subst (asm) (2) skip_stars.simps) (force simp: cbind_eq_Inr_iff split: if_splits)
qed

lemma last_star_ge: "last_star P p = Inr q \<Longrightarrow> p \<le> q"
  by (auto simp: last_star_def cbind_eq_Inr_iff dest: skip_stars_ge)

lemma match_one_ge: "match_one nocase P e c0 p ch = Inr (m, q) \<Longrightarrow> p \<le> q"
  by (auto simp: match_one_def Let_def cbind_eq_Inr_iff split: if_splits dest: class_loop_ge)

function stringmatchlen :: "bool \<Rightarrow> byte list \<Rightarrow> nat \<Rightarrow> nat \<Rightarrow> byte list \<Rightarrow> bool cres" where
  "stringmatchlen nocase P e p s =
     (if p \<noteq> e \<and> s \<noteq> [] then
        cbind (rd P p) (\<lambda>c0.
          if c0 = 0x2A then
            cbind (last_star P p) (\<lambda>q.
              if q + 1 = e then Inr True
              else try_suffixes (stringmatchlen nocase P e (q + 1)) s)
          else
            cbind (match_one nocase P e c0 p (hd s)) (\<lambda>(match, q).
              if \<not> match then Inr False
              else if tl s = [] then cbind (skip_stars P (q + 1)) (\<lambda>r. Inr (r = e))
              else stringmatchlen nocase P e (q + 1) (tl s)))
      else Inr (p = e \<and> s = []))"
  by pat_completeness auto
termination
  by (relation "measure (\<lambda>(nocase, P, e, p, s). length P - p)")
    (auto simp: rd_eq_Inr_iff dest!: last_star_ge match_one_ge)

declare stringmatchlen.simps [simp del]

section \<open>Patterns as tokens\<close>

datatype tok = Star | One "byte \<Rightarrow> bool"

function class_toks :: "bool \<Rightarrow> byte list \<Rightarrow> (byte \<Rightarrow> bool) \<times> byte list" where
  "class_toks nocase [] = ((\<lambda>_. False), [])"
| "class_toks nocase (a # l) =
     (if a = 0x5C \<and> l \<noteq> [] then case class_toks nocase (tl l) of (f, r) \<Rightarrow> (\<lambda>c. hd l = c \<or> f c, r)
      else if a = 0x5D then ((\<lambda>_. False), l)
      else if l \<noteq> [] \<and> hd l = 0x2D \<and> 2 \<le> length l then
        case class_toks nocase (drop 2 l) of (f, r) \<Rightarrow> (\<lambda>c. in_range nocase a (l ! 1) c \<or> f c, r)
      else case class_toks nocase l of (f, r) \<Rightarrow> (\<lambda>c. same_char nocase a c \<or> f c, r))"
  by pat_completeness auto
termination by (relation "measure (\<lambda>(n, l). length l)") (auto simp: neq_Nil_conv)

lemma class_toks_shorter: "length (snd (class_toks nocase l)) \<le> length l"
proof (induction nocase l rule: class_toks.induct)
  case (2 nocase a l)
  then show ?case by (auto split: prod.splits simp: neq_Nil_conv le_SucI)
qed simp

function toks :: "bool \<Rightarrow> byte list \<Rightarrow> tok list" where
  "toks nocase [] = []"
| "toks nocase (a # l) =
     (if a = 0x2A then Star # toks nocase l
      else if a = 0x3F then One (\<lambda>_. True) # toks nocase l
      else if a = 0x5B then
        (let neg = (l \<noteq> [] \<and> hd l = 0x5E); fr = class_toks nocase (if neg then tl l else l)
         in One (\<lambda>c. neg \<noteq> fst fr c) # toks nocase (snd fr))
      else if a = 0x5C \<and> l \<noteq> [] then One (same_char nocase (hd l)) # toks nocase (tl l)
      else One (same_char nocase a) # toks nocase l)"
  by pat_completeness auto
termination
proof (relation "measure (\<lambda>(n, l). length l)", goal_cases)
  case (4 nocase a l neg fr)
  then show ?case
    using class_toks_shorter [of nocase l] class_toks_shorter [of nocase "tl l"] by auto
qed auto

fun glob :: "tok list \<Rightarrow> byte list \<Rightarrow> bool" where
  "glob [] s = (s = [])"
| "glob (Star # ts) s = (\<exists>k \<le> length s. glob ts (drop k s))"
| "glob (One f # ts) s = (s \<noteq> [] \<and> f (hd s) \<and> glob ts (tl s))"

section \<open>The matcher follows the tokens\<close>

text \<open>Reading a pattern with its terminator at a position up to its end.\<close>

lemma rd_pat: "p < length pat \<Longrightarrow> rd (pat @ [0]) p = Inr (pat ! p)"
  and rd_end: "rd (pat @ [0]) (length pat) = Inr 0"
  by (simp_all add: nth_append)

lemma tl_drop_Suc: "tl (drop (Suc p) xs) = drop (p + 2) xs"
  by (simp add: tl_drop drop_Suc)

lemma skip_stars_pat:
  "p \<le> length pat \<Longrightarrow> skip_stars (pat @ [0]) p = Inr (p + length (takeWhile (\<lambda>c. c = 0x2A) (drop p pat)))"
proof (induction "length pat - p" arbitrary: p)
  case 0
  then show ?case by (subst skip_stars.simps) (simp add: nth_append)
next
  case (Suc n)
  then have p: "p < length pat" by simp
  show ?case
    using Suc.hyps(1) [of "p + 1"] Suc.hyps(2) p
    by (subst skip_stars.simps) (simp add: nth_append drop_nth_Cons [OF p])
qed

lemma class_loop_pat:
  assumes "p \<le> length pat" and "0 < length pat" and "class_toks nocase (drop p pat) = (f, r)"
  shows "class_loop nocase (pat @ [0]) (length pat) ch p m = Inr (m \<or> f ch, length pat - length r - 1)
    \<and> r = drop (length pat - length r) pat \<and> p \<le> length pat - length r"
  using assms
proof (induction "length pat - p" arbitrary: p m f r rule: less_induct)
  case less
  show ?case
  proof (cases "p = length pat")
    case True
    with less.prems show ?thesis by (subst class_loop.simps) (auto simp: nth_append)
  next
    case False
    with less.prems have p: "p < length pat" by simp
    let ?l = "drop (Suc p) pat" and ?a = "pat ! p"
    have d: "drop p pat = ?a # ?l" by (rule drop_nth_Cons [OF p])
    have IH: "class_loop nocase (pat @ [0]) (length pat) ch k m' = Inr (m' \<or> g ch, length pat - length r - 1)
        \<and> r = drop (length pat - length r) pat \<and> k \<le> length pat - length r"
      if "p < k" "k \<le> length pat" "class_toks nocase (drop k pat) = (g, r)" for k m' g
      using less.hyps [of k g r m'] that less.prems(2) p by simp
    have l1: "?l \<noteq> [] \<Longrightarrow> hd ?l = pat ! Suc p" by (simp add: hd_drop_conv_nth)
    consider (esc) "?a = 0x5C" "p + 2 \<le> length pat" | (close) "?a = 0x5D"
      | (range) "?a \<noteq> 0x5D" "\<not> (?a = 0x5C \<and> p + 2 \<le> length pat)" "p + 3 \<le> length pat" "pat ! Suc p = 0x2D"
      | (lit) "?a \<noteq> 0x5D" "\<not> (?a = 0x5C \<and> p + 2 \<le> length pat)" "\<not> (p + 3 \<le> length pat \<and> pat ! Suc p = 0x2D)"
      by blast
    then show ?thesis
    proof cases
      case esc
      then obtain g where g: "class_toks nocase (drop (p + 2) pat) = (g, r)" "f = (\<lambda>c. hd ?l = c \<or> g c)"
        using less.prems(3) by (auto simp: d tl_drop_Suc split: prod.splits)
      show ?thesis
        using esc IH [of "p + 2" g "m \<or> pat ! Suc p = ch"] g(1) p l1
        by (subst class_loop.simps) (auto simp: nth_append g)
    next
      case close
      then show ?thesis
        using less.prems(3) p by (subst class_loop.simps) (auto simp: nth_append d)
    next
      case range
      then obtain g where g: "class_toks nocase (drop (p + 3) pat) = (g, r)" "f = (\<lambda>c. in_range nocase ?a (?l ! 1) c \<or> g c)"
        using less.prems(3) l1 by (auto simp: d numeral_3_eq_3 split: prod.splits if_splits)
      show ?thesis
        using range IH [of "p + 3" g "m \<or> in_range nocase ?a (?l ! 1) ch"] g(1) p
        by (subst class_loop.simps) (auto simp: nth_append g)
    next
      case lit
      then obtain g where g: "class_toks nocase (drop (p + 1) pat) = (g, r)" "f = (\<lambda>c. same_char nocase ?a c \<or> g c)"
        using less.prems(3) l1 by (auto simp: d split: prod.splits if_splits)
      show ?thesis
        using lit IH [of "p + 1" g "m \<or> same_char nocase ?a ch"] g(1) p
        by (subst class_loop.simps) (auto simp: nth_append g)
    qed
  qed
qed

lemma match_one_pat:
  assumes p: "p < length pat" and c0: "pat ! p \<noteq> 0x2A"
  shows "\<exists>f q. match_one nocase (pat @ [0]) (length pat) (pat ! p) p ch = Inr (f ch, q) \<and>
    toks nocase (drop p pat) = One f # toks nocase (drop (q + 1) pat) \<and> p \<le> q \<and> q < length pat"
proof -
  let ?l = "drop (Suc p) pat" and ?a = "pat ! p"
  have d: "drop p pat = ?a # ?l" by (rule drop_nth_Cons [OF p])
  have l1: "?l \<noteq> [] \<longleftrightarrow> Suc p < length pat" "Suc p < length pat \<Longrightarrow> hd ?l = pat ! Suc p"
    by (auto simp: hd_drop_conv_nth)
  have r1: "rd (pat @ [0]) (p + 1) = Inr (if ?l \<noteq> [] then hd ?l else 0)"
    using p l1 by (cases "Suc p = length pat") (auto simp: nth_append)
  show ?thesis
  proof (cases "?a = 0x5B")
    case True
    define neg where "neg = (?l \<noteq> [] \<and> hd ?l = 0x5E)"
    let ?k = "if neg then p + 2 else p + 1"
    have k: "?k \<le> length pat" "p < ?k" using p l1(1) by (auto simp: neg_def)
    obtain f r where fr: "class_toks nocase (drop ?k pat) = (f, r)" by (cases "class_toks nocase (drop ?k pat)")
    have dk: "(if neg then tl ?l else ?l) = drop ?k pat" by (simp add: tl_drop_Suc)
    have pos: "0 < length pat" using p by auto
    note cl = class_loop_pat [OF k(1) pos fr]
    have "toks nocase (drop p pat) = One (\<lambda>c. neg \<noteq> f c) # toks nocase r"
      using True by (simp only: d toks.simps Let_def dk fr fst_conv snd_conv neg_def [symmetric]) simp
    moreover have "match_one nocase (pat @ [0]) (length pat) ?a p ch = Inr (neg \<noteq> f ch, length pat - length r - 1)"
      using True cl [of ch False] r1 by (auto simp: match_one_def Let_def neg_def)
    moreover have "length pat - length r - 1 + 1 = length pat - length r" "p \<le> length pat - length r - 1"
      using cl [of ch False] k(2) by (auto split: if_splits)
    moreover have "r = drop (length pat - length r) pat" using cl by blast
    ultimately show ?thesis
      using pos by (intro exI [of _ "\<lambda>c. neg \<noteq> f c"] exI [of _ "length pat - length r - 1"]) (simp add: Suc_diff_Suc)
  next
    case False
    then show ?thesis
      using p c0 l1 r1
      by (cases "?a = 0x3F"; cases "?a = 0x5C \<and> ?l \<noteq> []")
        (auto simp: match_one_def Let_def d nth_append tl_drop_Suc intro!: exI [of _ "\<lambda>_. True"] exI [of _ p] exI [of _ "p + 1"])
  qed
qed

lemma glob_toks_Nil: "glob (toks nocase l) [] \<longleftrightarrow> (\<forall>c \<in> set l. c = 0x2A)"
  by (induction nocase l rule: toks.induct) (auto simp: Let_def)

lemma glob_stars:
  assumes "0 < n"
  shows "glob (replicate n Star @ ts) s \<longleftrightarrow> (\<exists>k \<le> length s. glob ts (drop k s))"
  using assms
proof (induction n arbitrary: s rule: nat_induct_non_zero)
  case (Suc n)
  have "(\<exists>k \<le> length s. \<exists>j \<le> length s - k. glob ts (drop (j + k) s)) \<longleftrightarrow> (\<exists>k \<le> length s. glob ts (drop k s))"
  proof safe
    fix k j
    assume "k \<le> length s" "j \<le> length s - k" "glob ts (drop (j + k) s)"
    then show "\<exists>k \<le> length s. glob ts (drop k s)" by (intro exI [of _ "j + k"]) simp
  next
    fix k
    assume "k \<le> length s" "glob ts (drop k s)"
    then show "\<exists>k \<le> length s. \<exists>j \<le> length s - k. glob ts (drop (j + k) s)" by (intro exI [of _ 0]) auto
  qed
  with Suc show ?case by simp
qed simp

lemma takeWhile_full_iff: "length (takeWhile P xs) = length xs \<longleftrightarrow> (\<forall>x \<in> set xs. P x)"
  by (induction xs) auto

lemma toks_stars:
  "toks nocase l = replicate (length (takeWhile (\<lambda>c. c = 0x2A) l)) Star @ toks nocase (dropWhile (\<lambda>c. c = 0x2A) l)"
  by (induction l) auto

lemma try_suffixes_spec:
  assumes "\<And>t. t \<noteq> [] \<Longrightarrow> f t = Inr (g t)"
  shows "try_suffixes f s = Inr (\<exists>k < length s. g (drop k s))"
proof (induction s)
  case (Cons c s)
  have "(\<exists>k < length (c # s). g (drop k (c # s))) \<longleftrightarrow> g (c # s) \<or> (\<exists>k < length s. g (drop k s))"
    by (auto simp: Ex_less_Suc2 less_Suc_eq_0_disj)
  with Cons assms [of "c # s"] show ?case by simp
qed simp

lemma stringmatchlen_glob:
  assumes "p \<le> length pat" and "s \<noteq> []"
  shows "stringmatchlen nocase (pat @ [0]) (length pat) p s = Inr (glob (toks nocase (drop p pat)) s)"
  using assms
proof (induction "length pat - p" arbitrary: p s rule: less_induct)
  case less
  show ?case
  proof (cases "p = length pat")
    case True
    with less.prems show ?thesis by (subst stringmatchlen.simps) simp
  next
    case False
    with less.prems have p: "p < length pat" by simp
    have rd: "rd (pat @ [0]) p = Inr (pat ! p)" by (rule rd_pat [OF p])
    have IH: "stringmatchlen nocase (pat @ [0]) (length pat) k t = Inr (glob (toks nocase (drop k pat)) t)"
      if "p < k" "k \<le> length pat" "t \<noteq> []" for k t
      using less.hyps [of k t] that p by simp
    show ?thesis
    proof (cases "pat ! p = 0x2A")
      case True
      define n where "n = length (takeWhile (\<lambda>c. c = 0x2A) (drop p pat))"
      let ?q = "p + n"
      have n: "0 < n" "?q \<le> length pat"
        using True p length_takeWhile_le [of "\<lambda>c. c = 0x2A" "drop p pat"] by (simp_all add: n_def drop_nth_Cons)
      have t: "toks nocase (drop p pat) = replicate n Star @ toks nocase (drop ?q pat)"
        using toks_stars [of nocase "drop p pat"] by (simp add: n_def dropWhile_eq_drop add.commute)
      have st: "last_star (pat @ [0]) p = Inr (?q - 1)"
      proof -
        have "skip_stars (pat @ [0]) (p + 1) = Inr ?q"
          using skip_stars_pat [of "p + 1" pat] True p by (simp add: n_def drop_nth_Cons)
        then show ?thesis by (simp add: last_star_def)
      qed
      show ?thesis
      proof (cases "?q = length pat")
        case end': True
        then show ?thesis
          using n less.prems(2) p True rd
          by (subst stringmatchlen.simps) (auto simp: st t glob_stars [OF n(1), of "[]", simplified])
      next
        case more: False
        then have q: "?q < length pat" using n by simp
        have "pat ! ?q \<noteq> 0x2A" using nth_length_takeWhile [of "\<lambda>c. c = 0x2A" "drop p pat"] q by (simp add: n_def)
        then have no: "\<not> glob (toks nocase (drop ?q pat)) []"
          unfolding glob_toks_Nil using q by (auto simp: drop_nth_Cons)
        have "try_suffixes (stringmatchlen nocase (pat @ [0]) (length pat) ?q) s =
            Inr (\<exists>k < length s. glob (toks nocase (drop ?q pat)) (drop k s))"
          by (rule try_suffixes_spec) (use IH n q in auto)
        also have "(\<exists>k < length s. glob (toks nocase (drop ?q pat)) (drop k s)) \<longleftrightarrow> glob (toks nocase (drop p pat)) s"
          unfolding t glob_stars [OF n(1)] using no by (auto simp: le_less)
        finally show ?thesis
          using less.prems(2) p True rd n more by (subst stringmatchlen.simps) (simp add: st)
      qed
    next
      case False
      obtain f q where f: "match_one nocase (pat @ [0]) (length pat) (pat ! p) p (hd s) = Inr (f (hd s), q)"
        "toks nocase (drop p pat) = One f # toks nocase (drop (q + 1) pat)" "p \<le> q" "q < length pat"
        using match_one_pat [OF p False] by blast
      have sk: "skip_stars (pat @ [0]) (q + 1) = Inr (q + 1 + length (takeWhile (\<lambda>c. c = 0x2A) (drop (q + 1) pat)))"
        using f(4) by (intro skip_stars_pat) simp
      have all: "q + 1 + length (takeWhile (\<lambda>c. c = 0x2A) (drop (q + 1) pat)) = length pat
          \<longleftrightarrow> glob (toks nocase (drop (q + 1) pat)) []"
        unfolding glob_toks_Nil using takeWhile_full_iff [of "\<lambda>c. c = 0x2A" "drop (q + 1) pat"] f(4) by auto
      show ?thesis
        using less.prems(2) p False rd f IH [of "q + 1" "tl s"] sk all
        by (subst stringmatchlen.simps) auto
    qed
  qed
qed

text \<open>\<open>stringmatch\<close>: both lengths are taken from the terminated strings.\<close>

definition stringmatch :: "bool \<Rightarrow> byte list \<Rightarrow> byte list \<Rightarrow> bool cres" where
  "stringmatch nocase pattern str =
     cbind (strlen pattern 0) (\<lambda>e. cbind (strlen str 0) (\<lambda>n. stringmatchlen nocase pattern e 0 (take n str)))"

section \<open>Properties\<close>

text \<open>C25: on a non-empty string the matcher decides the glob relation of the pattern, for every
  pattern that is followed by a zero byte (as an \<open>sds\<close> is): it always returns, reads no byte
  beyond the terminator even when a class or an escape is cut short, and answers whether the
  string is a concatenation of one byte per single-byte token and any bytes per star. On the
  empty string it answers whether the pattern is empty, although a pattern of stars would match.\<close>

theorem stringmatchlen_correct:
  "stringmatchlen nocase (pat @ [0]) (length pat) 0 s =
     Inr (if s = [] then pat = [] else glob (toks nocase pat) s)"
proof (cases "s = []")
  case True
  then show ?thesis by (subst stringmatchlen.simps) auto
next
  case False
  then show ?thesis using stringmatchlen_glob [of 0 pat s nocase] by simp
qed

end
