(* ===== verification/Set_Interface.thy ===== *)
theory Set_Interface
  imports Prelude
begin

text \<open>
  The contract of a mutable finite set that the set type of Redis asks of its encodings: adding,
  removing and testing one element, each answering whether the element was there, below a
  capacity; a test may change the representation. What a client gets from the contract is proved once: every sequence of operations
  gives the answers it would give on a mathematical set.
\<close>

datatype 'a set_op = Add 'a | Remove 'a | Member 'a

primrec op_arg :: "'a set_op \<Rightarrow> 'a" where
  "op_arg (Add x) = x" | "op_arg (Remove x) = x" | "op_arg (Member x) = x"

text \<open>Running operations on an implementation, and on a set; the answers are collected in order.\<close>

primrec run_op ::
  "('s \<Rightarrow> 'a \<Rightarrow> (bool \<times> 's) cres) \<Rightarrow> ('s \<Rightarrow> 'a \<Rightarrow> (bool \<times> 's) cres) \<Rightarrow> ('s \<Rightarrow> 'a \<Rightarrow> (bool \<times> 's) cres)
   \<Rightarrow> 'a set_op \<Rightarrow> 's \<Rightarrow> (bool \<times> 's) cres" where
  "run_op add remove member (Add x) s = add s x"
| "run_op add remove member (Remove x) s = remove s x"
| "run_op add remove member (Member x) s = member s x"

primrec run_ops ::
  "('s \<Rightarrow> 'a \<Rightarrow> (bool \<times> 's) cres) \<Rightarrow> ('s \<Rightarrow> 'a \<Rightarrow> (bool \<times> 's) cres) \<Rightarrow> ('s \<Rightarrow> 'a \<Rightarrow> (bool \<times> 's) cres)
   \<Rightarrow> 'a set_op list \<Rightarrow> 's \<Rightarrow> (bool list \<times> 's) cres" where
  "run_ops add remove member [] s = Inr ([], s)"
| "run_ops add remove member (x # xs) s =
     cbind (run_op add remove member x s) (\<lambda>(b, s).
     cbind (run_ops add remove member xs s) (\<lambda>(bs, s). Inr (b # bs, s)))"

primrec spec_op :: "'a set_op \<Rightarrow> 'a set \<Rightarrow> bool \<times> 'a set" where
  "spec_op (Add x) A = (x \<notin> A, insert x A)"
| "spec_op (Remove x) A = (x \<in> A, A - {x})"
| "spec_op (Member x) A = (x \<in> A, A)"

primrec spec_ops :: "'a set_op list \<Rightarrow> 'a set \<Rightarrow> bool list \<times> 'a set" where
  "spec_ops [] A = ([], A)"
| "spec_ops (x # xs) A = (case spec_op x A of (b, A) \<Rightarrow> case spec_ops xs A of (bs, A) \<Rightarrow> (b # bs, A))"

locale set_impl =
  fixes inv :: "'s \<Rightarrow> bool" and abs :: "'s \<Rightarrow> 'a set" and valid :: "'a \<Rightarrow> bool" and cap :: nat
    and add :: "'s \<Rightarrow> 'a \<Rightarrow> (bool \<times> 's) cres" and remove :: "'s \<Rightarrow> 'a \<Rightarrow> (bool \<times> 's) cres"
    and member :: "'s \<Rightarrow> 'a \<Rightarrow> (bool \<times> 's) cres"
  assumes finite_abs: "inv s \<Longrightarrow> finite (abs s)"
    and add_ok: "inv s \<Longrightarrow> valid x \<Longrightarrow> card (abs s) < cap \<Longrightarrow>
      \<exists>s'. add s x = Inr (x \<notin> abs s, s') \<and> inv s' \<and> abs s' = insert x (abs s)"
    and remove_ok: "inv s \<Longrightarrow> valid x \<Longrightarrow>
      \<exists>s'. remove s x = Inr (x \<in> abs s, s') \<and> inv s' \<and> abs s' = abs s - {x}"
    and member_ok: "inv s \<Longrightarrow> valid x \<Longrightarrow>
      \<exists>s'. member s x = Inr (x \<in> abs s, s') \<and> inv s' \<and> abs s' = abs s"
begin

lemma op_ok:
  assumes "inv s" and "valid (op_arg x)" and "card (abs s) < cap"
  shows "\<exists>s'. run_op add remove member x s = Inr (fst (spec_op x (abs s)), s') \<and> inv s' \<and>
    abs s' = snd (spec_op x (abs s)) \<and> card (abs s') \<le> card (abs s) + 1"
proof (cases x)
  case (Add y)
  then show ?thesis
    using add_ok [of s y] finite_abs [of s] assms by (auto simp: card_insert_if)
next
  case (Remove y)
  then show ?thesis
    using remove_ok [of s y] finite_abs [of s] assms card_Diff1_le [of "abs s" y] by (auto intro: le_SucI)
next
  case (Member y)
  then show ?thesis using member_ok [of s y] assms by auto
qed

lemma ops_refine:
  assumes "inv s" and "\<forall>x \<in> set xs. valid (op_arg x)" and "card (abs s) + length xs \<le> cap"
  shows "\<exists>s'. run_ops add remove member xs s = Inr (fst (spec_ops xs (abs s)), s') \<and> inv s' \<and>
    abs s' = snd (spec_ops xs (abs s))"
  using assms
proof (induction xs arbitrary: s)
  case (Cons x xs)
  obtain s1 where 1: "run_op add remove member x s = Inr (fst (spec_op x (abs s)), s1)" "inv s1"
      "abs s1 = snd (spec_op x (abs s))" "card (abs s1) \<le> card (abs s) + 1"
    using op_ok [of s x] Cons.prems by auto
  obtain s2 where 2: "run_ops add remove member xs s1 = Inr (fst (spec_ops xs (abs s1)), s2)" "inv s2"
      "abs s2 = snd (spec_ops xs (abs s1))"
    using Cons.IH [of s1] Cons.prems 1 by auto
  show ?case using 1 2 by (simp add: case_prod_beta)
qed simp

end

end
