(* ===== verification/Intset.thy ===== *)
theory Intset
  imports Bytes Set_Interface
begin

text \<open>
  \<open>intset.c\<close>: sets of integers as one block of memory, sorted, all elements at the width the widest
  of them needs (2, 4 or 8 bytes, little endian). The block is a byte list, so the overlapping
  copies of \<open>intsetMoveTail\<close> and of the in-place upgrade are the code's own; an access outside the
  block is a fault. The bytes that \<open>zrealloc\<close> adds are unspecified: they come from the argument
  \<open>junk\<close>. The host is little endian, so the \<open>ifbe\<close> conversions are identities.
\<close>

section \<open>The code\<close>

record intset =
  encoding :: nat
  is_length :: nat
  contents :: "byte list"

definition INTSET_ENC_INT16 :: nat where "INTSET_ENC_INT16 = 2"
definition INTSET_ENC_INT32 :: nat where "INTSET_ENC_INT32 = 4"
definition INTSET_ENC_INT64 :: nat where "INTSET_ENC_INT64 = 8"

definition intsetValueEncoding :: "int \<Rightarrow> nat" where
  "intsetValueEncoding v =
     (if v < - (2 ^ 31) \<or> v > 2 ^ 31 - 1 then INTSET_ENC_INT64
      else if v < - (2 ^ 15) \<or> v > 2 ^ 15 - 1 then INTSET_ENC_INT32
      else INTSET_ENC_INT16)"

text \<open>A signed integer of \<open>n\<close> bytes in memory: reading with sign extension, writing with truncation.\<close>

definition sle_val :: "nat \<Rightarrow> byte list \<Rightarrow> int" where
  "sle_val n bs = (if le_val bs < 2 ^ (8 * n - 1) then int (le_val bs) else int (le_val bs) - 2 ^ (8 * n))"

definition sle_enc :: "nat \<Rightarrow> int \<Rightarrow> byte list" where
  "sle_enc n v = le_enc n (nat (v mod 2 ^ (8 * n)))"

definition mem_get :: "nat \<Rightarrow> byte list \<Rightarrow> int \<Rightarrow> int cres" where
  "mem_get n mem pos =
     (if 0 \<le> pos \<and> (nat pos + 1) * n \<le> length mem
      then Inr (sle_val n (take n (drop (nat pos * n) mem))) else Inl OutOfBounds)"

definition mem_set :: "nat \<Rightarrow> byte list \<Rightarrow> nat \<Rightarrow> int \<Rightarrow> byte list cres" where
  "mem_set n mem pos v =
     (if (pos + 1) * n \<le> length mem then Inr (store_at mem (pos * n) (sle_enc n v)) else Inl OutOfBounds)"

definition intsetGetEncoded :: "intset \<Rightarrow> int \<Rightarrow> nat \<Rightarrow> int cres" where
  "intsetGetEncoded is pos enc =
     (if enc = INTSET_ENC_INT64 then mem_get 8 (contents is) pos
      else if enc = INTSET_ENC_INT32 then mem_get 4 (contents is) pos
      else mem_get 2 (contents is) pos)"

definition intset_Get :: "intset \<Rightarrow> int \<Rightarrow> int cres" where
  "intset_Get is pos = intsetGetEncoded is pos (encoding is)"

definition intset_Set :: "intset \<Rightarrow> nat \<Rightarrow> int \<Rightarrow> intset cres" where
  "intset_Set is pos v =
     cbind (if encoding is = INTSET_ENC_INT64 then mem_set 8 (contents is) pos v
            else if encoding is = INTSET_ENC_INT32 then mem_set 4 (contents is) pos v
            else mem_set 2 (contents is) pos v) (\<lambda>m. Inr (is\<lparr>contents := m\<rparr>))"

definition intsetNew :: intset where
  "intsetNew = \<lparr> encoding = INTSET_ENC_INT16, is_length = 0, contents = [] \<rparr>"

definition intsetResize :: "(nat \<Rightarrow> byte) \<Rightarrow> intset \<Rightarrow> nat \<Rightarrow> intset" where
  "intsetResize junk is len =
     (let size = (len * encoding is) mod 2 ^ 32; m = contents is
      in is\<lparr>contents := take size m @ map junk [length m..<size]\<rparr>)"

text \<open>The bisection: \<open>(min, mid, cur)\<close> when it ends. The unsigned sum of two \<open>int\<close>s does not wrap.\<close>

function search_loop :: "intset \<Rightarrow> int \<Rightarrow> int \<Rightarrow> int \<Rightarrow> int \<Rightarrow> int \<Rightarrow> (int \<times> int \<times> int) cres" where
  "search_loop is value lo hi mid cur =
     (if hi \<ge> lo then
        let mid = (lo + hi) div 2 in
        cbind (intset_Get is mid) (\<lambda>cur.
          if value > cur then search_loop is value (mid + 1) hi mid cur
          else if value < cur then search_loop is value lo (mid - 1) mid cur
          else Inr (lo, mid, cur))
      else Inr (lo, mid, cur))"
  by pat_completeness auto
termination
  by (relation "measure (\<lambda>(is, v, lo, hi, mid, cur). nat (hi - lo + 1))") auto

declare search_loop.simps [simp del]

definition intsetSearch :: "intset \<Rightarrow> int \<Rightarrow> (bool \<times> nat) cres" where
  "intsetSearch is value =
     (let lo = 0; hi = to_int32 (int (is_length is) - 1) in
      if is_length is = 0 then Inr (False, 0)
      else cbind (intset_Get is hi) (\<lambda>last.
        if value > last then Inr (False, is_length is)
        else cbind (intset_Get is 0) (\<lambda>first.
          if value < first then Inr (False, 0)
          else cbind (search_loop is value lo hi (-1) (-1)) (\<lambda>(lo, mid, cur).
            if value = cur then Inr (True, nat mid) else Inr (False, nat lo)))))"

fun upgrade_loop :: "nat \<Rightarrow> nat \<Rightarrow> nat \<Rightarrow> intset \<Rightarrow> intset cres" where
  "upgrade_loop curenc prepend 0 is = Inr is"
| "upgrade_loop curenc prepend (Suc n) is =
     cbind (intsetGetEncoded is (int n) curenc) (\<lambda>v.
     cbind (intset_Set is (n + prepend) v) (upgrade_loop curenc prepend n))"

definition intsetUpgradeAndAdd :: "(nat \<Rightarrow> byte) \<Rightarrow> intset \<Rightarrow> int \<Rightarrow> intset cres" where
  "intsetUpgradeAndAdd junk is value =
     (let curenc = encoding is;
          newenc = intsetValueEncoding value;
          len = is_length is;
          prepend = (if value < 0 then 1 else 0);
          is = is\<lparr>encoding := newenc\<rparr>;
          is = intsetResize junk is (is_length is + 1)
      in cbind (upgrade_loop curenc prepend len is) (\<lambda>is.
         cbind (if prepend = 1 then intset_Set is 0 value else intset_Set is (is_length is) value) (\<lambda>is.
         Inr (is\<lparr>is_length := (is_length is + 1) mod 2 ^ 32\<rparr>))))"

definition mem_move :: "byte list \<Rightarrow> nat \<Rightarrow> nat \<Rightarrow> nat \<Rightarrow> byte list cres" where
  "mem_move mem dst src n =
     (if src + n \<le> length mem \<and> dst + n \<le> length mem
      then Inr (store_at mem dst (take n (drop src mem))) else Inl OutOfBounds)"

definition intsetMoveTail :: "intset \<Rightarrow> nat \<Rightarrow> nat \<Rightarrow> intset cres" where
  "intsetMoveTail is from to =
     (let n = nat ((int (is_length is) - int from) mod 2 ^ 32);
          w = (if encoding is = INTSET_ENC_INT64 then 8 else if encoding is = INTSET_ENC_INT32 then 4 else 2)
      in cbind (mem_move (contents is) (to * w) (from * w) ((n * w) mod 2 ^ 32)) (\<lambda>m.
         Inr (is\<lparr>contents := m\<rparr>)))"

definition intsetAdd :: "(nat \<Rightarrow> byte) \<Rightarrow> intset \<Rightarrow> int \<Rightarrow> (bool \<times> intset) cres" where
  "intsetAdd junk is value =
     (if intsetValueEncoding value > encoding is then
        cbind (intsetUpgradeAndAdd junk is value) (\<lambda>is. Inr (True, is))
      else cbind (intsetSearch is value) (\<lambda>(found, pos).
        if found then Inr (False, is)
        else let is = intsetResize junk is (is_length is + 1) in
          cbind (if pos < is_length is then intsetMoveTail is pos (pos + 1) else Inr is) (\<lambda>is.
          cbind (intset_Set is pos value) (\<lambda>is.
          Inr (True, is\<lparr>is_length := (is_length is + 1) mod 2 ^ 32\<rparr>)))))"

definition intsetRemove :: "(nat \<Rightarrow> byte) \<Rightarrow> intset \<Rightarrow> int \<Rightarrow> (bool \<times> intset) cres" where
  "intsetRemove junk is value =
     (if intsetValueEncoding value \<le> encoding is then
        cbind (intsetSearch is value) (\<lambda>(found, pos).
          if found then
            let len = is_length is in
            cbind (if pos < len - 1 then intsetMoveTail is (pos + 1) pos else Inr is) (\<lambda>is.
            Inr (True, (intsetResize junk is (len - 1))\<lparr>is_length := len - 1\<rparr>))
          else Inr (False, is))
      else Inr (False, is))"

definition intsetFind :: "intset \<Rightarrow> int \<Rightarrow> bool cres" where
  "intsetFind is value =
     (if intsetValueEncoding value \<le> encoding is
      then cbind (intsetSearch is value) (\<lambda>(found, pos). Inr found) else Inr False)"

text \<open>\<open>rand()\<close> is given; the remainder by zero of an empty set is a fault.\<close>

definition intsetRandom :: "nat \<Rightarrow> intset \<Rightarrow> int cres" where
  "intsetRandom r is = (if is_length is = 0 then Inl DivideByZero else intset_Get is (int r mod int (is_length is)))"

definition intsetGet :: "intset \<Rightarrow> nat \<Rightarrow> int option cres" where
  "intsetGet is pos =
     (if pos < is_length is then cbind (intset_Get is (int pos)) (\<lambda>v. Inr (Some v)) else Inr None)"

definition intsetLen :: "intset \<Rightarrow> nat" where
  "intsetLen is = is_length is"

definition intsetBlobLen :: "intset \<Rightarrow> nat" where
  "intsetBlobLen is = 8 + (is_length is * encoding is) mod 2 ^ 32"

section \<open>Blocks of equal width\<close>

definition in_width :: "nat \<Rightarrow> int \<Rightarrow> bool" where
  "in_width n v \<longleftrightarrow> - (2 ^ (8 * n - 1)) \<le> v \<and> v < 2 ^ (8 * n - 1)"

lemma pow256: "(256 :: nat) ^ n = 2 ^ (8 * n)"
  by (simp add: power_mult)

lemma length_sle_enc [simp]: "length (sle_enc n v) = n"
  by (simp add: sle_enc_def)

lemma sle_round_trip:
  assumes n: "0 < n" and v: "in_width n v"
  shows "sle_val n (sle_enc n v) = v"
proof -
  have two: "(2 :: int) ^ (8 * n) = 2 * 2 ^ (8 * n - 1)" using n by (simp flip: power_Suc)
  have le: "le_val (sle_enc n v) = nat (v mod 2 ^ (8 * n))"
    by (simp add: sle_enc_def le_val_le_enc pow256 nat_mod_distrib flip: nat_mod_distrib)
  show ?thesis
  proof (cases "v < 0")
    case True
    have "(v + 2 ^ (8 * n)) mod 2 ^ (8 * n) = v + 2 ^ (8 * n)"
      using True v two by (intro mod_pos_pos_trivial) (auto simp: in_width_def)
    then have "v mod 2 ^ (8 * n) = v + 2 ^ (8 * n)" by simp
    then show ?thesis using True v two by (simp add: sle_val_def le in_width_def nat_less_iff)
  next
    case False
    then have "v mod 2 ^ (8 * n) = v" using v two by (simp add: in_width_def)
    then show ?thesis using False v by (simp add: sle_val_def le in_width_def nat_less_iff)
  qed
qed

definition enc_list :: "nat \<Rightarrow> int list \<Rightarrow> byte list" where
  "enc_list n vs = concat (map (sle_enc n) vs)"

lemma enc_list_simps [simp]:
  "enc_list n [] = []" "enc_list n (v # vs) = sle_enc n v @ enc_list n vs"
  "enc_list n (us @ vs) = enc_list n us @ enc_list n vs"
  by (simp_all add: enc_list_def)

lemma length_enc_list [simp]: "length (enc_list n vs) = length vs * n"
  by (induction vs) simp_all

lemma enc_list_split:
  assumes "i < length vs"
  shows "enc_list n vs = enc_list n (take i vs) @ sle_enc n (vs ! i) @ enc_list n (drop (Suc i) vs)"
proof -
  have "vs = take i vs @ vs ! i # drop (Suc i) vs" using assms by (rule id_take_nth_drop)
  then show ?thesis by (metis enc_list_simps(2,3))
qed

lemma mem_get_enc_list:
  assumes "i < length vs" and "0 < n" and "in_width n (vs ! i)"
  shows "mem_get n (enc_list n vs @ t) (int i) = Inr (vs ! i)"
proof -
  have len: "(i + 1) * n \<le> length vs * n" using assms(1) by (intro mult_le_mono1) simp
  have "take n (drop (i * n) (enc_list n vs @ t)) = sle_enc n (vs ! i)"
    unfolding enc_list_split [OF assms(1)] using assms(1) by simp
  with len show ?thesis using assms(2,3) by (simp add: mem_get_def sle_round_trip)
qed

lemma mem_set_block:
  assumes "length A = i * n" and "length X = n"
  shows "mem_set n (A @ X @ B) i v = Inr (A @ sle_enc n v @ B)"
  using assms by (simp add: mem_set_def store_at_def)

section \<open>The set a block represents\<close>

definition is_rep :: "intset \<Rightarrow> int list \<Rightarrow> bool" where
  "is_rep is vs \<longleftrightarrow> encoding is \<in> {2, 4, 8} \<and> contents is = enc_list (encoding is) vs \<and>
     is_length is = length vs \<and> (\<forall>v \<in> set vs. in_width (encoding is) v) \<and> sorted_wrt (<) vs"

definition intset_ok :: "intset \<Rightarrow> bool" where
  "intset_ok is \<longleftrightarrow> (\<exists>vs. is_rep is vs \<and> length vs * 8 < 2 ^ 31)"

definition elems :: "intset \<Rightarrow> int set" where
  "elems is = {v. \<exists>i < is_length is. intset_Get is (int i) = Inr v}"

lemma enc_dispatch:
  "w \<in> {2, 4, 8} \<Longrightarrow> (if w = INTSET_ENC_INT64 then f 8 else if w = INTSET_ENC_INT32 then f 4 else f 2) = f w"
  by (auto simp: INTSET_ENC_INT64_def INTSET_ENC_INT32_def)

lemma GetEncoded_eq: "w \<in> {2, 4, 8} \<Longrightarrow> intsetGetEncoded is i w = mem_get w (contents is) i"
  unfolding intsetGetEncoded_def by (rule enc_dispatch)

lemma Set_eq:
  "encoding is \<in> {2, 4, 8} \<Longrightarrow>
   intset_Set is i v = cbind (mem_set (encoding is) (contents is) i v) (\<lambda>m. Inr (is\<lparr>contents := m\<rparr>))"
  unfolding intset_Set_def by (subst enc_dispatch [where f = "\<lambda>w. mem_set w (contents is) i v"]) simp_all

lemma rep_Get: "is_rep is vs \<Longrightarrow> i < length vs \<Longrightarrow> intset_Get is (int i) = Inr (vs ! i)"
  using mem_get_enc_list [of i vs "encoding is" "[]"]
  by (auto simp: is_rep_def intset_Get_def GetEncoded_eq)

lemma rep_elems: "is_rep is vs \<Longrightarrow> elems is = set vs"
proof -
  assume r: "is_rep is vs"
  then have "is_length is = length vs" by (simp add: is_rep_def)
  then show ?thesis by (auto simp: elems_def rep_Get [OF r] set_conv_nth)
qed

lemma width_iff:
  "w \<in> {2, 4, 8} \<Longrightarrow> in_width 8 v \<Longrightarrow> intsetValueEncoding v \<le> w \<longleftrightarrow> in_width w v"
  by (auto simp: intsetValueEncoding_def in_width_def INTSET_ENC_INT64_def INTSET_ENC_INT32_def INTSET_ENC_INT16_def)

section \<open>Searching\<close>

definition ins_at :: "int list \<Rightarrow> int \<Rightarrow> nat \<Rightarrow> bool" where
  "ins_at vs v k \<longleftrightarrow> k \<le> length vs \<and> (\<forall>i < k. vs ! i < v) \<and> (\<forall>i < length vs. k \<le> i \<longrightarrow> v < vs ! i)"

lemma sorted_nth: "sorted_wrt (<) vs \<Longrightarrow> i \<le> j \<Longrightarrow> j < length vs \<Longrightarrow> vs ! i \<le> (vs ! j :: int)"
  by (metis le_less less_imp_le order_refl sorted_wrt_iff_nth_less)

lemma search_loop_spec:
  assumes rep: "is_rep is vs" and lo: "0 \<le> lo" and hi: "hi < int (length vs)"
    and below: "\<forall>i. int i < lo \<longrightarrow> vs ! i < v" and above: "\<forall>i < length vs. hi < int i \<longrightarrow> v < vs ! i"
    and ord: "lo \<le> hi + 1" and start: "lo \<le> hi \<or> cur \<noteq> v"
  shows "\<exists>lo' mid' cur'. search_loop is v lo hi mid cur = Inr (lo', mid', cur') \<and> 0 \<le> lo' \<and>
    (if cur' = v then 0 \<le> mid' \<and> mid' < int (length vs) \<and> vs ! nat mid' = v else ins_at vs v (nat lo'))"
  using assms
proof (induction "nat (hi - lo + 1)" arbitrary: lo hi mid cur rule: less_induct)
  case less
  show ?case
  proof (cases "lo \<le> hi")
    case False
    then have "lo = hi + 1" using less.prems by simp
    then have "ins_at vs v (nat lo)"
      using less.prems by (auto simp: ins_at_def zless_nat_eq_int_zless nat_le_iff)
    then show ?thesis using False less.prems by (subst search_loop.simps) auto
  next
    case True
    define m where "m = nat ((lo + hi) div 2)"
    have m: "(lo + hi) div 2 = int m" "lo \<le> int m" "int m \<le> hi" "m < length vs"
      using True less.prems(2,3) by (auto simp: m_def)
    have get: "intset_Get is (int m) = Inr (vs ! m)" by (rule rep_Get [OF rep m(4)])
    have srt: "sorted_wrt (<) vs" using rep by (simp add: is_rep_def)
    consider "vs ! m < v" | "v < vs ! m" | "vs ! m = v" by linarith
    then show ?thesis
    proof cases
      case 1
      have "\<forall>i. int i < int m + 1 \<longrightarrow> vs ! i < v"
        using sorted_nth [OF srt _ m(4)] 1 by (auto intro: le_less_trans)
      note b = this
      have step: "search_loop is v lo hi mid cur = search_loop is v (int m + 1) hi (int m) (vs ! m)"
        using True m(1) 1 by (subst search_loop.simps) (simp add: get Let_def)
      show ?thesis unfolding step by (rule less.hyps) (use less.prems m 1 b in auto)
    next
      case 2
      have "\<forall>i < length vs. int m - 1 < int i \<longrightarrow> v < vs ! i"
        using sorted_nth [OF srt] 2 by (auto intro: less_le_trans)
      note b = this
      have step: "search_loop is v lo hi mid cur = search_loop is v lo (int m - 1) (int m) (vs ! m)"
        using True m(1) 2 by (subst search_loop.simps) (simp add: get Let_def)
      show ?thesis unfolding step by (rule less.hyps) (use less.prems m b less_imp_neq [OF 2] in auto)
    next
      case 3
      then show ?thesis using True less.prems m by (subst search_loop.simps) (simp add: get Let_def)
    qed
  qed
qed

lemma intsetSearch_spec:
  assumes rep: "is_rep is vs" and len: "length vs < 2 ^ 31"
  shows "\<exists>found pos. intsetSearch is v = Inr (found, pos) \<and>
    (if found then pos < length vs \<and> vs ! pos = v else ins_at vs v pos)"
proof (cases "vs = []")
  case True
  then show ?thesis using rep by (auto simp: intsetSearch_def is_rep_def ins_at_def)
next
  case False
  let ?n = "length vs"
  have n: "is_length is = ?n" "0 < ?n" using rep False by (simp_all add: is_rep_def)
  have hi: "to_int32 (int ?n - 1) = int (?n - 1)"
    using len False by (cases vs) (simp_all add: to_int32_small)
  have last: "intset_Get is (int (?n - 1)) = Inr (vs ! (?n - 1))" and first: "intset_Get is 0 = Inr (vs ! 0)"
    using rep_Get [OF rep, of "?n - 1"] rep_Get [OF rep, of 0] n(2) by (simp_all del: of_nat_diff)
  have srt: "sorted_wrt (<) vs" using rep by (simp add: is_rep_def)
  have mono: "vs ! 0 \<le> vs ! i" "vs ! i \<le> vs ! (?n - 1)" if "i < ?n" for i
    using sorted_nth [OF srt] that n(2) by auto
  obtain lo mid cur where loop: "search_loop is v 0 (int (?n - 1)) (-1) (-1) = Inr (lo, mid, cur)"
    "if cur = v then 0 \<le> mid \<and> mid < int ?n \<and> vs ! nat mid = v else ins_at vs v (nat lo)"
    using search_loop_spec [OF rep, of 0 "int (?n - 1)" v "-1" "-1"] n(2) by auto
  have "ins_at vs v ?n" if "v > vs ! (?n - 1)" using that le_less_trans [OF mono(2)] by (auto simp: ins_at_def)
  moreover have "ins_at vs v 0" if "v < vs ! 0" using that less_le_trans [OF _ mono(1)] by (auto simp: ins_at_def)
  moreover have "intsetSearch is v =
      Inr (if v > vs ! (?n - 1) then (False, ?n) else if v < vs ! 0 then (False, 0)
           else if v = cur then (True, nat mid) else (False, nat lo))"
    unfolding intsetSearch_def Let_def n(1) hi last first cbind_Inr loop(1) prod.case using False by simp
  moreover have "nat mid < ?n \<and> vs ! nat mid = v" if "v = cur" using loop(2) that by auto
  moreover have "ins_at vs v (nat lo)" if "v \<noteq> cur" using loop(2) that by auto
  ultimately show ?thesis
    by (cases "v > vs ! (?n - 1)"; cases "v < vs ! 0"; cases "v = cur") auto
qed

lemma search_found_iff:
  assumes "if found then pos < length vs \<and> vs ! pos = v else ins_at vs v pos"
  shows "found \<longleftrightarrow> v \<in> set vs"
proof (cases found)
  case False
  then have i: "ins_at vs v pos" using assms by simp
  have "vs ! k \<noteq> v" if "k < length vs" for k
    using i that by (cases "k < pos") (auto simp: ins_at_def)
  with False show ?thesis by (auto simp: in_set_conv_nth)
qed (use assms in \<open>auto simp: in_set_conv_nth\<close>)

lemma sorted_insert:
  assumes "sorted_wrt (<) vs" and "ins_at vs v k"
  shows "sorted_wrt (<) (take k vs @ v # drop k vs)"
proof -
  have "sorted_wrt (<) (take k vs @ drop k vs)" using assms(1) by simp
  moreover have "x < v" if "x \<in> set (take k vs)" for x
    using that assms(2) by (auto simp: ins_at_def in_set_conv_nth)
  moreover have "v < x" if "x \<in> set (drop k vs)" for x
    using that assms(2) by (auto simp: ins_at_def in_set_conv_nth)
  ultimately show ?thesis unfolding sorted_wrt_append by simp
qed

section \<open>Adding and removing\<close>

lemma resize_grow:
  assumes "(len + 1) * encoding is < 2 ^ 32" and "length (contents is) = len * encoding is"
  shows "\<exists>J. length J = encoding is \<and> intsetResize junk is (len + 1) = is\<lparr>contents := contents is @ J\<rparr>"
proof -
  let ?J = "map junk [len * encoding is..<(len + 1) * encoding is]"
  have "length ?J = encoding is" by simp
  moreover have "intsetResize junk is (len + 1) = is\<lparr>contents := contents is @ ?J\<rparr>"
    using assms by (simp add: intsetResize_def Let_def)
  ultimately show ?thesis by blast
qed

lemma nat_mod_u32: "k < 2 ^ 32 \<Longrightarrow> nat (int k mod 2 ^ 32) = k"
  by simp

lemma MoveTail_eq:
  assumes "encoding is \<in> {2, 4, 8}" and "from \<le> is_length is" and "is_length is * 8 < 2 ^ 31"
  shows "intsetMoveTail is from to =
    cbind (mem_move (contents is) (to * encoding is) (from * encoding is) ((is_length is - from) * encoding is))
      (\<lambda>m. Inr (is\<lparr>contents := m\<rparr>))"
proof -
  let ?w = "encoding is"
  have w: "(if ?w = INTSET_ENC_INT64 then 8 else if ?w = INTSET_ENC_INT32 then 4 else 2) = ?w"
    using assms(1) by (auto simp: INTSET_ENC_INT64_def INTSET_ENC_INT32_def)
  have "int (is_length is) - int from = int (is_length is - from)" using assms(2) by simp
  moreover have "is_length is - from < 2 ^ 32" using assms(3) by simp
  ultimately have n: "nat ((int (is_length is) - int from) mod 2 ^ 32) = is_length is - from"
    by (simp only: nat_mod_u32)
  have "(is_length is - from) * ?w \<le> is_length is * 8" using assms(1) by (intro mult_le_mono) auto
  then have "(is_length is - from) * ?w < 2 ^ 32" using assms(3) by simp
  then show ?thesis unfolding intsetMoveTail_def Let_def w n by simp
qed

lemma mem_move_up:
  assumes "length J = w" and "length A = a"
  shows "\<exists>X. length X = w \<and> mem_move (A @ B @ J) (a + w) a (length B) = Inr (A @ X @ B)"
proof -
  have "length (take w (B @ J)) = w" using assms by simp
  moreover have "mem_move (A @ B @ J) (a + w) a (length B) = Inr (A @ take w (B @ J) @ B)"
    using assms by (simp add: mem_move_def store_at_def)
  ultimately show ?thesis by blast
qed

lemma mem_move_down:
  assumes "length A = a" and "length E = w"
  shows "\<exists>Y. length Y = w \<and> mem_move (A @ E @ B) a (a + w) (length B) = Inr (A @ B @ Y)"
  using assms by (intro exI [of _ "drop (length B) (E @ B)"]) (auto simp: mem_move_def store_at_def)

lemma take_enc_list: "i \<le> length vs \<Longrightarrow> enc_list w vs = enc_list w (take i vs) @ enc_list w (drop i vs)"
  by (metis append_take_drop_id enc_list_simps(3))

lemma add_narrow:
  assumes rep: "is_rep is vs" and len: "(length vs + 1) * 8 < 2 ^ 31" and w: "in_width (encoding is) v"
  shows "\<exists>is'. intsetAdd junk is v = Inr (v \<notin> set vs, is') \<and>
    (\<exists>us. is_rep is' us \<and> set us = insert v (set vs))"
proof -
  let ?w = "encoding is"
  have enc: "?w \<in> {2, 4, 8}" and n: "is_length is = length vs" and c: "contents is = enc_list ?w vs"
    and wid: "\<forall>x \<in> set vs. in_width ?w x" and srt: "sorted_wrt (<) vs"
    using rep by (simp_all add: is_rep_def)
  have "in_width 8 v" using w enc by (auto simp: in_width_def)
  then have ve: "\<not> intsetValueEncoding v > ?w" using width_iff [OF enc, of v] w by simp
  obtain found pos where s: "intsetSearch is v = Inr (found, pos)"
    "if found then pos < length vs \<and> vs ! pos = v else ins_at vs v pos"
    using intsetSearch_spec [OF rep, of v] len by auto
  note fi = search_found_iff [OF s(2)]
  show ?thesis
  proof (cases found)
    case True
    then show ?thesis using ve s(1) fi rep by (auto simp: intsetAdd_def insert_absorb)
  next
    case False
    then have i: "ins_at vs v pos" "pos \<le> length vs" using s(2) by (auto simp: ins_at_def)
    have "(length vs + 1) * ?w \<le> (length vs + 1) * 8" using enc by (intro mult_le_mono) auto
    then have "(length vs + 1) * ?w < 2 ^ 32" using len by simp
    then obtain J where J: "length J = ?w" "intsetResize junk is (length vs + 1) = is\<lparr>contents := contents is @ J\<rparr>"
      using resize_grow [of "length vs" "is" junk] c by auto
    let ?A = "enc_list ?w (take pos vs)" and ?B = "enc_list ?w (drop pos vs)"
    have cAB: "contents is = ?A @ ?B" unfolding c by (rule take_enc_list [OF i(2)])
    have lens: "length ?A = pos * ?w" "length ?B = (length vs - pos) * ?w" using i(2) by simp_all
    let ?r = "is\<lparr>contents := contents is @ J\<rparr>"
    have mv: "\<exists>X. length X = ?w \<and> (if pos < is_length ?r then intsetMoveTail ?r pos (pos + 1) else Inr ?r)
        = Inr (is\<lparr>contents := ?A @ X @ ?B\<rparr>)"
    proof (cases "pos < length vs")
      case True
      obtain X where "length X = ?w" "mem_move (?A @ ?B @ J) (pos * ?w + ?w) (pos * ?w) (length ?B) = Inr (?A @ X @ ?B)"
        using mem_move_up [OF J(1) lens(1)] by blast
      then show ?thesis
        using True MoveTail_eq [of ?r pos "pos + 1"] enc n len lens cAB
        by (intro exI [of _ X]) (simp add: add.commute)
    next
      case False
      then show ?thesis using i(2) n cAB J(1) by (intro exI [of _ J]) simp
    qed
    then obtain X where X: "length X = ?w" "(if pos < is_length ?r then intsetMoveTail ?r pos (pos + 1) else Inr ?r)
        = Inr (is\<lparr>contents := ?A @ X @ ?B\<rparr>)" by blast
    let ?us = "take pos vs @ v # drop pos vs"
    have "intset_Set (is\<lparr>contents := ?A @ X @ ?B\<rparr>) pos v = Inr (is\<lparr>contents := enc_list ?w ?us\<rparr>)"
      using enc mem_set_block [OF lens(1) X(1)] by (simp add: Set_eq)
    then have add: "intsetAdd junk is v = Inr (True, is\<lparr>contents := enc_list ?w ?us, is_length := length vs + 1\<rparr>)"
      using ve s(1) False X(2) J(2) n len by (simp add: intsetAdd_def Let_def)
    have "is_rep (is\<lparr>contents := enc_list ?w ?us, is_length := length vs + 1\<rparr>) ?us"
      using enc wid w sorted_insert [OF srt i(1)] i(2)
      by (auto simp: is_rep_def dest: in_set_takeD in_set_dropD)
    moreover have "set ?us = insert v (set vs)"
      by (metis append_take_drop_id insert_is_Un list.simps(15) set_append Un_left_commute)
    ultimately show ?thesis using add False fi by auto
  qed
qed

text \<open>
  The upgrade loop walks from the last element down, in a block that holds the first \<open>n\<close> elements
  still at the old width and all others already at the new one. No write touches an element that
  is still to be read.
\<close>

lemma upgrade_loop_spec:
  assumes enc: "encoding is \<in> {2, 4, 8}" "cur \<in> {2, 4, 8}" "cur \<le> encoding is"
    and n: "n \<le> length vs" and wid: "\<forall>v \<in> set vs. in_width cur v"
    and mem: "contents is = enc_list cur (take n vs) @ G @ H"
    and len: "length (enc_list cur (take n vs) @ G) = (n + pre) * encoding is"
  shows "\<exists>G'. length G' = pre * encoding is \<and>
    upgrade_loop cur pre n is = Inr (is\<lparr>contents := G' @ enc_list (encoding is) (take n vs) @ H\<rparr>)"
  using n mem len enc(1,3)
proof (induction n arbitrary: "is" G H)
  case 0
  then show ?case by (intro exI [of _ G]) simp
next
  case (Suc n)
  let ?w = "encoding is" and ?v = "vs ! n"
  let ?L = "enc_list cur (take (Suc n) vs) @ G"
  have n: "n < length vs" using Suc.prems(1) by simp
  have "intsetGetEncoded is (int n) cur = Inr (take (Suc n) vs ! n)"
    using n wid enc(2) unfolding GetEncoded_eq [OF enc(2)] Suc.prems(2)
    by (intro mem_get_enc_list) auto
  then have get: "intsetGetEncoded is (int n) cur = Inr ?v" by simp
  define M where "M = take ((n + pre) * ?w) ?L"
  have fit: "(n + pre) * ?w \<le> length ?L" using Suc.prems(3) by simp
  have lM: "length M = (n + pre) * ?w" using fit by (simp add: M_def)
  define D where "D = drop ((n + pre) * ?w) ?L"
  have "length D = ?w" using Suc.prems(3) by (simp add: D_def)
  moreover have "contents is = M @ D @ H"
    unfolding Suc.prems(2) M_def D_def by (simp only: append_assoc [symmetric] append_take_drop_id)
  ultimately have set: "intset_Set is (n + pre) ?v = Inr (is\<lparr>contents := M @ sle_enc ?w ?v @ H\<rparr>)"
    using mem_set_block [OF lM] Suc.prems(4) by (simp add: Set_eq)
  have "n * cur \<le> (n + pre) * ?w" using Suc.prems(5) by (intro mult_le_mono) simp_all
  then have "take (n * cur) M = take (n * cur) ?L" unfolding M_def take_take by (simp only: min_absorb1)
  also have "\<dots> = enc_list cur (take n vs)" using n by (simp add: take_Suc_conv_app_nth)
  finally have M: "M = enc_list cur (take n vs) @ drop (n * cur) M" by (metis append_take_drop_id)
  let ?is = "is\<lparr>contents := M @ sle_enc ?w ?v @ H\<rparr>"
  have "\<exists>G'. length G' = pre * encoding ?is \<and>
      upgrade_loop cur pre n ?is = Inr (?is\<lparr>contents := G' @ enc_list (encoding ?is) (take n vs) @ (sle_enc ?w ?v @ H)\<rparr>)"
  proof (rule Suc.IH)
    show "contents ?is = enc_list cur (take n vs) @ drop (n * cur) M @ sle_enc ?w ?v @ H"
      by (simp add: M [symmetric] flip: append_assoc)
    show "length (enc_list cur (take n vs) @ drop (n * cur) M) = (n + pre) * encoding ?is"
      using lM M by (metis intset.select_convs(1) intset.surjective intset.update_convs(3))
  qed (use n Suc.prems in auto)
  then show ?case
    using n by (simp add: get set take_Suc_conv_app_nth)
qed

lemma enc_less: "w \<in> {2, 4, 8} \<Longrightarrow> w' \<in> {2, 4, 8} \<Longrightarrow> w \<le> w' \<Longrightarrow> in_width w v \<Longrightarrow> in_width w' v"
  by (auto simp: in_width_def)

lemma ValueEncoding_widths: "intsetValueEncoding v \<in> {2, 4, 8}"
  by (simp add: intsetValueEncoding_def INTSET_ENC_INT64_def INTSET_ENC_INT32_def INTSET_ENC_INT16_def)

lemma add_wide:
  assumes rep: "is_rep is vs" and len: "(length vs + 1) * 8 < 2 ^ 31" and v8: "in_width 8 v"
    and w: "\<not> in_width (encoding is) v"
  shows "\<exists>is'. intsetAdd junk is v = Inr (v \<notin> set vs, is') \<and>
    (\<exists>us. is_rep is' us \<and> set us = insert v (set vs))"
proof -
  let ?cur = "encoding is" and ?new = "intsetValueEncoding v"
  have enc: "?cur \<in> {2, 4, 8}" and n: "is_length is = length vs" and c: "contents is = enc_list ?cur vs"
    and wid: "\<forall>x \<in> set vs. in_width ?cur x" and srt: "sorted_wrt (<) vs"
    using rep by (simp_all add: is_rep_def)
  have gt: "?new > ?cur" using width_iff [OF enc v8] w by simp
  have new: "?new \<in> {2, 4, 8}" by (rule ValueEncoding_widths)
  have wn: "in_width ?new v" using width_iff [OF new v8] by simp
  have out: "v \<notin> set vs" using wid w by auto
  let ?r0 = "is\<lparr>encoding := ?new\<rparr>" and ?pre = "(if v < 0 then 1 else 0) :: nat"
  have "(length vs + 1) * ?new \<le> (length vs + 1) * 8" using new by (intro mult_le_mono) auto
  then have small: "(length vs + 1) * ?new < 2 ^ 32" using len by simp
  have le: "length vs * ?cur \<le> length vs * ?new" using gt by simp
  define J where "J = map junk [length vs * ?cur..<(length vs + 1) * ?new]"
  have r: "intsetResize junk ?r0 (length vs + 1) = is\<lparr>encoding := ?new, contents := enc_list ?cur vs @ J\<rparr>"
  proof -
    have "length (enc_list ?cur vs) \<le> (length vs + 1) * ?new" using le unfolding length_enc_list distrib_right by linarith
    then have "take ((length vs + 1) * ?new) (enc_list ?cur vs) = enc_list ?cur vs" by (rule take_all)
    then show ?thesis using small c unfolding intsetResize_def Let_def J_def by simp
  qed
  let ?r = "is\<lparr>encoding := ?new, contents := enc_list ?cur vs @ J\<rparr>"
  have lJ: "length (enc_list ?cur vs @ J) = (length vs + 1) * ?new"
  proof -
    have "length J = (length vs + 1) * ?new - length vs * ?cur" by (simp add: J_def)
    then show ?thesis using le unfolding length_append length_enc_list distrib_right by linarith
  qed
  text \<open>The part of the block that the loop fills, and what is left behind it.\<close>
  define K where "K = (length vs + ?pre) * ?new - length vs * ?cur"
  have lK: "K \<le> length J" "length vs * ?cur + K = (length vs + ?pre) * ?new"
    using le lJ by (auto simp: K_def algebra_simps)
  obtain G where G: "length G = ?pre * ?new"
    "upgrade_loop ?cur ?pre (length vs) ?r = Inr (?r\<lparr>contents := G @ enc_list ?new vs @ drop K J\<rparr>)"
    using upgrade_loop_spec [of ?r ?cur "length vs" vs "take K J" "drop K J" ?pre] new enc gt wid lK by auto
  have lD: "length (drop K J) = (1 - ?pre) * ?new" using lJ lK by (auto simp: algebra_simps)
  let ?us = "if v < 0 then v # vs else vs @ [v]"
  have set: "(if ?pre = 1 then intset_Set (?r\<lparr>contents := G @ enc_list ?new vs @ drop K J\<rparr>) 0 v
      else intset_Set (?r\<lparr>contents := G @ enc_list ?new vs @ drop K J\<rparr>) (length vs) v)
      = Inr (?r\<lparr>contents := enc_list ?new ?us\<rparr>)"
  proof (cases "v < 0")
    case True
    then have "length G = ?new" "drop K J = []" using G(1) lD by auto
    then show ?thesis
      using True new mem_set_block [of "[]" 0 ?new G] by (simp add: Set_eq)
  next
    case False
    then have "G = []" "length (drop K J) = ?new" using G(1) lD by auto
    then show ?thesis
      using False new mem_set_block [of "enc_list ?new vs" "length vs" ?new "drop K J" "[]"] by (simp add: Set_eq)
  qed
  have add: "intsetAdd junk is v = Inr (v \<notin> set vs, ?r\<lparr>contents := enc_list ?new ?us, is_length := length vs + 1\<rparr>)"
    using gt G(2) set n r len out
    by (cases "v < 0") (simp_all add: intsetAdd_def intsetUpgradeAndAdd_def Let_def)
  have "sorted_wrt (<) ?us"
    using srt wid w by (fastforce simp: sorted_wrt_append in_width_def)
  moreover have "\<forall>x \<in> set ?us. in_width ?new x" using wid wn enc_less [OF enc new] gt by auto
  ultimately have rp: "is_rep (?r\<lparr>contents := enc_list ?new ?us, is_length := length vs + 1\<rparr>) ?us"
    using new by (simp add: is_rep_def)
  have us: "set ?us = insert v (set vs)" by auto
  show ?thesis by (intro exI conjI) (rule add, rule rp, rule us)
qed

lemma add_spec:
  assumes "is_rep is vs" and "(length vs + 1) * 8 < 2 ^ 31" and "in_width 8 v"
  shows "\<exists>is'. intsetAdd junk is v = Inr (v \<notin> set vs, is') \<and> (\<exists>us. is_rep is' us \<and> set us = insert v (set vs))"
  using add_narrow [OF assms(1,2)] add_wide [OF assms] by blast

lemma find_spec:
  assumes rep: "is_rep is vs" and len: "length vs < 2 ^ 31" and v8: "in_width 8 v"
  shows "intsetFind is v = Inr (v \<in> set vs)"
proof -
  have enc: "encoding is \<in> {2, 4, 8}" and wid: "\<forall>x \<in> set vs. in_width (encoding is) x"
    using rep by (simp_all add: is_rep_def)
  obtain found pos where s: "intsetSearch is v = Inr (found, pos)"
    "if found then pos < length vs \<and> vs ! pos = v else ins_at vs v pos"
    using intsetSearch_spec [OF rep len, of v] by auto
  show ?thesis
    using s(1) search_found_iff [OF s(2)] width_iff [OF enc v8] wid by (auto simp: intsetFind_def)
qed

lemma remove_spec:
  assumes rep: "is_rep is vs" and len: "length vs * 8 < 2 ^ 31" and v8: "in_width 8 v"
  shows "\<exists>is'. intsetRemove junk is v = Inr (v \<in> set vs, is') \<and> (\<exists>us. is_rep is' us \<and> set us = set vs - {v})"
proof -
  let ?w = "encoding is"
  have enc: "?w \<in> {2, 4, 8}" and n: "is_length is = length vs" and c: "contents is = enc_list ?w vs"
    and wid: "\<forall>x \<in> set vs. in_width ?w x" and srt: "sorted_wrt (<) vs"
    using rep by (simp_all add: is_rep_def)
  obtain found pos where s: "intsetSearch is v = Inr (found, pos)"
    "if found then pos < length vs \<and> vs ! pos = v else ins_at vs v pos"
    using intsetSearch_spec [OF rep, of v] len by auto
  note fi = search_found_iff [OF s(2)]
  show ?thesis
  proof (cases "found")
    case False
    then have "intsetRemove junk is v = Inr (False, is)" using s(1) by (simp add: intsetRemove_def)
    then show ?thesis using False fi rep by auto
  next
    case True
    then have pos: "pos < length vs" "vs ! pos = v" and mem: "v \<in> set vs" using s(2) fi by auto
    have ve: "intsetValueEncoding v \<le> ?w" using width_iff [OF enc v8] wid mem by simp
    let ?A = "enc_list ?w (take pos vs)" and ?B = "enc_list ?w (drop (Suc pos) vs)" and ?E = "sle_enc ?w v"
    let ?us = "take pos vs @ drop (Suc pos) vs"
    have cAB: "contents is = ?A @ ?E @ ?B" unfolding c using enc_list_split [OF pos(1)] pos(2) by simp
    have lens: "length ?A = pos * ?w" "length ?B = (length vs - (pos + 1)) * ?w" using pos(1) by simp_all
    have mv: "\<exists>Y. length Y = ?w \<and> (if pos < length vs - 1 then intsetMoveTail is (pos + 1) pos else Inr is)
        = Inr (is\<lparr>contents := ?A @ ?B @ Y\<rparr>)"
    proof (cases "pos < length vs - 1")
      case True
      obtain Y where "length Y = ?w" "mem_move (?A @ ?E @ ?B) (pos * ?w) (pos * ?w + ?w) (length ?B) = Inr (?A @ ?B @ Y)"
        using mem_move_down [OF lens(1), of ?E ?w ?B] by auto
      then show ?thesis
        using True MoveTail_eq [of "is" "pos + 1" pos] enc n len pos(1) lens(2) cAB
        by (intro exI [of _ Y]) (simp add: add.commute)
    next
      case False
      then have "drop (Suc pos) vs = []" using pos(1) by simp
      then show ?thesis using False cAB by (intro exI [of _ ?E]) simp
    qed
    then obtain Y where Y: "length Y = ?w"
      "(if pos < length vs - 1 then intsetMoveTail is (pos + 1) pos else Inr is) = Inr (is\<lparr>contents := ?A @ ?B @ Y\<rparr>)"
      by blast
    have l: "length (?A @ ?B) = (length vs - 1) * ?w" 
    proof -
      have "pos + (length vs - (pos + 1)) = length vs - 1" using pos(1) by simp
      then have "pos * ?w + (length vs - (pos + 1)) * ?w = (length vs - 1) * ?w"
        by (simp only: add_mult_distrib [symmetric])
      then show ?thesis unfolding length_append lens .
    qed
    have "(length vs - 1) * ?w \<le> length vs * 8" using enc by (intro mult_le_mono) auto
    then have "(length vs - 1) * ?w < 2 ^ 32" using len by simp
    moreover have "[length (?A @ ?B @ Y)..<(length vs - 1) * ?w] = []" using l by simp
    ultimately have rs: "intsetResize junk (is\<lparr>contents := ?A @ ?B @ Y\<rparr>) (length vs - 1) = is\<lparr>contents := ?A @ ?B\<rparr>"
      using l take_append_exact [OF l, of Y] by (simp add: intsetResize_def Let_def)
    have rem: "intsetRemove junk is v = Inr (v \<in> set vs, is\<lparr>contents := enc_list ?w ?us, is_length := length vs - 1\<rparr>)"
      using ve s(1) True Y(2) rs n mem by (simp add: intsetRemove_def Let_def)
    have vs: "vs = take pos vs @ v # drop (Suc pos) vs" using id_take_nth_drop [OF pos(1)] pos(2) by simp
    have srt': "sorted_wrt (<) (take pos vs @ v # drop (Suc pos) vs)" using srt by (simp only: vs [symmetric])
    then have "set ?us = set (take pos vs @ v # drop (Suc pos) vs) - {v}" by (auto simp: sorted_wrt_append)
    then have us: "set ?us = set vs - {v}" by (simp only: vs [symmetric])
    then have "\<forall>x \<in> set ?us. in_width ?w x" using wid by blast
    moreover have "sorted_wrt (<) ?us" using srt' unfolding sorted_wrt_append by simp
    ultimately have rp: "is_rep (is\<lparr>contents := enc_list ?w ?us, is_length := length vs - 1\<rparr>) ?us"
      using enc pos(1) unfolding is_rep_def by simp
    show ?thesis by (intro exI conjI) (rule rem, rule rp, rule us)
  qed
qed

section \<open>The contract of a set\<close>

lemma rep_card: "is_rep is vs \<Longrightarrow> card (elems is) = length vs"
  using rep_elems [of "is" vs] by (simp add: is_rep_def strict_sorted_iff distinct_card)

text \<open>A test leaves the block as it is.\<close>

definition intset_member :: "intset \<Rightarrow> int \<Rightarrow> (bool \<times> intset) cres" where
  "intset_member is value = cbind (intsetFind is value) (\<lambda>found. Inr (found, is))"

interpretation isi: set_impl intset_ok elems "in_width 8" "2 ^ 28 - 1" "intsetAdd junk" "intsetRemove junk" intset_member
  for junk
proof
  fix s :: intset and x
  assume ok: "intset_ok s"
  then obtain vs where vs: "is_rep s vs" "length vs * 8 < 2 ^ 31" by (auto simp: intset_ok_def)
  show "finite (elems s)" using rep_elems [OF vs(1)] by simp
  assume x: "in_width 8 x"
  show "\<exists>s'. intset_member s x = Inr (x \<in> elems s, s') \<and> intset_ok s' \<and> elems s' = elems s"
    using find_spec [OF vs(1) _ x] vs(2) rep_elems [OF vs(1)] ok by (simp add: intset_member_def)
  show "\<exists>s'. intsetRemove junk s x = Inr (x \<in> elems s, s') \<and> intset_ok s' \<and> elems s' = elems s - {x}"
  proof -
    obtain s' us where r: "intsetRemove junk s x = Inr (x \<in> set vs, s')" "is_rep s' us" "set us = set vs - {x}"
      using remove_spec [OF vs x] by blast
    have "length us \<le> length vs"
      using rep_card [OF r(2)] rep_card [OF vs(1)] rep_elems [OF r(2)] rep_elems [OF vs(1)] r(3)
      by (metis card_Diff1_le)
    then have "intset_ok s'" using r(2) vs(2) by (auto simp: intset_ok_def intro!: exI [of _ us])
    then show ?thesis using r rep_elems [OF vs(1)] rep_elems [OF r(2)] by auto
  qed
  assume room: "card (elems s) < 2 ^ 28 - 1"
  show "\<exists>s'. intsetAdd junk s x = Inr (x \<notin> elems s, s') \<and> intset_ok s' \<and> elems s' = insert x (elems s)"
  proof -
    have len: "(length vs + 1) * 8 < 2 ^ 31" using room rep_card [OF vs(1)] by simp
    obtain s' us where r: "intsetAdd junk s x = Inr (x \<notin> set vs, s')" "is_rep s' us" "set us = insert x (set vs)"
      using add_spec [OF vs(1) len x] by blast
    have "length us \<le> length vs + 1"
      using rep_card [OF r(2)] rep_card [OF vs(1)] rep_elems [OF r(2)] rep_elems [OF vs(1)] r(3)
      by (simp add: card_insert_if split: if_splits)
    then have "intset_ok s'" using r(2) len by (auto simp: intset_ok_def intro!: exI [of _ us])
    then show ?thesis using r rep_elems [OF vs(1)] rep_elems [OF r(2)] by auto
  qed
qed

section \<open>Properties\<close>

text \<open>C7: starting from \<open>intsetNew\<close>, any sequence of at most \<open>2\<^sup>2\<^sup>8 - 1\<close> additions, removals and
  look-ups of 64-bit integers behaves like the mathematical set: no step accesses memory outside
  the block, every answer is right, and the final block holds exactly the elements of the set,
  strictly sorted at a width that fits them all. This covers the in-place upgrade of the encoding,
  whatever \<open>zrealloc\<close> leaves in the new bytes.\<close>

theorem intset_is_set:
  assumes "\<forall>x \<in> set xs. - (2 ^ 63) \<le> op_arg x \<and> op_arg x < 2 ^ 63" and "length xs \<le> 2 ^ 28 - 1"
  shows "\<exists>is. run_ops (intsetAdd junk) (intsetRemove junk) intset_member xs intsetNew =
      Inr (fst (spec_ops xs {}), is) \<and> elems is = snd (spec_ops xs {}) \<and>
    (\<exists>vs. is_rep is vs \<and> set vs = snd (spec_ops xs {}))"
proof -
  have rep: "is_rep intsetNew []" by (simp add: is_rep_def intsetNew_def INTSET_ENC_INT16_def)
  then have e: "elems intsetNew = {}" and ok: "intset_ok intsetNew"
    using rep_elems [OF rep] by (auto simp: intset_ok_def)
  have "\<forall>x \<in> set xs. in_width 8 (op_arg x)" using assms(1) by (simp add: in_width_def)
  from isi.ops_refine [OF ok this, of junk] obtain "is" where i:
    "run_ops (intsetAdd junk) (intsetRemove junk) intset_member xs intsetNew = Inr (fst (spec_ops xs {}), is)"
    "intset_ok is" "elems is = snd (spec_ops xs {})" using assms(2) by (auto simp: e)
  then obtain vs where "is_rep is vs" by (auto simp: intset_ok_def)
  then show ?thesis using i rep_elems by metis
qed

theorem intset_is_set_witness:
  "\<exists>is. run_ops (intsetAdd (\<lambda>_. 0)) (intsetRemove (\<lambda>_. 0)) intset_member [Add 5, Add (-70000), Member 5, Remove 5] intsetNew
     = Inr ([True, True, True, True], is) \<and> elems is = {-70000}"
  using intset_is_set [of "[Add 5, Add (-70000), Member 5, Remove 5]" "\<lambda>_. 0"] by auto

end
