(* ===== verification/Map_Interface.thy ===== *)
theory Map_Interface
  imports Prelude
begin

text \<open>
  The contract of a mutable finite map: looking a key up, adding, replacing and deleting, on keys
  that count as equal when their normal forms are, below a capacity; and maintenance steps that
  change the representation only. What a client gets from the contract is proved once: every
  sequence of operations, with maintenance in between, gives the answers of a mathematical map.
\<close>

datatype ('k, 'v, 'm) map_op = Find 'k | Insert 'k 'v | Replace 'k 'v | Delete 'k | Maintain 'm

primrec op_key :: "('k, 'v, 'm) map_op \<Rightarrow> 'k option" where
  "op_key (Find k) = Some k" | "op_key (Insert k v) = Some k" | "op_key (Replace k v) = Some k"
| "op_key (Delete k) = Some k" | "op_key (Maintain m) = None"

datatype 'v map_answer = Found "'v option" | Changed bool | Done

text \<open>The operations of an implementation.\<close>

record ('s, 'k, 'v, 'm) map_ops =
  find_op :: "'s \<Rightarrow> 'k \<Rightarrow> ('v option \<times> 's) cres"
  insert_op :: "'s \<Rightarrow> 'k \<Rightarrow> 'v \<Rightarrow> (bool \<times> 's) cres"
  replace_op :: "'s \<Rightarrow> 'k \<Rightarrow> 'v \<Rightarrow> (bool \<times> 's) cres"
  delete_op :: "'s \<Rightarrow> 'k \<Rightarrow> (bool \<times> 's) cres"
  maintain_op :: "'s \<Rightarrow> 'm \<Rightarrow> 's cres"

primrec run_map_op :: "('s, 'k, 'v, 'm) map_ops \<Rightarrow> ('k, 'v, 'm) map_op \<Rightarrow> 's \<Rightarrow> ('v map_answer \<times> 's) cres" where
  "run_map_op I (Find k) s = cbind (find_op I s k) (\<lambda>(r, s). Inr (Found r, s))"
| "run_map_op I (Insert k v) s = cbind (insert_op I s k v) (\<lambda>(r, s). Inr (Changed r, s))"
| "run_map_op I (Replace k v) s = cbind (replace_op I s k v) (\<lambda>(r, s). Inr (Changed r, s))"
| "run_map_op I (Delete k) s = cbind (delete_op I s k) (\<lambda>(r, s). Inr (Changed r, s))"
| "run_map_op I (Maintain m) s = cbind (maintain_op I s m) (\<lambda>s. Inr (Done, s))"

primrec run_map_ops ::
  "('s, 'k, 'v, 'm) map_ops \<Rightarrow> ('k, 'v, 'm) map_op list \<Rightarrow> 's \<Rightarrow> ('v map_answer list \<times> 's) cres" where
  "run_map_ops I [] s = Inr ([], s)"
| "run_map_ops I (x # xs) s =
     cbind (run_map_op I x s) (\<lambda>(r, s). cbind (run_map_ops I xs s) (\<lambda>(rs, s). Inr (r # rs, s)))"

text \<open>The same operations on a mathematical map: an insertion does not overwrite, a replacement does.\<close>

primrec spec_map_op :: "('k \<Rightarrow> 'n) \<Rightarrow> ('k, 'v, 'm) map_op \<Rightarrow> ('n \<rightharpoonup> 'v) \<Rightarrow> 'v map_answer \<times> ('n \<rightharpoonup> 'v)" where
  "spec_map_op norm (Find k) m = (Found (m (norm k)), m)"
| "spec_map_op norm (Insert k v) m =
     (if m (norm k) = None then (Changed True, m(norm k \<mapsto> v)) else (Changed False, m))"
| "spec_map_op norm (Replace k v) m = (Changed (m (norm k) = None), m(norm k \<mapsto> v))"
| "spec_map_op norm (Delete k) m = (Changed (m (norm k) \<noteq> None), m(norm k := None))"
| "spec_map_op norm (Maintain x) m = (Done, m)"

primrec spec_map_ops ::
  "('k \<Rightarrow> 'n) \<Rightarrow> ('k, 'v, 'm) map_op list \<Rightarrow> ('n \<rightharpoonup> 'v) \<Rightarrow> 'v map_answer list \<times> ('n \<rightharpoonup> 'v)" where
  "spec_map_ops norm [] m = ([], m)"
| "spec_map_ops norm (x # xs) m =
     (case spec_map_op norm x m of (r, m) \<Rightarrow> case spec_map_ops norm xs m of (rs, m) \<Rightarrow> (r # rs, m))"

locale map_impl =
  fixes I :: "('s, 'k, 'v, 'm) map_ops" and inv :: "'s \<Rightarrow> bool" and abs :: "'s \<Rightarrow> 'n \<rightharpoonup> 'v"
    and norm :: "'k \<Rightarrow> 'n" and valid :: "'k \<Rightarrow> bool" and cap :: nat
  assumes finite_dom: "inv s \<Longrightarrow> finite (dom (abs s))"
    and find_ok: "inv s \<Longrightarrow> valid k \<Longrightarrow>
      \<exists>s'. find_op I s k = Inr (abs s (norm k), s') \<and> inv s' \<and> abs s' = abs s"
    and insert_ok: "inv s \<Longrightarrow> valid k \<Longrightarrow> card (dom (abs s)) < cap \<Longrightarrow>
      \<exists>s'. insert_op I s k v = Inr (abs s (norm k) = None, s') \<and> inv s' \<and>
        abs s' = (if abs s (norm k) = None then (abs s)(norm k \<mapsto> v) else abs s)"
    and replace_ok: "inv s \<Longrightarrow> valid k \<Longrightarrow> card (dom (abs s)) < cap \<Longrightarrow>
      \<exists>s'. replace_op I s k v = Inr (abs s (norm k) = None, s') \<and> inv s' \<and> abs s' = (abs s)(norm k \<mapsto> v)"
    and delete_ok: "inv s \<Longrightarrow> valid k \<Longrightarrow>
      \<exists>s'. delete_op I s k = Inr (abs s (norm k) \<noteq> None, s') \<and> inv s' \<and> abs s' = (abs s)(norm k := None)"
    and maintain_ok: "inv s \<Longrightarrow> \<exists>s'. maintain_op I s m = Inr s' \<and> inv s' \<and> abs s' = abs s"
begin

lemma card_upd: "finite (dom m) \<Longrightarrow> card (dom (m(k \<mapsto> v))) \<le> card (dom m) + 1"
  by (simp add: card_insert_if)

lemma card_del: "finite (dom m) \<Longrightarrow> card (dom (m(k := None))) \<le> card (dom m)"
  by (simp add: card_Diff1_le)

lemma op_ok:
  assumes "inv s" and "\<forall>k. op_key x = Some k \<longrightarrow> valid k" and "card (dom (abs s)) < cap"
  shows "\<exists>s'. run_map_op I x s = Inr (fst (spec_map_op norm x (abs s)), s') \<and> inv s' \<and>
    abs s' = snd (spec_map_op norm x (abs s)) \<and> card (dom (abs s')) \<le> card (dom (abs s)) + 1"
proof (cases x)
  case (Find k)
  then show ?thesis using find_ok [of s k] assms by auto
next
  case (Insert k v)
  then show ?thesis using insert_ok [of s k v] assms card_upd [OF finite_dom [OF assms(1)], of "norm k" v] by auto
next
  case (Replace k v)
  then show ?thesis using replace_ok [of s k v] assms card_upd [OF finite_dom [OF assms(1)], of "norm k" v] by auto
next
  case (Delete k)
  then show ?thesis using delete_ok [of s k] assms card_del [OF finite_dom [OF assms(1)], of "norm k"] by auto
next
  case (Maintain m)
  then show ?thesis using maintain_ok [of s m] assms by auto
qed

lemma ops_refine:
  assumes "inv s" and "\<forall>x \<in> set xs. \<forall>k. op_key x = Some k \<longrightarrow> valid k" and "card (dom (abs s)) + length xs \<le> cap"
  shows "\<exists>s'. run_map_ops I xs s = Inr (fst (spec_map_ops norm xs (abs s)), s') \<and> inv s' \<and>
    abs s' = snd (spec_map_ops norm xs (abs s))"
  using assms
proof (induction xs arbitrary: s)
  case (Cons x xs)
  obtain s1 where 1: "run_map_op I x s = Inr (fst (spec_map_op norm x (abs s)), s1)" "inv s1"
      "abs s1 = snd (spec_map_op norm x (abs s))" "card (dom (abs s1)) \<le> card (dom (abs s)) + 1"
    using op_ok [of s x] Cons.prems by auto
  obtain s2 where 2: "run_map_ops I xs s1 = Inr (fst (spec_map_ops norm xs (abs s1)), s2)" "inv s2"
      "abs s2 = snd (spec_map_ops norm xs (abs s1))"
    using Cons.IH [of s1] Cons.prems 1 by auto
  show ?case using 1 2 by (simp add: case_prod_beta)
qed simp

end

end
