(* ===== verification/Dict.thy ===== *)
theory Dict
  imports Map_Interface "HOL-Library.Multiset"
begin

text \<open>
  \<open>dict.c\<close>: the chained hash table with incremental rehashing behind the key space, the hash and
  set types and most tables of the server. A bucket is the list of its entries in chain order,
  an entry a key with a value; a null table is the empty list. During a rehash both tables are
  live, and every look-up or update moves buckets from the first to the second. Taking an element
  of a table outside its bounds is a fault, and so is the failure of the code's \<open>assert\<close>.

  The functions of a \<open>dictType\<close> are arguments; \<open>keyDup\<close> and \<open>valDup\<close> are null. What the code relies
  on is the locale \<open>dict_type\<close>: comparing keys is comparing a normal form, and keys with the same
  normal form have the same hash.
\<close>

section \<open>Data\<close>

record 'k dictType =
  hashFunction :: "'k \<Rightarrow> u64"
  keyCompare :: "'k \<Rightarrow> 'k \<Rightarrow> bool"

record ('k, 'v) dictEntry =
  de_key :: 'k
  de_val :: 'v

record ('k, 'v) dictht =
  table :: "('k, 'v) dictEntry list list"
  ht_size :: nat
  sizemask :: nat
  used :: nat

record ('k, 'v) dict =
  ht0 :: "('k, 'v) dictht"
  ht1 :: "('k, 'v) dictht"
  rehashidx :: int
  iterators :: nat

definition dictHashKey :: "'k dictType \<Rightarrow> 'k \<Rightarrow> nat" where
  "dictHashKey dt key = unat (hashFunction dt key)"

definition DICT_HT_INITIAL_SIZE :: nat where "DICT_HT_INITIAL_SIZE = 4"
definition dict_force_resize_ratio :: nat where "dict_force_resize_ratio = 5"

definition dictIsRehashing :: "('k, 'v) dict \<Rightarrow> bool" where
  "dictIsRehashing d \<longleftrightarrow> rehashidx d \<noteq> -1"

definition dictSize :: "('k, 'v) dict \<Rightarrow> nat" where
  "dictSize d = used (ht0 d) + used (ht1 d)"

definition dictSlots :: "('k, 'v) dict \<Rightarrow> nat" where
  "dictSlots d = ht_size (ht0 d) + ht_size (ht1 d)"

definition dec_ul :: "nat \<Rightarrow> nat" where
  "dec_ul n = (if n = 0 then 2 ^ 64 - 1 else n - 1)"

section \<open>Creating and resizing\<close>

definition dictReset :: "('k, 'v) dictht" where
  "dictReset = \<lparr> table = [], ht_size = 0, sizemask = 0, used = 0 \<rparr>"

definition dictCreate :: "('k, 'v) dict" where
  "dictCreate = \<lparr> ht0 = dictReset, ht1 = dictReset, rehashidx = -1, iterators = 0 \<rparr>"

definition LONG_MAX :: nat where "LONG_MAX = 2 ^ 63 - 1"

text \<open>The doubling loop starts from a positive number, so it ends.\<close>

function next_power_loop :: "nat \<Rightarrow> nat \<Rightarrow> nat" where
  "next_power_loop i sz = (if i \<ge> sz \<or> i = 0 then i else next_power_loop (i * 2) sz)"
  by auto
termination by (relation "measure (\<lambda>(i, sz). sz - i)") auto

declare next_power_loop.simps [simp del]

definition dictNextPower :: "nat \<Rightarrow> nat" where
  "dictNextPower sz =
     (if sz \<ge> LONG_MAX then LONG_MAX + 1 else next_power_loop DICT_HT_INITIAL_SIZE sz)"

definition dictExpand :: "('k, 'v) dict \<Rightarrow> nat \<Rightarrow> bool \<times> ('k, 'v) dict" where
  "dictExpand d sz =
     (if dictIsRehashing d \<or> used (ht0 d) > sz then (False, d)
      else let realsize = dictNextPower sz in
        if realsize = ht_size (ht0 d) then (False, d)
        else let n = \<lparr> table = replicate realsize [], ht_size = realsize, sizemask = realsize - 1, used = 0 \<rparr> in
          if table (ht0 d) = [] then (True, d\<lparr>ht0 := n\<rparr>)
          else (True, d\<lparr>ht1 := n, rehashidx := 0\<rparr>))"

text \<open>\<open>minimal\<close> is an \<open>int\<close>; the resizing of \<open>dictResize\<close> is modelled for tables of fewer than \<open>2\<^sup>3\<^sup>1\<close> entries.\<close>

definition dictResize :: "bool \<Rightarrow> ('k, 'v) dict \<Rightarrow> bool \<times> ('k, 'v) dict" where
  "dictResize dict_can_resize d =
     (if \<not> dict_can_resize \<or> dictIsRehashing d then (False, d)
      else let minimal = to_int32 (int (used (ht0 d)));
               minimal = (if minimal < int DICT_HT_INITIAL_SIZE then int DICT_HT_INITIAL_SIZE else minimal)
           in dictExpand d (nat minimal))"

definition dictExpandIfNeeded :: "bool \<Rightarrow> ('k, 'v) dict \<Rightarrow> bool \<times> ('k, 'v) dict" where
  "dictExpandIfNeeded dict_can_resize d =
     (if dictIsRehashing d then (True, d)
      else if ht_size (ht0 d) = 0 then dictExpand d DICT_HT_INITIAL_SIZE
      else if used (ht0 d) \<ge> ht_size (ht0 d) \<and>
          (dict_can_resize \<or> used (ht0 d) div ht_size (ht0 d) > dict_force_resize_ratio)
        then dictExpand d (used (ht0 d) * 2)
      else (True, d))"

section \<open>Incremental rehashing\<close>

text \<open>Moving one chain: each entry goes to the front of its bucket in the new table.\<close>

fun move_chain :: "'k dictType \<Rightarrow> ('k, 'v) dictEntry list \<Rightarrow> ('k, 'v) dict \<Rightarrow> ('k, 'v) dict cres" where
  "move_chain dt [] d = Inr d"
| "move_chain dt (de # ch) d =
     (let h = dictHashKey dt (de_key de) AND sizemask (ht1 d) in
      cbind (rd (table (ht1 d)) h) (\<lambda>b.
      cbind (wr (table (ht1 d)) h (de # b)) (\<lambda>t1.
      move_chain dt ch
        (d\<lparr>ht0 := (ht0 d)\<lparr>used := dec_ul (used (ht0 d))\<rparr>,
           ht1 := (ht1 d)\<lparr>table := t1, used := used (ht1 d) + 1\<rparr>\<rparr>))))"

text \<open>
  Skipping empty buckets: the new \<open>rehashidx\<close> and the visits left; \<open>None\<close> when the visits are
  used up and the function returns 1.
\<close>

function skip_empty :: "('k, 'v) dictEntry list list \<Rightarrow> nat \<Rightarrow> nat \<Rightarrow> (nat \<times> nat option) cres" where
  "skip_empty t idx empty_visits =
     cbind (rd t idx) (\<lambda>b.
       if b = [] then (if empty_visits - 1 = 0 then Inr (idx + 1, None) else skip_empty t (idx + 1) (empty_visits - 1))
       else Inr (idx, Some empty_visits))"
  by pat_completeness auto
termination by (relation "measure (\<lambda>(t, idx, e). length t - idx)") (auto simp: rd_eq_Inr_iff)

declare skip_empty.simps [simp del]

text \<open>The loop over \<open>n\<close> buckets: the flag says whether it was left by the early return.\<close>

fun rehash_loop :: "'k dictType \<Rightarrow> nat \<Rightarrow> nat \<Rightarrow> ('k, 'v) dict \<Rightarrow> (bool \<times> ('k, 'v) dict) cres" where
  "rehash_loop dt 0 empty_visits d = Inr (False, d)"
| "rehash_loop dt (Suc n) empty_visits d =
     (if used (ht0 d) = 0 then Inr (False, d)
      else if \<not> int (ht_size (ht0 d)) > rehashidx d then Inl AssertFailed
      else cbind (skip_empty (table (ht0 d)) (nat (rehashidx d)) empty_visits) (\<lambda>(idx, ev).
        case ev of
          None \<Rightarrow> Inr (True, d\<lparr>rehashidx := int idx\<rparr>)
        | Some ev \<Rightarrow>
            cbind (move_chain dt (table (ht0 d) ! idx) d) (\<lambda>d.
            cbind (wr (table (ht0 d)) idx []) (\<lambda>t0.
            rehash_loop dt n ev (d\<lparr>ht0 := (ht0 d)\<lparr>table := t0\<rparr>, rehashidx := int idx + 1\<rparr>)))))"

text \<open>
  The budget \<open>n*10\<close> of empty buckets is an \<open>int\<close> in the code and exact here: the program calls
  \<open>dictRehash\<close> with 1 (\<open>dictRehashStep\<close>) and 100 (\<open>dictRehashMilliseconds\<close>) only, and the product
  stays in range for every \<open>n\<close> below \<open>2^31 div 10\<close>.
\<close>

definition dictRehash :: "'k dictType \<Rightarrow> nat \<Rightarrow> ('k, 'v) dict \<Rightarrow> (bool \<times> ('k, 'v) dict) cres" where
  "dictRehash dt n d =
     (if \<not> dictIsRehashing d then Inr (False, d)
      else cbind (rehash_loop dt n (n * 10) d) (\<lambda>(early, d).
        if early then Inr (True, d)
        else if used (ht0 d) = 0 then Inr (False, d\<lparr>ht0 := ht1 d, ht1 := dictReset, rehashidx := -1\<rparr>)
        else Inr (True, d)))"

definition dictRehashStep :: "'k dictType \<Rightarrow> ('k, 'v) dict \<Rightarrow> ('k, 'v) dict cres" where
  "dictRehashStep dt d =
     (if iterators d = 0 then cbind (dictRehash dt 1 d) (\<lambda>(more, d). Inr d) else Inr d)"

text \<open>The clock decides how many rounds of 100 buckets are made: \<open>rounds\<close> is the number it allows.\<close>

fun dictRehashMilliseconds :: "'k dictType \<Rightarrow> nat \<Rightarrow> ('k, 'v) dict \<Rightarrow> (nat \<times> ('k, 'v) dict) cres" where
  "dictRehashMilliseconds dt 0 d = cbind (dictRehash dt 100 d) (\<lambda>(more, d). Inr (if more then 100 else 0, d))"
| "dictRehashMilliseconds dt (Suc rounds) d =
     cbind (dictRehash dt 100 d) (\<lambda>(more, d).
       if more then cbind (dictRehashMilliseconds dt rounds d) (\<lambda>(r, d). Inr (r + 100, d)) else Inr (0, d))"

section \<open>Looking up\<close>

definition step_if_rehashing :: "'k dictType \<Rightarrow> ('k, 'v) dict \<Rightarrow> ('k, 'v) dict cres" where
  "step_if_rehashing dt d = (if dictIsRehashing d then dictRehashStep dt d else Inr d)"

text \<open>The chain of a key in a table.\<close>

definition chain_of :: "'k dictType \<Rightarrow> 'k \<Rightarrow> ('k, 'v) dictht \<Rightarrow> ('k, 'v) dictEntry list cres" where
  "chain_of dt key h = rd (table h) (dictHashKey dt key AND sizemask h)"

definition dictFind :: "'k dictType \<Rightarrow> ('k, 'v) dict \<Rightarrow> 'k \<Rightarrow> (('k, 'v) dictEntry option \<times> ('k, 'v) dict) cres" where
  "dictFind dt d key =
     (if used (ht0 d) + used (ht1 d) = 0 then Inr (None, d)
      else cbind (step_if_rehashing dt d) (\<lambda>d.
        cbind (chain_of dt key (ht0 d)) (\<lambda>ch.
        case find (\<lambda>he. keyCompare dt key (de_key he)) ch of
          Some he \<Rightarrow> Inr (Some he, d)
        | None \<Rightarrow>
            if \<not> dictIsRehashing d then Inr (None, d)
            else cbind (chain_of dt key (ht1 d)) (\<lambda>ch.
                 Inr (find (\<lambda>he. keyCompare dt key (de_key he)) ch, d)))))"

definition dictFetchValue :: "'k dictType \<Rightarrow> ('k, 'v) dict \<Rightarrow> 'k \<Rightarrow> ('v option \<times> ('k, 'v) dict) cres" where
  "dictFetchValue dt d key = cbind (dictFind dt d key) (\<lambda>(he, d). Inr (map_option de_val he, d))"

section \<open>Adding\<close>

text \<open>
  Where a key is or goes: in which table, and either the position of the existing entry in its
  chain or none. An index of -1 with no entry means that the table could not be expanded.
\<close>

datatype key_index = Slot nat | Exists bool nat nat | NoSlot

fun pos_of :: "('a \<Rightarrow> bool) \<Rightarrow> 'a list \<Rightarrow> nat option" where
  "pos_of P [] = None"
| "pos_of P (x # xs) = (if P x then Some 0 else map_option Suc (pos_of P xs))"

definition dictKeyIndex :: "'k dictType \<Rightarrow> bool \<Rightarrow> ('k, 'v) dict \<Rightarrow> 'k \<Rightarrow> (key_index \<times> ('k, 'v) dict) cres" where
  "dictKeyIndex dt can_resize d key =
     (case dictExpandIfNeeded can_resize d of
        (False, d) \<Rightarrow> Inr (NoSlot, d)
      | (True, d) \<Rightarrow>
          let idx0 = dictHashKey dt key AND sizemask (ht0 d) in
          cbind (rd (table (ht0 d)) idx0) (\<lambda>ch.
          case pos_of (\<lambda>he. keyCompare dt key (de_key he)) ch of
            Some j \<Rightarrow> Inr (Exists False idx0 j, d)
          | None \<Rightarrow>
              if \<not> dictIsRehashing d then Inr (Slot idx0, d)
              else let idx1 = dictHashKey dt key AND sizemask (ht1 d) in
                cbind (rd (table (ht1 d)) idx1) (\<lambda>ch.
                case pos_of (\<lambda>he. keyCompare dt key (de_key he)) ch of
                  Some j \<Rightarrow> Inr (Exists True idx1 j, d)
                | None \<Rightarrow> Inr (Slot idx1, d))))"

text \<open>\<open>push_entry\<close> links a new entry in front of a bucket.\<close>

definition push_entry :: "('k, 'v) dictEntry \<Rightarrow> nat \<Rightarrow> ('k, 'v) dictht \<Rightarrow> ('k, 'v) dictht cres" where
  "push_entry de index h =
     cbind (rd (table h) index) (\<lambda>ch. cbind (wr (table h) index (de # ch)) (\<lambda>t.
     Inr (h\<lparr>table := t, used := used h + 1\<rparr>)))"

text \<open>
  \<open>dictAddRaw\<close> with the value that the caller stores in the new entry right away; the result is
  the place of an existing entry, or that the key was added.
\<close>

datatype add_result = Added | Existing bool nat nat | Failed

definition dictAddRaw ::
  "'k dictType \<Rightarrow> bool \<Rightarrow> ('k, 'v) dict \<Rightarrow> 'k \<Rightarrow> 'v \<Rightarrow> (add_result \<times> ('k, 'v) dict) cres" where
  "dictAddRaw dt can_resize d key val =
     cbind (step_if_rehashing dt d) (\<lambda>d.
     cbind (dictKeyIndex dt can_resize d key) (\<lambda>(i, d).
     case i of
       NoSlot \<Rightarrow> Inr (Failed, d)
     | Exists t idx j \<Rightarrow> Inr (Existing t idx j, d)
     | Slot index \<Rightarrow>
         if dictIsRehashing d
         then cbind (push_entry \<lparr> de_key = key, de_val = val \<rparr> index (ht1 d)) (\<lambda>h. Inr (Added, d\<lparr>ht1 := h\<rparr>))
         else cbind (push_entry \<lparr> de_key = key, de_val = val \<rparr> index (ht0 d)) (\<lambda>h. Inr (Added, d\<lparr>ht0 := h\<rparr>))))"

definition dictAdd :: "'k dictType \<Rightarrow> bool \<Rightarrow> ('k, 'v) dict \<Rightarrow> 'k \<Rightarrow> 'v \<Rightarrow> (bool \<times> ('k, 'v) dict) cres" where
  "dictAdd dt can_resize d key val =
     cbind (dictAddRaw dt can_resize d key val) (\<lambda>(r, d). Inr (r = Added, d))"

text \<open>\<open>dictSetVal\<close> on the entry at a place.\<close>

definition set_val_at :: "nat \<Rightarrow> nat \<Rightarrow> 'v \<Rightarrow> ('k, 'v) dictht \<Rightarrow> ('k, 'v) dictht cres" where
  "set_val_at idx j val h =
     cbind (rd (table h) idx) (\<lambda>ch. cbind (rd ch j) (\<lambda>de. cbind (wr ch j (de\<lparr>de_val := val\<rparr>)) (\<lambda>ch.
     cbind (wr (table h) idx ch) (\<lambda>t. Inr (h\<lparr>table := t\<rparr>)))))"

definition dictReplace :: "'k dictType \<Rightarrow> bool \<Rightarrow> ('k, 'v) dict \<Rightarrow> 'k \<Rightarrow> 'v \<Rightarrow> (bool \<times> ('k, 'v) dict) cres" where
  "dictReplace dt can_resize d key val =
     cbind (dictAddRaw dt can_resize d key val) (\<lambda>(r, d).
       case r of
         Added \<Rightarrow> Inr (True, d)
       | Existing t idx j \<Rightarrow>
           if t then cbind (set_val_at idx j val (ht1 d)) (\<lambda>h. Inr (False, d\<lparr>ht1 := h\<rparr>))
           else cbind (set_val_at idx j val (ht0 d)) (\<lambda>h. Inr (False, d\<lparr>ht0 := h\<rparr>))
       | Failed \<Rightarrow> Inl NullDeref)"

section \<open>Deleting\<close>

text \<open>Unlinking the first matching entry of the key's chain in one table.\<close>

fun unlink :: "('a \<Rightarrow> bool) \<Rightarrow> 'a list \<Rightarrow> 'a list" where
  "unlink P [] = []"
| "unlink P (x # xs) = (if P x then xs else x # unlink P xs)"

definition delete_in ::
  "'k dictType \<Rightarrow> 'k \<Rightarrow> ('k, 'v) dictht \<Rightarrow> (('k, 'v) dictEntry option \<times> ('k, 'v) dictht) cres" where
  "delete_in dt key h =
     (let idx = dictHashKey dt key AND sizemask h in
      cbind (rd (table h) idx) (\<lambda>ch.
        case find (\<lambda>he. keyCompare dt key (de_key he)) ch of
          None \<Rightarrow> Inr (None, h)
        | Some he \<Rightarrow>
            cbind (wr (table h) idx (unlink (\<lambda>he. keyCompare dt key (de_key he)) ch)) (\<lambda>t.
            Inr (Some he, h\<lparr>table := t, used := dec_ul (used h)\<rparr>))))"

definition dictGenericDelete ::
  "'k dictType \<Rightarrow> ('k, 'v) dict \<Rightarrow> 'k \<Rightarrow> (('k, 'v) dictEntry option \<times> ('k, 'v) dict) cres" where
  "dictGenericDelete dt d key =
     (if used (ht0 d) = 0 \<and> used (ht1 d) = 0 then Inr (None, d)
      else cbind (step_if_rehashing dt d) (\<lambda>d.
        cbind (delete_in dt key (ht0 d)) (\<lambda>(he, h).
        case he of
          Some he \<Rightarrow> Inr (Some he, d\<lparr>ht0 := h\<rparr>)
        | None \<Rightarrow>
            if \<not> dictIsRehashing d then Inr (None, d)
            else cbind (delete_in dt key (ht1 d)) (\<lambda>(he, h).
              case he of Some he \<Rightarrow> Inr (Some he, d\<lparr>ht1 := h\<rparr>) | None \<Rightarrow> Inr (None, d)))))"

definition dictDelete :: "'k dictType \<Rightarrow> ('k, 'v) dict \<Rightarrow> 'k \<Rightarrow> (bool \<times> ('k, 'v) dict) cres" where
  "dictDelete dt d key = cbind (dictGenericDelete dt d key) (\<lambda>(he, d). Inr (he \<noteq> None, d))"

definition dictUnlink ::
  "'k dictType \<Rightarrow> ('k, 'v) dict \<Rightarrow> 'k \<Rightarrow> (('k, 'v) dictEntry option \<times> ('k, 'v) dict) cres" where
  "dictUnlink dt d key = dictGenericDelete dt d key"

text \<open>
  Clearing a table: the entries handed to the destructors, bucket by bucket as long as the counter
  says that some are left, and the reset table.
\<close>

fun clear_loop :: "('k, 'v) dictEntry list list \<Rightarrow> nat \<Rightarrow> ('k, 'v) dictEntry list" where
  "clear_loop [] u = []"
| "clear_loop (b # bs) u = (if u > 0 then b @ clear_loop bs (u - length b) else [])"

definition dictClear :: "('k, 'v) dictht \<Rightarrow> ('k, 'v) dictEntry list \<times> ('k, 'v) dictht" where
  "dictClear h = (clear_loop (take (ht_size h) (table h)) (used h), dictReset)"

definition dictEmpty :: "('k, 'v) dict \<Rightarrow> ('k, 'v) dictEntry list \<times> ('k, 'v) dict" where
  "dictEmpty d =
     (case dictClear (ht0 d) of (f0, h0) \<Rightarrow> case dictClear (ht1 d) of (f1, h1) \<Rightarrow>
      (f0 @ f1, d\<lparr>ht0 := h0, ht1 := h1, rehashidx := -1, iterators := 0\<rparr>))"

definition dictRelease :: "('k, 'v) dict \<Rightarrow> ('k, 'v) dictEntry list" where
  "dictRelease d = fst (dictClear (ht0 d)) @ fst (dictClear (ht1 d))"

text \<open>The switch for resizing, a global of the module, with a dictionary.\<close>

record ('k, 'v) dict_sys =
  dict_can_resize :: bool
  dict_of :: "('k, 'v) dict"

definition dictEnableResize :: "('k, 'v) dict_sys \<Rightarrow> ('k, 'v) dict_sys" where
  "dictEnableResize s = s\<lparr>dict_can_resize := True\<rparr>"

definition dictDisableResize :: "('k, 'v) dict_sys \<Rightarrow> ('k, 'v) dict_sys" where
  "dictDisableResize s = s\<lparr>dict_can_resize := False\<rparr>"

text \<open>The steps that the server interleaves with the operations, none of which changes the contents.\<close>

datatype dict_maint = EnableResize | DisableResize | Resize | Rehash nat | RehashMs nat | NewIterator | FreeIterator

definition dict_maintain :: "'k dictType \<Rightarrow> ('k, 'v) dict_sys \<Rightarrow> dict_maint \<Rightarrow> ('k, 'v) dict_sys cres" where
  "dict_maintain dt s m =
     (case m of
        EnableResize \<Rightarrow> Inr (dictEnableResize s)
      | DisableResize \<Rightarrow> Inr (dictDisableResize s)
      | Resize \<Rightarrow> Inr (s\<lparr>dict_of := snd (dictResize (dict_can_resize s) (dict_of s))\<rparr>)
      | Rehash n \<Rightarrow> cbind (dictRehash dt n (dict_of s)) (\<lambda>(more, d). Inr (s\<lparr>dict_of := d\<rparr>))
      | RehashMs rounds \<Rightarrow> cbind (dictRehashMilliseconds dt rounds (dict_of s)) (\<lambda>(r, d). Inr (s\<lparr>dict_of := d\<rparr>))
      | NewIterator \<Rightarrow> Inr (s\<lparr>dict_of := (dict_of s)\<lparr>iterators := iterators (dict_of s) + 1\<rparr>\<rparr>)
      | FreeIterator \<Rightarrow> Inr (s\<lparr>dict_of := (dict_of s)\<lparr>iterators := dec_ul (iterators (dict_of s))\<rparr>\<rparr>))"

definition dict_ops :: "'k dictType \<Rightarrow> (('k, 'v) dict_sys, 'k, 'v, dict_maint) map_ops" where
  "dict_ops dt =
     \<lparr> find_op = (\<lambda>s k. cbind (dictFetchValue dt (dict_of s) k) (\<lambda>(r, d). Inr (r, s\<lparr>dict_of := d\<rparr>))),
       insert_op = (\<lambda>s k v. cbind (dictAdd dt (dict_can_resize s) (dict_of s) k v) (\<lambda>(r, d). Inr (r, s\<lparr>dict_of := d\<rparr>))),
       replace_op = (\<lambda>s k v. cbind (dictReplace dt (dict_can_resize s) (dict_of s) k v) (\<lambda>(r, d). Inr (r, s\<lparr>dict_of := d\<rparr>))),
       delete_op = (\<lambda>s k. cbind (dictDelete dt (dict_of s) k) (\<lambda>(r, d). Inr (r, s\<lparr>dict_of := d\<rparr>))),
       maintain_op = dict_maintain dt \<rparr>"

section \<open>Well-formed dictionaries\<close>

definition ht_entries :: "('k, 'v) dictht \<Rightarrow> ('k, 'v) dictEntry multiset" where
  "ht_entries h = mset (concat (table h))"

definition entries :: "('k, 'v) dict \<Rightarrow> ('k, 'v) dictEntry multiset" where
  "entries d = ht_entries (ht0 d) + ht_entries (ht1 d)"

text \<open>A live table: a power of two of buckets, each entry in the bucket of its hash, all counted.\<close>

definition ht_live :: "'k dictType \<Rightarrow> ('k, 'v) dictht \<Rightarrow> bool" where
  "ht_live dt h \<longleftrightarrow> (\<exists>k \<ge> 2. k \<le> 63 \<and> ht_size h = 2 ^ k) \<and> sizemask h = ht_size h - 1 \<and> length (table h) = ht_size h \<and>
     used h = size (ht_entries h) \<and>
     (\<forall>i < ht_size h. \<forall>e \<in> set (table h ! i). dictHashKey dt (de_key e) AND sizemask h = i)"

definition uniq :: "('k \<Rightarrow> 'n) \<Rightarrow> ('k, 'v) dictEntry multiset \<Rightarrow> bool" where
  "uniq norm M \<longleftrightarrow> (\<forall>k. size {#e \<in># M. norm (de_key e) = k#} \<le> 1)"

definition dict_wf :: "'k dictType \<Rightarrow> ('k \<Rightarrow> 'n) \<Rightarrow> ('k, 'v) dict \<Rightarrow> bool" where
  "dict_wf dt norm d \<longleftrightarrow>
     (if dictIsRehashing d
      then ht_live dt (ht0 d) \<and> ht_live dt (ht1 d) \<and> 0 \<le> rehashidx d \<and> rehashidx d \<le> int (ht_size (ht0 d)) \<and>
           (\<forall>i < nat (rehashidx d). i < length (table (ht0 d)) \<longrightarrow> table (ht0 d) ! i = [])
      else (ht0 d = dictReset \<or> ht_live dt (ht0 d)) \<and> ht1 d = dictReset) \<and>
     uniq norm (entries d)"

text \<open>The finite map a dictionary stands for, on normal forms of keys.\<close>

definition dict_map :: "('k \<Rightarrow> 'n) \<Rightarrow> ('k, 'v) dict \<Rightarrow> 'n \<rightharpoonup> 'v" where
  "dict_map norm d k =
     map_option de_val (find (\<lambda>e. norm (de_key e) = k) (concat (table (ht0 d)) @ concat (table (ht1 d))))"

lemma and_mask_less: "x AND (2 ^ k - 1) < (2 ^ k :: nat)"
proof -
  have "x AND (2 ^ k - 1) = take_bit k x" by (simp add: take_bit_eq_mask mask_eq_exp_minus_1)
  then show ?thesis by (simp add: take_bit_nat_less_exp)
qed

lemma live_index: "ht_live dt h \<Longrightarrow> x AND sizemask h < length (table h)"
  using and_mask_less by (auto simp: ht_live_def)

lemma live_nonempty: "ht_live dt h \<Longrightarrow> table h \<noteq> []"
  by (auto simp: ht_live_def)

lemma live_chain:
  "ht_live dt h \<Longrightarrow> i < length (table h) \<Longrightarrow> e \<in> set (table h ! i) \<Longrightarrow> dictHashKey dt (de_key e) AND sizemask h = i"
  unfolding ht_live_def by metis

lemma in_ht_entries: "e \<in># ht_entries h \<longleftrightarrow> (\<exists>i < length (table h). e \<in> set (table h ! i))"
proof -
  have "e \<in># ht_entries h \<longleftrightarrow> (\<exists>b \<in> set (table h). e \<in> set b)" by (simp add: ht_entries_def)
  then show ?thesis by (metis in_set_conv_nth nth_mem)
qed

lemma mset_concat_update:
  assumes "i < length t"
  shows "mset (concat (t[i := c])) + mset (t ! i) = mset (concat t) + mset c"
proof -
  have "mset (concat t) = mset (concat (take i t)) + mset (t ! i) + mset (concat (drop (Suc i) t))"
    by (subst id_take_nth_drop [OF assms]) simp
  moreover have "mset (concat (t[i := c])) = mset (concat (take i t)) + mset c + mset (concat (drop (Suc i) t))"
    using assms by (simp add: upd_conv_take_nth_drop)
  ultimately show ?thesis by simp
qed

lemma chain_subset: "i < length t \<Longrightarrow> mset (t ! i) \<subseteq># mset (concat t)"
  using mset_concat_update [of i t "[]"] by (metis add.right_neutral mset.simps(1) mset_subset_eq_add_right)

text \<open>Replacing one chain by a chain of entries with the same bucket keeps a table live.\<close>

lemma live_update:
  assumes live: "ht_live dt h" and i: "i < length (table h)"
    and ok: "\<forall>e \<in> set c. dictHashKey dt (de_key e) AND sizemask h = i"
    and u: "u + length (table h ! i) = used h + length c"
  shows "ht_live dt (h\<lparr>table := (table h)[i := c], used := u\<rparr>)"
    "ht_entries (h\<lparr>table := (table h)[i := c], used := u\<rparr>) + mset (table h ! i) = ht_entries h + mset c"
proof -
  let ?h = "h\<lparr>table := (table h)[i := c], used := u\<rparr>"
  show eq: "ht_entries ?h + mset (table h ! i) = ht_entries h + mset c"
    using mset_concat_update [OF i] by (simp add: ht_entries_def)
  then have "size (ht_entries ?h) + length (table h ! i) = size (ht_entries h) + length c"
    by (metis size_mset size_union)
  moreover have "used h = size (ht_entries h)" using live by (simp add: ht_live_def)
  ultimately have "u = size (ht_entries ?h)" using u by simp
  moreover have "\<forall>j < ht_size h. \<forall>e \<in> set ((table h)[i := c] ! j). dictHashKey dt (de_key e) AND sizemask h = j"
  proof (intro allI impI ballI)
    fix j e
    assume j: "j < ht_size h" and e: "e \<in> set ((table h)[i := c] ! j)"
    then have "j < length (table h)" using live by (simp add: ht_live_def)
    then show "dictHashKey dt (de_key e) AND sizemask h = j"
      using e ok i live_chain [OF live, of j e] by (cases "j = i") simp_all
  qed
  ultimately show "ht_live dt ?h" using live unfolding ht_live_def by simp
qed

lemma live_push:
  assumes live: "ht_live dt h" and i: "i = dictHashKey dt (de_key e) AND sizemask h"
  shows "\<exists>h'. push_entry e i h = Inr h' \<and> ht_live dt h' \<and> ht_entries h' = add_mset e (ht_entries h)"
proof -
  let ?c = "e # table h ! i" and ?h = "h\<lparr>table := (table h)[i := e # table h ! i], used := used h + 1\<rparr>"
  have il: "i < length (table h)" using live_index [OF live] i by simp
  have "push_entry e i h = Inr ?h" using il by (simp add: push_entry_def)
  moreover have "\<forall>x \<in> set ?c. dictHashKey dt (de_key x) AND sizemask h = i"
    using live_chain [OF live il] i by auto
  moreover have "(used h + 1) + length (table h ! i) = used h + length ?c" by simp
  ultimately show ?thesis
    using live_update [OF live il, of ?c "used h + 1"] by auto
qed

section \<open>Rehashing keeps the entries\<close>

lemma move_chain_ok:
  assumes "ht_live dt (ht1 d)" and "length ch \<le> used (ht0 d)"
  shows "\<exists>d'. move_chain dt ch d = Inr d' \<and> ht_live dt (ht1 d') \<and> ht_entries (ht1 d') = ht_entries (ht1 d) + mset ch \<and>
    ht0 d' = (ht0 d)\<lparr>used := used (ht0 d) - length ch\<rparr> \<and> rehashidx d' = rehashidx d \<and> iterators d' = iterators d"
  using assms
proof (induction ch arbitrary: d)
  case Nil
  then show ?case by simp
next
  case (Cons e ch)
  let ?i = "dictHashKey dt (de_key e) AND sizemask (ht1 d)"
  obtain h where h: "push_entry e ?i (ht1 d) = Inr h" "ht_live dt h" "ht_entries h = add_mset e (ht_entries (ht1 d))"
    using live_push [OF Cons.prems(1)] by blast
  let ?d = "d\<lparr>ht0 := (ht0 d)\<lparr>used := dec_ul (used (ht0 d))\<rparr>, ht1 := h\<rparr>"
  have "move_chain dt (e # ch) d = move_chain dt ch ?d"
    using h(1) by (auto simp: push_entry_def Let_def cbind_eq_Inr_iff)
  moreover have "length ch \<le> used (ht0 ?d)" "dec_ul (used (ht0 d)) = used (ht0 d) - 1"
    using Cons.prems(2) by (simp_all add: dec_ul_def)
  ultimately show ?case using Cons.IH [of ?d] h by simp
qed

lemma skip_empty_ok:
  assumes "j < length t" and "t ! j \<noteq> []" and "idx \<le> j" and "0 < ev"
  shows "\<exists>idx' ev'. skip_empty t idx ev = Inr (idx', ev') \<and> idx \<le> idx' \<and> idx' \<le> j \<and>
    (\<forall>i. idx \<le> i \<and> i < idx' \<longrightarrow> t ! i = []) \<and>
    (case ev' of None \<Rightarrow> idx < idx' | Some e \<Rightarrow> 0 < e \<and> t ! idx' \<noteq> [])"
  using assms
proof (induction "length t - idx" arbitrary: idx ev)
  case 0
  then show ?case by simp
next
  case (Suc n)
  have idx: "idx < length t" using Suc.prems by simp
  show ?case
  proof (cases "t ! idx = []")
    case True
    then have lt: "idx + 1 \<le> j" using Suc.prems by (metis Suc_eq_plus1 Suc_leI le_neq_implies_less)
    show ?thesis
    proof (cases "ev - 1 = 0")
      case last: True
      then have "skip_empty t idx ev = Inr (idx + 1, None)"
        using True idx by (subst skip_empty.simps) simp
      then show ?thesis using lt True by (auto simp: less_Suc_eq_le dest: le_antisym)
    next
      case more: False
      then have eq: "skip_empty t idx ev = skip_empty t (idx + 1) (ev - 1)"
        using True idx by (subst skip_empty.simps) simp
      have n: "n = length t - (idx + 1)" and more0: "0 < ev - 1" using Suc.hyps(2) more by simp_all
      obtain idx' ev' where r: "skip_empty t (idx + 1) (ev - 1) = Inr (idx', ev')" "idx + 1 \<le> idx'" "idx' \<le> j"
        "\<forall>i. idx + 1 \<le> i \<and> i < idx' \<longrightarrow> t ! i = []" "case ev' of None \<Rightarrow> idx + 1 < idx' | Some e \<Rightarrow> 0 < e \<and> t ! idx' \<noteq> []"
        using Suc.hyps(1) [of "idx + 1" "ev - 1"] n Suc.prems(1,2) lt more0 by blast
      have "t ! i = []" if "idx \<le> i" "i < idx'" for i
        using that r(4) True by (cases "i = idx") auto
      with eq r show ?thesis by (auto split: option.splits)
    qed
  next
    case False
    then have "skip_empty t idx ev = Inr (idx, Some ev)" using idx by (subst skip_empty.simps) simp
    with False Suc.prems show ?thesis by auto
  qed
qed

text \<open>The state in the middle of a rehash; the number of entries left bounds nothing else.\<close>

definition rehashing_ok :: "'k dictType \<Rightarrow> ('k, 'v) dict \<Rightarrow> bool" where
  "rehashing_ok dt d \<longleftrightarrow> ht_live dt (ht0 d) \<and> ht_live dt (ht1 d) \<and> 0 \<le> rehashidx d \<and> rehashidx d \<le> int (ht_size (ht0 d)) \<and>
     (\<forall>i < nat (rehashidx d). i < length (table (ht0 d)) \<longrightarrow> table (ht0 d) ! i = [])"

lemma used_bucket:
  assumes "rehashing_ok dt d" and "used (ht0 d) \<noteq> 0"
  obtains j where "j < length (table (ht0 d))" "table (ht0 d) ! j \<noteq> []" "nat (rehashidx d) \<le> j"
proof -
  have "size (ht_entries (ht0 d)) \<noteq> 0" using assms by (simp add: rehashing_ok_def ht_live_def)
  then have "concat (table (ht0 d)) \<noteq> []" by (simp add: ht_entries_def)
  then obtain b where "b \<in> set (table (ht0 d))" "b \<noteq> []" by (auto simp: concat_eq_Nil_conv)
  then obtain j where j: "j < length (table (ht0 d))" "table (ht0 d) ! j \<noteq> []" by (auto simp: in_set_conv_nth)
  with assms(1) have "nat (rehashidx d) \<le> j" unfolding rehashing_ok_def by (meson not_le)
  with j that show thesis by blast
qed


lemma live_clear_bucket:
  assumes live: "ht_live dt h" and i: "i < length (table h)"
  shows "length (table h ! i) \<le> used h"
    "ht_live dt (h\<lparr>table := (table h)[i := []], used := used h - length (table h ! i)\<rparr>)"
    "ht_entries (h\<lparr>table := (table h)[i := []], used := used h - length (table h ! i)\<rparr>) + mset (table h ! i) = ht_entries h"
proof -
  have "mset (table h ! i) \<subseteq># ht_entries h" unfolding ht_entries_def by (rule chain_subset [OF i])
  then show le: "length (table h ! i) \<le> used h"
    using live unfolding ht_live_def by (metis size_mset size_mset_mono)
  show "ht_live dt (h\<lparr>table := (table h)[i := []], used := used h - length (table h ! i)\<rparr>)"
    "ht_entries (h\<lparr>table := (table h)[i := []], used := used h - length (table h ! i)\<rparr>) + mset (table h ! i) = ht_entries h"
    using live_update [OF live i, of "[]" "used h - length (table h ! i)"] le by simp_all
qed

text \<open>One bucket: the state after a non-empty bucket was found and moved.\<close>

lemma move_bucket_ok:
  assumes ok: "rehashing_ok dt d" and idx: "idx < length (table (ht0 d))"
    and skipped: "\<forall>i. nat (rehashidx d) \<le> i \<and> i < idx \<longrightarrow> table (ht0 d) ! i = []"
  shows "\<exists>d1. move_chain dt (table (ht0 d) ! idx) d = Inr d1 \<and> table (ht0 d1) = table (ht0 d) \<and>
    (let d2 = d1\<lparr>ht0 := (ht0 d1)\<lparr>table := (table (ht0 d1))[idx := []]\<rparr>, rehashidx := int idx + 1\<rparr> in
       rehashing_ok dt d2 \<and> entries d2 = entries d \<and> iterators d2 = iterators d)"
proof -
  let ?ch = "table (ht0 d) ! idx"
  have live0: "ht_live dt (ht0 d)" and live1: "ht_live dt (ht1 d)"
    and empty: "\<And>i. i < nat (rehashidx d) \<Longrightarrow> i < length (table (ht0 d)) \<Longrightarrow> table (ht0 d) ! i = []"
    using ok unfolding rehashing_ok_def by auto
  note clear = live_clear_bucket [OF live0 idx]
  obtain d1 where d1: "move_chain dt ?ch d = Inr d1" "ht_live dt (ht1 d1)"
      "ht_entries (ht1 d1) = ht_entries (ht1 d) + mset ?ch"
      "ht0 d1 = (ht0 d)\<lparr>used := used (ht0 d) - length ?ch\<rparr>" "iterators d1 = iterators d"
    using move_chain_ok [OF live1 clear(1)] by blast
  let ?d = "d1\<lparr>ht0 := (ht0 d1)\<lparr>table := (table (ht0 d1))[idx := []]\<rparr>, rehashidx := int idx + 1\<rparr>"
  have h0: "ht0 ?d = (ht0 d)\<lparr>table := (table (ht0 d))[idx := []], used := used (ht0 d) - length ?ch\<rparr>"
    using d1(4) by simp
  have "table (ht0 ?d) ! i = []" if "i < idx + 1" "i < length (table (ht0 d))" for i
    using that empty skipped h0 by (cases "i = idx"; cases "i < nat (rehashidx d)") auto
  then have "\<forall>i < nat (rehashidx ?d). i < length (table (ht0 ?d)) \<longrightarrow> table (ht0 ?d) ! i = []"
    using h0 by (simp add: nat_add_distrib)
  moreover have "entries ?d = entries d"
    using clear(3) d1(3) unfolding entries_def h0 by (simp add: ac_simps)
  moreover have "ht_live dt (ht0 ?d)" unfolding h0 by (rule clear(2))
  moreover have "int idx + 1 \<le> int (ht_size (ht0 d))" using idx live0 by (simp add: ht_live_def)
  ultimately have "rehashing_ok dt ?d" "entries ?d = entries d" "iterators ?d = iterators d"
    using d1 unfolding rehashing_ok_def by simp_all
  with d1(1,4) show ?thesis unfolding Let_def by simp
qed

lemma rehash_loop_ok:
  assumes "rehashing_ok dt d" and "0 < ev"
  shows "\<exists>r d'. rehash_loop dt n ev d = Inr (r, d') \<and> rehashing_ok dt d' \<and> entries d' = entries d \<and>
    iterators d' = iterators d \<and> (r \<longrightarrow> used (ht0 d') \<noteq> 0) \<and> rehashidx d \<le> rehashidx d' \<and>
    (0 < n \<and> used (ht0 d) \<noteq> 0 \<longrightarrow> rehashidx d < rehashidx d')"
  using assms
proof (induction n arbitrary: ev d)
  case 0
  then show ?case by (intro exI [of _ False] exI [of _ d]) simp
next
  case (Suc n)
  show ?case
  proof (cases "used (ht0 d) = 0")
    case True
    with Suc.prems show ?thesis by (intro exI [of _ False] exI [of _ d]) simp
  next
    case False
    have pos: "0 \<le> rehashidx d" and len: "length (table (ht0 d)) = ht_size (ht0 d)"
      using Suc.prems by (simp_all add: rehashing_ok_def ht_live_def)
    obtain j where j: "j < length (table (ht0 d))" "table (ht0 d) ! j \<noteq> []" "nat (rehashidx d) \<le> j"
      using used_bucket [OF Suc.prems(1) False] .
    then have ass: "int (ht_size (ht0 d)) > rehashidx d" using len by linarith
    obtain idx ev' where s: "skip_empty (table (ht0 d)) (nat (rehashidx d)) ev = Inr (idx, ev')"
        "nat (rehashidx d) \<le> idx" "idx \<le> j"
        "\<forall>i. nat (rehashidx d) \<le> i \<and> i < idx \<longrightarrow> table (ht0 d) ! i = []"
        "case ev' of None \<Rightarrow> nat (rehashidx d) < idx | Some e \<Rightarrow> 0 < e \<and> table (ht0 d) ! idx \<noteq> []"
      using skip_empty_ok [OF j Suc.prems(2)] by blast
    show ?thesis
    proof (cases ev')
      case None
      let ?d = "d\<lparr>rehashidx := int idx\<rparr>"
      have "rehash_loop dt (Suc n) ev d = Inr (True, ?d)"
        using False ass s(1) None by simp
      moreover have "table (ht0 d) ! i = []" if "i < idx" "i < length (table (ht0 d))" for i
        using that Suc.prems(1) s(4) unfolding rehashing_ok_def by (cases "i < nat (rehashidx d)") auto
      then have "rehashing_ok dt ?d" using Suc.prems(1) s(3) j(1) len unfolding rehashing_ok_def by simp
      moreover have "rehashidx d < int idx" using s(5) None pos by simp
      ultimately show ?thesis
        using False by (intro exI [of _ True] exI [of _ ?d]) (simp add: entries_def)
    next
      case (Some e)
      have idx: "idx < length (table (ht0 d))" using s(3) j(1) by simp
      obtain d1 where d1: "move_chain dt (table (ht0 d) ! idx) d = Inr d1" "table (ht0 d1) = table (ht0 d)"
          and d2: "let d2 = d1\<lparr>ht0 := (ht0 d1)\<lparr>table := (table (ht0 d1))[idx := []]\<rparr>, rehashidx := int idx + 1\<rparr> in
            rehashing_ok dt d2 \<and> entries d2 = entries d \<and> iterators d2 = iterators d"
        using move_bucket_ok [OF Suc.prems(1) idx s(4)] by blast
      let ?d = "d1\<lparr>ht0 := (ht0 d1)\<lparr>table := (table (ht0 d1))[idx := []]\<rparr>, rehashidx := int idx + 1\<rparr>"
      have "rehash_loop dt (Suc n) ev d = rehash_loop dt n e ?d"
        using False ass s(1) Some d1 idx by simp
      moreover have "rehashidx d < rehashidx ?d" using s(2) pos by simp
      moreover have "0 < e" using s(5) Some by simp
      ultimately show ?thesis using Suc.IH [of ?d e] d2 unfolding Let_def by fastforce
    qed
  qed
qed

lemma dict_wf_rehashing:
  "dictIsRehashing d \<Longrightarrow> dict_wf dt norm d \<longleftrightarrow> rehashing_ok dt d \<and> uniq norm (entries d)"
  by (auto simp: dict_wf_def rehashing_ok_def)

lemma dictReset_entries [simp]: "ht_entries dictReset = {#}"
  by (simp add: dictReset_def ht_entries_def)

lemma dictReset_used [simp]: "used dictReset = 0"
  by (simp add: dictReset_def)

lemma dictRehash_ok:
  assumes wf: "dict_wf dt norm d" and n: "0 < n"
  shows "\<exists>more d'. dictRehash dt n d = Inr (more, d') \<and> dict_wf dt norm d' \<and> entries d' = entries d \<and>
    iterators d' = iterators d \<and> more = dictIsRehashing d' \<and> (dictIsRehashing d' \<longrightarrow> dictIsRehashing d \<and> rehashidx d < rehashidx d')"
proof (cases "dictIsRehashing d")
  case False
  with wf show ?thesis by (intro exI [of _ False] exI [of _ d]) (simp add: dictRehash_def)
next
  case True
  then have ok: "rehashing_ok dt d" and u: "uniq norm (entries d)" using wf dict_wf_rehashing by blast+
  obtain r d' where l: "rehash_loop dt n (n * 10) d = Inr (r, d')" "rehashing_ok dt d'" "entries d' = entries d"
      "iterators d' = iterators d" "r \<longrightarrow> used (ht0 d') \<noteq> 0" "rehashidx d \<le> rehashidx d'"
      "used (ht0 d) \<noteq> 0 \<longrightarrow> rehashidx d < rehashidx d'"
    using rehash_loop_ok [OF ok, of "n * 10" n] n by auto
  have re: "dictIsRehashing d'" using l(2) by (auto simp: rehashing_ok_def dictIsRehashing_def)
  show ?thesis
  proof (cases "used (ht0 d') = 0")
    case fin: True
    let ?d = "d'\<lparr>ht0 := ht1 d', ht1 := dictReset, rehashidx := -1\<rparr>"
    have "ht_entries (ht0 d') = {#}" using fin l(2) by (simp add: rehashing_ok_def ht_live_def)
    then have "entries ?d = entries d" using l(3) by (simp add: entries_def)
    moreover have "dict_wf dt norm ?d"
      using l(2) u calculation unfolding dict_wf_def rehashing_ok_def dictIsRehashing_def by simp
    moreover have "dictRehash dt n d = Inr (False, ?d)"
      using True l(1,5) fin by (auto simp: dictRehash_def)
    ultimately show ?thesis
      using l(4) by (intro exI [of _ False] exI [of _ ?d]) (simp add: dictIsRehashing_def)
  next
    case more: False
    have "used (ht0 d) \<noteq> 0"
    proof
      assume "used (ht0 d) = 0"
      then have "rehash_loop dt n (n * 10) d = Inr (False, d)" by (cases n) simp_all
      with \<open>used (ht0 d) = 0\<close> l(1) more show False by simp
    qed
    then have "rehashidx d < rehashidx d'" using l(7) by simp
    moreover have "dictRehash dt n d = Inr (True, d')"
      using True l(1) more by (simp add: dictRehash_def)
    ultimately show ?thesis
      using l u re dict_wf_rehashing [OF re, of dt norm] True by auto
  qed
qed

lemma step_if_rehashing_ok:
  assumes "dict_wf dt norm d"
  shows "\<exists>d'. step_if_rehashing dt d = Inr d' \<and> dict_wf dt norm d' \<and> entries d' = entries d \<and> iterators d' = iterators d"
  using dictRehash_ok [OF assms, of 1] assms
  by (auto simp: step_if_rehashing_def dictRehashStep_def)

section \<open>Resizing keeps the entries\<close>

lemma next_power_ge:
  assumes "i = 2 ^ k" and "k \<le> 63" and "sz < 2 ^ 63"
  shows "sz \<le> next_power_loop i sz \<and> (\<exists>k' \<ge> k. k' \<le> 63 \<and> next_power_loop i sz = 2 ^ k')"
  using assms
proof (induction i sz arbitrary: k rule: next_power_loop.induct)
  case (1 i sz)
  show ?case
  proof (cases "i \<ge> sz")
    case True
    then have "next_power_loop i sz = i" by (subst next_power_loop.simps) simp
    with True 1(2,3) show ?thesis by auto
  next
    case False
    then have "(2 :: nat) ^ k < 2 ^ 63" using 1(2,4) by simp
    then have "Suc k \<le> 63" by (metis Suc_leI one_less_numeral_iff power_less_imp_less_exp semiring_norm(76))
    moreover have "next_power_loop i sz = next_power_loop (i * 2) sz" using False 1(2) by (subst next_power_loop.simps) simp
    moreover have "i * 2 = 2 ^ Suc k" using 1(2) by simp
    ultimately show ?thesis using 1(1) [of "Suc k"] False 1(2,4) Suc_leD by auto
  qed
qed

lemma dictNextPower_ok:
  "\<exists>k \<ge> 2. k \<le> 63 \<and> dictNextPower sz = 2 ^ k" "sz < LONG_MAX \<Longrightarrow> sz \<le> dictNextPower sz"
proof -
  have "LONG_MAX + 1 = 2 ^ 63" by (simp add: LONG_MAX_def)
  then show "\<exists>k \<ge> 2. k \<le> 63 \<and> dictNextPower sz = 2 ^ k"
    using next_power_ge [of DICT_HT_INITIAL_SIZE 2 sz]
    by (auto simp: dictNextPower_def DICT_HT_INITIAL_SIZE_def LONG_MAX_def intro: exI [of _ 63])
  show "sz < LONG_MAX \<Longrightarrow> sz \<le> dictNextPower sz"
    using next_power_ge [of DICT_HT_INITIAL_SIZE 2 sz]
    by (simp add: dictNextPower_def DICT_HT_INITIAL_SIZE_def LONG_MAX_def)
qed

lemma live_new:
  assumes "\<exists>k \<ge> 2. k \<le> 63 \<and> n = 2 ^ k"
  shows "ht_live dt \<lparr> table = replicate n [], ht_size = n, sizemask = n - 1, used = 0 \<rparr>"
    "ht_entries \<lparr> table = replicate n [], ht_size = n, sizemask = n - 1, used = 0 \<rparr> = {#}"
proof -
  show e: "ht_entries \<lparr> table = replicate n [], ht_size = n, sizemask = n - 1, used = 0 \<rparr> = {#}"
    by (induction n) (simp_all add: ht_entries_def)
  show "ht_live dt \<lparr> table = replicate n [], ht_size = n, sizemask = n - 1, used = 0 \<rparr>"
    using assms e by (simp add: ht_live_def)
qed

lemma dictExpand_ok:
  fixes d :: "('k, 'v) dict"
  assumes wf: "dict_wf dt norm d" and e: "dictExpand d sz = (r, d')"
  shows "dict_wf dt norm d'" "entries d' = entries d" "iterators d' = iterators d"
    "r \<Longrightarrow> ht_live dt (ht0 d')"
proof -
  let ?n = "dictNextPower sz"
  let ?h = "\<lparr> table = replicate ?n [], ht_size = ?n, sizemask = ?n - 1, used = 0 \<rparr> :: ('k, 'v) dictht"
  have new: "ht_live dt ?h" "ht_entries ?h = {#}" by (rule live_new, rule dictNextPower_ok)+
  have "dict_wf dt norm d' \<and> entries d' = entries d \<and> iterators d' = iterators d \<and> (r \<longrightarrow> ht_live dt (ht0 d'))"
  proof (cases "r")
    case False
    then have "d' = d" using e by (auto simp: dictExpand_def Let_def split: if_splits)
    with False wf show ?thesis by simp
  next
    case True
    then have nr: "\<not> dictIsRehashing d"
      and d': "d' = (if table (ht0 d) = [] then d\<lparr>ht0 := ?h\<rparr> else d\<lparr>ht1 := ?h, rehashidx := 0\<rparr>)"
      using e by (auto simp: dictExpand_def Let_def split: if_splits)
    have w: "ht0 d = dictReset \<or> ht_live dt (ht0 d)" "ht1 d = dictReset" "uniq norm (entries d)"
      using wf nr by (simp_all add: dict_wf_def)
    show ?thesis
    proof (cases "table (ht0 d) = []")
      case empty: True
      then have "entries d' = entries d" using d' new(2) by (simp add: entries_def ht_entries_def)
      then show ?thesis using empty d' new nr w unfolding dict_wf_def dictIsRehashing_def by simp
    next
      case False
      then have "ht_live dt (ht0 d)" using w(1) by (auto simp: dictReset_def)
      moreover have "entries d' = entries d" using False d' new(2) w(2) by (simp add: entries_def)
      ultimately show ?thesis using False d' new(1) w(3) unfolding dict_wf_def dictIsRehashing_def by simp
    qed
  qed
  then show "dict_wf dt norm d'" "entries d' = entries d" "iterators d' = iterators d" "r \<Longrightarrow> ht_live dt (ht0 d')"
    by simp_all
qed

lemma dictResize_ok:
  assumes "dict_wf dt norm d"
  shows "dict_wf dt norm (snd (dictResize can_resize d))" "entries (snd (dictResize can_resize d)) = entries d"
proof -
  have "dict_wf dt norm (snd (dictExpand d sz)) \<and> entries (snd (dictExpand d sz)) = entries d" for sz
    using dictExpand_ok [OF assms, of sz] by (metis prod.collapse)
  then show "dict_wf dt norm (snd (dictResize can_resize d))" "entries (snd (dictResize can_resize d)) = entries d"
    using assms by (simp_all add: dictResize_def Let_def)
qed

lemma dictSize_entries:
  assumes "dict_wf dt norm d"
  shows "dictSize d = size (entries d)"
  using assms by (auto simp: dict_wf_def dictSize_def entries_def ht_live_def split: if_splits)

lemma dictExpandIfNeeded_ok:
  assumes wf: "dict_wf dt norm d" and small: "size (entries d) < 2 ^ 62"
  shows "\<exists>d'. dictExpandIfNeeded can_resize d = (True, d') \<and> dict_wf dt norm d' \<and> entries d' = entries d \<and>
    iterators d' = iterators d \<and> ht_live dt (ht0 d')"
proof (cases "dictIsRehashing d")
  case True
  with wf show ?thesis by (simp add: dictExpandIfNeeded_def dict_wf_def)
next
  case nr: False
  have w: "ht0 d = dictReset \<or> ht_live dt (ht0 d)" using wf nr by (simp add: dict_wf_def)
  have used: "used (ht0 d) < 2 ^ 62" using dictSize_entries [OF wf] small by (simp add: dictSize_def)
  have expand: "\<exists>d'. dictExpand d sz = (True, d') \<and> dict_wf dt norm d' \<and> entries d' = entries d \<and>
      iterators d' = iterators d \<and> ht_live dt (ht0 d')"
    if sz: "used (ht0 d) \<le> sz" "sz < LONG_MAX" "ht_size (ht0 d) < sz" for sz
  proof -
    have "dictNextPower sz \<noteq> ht_size (ht0 d)" using dictNextPower_ok(2) [OF sz(2)] sz(3) by simp
    then have "fst (dictExpand d sz)" using nr sz(1) by (simp add: dictExpand_def Let_def)
    then obtain d' where "dictExpand d sz = (True, d')" by (metis prod.collapse)
    with dictExpand_ok [OF wf this] show ?thesis by simp
  qed
  show ?thesis
  proof (cases "ht_size (ht0 d) = 0")
    case True
    then have "ht0 d = dictReset" using w by (auto simp: ht_live_def)
    then show ?thesis
      using True nr expand [of DICT_HT_INITIAL_SIZE]
      by (simp add: dictExpandIfNeeded_def DICT_HT_INITIAL_SIZE_def LONG_MAX_def dictReset_def)
  next
    case False
    then have live: "ht_live dt (ht0 d)" using w by (auto simp: dictReset_def)
    show ?thesis
    proof (cases "used (ht0 d) \<ge> ht_size (ht0 d) \<and>
        (can_resize \<or> used (ht0 d) div ht_size (ht0 d) > dict_force_resize_ratio)")
      case True
      then have "used (ht0 d) \<le> used (ht0 d) * 2" "used (ht0 d) * 2 < LONG_MAX" "ht_size (ht0 d) < used (ht0 d) * 2"
        using used False by (simp_all add: LONG_MAX_def)
      then show ?thesis using expand [of "used (ht0 d) * 2"] True False nr by (simp add: dictExpandIfNeeded_def)
    next
      case no: False
      then have "dictExpandIfNeeded can_resize d = (True, d)"
        unfolding dictExpandIfNeeded_def if_not_P [OF nr] if_not_P [OF \<open>ht_size (ht0 d) \<noteq> 0\<close>] by (rule if_not_P)
      then show ?thesis using wf live by simp
    qed
  qed
qed

section \<open>Finite maps of entries\<close>

lemma filter_mset_none: "{#x \<in># M. P x#} = {#} \<longleftrightarrow> (\<forall>x \<in># M. \<not> P x)"
  by (induction M) auto

lemma uniq_add:
  "uniq norm (add_mset e M) \<longleftrightarrow> uniq norm M \<and> (\<forall>x \<in># M. norm (de_key x) \<noteq> norm (de_key e))"
proof
  assume u: "uniq norm (add_mset e M)"
  have "size {#x \<in># M. norm (de_key x) = norm (de_key e)#} = 0"
    using u [unfolded uniq_def, rule_format, of "norm (de_key e)"] by simp
  then have "\<forall>x \<in># M. norm (de_key x) \<noteq> norm (de_key e)" unfolding size_eq_0_iff_empty filter_mset_none .
  moreover have "size {#x \<in># M. norm (de_key x) = k#} \<le> 1" for k
    by (rule le_trans [OF size_mset_mono [OF multiset_filter_mono, of M "add_mset e M"] u [unfolded uniq_def, rule_format]]) simp
  ultimately show "uniq norm M \<and> (\<forall>x \<in># M. norm (de_key x) \<noteq> norm (de_key e))" by (simp add: uniq_def)
next
  assume a: "uniq norm M \<and> (\<forall>x \<in># M. norm (de_key x) \<noteq> norm (de_key e))"
  then have "{#x \<in># M. norm (de_key x) = norm (de_key e)#} = {#}" unfolding filter_mset_none by blast
  moreover have "size {#x \<in># M. norm (de_key x) = k#} \<le> 1" for k using a by (simp add: uniq_def)
  ultimately have "size {#x \<in># add_mset e M. norm (de_key x) = k#} \<le> 1" for k
    by (cases "norm (de_key e) = k") simp_all
  then show "uniq norm (add_mset e M)" by (simp only: uniq_def simp_thms)
qed

lemma uniq_same:
  assumes "uniq norm M" and "x \<in># M" and "y \<in># M" and "norm (de_key x) = norm (de_key y)"
  shows "x = y"
proof (rule ccontr)
  assume "x \<noteq> y"
  obtain N where N: "M = add_mset x N" using assms(2) by (metis multi_member_split)
  then have "y \<in># N" using assms(3) \<open>x \<noteq> y\<close> by simp
  with assms(1,4) N show False using uniq_add by metis
qed

lemma set_entries: "set_mset (entries d) = set (concat (table (ht0 d)) @ concat (table (ht1 d)))"
  by (simp add: entries_def ht_entries_def)

lemma find_SomeD: "find P xs = Some x \<Longrightarrow> x \<in> set xs \<and> P x"
  by (induction xs) (auto split: if_splits)

lemma dict_map_Some:
  assumes "uniq norm (entries d)"
  shows "dict_map norm d k = Some v \<longleftrightarrow> (\<exists>e \<in># entries d. norm (de_key e) = k \<and> de_val e = v)"
proof
  assume "dict_map norm d k = Some v"
  then obtain e where e: "find (\<lambda>e. norm (de_key e) = k) (concat (table (ht0 d)) @ concat (table (ht1 d))) = Some e" "de_val e = v"
    unfolding dict_map_def map_option_eq_Some by blast
  from e(1) have "e \<in># entries d \<and> norm (de_key e) = k"
    unfolding set_entries by (rule find_SomeD)
  with e(2) show "\<exists>e \<in># entries d. norm (de_key e) = k \<and> de_val e = v" by blast
next
  assume "\<exists>e \<in># entries d. norm (de_key e) = k \<and> de_val e = v"
  then obtain e where e: "e \<in># entries d" "norm (de_key e) = k" "de_val e = v" by blast
  let ?f = "find (\<lambda>e. norm (de_key e) = k) (concat (table (ht0 d)) @ concat (table (ht1 d)))"
  have "?f \<noteq> None" using e unfolding find_None_iff set_entries by blast
  then obtain e' where e': "?f = Some e'" by blast
  then have "e' \<in># entries d \<and> norm (de_key e') = k" unfolding set_entries by (rule find_SomeD)
  then have "e' = e" using uniq_same [OF assms] e by blast
  with e' e show "dict_map norm d k = Some v" by (simp add: dict_map_def)
qed

lemma option_eqI: "(\<And>v. a = Some v \<longleftrightarrow> b = Some v) \<Longrightarrow> a = b"
  by (metis option.exhaust)

lemma dict_map_None:
  assumes "uniq norm (entries d)"
  shows "dict_map norm d k = None \<longleftrightarrow> (\<forall>e \<in># entries d. norm (de_key e) \<noteq> k)"
  using dict_map_Some [OF assms, of k] by (metis not_Some_eq option.distinct(1))

lemma dict_map_same:
  assumes "uniq norm (entries d)" and "entries d' = entries d"
  shows "dict_map norm d' = dict_map norm d"
  using dict_map_Some [of norm d] dict_map_Some [of norm d'] assms by (intro ext option_eqI) simp

lemma dict_map_insert:
  assumes "entries d = M" and "entries d' = add_mset e M" and "uniq norm (entries d')"
  shows "dict_map norm d' = (dict_map norm d)(norm (de_key e) \<mapsto> de_val e)"
proof (rule ext, rule option_eqI)
  fix k v
  have u: "uniq norm (entries d)" and fresh: "\<forall>x \<in># M. norm (de_key x) \<noteq> norm (de_key e)"
    using assms by (simp_all add: uniq_add)
  show "dict_map norm d' k = Some v \<longleftrightarrow> ((dict_map norm d)(norm (de_key e) \<mapsto> de_val e)) k = Some v"
    using fresh assms(1,2) dict_map_Some [OF u, of k v] dict_map_Some [OF assms(3), of k v]
    by (cases "k = norm (de_key e)") auto
qed

lemma dict_map_remove:
  assumes "entries d = add_mset e M" and "entries d' = M" and "uniq norm (entries d)"
  shows "dict_map norm d' = (dict_map norm d)(norm (de_key e) := None)"
proof -
  have u: "uniq norm (entries d')" and fresh: "\<forall>x \<in># entries d'. norm (de_key x) \<noteq> norm (de_key e)"
    using assms by (simp_all add: uniq_add)
  have "dict_map norm d = (dict_map norm d')(norm (de_key e) \<mapsto> de_val e)"
    using dict_map_insert [of d' M d e norm] assms by simp
  moreover have "dict_map norm d' (norm (de_key e)) = None" using dict_map_None [OF u] fresh by blast
  ultimately show ?thesis by auto
qed

section \<open>Dictionaries of a type\<close>

text \<open>
  What the code relies on of a \<open>dictType\<close>: on the keys it is used with, comparing is comparing
  normal forms, and keys with the same normal form have the same hash.
\<close>

locale dict_type =
  fixes dt :: "'k dictType" and norm :: "'k \<Rightarrow> 'n" and valid :: "'k \<Rightarrow> bool"
  assumes compare_norm: "valid x \<Longrightarrow> valid y \<Longrightarrow> keyCompare dt x y \<longleftrightarrow> norm x = norm y"
    and hash_norm: "valid x \<Longrightarrow> valid y \<Longrightarrow> norm x = norm y \<Longrightarrow> hashFunction dt x = hashFunction dt y"
begin

definition keys_ok :: "('k, 'v) dictEntry multiset \<Rightarrow> bool" where
  "keys_ok M \<longleftrightarrow> (\<forall>e \<in># M. valid (de_key e))"

definition dict_ok :: "('k, 'v) dict \<Rightarrow> bool" where
  "dict_ok d \<longleftrightarrow> dict_wf dt norm d \<and> keys_ok (entries d)"

lemma keys_okD: "keys_ok M \<Longrightarrow> e \<in># M \<Longrightarrow> valid (de_key e)"
  by (simp add: keys_ok_def)

lemma dict_ok_uniq: "dict_ok d \<Longrightarrow> uniq norm (entries d)"
  by (simp add: dict_ok_def dict_wf_def)

text \<open>The chain of a key holds every entry of the table with that key.\<close>

lemma key_chain:
  assumes live: "ht_live dt h" and v: "valid key" and ks: "keys_ok (ht_entries h)"
  shows "dictHashKey dt key AND sizemask h < length (table h)"
    "e \<in> set (table h ! (dictHashKey dt key AND sizemask h)) \<Longrightarrow> e \<in># ht_entries h"
    "e \<in> set (table h ! (dictHashKey dt key AND sizemask h)) \<Longrightarrow> keyCompare dt key (de_key e) \<longleftrightarrow> norm (de_key e) = norm key"
    "e \<in># ht_entries h \<Longrightarrow> norm (de_key e) = norm key \<Longrightarrow> e \<in> set (table h ! (dictHashKey dt key AND sizemask h))"
proof -
  let ?i = "dictHashKey dt key AND sizemask h"
  show i: "?i < length (table h)" by (rule live_index [OF live])
  show sub: "e \<in># ht_entries h" if "e \<in> set (table h ! ?i)" for e
    using that i by (auto simp: ht_entries_def)
  show "keyCompare dt key (de_key e) \<longleftrightarrow> norm (de_key e) = norm key" if "e \<in> set (table h ! ?i)"
    using compare_norm [OF v keys_okD [OF ks sub [OF that]]] by auto
  assume e: "e \<in># ht_entries h" and n: "norm (de_key e) = norm key"
  from e obtain j where j: "j < length (table h)" "e \<in> set (table h ! j)" unfolding in_ht_entries by blast
  have "j = ?i" using live_chain [OF live j] hash_norm [OF keys_okD [OF ks e] v n] by (simp add: dictHashKey_def)
  with j(2) show "e \<in> set (table h ! ?i)" by simp
qed

lemma find_chain:
  assumes live: "ht_live dt h" and v: "valid key" and ks: "keys_ok (ht_entries h)"
  shows "\<exists>ch. chain_of dt key h = Inr ch \<and>
    (case find (\<lambda>he. keyCompare dt key (de_key he)) ch of
       None \<Rightarrow> \<forall>e \<in># ht_entries h. norm (de_key e) \<noteq> norm key
     | Some e \<Rightarrow> e \<in># ht_entries h \<and> norm (de_key e) = norm key)"
proof -
  let ?ch = "table h ! (dictHashKey dt key AND sizemask h)"
  note kc = key_chain [OF assms]
  have "chain_of dt key h = Inr ?ch" using kc(1) by (simp add: chain_of_def)
  moreover have "case find (\<lambda>he. keyCompare dt key (de_key he)) ?ch of
       None \<Rightarrow> \<forall>e \<in># ht_entries h. norm (de_key e) \<noteq> norm key
     | Some e \<Rightarrow> e \<in># ht_entries h \<and> norm (de_key e) = norm key"
  proof (cases "find (\<lambda>he. keyCompare dt key (de_key he)) ?ch")
    case None
    then have "\<forall>e \<in> set ?ch. \<not> keyCompare dt key (de_key e)" unfolding find_None_iff by blast
    then have "\<forall>e \<in># ht_entries h. norm (de_key e) \<noteq> norm key" using kc(3,4) by blast
    with None show ?thesis by simp
  next
    case (Some e)
    with find_SomeD [OF Some] kc(2,3) show ?thesis by auto
  qed
  ultimately show ?thesis by blast
qed

text \<open>The shape of a dictionary with entries: the first table is live, the second when rehashing.\<close>

lemma ok_tables:
  assumes "dict_ok d"
  shows "keys_ok (ht_entries (ht0 d))" "keys_ok (ht_entries (ht1 d))"
    "entries d \<noteq> {#} \<Longrightarrow> ht_live dt (ht0 d)" "dictIsRehashing d \<Longrightarrow> ht_live dt (ht1 d)"
    "\<not> dictIsRehashing d \<Longrightarrow> ht_entries (ht1 d) = {#}"
  using assms by (auto simp: dict_ok_def dict_wf_def keys_ok_def entries_def split: if_splits)

lemma step_ok:
  assumes "dict_ok d"
  shows "\<exists>d'. step_if_rehashing dt d = Inr d' \<and> dict_ok d' \<and> entries d' = entries d \<and> iterators d' = iterators d"
  using step_if_rehashing_ok [of dt norm d] assms by (auto simp: dict_ok_def)

lemma no_entries:
  assumes "dict_ok d"
  shows "used (ht0 d) + used (ht1 d) = 0 \<longleftrightarrow> entries d = {#}"
  using dictSize_entries [of dt norm d] assms by (simp add: dict_ok_def dictSize_def)

text \<open>Looking a key up in both tables, the way every operation does.\<close>

lemma map_of_hit:
  assumes "dict_ok d" and "e \<in># entries d" and "norm (de_key e) = k"
  shows "dict_map norm d k = Some (de_val e)"
  using dict_map_Some [OF dict_ok_uniq [OF assms(1)], of k "de_val e"] assms(2,3) by blast

lemma map_of_miss:
  assumes "dict_ok d" and "\<forall>e \<in># ht_entries (ht0 d). norm (de_key e) \<noteq> k"
    and "\<forall>e \<in># ht_entries (ht1 d). norm (de_key e) \<noteq> k"
  shows "dict_map norm d k = None"
  using assms(2,3) unfolding dict_map_None [OF dict_ok_uniq [OF assms(1)]] entries_def by auto

lemma dictFind_ok:
  assumes ok: "dict_ok d" and v: "valid key"
  shows "\<exists>r d'. dictFind dt d key = Inr (r, d') \<and> dict_ok d' \<and> entries d' = entries d \<and>
    iterators d' = iterators d \<and> dict_map norm d (norm key) = map_option de_val r"
proof (cases "entries d = {#}")
  case True
  then have "dictFind dt d key = Inr (None, d)" using no_entries [OF ok] by (simp add: dictFind_def)
  moreover have "dict_map norm d (norm key) = None"
    using True dict_map_None [OF dict_ok_uniq [OF ok]] by simp
  ultimately show ?thesis using ok by simp
next
  case False
  then have some: "used (ht0 d) + used (ht1 d) \<noteq> 0" using no_entries [OF ok] by simp
  obtain d1 where d1: "step_if_rehashing dt d = Inr d1" "dict_ok d1" "entries d1 = entries d" "iterators d1 = iterators d"
    using step_ok [OF ok] by blast
  note t = ok_tables [OF d1(2)]
  have same: "dict_map norm d = dict_map norm d1" using dict_map_same dict_ok_uniq [OF ok] d1(3) by metis
  obtain c0 where c0: "chain_of dt key (ht0 d1) = Inr c0"
      "case find (\<lambda>he. keyCompare dt key (de_key he)) c0 of
         None \<Rightarrow> \<forall>e \<in># ht_entries (ht0 d1). norm (de_key e) \<noteq> norm key
       | Some e \<Rightarrow> e \<in># ht_entries (ht0 d1) \<and> norm (de_key e) = norm key"
    using find_chain [OF t(3) v t(1)] False d1(3) by auto
  have start: "dictFind dt d key =
      (case find (\<lambda>he. keyCompare dt key (de_key he)) c0 of
          Some he \<Rightarrow> Inr (Some he, d1)
        | None \<Rightarrow>
            if \<not> dictIsRehashing d1 then Inr (None, d1)
            else cbind (chain_of dt key (ht1 d1)) (\<lambda>ch. Inr (find (\<lambda>he. keyCompare dt key (de_key he)) ch, d1)))"
    unfolding dictFind_def if_not_P [OF some] d1(1) cbind_Inr c0(1) ..
  show ?thesis
  proof (cases "find (\<lambda>he. keyCompare dt key (de_key he)) c0")
    case (Some e)
    then have "e \<in># entries d1" "norm (de_key e) = norm key" using c0(2) by (simp_all add: entries_def)
    then show ?thesis using start Some d1 same map_of_hit [OF d1(2)] by simp
  next
    case None
    show ?thesis
    proof (cases "dictIsRehashing d1")
      case nr: False
      then show ?thesis using start None d1 same map_of_miss [OF d1(2)] c0(2) t(5) by simp
    next
      case re: True
      obtain c1 where c1: "chain_of dt key (ht1 d1) = Inr c1"
          "case find (\<lambda>he. keyCompare dt key (de_key he)) c1 of
             None \<Rightarrow> \<forall>e \<in># ht_entries (ht1 d1). norm (de_key e) \<noteq> norm key
           | Some e \<Rightarrow> e \<in># ht_entries (ht1 d1) \<and> norm (de_key e) = norm key"
        using find_chain [OF t(4) [OF re] v t(2)] by blast
      have "dict_map norm d1 (norm key) = map_option de_val (find (\<lambda>he. keyCompare dt key (de_key he)) c1)"
        using c0(2) c1(2) None map_of_hit [OF d1(2)] map_of_miss [OF d1(2)]
        by (auto split: option.splits simp: entries_def)
      then show ?thesis using start None re c1(1) d1 same by simp
    qed
  qed
qed

lemma find_pos_of: "find P xs = map_option ((!) xs) (pos_of P xs)"
  by (induction xs) (auto simp: option.map_comp comp_def)

lemma pos_of_less: "pos_of P xs = Some j \<Longrightarrow> j < length xs"
  by (induction xs arbitrary: j) (auto split: if_splits)

text \<open>The place of an entry with the key: table, bucket and position in the chain.\<close>

definition at_place :: "('k, 'v) dict \<Rightarrow> 'k \<Rightarrow> bool \<Rightarrow> nat \<Rightarrow> nat \<Rightarrow> bool" where
  "at_place d key t idx j \<longleftrightarrow>
     (let h = (if t then ht1 d else ht0 d) in
      ht_live dt h \<and> idx < length (table h) \<and> j < length (table h ! idx) \<and>
      norm (de_key (table h ! idx ! j)) = norm key)"

definition key_index_ok :: "('k, 'v) dict \<Rightarrow> 'k \<Rightarrow> key_index \<Rightarrow> bool" where
  "key_index_ok d key i \<longleftrightarrow>
     (case i of
        NoSlot \<Rightarrow> False
      | Slot idx \<Rightarrow>
          (let h = (if dictIsRehashing d then ht1 d else ht0 d) in
           ht_live dt h \<and> idx = dictHashKey dt key AND sizemask h \<and> dict_map norm d (norm key) = None)
      | Exists t idx j \<Rightarrow> at_place d key t idx j)"

lemma pos_chain:
  assumes live: "ht_live dt h" and v: "valid key" and ks: "keys_ok (ht_entries h)"
  defines "i \<equiv> dictHashKey dt key AND sizemask h"
  shows "\<exists>ch. rd (table h) i = Inr ch \<and> i < length (table h) \<and> ch = table h ! i \<and>
    (case pos_of (\<lambda>he. keyCompare dt key (de_key he)) ch of
       None \<Rightarrow> \<forall>e \<in># ht_entries h. norm (de_key e) \<noteq> norm key
     | Some j \<Rightarrow> j < length ch \<and> norm (de_key (ch ! j)) = norm key)"
proof -
  have i: "i < length (table h)" unfolding i_def by (rule live_index [OF live])
  then have ch: "chain_of dt key h = Inr (table h ! i)" by (simp add: chain_of_def i_def)
  have "case pos_of (\<lambda>he. keyCompare dt key (de_key he)) (table h ! i) of
       None \<Rightarrow> \<forall>e \<in># ht_entries h. norm (de_key e) \<noteq> norm key
     | Some j \<Rightarrow> j < length (table h ! i) \<and> norm (de_key (table h ! i ! j)) = norm key"
    using find_chain [OF assms(1-3)] ch pos_of_less [of "\<lambda>he. keyCompare dt key (de_key he)" "table h ! i"]
    by (cases "pos_of (\<lambda>he. keyCompare dt key (de_key he)) (table h ! i)") (simp_all add: find_pos_of)
  with i show ?thesis by simp
qed

lemma dictKeyIndex_ok:
  assumes ok: "dict_ok d" and v: "valid key" and small: "size (entries d) < 2 ^ 62"
  shows "\<exists>i d'. dictKeyIndex dt can_resize d key = Inr (i, d') \<and> dict_ok d' \<and> entries d' = entries d \<and>
    iterators d' = iterators d \<and> key_index_ok d' key i"
proof -
  obtain d1 where d1: "dictExpandIfNeeded can_resize d = (True, d1)" "dict_wf dt norm d1" "entries d1 = entries d"
      "iterators d1 = iterators d" "ht_live dt (ht0 d1)"
    using dictExpandIfNeeded_ok [of dt norm d] ok small by (auto simp: dict_ok_def)
  have ok1: "dict_ok d1" using ok d1 by (simp add: dict_ok_def)
  note t = ok_tables [OF ok1]
  let ?i0 = "dictHashKey dt key AND sizemask (ht0 d1)" and ?i1 = "dictHashKey dt key AND sizemask (ht1 d1)"
  obtain c0 where c0: "rd (table (ht0 d1)) ?i0 = Inr c0" "?i0 < length (table (ht0 d1))" "c0 = table (ht0 d1) ! ?i0"
      "case pos_of (\<lambda>he. keyCompare dt key (de_key he)) c0 of
         None \<Rightarrow> \<forall>e \<in># ht_entries (ht0 d1). norm (de_key e) \<noteq> norm key
       | Some j \<Rightarrow> j < length c0 \<and> norm (de_key (c0 ! j)) = norm key"
    using pos_chain [OF d1(5) v t(1)] by auto
  show ?thesis
  proof (cases "pos_of (\<lambda>he. keyCompare dt key (de_key he)) c0")
    case (Some j)
    then have "dictKeyIndex dt can_resize d key = Inr (Exists False ?i0 j, d1)"
      unfolding dictKeyIndex_def d1(1) Let_def by (simp add: c0(1))
    moreover have "key_index_ok d1 key (Exists False ?i0 j)"
      using Some c0 d1(5) by (simp add: key_index_ok_def at_place_def)
    ultimately show ?thesis using ok1 d1 by blast
  next
    case None
    show ?thesis
    proof (cases "dictIsRehashing d1")
      case nr: False
      then have "dictKeyIndex dt can_resize d key = Inr (Slot ?i0, d1)"
        using None unfolding dictKeyIndex_def d1(1) Let_def by (simp add: c0(1))
      moreover have "key_index_ok d1 key (Slot ?i0)"
        using nr None c0(4) t(5) d1(5) map_of_miss [OF ok1] by (simp add: key_index_ok_def)
      ultimately show ?thesis using ok1 d1 by blast
    next
      case re: True
      obtain c1 where c1: "rd (table (ht1 d1)) ?i1 = Inr c1" "?i1 < length (table (ht1 d1))" "c1 = table (ht1 d1) ! ?i1"
          "case pos_of (\<lambda>he. keyCompare dt key (de_key he)) c1 of
             None \<Rightarrow> \<forall>e \<in># ht_entries (ht1 d1). norm (de_key e) \<noteq> norm key
           | Some j \<Rightarrow> j < length c1 \<and> norm (de_key (c1 ! j)) = norm key"
        using pos_chain [OF t(4) [OF re] v t(2)] by auto
      let ?r = "case pos_of (\<lambda>he. keyCompare dt key (de_key he)) c1 of Some j \<Rightarrow> Exists True ?i1 j | None \<Rightarrow> Slot ?i1"
      have "dictKeyIndex dt can_resize d key = Inr (?r, d1)"
        using None re unfolding dictKeyIndex_def d1(1) Let_def by (simp add: c0(1) c1(1) split: option.splits)
      moreover have "key_index_ok d1 key ?r"
        using re None c0(4) c1(2-4) t(4) [OF re] map_of_miss [OF ok1]
        by (auto simp: key_index_ok_def at_place_def Let_def split: option.splits)
      ultimately show ?thesis using ok1 d1 by blast
    qed
  qed
qed

text \<open>Replacing one table by a table with other entries.\<close>

definition set_table :: "bool \<Rightarrow> ('k, 'v) dictht \<Rightarrow> ('k, 'v) dict \<Rightarrow> ('k, 'v) dict" where
  "set_table t h d = (if t then d\<lparr>ht1 := h\<rparr> else d\<lparr>ht0 := h\<rparr>)"

definition table_at :: "bool \<Rightarrow> ('k, 'v) dict \<Rightarrow> ('k, 'v) dictht" where
  "table_at t d = (if t then ht1 d else ht0 d)"

lemma table_at_simps: "table_at False d = ht0 d" "table_at True d = ht1 d"
  by (simp_all add: table_at_def)

lemma set_table_sel [simp]:
  "rehashidx (set_table t h d) = rehashidx d" "iterators (set_table t h d) = iterators d"
  "dictIsRehashing (set_table t h d) = dictIsRehashing d"
  by (simp_all add: set_table_def dictIsRehashing_def)

lemma entries_split: "entries d = ht_entries (table_at t d) + ht_entries (table_at (\<not> t) d)"
  by (simp add: entries_def table_at_def)

lemma entries_set_table: "entries (set_table t h d) = ht_entries h + ht_entries (table_at (\<not> t) d)"
  by (simp add: entries_def set_table_def table_at_def)

text \<open>
  A live table may be replaced by a live table that has entries only where the old one had some;
  in the second table, which is only live during a rehash, entries can be anywhere.
\<close>

lemma set_table_ok:
  fixes d :: "('k, 'v) dict"
  assumes ok: "dict_ok d" and old: "ht_live dt (table_at t d)" and live: "ht_live dt h"
    and size: "\<not> t \<Longrightarrow> length (table h) = length (table (table_at t d)) \<and>
      (dictIsRehashing d \<longrightarrow> (\<forall>i < nat (rehashidx d). i < length (table h) \<longrightarrow> table h ! i = []))"
    and u: "uniq norm (entries (set_table t h d))" and ks: "keys_ok (ht_entries h)"
  shows "dict_ok (set_table t h d)"
proof -
  have "\<not> ht_live dt (dictReset :: ('k, 'v) dictht)" by (auto simp: ht_live_def dictReset_def)
  then have "t \<Longrightarrow> dictIsRehashing d"
    using ok old by (auto simp: dict_ok_def dict_wf_def table_at_def split: if_splits)
  moreover have "\<not> t \<Longrightarrow> ht_size h = ht_size (ht0 d)"
    using size live old by (simp add: ht_live_def table_at_def)
  ultimately have "dict_wf dt norm (set_table t h d)"
    using ok live size u by (auto simp: dict_ok_def dict_wf_def set_table_def table_at_def dictIsRehashing_def)
  moreover have "keys_ok (entries (set_table t h d))"
    using ok_tables(1,2) [OF ok] ks unfolding entries_set_table by (auto simp: keys_ok_def table_at_def)
  ultimately show ?thesis by (simp add: dict_ok_def)
qed

lemma push_ok:
  assumes ok: "dict_ok d" and v: "valid key" and live: "ht_live dt (table_at (dictIsRehashing d) d)"
    and idx: "idx = dictHashKey dt key AND sizemask (table_at (dictIsRehashing d) d)"
    and new: "dict_map norm d (norm key) = None"
  shows "\<exists>h. push_entry \<lparr> de_key = key, de_val = val \<rparr> idx (table_at (dictIsRehashing d) d) = Inr h \<and>
    dict_ok (set_table (dictIsRehashing d) h d) \<and>
    entries (set_table (dictIsRehashing d) h d) = add_mset \<lparr> de_key = key, de_val = val \<rparr> (entries d)"
proof -
  let ?t = "dictIsRehashing d" and ?e = "\<lparr> de_key = key, de_val = val \<rparr>"
  obtain h where h: "push_entry ?e idx (table_at ?t d) = Inr h" "ht_live dt h"
      "ht_entries h = add_mset ?e (ht_entries (table_at ?t d))"
    using live_push [OF live, of idx ?e] idx by auto
  have len: "length (table h) = length (table (table_at ?t d))"
    using h(1) by (auto simp: push_entry_def cbind_eq_Inr_iff wr_eq_Inr_iff)
  have e: "entries (set_table ?t h d) = add_mset ?e (entries d)"
    unfolding entries_set_table h(3) entries_split [of d ?t] by simp
  have "uniq norm (entries (set_table ?t h d))"
    unfolding e uniq_add using new dict_map_None [OF dict_ok_uniq [OF ok]] dict_ok_uniq [OF ok] by simp
  moreover have "keys_ok (ht_entries h)"
    using h(3) v ok_tables(1,2) [OF ok] by (auto simp: keys_ok_def table_at_def)
  ultimately have "dict_ok (set_table ?t h d)"
    using set_table_ok [OF ok live h(2)] len by simp
  with h(1) e show ?thesis by blast
qed

lemma dictAddRaw_ok:
  assumes ok: "dict_ok d" and v: "valid key" and small: "size (entries d) < 2 ^ 62"
  shows "\<exists>r d'. dictAddRaw dt can_resize d key val = Inr (r, d') \<and> dict_ok d' \<and> iterators d' = iterators d \<and>
    (case r of
       Added \<Rightarrow> dict_map norm d (norm key) = None \<and> entries d' = add_mset \<lparr> de_key = key, de_val = val \<rparr> (entries d)
     | Existing t idx j \<Rightarrow> dict_map norm d (norm key) \<noteq> None \<and> entries d' = entries d \<and> at_place d' key t idx j
     | Failed \<Rightarrow> False)"
proof -
  obtain d1 where d1: "step_if_rehashing dt d = Inr d1" "dict_ok d1" "entries d1 = entries d" "iterators d1 = iterators d"
    using step_ok [OF ok] by blast
  obtain i d2 where d2: "dictKeyIndex dt can_resize d1 key = Inr (i, d2)" "dict_ok d2" "entries d2 = entries d"
      "iterators d2 = iterators d" "key_index_ok d2 key i"
    using dictKeyIndex_ok [OF d1(2) v, of can_resize] small d1 by auto
  have same: "dict_map norm d = dict_map norm d2" using dict_map_same dict_ok_uniq [OF ok] d2(3) by metis
  show ?thesis
  proof (cases i)
    case (Slot idx)
    let ?t = "dictIsRehashing d2" and ?e = "\<lparr> de_key = key, de_val = val \<rparr>"
    have s: "ht_live dt (table_at ?t d2)" "idx = dictHashKey dt key AND sizemask (table_at ?t d2)"
        "dict_map norm d2 (norm key) = None"
      using d2(5) Slot by (simp_all add: key_index_ok_def table_at_def Let_def)
    obtain h where h: "push_entry ?e idx (table_at ?t d2) = Inr h" "dict_ok (set_table ?t h d2)"
        "entries (set_table ?t h d2) = add_mset ?e (entries d2)"
      using push_ok [OF d2(2) v s] by blast
    have "dictAddRaw dt can_resize d key val = Inr (Added, set_table ?t h d2)"
      using d1(1) d2(1) Slot h(1) by (simp add: dictAddRaw_def table_at_def set_table_def split: if_splits)
    then show ?thesis using h d2 s(3) same by simp
  next
    case (Exists t idx j)
    then have "dictAddRaw dt can_resize d key val = Inr (Existing t idx j, d2)"
      using d1(1) d2(1) by (simp add: dictAddRaw_def)
    moreover have place: "at_place d2 key t idx j" using d2(5) Exists by (simp add: key_index_ok_def)
    then have "table (table_at t d2) ! idx ! j \<in># ht_entries (table_at t d2)"
      by (auto simp: at_place_def Let_def table_at_def ht_entries_def intro!: nth_mem bexI)
    then have "table (table_at t d2) ! idx ! j \<in># entries d2" unfolding entries_split [of d2 t] by simp
    then have "dict_map norm d2 (norm key) \<noteq> None"
      using map_of_hit [OF d2(2)] place by (auto simp: at_place_def Let_def table_at_def split: if_splits)
    ultimately show ?thesis using d2 place same by simp
  next
    case NoSlot
    with d2(5) show ?thesis by (simp add: key_index_ok_def)
  qed
qed

lemma chain_in_entries: "i < length (table (table_at t d)) \<Longrightarrow> mset (table (table_at t d) ! i) \<subseteq># entries d"
  using chain_subset [of i "table (table_at t d)"] unfolding entries_split [of d t] ht_entries_def
  by (rule subset_mset.add_increasing2 [OF empty_le])

text \<open>Changing one chain of one table, which \<open>dictReplace\<close> and \<open>dictDelete\<close> do.\<close>

lemma chain_update_ok:
  assumes ok: "dict_ok d" and live: "ht_live dt (table_at t d)" and i: "i < length (table (table_at t d))"
    and ch: "table (table_at t d) ! i \<noteq> []" "\<forall>e \<in> set c. \<exists>e' \<in> set (table (table_at t d) ! i). de_key e = de_key e'"
    and us: "us + length (table (table_at t d) ! i) = used (table_at t d) + length c"
    and u: "uniq norm (mset c + (entries d - mset (table (table_at t d) ! i)))"
  defines "d' \<equiv> set_table t ((table_at t d)\<lparr>table := (table (table_at t d))[i := c], used := us\<rparr>) d"
  shows "dict_ok d'" "entries d' + mset (table (table_at t d) ! i) = entries d + mset c"
proof -
  let ?h = "table_at t d"
  let ?h' = "?h\<lparr>table := (table ?h)[i := c], used := us\<rparr>"
  have same: "\<forall>e \<in> set c. dictHashKey dt (de_key e) AND sizemask ?h = i"
    using ch(2) live_chain [OF live i] by metis
  note up = live_update [OF live i same us]
  show e: "entries d' + mset (table ?h ! i) = entries d + mset c"
    unfolding d'_def entries_set_table entries_split [of d t] using up(2) by (simp add: ac_simps)
  have sub: "mset (table ?h ! i) \<subseteq># entries d"
    by (rule chain_in_entries [OF i])
  have "entries d' = mset c + (entries d - mset (table ?h ! i))"
    using e sub by (metis add.commute add_diff_cancel_right' subset_mset.add_diff_assoc)
  then have "uniq norm (entries d')" using u by simp
  moreover have keys: "keys_ok (ht_entries ?h)" using ok_tables(1,2) [OF ok] by (simp add: table_at_def)
  have "valid (de_key e)" if "e \<in># ht_entries ?h'" for e
  proof (cases "e \<in> set c")
    case True
    then obtain e' where "e' \<in> set (table ?h ! i)" "de_key e = de_key e'" using ch(2) by blast
    moreover from this(1) have "e' \<in># ht_entries ?h" using i by (auto simp: ht_entries_def)
    ultimately show ?thesis using keys_okD [OF keys] by metis
  next
    case False
    have "e \<in># ht_entries ?h + mset c" using that up(2) by (metis union_iff)
    then show ?thesis using False keys_okD [OF keys] by simp
  qed
  then have "keys_ok (ht_entries ?h')" by (simp add: keys_ok_def)
  moreover have "(table ?h)[i := c] ! j = []"
    if "dictIsRehashing d" "\<not> t" "j < nat (rehashidx d)" "j < length (table ?h)" for j
    using ok ch(1) that by (cases "j = i") (auto simp: dict_ok_def dict_wf_def table_at_def)
  ultimately show "dict_ok d'"
    unfolding d'_def by (intro set_table_ok [OF ok live up(1)]) auto
qed

lemma set_val_ok:
  assumes ok: "dict_ok d" and p: "at_place d key t idx j"
  shows "\<exists>h. set_val_at idx j val (table_at t d) = Inr h \<and> dict_ok (set_table t h d) \<and>
    dict_map norm (set_table t h d) = (dict_map norm d)(norm key \<mapsto> val)"
proof -
  let ?h = "table_at t d"
  let ?ch = "table ?h ! idx"
  let ?e = "?ch ! j" and ?e' = "(?ch ! j)\<lparr>de_val := val\<rparr>"
  let ?c = "?ch[j := ?e']"
  let ?h' = "?h\<lparr>table := (table ?h)[idx := ?c], used := used ?h\<rparr>"
  have pl: "ht_live dt ?h" "idx < length (table ?h)" "j < length ?ch" "norm (de_key ?e) = norm key"
    using p by (simp_all add: at_place_def table_at_def Let_def split: if_splits)
  obtain M where M: "mset ?ch = add_mset ?e M" using pl(3) by (metis multi_member_split nth_mem_mset)
  have Mc: "mset ?c = add_mset ?e' M" using pl(3) M by (simp add: mset_update)
  have sub: "mset ?ch \<subseteq># entries d"
    by (rule chain_in_entries [OF pl(2)])
  then obtain R where R: "entries d = mset ?ch + R" by (metis subset_mset.le_iff_add)
  have u: "uniq norm (entries d)" by (rule dict_ok_uniq [OF ok])
  have rest: "uniq norm (M + R)" "\<forall>x \<in># M + R. norm (de_key x) \<noteq> norm (de_key ?e)"
    using u uniq_add [of norm ?e "M + R"] unfolding R M by simp_all
  then have u': "uniq norm (mset ?c + (entries d - mset ?ch))" unfolding R Mc using uniq_add [of norm ?e' "M + R"] by simp
  have keys: "\<forall>e \<in> set ?c. \<exists>e' \<in> set ?ch. de_key e = de_key e'"
    using pl(3) set_update_subset_insert [of ?ch j ?e'] nth_mem [OF pl(3)] by fastforce
  have ne: "?ch \<noteq> []" using pl(3) by auto
  note up = chain_update_ok [OF ok pl(1,2) ne keys _ u', of "used ?h"]
  have "set_val_at idx j val ?h = Inr ?h'" using pl by (simp add: set_val_at_def)
  moreover have ok': "dict_ok (set_table t ?h' d)" using up(1) by simp
  moreover have "entries (set_table t ?h' d) + mset ?ch = entries d + mset ?c" using up(2) by simp
  then have e': "entries (set_table t ?h' d) = add_mset ?e' (M + R)" unfolding R M Mc by simp
  have "dict_map norm (set_table t ?h' d) = (dict_map norm d)(norm key \<mapsto> val)"
  proof (rule ext, rule option_eqI)
    fix k v
    show "dict_map norm (set_table t ?h' d) k = Some v \<longleftrightarrow> ((dict_map norm d)(norm key \<mapsto> val)) k = Some v"
      using dict_map_Some [OF u, of k v] dict_map_Some [OF dict_ok_uniq [OF ok'], of k v] rest(2) pl(4)
      unfolding e' R M by (cases "k = norm key") auto
  qed
  ultimately show ?thesis by blast
qed

lemma unlink_mset:
  assumes "find P xs = Some x"
  shows "mset xs = add_mset x (mset (unlink P xs))"
  using assms by (induction xs) (auto split: if_splits)

lemma unlink_subset: "set (unlink P xs) \<subseteq> set xs"
  by (induction xs) auto

lemma delete_in_ok:
  assumes ok: "dict_ok d" and v: "valid key" and live: "ht_live dt (table_at t d)"
  shows "\<exists>r h. delete_in dt key (table_at t d) = Inr (r, h) \<and>
    (case r of
       None \<Rightarrow> \<forall>e \<in># ht_entries (table_at t d). norm (de_key e) \<noteq> norm key
     | Some e \<Rightarrow> norm (de_key e) = norm key \<and> dict_ok (set_table t h d) \<and>
         entries d = add_mset e (entries (set_table t h d)))"
proof -
  let ?h = "table_at t d"
  let ?i = "dictHashKey dt key AND sizemask ?h" and ?P = "\<lambda>he. keyCompare dt key (de_key he)"
  let ?ch = "table ?h ! ?i"
  have ks: "keys_ok (ht_entries ?h)" using ok_tables(1,2) [OF ok] by (simp add: table_at_def)
  have i: "?i < length (table ?h)" by (rule live_index [OF live])
  have f: "case find ?P ?ch of
       None \<Rightarrow> \<forall>e \<in># ht_entries ?h. norm (de_key e) \<noteq> norm key
     | Some e \<Rightarrow> e \<in># ht_entries ?h \<and> norm (de_key e) = norm key"
    using find_chain [OF live v ks] i by (auto simp: chain_of_def)
  show ?thesis
  proof (cases "find ?P ?ch")
    case None
    then show ?thesis using f i by (simp add: delete_in_def Let_def)
  next
    case (Some e)
    let ?c = "unlink ?P ?ch"
    let ?h' = "?h\<lparr>table := (table ?h)[?i := ?c], used := dec_ul (used ?h)\<rparr>"
    have m: "mset ?ch = add_mset e (mset ?c)" by (rule unlink_mset [OF Some])
    have ne: "?ch \<noteq> []" using Some by auto
    have keys: "\<forall>x \<in> set ?c. \<exists>x' \<in> set ?ch. de_key x = de_key x'" using unlink_subset [of ?P ?ch] by blast
    have len: "length ?ch = length ?c + 1" using m by (metis size_mset size_add_mset Suc_eq_plus1)
    have us: "dec_ul (used ?h) + length ?ch = used ?h + length ?c"
      using live_clear_bucket(1) [OF live i] len by (simp add: dec_ul_def)
    obtain R where R: "entries d = mset ?ch + R" using chain_in_entries [OF i] by (metis subset_mset.le_iff_add)
    have "uniq norm (mset ?c + R)" using dict_ok_uniq [OF ok] unfolding R m by (simp add: uniq_add)
    then have u: "uniq norm (mset ?c + (entries d - mset ?ch))" unfolding R by simp
    note up = chain_update_ok [OF ok live i ne keys us u]
    have "delete_in dt key ?h = Inr (Some e, ?h')" using Some i by (simp add: delete_in_def Let_def)
    moreover have "entries d = add_mset e (entries (set_table t ?h' d))" using up(2) unfolding m by simp
    ultimately show ?thesis using up(1) f Some by simp
  qed
qed

lemma dictGenericDelete_ok:
  assumes ok: "dict_ok d" and v: "valid key"
  shows "\<exists>r d'. dictGenericDelete dt d key = Inr (r, d') \<and> dict_ok d' \<and> iterators d' = iterators d \<and>
    dict_map norm d (norm key) = map_option de_val r \<and>
    dict_map norm d' = (dict_map norm d)(norm key := None) \<and>
    entries d = entries d' + (case r of None \<Rightarrow> {#} | Some e \<Rightarrow> {#e#})"
proof (cases "entries d = {#}")
  case True
  then have "dictGenericDelete dt d key = Inr (None, d)" using no_entries [OF ok] by (simp add: dictGenericDelete_def)
  moreover have "dict_map norm d (norm key) = None"
    using True dict_map_None [OF dict_ok_uniq [OF ok]] by simp
  ultimately show ?thesis using ok by (simp add: fun_upd_idem)
next
  case False
  then have some: "\<not> (used (ht0 d) = 0 \<and> used (ht1 d) = 0)" using no_entries [OF ok] by simp
  obtain d1 where d1: "step_if_rehashing dt d = Inr d1" "dict_ok d1" "entries d1 = entries d" "iterators d1 = iterators d"
    using step_ok [OF ok] by blast
  note t = ok_tables [OF d1(2)]
  have same: "dict_map norm d = dict_map norm d1" using dict_map_same dict_ok_uniq [OF ok] d1(3) by metis
  note start = dictGenericDelete_def [of dt d key, unfolded if_not_P [OF some] d1(1) cbind_Inr]
  have hit: "dict_map norm d (norm key) = Some (de_val e) \<and> dict_map norm d' = (dict_map norm d)(norm key := None)"
    if "entries d1 = add_mset e (entries d')" "norm (de_key e) = norm key" for e d'
    using dict_map_remove [OF that(1) refl dict_ok_uniq [OF d1(2)]] map_of_hit [OF d1(2), of e "norm key"] that same by simp
  obtain r0 h0 where r0: "delete_in dt key (ht0 d1) = Inr (r0, h0)"
      "case r0 of None \<Rightarrow> \<forall>e \<in># ht_entries (ht0 d1). norm (de_key e) \<noteq> norm key
       | Some e \<Rightarrow> norm (de_key e) = norm key \<and> dict_ok (set_table False h0 d1) \<and>
           entries d1 = add_mset e (entries (set_table False h0 d1))"
    using delete_in_ok [OF d1(2) v, of False, unfolded table_at_simps] t(3) False d1(3) by auto
  show ?thesis
  proof (cases r0)
    case (Some e)
    then have "dictGenericDelete dt d key = Inr (Some e, set_table False h0 d1)"
      using r0(1) by (simp add: start set_table_def)
    moreover note hit [of e "set_table False h0 d1"]
    ultimately show ?thesis using r0(2) Some d1 by simp
  next
    case None
    show ?thesis
    proof (cases "dictIsRehashing d1")
      case nr: False
      then have "dictGenericDelete dt d key = Inr (None, d1)" using r0(1) None by (simp add: start)
      moreover have "dict_map norm d1 (norm key) = None" using map_of_miss [OF d1(2)] r0(2) None t(5) [OF nr] by simp
      ultimately show ?thesis using d1 same by (simp add: fun_upd_idem)
    next
      case re: True
      obtain r1 h1 where r1: "delete_in dt key (ht1 d1) = Inr (r1, h1)"
          "case r1 of None \<Rightarrow> \<forall>e \<in># ht_entries (ht1 d1). norm (de_key e) \<noteq> norm key
           | Some e \<Rightarrow> norm (de_key e) = norm key \<and> dict_ok (set_table True h1 d1) \<and>
               entries d1 = add_mset e (entries (set_table True h1 d1))"
        using delete_in_ok [OF d1(2) v, of True, unfolded table_at_simps] t(4) [OF re] by auto
      show ?thesis
      proof (cases r1)
        case (Some e)
        then have "dictGenericDelete dt d key = Inr (Some e, set_table True h1 d1)"
          using r0(1) r1(1) None re by (simp add: start set_table_def)
        moreover note hit [of e "set_table True h1 d1"]
        ultimately show ?thesis using r1(2) Some d1 by simp
      next
        case none: None
        then have "dictGenericDelete dt d key = Inr (None, d1)" using r0(1) r1(1) None re by (simp add: start)
        moreover have "dict_map norm d1 (norm key) = None" using map_of_miss [OF d1(2)] r0(2) r1(2) None none by simp
        ultimately show ?thesis using d1 same by (simp add: fun_upd_idem)
      qed
    qed
  qed
qed

lemma dictFetchValue_ok:
  assumes ok: "dict_ok d" and v: "valid key"
  shows "\<exists>d'. dictFetchValue dt d key = Inr (dict_map norm d (norm key), d') \<and> dict_ok d' \<and> dict_map norm d' = dict_map norm d"
proof -
  obtain r d' where "dictFind dt d key = Inr (r, d')" "dict_ok d'" "entries d' = entries d"
      "dict_map norm d (norm key) = map_option de_val r"
    using dictFind_ok [OF ok v] by blast
  then show ?thesis using dict_map_same [OF dict_ok_uniq [OF ok], of d'] by (simp add: dictFetchValue_def)
qed

lemma dictAdd_ok:
  assumes ok: "dict_ok d" and v: "valid key" and small: "size (entries d) < 2 ^ 62"
  shows "\<exists>d'. dictAdd dt can_resize d key val = Inr (dict_map norm d (norm key) = None, d') \<and> dict_ok d' \<and>
    dict_map norm d' = (if dict_map norm d (norm key) = None then (dict_map norm d)(norm key \<mapsto> val) else dict_map norm d)"
proof -
  obtain r d' where r: "dictAddRaw dt can_resize d key val = Inr (r, d')" "dict_ok d'"
    "case r of
       Added \<Rightarrow> dict_map norm d (norm key) = None \<and> entries d' = add_mset \<lparr> de_key = key, de_val = val \<rparr> (entries d)
     | Existing t idx j \<Rightarrow> dict_map norm d (norm key) \<noteq> None \<and> entries d' = entries d \<and> at_place d' key t idx j
     | Failed \<Rightarrow> False"
    using dictAddRaw_ok [OF assms, of can_resize val] by blast
  show ?thesis
    using r dict_map_insert [of d "entries d" d', OF refl _ dict_ok_uniq [OF r(2)]] dict_map_same [OF dict_ok_uniq [OF ok], of d']
    by (cases r) (auto simp: dictAdd_def)
qed

lemma dictReplace_ok:
  assumes ok: "dict_ok d" and v: "valid key" and small: "size (entries d) < 2 ^ 62"
  shows "\<exists>d'. dictReplace dt can_resize d key val = Inr (dict_map norm d (norm key) = None, d') \<and> dict_ok d' \<and>
    dict_map norm d' = (dict_map norm d)(norm key \<mapsto> val)"
proof -
  obtain r d1 where r: "dictAddRaw dt can_resize d key val = Inr (r, d1)" "dict_ok d1"
    "case r of
       Added \<Rightarrow> dict_map norm d (norm key) = None \<and> entries d1 = add_mset \<lparr> de_key = key, de_val = val \<rparr> (entries d)
     | Existing t idx j \<Rightarrow> dict_map norm d (norm key) \<noteq> None \<and> entries d1 = entries d \<and> at_place d1 key t idx j
     | Failed \<Rightarrow> False"
    using dictAddRaw_ok [OF assms, of can_resize val] by blast
  show ?thesis
  proof (cases r)
    case Added
    then show ?thesis
      using r dict_map_insert [of d "entries d" d1, OF refl _ dict_ok_uniq [OF r(2)]] by (auto simp: dictReplace_def)
  next
    case (Existing t idx j)
    then have p: "at_place d1 key t idx j" and e: "entries d1 = entries d" and ne: "dict_map norm d (norm key) \<noteq> None"
      using r(3) by simp_all
    obtain h where h: "set_val_at idx j val (table_at t d1) = Inr h" "dict_ok (set_table t h d1)"
        "dict_map norm (set_table t h d1) = (dict_map norm d1)(norm key \<mapsto> val)"
      using set_val_ok [OF r(2) p] by blast
    have "dictReplace dt can_resize d key val = Inr (False, set_table t h d1)"
      using r(1) Existing h(1) by (cases t) (simp_all add: dictReplace_def table_at_def set_table_def)
    then show ?thesis using h ne dict_map_same [OF dict_ok_uniq [OF ok] e] by simp
  next
    case Failed
    with r(3) show ?thesis by simp
  qed
qed

lemma size_uniq: "uniq norm M \<Longrightarrow> size M = card ((\<lambda>e. norm (de_key e)) ` set_mset M)"
proof (induction M)
  case (add e M)
  then have "norm (de_key e) \<notin> (\<lambda>e. norm (de_key e)) ` set_mset M" by (auto simp: uniq_add)
  with add show ?case by (simp add: uniq_add)
qed simp

lemma dom_dict_map: "dict_ok d \<Longrightarrow> dom (dict_map norm d) = (\<lambda>e. norm (de_key e)) ` set_mset (entries d)"
  using dict_map_Some [OF dict_ok_uniq [of d]] by (auto simp: dom_def)

lemma card_dom: "dict_ok d \<Longrightarrow> card (dom (dict_map norm d)) = size (entries d)"
  by (simp add: dom_dict_map size_uniq [OF dict_ok_uniq])

lemma dictRehash_keeps:
  assumes "dict_ok d"
  shows "\<exists>more d'. dictRehash dt n d = Inr (more, d') \<and> dict_ok d' \<and> entries d' = entries d"
proof (cases n)
  case 0
  show ?thesis
  proof (cases "dictIsRehashing d")
    case True
    then have ok: "rehashing_ok dt d" using assms by (simp add: dict_ok_def dict_wf_rehashing)
    show ?thesis
    proof (cases "used (ht0 d) = 0")
      case u: True
      let ?d = "d\<lparr>ht0 := ht1 d, ht1 := dictReset, rehashidx := -1\<rparr>"
      have "ht_entries (ht0 d) = {#}" using u ok by (simp add: rehashing_ok_def ht_live_def)
      then have "entries ?d = entries d" by (simp add: entries_def)
      moreover from this have "dict_ok ?d"
        using ok assms unfolding dict_ok_def dict_wf_def rehashing_ok_def dictIsRehashing_def by simp
      moreover have "dictRehash dt n d = Inr (False, ?d)" using 0 True u by (simp add: dictRehash_def)
      ultimately show ?thesis by blast
    next
      case False
      then have "dictRehash dt n d = Inr (True, d)" using 0 True by (simp add: dictRehash_def)
      then show ?thesis using assms by blast
    qed
  next
    case False
    then have "dictRehash dt n d = Inr (False, d)" by (simp add: dictRehash_def)
    then show ?thesis using assms by blast
  qed
next
  case (Suc m)
  then show ?thesis using dictRehash_ok [of dt norm d n] assms by (auto simp: dict_ok_def)
qed

lemma dictRehashMilliseconds_keeps:
  assumes "dict_ok d"
  shows "\<exists>r d'. dictRehashMilliseconds dt n d = Inr (r, d') \<and> dict_ok d' \<and> entries d' = entries d"
  using assms
proof (induction n arbitrary: d)
  case 0
  then show ?case using dictRehash_keeps [of d 100] by auto
next
  case (Suc n)
  obtain more d1 where d1: "dictRehash dt 100 d = Inr (more, d1)" "dict_ok d1" "entries d1 = entries d"
    using dictRehash_keeps [OF Suc.prems] by blast
  obtain r d2 where "dictRehashMilliseconds dt n d1 = Inr (r, d2)" "dict_ok d2" "entries d2 = entries d1"
    using Suc.IH [OF d1(2)] by blast
  with d1 show ?case by (cases more) simp_all
qed

lemma iterators_irrelevant [simp]:
  "dict_ok (d\<lparr>iterators := i\<rparr>) = dict_ok d" "entries (d\<lparr>iterators := i\<rparr>) = entries d"
  by (simp_all add: dict_ok_def dict_wf_def dictIsRehashing_def entries_def)

lemma maintain_keeps:
  assumes "dict_ok (dict_of s)"
  shows "\<exists>s'. dict_maintain dt s m = Inr s' \<and> dict_ok (dict_of s') \<and> entries (dict_of s') = entries (dict_of s)"
proof (cases m)
  case Resize
  then show ?thesis
    using dictResize_ok [of dt norm "dict_of s"] assms by (simp add: dict_maintain_def dict_ok_def)
next
  case (Rehash n)
  then show ?thesis using dictRehash_keeps [OF assms, of n] by (auto simp: dict_maintain_def)
next
  case (RehashMs n)
  then show ?thesis using dictRehashMilliseconds_keeps [OF assms, of n] by (auto simp: dict_maintain_def)
qed (use assms in \<open>simp_all add: dict_maintain_def dictEnableResize_def dictDisableResize_def\<close>)

lemma dictCreate_ok: "dict_ok (dictCreate :: ('k, 'v) dict)" "dict_map norm dictCreate = Map.empty"
proof -
  have "entries (dictCreate :: ('k, 'v) dict) = {#}" by (simp add: entries_def dictCreate_def)
  then show "dict_ok (dictCreate :: ('k, 'v) dict)"
    by (simp add: dict_ok_def dict_wf_def dictCreate_def dictIsRehashing_def uniq_def keys_ok_def)
  show "dict_map norm dictCreate = Map.empty"
    by (simp add: dict_map_def dictCreate_def dictReset_def fun_eq_iff)
qed

end

section \<open>Clearing\<close>

lemma clear_loop_all: "clear_loop t (length (concat t)) = concat t"
proof (induction t)
  case (Cons b bs)
  then show ?case by (cases "concat (b # bs) = []") auto
qed simp

lemma dictClear_live:
  assumes "h = dictReset \<or> ht_live dt h"
  shows "mset (fst (dictClear h)) = ht_entries h" "snd (dictClear h) = dictReset"
proof -
  have "take (ht_size h) (table h) = table h" "used h = length (concat (table h))"
    using assms by (auto simp: dictReset_def ht_live_def ht_entries_def simp del: length_concat)
  then show "mset (fst (dictClear h)) = ht_entries h"
    by (simp add: dictClear_def clear_loop_all ht_entries_def del: length_concat)
  show "snd (dictClear h) = dictReset" by (simp add: dictClear_def)
qed

lemma wf_tables: "dict_wf dt norm d \<Longrightarrow> (ht0 d = dictReset \<or> ht_live dt (ht0 d)) \<and> (ht1 d = dictReset \<or> ht_live dt (ht1 d))"
  by (auto simp: dict_wf_def split: if_splits)

sublocale dict_type \<subseteq> dmap: map_impl "dict_ops dt" "\<lambda>s. dict_ok (dict_of s)" "\<lambda>s. dict_map norm (dict_of s)" norm valid "2 ^ 62"
proof
  fix s :: "('k, 'v) dict_sys" and k :: 'k and v :: 'v and m
  assume ok: "dict_ok (dict_of s)"
  show "finite (dom (dict_map norm (dict_of s)))" by (simp add: dom_dict_map [OF ok])
  show "\<exists>s'. maintain_op (dict_ops dt) s m = Inr s' \<and> dict_ok (dict_of s') \<and>
      dict_map norm (dict_of s') = dict_map norm (dict_of s)"
  proof -
    obtain s' where s': "dict_maintain dt s m = Inr s'" "dict_ok (dict_of s')" "entries (dict_of s') = entries (dict_of s)"
      using maintain_keeps [OF ok] by blast
    show ?thesis using s'(1,2) dict_map_same [OF dict_ok_uniq [OF ok] s'(3)] by (simp add: dict_ops_def)
  qed
  assume v: "valid k"
  show "\<exists>s'. find_op (dict_ops dt) s k = Inr (dict_map norm (dict_of s) (norm k), s') \<and> dict_ok (dict_of s') \<and>
      dict_map norm (dict_of s') = dict_map norm (dict_of s)"
    using dictFetchValue_ok [OF ok v] by (auto simp: dict_ops_def)
  show "\<exists>s'. delete_op (dict_ops dt) s k = Inr (dict_map norm (dict_of s) (norm k) \<noteq> None, s') \<and> dict_ok (dict_of s') \<and>
      dict_map norm (dict_of s') = (dict_map norm (dict_of s))(norm k := None)"
    using dictGenericDelete_ok [OF ok v] by (auto simp: dict_ops_def dictDelete_def)
  assume "card (dom (dict_map norm (dict_of s))) < 2 ^ 62"
  then have small: "size (entries (dict_of s)) < 2 ^ 62" by (simp add: card_dom [OF ok])
  show "\<exists>s'. insert_op (dict_ops dt) s k v = Inr (dict_map norm (dict_of s) (norm k) = None, s') \<and> dict_ok (dict_of s') \<and>
      dict_map norm (dict_of s') = (if dict_map norm (dict_of s) (norm k) = None
        then (dict_map norm (dict_of s))(norm k \<mapsto> v) else dict_map norm (dict_of s))"
    using dictAdd_ok [OF ok v small, of "dict_can_resize s" v] by (auto simp: dict_ops_def)
  show "\<exists>s'. replace_op (dict_ops dt) s k v = Inr (dict_map norm (dict_of s) (norm k) = None, s') \<and> dict_ok (dict_of s') \<and>
      dict_map norm (dict_of s') = (dict_map norm (dict_of s))(norm k \<mapsto> v)"
    using dictReplace_ok [OF ok v small, of "dict_can_resize s" v] by (auto simp: dict_ops_def)
qed

end
