(* ===== verification/Siphash.thy ===== *)
theory Siphash
  imports Bytes CString
begin

text \<open>
  \<open>siphash.c\<close>: the keyed hash function of the dictionaries, SipHash with one round per block and two
  rounds at the end, in a variant that is exact and one that ignores the case of letters. The two
  reads of the code, one unaligned load or eight shifted bytes, are the same function of eight
  bytes; the little-endian build is modelled. The reference is the published definition of SipHash
  with \<open>c\<close> and \<open>d\<close> rounds: it shares no definition with the code, rotates with \<open>word_rotl\<close>, builds a
  round from two half rounds and takes its constants from their text.
\<close>

definition siptlw :: "byte \<Rightarrow> byte" where
  "siptlw c = (if 65 \<le> c \<and> c \<le> 90 then c + (97 - 65) else c)"

definition ROTL :: "u64 \<Rightarrow> nat \<Rightarrow> u64" where
  "ROTL x b = push_bit b x OR drop_bit (64 - b) x"

definition U8TO64_LE :: "byte list \<Rightarrow> u64" where
  "U8TO64_LE p = bytes_word (take 8 p)"

definition U8TO64_LE_NOCASE :: "byte list \<Rightarrow> u64" where
  "U8TO64_LE_NOCASE p =
     ucast (siptlw (p ! 0)) OR push_bit 8 (ucast (siptlw (p ! 1))) OR push_bit 16 (ucast (siptlw (p ! 2))) OR
     push_bit 24 (ucast (siptlw (p ! 3))) OR push_bit 32 (ucast (siptlw (p ! 4))) OR push_bit 40 (ucast (siptlw (p ! 5))) OR
     push_bit 48 (ucast (siptlw (p ! 6))) OR push_bit 56 (ucast (siptlw (p ! 7)))"

record sip_state =
  v0 :: u64
  v1 :: u64
  v2 :: u64
  v3 :: u64

definition SIPROUND :: "sip_state \<Rightarrow> sip_state" where
  "SIPROUND s =
     (let s = s\<lparr>v0 := v0 s + v1 s\<rparr>; s = s\<lparr>v1 := ROTL (v1 s) 13\<rparr>; s = s\<lparr>v1 := v1 s XOR v0 s\<rparr>; s = s\<lparr>v0 := ROTL (v0 s) 32\<rparr>;
          s = s\<lparr>v2 := v2 s + v3 s\<rparr>; s = s\<lparr>v3 := ROTL (v3 s) 16\<rparr>; s = s\<lparr>v3 := v3 s XOR v2 s\<rparr>;
          s = s\<lparr>v0 := v0 s + v3 s\<rparr>; s = s\<lparr>v3 := ROTL (v3 s) 21\<rparr>; s = s\<lparr>v3 := v3 s XOR v0 s\<rparr>;
          s = s\<lparr>v2 := v2 s + v1 s\<rparr>; s = s\<lparr>v1 := ROTL (v1 s) 17\<rparr>; s = s\<lparr>v1 := v1 s XOR v2 s\<rparr>
      in s\<lparr>v2 := ROTL (v2 s) 32\<rparr>)"

text \<open>The initial state under the 16 bytes of the seed.\<close>

definition sip_init :: "byte list \<Rightarrow> sip_state" where
  "sip_init k =
     (let k0 = U8TO64_LE k; k1 = U8TO64_LE (drop 8 k) in
      \<lparr> v0 = 0x736f6d6570736575 XOR k0, v1 = 0x646f72616e646f6d XOR k1,
        v2 = 0x6c7967656e657261 XOR k0, v3 = 0x7465646279746573 XOR k1 \<rparr>)"

definition sip_block :: "u64 \<Rightarrow> sip_state \<Rightarrow> sip_state" where
  "sip_block m s = (let s = SIPROUND (s\<lparr>v3 := v3 s XOR m\<rparr>) in s\<lparr>v0 := v0 s XOR m\<rparr>)"

text \<open>The loop over the blocks of eight bytes; it returns what is left of the input.\<close>

function sip_loop :: "(byte list \<Rightarrow> u64) \<Rightarrow> byte list \<Rightarrow> sip_state \<Rightarrow> byte list \<times> sip_state" where
  "sip_loop rd64 inp s = (if length inp < 8 then (inp, s) else sip_loop rd64 (drop 8 inp) (sip_block (rd64 inp) s))"
  by auto
termination by (relation "measure (\<lambda>(rd64, inp, s). length inp)") auto

declare sip_loop.simps [simp del]

text \<open>The \<open>switch\<close> over the rest, whose cases fall through.\<close>

definition sip_switch :: "(byte \<Rightarrow> byte) \<Rightarrow> nat \<Rightarrow> byte list \<Rightarrow> u64 \<Rightarrow> u64" where
  "sip_switch low left inp b =
     (let b = (if left \<ge> 7 then b OR push_bit 48 (ucast (low (inp ! 6))) else b);
          b = (if left \<ge> 6 then b OR push_bit 40 (ucast (low (inp ! 5))) else b);
          b = (if left \<ge> 5 then b OR push_bit 32 (ucast (low (inp ! 4))) else b);
          b = (if left \<ge> 4 then b OR push_bit 24 (ucast (low (inp ! 3))) else b);
          b = (if left \<ge> 3 then b OR push_bit 16 (ucast (low (inp ! 2))) else b);
          b = (if left \<ge> 2 then b OR push_bit 8 (ucast (low (inp ! 1))) else b);
          b = (if left \<ge> 1 then b OR ucast (low (inp ! 0)) else b)
      in b)"

definition sip_finish :: "sip_state \<Rightarrow> u64" where
  "sip_finish s = (let s = SIPROUND (SIPROUND (s\<lparr>v2 := v2 s XOR 0xff\<rparr>)) in v0 s XOR v1 s XOR v2 s XOR v3 s)"

definition siphash :: "byte list \<Rightarrow> byte list \<Rightarrow> u64" where
  "siphash inp k =
     (case sip_loop U8TO64_LE inp (sip_init k) of (rest, s) \<Rightarrow>
      let b = sip_switch (\<lambda>c. c) (length inp mod 8) rest (push_bit 56 (word_of_nat (length inp)))
      in sip_finish (sip_block b s))"

definition siphash_nocase :: "byte list \<Rightarrow> byte list \<Rightarrow> u64" where
  "siphash_nocase inp k =
     (case sip_loop U8TO64_LE_NOCASE inp (sip_init k) of (rest, s) \<Rightarrow>
      let b = sip_switch siptlw (length inp mod 8) rest (push_bit 56 (word_of_nat (length inp)))
      in sip_finish (sip_block b s))"

section \<open>The reference\<close>

text \<open>The message padded with zeros and its length modulo 256 to a multiple of eight bytes.\<close>

definition sip_pad :: "byte list \<Rightarrow> byte list" where
  "sip_pad msg = msg @ replicate (7 - length msg mod 8) 0 @ [word_of_nat (length msg)]"

fun sip_blocks :: "byte list \<Rightarrow> u64 list" where
  "sip_blocks (a # b # c # d # e # f # g # h # bs) = word_of_nat (le_val [a, b, c, d, e, f, g, h]) # sip_blocks bs"
| "sip_blocks bs = []"

lemma sip_blocks_bytes: "sip_blocks (a # b # c # d # e # f # g # h # bs) = bytes_word [a, b, c, d, e, f, g, h] # sip_blocks bs"
  by (simp only: sip_blocks.simps bytes_word_def)

declare sip_blocks.simps(1) [simp del]
declare sip_blocks_bytes [simp]

definition sip_text :: "string \<Rightarrow> u64" where
  "sip_text t = foldl (\<lambda>w c. 256 * w + of_char c) 0 t"

type_synonym sip_words = "u64 \<times> u64 \<times> u64 \<times> u64"

text \<open>A half round mixes two pairs of words, in place, with a rotation for each.\<close>

fun half_round :: "nat \<Rightarrow> nat \<Rightarrow> sip_words \<Rightarrow> sip_words" where
  "half_round m n (a, b, c, d) = (word_rotl 32 (a + b), word_rotl m b XOR (a + b), c + d, word_rotl n d XOR (c + d))"

fun swap02 :: "sip_words \<Rightarrow> sip_words" where
  "swap02 (a, b, c, d) = (c, b, a, d)"

definition ref_round :: "sip_words \<Rightarrow> sip_words" where
  "ref_round w = swap02 (half_round 17 21 (swap02 (half_round 13 16 w)))"

fun ref_compress :: "nat \<Rightarrow> u64 \<Rightarrow> sip_words \<Rightarrow> sip_words" where
  "ref_compress c m (a, b, x, d) = (case (ref_round ^^ c) (a, b, x, d XOR m) of (a, b, x, d) \<Rightarrow> (a XOR m, b, x, d))"

fun ref_finish :: "nat \<Rightarrow> sip_words \<Rightarrow> u64" where
  "ref_finish n (a, b, x, d) = (case (ref_round ^^ n) (a, b, x XOR 255, d) of (a, b, x, d) \<Rightarrow> a XOR b XOR x XOR d)"

definition ref_init :: "u64 \<Rightarrow> u64 \<Rightarrow> sip_words" where
  "ref_init k0 k1 = (k0 XOR sip_text ''somepseu'', k1 XOR sip_text ''dorandom'', k0 XOR sip_text ''lygenera'', k1 XOR sip_text ''tedbytes'')"

definition siphash_c_d :: "nat \<Rightarrow> nat \<Rightarrow> byte list \<Rightarrow> byte list \<Rightarrow> u64" where
  "siphash_c_d c d k msg =
     ref_finish d (fold (ref_compress c) (sip_blocks (sip_pad msg)) (ref_init (word_of_nat (le_val (take 8 k))) (word_of_nat (le_val (take 8 (drop 8 k))))))"

section \<open>Rounds\<close>

text \<open>The steps of the code from its own pieces.\<close>

definition sip_steps :: "byte list \<Rightarrow> byte list \<Rightarrow> u64" where
  "sip_steps k msg = sip_finish (fold sip_block (sip_blocks (sip_pad msg)) (sip_init k))"

definition words_of :: "sip_state \<Rightarrow> sip_words" where
  "words_of s = (v0 s, v1 s, v2 s, v3 s)"

lemma ROTL_rotl: "b < 64 \<Longrightarrow> 0 < b \<Longrightarrow> ROTL x b = word_rotl b x"
proof (rule bit_word_eqI)
  fix n assume b: "b < 64" "0 < b" and n: "n < LENGTH(64)"
  have r: "bit (word_rotl b x) n = bit x ((n + (64 - b)) mod 64)" using b n by (simp add: bit_word_rotl_iff)
  have l: "bit (ROTL x b) n \<longleftrightarrow> b \<le> n \<and> bit x (n - b) \<or> bit x (64 - b + n)" using n by (auto simp: ROTL_def bit_or_iff bit_push_bit_iff bit_drop_bit_eq)
  show "bit (ROTL x b) n = bit (word_rotl b x) n"
  proof (cases "n < b")
    case True
    then have "(n + (64 - b)) mod 64 = 64 - b + n" using b by simp
    then show ?thesis using True unfolding r l by simp
  next
    case False
    then have "n + (64 - b) = n - b + 64" "n - b < 64" using b n by simp_all
    then have "(n + (64 - b)) mod 64 = n - b" by simp
    moreover have "\<not> bit x (64 - b + n)" using False b bit_imp_le_length [of x "64 - b + n"] by auto
    ultimately show ?thesis using False unfolding r l by simp
  qed
qed

lemma SIPROUND_ref: "words_of (SIPROUND s) = ref_round (words_of s)"
  by (simp add: SIPROUND_def Let_def words_of_def ref_round_def ROTL_rotl)

lemma sip_block_ref: "words_of (sip_block m s) = ref_compress 1 m (words_of s)"
  using SIPROUND_ref [of "s\<lparr>v3 := v3 s XOR m\<rparr>", symmetric] by (simp add: sip_block_def Let_def words_of_def)

lemma sip_finish_ref: "sip_finish s = ref_finish 2 (words_of s)"
proof -
  let ?s = "s\<lparr>v2 := v2 s XOR 0xff\<rparr>"
  have "(ref_round ^^ 2) (words_of ?s) = words_of (SIPROUND (SIPROUND ?s))" by (simp add: SIPROUND_ref numeral_2_eq_2)
  then show ?thesis by (simp add: sip_finish_def Let_def words_of_def)
qed

lemma sip_init_ref: "words_of (sip_init k) = ref_init (word_of_nat (le_val (take 8 k))) (word_of_nat (le_val (take 8 (drop 8 k))))"
proof -
  have t: "sip_text ''somepseu'' = 0x736f6d6570736575" "sip_text ''dorandom'' = 0x646f72616e646f6d" "sip_text ''lygenera'' = 0x6c7967656e657261"
    "sip_text ''tedbytes'' = 0x7465646279746573" by (simp_all add: sip_text_def)
  show ?thesis unfolding ref_init_def t by (simp add: sip_init_def Let_def words_of_def U8TO64_LE_def bytes_word_def xor.commute)
qed

lemma sip_steps_ref: "sip_steps k msg = siphash_c_d 1 2 k msg"
proof -
  have "words_of (fold sip_block bs s) = fold (ref_compress 1) bs (words_of s)" for bs s by (induction bs arbitrary: s) (simp_all only: fold_simps sip_block_ref)
  then show ?thesis by (simp add: sip_steps_def siphash_c_d_def sip_finish_ref sip_init_ref)
qed

section \<open>Bytes of a word\<close>

fun or_bytes :: "byte list \<Rightarrow> u64" where
  "or_bytes [] = 0"
| "or_bytes (b # bs) = ucast b OR push_bit 8 (or_bytes bs)"

lemma bytes_word_or: "bytes_word bs = or_bytes bs"
proof (induction bs)
  case Nil
  show ?case by (simp add: bytes_word_def)
next
  case (Cons b bs)
  have "bytes_word (b # bs) = (ucast b :: u64) + push_bit 8 (bytes_word bs)"
    by (simp add: bytes_word_def push_bit_eq_mult mult.commute)
  also have "\<dots> = ucast b OR push_bit 8 (bytes_word bs)"
    by (rule disjunctive_add_eq_or, rule bit_word_eqI) (auto simp: bit_simps dest: bit_imp_le_length)
  finally show ?case by (simp add: Cons)
qed

section \<open>The padded last block\<close>

lemma push_bit_or_64: "push_bit n (x OR y) = push_bit n x OR push_bit n (y :: u64)"
  by simp

lemma len_byte: "push_bit 56 (word_of_nat n :: u64) = push_bit 56 (ucast (word_of_nat n :: byte))"
  by (rule bit_word_eqI) (auto simp: bit_simps)

lemmas or_bytes_simps = push_bit_push_bit push_bit_or_64 or.assoc or.commute or.left_commute

lemma length_less_8_cases:
  assumes "length xs < 8"
  obtains "xs = []" | a where "xs = [a]" | a b where "xs = [a, b]" | a b c where "xs = [a, b, c]"
    | a b c d where "xs = [a, b, c, d]" | a b c d e where "xs = [a, b, c, d, e]"
    | a b c d e f where "xs = [a, b, c, d, e, f]" | a b c d e f g where "xs = [a, b, c, d, e, f, g]"
proof -
  have "length xs = 0 \<or> length xs = 1 \<or> length xs = 2 \<or> length xs = 3 \<or> length xs = 4 \<or> length xs = 5 \<or>
      length xs = 6 \<or> length xs = 7" using assms by arith
  then show thesis
    using that by (auto simp: numeral_eq_Suc length_Suc_conv)
qed

lemma switch_is_block:
  assumes "length rest < 8"
  shows "sip_switch low (length rest) rest (push_bit 56 (word_of_nat n)) =
    bytes_word (map low rest @ replicate (7 - length rest) 0 @ [word_of_nat n])"
  unfolding bytes_word_or len_byte
  by (rule length_less_8_cases [OF assms])
    (simp_all add: sip_switch_def Let_def numeral_eq_Suc or_bytes_simps)

lemma eight_cases:
  assumes "\<not> length xs < 8"
  obtains a b c d e f g h ys where "xs = a # b # c # d # e # f # g # h # ys"
proof -
  have "8 \<le> length xs" using assms by simp
  then show thesis using that by (auto simp: numeral_eq_Suc Suc_le_length_iff)
qed

lemma length_8:
  assumes "length xs = 8"
  obtains a b c d e f g h where "xs = [a, b, c, d, e, f, g, h]"
  using assms by (rule_tac eight_cases [of xs]) auto

lemma nocase_block:
  "\<not> length inp < 8 \<Longrightarrow> U8TO64_LE_NOCASE inp = bytes_word (map siptlw (take 8 inp))"
  unfolding bytes_word_or by (erule eight_cases) (simp add: U8TO64_LE_NOCASE_def or_bytes_simps)

text \<open>The loop consumes the whole blocks and leaves a rest of fewer than eight bytes.\<close>

lemma sip_loop_blocks:
  assumes rd: "\<And>p. \<not> length p < 8 \<Longrightarrow> rd64 p = bytes_word (map low (take 8 p))" and tail: "length inp mod 8 + length pad = 8"
  shows "\<exists>rest s'. sip_loop rd64 inp s = (rest, s') \<and> length rest = length inp mod 8 \<and>
    fold sip_block (sip_blocks (map low inp @ pad)) s = sip_block (bytes_word (map low rest @ pad)) s'"
  using tail
proof (induction "length inp" arbitrary: inp s rule: less_induct)
  case less
  show ?case
  proof (cases "length inp < 8")
    case True
    then have "sip_loop rd64 inp s = (inp, s)" by (subst sip_loop.simps) simp
    moreover have "length (map low inp @ pad) = 8" using less.prems True by simp
    then obtain a b c d e f g h where "map low inp @ pad = [a, b, c, d, e, f, g, h]"
      by (rule length_8)
    then have "fold sip_block (sip_blocks (map low inp @ pad)) s = sip_block (bytes_word (map low inp @ pad)) s"
      by (simp only: sip_blocks_bytes fold.simps comp_id) simp
    ultimately show ?thesis using True by simp
  next
    case False
    then obtain a b c d e f g h ys where inp: "inp = a # b # c # d # e # f # g # h # ys" by (rule eight_cases)
    let ?s = "sip_block (bytes_word (map low [a, b, c, d, e, f, g, h])) s"
    have "sip_loop rd64 inp s = sip_loop rd64 ys ?s"
      using False rd [OF False] inp by (subst sip_loop.simps) simp
    moreover have "length inp mod 8 = length ys mod 8" by (simp add: inp)
    ultimately show ?thesis using less.hyps [of ys ?s] less.prems by (simp add: inp)
  qed
qed

lemma sip_common:
  assumes "\<And>p. \<not> length p < 8 \<Longrightarrow> rd64 p = bytes_word (map low (take 8 p))"
  shows "(case sip_loop rd64 inp (sip_init k) of (rest, s) \<Rightarrow>
      let b = sip_switch low (length inp mod 8) rest (push_bit 56 (word_of_nat (length inp)))
      in sip_finish (sip_block b s)) = sip_steps k (map low inp)"
proof -
  let ?pad = "replicate (7 - length inp mod 8) 0 @ [word_of_nat (length inp)] :: byte list"
  have "length inp mod 8 < 8" by (rule mod_less_divisor) simp
  then have le: "length inp mod 8 \<le> 7" by linarith
  have "length inp mod 8 + length ?pad = 8" using le by simp
  from sip_loop_blocks [OF assms this, of "sip_init k"] obtain rest s where r: "sip_loop rd64 inp (sip_init k) = (rest, s)"
      "length rest = length inp mod 8"
      "fold sip_block (sip_blocks (map low inp @ ?pad)) (sip_init k) = sip_block (bytes_word (map low rest @ ?pad)) s"
    by blast
  have "sip_switch low (length inp mod 8) rest (push_bit 56 (word_of_nat (length inp))) = bytes_word (map low rest @ ?pad)"
    using switch_is_block [of rest low "length inp"] r(2) le by simp
  with r show ?thesis by (simp add: sip_steps_def sip_pad_def)
qed

lemma siphash_nocase_lower: "siphash_nocase inp k = sip_steps k (map siptlw inp)"
  unfolding siphash_nocase_def by (rule sip_common) (simp add: nocase_block)

text \<open>C38: \<open>siphash\<close> is SipHash with one round per block and two at the end, as published: the initial state from the seed and the four constants, a round of
  additions, rotations and exclusive ors for each eight bytes of the message padded with zeros and its length, two rounds at the end; and \<open>siphash_nocase\<close> is the
  same function of the input in lower case.\<close>

theorem siphash_correct:
  "siphash inp k = siphash_c_d 1 2 k inp \<and> siphash_nocase inp k = siphash_c_d 1 2 k (map tolower inp)"
proof
  have "siphash inp k = sip_steps k (map (\<lambda>c. c) inp)"
    unfolding siphash_def by (rule sip_common) (simp add: U8TO64_LE_def)
  then show "siphash inp k = siphash_c_d 1 2 k inp" by (simp add: sip_steps_ref)
  have "siptlw = tolower" by (simp add: fun_eq_iff siptlw_def tolower_def)
  then show "siphash_nocase inp k = siphash_c_d 1 2 k (map tolower inp)" by (simp add: siphash_nocase_lower sip_steps_ref)
qed

end
