(* ===== verification/DictTypes.thy ===== *)
theory DictTypes
  imports Dict Siphash
begin

text \<open>
  The dictionary types of \<open>server.c\<close> with keys that are strings: the key space, sets and hashes
  compare bytes, the command table ignores case. The hash functions of \<open>dict.c\<close> are SipHash under a
  seed chosen at start. A string is its bytes, without the terminator that follows them in memory.
  The code keeps the lengths of keys in an \<open>int\<close> (\<open>dictGenHashFunction\<close>, \<open>dictSdsKeyCompare\<close>); here they
  are exact, which they are for strings shorter than \<open>2^31\<close> bytes. Arguments of commands are limited
  to 512 MB by default, so this is the range the program works in.
\<close>

section \<open>Operations\<close>

definition dictGenHashFunction :: "byte list \<Rightarrow> byte list \<Rightarrow> u64" where
  "dictGenHashFunction seed key = siphash key seed"

definition dictGenCaseHashFunction :: "byte list \<Rightarrow> byte list \<Rightarrow> u64" where
  "dictGenCaseHashFunction seed key = siphash_nocase key seed"

definition dictSdsKeyCompare :: "byte list \<Rightarrow> byte list \<Rightarrow> bool" where
  "dictSdsKeyCompare key1 key2 =
     (let l1 = length key1; l2 = length key2 in if l1 \<noteq> l2 then False else take l1 key1 = take l1 key2)"

definition dictSdsKeyCaseCompare :: "byte list \<Rightarrow> byte list \<Rightarrow> bool" where
  "dictSdsKeyCaseCompare key1 key2 \<longleftrightarrow> strcasecmp (key1 @ [0]) (key2 @ [0]) = Inr 0"

definition dictSdsHash :: "byte list \<Rightarrow> byte list \<Rightarrow> u64" where
  "dictSdsHash seed key = dictGenHashFunction seed key"

definition dictSdsCaseHash :: "byte list \<Rightarrow> byte list \<Rightarrow> u64" where
  "dictSdsCaseHash seed key = dictGenCaseHashFunction seed key"

definition setDictType :: "byte list \<Rightarrow> byte list dictType" where
  "setDictType seed = \<lparr> hashFunction = dictSdsHash seed, keyCompare = dictSdsKeyCompare \<rparr>"

definition dbDictType :: "byte list \<Rightarrow> byte list dictType" where
  "dbDictType seed = \<lparr> hashFunction = dictSdsHash seed, keyCompare = dictSdsKeyCompare \<rparr>"

definition hashDictType :: "byte list \<Rightarrow> byte list dictType" where
  "hashDictType seed = \<lparr> hashFunction = dictSdsHash seed, keyCompare = dictSdsKeyCompare \<rparr>"

definition commandTableDictType :: "byte list \<Rightarrow> byte list dictType" where
  "commandTableDictType seed = \<lparr> hashFunction = dictSdsCaseHash seed, keyCompare = dictSdsKeyCaseCompare \<rparr>"

section \<open>The types satisfy the contract\<close>

lemma dictSdsKeyCompare_eq: "dictSdsKeyCompare x y \<longleftrightarrow> x = y"
  by (auto simp: dictSdsKeyCompare_def Let_def)

lemma siptlw_tolower: "siptlw = tolower"
  by (simp add: fun_eq_iff siptlw_def tolower_def)

interpretation db: dict_type "dbDictType seed" "\<lambda>k. k" "\<lambda>k. True" for seed
  by unfold_locales (simp_all add: dbDictType_def dictSdsKeyCompare_eq)

interpretation sets: dict_type "setDictType seed" "\<lambda>k. k" "\<lambda>k. True" for seed
  by unfold_locales (simp_all add: setDictType_def dictSdsKeyCompare_eq)

interpretation hashes: dict_type "hashDictType seed" "\<lambda>k. k" "\<lambda>k. True" for seed
  by unfold_locales (simp_all add: hashDictType_def dictSdsKeyCompare_eq)

interpretation commands: dict_type "commandTableDictType seed" "map tolower" "\<lambda>k. 0 \<notin> set k" for seed
proof unfold_locales
  fix x y :: "byte list"
  assume v: "0 \<notin> set x" "0 \<notin> set y"
  show "keyCompare (commandTableDictType seed) x y \<longleftrightarrow> map tolower x = map tolower y"
    using strcasecmp_eq_0_iff [OF v] by (simp add: commandTableDictType_def dictSdsKeyCaseCompare_def)
  assume n: "map tolower x = map tolower y"
  have "siphash_nocase x seed = siphash_nocase y seed"
    unfolding siphash_nocase_lower siptlw_tolower n ..
  then show "hashFunction (commandTableDictType seed) x = hashFunction (commandTableDictType seed) y"
    by (simp add: commandTableDictType_def dictSdsCaseHash_def dictGenCaseHashFunction_def)
qed

section \<open>Dictionaries are maps\<close>

definition empty_dict :: "bool \<Rightarrow> ('k, 'v) dict_sys" where
  "empty_dict can_resize = \<lparr> dict_can_resize = can_resize, dict_of = dictCreate \<rparr>"

text \<open>C5: The key space is a map: starting from an empty dictionary of type \<open>dbDictType\<close>, any sequence of
  fewer than \<open>2\<^sup>6\<^sup>2\<close> look-ups, additions, replacements and deletions, interleaved with resizes,
  incremental rehashing, iterators and switching resizing on and off, runs without a fault and
  gives the answers of a mathematical map from strings, whose contents the tables hold at the end.\<close>

theorem dbDict_is_map:
  assumes "length xs \<le> 2 ^ 62"
  shows "\<exists>s. run_map_ops (dict_ops (dbDictType seed)) xs (empty_dict r) = Inr (fst (spec_map_ops (\<lambda>k. k) xs Map.empty), s) \<and>
    dict_map (\<lambda>k. k) (dict_of s) = snd (spec_map_ops (\<lambda>k. k) xs Map.empty)"
  using db.dmap.ops_refine [where s = "empty_dict r" and xs = xs and seed = seed] assms by (auto simp: empty_dict_def db.dictCreate_ok)

theorem dbDict_is_map_witness:
  "\<exists>s. run_map_ops (dict_ops (dbDictType [])) [Insert [1] (7 :: nat), Find [1], Maintain Resize, Replace [1] 8, Find [1]] (empty_dict True) =
     Inr ([Changed True, Found (Some 7), Done, Changed False, Found (Some 8)], s)"
  using dbDict_is_map [of "[Insert [1] 7, Find [1], Maintain Resize, Replace [1] 8, Find [1]]" "[]" True] by auto

text \<open>The command table is a map that ignores case: with type \<open>commandTableDictType\<close> and names without
  a zero byte, any sequence of operations gives the answers of a map from names in lower case.\<close>

theorem commandTable_is_map:
  assumes "length xs \<le> 2 ^ 62" and "\<forall>x \<in> set xs. \<forall>k. op_key x = Some k \<longrightarrow> 0 \<notin> set k"
  shows "\<exists>s. run_map_ops (dict_ops (commandTableDictType seed)) xs (empty_dict r) =
      Inr (fst (spec_map_ops (map tolower) xs Map.empty), s) \<and>
    dict_map (map tolower) (dict_of s) = snd (spec_map_ops (map tolower) xs Map.empty)"
  using commands.dmap.ops_refine [where s = "empty_dict r" and xs = xs and seed = seed] assms by (auto simp: empty_dict_def commands.dictCreate_ok)

theorem commandTable_is_map_witness:
  "\<exists>s. run_map_ops (dict_ops (commandTableDictType [])) [Insert (bytes ''GET'') (7 :: nat), Find (bytes ''get'')] (empty_dict True) =
     Inr ([Changed True, Found (Some 7)], s)"
  using commandTable_is_map [of "[Insert (bytes ''GET'') 7, Find (bytes ''get'')]" "[]" True]
  by (auto simp: bytes_def tolower_def)

end
