(* ===== verification/DictScan.thy ===== *)
theory DictScan
  imports Dict
begin

text \<open>
  The stateless cursor of \<open>dictScan\<close> in \<open>dict.c\<close>. A cursor is a 64-bit number whose bits are counted from
  the top: it is reversed, incremented and reversed back. Reversed, cursors and hashes are points
  of one line, a bucket of a table of \<open>2\<^sup>k\<close> buckets is an interval of length \<open>2\<^sup>6\<^sup>4\<^sup>-\<^sup>k\<close>, and a call
  emits everything from the cursor to the end of the interval it lies in, whatever the tables are
  at that moment. So what is in the dictionary during a whole scan is emitted, although the tables
  may grow, shrink and be rehashed between the calls.
\<close>

section \<open>Operations\<close>

function rev_loop :: "nat \<Rightarrow> u64 \<Rightarrow> u64 \<Rightarrow> u64" where
  "rev_loop s msk v =
     (let s = s div 2 in
      if s > 0 then
        let msk = msk XOR push_bit s msk in
        rev_loop s msk ((drop_bit s v AND msk) OR (push_bit s v AND NOT msk))
      else v)"
  by auto
termination by (relation "measure (\<lambda>(s, msk, v). s)") auto

declare rev_loop.simps [simp del]

definition rev_ul :: "u64 \<Rightarrow> u64" where
  "rev_ul v = rev_loop 64 (NOT 0) v"

definition next_cursor :: "u64 \<Rightarrow> u64 \<Rightarrow> u64" where
  "next_cursor m v = (let v = v OR NOT m; v = rev_ul v; v = v + 1 in rev_ul v)"

section \<open>Bit reversal\<close>

definition swap_bits :: "nat \<Rightarrow> u64 \<Rightarrow> u64 \<Rightarrow> u64" where
  "swap_bits s msk v = (drop_bit s v AND msk) OR (push_bit s v AND NOT msk)"

lemma rev_loop_step:
  "0 < s \<Longrightarrow> rev_loop (2 * s) msk v = rev_loop s (msk XOR push_bit s msk) (swap_bits s (msk XOR push_bit s msk) v)"
  by (subst rev_loop.simps) (simp add: swap_bits_def Let_def)

lemma rev_masks:
  "(-1 :: u64) XOR push_bit 32 (-1) = 0x00000000FFFFFFFF"
  "(0x00000000FFFFFFFF :: u64) XOR push_bit 16 0x00000000FFFFFFFF = 0x0000FFFF0000FFFF"
  "(0x0000FFFF0000FFFF :: u64) XOR push_bit 8 0x0000FFFF0000FFFF = 0x00FF00FF00FF00FF"
  "(0x00FF00FF00FF00FF :: u64) XOR push_bit 4 0x00FF00FF00FF00FF = 0x0F0F0F0F0F0F0F0F"
  "(0x0F0F0F0F0F0F0F0F :: u64) XOR push_bit 2 0x0F0F0F0F0F0F0F0F = 0x3333333333333333"
  "(0x3333333333333333 :: u64) XOR push_bit 1 0x3333333333333333 = 0x5555555555555555"
  by (simp_all add: mask_eq_exp_minus_1)

lemma rev_ul_swaps:
  "rev_ul v =
     swap_bits 1 0x5555555555555555 (swap_bits 2 0x3333333333333333 (swap_bits 4 0x0F0F0F0F0F0F0F0F
       (swap_bits 8 0x00FF00FF00FF00FF (swap_bits 16 0x0000FFFF0000FFFF (swap_bits 32 0x00000000FFFFFFFF v)))))"
proof -
  have last: "rev_loop 1 msk w = w" for msk w by (subst rev_loop.simps) simp
  have step: "rev_loop n m w = rev_loop s m' (swap_bits s m' w)" if "n = 2 * s" "0 < s" "m XOR push_bit s m = m'" for n s m m' w
    using rev_loop_step [of s m w] that by simp
  show ?thesis
    unfolding rev_ul_def bit.compl_zero
    by (simp only: step [OF _ _ rev_masks(1), of 64] step [OF _ _ rev_masks(2), of 32] step [OF _ _ rev_masks(3), of 16]
        step [OF _ _ rev_masks(4), of 8] step [OF _ _ rev_masks(5), of 4] step [OF _ _ rev_masks(6), of 2] last)
qed

text \<open>Each exchange moves the bit at distance \<open>s\<close>, up or down, to \<open>i\<close>.\<close>

definition swap_pos :: "nat \<Rightarrow> nat \<Rightarrow> nat" where
  "swap_pos s i = (if even (i div s) then i + s else i - s)"

lemma swap_bits_bit:
  assumes "bit msk i \<longleftrightarrow> even (i div s)" and "i < 64"
  shows "bit (swap_bits s msk v) i = bit v (swap_pos s i)"
proof (cases "even (i div s)")
  case True
  then show ?thesis using assms by (simp add: swap_bits_def swap_pos_def bit_simps ac_simps)
next
  case False
  then have "s \<le> i" by (metis div_less even_zero not_le)
  then show ?thesis using False assms by (simp add: swap_bits_def swap_pos_def bit_simps)
qed

lemma all_less64:
  assumes "list_all P [0..<64]"
  shows "i < 64 \<Longrightarrow> P i"
  using assms by (simp add: list_all_iff)

lemma mask_bits:
  assumes "i < 64"
  shows "bit (0x5555555555555555 :: u64) i \<longleftrightarrow> even (i div 1)" "bit (0x3333333333333333 :: u64) i \<longleftrightarrow> even (i div 2)"
    "bit (0x0F0F0F0F0F0F0F0F :: u64) i \<longleftrightarrow> even (i div 4)" "bit (0x00FF00FF00FF00FF :: u64) i \<longleftrightarrow> even (i div 8)"
    "bit (0x0000FFFF0000FFFF :: u64) i \<longleftrightarrow> even (i div 16)" "bit (0x00000000FFFFFFFF :: u64) i \<longleftrightarrow> even (i div 32)"
  by (rule all_less64 [OF _ assms], simp add: upt_conv_Cons)+

lemmas swap_bits_at = swap_bits_bit [OF mask_bits(1)] swap_bits_bit [OF mask_bits(2)] swap_bits_bit [OF mask_bits(3)]
  swap_bits_bit [OF mask_bits(4)] swap_bits_bit [OF mask_bits(5)] swap_bits_bit [OF mask_bits(6)]

text \<open>After the exchanges at distances 1 to \<open>2\<^sup>t\<^sup>-\<^sup>1\<close> each block of \<open>2\<^sup>t\<close> bits is mirrored.\<close>

definition mirror :: "nat \<Rightarrow> nat \<Rightarrow> nat" where
  "mirror t i = 2 ^ t * (i div 2 ^ t) + (2 ^ t - 1 - i mod 2 ^ t)"

lemma mirror_Suc: "swap_pos (2 ^ t) (mirror t i) = mirror (Suc t) i"
proof -
  define p :: nat where "p = 2 ^ t"
  define q where "q = i div p"
  define r where "r = i mod p"
  have p: "0 < p" and r: "r < p" by (simp_all add: p_def r_def)
  have m: "mirror t i = p * q + (p - 1 - r)" by (simp add: mirror_def p_def q_def r_def)
  have "(p * q + s) div p = q" if "s < p" for s using that by simp
  then have q: "mirror t i div p = q" using p unfolding m by simp
  have m2: "mirror (Suc t) i = 2 * p * (q div 2) + (2 * p - 1 - (p * (q mod 2) + r))"
    unfolding mirror_def power_Suc2 p_def [symmetric] div_mult2_eq mod_mult2_eq q_def [symmetric] r_def [symmetric]
    by (simp add: mult.commute)
  show ?thesis
  proof (cases "even q")
    case True
    then obtain c where c: "q = 2 * c" by blast
    have "swap_pos p (mirror t i) = p * q + (p - 1 - r) + p" using True by (simp add: swap_pos_def q) (simp add: m)
    also have "\<dots> = mirror (Suc t) i" using r by (simp add: m2 c)
    finally show ?thesis by (simp add: p_def)
  next
    case False
    then obtain c where c: "q = 2 * c + 1" by (metis oddE)
    have "swap_pos p (mirror t i) = p * q + (p - 1 - r) - p" using False by (simp add: swap_pos_def q) (simp add: m)
    also have "\<dots> = 2 * p * c + (2 * p - 1 - (p + r))" using r by (simp add: c algebra_simps)
    also have "\<dots> = mirror (Suc t) i" by (simp add: m2 c)
    finally show ?thesis by (simp add: p_def)
  qed
qed

lemma mirror_less: "i < 64 \<Longrightarrow> t \<le> 6 \<Longrightarrow> mirror t i < 64"
proof -
  assume i: "i < 64" and t: "t \<le> 6"
  have e: "64 = 2 ^ (6 - t) * (2 :: nat) ^ t" using t by (simp flip: power_add)
  then have "i div 2 ^ t < 2 ^ (6 - t)" using i by (simp add: less_mult_imp_div_less)
  then have "Suc (i div 2 ^ t) * 2 ^ t \<le> 64" unfolding e by (intro mult_le_mono1) simp
  then have "2 ^ t * (i div 2 ^ t) + 2 ^ t \<le> 64" by (simp add: algebra_simps)
  moreover have "(2 :: nat) ^ t - 1 - i mod 2 ^ t < 2 ^ t" by simp
  ultimately show ?thesis unfolding mirror_def by linarith
qed

lemma bit_rev_ul:
  assumes "i < 64"
  shows "bit (rev_ul v) i = bit v (63 - i)"
proof -
  have 0: "mirror 0 i = i" by (simp add: mirror_def)
  have sp: "swap_pos 1 i = mirror 1 i" "swap_pos 2 (mirror 1 i) = mirror 2 i" "swap_pos 4 (mirror 2 i) = mirror 3 i"
      "swap_pos 8 (mirror 3 i) = mirror 4 i" "swap_pos 16 (mirror 4 i) = mirror 5 i" "swap_pos 32 (mirror 5 i) = mirror 6 i"
    using mirror_Suc [of 0 i] mirror_Suc [of 1 i] mirror_Suc [of 2 i] mirror_Suc [of 3 i] mirror_Suc [of 4 i] mirror_Suc [of 5 i]
    by (simp_all add: 0 eval_nat_numeral)
  have less: "mirror 1 i < 64" "mirror 2 i < 64" "mirror 3 i < 64" "mirror 4 i < 64" "mirror 5 i < 64"
    using assms by (auto intro: mirror_less)
  have "bit (rev_ul v) i = bit v (mirror 6 i)"
    unfolding rev_ul_swaps by (simp only: swap_bits_at sp less assms)
  also have "mirror 6 i = 63 - i" using assms by (simp add: mirror_def)
  finally show ?thesis .
qed

lemma rev_ul_rev_ul [simp]: "rev_ul (rev_ul v) = v"
  by (rule bit_word_eqI) (simp add: bit_rev_ul)

text \<open>The place of a cursor or a hash on the line.\<close>

definition place :: "u64 \<Rightarrow> nat" where
  "place v = unat (rev_ul v)"

lemma place_less: "place v < 2 ^ 64"
  using unat_less [of "rev_ul v"] by (simp add: place_def)

lemma place_eq_iff: "place v = place w \<longleftrightarrow> v = w"
  unfolding place_def by (metis rev_ul_rev_ul unsigned_word_eqI)

section \<open>One step of the cursor\<close>

text \<open>Places in the same interval of length \<open>2\<^sup>6\<^sup>4\<^sup>-\<^sup>k\<close> are cursors with the same low \<open>k\<close> bits.\<close>

lemma drop_place:
  assumes "k \<le> 64"
  shows "place v div 2 ^ (64 - k) = place w div 2 ^ (64 - k) \<longleftrightarrow> take_bit k v = take_bit k w"
proof -
  have "place v div 2 ^ (64 - k) = place w div 2 ^ (64 - k) \<longleftrightarrow> drop_bit (64 - k) (rev_ul v) = drop_bit (64 - k) (rev_ul w)"
  proof -
    have d: "place x div 2 ^ (64 - k) = unat (drop_bit (64 - k) (rev_ul x))" for x
      unfolding place_def unat_drop_bit_eq by (simp only: drop_bit_eq_div)
    show ?thesis unfolding d by (auto intro: unsigned_word_eqI)
  qed
  also have "\<dots> \<longleftrightarrow> (\<forall>i < 64. bit (rev_ul v) (64 - k + i) = bit (rev_ul w) (64 - k + i))"
    by (simp add: bit_eq_iff [of "drop_bit _ _"] bit_drop_bit_eq)
  also have "\<dots> \<longleftrightarrow> (\<forall>j < k. bit v j = bit w j)"
  proof
    assume a: "\<forall>i < 64. bit (rev_ul v) (64 - k + i) = bit (rev_ul w) (64 - k + i)"
    show "\<forall>j < k. bit v j = bit w j"
    proof (intro allI impI)
      fix j assume "j < k"
      then show "bit v j = bit w j" using a [rule_format, of "k - 1 - j"] assms by (simp add: bit_rev_ul)
    qed
  next
    assume a: "\<forall>j < k. bit v j = bit w j"
    show "\<forall>i < 64. bit (rev_ul v) (64 - k + i) = bit (rev_ul w) (64 - k + i)"
    proof (intro allI impI)
      fix i :: nat
      show "bit (rev_ul v) (64 - k + i) = bit (rev_ul w) (64 - k + i)"
        using a [rule_format, of "63 - (64 - k + i)"] assms
        by (cases "64 - k + i < 64") (auto simp: bit_rev_ul dest: bit_imp_le_length)
    qed
  qed
  also have "\<dots> \<longleftrightarrow> take_bit k v = take_bit k w"
    using assms by (simp add: bit_eq_iff bit_simps) (meson less_le_trans)
  finally show ?thesis .
qed

lemma not_mask_or_rev:
  assumes "k \<le> 64"
  shows "rev_ul (v OR NOT (mask k)) = rev_ul v OR mask (64 - k)"
  by (rule bit_word_eqI) (use assms in \<open>auto simp: bit_rev_ul bit_simps\<close>)

lemma or_mask_nat: "n OR (2 ^ j - 1) = (n div 2 ^ j) * 2 ^ j + (2 ^ j - 1 :: nat)"
proof -
  have "n OR mask j = take_bit j (n OR mask j) + drop_bit j (n OR mask j) * 2 ^ j"
    by (metis add.commute bits_ident push_bit_eq_mult)
  moreover have "take_bit j (n OR mask j) = mask j" "drop_bit j (n OR mask j) = n div 2 ^ j"
    by (auto simp: bit_eq_iff bit_simps drop_bit_eq_div [symmetric])
  ultimately have "n OR mask j = mask j + n div 2 ^ j * 2 ^ j" by metis
  then show ?thesis unfolding mask_eq_exp_minus_1 by (simp only: add.commute)
qed

text \<open>The next cursor is the end of the interval the cursor lies in.\<close>

lemma place_next_cursor:
  assumes "k \<le> 64"
  shows "place (next_cursor (mask k) v) = ((place v div 2 ^ (64 - k) + 1) * 2 ^ (64 - k)) mod 2 ^ 64"
proof -
  have "place (next_cursor (mask k) v) = unat (rev_ul (v OR NOT (mask k)) + 1)"
    by (simp add: place_def next_cursor_def Let_def)
  also have "\<dots> = (unat (rev_ul v OR mask (64 - k)) + 1) mod 2 ^ 64"
    unfolding not_mask_or_rev [OF assms] by (simp add: unat_word_ariths)
  also have "unat (rev_ul v OR mask (64 - k)) = place v OR (2 ^ (64 - k) - 1)"
    unfolding mask_eq_exp_minus_1 [symmetric] place_def by (rule bit_eqI) (auto simp: bit_simps)
  also have "\<dots> + 1 = (place v div 2 ^ (64 - k) + 1) * 2 ^ (64 - k)"
    unfolding or_mask_nat by (simp add: algebra_simps)
  finally show ?thesis .
qed

lemma next_cursor_progress:
  assumes "next_cursor m v \<noteq> 0"
  shows "place v < place (next_cursor m v)"
proof -
  let ?w = "rev_ul (v OR NOT m)"
  have zero: "rev_ul 0 = 0" by (rule bit_word_eqI) (simp add: bit_rev_ul)
  have eq: "place (next_cursor m v) = unat (?w + 1)" by (simp add: place_def next_cursor_def Let_def)
  have "?w + 1 \<noteq> 0" using assms zero by (auto simp: next_cursor_def Let_def)
  then have "unat (?w + 1) \<noteq> 0" by (simp add: unat_eq_zero)
  moreover have "unat (?w + 1) = (unat ?w + 1) mod 2 ^ 64" by (simp add: unat_word_ariths)
  ultimately have "unat (?w + 1) = unat ?w + 1" using unat_less [of ?w] by (cases "unat ?w + 1 = 2 ^ 64") auto
  moreover have "?w = rev_ul v OR rev_ul (NOT m)" by (rule bit_word_eqI) (simp add: bit_rev_ul bit_simps)
  then have "place v \<le> unat ?w" unfolding place_def by (simp add: word_le_nat_alt [symmetric] le_word_or2)
  ultimately show ?thesis using eq by simp
qed

section \<open>Scanning\<close>

text \<open>The entries of the bucket at the cursor, in the order in which \<open>fn\<close> is called on them.\<close>

definition emit :: "('k, 'v) dictht \<Rightarrow> u64 \<Rightarrow> ('k, 'v) dictEntry list cres" where
  "emit t v = rd (table t) (unat (v AND word_of_nat (sizemask t)))"

text \<open>The loop over the expansions of the cursor in the larger table.\<close>

function scan_loop :: "('k, 'v) dictht \<Rightarrow> u64 \<Rightarrow> u64 \<Rightarrow> u64 \<Rightarrow> (('k, 'v) dictEntry list \<times> u64) cres" where
  "scan_loop t1 m0 m1 v =
     cbind (emit t1 v) (\<lambda>es.
       let v = next_cursor m1 v in
       if v AND (m0 XOR m1) \<noteq> 0
       then cbind (scan_loop t1 m0 m1 v) (\<lambda>(es', v). Inr (es @ es', v))
       else Inr (es, v))"
  by pat_completeness auto
termination
proof (relation "measure (\<lambda>(t1, m0, m1, v). 2 ^ 64 - place v)")
  fix t1 :: "('k, 'v) dictht" and m0 m1 v es w
  assume w: "w = next_cursor m1 v" "w AND (m0 XOR m1) \<noteq> 0"
  then have "next_cursor m1 v \<noteq> 0" by auto
  then have "place v < place w" using w(1) next_cursor_progress by simp
  then show "((t1, m0, m1, w), t1, m0, m1, v) \<in> measure (\<lambda>(t1, m0, m1, v). 2 ^ 64 - place v)"
    using place_less [of w] by simp
qed simp

declare scan_loop.simps [simp del]

definition dictScan :: "('k, 'v) dict \<Rightarrow> u64 \<Rightarrow> (('k, 'v) dictEntry list \<times> u64) cres" where
  "dictScan d v =
     (if dictSize d = 0 then Inr ([], 0)
      else if \<not> dictIsRehashing d then
        cbind (emit (ht0 d) v) (\<lambda>es. Inr (es, next_cursor (word_of_nat (sizemask (ht0 d))) v))
      else
        let (t0, t1) = (if ht_size (ht0 d) > ht_size (ht1 d) then (ht1 d, ht0 d) else (ht0 d, ht1 d));
            m0 = word_of_nat (sizemask t0); m1 = word_of_nat (sizemask t1) in
        cbind (emit t0 v) (\<lambda>es.
        cbind (scan_loop t1 m0 m1 v) (\<lambda>(es', v). Inr (es @ es', v))))"

section \<open>What one call emits\<close>

text \<open>The end of the interval of length \<open>b\<close> that a place lies in.\<close>

definition up :: "nat \<Rightarrow> nat \<Rightarrow> nat" where
  "up b x = (x div b + 1) * b"

lemma up_greater: "0 < b \<Longrightarrow> x < up b x"
  unfolding up_def by (metis Suc_eq_plus1 dividend_less_div_times mult.commute mult_Suc_right add.commute)

lemma same_interval: "0 < b \<Longrightarrow> x \<le> y \<Longrightarrow> y < up b x \<Longrightarrow> y div b = x div b"
  unfolding up_def by (metis Suc_eq_plus1 div_le_mono le_antisym less_Suc_eq_le less_mult_imp_div_less)

lemma up_coarser:
  assumes "b0 = b1 * c" and "0 < b1" and "0 < c"
  shows "b0 dvd up b1 x \<Longrightarrow> up b1 x = up b0 x" "\<not> b0 dvd up b1 x \<Longrightarrow> up b0 (up b1 x) = up b0 x"
proof -
  have d: "b0 dvd up b1 x \<longleftrightarrow> Suc (x div b1) mod c = 0"
  proof -
    have "up b1 x = b1 * Suc (x div b1)" by (simp add: up_def)
    then show ?thesis using assms by (simp only: dvd_times_left_cancel_iff mod_eq_0_iff_dvd)
  qed
  have q: "x div b0 = x div b1 div c" by (simp add: assms div_mult2_eq)
  have q1: "up b1 x div b0 = Suc (x div b1) div c" using assms by (simp add: up_def div_mult2_eq)
  show "b0 dvd up b1 x \<Longrightarrow> up b1 x = up b0 x"
  proof -
    assume "b0 dvd up b1 x"
    then have z: "Suc (x div b1) mod c = 0" using d by simp
    then have "Suc (x div b1) div c = Suc (x div b1 div c)" by (simp add: div_Suc)
    moreover have "Suc (x div b1) div c * c = Suc (x div b1)" using z by (simp add: mod_eq_0_iff_dvd)
    ultimately have "Suc (x div b1) * b1 = Suc (x div b1 div c) * c * b1" by metis
    then show ?thesis unfolding up_def q by (simp only: assms(1) Suc_eq_plus1 mult.assoc mult.commute)
  qed
  show "\<not> b0 dvd up b1 x \<Longrightarrow> up b0 (up b1 x) = up b0 x"
    using d by (simp add: up_def [of b0] q q1 div_Suc)
qed

text \<open>The bucket that a cursor points to holds the entries whose hashes lie in its interval.\<close>

lemma live_mask:
  assumes "ht_live dt t"
  obtains k where "2 \<le> k" "k \<le> 63" "ht_size t = 2 ^ k" "sizemask t = mask k" "word_of_nat (sizemask t) = (mask k :: u64)"
proof -
  obtain k where k: "2 \<le> k" "k \<le> 63" "ht_size t = 2 ^ k" using assms unfolding ht_live_def by blast
  then have m: "sizemask t = mask k" using assms by (simp add: ht_live_def mask_eq_exp_minus_1)
  have "(word_of_nat (mask k) :: u64) = mask k" by (rule bit_word_eqI) (simp add: bit_simps)
  with k m that show thesis by simp
qed

lemma emit_ok:
  fixes t :: "('k, 'v) dictht"
  assumes live: "ht_live dt t" and k: "k \<le> 63" "sizemask t = mask k" "ht_size t = 2 ^ k"
  shows "\<exists>es. emit t v = Inr es \<and> (\<forall>e \<in> set es. e \<in># ht_entries t) \<and>
    (\<forall>e \<in># ht_entries t. place (hashFunction dt (de_key e)) div 2 ^ (64 - k) = place v div 2 ^ (64 - k) \<longrightarrow> e \<in> set es)"
proof -
  let ?i = "unat (v AND word_of_nat (sizemask t))"
  have i: "?i = unat (take_bit k v)"
    using k by (simp add: take_bit_eq_mask of_nat_mask_eq)
  then have "?i < 2 ^ k" using k(1) by (metis take_bit_nat_less_exp unsigned_take_bit_eq)
  then have il: "?i < length (table t)" using live k by (simp add: ht_live_def)
  have "e \<in> set (table t ! ?i)"
    if e: "e \<in># ht_entries t" and p: "place (hashFunction dt (de_key e)) div 2 ^ (64 - k) = place v div 2 ^ (64 - k)" for e
  proof -
    from e obtain j where j: "j < length (table t)" "e \<in> set (table t ! j)" unfolding in_ht_entries by blast
    have "take_bit k (hashFunction dt (de_key e)) = take_bit k v"
      using p drop_place [of k] k(1) by simp
    moreover have "j = unat (take_bit k (hashFunction dt (de_key e)))"
      unfolding unsigned_take_bit_eq unfolding take_bit_eq_mask
      using live_chain [OF live j] k by (simp add: dictHashKey_def)
    ultimately show ?thesis using j(2) i by simp
  qed
  moreover have "\<forall>e \<in> set (table t ! ?i). e \<in># ht_entries t" using il by (auto simp: ht_entries_def)
  ultimately show ?thesis using il unfolding emit_def by (intro exI [of _ "table t ! ?i"]) simp
qed

text \<open>The loop condition: the cursor has reached the end of its interval in the smaller table.\<close>

lemma dvd_place:
  assumes "k \<le> 64"
  shows "2 ^ (64 - k) dvd place v \<longleftrightarrow> (\<forall>j. k \<le> j \<and> j < 64 \<longrightarrow> \<not> bit v j)"
proof -
  have "2 ^ (64 - k) dvd place v \<longleftrightarrow> take_bit (64 - k) (rev_ul v) = 0"
  proof -
    have "2 ^ (64 - k) dvd place v \<longleftrightarrow> unat (take_bit (64 - k) (rev_ul v)) = 0"
      unfolding place_def unsigned_take_bit_eq by (simp add: take_bit_eq_mod mod_eq_0_iff_dvd)
    then show ?thesis by (simp add: unat_eq_zero)
  qed
  also have "\<dots> \<longleftrightarrow> (\<forall>i < 64 - k. \<not> bit (rev_ul v) i)"
    using assms by (simp add: bit_eq_iff bit_simps) (meson diff_le_self less_le_trans)
  also have "\<dots> \<longleftrightarrow> (\<forall>j. k \<le> j \<and> j < 64 \<longrightarrow> \<not> bit v j)"
  proof
    assume a: "\<forall>i < 64 - k. \<not> bit (rev_ul v) i"
    show "\<forall>j. k \<le> j \<and> j < 64 \<longrightarrow> \<not> bit v j"
    proof (intro allI impI)
      fix j :: nat assume "k \<le> j \<and> j < 64"
      then have "63 - j < 64 - k" "63 - (63 - j) = j" "63 - j < 64" by linarith+
      then show "\<not> bit v j" using a [rule_format, of "63 - j"] by (simp add: bit_rev_ul)
    qed
  next
    assume a: "\<forall>j. k \<le> j \<and> j < 64 \<longrightarrow> \<not> bit v j"
    show "\<forall>i < 64 - k. \<not> bit (rev_ul v) i"
    proof (intro allI impI)
      fix i assume "i < 64 - k"
      then have "k \<le> 63 - i \<and> 63 - i < 64" "i < 64" by linarith+
      then show "\<not> bit (rev_ul v) i" using a [rule_format, of "63 - i"] by (simp add: bit_rev_ul)
    qed
  qed
  finally show ?thesis .
qed

lemma loop_condition:
  assumes k: "k0 \<le> k1" "k1 \<le> 64" and v: "2 ^ (64 - k1) dvd place v"
  shows "v AND (mask k0 XOR mask k1) = 0 \<longleftrightarrow> 2 ^ (64 - k0) dvd place v"
proof -
  have hi: "\<not> bit v j" if "k1 \<le> j" "j < 64" for j using v that k(2) by (simp add: dvd_place)
  have "v AND (mask k0 XOR mask k1) = 0 \<longleftrightarrow> (\<forall>j < 64. bit v j \<longrightarrow> (j < k0 \<longleftrightarrow> j < k1))"
    by (auto simp: bit_eq_iff [of "v AND _"] bit_simps)
  also have "\<dots> \<longleftrightarrow> (\<forall>j. k0 \<le> j \<and> j < 64 \<longrightarrow> \<not> bit v j)"
    using hi k by (metis leD less_le_trans not_le_imp_less)
  also have "\<dots> \<longleftrightarrow> 2 ^ (64 - k0) dvd place v" using k by (simp add: dvd_place)
  finally show ?thesis .
qed

lemma up_bound:
  assumes "k \<le> 64" and "x < 2 ^ 64"
  shows "up (2 ^ (64 - k)) x \<le> 2 ^ 64"
proof -
  have e: "(2 :: nat) ^ 64 = 2 ^ k * 2 ^ (64 - k)" using assms(1) by (simp flip: power_add)
  then have "x div 2 ^ (64 - k) < 2 ^ k" using assms(2) by (simp add: less_mult_imp_div_less)
  then show ?thesis unfolding up_def e by (intro mult_le_mono1) simp
qed

lemma place_next: "k \<le> 64 \<Longrightarrow> place (next_cursor (mask k) v) = up (2 ^ (64 - k)) (place v) mod 2 ^ 64"
  by (simp add: place_next_cursor up_def)

lemma scan_loop_ok:
  fixes t :: "('k, 'v) dictht"
  assumes live: "ht_live dt t" and k: "k1 \<le> 63" "sizemask t = mask k1" "ht_size t = 2 ^ k1" and k0: "k0 \<le> k1"
  shows "\<exists>es v'. scan_loop t (mask k0) (mask k1) v = Inr (es, v') \<and> place v' = up (2 ^ (64 - k0)) (place v) mod 2 ^ 64 \<and>
    (\<forall>e \<in> set es. e \<in># ht_entries t) \<and>
    (\<forall>e \<in># ht_entries t. place v \<le> place (hashFunction dt (de_key e)) \<and>
       place (hashFunction dt (de_key e)) < up (2 ^ (64 - k0)) (place v) \<longrightarrow> e \<in> set es)"
proof (induction "2 ^ 64 - place v" arbitrary: v rule: less_induct)
  case less
  let ?b0 = "2 ^ (64 - k0) :: nat" and ?b1 = "2 ^ (64 - k1) :: nat" and ?w = "next_cursor (mask k1) v"
  let ?h = "\<lambda>e. place (hashFunction dt (de_key e))"
  have b: "?b0 = ?b1 * 2 ^ (k1 - k0)" using k k0 by (simp flip: power_add)
  have b1: "0 < ?b1" by simp
  obtain es where es: "emit t v = Inr es" "\<forall>e \<in> set es. e \<in># ht_entries t"
      "\<forall>e \<in># ht_entries t. ?h e div ?b1 = place v div ?b1 \<longrightarrow> e \<in> set es"
    using emit_ok [OF live k] by blast
  have now: "e \<in> set es" if "e \<in># ht_entries t" "place v \<le> ?h e" "?h e < up ?b1 (place v)" for e
    using es(3) that same_interval [OF b1] by blast
  have pw: "place ?w = up ?b1 (place v) mod 2 ^ 64" using k(1) by (simp add: place_next)
  have dvd64: "?b0 dvd 2 ^ 64" "?b1 dvd 2 ^ 64" by (rule le_imp_power_dvd, simp)+
  have "?b1 dvd up ?b1 (place v)" by (simp add: up_def)
  then have "?b1 dvd place ?w" unfolding pw using dvd64(2) by (simp add: dvd_mod)
  then have cond: "?w AND (mask k0 XOR mask k1) = 0 \<longleftrightarrow> ?b0 dvd place ?w" using loop_condition [OF k0] k(1) by simp
  have cond': "?b0 dvd place ?w \<longleftrightarrow> ?b0 dvd up ?b1 (place v)" unfolding pw using dvd64(1) by (simp add: dvd_mod_iff)
  note co = up_coarser [OF b b1, of "place v"]
  show ?case
  proof (cases "?b0 dvd up ?b1 (place v)")
    case True
    then have "scan_loop t (mask k0) (mask k1) v = Inr (es, ?w)"
      using es(1) cond cond' by (subst scan_loop.simps) (simp add: Let_def)
    moreover have "up ?b1 (place v) = up ?b0 (place v)" using co(1) True by simp
    ultimately show ?thesis using pw es(2) now by auto
  next
    case False
    then have nz: "?w \<noteq> 0" using cond cond' by auto
    have prog: "place v < place ?w" by (rule next_cursor_progress [OF nz])
    have "up ?b1 (place v) \<noteq> 2 ^ 64" using False dvd64(1) by auto
    then have pw': "place ?w = up ?b1 (place v)"
      using pw up_bound [of k1 "place v"] place_less [of v] k(1) by simp
    have dec: "2 ^ 64 - place ?w < 2 ^ 64 - place v" using prog place_less [of ?w] by simp
    have up: "up ?b0 (place ?w) = up ?b0 (place v)" unfolding pw' using co(2) False by simp
    obtain es' v' where r: "scan_loop t (mask k0) (mask k1) ?w = Inr (es', v')" "place v' = up ?b0 (place v) mod 2 ^ 64"
        "\<forall>e \<in> set es'. e \<in># ht_entries t" "\<forall>e \<in># ht_entries t. place ?w \<le> ?h e \<and> ?h e < up ?b0 (place v) \<longrightarrow> e \<in> set es'"
      using less [OF dec] unfolding up by blast
    have "scan_loop t (mask k0) (mask k1) v = Inr (es @ es', v')"
      using es(1) cond cond' False r(1) by (subst scan_loop.simps) (simp add: Let_def)
    moreover have "e \<in> set (es @ es')" if "e \<in># ht_entries t" "place v \<le> ?h e" "?h e < up ?b0 (place v)" for e
      using now [OF that(1,2)] r(4) that pw' by (cases "?h e < place ?w") auto
    ultimately show ?thesis using r(2,3) es(2) by auto
  qed
qed

text \<open>
  One call: the cursor moves to the end of its interval in the smaller table, and everything in
  between is emitted.
\<close>

definition min_bits :: "('k, 'v) dict \<Rightarrow> nat \<Rightarrow> bool" where
  "min_bits d k \<longleftrightarrow> (if dictIsRehashing d then min (ht_size (ht0 d)) (ht_size (ht1 d)) else ht_size (ht0 d)) = 2 ^ k"

lemma dictScan_step:
  fixes d :: "('k, 'v) dict"
  assumes wf: "dict_wf dt norm d" and ne: "entries d \<noteq> {#}"
  shows "\<exists>k es v'. k \<le> 63 \<and> min_bits d k \<and> dictScan d v = Inr (es, v') \<and> place v' = up (2 ^ (64 - k)) (place v) mod 2 ^ 64 \<and>
    (\<forall>e \<in> set es. e \<in># entries d) \<and>
    (\<forall>e \<in># entries d. place v \<le> place (hashFunction dt (de_key e)) \<and>
       place (hashFunction dt (de_key e)) < up (2 ^ (64 - k)) (place v) \<longrightarrow> e \<in> set es)"
proof -
  have size: "dictSize d \<noteq> 0" using dictSize_entries [OF wf] ne by simp
  show ?thesis
  proof (cases "dictIsRehashing d")
    case False
    then have r: "ht_entries (ht1 d) = {#}" using wf by (simp add: dict_wf_def)
    then have live: "ht_live dt (ht0 d)" using wf False ne by (auto simp: dict_wf_def entries_def)
    obtain k where k: "k \<le> 63" "ht_size (ht0 d) = 2 ^ k" "sizemask (ht0 d) = mask k" "word_of_nat (sizemask (ht0 d)) = (mask k :: u64)"
      using live_mask [OF live] by blast
    obtain es where es: "emit (ht0 d) v = Inr es" "\<forall>e \<in> set es. e \<in># ht_entries (ht0 d)"
        "\<forall>e \<in># ht_entries (ht0 d). place (hashFunction dt (de_key e)) div 2 ^ (64 - k) = place v div 2 ^ (64 - k) \<longrightarrow> e \<in> set es"
      using emit_ok [OF live k(1,3,2)] by blast
    have "dictScan d v = Inr (es, next_cursor (mask k) v)" using size False es(1) k(4) by (simp add: dictScan_def)
    moreover have "place (next_cursor (mask k) v) = up (2 ^ (64 - k)) (place v) mod 2 ^ 64"
      using k(1) by (simp add: place_next)
    moreover have "\<forall>e \<in># entries d. place v \<le> place (hashFunction dt (de_key e)) \<and>
       place (hashFunction dt (de_key e)) < up (2 ^ (64 - k)) (place v) \<longrightarrow> e \<in> set es"
      using es(3) same_interval [of "2 ^ (64 - k)"] r by (simp add: entries_def)
    moreover have "min_bits d k" using False k(2) by (simp add: min_bits_def)
    moreover have "\<forall>e \<in> set es. e \<in># entries d" using es(2) r by (simp add: entries_def)
    ultimately show ?thesis using k(1) by blast
  next
    case True
    define t0 where "t0 = (if ht_size (ht0 d) > ht_size (ht1 d) then ht1 d else ht0 d)"
    define t1 where "t1 = (if ht_size (ht0 d) > ht_size (ht1 d) then ht0 d else ht1 d)"
    have live: "ht_live dt t0" "ht_live dt t1" using wf True by (simp_all add: dict_wf_def t0_def t1_def)
    have ent: "entries d = ht_entries t0 + ht_entries t1" by (simp add: entries_def t0_def t1_def add.commute)
    obtain k0 where k0: "k0 \<le> 63" "ht_size t0 = 2 ^ k0" "sizemask t0 = mask k0" "word_of_nat (sizemask t0) = (mask k0 :: u64)"
      using live_mask [OF live(1)] by blast
    obtain k1 where k1: "k1 \<le> 63" "ht_size t1 = 2 ^ k1" "sizemask t1 = mask k1" "word_of_nat (sizemask t1) = (mask k1 :: u64)"
      using live_mask [OF live(2)] by blast
    have "ht_size t0 \<le> ht_size t1" by (simp add: t0_def t1_def)
    then have le: "k0 \<le> k1" using k0(2) k1(2) by simp
    have min: "min_bits d k0" using True k0(2) by (auto simp: min_bits_def t0_def min_def)
    obtain es where es: "emit t0 v = Inr es" "\<forall>e \<in> set es. e \<in># ht_entries t0"
        "\<forall>e \<in># ht_entries t0. place (hashFunction dt (de_key e)) div 2 ^ (64 - k0) = place v div 2 ^ (64 - k0) \<longrightarrow> e \<in> set es"
      using emit_ok [OF live(1) k0(1,3,2)] by blast
    obtain es' v' where s: "scan_loop t1 (mask k0) (mask k1) v = Inr (es', v')" "place v' = up (2 ^ (64 - k0)) (place v) mod 2 ^ 64"
        "\<forall>e \<in> set es'. e \<in># ht_entries t1"
        "\<forall>e \<in># ht_entries t1. place v \<le> place (hashFunction dt (de_key e)) \<and>
           place (hashFunction dt (de_key e)) < up (2 ^ (64 - k0)) (place v) \<longrightarrow> e \<in> set es'"
      using scan_loop_ok [OF live(2) k1(1,3,2) le] by blast
    have tt: "(if ht_size (ht0 d) > ht_size (ht1 d) then (ht1 d, ht0 d) else (ht0 d, ht1 d)) = (t0, t1)"
      by (simp add: t0_def t1_def)
    have "dictScan d v = Inr (es @ es', v')"
      using size True es(1) s(1) k0(4) k1(4) unfolding dictScan_def tt by simp
    moreover have "\<forall>e \<in># entries d. place v \<le> place (hashFunction dt (de_key e)) \<and>
       place (hashFunction dt (de_key e)) < up (2 ^ (64 - k0)) (place v) \<longrightarrow> e \<in> set (es @ es')"
      using es(3) s(4) same_interval [of "2 ^ (64 - k0)"] by (simp add: ent) blast
    moreover have "\<forall>e \<in> set (es @ es'). e \<in># entries d" using es(2) s(3) by (auto simp: ent)
    ultimately show ?thesis using k0(1) min s(2) by blast
  qed
qed

section \<open>Whole scans\<close>

text \<open>The calls of one scan, on whatever the dictionary is at each of them.\<close>

fun scan_run :: "('k, 'v) dict list \<Rightarrow> u64 \<Rightarrow> (('k, 'v) dictEntry list \<times> u64) cres" where
  "scan_run [] v = Inr ([], v)"
| "scan_run (d # ds) v =
     cbind (dictScan d v) (\<lambda>(es, v). cbind (scan_run ds v) (\<lambda>(es', v). Inr (es @ es', v)))"

lemma place_0 [simp]: "place 0 = 0"
  using dvd_place [of 0 0] place_less [of 0] by (auto dest: dvd_imp_le)

lemma place_0_iff: "place v = 0 \<longleftrightarrow> v = 0"
  using place_eq_iff [of v 0] by simp

lemma scan_run_covers:
  fixes ds :: "('k, 'v) dict list"
  assumes "\<forall>d \<in> set ds. dict_wf dt norm d \<and> e \<in># entries d" and "ds \<noteq> []"
    and "place v \<le> place (hashFunction dt (de_key e))" and "scan_run ds v = Inr (es, 0)"
  shows "e \<in> set es"
  using assms
proof (induction ds arbitrary: v es)
  case (Cons d ds)
  let ?h = "place (hashFunction dt (de_key e))"
  have d: "dict_wf dt norm d" "e \<in># entries d" using Cons.prems(1) by simp_all
  obtain k es1 v1 where s: "k \<le> 63" "dictScan d v = Inr (es1, v1)" "place v1 = up (2 ^ (64 - k)) (place v) mod 2 ^ 64"
      "\<forall>e \<in># entries d. place v \<le> place (hashFunction dt (de_key e)) \<and>
         place (hashFunction dt (de_key e)) < up (2 ^ (64 - k)) (place v) \<longrightarrow> e \<in> set es1"
    using dictScan_step [OF d(1), of v] d(2) by (metis empty_iff set_mset_empty)
  obtain es2 where r: "scan_run ds v1 = Inr (es2, 0)" "es = es1 @ es2"
    using Cons.prems(4) s(2) by (auto simp: cbind_eq_Inr_iff)
  show ?case
  proof (cases "?h < up (2 ^ (64 - k)) (place v)")
    case True
    with s(4) d(2) Cons.prems(3) r(2) show ?thesis by auto
  next
    case False
    then have "up (2 ^ (64 - k)) (place v) < 2 ^ 64" using place_less [of "hashFunction dt (de_key e)"] by linarith
    then have p: "place v1 = up (2 ^ (64 - k)) (place v)" using s(3) by simp
    have "ds \<noteq> []"
    proof
      assume "ds = []"
      then have "v1 = 0" using r(1) by simp
      moreover have "place v < place v1" using p up_greater [of "2 ^ (64 - k)"] by simp
      ultimately show False by simp
    qed
    then have "e \<in> set es2" using Cons.IH [OF _ _ _ r(1)] Cons.prems(1) False p by simp
    with r(2) show ?thesis by simp
  qed
qed simp

text \<open>C6: An entry that is in the dictionary throughout a scan is emitted by it: if the calls start from
  cursor 0 and the last one returns cursor 0, then every entry that was there at each call has
  been handed to the callback, whatever was added, deleted, resized and rehashed between the
  calls.\<close>

theorem dictScan_complete:
  fixes ds :: "('k, 'v) dict list"
  assumes "\<forall>d \<in> set ds. dict_wf dt norm d \<and> e \<in># entries d" and "ds \<noteq> []"
    and "scan_run ds 0 = Inr (es, 0)"
  shows "e \<in> set es"
  using scan_run_covers [OF assms(1,2) _ assms(3)] by simp

lemma scan_step_ends:
  assumes wf: "dict_wf dt norm d" and k: "k \<le> 63" "entries d = {#} \<or> (\<exists>j \<le> k. min_bits d j)"
    and p: "place v = m * 2 ^ (64 - k)"
  shows "\<exists>es v' m'. dictScan d v = Inr (es, v') \<and> (v' = 0 \<or> (place v' = m' * 2 ^ (64 - k) \<and> m < m'))"
proof (cases "entries d = {#}")
  case True
  then show ?thesis using dictSize_entries [OF wf] by (simp add: dictScan_def)
next
  case False
  then obtain j where j: "j \<le> k" "min_bits d j" using k(2) by blast
  obtain i es v' where s: "i \<le> 63" "min_bits d i" "dictScan d v = Inr (es, v')" "place v' = up (2 ^ (64 - i)) (place v) mod 2 ^ 64"
    using dictScan_step [OF wf False, of v] by blast
  have "(2 :: nat) ^ i = 2 ^ j" using s(2) j(2) by (simp add: min_bits_def)
  then have "i = j" by simp
  then have b: "(2 :: nat) ^ (64 - i) = 2 ^ (64 - k) * 2 ^ (k - i)" using j(1) k(1) by (simp flip: power_add)
  show ?thesis
  proof (cases "v' = 0")
    case True
    with s(3) show ?thesis by blast
  next
    case nz: False
    have "up (2 ^ (64 - i)) (place v) \<noteq> 2 ^ 64" using nz s(4) place_0_iff [of v'] by auto
    then have e: "place v' = up (2 ^ (64 - i)) (place v)" using s(1,4) up_bound [of i "place v"] place_less [of v] by simp
    then have "place v' = ((place v div 2 ^ (64 - i) + 1) * 2 ^ (k - i)) * 2 ^ (64 - k)"
      unfolding up_def b by (simp add: algebra_simps)
    moreover from this have "m < (place v div 2 ^ (64 - i) + 1) * 2 ^ (k - i)"
      using e up_greater [of "2 ^ (64 - i)" "place v"] unfolding p by simp
    ultimately show ?thesis using s(3) by blast
  qed
qed

lemma scan_run_ends:
  assumes "\<forall>d \<in> set ds. dict_wf dt norm d \<and> (entries d = {#} \<or> (\<exists>j \<le> k. min_bits d j))" and k: "k \<le> 63"
    and "place v = m * 2 ^ (64 - k)" and "2 ^ k \<le> m + length ds"
  shows "\<exists>n es. 0 < n \<and> n \<le> length ds \<and> scan_run (take n ds) v = Inr (es, 0)"
  using assms(1,3,4)
proof (induction ds arbitrary: v m)
  case Nil
  have "(2 :: nat) ^ 64 = 2 ^ k * 2 ^ (64 - k)" using k by (simp flip: power_add)
  also have "\<dots> \<le> m * 2 ^ (64 - k)" using Nil by (intro mult_le_mono1) simp
  also have "\<dots> = place v" using Nil by simp
  finally have "2 ^ 64 \<le> place v" .
  with place_less [of v] show ?case by simp
next
  case (Cons d ds)
  obtain es v' m' where s: "dictScan d v = Inr (es, v')" "v' = 0 \<or> (place v' = m' * 2 ^ (64 - k) \<and> m < m')"
    using scan_step_ends [OF _ k _ Cons.prems(2), of dt norm d] Cons.prems(1) by auto
  show ?case
  proof (cases "v' = 0")
    case True
    then show ?thesis using s(1) by (intro exI [of _ 1] exI [of _ es]) simp
  next
    case False
    then obtain n es' where "n \<le> length ds" "scan_run (take n ds) v' = Inr (es', 0)"
      using Cons.IH [of v' m'] s(2) Cons.prems by auto
    then show ?thesis using s(1) by (intro exI [of _ "Suc n"] exI [of _ "es @ es'"]) simp
  qed
qed

text \<open>C36: A scan ends: while the smaller of the live tables has at most \<open>2\<^sup>k\<close> buckets, the cursor is back
  at 0 after at most \<open>2\<^sup>k\<close> calls, and no call reads outside a table.\<close>

theorem dictScan_ends:
  fixes ds :: "('k, 'v) dict list"
  assumes "\<forall>d \<in> set ds. dict_wf dt norm d \<and> (entries d = {#} \<or> (\<exists>j \<le> k. min_bits d j))" and "k \<le> 63"
    and "2 ^ k \<le> length ds"
  shows "\<exists>n es. 0 < n \<and> n \<le> length ds \<and> scan_run (take n ds) 0 = Inr (es, 0)"
  using scan_run_ends [OF assms(1,2), of 0 0] assms(3) by simp

section \<open>Example\<close>

definition ex_type :: "nat dictType" where
  "ex_type = \<lparr> hashFunction = word_of_nat, keyCompare = (=) \<rparr>"

definition ex_dict :: "(nat, unit) dict" where
  "ex_dict = \<lparr> ht0 = \<lparr> table = [[], [\<lparr>de_key = 5, de_val = ()\<rparr>, \<lparr>de_key = 1, de_val = ()\<rparr>], [], [\<lparr>de_key = 7, de_val = ()\<rparr>]],
       ht_size = 4, sizemask = 3, used = 3 \<rparr>, ht1 = dictReset, rehashidx = -1, iterators = 0 \<rparr>"

lemma all_less_4: "(\<forall>i < 4. P i) \<longleftrightarrow> P 0 \<and> P 1 \<and> P 2 \<and> P (3 :: nat)"
  by (auto simp: numeral_eq_Suc less_Suc_eq)

lemma ex_dict_wf: "dict_wf ex_type id ex_dict" "entries ex_dict \<noteq> {#}" "min_bits ex_dict 2"
  "\<lparr>de_key = 7, de_val = ()\<rparr> \<in># entries ex_dict"
proof -
  have "ht_live ex_type (ht0 ex_dict)"
    unfolding ht_live_def
    by (intro conjI exI [of _ 2]) (simp_all add: ex_dict_def ex_type_def ht_entries_def dictHashKey_def all_less_4)
  moreover have "uniq id (entries ex_dict)" unfolding uniq_def by (simp add: ex_dict_def entries_def ht_entries_def dictReset_def)
  ultimately show "dict_wf ex_type id ex_dict"
    by (simp add: dict_wf_def dictIsRehashing_def) (simp add: ex_dict_def)
  show "entries ex_dict \<noteq> {#}" "min_bits ex_dict 2" "\<lparr>de_key = 7, de_val = ()\<rparr> \<in># entries ex_dict"
    by (simp_all add: ex_dict_def entries_def ht_entries_def min_bits_def dictIsRehashing_def)
qed

lemmas swap_bits_numerals = swap_bits_def [where v = "numeral n"] swap_bits_def [where v = "- numeral n"]
  swap_bits_def [where v = 0] swap_bits_def [where v = 1] for n

theorem dictScan_complete_witness:
  "dict_wf ex_type id ex_dict \<and> \<lparr>de_key = 7, de_val = ()\<rparr> \<in># entries ex_dict \<and>
   scan_run [ex_dict, ex_dict, ex_dict, ex_dict] 0 =
     Inr ([\<lparr>de_key = 5, de_val = ()\<rparr>, \<lparr>de_key = 1, de_val = ()\<rparr>, \<lparr>de_key = 7, de_val = ()\<rparr>], 0) \<and>
   \<lparr>de_key = 7, de_val = ()\<rparr> \<in> set [\<lparr>de_key = 5, de_val = ()\<rparr>, \<lparr>de_key = 1, de_val = ()\<rparr>, \<lparr>de_key = 7, de_val = ()\<rparr>]"
proof -
  have "rev_ul (- 1) = - 1" "rev_ul 0 = 0" by (rule bit_word_eqI, simp add: bit_rev_ul)+
  then have nc: "next_cursor 3 0 = 2" "next_cursor 3 2 = 1" "next_cursor 3 1 = 3" "next_cursor 3 3 = 0"
    by (simp_all add: next_cursor_def) (simp_all add: rev_ul_swaps swap_bits_numerals)
  have "scan_run [ex_dict, ex_dict, ex_dict, ex_dict] 0 =
     Inr ([\<lparr>de_key = 5, de_val = ()\<rparr>, \<lparr>de_key = 1, de_val = ()\<rparr>, \<lparr>de_key = 7, de_val = ()\<rparr>], 0)"
    by (simp add: dictScan_def dictSize_def ex_dict_def dictIsRehashing_def emit_def nc)
  then show ?thesis
    using dictScan_complete [of "[ex_dict, ex_dict, ex_dict, ex_dict]" ex_type id "\<lparr>de_key = 7, de_val = ()\<rparr>"] ex_dict_wf by simp
qed

theorem dictScan_ends_witness:
  "dict_wf ex_type id ex_dict \<and> min_bits ex_dict 2 \<and>
   (\<exists>n es. 0 < n \<and> n \<le> length [ex_dict, ex_dict, ex_dict, ex_dict] \<and> scan_run (take n [ex_dict, ex_dict, ex_dict, ex_dict]) 0 = Inr (es, 0))"
proof -
  have "\<forall>d \<in> set [ex_dict, ex_dict, ex_dict, ex_dict]. dict_wf ex_type id d \<and> (entries d = {#} \<or> (\<exists>j \<le> 2. min_bits d j))"
    using ex_dict_wf by auto
  then show ?thesis using dictScan_ends [of "[ex_dict, ex_dict, ex_dict, ex_dict]" ex_type id 2] ex_dict_wf by simp
qed

end
