(* ===== verification/DictIter.thy ===== *)
theory DictIter
  imports DictScan
begin

text \<open>
  The other ways of \<open>dict.c\<close> to reach the entries of a dictionary: iterators, which walk over both tables,
  a random key, and a sample of keys for the eviction and expire cycles. The numbers of \<open>random\<close> are an
  argument, an infinite sequence; the loop that draws until it hits a bucket with entries need not
  end, so it is \<open>None\<close> when it does not. Clearing a dictionary, which hands every entry to the
  destructors, is treated here too.
\<close>

section \<open>Iterators\<close>

text \<open>
  \<open>entry\<close> and \<open>nextEntry\<close> of the code are the entry returned last and the rest of its chain, which the
  iterator has saved. The dictionary itself is passed to each call.
\<close>

record ('k, 'v) dictIterator =
  it_table :: nat
  it_index :: int
  it_safe :: bool
  it_entry :: "('k, 'v) dictEntry option"
  it_nextEntry :: "('k, 'v) dictEntry list"
  it_fingerprint :: u64

definition wang_step :: "u64 \<Rightarrow> u64 \<Rightarrow> u64" where
  "wang_step hash n =
     (let hash = hash + n;
          hash = NOT hash + push_bit 21 hash;
          hash = hash XOR signed_drop_bit 24 hash;
          hash = (hash + push_bit 3 hash) + push_bit 8 hash;
          hash = hash XOR signed_drop_bit 14 hash;
          hash = (hash + push_bit 2 hash) + push_bit 4 hash;
          hash = hash XOR signed_drop_bit 28 hash
      in hash + push_bit 31 hash)"

text \<open>
  The addresses of the two tables are arguments. The accumulator is a \<open>long long\<close> whose sums and left
  shifts overflow, which C leaves undefined; they are the 64-bit two's complement operations here, and
  the right shifts of negative numbers the arithmetic ones, as the supported compilers translate them.
  The lemmas on iterators use of the fingerprint only that it is a function of the six numbers.
\<close>

definition dictFingerprint :: "u64 \<Rightarrow> u64 \<Rightarrow> ('k, 'v) dict \<Rightarrow> u64" where
  "dictFingerprint a0 a1 d =
     fold (\<lambda>n hash. wang_step hash n)
       [a0, word_of_nat (ht_size (ht0 d)), word_of_nat (used (ht0 d)),
        a1, word_of_nat (ht_size (ht1 d)), word_of_nat (used (ht1 d))] 0"

definition dictGetIterator :: "('k, 'v) dictIterator" where
  "dictGetIterator = \<lparr> it_table = 0, it_index = -1, it_safe = False, it_entry = None, it_nextEntry = [], it_fingerprint = 0 \<rparr>"

definition dictGetSafeIterator :: "('k, 'v) dictIterator" where
  "dictGetSafeIterator = dictGetIterator\<lparr>it_safe := True\<rparr>"

text \<open>What happens on the very first call of \<open>dictNext\<close>.\<close>

definition iter_start :: "u64 \<Rightarrow> u64 \<Rightarrow> ('k, 'v) dictIterator \<Rightarrow> ('k, 'v) dict \<Rightarrow> ('k, 'v) dictIterator \<times> ('k, 'v) dict" where
  "iter_start a0 a1 it d =
     (if it_index it = -1 \<and> it_table it = 0 then
        if it_safe it then (it, d\<lparr>iterators := iterators d + 1\<rparr>)
        else (it\<lparr>it_fingerprint := dictFingerprint a0 a1 d\<rparr>, d)
      else (it, d))"

definition ht_of :: "nat \<Rightarrow> ('k, 'v) dict \<Rightarrow> ('k, 'v) dictht" where
  "ht_of n d = (if n = 0 then ht0 d else ht1 d)"

text \<open>
  Going to the next bucket: the new place, or that there is none. The index counts up in each of at
  most two tables, so the loop of \<open>dictNext\<close> ends.
\<close>

definition next_bucket :: "('k, 'v) dictIterator \<Rightarrow> ('k, 'v) dict \<Rightarrow> ('k, 'v) dictIterator \<times> bool" where
  "next_bucket it d =
     (let it = it\<lparr>it_index := it_index it + 1\<rparr> in
      if it_index it \<ge> int (ht_size (ht_of (it_table it) d)) then
        if dictIsRehashing d \<and> it_table it = 0 then (it\<lparr>it_table := 1, it_index := 0\<rparr>, True)
        else (it, False)
      else (it, True))"

definition iter_measure :: "('k, 'v) dictIterator \<Rightarrow> ('k, 'v) dict \<Rightarrow> nat" where
  "iter_measure it d =
     (if it_table it = 0 then nat (int (ht_size (ht0 d)) - it_index it) + ht_size (ht1 d) + 2
      else nat (int (ht_size (ht1 d)) - it_index it))"

lemma next_bucket_measure:
  assumes "next_bucket it d = (it', True)"
  shows "iter_measure (it'\<lparr>it_entry := e\<rparr>) d < iter_measure it d"
  using assms unfolding next_bucket_def Let_def
  by (auto simp: iter_measure_def ht_of_def split: if_splits)

function next_loop :: "('k, 'v) dict \<Rightarrow> ('k, 'v) dictIterator \<Rightarrow> (('k, 'v) dictEntry option \<times> ('k, 'v) dictIterator) cres" where
  "next_loop d it =
     (case next_bucket it d of
        (it, False) \<Rightarrow> Inr (None, it\<lparr>it_entry := None\<rparr>)
      | (it', True) \<Rightarrow>
          cbind (if it_index it' < 0 then Inl OutOfBounds else rd (table (ht_of (it_table it') d)) (nat (it_index it'))) (\<lambda>ch.
          case ch of
            e # rest \<Rightarrow> Inr (Some e, it'\<lparr>it_entry := Some e, it_nextEntry := rest\<rparr>)
          | [] \<Rightarrow> next_loop d (it'\<lparr>it_entry := None\<rparr>)))"
  by pat_completeness auto
termination
  by (relation "measure (\<lambda>(d, it). iter_measure it d)") (auto intro!: next_bucket_measure)

declare next_loop.simps [simp del]

text \<open>
  \<open>dictNext\<close>: the saved rest of the chain first, then the next bucket. When \<open>entry\<close> is null the counter or
  the fingerprint is set up; the loop meets that branch only with the index already advanced.
\<close>

definition dictNext ::
  "u64 \<Rightarrow> u64 \<Rightarrow> ('k, 'v) dictIterator \<Rightarrow> ('k, 'v) dict \<Rightarrow>
   (('k, 'v) dictEntry option \<times> ('k, 'v) dictIterator \<times> ('k, 'v) dict) cres" where
  "dictNext a0 a1 it d =
     (case it_entry it of
        None \<Rightarrow> (case iter_start a0 a1 it d of (it, d) \<Rightarrow>
          cbind (next_loop d it) (\<lambda>(e, it). Inr (e, it, d)))
      | Some e \<Rightarrow>
          (case it_nextEntry it of
             e # rest \<Rightarrow> Inr (Some e, it\<lparr>it_entry := Some e, it_nextEntry := rest\<rparr>, d)
           | [] \<Rightarrow> (case iter_start a0 a1 (it\<lparr>it_entry := None\<rparr>) d of (it, d) \<Rightarrow>
               cbind (next_loop d it) (\<lambda>(e, it). Inr (e, it, d)))))"

definition dictReleaseIterator :: "u64 \<Rightarrow> u64 \<Rightarrow> ('k, 'v) dictIterator \<Rightarrow> ('k, 'v) dict \<Rightarrow> ('k, 'v) dict cres" where
  "dictReleaseIterator a0 a1 it d =
     (if \<not> (it_index it = -1 \<and> it_table it = 0) then
        if it_safe it then Inr (d\<lparr>iterators := dec_ul (iterators d)\<rparr>)
        else if it_fingerprint it = dictFingerprint a0 a1 d then Inr d else Inl AssertFailed
      else Inr d)"

text \<open>Walking over a whole dictionary that does not change meanwhile: \<open>n\<close> bounds the number of calls.\<close>

fun iterate :: "nat \<Rightarrow> u64 \<Rightarrow> u64 \<Rightarrow> ('k, 'v) dictIterator \<Rightarrow> ('k, 'v) dict \<Rightarrow>
   (('k, 'v) dictEntry list \<times> ('k, 'v) dictIterator \<times> ('k, 'v) dict) cres option" where
  "iterate 0 a0 a1 it d = None"
| "iterate (Suc n) a0 a1 it d =
     (case dictNext a0 a1 it d of
        Inl f \<Rightarrow> Some (Inl f)
      | Inr (None, it, d) \<Rightarrow> Some (Inr ([], it, d))
      | Inr (Some e, it, d) \<Rightarrow>
          (case iterate n a0 a1 it d of
             None \<Rightarrow> None
           | Some (Inl f) \<Rightarrow> Some (Inl f)
           | Some (Inr (es, it, d)) \<Rightarrow> Some (Inr (e # es, it, d))))"

section \<open>Iterators visit every entry once\<close>

text \<open>The entries in the buckets an iterator has not reached yet.\<close>

definition buckets_left :: "('k, 'v) dictIterator \<Rightarrow> ('k, 'v) dict \<Rightarrow> ('k, 'v) dictEntry list" where
  "buckets_left it d =
     (if it_table it = 0
      then concat (drop (nat (it_index it + 1)) (table (ht0 d))) @ (if dictIsRehashing d then concat (table (ht1 d)) else [])
      else concat (drop (nat (it_index it + 1)) (table (ht1 d))))"

definition sized :: "('k, 'v) dict \<Rightarrow> bool" where
  "sized d \<longleftrightarrow> length (table (ht0 d)) = ht_size (ht0 d) \<and> length (table (ht1 d)) = ht_size (ht1 d) \<and>
     (dictIsRehashing d \<longrightarrow> 0 < ht_size (ht1 d))"

lemma wf_sized: "dict_wf dt norm d \<Longrightarrow> sized d"
  by (auto simp: dict_wf_def sized_def ht_live_def dictReset_def split: if_splits)

lemma next_bucket_ok:
  assumes s: "sized d" and it: "-1 \<le> it_index it" and nb: "next_bucket it d = (it', ok)"
  shows "if ok then 0 \<le> it_index it' \<and> nat (it_index it') < length (table (ht_of (it_table it') d)) \<and>
      buckets_left it d = table (ht_of (it_table it') d) ! nat (it_index it') @ buckets_left it' d
    else buckets_left it d = [] \<and> 0 \<le> it_index it'"
  "it_safe it' = it_safe it" "it_fingerprint it' = it_fingerprint it"
proof -
  let ?i = "nat (it_index it + 1)" and ?h = "ht_of (it_table it) d"
  have len: "length (table ?h) = ht_size ?h" using s by (simp add: sized_def ht_of_def)
  show "it_safe it' = it_safe it" "it_fingerprint it' = it_fingerprint it"
    using nb by (auto simp: next_bucket_def Let_def split: if_splits)
  show "if ok then 0 \<le> it_index it' \<and> nat (it_index it') < length (table (ht_of (it_table it') d)) \<and>
      buckets_left it d = table (ht_of (it_table it') d) ! nat (it_index it') @ buckets_left it' d
    else buckets_left it d = [] \<and> 0 \<le> it_index it'"
  proof (cases "it_index it + 1 \<ge> int (ht_size ?h)")
    case False
    then have nb': "it' = it\<lparr>it_index := it_index it + 1\<rparr>" "ok" using nb by (simp_all add: next_bucket_def Let_def)
    have i: "?i < length (table ?h)" using False len it by linarith
    have e: "nat (it_index it + 1 + 1) = Suc ?i" using it by linarith
    have "drop ?i (table ?h) = table ?h ! ?i # drop (nat (it_index it + 1 + 1)) (table ?h)"
      unfolding e by (rule Cons_nth_drop_Suc [OF i, symmetric])
    then have "buckets_left it d = table ?h ! ?i @ buckets_left it' d"
      by (simp add: buckets_left_def nb'(1) ht_of_def split: if_splits)
    then show ?thesis using i it nb' by simp
  next
    case True
    then have d: "drop ?i (table ?h) = []" using len by simp
    show ?thesis
    proof (cases "dictIsRehashing d \<and> it_table it = 0")
      case sw: True
      then have nb': "it' = it\<lparr>it_index := 0, it_table := 1\<rparr>" "ok" using nb True by (auto simp: next_bucket_def Let_def)
      have pos: "0 < length (table (ht1 d))" using s sw by (simp add: sized_def)
      then have "concat (table (ht1 d)) = table (ht1 d) ! 0 @ concat (drop 1 (table (ht1 d)))"
        by (cases "table (ht1 d)") simp_all
      then have "buckets_left it d = table (ht1 d) ! 0 @ buckets_left it' d"
        using d sw by (simp add: buckets_left_def nb'(1) ht_of_def)
      then show ?thesis using pos nb' by (simp add: ht_of_def)
    next
      case stop: False
      then have "\<not> ok" "0 \<le> it_index it'" using nb True it by (auto simp: next_bucket_def Let_def)
      moreover have "buckets_left it d = []" using d stop by (auto simp: buckets_left_def ht_of_def)
      ultimately show ?thesis by simp
    qed
  qed
qed

lemma next_loop_ok:
  assumes "sized d" and "-1 \<le> it_index it"
  shows "\<exists>e it'. next_loop d it = Inr (e, it') \<and> 0 \<le> it_index it' \<and> it_safe it' = it_safe it \<and>
    it_fingerprint it' = it_fingerprint it \<and> it_entry it' = e \<and>
    (case e of None \<Rightarrow> buckets_left it d = [] | Some x \<Rightarrow> buckets_left it d = x # it_nextEntry it' @ buckets_left it' d)"
  using assms
proof (induction d it rule: next_loop.induct)
  case (1 d it)
  obtain it' ok where nb: "next_bucket it d = (it', ok)" by fastforce
  note ok = next_bucket_ok [OF 1(2,3) nb]
  show ?case
  proof (cases ok)
    case False
    then have "next_loop d it = Inr (None, it'\<lparr>it_entry := None\<rparr>)" using nb by (subst next_loop.simps) simp
    then show ?thesis using ok False by simp
  next
    case True
    let ?ch = "table (ht_of (it_table it') d) ! nat (it_index it')"
    have rd: "(if it_index it' < 0 then Inl OutOfBounds else rd (table (ht_of (it_table it') d)) (nat (it_index it'))) = Inr ?ch"
      using ok(1) True by simp
    show ?thesis
    proof (cases ?ch)
      case (Cons x rest)
      then have "next_loop d it = Inr (Some x, it'\<lparr>it_entry := Some x, it_nextEntry := rest\<rparr>)"
        using nb True rd by (subst next_loop.simps) simp
      then show ?thesis using ok True Cons by (simp add: buckets_left_def)
    next
      case Nil
      let ?it = "it'\<lparr>it_entry := None\<rparr>"
      have step: "next_loop d it = next_loop d ?it" using nb True rd Nil by (subst next_loop.simps) simp
      have left: "buckets_left it d = buckets_left ?it d" using ok(1) True Nil by (simp add: buckets_left_def)
      have "-1 \<le> it_index ?it" using ok(1) True by simp
      then show ?thesis unfolding step left using 1(1) [OF nb [symmetric] _ rd Nil] True 1(2) ok(2,3) by simp
    qed
  qed
qed

definition left :: "('k, 'v) dictIterator \<Rightarrow> ('k, 'v) dict \<Rightarrow> ('k, 'v) dictEntry list" where
  "left it d = (if it_entry it = None then [] else it_nextEntry it) @ buckets_left it d"

text \<open>A call on an iterator that has started, and so leaves the dictionary alone.\<close>

lemma dictNext_running:
  assumes s: "sized d" and i: "0 \<le> it_index it"
  shows "\<exists>e it'. dictNext a0 a1 it d = Inr (e, it', d) \<and> 0 \<le> it_index it' \<and> it_safe it' = it_safe it \<and>
    it_fingerprint it' = it_fingerprint it \<and> (case e of None \<Rightarrow> left it d = [] | Some x \<Rightarrow> left it d = x # left it' d)"
proof -
  have start: "iter_start a0 a1 it d = (it, d)" if "0 \<le> it_index it" for it :: "('a, 'b) dictIterator"
    using that by (simp add: iter_start_def)
  have bucket: "\<exists>e it'. cbind (next_loop d it) (\<lambda>(e, it). Inr (e, it, d)) = Inr (e, it', d) \<and> 0 \<le> it_index it' \<and>
      it_safe it' = it_safe it \<and> it_fingerprint it' = it_fingerprint it \<and>
      (case e of None \<Rightarrow> buckets_left it d = [] | Some x \<Rightarrow> buckets_left it d = x # left it' d)"
    if it: "0 \<le> it_index it" for it :: "('a, 'b) dictIterator"
  proof -
    obtain e it' where "next_loop d it = Inr (e, it')" "0 \<le> it_index it'" "it_safe it' = it_safe it"
        "it_fingerprint it' = it_fingerprint it" "it_entry it' = e"
        "case e of None \<Rightarrow> buckets_left it d = [] | Some x \<Rightarrow> buckets_left it d = x # it_nextEntry it' @ buckets_left it' d"
      using next_loop_ok [OF s, of it] it by auto
    then show ?thesis by (cases e) (simp_all add: left_def)
  qed
  show ?thesis
  proof (cases "it_entry it")
    case None
    then have l: "left it d = buckets_left it d" by (simp add: left_def)
    have n: "dictNext a0 a1 it d = cbind (next_loop d it) (\<lambda>(e, it). Inr (e, it, d))"
      using None start [OF i] by (simp add: dictNext_def)
    show ?thesis unfolding l n by (rule bucket [OF i])
  next
    case (Some x)
    show ?thesis
    proof (cases "it_nextEntry it")
      case (Cons y rest)
      then show ?thesis using Some i by (simp add: dictNext_def left_def buckets_left_def)
    next
      case Nil
      let ?it = "it\<lparr>it_entry := None\<rparr>"
      have l: "left it d = buckets_left ?it d" using Some Nil by (simp add: left_def buckets_left_def)
      have n: "dictNext a0 a1 it d = cbind (next_loop d ?it) (\<lambda>(e, it). Inr (e, it, d))"
        using Some Nil start [of ?it] i by (simp add: dictNext_def)
      show ?thesis unfolding l n using bucket [of ?it] i by simp
    qed
  qed
qed

lemma iterate_running:
  assumes s: "sized d" and i: "0 \<le> it_index it" and n: "n = Suc (length (left it d))"
  shows "\<exists>it'. iterate n a0 a1 it d = Some (Inr (left it d, it', d)) \<and> 0 \<le> it_index it' \<and> it_safe it' = it_safe it \<and>
    it_fingerprint it' = it_fingerprint it"
  using i n
proof (induction n arbitrary: it)
  case (Suc n)
  obtain e it' where e: "dictNext a0 a1 it d = Inr (e, it', d)" "0 \<le> it_index it'" "it_safe it' = it_safe it"
      "it_fingerprint it' = it_fingerprint it" "case e of None \<Rightarrow> left it d = [] | Some x \<Rightarrow> left it d = x # left it' d"
    using dictNext_running [OF s Suc.prems(1)] by blast
  show ?case
  proof (cases e)
    case None
    with e show ?thesis by simp
  next
    case (Some x)
    then have l: "left it d = x # left it' d" using e(5) by simp
    obtain it2 where "iterate n a0 a1 it' d = Some (Inr (left it' d, it2, d))" "0 \<le> it_index it2" "it_safe it2 = it_safe it'"
        "it_fingerprint it2 = it_fingerprint it'"
      using Suc.IH [OF e(2)] Suc.prems(2) l by auto
    with e Some l show ?thesis by simp
  qed
qed simp

text \<open>C37: An iterator over a dictionary that is left alone returns every entry exactly once and then null,
  in both tables when a rehash is under way; releasing it then succeeds and leaves the dictionary
  as it was: the count of safe iterators is restored, and the fingerprint of an unsafe one matches.\<close>

theorem iterator_visits_all:
  assumes "dict_wf dt norm d"
  shows "\<exists>es it d'. iterate (Suc (dictSize d)) a0 a1 (dictGetIterator\<lparr>it_safe := safe\<rparr>) d = Some (Inr (es, it, d')) \<and>
    mset es = entries d \<and> dictReleaseIterator a0 a1 it d' = Inr d"
proof -
  let ?it = "dictGetIterator\<lparr>it_safe := safe\<rparr> :: ('a, 'c) dictIterator"
  obtain it1 d1 where st: "iter_start a0 a1 ?it d = (it1, d1)" by fastforce
  then have d1: "d1 = (if safe then d\<lparr>iterators := iterators d + 1\<rparr> else d)"
      "it1 = (if safe then ?it else ?it\<lparr>it_fingerprint := dictFingerprint a0 a1 d\<rparr>)"
    by (auto simp: iter_start_def dictGetIterator_def split: if_splits)
  have s: "sized d1" using wf_sized [OF assms] by (auto simp: d1 sized_def dictIsRehashing_def)
  have "ht_entries (ht1 d) = {#}" if "\<not> dictIsRehashing d" using assms that by (simp add: dict_wf_def)
  then have all: "mset (buckets_left it1 d1) = entries d"
    by (auto simp: buckets_left_def d1 dictGetIterator_def entries_def ht_entries_def dictIsRehashing_def)
  then have len: "length (buckets_left it1 d1) = dictSize d" using dictSize_entries [OF assms] by (metis size_mset)
  have i1: "-1 \<le> it_index it1" by (simp add: d1 dictGetIterator_def)
  obtain e it2 where e: "next_loop d1 it1 = Inr (e, it2)" "0 \<le> it_index it2" "it_safe it2 = it_safe it1"
      "it_fingerprint it2 = it_fingerprint it1" "it_entry it2 = e"
      "case e of None \<Rightarrow> buckets_left it1 d1 = [] | Some x \<Rightarrow> buckets_left it1 d1 = x # it_nextEntry it2 @ buckets_left it2 d1"
    using next_loop_ok [OF s i1] by blast
  have first: "dictNext a0 a1 ?it d = Inr (e, it2, d1)" using st e(1) by (simp add: dictNext_def dictGetIterator_def)
  have release: "dictReleaseIterator a0 a1 it d1 = Inr d"
    if "0 \<le> it_index it" "it_safe it = safe" "it_fingerprint it = it_fingerprint it1" for it :: "('a, 'c) dictIterator"
    using that by (auto simp: dictReleaseIterator_def d1 dec_ul_def)
  have safe1: "it_safe it1 = safe" by (simp add: d1 dictGetIterator_def)
  show ?thesis
  proof (cases e)
    case None
    then have "iterate (Suc (dictSize d)) a0 a1 ?it d = Some (Inr ([], it2, d1))" using first by simp
    then show ?thesis using None e release [of it2] safe1 all by simp
  next
    case (Some x)
    then have l: "buckets_left it1 d1 = x # left it2 d1" using e(5,6) by (simp add: left_def)
    obtain it3 where it3: "iterate (dictSize d) a0 a1 it2 d1 = Some (Inr (left it2 d1, it3, d1))" "0 \<le> it_index it3"
        "it_safe it3 = it_safe it2" "it_fingerprint it3 = it_fingerprint it2"
      using iterate_running [OF s e(2), of "dictSize d" a0 a1] len l by (auto simp del: iterate.simps)
    then have "iterate (Suc (dictSize d)) a0 a1 ?it d = Some (Inr (x # left it2 d1, it3, d1))" using first Some by simp
    then show ?thesis using all l it3 e release [of it3] safe1 by simp
  qed
qed

theorem iterator_visits_all_witness:
  "dict_wf ex_type id ex_dict \<and>
   (\<exists>es it d'. iterate (Suc (dictSize ex_dict)) 0 0 (dictGetIterator\<lparr>it_safe := True\<rparr>) ex_dict = Some (Inr (es, it, d')) \<and>
     mset es = entries ex_dict \<and> dictReleaseIterator 0 0 it d' = Inr ex_dict)"
  using iterator_visits_all [OF ex_dict_wf(1)] ex_dict_wf(1) by blast

section \<open>A random key\<close>

type_synonym randoms = "nat \<Rightarrow> nat"

definition random :: "randoms \<Rightarrow> nat \<times> randoms" where
  "random r = (r 0, \<lambda>n. r (Suc n))"

text \<open>The \<open>do ... while (he == NULL)\<close> loops: \<open>get\<close> reads the bucket that a random number selects.\<close>

partial_function (option) find_bucket ::
  "(nat \<Rightarrow> ('k, 'v) dictEntry list cres) \<Rightarrow> randoms \<Rightarrow> (('k, 'v) dictEntry list \<times> randoms) cres option" where
  "find_bucket get r =
     (case random r of (x, r) \<Rightarrow>
      case get x of
        Inl f \<Rightarrow> Some (Inl f)
      | Inr he \<Rightarrow> if he = [] then find_bucket get r else Some (Inr (he, r)))"

definition random_slot :: "('k, 'v) dict \<Rightarrow> nat \<Rightarrow> ('k, 'v) dictEntry list cres" where
  "random_slot d x =
     (if dictIsRehashing d then
        let n = ht_size (ht0 d) + ht_size (ht1 d) - nat (rehashidx d) in
        if n = 0 then Inl DivideByZero
        else let h = nat (rehashidx d) + x mod n in
          if h \<ge> ht_size (ht0 d) then rd (table (ht1 d)) (h - ht_size (ht0 d)) else rd (table (ht0 d)) h
      else rd (table (ht0 d)) (x AND sizemask (ht0 d)))"

definition dictGetRandomKey ::
  "'k dictType \<Rightarrow> ('k, 'v) dict \<Rightarrow> randoms \<Rightarrow> (('k, 'v) dictEntry option \<times> ('k, 'v) dict \<times> randoms) cres option" where
  "dictGetRandomKey dt d r =
     (if dictSize d = 0 then Some (Inr (None, d, r))
      else case step_if_rehashing dt d of
        Inl f \<Rightarrow> Some (Inl f)
      | Inr d \<Rightarrow>
          (case find_bucket (random_slot d) r of
             None \<Rightarrow> None
           | Some (Inl f) \<Rightarrow> Some (Inl f)
           | Some (Inr (he, r)) \<Rightarrow>
               (case random r of (x, r) \<Rightarrow>
                Some (cbind (rd he (x mod length he)) (\<lambda>e. Inr (Some e, d, r))))))"

lemma find_bucket_returns:
  assumes ok: "\<And>x. \<exists>he. get x = Inr he" and hit: "\<exists>n. get (r n) \<noteq> Inr []"
  shows "\<exists>he r' n. find_bucket get r = Some (Inr (he, r')) \<and> he \<noteq> [] \<and> get (r n) = Inr he"
proof -
  obtain n where "get (r n) \<noteq> Inr []" using hit by blast
  then show ?thesis
  proof (induction n arbitrary: r)
    case 0
    obtain he where "get (r 0) = Inr he" using ok by blast
    with 0 show ?case by (subst find_bucket.simps) (auto simp: random_def)
  next
    case (Suc n)
    obtain he where he: "get (r 0) = Inr he" using ok by blast
    show ?case
    proof (cases "he = []")
      case True
      then have "find_bucket get r = find_bucket get (\<lambda>n. r (Suc n))" using he by (subst find_bucket.simps) (simp add: random_def)
      then show ?thesis using Suc.IH [of "\<lambda>n. r (Suc n)"] Suc.prems by auto
    next
      case False
      then show ?thesis using he by (subst find_bucket.simps) (auto simp: random_def)
    qed
  qed
qed

text \<open>Every draw reads a bucket of the tables, and every bucket with entries can be drawn.\<close>

lemma random_slot_ok:
  assumes wf: "dict_wf dt norm d" and ne: "entries d \<noteq> {#}"
  shows "\<exists>he. random_slot d x = Inr he \<and> (\<forall>e \<in> set he. e \<in># entries d)"
    "e \<in># entries d \<Longrightarrow> \<exists>v < dictSlots d. \<exists>he. random_slot d v = Inr he \<and> e \<in> set he"
proof -
  have s: "sized d" by (rule wf_sized [OF wf])
  have live0: "ht_live dt (ht0 d)" using wf ne by (auto simp: dict_wf_def entries_def split: if_splits)
  have in0: "\<forall>e \<in> set (table (ht0 d) ! i). e \<in># entries d" if "i < length (table (ht0 d))" for i
    using that by (auto simp: entries_def ht_entries_def)
  have in1: "\<forall>e \<in> set (table (ht1 d) ! i). e \<in># entries d" if "i < length (table (ht1 d))" for i
    using that by (auto simp: entries_def ht_entries_def)
  let ?k = "nat (rehashidx d)"
  let ?n = "ht_size (ht0 d) + ht_size (ht1 d) - ?k"
  have re: "?k \<le> ht_size (ht0 d)" "0 < ?n" "\<And>i. i < ?k \<Longrightarrow> i < length (table (ht0 d)) \<Longrightarrow> table (ht0 d) ! i = []"
    if "dictIsRehashing d"
    using wf s that by (auto simp: dict_wf_def sized_def)
  show "\<exists>he. random_slot d x = Inr he \<and> (\<forall>e \<in> set he. e \<in># entries d)"
  proof (cases "dictIsRehashing d")
    case True
    let ?h = "?k + x mod ?n"
    have "x mod ?n < ?n" using re(2) [OF True] by simp
    then have h: "?h < ht_size (ht0 d) + ht_size (ht1 d)" by linarith
    have n: "?n \<noteq> 0" using re(2) [OF True] by simp
    have "random_slot d x =
        (if ?h \<ge> ht_size (ht0 d) then rd (table (ht1 d)) (?h - ht_size (ht0 d)) else rd (table (ht0 d)) ?h)"
      unfolding random_slot_def Let_def using True n by simp
    moreover have "?h - ht_size (ht0 d) < length (table (ht1 d))" if "?h \<ge> ht_size (ht0 d)"
      using h that s unfolding sized_def by linarith
    moreover have "?h < length (table (ht0 d))" if "\<not> ?h \<ge> ht_size (ht0 d)"
      using that s unfolding sized_def by linarith
    ultimately show ?thesis using in0 in1 by (cases "?h \<ge> ht_size (ht0 d)") simp_all
  next
    case False
    then show ?thesis using live_index [OF live0, of x] in0 by (simp add: random_slot_def)
  qed
  assume "e \<in># entries d"
  then consider (t0) i where "i < length (table (ht0 d))" "e \<in> set (table (ht0 d) ! i)"
    | (t1) i where "i < length (table (ht1 d))" "e \<in> set (table (ht1 d) ! i)"
    unfolding entries_def union_iff in_ht_entries by blast
  then show "\<exists>v < dictSlots d. \<exists>he. random_slot d v = Inr he \<and> e \<in> set he"
  proof cases
    case t0
    show ?thesis
    proof (cases "dictIsRehashing d")
      case True
      then have "?k \<le> i" using re(3) [OF True, of i] t0 by (cases "i < ?k") auto
      moreover have i: "i < ht_size (ht0 d)" using t0 s by (simp add: sized_def)
      ultimately have "(i - ?k) mod ?n = i - ?k" "?k + (i - ?k) = i" by auto
      then have "random_slot d (i - ?k) = Inr (table (ht0 d) ! i)"
        using True i t0 re(2) [OF True] by (simp add: random_slot_def Let_def)
      then show ?thesis using t0 i by (intro exI [of _ "i - ?k"]) (simp add: dictSlots_def)
    next
      case False
      obtain k where k: "sizemask (ht0 d) = 2 ^ k - 1" "ht_size (ht0 d) = 2 ^ k" using live0 by (auto simp: ht_live_def)
      have i: "i < ht_size (ht0 d)" using t0 s by (simp add: sized_def)
      then have "i AND sizemask (ht0 d) = i" unfolding k mask_eq_exp_minus_1 [symmetric] take_bit_eq_mask [symmetric]
        by (rule take_bit_nat_eq_self)
      then show ?thesis using False t0 i by (intro exI [of _ i]) (simp add: random_slot_def dictSlots_def)
    qed
  next
    case t1
    then have re1: "dictIsRehashing d" using wf by (auto simp: dict_wf_def dictReset_def split: if_splits)
    let ?v = "ht_size (ht0 d) - ?k + i"
    have i: "i < ht_size (ht1 d)" using t1 s by (simp add: sized_def)
    then have "?v mod ?n = ?v" "?k + ?v = ht_size (ht0 d) + i" using re(1) [OF re1] by auto
    then have "random_slot d ?v = Inr (table (ht1 d) ! i)"
      using re1 i t1 re(2) [OF re1] by (simp add: random_slot_def Let_def)
    then show ?thesis using t1 i by (intro exI [of _ ?v]) (simp add: dictSlots_def)
  qed
qed

lemma move_chain_size:
  "move_chain dt ch d = Inr d' \<Longrightarrow> ht_size (ht0 d') = ht_size (ht0 d) \<and> ht_size (ht1 d') = ht_size (ht1 d)"
  by (induction ch arbitrary: d) (auto simp: Let_def cbind_eq_Inr_iff)

lemma rehash_loop_size:
  "rehash_loop dt n ev d = Inr (r, d') \<Longrightarrow> ht_size (ht0 d') = ht_size (ht0 d) \<and> ht_size (ht1 d') = ht_size (ht1 d)"
proof (induction n arbitrary: ev d)
  case (Suc n)
  then show ?case
    by (auto simp: cbind_eq_Inr_iff split: if_splits option.splits dest!: Suc.IH move_chain_size)
qed simp

lemma dictRehash_slots: "dictRehash dt n d = Inr (b, d') \<Longrightarrow> dictSlots d' \<le> dictSlots d"
  by (auto simp: dictRehash_def cbind_eq_Inr_iff dictSlots_def dictReset_def split: if_splits dest!: rehash_loop_size)

lemma step_slots: "step_if_rehashing dt d = Inr d' \<Longrightarrow> dictSlots d' \<le> dictSlots d"
  by (auto simp: step_if_rehashing_def dictRehashStep_def cbind_eq_Inr_iff split: if_splits dest: dictRehash_slots)

text \<open>When the random numbers take every value below the number of slots, \<open>dictGetRandomKey\<close> on a dictionary
  with entries returns, and what it returns is one of the entries; on an empty one it returns null.
  The dictionary keeps its entries.\<close>

theorem dictGetRandomKey_returns:
  assumes wf: "dict_wf dt norm d" and r: "\<forall>v < dictSlots d. \<exists>n. r n = v"
  shows "\<exists>e d' r'. dictGetRandomKey dt d r = Some (Inr (e, d', r')) \<and> dict_wf dt norm d' \<and> entries d' = entries d \<and>
    (case e of None \<Rightarrow> entries d = {#} | Some e \<Rightarrow> e \<in># entries d)"
proof (cases "entries d = {#}")
  case True
  then show ?thesis using wf dictSize_entries [OF wf] by (simp add: dictGetRandomKey_def)
next
  case False
  then have size: "dictSize d \<noteq> 0" using dictSize_entries [OF wf] by simp
  obtain d1 where d1: "step_if_rehashing dt d = Inr d1" "dict_wf dt norm d1" "entries d1 = entries d"
    using step_if_rehashing_ok [OF wf] by blast
  have ne: "entries d1 \<noteq> {#}" using False d1(3) by simp
  then obtain x where "x \<in># entries d1" by blast
  then obtain v he where "v < dictSlots d1" "random_slot d1 v = Inr he" "x \<in> set he"
    using random_slot_ok(2) [OF d1(2) ne] by blast
  moreover from this(1) have "v < dictSlots d" using step_slots [OF d1(1)] by simp
  with r obtain n where "r n = v" by blast
  ultimately have hit: "\<exists>n. random_slot d1 (r n) \<noteq> Inr []" by (intro exI [of _ n]) auto
  obtain he r' n where h: "find_bucket (random_slot d1) r = Some (Inr (he, r'))" "he \<noteq> []" "random_slot d1 (r n) = Inr he"
    using find_bucket_returns [of "random_slot d1" r] hit random_slot_ok(1) [OF d1(2) ne] by metis
  have "\<forall>e \<in> set he. e \<in># entries d1" using random_slot_ok(1) [OF d1(2) ne, of "r n"] h(3) by simp
  moreover have "r' 0 mod length he < length he" using h(2) by simp
  ultimately show ?thesis
    using size d1 h(1) by (simp add: dictGetRandomKey_def random_def)
qed

theorem dictGetRandomKey_returns_witness:
  "\<exists>e d' r'. dictGetRandomKey ex_type ex_dict (\<lambda>n. n) = Some (Inr (Some e, d', r')) \<and> e \<in># entries ex_dict"
  using dictGetRandomKey_returns [OF ex_dict_wf(1), of "\<lambda>n. n"] ex_dict_wf(2) by (fastforce split: option.splits)

section \<open>A sample of keys\<close>

text \<open>Storing the entries of a chain until \<open>count\<close> are stored; the flag says that the function returns.\<close>

fun collect :: "nat \<Rightarrow> ('k, 'v) dictEntry list \<Rightarrow> ('k, 'v) dictEntry list \<Rightarrow> ('k, 'v) dictEntry list \<times> bool" where
  "collect cnt [] des = (des, False)"
| "collect cnt (he # ch) des =
     (let des = des @ [he] in if length des = cnt then (des, True) else collect cnt ch des)"

record ('k, 'v) sample =
  sm_i :: nat
  sm_emptylen :: nat
  sm_des :: "('k, 'v) dictEntry list"
  sm_rnd :: randoms

text \<open>The body of the loop over the tables, for table \<open>j\<close>.\<close>

definition sample_table ::
  "nat \<Rightarrow> nat \<Rightarrow> nat \<Rightarrow> ('k, 'v) dict \<Rightarrow> nat \<Rightarrow> ('k, 'v) sample \<Rightarrow> (bool \<times> ('k, 'v) sample) cres" where
  "sample_table cnt tables maxsizemask d j s =
     (if tables = 2 \<and> j = 0 \<and> sm_i s < nat (rehashidx d) \<and> \<not> sm_i s \<ge> ht_size (ht1 d) then Inr (False, s)
      else
        let s = (if tables = 2 \<and> j = 0 \<and> sm_i s < nat (rehashidx d) then s\<lparr>sm_i := nat (rehashidx d)\<rparr> else s) in
        if sm_i s \<ge> ht_size (ht_of j d) then Inr (False, s)
        else cbind (rd (table (ht_of j d)) (sm_i s)) (\<lambda>he.
          if he = [] then
            let s = s\<lparr>sm_emptylen := sm_emptylen s + 1\<rparr> in
            if sm_emptylen s \<ge> 5 \<and> sm_emptylen s > cnt then
              (case random (sm_rnd s) of (x, r) \<Rightarrow> Inr (False, s\<lparr>sm_i := x AND maxsizemask, sm_rnd := r, sm_emptylen := 0\<rparr>))
            else Inr (False, s)
          else (case collect cnt he (sm_des s) of (des, ret) \<Rightarrow> Inr (ret, s\<lparr>sm_emptylen := 0, sm_des := des\<rparr>))))"

fun sample_loop ::
  "nat \<Rightarrow> nat \<Rightarrow> nat \<Rightarrow> nat \<Rightarrow> ('k, 'v) dict \<Rightarrow> ('k, 'v) sample \<Rightarrow> ('k, 'v) sample cres" where
  "sample_loop 0 cnt tables maxsizemask d s = Inr s"
| "sample_loop (Suc maxsteps) cnt tables maxsizemask d s =
     (if \<not> length (sm_des s) < cnt then Inr s
      else cbind (sample_table cnt tables maxsizemask d 0 s) (\<lambda>(ret, s).
        if ret then Inr s
        else cbind (if tables = 2 then sample_table cnt tables maxsizemask d 1 s else Inr (False, s)) (\<lambda>(ret, s).
          if ret then Inr s
          else sample_loop maxsteps cnt tables maxsizemask d (s\<lparr>sm_i := (sm_i s + 1) AND maxsizemask\<rparr>))))"

fun rehash_steps :: "'k dictType \<Rightarrow> nat \<Rightarrow> ('k, 'v) dict \<Rightarrow> ('k, 'v) dict cres" where
  "rehash_steps dt 0 d = Inr d"
| "rehash_steps dt (Suc n) d = (if dictIsRehashing d then cbind (dictRehashStep dt d) (rehash_steps dt n) else Inr d)"

text \<open>\<open>count\<close> is an \<open>unsigned int\<close>, and so is \<open>count * 10\<close>.\<close>

definition dictGetSomeKeys ::
  "'k dictType \<Rightarrow> ('k, 'v) dict \<Rightarrow> nat \<Rightarrow> randoms \<Rightarrow> (('k, 'v) dictEntry list \<times> ('k, 'v) dict \<times> randoms) cres" where
  "dictGetSomeKeys dt d cnt r =
     (let cnt = (if dictSize d < cnt then dictSize d else cnt);
          maxsteps = (cnt * 10) mod 2 ^ 32 in
      cbind (rehash_steps dt cnt d) (\<lambda>d.
      let tables = (if dictIsRehashing d then 2 else 1);
          maxsizemask = (if tables > 1 \<and> sizemask (ht0 d) < sizemask (ht1 d) then sizemask (ht1 d) else sizemask (ht0 d)) in
      case random r of (x, r) \<Rightarrow>
      cbind (sample_loop maxsteps cnt tables maxsizemask d
               \<lparr> sm_i = x AND maxsizemask, sm_emptylen = 0, sm_des = [], sm_rnd = r \<rparr>) (\<lambda>s.
      Inr (sm_des s, d, sm_rnd s))))"

definition sample_ok :: "nat \<Rightarrow> ('k, 'v) dict \<Rightarrow> ('k, 'v) sample \<Rightarrow> bool" where
  "sample_ok cnt d s \<longleftrightarrow> length (sm_des s) \<le> cnt \<and> (\<forall>e \<in> set (sm_des s). e \<in># entries d)"

lemma collect_ok:
  assumes "collect cnt ch des = (des', ret)" and "length des < cnt"
  shows "length des' \<le> cnt" "set des' \<subseteq> set des \<union> set ch" "\<not> ret \<Longrightarrow> length des' < cnt"
  using assms by (induction ch arbitrary: des) (fastforce simp: Let_def split: if_splits)+

lemma sample_table_ok:
  assumes s: "sized d" and ok: "sample_ok cnt d s" and lt: "length (sm_des s) < cnt"
  shows "\<exists>ret s'. sample_table cnt tables m d j s = Inr (ret, s') \<and> sample_ok cnt d s' \<and>
    (\<not> ret \<longrightarrow> length (sm_des s') < cnt)"
proof -
  let ?s = "if tables = 2 \<and> j = 0 \<and> sm_i s < nat (rehashidx d) then s\<lparr>sm_i := nat (rehashidx d)\<rparr> else s"
  have des: "sm_des ?s = sm_des s" by simp
  show ?thesis
  proof (cases "(tables = 2 \<and> j = 0 \<and> sm_i s < nat (rehashidx d) \<and> \<not> sm_i s \<ge> ht_size (ht1 d)) \<or> sm_i ?s \<ge> ht_size (ht_of j d)")
    case True
    then have "\<exists>s'. sample_table cnt tables m d j s = Inr (False, s') \<and> sm_des s' = sm_des s"
      unfolding sample_table_def Let_def by (auto split: if_splits)
    then show ?thesis using ok lt by (auto simp: sample_ok_def)
  next
    case False
    define he where "he = table (ht_of j d) ! sm_i ?s"
    have i: "sm_i ?s < length (table (ht_of j d))" using False s by (auto simp: sized_def ht_of_def)
    have rd: "rd (table (ht_of j d)) (sm_i ?s) = Inr he" using i by (simp add: he_def)
    have in_d: "\<forall>e \<in> set he. e \<in># entries d"
      using i by (auto simp: he_def entries_def ht_entries_def ht_of_def split: if_splits)
    have start: "sample_table cnt tables m d j s =
        (if he = [] then
           let s = ?s\<lparr>sm_emptylen := sm_emptylen ?s + 1\<rparr> in
            if sm_emptylen s \<ge> 5 \<and> sm_emptylen s > cnt then
              (case random (sm_rnd s) of (x, r) \<Rightarrow> Inr (False, s\<lparr>sm_i := x AND m, sm_rnd := r, sm_emptylen := 0\<rparr>))
            else Inr (False, s)
         else (case collect cnt he (sm_des ?s) of (des, ret) \<Rightarrow> Inr (ret, ?s\<lparr>sm_emptylen := 0, sm_des := des\<rparr>)))"
      using False rd unfolding sample_table_def by (simp only: Let_def if_False cbind_Inr de_Morgan_disj simp_thms)
    show ?thesis
    proof (cases "he = []")
      case True
      then have "\<exists>s'. sample_table cnt tables m d j s = Inr (False, s') \<and> sm_des s' = sm_des s"
        unfolding start by (auto simp: Let_def random_def)
      then show ?thesis using ok lt by (auto simp: sample_ok_def)
    next
      case ne: False
      obtain des ret where c: "collect cnt he (sm_des s) = (des, ret)" by fastforce
      note cok = collect_ok [OF c lt]
      have "sample_table cnt tables m d j s = Inr (ret, ?s\<lparr>sm_emptylen := 0, sm_des := des\<rparr>)"
        unfolding start des c using ne by simp
      moreover have "\<forall>e \<in> set des. e \<in># entries d" using cok(2) in_d ok by (auto simp: sample_ok_def)
      ultimately show ?thesis using cok(1,3) by (simp add: sample_ok_def)
    qed
  qed
qed

lemma sample_loop_ok:
  assumes "sized d" and "sample_ok cnt d s"
  shows "\<exists>s'. sample_loop n cnt tables m d s = Inr s' \<and> sample_ok cnt d s'"
  using assms(2)
proof (induction n arbitrary: s)
  case (Suc n)
  show ?case
  proof (cases "length (sm_des s) < cnt")
    case True
    obtain ret s1 where 1: "sample_table cnt tables m d 0 s = Inr (ret, s1)" "sample_ok cnt d s1"
        "\<not> ret \<longrightarrow> length (sm_des s1) < cnt"
      using sample_table_ok [OF assms(1) Suc.prems True] by blast
    show ?thesis
    proof (cases ret)
      case r: True
      with 1 True show ?thesis by simp
    next
      case False
      obtain ret2 s2 where 2: "(if tables = 2 then sample_table cnt tables m d 1 s1 else Inr (False, s1)) = Inr (ret2, s2)"
          "sample_ok cnt d s2"
        using sample_table_ok [OF assms(1) 1(2), of tables m 1] 1 False by (cases "tables = 2") auto
      have "sample_ok cnt d (s2\<lparr>sm_i := (sm_i s2 + 1) AND m\<rparr>)" using 2(2) by (simp add: sample_ok_def)
      then obtain s3 where "sample_loop n cnt tables m d (s2\<lparr>sm_i := (sm_i s2 + 1) AND m\<rparr>) = Inr s3" "sample_ok cnt d s3"
        using Suc.IH by blast
      then show ?thesis using 1 2 True False by (cases ret2) simp_all
    qed
  qed (use Suc.prems in simp)
qed simp

lemma rehash_steps_ok:
  assumes "dict_wf dt norm d"
  shows "\<exists>d'. rehash_steps dt n d = Inr d' \<and> dict_wf dt norm d' \<and> entries d' = entries d"
  using assms
proof (induction n arbitrary: d)
  case (Suc n)
  show ?case
  proof (cases "dictIsRehashing d")
    case True
    obtain d1 where "dictRehashStep dt d = Inr d1" "dict_wf dt norm d1" "entries d1 = entries d"
      using step_if_rehashing_ok [OF Suc.prems] True by (auto simp: step_if_rehashing_def)
    with True Suc.IH [of d1] show ?thesis by simp
  qed (use Suc.prems in simp)
qed simp

text \<open>\<open>dictGetSomeKeys\<close> stays within its bounds: it reads only buckets of the tables, stores at most \<open>count\<close>
  entries in the array of the caller, and each of them is in the dictionary, which keeps its
  entries, whatever the random numbers are.\<close>

theorem dictGetSomeKeys_bounded:
  assumes "dict_wf dt norm d"
  shows "\<exists>des d' r'. dictGetSomeKeys dt d cnt r = Inr (des, d', r') \<and> length des \<le> cnt \<and>
    (\<forall>e \<in> set des. e \<in># entries d) \<and> dict_wf dt norm d' \<and> entries d' = entries d"
proof -
  let ?c = "if dictSize d < cnt then dictSize d else cnt"
  obtain d1 where d1: "rehash_steps dt ?c d = Inr d1" "dict_wf dt norm d1" "entries d1 = entries d"
    using rehash_steps_ok [OF assms] by blast
  let ?t = "if dictIsRehashing d1 then 2 else 1 :: nat"
  let ?m = "if ?t > 1 \<and> sizemask (ht0 d1) < sizemask (ht1 d1) then sizemask (ht1 d1) else sizemask (ht0 d1)"
  let ?s = "\<lparr> sm_i = r 0 AND ?m, sm_emptylen = 0, sm_des = [], sm_rnd = \<lambda>n. r (Suc n) \<rparr>"
  have "sample_ok ?c d1 ?s" by (simp add: sample_ok_def)
  then obtain s where s: "sample_loop ((?c * 10) mod 2 ^ 32) ?c ?t ?m d1 ?s = Inr s" "sample_ok ?c d1 s"
    using sample_loop_ok [OF wf_sized [OF d1(2)]] by blast
  have "dictGetSomeKeys dt d cnt r = Inr (sm_des s, d1, sm_rnd s)"
    using d1(1) s(1) unfolding dictGetSomeKeys_def Let_def random_def by simp
  moreover have "length (sm_des s) \<le> cnt" using s(2) by (auto simp: sample_ok_def split: if_splits)
  ultimately show ?thesis using s(2) d1 by (simp add: sample_ok_def)
qed

theorem dictGetSomeKeys_bounded_witness:
  "\<exists>des d' r'. dictGetSomeKeys ex_type ex_dict 2 (\<lambda>n. n) = Inr (des, d', r') \<and> length des \<le> 2"
  using dictGetSomeKeys_bounded [OF ex_dict_wf(1), of 2 "\<lambda>n. n"] by blast

section \<open>Clearing\<close>

text \<open>Emptying or releasing a dictionary hands every entry to the destructors exactly once, in the
  middle of a rehash too, and an emptied dictionary is again a well-formed empty one.\<close>

theorem dictEmpty_frees_all:
  assumes "dict_wf dt norm d" and "dictEmpty d = (freed, d')"
  shows "mset freed = entries d \<and> mset (dictRelease d) = entries d \<and> dict_wf dt norm d' \<and> entries d' = {#}"
proof -
  have t: "ht0 d = dictReset \<or> ht_live dt (ht0 d)" "ht1 d = dictReset \<or> ht_live dt (ht1 d)"
    using wf_tables [OF assms(1)] by simp_all
  note c = dictClear_live [OF t(1)] dictClear_live [OF t(2)]
  have f: "freed = fst (dictClear (ht0 d)) @ fst (dictClear (ht1 d))"
    and d': "d' = d\<lparr>ht0 := dictReset, ht1 := dictReset, rehashidx := -1, iterators := 0\<rparr>"
    using assms(2) c(2,4) by (auto simp: dictEmpty_def split: prod.splits)
  have "entries d' = {#}" by (simp add: d' entries_def)
  moreover from this have "dict_wf dt norm d'" by (simp add: d' dict_wf_def dictIsRehashing_def uniq_def)
  ultimately show ?thesis using f c(1,3) by (simp add: dictRelease_def entries_def)
qed

theorem dictEmpty_frees_all_witness:
  "dict_wf ex_type id ex_dict \<and> mset (fst (dictEmpty ex_dict)) = entries ex_dict \<and> entries (snd (dictEmpty ex_dict)) = {#}"
  using dictEmpty_frees_all [OF ex_dict_wf(1), of "fst (dictEmpty ex_dict)" "snd (dictEmpty ex_dict)"] ex_dict_wf(1) by simp

end
