(* ===== verification/Sds.thy ===== *)
theory Sds
  imports CString
begin

text \<open>
  \<open>sds.c\<close> and \<open>sds.h\<close>: the dynamic strings of Redis. A string is a record of its header (the type, and the
  length and capacity fields, which wrap at the width of the type) and the bytes of its buffer, the
  terminator included. Type 5 keeps its length in the flags and has no capacity field. Memory that
  \<open>malloc\<close> or \<open>realloc\<close> hands out is unspecified: the argument \<open>junk\<close> gives its bytes. The allocator of
  the server aborts instead of returning null, so it does not fail here. Every access to a buffer
  is checked.
\<close>

section \<open>Data\<close>

datatype sds_type = SDS_TYPE_5 | SDS_TYPE_8 | SDS_TYPE_16 | SDS_TYPE_32 | SDS_TYPE_64

record sds =
  sds_flags :: sds_type
  len_field :: nat
  alloc_field :: nat
  sds_buf :: "byte list"

definition SDS_MAX_PREALLOC :: nat where "SDS_MAX_PREALLOC = 1024 * 1024"

text \<open>The number of bits of the length field.\<close>

primrec type_bits :: "sds_type \<Rightarrow> nat" where
  "type_bits SDS_TYPE_5 = 5" | "type_bits SDS_TYPE_8 = 8" | "type_bits SDS_TYPE_16 = 16"
| "type_bits SDS_TYPE_32 = 32" | "type_bits SDS_TYPE_64 = 64"

primrec sdsHdrSize :: "sds_type \<Rightarrow> nat" where
  "sdsHdrSize SDS_TYPE_5 = 1" | "sdsHdrSize SDS_TYPE_8 = 3" | "sdsHdrSize SDS_TYPE_16 = 5"
| "sdsHdrSize SDS_TYPE_32 = 9" | "sdsHdrSize SDS_TYPE_64 = 17"

definition sdsReqType :: "nat \<Rightarrow> sds_type" where
  "sdsReqType string_size =
     (if string_size < 2 ^ 5 then SDS_TYPE_5
      else if string_size < 2 ^ 8 then SDS_TYPE_8
      else if string_size < 2 ^ 16 then SDS_TYPE_16
      else if string_size < 2 ^ 32 then SDS_TYPE_32
      else SDS_TYPE_64)"

section \<open>Header fields\<close>

definition sdslen :: "sds \<Rightarrow> nat" where
  "sdslen s = len_field s"

definition sdsavail :: "sds \<Rightarrow> nat" where
  "sdsavail s =
     (if sds_flags s = SDS_TYPE_5 then 0
      else nat ((int (alloc_field s) - int (len_field s)) mod (if sds_flags s = SDS_TYPE_32 then 2 ^ 32 else 2 ^ 64)))"

definition sdssetlen :: "sds \<Rightarrow> nat \<Rightarrow> sds" where
  "sdssetlen s newlen = s\<lparr>len_field := newlen mod 2 ^ type_bits (sds_flags s)\<rparr>"

definition sdsinclen :: "sds \<Rightarrow> nat \<Rightarrow> sds" where
  "sdsinclen s inc = s\<lparr>len_field := (len_field s + inc) mod 2 ^ type_bits (sds_flags s)\<rparr>"

definition sdsalloc :: "sds \<Rightarrow> nat" where
  "sdsalloc s = (if sds_flags s = SDS_TYPE_5 then len_field s else alloc_field s)"

definition sdssetalloc :: "sds \<Rightarrow> nat \<Rightarrow> sds" where
  "sdssetalloc s newlen =
     (if sds_flags s = SDS_TYPE_5 then s else s\<lparr>alloc_field := newlen mod 2 ^ type_bits (sds_flags s)\<rparr>)"

section \<open>Memory\<close>

definition blit :: "byte list \<Rightarrow> nat \<Rightarrow> byte list \<Rightarrow> byte list cres" where
  "blit buf i bs = (if i + length bs \<le> length buf then Inr (store_at buf i bs) else Inl OutOfBounds)"

definition poke :: "sds \<Rightarrow> nat \<Rightarrow> byte list \<Rightarrow> sds cres" where
  "poke s i bs = cbind (blit (sds_buf s) i bs) (\<lambda>b. Inr (s\<lparr>sds_buf := b\<rparr>))"

definition peek :: "sds \<Rightarrow> nat \<Rightarrow> nat \<Rightarrow> byte list cres" where
  "peek s i n = (if i + n \<le> length (sds_buf s) then Inr (take n (drop i (sds_buf s))) else Inl OutOfBounds)"

definition sds_realloc :: "(nat \<Rightarrow> byte) \<Rightarrow> byte list \<Rightarrow> nat \<Rightarrow> byte list" where
  "sds_realloc junk buf n = take n buf @ map junk [length buf..<n]"

section \<open>Creating\<close>

text \<open>\<open>init\<close> is \<open>None\<close> for a null pointer, which gives zero bytes.\<close>

definition sdsnewlen :: "(nat \<Rightarrow> byte) \<Rightarrow> byte list option \<Rightarrow> nat \<Rightarrow> sds cres" where
  "sdsnewlen junk init initlen =
     (let type = sdsReqType initlen;
          type = (if type = SDS_TYPE_5 \<and> initlen = 0 then SDS_TYPE_8 else type);
          mem = (if init = None then replicate (initlen + 1) 0 else map junk [0..<initlen + 1]);
          s = \<lparr> sds_flags = type, len_field = initlen mod 2 ^ type_bits type,
                alloc_field = initlen mod 2 ^ type_bits type, sds_buf = mem \<rparr>
      in cbind (case init of
                  Some t \<Rightarrow> if initlen \<noteq> 0 then
                       if initlen \<le> length t then poke s 0 (take initlen t) else Inl OutOfBounds
                     else Inr s
                | None \<Rightarrow> Inr s) (\<lambda>s.
         poke s initlen [0]))"

definition sdsempty :: "(nat \<Rightarrow> byte) \<Rightarrow> sds cres" where
  "sdsempty junk = sdsnewlen junk (Some []) 0"

definition sdsnew :: "(nat \<Rightarrow> byte) \<Rightarrow> byte list option \<Rightarrow> sds cres" where
  "sdsnew junk init =
     (case init of
        None \<Rightarrow> sdsnewlen junk None 0
      | Some t \<Rightarrow> cbind (strlen t 0) (\<lambda>initlen. sdsnewlen junk (Some t) initlen))"

definition sdsdup :: "(nat \<Rightarrow> byte) \<Rightarrow> sds \<Rightarrow> sds cres" where
  "sdsdup junk s = sdsnewlen junk (Some (sds_buf s)) (sdslen s)"

section \<open>Resizing\<close>

definition sdsupdatelen :: "sds \<Rightarrow> sds cres" where
  "sdsupdatelen s = cbind (strlen (sds_buf s) 0) (\<lambda>reallen. Inr (sdssetlen s reallen))"

definition sdsclear :: "sds \<Rightarrow> sds cres" where
  "sdsclear s = poke (sdssetlen s 0) 0 [0]"

definition sdsMakeRoomFor :: "(nat \<Rightarrow> byte) \<Rightarrow> sds \<Rightarrow> nat \<Rightarrow> sds cres" where
  "sdsMakeRoomFor junk s addlen =
     (if sdsavail s \<ge> addlen then Inr s
      else
        let oldtype = sds_flags s; len = sdslen s; newlen = (len + addlen) mod 2 ^ 64;
            newlen = (if newlen < SDS_MAX_PREALLOC then newlen * 2 else (newlen + SDS_MAX_PREALLOC) mod 2 ^ 64);
            type = sdsReqType newlen; type = (if type = SDS_TYPE_5 then SDS_TYPE_8 else type) in
        cbind (if oldtype = type then Inr (s\<lparr>sds_buf := sds_realloc junk (sds_buf s) (newlen + 1)\<rparr>)
               else cbind (peek s 0 (len + 1)) (\<lambda>bs.
                    cbind (blit (map junk [0..<newlen + 1]) 0 bs) (\<lambda>b.
                    Inr (sdssetlen (s\<lparr>sds_flags := type, sds_buf := b\<rparr>) len)))) (\<lambda>s.
        Inr (sdssetalloc s newlen)))"

primrec type_num :: "sds_type \<Rightarrow> nat" where
  "type_num SDS_TYPE_5 = 0" | "type_num SDS_TYPE_8 = 1" | "type_num SDS_TYPE_16 = 2"
| "type_num SDS_TYPE_32 = 3" | "type_num SDS_TYPE_64 = 4"

definition sdsRemoveFreeSpace :: "(nat \<Rightarrow> byte) \<Rightarrow> sds \<Rightarrow> sds cres" where
  "sdsRemoveFreeSpace junk s =
     (if sdsavail s = 0 then Inr s
      else
        let oldtype = sds_flags s; len = sdslen s; type = sdsReqType len in
        cbind (if oldtype = type \<or> type_num type > type_num SDS_TYPE_8
               then Inr (s\<lparr>sds_buf := sds_realloc junk (sds_buf s) (len + 1)\<rparr>)
               else cbind (peek s 0 (len + 1)) (\<lambda>bs.
                    cbind (blit (map junk [0..<len + 1]) 0 bs) (\<lambda>b.
                    Inr (sdssetlen (s\<lparr>sds_flags := type, sds_buf := b\<rparr>) len)))) (\<lambda>s.
        Inr (sdssetalloc s len)))"

definition sdsAllocSize :: "sds \<Rightarrow> nat" where
  "sdsAllocSize s = sdsHdrSize (sds_flags s) + sdsalloc s + 1"

text \<open>The assertions compare in the type of the fields; \<open>incr\<close> is not \<open>- 2\<^sup>6\<^sup>3\<close>, whose negation overflows.\<close>

definition sdsIncrLen :: "sds \<Rightarrow> int \<Rightarrow> sds cres" where
  "sdsIncrLen s incr =
     (let oldlen = int (len_field s);
          ok = (if sds_flags s = SDS_TYPE_5
                then (incr > 0 \<and> oldlen + incr < 32) \<or> (incr < 0 \<and> oldlen \<ge> (- incr) mod 2 ^ 32)
                else if sds_flags s = SDS_TYPE_64
                then (incr \<ge> 0 \<and> (int (alloc_field s) - oldlen) mod 2 ^ 64 \<ge> incr) \<or> (incr < 0 \<and> oldlen \<ge> - incr)
                else if sds_flags s = SDS_TYPE_32
                then (incr \<ge> 0 \<and> (int (alloc_field s) - oldlen) mod 2 ^ 32 \<ge> incr mod 2 ^ 32) \<or> (incr < 0 \<and> oldlen \<ge> (- incr) mod 2 ^ 32)
                else (incr \<ge> 0 \<and> int (alloc_field s) - oldlen \<ge> incr) \<or> (incr < 0 \<and> oldlen \<ge> (- incr) mod 2 ^ 32)) in
      if \<not> ok then Inl AssertFailed
      else let s = sdssetlen s (nat ((oldlen + incr) mod 2 ^ 64)) in poke s (len_field s) [0])"

text \<open>
  The use that the comment on \<open>sdsIncrLen\<close> describes: room for \<open>n\<close> bytes, of which a read fills some,
  and the new length.
\<close>

definition read_into :: "(nat \<Rightarrow> byte) \<Rightarrow> sds \<Rightarrow> nat \<Rightarrow> byte list \<Rightarrow> sds cres" where
  "read_into junk s n bs =
     (let oldlen = sdslen s in
      cbind (sdsMakeRoomFor junk s n) (\<lambda>s.
      cbind (poke s oldlen bs) (\<lambda>s.
      sdsIncrLen s (int (length bs)))))"

definition sdsgrowzero :: "(nat \<Rightarrow> byte) \<Rightarrow> sds \<Rightarrow> nat \<Rightarrow> sds cres" where
  "sdsgrowzero junk s len =
     (let curlen = sdslen s in
      if len \<le> curlen then Inr s
      else cbind (sdsMakeRoomFor junk s (len - curlen)) (\<lambda>s.
           cbind (poke s curlen (replicate (len - curlen + 1) 0)) (\<lambda>s.
           Inr (sdssetlen s len))))"

section \<open>Appending and copying\<close>

definition sdscatlen :: "(nat \<Rightarrow> byte) \<Rightarrow> sds \<Rightarrow> byte list \<Rightarrow> sds cres" where
  "sdscatlen junk s t =
     (let len = length t; curlen = sdslen s in
      cbind (sdsMakeRoomFor junk s len) (\<lambda>s.
      cbind (poke s curlen t) (\<lambda>s.
      poke (sdssetlen s (curlen + len)) (curlen + len) [0])))"

definition sdscat :: "(nat \<Rightarrow> byte) \<Rightarrow> sds \<Rightarrow> byte list \<Rightarrow> sds cres" where
  "sdscat junk s t = cbind (strlen t 0) (\<lambda>n. sdscatlen junk s (take n t))"

definition sdscatsds :: "(nat \<Rightarrow> byte) \<Rightarrow> sds \<Rightarrow> sds \<Rightarrow> sds cres" where
  "sdscatsds junk s t = cbind (peek t 0 (sdslen t)) (\<lambda>bs. sdscatlen junk s bs)"

definition sdscpylen :: "(nat \<Rightarrow> byte) \<Rightarrow> sds \<Rightarrow> byte list \<Rightarrow> sds cres" where
  "sdscpylen junk s t =
     (let len = length t in
      cbind (if sdsalloc s < len then sdsMakeRoomFor junk s (len - sdslen s) else Inr s) (\<lambda>s.
      cbind (poke s 0 t) (\<lambda>s.
      cbind (poke s len [0]) (\<lambda>s.
      Inr (sdssetlen s len)))))"

definition sdscpy :: "(nat \<Rightarrow> byte) \<Rightarrow> sds \<Rightarrow> byte list \<Rightarrow> sds cres" where
  "sdscpy junk s t = cbind (strlen t 0) (\<lambda>n. sdscpylen junk s (take n t))"

section \<open>Editing in place\<close>

text \<open>\<open>strchr\<close> finds the terminator of the set too, so a zero byte of the string counts as a member.\<close>

definition in_cset :: "byte list \<Rightarrow> byte \<Rightarrow> bool" where
  "in_cset cset c \<longleftrightarrow> c = 0 \<or> c \<in> set cset"

function trim_left :: "byte list \<Rightarrow> byte list \<Rightarrow> int \<Rightarrow> int \<Rightarrow> int cres" where
  "trim_left buf cset sp e =
     (if sp \<le> e then cbind (rd buf (nat sp)) (\<lambda>c. if in_cset cset c then trim_left buf cset (sp + 1) e else Inr sp) else Inr sp)"
  by pat_completeness auto
termination by (relation "measure (\<lambda>(buf, cset, sp, e). nat (e + 1 - sp))") auto

function trim_right :: "byte list \<Rightarrow> byte list \<Rightarrow> int \<Rightarrow> int \<Rightarrow> int cres" where
  "trim_right buf cset sp ep =
     (if ep > sp then cbind (rd buf (nat ep)) (\<lambda>c. if in_cset cset c then trim_right buf cset sp (ep - 1) else Inr ep) else Inr ep)"
  by pat_completeness auto
termination by (relation "measure (\<lambda>(buf, cset, sp, ep). nat (ep - sp))") auto

declare trim_left.simps [simp del] trim_right.simps [simp del]

definition sdstrim :: "sds \<Rightarrow> byte list \<Rightarrow> sds cres" where
  "sdstrim s cset =
     (let e = int (sdslen s) - 1 in
      cbind (trim_left (sds_buf s) cset 0 e) (\<lambda>sp.
      cbind (trim_right (sds_buf s) cset sp e) (\<lambda>ep.
      let len = (if sp > ep then 0 else nat (ep - sp + 1)) in
      cbind (if sp \<noteq> 0 then cbind (peek s (nat sp) len) (\<lambda>bs. poke s 0 bs) else Inr s) (\<lambda>s.
      cbind (poke s len [0]) (\<lambda>s.
      Inr (sdssetlen s len))))))"

text \<open>The interval arithmetic on \<open>ssize_t\<close>; the length of the interval may leave its range.\<close>

definition span_len :: "int \<Rightarrow> int \<Rightarrow> nat cres" where
  "span_len start e =
     (if start > e then Inr 0 else if e - start + 1 > 2 ^ 63 - 1 then Inl SignedOverflow else Inr (nat (e - start + 1)))"

definition sdsrange :: "sds \<Rightarrow> int \<Rightarrow> int \<Rightarrow> sds cres" where
  "sdsrange s start e =
     (let len = int (sdslen s) in
      if len = 0 then Inr s
      else
        let start = (if start < 0 then (if len + start < 0 then 0 else len + start) else start);
            e = (if e < 0 then (if len + e < 0 then 0 else len + e) else e) in
        cbind (span_len start e) (\<lambda>newlen.
        cbind (if newlen \<noteq> 0 then
                 if start \<ge> len then Inr (start, 0)
                 else if e \<ge> len then cbind (span_len start (len - 1)) (\<lambda>newlen. Inr (start, newlen))
                 else Inr (start, newlen)
               else Inr (0, newlen)) (\<lambda>(start, newlen).
        cbind (if start \<noteq> 0 \<and> newlen \<noteq> 0 then cbind (peek s (nat start) newlen) (\<lambda>bs. poke s 0 bs) else Inr s) (\<lambda>s.
        cbind (poke s newlen [0]) (\<lambda>s.
        Inr (sdssetlen s newlen))))))"

definition toupper :: "byte \<Rightarrow> byte" where
  "toupper c = (if 97 \<le> c \<and> c \<le> 122 then c - 32 else c)"

text \<open>A loop that replaces each of the bytes below the length.\<close>

fun map_bytes :: "(byte \<Rightarrow> byte) \<Rightarrow> nat \<Rightarrow> nat \<Rightarrow> sds \<Rightarrow> sds cres" where
  "map_bytes f 0 j s = Inr s"
| "map_bytes f (Suc n) j s = cbind (rd (sds_buf s) j) (\<lambda>c. cbind (poke s j [f c]) (\<lambda>s. map_bytes f n (j + 1) s))"

definition sdstolower :: "sds \<Rightarrow> sds cres" where
  "sdstolower s = map_bytes tolower (sdslen s) 0 s"

definition sdstoupper :: "sds \<Rightarrow> sds cres" where
  "sdstoupper s = map_bytes toupper (sdslen s) 0 s"

fun map_char :: "byte list \<Rightarrow> byte list \<Rightarrow> byte \<Rightarrow> byte" where
  "map_char (f # from) (t # to) c = (if c = f then t else map_char from to c)"
| "map_char from to c = c"

definition sdsmapchars :: "sds \<Rightarrow> byte list \<Rightarrow> byte list \<Rightarrow> nat \<Rightarrow> sds cres" where
  "sdsmapchars s from to setlen =
     (if sdslen s = 0 \<or> (setlen \<le> length from \<and> setlen \<le> length to)
      then map_bytes (map_char (take setlen from) (take setlen to)) (sdslen s) 0 s else Inl OutOfBounds)"

section \<open>Comparing\<close>

fun memcmp_sgn :: "byte list \<Rightarrow> byte list \<Rightarrow> int" where
  "memcmp_sgn (a # s) (b # t) = (if a < b then -1 else if b < a then 1 else memcmp_sgn s t)"
| "memcmp_sgn s t = 0"

text \<open>Of \<open>memcmp\<close> only the sign is specified.\<close>

definition sdscmp :: "sds \<Rightarrow> sds \<Rightarrow> int cres" where
  "sdscmp s1 s2 =
     (let l1 = sdslen s1; l2 = sdslen s2; minlen = (if l1 < l2 then l1 else l2) in
      cbind (peek s1 0 minlen) (\<lambda>a. cbind (peek s2 0 minlen) (\<lambda>b.
      let c = memcmp_sgn a b in
      if c = 0 then Inr (if l1 > l2 then 1 else if l1 < l2 then -1 else 0) else Inr c)))"

section \<open>Well-formed strings\<close>

definition sds_ok :: "sds \<Rightarrow> bool" where
  "sds_ok s \<longleftrightarrow> len_field s < 2 ^ type_bits (sds_flags s) \<and> len_field s < length (sds_buf s) \<and>
     sds_buf s ! len_field s = 0 \<and>
     (sds_flags s \<noteq> SDS_TYPE_5 \<longrightarrow> len_field s \<le> alloc_field s \<and> alloc_field s < 2 ^ type_bits (sds_flags s) \<and>
        length (sds_buf s) = alloc_field s + 1)"

text \<open>The same without the terminator, as strings are while a format is being written.\<close>

definition sds_hdr :: "sds \<Rightarrow> bool" where
  "sds_hdr s \<longleftrightarrow> len_field s < 2 ^ type_bits (sds_flags s) \<and> len_field s < length (sds_buf s) \<and>
     (sds_flags s \<noteq> SDS_TYPE_5 \<longrightarrow> len_field s \<le> alloc_field s \<and> alloc_field s < 2 ^ type_bits (sds_flags s) \<and>
        length (sds_buf s) = alloc_field s + 1)"

lemma sds_ok_iff: "sds_ok s \<longleftrightarrow> sds_hdr s \<and> sds_buf s ! len_field s = 0"
  by (auto simp: sds_ok_def sds_hdr_def)

definition sds_str :: "sds \<Rightarrow> byte list" where
  "sds_str s = take (len_field s) (sds_buf s)"

definition fits :: "sds \<Rightarrow> nat \<Rightarrow> bool" where
  "fits s n \<longleftrightarrow> n < length (sds_buf s) \<and> n < 2 ^ type_bits (sds_flags s) \<and> (sds_flags s \<noteq> SDS_TYPE_5 \<longrightarrow> n \<le> alloc_field s)"

lemma length_hdr_str: "sds_hdr s \<Longrightarrow> length (sds_str s) = sdslen s"
  by (simp add: sds_hdr_def sds_str_def sdslen_def)

lemma length_sds_str: "sds_ok s \<Longrightarrow> length (sds_str s) = sdslen s"
  by (simp add: sds_ok_iff length_hdr_str)

lemma poke_ok: "i + length bs \<le> length (sds_buf s) \<Longrightarrow> poke s i bs = Inr (s\<lparr>sds_buf := store_at (sds_buf s) i bs\<rparr>)"
  by (simp add: poke_def blit_def)

lemma peek_ok: "i + n \<le> length (sds_buf s) \<Longrightarrow> peek s i n = Inr (take n (drop i (sds_buf s)))"
  by (simp add: peek_def)

lemma sdsavail_hdr:
  assumes "sds_hdr s"
  shows "sdsavail s = (if sds_flags s = SDS_TYPE_5 then 0 else alloc_field s - len_field s)"
proof (cases "sds_flags s = SDS_TYPE_5")
  case True
  then show ?thesis by (simp add: sdsavail_def)
next
  case False
  let ?m = "if sds_flags s = SDS_TYPE_32 then 2 ^ 32 else 2 ^ 64 :: int"
  have "len_field s \<le> alloc_field s" "alloc_field s < 2 ^ type_bits (sds_flags s)"
    using assms False by (simp_all add: sds_hdr_def)
  then have "0 \<le> int (alloc_field s) - int (len_field s)" "int (alloc_field s) - int (len_field s) < ?m"
    by (cases "sds_flags s"; simp)+
  then have "(int (alloc_field s) - int (len_field s)) mod ?m = int (alloc_field s) - int (len_field s)"
    by (rule mod_pos_pos_trivial)
  then show ?thesis using False \<open>len_field s \<le> alloc_field s\<close> by (simp add: sdsavail_def)
qed

lemma sdsavail_ok: "sds_ok s \<Longrightarrow> sdsavail s = (if sds_flags s = SDS_TYPE_5 then 0 else alloc_field s - len_field s)"
  by (simp add: sds_ok_iff sdsavail_hdr)

text \<open>Writing a new content and its terminator, and setting the length, in either order.\<close>

lemma finish_ok:
  assumes "fits s n" and "length (sds_buf s) = length b" and "b ! n = 0" and "sds_flags s \<noteq> SDS_TYPE_5 \<Longrightarrow> sds_ok s"
  shows "sds_ok (sdssetlen (s\<lparr>sds_buf := b\<rparr>) n)" "sds_str (sdssetlen (s\<lparr>sds_buf := b\<rparr>) n) = take n b"
    "sdslen (sdssetlen (s\<lparr>sds_buf := b\<rparr>) n) = n"
  using assms by (auto simp: fits_def sds_ok_def sds_str_def sdssetlen_def sdslen_def)

section \<open>Room\<close>

lemma sdsReqType_bits: "n < 2 ^ 64 \<Longrightarrow> n < 2 ^ type_bits (sdsReqType n)"
  by (simp add: sdsReqType_def)

lemma length_realloc: "length (sds_realloc junk buf n) = n"
  by (simp add: sds_realloc_def min_def)

lemma take_realloc: "k \<le> length buf \<Longrightarrow> k \<le> n \<Longrightarrow> take k (sds_realloc junk buf n) = take k buf"
  by (simp add: sds_realloc_def min_def)

lemma nth_realloc: "k < length buf \<Longrightarrow> k < n \<Longrightarrow> sds_realloc junk buf n ! k = buf ! k"
  by (simp add: sds_realloc_def nth_append)

lemma take_store_whole: "length bs \<le> length buf \<Longrightarrow> k \<le> length bs \<Longrightarrow> take k (store_at buf 0 bs) = take k bs"
  by (simp add: store_at_def)

lemma nth_store_whole: "k < length bs \<Longrightarrow> store_at buf 0 bs ! k = bs ! k"
  by (simp add: store_at_def nth_append)

text \<open>
  Moving a string into a block of \<open>n + 1\<close> bytes with a header of a type that can count to \<open>n\<close>: the
  common part of making room and of giving it back.
\<close>

lemma move_ok:
  assumes ok: "sds_hdr s" and n: "len_field s \<le> n" and bits: "n < 2 ^ type_bits t"
    and b: "length b = n + 1" "take (len_field s + 1) b = take (len_field s + 1) (sds_buf s)"
    and s': "s' = sdssetalloc (sdssetlen (s\<lparr>sds_flags := t, sds_buf := b\<rparr>) (len_field s)) n"
  shows "sds_hdr s' \<and> sds_str s' = sds_str s \<and> sds_buf s' ! len_field s' = sds_buf s ! len_field s \<and> sds_flags s' = t \<and> (t \<noteq> SDS_TYPE_5 \<longrightarrow> alloc_field s' = n)"
proof -
  have len: "len_field s < 2 ^ type_bits t" using n bits by simp
  have "b ! len_field s = take (len_field s + 1) b ! len_field s" by simp
  also have "\<dots> = sds_buf s ! len_field s" using ok unfolding b(2) by (simp add: sds_hdr_def)
  finally have z: "b ! len_field s = sds_buf s ! len_field s" .
  have "take (len_field s) (take (len_field s + 1) b) = take (len_field s) (take (len_field s + 1) (sds_buf s))"
    unfolding b(2) ..
  then have "take (len_field s) b = take (len_field s) (sds_buf s)" by (simp add: min_def)
  then show ?thesis
    using len z n bits b(1) unfolding s'
    by (cases t) (simp_all add: sds_hdr_def sds_str_def sdssetlen_def sdssetalloc_def)
qed

lemma sdsMakeRoomFor_hdr:
  assumes ok: "sds_hdr s" and small: "sdslen s + addlen < 2 ^ 62"
  shows "\<exists>s'. sdsMakeRoomFor junk s addlen = Inr s' \<and> sds_hdr s' \<and> sds_str s' = sds_str s \<and> sdslen s' = sdslen s \<and>
    sds_buf s' ! sdslen s' = sds_buf s ! sdslen s \<and>
    fits s' (sdslen s + addlen)"
proof (cases "sdsavail s \<ge> addlen")
  case True
  then have "fits s (sdslen s + addlen)"
    using ok sdsavail_hdr [OF ok] by (auto simp: fits_def sds_hdr_def sdslen_def split: if_splits)
  with True ok show ?thesis by (simp add: sdsMakeRoomFor_def)
next
  case False
  let ?l = "len_field s" and ?n = "sdslen s + addlen"
  define new where "new = (if ?n < SDS_MAX_PREALLOC then ?n * 2 else ?n + SDS_MAX_PREALLOC)"
  define t where "t = (if sdsReqType new = SDS_TYPE_5 then SDS_TYPE_8 else sdsReqType new)"
  have new: "?n \<le> new" "new < 2 ^ 64" using small by (simp_all add: new_def SDS_MAX_PREALLOC_def)
  have wrap: "?n mod 2 ^ 64 = ?n" "(?n + SDS_MAX_PREALLOC) mod 2 ^ 64 = ?n + SDS_MAX_PREALLOC"
    using small by (simp_all add: SDS_MAX_PREALLOC_def)
  have t5: "t \<noteq> SDS_TYPE_5" by (simp add: t_def)
  have bits: "new < 2 ^ type_bits t" using sdsReqType_bits [OF new(2)] by (auto simp: t_def)
  have l: "?l \<le> new" "?l + 1 \<le> length (sds_buf s)" using new(1) ok by (simp_all add: sdslen_def sds_hdr_def)
  define b where "b = (if sds_flags s = t then sds_realloc junk (sds_buf s) (new + 1)
    else store_at (map junk [0..<new + 1]) 0 (take (?l + 1) (sds_buf s)))"
  define s' where "s' = sdssetalloc (sdssetlen (s\<lparr>sds_flags := t, sds_buf := b\<rparr>) ?l) new"
  have part: "length (take (?l + 1) (sds_buf s)) = ?l + 1" using l by simp
  have lb: "length b = new + 1" using l part by (simp add: b_def length_realloc del: length_take)
  have tb: "take (?l + 1) b = take (?l + 1) (sds_buf s)"
    using l take_store_whole [of "take (?l + 1) (sds_buf s)" "map junk [0..<new + 1]" "?l + 1"] part
    by (simp add: b_def take_realloc del: length_take)
  have "sdsMakeRoomFor junk s addlen =
      cbind (if sds_flags s = t then Inr (s\<lparr>sds_buf := sds_realloc junk (sds_buf s) (new + 1)\<rparr>)
               else cbind (peek s 0 (?l + 1)) (\<lambda>bs.
                    cbind (blit (map junk [0..<new + 1]) 0 bs) (\<lambda>b.
                    Inr (sdssetlen (s\<lparr>sds_flags := t, sds_buf := b\<rparr>) ?l)))) (\<lambda>s.
        Inr (sdssetalloc s new))"
    unfolding sdsMakeRoomFor_def if_not_P [OF False] Let_def wrap new_def [symmetric] t_def [symmetric]
    unfolding sdslen_def ..
  moreover have "\<dots> = Inr s'"
  proof (cases "sds_flags s = t")
    case True
    have "?l mod 2 ^ type_bits (sds_flags s) = ?l" using ok by (simp add: sds_hdr_def)
    then have "sdssetlen (s\<lparr>sds_flags := t, sds_buf := b\<rparr>) ?l = s\<lparr>sds_buf := b\<rparr>"
      using True by (simp add: sdssetlen_def)
    then show ?thesis using True by (simp add: s'_def b_def)
  next
    case f: False
    have "peek s 0 (?l + 1) = Inr (take (?l + 1) (sds_buf s))" using l by (simp add: peek_ok)
    moreover have "blit (map junk [0..<new + 1]) 0 (take (?l + 1) (sds_buf s)) = Inr b"
      using l f part by (simp add: blit_def b_def del: length_take)
    ultimately show ?thesis using f by (simp add: s'_def)
  qed
  ultimately have "sdsMakeRoomFor junk s addlen = Inr s'" by simp
  moreover have "sds_hdr s' \<and> sds_str s' = sds_str s \<and> sds_buf s' ! len_field s' = sds_buf s ! ?l \<and> sds_flags s' = t \<and> (t \<noteq> SDS_TYPE_5 \<longrightarrow> alloc_field s' = new)"
    by (rule move_ok [OF ok l(1) bits lb tb s'_def])
  ultimately show ?thesis
    using new(1) bits t5 length_hdr_str [of s'] length_hdr_str [OF ok]
    by (intro exI [of _ s']) (auto simp: fits_def sds_hdr_def sdslen_def)
qed

lemma sdsMakeRoomFor_ok:
  assumes "sds_ok s" and "sdslen s + addlen < 2 ^ 62"
  shows "\<exists>s'. sdsMakeRoomFor junk s addlen = Inr s' \<and> sds_ok s' \<and> sds_str s' = sds_str s \<and> sdslen s' = sdslen s \<and>
    fits s' (sdslen s + addlen)"
  using sdsMakeRoomFor_hdr [of s addlen junk] assms by (auto simp: sds_ok_iff sdslen_def)

section \<open>What the operations do\<close>

lemma take_store_end: "i + length bs \<le> length buf \<Longrightarrow> take (i + length bs) (store_at buf i bs) = take i buf @ bs"
  by (rule take_store_at)

lemma store_0_end:
  assumes "n < length b"
  shows "take n (store_at b n [0]) = take n b" "store_at b n [0] ! n = 0" "length (store_at b n [0]) = length b"
  using assms by (simp_all add: store_at_def nth_append)

lemma sdssetlen_buf: "sdssetlen (s\<lparr>sds_buf := b\<rparr>) n = (sdssetlen s n)\<lparr>sds_buf := b\<rparr>" "sds_buf (sdssetlen s n) = sds_buf s"
  by (simp_all add: sdssetlen_def)

lemma sdscatlen_ok:
  assumes ok: "sds_ok s" and small: "sdslen s + length t < 2 ^ 62"
  shows "\<exists>s'. sdscatlen junk s t = Inr s' \<and> sds_ok s' \<and> sds_str s' = sds_str s @ t"
proof -
  let ?n = "sdslen s + length t"
  obtain s1 where s1: "sdsMakeRoomFor junk s (length t) = Inr s1" "sds_ok s1" "sds_str s1 = sds_str s" "sdslen s1 = sdslen s" "fits s1 ?n"
    using sdsMakeRoomFor_ok [OF assms] by blast
  have n: "?n < length (sds_buf s1)" using s1(5) by (simp add: fits_def)
  let ?b1 = "store_at (sds_buf s1) (sdslen s) t"
  let ?b = "store_at ?b1 ?n [0]"
  have l1: "length ?b1 = length (sds_buf s1)" using n by simp
  have "sdscatlen junk s t = Inr (sdssetlen (s1\<lparr>sds_buf := ?b\<rparr>) ?n)"
    using s1(1) n l1 by (simp add: sdscatlen_def Let_def poke_ok sdssetlen_buf)
  moreover have z: "take ?n ?b = take ?n ?b1" "?b ! ?n = 0" "length ?b = length ?b1"
    using store_0_end [of ?n ?b1] n l1 by simp_all
  have "take ?n ?b1 = sds_str s @ t"
    using take_store_at [of "sdslen s" t "sds_buf s1"] n s1(3,4) by (simp add: sds_str_def sdslen_def)
  ultimately show ?thesis
    using finish_ok [OF s1(5), of ?b] s1(2) z l1 by simp
qed

lemma sdsIncrLen_ok:
  assumes ok: "sds_ok s" and f: "fits s (sdslen s + k)" and k: "0 < k" and b: "length b = length (sds_buf s)"
  shows "\<exists>s'. sdsIncrLen (s\<lparr>sds_buf := b\<rparr>) (int k) = Inr s' \<and> sds_ok s' \<and> sds_str s' = take (sdslen s + k) b"
proof -
  let ?l = "len_field s" and ?a = "alloc_field s" and ?n = "sdslen s + k"
  have n: "?n < length b" "?n < 2 ^ type_bits (sds_flags s)" "sds_flags s \<noteq> SDS_TYPE_5 \<Longrightarrow> ?l + k \<le> ?a"
      "sds_flags s \<noteq> SDS_TYPE_5 \<Longrightarrow> ?a < 2 ^ type_bits (sds_flags s)"
    using f b ok by (simp_all add: fits_def sdslen_def sds_ok_def)
  have m: "(int ?a - int ?l) mod M = int ?a - int ?l" "int k mod M = int k"
    if "sds_flags s \<noteq> SDS_TYPE_5" "2 ^ type_bits (sds_flags s) \<le> M" for M :: int
  proof -
    have "int ?a < int (2 ^ type_bits (sds_flags s))" using n(4) that(1) unfolding of_nat_less_iff by simp
    also have "\<dots> \<le> M" using that(2) by simp
    finally have "int ?a < M" .
    then show "(int ?a - int ?l) mod M = int ?a - int ?l" "int k mod M = int k"
      using n(3) that(1) by (simp_all add: mod_pos_pos_trivial)
  qed
  have big: "type_bits (sds_flags s) \<le> 64" by (cases "sds_flags s") simp_all
  have m64: "(int ?l + int k) mod 2 ^ 64 = int ?n"
  proof -
    have "(2 :: nat) ^ type_bits (sds_flags s) \<le> 2 ^ 64" using big by (intro power_increasing) simp_all
    then have "?n < 2 ^ 64" using n(2) by linarith
    then show ?thesis by (simp add: sdslen_def flip: of_nat_add)
  qed
  have "sdsIncrLen (s\<lparr>sds_buf := b\<rparr>) (int k) =
      (let s1 = sdssetlen (s\<lparr>sds_buf := b\<rparr>) ?n in poke s1 (len_field s1) [0])"
    using n(2,3) k m [of "2 ^ 64"] m [of "2 ^ 32"] unfolding sdsIncrLen_def Let_def
    by (cases "sds_flags s") (simp_all add: m64 [simplified] sdslen_def nat_int_add)
  moreover have "len_field (sdssetlen (s\<lparr>sds_buf := b\<rparr>) ?n) = ?n" using n(2) by (simp add: sdssetlen_def)
  ultimately have "sdsIncrLen (s\<lparr>sds_buf := b\<rparr>) (int k) = Inr (sdssetlen (s\<lparr>sds_buf := store_at b ?n [0]\<rparr>) ?n)"
    using n(1) by (simp add: poke_ok sdssetlen_buf)
  then show ?thesis using finish_ok [OF f, of "store_at b ?n [0]"] store_0_end [OF n(1)] b ok by simp
qed

lemma fits_mono: "fits s n \<Longrightarrow> m \<le> n \<Longrightarrow> fits s m"
  by (auto simp: fits_def)

lemma read_into_ok:
  assumes ok: "sds_ok s" and small: "sdslen s + n < 2 ^ 62" and bs: "bs \<noteq> []" "length bs \<le> n"
  shows "\<exists>s'. read_into junk s n bs = Inr s' \<and> sds_ok s' \<and> sds_str s' = sds_str s @ bs"
proof -
  let ?k = "length bs"
  obtain s1 where s1: "sdsMakeRoomFor junk s n = Inr s1" "sds_ok s1" "sds_str s1 = sds_str s" "sdslen s1 = sdslen s" "fits s1 (sdslen s + n)"
    using sdsMakeRoomFor_ok [OF ok small] by blast
  have f: "fits s1 (sdslen s1 + ?k)" by (rule fits_mono [OF s1(5)]) (use bs s1(4) in simp)
  then have fit: "sdslen s + ?k \<le> length (sds_buf s1)" using s1(4) by (simp add: fits_def)
  let ?b = "store_at (sds_buf s1) (sdslen s) bs"
  have t: "take (sdslen s1 + ?k) ?b = sds_str s @ bs"
    using take_store_at [OF fit] s1(3,4) by (simp add: sds_str_def sdslen_def)
  have "read_into junk s n bs = sdsIncrLen (s1\<lparr>sds_buf := ?b\<rparr>) (int ?k)"
    using s1(1) fit by (simp add: read_into_def Let_def poke_ok)
  then show ?thesis using sdsIncrLen_ok [OF s1(2) f, of ?b] bs fit t by simp
qed

lemma shrink_fits: "sds_ok s \<Longrightarrow> n \<le> sdslen s \<Longrightarrow> fits s n"
  by (auto simp: sds_ok_def fits_def sdslen_def)

text \<open>Writing a shorter content in place.\<close>

lemma overwrite_ok:
  assumes ok: "sds_ok s" and n: "n \<le> sdslen s" and b: "length b = length (sds_buf s)"
  shows "\<exists>s'. cbind (poke (s\<lparr>sds_buf := b\<rparr>) n [0]) (\<lambda>s. Inr (sdssetlen s n)) = Inr s' \<and> sds_ok s' \<and> sds_str s' = take n b"
proof -
  have f: "fits s n" by (rule shrink_fits [OF ok n])
  then have nb: "n < length b" using b by (simp add: fits_def)
  let ?b = "store_at b n [0]"
  have "cbind (poke (s\<lparr>sds_buf := b\<rparr>) n [0]) (\<lambda>s. Inr (sdssetlen s n)) = Inr (sdssetlen (s\<lparr>sds_buf := ?b\<rparr>) n)"
    using nb by (simp add: poke_ok)
  then show ?thesis using finish_ok [OF f, of ?b] store_0_end [OF nb] b ok by simp
qed

lemma move_down_ok:
  assumes ok: "sds_ok s" and n: "i + n \<le> sdslen s"
  shows "\<exists>s'. cbind (if c then cbind (peek s i n) (\<lambda>bs. poke s 0 bs) else Inr s) (\<lambda>s. cbind (poke s n [0]) (\<lambda>s. Inr (sdssetlen s n))) = Inr s' \<and>
    sds_ok s' \<and> sds_str s' = (if c then take n (drop i (sds_str s)) else take n (sds_str s))"
proof -
  have len: "i + n \<le> length (sds_buf s)" using ok n by (simp add: sds_ok_def sdslen_def)
  let ?bs = "take n (drop i (sds_buf s))"
  have lbs: "length ?bs = n" using len by simp
  let ?b = "if c then store_at (sds_buf s) 0 ?bs else sds_buf s"
  have lb: "length ?b = length (sds_buf s)" using len lbs by simp
  have "cbind (if c then cbind (peek s i n) (\<lambda>bs. poke s 0 bs) else Inr s) (\<lambda>s. cbind (poke s n [0]) (\<lambda>s. Inr (sdssetlen s n))) =
      cbind (poke (s\<lparr>sds_buf := ?b\<rparr>) n [0]) (\<lambda>s. Inr (sdssetlen s n))"
    using len lbs by (simp add: peek_ok poke_ok)
  moreover obtain s' where s': "cbind (poke (s\<lparr>sds_buf := ?b\<rparr>) n [0]) (\<lambda>s. Inr (sdssetlen s n)) = Inr s'" "sds_ok s'" "sds_str s' = take n ?b"
    using overwrite_ok [OF ok _ lb, of n] n by auto
  moreover have "take n ?b = (if c then take n (drop i (sds_str s)) else take n (sds_str s))"
    using len lbs n by (simp add: store_at_def sds_str_def sdslen_def drop_take min_def)
  ultimately show ?thesis by simp
qed

lemma sdsclear_ok:
  assumes "sds_ok s"
  shows "\<exists>s'. sdsclear s = Inr s' \<and> sds_ok s' \<and> sds_str s' = []"
proof -
  have pos: "0 < length (sds_buf s)" using assms by (auto simp: sds_ok_def)
  then have "sdsclear s = Inr (sdssetlen (s\<lparr>sds_buf := store_at (sds_buf s) 0 [0]\<rparr>) 0)"
    by (simp add: sdsclear_def poke_ok sdssetlen_buf Suc_le_eq)
  then show ?thesis
    using finish_ok [OF shrink_fits [OF assms, of 0], of "store_at (sds_buf s) 0 [0]"] store_0_end [OF pos] assms by simp
qed

lemma sdsgrowzero_ok:
  assumes ok: "sds_ok s" and small: "n < 2 ^ 62"
  shows "\<exists>s'. sdsgrowzero junk s n = Inr s' \<and> sds_ok s' \<and> sds_str s' = sds_str s @ replicate (n - sdslen s) 0"
proof (cases "n \<le> sdslen s")
  case True
  with ok show ?thesis by (simp add: sdsgrowzero_def Let_def)
next
  case False
  then have e: "sdslen s + (n - sdslen s) = n" by simp
  obtain s1 where s1: "sdsMakeRoomFor junk s (n - sdslen s) = Inr s1" "sds_ok s1" "sds_str s1 = sds_str s" "sdslen s1 = sdslen s" "fits s1 n"
    using sdsMakeRoomFor_ok [OF ok, of "n - sdslen s" junk] small e by auto
  have n: "n < length (sds_buf s1)" using s1(5) by (simp add: fits_def)
  let ?z = "replicate (n - sdslen s + 1) (0 :: byte)"
  let ?b = "store_at (sds_buf s1) (sdslen s) ?z"
  have fit: "sdslen s + length ?z \<le> length (sds_buf s1)" using n False by simp
  have "sdsgrowzero junk s n = Inr (sdssetlen (s1\<lparr>sds_buf := ?b\<rparr>) n)"
    using s1(1) False fit by (simp add: sdsgrowzero_def Let_def poke_ok)
  moreover have t: "take (sdslen s + length ?z) ?b = sds_str s @ ?z"
    using take_store_at [OF fit] s1(3,4) by (simp add: sds_str_def sdslen_def)
  then have "take n (take (sdslen s + length ?z) ?b) = take n (sds_str s @ ?z)" "take (sdslen s + length ?z) ?b ! n = (sds_str s @ ?z) ! n"
    by simp_all
  then have "take n ?b = sds_str s @ replicate (n - sdslen s) 0" "?b ! n = 0"
    using False length_sds_str [OF ok] by (simp_all add: min_def nth_append flip: replicate_append_same)
  ultimately show ?thesis using finish_ok [OF s1(5), of ?b] s1(2) fit by simp
qed

lemma sdscpylen_ok:
  assumes ok: "sds_ok s" and small: "length t < 2 ^ 62"
  shows "\<exists>s'. sdscpylen junk s t = Inr s' \<and> sds_ok s' \<and> sds_str s' = t"
proof -
  obtain s1 where s1: "(if sdsalloc s < length t then sdsMakeRoomFor junk s (length t - sdslen s) else Inr s) = Inr s1" "sds_ok s1"
      "fits s1 (length t)"
  proof (cases "sdsalloc s < length t")
    case True
    have "sdslen s \<le> sdsalloc s" using ok by (simp add: sdslen_def sdsalloc_def sds_ok_def)
    then have e: "sdslen s + (length t - sdslen s) = length t" using True by simp
    then show thesis using sdsMakeRoomFor_ok [OF ok, of "length t - sdslen s" junk] small True that by auto
  next
    case False
    then have "fits s (length t)" using ok by (auto simp: fits_def sds_ok_def sdsalloc_def split: if_splits)
    with False ok that show thesis by simp
  qed
  let ?n = "length t"
  have n: "?n < length (sds_buf s1)" using s1(3) by (simp add: fits_def)
  let ?b1 = "store_at (sds_buf s1) 0 t"
  let ?b = "store_at ?b1 ?n [0]"
  have l1: "length ?b1 = length (sds_buf s1)" using n by simp
  have "sdscpylen junk s t = Inr (sdssetlen (s1\<lparr>sds_buf := ?b\<rparr>) ?n)"
    using s1(1) n l1 by (simp add: sdscpylen_def Let_def poke_ok)
  moreover have "take ?n ?b1 = t" using take_store_at [of 0 t "sds_buf s1"] n by simp
  ultimately show ?thesis using finish_ok [OF s1(3), of ?b] s1(2) store_0_end [of ?n ?b1] n l1 by simp
qed

lemma sdsRemoveFreeSpace_ok:
  assumes ok: "sds_ok s"
  shows "\<exists>s'. sdsRemoveFreeSpace junk s = Inr s' \<and> sds_ok s' \<and> sds_str s' = sds_str s \<and> sdsavail s' = 0"
proof (cases "sdsavail s = 0")
  case True
  with ok show ?thesis by (simp add: sdsRemoveFreeSpace_def)
next
  case False
  let ?l = "len_field s"
  define keep where "keep \<longleftrightarrow> sds_flags s = sdsReqType ?l \<or> type_num (sdsReqType ?l) > type_num SDS_TYPE_8"
  define t where "t = (if keep then sds_flags s else sdsReqType ?l)"
  define b where "b = (if keep then sds_realloc junk (sds_buf s) (?l + 1) else store_at (map junk [0..<?l + 1]) 0 (take (?l + 1) (sds_buf s)))"
  define s' where "s' = sdssetalloc (sdssetlen (s\<lparr>sds_flags := t, sds_buf := b\<rparr>) ?l) ?l"
  have l: "?l + 1 \<le> length (sds_buf s)" "?l < 2 ^ type_bits (sds_flags s)" using ok by (simp_all add: sds_ok_def)
  have "?l < 2 ^ 64" using l(2) by (cases "sds_flags s") simp_all
  then have bits: "?l < 2 ^ type_bits t" using sdsReqType_bits l(2) by (simp add: t_def)
  have part: "length (take (?l + 1) (sds_buf s)) = ?l + 1" using l by simp
  have lb: "length b = ?l + 1" using l part by (simp add: b_def length_realloc del: length_take)
  have tb: "take (?l + 1) b = take (?l + 1) (sds_buf s)"
    using l take_store_whole [of "take (?l + 1) (sds_buf s)" "map junk [0..<?l + 1]" "?l + 1"] part
    by (simp add: b_def take_realloc del: length_take)
  have "sdsRemoveFreeSpace junk s = Inr s'"
  proof (cases keep)
    case True
    have "?l mod 2 ^ type_bits (sds_flags s) = ?l" using l(2) by simp
    then have "sdssetlen (s\<lparr>sds_flags := t, sds_buf := b\<rparr>) ?l = s\<lparr>sds_buf := b\<rparr>"
      using True by (simp add: sdssetlen_def t_def)
    then show ?thesis
      using True False unfolding sdsRemoveFreeSpace_def s'_def keep_def b_def sdslen_def by (simp add: Let_def)
  next
    case f: False
    have "peek s 0 (?l + 1) = Inr (take (?l + 1) (sds_buf s))" using l by (simp add: peek_ok)
    moreover have "blit (map junk [0..<?l + 1]) 0 (take (?l + 1) (sds_buf s)) = Inr b"
      using l f part by (simp add: blit_def b_def del: length_take)
    ultimately show ?thesis
      using f False unfolding sdsRemoveFreeSpace_def s'_def keep_def t_def sdslen_def by (simp add: Let_def)
  qed
  moreover have m: "sds_ok s' \<and> sds_str s' = sds_str s \<and> sds_flags s' = t \<and> (t \<noteq> SDS_TYPE_5 \<longrightarrow> alloc_field s' = ?l)"
    using move_ok [OF _ order_refl bits lb tb s'_def] ok by (simp add: sds_ok_iff)
  moreover have "len_field s' = ?l" using length_sds_str [of s'] length_sds_str [OF ok] m by (simp add: sdslen_def)
  ultimately show ?thesis using sdsavail_ok [of s'] by auto
qed

text \<open>Slices, with Python's reading of negative positions and an inclusive end.\<close>

definition slice :: "byte list \<Rightarrow> int \<Rightarrow> int \<Rightarrow> byte list" where
  "slice xs start e =
     (let len = int (length xs);
          start = (if start < 0 then max 0 (len + start) else start);
          e = (if e < 0 then max 0 (len + e) else e)
      in if start > e then [] else take (nat (e - start + 1)) (drop (nat start) xs))"

lemma sdsrange_ok:
  assumes ok: "sds_ok s" and small: "- (2 ^ 62) \<le> start" "e < 2 ^ 62" and len: "sdslen s < 2 ^ 62"
  shows "\<exists>s'. sdsrange s start e = Inr s' \<and> sds_ok s' \<and> sds_str s' = slice (sds_str s) start e"
proof (cases "sdslen s = 0")
  case True
  then have "sds_str s = []" using length_sds_str [OF ok] by simp
  with True ok show ?thesis by (auto simp: sdsrange_def slice_def Let_def)
next
  case False
  define L where "L = int (sdslen s)"
  define a where "a = (if start < 0 then (if L + start < 0 then 0 else L + start) else start)"
  define b where "b = (if e < 0 then (if L + e < 0 then 0 else L + e) else e)"
  define b' where "b' = (if b \<ge> L then L - 1 else b)"
  define n where "n = (if a > b \<or> a \<ge> L then 0 else nat (b' - a + 1))"
  have L: "0 < L" "L < 2 ^ 62" "length (sds_str s) = nat L" using False len length_sds_str [OF ok] by (simp_all add: L_def)
  have a0: "0 \<le> a" and b0: "0 \<le> b" "b < 2 ^ 62" using L small by (simp_all add: a_def b_def)
  have sp: "span_len a b = Inr (if a > b then 0 else nat (b - a + 1))" using a0 b0 by (simp add: span_len_def)
  have sp': "span_len a (L - 1) = Inr (if a > L - 1 then 0 else nat (L - 1 - a + 1))" using a0 L by (simp add: span_len_def)
  define a' where "a' = (if a > b \<or> a \<ge> L then 0 else a)"
  have norm: "sdsrange s start e =
      cbind (if a' \<noteq> 0 \<and> n \<noteq> 0 then cbind (peek s (nat a') n) (\<lambda>bs. poke s 0 bs) else Inr s) (\<lambda>s.
        cbind (poke s n [0]) (\<lambda>s. Inr (sdssetlen s n)))"
    using False L(1) sp sp' unfolding sdsrange_def Let_def L_def [symmetric] a_def [symmetric] b_def [symmetric]
    by (auto simp: n_def a'_def b'_def)
  have fit: "nat a' + n \<le> sdslen s" using a0 by (auto simp: n_def a'_def b'_def L_def)
  have cut: "sds_str s' = (if a' \<noteq> 0 \<and> n \<noteq> 0 then take n (drop (nat a') (sds_str s)) else take n (sds_str s)) \<Longrightarrow>
      sds_str s' = slice (sds_str s) start e" for s'
  proof -
    assume c: "sds_str s' = (if a' \<noteq> 0 \<and> n \<noteq> 0 then take n (drop (nat a') (sds_str s)) else take n (sds_str s))"
    have sl: "slice (sds_str s) start e = (if a > b then [] else take (nat (b - a + 1)) (drop (nat a) (sds_str s)))"
      using L by (simp add: slice_def Let_def a_def b_def max_def)
    show ?thesis
    proof (cases "a > b \<or> a \<ge> L")
      case True
      then show ?thesis using c sl L by (auto simp: n_def)
    next
      case f: False
      have "take n (drop (nat a) (sds_str s)) = take (nat (b - a + 1)) (drop (nat a) (sds_str s))"
      proof (cases "b \<ge> L")
        case True
        then have "length (drop (nat a) (sds_str s)) \<le> n" using f a0 L by (simp add: n_def b'_def) 
        then show ?thesis using True f a0 L by simp
      next
        case False
        then show ?thesis using f by (simp add: n_def b'_def)
      qed
      then show ?thesis using c sl f by (auto simp: a'_def n_def)
    qed
  qed
  show ?thesis
    using move_down_ok [OF ok fit, of "a' \<noteq> 0 \<and> n \<noteq> 0"] cut unfolding norm by blast
qed

text \<open>Trimming drops from both ends what is in the set, zero bytes included.\<close>

definition strip :: "byte list \<Rightarrow> byte list \<Rightarrow> byte list" where
  "strip cset xs = rev (dropWhile (in_cset cset) (rev (dropWhile (in_cset cset) xs)))"

lemma trim_left_ok:
  assumes "0 \<le> sp" and "sp \<le> int n" and "n \<le> length buf"
  shows "\<exists>k. trim_left buf cset sp (int n - 1) = Inr (sp + int k) \<and>
    k = length (takeWhile (in_cset cset) (take (n - nat sp) (drop (nat sp) buf)))"
  using assms
proof (induction "n - nat sp" arbitrary: sp)
  case 0
  then have "\<not> sp \<le> int n - 1" by linarith
  then show ?case using 0 by (subst trim_left.simps) simp
next
  case (Suc m)
  then have lt: "nat sp < n" by linarith
  then have le: "sp \<le> int n - 1" using Suc.prems by linarith
  let ?c = "buf ! nat sp"
  have d: "take (n - nat sp) (drop (nat sp) buf) = ?c # take (n - nat (sp + 1)) (drop (nat (sp + 1)) buf)"
  proof -
    have "drop (nat sp) buf = ?c # drop (Suc (nat sp)) buf" using lt Suc.prems(3) by (simp add: drop_nth_Cons)
    moreover have "n - nat sp = Suc (n - nat (sp + 1))" "nat (sp + 1) = Suc (nat sp)" using lt Suc.prems(1) by linarith+
    ultimately show ?thesis by simp
  qed
  show ?case
  proof (cases "in_cset cset ?c")
    case True
    have step: "trim_left buf cset sp (int n - 1) = trim_left buf cset (sp + 1) (int n - 1)"
      using True le lt Suc.prems by (subst trim_left.simps) simp
    have "m = n - nat (sp + 1)" using Suc.hyps(2) Suc.prems(1) by linarith
    then obtain k where "trim_left buf cset (sp + 1) (int n - 1) = Inr (sp + 1 + int k)"
        "k = length (takeWhile (in_cset cset) (take (n - nat (sp + 1)) (drop (nat (sp + 1)) buf)))"
      using Suc.hyps(1) [of "sp + 1"] Suc.prems le by auto
    then show ?thesis using True unfolding step d by (intro exI [of _ "Suc k"]) simp
  next
    case False
    then have "trim_left buf cset sp (int n - 1) = Inr sp" using le lt Suc.prems by (subst trim_left.simps) simp
    then show ?thesis using False unfolding d by simp
  qed
qed

lemma trim_right_ok:
  assumes "0 \<le> sp" and "sp \<le> ep" and "ep < int (length buf)" and "\<not> in_cset cset (buf ! nat sp)"
  shows "\<exists>q. trim_right buf cset sp ep = Inr q \<and> sp \<le> q \<and> q \<le> ep \<and>
    rev (dropWhile (in_cset cset) (rev (take (nat (ep - sp + 1)) (drop (nat sp) buf)))) = take (nat (q - sp + 1)) (drop (nat sp) buf)"
  using assms
proof (induction "nat (ep - sp)" arbitrary: ep)
  case 0
  then have e: "ep = sp" by linarith
  have "take 1 (drop (nat sp) buf) = [buf ! nat sp]" using 0 e by (simp add: drop_nth_Cons)
  then show ?case using 0 e by (subst trim_right.simps) simp
next
  case (Suc m)
  then have gt: "ep > sp" by linarith
  let ?c = "buf ! nat ep"
  have i: "nat ep < length buf" using Suc.prems by linarith
  have t: "take (nat (ep - sp + 1)) (drop (nat sp) buf) = take (nat (ep - 1 - sp + 1)) (drop (nat sp) buf) @ [?c]"
  proof -
    have "nat (ep - sp + 1) = Suc (nat (ep - 1 - sp + 1))" using gt by linarith
    moreover have "nat (ep - 1 - sp + 1) < length (drop (nat sp) buf)" using i gt Suc.prems(1) by simp
    moreover have "drop (nat sp) buf ! nat (ep - 1 - sp + 1) = ?c"
      using i gt Suc.prems(1) by (simp add: nat_add_distrib [symmetric] add.commute)
    ultimately show ?thesis by (simp add: take_Suc_nth)
  qed
  show ?case
  proof (cases "in_cset cset ?c")
    case True
    have step: "trim_right buf cset sp ep = trim_right buf cset sp (ep - 1)"
      using True gt i by (subst trim_right.simps) simp
    have "m = nat (ep - 1 - sp)" using Suc.hyps(2) by linarith
    then obtain q where q: "trim_right buf cset sp (ep - 1) = Inr q" "sp \<le> q" "q \<le> ep - 1"
        "rev (dropWhile (in_cset cset) (rev (take (nat (ep - 1 - sp + 1)) (drop (nat sp) buf)))) = take (nat (q - sp + 1)) (drop (nat sp) buf)"
      using Suc.hyps(1) [of "ep - 1"] Suc.prems gt by auto
    then show ?thesis using True unfolding step t by simp
  next
    case False
    then have tr: "trim_right buf cset sp ep = Inr ep" using gt i by (subst trim_right.simps) simp
    have "rev (dropWhile (in_cset cset) (rev (take (nat (ep - sp + 1)) (drop (nat sp) buf)))) = take (nat (ep - sp + 1)) (drop (nat sp) buf)"
      unfolding t using False by simp
    then show ?thesis using tr gt by (intro exI [of _ ep]) simp
  qed
qed

lemma sdstrim_ok:
  assumes ok: "sds_ok s"
  shows "\<exists>s'. sdstrim s cset = Inr s' \<and> sds_ok s' \<and> sds_str s' = strip cset (sds_str s)"
proof -
  let ?n = "sdslen s"
  have nb: "?n \<le> length (sds_buf s)" using ok by (simp add: sds_ok_def sdslen_def)
  have str: "sds_str s = take ?n (sds_buf s)" by (simp add: sds_str_def sdslen_def)
  define k where "k = length (takeWhile (in_cset cset) (sds_str s))"
  have tl: "trim_left (sds_buf s) cset 0 (int ?n - 1) = Inr (int k)"
    using trim_left_ok [of 0 ?n "sds_buf s" cset] nb by (simp add: k_def str)
  have dw: "dropWhile (in_cset cset) (sds_str s) = drop k (sds_str s)" by (simp add: k_def dropWhile_eq_drop)
  have kn: "k \<le> ?n" using length_takeWhile_le [of "in_cset cset" "sds_str s"] length_sds_str [OF ok] by (simp add: k_def)
  show ?thesis
  proof (cases "k = ?n")
    case True
    then have empty: "strip cset (sds_str s) = []" unfolding strip_def dw using length_sds_str [OF ok] by simp
    have "trim_right (sds_buf s) cset (int k) (int ?n - 1) = Inr (int ?n - 1)" using True by (subst trim_right.simps) simp
    then have eq: "sdstrim s cset =
        cbind (if int k \<noteq> 0 then cbind (peek s k 0) (\<lambda>bs. poke s 0 bs) else Inr s) (\<lambda>s.
          cbind (poke s 0 [0]) (\<lambda>s. Inr (sdssetlen s 0)))"
      using tl True by (simp add: sdstrim_def Let_def)
    show ?thesis using move_down_ok [OF ok, of k 0 "int k \<noteq> 0"] kn empty unfolding eq by (cases "k = 0") simp_all
  next
    case False
    then have lt: "k < ?n" using kn by simp
    then have nk: "\<not> in_cset cset (sds_buf s ! k)"
      using nth_length_takeWhile [of "in_cset cset" "sds_str s"] length_sds_str [OF ok] by (simp add: k_def str)
    obtain q where q: "trim_right (sds_buf s) cset (int k) (int ?n - 1) = Inr q" "int k \<le> q" "q \<le> int ?n - 1"
        "rev (dropWhile (in_cset cset) (rev (take (nat (int ?n - 1 - int k + 1)) (drop (nat (int k)) (sds_buf s))))) =
         take (nat (q - int k + 1)) (drop (nat (int k)) (sds_buf s))"
      using trim_right_ok [of "int k" "int ?n - 1" "sds_buf s" cset] lt nk nb by auto
    let ?m = "nat (q - int k + 1)"
    have "drop k (sds_str s) = take (nat (int ?n - 1 - int k + 1)) (drop k (sds_buf s))"
      using kn by (simp add: str drop_take flip: of_nat_diff)
    then have st: "strip cset (sds_str s) = take ?m (drop k (sds_str s))"
      using q(3,4) lt by (simp add: strip_def dw)
    have eq: "sdstrim s cset =
        cbind (if int k \<noteq> 0 then cbind (peek s k ?m) (\<lambda>bs. poke s 0 bs) else Inr s) (\<lambda>s.
          cbind (poke s ?m [0]) (\<lambda>s. Inr (sdssetlen s ?m)))"
      using tl q(1,2) by (simp add: sdstrim_def Let_def)
    have fit: "k + ?m \<le> ?n" using q(2,3) lt by linarith
    show ?thesis using move_down_ok [OF ok fit, of "int k \<noteq> 0"] st unfolding eq by (cases "k = 0") simp_all
  qed
qed

lemma map_bytes_ok:
  assumes "j + n \<le> length (sds_buf s)"
  shows "map_bytes f n j s = Inr (s\<lparr>sds_buf := take j (sds_buf s) @ map f (take n (drop j (sds_buf s))) @ drop (j + n) (sds_buf s)\<rparr>)"
  using assms
proof (induction n arbitrary: j s)
  case 0
  then show ?case by (simp add: min_def flip: append_assoc)
next
  case (Suc n)
  let ?c = "sds_buf s ! j"
  let ?s = "s\<lparr>sds_buf := store_at (sds_buf s) j [f ?c]\<rparr>"
  have j: "j < length (sds_buf s)" using Suc.prems by simp
  have "map_bytes f (Suc n) j s = map_bytes f n (j + 1) ?s" using j by (simp add: poke_ok)
  also have "\<dots> = Inr (?s\<lparr>sds_buf := take (j + 1) (sds_buf ?s) @ map f (take n (drop (j + 1) (sds_buf ?s))) @ drop (j + 1 + n) (sds_buf ?s)\<rparr>)"
    using Suc.prems j by (intro Suc.IH) simp
  also have "\<dots> = Inr (s\<lparr>sds_buf := take j (sds_buf s) @ map f (take (Suc n) (drop j (sds_buf s))) @ drop (j + Suc n) (sds_buf s)\<rparr>)"
    using j by (simp add: store_at_def drop_nth_Cons min_def add.commute)
  finally show ?case .
qed

lemma map_string_ok:
  assumes ok: "sds_ok s"
  shows "\<exists>s'. map_bytes f (sdslen s) 0 s = Inr s' \<and> sds_ok s' \<and> sds_str s' = map f (sds_str s)"
proof -
  let ?n = "len_field s"
  have n: "?n < length (sds_buf s)" "sds_buf s ! ?n = 0" using ok by (simp_all add: sds_ok_def)
  let ?b = "map f (take ?n (sds_buf s)) @ drop ?n (sds_buf s)"
  have "map_bytes f (sdslen s) 0 s = Inr (s\<lparr>sds_buf := ?b\<rparr>)"
    using map_bytes_ok [of 0 ?n s f] n by (simp add: sdslen_def)
  moreover have "sds_ok (s\<lparr>sds_buf := ?b\<rparr>)" using ok n by (auto simp: sds_ok_def nth_append)
  moreover have "sds_str (s\<lparr>sds_buf := ?b\<rparr>) = map f (sds_str s)" using n by (simp add: sds_str_def)
  ultimately show ?thesis by blast
qed

section \<open>Any sequence of operations\<close>

datatype sds_op = Cat "byte list" | Cpy "byte list" | GrowZero nat | Range int int | Trim "byte list" | Clear
  | MakeRoom nat | RemoveFree | Lower | Upper | ReadInto nat "byte list"

primrec run_sds_op :: "(nat \<Rightarrow> byte) \<Rightarrow> sds_op \<Rightarrow> sds \<Rightarrow> sds cres" where
  "run_sds_op junk (Cat t) s = sdscatlen junk s t"
| "run_sds_op junk (Cpy t) s = sdscpylen junk s t"
| "run_sds_op junk (GrowZero n) s = sdsgrowzero junk s n"
| "run_sds_op junk (Range a b) s = sdsrange s a b"
| "run_sds_op junk (Trim cset) s = sdstrim s cset"
| "run_sds_op junk Clear s = sdsclear s"
| "run_sds_op junk (MakeRoom n) s = sdsMakeRoomFor junk s n"
| "run_sds_op junk RemoveFree s = sdsRemoveFreeSpace junk s"
| "run_sds_op junk Lower s = sdstolower s"
| "run_sds_op junk Upper s = sdstoupper s"
| "run_sds_op junk (ReadInto n bs) s = read_into junk s n bs"

primrec run_sds_ops :: "(nat \<Rightarrow> byte) \<Rightarrow> sds_op list \<Rightarrow> sds \<Rightarrow> sds cres" where
  "run_sds_ops junk [] s = Inr s"
| "run_sds_ops junk (x # xs) s = cbind (run_sds_op junk x s) (run_sds_ops junk xs)"

primrec spec_sds_op :: "sds_op \<Rightarrow> byte list \<Rightarrow> byte list" where
  "spec_sds_op (Cat t) xs = xs @ t"
| "spec_sds_op (Cpy t) xs = t"
| "spec_sds_op (GrowZero n) xs = xs @ replicate (n - length xs) 0"
| "spec_sds_op (Range a b) xs = slice xs a b"
| "spec_sds_op (Trim cset) xs = strip cset xs"
| "spec_sds_op Clear xs = []"
| "spec_sds_op (MakeRoom n) xs = xs"
| "spec_sds_op RemoveFree xs = xs"
| "spec_sds_op Lower xs = map tolower xs"
| "spec_sds_op Upper xs = map toupper xs"
| "spec_sds_op (ReadInto n bs) xs = xs @ bs"

text \<open>How much an operation can add, and the positions for which a range is computed without overflow.\<close>

primrec op_cost :: "sds_op \<Rightarrow> nat" where
  "op_cost (Cat t) = length t" | "op_cost (Cpy t) = length t" | "op_cost (GrowZero n) = n" | "op_cost (Range a b) = 0"
| "op_cost (Trim cset) = 0" | "op_cost Clear = 0" | "op_cost (MakeRoom n) = n" | "op_cost RemoveFree = 0"
| "op_cost Lower = 0" | "op_cost Upper = 0" | "op_cost (ReadInto n bs) = n + length bs"

primrec op_in_range :: "sds_op \<Rightarrow> bool" where
  "op_in_range (Cat t) = True" | "op_in_range (Cpy t) = True" | "op_in_range (GrowZero n) = True"
| "op_in_range (Range a b) \<longleftrightarrow> - (2 ^ 62) \<le> a \<and> b < 2 ^ 62"
| "op_in_range (Trim cset) = True" | "op_in_range Clear = True" | "op_in_range (MakeRoom n) = True" | "op_in_range RemoveFree = True"
| "op_in_range Lower = True" | "op_in_range Upper = True" | "op_in_range (ReadInto n bs) \<longleftrightarrow> bs \<noteq> [] \<and> length bs \<le> n"

lemma length_slice: "length (slice xs a b) \<le> length xs"
proof -
  have "length (if p then [] else take m (drop k xs)) \<le> length xs" for p m k by (simp add: min.coboundedI1)
  then show ?thesis unfolding slice_def Let_def .
qed

lemma length_strip: "length (strip cset xs) \<le> length xs"
proof -
  have "length (strip cset xs) \<le> length (dropWhile (in_cset cset) xs)"
    unfolding strip_def length_rev by (rule order_trans [OF length_dropWhile_le]) simp
  also have "\<dots> \<le> length xs" by (rule length_dropWhile_le)
  finally show ?thesis .
qed

lemma spec_length: "length (spec_sds_op x xs) \<le> length xs + op_cost x"
  using length_slice length_strip by (cases x) (auto intro: le_trans)

lemma run_sds_op_ok:
  assumes ok: "sds_ok s" and small: "sdslen s + op_cost x < 2 ^ 62" and r: "op_in_range x"
  shows "\<exists>s'. run_sds_op junk x s = Inr s' \<and> sds_ok s' \<and> sds_str s' = spec_sds_op x (sds_str s)"
proof (cases x)
  case (Cat t)
  then show ?thesis using sdscatlen_ok [OF ok, of t junk] small by simp
next
  case (Cpy t)
  then show ?thesis using sdscpylen_ok [OF ok, of t junk] small by simp
next
  case (GrowZero n)
  then show ?thesis using sdsgrowzero_ok [OF ok, of n junk] small length_sds_str [OF ok] by simp
next
  case (Range a b)
  then show ?thesis using sdsrange_ok [OF ok, of a b] small r by simp
next
  case (Trim cset)
  then show ?thesis using sdstrim_ok [OF ok] by simp
next
  case Clear
  then show ?thesis using sdsclear_ok [OF ok] by simp
next
  case (MakeRoom n)
  then show ?thesis using sdsMakeRoomFor_ok [OF ok, of n junk] small by auto
next
  case RemoveFree
  then show ?thesis using sdsRemoveFreeSpace_ok [OF ok, of junk] by auto
next
  case Lower
  then show ?thesis using map_string_ok [OF ok] by (simp add: sdstolower_def)
next
  case Upper
  then show ?thesis using map_string_ok [OF ok] by (simp add: sdstoupper_def)
next
  case (ReadInto n bs)
  then show ?thesis using read_into_ok [OF ok, of n bs junk] small r by simp
qed

lemma run_sds_ops_ok:
  assumes "sds_ok s" and "sdslen s + sum_list (map op_cost xs) < 2 ^ 62" and "\<forall>x \<in> set xs. op_in_range x"
  shows "\<exists>s'. run_sds_ops junk xs s = Inr s' \<and> sds_ok s' \<and> sds_str s' = fold spec_sds_op xs (sds_str s)"
  using assms
proof (induction xs arbitrary: s)
  case (Cons x xs)
  obtain s1 where s1: "run_sds_op junk x s = Inr s1" "sds_ok s1" "sds_str s1 = spec_sds_op x (sds_str s)"
    using run_sds_op_ok [OF Cons.prems(1), of x junk] Cons.prems by auto
  have "sdslen s1 \<le> sdslen s + op_cost x"
    using spec_length [of x "sds_str s"] length_sds_str [OF s1(2)] length_sds_str [OF Cons.prems(1)] s1(3) by simp
  then show ?case using Cons.IH [OF s1(2)] Cons.prems s1 by simp
qed simp

lemma sdsnewlen_ok:
  assumes "length t < 2 ^ 62"
  shows "\<exists>s. sdsnewlen junk (Some t) (length t) = Inr s \<and> sds_ok s \<and> sds_str s = t"
proof -
  let ?n = "length t"
  define ty where "ty = (if sdsReqType ?n = SDS_TYPE_5 \<and> ?n = 0 then SDS_TYPE_8 else sdsReqType ?n)"
  have bits: "?n < 2 ^ type_bits ty" using sdsReqType_bits [of ?n] assms by (auto simp: ty_def)
  let ?mem = "map junk [0..<?n + 1]"
  let ?b = "store_at (store_at ?mem 0 t) ?n [0]"
  have l: "length (store_at ?mem 0 t) = ?n + 1" by simp
  have "sdsnewlen junk (Some t) ?n =
      Inr \<lparr> sds_flags = ty, len_field = ?n, alloc_field = ?n, sds_buf = ?b \<rparr>"
    using bits l unfolding sdsnewlen_def ty_def [symmetric] Let_def by (cases "t = []") (simp_all add: poke_ok)
  moreover have "take ?n ?b = t" "?b ! ?n = 0" "length ?b = ?n + 1"
    using store_0_end [of ?n "store_at ?mem 0 t"] l take_store_at [of 0 t ?mem] by simp_all
  ultimately show ?thesis using bits by (simp add: sds_ok_def sds_str_def)
qed

text \<open>C19: A dynamic string behaves as its content: starting from a string made of given bytes, any sequence of
  appends, copies, zero-fills, slices, trims, clears, case changes, reallocations and reads into
  reserved room, of less than
  \<open>2\<^sup>6\<^sup>2\<close> bytes in all, accesses nothing outside the buffer, gives the content that the same
  operations give on a list of bytes, and keeps the header consistent with the buffer and the
  terminator in place, whatever fresh memory holds.\<close>

theorem sds_ops_refine:
  assumes "length t + sum_list (map op_cost xs) < 2 ^ 62" and "\<forall>x \<in> set xs. op_in_range x"
  shows "\<exists>s s'. sdsnewlen junk (Some t) (length t) = Inr s \<and> run_sds_ops junk xs s = Inr s' \<and> sds_ok s' \<and>
    sds_str s' = fold spec_sds_op xs t"
proof -
  obtain s where s: "sdsnewlen junk (Some t) (length t) = Inr s" "sds_ok s" "sds_str s = t"
    using sdsnewlen_ok [of t junk] assms(1) by auto
  then show ?thesis using run_sds_ops_ok [OF s(2), of xs junk] assms length_sds_str [OF s(2)] by auto
qed

theorem sds_ops_refine_witness:
  "\<exists>s s'. sdsnewlen (\<lambda>n. 7) (Some (bytes '' Hello'')) (length (bytes '' Hello'')) = Inr s \<and>
     run_sds_ops (\<lambda>n. 7) [Trim [32], Cat (bytes '' World''), Range 1 (-2), Upper, ReadInto 4 [33]] s = Inr s' \<and> sds_ok s' \<and>
     sds_str s' = bytes ''ELLO WORL!''"
  using sds_ops_refine [of "bytes '' Hello''" "[Trim [32], Cat (bytes '' World''), Range 1 (-2), Upper, ReadInto 4 [33]]" "\<lambda>n. 7"]
  by (simp add: bytes_def strip_def in_cset_def slice_def toupper_def Let_def)

end
