(* ===== verification/SdsFmt.thy ===== *)
theory SdsFmt
  imports Sds Numconv
begin

text \<open>
  Formatted output to dynamic strings (\<open>sds.c\<close>): the conversion of integers, \<open>sdscatvprintf\<close> and
  \<open>sdscatfmt\<close>. What \<open>vsnprintf\<close> makes of a format and its arguments is an argument (\<open>text\<close>), of which
  it stores the part that fits. The variable arguments of \<open>sdscatfmt\<close> are a list; taking one that is
  not there, or one of another type, is undefined. A reference on byte lists says what a format
  denotes.
\<close>

section \<open>Integers\<close>

definition SDS_LLSTR_SIZE :: nat where "SDS_LLSTR_SIZE = 21"

text \<open>The two loops: digits, the last one first, and the reversal in place.\<close>

fun digits_loop :: "byte list \<Rightarrow> nat \<Rightarrow> nat \<Rightarrow> (nat \<times> byte list) cres" where
  "digits_loop buf p v =
     cbind (wr buf p (word_of_nat (48 + v mod 10))) (\<lambda>buf.
     if v div 10 \<noteq> 0 then digits_loop buf (p + 1) (v div 10) else Inr (p + 1, buf))"

function reverse_loop :: "byte list \<Rightarrow> nat \<Rightarrow> nat \<Rightarrow> byte list cres" where
  "reverse_loop buf s p =
     (if s < p then
        cbind (rd buf s) (\<lambda>aux. cbind (rd buf p) (\<lambda>c. cbind (wr buf s c) (\<lambda>buf. cbind (wr buf p aux) (\<lambda>buf.
        reverse_loop buf (s + 1) (p - 1)))))
      else Inr buf)"
  by pat_completeness auto
termination by (relation "measure (\<lambda>(buf, s, p). p - s)") auto

declare digits_loop.simps [simp del] reverse_loop.simps [simp del]

text \<open>The result is the length and the buffer. The negation of the least \<open>long long\<close> overflows.\<close>

definition sdsll2str :: "byte list \<Rightarrow> int \<Rightarrow> (nat \<times> byte list) cres" where
  "sdsll2str s v0 =
     cbind (if v0 < 0 then if v0 = LLONG_MIN then Inl SignedOverflow else Inr (nat (- v0)) else Inr (nat v0)) (\<lambda>v.
     cbind (digits_loop s 0 v) (\<lambda>(p, s).
     cbind (if v0 < 0 then cbind (wr s p 45) (\<lambda>s. Inr (p + 1, s)) else Inr (p, s)) (\<lambda>(p, s).
     let l = p in
     cbind (wr s p 0) (\<lambda>s.
     cbind (reverse_loop s 0 (p - 1)) (\<lambda>s.
     Inr (l, s))))))"

definition sdsull2str :: "byte list \<Rightarrow> nat \<Rightarrow> (nat \<times> byte list) cres" where
  "sdsull2str s v =
     cbind (digits_loop s 0 v) (\<lambda>(p, s).
     let l = p in
     cbind (wr s p 0) (\<lambda>s.
     cbind (reverse_loop s 0 (p - 1)) (\<lambda>s.
     Inr (l, s))))"

definition sdsfromlonglong :: "(nat \<Rightarrow> byte) \<Rightarrow> int \<Rightarrow> sds cres" where
  "sdsfromlonglong junk v =
     cbind (sdsll2str (map junk [0..<SDS_LLSTR_SIZE]) v) (\<lambda>(len, buf).
     sdsnewlen junk (Some buf) len)"

section \<open>printf\<close>

text \<open>\<open>vsnprintf\<close> of a text into a block: what fits, and a terminator.\<close>

definition vsnprintf :: "byte list \<Rightarrow> byte list \<Rightarrow> byte list" where
  "vsnprintf buf text = store_at buf 0 (take (length buf - 1) text @ [0])"

lemma vsnprintf_mark:
  assumes "2 \<le> length buf" and "length text < length buf - 1"
  shows "vsnprintf (buf[length buf - 2 := 0]) text ! (length buf - 2) = 0"
proof -
  let ?n = "length buf"
  have t: "take (?n - 1) text = text" using assms by simp
  consider "length text = ?n - 2" | "length text + 1 \<le> ?n - 2" using assms by linarith
  then show ?thesis
  proof cases
    case 1
    then show ?thesis using t by (simp add: vsnprintf_def store_at_def nth_append)
  next
    case 2
    moreover have "Suc (?n - 3) = ?n - 2" using 2 by simp
    ultimately show ?thesis using t assms by (simp add: vsnprintf_def store_at_def nth_append)
  qed
qed

text \<open>
  Each attempt marks the last byte but one of a block and looks whether it is still zero
  afterwards; else it takes a block twice as large.
\<close>

function vprintf_loop :: "(nat \<Rightarrow> byte) \<Rightarrow> byte list \<Rightarrow> nat \<Rightarrow> byte list cres" where
  "vprintf_loop junk text buflen =
     (if buflen < 2 then Inl OutOfBounds
      else cbind (wr (map junk [0..<buflen]) (buflen - 2) 0) (\<lambda>buf.
        let buf = vsnprintf buf text in
        if buf ! (buflen - 2) \<noteq> 0 then vprintf_loop junk text (buflen * 2) else Inr buf))"
  by pat_completeness auto
termination
proof (relation "measure (\<lambda>(junk, text, buflen). length text + 2 - buflen)", simp, clarsimp)
  fix junk out buflen
  assume "\<not> buflen < 2" and "vsnprintf ((map junk [0..<buflen])[buflen - 2 := 0]) out ! (buflen - 2) \<noteq> 0"
  then have "\<not> length out < buflen - 1" using vsnprintf_mark [of "map junk [0..<buflen]" out] by auto
  then show "Suc (Suc (length out)) - buflen * 2 < Suc (Suc (length out)) - buflen" using \<open>\<not> buflen < 2\<close> by linarith
qed

declare vprintf_loop.simps [simp del]

definition sdscatvprintf :: "(nat \<Rightarrow> byte) \<Rightarrow> sds \<Rightarrow> byte list \<Rightarrow> byte list \<Rightarrow> sds cres" where
  "sdscatvprintf junk s fmt text =
     cbind (strlen fmt 0) (\<lambda>n.
     let buflen = n * 2; buflen = (if buflen > 1024 then buflen else 1024) in
     cbind (vprintf_loop junk text buflen) (\<lambda>buf.
     sdscat junk s buf))"

section \<open>The formats of Redis\<close>

datatype fmt_arg = ArgStr "byte list" | ArgSds sds | ArgInt int | ArgLL int | ArgUInt nat | ArgULL nat

fun va_str :: "byte \<Rightarrow> fmt_arg list \<Rightarrow> (byte list \<times> fmt_arg list) cres" where
  "va_str c (ArgStr t # ap) =
     (if c = 115 then cbind (strlen t 0) (\<lambda>l. Inr (take l t, ap)) else Inl BadArgument)"
| "va_str c (ArgSds t # ap) =
     (if c = 83 then cbind (peek t 0 (sdslen t)) (\<lambda>bs. Inr (bs, ap)) else Inl BadArgument)"
| "va_str c ap = Inl BadArgument"

fun va_int :: "byte \<Rightarrow> fmt_arg list \<Rightarrow> (int \<times> fmt_arg list) cres" where
  "va_int c (ArgInt v # ap) = (if c = 105 then Inr (v, ap) else Inl BadArgument)"
| "va_int c (ArgLL v # ap) = (if c = 73 then Inr (v, ap) else Inl BadArgument)"
| "va_int c ap = Inl BadArgument"

fun va_uint :: "byte \<Rightarrow> fmt_arg list \<Rightarrow> (nat \<times> fmt_arg list) cres" where
  "va_uint c (ArgUInt v # ap) = (if c = 117 then Inr (v, ap) else Inl BadArgument)"
| "va_uint c (ArgULL v # ap) = (if c = 85 then Inr (v, ap) else Inl BadArgument)"
| "va_uint c ap = Inl BadArgument"

text \<open>Appending a block and appending one byte, for which there is room.\<close>

definition put_block :: "(nat \<Rightarrow> byte) \<Rightarrow> sds \<Rightarrow> nat \<Rightarrow> byte list \<Rightarrow> (sds \<times> nat) cres" where
  "put_block junk s i bs =
     (let l = length bs in
      cbind (if sdsavail s < l then sdsMakeRoomFor junk s l else Inr s) (\<lambda>s.
      cbind (poke s i bs) (\<lambda>s.
      Inr (sdsinclen s l, i + l))))"

definition put_byte :: "sds \<Rightarrow> nat \<Rightarrow> byte \<Rightarrow> (sds \<times> nat) cres" where
  "put_byte s i c = cbind (poke s i [c]) (\<lambda>s. Inr (sdsinclen s 1, i + 1))"

definition put_spec :: "(nat \<Rightarrow> byte) \<Rightarrow> byte \<Rightarrow> fmt_arg list \<Rightarrow> sds \<Rightarrow> nat \<Rightarrow> (fmt_arg list \<times> sds \<times> nat) cres" where
  "put_spec junk next_c ap s i =
     (if next_c = 115 \<or> next_c = 83 then
        cbind (va_str next_c ap) (\<lambda>(str, ap). cbind (put_block junk s i str) (\<lambda>(s, i). Inr (ap, s, i)))
      else if next_c = 105 \<or> next_c = 73 then
        cbind (va_int next_c ap) (\<lambda>(num, ap).
        cbind (sdsll2str (map junk [0..<SDS_LLSTR_SIZE]) num) (\<lambda>(l, buf).
        cbind (put_block junk s i (take l buf)) (\<lambda>(s, i). Inr (ap, s, i))))
      else if next_c = 117 \<or> next_c = 85 then
        cbind (va_uint next_c ap) (\<lambda>(unum, ap).
        cbind (sdsull2str (map junk [0..<SDS_LLSTR_SIZE]) unum) (\<lambda>(l, buf).
        cbind (put_block junk s i (take l buf)) (\<lambda>(s, i). Inr (ap, s, i))))
      else cbind (put_byte s i next_c) (\<lambda>(s, i). Inr (ap, s, i)))"

text \<open>\<open>f\<close> is what is left of the format, its terminator included.\<close>

fun catfmt_loop :: "(nat \<Rightarrow> byte) \<Rightarrow> byte list \<Rightarrow> fmt_arg list \<Rightarrow> sds \<Rightarrow> nat \<Rightarrow> (sds \<times> nat) cres" where
  "catfmt_loop junk [] ap s i = Inl OutOfBounds"
| "catfmt_loop junk [c] ap s i =
     (if c = 0 then Inr (s, i) else Inl OutOfBounds)"
| "catfmt_loop junk (c # c' # f) ap s i =
     (if c = 0 then Inr (s, i)
      else cbind (if sdsavail s = 0 then sdsMakeRoomFor junk s 1 else Inr s) (\<lambda>s.
        if c = 37 then cbind (put_spec junk c' ap s i) (\<lambda>(ap, s, i). catfmt_loop junk f ap s i)
        else cbind (put_byte s i c) (\<lambda>(s, i). catfmt_loop junk (c' # f) ap s i)))"

definition sdscatfmt :: "(nat \<Rightarrow> byte) \<Rightarrow> sds \<Rightarrow> byte list \<Rightarrow> fmt_arg list \<Rightarrow> sds cres" where
  "sdscatfmt junk s fmt ap =
     cbind (catfmt_loop junk fmt ap s (sdslen s)) (\<lambda>(s, i).
     poke s i [0])"

section \<open>Correctness of the conversions\<close>

lemma store_at_update: "i < length buf \<Longrightarrow> store_at (buf[i := x]) (Suc i) bs = store_at buf i (x # bs)"
  by (simp add: store_at_def take_Suc_nth)

lemma store_at_one: "i < length buf \<Longrightarrow> buf[i := x] = store_at buf i [x]"
  using store_at_update [of i buf x "[]"] by simp

lemma digits_loop_ok:
  "p + length (dec v) \<le> length buf \<Longrightarrow> digits_loop buf p v = Inr (p + length (dec v), store_at buf p (rev (dec v)))"
proof (induction buf p v rule: digits_loop.induct)
  case (1 buf p v)
  have p: "p < length buf" using 1(2) dec_nonempty [of v] by (cases "dec v") simp_all
  show ?case
  proof (cases "v < 10")
    case True
    then show ?thesis using p by (simp add: digits_loop.simps [of buf p v] dec_small store_at_one)
  next
    case False
    let ?buf = "buf[p := word_of_nat (48 + v mod 10)]"
    have "digits_loop ?buf (p + 1) (v div 10) = Inr (p + 1 + length (dec (v div 10)), store_at ?buf (p + 1) (rev (dec (v div 10))))"
      using False 1(2) p by (intro 1(1)) (simp_all add: dec_step [of v])
    moreover have "dec v = dec (v div 10) @ [word_of_nat (48 + v mod 10)]" using False by (simp add: dec_step)
    moreover have "v div 10 \<noteq> 0" using False by simp
    ultimately show ?thesis using p by (subst digits_loop.simps) (simp add: store_at_update)
  qed
qed

lemma reverse_loop_ok: "reverse_loop (a @ xs @ b) (length a) (length a + length xs - 1) = Inr (a @ rev xs @ b)"
proof (induction xs arbitrary: a b rule: length_induct)
  case (1 xs)
  show ?case
  proof (cases "length xs \<le> 1")
    case True
    then have "rev xs = xs" by (cases xs) simp_all
    with True show ?thesis by (subst reverse_loop.simps) auto
  next
    case False
    then obtain x ys where "xs = x # ys" "ys \<noteq> []" by (cases xs) auto
    then obtain zs y where xs: "xs = x # zs @ [y]" by (metis rev_exhaust)
    have "reverse_loop (a @ xs @ b) (length a) (length a + length xs - 1) =
        reverse_loop ((a @ [y]) @ zs @ (x # b)) (length (a @ [y])) (length (a @ [y]) + length zs - 1)"
      by (subst reverse_loop.simps) (simp add: xs nth_append list_update_append)
    also have "\<dots> = Inr ((a @ [y]) @ rev zs @ (x # b))" using xs by (intro 1 [rule_format]) simp
    finally show ?thesis by (simp add: xs)
  qed
qed

text \<open>A reversed block and its terminator, put into order.\<close>

lemma turn_ok:
  assumes "length d < length buf" and "d \<noteq> []"
  shows "cbind (wr (store_at buf 0 (rev d)) (length d) 0) (\<lambda>s. cbind (reverse_loop s 0 (length d - 1)) (\<lambda>s. Inr (length d, s))) =
    Inr (length d, d @ 0 # drop (Suc (length d)) buf)"
proof -
  have "wr (store_at buf 0 (rev d)) (length d) 0 = Inr (rev d @ 0 # drop (Suc (length d)) buf)"
    using assms by (simp add: store_at_def list_update_append drop_nth_Cons)
  then show ?thesis using reverse_loop_ok [of "[]" "rev d"] by simp
qed

lemma sdsull2str_ok:
  assumes "v < 2 ^ 64" and "length buf = SDS_LLSTR_SIZE"
  shows "sdsull2str buf v = Inr (length (dec v), dec v @ 0 # drop (Suc (length (dec v))) buf)"
proof -
  have "length (dec v) \<le> 20" using assms(1) by (intro length_dec_20) simp
  then have l: "length (dec v) < length buf" using assms(2) by (simp add: SDS_LLSTR_SIZE_def)
  then show ?thesis
    using digits_loop_ok [of 0 v buf] turn_ok [OF l dec_nonempty] by (simp add: sdsull2str_def Let_def)
qed

lemma sdsll2str_ok:
  assumes "LLONG_MIN < v" and "v \<le> LLONG_MAX" and "length buf = SDS_LLSTR_SIZE"
  shows "sdsll2str buf v = Inr (length (sdec v), sdec v @ 0 # drop (Suc (length (sdec v))) buf)"
proof -
  let ?d = "dec (nat \<bar>v\<bar>)"
  have "nat \<bar>v\<bar> < 10 ^ 19" using assms(1,2) by (simp add: LLONG_MIN_def LLONG_MAX_def)
  then have d: "length ?d \<le> 19" using length_dec_le [of "nat \<bar>v\<bar>" 18] by simp
  then have l: "length (sdec v) < length buf" using assms(3) unfolding sdec_abs by (cases "v < 0") (simp_all add: SDS_LLSTR_SIZE_def)
  have ne: "sdec v \<noteq> []" using dec_nonempty by (simp add: sdec_def)
  have dl: "digits_loop buf 0 (nat \<bar>v\<bar>) = Inr (length ?d, store_at buf 0 (rev ?d))"
    using digits_loop_ok [of 0 "nat \<bar>v\<bar>" buf] d assms(3) by (simp add: SDS_LLSTR_SIZE_def)
  show ?thesis
  proof (cases "v < 0")
    case True
    then have r: "rev (sdec v) = rev ?d @ [45]" by (simp add: sdec_abs)
    have "(store_at buf 0 (rev ?d))[length ?d := 45] = store_at buf 0 (rev (sdec v))"
      using store_at_snoc [of 0 "rev ?d" buf 45] d assms(3) unfolding r by (simp add: SDS_LLSTR_SIZE_def)
    then show ?thesis
      using True dl assms(1,3) d turn_ok [OF l ne]
      by (simp add: sdsll2str_def Let_def sdec_abs SDS_LLSTR_SIZE_def)
  next
    case False
    then show ?thesis
      using dl turn_ok [OF l ne] by (simp add: sdsll2str_def Let_def sdec_abs)
  qed
qed

lemma strlen_text: "0 \<notin> set t \<Longrightarrow> strlen (t @ 0 # u) 0 = Inr (length t)"
  using scan_append [of t "\<lambda>c. c = 0" 0 u] by (auto simp: strlen_def)

lemma vprintf_loop_ok:
  assumes "2 \<le> buflen" and "0 \<notin> set t"
  shows "\<exists>u. vprintf_loop junk t buflen = Inr (t @ 0 # u)"
  using assms
proof (induction junk t buflen rule: vprintf_loop.induct)
  case (1 junk t buflen)
  let ?buf = "(map junk [0..<buflen])[buflen - 2 := 0]"
  have w: "wr (map junk [0..<buflen]) (buflen - 2) 0 = Inr ?buf" using 1(2) by simp
  show ?case
  proof (cases "length t < buflen - 1")
    case True
    then have "vsnprintf ?buf t ! (buflen - 2) = 0" using vsnprintf_mark [of "map junk [0..<buflen]" t] 1(2) by simp
    moreover have "vsnprintf ?buf t = t @ 0 # drop (length t + 1) ?buf" using True by (simp add: vsnprintf_def store_at_def)
    ultimately show ?thesis using w 1(2) by (subst vprintf_loop.simps) (simp add: Let_def)
  next
    case False
    moreover have "buflen - 2 < buflen - Suc 0" using 1(2) by simp
    ultimately have "vsnprintf ?buf t ! (buflen - 2) = t ! (buflen - 2)"
      using 1(2) by (simp add: vsnprintf_def store_at_def nth_append)
    also have "\<dots> \<noteq> 0"
    proof -
      have "buflen - 2 < length t" using False 1(2) by linarith
      then have "t ! (buflen - 2) \<in> set t" by simp
      then show ?thesis using 1(3) by metis
    qed
    finally have nz: "vsnprintf ?buf t ! (buflen - 2) \<noteq> 0" .
    have "\<exists>u. vprintf_loop junk t (buflen * 2) = Inr (t @ 0 # u)"
      by (rule 1(1) [OF _ w refl nz]) (use 1(2,3) in simp_all)
    then show ?thesis using w nz 1(2) by (subst vprintf_loop.simps) (simp add: Let_def)
  qed
qed

lemma sdscatvprintf_ok:
  assumes "sds_ok s" and "0 \<notin> set t" and "0 \<in> set fmt" and "sdslen s + length t < 2 ^ 62"
  shows "\<exists>s'. sdscatvprintf junk s fmt t = Inr s' \<and> sds_ok s' \<and> sds_str s' = sds_str s @ t"
proof -
  obtain n where n: "strlen fmt 0 = Inr n" using scan_total [of "\<lambda>c. c = 0" fmt] assms(3) by (auto simp: strlen_def)
  define k where "k = (if n * 2 > 1024 then n * 2 else 1024)"
  have "2 \<le> k" by (simp add: k_def)
  then obtain u where "vprintf_loop junk t k = Inr (t @ 0 # u)" using vprintf_loop_ok assms(2) by blast
  then have "sdscatvprintf junk s fmt t = sdscatlen junk s t"
    using n strlen_text [OF assms(2), of u] unfolding sdscatvprintf_def Let_def n cbind_Inr k_def [symmetric]
    by (simp add: sdscat_def)
  then show ?thesis using sdscatlen_ok [OF assms(1,4)] by simp
qed

section \<open>Correctness of the formats\<close>

text \<open>What a format denotes; \<open>None\<close> for an argument that does not fit and for a format that ends in a percent sign.\<close>

fun spec_text :: "byte \<Rightarrow> fmt_arg list \<Rightarrow> (byte list \<times> fmt_arg list) option" where
  "spec_text c (ArgStr t # ap) = (if c = 115 \<and> 0 \<in> set t then Some (takeWhile (\<lambda>c. c \<noteq> 0) t, ap) else None)"
| "spec_text c (ArgSds t # ap) = (if c = 83 \<and> sds_ok t then Some (sds_str t, ap) else None)"
| "spec_text c (ArgInt v # ap) = (if c = 105 \<and> - (2 ^ 31) \<le> v \<and> v < 2 ^ 31 then Some (sdec v, ap) else None)"
| "spec_text c (ArgLL v # ap) = (if c = 73 \<and> LLONG_MIN < v \<and> v \<le> LLONG_MAX then Some (sdec v, ap) else None)"
| "spec_text c (ArgUInt v # ap) = (if c = 117 \<and> v < 2 ^ 32 then Some (dec v, ap) else None)"
| "spec_text c (ArgULL v # ap) = (if c = 85 \<and> v < 2 ^ 64 then Some (dec v, ap) else None)"
| "spec_text c [] = None"

fun fmt_text :: "byte list \<Rightarrow> fmt_arg list \<Rightarrow> byte list option" where
  "fmt_text [] ap = Some []"
| "fmt_text [c] ap = (if c = 0 \<or> c = 37 then None else Some [c])"
| "fmt_text (c # c' # f) ap =
     (if c = 0 then None
      else if c = 37 then
        if c' = 0 then None
        else if c' \<in> {115, 83, 105, 73, 117, 85}
        then (case spec_text c' ap of None \<Rightarrow> None | Some (t, ap) \<Rightarrow> map_option (append t) (fmt_text f ap))
        else map_option (Cons c') (fmt_text f ap)
      else map_option (Cons c) (fmt_text (c' # f) ap))"

lemma inclen_ok:
  assumes h: "sds_hdr s" and f: "fits s (sdslen s + k)" and b: "length b = length (sds_buf s)"
  shows "sds_hdr (sdsinclen (s\<lparr>sds_buf := b\<rparr>) k)" "sds_str (sdsinclen (s\<lparr>sds_buf := b\<rparr>) k) = take (sdslen s + k) b"
    "sdslen (sdsinclen (s\<lparr>sds_buf := b\<rparr>) k) = sdslen s + k"
  using assms by (auto simp: sds_hdr_def fits_def sdslen_def sdsinclen_def sds_str_def)

lemma poke_inclen_ok:
  assumes h: "sds_hdr s" and f: "fits s (sdslen s + length bs)"
  shows "\<exists>s'. cbind (poke s (sdslen s) bs) (\<lambda>s. Inr (sdsinclen s (length bs), i)) = Inr (s', i) \<and> sds_hdr s' \<and>
    sds_str s' = sds_str s @ bs \<and> sdslen s' = sdslen s + length bs"
proof -
  let ?b = "store_at (sds_buf s) (sdslen s) bs"
  have fit: "sdslen s + length bs \<le> length (sds_buf s)" using f by (simp add: fits_def)
  then have p: "poke s (sdslen s) bs = Inr (s\<lparr>sds_buf := ?b\<rparr>)" by (rule poke_ok)
  have t: "take (sdslen s + length bs) ?b = sds_str s @ bs"
    using take_store_at [OF fit] by (simp add: sds_str_def sdslen_def)
  show ?thesis using inclen_ok [OF h f, of ?b] fit t by (simp add: p)
qed

lemma avail_fits: "sds_hdr s \<Longrightarrow> k \<le> sdsavail s \<Longrightarrow> fits s (sdslen s + k)"
  by (auto simp: sdsavail_hdr fits_def sds_hdr_def sdslen_def split: if_splits)

lemma put_block_ok:
  assumes h: "sds_hdr s" and small: "sdslen s + length bs < 2 ^ 62"
  shows "\<exists>s'. put_block junk s (sdslen s) bs = Inr (s', sdslen s') \<and> sds_hdr s' \<and> sds_str s' = sds_str s @ bs"
proof -
  obtain s1 where s1: "(if sdsavail s < length bs then sdsMakeRoomFor junk s (length bs) else Inr s) = Inr s1" "sds_hdr s1"
      "sds_str s1 = sds_str s" "sdslen s1 = sdslen s" "fits s1 (sdslen s1 + length bs)"
    using sdsMakeRoomFor_hdr [OF h small, of junk] avail_fits [OF h] h by (cases "sdsavail s < length bs") auto
  show ?thesis
    using poke_inclen_ok [OF s1(2,5), of "sdslen s1 + length bs"] s1(1,3,4) unfolding put_block_def Let_def s1(1)
    by auto
qed

lemma put_byte_ok:
  assumes "sds_hdr s" and "fits s (sdslen s + 1)"
  shows "\<exists>s'. put_byte s (sdslen s) c = Inr (s', sdslen s') \<and> sds_hdr s' \<and> sds_str s' = sds_str s @ [c]"
  using poke_inclen_ok [OF assms(1), of "[c]" "sdslen s + 1"] assms(2) unfolding put_byte_def by auto

lemma room_for_one:
  assumes "sds_hdr s" and "sdslen s + 1 < 2 ^ 62"
  shows "\<exists>s1. (if sdsavail s = 0 then sdsMakeRoomFor junk s 1 else Inr s) = Inr s1 \<and> sds_hdr s1 \<and> sds_str s1 = sds_str s \<and>
    sdslen s1 = sdslen s \<and> fits s1 (sdslen s1 + 1)"
  using sdsMakeRoomFor_hdr [OF assms, of junk] avail_fits [OF assms(1), of 1] assms(1) by (cases "sdsavail s = 0") auto

lemma strlen_takeWhile:
  "0 \<in> set t \<Longrightarrow> strlen t 0 = Inr (length (takeWhile (\<lambda>c. c \<noteq> 0) t))" "take (length (takeWhile P t)) t = takeWhile P t"
proof -
  assume z: "0 \<in> set t"
  let ?a = "takeWhile (\<lambda>c. c \<noteq> 0) t" and ?b = "dropWhile (\<lambda>c. c \<noteq> 0) t"
  have "?b \<noteq> []" using z by auto
  then have "?b = 0 # tl ?b" using hd_dropWhile [of "\<lambda>c. c \<noteq> 0" t] by (cases ?b) auto
  then have t: "t = ?a @ 0 # tl ?b" using takeWhile_dropWhile_id [of "\<lambda>c. c \<noteq> 0" t] by simp
  have "0 \<notin> set ?a" by (auto dest: set_takeWhileD)
  then have "strlen (?a @ 0 # tl ?b) 0 = Inr (length ?a)" by (rule strlen_text)
  then show "strlen t 0 = Inr (length ?a)" using t by simp
next
  show "take (length (takeWhile P t)) t = takeWhile P t" by (rule takeWhile_eq_take [symmetric])
qed

lemma put_spec_ok:
  assumes h: "sds_hdr s" and t: "spec_text c ap = Some (t, ap')" and small: "sdslen s + length t < 2 ^ 62"
  shows "\<exists>s'. put_spec junk c ap s (sdslen s) = Inr (ap', s', sdslen s') \<and> sds_hdr s' \<and> sds_str s' = sds_str s @ t"
proof -
  obtain s' where s': "put_block junk s (sdslen s) t = Inr (s', sdslen s')" "sds_hdr s'" "sds_str s' = sds_str s @ t"
    using put_block_ok [OF h small] by blast
  have num: "sdsll2str (map junk [0..<SDS_LLSTR_SIZE]) v = Inr (length (sdec v), sdec v @ 0 # drop (Suc (length (sdec v))) (map junk [0..<SDS_LLSTR_SIZE]))"
    if "LLONG_MIN < v" "v \<le> LLONG_MAX" for v using that by (intro sdsll2str_ok) simp_all
  have unum: "sdsull2str (map junk [0..<SDS_LLSTR_SIZE]) v = Inr (length (dec v), dec v @ 0 # drop (Suc (length (dec v))) (map junk [0..<SDS_LLSTR_SIZE]))"
    if "v < 2 ^ 64" for v using that by (intro sdsull2str_ok) simp_all
  have "put_spec junk c ap s (sdslen s) = Inr (ap', s', sdslen s')"
  proof (cases ap)
    case Nil
    then show ?thesis using t by simp
  next
    case (Cons a ap1)
    then show ?thesis
    proof (cases a)
      case (ArgStr x)
      then have x: "c = 115" "0 \<in> set x" "t = takeWhile (\<lambda>c. c \<noteq> 0) x" "ap' = ap1" using t Cons by (auto split: if_splits)
      then have "strlen x 0 = Inr (length t)" "take (length t) x = t" by (simp_all only: strlen_takeWhile)
      then show ?thesis using s'(1) Cons ArgStr x(1,4) by (simp add: put_spec_def)
    next
      case (ArgSds x)
      then have "peek x 0 (sdslen x) = Inr (sds_str x)" "c = 83" "t = sds_str x" "ap' = ap1"
        using t Cons by (auto simp: peek_def sds_str_def sdslen_def sds_ok_def split: if_splits)
      then show ?thesis using s'(1) Cons ArgSds by (simp add: put_spec_def)
    next
      case (ArgInt v)
      then show ?thesis using t s'(1) Cons num [of v] by (simp add: put_spec_def LLONG_MIN_def LLONG_MAX_def split: if_splits)
    next
      case (ArgLL v)
      then show ?thesis using t s'(1) Cons num [of v] by (simp add: put_spec_def split: if_splits)
    next
      case (ArgUInt v)
      then show ?thesis using t s'(1) Cons unum [of v] by (simp add: put_spec_def split: if_splits)
    next
      case (ArgULL v)
      then show ?thesis using t s'(1) Cons unum [of v] by (simp add: put_spec_def split: if_splits)
    qed
  qed
  with s' show ?thesis by simp
qed

text \<open>A byte that is not part of a specification is appended.\<close>

lemma put_plain: "c \<notin> {115, 83, 105, 73, 117, 85} \<Longrightarrow> put_spec junk c ap s i = cbind (put_byte s i c) (\<lambda>(s, i). Inr (ap, s, i))"
  by (simp add: put_spec_def)

lemma catfmt_loop_ok:
  assumes "sds_hdr s" and "fmt_text f ap = Some t" and "sdslen s + length t + 1 < 2 ^ 62"
  shows "\<exists>s'. catfmt_loop junk (f @ [0]) ap s (sdslen s) = Inr (s', sdslen s') \<and> sds_hdr s' \<and> sds_str s' = sds_str s @ t"
  using assms
proof (induction f ap arbitrary: s t rule: fmt_text.induct)
  case (1 ap)
  then show ?case by simp
next
  case (2 c ap)
  then obtain s1 where s1: "(if sdsavail s = 0 then sdsMakeRoomFor junk s 1 else Inr s) = Inr s1" "sds_hdr s1" "sds_str s1 = sds_str s"
      "sdslen s1 = sdslen s" "fits s1 (sdslen s1 + 1)"
    using room_for_one [of s junk] by (auto split: if_splits)
  show ?case using put_byte_ok [OF s1(2,5), of c] s1 2(2) by (auto split: if_splits)
next
  case (3 c c' f ap)
  have c0: "c \<noteq> 0" using 3(5) by auto
  obtain s1 where s1: "(if sdsavail s = 0 then sdsMakeRoomFor junk s 1 else Inr s) = Inr s1" "sds_hdr s1" "sds_str s1 = sds_str s"
      "sdslen s1 = sdslen s" "fits s1 (sdslen s1 + 1)"
    using room_for_one [OF 3(4), of junk] 3(6) by auto
  have step: "catfmt_loop junk ((c # c' # f) @ [0]) ap s (sdslen s) =
      (if c = 37 then cbind (put_spec junk c' ap s1 (sdslen s1)) (\<lambda>(ap, s, i). catfmt_loop junk (f @ [0]) ap s i)
       else cbind (put_byte s1 (sdslen s1) c) (\<lambda>(s, i). catfmt_loop junk ((c' # f) @ [0]) ap s i))"
    using c0 s1(1,4) by simp
  let ?set = "{115, 83, 105, 73, 117, 85} :: byte set"
  consider "c \<noteq> 37" | "c = 37" "c' \<notin> ?set" | "c = 37" "c' \<in> ?set" by blast
  then show ?case
  proof cases
    case c: 1
    then obtain t1 where t: "fmt_text (c' # f) ap = Some t1" "t = c # t1" using 3(5) c0 by auto
    obtain s2 where s2: "put_byte s1 (sdslen s1) c = Inr (s2, sdslen s2)" "sds_hdr s2" "sds_str s2 = sds_str s1 @ [c]"
      using put_byte_ok [OF s1(2,5)] by blast
    have "sdslen s2 = sdslen s + 1" using length_hdr_str s1(2,3,4) s2(2,3) by (metis length_append_singleton Suc_eq_plus1)
    then show ?thesis
      using 3(3) [OF c0 c s2(2) t(1)] 3(6) t(2) s2 s1(3) c unfolding step by auto
  next
    case c: 2
    then obtain t1 where t: "fmt_text f ap = Some t1" "t = c' # t1" "c' \<noteq> 0" using 3(5) by (auto split: if_splits)
    obtain s2 where s2: "put_byte s1 (sdslen s1) c' = Inr (s2, sdslen s2)" "sds_hdr s2" "sds_str s2 = sds_str s1 @ [c']"
      using put_byte_ok [OF s1(2,5)] by blast
    have "sdslen s2 = sdslen s + 1" using length_hdr_str s1(2,3,4) s2(2,3) by (metis length_append_singleton Suc_eq_plus1)
    then show ?thesis
      using 3(2) [OF c0 c(1) t(3) c(2) s2(2) t(1)] 3(6) t(2) s2 s1(3) c(1) unfolding step put_plain [OF c(2)] by auto
  next
    case c: 3
    then obtain t1 ap1 t2 where t: "spec_text c' ap = Some (t1, ap1)" "fmt_text f ap1 = Some t2" "t = t1 @ t2" "c' \<noteq> 0"
      using 3(5) by (auto split: if_splits option.splits)
    have "sdslen s1 + length t1 < 2 ^ 62" using 3(6) t(3) s1(4) by simp
    then obtain s2 where s2: "put_spec junk c' ap s1 (sdslen s1) = Inr (ap1, s2, sdslen s2)" "sds_hdr s2" "sds_str s2 = sds_str s1 @ t1"
      using put_spec_ok [OF s1(2) t(1)] by blast
    have "sdslen s2 = sdslen s + length t1" using length_hdr_str s1(2,3,4) s2(2,3) by (metis length_append)
    then show ?thesis
      using 3(1) [OF c0 c(1) t(4) c(2) t(1) refl s2(2) t(2)] 3(6) t(3) s2 s1(3) c(1) unfolding step by auto
  qed
qed

lemma terminate_ok:
  assumes "sds_hdr s"
  shows "\<exists>s'. poke s (sdslen s) [0] = Inr s' \<and> sds_ok s' \<and> sds_str s' = sds_str s"
proof -
  have n: "len_field s < length (sds_buf s)" using assms by (simp add: sds_hdr_def)
  then show ?thesis
    using assms store_0_end [OF n] by (simp add: poke_ok sdslen_def sds_ok_iff sds_hdr_def sds_str_def)
qed

section \<open>Properties\<close>

text \<open>C39: \<open>sdscatfmt\<close> appends exactly the text that the format denotes: strings, integers of four types and
  plain bytes, in the order of the format, for every format that does not end in a percent sign
  and whose arguments have the types it names (a \<open>long long\<close> other than the least). The string grows as needed,
  nothing outside a buffer is touched (21 bytes are enough for every integer), and the terminator
  is restored at the end.\<close>

theorem sdscatfmt_correct:
  assumes "sds_ok s" and "fmt_text f ap = Some t" and "sdslen s + length t + 1 < 2 ^ 62"
  shows "\<exists>s'. sdscatfmt junk s (f @ [0]) ap = Inr s' \<and> sds_ok s' \<and> sds_str s' = sds_str s @ t"
proof -
  obtain s1 where s1: "catfmt_loop junk (f @ [0]) ap s (sdslen s) = Inr (s1, sdslen s1)" "sds_hdr s1" "sds_str s1 = sds_str s @ t"
    using catfmt_loop_ok [OF _ assms(2,3)] assms(1) by (auto simp: sds_ok_iff)
  then show ?thesis using terminate_ok [OF s1(2)] by (simp add: sdscatfmt_def)
qed

theorem sdscatfmt_correct_witness:
  "\<exists>s s'. sdsnewlen (\<lambda>n. 7) (Some [62]) 1 = Inr s \<and>
     sdscatfmt (\<lambda>n. 7) s (bytes ''%s=%i%%'' @ [0]) [ArgStr (bytes ''ab'' @ [0]), ArgInt (-12)] = Inr s' \<and>
     sds_str s' = bytes ''>ab=-12%''"
proof -
  obtain s where s: "sdsnewlen (\<lambda>n. 7) (Some [62]) 1 = Inr s" "sds_ok s" "sds_str s = [62]"
    using sdsnewlen_ok [of "[62]" "\<lambda>n. 7"] by auto
  have len: "sdslen s = 1" using length_sds_str [OF s(2)] s(3) by simp
  have "sdec (-12) = [45, 49, 50]" by (simp add: sdec_def dec_small dec_step)
  then obtain s' where "sdscatfmt (\<lambda>n. 7) s (bytes ''%s=%i%%'' @ [0]) [ArgStr (bytes ''ab'' @ [0]), ArgInt (-12)] = Inr s'"
      "sds_str s' = sds_str s @ bytes ''ab=-12%''"
    using sdscatfmt_correct [OF s(2), of "bytes ''%s=%i%%''" "[ArgStr (bytes ''ab'' @ [0]), ArgInt (-12)]" "bytes ''ab=-12%''" "\<lambda>n. 7"] len
    by (auto simp: bytes_def)
  then show ?thesis using s(1,3) by (intro exI [of _ s] exI [of _ s']) (simp add: bytes_def)
qed

text \<open>A \<open>long long\<close> other than the least becomes the string of its decimal numeral, which \<open>string2ll\<close> reads
  back; the least one overflows in the negation.\<close>

theorem sdsfromlonglong_roundtrip:
  assumes "LLONG_MIN \<le> v" and "v \<le> LLONG_MAX"
  shows "if v = LLONG_MIN then sdsfromlonglong junk v = Inl SignedOverflow
    else \<exists>s. sdsfromlonglong junk v = Inr s \<and> sds_ok s \<and> string2ll (sds_str s) = Some v"
proof (cases "v = LLONG_MIN")
  case True
  then show ?thesis by (simp add: sdsfromlonglong_def sdsll2str_def LLONG_MIN_def)
next
  case False
  let ?u = "0 # drop (Suc (length (sdec v))) (map junk [0..<SDS_LLSTR_SIZE])"
  have "sdsll2str (map junk [0..<SDS_LLSTR_SIZE]) v = Inr (length (sdec v), sdec v @ ?u)"
    using assms False by (intro sdsll2str_ok) simp_all
  moreover have "sdsnewlen junk (Some (sdec v @ ?u)) (length (sdec v)) = sdsnewlen junk (Some (sdec v)) (length (sdec v))"
    by (simp add: sdsnewlen_def Let_def)
  moreover have "length (dec (nat \<bar>v\<bar>)) \<le> 20" using assms by (intro length_dec_20) (simp add: LLONG_MIN_def LLONG_MAX_def)
  then have "length (sdec v) < 2 ^ 62" unfolding sdec_abs by (cases "v < 0") simp_all
  ultimately show ?thesis
    using False sdsnewlen_ok [of "sdec v" junk] string2ll_iff [of "sdec v" v] assms
    by (auto simp: sdsfromlonglong_def ll_range_def)
qed

theorem sdsfromlonglong_roundtrip_witness:
  "(\<exists>s. sdsfromlonglong (\<lambda>n. 7) (-90) = Inr s \<and> sds_ok s \<and> string2ll (sds_str s) = Some (-90))"
  using sdsfromlonglong_roundtrip [of "-90" "\<lambda>n. 7"] by (simp add: LLONG_MIN_def LLONG_MAX_def)

end
