(* ===== verification/SdsArgs.thy ===== *)
theory SdsArgs
  imports SdsFmt
begin

text \<open>
  Splitting, joining and quoting (\<open>sds.c\<close>): \<open>sdssplitlen\<close>, \<open>sdsjoin\<close>, \<open>sdsjoinsds\<close>, \<open>sdscatrepr\<close> and
  \<open>sdssplitargs\<close>, over the strings of the previous theories. An array of strings is a list with a
  capacity, against which every store is checked.
\<close>

section \<open>Splitting and joining\<close>

definition put_token :: "nat \<Rightarrow> sds list \<Rightarrow> sds \<Rightarrow> sds list cres" where
  "put_token slots tokens t = (if length tokens < slots then Inr (tokens @ [t]) else Inl OutOfBounds)"

definition sep_at :: "byte list \<Rightarrow> byte list \<Rightarrow> nat \<Rightarrow> bool" where
  "sep_at s sep j \<longleftrightarrow> (length sep = 1 \<and> s ! j = sep ! 0) \<or> take (length sep) (drop j s) = sep"

function split_loop :: "(nat \<Rightarrow> byte) \<Rightarrow> byte list \<Rightarrow> byte list \<Rightarrow> nat \<Rightarrow> nat \<Rightarrow> nat \<Rightarrow> sds list \<Rightarrow> sds list cres" where
  "split_loop junk s sep j start slots tokens =
     (if sep \<noteq> [] \<and> j + length sep \<le> length s then
        let slots = (if slots < length tokens + 2 then slots * 2 else slots) in
        if sep_at s sep j then
          cbind (sdsnewlen junk (Some (drop start s)) (j - start)) (\<lambda>t.
          cbind (put_token slots tokens t) (\<lambda>tokens.
          split_loop junk s sep (j + length sep - 1 + 1) (j + length sep) slots tokens))
        else split_loop junk s sep (j + 1) start slots tokens
      else
        cbind (sdsnewlen junk (Some (drop start s)) (length s - start)) (\<lambda>t.
        put_token slots tokens t))"
  by pat_completeness auto
termination by (relation "measure (\<lambda>(junk, s, sep, j, start, slots, tokens). length s + 1 - j)") (auto intro!: diff_less_mono2)

declare split_loop.simps [simp del]

text \<open>\<open>None\<close> stands for the null pointer.\<close>

definition sdssplitlen :: "(nat \<Rightarrow> byte) \<Rightarrow> byte list \<Rightarrow> byte list \<Rightarrow> sds list option cres" where
  "sdssplitlen junk s sep =
     (if length sep < 1 then Inr None
      else if length s = 0 then Inr (Some [])
      else cbind (split_loop junk s sep 0 0 5 []) (\<lambda>tokens. Inr (Some tokens)))"

fun join_loop :: "(nat \<Rightarrow> byte) \<Rightarrow> byte list list \<Rightarrow> byte list \<Rightarrow> sds \<Rightarrow> sds cres" where
  "join_loop junk [] sep join = Inr join"
| "join_loop junk (a # argv) sep join =
     cbind (sdscat junk join a) (\<lambda>join.
     cbind (if argv \<noteq> [] then sdscat junk join sep else Inr join) (\<lambda>join.
     join_loop junk argv sep join))"

definition sdsjoin :: "(nat \<Rightarrow> byte) \<Rightarrow> byte list list \<Rightarrow> byte list \<Rightarrow> sds cres" where
  "sdsjoin junk argv sep = cbind (sdsempty junk) (join_loop junk argv sep)"

fun joinsds_loop :: "(nat \<Rightarrow> byte) \<Rightarrow> sds list \<Rightarrow> byte list \<Rightarrow> sds \<Rightarrow> sds cres" where
  "joinsds_loop junk [] sep join = Inr join"
| "joinsds_loop junk (a # argv) sep join =
     cbind (sdscatsds junk join a) (\<lambda>join.
     cbind (if argv \<noteq> [] then sdscatlen junk join sep else Inr join) (\<lambda>join.
     joinsds_loop junk argv sep join))"

definition sdsjoinsds :: "(nat \<Rightarrow> byte) \<Rightarrow> sds list \<Rightarrow> byte list \<Rightarrow> sds cres" where
  "sdsjoinsds junk argv sep = cbind (sdsempty junk) (joinsds_loop junk argv sep)"

section \<open>Quoting\<close>

definition isprint :: "byte \<Rightarrow> bool" where
  "isprint c \<longleftrightarrow> 32 \<le> c \<and> c \<le> 126"

text \<open>The hexadecimal digit that \<open>printf\<close> writes.\<close>

definition hex_char :: "nat \<Rightarrow> byte" where
  "hex_char n = word_of_nat (if n < 10 then 48 + n else 87 + n)"

definition repr_byte :: "(nat \<Rightarrow> byte) \<Rightarrow> sds \<Rightarrow> byte \<Rightarrow> sds cres" where
  "repr_byte junk s c =
     (if c = 92 \<or> c = 34 then sdscatvprintf junk s [92, 37, 99, 0] [92, c]
      else if c = 10 then sdscatlen junk s [92, 110]
      else if c = 13 then sdscatlen junk s [92, 114]
      else if c = 9 then sdscatlen junk s [92, 116]
      else if c = 7 then sdscatlen junk s [92, 97]
      else if c = 8 then sdscatlen junk s [92, 98]
      else if isprint c then sdscatvprintf junk s [37, 99, 0] [c]
      else sdscatvprintf junk s [92, 120, 37, 48, 50, 120, 0] [92, 120, hex_char (unat c div 16), hex_char (unat c mod 16)])"

fun repr_loop :: "(nat \<Rightarrow> byte) \<Rightarrow> byte list \<Rightarrow> sds \<Rightarrow> sds cres" where
  "repr_loop junk [] s = Inr s"
| "repr_loop junk (c # p) s = cbind (repr_byte junk s c) (repr_loop junk p)"

definition sdscatrepr :: "(nat \<Rightarrow> byte) \<Rightarrow> sds \<Rightarrow> byte list \<Rightarrow> sds cres" where
  "sdscatrepr junk s p =
     cbind (sdscatlen junk s [34]) (\<lambda>s. cbind (repr_loop junk p s) (\<lambda>s. sdscatlen junk s [34]))"

definition is_hex_digit :: "byte \<Rightarrow> bool" where
  "is_hex_digit c \<longleftrightarrow> (48 \<le> c \<and> c \<le> 57) \<or> (97 \<le> c \<and> c \<le> 102) \<or> (65 \<le> c \<and> c \<le> 70)"

definition hex_digit_to_int :: "byte \<Rightarrow> nat" where
  "hex_digit_to_int c =
     (if 48 \<le> c \<and> c \<le> 57 then unat c - 48
      else if 97 \<le> c \<and> c \<le> 102 then unat c - 87
      else if 65 \<le> c \<and> c \<le> 70 then unat c - 55
      else 0)"

section \<open>Parsing a line\<close>

text \<open>
  One round of the token loop, up to the common increment of \<open>p\<close>: \<open>None\<close> for \<open>goto err\<close>, else the
  position, the flags and the token.
\<close>

record tok =
  tk_p :: nat
  tk_inq :: bool
  tk_insq :: bool
  tk_done :: bool
  tk_cur :: sds

definition at :: "byte list \<Rightarrow> nat \<Rightarrow> byte \<Rightarrow> bool cres" where
  "at line p c = cbind (rd line p) (\<lambda>d. Inr (d = c))"

definition hex_at :: "byte list \<Rightarrow> nat \<Rightarrow> bool cres" where
  "hex_at line p = cbind (rd line p) (\<lambda>c. Inr (is_hex_digit c))"

text \<open>The closing quote must be followed by a space or nothing at all.\<close>

definition close_quote :: "byte list \<Rightarrow> tok \<Rightarrow> tok option cres" where
  "close_quote line t =
     cbind (rd line (tk_p t + 1)) (\<lambda>c. Inr (if c \<noteq> 0 \<and> \<not> isspace c then None else Some (t\<lparr>tk_done := True\<rparr>)))"

definition cat_byte :: "(nat \<Rightarrow> byte) \<Rightarrow> tok \<Rightarrow> byte \<Rightarrow> tok option cres" where
  "cat_byte junk t c = cbind (sdscatlen junk (tk_cur t) [c]) (\<lambda>cur. Inr (Some (t\<lparr>tk_cur := cur\<rparr>)))"

definition unescape :: "byte \<Rightarrow> byte" where
  "unescape c = (if c = 110 then 10 else if c = 114 then 13 else if c = 116 then 9 else if c = 98 then 8
     else if c = 97 then 7 else c)"

definition in_quotes :: "(nat \<Rightarrow> byte) \<Rightarrow> byte list \<Rightarrow> tok \<Rightarrow> tok option cres" where
  "in_quotes junk line t =
     (let p = tk_p t in
      cbind (and_then (at line p 92) (and_then (at line (p + 1) 120) (and_then (hex_at line (p + 2)) (hex_at line (p + 3))))) (\<lambda>hex.
      if hex then
        cbind (rd line (p + 2)) (\<lambda>a. cbind (rd line (p + 3)) (\<lambda>b.
        cat_byte junk (t\<lparr>tk_p := p + 3\<rparr>) (word_of_nat (hex_digit_to_int a * 16 + hex_digit_to_int b))))
      else cbind (and_then (at line p 92) (cbind (rd line (p + 1)) (\<lambda>c. Inr (c \<noteq> 0)))) (\<lambda>esc.
      if esc then cbind (rd line (p + 1)) (\<lambda>c. cat_byte junk (t\<lparr>tk_p := p + 1\<rparr>) (unescape c))
      else cbind (rd line p) (\<lambda>c.
      if c = 34 then close_quote line t
      else if c = 0 then Inr None
      else cat_byte junk t c))))"

definition in_squotes :: "(nat \<Rightarrow> byte) \<Rightarrow> byte list \<Rightarrow> tok \<Rightarrow> tok option cres" where
  "in_squotes junk line t =
     (let p = tk_p t in
      cbind (and_then (at line p 92) (at line (p + 1) 39)) (\<lambda>esc.
      if esc then cat_byte junk (t\<lparr>tk_p := p + 1\<rparr>) 39
      else cbind (rd line p) (\<lambda>c.
      if c = 39 then close_quote line t
      else if c = 0 then Inr None
      else cat_byte junk t c)))"

definition unquoted :: "(nat \<Rightarrow> byte) \<Rightarrow> byte list \<Rightarrow> tok \<Rightarrow> tok option cres" where
  "unquoted junk line t =
     cbind (rd line (tk_p t)) (\<lambda>c.
     if c = 32 \<or> c = 10 \<or> c = 13 \<or> c = 9 \<or> c = 0 then Inr (Some (t\<lparr>tk_done := True\<rparr>))
     else if c = 34 then Inr (Some (t\<lparr>tk_inq := True\<rparr>))
     else if c = 39 then Inr (Some (t\<lparr>tk_insq := True\<rparr>))
     else cat_byte junk t c)"

definition tok_step :: "(nat \<Rightarrow> byte) \<Rightarrow> byte list \<Rightarrow> tok \<Rightarrow> tok option cres" where
  "tok_step junk line t =
     cbind (if tk_inq t then in_quotes junk line t
            else if tk_insq t then in_squotes junk line t
            else unquoted junk line t) (\<lambda>r.
     case r of
       None \<Rightarrow> Inr None
     | Some t \<Rightarrow> cbind (rd line (tk_p t)) (\<lambda>c. Inr (Some (if c \<noteq> 0 then t\<lparr>tk_p := tk_p t + 1\<rparr> else t))))"

lemma is_hex_digit_nonzero: "is_hex_digit c \<Longrightarrow> c \<noteq> 0"
  by (auto simp: is_hex_digit_def)

lemma at_True: "at line p c = Inr True \<longleftrightarrow> p < length line \<and> line ! p = c"
  by (auto simp: at_def cbind_eq_Inr_iff rd_eq_Inr_iff)

lemma hex_at_True: "hex_at line p = Inr True \<longleftrightarrow> p < length line \<and> is_hex_digit (line ! p)"
  by (auto simp: hex_at_def cbind_eq_Inr_iff rd_eq_Inr_iff)

text \<open>A round ends at a byte of the line, not before the one where it started; the byte is a zero only if the token is done there.\<close>

definition tok_next :: "byte list \<Rightarrow> tok \<Rightarrow> tok \<Rightarrow> bool" where
  "tok_next line t u \<longleftrightarrow> tk_p t \<le> tk_p u \<and> tk_p u < length line \<and>
     (\<not> tk_done u \<or> line ! tk_p t \<noteq> 0 \<longrightarrow> line ! tk_p u \<noteq> 0)"

lemma cat_byte_next:
  "cat_byte junk t' c = Inr (Some u) \<Longrightarrow> tk_p t \<le> tk_p t' \<Longrightarrow> tk_p t' < length line \<Longrightarrow> line ! tk_p t' \<noteq> 0 \<Longrightarrow> tok_next line t u"
  by (auto simp: cat_byte_def tok_next_def cbind_eq_Inr_iff)

lemma close_quote_next:
  "close_quote line t = Inr (Some u) \<Longrightarrow> tok_next line t u"
  by (auto simp: close_quote_def tok_next_def cbind_eq_Inr_iff rd_eq_Inr_iff split: if_splits)

lemma in_quotes_next: "in_quotes junk line t = Inr (Some u) \<Longrightarrow> tok_next line t u"
  unfolding in_quotes_def Let_def cbind_eq_Inr_iff
  by (auto simp: and_then_True at_True hex_at_True cbind_eq_Inr_iff rd_eq_Inr_iff is_hex_digit_nonzero
      split: if_splits elim!: cat_byte_next close_quote_next)

lemma in_squotes_next: "in_squotes junk line t = Inr (Some u) \<Longrightarrow> tok_next line t u"
  unfolding in_squotes_def Let_def cbind_eq_Inr_iff
  by (auto simp: and_then_True at_True cbind_eq_Inr_iff rd_eq_Inr_iff split: if_splits elim!: cat_byte_next close_quote_next)

lemma unquoted_next: "unquoted junk line t = Inr (Some u) \<Longrightarrow> tok_next line t u"
  unfolding unquoted_def cbind_eq_Inr_iff
  by (auto simp: rd_eq_Inr_iff tok_next_def cat_byte_def cbind_eq_Inr_iff split: if_splits)

lemma tok_step_next:
  assumes "tok_step junk line t = Inr (Some u)"
  shows "tk_p t < length line \<and> tk_p t \<le> tk_p u \<and> tk_p u \<le> length line \<and> (\<not> tk_done u \<or> line ! tk_p t \<noteq> 0 \<longrightarrow> tk_p t < tk_p u)"
proof -
  obtain v where v: "(if tk_inq t then in_quotes junk line t else if tk_insq t then in_squotes junk line t else unquoted junk line t) = Inr (Some v)"
      and u: "cbind (rd line (tk_p v)) (\<lambda>c. Inr (Some (if c \<noteq> 0 then v\<lparr>tk_p := tk_p v + 1\<rparr> else v))) = Inr (Some u)"
    using assms unfolding tok_step_def by (auto simp: cbind_eq_Inr_iff split: option.splits)
  have "tok_next line t v"
    using v in_quotes_next in_squotes_next unquoted_next by (auto split: if_splits)
  then show ?thesis using u by (auto simp: tok_next_def cbind_eq_Inr_iff rd_eq_Inr_iff split: if_splits)
qed

function token_loop :: "(nat \<Rightarrow> byte) \<Rightarrow> byte list \<Rightarrow> tok \<Rightarrow> tok option cres" where
  "token_loop junk line t =
     (if tk_done t then Inr (Some t)
      else cbind (tok_step junk line t) (\<lambda>r.
        case r of None \<Rightarrow> Inr None | Some t \<Rightarrow> token_loop junk line t))"
  by pat_completeness auto
termination
proof (relation "measure (\<lambda>(junk, line, t). if tk_done t then 0 else Suc (length line - tk_p t))", simp)
  fix junk line t r u
  assume "\<not> tk_done t" and "tok_step junk line t = Inr r" and "r = Some u"
  then show "((junk, line, u), (junk, line, t)) \<in> measure (\<lambda>(junk, line, t). if tk_done t then 0 else Suc (length line - tk_p t))"
    using tok_step_next [of junk line t u] by auto
qed

declare token_loop.simps [simp del]

lemma token_loop_next:
  "token_loop junk line t = Inr (Some u) \<Longrightarrow> \<not> tk_done t \<Longrightarrow>
    tk_p t < length line \<and> tk_p t \<le> tk_p u \<and> tk_p u \<le> length line \<and> (line ! tk_p t \<noteq> 0 \<longrightarrow> tk_p t < tk_p u)"
proof (induction junk line t rule: token_loop.induct)
  case (1 junk line t)
  obtain v where v: "tok_step junk line t = Inr (Some v)" "token_loop junk line v = Inr (Some u)"
    using 1(2,3) by (subst (asm) token_loop.simps) (auto simp: cbind_eq_Inr_iff split: option.splits)
  note s = tok_step_next [OF v(1)]
  show ?case
  proof (cases "tk_done v")
    case True
    then have "u = v" using v(2) by (subst (asm) token_loop.simps) simp
    then show ?thesis using s by simp
  next
    case False
    then show ?thesis using 1(1) [OF 1(3) v(1) refl v(2)] s by auto
  qed
qed

text \<open>The whole line: \<open>None\<close> for unbalanced quotes.\<close>

function splitargs_loop :: "(nat \<Rightarrow> byte) \<Rightarrow> byte list \<Rightarrow> nat \<Rightarrow> sds list \<Rightarrow> sds list option cres" where
  "splitargs_loop junk line p vector =
     cbind (scan_from (\<lambda>c. \<not> (c \<noteq> 0 \<and> isspace c)) line p) (\<lambda>p.
     cbind (rd line p) (\<lambda>c.
     if c \<noteq> 0 then
       cbind (sdsempty junk) (\<lambda>current.
       cbind (token_loop junk line \<lparr> tk_p = p, tk_inq = False, tk_insq = False, tk_done = False, tk_cur = current \<rparr>) (\<lambda>r.
       case r of None \<Rightarrow> Inr None | Some t \<Rightarrow> splitargs_loop junk line (tk_p t) (vector @ [tk_cur t])))
     else Inr (Some vector)))"
  by pat_completeness auto
termination
proof (relation "measure (\<lambda>(junk, line, p, vector). length line - p)", simp)
  fix junk line p vector q c current r u
  assume q: "scan_from (\<lambda>c. \<not> (c \<noteq> 0 \<and> isspace c)) line p = Inr q" and c: "rd line q = Inr c" "c \<noteq> 0"
    and t: "token_loop junk line \<lparr> tk_p = q, tk_inq = False, tk_insq = False, tk_done = False, tk_cur = current \<rparr> = Inr r" "r = Some u"
  have "p \<le> q" using q by (auto simp: scan_from_def cbind_eq_Inr_iff)
  then show "((junk, line, tk_p u, vector @ [tk_cur u]), (junk, line, p, vector)) \<in> measure (\<lambda>(junk, line, p, vector). length line - p)"
    using token_loop_next [of junk line _ u] t c by (fastforce simp: rd_eq_Inr_iff)
qed

declare splitargs_loop.simps [simp del]

definition sdssplitargs :: "(nat \<Rightarrow> byte) \<Rightarrow> byte list \<Rightarrow> sds list option cres" where
  "sdssplitargs junk line = splitargs_loop junk line 0 []"

section \<open>Splitting and joining are inverse\<close>

fun join_with :: "byte list \<Rightarrow> byte list list \<Rightarrow> byte list" where
  "join_with sep [] = []"
| "join_with sep [x] = x"
| "join_with sep (x # y # xs) = x @ sep @ join_with sep (y # xs)"

lemma join_with_Cons: "xs \<noteq> [] \<Longrightarrow> join_with sep (x # xs) = x @ sep @ join_with sep xs"
  by (cases xs) simp_all

definition occurs :: "byte list \<Rightarrow> byte list \<Rightarrow> bool" where
  "occurs sep x \<longleftrightarrow> (\<exists>a b. x = a @ sep @ b)"

lemma sep_at_iff:
  assumes "sep \<noteq> []" and "j + length sep \<le> length s"
  shows "sep_at s sep j \<longleftrightarrow> take (length sep) (drop j s) = sep"
proof -
  have "take (length sep) (drop j s) = sep" if "length sep = 1" "s ! j = sep ! 0"
  proof -
    have "sep = [sep ! 0]" using that(1) by (cases sep) simp_all
    moreover have "take 1 (drop j s) = [s ! j]" using assms that by (simp add: drop_nth_Cons)
    ultimately show ?thesis using that by metis
  qed
  then show ?thesis by (auto simp: sep_at_def)
qed

lemma not_occurs:
  assumes "sep \<noteq> []" and "a \<le> b" and "b \<le> length s"
    and no: "\<forall>k. a \<le> k \<and> k < b \<and> k + length sep \<le> length s \<longrightarrow> \<not> sep_at s sep k"
  shows "\<not> occurs sep (take (b - a) (drop a s))"
proof
  assume "occurs sep (take (b - a) (drop a s))"
  then obtain x y where xy: "take (b - a) (drop a s) = x @ sep @ y" by (auto simp: occurs_def)
  have len: "length x + length sep + length y = b - a" using arg_cong [OF xy, of length] assms(2,3) by simp
  let ?k = "a + length x"
  have k: "?k < b" "?k + length sep \<le> length s" using len assms by (simp_all add: less_diff_conv flip: length_greater_0_conv)
  have "take (length sep) (drop (length x) (take (b - a) (drop a s))) = sep" unfolding xy by simp
  then have "take (length sep) (drop ?k s) = sep" using len by (simp add: drop_take min_def add.commute split: if_splits)
  then show False using no k sep_at_iff [OF assms(1), of ?k s] by auto
qed

lemma sdsnewlen_part:
  assumes "a \<le> b" and "b \<le> length s" and "length s < 2 ^ 62"
  shows "\<exists>t. sdsnewlen junk (Some (drop a s)) (b - a) = Inr t \<and> sds_ok t \<and> sds_str t = take (b - a) (drop a s)"
proof -
  let ?t = "take (b - a) (drop a s)"
  have l: "length ?t = b - a" using assms by simp
  have "sdsnewlen junk (Some (drop a s)) (b - a) = sdsnewlen junk (Some ?t) (b - a)"
    using assms diff_le_mono [of b "length s" a] by (simp add: sdsnewlen_def Let_def)
  then show ?thesis using sdsnewlen_ok [of ?t junk] assms unfolding l by simp
qed

lemma split_loop_ok:
  assumes "sep \<noteq> []" and "start \<le> j" and "j \<le> length s" and "length tokens < slots" and "length s < 2 ^ 62"
    and "\<forall>k. start \<le> k \<and> k < j \<and> k + length sep \<le> length s \<longrightarrow> \<not> sep_at s sep k"
  shows "\<exists>ts. split_loop junk s sep j start slots tokens = Inr (tokens @ ts) \<and> ts \<noteq> [] \<and> (\<forall>t \<in> set ts. sds_ok t \<and> \<not> occurs sep (sds_str t)) \<and>
    join_with sep (map sds_str ts) = drop start s"
  using assms
proof (induction junk s sep j start slots tokens rule: split_loop.induct)
  case (1 junk s sep j start slots tokens)
  note prems = 1(3-8)
  define slots' where "slots' = (if slots < length tokens + 2 then slots * 2 else slots)"
  have slots': "length tokens + 2 \<le> slots'" if "length tokens + 1 \<le> slots" using that by (auto simp: slots'_def)
  consider "\<not> j + length sep \<le> length s" | "j + length sep \<le> length s" "sep_at s sep j" | "j + length sep \<le> length s" "\<not> sep_at s sep j" by blast
  then show ?case
  proof cases
    case e: 1
    obtain t where t: "sdsnewlen junk (Some (drop start s)) (length s - start) = Inr t" "sds_ok t" "sds_str t = take (length s - start) (drop start s)"
      using sdsnewlen_part [of start "length s" s junk] prems by auto
    have "\<not> occurs sep (take (length s - start) (drop start s))"
      by (rule not_occurs) (use prems e in \<open>auto simp: not_le\<close>)
    then show ?thesis using e t prems by (subst split_loop.simps) (simp add: put_token_def)
  next
    case m: 2
    obtain t where t: "sdsnewlen junk (Some (drop start s)) (j - start) = Inr t" "sds_ok t" "sds_str t = take (j - start) (drop start s)"
      using sdsnewlen_part [of start j s junk] prems by auto
    have no: "\<not> occurs sep (take (j - start) (drop start s))" by (rule not_occurs) (use prems in auto)
    have pt: "put_token slots' tokens t = Inr (tokens @ [t])" using slots' prems by (simp add: put_token_def)
    obtain ts where ts: "split_loop junk s sep (j + length sep - 1 + 1) (j + length sep) slots' (tokens @ [t]) = Inr ((tokens @ [t]) @ ts)"
        "ts \<noteq> []" "\<forall>t \<in> set ts. sds_ok t \<and> \<not> occurs sep (sds_str t)" "join_with sep (map sds_str ts) = drop (j + length sep) s"
      using 1(1) [OF _ slots'_def m(2) t(1) pt] prems m slots' by fastforce
    have "drop start s = take (j - start) (drop start s) @ drop j s" using prems by (metis append_take_drop_id drop_drop le_add_diff_inverse2)
    moreover have "drop j s = sep @ drop (j + length sep) s"
      using m sep_at_iff [OF prems(1) m(1)] append_take_drop_id [of "length sep" "drop j s"] by (simp add: add.commute)
    ultimately have "join_with sep (map sds_str (t # ts)) = drop start s"
      using ts(2,4) t(3) by (simp add: join_with_Cons)
    moreover have "split_loop junk s sep j start slots tokens = Inr (tokens @ t # ts)"
      using m t(1) pt ts(1) prems(1) unfolding slots'_def by (subst split_loop.simps) (auto simp: Let_def split: if_splits)
    ultimately show ?thesis using t no ts(3) by (intro exI [of _ "t # ts"]) simp
  next
    case m: 3
    have "\<exists>ts. split_loop junk s sep (j + 1) start slots' tokens = Inr (tokens @ ts) \<and> ts \<noteq> [] \<and>
        (\<forall>t \<in> set ts. sds_ok t \<and> \<not> occurs sep (sds_str t)) \<and> join_with sep (map sds_str ts) = drop start s"
    proof (rule 1(2) [OF _ slots'_def m(2)])
      show "\<forall>k. start \<le> k \<and> k < j + 1 \<and> k + length sep \<le> length s \<longrightarrow> \<not> sep_at s sep k"
        using prems(6) m(2) by (metis Suc_eq_plus1 less_antisym)
      have "0 < length sep" using prems(1) by simp
      then show "j + 1 \<le> length s" using m(1) by linarith
    qed (use prems m slots' in auto)
    then show ?thesis
      using m prems(1) unfolding slots'_def by (subst split_loop.simps) (auto simp: Let_def split: if_splits)
  qed
qed

lemma sdsempty_ok: "\<exists>s. sdsempty junk = Inr s \<and> sds_ok s \<and> sds_str s = []"
  using sdsnewlen_ok [of "[]" junk] by (simp add: sdsempty_def)

lemma sdscatsds_ok:
  assumes "sds_ok s" and "sds_ok t" and "sdslen s + sdslen t < 2 ^ 62"
  shows "\<exists>s'. sdscatsds junk s t = Inr s' \<and> sds_ok s' \<and> sds_str s' = sds_str s @ sds_str t"
proof -
  have "peek t 0 (sdslen t) = Inr (sds_str t)" using assms(2) by (simp add: peek_def sds_str_def sdslen_def sds_ok_def)
  then show ?thesis
    using sdscatlen_ok [OF assms(1), of "sds_str t" junk] assms(3) length_sds_str [OF assms(2)] by (simp add: sdscatsds_def)
qed

lemma joinsds_loop_ok:
  assumes "\<forall>t \<in> set ts. sds_ok t" and "sds_ok s" and "sdslen s + length (join_with sep (map sds_str ts)) < 2 ^ 62"
  shows "\<exists>s'. joinsds_loop junk ts sep s = Inr s' \<and> sds_ok s' \<and> sds_str s' = sds_str s @ join_with sep (map sds_str ts)"
  using assms
proof (induction ts arbitrary: s)
  case (Cons t ts)
  have small: "sdslen s + length (sds_str t) + (if ts = [] then 0 else length sep + length (join_with sep (map sds_str ts))) < 2 ^ 62"
    using Cons.prems(3) by (cases ts) (simp_all add: join_with_Cons)
  obtain s1 where s1: "sdscatsds junk s t = Inr s1" "sds_ok s1" "sds_str s1 = sds_str s @ sds_str t"
    using sdscatsds_ok [OF Cons.prems(2), of t junk] Cons.prems(1) small length_sds_str [of t] by auto
  then have l1: "sdslen s1 = sdslen s + length (sds_str t)"
    using length_sds_str [OF s1(2)] length_sds_str [OF Cons.prems(2)] by simp
  show ?case
  proof (cases "ts = []")
    case True
    then show ?thesis using s1 by simp
  next
    case False
    obtain s2 where s2: "sdscatlen junk s1 sep = Inr s2" "sds_ok s2" "sds_str s2 = sds_str s1 @ sep"
      using sdscatlen_ok [OF s1(2), of sep junk] small l1 False by auto
    have l2: "sdslen s2 = sdslen s1 + length sep"
      using length_sds_str [OF s2(2)] length_sds_str [OF s1(2)] s2(3) by simp
    show ?thesis
      using Cons.IH [OF _ s2(2)] Cons.prems(1) small l1 l2 False s1 s2 by (auto simp: join_with_Cons)
  qed
qed simp

section \<open>Quoting is undone by parsing\<close>

definition esc :: "byte \<Rightarrow> byte list" where
  "esc c =
     (if c = 92 \<or> c = 34 then [92, c] else if c = 10 then [92, 110] else if c = 13 then [92, 114]
      else if c = 9 then [92, 116] else if c = 7 then [92, 97] else if c = 8 then [92, 98]
      else if isprint c then [c] else [92, 120, hex_char (unat c div 16), hex_char (unat c mod 16)])"

definition quoted :: "byte list \<Rightarrow> byte list" where
  "quoted p = 34 # concat (map esc p) @ [34]"

lemma hex_char_digit:
  assumes "n < 16"
  shows "is_hex_digit (hex_char n)" "hex_digit_to_int (hex_char n) = n" "hex_char n \<noteq> 0"
proof -
  have "\<forall>n \<in> set [0..<16]. is_hex_digit (hex_char n) \<and> hex_digit_to_int (hex_char n) = n \<and> hex_char n \<noteq> 0"
    by (simp add: upt_conv_Cons hex_char_def is_hex_digit_def hex_digit_to_int_def)
  then show "is_hex_digit (hex_char n)" "hex_digit_to_int (hex_char n) = n" "hex_char n \<noteq> 0" using assms by simp_all
qed

lemma unat_halves: "unat (c :: byte) div 16 < 16" "unat c mod 16 < 16"
  using unat_byte_less [of c] by simp_all

lemma isprint_nonzero: "isprint c \<Longrightarrow> c \<noteq> 0"
  by (auto simp: isprint_def)

lemma repr_byte_ok:
  assumes "sds_ok s" and "sdslen s + 4 < 2 ^ 62"
  shows "\<exists>s'. repr_byte junk s c = Inr s' \<and> sds_ok s' \<and> sds_str s' = sds_str s @ esc c"
proof -
  have cat: "\<exists>s'. sdscatlen junk s t = Inr s' \<and> sds_ok s' \<and> sds_str s' = sds_str s @ t" if "length t \<le> 4" for t
    using that assms by (intro sdscatlen_ok) simp_all
  have prn: "\<exists>s'. sdscatvprintf junk s fmt t = Inr s' \<and> sds_ok s' \<and> sds_str s' = sds_str s @ t"
    if "length t \<le> 4" "0 \<notin> set t" "0 \<in> set fmt" for t fmt
    using that assms by (intro sdscatvprintf_ok) simp_all
  have "0 \<notin> set [92, c]" if "c = 92 \<or> c = 34" using that by auto
  moreover have "0 \<notin> set [92, 120, hex_char (unat c div 16), hex_char (unat c mod 16)]"
    using hex_char_digit(3) unat_halves by auto
  moreover have "0 \<notin> set [c]" if "isprint c" using isprint_nonzero [OF that] by auto
  ultimately show ?thesis unfolding repr_byte_def esc_def using cat prn by auto
qed

lemma length_esc: "length (esc c) \<le> 4"
  by (simp add: esc_def)

lemma repr_loop_ok:
  assumes "sds_ok s" and "sdslen s + 4 * length p + 4 < 2 ^ 62"
  shows "\<exists>s'. repr_loop junk p s = Inr s' \<and> sds_ok s' \<and> sds_str s' = sds_str s @ concat (map esc p)"
  using assms
proof (induction p arbitrary: s)
  case (Cons c p)
  obtain s1 where s1: "repr_byte junk s c = Inr s1" "sds_ok s1" "sds_str s1 = sds_str s @ esc c"
    using repr_byte_ok [OF Cons.prems(1), of junk c] Cons.prems(2) by auto
  have "sdslen s1 \<le> sdslen s + 4"
    using length_sds_str [OF s1(2)] length_sds_str [OF Cons.prems(1)] s1(3) length_esc [of c] by simp
  then show ?case using Cons.IH [OF s1(2)] Cons.prems(2) s1 by auto
qed simp

lemma length_concat_esc: "length (concat (map esc p)) \<le> 4 * length p"
  by (induction p) (use length_esc in \<open>auto intro: add_mono\<close>)

lemma sdscatrepr_ok:
  assumes "sds_ok s" and "sdslen s + 4 * length p + 6 < 2 ^ 62"
  shows "\<exists>s'. sdscatrepr junk s p = Inr s' \<and> sds_ok s' \<and> sds_str s' = sds_str s @ quoted p"
proof -
  obtain s1 where s1: "sdscatlen junk s [34] = Inr s1" "sds_ok s1" "sds_str s1 = sds_str s @ [34]"
    using sdscatlen_ok [OF assms(1), of "[34]" junk] assms(2) by auto
  have l1: "sdslen s1 = sdslen s + 1" using length_sds_str [OF s1(2)] length_sds_str [OF assms(1)] s1(3) by simp
  obtain s2 where s2: "repr_loop junk p s1 = Inr s2" "sds_ok s2" "sds_str s2 = sds_str s1 @ concat (map esc p)"
    using repr_loop_ok [OF s1(2), of p junk] l1 assms(2) by auto
  have "sdslen s2 \<le> sdslen s1 + 4 * length p"
    using length_sds_str [OF s2(2)] length_sds_str [OF s1(2)] s2(3) length_concat_esc [of p] by simp
  then show ?thesis using sdscatlen_ok [OF s2(2), of "[34]" junk] assms(2) l1 s1 s2 by (auto simp: sdscatrepr_def quoted_def)
qed

lemma esc_cases:
  obtains (two) e where "esc c = [92, e]" "e \<noteq> 0" "e \<noteq> 120" "unescape e = c"
  | (plain) "esc c = [c]" "c \<noteq> 0" "c \<noteq> 34" "c \<noteq> 92"
  | (hex) "esc c = [92, 120, hex_char (unat c div 16), hex_char (unat c mod 16)]"
proof -
  consider "c = 92" | "c = 34" | "c = 10" | "c = 13" | "c = 9" | "c = 7" | "c = 8" | "c \<notin> {92, 34, 10, 13, 9, 7, 8}" by blast
  then show thesis
  proof cases
    case 8
    show thesis
    proof (cases "isprint c")
      case True
      then show thesis using 8 isprint_nonzero plain by (simp add: esc_def)
    next
      case False
      then show thesis using 8 hex by (simp add: esc_def)
    qed
  qed (use two [of 92] two [of 34] two [of 110] two [of 114] two [of 116] two [of 97] two [of 98] in \<open>simp_all add: esc_def unescape_def\<close>)
qed

lemma rd_drop:
  assumes "drop p line = xs @ rest" and "k < length xs"
  shows "rd line (p + k) = Inr (xs ! k)" "p + k < length line" "line ! (p + k) = xs ! k"
proof -
  have l: "p + k < length line" using arg_cong [OF assms(1), of length] assms(2) by simp
  have "line ! (p + k) = drop p line ! k" using l by simp
  also have "\<dots> = xs ! k" using assms by (simp add: nth_append)
  finally show "line ! (p + k) = xs ! k" .
  then show "rd line (p + k) = Inr (xs ! k)" "p + k < length line" using l by simp_all
qed

lemma tok_step_esc:
  assumes d: "drop (tk_p t) line = esc c @ rest" and q: "tk_inq t" and cat: "sdscatlen junk (tk_cur t) [c] = Inr cur"
  shows "tok_step junk line t = Inr (Some (t\<lparr>tk_p := tk_p t + length (esc c), tk_cur := cur\<rparr>))"
proof (cases c rule: esc_cases)
  case (two e)
  note r = rd_drop [OF d, of 0, unfolded two(1)] rd_drop [OF d, of 1, unfolded two(1)]
  show ?thesis using r two q cat
    by (simp add: tok_step_def in_quotes_def Let_def at_def and_then_def cat_byte_def)
next
  case plain
  note r = rd_drop [OF d, of 0, unfolded plain(1)]
  show ?thesis using r plain q cat
    by (simp add: tok_step_def in_quotes_def Let_def at_def and_then_def cat_byte_def)
next
  case hex
  note r = rd_drop [OF d, of 0, unfolded hex] rd_drop [OF d, of 1, unfolded hex] rd_drop [OF d, of 2, unfolded hex] rd_drop [OF d, of 3, unfolded hex]
  have v: "word_of_nat (unat c div 16) * 16 + word_of_nat (unat c mod 16) = c"
  proof -
    have "word_of_nat (unat c div 16) * 16 + word_of_nat (unat c mod 16) = (word_of_nat (unat c div 16 * 16 + unat c mod 16) :: byte)"
      unfolding of_nat_add of_nat_mult by simp
    then show ?thesis unfolding div_mult_mod_eq by simp
  qed
  show ?thesis using r hex q cat hex_char_digit [OF unat_halves(1)] hex_char_digit [OF unat_halves(2)] v
    by (simp add: tok_step_def in_quotes_def Let_def at_def and_then_def hex_at_def cat_byte_def)
qed

lemma tok_step_close:
  assumes d: "drop (tk_p t) line = 34 # e # rest" and q: "tk_inq t" and e: "e = 0 \<or> isspace e"
  shows "tok_step junk line t = Inr (Some (t\<lparr>tk_p := tk_p t + 1, tk_done := True\<rparr>))"
proof -
  have d': "drop (tk_p t) line = [34, e] @ rest" using d by simp
  note r = rd_drop [OF d', of 0] rd_drop [OF d', of 1]
  show ?thesis using r q e
    by (simp add: tok_step_def in_quotes_def Let_def at_def and_then_def close_quote_def)
qed

lemma token_loop_quoted:
  assumes "drop (tk_p t) line = concat (map esc bs) @ 34 # e # rest" and "e = 0 \<or> isspace e"
    and "tk_inq t" and "\<not> tk_done t" and "sds_ok (tk_cur t)" and "sdslen (tk_cur t) + length bs < 2 ^ 62"
  shows "\<exists>u. token_loop junk line t = Inr (Some u) \<and> tk_p u = tk_p t + length (concat (map esc bs)) + 1 \<and>
    sds_ok (tk_cur u) \<and> sds_str (tk_cur u) = sds_str (tk_cur t) @ bs"
  using assms
proof (induction bs arbitrary: t)
  case Nil
  then have "tok_step junk line t = Inr (Some (t\<lparr>tk_p := tk_p t + 1, tk_done := True\<rparr>))" by (intro tok_step_close) simp_all
  then show ?case using Nil by (simp add: token_loop.simps)
next
  case (Cons c bs)
  obtain cur where cur: "sdscatlen junk (tk_cur t) [c] = Inr cur" "sds_ok cur" "sds_str cur = sds_str (tk_cur t) @ [c]"
    using sdscatlen_ok [OF Cons.prems(5), of "[c]" junk] Cons.prems(6) by auto
  let ?t = "t\<lparr>tk_p := tk_p t + length (esc c), tk_cur := cur\<rparr>"
  let ?r = "concat (map esc bs) @ 34 # e # rest"
  have d: "drop (tk_p t) line = esc c @ ?r" using Cons.prems(1) by simp
  have s: "tok_step junk line t = Inr (Some ?t)" by (rule tok_step_esc [OF d Cons.prems(3) cur(1)])
  have "drop (length (esc c)) (drop (tk_p t) line) = ?r" unfolding d by simp
  then have d': "drop (tk_p ?t) line = ?r" by (simp add: add.commute)
  have "sdslen cur = sdslen (tk_cur t) + 1"
    using length_sds_str [OF cur(2)] length_sds_str [OF Cons.prems(5)] cur(3) by simp
  then obtain u where "token_loop junk line ?t = Inr (Some u)" "tk_p u = tk_p ?t + length (concat (map esc bs)) + 1"
      "sds_ok (tk_cur u)" "sds_str (tk_cur u) = sds_str cur @ bs"
    using Cons.IH [OF d' Cons.prems(2)] Cons.prems cur(2) by auto
  moreover have "token_loop junk line t = token_loop junk line ?t" using s Cons.prems(4) by (simp add: token_loop.simps [of junk line t])
  ultimately show ?case using cur(3) by simp
qed

lemma tok_step_open:
  assumes d: "drop (tk_p t) line = 34 # rest" and "\<not> tk_inq t" and "\<not> tk_insq t"
  shows "tok_step junk line t = Inr (Some (t\<lparr>tk_p := tk_p t + 1, tk_inq := True\<rparr>))"
proof -
  have d': "drop (tk_p t) line = [34] @ rest" using d by simp
  note r = rd_drop [OF d', of 0]
  show ?thesis using r assms by (simp add: tok_step_def unquoted_def)
qed

text \<open>One quoted argument, after blanks.\<close>

lemma splitargs_quoted:
  assumes d: "drop p line = bl @ quoted x @ e # rest" and bl: "\<forall>c \<in> set bl. isspace c" and e: "e = 0 \<or> isspace e" and small: "length x < 2 ^ 62"
  shows "\<exists>v. splitargs_loop junk line p vec = splitargs_loop junk line (p + length bl + length (quoted x)) (vec @ [v]) \<and>
    sds_ok v \<and> sds_str v = x"
proof -
  let ?q = "p + length bl"
  have "\<not> isspace 0" by (simp add: isspace_def)
  then have nz: "c \<noteq> 0" if "isspace c" for c using that by auto
  have q: "quoted x @ e # rest = 34 # concat (map esc x) @ 34 # e # rest" by (simp add: quoted_def)
  have s: "scan_from (\<lambda>c. \<not> (c \<noteq> 0 \<and> isspace c)) line p = Inr ?q"
    using scan_append [of bl "\<lambda>c. \<not> (c \<noteq> 0 \<and> isspace c)" 34 "concat (map esc x) @ 34 # e # rest"] bl nz
    unfolding scan_from_def d q by (simp add: isspace_def)
  have dq: "drop ?q line = 34 # concat (map esc x) @ 34 # e # rest"
  proof -
    have "drop (length bl) (drop p line) = quoted x @ e # rest" unfolding d by simp
    then show ?thesis unfolding q by (simp add: add.commute)
  qed
  then have r: "rd line ?q = Inr 34" using rd_drop(1) [of ?q line "[34]" _ 0] by simp
  obtain cur where cur: "sdsempty junk = Inr cur" "sds_ok cur" "sds_str cur = []" using sdsempty_ok by blast
  let ?t = "\<lparr> tk_p = ?q, tk_inq = False, tk_insq = False, tk_done = False, tk_cur = cur \<rparr>"
  let ?t1 = "?t\<lparr>tk_p := ?q + 1, tk_inq := True\<rparr>"
  have step: "tok_step junk line ?t = Inr (Some (?t\<lparr>tk_p := tk_p ?t + 1, tk_inq := True\<rparr>))"
    by (rule tok_step_open) (use dq in simp_all)
  have "drop (?q + 1) line = concat (map esc x) @ 34 # e # rest"
  proof -
    have "drop 1 (drop ?q line) = concat (map esc x) @ 34 # e # rest" unfolding dq by simp
    then show ?thesis by simp
  qed
  then obtain u where u: "token_loop junk line ?t1 = Inr (Some u)" "tk_p u = ?q + 1 + length (concat (map esc x)) + 1" "sds_ok (tk_cur u)"
      "sds_str (tk_cur u) = x"
    using token_loop_quoted [of ?t1 line x e rest junk] e cur small length_sds_str [OF cur(2)] by auto
  have "token_loop junk line ?t = Inr (Some u)" using step u(1) by (simp add: token_loop.simps [of junk line ?t])
  then have "splitargs_loop junk line p vec = splitargs_loop junk line (tk_p u) (vec @ [tk_cur u])"
    using s r cur(1) by (subst splitargs_loop.simps) simp
  then show ?thesis using u(2-4) by (auto simp: quoted_def)
qed

lemma splitargs_tail:
  assumes "drop p line = concat (map (\<lambda>x. 32 # quoted x) xs) @ 0 # rest" and "\<forall>x \<in> set xs. length x < 2 ^ 62"
  shows "\<exists>vs. splitargs_loop junk line p vec = Inr (Some (vec @ vs)) \<and> (\<forall>v \<in> set vs. sds_ok v) \<and> map sds_str vs = xs"
  using assms
proof (induction xs arbitrary: p vec)
  case Nil
  then have "drop p line = 0 # rest" by simp
  then have "scan_from (\<lambda>c. \<not> (c \<noteq> 0 \<and> isspace c)) line p = Inr p" "rd line p = Inr 0"
    using rd_drop(1) [of p line "[0]" rest 0] by (simp_all add: scan_from_def)
  then show ?case by (subst splitargs_loop.simps) simp
next
  case (Cons x xs)
  let ?tail = "concat (map (\<lambda>x. 32 # quoted x) xs) @ 0 # rest"
  obtain e r where er: "?tail = e # r" "e = 0 \<or> isspace e" by (cases xs) (simp_all add: isspace_def)
  have d: "drop p line = [32] @ quoted x @ e # r" using Cons.prems(1) er(1) by simp
  obtain v where v: "splitargs_loop junk line p vec = splitargs_loop junk line (p + length [32 :: byte] + length (quoted x)) (vec @ [v])"
      "sds_ok v" "sds_str v = x"
    using splitargs_quoted [OF d _ er(2), of junk vec] Cons.prems(2) by (auto simp: isspace_def)
  have "drop (Suc (length (quoted x))) (drop p line) = ?tail" unfolding d er(1) by simp
  then have "drop (p + length [32 :: byte] + length (quoted x)) line = ?tail" by (simp add: add.commute)
  then obtain vs where "splitargs_loop junk line (p + length [32 :: byte] + length (quoted x)) (vec @ [v]) = Inr (Some ((vec @ [v]) @ vs))"
      "\<forall>v \<in> set vs. sds_ok v" "map sds_str vs = xs"
    using Cons.IH Cons.prems(2) by (metis list.set_intros(2))
  with v show ?case by (intro exI [of _ "v # vs"]) simp
qed

lemma splitargs_line:
  assumes "line = join_with [32] (map quoted xs) @ 0 # rest" and "\<forall>x \<in> set xs. length x < 2 ^ 62"
  shows "\<exists>vs. sdssplitargs junk line = Inr (Some vs) \<and> (\<forall>v \<in> set vs. sds_ok v) \<and> map sds_str vs = xs"
proof (cases xs)
  case Nil
  then show ?thesis using splitargs_tail [of 0 line "[]" rest junk "[]"] assms by (simp add: sdssplitargs_def)
next
  case (Cons x ys)
  have j: "join_with [32] (map quoted (x # ys)) = quoted x @ concat (map (\<lambda>x. 32 # quoted x) ys)"
    by (induction ys arbitrary: x) (simp_all add: join_with_Cons)
  let ?tail = "concat (map (\<lambda>x. 32 # quoted x) ys) @ 0 # rest"
  obtain e r where er: "?tail = e # r" "e = 0 \<or> isspace e" by (cases ys) (simp_all add: isspace_def)
  have d: "drop 0 line = [] @ quoted x @ e # r" using assms(1) er(1) j Cons by simp
  obtain v where v: "splitargs_loop junk line 0 [] = splitargs_loop junk line (length (quoted x)) [v]" "sds_ok v" "sds_str v = x"
    using splitargs_quoted [OF d _ er(2), of junk "[]"] assms(2) Cons by auto
  have "drop (length (quoted x)) line = ?tail" using d er(1) by simp
  then show ?thesis
    using splitargs_tail [of "length (quoted x)" line ys rest junk "[v]"] assms(2) v Cons by (auto simp: sdssplitargs_def)
qed

section \<open>The arguments of a command, for monitors\<close>

text \<open>The loop of \<open>replicationFeedMonitors\<close> over the arguments of a command, which are integers or strings.\<close>

datatype cmd_arg = EncInt int | EncStr sds

fun feed_args :: "(nat \<Rightarrow> byte) \<Rightarrow> cmd_arg list \<Rightarrow> sds \<Rightarrow> sds cres" where
  "feed_args junk [] cmdrepr = Inr cmdrepr"
| "feed_args junk (a # argv) cmdrepr =
     cbind (case a of
              EncInt v \<Rightarrow> sdscatvprintf junk cmdrepr [34, 37, 108, 100, 34, 0] (34 # sdec v @ [34])
            | EncStr t \<Rightarrow> cbind (peek t 0 (sdslen t)) (sdscatrepr junk cmdrepr)) (\<lambda>cmdrepr.
     cbind (if argv \<noteq> [] then sdscatlen junk cmdrepr [32] else Inr cmdrepr) (\<lambda>cmdrepr.
     feed_args junk argv cmdrepr))"

fun arg_ok :: "cmd_arg \<Rightarrow> bool" where
  "arg_ok (EncInt v) \<longleftrightarrow> LLONG_MIN \<le> v \<and> v \<le> LLONG_MAX"
| "arg_ok (EncStr t) \<longleftrightarrow> sds_ok t"

fun arg_str :: "cmd_arg \<Rightarrow> byte list" where
  "arg_str (EncInt v) = sdec v"
| "arg_str (EncStr t) = sds_str t"

lemma dec_bytes: "c \<in> set (dec v) \<Longrightarrow> 48 \<le> c \<and> c \<le> 57"
proof (induction v rule: dec.induct)
  case (1 v)
  have "48 \<le> (word_of_nat (48 + k) :: byte) \<and> (word_of_nat (48 + k) :: byte) \<le> 57" if "k < 10" for k
    using that by (simp add: word_le_nat_alt unat_of_nat_small del: of_nat_add)
  then show ?case using 1 by (cases "v < 10") (auto simp: dec_small dec_step [of v])
qed

lemma esc_numeral: "48 \<le> c \<and> c \<le> 57 \<or> c = 45 \<Longrightarrow> esc c = [c]"
proof -
  assume c: "48 \<le> c \<and> c \<le> 57 \<or> c = 45"
  then have "c \<notin> {92, 34, 10, 13, 9, 7, 8}" by auto
  moreover have "32 \<le> c \<and> c \<le> 126" using c by (auto intro: order_trans [of 32 48 c] order_trans [of c 57 126])
  ultimately show ?thesis by (simp add: esc_def isprint_def)
qed

lemma quoted_sdec: "quoted (sdec v) = 34 # sdec v @ [34]" "0 \<notin> set (quoted (sdec v))"
proof -
  have c: "48 \<le> c \<and> c \<le> 57 \<or> c = 45" if "c \<in> set (sdec v)" for c
    using that dec_bytes by (auto simp: sdec_def split: if_splits)
  have "concat (map esc xs) = xs" if "\<forall>c \<in> set xs. 48 \<le> c \<and> c \<le> 57 \<or> c = 45" for xs
    using that by (induction xs) (simp_all add: esc_numeral)
  then show q: "quoted (sdec v) = 34 # sdec v @ [34]" using c by (simp add: quoted_def)
  show "0 \<notin> set (quoted (sdec v))" unfolding q using c by fastforce
qed

lemma length_quoted: "length (quoted x) \<le> 4 * length x + 2"
  using length_concat_esc [of x] by (simp add: quoted_def)

lemma feed_one:
  assumes "arg_ok a" and "sds_ok s" and "sdslen s + 4 * length (arg_str a) + 6 < 2 ^ 62"
  shows "\<exists>s'. (case a of
              EncInt v \<Rightarrow> sdscatvprintf junk s [34, 37, 108, 100, 34, 0] (34 # sdec v @ [34])
            | EncStr t \<Rightarrow> cbind (peek t 0 (sdslen t)) (sdscatrepr junk s)) = Inr s' \<and> sds_ok s' \<and>
    sds_str s' = sds_str s @ quoted (arg_str a)"
proof (cases a)
  case (EncInt v)
  then show ?thesis
    using sdscatvprintf_ok [OF assms(2) quoted_sdec(2), of "[34, 37, 108, 100, 34, 0]" v junk] length_quoted [of "sdec v"] assms(3)
    by (simp add: quoted_sdec(1))
next
  case (EncStr t)
  then have "peek t 0 (sdslen t) = Inr (sds_str t)" using assms(1) by (simp add: peek_def sds_str_def sdslen_def sds_ok_def)
  then show ?thesis using sdscatrepr_ok [OF assms(2), of "sds_str t" junk] assms(3) EncStr by simp
qed

lemma feed_args_ok:
  assumes "\<forall>a \<in> set args. arg_ok a" and "sds_ok s" and "sdslen s + sum_list (map (\<lambda>a. 4 * length (arg_str a) + 8) args) < 2 ^ 62"
  shows "\<exists>s'. feed_args junk args s = Inr s' \<and> sds_ok s' \<and> sds_str s' = sds_str s @ join_with [32] (map (\<lambda>a. quoted (arg_str a)) args)"
  using assms
proof (induction args arbitrary: s)
  case (Cons a args)
  obtain s1 where s1: "(case a of
              EncInt v \<Rightarrow> sdscatvprintf junk s [34, 37, 108, 100, 34, 0] (34 # sdec v @ [34])
            | EncStr t \<Rightarrow> cbind (peek t 0 (sdslen t)) (sdscatrepr junk s)) = Inr s1" "sds_ok s1" "sds_str s1 = sds_str s @ quoted (arg_str a)"
    using feed_one [of a s junk] Cons.prems by auto
  have l1: "sdslen s1 \<le> sdslen s + 4 * length (arg_str a) + 2"
    using length_sds_str [OF s1(2)] length_sds_str [OF Cons.prems(2)] s1(3) length_quoted [of "arg_str a"] by simp
  show ?case
  proof (cases "args = []")
    case True
    then show ?thesis using s1 by simp
  next
    case False
    obtain s2 where s2: "sdscatlen junk s1 [32] = Inr s2" "sds_ok s2" "sds_str s2 = sds_str s1 @ [32]"
      using sdscatlen_ok [OF s1(2), of "[32]" junk] Cons.prems(3) l1 by auto
    have "sdslen s2 = sdslen s1 + 1" using length_sds_str [OF s2(2)] length_sds_str [OF s1(2)] s2(3) by simp
    then show ?thesis
      using Cons.IH [OF _ s2(2)] Cons.prems(1,3) l1 False s1 s2 by (auto simp: join_with_Cons)
  qed
qed simp

section \<open>Parsing returns\<close>

text \<open>While a line is parsed its terminator lies ahead, and the token is not longer than what was read.\<close>

definition tok_inv :: "byte list \<Rightarrow> tok \<Rightarrow> bool" where
  "tok_inv line t \<longleftrightarrow> 0 \<in> set (drop (tk_p t) line) \<and> sds_ok (tk_cur t) \<and> sdslen (tk_cur t) \<le> tk_p t"

lemma zero_ahead: "0 \<in> set (drop p line) \<Longrightarrow> p < length line"
  by (cases "p < length line") simp_all

lemma zero_ahead_Suc: "0 \<in> set (drop p line) \<Longrightarrow> line ! p \<noteq> 0 \<Longrightarrow> 0 \<in> set (drop (Suc p) line)"
  using drop_nth_Cons [OF zero_ahead, of p line] by auto

definition tok_mid :: "byte list \<Rightarrow> tok \<Rightarrow> bool" where
  "tok_mid line u \<longleftrightarrow> 0 \<in> set (drop (tk_p u) line) \<and> sds_ok (tk_cur u) \<and>
     sdslen (tk_cur u) \<le> tk_p u + (if line ! tk_p u = 0 then 0 else 1)"

lemma cat_byte_total:
  assumes "0 \<in> set (drop (tk_p t) line)" and "line ! tk_p t \<noteq> 0" and "sds_ok (tk_cur t)" and "sdslen (tk_cur t) \<le> tk_p t" and "length line < 2 ^ 61"
  shows "\<exists>u. cat_byte junk t c = Inr (Some u) \<and> tok_mid line u"
proof -
  have "tk_p t < length line" using zero_ahead [OF assms(1)] .
  then obtain cur where cur: "sdscatlen junk (tk_cur t) [c] = Inr cur" "sds_ok cur" "sds_str cur = sds_str (tk_cur t) @ [c]"
    using sdscatlen_ok [OF assms(3), of "[c]" junk] assms(4,5) by auto
  have "sdslen cur = sdslen (tk_cur t) + 1" using length_sds_str [OF cur(2)] length_sds_str [OF assms(3)] cur(3) by simp
  then show ?thesis using cur assms by (simp add: cat_byte_def tok_mid_def)
qed

lemma close_quote_total:
  assumes "tok_inv line t" and "line ! tk_p t \<noteq> 0"
  shows "\<exists>r. close_quote line t = Inr r \<and> (\<forall>u. r = Some u \<longrightarrow> tok_mid line u)"
  using zero_ahead [OF zero_ahead_Suc, of "tk_p t" line] assms by (simp add: close_quote_def tok_inv_def tok_mid_def)

text \<open>What a round may look at: the byte at \<open>p\<close>, and the next as long as no zero was seen.\<close>

lemma peek_ahead:
  assumes "0 \<in> set (drop p line)"
  shows "rd line p = Inr (line ! p)" "line ! p \<noteq> 0 \<Longrightarrow> 0 \<in> set (drop (p + 1) line)"
  using zero_ahead [OF assms] zero_ahead_Suc [OF assms] by simp_all

lemma in_quotes_total:
  assumes inv: "tok_inv line t" and small: "length line < 2 ^ 61"
  shows "\<exists>r. in_quotes junk line t = Inr r \<and> (\<forall>u. r = Some u \<longrightarrow> tok_mid line u)"
proof -
  let ?p = "tk_p t"
  have z: "0 \<in> set (drop ?p line)" and ok: "sds_ok (tk_cur t)" "sdslen (tk_cur t) \<le> ?p" using inv by (simp_all add: tok_inv_def)
  note p0 = peek_ahead [OF z]
  show ?thesis
  proof (cases "line ! ?p = 92")
    case False
    then show ?thesis
      using p0 close_quote_total [OF inv] cat_byte_total [OF z _ ok small, of junk "line ! ?p"]
      by (auto simp: in_quotes_def Let_def at_def and_then_def)
  next
    case True
    then have z1: "0 \<in> set (drop (?p + 1) line)" using p0(2) by simp
    note p1 = peek_ahead [OF z1]
    show ?thesis
    proof (cases "line ! (?p + 1) = 0")
      case e: True
      then show ?thesis using p0 p1 True cat_byte_total [OF z _ ok small, of junk 92] by (auto simp: in_quotes_def Let_def at_def and_then_def)
    next
      case ne: False
      then have z2: "0 \<in> set (drop (?p + 2) line)" using p1(2) by simp
      note p2 = peek_ahead [OF z2]
      have one: "\<exists>u. cat_byte junk (t\<lparr>tk_p := ?p + 1\<rparr>) c = Inr (Some u) \<and> tok_mid line u" for c
        by (rule cat_byte_total) (use z1 ne ok small in auto)
      show ?thesis
      proof (cases "line ! (?p + 1) = 120 \<and> is_hex_digit (line ! (?p + 2))")
        case False
        then have "in_quotes junk line t = cat_byte junk (t\<lparr>tk_p := ?p + 1\<rparr>) (unescape (line ! (?p + 1)))"
          unfolding in_quotes_def Let_def at_def hex_at_def and_then_def p0(1) p1(1) p2(1) cbind_Inr using True ne by auto
        then show ?thesis using one [of "unescape (line ! (?p + 1))"] by auto
      next
        case h: True
        then have nz: "line ! (?p + 2) \<noteq> 0" using is_hex_digit_nonzero by blast
        then have z3: "0 \<in> set (drop (?p + 3) line)" using p2(2) by (simp add: numeral_3_eq_3)
        note p3 = peek_ahead [OF z3]
        have three: "\<exists>u. cat_byte junk (t\<lparr>tk_p := ?p + 3\<rparr>) c = Inr (Some u) \<and> tok_mid line u" if "is_hex_digit (line ! (?p + 3))" for c
          by (rule cat_byte_total) (use z3 is_hex_digit_nonzero [OF that] ok small in auto)
        let ?w = "word_of_nat (hex_digit_to_int (line ! (?p + 2)) * 16 + hex_digit_to_int (line ! (?p + 3)))"
        have "in_quotes junk line t =
            (if is_hex_digit (line ! (?p + 3)) then cat_byte junk (t\<lparr>tk_p := ?p + 3\<rparr>) ?w
             else cat_byte junk (t\<lparr>tk_p := ?p + 1\<rparr>) (unescape (line ! (?p + 1))))"
          unfolding in_quotes_def Let_def at_def hex_at_def and_then_def p0(1) p1(1) p2(1) p3(1) cbind_Inr using True h by simp
        then show ?thesis using one [of "unescape (line ! (?p + 1))"] three [of ?w] by (auto split: if_splits)
      qed
    qed
  qed
qed

lemma in_squotes_total:
  assumes inv: "tok_inv line t" and small: "length line < 2 ^ 61"
  shows "\<exists>r. in_squotes junk line t = Inr r \<and> (\<forall>u. r = Some u \<longrightarrow> tok_mid line u)"
proof -
  let ?p = "tk_p t"
  have z: "0 \<in> set (drop ?p line)" and ok: "sds_ok (tk_cur t)" "sdslen (tk_cur t) \<le> ?p" using inv by (simp_all add: tok_inv_def)
  note p0 = peek_ahead [OF z]
  show ?thesis
  proof (cases "line ! ?p = 92")
    case False
    then show ?thesis
      using p0 close_quote_total [OF inv] cat_byte_total [OF z _ ok small, of junk "line ! ?p"]
      by (auto simp: in_squotes_def Let_def at_def and_then_def)
  next
    case True
    then have z1: "0 \<in> set (drop (?p + 1) line)" using p0(2) by simp
    note p1 = peek_ahead [OF z1]
    have one: "\<exists>u. cat_byte junk (t\<lparr>tk_p := ?p + 1\<rparr>) 39 = Inr (Some u) \<and> tok_mid line u" if "line ! (?p + 1) = 39"
      by (rule cat_byte_total) (use z1 that ok small in auto)
    show ?thesis using p0 p1 True one cat_byte_total [OF z _ ok small, of junk 92]
      by (auto simp: in_squotes_def Let_def at_def and_then_def)
  qed
qed

lemma unquoted_total:
  assumes inv: "tok_inv line t" and small: "length line < 2 ^ 61"
  shows "\<exists>r. unquoted junk line t = Inr r \<and> (\<forall>u. r = Some u \<longrightarrow> tok_mid line u)"
proof -
  have z: "0 \<in> set (drop (tk_p t) line)" and ok: "sds_ok (tk_cur t)" "sdslen (tk_cur t) \<le> tk_p t" using inv by (simp_all add: tok_inv_def)
  have mid: "tok_mid line (t\<lparr>tk_done := True\<rparr>)" "tok_mid line (t\<lparr>tk_inq := True\<rparr>)" "tok_mid line (t\<lparr>tk_insq := True\<rparr>)"
    using z ok by (simp_all add: tok_mid_def)
  show ?thesis
    using mid cat_byte_total [OF z _ ok small, of junk "line ! tk_p t"] unfolding unquoted_def peek_ahead(1) [OF z] cbind_Inr by auto
qed

lemma tok_step_total:
  assumes "tok_inv line t" and "length line < 2 ^ 61"
  shows "\<exists>r. tok_step junk line t = Inr r \<and> (\<forall>u. r = Some u \<longrightarrow> tok_inv line u)"
proof -
  obtain r where r: "(if tk_inq t then in_quotes junk line t else if tk_insq t then in_squotes junk line t else unquoted junk line t) = Inr r"
      "\<forall>u. r = Some u \<longrightarrow> tok_mid line u"
    using in_quotes_total [OF assms] in_squotes_total [OF assms] unquoted_total [OF assms] by metis
  show ?thesis
  proof (cases r)
    case None
    then show ?thesis using r(1) by (simp add: tok_step_def)
  next
    case (Some u)
    then have m: "tok_mid line u" using r(2) by simp
    then have z: "0 \<in> set (drop (tk_p u) line)" by (simp add: tok_mid_def)
    show ?thesis
      using m r(1) Some peek_ahead [OF z] by (simp add: tok_step_def tok_mid_def tok_inv_def split: if_splits)
  qed
qed

lemma token_loop_total:
  "tok_inv line t \<Longrightarrow> length line < 2 ^ 61 \<Longrightarrow> \<exists>r. token_loop junk line t = Inr r \<and> (\<forall>u. r = Some u \<longrightarrow> tok_inv line u)"
proof (induction junk line t rule: token_loop.induct)
  case (1 junk line t)
  obtain r where r: "tok_step junk line t = Inr r" "\<forall>u. r = Some u \<longrightarrow> tok_inv line u" using tok_step_total [OF 1(2,3)] by blast
  show ?case
  proof (cases "tk_done t \<or> r = None")
    case True
    then show ?thesis using r(1) 1(2) by (subst token_loop.simps) auto
  next
    case False
    then obtain u where u: "r = Some u" by auto
    have "\<exists>r. token_loop junk line u = Inr r \<and> (\<forall>u. r = Some u \<longrightarrow> tok_inv line u)"
      using 1(1) [OF _ r(1) u] False r(2) u 1(3) by simp
    then show ?thesis using False r(1) u by (subst token_loop.simps) simp
  qed
qed

lemma splitargs_total:
  "0 \<in> set (drop p line) \<Longrightarrow> length line < 2 ^ 61 \<Longrightarrow> \<forall>v \<in> set vec. sds_ok v \<Longrightarrow>
   \<exists>r. splitargs_loop junk line p vec = Inr r \<and> (\<forall>vs. r = Some vs \<longrightarrow> (\<forall>v \<in> set vs. sds_ok v))"
proof (induction junk line p vec rule: splitargs_loop.induct)
  case (1 junk line p vec)
  let ?f = "\<lambda>c. \<not> (c \<noteq> 0 \<and> isspace c)"
  obtain n where n: "scan ?f (drop p line) = Inr n" using scan_total [of ?f, OF _ 1(2)] by auto
  then have q: "scan_from ?f line p = Inr (p + n)" by (simp add: scan_from_def)
  have before: "\<forall>k < n. drop p line ! k \<noteq> 0" using n by (auto simp: scan_Inr_iff)
  have z: "0 \<in> set (drop (p + n) line)"
  proof -
    obtain k where k: "k < length (drop p line)" "drop p line ! k = 0" using 1(2) by (metis in_set_conv_nth)
    then have "n \<le> k" using before by (meson not_le)
    then have "drop (p + n) line ! (k - n) = 0" "k - n < length (drop (p + n) line)" using k by auto
    then show ?thesis by (metis nth_mem)
  qed
  note rd = peek_ahead(1) [OF z]
  show ?case
  proof (cases "line ! (p + n) = 0")
    case True
    then show ?thesis using q rd 1(4) by (subst splitargs_loop.simps) simp
  next
    case False
    obtain cur where cur: "sdsempty junk = Inr cur" "sds_ok cur" "sds_str cur = []" using sdsempty_ok by blast
    let ?t = "\<lparr> tk_p = p + n, tk_inq = False, tk_insq = False, tk_done = False, tk_cur = cur \<rparr>"
    have "tok_inv line ?t" using z cur length_sds_str [OF cur(2)] by (simp add: tok_inv_def)
    then obtain r where r: "token_loop junk line ?t = Inr r" "\<forall>u. r = Some u \<longrightarrow> tok_inv line u"
      using token_loop_total [of line ?t junk] 1(3) by blast
    show ?thesis
    proof (cases r)
      case None
      then show ?thesis using q rd False cur(1) r(1) by (subst splitargs_loop.simps) simp
    next
      case (Some u)
      then have u: "tok_inv line u" using r(2) by simp
      have "\<exists>r. splitargs_loop junk line (tk_p u) (vec @ [tk_cur u]) = Inr r \<and> (\<forall>vs. r = Some vs \<longrightarrow> (\<forall>v \<in> set vs. sds_ok v))"
        by (rule 1(1) [OF q rd False cur(1) r(1) Some]) (use u 1(3,4) in \<open>auto simp: tok_inv_def\<close>)
      then show ?thesis using q rd False cur(1) r(1) Some by (subst splitargs_loop.simps) simp
    qed
  qed
qed

section \<open>Properties\<close>

text \<open>Splitting a string at a separator and joining the pieces gives the string back: \<open>sdssplitlen\<close> returns
  well-formed strings, none of which contains the separator, and \<open>sdsjoinsds\<close> with the separator
  restores the content, for every non-empty separator and non-empty string of less than
  \<open>2\<^sup>6\<^sup>2\<close> bytes. The array of pieces always has room.\<close>

theorem split_join_roundtrip:
  assumes "sep \<noteq> []" and "s \<noteq> []" and "length s < 2 ^ 62"
  shows "\<exists>ts s'. sdssplitlen junk s sep = Inr (Some ts) \<and> (\<forall>t \<in> set ts. sds_ok t \<and> \<not> occurs sep (sds_str t)) \<and>
    sdsjoinsds junk ts sep = Inr s' \<and> sds_ok s' \<and> sds_str s' = s"
proof -
  obtain ts where ts: "split_loop junk s sep 0 0 5 [] = Inr ts" "\<forall>t \<in> set ts. sds_ok t \<and> \<not> occurs sep (sds_str t)"
      "join_with sep (map sds_str ts) = s"
    using split_loop_ok [of sep 0 0 s "[]" 5 junk] assms by auto
  obtain e where e: "sdsempty junk = Inr e" "sds_ok e" "sds_str e = []" using sdsempty_ok by blast
  obtain s' where "joinsds_loop junk ts sep e = Inr s'" "sds_ok s'" "sds_str s' = s"
    using joinsds_loop_ok [of ts e sep junk] e ts(2,3) assms(3) length_sds_str [OF e(2)] by auto
  with ts e(1) assms show ?thesis
    by (intro exI [of _ ts] exI [of _ s']) (simp add: sdssplitlen_def sdsjoinsds_def Suc_le_eq)
qed

theorem split_join_roundtrip_witness:
  "\<exists>ts s'. sdssplitlen (\<lambda>n. 7) (bytes ''foo_-_bar'') (bytes ''_-_'') = Inr (Some ts) \<and>
     sdsjoinsds (\<lambda>n. 7) ts (bytes ''_-_'') = Inr s' \<and> sds_str s' = bytes ''foo_-_bar''"
  using split_join_roundtrip [of "bytes ''_-_''" "bytes ''foo_-_bar''" "\<lambda>n. 7"] by (auto simp: bytes_def)

text \<open>C23: The arguments of a command, written for monitors as quoted strings with escapes, are recovered by
  \<open>sdssplitargs\<close>: whatever bytes the arguments hold, the same strings come back in the same order, as
  the comment on \<open>sdssplitargs\<close> promises of \<open>sdscatrepr\<close>. Integer arguments come back as their
  numerals.\<close>

theorem quoted_args_roundtrip:
  assumes "\<forall>a \<in> set args. arg_ok a" and "sum_list (map (\<lambda>a. 4 * length (arg_str a) + 8) args) < 2 ^ 62"
  shows "\<exists>s s' vs. sdsempty junk = Inr s \<and> feed_args junk args s = Inr s' \<and>
    sdssplitargs junk (sds_buf s') = Inr (Some vs) \<and> map sds_str vs = map arg_str args"
proof -
  obtain s where s: "sdsempty junk = Inr s" "sds_ok s" "sds_str s = []" using sdsempty_ok by blast
  obtain s' where s': "feed_args junk args s = Inr s'" "sds_ok s'" "sds_str s' = join_with [32] (map quoted (map arg_str args))"
    using feed_args_ok [OF assms(1) s(2), of junk] assms(2) s(3) length_sds_str [OF s(2)] by (auto simp: comp_def)
  let ?l = "len_field s'"
  have l: "?l < length (sds_buf s')" "sds_buf s' ! ?l = 0" using s'(2) by (simp_all add: sds_ok_def)
  have "sds_buf s' = take ?l (sds_buf s') @ drop ?l (sds_buf s')" by simp
  also have "\<dots> = join_with [32] (map quoted (map arg_str args)) @ 0 # drop (Suc ?l) (sds_buf s')"
    using l s'(3) by (simp add: sds_str_def drop_nth_Cons)
  finally have line: "sds_buf s' = join_with [32] (map quoted (map arg_str args)) @ 0 # drop (Suc ?l) (sds_buf s')" .
  have "\<forall>x \<in> set (map arg_str args). length x < 2 ^ 62"
  proof
    fix x
    assume "x \<in> set (map arg_str args)"
    then obtain a where "a \<in> set args" "x = arg_str a" by auto
    then have "4 * length x + 8 \<le> sum_list (map (\<lambda>a. 4 * length (arg_str a) + 8) args)"
      by (intro member_le_sum_list) auto
    then show "length x < 2 ^ 62" using assms(2) by linarith
  qed
  then obtain vs where "sdssplitargs junk (sds_buf s') = Inr (Some vs)" "map sds_str vs = map arg_str args"
    using splitargs_line [OF line, of junk] by blast
  with s(1) s'(1) show ?thesis by blast
qed

theorem quoted_args_roundtrip_witness:
  "\<exists>t s s' vs. sdsnewlen (\<lambda>n. 7) (Some [255, 34, 0, 10, 32, 65]) 6 = Inr t \<and> sdsempty (\<lambda>n. 7) = Inr s \<and>
     feed_args (\<lambda>n. 7) [EncStr t, EncInt (-5)] s = Inr s' \<and>
     sdssplitargs (\<lambda>n. 7) (sds_buf s') = Inr (Some vs) \<and> map sds_str vs = [[255, 34, 0, 10, 32, 65], [45, 53]]"
proof -
  have l: "length [255, 34, 0, 10, 32, 65 :: byte] = 6" by simp
  obtain t where t: "sdsnewlen (\<lambda>n. 7) (Some [255, 34, 0, 10, 32, 65]) 6 = Inr t" "sds_ok t" "sds_str t = [255, 34, 0, 10, 32, 65]"
    using sdsnewlen_ok [of "[255, 34, 0, 10, 32, 65]" "\<lambda>n. 7", unfolded l] by auto
  have "sdec (-5) = [45, 53]" by (simp add: sdec_def dec_small)
  then show ?thesis
    using quoted_args_roundtrip [of "[EncStr t, EncInt (-5)]" "\<lambda>n. 7"] t by (auto simp: LLONG_MIN_def LLONG_MAX_def)
qed

text \<open>C24: \<open>sdssplitargs\<close> is total on terminated lines: whatever a client or a configuration file puts before the
  terminator, the parser stops, reads nothing behind the terminator, and returns either the null
  pointer or well-formed strings.\<close>

theorem sdssplitargs_total:
  assumes "0 \<in> set line" and "length line < 2 ^ 61"
  shows "\<exists>r. sdssplitargs junk line = Inr r \<and> (\<forall>vs. r = Some vs \<longrightarrow> (\<forall>v \<in> set vs. sds_ok v))"
  using splitargs_total [of 0 line "[]" junk] assms by (simp add: sdssplitargs_def)

theorem sdssplitargs_total_witness: "\<exists>r. sdssplitargs (\<lambda>n. 7) (bytes ''set x \"a'' @ [0]) = Inr r"
  using sdssplitargs_total [of "bytes ''set x \"a'' @ [0]" "\<lambda>n. 7"] by auto

end
