(* ===== verification/Lzf.thy ===== *)
theory Lzf
  imports Prelude
begin

text \<open>
  The LZF compression of Redis (\<open>lzf_c.c\<close>, \<open>lzf_d.c\<close>, configured by \<open>lzfP.h\<close> for a 64-bit PC: \<open>HLOG\<close> 16,
  \<open>VERY_FAST\<close>, offsets in the hash table, \<open>CHECK_INPUT\<close>). Input and output are byte arrays with positions
  in them, every access is checked. The hash table is not initialised by the code, so its contents
  are an argument, and nothing is assumed of it. A list function describes what a compressed
  stream means.
\<close>

section \<open>Decompression\<close>

text \<open>Copying byte by byte within the output.\<close>

primrec copy_bytes :: "nat \<Rightarrow> nat \<Rightarrow> nat \<Rightarrow> byte list \<Rightarrow> byte list cres" where
  "copy_bytes 0 ref op out = Inr out"
| "copy_bytes (Suc n) ref op out = cbind (rd out ref) (\<lambda>c. cbind (wr out op c) (copy_bytes n (ref + 1) (op + 1)))"

definition copy_block :: "nat \<Rightarrow> nat \<Rightarrow> nat \<Rightarrow> byte list \<Rightarrow> byte list cres" where
  "copy_block len ref op out =
     (if ref + len \<le> length out \<and> op + len \<le> length out then Inr (store_at out op (take len (drop ref out)))
      else Inl OutOfBounds)"

definition copy_match :: "nat \<Rightarrow> nat \<Rightarrow> nat \<Rightarrow> byte list \<Rightarrow> byte list cres" where
  "copy_match len ref op out =
     (if len \<le> 9 then copy_bytes (len + 2) ref op out
      else if op \<ge> ref + (len + 2) then copy_block (len + 2) ref op out
      else copy_bytes (len + 2) ref op out)"

definition copy_literals :: "byte list \<Rightarrow> nat \<Rightarrow> nat \<Rightarrow> nat \<Rightarrow> byte list \<Rightarrow> byte list cres" where
  "copy_literals inp n ip op out =
     (if ip + n \<le> length inp \<and> op + n \<le> length out then Inr (store_at out op (take n (drop ip inp))) else Inl OutOfBounds)"

text \<open>The result is the value returned, 0 for an error, and the output.\<close>

function dec_loop :: "byte list \<Rightarrow> nat \<Rightarrow> nat \<Rightarrow> byte list \<Rightarrow> (nat \<times> byte list) cres" where
  "dec_loop inp ip op out =
     cbind (rd inp ip) (\<lambda>c.
     let ctrl = unat c; ip1 = ip + 1 in
     if ctrl < 2 ^ 5 then
       let ctrl = ctrl + 1 in
       if op + ctrl > length out then Inr (0, out)
       else if ip1 + ctrl > length inp then Inr (0, out)
       else cbind (copy_literals inp ctrl ip1 op out) (\<lambda>out.
         if ip1 + ctrl < length inp then dec_loop inp (ip1 + ctrl) (op + ctrl) out else Inr (op + ctrl, out))
     else
       let len = ctrl div 2 ^ 5; ref = int op - int (ctrl mod 32 * 2 ^ 8) - 1 in
       if ip1 \<ge> length inp then Inr (0, out)
       else cbind (if len = 7 then cbind (rd inp ip1) (\<lambda>b. Inr (len + unat b, ip1 + 1)) else Inr (len, ip1)) (\<lambda>(len', ip2).
         if len = 7 \<and> ip2 \<ge> length inp then Inr (0, out)
         else cbind (rd inp ip2) (\<lambda>b.
           let ref = ref - int (unat b); ip3 = ip2 + 1 in
           if op + len' + 2 > length out then Inr (0, out)
           else if ref < 0 then Inr (0, out)
           else cbind (copy_match len' (nat ref) op out) (\<lambda>out.
             if ip3 < length inp then dec_loop inp ip3 (op + len' + 2) out else Inr (op + len' + 2, out)))))"
  by pat_completeness auto
termination by (relation "measure (\<lambda>(inp, ip, op, out). length inp - ip)")
  (auto simp: rd_eq_Inr_iff cbind_eq_Inr_iff split: if_splits)

declare dec_loop.simps [simp del]

definition lzf_decompress :: "byte list \<Rightarrow> byte list \<Rightarrow> (nat \<times> byte list) cres" where
  "lzf_decompress inp out = dec_loop inp 0 0 out"

section \<open>Compression\<close>

definition MAX_LIT :: nat where "MAX_LIT = 2 ^ 5"
definition MAX_OFF :: int where "MAX_OFF = 2 ^ 13"
definition MAX_REF :: nat where "MAX_REF = 2 ^ 8 + 2 ^ 3"
definition HLOG :: nat where "HLOG = 16"

definition FRST :: "byte list \<Rightarrow> nat \<Rightarrow> u32 cres" where
  "FRST inp p = cbind (rd inp p) (\<lambda>a. cbind (rd inp (p + 1)) (\<lambda>b. Inr (push_bit 8 (ucast a) OR ucast b)))"

definition NEXT :: "u32 \<Rightarrow> byte list \<Rightarrow> nat \<Rightarrow> u32 cres" where
  "NEXT v inp p = cbind (rd inp (p + 2)) (\<lambda>c. Inr (push_bit 8 v OR ucast c))"

definition IDX :: "u32 \<Rightarrow> nat" where
  "IDX h = unat ((drop_bit (24 - HLOG) h - h * 5) AND (2 ^ HLOG - 1))"

record lzf =
  lz_ip :: nat
  lz_op :: nat
  lz_lit :: nat
  lz_hval :: u32
  lz_htab :: "nat \<Rightarrow> u32"
  lz_out :: "byte list"

text \<open>How far the match extends.\<close>

primrec unrolled :: "byte list \<Rightarrow> nat \<Rightarrow> nat \<Rightarrow> nat \<Rightarrow> nat \<Rightarrow> (nat \<times> bool) cres" where
  "unrolled inp ref ip 0 len = Inr (len, False)"
| "unrolled inp ref ip (Suc n) len =
     cbind (rd inp (ref + (len + 1))) (\<lambda>a. cbind (rd inp (ip + (len + 1))) (\<lambda>b.
     if a \<noteq> b then Inr (len + 1, True) else unrolled inp ref ip n (len + 1)))"

function extend :: "byte list \<Rightarrow> nat \<Rightarrow> nat \<Rightarrow> nat \<Rightarrow> nat \<Rightarrow> nat cres" where
  "extend inp ref ip maxlen len =
     (if len + 1 < maxlen then
        cbind (rd inp (ref + (len + 1))) (\<lambda>a. cbind (rd inp (ip + (len + 1))) (\<lambda>b.
        if a = b then extend inp ref ip maxlen (len + 1) else Inr (len + 1)))
      else Inr (len + 1))"
  by pat_completeness auto
termination by (relation "measure (\<lambda>(inp, ref, ip, maxlen, len). maxlen - len)") auto

declare extend.simps [simp del]

definition match_len :: "byte list \<Rightarrow> nat \<Rightarrow> nat \<Rightarrow> nat cres" where
  "match_len inp ref ip =
     (let len = 2; maxlen = length inp - ip - len; maxlen = (if maxlen > MAX_REF then MAX_REF else maxlen) in
      if maxlen > 16 then
        cbind (unrolled inp ref ip 16 len) (\<lambda>(len, stop). if stop then Inr len else extend inp ref ip maxlen len)
      else extend inp ref ip maxlen len)"

definition is_match :: "byte list \<Rightarrow> nat \<Rightarrow> nat \<Rightarrow> bool cres" where
  "is_match inp ref ip =
     (let off = (int ip - int ref - 1) mod 2 ^ 64;
          same = (\<lambda>k. cbind (rd inp (ref + k)) (\<lambda>a. cbind (rd inp (ip + k)) (\<lambda>b. Inr (a = b)))) in
      if off < MAX_OFF \<and> ref > 0 then and_then (same 2) (and_then (same 0) (same 1)) else Inr False)"

text \<open>Ending a run: its length goes in front of it, and a run of no bytes is undone.\<close>

definition stop_run :: "nat \<Rightarrow> nat \<Rightarrow> byte list \<Rightarrow> byte list cres" where
  "stop_run op lit out =
     (if lit + 1 \<le> op then wr out (op - lit - 1) (word_of_int (int lit - 1)) else Inl OutOfBounds)"

definition emit_match :: "nat \<Rightarrow> int \<Rightarrow> nat \<Rightarrow> byte list \<Rightarrow> (nat \<times> byte list) cres" where
  "emit_match len off op out =
     cbind (if len < 7 then cbind (wr out op (word_of_int (off div 2 ^ 8 + int len * 2 ^ 5))) (\<lambda>out. Inr (op + 1, out))
            else cbind (wr out op (word_of_int (off div 2 ^ 8 + 7 * 2 ^ 5))) (\<lambda>out.
                 cbind (wr out (op + 1) (word_of_nat (len - 7))) (\<lambda>out. Inr (op + 2, out)))) (\<lambda>(op, out).
     cbind (wr out op (word_of_int off)) (\<lambda>out.
     Inr (op + 1, out)))"

text \<open>After a match the last two positions of it enter the table.\<close>

definition rehash :: "byte list \<Rightarrow> lzf \<Rightarrow> lzf cres" where
  "rehash inp st =
     (let ip = lz_ip st - 2 in
      cbind (FRST inp ip) (\<lambda>hval. cbind (NEXT hval inp ip) (\<lambda>hval.
      let htab = (lz_htab st)(IDX hval := word_of_nat ip); ip = ip + 1 in
      cbind (NEXT hval inp ip) (\<lambda>hval.
      let htab = htab(IDX hval := word_of_nat ip); ip = ip + 1 in
      Inr (st\<lparr>lz_ip := ip, lz_hval := hval, lz_htab := htab\<rparr>)))))"

text \<open>One literal byte, and the end of a full run.\<close>

definition put_literal :: "byte list \<Rightarrow> lzf \<Rightarrow> lzf cres" where
  "put_literal inp st =
     (let lit = lz_lit st + 1 in
      cbind (rd inp (lz_ip st)) (\<lambda>c. cbind (wr (lz_out st) (lz_op st) c) (\<lambda>out.
      let op = lz_op st + 1; ip = lz_ip st + 1 in
      if lit = MAX_LIT then cbind (stop_run op lit out) (\<lambda>out. Inr (st\<lparr>lz_ip := ip, lz_op := op + 1, lz_lit := 0, lz_out := out\<rparr>))
      else Inr (st\<lparr>lz_ip := ip, lz_op := op, lz_lit := lit, lz_out := out\<rparr>))))"

text \<open>One round of the main loop.\<close>

datatype round = Return0 "byte list" | Break lzf | Continue lzf

definition enc_match :: "byte list \<Rightarrow> nat \<Rightarrow> lzf \<Rightarrow> round cres" where
  "enc_match inp ref st =
     (let op = lz_op st; lit = lz_lit st; ip = lz_ip st; notlit = (if lit = 0 then 1 else 0); off = (int ip - int ref - 1) mod 2 ^ 64 in
      if op + 3 + 1 \<ge> length (lz_out st) \<and> op - notlit + 3 + 1 \<ge> length (lz_out st) then Inr (Return0 (lz_out st))
      else cbind (stop_run op lit (lz_out st)) (\<lambda>out.
        let op = op - notlit in
        cbind (match_len inp ref ip) (\<lambda>len.
        let len = len - 2; ip = ip + 1 in
        cbind (emit_match len off op out) (\<lambda>(op, out).
        let op = op + 1; ip = ip + (len + 1);
            st = st\<lparr>lz_ip := ip, lz_op := op, lz_lit := 0, lz_out := out\<rparr> in
        if int ip \<ge> int (length inp) - 2 then Inr (Break st)
        else cbind (rehash inp st) (\<lambda>st. Inr (Continue st))))))"

definition enc_round :: "byte list \<Rightarrow> lzf \<Rightarrow> round cres" where
  "enc_round inp st =
     cbind (NEXT (lz_hval st) inp (lz_ip st)) (\<lambda>hval.
     let ref = unat (lz_htab st (IDX hval));
         st = st\<lparr>lz_hval := hval, lz_htab := (lz_htab st)(IDX hval := word_of_nat (lz_ip st))\<rparr> in
     cbind (is_match inp ref (lz_ip st)) (\<lambda>m.
     if m then enc_match inp ref st
     else if lz_op st \<ge> length (lz_out st) then Inr (Return0 (lz_out st))
     else cbind (put_literal inp st) (\<lambda>st. Inr (Continue st))))"

lemma rehash_ip: "rehash inp st = Inr st' \<Longrightarrow> 2 \<le> lz_ip st \<Longrightarrow> lz_ip st' = lz_ip st"
  by (auto simp: rehash_def Let_def cbind_eq_Inr_iff)

lemma put_literal_ip: "put_literal inp st = Inr st' \<Longrightarrow> lz_ip st' = lz_ip st + 1"
  by (auto simp: put_literal_def Let_def cbind_eq_Inr_iff split: if_splits)

lemma enc_match_ip: "enc_match inp ref st = Inr (Continue st') \<Longrightarrow> lz_ip st < lz_ip st'"
  by (auto simp: enc_match_def Let_def cbind_eq_Inr_iff dest!: rehash_ip split: if_splits)

lemma enc_round_ip: "enc_round inp st = Inr (Continue st') \<Longrightarrow> lz_ip st < lz_ip st'"
  by (auto simp: enc_round_def Let_def cbind_eq_Inr_iff dest!: enc_match_ip put_literal_ip split: if_splits)

function enc_loop :: "byte list \<Rightarrow> lzf \<Rightarrow> round cres" where
  "enc_loop inp st =
     (if int (lz_ip st) < int (length inp) - 2 then
        cbind (enc_round inp st) (\<lambda>r.
        case r of Return0 out \<Rightarrow> Inr (Return0 out) | Break st \<Rightarrow> Inr (Break st) | Continue st \<Rightarrow> enc_loop inp st)
      else Inr (Break st))"
  by pat_completeness auto
termination by (relation "measure (\<lambda>(inp, st). length inp - lz_ip st)") (auto dest!: enc_round_ip)

declare enc_loop.simps [simp del]

function tail_loop :: "byte list \<Rightarrow> lzf \<Rightarrow> lzf cres" where
  "tail_loop inp st =
     (if lz_ip st < length inp then cbind (put_literal inp st) (\<lambda>st. tail_loop inp st) else Inr st)"
  by pat_completeness auto
termination by (relation "measure (\<lambda>(inp, st). length inp - lz_ip st)") (auto dest!: put_literal_ip)

declare tail_loop.simps [simp del]

definition finish :: "byte list \<Rightarrow> lzf \<Rightarrow> (nat \<times> byte list) cres" where
  "finish inp st =
     (if lz_op st + 3 > length (lz_out st) then Inr (0, lz_out st)
      else cbind (tail_loop inp st) (\<lambda>st.
           cbind (stop_run (lz_op st) (lz_lit st) (lz_out st)) (\<lambda>out.
           Inr (lz_op st - (if lz_lit st = 0 then 1 else 0), out))))"

text \<open>The result is the value returned, 0 if the output does not fit, and the output.\<close>

definition lzf_compress :: "(nat \<Rightarrow> u32) \<Rightarrow> byte list \<Rightarrow> byte list \<Rightarrow> (nat \<times> byte list) cres" where
  "lzf_compress htab inp out =
     (if length inp = 0 \<or> length out = 0 then Inr (0, out)
      else cbind (FRST inp 0) (\<lambda>hval.
        cbind (enc_loop inp \<lparr> lz_ip = 0, lz_op = 1, lz_lit = 0, lz_hval = hval, lz_htab = htab, lz_out = out \<rparr>) (\<lambda>r.
        case r of Return0 out \<Rightarrow> Inr (0, out) | Break st \<Rightarrow> finish inp st | Continue st \<Rightarrow> finish inp st)))"

section \<open>What a stream means\<close>

primrec copy_back :: "nat \<Rightarrow> nat \<Rightarrow> byte list \<Rightarrow> byte list" where
  "copy_back 0 dist xs = xs"
| "copy_back (Suc n) dist xs = copy_back n dist (xs @ [xs ! (length xs - dist)])"

text \<open>One item: the rest of the stream and the output.\<close>

definition item :: "byte \<Rightarrow> byte list \<Rightarrow> byte list \<Rightarrow> (byte list \<times> byte list) option" where
  "item c s xs =
     (if unat c < 32 then
        if unat c + 1 \<le> length s then Some (drop (unat c + 1) s, xs @ take (unat c + 1) s) else None
      else
        case s of
          [] \<Rightarrow> None
        | b # s1 \<Rightarrow>
            if unat c div 32 = 7 then
              (case s1 of
                 [] \<Rightarrow> None
               | b1 # s2 \<Rightarrow>
                   let dist = unat c mod 32 * 256 + unat b1 + 1 in
                   if dist \<le> length xs then Some (s2, copy_back (unat b + 9) dist xs) else None)
            else
              let dist = unat c mod 32 * 256 + unat b + 1 in
              if dist \<le> length xs then Some (s1, copy_back (unat c div 32 + 2) dist xs) else None)"

lemma item_shorter: "item c s xs = Some (s', ys) \<Longrightarrow> length s' \<le> length s"
  by (auto simp: item_def Let_def split: if_splits list.splits)

function lzf_spec :: "byte list \<Rightarrow> byte list \<Rightarrow> byte list option" where
  "lzf_spec [] xs = Some xs"
| "lzf_spec (c # s) xs = (case item c s xs of None \<Rightarrow> None | Some (s', ys) \<Rightarrow> lzf_spec s' ys)"
  by pat_completeness auto
termination by (relation "measure (\<lambda>(s, xs). length s)") (auto dest!: item_shorter)

lemma item_append: "item c s xs = Some (s', ys) \<Longrightarrow> item c (s @ t) xs = Some (s' @ t, ys)"
  by (auto simp: item_def Let_def split: if_splits list.splits)

lemma lzf_spec_append: "lzf_spec s xs = Some ys \<Longrightarrow> lzf_spec (s @ t) xs = lzf_spec t ys"
proof (induction s xs rule: lzf_spec.induct)
  case (2 c s xs)
  then obtain s' zs where i: "item c s xs = Some (s', zs)" "lzf_spec s' zs = Some ys"
    by (auto split: option.splits prod.splits)
  then show ?case using 2(1) [OF i(1) refl i(2)] item_append [OF i(1), of t] by simp
qed simp

lemma length_copy_back: "length (copy_back n dist xs) = length xs + n"
  by (induction n arbitrary: xs) simp_all

lemma item_longer: "item c s xs = Some (s', ys) \<Longrightarrow> length xs < length ys"
  by (auto simp: item_def Let_def length_copy_back split: if_splits list.splits)

lemma lzf_spec_longer: "lzf_spec s xs = Some ys \<Longrightarrow> length xs \<le> length ys"
proof (induction s xs rule: lzf_spec.induct)
  case (2 c s xs)
  then show ?case using item_longer [of c s xs] by (fastforce split: option.splits prod.splits)
qed simp

section \<open>Decompression gives the meaning\<close>

lemma copy_bytes_back:
  assumes "n \<le> length r" and "1 \<le> dist" and "dist \<le> length xs"
  shows "copy_bytes n (length xs - dist) (length xs) (xs @ r) = Inr (copy_back n dist xs @ drop n r)"
  using assms
proof (induction n arbitrary: xs r)
  case (Suc n)
  let ?c = "xs ! (length xs - dist)"
  have lt: "length xs - dist < length xs" using Suc.prems by linarith
  obtain x r' where r: "r = x # r'" using Suc.prems(1) by (cases r) simp_all
  have "copy_bytes (Suc n) (length xs - dist) (length xs) (xs @ r) = copy_bytes n (length xs - dist + 1) (length xs + 1) ((xs @ [?c]) @ r')"
    using lt by (simp add: r nth_append list_update_append)
  also have "\<dots> = copy_bytes n (length (xs @ [?c]) - dist) (length (xs @ [?c])) ((xs @ [?c]) @ r')"
    using Suc.prems(3) by (simp add: Suc_diff_le)
  also have "\<dots> = Inr (copy_back n dist (xs @ [?c]) @ drop n r')" using Suc.prems r by (intro Suc.IH) simp_all
  finally show ?case using r by simp
qed simp

lemma copy_back_block:
  assumes "n \<le> dist" and "dist \<le> length xs"
  shows "copy_back n dist xs = xs @ take n (drop (length xs - dist) xs)"
  using assms
proof (induction n arbitrary: xs)
  case (Suc n)
  let ?k = "length xs - dist"
  have k: "?k < length xs" using Suc.prems by linarith
  have "copy_back (Suc n) dist xs = (xs @ [xs ! ?k]) @ take n (drop (length (xs @ [xs ! ?k]) - dist) (xs @ [xs ! ?k]))"
    using Suc.prems by (simp add: Suc.IH)
  also have "length (xs @ [xs ! ?k]) - dist = Suc ?k" using Suc.prems by (simp add: Suc_diff_le)
  finally show ?case using k Suc.prems by (simp add: drop_nth_Cons)
qed simp

lemma copy_match_ok:
  assumes "len + 2 \<le> length r" and "1 \<le> dist" and "dist \<le> length xs"
  shows "copy_match len (length xs - dist) (length xs) (xs @ r) = Inr (copy_back (len + 2) dist xs @ drop (len + 2) r)"
proof (cases "len \<le> 9 \<or> \<not> length xs \<ge> length xs - dist + (len + 2)")
  case True
  then show ?thesis using copy_bytes_back [OF assms] by (auto simp: copy_match_def)
next
  case False
  then have "len + 2 \<le> dist" using assms(3) by linarith
  then have "copy_back (len + 2) dist xs = xs @ take (len + 2) (drop (length xs - dist) xs)" using assms(3) by (rule copy_back_block)
  moreover have "take (len + 2) (drop (length xs - dist) (xs @ r)) = take (len + 2) (drop (length xs - dist) xs)"
    using \<open>len + 2 \<le> dist\<close> assms by simp
  ultimately show ?thesis using False assms \<open>len + 2 \<le> dist\<close> by (simp add: copy_match_def copy_block_def store_at_def)
qed

lemma copy_literals_ok:
  assumes "ip + n \<le> length inp" and "n \<le> length r"
  shows "copy_literals inp n ip (length xs) (xs @ r) = Inr ((xs @ take n (drop ip inp)) @ drop n r)"
  using assms by (simp add: copy_literals_def store_at_def)

text \<open>One item of the stream is one round of the loop.\<close>

definition dec_next :: "byte list \<Rightarrow> (byte list \<times> byte list) option \<Rightarrow> byte list \<Rightarrow> byte list \<Rightarrow> (nat \<times> byte list) cres" where
  "dec_next inp i xs r =
     (case i of
        None \<Rightarrow> Inr (0, xs @ r)
      | Some (s, ys) \<Rightarrow>
          if length ys > length xs + length r then Inr (0, xs @ r)
          else let r = drop (length ys - length xs) r in
            if s \<noteq> [] then dec_loop inp (length inp - length s) (length ys) (ys @ r) else Inr (length ys, ys @ r))"

lemma dec_next_Some:
  assumes "j \<le> length inp" and "length ys = length xs + n"
  shows "dec_next inp (Some (drop j inp, ys)) xs r =
    (if n > length r then Inr (0, xs @ r)
     else if j < length inp then dec_loop inp j (length xs + n) (ys @ drop n r) else Inr (length xs + n, ys @ drop n r))"
  using assms by (simp add: dec_next_def Let_def)

lemma dec_literals:
  assumes ip: "ip < length inp" and c: "unat (inp ! ip) < 32"
  shows "dec_loop inp ip (length xs) (xs @ r) = dec_next inp (item (inp ! ip) (drop (ip + 1) inp) xs) xs r"
proof (cases "ip + 1 + (unat (inp ! ip) + 1) \<le> length inp")
  case True
  let ?k = "unat (inp ! ip) + 1"
  let ?ys = "xs @ take ?k (drop (ip + 1) inp)"
  have i: "item (inp ! ip) (drop (ip + 1) inp) xs = Some (drop (ip + 1 + ?k) inp, ?ys)"
    using True c by (simp add: item_def add.commute)
  have "copy_literals inp ?k (ip + 1) (length xs) (xs @ r) = Inr (?ys @ drop ?k r)" if "?k \<le> length r"
    using True that by (intro copy_literals_ok) simp_all
  then have "dec_loop inp ip (length xs) (xs @ r) =
      (if ?k > length r then Inr (0, xs @ r)
       else if ip + 1 + ?k < length inp then dec_loop inp (ip + 1 + ?k) (length xs + ?k) (?ys @ drop ?k r)
       else Inr (length xs + ?k, ?ys @ drop ?k r))"
    using ip c True by (subst dec_loop.simps) (simp add: Let_def)
  also have "\<dots> = dec_next inp (item (inp ! ip) (drop (ip + 1) inp) xs) xs r"
    unfolding i using True by (subst dec_next_Some [of _ _ _ _ ?k]) simp_all
  finally show ?thesis .
next
  case False
  then show ?thesis using ip c by (subst dec_loop.simps) (auto simp: Let_def item_def dec_next_def)
qed

text \<open>The common end of the two forms of a match, of \<open>len + 2\<close> bytes from \<open>dist\<close> bytes before.\<close>

lemma dec_match_end:
  assumes j: "j \<le> length inp" and dist: "1 \<le> dist" and ref: "ref = int (length xs) - int dist"
  shows "(if length xs + len + 2 > length (xs @ r) then Inr (0, xs @ r)
     else if ref < 0 then Inr (0, xs @ r)
     else cbind (copy_match len (nat ref) (length xs) (xs @ r)) (\<lambda>out.
       if j < length inp then dec_loop inp j (length xs + len + 2) out else Inr (length xs + len + 2, out))) =
   dec_next inp (if dist \<le> length xs then Some (drop j inp, copy_back (len + 2) dist xs) else None) xs r"
proof (cases "dist \<le> length xs \<and> len + 2 \<le> length r")
  case True
  then have "nat ref = length xs - dist" "\<not> ref < 0" using ref by linarith+
  moreover have "copy_match len (length xs - dist) (length xs) (xs @ r) = Inr (copy_back (len + 2) dist xs @ drop (len + 2) r)"
    using True dist by (intro copy_match_ok) simp_all
  ultimately show ?thesis
    using True dec_next_Some [OF j length_copy_back, of "len + 2" dist xs r] by simp
next
  case False
  then show ?thesis
    using ref dec_next_Some [OF j length_copy_back, of "len + 2" dist xs r] by (auto simp: dec_next_def)
qed

lemma dec_match:
  assumes ip: "ip < length inp" and c: "\<not> unat (inp ! ip) < 32"
  shows "dec_loop inp ip (length xs) (xs @ r) = dec_next inp (item (inp ! ip) (drop (ip + 1) inp) xs) xs r"
proof -
  let ?c = "unat (inp ! ip)"
  have c': "\<not> ?c < 2 ^ 5" using c by simp
  consider "length inp \<le> ip + 1" | "ip + 1 < length inp" "?c div 32 \<noteq> 7" | "length inp = ip + 2" "?c div 32 = 7" | "ip + 2 < length inp" "?c div 32 = 7"
    by linarith
  then show ?thesis
  proof cases
    case 1
    then show ?thesis using ip c' by (subst dec_loop.simps) (simp add: Let_def item_def dec_next_def)
  next
    case s: 2
    let ?d = "?c mod 32 * 256 + unat (inp ! (ip + 1)) + 1"
    have i: "item (inp ! ip) (drop (ip + 1) inp) xs =
        (if ?d \<le> length xs then Some (drop (ip + 2) inp, copy_back (?c div 32 + 2) ?d xs) else None)"
      using c s drop_nth_Cons [of "ip + 1" inp] by (simp add: item_def Let_def)
    have rd: "rd inp ip = Inr (inp ! ip)" "rd inp (ip + 1) = Inr (inp ! (ip + 1))" using s by simp_all
    have f: "(?c < 2 ^ 5) = False" "(ip + 1 \<ge> length inp) = False" "(?c div 2 ^ 5 = 7) = False" using c' s by simp_all
    have "dec_loop inp ip (length xs) (xs @ r) =
        dec_next inp (if ?d \<le> length xs then Some (drop (ip + 1 + 1) inp, copy_back (?c div 2 ^ 5 + 2) ?d xs) else None) xs r"
      by (subst dec_loop.simps, subst dec_match_end [symmetric, of "ip + 1 + 1" inp ?d
            "int (length xs) - int (?c mod 32 * 2 ^ 8) - 1 - int (unat (inp ! (ip + 1)))"])
        (use s in \<open>simp_all only: rd f cbind_Inr Let_def if_False if_cancel simp_thms prod.case\<close>, simp_all)
    then show ?thesis unfolding i by simp
  next
    case s: 3
    have "item (inp ! ip) (drop (ip + 1) inp) xs = None"
      using c s drop_nth_Cons [of "ip + 1" inp] by (simp add: item_def)
    then show ?thesis using ip c' s by (subst dec_loop.simps) (simp add: Let_def dec_next_def)
  next
    case s: 4
    let ?d = "?c mod 32 * 256 + unat (inp ! (ip + 2)) + 1"
    have d3: "drop (ip + 1) inp = inp ! (ip + 1) # inp ! (ip + 2) # drop (ip + 1 + 1 + 1) inp"
      using s drop_nth_Cons [of "ip + 1" inp] drop_nth_Cons [of "ip + 2" inp] by simp
    have nine: "?c div 2 ^ 5 + unat (inp ! (ip + 1)) + 2 = unat (inp ! (ip + 1)) + 9" using s(2) by simp
    have i: "item (inp ! ip) (drop (ip + 1) inp) xs =
        (if ?d \<le> length xs then Some (drop (ip + 1 + 1 + 1) inp, copy_back (unat (inp ! (ip + 1)) + 9) ?d xs) else None)"
      unfolding d3 item_def Let_def using c s(2) by simp
    have rd: "rd inp ip = Inr (inp ! ip)" "rd inp (ip + 1) = Inr (inp ! (ip + 1))" "rd inp (ip + 1 + 1) = Inr (inp ! (ip + 2))"
      using s by simp_all
    have f: "(?c < 2 ^ 5) = False" "(ip + 1 \<ge> length inp) = False" "(?c div 2 ^ 5 = 7) = True" "(ip + 1 + 1 \<ge> length inp) = False"
      using c' s by simp_all
    have "dec_loop inp ip (length xs) (xs @ r) =
        dec_next inp (if ?d \<le> length xs then Some (drop (ip + 1 + 1 + 1) inp, copy_back (?c div 2 ^ 5 + unat (inp ! (ip + 1)) + 2) ?d xs) else None) xs r"
      by (subst dec_loop.simps, subst dec_match_end [symmetric, of "ip + 1 + 1 + 1" inp ?d
            "int (length xs) - int (?c mod 32 * 2 ^ 8) - 1 - int (unat (inp ! (ip + 2)))"])
        (use s in \<open>simp_all only: rd f cbind_Inr Let_def if_False if_True if_cancel simp_thms prod.case\<close>, simp_all)
    then show ?thesis unfolding i nine .
  qed
qed

definition dec_result :: "nat \<Rightarrow> byte list option \<Rightarrow> nat \<Rightarrow> byte list \<Rightarrow> bool" where
  "dec_result N sp n out \<longleftrightarrow> length out = N \<and>
     (case sp of None \<Rightarrow> n = 0 | Some ys \<Rightarrow> if length ys \<le> N then n = length ys \<and> take n out = ys else n = 0)"

lemma item_suffix: "item c s xs = Some (s', ys) \<Longrightarrow> s' = drop (length s - length s') s"
  by (auto simp: item_def Let_def split: if_splits list.splits)

lemma dec_loop_ok:
  assumes "ip < length inp"
  shows "\<exists>n out. dec_loop inp ip (length xs) (xs @ r) = Inr (n, out) \<and> dec_result (length xs + length r) (lzf_spec (drop ip inp) xs) n out"
  using assms
proof (induction "length inp - ip" arbitrary: ip xs r rule: less_induct)
  case less
  let ?i = "item (inp ! ip) (drop (ip + 1) inp) xs"
  have step: "dec_loop inp ip (length xs) (xs @ r) = dec_next inp ?i xs r"
    using dec_literals [OF less.prems] dec_match [OF less.prems] by blast
  have spec: "lzf_spec (drop ip inp) xs = (case ?i of None \<Rightarrow> None | Some (s', ys) \<Rightarrow> lzf_spec s' ys)"
    using less.prems by (simp add: drop_nth_Cons)
  show ?case
  proof (cases ?i)
    case None
    then show ?thesis unfolding step spec by (simp add: dec_next_def dec_result_def)
  next
    case (Some i)
    obtain s' ys where i: "i = (s', ys)" by (cases i)
    have it: "?i = Some (s', ys)" using Some i by simp
    have longer: "length xs < length ys" by (rule item_longer [OF it])
    show ?thesis
    proof (cases "length ys > length xs + length r")
      case True
      then have "\<not> length zs \<le> length xs + length r" if "lzf_spec s' ys = Some zs" for zs using lzf_spec_longer [OF that] by simp
      then show ?thesis unfolding step spec it using True by (auto simp: dec_next_def dec_result_def split: option.splits)
    next
      case False
      let ?r = "drop (length ys - length xs) r" and ?j = "length inp - length s'"
      have N: "length ys + length ?r = length xs + length r" using False longer by simp
      show ?thesis
      proof (cases "s' = []")
        case True
        then show ?thesis unfolding step spec it using False N by (simp add: dec_next_def dec_result_def)
      next
        case ne: False
        have "length s' \<le> length (drop (ip + 1) inp)" by (rule item_shorter [OF it])
        then have l: "length s' \<le> length inp - (ip + 1)" by simp
        have j: "?j < length inp" "length inp - ?j < length inp - ip" using ne l less.prems by (simp_all flip: length_greater_0_conv)
        have "s' = drop (length (drop (ip + 1) inp) - length s') (drop (ip + 1) inp)" by (rule item_suffix [OF it])
        also have "\<dots> = drop ?j inp"
        proof -
          have "length inp - (ip + 1) - length s' + (ip + 1) = ?j" using l less.prems by linarith
          then show ?thesis by (simp only: drop_drop length_drop)
        qed
        finally have s': "drop ?j inp = s'" by simp
        obtain n out where "dec_loop inp ?j (length ys) (ys @ ?r) = Inr (n, out)" "dec_result (length ys + length ?r) (lzf_spec (drop ?j inp) ys) n out"
          using less.hyps [OF j(2,1)] by blast
        then show ?thesis unfolding step spec it using False ne N s' by (simp add: dec_next_def Let_def add.commute)
      qed
    qed
  qed
qed

section \<open>Compression is inverted\<close>

lemma copy_back_take:
  assumes "\<forall>k < n. inp ! (ref + k) = inp ! (ip + k)" and "ref < ip" and "ip + n \<le> length inp"
  shows "copy_back n (ip - ref) (take ip inp) = take (ip + n) inp"
  using assms
proof (induction n arbitrary: ref ip)
  case (Suc n)
  have "take ip inp ! (length (take ip inp) - (ip - ref)) = inp ! ip" using Suc.prems by (auto dest: spec [of _ 0])
  then have "copy_back (Suc n) (ip - ref) (take ip inp) = copy_back n (Suc ip - Suc ref) (take (Suc ip) inp)"
    using Suc.prems(3) by (simp add: take_Suc_nth)
  also have "\<dots> = take (Suc ip + n) inp"
    using Suc.prems by (intro Suc.IH) (auto dest: spec [of _ "Suc k" for k])
  finally show ?case by simp
qed simp

definition same_upto :: "byte list \<Rightarrow> nat \<Rightarrow> nat \<Rightarrow> nat \<Rightarrow> bool" where
  "same_upto inp ref ip n \<longleftrightarrow> ip + n \<le> length inp \<and> (\<forall>k < n. inp ! (ref + k) = inp ! (ip + k))"

lemma same_upto_Suc:
  "same_upto inp ref ip n \<Longrightarrow> ip + n < length inp \<Longrightarrow> inp ! (ref + n) = inp ! (ip + n) \<Longrightarrow> same_upto inp ref ip (Suc n)"
  by (auto simp: same_upto_def less_Suc_eq)

lemma extend_ok:
  assumes "ref < ip" and "same_upto inp ref ip (len + 1)" and "ip + maxlen \<le> length inp" and "len + 1 \<le> M" and "maxlen \<le> M"
  shows "\<exists>l. extend inp ref ip maxlen len = Inr l \<and> len + 1 \<le> l \<and> l \<le> M \<and> same_upto inp ref ip l"
  using assms
proof (induction inp ref ip maxlen len rule: extend.induct)
  case (1 inp ref ip maxlen len)
  show ?case
  proof (cases "len + 1 < maxlen \<and> inp ! (ref + (len + 1)) = inp ! (ip + (len + 1))")
    case True
    have rd: "rd inp (ref + (len + 1)) = Inr (inp ! (ref + (len + 1)))" "rd inp (ip + (len + 1)) = Inr (inp ! (ip + (len + 1)))"
      using True 1(2,4) by simp_all
    have "same_upto inp ref ip (len + 1 + 1)" using same_upto_Suc [OF 1(3)] True 1(4) by simp
    then have "\<exists>l. extend inp ref ip maxlen (len + 1) = Inr l \<and> len + 1 + 1 \<le> l \<and> l \<le> M \<and> same_upto inp ref ip l"
      using True rd 1 by (intro 1(1) [OF _ rd]) auto
    then show ?thesis using True rd by (subst extend.simps) auto
  next
    case False
    then show ?thesis using 1(2-5) by (subst extend.simps) auto
  qed
qed

lemma unrolled_ok:
  assumes "ref < ip" and "same_upto inp ref ip (len + 1)" and "ip + len + n < length inp"
  shows "\<exists>l stop. unrolled inp ref ip n len = Inr (l, stop) \<and> len \<le> l \<and> l \<le> len + n \<and>
    (if stop then len < l \<and> same_upto inp ref ip l else same_upto inp ref ip (l + 1))"
  using assms
proof (induction n arbitrary: len)
  case (Suc n)
  have rd: "rd inp (ref + (len + 1)) = Inr (inp ! (ref + (len + 1)))" "rd inp (ip + (len + 1)) = Inr (inp ! (ip + (len + 1)))"
    using Suc.prems by simp_all
  show ?case
  proof (cases "inp ! (ref + (len + 1)) = inp ! (ip + (len + 1))")
    case True
    have "same_upto inp ref ip (len + 1 + 1)" using same_upto_Suc [OF Suc.prems(2)] True Suc.prems(3) by simp
    then obtain l stop where "unrolled inp ref ip n (len + 1) = Inr (l, stop)" "len + 1 \<le> l" "l \<le> len + 1 + n"
        "if stop then len + 1 < l \<and> same_upto inp ref ip l else same_upto inp ref ip (l + 1)"
      using Suc.IH [of "len + 1"] Suc.prems by auto
    then show ?thesis using True rd by (intro exI [of _ l] exI [of _ stop]) auto
  next
    case False
    then show ?thesis using rd Suc.prems(2) by (intro exI [of _ "len + 1"] exI [of _ True]) simp
  qed
qed auto

lemma match_len_ok:
  assumes ref: "ref < ip" and same: "same_upto inp ref ip 3"
  shows "\<exists>len. match_len inp ref ip = Inr len \<and> 3 \<le> len \<and> len \<le> 264 \<and> same_upto inp ref ip len"
proof -
  define maxlen where "maxlen = (if length inp - ip - 2 > MAX_REF then MAX_REF else length inp - ip - 2)"
  have m: "ip + maxlen + 2 \<le> length inp" "maxlen \<le> 264" using same by (auto simp: maxlen_def MAX_REF_def same_upto_def)
  show ?thesis
  proof (cases "maxlen > 16")
    case True
    obtain l stop where u: "unrolled inp ref ip 16 2 = Inr (l, stop)" "2 \<le> l" "l \<le> 18"
        "if stop then 2 < l \<and> same_upto inp ref ip l else same_upto inp ref ip (l + 1)"
      using unrolled_ok [OF ref, of inp 2 16] same True m by (auto simp: numeral_3_eq_3)
    have e: "match_len inp ref ip = (if stop then Inr l else extend inp ref ip maxlen l)"
      using True u(1) unfolding match_len_def Let_def maxlen_def [symmetric] by simp
    show ?thesis
    proof (cases stop)
      case True
      then show ?thesis using u e by auto
    next
      case False
      then show ?thesis using extend_ok [OF ref, of inp l maxlen 264] u m e by auto
    qed
  next
    case False
    then have "match_len inp ref ip = extend inp ref ip maxlen 2" unfolding match_len_def Let_def maxlen_def [symmetric] by simp
    then show ?thesis using extend_ok [OF ref, of inp 2 maxlen 264] same m by (auto simp: numeral_3_eq_3)
  qed
qed

lemma is_match_ok:
  assumes ip: "ip + 3 \<le> length inp" and len: "length inp < 2 ^ 32" and ref: "ref < 2 ^ 32"
  shows "\<exists>m. is_match inp ref ip = Inr m \<and>
    (m \<longrightarrow> ref < ip \<and> int ip - int ref - 1 < 2 ^ 13 \<and> (int ip - int ref - 1) mod 2 ^ 64 = int ip - int ref - 1 \<and> same_upto inp ref ip 3)"
proof (cases "(int ip - int ref - 1) mod 2 ^ 64 < MAX_OFF \<and> ref > 0")
  case False
  then show ?thesis by (auto simp: is_match_def Let_def)
next
  case True
  have lt: "ref < ip"
  proof (rule ccontr)
    assume "\<not> ref < ip"
    then have n: "int ip - int ref - 1 < 0" "- 4294967297 \<le> int ip - int ref - 1" using ref by simp_all
    then have "(int ip - int ref - 1 + 2 ^ 64) mod 2 ^ 64 = int ip - int ref - 1 + 2 ^ 64" by (intro mod_pos_pos_trivial) simp_all
    then have "(int ip - int ref - 1) mod 2 ^ 64 = int ip - int ref - 1 + 2 ^ 64" by (simp only: mod_add_self2)
    then show False using True n unfolding MAX_OFF_def by simp
  qed
  then have m: "(int ip - int ref - 1) mod 2 ^ 64 = int ip - int ref - 1" using ip len by (intro mod_pos_pos_trivial) simp_all
  have rd: "rd inp (ref + k) = Inr (inp ! (ref + k))" "rd inp (ip + k) = Inr (inp ! (ip + k))" if "k < 3" for k
    using that lt ip by simp_all
  have "same_upto inp ref ip 3" if "inp ! (ref + 2) = inp ! (ip + 2)" "inp ! ref = inp ! ip" "inp ! (ref + 1) = inp ! (ip + 1)"
    using that ip by (auto simp: same_upto_def numeral_3_eq_3 numeral_2_eq_2 less_Suc_eq)
  then show ?thesis
    using True lt m rd [of 0] rd [of 1] rd [of 2] by (auto simp: is_match_def Let_def and_then_def MAX_OFF_def)
qed

text \<open>
  The state of the compressor: what was written before the run that is open means what was read
  before it, and the run holds the bytes read since.
\<close>

definition enc_inv :: "byte list \<Rightarrow> nat \<Rightarrow> nat \<Rightarrow> nat \<Rightarrow> byte list \<Rightarrow> bool" where
  "enc_inv inp ip op lit out \<longleftrightarrow> lit + 1 \<le> op \<and> lit \<le> 32 \<and> lit \<le> ip \<and> ip \<le> length inp \<and>
     op \<le> length out + 1 \<and> (lit \<noteq> 0 \<longrightarrow> op \<le> length out) \<and>
     lzf_spec (take (op - lit - 1) out) [] = Some (take (ip - lit) inp) \<and>
     take lit (drop (op - lit) out) = take lit (drop (ip - lit) inp)"

lemma stop_run_ok:
  assumes inv: "enc_inv inp ip op lit out" and op: "op \<le> length out"
  shows "\<exists>out'. stop_run op lit out = Inr out' \<and> length out' = length out \<and>
    lzf_spec (take (op - (if lit = 0 then 1 else 0)) out') [] = Some (take ip inp)"
proof -
  let ?rs = "op - lit - 1" and ?c = "word_of_int (int lit - 1) :: byte"
  have b: "lit + 1 \<le> op" "lit \<le> 32" "lit \<le> ip" "ip \<le> length inp" using inv by (simp_all add: enc_inv_def)
  have s: "lzf_spec (take ?rs out) [] = Some (take (ip - lit) inp)" and l: "take lit (drop (op - lit) out) = take lit (drop (ip - lit) inp)"
    using inv by (simp_all add: enc_inv_def)
  have run: "stop_run op lit out = Inr (out[?rs := ?c])" using b op by (simp add: stop_run_def)
  show ?thesis
  proof (cases "lit = 0")
    case True
    then show ?thesis using run s by simp
  next
    case False
    have n: "unat ?c = lit - 1"
    proof -
      have "?c = word_of_nat (lit - 1)" using False by (simp add: of_nat_diff)
      then show ?thesis using b(2) by (simp add: unat_of_nat)
    qed
    have e: "op = Suc (?rs + lit)" using b by simp
    have "take op (out[?rs := ?c]) = take ?rs out @ ?c # take lit (drop (op - lit) out)"
    proof -
      have "out[?rs := ?c] = take ?rs out @ ?c # drop (op - lit) out"
        using b op upd_conv_take_nth_drop [of ?rs out ?c] Suc_diff_Suc [of lit op] by simp
      then show ?thesis using b op by simp
    qed
    also have "lzf_spec \<dots> [] = lzf_spec (?c # take lit (drop (ip - lit) inp)) (take (ip - lit) inp)"
      unfolding l by (rule lzf_spec_append [OF s])
    also have "\<dots> = Some (take (ip - lit) inp @ take lit (drop (ip - lit) inp))"
    proof -
      have "lit - Suc 0 < 32" using b False by simp
      then show ?thesis using n False b by (simp add: item_def)
    qed
    also have "take (ip - lit) inp @ take lit (drop (ip - lit) inp) = take ip inp"
      using b by (simp add: take_add [symmetric])
    finally show ?thesis using run False by simp
  qed
qed

text \<open>The output grows by the bytes read and one header for every full run; a match pays for the header in front of it.\<close>

definition enc_small :: "nat \<Rightarrow> nat \<Rightarrow> nat \<Rightarrow> bool" where
  "enc_small ip op lit \<longleftrightarrow> op \<le> ip + 1 + (ip - lit) div 32"

definition lzf_bound :: "nat \<Rightarrow> nat" where
  "lzf_bound n = n + n div 32 + 4"

lemma enc_small_literal: "enc_small ip op lit \<Longrightarrow> enc_small (ip + 1) (op + 1) (lit + 1)"
  by (simp add: enc_small_def)

lemma enc_small_full: "enc_small ip op 31 \<Longrightarrow> 31 \<le> ip \<Longrightarrow> enc_small (ip + 1) (op + 2) 0"
  using div_add_self2 [of 32 "ip - 31"] by (simp add: enc_small_def)

lemma enc_small_match:
  assumes "enc_small ip op lit" and "op' \<le> op + 2 \<or> op' \<le> op + 3 \<and> 9 \<le> len" and "3 \<le> len"
  shows "enc_small (ip + len) (op' + 1) 0"
proof -
  have "(ip - lit) div 32 \<le> (ip + len) div 32" by (intro div_le_mono) simp
  then show ?thesis using assms by (auto simp: enc_small_def)
qed

lemma enc_small_bound: "enc_small ip op lit \<Longrightarrow> ip \<le> n \<Longrightarrow> op + (n - ip) + 3 \<le> lzf_bound n"
  using div_le_mono [of "ip - lit" n 32] by (simp add: enc_small_def lzf_bound_def)

text \<open>The invariant of the loops, with the run not yet full.\<close>

definition enc_ok :: "byte list \<Rightarrow> nat \<Rightarrow> lzf \<Rightarrow> bool" where
  "enc_ok inp N st \<longleftrightarrow> enc_inv inp (lz_ip st) (lz_op st) (lz_lit st) (lz_out st) \<and> lz_lit st < 32 \<and> length (lz_out st) = N \<and>
     enc_small (lz_ip st) (lz_op st) (lz_lit st)"

lemma put_literal_ok:
  assumes ok: "enc_ok inp N st" and ip: "lz_ip st < length inp" and op: "lz_op st < N"
  shows "\<exists>st'. put_literal inp st = Inr st' \<and> enc_ok inp N st' \<and> lz_ip st' = lz_ip st + 1 \<and>
    (lz_op st' = lz_op st + 1 \<and> lz_lit st' = lz_lit st + 1 \<or> lz_op st' = lz_op st + 2 \<and> lz_lit st' = 0 \<and> lz_lit st = 31)"
proof -
  let ?ip = "lz_ip st" and ?op = "lz_op st" and ?lit = "lz_lit st" and ?out = "lz_out st"
  let ?o = "?out[?op := inp ! ?ip]"
  have inv: "enc_inv inp ?ip ?op ?lit ?out" and lit: "?lit < 32" and N: "length ?out = N" and sm: "enc_small ?ip ?op ?lit"
    using ok by (simp_all add: enc_ok_def)
  have b: "?lit + 1 \<le> ?op" "?lit \<le> ?ip" and s: "lzf_spec (take (?op - ?lit - 1) ?out) [] = Some (take (?ip - ?lit) inp)"
    and l: "take ?lit (drop (?op - ?lit) ?out) = take ?lit (drop (?ip - ?lit) inp)"
    using inv by (simp_all add: enc_inv_def)
  have "take (?lit + 1) (drop (?op - ?lit) ?o) = take (?lit + 1) (drop (?ip - ?lit) inp)"
  proof -
    have "drop (?op - ?lit) ?o = (drop (?op - ?lit) ?out)[?lit := inp ! ?ip]" using b by (simp add: drop_update_swap)
    then have "take (?lit + 1) (drop (?op - ?lit) ?o) = take ?lit (drop (?op - ?lit) ?out) @ [inp ! ?ip]"
      using b op N by (simp add: take_Suc_nth take_update_swap list_update_append)
    also have "\<dots> = take (?lit + 1) (drop (?ip - ?lit) inp)" unfolding l using b ip by (simp add: take_Suc_nth)
    finally show ?thesis .
  qed
  then have inv': "enc_inv inp (?ip + 1) (?op + 1) (?lit + 1) ?o"
    using b s lit ip op N by (simp add: enc_inv_def)
  have w: "rd inp ?ip = Inr (inp ! ?ip)" "wr ?out ?op (inp ! ?ip) = Inr ?o" using ip op N by simp_all
  show ?thesis
  proof (cases "?lit + 1 = MAX_LIT")
    case False
    then show ?thesis using w inv' lit N enc_small_literal [OF sm] by (simp add: put_literal_def Let_def enc_ok_def MAX_LIT_def)
  next
    case True
    obtain out' where o: "stop_run (?op + 1) (?lit + 1) ?o = Inr out'" "length out' = length ?o"
        "lzf_spec (take (?op + 1) out') [] = Some (take (?ip + 1) inp)"
      using stop_run_ok [OF inv'] op N by auto
    then have "enc_inv inp (?ip + 1) (?op + 2) 0 out'" using ip op N by (simp add: enc_inv_def)
    moreover have "?lit = 31" using True by (simp add: MAX_LIT_def)
    then have "enc_small (?ip + 1) (?op + 2) 0" using sm b(2) by (simp only: enc_small_full)
    ultimately show ?thesis using w o True N by (simp add: put_literal_def Let_def enc_ok_def MAX_LIT_def)
  qed
qed

lemma emit_short:
  assumes "off < 2 ^ 13" and "1 \<le> L" and "L < 7" and "off < length xs"
  shows "lzf_spec [word_of_nat (off div 256 + L * 32), word_of_nat (off mod 256)] xs = Some (copy_back (L + 2) (off + 1) xs)"
proof -
  let ?h = "off div 256 + L * 32"
  have hi: "off div 256 < 32" using assms(1) by (simp add: div_less_iff_less_mult)
  then have "?h < 256" using assms(3) by simp
  then have u: "unat (word_of_nat ?h :: byte) = ?h" "unat (word_of_nat (off mod 256) :: byte) = off mod 256"
    by (intro unat_of_nat_small; simp)+
  have d: "?h div 32 = L" "?h mod 32 = off div 256" "\<not> ?h < 32" using hi assms(2) by simp_all
  have dist: "off div 256 * 256 + off mod 256 + 1 = off + 1" using div_mult_mod_eq [of off 256] by simp
  have "item (word_of_nat ?h) [word_of_nat (off mod 256)] xs = Some ([], copy_back (L + 2) (off + 1) xs)"
    unfolding item_def u d(1,2) list.case dist Let_def using d(3) assms(3,4) by simp
  then show ?thesis by simp
qed

lemma emit_long:
  assumes "off < 2 ^ 13" and "7 \<le> L" and "L \<le> 262" and "off < length xs"
  shows "lzf_spec [word_of_nat (off div 256 + 224), word_of_nat (L - 7), word_of_nat (off mod 256)] xs = Some (copy_back (L + 2) (off + 1) xs)"
proof -
  let ?h = "off div 256 + 224"
  have hi: "off div 256 < 32" using assms(1) by (simp add: div_less_iff_less_mult)
  then have u: "unat (word_of_nat ?h :: byte) = ?h" "unat (word_of_nat (off mod 256) :: byte) = off mod 256" "unat (word_of_nat (L - 7) :: byte) = L - 7"
    using assms(3) by (intro unat_of_nat_small; simp)+
  have d: "?h div 32 = 7" "?h mod 32 = off div 256" "\<not> ?h < 32"
    using hi mod_mult_self1 [of "off div 256" 7 32] by simp_all
  have dist: "off div 256 * 256 + off mod 256 + 1 = off + 1" "L - 7 + 9 = L + 2" using div_mult_mod_eq [of off 256] assms(2) by simp_all
  have "item (word_of_nat ?h) [word_of_nat (L - 7), word_of_nat (off mod 256)] xs = Some ([], copy_back (L + 2) (off + 1) xs)"
    unfolding item_def u d(1,2) list.case dist Let_def using d(3) assms(4) by simp
  then show ?thesis by simp
qed

lemma word_of_off:
  assumes "0 \<le> off"
  shows "(word_of_int (off div 2 ^ 8 + int L * 2 ^ 5) :: byte) = word_of_nat (nat off div 256 + L * 32)"
    "(word_of_int (off div 2 ^ 8 + 7 * 2 ^ 5) :: byte) = word_of_nat (nat off div 256 + 224)"
    "(word_of_int off :: byte) = word_of_nat (nat off mod 256)"
proof -
  obtain k where k: "off = int k" using assms by (metis nonneg_int_cases)
  have "off div 2 ^ 8 + int L * 2 ^ 5 = int (k div 256 + L * 32)" "off div 2 ^ 8 + 7 * 2 ^ 5 = int (k div 256 + 224)"
    by (simp_all add: k zdiv_int)
  then show "(word_of_int (off div 2 ^ 8 + int L * 2 ^ 5) :: byte) = word_of_nat (nat off div 256 + L * 32)"
    "(word_of_int (off div 2 ^ 8 + 7 * 2 ^ 5) :: byte) = word_of_nat (nat off div 256 + 224)"
    unfolding k nat_int by (simp_all only: of_int_of_nat_eq)
  show "(word_of_int off :: byte) = word_of_nat (nat off mod 256)"
    unfolding k nat_int of_int_of_nat_eq by (rule word_unat_eq_iff [THEN iffD2]) (simp add: unat_of_nat)
qed

lemma emit_match_ok:
  assumes off: "0 \<le> off" "off < 2 ^ 13" "nat off < length xs" and L: "1 \<le> L" "L \<le> 262" and op: "op + 3 \<le> length out"
    and s: "lzf_spec (take op out) [] = Some xs"
  shows "\<exists>op' out'. emit_match L off op out = Inr (op', out') \<and> op' \<le> op + (if L < 7 then 2 else 3) \<and> length out' = length out \<and>
    lzf_spec (take op' out') [] = Some (copy_back (L + 2) (nat off + 1) xs)"
proof -
  have o: "nat off < 2 ^ 13" using off by simp
  define bs :: "byte list" where "bs = (if L < 7 then [word_of_nat (nat off div 256 + L * 32), word_of_nat (nat off mod 256)]
    else [word_of_nat (nat off div 256 + 224), word_of_nat (L - 7), word_of_nat (nat off mod 256)])"
  have "lzf_spec bs xs = Some (copy_back (L + 2) (nat off + 1) xs)"
    using emit_short [OF o L(1) _ off(3)] emit_long [OF o _ L(2) off(3)] by (simp add: bs_def)
  moreover have bs3: "length bs \<le> (if L < 7 then 2 else 3)" "length bs \<le> 3" by (simp_all add: bs_def)
  moreover have fit: "op + length bs \<le> length out" using op bs3 by simp
  moreover have "emit_match L off op out = Inr (op + length bs, store_at out op bs)"
    using op unfolding emit_match_def word_of_off [OF off(1)]
    by (simp add: bs_def store_at_def upd_conv_take_nth_drop list_update_append drop_nth_Cons)
  ultimately show ?thesis
    using take_store_at [OF fit] lzf_spec_append [OF s, of bs] op bs3 by (intro exI [of _ "op + length bs"] exI [of _ "store_at out op bs"]) simp
qed

lemma rehash_ok:
  assumes "enc_ok inp N st" and "2 \<le> lz_ip st" and "lz_ip st + 2 < length inp"
  shows "\<exists>st'. rehash inp st = Inr st' \<and> enc_ok inp N st'"
proof -
  have rd: "rd inp (lz_ip st - 2 + k) = Inr (inp ! (lz_ip st - 2 + k))" if "k \<le> 3" for k using that assms by simp
  have "Suc (Suc (lz_ip st - 2)) = lz_ip st" using assms(2) by simp
  then show ?thesis
    using assms(1) rd [of 0] rd [of 1] rd [of 2] rd [of 3]
    by (simp add: rehash_def FRST_def NEXT_def Let_def enc_ok_def numeral_3_eq_3)
qed

text \<open>The loop gives up only when the output is shorter than the bound.\<close>

definition round_ok :: "byte list \<Rightarrow> nat \<Rightarrow> round \<Rightarrow> bool" where
  "round_ok inp N r \<longleftrightarrow> (case r of Return0 out \<Rightarrow> length out = N \<and> N < lzf_bound (length inp) | Break st \<Rightarrow> enc_ok inp N st \<and> length inp \<le> lz_ip st + 2 | Continue st \<Rightarrow> enc_ok inp N st)"

lemma enc_match_ok:
  assumes ok: "enc_ok inp N st" and ref: "ref < lz_ip st" and off: "int (lz_ip st) - int ref - 1 < 2 ^ 13"
    and m: "(int (lz_ip st) - int ref - 1) mod 2 ^ 64 = int (lz_ip st) - int ref - 1" and same: "same_upto inp ref (lz_ip st) 3"
  shows "\<exists>r. enc_match inp ref st = Inr r \<and> round_ok inp N r"
proof -
  let ?ip = "lz_ip st" and ?op = "lz_op st" and ?lit = "lz_lit st" and ?out = "lz_out st"
  let ?nl = "if ?lit = 0 then 1 else 0 :: nat" and ?off = "int (lz_ip st) - int ref - 1"
  have inv: "enc_inv inp ?ip ?op ?lit ?out" and N: "length ?out = N" and sm: "enc_small ?ip ?op ?lit" using ok by (simp_all add: enc_ok_def)
  show ?thesis
  proof (cases "?op + 3 + 1 \<ge> length ?out \<and> ?op - ?nl + 3 + 1 \<ge> length ?out")
    case True
    have "?ip + 3 \<le> length inp" using same by (simp add: same_upto_def)
    then have "?op + 3 + 3 \<le> lzf_bound (length inp)" using enc_small_bound [OF sm, of "length inp"] by simp
    then show ?thesis using N True by (auto simp: enc_match_def Let_def round_ok_def)
  next
    case False
    then have room: "?op - ?nl + 3 < N" "?op \<le> length ?out" using N by (auto split: if_splits)
    obtain o1 where o1: "stop_run ?op ?lit ?out = Inr o1" "length o1 = N" "lzf_spec (take (?op - ?nl) o1) [] = Some (take ?ip inp)"
      using stop_run_ok [OF inv room(2)] N by auto
    obtain len where len: "match_len inp ref ?ip = Inr len" "3 \<le> len" "len \<le> 264" "same_upto inp ref ?ip len"
      using match_len_ok [OF ref same] by blast
    have ipl: "?ip + len \<le> length inp" using len(4) by (simp add: same_upto_def)
    have "nat ?off < ?ip" using ref by linarith
    then have p: "0 \<le> ?off" "nat ?off < length (take ?ip inp)" "1 \<le> len - 2" "len - 2 \<le> 262" "?op - ?nl + 3 \<le> length o1"
      using ref len(2,3) room(1) ipl o1(2) by simp_all
    obtain op' o2 where o2: "emit_match (len - 2) ?off (?op - ?nl) o1 = Inr (op', o2)" "op' \<le> ?op - ?nl + (if len - 2 < 7 then 2 else 3)" "length o2 = N"
        "lzf_spec (take op' o2) [] = Some (copy_back (len - 2 + 2) (nat ?off + 1) (take ?ip inp))"
      using emit_match_ok [OF p(1) off p(2-5) o1(3)] unfolding o1(2) by blast
    have "len - 2 + 2 = len" "nat ?off + 1 = ?ip - ref" using len ref by linarith+
    moreover have "copy_back len (?ip - ref) (take ?ip inp) = take (?ip + len) inp"
      using copy_back_take [of len inp ref ?ip] len(4) ref by (simp add: same_upto_def)
    ultimately have spec: "lzf_spec (take op' o2) [] = Some (take (?ip + len) inp)" using o2(4) by simp
    let ?st = "st\<lparr>lz_ip := ?ip + len, lz_op := op' + 1, lz_lit := 0, lz_out := o2\<rparr>"
    have "op' \<le> ?op + 2 \<or> op' \<le> ?op + 3 \<and> 9 \<le> len" "op' \<le> ?op - ?nl + 3" using o2(2) by (auto split: if_splits)
    then have ok': "enc_ok inp N ?st" using spec ipl room o2(3) enc_small_match [OF sm _ len(2), of op'] by (simp add: enc_ok_def enc_inv_def)
    have ip': "?ip + 1 + (len - 2 + 1) = ?ip + len" using len(2) by simp
    have e: "enc_match inp ref st = (if int (?ip + len) \<ge> int (length inp) - 2 then Inr (Break ?st) else cbind (rehash inp ?st) (\<lambda>st. Inr (Continue st)))"
      unfolding enc_match_def Let_def if_not_P [OF False] m o1(1) cbind_Inr len(1) o2(1) prod.case ip' by (rule refl)
    show ?thesis
    proof (cases "int (?ip + len) \<ge> int (length inp) - 2")
      case True
      then show ?thesis unfolding e using ok' by (simp add: round_ok_def)
    next
      case f: False
      have "\<exists>st'. rehash inp ?st = Inr st' \<and> enc_ok inp N st'" by (rule rehash_ok [OF ok']) (use f len(2) in simp_all)
      then show ?thesis unfolding e using f by (auto simp: round_ok_def)
    qed
  qed
qed

lemma enc_round_ok:
  assumes ok: "enc_ok inp N st" and len: "length inp < 2 ^ 32" and ip: "lz_ip st + 3 \<le> length inp"
  shows "\<exists>r. enc_round inp st = Inr r \<and> round_ok inp N r"
proof -
  obtain h where h: "NEXT (lz_hval st) inp (lz_ip st) = Inr h" using ip by (simp add: NEXT_def)
  let ?ref = "unat (lz_htab st (IDX h))"
  let ?st = "st\<lparr>lz_hval := h, lz_htab := (lz_htab st)(IDX h := word_of_nat (lz_ip st))\<rparr>"
  have ok': "enc_ok inp N ?st" using ok by (simp add: enc_ok_def)
  have ref: "?ref < 2 ^ 32" using unat_less [of "lz_htab st (IDX h)"] by simp
  obtain m where m: "is_match inp ?ref (lz_ip st) = Inr m"
      "m \<longrightarrow> ?ref < lz_ip st \<and> int (lz_ip st) - int ?ref - 1 < 2 ^ 13 \<and>
        (int (lz_ip st) - int ?ref - 1) mod 2 ^ 64 = int (lz_ip st) - int ?ref - 1 \<and> same_upto inp ?ref (lz_ip st) 3"
    using is_match_ok [OF ip len ref] by blast
  have e: "enc_round inp st = (if m then enc_match inp ?ref ?st
      else if lz_op st \<ge> length (lz_out st) then Inr (Return0 (lz_out st)) else cbind (put_literal inp ?st) (\<lambda>st. Inr (Continue st)))"
    using m(1) by (simp add: enc_round_def h Let_def)
  show ?thesis
  proof (cases m)
    case True
    then show ?thesis unfolding e using enc_match_ok [OF ok', of ?ref] m(2) by simp
  next
    case False
    show ?thesis
    proof (cases "lz_op st \<ge> length (lz_out st)")
      case True
      have "lz_op st + (length inp - lz_ip st) + 3 \<le> lzf_bound (length inp)"
        using enc_small_bound [of "lz_ip st" "lz_op st" "lz_lit st" "length inp"] ok ip by (simp add: enc_ok_def)
      then show ?thesis unfolding e using True False ok by (simp add: round_ok_def enc_ok_def)
    next
      case op: False
      then obtain st' where "put_literal inp ?st = Inr st'" "enc_ok inp N st'"
        using put_literal_ok [OF ok'] ok ip by (auto simp: enc_ok_def)
      then show ?thesis unfolding e using False op by (simp add: round_ok_def)
    qed
  qed
qed

lemma enc_loop_ok:
  assumes "enc_ok inp N st" and "length inp < 2 ^ 32"
  shows "\<exists>r. enc_loop inp st = Inr r \<and> round_ok inp N r \<and> (\<forall>st. r \<noteq> Continue st)"
  using assms
proof (induction inp st rule: enc_loop.induct)
  case (1 inp st)
  show ?case
  proof (cases "int (lz_ip st) < int (length inp) - 2")
    case True
    then obtain r where r: "enc_round inp st = Inr r" "round_ok inp N r" using enc_round_ok [OF 1(2,3)] by auto
    show ?thesis
    proof (cases r)
      case (Continue st')
      have "\<exists>r. enc_loop inp st' = Inr r \<and> round_ok inp N r \<and> (\<forall>st. r \<noteq> Continue st)"
        using 1(1) [OF True r(1) Continue] r(2) Continue 1(3) by (simp add: round_ok_def)
      then show ?thesis using True r(1) Continue by (subst enc_loop.simps) simp
    qed (use True r in \<open>subst enc_loop.simps, simp\<close>)+
  next
    case False
    then show ?thesis using 1(2) by (subst enc_loop.simps) (simp add: round_ok_def)
  qed
qed

text \<open>At most two bytes are left after the main loop; each takes at most one place more than its own.\<close>

lemma tail_loop_ok:
  assumes ok: "enc_ok inp N st" and ip: "length inp \<le> lz_ip st + 2" and op: "lz_op st + 3 \<le> N"
  shows "\<exists>st'. tail_loop inp st = Inr st' \<and> enc_ok inp N st' \<and> lz_ip st' = length inp \<and> lz_op st' \<le> N"
proof -
  have le: "lz_ip st \<le> length inp" using ok by (simp add: enc_ok_def enc_inv_def)
  consider "lz_ip st = length inp" | "lz_ip st + 1 = length inp" | "lz_ip st + 2 = length inp" using le ip by linarith
  then show ?thesis
  proof cases
    case 1
    then show ?thesis using ok op by (subst tail_loop.simps) simp
  next
    case 2
    then obtain st1 where "put_literal inp st = Inr st1" "enc_ok inp N st1" "lz_ip st1 = length inp" "lz_op st1 \<le> lz_op st + 2"
      using put_literal_ok [OF ok] op by auto
    then show ?thesis using 2 op by (simp add: tail_loop.simps [of inp st] tail_loop.simps [of inp st1])
  next
    case 3
    then obtain st1 where s1: "put_literal inp st = Inr st1" "enc_ok inp N st1" "lz_ip st1 = lz_ip st + 1"
        "lz_op st1 = lz_op st + 1 \<and> lz_lit st1 = lz_lit st + 1 \<or> lz_op st1 = lz_op st + 2 \<and> lz_lit st1 = 0 \<and> lz_lit st = 31"
      using put_literal_ok [OF ok] op by auto
    then obtain st2 where s2: "put_literal inp st1 = Inr st2" "enc_ok inp N st2" "lz_ip st2 = length inp"
        "lz_op st2 = lz_op st1 + 1 \<and> lz_lit st2 = lz_lit st1 + 1 \<or> lz_op st2 = lz_op st1 + 2 \<and> lz_lit st2 = 0 \<and> lz_lit st1 = 31"
      using put_literal_ok [OF s1(2)] op 3 by auto
    have "lz_op st2 \<le> N" using s2(4) s1(4) op by auto
    then show ?thesis using 3 s1 s2 by (simp add: tail_loop.simps [of inp st] tail_loop.simps [of inp st1] tail_loop.simps [of inp st2])
  qed
qed

lemma end_run_ok:
  assumes ok: "enc_ok inp N st" and ip: "length inp \<le> lz_ip st + 2"
  shows "\<exists>n out. finish inp st = Inr (n, out) \<and> n \<le> N \<and> length out = N \<and>
    (n = 0 \<and> N < lzf_bound (length inp) \<or> lzf_spec (take n out) [] = Some inp)"
proof (cases "lz_op st + 3 > length (lz_out st)")
  case True
  have "lz_op st + 3 \<le> lzf_bound (length inp)"
    using enc_small_bound [of "lz_ip st" "lz_op st" "lz_lit st" "length inp"] ok by (auto simp: enc_ok_def enc_inv_def)
  then show ?thesis using ok True by (simp add: finish_def enc_ok_def)
next
  case False
  then obtain st' where st': "tail_loop inp st = Inr st'" "enc_ok inp N st'" "lz_ip st' = length inp" "lz_op st' \<le> N"
    using tail_loop_ok [OF ok ip] ok by (auto simp: enc_ok_def)
  then obtain out where "stop_run (lz_op st') (lz_lit st') (lz_out st') = Inr out" "length out = N"
      "lzf_spec (take (lz_op st' - (if lz_lit st' = 0 then 1 else 0)) out) [] = Some (take (length inp) inp)"
    using stop_run_ok [of inp "length inp" "lz_op st'" "lz_lit st'" "lz_out st'"] by (auto simp: enc_ok_def)
  then show ?thesis using False st' by (auto simp: finish_def)
qed

lemma compress_rounds:
  assumes "2 \<le> length inp" and "length inp < 2 ^ 32" and "out \<noteq> []"
  shows "\<exists>r. round_ok inp (length out) r \<and> (\<forall>st. r \<noteq> Continue st) \<and> lzf_compress htab inp out =
    (case r of Return0 out \<Rightarrow> Inr (0, out) | Break st \<Rightarrow> finish inp st | Continue st \<Rightarrow> finish inp st)"
proof -
  have "rd inp 0 = Inr (inp ! 0)" "rd inp (0 + 1) = Inr (inp ! (0 + 1))" using assms(1) by (intro rd_ok; linarith)+
  then obtain h where h: "FRST inp 0 = Inr h" unfolding FRST_def by simp
  let ?st = "\<lparr> lz_ip = 0, lz_op = 1, lz_lit = 0, lz_hval = h, lz_htab = htab, lz_out = out \<rparr>"
  have ok: "enc_ok inp (length out) ?st" by (simp add: enc_ok_def enc_inv_def enc_small_def)
  obtain r where "enc_loop inp ?st = Inr r" "round_ok inp (length out) r" "\<forall>st. r \<noteq> Continue st"
    using enc_loop_ok [OF ok assms(2)] by blast
  then show ?thesis using assms(1,3) h by (intro exI [of _ r]) (auto simp: lzf_compress_def)
qed

text \<open>Whatever the compressor writes, the decompressor restores.\<close>

lemma lzf_inverts:
  assumes "2 \<le> length inp" and "length inp < 2 ^ 32"
  shows "\<exists>n out'. lzf_compress htab inp out = Inr (n, out') \<and> n \<le> length out \<and> length out' = length out \<and>
    (n = 0 \<and> length out < length inp + length inp div 32 + 4 \<or>
     (\<forall>buf. length buf = length inp \<longrightarrow> lzf_decompress (take n out') buf = Inr (length inp, inp)))"
proof -
  have rt: "lzf_decompress (take n out') buf = Inr (length inp, inp)" if n: "lzf_spec (take n out') [] = Some inp" and buf: "length buf = length inp" for n out' buf
  proof -
    have ne: "take n out' \<noteq> []" using n assms(1) by (cases "take n out'") auto
    obtain k out2 where "lzf_decompress (take n out') buf = Inr (k, out2)" "length out2 = length buf" "k = length inp" "take k out2 = inp"
      using dec_loop_ok [of 0 "take n out'" "[]" buf] ne n buf by (auto simp: lzf_decompress_def dec_result_def)
    then show ?thesis using buf by simp
  qed
  show ?thesis
  proof (cases "length out = 0")
    case True
    then show ?thesis by (simp add: lzf_compress_def)
  next
    case False
    obtain r where r: "round_ok inp (length out) r" "\<forall>st. r \<noteq> Continue st" and c: "lzf_compress htab inp out =
        (case r of Return0 out \<Rightarrow> Inr (0, out) | Break st \<Rightarrow> finish inp st | Continue st \<Rightarrow> finish inp st)"
      using compress_rounds [OF assms(1,2)] False by blast
    show ?thesis
    proof (cases r)
      case (Return0 o')
      then show ?thesis unfolding c using r(1) by (simp add: round_ok_def lzf_bound_def)
    next
      case (Break st)
      then obtain n o' where "finish inp st = Inr (n, o')" "n \<le> length out" "length o' = length out"
          "n = 0 \<and> length out < lzf_bound (length inp) \<or> lzf_spec (take n o') [] = Some inp"
        using end_run_ok [of inp "length out" st] r(1) by (auto simp: round_ok_def)
      then show ?thesis unfolding c using Break rt [of n o'] by (auto simp: lzf_bound_def)
    next
      case (Continue st)
      then show ?thesis using r(2) by simp
    qed
  qed
qed

section \<open>Properties\<close>

text \<open>C21: Decompression of any non-empty input, corrupted or hostile, terminates, reads only the input and writes
  only the output buffer. It returns the length and leaves at the start of the buffer what the stream
  means, or it returns 0, exactly when the stream is malformed (a run or a match cut short, a
  reference before the start) or its meaning does not fit.\<close>

theorem lzf_decompress_correct:
  assumes "inp \<noteq> []"
  shows "\<exists>n out'. lzf_decompress inp out = Inr (n, out') \<and> length out' = length out \<and>
    (case lzf_spec inp [] of
       None \<Rightarrow> n = 0
     | Some ys \<Rightarrow> if length ys \<le> length out then n = length ys \<and> take n out' = ys else n = 0)"
  using dec_loop_ok [of 0 inp "[]" out] assms by (simp add: lzf_decompress_def dec_result_def)

theorem lzf_decompress_correct_witness:
  "\<exists>out'. lzf_decompress [1, 97, 98, 64, 1] (replicate 8 0) = Inr (6, out') \<and> take 6 out' = [97, 98, 97, 98, 97, 98]"
proof -
  have "lzf_spec [1, 97, 98, 64, 1] [] = Some [97, 98, 97, 98, 97, 98]" by code_simp
  then show ?thesis using lzf_decompress_correct [of "[1, 97, 98, 64, 1]" "replicate 8 0"] by (auto simp: numeral_eq_Suc)
qed

text \<open>C20: Compression is inverted by decompression: whatever the hash table holds when \<open>lzf_compress\<close> is called,
  on an input of at least two bytes it stays within its buffers and returns the length of a stream from which
  \<open>lzf_decompress\<close> restores exactly the input, or it returns 0 because the output buffer is too short; a buffer
  of the input's length, one byte more for every 32 of it, and four, is always enough.\<close>

theorem lzf_roundtrip:
  assumes "2 \<le> length inp" and "length inp < 2 ^ 32" and "length buf = length inp"
  shows "\<exists>n out'. lzf_compress htab inp out = Inr (n, out') \<and> n \<le> length out \<and> length out' = length out \<and>
    (n = 0 \<and> length out < length inp + length inp div 32 + 4 \<or>
     lzf_decompress (take n out') buf = Inr (length inp, inp))"
  using lzf_inverts [OF assms(1,2), of htab out] assms(3) by blast

theorem lzf_roundtrip_witness:
  "\<exists>n out'. lzf_compress (\<lambda>k. 7) (bytes ''abcabcabcabc'') (replicate 20 0) = Inr (n, out') \<and>
    lzf_decompress (take n out') (replicate 12 0) = Inr (12, bytes ''abcabcabcabc'')"
  using lzf_roundtrip [of "bytes ''abcabcabcabc''" "replicate 12 0" "\<lambda>k. 7" "replicate 20 0"] by auto

end
