(* ===== verification/Adlist.thy ===== *)
theory Adlist
  imports Prelude
begin

text \<open>
  The doubly linked lists of Redis (\<open>adlist.c\<close>, \<open>adlist.h\<close>) on an explicit heap: a map from addresses to
  nodes. A null pointer is \<open>None\<close>, and following a pointer to an address that holds no node is a fault.
  \<open>zmalloc\<close> is an argument: the address of each new node (it does not fail in Redis, which aborts). A free
  callback is represented by the list of values handed to it. Loops that follow links may not end on a
  circular chain; their result is then \<open>None\<close>.
\<close>

section \<open>Data\<close>

record 'v node =
  n_prev :: "nat option"
  n_next :: "nat option"
  n_value :: 'v

type_synonym 'v heap = "nat \<Rightarrow> 'v node option"

record 'v adlist =
  l_head :: "nat option"
  l_tail :: "nat option"
  l_dup :: "('v \<Rightarrow> 'v option) option"
  l_free :: bool
  l_match :: "('v \<Rightarrow> 'v \<Rightarrow> bool) option"
  l_len :: nat

datatype direction = AL_START_HEAD | AL_START_TAIL

record list_iter =
  it_next :: "nat option"
  it_direction :: direction

definition deref :: "'v heap \<Rightarrow> nat option \<Rightarrow> 'v node cres" where
  "deref h p = (case p of None \<Rightarrow> Inl NullDeref | Some a \<Rightarrow> (case h a of None \<Rightarrow> Inl BadPointer | Some n \<Rightarrow> Inr n))"

definition set_next :: "'v heap \<Rightarrow> nat option \<Rightarrow> nat option \<Rightarrow> 'v heap cres" where
  "set_next h p q = cbind (deref h p) (\<lambda>n. Inr (h(the p \<mapsto> n\<lparr>n_next := q\<rparr>)))"

definition set_prev :: "'v heap \<Rightarrow> nat option \<Rightarrow> nat option \<Rightarrow> 'v heap cres" where
  "set_prev h p q = cbind (deref h p) (\<lambda>n. Inr (h(the p \<mapsto> n\<lparr>n_prev := q\<rparr>)))"

definition len_inc :: "nat \<Rightarrow> nat" where "len_inc n = (n + 1) mod 2 ^ 64"
definition len_dec :: "nat \<Rightarrow> nat" where "len_dec n = nat ((int n - 1) mod 2 ^ 64)"

section \<open>Operations\<close>

definition listCreate :: "'v adlist" where
  "listCreate = \<lparr> l_head = None, l_tail = None, l_dup = None, l_free = False, l_match = None, l_len = 0 \<rparr>"

primrec empty_loop :: "nat \<Rightarrow> 'v heap \<Rightarrow> nat option \<Rightarrow> 'v list \<Rightarrow> ('v heap \<times> 'v list) cres" where
  "empty_loop 0 h current freed = Inr (h, freed)"
| "empty_loop (Suc len) h current freed =
     cbind (deref h current) (\<lambda>n.
     empty_loop len (h(the current := None)) (n_next n) (freed @ [n_value n]))"

text \<open>The third component is what the free callback is given.\<close>

definition listEmpty :: "'v heap \<Rightarrow> 'v adlist \<Rightarrow> ('v heap \<times> 'v adlist \<times> 'v list) cres" where
  "listEmpty h l =
     cbind (empty_loop (l_len l) h (l_head l) []) (\<lambda>(h, freed).
     Inr (h, l\<lparr>l_head := None, l_tail := None, l_len := 0\<rparr>, if l_free l then freed else []))"

definition listRelease :: "'v heap \<Rightarrow> 'v adlist \<Rightarrow> ('v heap \<times> 'v list) cres" where
  "listRelease h l = cbind (listEmpty h l) (\<lambda>(h, l, freed). Inr (h, freed))"

definition listAddNodeHead :: "'v heap \<Rightarrow> 'v adlist \<Rightarrow> nat \<Rightarrow> 'v \<Rightarrow> ('v heap \<times> 'v adlist) cres" where
  "listAddNodeHead h l node v =
     (if l_len l = 0 then
        Inr (h(node \<mapsto> \<lparr> n_prev = None, n_next = None, n_value = v \<rparr>),
             l\<lparr>l_head := Some node, l_tail := Some node, l_len := len_inc (l_len l)\<rparr>)
      else
        cbind (set_prev (h(node \<mapsto> \<lparr> n_prev = None, n_next = l_head l, n_value = v \<rparr>)) (l_head l) (Some node)) (\<lambda>h.
        Inr (h, l\<lparr>l_head := Some node, l_len := len_inc (l_len l)\<rparr>)))"

definition listAddNodeTail :: "'v heap \<Rightarrow> 'v adlist \<Rightarrow> nat \<Rightarrow> 'v \<Rightarrow> ('v heap \<times> 'v adlist) cres" where
  "listAddNodeTail h l node v =
     (if l_len l = 0 then
        Inr (h(node \<mapsto> \<lparr> n_prev = None, n_next = None, n_value = v \<rparr>),
             l\<lparr>l_head := Some node, l_tail := Some node, l_len := len_inc (l_len l)\<rparr>)
      else
        cbind (set_next (h(node \<mapsto> \<lparr> n_prev = l_tail l, n_next = None, n_value = v \<rparr>)) (l_tail l) (Some node)) (\<lambda>h.
        Inr (h, l\<lparr>l_tail := Some node, l_len := len_inc (l_len l)\<rparr>)))"

definition listInsertNode :: "'v heap \<Rightarrow> 'v adlist \<Rightarrow> nat \<Rightarrow> nat \<Rightarrow> 'v \<Rightarrow> bool \<Rightarrow> ('v heap \<times> 'v adlist) cres" where
  "listInsertNode h l node old_node v after =
     cbind (deref h (Some old_node)) (\<lambda>old.
     let n = (if after then \<lparr> n_prev = Some old_node, n_next = n_next old, n_value = v \<rparr>
              else \<lparr> n_prev = n_prev old, n_next = Some old_node, n_value = v \<rparr>);
         l = (if after then (if l_tail l = Some old_node then l\<lparr>l_tail := Some node\<rparr> else l)
              else (if l_head l = Some old_node then l\<lparr>l_head := Some node\<rparr> else l));
         h = h(node \<mapsto> n) in
     cbind (if n_prev n \<noteq> None then set_next h (n_prev n) (Some node) else Inr h) (\<lambda>h.
     cbind (if n_next n \<noteq> None then set_prev h (n_next n) (Some node) else Inr h) (\<lambda>h.
     Inr (h, l\<lparr>l_len := len_inc (l_len l)\<rparr>))))"

definition listDelNode :: "'v heap \<Rightarrow> 'v adlist \<Rightarrow> nat \<Rightarrow> ('v heap \<times> 'v adlist \<times> 'v list) cres" where
  "listDelNode h l node =
     cbind (deref h (Some node)) (\<lambda>n.
     cbind (if n_prev n \<noteq> None then cbind (set_next h (n_prev n) (n_next n)) (\<lambda>h. Inr (h, l))
            else Inr (h, l\<lparr>l_head := n_next n\<rparr>)) (\<lambda>(h, l).
     cbind (if n_next n \<noteq> None then cbind (set_prev h (n_next n) (n_prev n)) (\<lambda>h. Inr (h, l))
            else Inr (h, l\<lparr>l_tail := n_prev n\<rparr>)) (\<lambda>(h, l).
     Inr (h(node := None), l\<lparr>l_len := len_dec (l_len l)\<rparr>, if l_free l then [n_value n] else []))))"

definition listGetIterator :: "'v adlist \<Rightarrow> direction \<Rightarrow> list_iter" where
  "listGetIterator l direction =
     \<lparr> it_next = (if direction = AL_START_HEAD then l_head l else l_tail l), it_direction = direction \<rparr>"

definition listRewind :: "'v adlist \<Rightarrow> list_iter" where
  "listRewind l = \<lparr> it_next = l_head l, it_direction = AL_START_HEAD \<rparr>"

definition listRewindTail :: "'v adlist \<Rightarrow> list_iter" where
  "listRewindTail l = \<lparr> it_next = l_tail l, it_direction = AL_START_TAIL \<rparr>"

definition listNext :: "'v heap \<Rightarrow> list_iter \<Rightarrow> (nat option \<times> list_iter) cres" where
  "listNext h iter =
     (let current = it_next iter in
      if current \<noteq> None then
        cbind (deref h current) (\<lambda>n.
        Inr (current, iter\<lparr>it_next := (if it_direction iter = AL_START_HEAD then n_next n else n_prev n)\<rparr>))
      else Inr (current, iter))"

text \<open>The copy of a list; \<open>Inr None\<close> in the result stands for the null pointer, after a failed dup callback.\<close>

partial_function (option) dup_loop ::
    "('v heap \<Rightarrow> nat) \<Rightarrow> 'v heap \<Rightarrow> list_iter \<Rightarrow> 'v adlist \<Rightarrow> ('v heap \<times> 'v adlist option) cres option" where
  "dup_loop zmalloc h iter copy =
     (case listNext h iter of
        Inl e \<Rightarrow> Some (Inl e)
      | Inr (node, iter) \<Rightarrow>
          if node = None then Some (Inr (h, Some copy))
          else case deref h node of
              Inl e \<Rightarrow> Some (Inl e)
            | Inr n \<Rightarrow>
                (case (case l_dup copy of None \<Rightarrow> Some (n_value n) | Some f \<Rightarrow> f (n_value n)) of
                   None \<Rightarrow> Some (cbind (listRelease h copy) (\<lambda>(h, freed). Inr (h, None)))
                 | Some v \<Rightarrow>
                     (case listAddNodeTail h copy (zmalloc h) v of
                        Inl e \<Rightarrow> Some (Inl e)
                      | Inr (h, copy) \<Rightarrow> dup_loop zmalloc h iter copy)))"

definition listDup :: "('v heap \<Rightarrow> nat) \<Rightarrow> 'v heap \<Rightarrow> 'v adlist \<Rightarrow> ('v heap \<times> 'v adlist option) cres option" where
  "listDup zmalloc h orig =
     (let copy = listCreate\<lparr>l_dup := l_dup orig, l_free := l_free orig, l_match := l_match orig\<rparr> in
      dup_loop zmalloc h (listRewind orig) copy)"

partial_function (option) key_loop :: "'v heap \<Rightarrow> 'v adlist \<Rightarrow> 'v \<Rightarrow> list_iter \<Rightarrow> nat option cres option" where
  "key_loop h l key iter =
     (case listNext h iter of
        Inl e \<Rightarrow> Some (Inl e)
      | Inr (node, iter) \<Rightarrow>
          if node = None then Some (Inr None)
          else case deref h node of
              Inl e \<Rightarrow> Some (Inl e)
            | Inr n \<Rightarrow>
                if (case l_match l of Some f \<Rightarrow> f (n_value n) key | None \<Rightarrow> key = n_value n) then Some (Inr node)
                else key_loop h l key iter)"

definition listSearchKey :: "'v heap \<Rightarrow> 'v adlist \<Rightarrow> 'v \<Rightarrow> nat option cres option" where
  "listSearchKey h l key = key_loop h l key (listRewind l)"

primrec index_loop :: "('v node \<Rightarrow> nat option) \<Rightarrow> nat \<Rightarrow> 'v heap \<Rightarrow> nat option \<Rightarrow> nat option cres" where
  "index_loop link 0 h n = Inr n"
| "index_loop link (Suc index) h n =
     (if n \<noteq> None then cbind (deref h n) (\<lambda>d. index_loop link index h (link d)) else Inr None)"

definition listIndex :: "'v heap \<Rightarrow> 'v adlist \<Rightarrow> int \<Rightarrow> nat option cres" where
  "listIndex h l index =
     (if index < 0 then
        if index = - (2 ^ 63) then Inl SignedOverflow
        else index_loop n_prev (nat (- index - 1)) h (l_tail l)
      else index_loop n_next (nat index) h (l_head l))"

definition listRotateTailToHead :: "'v heap \<Rightarrow> 'v adlist \<Rightarrow> ('v heap \<times> 'v adlist) cres" where
  "listRotateTailToHead h l =
     (if l_len l \<le> 1 then Inr (h, l)
      else
        let tail = l_tail l in
        cbind (deref h tail) (\<lambda>t.
        let l = l\<lparr>l_tail := n_prev t\<rparr> in
        cbind (set_next h (l_tail l) None) (\<lambda>h.
        cbind (set_prev h (l_head l) tail) (\<lambda>h.
        cbind (set_prev h tail None) (\<lambda>h.
        cbind (set_next h tail (l_head l)) (\<lambda>h.
        Inr (h, l\<lparr>l_head := tail\<rparr>)))))))"

definition listRotateHeadToTail :: "'v heap \<Rightarrow> 'v adlist \<Rightarrow> ('v heap \<times> 'v adlist) cres" where
  "listRotateHeadToTail h l =
     (if l_len l \<le> 1 then Inr (h, l)
      else
        let head = l_head l in
        cbind (deref h head) (\<lambda>d.
        let l = l\<lparr>l_head := n_next d\<rparr> in
        cbind (set_prev h (l_head l) None) (\<lambda>h.
        cbind (set_next h (l_tail l) head) (\<lambda>h.
        cbind (set_next h head None) (\<lambda>h.
        cbind (set_prev h head (l_tail l)) (\<lambda>h.
        Inr (h, l\<lparr>l_tail := head\<rparr>)))))))"

definition listJoin :: "'v heap \<Rightarrow> 'v adlist \<Rightarrow> 'v adlist \<Rightarrow> ('v heap \<times> 'v adlist \<times> 'v adlist) cres" where
  "listJoin h l o2 =
     cbind (if l_head o2 \<noteq> None then set_prev h (l_head o2) (l_tail l) else Inr h) (\<lambda>h.
     cbind (if l_tail l \<noteq> None then cbind (set_next h (l_tail l) (l_head o2)) (\<lambda>h. Inr (h, l))
            else Inr (h, l\<lparr>l_head := l_head o2\<rparr>)) (\<lambda>(h, l).
     let l = (if l_tail o2 \<noteq> None then l\<lparr>l_tail := l_tail o2\<rparr> else l) in
     Inr (h, l\<lparr>l_len := (l_len l + l_len o2) mod 2 ^ 64\<rparr>, o2\<lparr>l_head := None, l_tail := None, l_len := 0\<rparr>)))"

section \<open>Chains of nodes\<close>

definition fst_of :: "nat list \<Rightarrow> nat option \<Rightarrow> nat option" where
  "fst_of as q = (case as of [] \<Rightarrow> q | a # as \<Rightarrow> Some a)"

definition lst_of :: "nat option \<Rightarrow> nat list \<Rightarrow> nat option" where
  "lst_of p as = (if as = [] then p else Some (last as))"

lemma fst_of_simps [simp]: "fst_of [] q = q" "fst_of (a # as) q = Some a" "fst_of (as @ bs) q = fst_of as (fst_of bs q)"
  by (cases as; simp add: fst_of_def)+

lemma lst_of_simps [simp]: "lst_of p [] = p" "lst_of p (a # as) = lst_of (Some a) as" "lst_of p (as @ bs) = lst_of (lst_of p as) bs"
  by (auto simp: lst_of_def)

lemma fst_of_neq_None: "as \<noteq> [] \<Longrightarrow> \<exists>a. fst_of as q = Some a \<and> a \<in> set as"
  by (cases as) auto

fun linked :: "'v heap \<Rightarrow> nat option \<Rightarrow> nat list \<Rightarrow> nat option \<Rightarrow> bool" where
  "linked h p [] q = True"
| "linked h p (a # as) q =
     (case h a of None \<Rightarrow> False | Some n \<Rightarrow> n_prev n = p \<and> n_next n = fst_of as q \<and> linked h (Some a) as q)"

lemma linked_append: "linked h p (as @ bs) q \<longleftrightarrow> linked h p as (fst_of bs q) \<and> linked h (lst_of p as) bs q"
  by (induction as arbitrary: p) (auto split: option.splits)

lemma linked_frame [simp]: "a \<notin> set as \<Longrightarrow> linked (h(a := x)) p as q = linked h p as q"
  by (induction as arbitrary: p) (auto split: option.splits)

lemma linked_node: "linked h p as q \<Longrightarrow> a \<in> set as \<Longrightarrow> \<exists>n. h a = Some n"
  by (induction as arbitrary: p) (auto split: option.splits)

definition nodes_values :: "'v heap \<Rightarrow> nat list \<Rightarrow> 'v list" where
  "nodes_values h as = map (\<lambda>a. n_value (the (h a))) as"

lemma nodes_values_simps [simp]:
  "nodes_values h [] = []" "nodes_values h (a # as) = n_value (the (h a)) # nodes_values h as"
  "nodes_values h (as @ bs) = nodes_values h as @ nodes_values h bs" "length (nodes_values h as) = length as"
  by (simp_all add: nodes_values_def)

lemma nodes_values_frame [simp]: "a \<notin> set as \<Longrightarrow> nodes_values (h(a := x)) as = nodes_values h as"
  by (simp add: nodes_values_def)

text \<open>A list occupies its nodes and is linked in both directions.\<close>

definition dl :: "'v heap \<Rightarrow> 'v adlist \<Rightarrow> nat list \<Rightarrow> bool" where
  "dl h l as \<longleftrightarrow> linked h None as None \<and> distinct as \<and> l_head l = fst_of as None \<and> l_tail l = lst_of None as \<and>
     l_len l = length as \<and> length as < 2 ^ 64"

definition same_outside :: "nat set \<Rightarrow> 'v heap \<Rightarrow> 'v heap \<Rightarrow> bool" where
  "same_outside A h h' \<longleftrightarrow> (\<forall>a. a \<notin> A \<longrightarrow> h' a = h a)"

definition same_config :: "'v adlist \<Rightarrow> 'v adlist \<Rightarrow> bool" where
  "same_config l l' \<longleftrightarrow> l_dup l' = l_dup l \<and> l_free l' = l_free l \<and> l_match l' = l_match l"

lemma len_inc_ok: "n + 1 < 2 ^ 64 \<Longrightarrow> len_inc n = Suc n"
  by (simp add: len_inc_def)

lemma len_dec_ok: "n < 2 ^ 64 \<Longrightarrow> len_dec (Suc n) = n"
  by (simp add: len_dec_def)

lemma dl_len: "dl h l as \<Longrightarrow> l_len l = length as"
  by (simp add: dl_def)

lemma dl_node: "dl h l as \<Longrightarrow> a \<in> set as \<Longrightarrow> \<exists>n. h a = Some n"
  unfolding dl_def by (blast intro: linked_node)

lemma dl_fresh: "dl h l as \<Longrightarrow> h a = None \<Longrightarrow> a \<notin> set as"
  using dl_node [of h l as a] by auto

lemmas dl_simps = dl_def linked_append same_outside_def same_config_def deref_def set_next_def set_prev_def

text \<open>
  Writing the link of the node a pointer leads to, if it leads to one: on the pointers that the
  operations hold this is what \<open>set_next\<close> and \<open>set_prev\<close> do, and it is described by its effect on chains.
\<close>

definition link_next :: "'v heap \<Rightarrow> nat option \<Rightarrow> nat option \<Rightarrow> 'v heap" where
  "link_next h p q = (case p of None \<Rightarrow> h | Some a \<Rightarrow> (case h a of None \<Rightarrow> h | Some n \<Rightarrow> h(a \<mapsto> n\<lparr>n_next := q\<rparr>)))"

definition link_prev :: "'v heap \<Rightarrow> nat option \<Rightarrow> nat option \<Rightarrow> 'v heap" where
  "link_prev h p q = (case p of None \<Rightarrow> h | Some a \<Rightarrow> (case h a of None \<Rightarrow> h | Some n \<Rightarrow> h(a \<mapsto> n\<lparr>n_prev := q\<rparr>)))"

definition live :: "'v heap \<Rightarrow> nat option \<Rightarrow> bool" where
  "live h p \<longleftrightarrow> (case p of None \<Rightarrow> True | Some a \<Rightarrow> h a \<noteq> None)"

lemma set_next_ok: "live h p \<Longrightarrow> p \<noteq> None \<Longrightarrow> set_next h p q = Inr (link_next h p q)"
  by (auto simp: live_def set_next_def deref_def link_next_def)

lemma set_prev_ok: "live h p \<Longrightarrow> p \<noteq> None \<Longrightarrow> set_prev h p q = Inr (link_prev h p q)"
  by (auto simp: live_def set_prev_def deref_def link_prev_def)

lemma link_None [simp]: "link_next h None q = h" "link_prev h None q = h"
  by (simp_all add: link_next_def link_prev_def)

lemma link_alloc [simp]: "link_next h p q a = None \<longleftrightarrow> h a = None" "link_prev h p q a = None \<longleftrightarrow> h a = None"
  by (auto simp: link_next_def link_prev_def split: option.splits)

lemma live_link [simp]: "live (link_next h p q) r = live h r" "live (link_prev h p q) r = live h r"
  by (simp_all add: live_def split: option.split)

lemma link_other: "p \<noteq> Some a \<Longrightarrow> link_next h p q a = h a" "p \<noteq> Some a \<Longrightarrow> link_prev h p q a = h a"
  by (auto simp: link_next_def link_prev_def split: option.splits)

lemma link_values [simp]: "nodes_values (link_next h p q) as = nodes_values h as" "nodes_values (link_prev h p q) as = nodes_values h as"
  by (auto simp: nodes_values_def link_next_def link_prev_def split: option.splits)

lemma linked_link_other:
  "p \<notin> Some ` set as \<Longrightarrow> linked (link_next h p q) r as s = linked h r as s"
  "p \<notin> Some ` set as \<Longrightarrow> linked (link_prev h p q) r as s = linked h r as s"
  by (auto simp: link_next_def link_prev_def image_iff split: option.split)

lemma linked_link_next:
  assumes "linked h p as q" and "distinct as"
  shows "linked (link_next h (lst_of None as) q') p as q'"
proof (cases as rule: rev_cases)
  case (snoc bs b)
  then obtain n where "h b = Some n" using linked_node [OF assms(1), of b] by auto
  then show ?thesis using assms unfolding snoc by (simp add: linked_append link_next_def)
qed simp

lemma linked_link_prev:
  assumes "linked h p as q" and "distinct as"
  shows "linked (link_prev h (fst_of as None) p') p' as q"
proof (cases as)
  case (Cons b bs)
  then obtain n where "h b = Some n" using linked_node [OF assms(1), of b] by auto
  then show ?thesis using assms unfolding Cons by (simp add: link_prev_def)
qed simp

lemma ends_in: "fst_of as None \<in> insert None (Some ` set as)" "lst_of None as \<in> insert None (Some ` set as)"
  by (cases as; simp) (simp add: lst_of_def)

lemma ends_apart:
  assumes "set as \<inter> set bs = {}"
  shows "fst_of as None \<notin> Some ` set bs" "lst_of None as \<notin> Some ` set bs"
  using ends_in [of as] assms by (auto simp: image_iff)

lemma ends_new: "a \<notin> set as \<Longrightarrow> fst_of as None \<noteq> Some a" "a \<notin> set as \<Longrightarrow> lst_of None as \<noteq> Some a"
  using ends_in [of as] by (auto simp: image_iff)

lemma same_outside_link:
  assumes "same_outside A h h1"
  shows "set as \<subseteq> A \<Longrightarrow> same_outside A h (link_next h1 (lst_of None as) q)" "set as \<subseteq> A \<Longrightarrow> same_outside A h (link_prev h1 (fst_of as None) q)"
    "a \<in> A \<Longrightarrow> same_outside A h (h1(a := x))"
proof -
  have "link_next h1 (lst_of None as) q b = h1 b \<and> link_prev h1 (fst_of as None) q b = h1 b" if "set as \<subseteq> A" "b \<notin> A" for b
  proof -
    have "b \<notin> set as" using that by blast
    then show ?thesis using ends_new [of b as] by (simp add: link_other)
  qed
  then show "set as \<subseteq> A \<Longrightarrow> same_outside A h (link_next h1 (lst_of None as) q)" "set as \<subseteq> A \<Longrightarrow> same_outside A h (link_prev h1 (fst_of as None) q)"
    "a \<in> A \<Longrightarrow> same_outside A h (h1(a := x))"
    using assms by (auto simp: same_outside_def)
qed

lemma same_outside_refl: "same_outside A h h"
  by (simp add: same_outside_def)

lemma same_outside_trans: "same_outside A h h1 \<Longrightarrow> same_outside A h1 h2 \<Longrightarrow> same_outside A h h2"
  by (simp add: same_outside_def)

lemma same_outside_mono: "same_outside A h h1 \<Longrightarrow> A \<subseteq> B \<Longrightarrow> same_outside B h h1"
  by (auto simp: same_outside_def)

lemma live_ends: "linked h p as q \<Longrightarrow> live h (fst_of as None) \<and> live h (lst_of None as)"
  using linked_node [of h p as q] ends_in [of as] by (fastforce simp: live_def)

lemma listAddNodeHead_ok:
  assumes dl: "dl h l as" and free: "h node = None" and room: "length as + 1 < 2 ^ 64"
  shows "\<exists>h' l'. listAddNodeHead h l node v = Inr (h', l') \<and> dl h' l' (node # as) \<and> nodes_values h' (node # as) = v # nodes_values h as \<and>
    same_outside (insert node (set as)) h h' \<and> same_config l l'"
proof -
  have new: "node \<notin> set as" by (rule dl_fresh [OF dl free])
  show ?thesis
  proof (cases as)
    case Nil
    let ?h = "h(node \<mapsto> \<lparr> n_prev = None, n_next = None, n_value = v \<rparr>)"
    let ?l = "l\<lparr>l_head := Some node, l_tail := Some node, l_len := 1\<rparr>"
    have e: "listAddNodeHead h l node v = Inr (?h, ?l)"
      using dl_len [OF dl] Nil len_inc_ok [of 0] by (simp add: listAddNodeHead_def)
    have "dl ?h ?l (node # as)" using Nil by (simp add: dl_def)
    then show ?thesis unfolding e using Nil by (simp add: same_outside_def same_config_def)
  next
    case (Cons b bs)
    then obtain n where n: "h b = Some n" using dl_node [OF dl, of b] by auto
    let ?nd = "\<lparr> n_prev = None, n_next = Some b, n_value = v \<rparr>"
    let ?h = "h(node \<mapsto> ?nd, b \<mapsto> n\<lparr>n_prev := Some node\<rparr>)"
    let ?l = "l\<lparr>l_head := Some node, l_len := Suc (length as)\<rparr>"
    have "distinct as" using dl by (simp add: dl_def)
    then have ne: "b \<noteq> node" "b \<notin> set bs" "node \<notin> set bs" using new Cons by auto
    have e: "listAddNodeHead h l node v = Inr (?h, ?l)"
    proof -
      have "l_len l = length as" "l_head l = Some b" "length as \<noteq> 0" using dl Cons by (simp_all add: dl_def)
      then show ?thesis using n ne len_inc_ok [OF room] by (simp add: listAddNodeHead_def deref_def set_next_def set_prev_def)
    qed
    have "dl ?h ?l (node # as)" using dl n ne new room Cons by (simp add: dl_def)
    moreover have "nodes_values ?h (node # as) = v # nodes_values h as" using n ne Cons by simp
    ultimately show ?thesis unfolding e using Cons by (simp add: same_outside_def same_config_def)
  qed
qed

lemma listAddNodeTail_ok:
  assumes dl: "dl h l as" and free: "h node = None" and room: "length as + 1 < 2 ^ 64"
  shows "\<exists>h' l'. listAddNodeTail h l node v = Inr (h', l') \<and> dl h' l' (as @ [node]) \<and> nodes_values h' (as @ [node]) = nodes_values h as @ [v] \<and>
    same_outside (insert node (set as)) h h' \<and> same_config l l'"
proof -
  have new: "node \<notin> set as" by (rule dl_fresh [OF dl free])
  show ?thesis
  proof (cases as rule: rev_cases)
    case Nil
    let ?h = "h(node \<mapsto> \<lparr> n_prev = None, n_next = None, n_value = v \<rparr>)"
    let ?l = "l\<lparr>l_head := Some node, l_tail := Some node, l_len := 1\<rparr>"
    have e: "listAddNodeTail h l node v = Inr (?h, ?l)"
      using dl_len [OF dl] Nil len_inc_ok [of 0] by (simp add: listAddNodeTail_def)
    have "dl ?h ?l (as @ [node])" using Nil by (simp add: dl_def)
    then show ?thesis unfolding e using Nil by (simp add: same_outside_def same_config_def)
  next
    case (snoc bs b)
    then obtain n where n: "h b = Some n" using dl_node [OF dl, of b] by auto
    let ?nd = "\<lparr> n_prev = Some b, n_next = None, n_value = v \<rparr>"
    let ?h = "h(node \<mapsto> ?nd, b \<mapsto> n\<lparr>n_next := Some node\<rparr>)"
    let ?l = "l\<lparr>l_tail := Some node, l_len := Suc (length as)\<rparr>"
    have "distinct as" using dl by (simp add: dl_def)
    then have ne: "b \<noteq> node" "b \<notin> set bs" "node \<notin> set bs" using new snoc by auto
    have e: "listAddNodeTail h l node v = Inr (?h, ?l)"
    proof -
      have "l_len l = length as" "l_tail l = Some b" "length as \<noteq> 0" using dl snoc by (simp_all add: dl_def)
      then show ?thesis using n ne len_inc_ok [OF room] by (simp add: listAddNodeTail_def deref_def set_next_def set_prev_def)
    qed
    have "dl ?h ?l (as @ [node])" using dl n ne new room snoc by (simp add: dl_def linked_append)
    moreover have "nodes_values ?h (as @ [node]) = nodes_values h as @ [v]" using n ne snoc by simp
    ultimately show ?thesis unfolding e using snoc by (simp add: same_outside_def same_config_def)
  qed
qed

text \<open>A new node between two parts of a chain, a node taken out between two parts, and two chains joined.\<close>

lemma linked_insert:
  fixes h :: "'v heap" and v :: 'v
  assumes l: "linked h None (xs @ ys) None" and d: "distinct (xs @ ys)" and new: "node \<notin> set (xs @ ys)"
  defines "h' \<equiv> link_prev (link_next (h(node \<mapsto> \<lparr> n_prev = lst_of None xs, n_next = fst_of ys None, n_value = v \<rparr>)) (lst_of None xs) (Some node)) (fst_of ys None) (Some node)"
  shows "linked h' None (xs @ node # ys) None" "nodes_values h' (xs @ node # ys) = nodes_values h xs @ v # nodes_values h ys"
    "same_outside (insert node (set (xs @ ys))) h h'"
proof -
  let ?nd = "\<lparr> n_prev = lst_of None xs, n_next = fst_of ys None, n_value = v \<rparr>"
  let ?h1 = "h(node \<mapsto> ?nd)"
  let ?h2 = "link_next ?h1 (lst_of None xs) (Some node)"
  have parts: "linked ?h1 None xs (fst_of ys None)" "linked ?h1 (lst_of None xs) ys None"
    using l new by (simp_all add: linked_append)
  have e: "lst_of None xs \<noteq> Some node" "fst_of ys None \<noteq> Some node" "lst_of None xs \<notin> Some ` set ys" "fst_of ys None \<notin> Some ` set xs"
    using ends_new [of node xs] ends_new [of node ys] ends_apart [of xs ys] ends_apart [of ys xs] new d by auto
  have "linked ?h2 None xs (Some node)" using linked_link_next [OF parts(1), of "Some node"] d by simp
  moreover have "linked ?h2 (lst_of None xs) ys None" using parts(2) e(3) by (simp add: linked_link_other)
  ultimately have "linked h' None xs (Some node)" "linked h' (Some node) ys None"
    using linked_link_prev [of ?h2 "lst_of None xs" ys None "Some node"] e(4) d by (simp_all add: h'_def linked_link_other)
  moreover have n: "h' node = Some ?nd" using e(1,2) by (simp add: h'_def link_other)
  ultimately show "linked h' None (xs @ node # ys) None" by (simp add: linked_append)
  show "nodes_values h' (xs @ node # ys) = nodes_values h xs @ v # nodes_values h ys" using n new by (simp add: h'_def)
  show "same_outside (insert node (set (xs @ ys))) h h'"
    unfolding h'_def by (intro same_outside_link same_outside_refl) auto
qed

lemma linked_remove:
  fixes h :: "'v heap"
  assumes l: "linked h None (xs @ node # ys) None" and d: "distinct (xs @ node # ys)"
  defines "h' \<equiv> (link_prev (link_next h (lst_of None xs) (fst_of ys None)) (fst_of ys None) (lst_of None xs))(node := None)"
  shows "linked h' None (xs @ ys) None" "nodes_values h' (xs @ ys) = nodes_values h xs @ nodes_values h ys"
    "same_outside (set (xs @ node # ys)) h h'"
proof -
  let ?h2 = "link_next h (lst_of None xs) (fst_of ys None)"
  have parts: "linked h None xs (Some node)" "linked h (Some node) ys None"
    using l by (auto simp: linked_append split: option.splits)
  have e: "lst_of None xs \<notin> Some ` set ys" "fst_of ys None \<notin> Some ` set xs" using ends_apart [of xs ys] ends_apart [of ys xs] d by auto
  have "linked ?h2 None xs (fst_of ys None)" using linked_link_next [OF parts(1)] d by simp
  moreover have "linked ?h2 (Some node) ys None" using parts(2) e(1) by (simp add: linked_link_other)
  ultimately have "linked h' None xs (fst_of ys None)" "linked h' (lst_of None xs) ys None"
    using linked_link_prev [of ?h2 "Some node" ys None "lst_of None xs"] e(2) d by (simp_all add: h'_def linked_link_other)
  then show "linked h' None (xs @ ys) None" by (simp add: linked_append)
  show "nodes_values h' (xs @ ys) = nodes_values h xs @ nodes_values h ys" using d by (simp add: h'_def)
  show "same_outside (set (xs @ node # ys)) h h'"
    unfolding h'_def by (intro same_outside_link same_outside_refl) auto
qed

lemma linked_join:
  fixes h :: "'v heap"
  assumes xs: "linked h None xs None" and ys: "linked h None ys None" and d: "distinct (xs @ ys)"
  defines "h' \<equiv> link_next (link_prev h (fst_of ys None) (lst_of None xs)) (lst_of None xs) (fst_of ys None)"
  shows "linked h' None (xs @ ys) None" "nodes_values h' (xs @ ys) = nodes_values h xs @ nodes_values h ys"
    "same_outside (set (xs @ ys)) h h'"
proof -
  let ?h1 = "link_prev h (fst_of ys None) (lst_of None xs)"
  have e: "lst_of None xs \<notin> Some ` set ys" "fst_of ys None \<notin> Some ` set xs" using ends_apart [of xs ys] ends_apart [of ys xs] d by auto
  have "linked ?h1 (lst_of None xs) ys None" using linked_link_prev [OF ys] d by simp
  moreover have "linked ?h1 None xs None" using xs e(2) by (simp add: linked_link_other)
  ultimately have "linked h' None xs (fst_of ys None)" "linked h' (lst_of None xs) ys None"
    using linked_link_next [of ?h1 None xs None "fst_of ys None"] e(1) d by (simp_all add: h'_def linked_link_other)
  then show "linked h' None (xs @ ys) None" by (simp add: linked_append)
  show "nodes_values h' (xs @ ys) = nodes_values h xs @ nodes_values h ys" by (simp add: h'_def)
  show "same_outside (set (xs @ ys)) h h'"
    unfolding h'_def by (intro same_outside_link same_outside_refl) auto
qed

section \<open>What the operations do\<close>

lemma set_prev_if: "live h p \<Longrightarrow> (if p \<noteq> None then set_prev h p q else Inr h) = Inr (link_prev h p q)"
  by (simp add: set_prev_ok)

lemma set_next_if: "live h p \<Longrightarrow> (if p \<noteq> None then set_next h p q else Inr h) = Inr (link_next h p q)"
  by (simp add: set_next_ok)

lemma live_upd [simp]: "live h p \<Longrightarrow> live (h(a \<mapsto> n)) p" "live (h(a \<mapsto> n)) (Some a)"
  by (auto simp: live_def split: option.splits)

lemma linked_mid:
  assumes "linked h p (xs @ a # ys) q"
  obtains n where "h a = Some n" "n_prev n = lst_of p xs" "n_next n = fst_of ys q"
  using assms by (auto simp: linked_append split: option.splits)

lemma tail_is: "distinct (xs @ a # ys) \<Longrightarrow> lst_of None (xs @ a # ys) = Some a \<longleftrightarrow> ys = []"
  by (cases ys rule: rev_cases) (auto simp: lst_of_def)

lemma head_is: "distinct (xs @ a # ys) \<Longrightarrow> fst_of (xs @ a # ys) None = Some a \<longleftrightarrow> xs = []"
  by (cases xs) auto

lemma listInsertNode_ok:
  fixes after :: bool
  assumes dl: "dl h l (xs @ old # ys)" and free: "h node = None" and room: "length (xs @ old # ys) + 1 < 2 ^ 64"
  defines "xs' \<equiv> if after then xs @ [old] else xs" and "ys' \<equiv> if after then ys else old # ys"
  shows "\<exists>h' l'. listInsertNode h l node old v after = Inr (h', l') \<and> dl h' l' (xs' @ node # ys') \<and>
    nodes_values h' (xs' @ node # ys') = nodes_values h xs' @ v # nodes_values h ys' \<and>
    same_outside (insert node (set (xs @ old # ys))) h h' \<and> same_config l l'"
proof -
  have new: "node \<notin> set (xs @ old # ys)" by (rule dl_fresh [OF dl free])
  have L: "linked h None (xs @ old # ys) None" and d: "distinct (xs @ old # ys)" and ends: "l_head l = fst_of (xs @ old # ys) None" "l_tail l = lst_of None (xs @ old # ys)"
    and len: "l_len l = length (xs @ old # ys)" using dl by (simp_all add: dl_def)
  have split: "xs' @ ys' = xs @ old # ys" by (simp add: xs'_def ys'_def)
  obtain n where n: "h old = Some n" "n_prev n = lst_of None xs" "n_next n = fst_of ys None" by (rule linked_mid [OF L])
  let ?nd = "\<lparr> n_prev = lst_of None xs', n_next = fst_of ys' None, n_value = v \<rparr>"
  let ?h1 = "h(node \<mapsto> ?nd)"
  let ?h = "link_prev (link_next ?h1 (lst_of None xs') (Some node)) (fst_of ys' None) (Some node)"
  let ?l = "(if after then (if ys = [] then l\<lparr>l_tail := Some node\<rparr> else l) else (if xs = [] then l\<lparr>l_head := Some node\<rparr> else l))
    \<lparr>l_len := Suc (length (xs @ old # ys))\<rparr>"
  have "linked h None xs (Some old)" "linked h (Some old) ys None" using L by (auto simp: linked_append split: option.splits)
  then have lv: "live h (lst_of None xs')" "live h (fst_of ys' None)"
    using live_ends [of h None xs "Some old"] live_ends [of h "Some old" ys None] n(1) by (auto simp: xs'_def ys'_def live_def)
  have nd: "(if after then \<lparr> n_prev = Some old, n_next = n_next n, n_value = v \<rparr> else \<lparr> n_prev = n_prev n, n_next = Some old, n_value = v \<rparr>) = ?nd"
    using n by (simp add: xs'_def ys'_def)
  have e: "listInsertNode h l node old v after = Inr (?h, ?l)"
  proof -
    have dn: "deref h (Some old) = Inr n" using n(1) by (simp add: deref_def)
    have lv1: "live ?h1 (lst_of None xs')" "live (link_next ?h1 (lst_of None xs') (Some node)) (fst_of ys' None)" using lv by simp_all
    have l': "(if after then (if l_tail l = Some old then l\<lparr>l_tail := Some node\<rparr> else l)
        else (if l_head l = Some old then l\<lparr>l_head := Some node\<rparr> else l)) =
      (if after then (if ys = [] then l\<lparr>l_tail := Some node\<rparr> else l) else (if xs = [] then l\<lparr>l_head := Some node\<rparr> else l))"
      unfolding ends tail_is [OF d] head_is [OF d] ..
    have ll: "l_len (if after then (if ys = [] then l\<lparr>l_tail := Some node\<rparr> else l) else (if xs = [] then l\<lparr>l_head := Some node\<rparr> else l)) =
      length (xs @ old # ys)" using len by simp
    show ?thesis
      unfolding listInsertNode_def dn cbind_Inr Let_def nd node.select_convs set_next_if [OF lv1(1)] set_prev_if [OF lv1(2)] l' ll len_inc_ok [OF room] ..
  qed
  have I: "linked ?h None (xs' @ node # ys') None" "nodes_values ?h (xs' @ node # ys') = nodes_values h xs' @ v # nodes_values h ys'"
      "same_outside (insert node (set (xs' @ ys'))) h ?h"
    using linked_insert [of h xs' ys' node v] L d new unfolding split by blast+
  have "dl ?h ?l (xs' @ node # ys')"
    using I(1) d new room ends by (cases xs; cases ys rule: rev_cases) (auto simp: dl_def xs'_def ys'_def lst_of_def)
  then show ?thesis unfolding e using I(2,3) unfolding split by (simp add: same_config_def)
qed

lemma listDelNode_ok:
  assumes dl: "dl h l (xs @ node # ys)"
  shows "\<exists>h' l' freed. listDelNode h l node = Inr (h', l', freed) \<and> dl h' l' (xs @ ys) \<and>
    nodes_values h' (xs @ ys) = nodes_values h xs @ nodes_values h ys \<and> h' node = None \<and>
    same_outside (set (xs @ node # ys)) h h' \<and> same_config l l'"
proof -
  have L: "linked h None (xs @ node # ys) None" and d: "distinct (xs @ node # ys)" and ends: "l_head l = fst_of (xs @ node # ys) None" "l_tail l = lst_of None (xs @ node # ys)"
    and len: "l_len l = length (xs @ node # ys)" "length (xs @ node # ys) < 2 ^ 64" using dl by (simp_all add: dl_def)
  obtain n where n: "h node = Some n" "n_prev n = lst_of None xs" "n_next n = fst_of ys None" by (rule linked_mid [OF L])
  let ?h = "(link_prev (link_next h (lst_of None xs) (fst_of ys None)) (fst_of ys None) (lst_of None xs))(node := None)"
  have "linked h None xs (Some node)" "linked h (Some node) ys None" using L by (auto simp: linked_append split: option.splits)
  then have lv: "live h (lst_of None xs)" "live h (fst_of ys None)"
    using live_ends [of h None xs "Some node"] live_ends [of h "Some node" ys None] by auto
  define l1 where "l1 = (if xs = [] then l\<lparr>l_head := fst_of ys None\<rparr> else l)"
  define l2 where "l2 = (if ys = [] then l1\<lparr>l_tail := lst_of None xs\<rparr> else l1)"
  have xs: "lst_of None xs = None \<longleftrightarrow> xs = []" and ys: "fst_of ys None = None \<longleftrightarrow> ys = []" by (simp_all add: lst_of_def fst_of_def split: list.split)
  have s1: "(if lst_of None xs \<noteq> None then cbind (set_next h (lst_of None xs) (fst_of ys None)) (\<lambda>h. Inr (h, l)) else Inr (h, l\<lparr>l_head := fst_of ys None\<rparr>)) =
      Inr (link_next h (lst_of None xs) (fst_of ys None), l1)"
    using lv(1) xs by (auto simp: l1_def set_next_ok)
  have s2: "(if fst_of ys None \<noteq> None then cbind (set_prev h1 (fst_of ys None) (lst_of None xs)) (\<lambda>h. Inr (h, l1)) else Inr (h1, l1\<lparr>l_tail := lst_of None xs\<rparr>)) =
      Inr (link_prev h1 (fst_of ys None) (lst_of None xs), l2)" if "live h1 (fst_of ys None)" for h1 :: "'a heap"
    using that ys by (auto simp: l2_def set_prev_ok)
  have e: "listDelNode h l node = Inr (?h, l2\<lparr>l_len := length (xs @ ys)\<rparr>, if l_free l2 then [n_value n] else [])"
  proof -
    have "l_len l2 = Suc (length (xs @ ys))" using len(1) by (simp add: l2_def l1_def)
    moreover have "len_dec (Suc (length (xs @ ys))) = length (xs @ ys)" using len(2) by (intro len_dec_ok) simp
    moreover have dn: "deref h (Some node) = Inr n" using n(1) by (simp add: deref_def)
    moreover have "live (link_next h (lst_of None xs) (fst_of ys None)) (fst_of ys None)" using lv(2) by simp
    ultimately show ?thesis
      unfolding listDelNode_def dn cbind_Inr n(2,3) s1 prod.case by (simp only: s2 cbind_Inr prod.case)
  qed
  have R: "linked ?h None (xs @ ys) None" "nodes_values ?h (xs @ ys) = nodes_values h xs @ nodes_values h ys" "same_outside (set (xs @ node # ys)) h ?h"
    using linked_remove [OF L d] by blast+
  have "dl ?h (l2\<lparr>l_len := length (xs @ ys)\<rparr>) (xs @ ys)"
    using R(1) d len ends by (cases xs; cases ys rule: rev_cases) (auto simp: dl_def l2_def l1_def lst_of_def)
  then show ?thesis unfolding e using R(2,3) by (simp add: same_config_def l2_def l1_def)
qed

lemma listRotateTailToHead_ok:
  assumes dl: "dl h l (xs @ [t])"
  shows "\<exists>h' l'. listRotateTailToHead h l = Inr (h', l') \<and> dl h' l' (t # xs) \<and>
    nodes_values h' (t # xs) = n_value (the (h t)) # nodes_values h xs \<and> same_outside (set (xs @ [t])) h h' \<and> same_config l l'"
proof (cases "xs = []")
  case True
  then have "listRotateTailToHead h l = Inr (h, l)" using dl_len [OF dl] by (simp add: listRotateTailToHead_def)
  then show ?thesis using dl True by (simp add: same_outside_def same_config_def)
next
  case False
  have L: "linked h None (xs @ [t]) None" and d: "distinct (xs @ [t])" and ends: "l_head l = fst_of (xs @ [t]) None" "l_tail l = lst_of None (xs @ [t])"
    and len: "l_len l = length (xs @ [t])" "length (xs @ [t]) < 2 ^ 64" using dl by (simp_all add: dl_def)
  obtain n where n: "h t = Some n" "n_prev n = lst_of None xs" "n_next n = fst_of [] None" using linked_mid [of h None xs t "[]"] L by auto
  have X: "linked h None xs (Some t)" using L by (simp add: linked_append)
  have hd: "fst_of xs (Some t) = fst_of xs None" "fst_of xs None \<noteq> None" "lst_of None xs \<noteq> None" using False by (auto simp: lst_of_def fst_of_def split: list.split)
  let ?h1 = "link_next h (lst_of None xs) None"
  let ?h2 = "link_prev ?h1 (fst_of xs None) (Some t)"
  let ?h3 = "?h2(t \<mapsto> n\<lparr>n_prev := None\<rparr>)"
  let ?h4 = "?h3(t \<mapsto> n\<lparr>n_prev := None, n_next := fst_of xs None\<rparr>)"
  let ?l = "l\<lparr>l_tail := lst_of None xs, l_head := Some t\<rparr>"
  have new: "t \<notin> set xs" using d by simp
  have nt: "?h2 t = Some n" using n(1) ends_new [OF new] by (simp add: link_other)
  have lv: "live h (lst_of None xs)" "live h (fst_of xs None)" using live_ends [OF X] by auto
  have e: "listRotateTailToHead h l = Inr (?h4, ?l)"
  proof -
    have gt: "\<not> l_len l \<le> 1" using len False by (cases xs) simp_all
    have dn: "deref h (Some t) = Inr n" using n(1) by (simp add: deref_def)
    have s: "set_next h (lst_of None xs) None = Inr ?h1" "set_prev ?h1 (fst_of xs None) (Some t) = Inr ?h2" using lv hd by (simp_all add: set_next_ok set_prev_ok)
    have s': "set_prev ?h2 (Some t) None = Inr ?h3" "set_next ?h3 (Some t) (fst_of xs None) = Inr ?h4"
      using nt by (simp_all add: set_next_def set_prev_def deref_def)
    show ?thesis using gt unfolding listRotateTailToHead_def Let_def ends by (simp add: ends dn n(2) hd s s')
  qed
  have "linked ?h2 (Some t) xs None"
    using linked_link_prev [OF linked_link_next [OF X, of None], of "Some t"] d by simp
  then have "linked ?h4 None (t # xs) None" using new by simp
  then have "dl ?h4 ?l (t # xs)" using d len False by (simp add: dl_def) (simp add: lst_of_def)
  moreover have "nodes_values ?h4 (t # xs) = n_value (the (h t)) # nodes_values h xs" using n(1) new by simp
  moreover have "same_outside (set (xs @ [t])) h ?h4" by (intro same_outside_link same_outside_refl) auto
  ultimately show ?thesis unfolding e by (simp add: same_config_def)
qed

lemma listRotateHeadToTail_ok:
  assumes dl: "dl h l (a # xs)"
  shows "\<exists>h' l'. listRotateHeadToTail h l = Inr (h', l') \<and> dl h' l' (xs @ [a]) \<and>
    nodes_values h' (xs @ [a]) = nodes_values h xs @ [n_value (the (h a))] \<and> same_outside (set (a # xs)) h h' \<and> same_config l l'"
proof (cases "xs = []")
  case True
  then have "listRotateHeadToTail h l = Inr (h, l)" using dl_len [OF dl] by (simp add: listRotateHeadToTail_def)
  then show ?thesis using dl True by (simp add: same_outside_def same_config_def)
next
  case False
  have L: "linked h None (a # xs) None" and d: "distinct (a # xs)" and ends: "l_head l = Some a" "l_tail l = lst_of None (a # xs)"
    and len: "l_len l = length (a # xs)" "length (a # xs) < 2 ^ 64" using dl by (simp_all add: dl_def)
  obtain n where n: "h a = Some n" "n_prev n = None" "n_next n = fst_of xs None" using linked_mid [of h None "[]" a xs] L by auto
  have X: "linked h (Some a) xs None" using L by (simp split: option.splits)
  have tl: "lst_of (Some a) xs = lst_of None xs" "fst_of xs None \<noteq> None" "lst_of None xs \<noteq> None" using False by (auto simp: lst_of_def fst_of_def split: list.split)
  let ?h1 = "link_prev h (fst_of xs None) None"
  let ?h2 = "link_next ?h1 (lst_of None xs) (Some a)"
  let ?h3 = "?h2(a \<mapsto> n\<lparr>n_next := None\<rparr>)"
  let ?h4 = "?h3(a \<mapsto> n\<lparr>n_next := None, n_prev := lst_of None xs\<rparr>)"
  let ?l = "l\<lparr>l_head := fst_of xs None, l_tail := Some a\<rparr>"
  have new: "a \<notin> set xs" using d by simp
  have nt: "?h2 a = Some n" using n(1) ends_new [OF new] by (simp add: link_other)
  have lv: "live h (lst_of None xs)" "live h (fst_of xs None)" using live_ends [OF X] by auto
  have e: "listRotateHeadToTail h l = Inr (?h4, ?l)"
  proof -
    have gt: "\<not> l_len l \<le> 1" using len False by (cases xs) simp_all
    have dn: "deref h (Some a) = Inr n" using n(1) by (simp add: deref_def)
    have s: "set_prev h (fst_of xs None) None = Inr ?h1" "set_next ?h1 (lst_of None xs) (Some a) = Inr ?h2" using lv tl by (simp_all add: set_next_ok set_prev_ok)
    have s': "set_next ?h2 (Some a) None = Inr ?h3" "set_prev ?h3 (Some a) (lst_of None xs) = Inr ?h4"
      using nt by (simp_all add: set_next_def set_prev_def deref_def)
    show ?thesis using gt unfolding listRotateHeadToTail_def Let_def ends by (simp add: ends dn n(3) tl s s')
  qed
  have "linked ?h2 None xs (Some a)"
    using linked_link_next [OF linked_link_prev [OF X, of None], of "Some a"] d by simp
  then have "linked ?h4 None (xs @ [a]) None" using new by (simp add: linked_append)
  then have "dl ?h4 ?l (xs @ [a])" using d len False by (cases xs) (simp_all add: dl_def)
  moreover have "nodes_values ?h4 (xs @ [a]) = nodes_values h xs @ [n_value (the (h a))]" using n(1) new by simp
  moreover have "same_outside (set (a # xs)) h ?h4" by (intro same_outside_link same_outside_refl) auto
  ultimately show ?thesis unfolding e by (simp add: same_config_def)
qed

lemma listJoin_ok:
  assumes l: "dl h l xs" and o2: "dl h o2 ys" and dis: "set xs \<inter> set ys = {}" and room: "length xs + length ys < 2 ^ 64"
  shows "\<exists>h' l' o'. listJoin h l o2 = Inr (h', l', o') \<and> dl h' l' (xs @ ys) \<and> dl h' o' [] \<and>
    nodes_values h' (xs @ ys) = nodes_values h xs @ nodes_values h ys \<and> same_outside (set (xs @ ys)) h h' \<and> same_config l l'"
proof -
  have X: "linked h None xs None" "distinct xs" "l_head l = fst_of xs None" "l_tail l = lst_of None xs" "l_len l = length xs"
    and Y: "linked h None ys None" "distinct ys" "l_head o2 = fst_of ys None" "l_tail o2 = lst_of None ys" "l_len o2 = length ys"
    using l o2 by (simp_all add: dl_def)
  have d: "distinct (xs @ ys)" using X Y dis by simp
  let ?h1 = "link_prev h (fst_of ys None) (lst_of None xs)"
  let ?h = "link_next ?h1 (lst_of None xs) (fst_of ys None)"
  define l1 where "l1 = (if xs = [] then l\<lparr>l_head := fst_of ys None\<rparr> else l)"
  define l2 where "l2 = (if ys \<noteq> [] then l1\<lparr>l_tail := lst_of None ys\<rparr> else l1)"
  let ?o = "o2\<lparr>l_head := None, l_tail := None, l_len := 0\<rparr>"
  have lv: "live h (fst_of ys None)" "live ?h1 (lst_of None xs)" using live_ends [OF X(1)] live_ends [OF Y(1)] by simp_all
  have xs: "lst_of None xs = None \<longleftrightarrow> xs = []" and ys: "lst_of None ys = None \<longleftrightarrow> ys = []" by (simp_all add: lst_of_def)
  have s1: "(if fst_of ys None \<noteq> None then set_prev h (fst_of ys None) (lst_of None xs) else Inr h) = Inr ?h1" by (rule set_prev_if [OF lv(1)])
  have s2: "(if lst_of None xs \<noteq> None then cbind (set_next ?h1 (lst_of None xs) (fst_of ys None)) (\<lambda>h. Inr (h, l)) else Inr (?h1, l\<lparr>l_head := fst_of ys None\<rparr>)) =
      Inr (?h, l1)"
    using lv(2) xs by (auto simp: l1_def set_next_ok)
  have l2': "(if lst_of None ys \<noteq> None then l1\<lparr>l_tail := lst_of None ys\<rparr> else l1) = l2" unfolding l2_def ys ..
  have "l_len l2 = length xs" using X(5) by (simp add: l2_def l1_def)
  then have e: "listJoin h l o2 = Inr (?h, l2\<lparr>l_len := length xs + length ys\<rparr>, ?o)"
    using room unfolding listJoin_def X(3-5) Y(3-5) s1 cbind_Inr s2 prod.case Let_def l2' by simp
  have J: "linked ?h None (xs @ ys) None" "nodes_values ?h (xs @ ys) = nodes_values h xs @ nodes_values h ys" "same_outside (set (xs @ ys)) h ?h"
    using linked_join [OF X(1) Y(1) d] by blast+
  have "dl ?h (l2\<lparr>l_len := length xs + length ys\<rparr>) (xs @ ys)"
    using J(1) d room X(3,4) by (cases xs; cases ys rule: rev_cases) (auto simp: dl_def l2_def l1_def lst_of_def)
  moreover have "dl ?h ?o []" by (simp add: dl_def)
  ultimately show ?thesis unfolding e using J(2,3) by (simp add: same_config_def l2_def l1_def)
qed

section \<open>Looking at a list\<close>

lemma index_next: "linked h p as None \<Longrightarrow> index_loop n_next i h (fst_of as None) = Inr (if i < length as then Some (as ! i) else None)"
proof (induction i arbitrary: p as)
  case 0
  then show ?case by (cases as) simp_all
next
  case (Suc i)
  show ?case
  proof (cases as)
    case (Cons a as')
    then obtain n where n: "h a = Some n" "n_next n = fst_of as' None" "linked h (Some a) as' None"
      using Suc.prems by (auto split: option.splits)
    then show ?thesis using Suc.IH [OF n(3)] Cons by (simp add: deref_def)
  qed simp
qed

lemma index_prev: "linked h None as q \<Longrightarrow> index_loop n_prev i h (lst_of None as) = Inr (if i < length as then Some (rev as ! i) else None)"
proof (induction i arbitrary: q as)
  case 0
  then show ?case by (cases as rule: rev_cases) simp_all
next
  case (Suc i)
  show ?case
  proof (cases as rule: rev_cases)
    case (snoc as' a)
    then obtain n where n: "h a = Some n" "n_prev n = lst_of None as'" "linked h None as' (Some a)"
      using Suc.prems by (auto simp: linked_append split: option.splits)
    then show ?thesis using Suc.IH [OF n(3)] snoc by (simp add: deref_def)
  qed simp
qed

text \<open>The position that an index names.\<close>

definition pos_of :: "nat \<Rightarrow> int \<Rightarrow> nat option" where
  "pos_of n i =
     (if 0 \<le> i then if i < int n then Some (nat i) else None
      else if - i \<le> int n then Some (n - nat (- i)) else None)"

lemma pos_of_range: "pos_of n i = Some k \<Longrightarrow> k < n"
  by (auto simp: pos_of_def split: if_splits)

lemma listIndex_ok:
  assumes dl: "dl h l as" and i: "- (2 ^ 63) < i"
  shows "listIndex h l i = Inr (map_option (\<lambda>k. as ! k) (pos_of (length as) i))"
proof -
  have L: "linked h None as None" "l_head l = fst_of as None" "l_tail l = lst_of None as" using dl by (simp_all add: dl_def)
  show ?thesis
  proof (cases "i < 0")
    case True
    let ?k = "nat (- i - 1)"
    have "rev as ! ?k = as ! (length as - nat (- i))" if "?k < length as"
    proof -
      have "Suc ?k = nat (- i)" using True by linarith
      then show ?thesis using that by (simp add: rev_nth)
    qed
    moreover have "?k < length as \<longleftrightarrow> - i \<le> int (length as)" using True by linarith
    ultimately show ?thesis using True i index_prev [OF L(1), of ?k] L(3) by (simp add: listIndex_def pos_of_def)
  next
    case False
    then show ?thesis using index_next [OF L(1), of "nat i"] L(2) by (simp add: listIndex_def pos_of_def nat_less_iff)
  qed
qed

text \<open>The use of an iterator that the comment on \<open>listNext\<close> shows: the nodes visited.\<close>

partial_function (option) visit :: "'v heap \<Rightarrow> list_iter \<Rightarrow> nat list \<Rightarrow> nat list cres option" where
  "visit h iter acc =
     (case listNext h iter of
        Inl e \<Rightarrow> Some (Inl e)
      | Inr (node, iter) \<Rightarrow> (case node of None \<Rightarrow> Some (Inr acc) | Some a \<Rightarrow> visit h iter (acc @ [a])))"

lemma visit_next:
  "linked h p as None \<Longrightarrow> visit h \<lparr> it_next = fst_of as None, it_direction = AL_START_HEAD \<rparr> acc = Some (Inr (acc @ as))"
proof (induction as arbitrary: p acc)
  case Nil
  then show ?case by (subst visit.simps) (simp add: listNext_def)
next
  case (Cons a as)
  then obtain n where "h a = Some n" "n_next n = fst_of as None" "linked h (Some a) as None" by (auto split: option.splits)
  then show ?case using Cons.IH [of "Some a" "acc @ [a]"] by (subst visit.simps) (simp add: listNext_def deref_def)
qed

lemma visit_prev:
  "linked h None as q \<Longrightarrow> visit h \<lparr> it_next = lst_of None as, it_direction = AL_START_TAIL \<rparr> acc = Some (Inr (acc @ rev as))"
proof (induction as arbitrary: q acc rule: rev_induct)
  case Nil
  then show ?case by (subst visit.simps) (simp add: listNext_def)
next
  case (snoc a as)
  then obtain n where "h a = Some n" "n_prev n = lst_of None as" "linked h None as (Some a)" by (auto simp: linked_append split: option.splits)
  then show ?case using snoc.IH [of "Some a" "acc @ [a]"] by (subst visit.simps) (simp add: listNext_def deref_def)
qed

lemma empty_loop_ok:
  "linked h p as None \<Longrightarrow> distinct as \<Longrightarrow>
   empty_loop (length as) h (fst_of as None) freed = Inr (\<lambda>a. if a \<in> set as then None else h a, freed @ nodes_values h as)"
proof (induction as arbitrary: h p freed)
  case (Cons a as)
  then obtain n where n: "h a = Some n" "n_next n = fst_of as None" "linked h (Some a) as None" by (auto split: option.splits)
  have k: "linked (h(a := None)) (Some a) as None" using n(3) Cons.prems(2) by simp
  have "empty_loop (length as) (h(a := None)) (fst_of as None) (freed @ [n_value n]) =
      Inr (\<lambda>b. if b \<in> set as then None else (h(a := None)) b, (freed @ [n_value n]) @ nodes_values (h(a := None)) as)"
    by (rule Cons.IH [OF k]) (use Cons.prems(2) in simp)
  moreover have "(\<lambda>b. if b \<in> set as then None else (h(a := None)) b) = (\<lambda>b. if b \<in> set (a # as) then None else h b)" by auto
  ultimately show ?case using n(1,2) Cons.prems(2) by (simp add: deref_def)
qed simp

lemma listRelease_ok:
  assumes "dl h l as"
  shows "listRelease h l = Inr (\<lambda>a. if a \<in> set as then None else h a, if l_free l then nodes_values h as else [])"
  using assms empty_loop_ok [of h None as "[]"] by (simp add: listRelease_def listEmpty_def dl_def)

lemma search_loop_ok:
  "linked h p as None \<Longrightarrow>
   key_loop h l key \<lparr> it_next = fst_of as None, it_direction = AL_START_HEAD \<rparr> =
     Some (Inr (find (\<lambda>a. case l_match l of Some f \<Rightarrow> f (n_value (the (h a))) key | None \<Rightarrow> key = n_value (the (h a))) as))"
proof (induction as arbitrary: p)
  case Nil
  then show ?case by (subst key_loop.simps) (simp add: listNext_def)
next
  case (Cons a as)
  then obtain n where "h a = Some n" "n_next n = fst_of as None" "linked h (Some a) as None" by (auto split: option.splits)
  then show ?case using Cons.IH [of "Some a"] by (subst key_loop.simps) (cases "l_match l"; simp add: listNext_def deref_def)
qed

section \<open>Copying\<close>

text \<open>What the code relies on of the allocator: the address it returns is not in use.\<close>

definition fresh_alloc :: "('v heap \<Rightarrow> nat) \<Rightarrow> bool" where
  "fresh_alloc zmalloc \<longleftrightarrow> (\<forall>h. finite (dom h) \<longrightarrow> h (zmalloc h) = None)"

lemma finite_same_outside: "same_outside A h h' \<Longrightarrow> finite A \<Longrightarrow> finite (dom h) \<Longrightarrow> finite (dom h')"
  by (rule finite_subset [of _ "dom h \<union> A"]) (auto simp: same_outside_def dom_def)

lemma linked_same: "same_outside A h h' \<Longrightarrow> set as \<inter> A = {} \<Longrightarrow> linked h' p as q = linked h p as q"
  by (induction as arbitrary: p) (auto simp: same_outside_def split: option.splits)

lemma values_same: "same_outside A h h' \<Longrightarrow> set as \<inter> A = {} \<Longrightarrow> nodes_values h' as = nodes_values h as"
  by (auto simp: same_outside_def nodes_values_def)

definition dup_value :: "('v \<Rightarrow> 'v option) option \<Rightarrow> 'v \<Rightarrow> 'v option" where
  "dup_value d v = (case d of None \<Rightarrow> Some v | Some f \<Rightarrow> f v)"

definition dup_post :: "'v heap \<Rightarrow> 'v adlist \<Rightarrow> nat list \<Rightarrow> 'v list option \<Rightarrow> 'v heap \<Rightarrow> 'v adlist option \<Rightarrow> bool" where
  "dup_post h copy cs vs h' r \<longleftrightarrow>
     (case vs of
        None \<Rightarrow> r = None \<and> h' = (\<lambda>a. if a \<in> set cs then None else h a)
      | Some ys \<Rightarrow> \<exists>copy' cs'. r = Some copy' \<and> dl h' copy' (cs @ cs') \<and> nodes_values h' (cs @ cs') = nodes_values h cs @ ys \<and>
          (\<forall>a \<in> set cs'. h a = None) \<and> same_outside (set (cs @ cs')) h h' \<and> same_config copy copy')"

lemma dup_loop_ok:
  assumes z: "fresh_alloc zmalloc"
  shows "finite (dom h) \<Longrightarrow> linked h p as None \<Longrightarrow> dl h copy cs \<Longrightarrow> set as \<inter> set cs = {} \<Longrightarrow> length cs + length as < 2 ^ 64 \<Longrightarrow>
    \<exists>h' r. dup_loop zmalloc h \<lparr> it_next = fst_of as None, it_direction = AL_START_HEAD \<rparr> copy = Some (Inr (h', r)) \<and>
      dup_post h copy cs (those (map (dup_value (l_dup copy)) (nodes_values h as))) h' r"
proof (induction as arbitrary: h p copy cs)
  case Nil
  then show ?case
    by (subst dup_loop.simps) (auto simp: listNext_def dup_post_def same_outside_refl same_config_def intro!: exI [of _ "[]"])
next
  case (Cons a as)
  obtain n where n: "h a = Some n" "n_next n = fst_of as None" "linked h (Some a) as None"
    using Cons.prems(2) by (auto split: option.splits)
  let ?it = "\<lparr> it_next = fst_of as None, it_direction = AL_START_HEAD \<rparr>"
  show ?case
  proof (cases "dup_value (l_dup copy) (n_value n)")
    case None
    then have "dup_loop zmalloc h \<lparr> it_next = fst_of (a # as) None, it_direction = AL_START_HEAD \<rparr> copy =
        Some (cbind (listRelease h copy) (\<lambda>(h, freed). Inr (h, None)))"
      using n by (subst dup_loop.simps) (simp add: listNext_def deref_def dup_value_def)
    then show ?thesis using None n(1) listRelease_ok [OF Cons.prems(3)] by (simp add: dup_post_def)
  next
    case (Some v)
    let ?node = "zmalloc h"
    have free: "h ?node = None" using z Cons.prems(1) by (simp add: fresh_alloc_def)
    obtain h1 c1 where t: "listAddNodeTail h copy ?node v = Inr (h1, c1)" "dl h1 c1 (cs @ [?node])"
        "nodes_values h1 (cs @ [?node]) = nodes_values h cs @ [v]" "same_outside (insert ?node (set cs)) h h1" "same_config copy c1"
      using listAddNodeTail_ok [OF Cons.prems(3) free, of v] Cons.prems(5) by auto
    have apart: "set as \<inter> insert ?node (set cs) = {}" using Cons.prems(4) linked_node [OF n(3), of ?node] free by auto
    have step: "dup_loop zmalloc h \<lparr> it_next = fst_of (a # as) None, it_direction = AL_START_HEAD \<rparr> copy = dup_loop zmalloc h1 ?it c1"
      using n Some t(1) by (subst dup_loop.simps) (simp add: listNext_def deref_def dup_value_def)
    have fin: "finite (dom h1)" by (rule finite_same_outside [OF t(4) _ Cons.prems(1)]) simp
    have d: "l_dup c1 = l_dup copy" using t(5) by (simp add: same_config_def)
    obtain h' r where h': "dup_loop zmalloc h1 ?it c1 = Some (Inr (h', r))"
        "dup_post h1 c1 (cs @ [?node]) (those (map (dup_value (l_dup copy)) (nodes_values h as))) h' r"
      using Cons.IH [OF fin, of "Some a" c1 "cs @ [?node]"] n(3) t(2) apart Cons.prems(5)
      unfolding linked_same [OF t(4) apart] values_same [OF t(4) apart] d by auto
    have "dup_post h copy cs (those (map (dup_value (l_dup copy)) (nodes_values h (a # as)))) h' r"
    proof (cases "those (map (dup_value (l_dup copy)) (nodes_values h as))")
      case None
      then have "r = None" and e: "h' = (\<lambda>b. if b \<in> set (cs @ [?node]) then None else h1 b)" using h'(2) by (simp_all add: dup_post_def)
      moreover have "h' = (\<lambda>b. if b \<in> set cs then None else h b)" unfolding e using t(4) free by (auto simp: same_outside_def)
      ultimately show ?thesis using None Some n(1) by (simp add: dup_post_def)
    next
      case ys: (Some ys)
      then obtain copy' cs' where c: "r = Some copy'" "dl h' copy' ((cs @ [?node]) @ cs')" "nodes_values h' ((cs @ [?node]) @ cs') = nodes_values h1 (cs @ [?node]) @ ys"
          "\<forall>b \<in> set cs'. h1 b = None" "same_outside (set ((cs @ [?node]) @ cs')) h1 h'" "same_config c1 copy'"
        using h'(2) unfolding dup_post_def by auto
      have "b \<notin> insert ?node (set cs)" if "b \<in> set cs'" for b using c(2) that by (auto simp: dl_def)
      then have "\<forall>b \<in> set (?node # cs'). h b = None" using c(4) t(4) free by (auto simp: same_outside_def)
      moreover have "same_outside (set (cs @ ?node # cs')) h h'" using c(5) t(4) by (auto simp: same_outside_def)
      ultimately show ?thesis
        using c t(3,5) ys Some n(1) by (auto simp: dup_post_def same_config_def intro!: exI [of _ "?node # cs'"])
    qed
    then show ?thesis using step h'(1) by simp
  qed
qed

lemma listDup_ok:
  assumes z: "fresh_alloc zmalloc" and fin: "finite (dom h)" and dl: "dl h l as"
  shows "\<exists>h' r. listDup zmalloc h l = Some (Inr (h', r)) \<and>
    dup_post h (listCreate\<lparr>l_dup := l_dup l, l_free := l_free l, l_match := l_match l\<rparr>) []
      (those (map (dup_value (l_dup l)) (nodes_values h as))) h' r"
proof -
  let ?c = "listCreate\<lparr>l_dup := l_dup l, l_free := l_free l, l_match := l_match l\<rparr> :: 'a adlist"
  have L: "linked h None as None" "l_head l = fst_of as None" "length as < 2 ^ 64" using dl by (simp_all add: dl_def)
  have c: "dl h ?c []" by (simp add: dl_def listCreate_def)
  show ?thesis
    using dup_loop_ok [OF z fin L(1) c] L(2,3) by (simp add: listDup_def Let_def listRewind_def)
qed

section \<open>Any sequence of operations\<close>

datatype 'v list_op = AddHead 'v | AddTail 'v | InsertAt int 'v bool | DelAt int | TailToHead | HeadToTail | JoinWith "'v list" | DupSwap

fun build :: "('v heap \<Rightarrow> nat) \<Rightarrow> 'v list \<Rightarrow> 'v heap \<Rightarrow> 'v adlist \<Rightarrow> ('v heap \<times> 'v adlist) cres" where
  "build zmalloc [] h l = Inr (h, l)"
| "build zmalloc (v # vs) h l = cbind (listAddNodeTail h l (zmalloc h) v) (\<lambda>(h, l). build zmalloc vs h l)"

text \<open>\<open>JoinWith\<close> builds a second list and joins it; \<open>DupSwap\<close> goes on with a copy, releasing the original.\<close>

fun run_list_op :: "('v heap \<Rightarrow> nat) \<Rightarrow> 'v list_op \<Rightarrow> 'v heap \<Rightarrow> 'v adlist \<Rightarrow> ('v heap \<times> 'v adlist) cres option" where
  "run_list_op zmalloc (AddHead v) h l = Some (listAddNodeHead h l (zmalloc h) v)"
| "run_list_op zmalloc (AddTail v) h l = Some (listAddNodeTail h l (zmalloc h) v)"
| "run_list_op zmalloc (InsertAt i v after) h l = Some (cbind (listIndex h l i) (\<lambda>p.
     case p of None \<Rightarrow> Inr (h, l) | Some old \<Rightarrow> listInsertNode h l (zmalloc h) old v after))"
| "run_list_op zmalloc (DelAt i) h l = Some (cbind (listIndex h l i) (\<lambda>p.
     case p of None \<Rightarrow> Inr (h, l) | Some node \<Rightarrow> cbind (listDelNode h l node) (\<lambda>(h, l, freed). Inr (h, l))))"
| "run_list_op zmalloc TailToHead h l = Some (listRotateTailToHead h l)"
| "run_list_op zmalloc HeadToTail h l = Some (listRotateHeadToTail h l)"
| "run_list_op zmalloc (JoinWith vs) h l = Some (cbind (build zmalloc vs h listCreate) (\<lambda>(h, o2).
     cbind (listJoin h l o2) (\<lambda>(h, l, o2). Inr (h, l))))"
| "run_list_op zmalloc DupSwap h l = (case listDup zmalloc h l of None \<Rightarrow> None | Some r \<Rightarrow> Some (cbind r (\<lambda>(h, c).
     case c of None \<Rightarrow> Inr (h, l) | Some copy \<Rightarrow> cbind (listRelease h l) (\<lambda>(h, freed). Inr (h, copy)))))"

fun run_list_ops :: "('v heap \<Rightarrow> nat) \<Rightarrow> 'v list_op list \<Rightarrow> 'v heap \<Rightarrow> 'v adlist \<Rightarrow> ('v heap \<times> 'v adlist) cres option" where
  "run_list_ops zmalloc [] h l = Some (Inr (h, l))"
| "run_list_ops zmalloc (x # xs) h l =
     (case run_list_op zmalloc x h l of None \<Rightarrow> None | Some (Inl e) \<Rightarrow> Some (Inl e) | Some (Inr (h, l)) \<Rightarrow> run_list_ops zmalloc xs h l)"

fun spec_list_op :: "('v \<Rightarrow> 'v option) option \<Rightarrow> 'v list_op \<Rightarrow> 'v list \<Rightarrow> 'v list" where
  "spec_list_op d (AddHead v) xs = v # xs"
| "spec_list_op d (AddTail v) xs = xs @ [v]"
| "spec_list_op d (InsertAt i v after) xs =
     (case pos_of (length xs) i of None \<Rightarrow> xs | Some k \<Rightarrow> let k = (if after then k + 1 else k) in take k xs @ v # drop k xs)"
| "spec_list_op d (DelAt i) xs = (case pos_of (length xs) i of None \<Rightarrow> xs | Some k \<Rightarrow> take k xs @ drop (k + 1) xs)"
| "spec_list_op d TailToHead xs = (if xs = [] then [] else last xs # butlast xs)"
| "spec_list_op d HeadToTail xs = (if xs = [] then [] else tl xs @ [hd xs])"
| "spec_list_op d (JoinWith vs) xs = xs @ vs"
| "spec_list_op d DupSwap xs = (case those (map (dup_value d) xs) of None \<Rightarrow> xs | Some ys \<Rightarrow> ys)"

fun list_op_size :: "'v list_op \<Rightarrow> nat" where
  "list_op_size (AddHead v) = 1" | "list_op_size (AddTail v) = 1" | "list_op_size (InsertAt i v after) = 1"
| "list_op_size (JoinWith vs) = length vs" | "list_op_size x = 0"

fun list_op_ok :: "'v list_op \<Rightarrow> bool" where
  "list_op_ok (InsertAt i v after) \<longleftrightarrow> - (2 ^ 63) < i" | "list_op_ok (DelAt i) \<longleftrightarrow> - (2 ^ 63) < i" | "list_op_ok x = True"

text \<open>The list owns its nodes, and the rest of the heap is as it was when the list was created.\<close>

definition owns :: "'v heap \<Rightarrow> 'v adlist \<Rightarrow> 'v heap \<Rightarrow> 'v adlist \<Rightarrow> nat list \<Rightarrow> bool" where
  "owns h0 l0 h l as \<longleftrightarrow> dl h l as \<and> same_outside (set as) h0 h \<and> (\<forall>a \<in> set as. h0 a = None) \<and> same_config l0 l"

lemma owns_step:
  assumes o: "owns h0 l0 h l as" and s: "same_outside (set as \<union> N) h h'" and dl: "dl h' l' as'" and c: "same_config l l'"
    and sub: "set as' \<subseteq> set as \<union> N" and new: "\<forall>a \<in> N. h a = None" and gone: "\<forall>a \<in> (set as \<union> N) - set as'. h' a = None"
  shows "owns h0 l0 h' l' as'"
proof -
  have z: "h0 a = None" if "a \<in> set as \<union> N" for a
    using that o new by (cases "a \<in> set as") (auto simp: owns_def same_outside_def)
  have "h' a = h0 a" if "a \<notin> set as'" for a
  proof (cases "a \<in> set as \<union> N")
    case True
    then show ?thesis using z [OF True] gone that by simp
  next
    case False
    then have "h' a = h a" "h a = h0 a" using s o by (auto simp: same_outside_def owns_def)
    then show ?thesis by simp
  qed
  moreover have "same_config l0 l'" using o c by (simp add: owns_def same_config_def)
  ultimately show ?thesis using dl z sub unfolding owns_def same_outside_def by blast
qed

lemma owns_finite: "owns h0 l0 h l as \<Longrightarrow> finite (dom h0) \<Longrightarrow> finite (dom h)"
  unfolding owns_def by (blast intro: finite_same_outside)

lemma build_ok:
  assumes z: "fresh_alloc zmalloc"
  shows "finite (dom h) \<Longrightarrow> dl h l as \<Longrightarrow> length as + length vs < 2 ^ 64 \<Longrightarrow>
    \<exists>h' l' bs. build zmalloc vs h l = Inr (h', l') \<and> dl h' l' (as @ bs) \<and> nodes_values h' (as @ bs) = nodes_values h as @ vs \<and>
      (\<forall>b \<in> set bs. h b = None) \<and> same_outside (set (as @ bs)) h h'"
proof (induction vs arbitrary: h l as)
  case Nil
  then show ?case by (auto simp: same_outside_refl intro!: exI [of _ "[]"])
next
  case (Cons v vs)
  let ?node = "zmalloc h"
  have free: "h ?node = None" using z Cons.prems(1) by (simp add: fresh_alloc_def)
  obtain h1 l1 where t: "listAddNodeTail h l ?node v = Inr (h1, l1)" "dl h1 l1 (as @ [?node])"
      "nodes_values h1 (as @ [?node]) = nodes_values h as @ [v]" "same_outside (insert ?node (set as)) h h1"
    using listAddNodeTail_ok [OF Cons.prems(2) free, of v] Cons.prems(3) by auto
  have fin: "finite (dom h1)" by (rule finite_same_outside [OF t(4) _ Cons.prems(1)]) simp
  obtain h' l' bs where b: "build zmalloc vs h1 l1 = Inr (h', l')" "dl h' l' ((as @ [?node]) @ bs)"
      "nodes_values h' ((as @ [?node]) @ bs) = nodes_values h1 (as @ [?node]) @ vs" "\<forall>b \<in> set bs. h1 b = None" "same_outside (set ((as @ [?node]) @ bs)) h1 h'"
    using Cons.IH [OF fin t(2)] Cons.prems(3) by auto
  have "b \<notin> insert ?node (set as)" if "b \<in> set bs" for b using b(2) that by (auto simp: dl_def)
  then have "\<forall>b \<in> set (?node # bs). h b = None" using b(4) t(4) free by (auto simp: same_outside_def)
  moreover have "same_outside (set (as @ ?node # bs)) h h'" using b(5) t(4) by (auto simp: same_outside_def)
  ultimately show ?case using b(1-3) t(1,3) by (intro exI [of _ h'] exI [of _ l'] exI [of _ "?node # bs"]) simp
qed

lemma dl_same: "dl h l as \<Longrightarrow> same_outside A h h' \<Longrightarrow> set as \<inter> A = {} \<Longrightarrow> dl h' l as"
  by (simp add: dl_def linked_same)

lemma take_drop_split: "k < length as \<Longrightarrow> as = take k as @ as ! k # drop (k + 1) as"
  by (simp add: id_take_nth_drop [symmetric])

lemma values_take_drop: "nodes_values h (take k as) = take k (nodes_values h as)" "nodes_values h (drop k as) = drop k (nodes_values h as)"
  by (simp_all add: nodes_values_def take_map drop_map)

definition op_post :: "'v heap \<Rightarrow> 'v adlist \<Rightarrow> 'v list_op \<Rightarrow> 'v heap \<Rightarrow> nat list \<Rightarrow> ('v heap \<times> 'v adlist) cres option \<Rightarrow> bool" where
  "op_post h0 l0 x h as r \<longleftrightarrow> (\<exists>h' l' as'. r = Some (Inr (h', l')) \<and> owns h0 l0 h' l' as' \<and>
     nodes_values h' as' = spec_list_op (l_dup l0) x (nodes_values h as) \<and> length as' \<le> length as + list_op_size x)"

lemma op_postI:
  "r = Some (Inr (h', l')) \<Longrightarrow> owns h0 l0 h' l' as' \<Longrightarrow> nodes_values h' as' = spec_list_op (l_dup l0) x (nodes_values h as) \<Longrightarrow>
   length as' \<le> length as + list_op_size x \<Longrightarrow> op_post h0 l0 x h as r"
  unfolding op_post_def by blast

lemma add_ok:
  assumes o: "owns h0 l0 h l as" and free: "h (zmalloc h) = None" and room: "length as + 1 < 2 ^ 64"
  shows "op_post h0 l0 (AddHead v) h as (run_list_op zmalloc (AddHead v) h l)" "op_post h0 l0 (AddTail v) h as (run_list_op zmalloc (AddTail v) h l)"
proof -
  have dl: "dl h l as" using o by (simp add: owns_def)
  let ?node = "zmalloc h"
  obtain h' l' where t: "listAddNodeHead h l ?node v = Inr (h', l')" "dl h' l' (?node # as)" "nodes_values h' (?node # as) = v # nodes_values h as"
      "same_outside (insert ?node (set as)) h h'" "same_config l l'"
    using listAddNodeHead_ok [OF dl free room] by blast
  have "owns h0 l0 h' l' (?node # as)" by (rule owns_step [OF o _ t(2,5), of "{?node}"]) (use t(4) free in auto)
  then show "op_post h0 l0 (AddHead v) h as (run_list_op zmalloc (AddHead v) h l)" by (rule op_postI [rotated]) (use t(1,3) in simp_all)
  obtain h' l' where t: "listAddNodeTail h l ?node v = Inr (h', l')" "dl h' l' (as @ [?node])" "nodes_values h' (as @ [?node]) = nodes_values h as @ [v]"
      "same_outside (insert ?node (set as)) h h'" "same_config l l'"
    using listAddNodeTail_ok [OF dl free room] by blast
  have "owns h0 l0 h' l' (as @ [?node])" by (rule owns_step [OF o _ t(2,5), of "{?node}"]) (use t(4) free in auto)
  then show "op_post h0 l0 (AddTail v) h as (run_list_op zmalloc (AddTail v) h l)" by (rule op_postI [rotated]) (use t(1,3) in simp_all)
qed

lemma insert_at_ok:
  assumes o: "owns h0 l0 h l as" and free: "h (zmalloc h) = None" and room: "length as + 1 < 2 ^ 64" and i: "- (2 ^ 63) < i"
  shows "op_post h0 l0 (InsertAt i v after) h as (run_list_op zmalloc (InsertAt i v after) h l)"
proof -
  have dl: "dl h l as" using o by (simp add: owns_def)
  let ?node = "zmalloc h"
  show ?thesis
  proof (cases "pos_of (length as) i")
    case None
    then show ?thesis using o listIndex_ok [OF dl i] by (intro op_postI [of _ h l _ _ as]) simp_all
  next
    case (Some k)
    then have k: "k < length as" by (rule pos_of_range)
    let ?xs = "take k as" and ?ys = "drop (k + 1) as"
    have sp: "as = ?xs @ as ! k # ?ys" using k by (rule take_drop_split)
    define m where "m = (if after then k + 1 else k)"
    have parts: "(if after then ?xs @ [as ! k] else ?xs) = take m as" "(if after then ?ys else as ! k # ?ys) = drop m as"
      using k by (simp_all add: m_def take_Suc_nth drop_nth_Cons)
    have dl': "dl h l (?xs @ as ! k # ?ys)" and room': "length (?xs @ as ! k # ?ys) + 1 < 2 ^ 64" using dl room sp by simp_all
    obtain h' l' where t: "listInsertNode h l ?node (as ! k) v after = Inr (h', l')" "dl h' l' (take m as @ ?node # drop m as)"
        "nodes_values h' (take m as @ ?node # drop m as) = nodes_values h (take m as) @ v # nodes_values h (drop m as)"
        "same_outside (insert ?node (set as)) h h'" "same_config l l'"
      using listInsertNode_ok [OF dl' free room', of v after] unfolding parts sp [symmetric] by blast
    have "set (take m as) \<union> set (drop m as) = set as" by (metis append_take_drop_id set_append)
    then have "owns h0 l0 h' l' (take m as @ ?node # drop m as)"
      by (intro owns_step [OF o _ t(2,5), of "{?node}"]) (use t(4) free in auto)
    then show ?thesis
      using t(1,3) listIndex_ok [OF dl i] Some
      by (intro op_postI [of _ h' l' _ _ "take m as @ ?node # drop m as"]) (simp_all add: values_take_drop m_def Let_def)
  qed
qed

lemma del_at_ok:
  assumes o: "owns h0 l0 h l as" and i: "- (2 ^ 63) < i"
  shows "op_post h0 l0 (DelAt i) h as (run_list_op zmalloc (DelAt i) h l)"
proof -
  have dl: "dl h l as" using o by (simp add: owns_def)
  show ?thesis
  proof (cases "pos_of (length as) i")
    case None
    then show ?thesis using o listIndex_ok [OF dl i] by (intro op_postI [of _ h l _ _ as]) simp_all
  next
    case (Some k)
    then have k: "k < length as" by (rule pos_of_range)
    let ?xs = "take k as" and ?ys = "drop (k + 1) as"
    have sp: "as = ?xs @ as ! k # ?ys" using k by (rule take_drop_split)
    have dl': "dl h l (?xs @ as ! k # ?ys)" using dl sp by simp
    obtain h' l' freed where t: "listDelNode h l (as ! k) = Inr (h', l', freed)" "dl h' l' (?xs @ ?ys)"
        "nodes_values h' (?xs @ ?ys) = nodes_values h ?xs @ nodes_values h ?ys" "h' (as ! k) = None"
        "same_outside (set as) h h'" "same_config l l'"
      using listDelNode_ok [OF dl'] unfolding sp [symmetric] by blast
    have u: "set as = set ?xs \<union> {as ! k} \<union> set ?ys" using arg_cong [OF sp, of set] by simp
    have "owns h0 l0 h' l' (?xs @ ?ys)" by (rule owns_step [OF o _ t(2,6), of "{}"]) (use t(4,5) u in auto)
    then show ?thesis
      using t(1,3) listIndex_ok [OF dl i] Some k
      by (intro op_postI [of _ h' l' _ _ "?xs @ ?ys"]) (simp_all add: values_take_drop)
  qed
qed

lemma rotate_ok:
  assumes o: "owns h0 l0 h l as"
  shows "op_post h0 l0 TailToHead h as (run_list_op zmalloc TailToHead h l)" "op_post h0 l0 HeadToTail h as (run_list_op zmalloc HeadToTail h l)"
proof -
  have dl: "dl h l as" using o by (simp add: owns_def)
  show "op_post h0 l0 TailToHead h as (run_list_op zmalloc TailToHead h l)"
  proof (cases as rule: rev_cases)
    case Nil
    then show ?thesis using o dl_len [OF dl] by (intro op_postI [of _ h l _ _ as]) (simp_all add: listRotateTailToHead_def)
  next
    case (snoc xs t)
    obtain h' l' where r: "listRotateTailToHead h l = Inr (h', l')" "dl h' l' (t # xs)" "nodes_values h' (t # xs) = n_value (the (h t)) # nodes_values h xs"
        "same_outside (set (xs @ [t])) h h'" "same_config l l'"
      using listRotateTailToHead_ok dl unfolding snoc by blast
    have "owns h0 l0 h' l' (t # xs)" by (rule owns_step [OF o _ r(2,5), of "{}"]) (use r(4) snoc in auto)
    then show ?thesis using r(1,3) snoc by (intro op_postI [of _ h' l' _ _ "t # xs"]) simp_all
  qed
  show "op_post h0 l0 HeadToTail h as (run_list_op zmalloc HeadToTail h l)"
  proof (cases as)
    case Nil
    then show ?thesis using o dl_len [OF dl] by (intro op_postI [of _ h l _ _ as]) (simp_all add: listRotateHeadToTail_def)
  next
    case (Cons t xs)
    obtain h' l' where r: "listRotateHeadToTail h l = Inr (h', l')" "dl h' l' (xs @ [t])" "nodes_values h' (xs @ [t]) = nodes_values h xs @ [n_value (the (h t))]"
        "same_outside (set (t # xs)) h h'" "same_config l l'"
      using listRotateHeadToTail_ok dl unfolding Cons by blast
    have "owns h0 l0 h' l' (xs @ [t])" by (rule owns_step [OF o _ r(2,5), of "{}"]) (use r(4) Cons in auto)
    then show ?thesis using r(1,3) Cons by (intro op_postI [of _ h' l' _ _ "xs @ [t]"]) simp_all
  qed
qed

lemma owned_apart: "dl h l as \<Longrightarrow> \<forall>b \<in> set bs. h b = None \<Longrightarrow> set as \<inter> set bs = {}"
  using dl_node by fastforce

lemma join_with_ok:
  assumes z: "fresh_alloc zmalloc" and o: "owns h0 l0 h l as" and fin: "finite (dom h)" and room: "length as + length vs < 2 ^ 64"
  shows "op_post h0 l0 (JoinWith vs) h as (run_list_op zmalloc (JoinWith vs) h l)"
proof -
  have dl: "dl h l as" using o by (simp add: owns_def)
  have c: "dl h listCreate []" by (simp add: dl_def listCreate_def)
  obtain h1 o2 bs where b: "build zmalloc vs h listCreate = Inr (h1, o2)" "dl h1 o2 bs" "nodes_values h1 bs = vs" "\<forall>b \<in> set bs. h b = None"
      "same_outside (set bs) h h1"
    using build_ok [OF z fin c, of vs] room by auto
  have apart: "set as \<inter> set bs = {}" by (rule owned_apart [OF dl b(4)])
  have len: "length bs = length vs" using arg_cong [OF b(3), of length] by simp
  then have room': "length as + length bs < 2 ^ 64" using room by simp
  obtain h' l' o' where j: "listJoin h1 l o2 = Inr (h', l', o')" "dl h' l' (as @ bs)" "nodes_values h' (as @ bs) = nodes_values h1 as @ nodes_values h1 bs"
      "same_outside (set (as @ bs)) h1 h'" "same_config l l'"
    using listJoin_ok [OF dl_same [OF dl b(5) apart] b(2) apart room'] by blast
  have "same_outside (set as \<union> set bs) h h'" using b(5) j(4) by (auto simp: same_outside_def)
  then have "owns h0 l0 h' l' (as @ bs)" by (rule owns_step [OF o _ j(2,5)]) (use b(4) in auto)
  then show ?thesis
    using b(1,3) j(1,3) values_same [OF b(5) apart] len by (intro op_postI [of _ h' l' _ _ "as @ bs"]) simp_all
qed

lemma those_length: "those xs = Some ys \<Longrightarrow> length ys = length xs"
  by (induction xs arbitrary: ys) (auto split: option.splits)

lemma dup_swap_ok:
  assumes z: "fresh_alloc zmalloc" and o: "owns h0 l0 h l as" and fin: "finite (dom h)"
  shows "op_post h0 l0 DupSwap h as (run_list_op zmalloc DupSwap h l)"
proof -
  have dl: "dl h l as" and d: "l_dup l = l_dup l0" using o by (simp_all add: owns_def same_config_def)
  let ?c = "listCreate\<lparr>l_dup := l_dup l, l_free := l_free l, l_match := l_match l\<rparr> :: 'a adlist"
  let ?ys = "those (map (dup_value (l_dup l)) (nodes_values h as))"
  obtain h1 r where h1: "listDup zmalloc h l = Some (Inr (h1, r))" "dup_post h ?c [] ?ys h1 r" using listDup_ok [OF z fin dl] by blast
  show ?thesis
  proof (cases ?ys)
    case None
    then have "r = None" "h1 = h" using h1(2) by (simp_all add: dup_post_def)
    then show ?thesis using o h1(1) None d by (intro op_postI [of _ h l _ _ as]) simp_all
  next
    case (Some ys)
    then obtain copy cs where c: "r = Some copy" "dl h1 copy cs" "nodes_values h1 cs = ys" "\<forall>a \<in> set cs. h a = None" "same_outside (set cs) h h1" "same_config ?c copy"
      using h1(2) by (auto simp: dup_post_def)
    have apart: "set as \<inter> set cs = {}" by (rule owned_apart [OF dl c(4)])
    let ?h2 = "\<lambda>a. if a \<in> set as then None else h1 a"
    have rel: "listRelease h1 l = Inr (?h2, if l_free l then nodes_values h1 as else [])"
      by (rule listRelease_ok [OF dl_same [OF dl c(5) apart]])
    have so: "same_outside (set as) h1 ?h2" by (simp add: same_outside_def)
    have ap: "set cs \<inter> set as = {}" using apart by blast
    have "same_config l copy" using c(6) by (simp add: same_config_def)
    moreover have "same_outside (set as \<union> set cs) h ?h2" using c(5) by (simp add: same_outside_def)
    ultimately have "owns h0 l0 ?h2 copy cs" using dl_same [OF c(2) so ap] c(4) by (intro owns_step [OF o, of "set cs"]) auto
    moreover have "length cs = length as" using those_length [OF Some] arg_cong [OF c(3), of length] by simp
    ultimately show ?thesis
      using h1(1) c(1,3) rel Some d values_same [OF so ap] by (intro op_postI [of _ ?h2 copy _ _ cs]) simp_all
  qed
qed

lemma run_list_op_ok:
  assumes z: "fresh_alloc zmalloc" and o: "owns h0 l0 h l as" and fin: "finite (dom h0)" and room: "length as + list_op_size x < 2 ^ 64" and x: "list_op_ok x"
  shows "op_post h0 l0 x h as (run_list_op zmalloc x h l)"
proof -
  have f: "finite (dom h)" by (rule owns_finite [OF o fin])
  then have free: "h (zmalloc h) = None" using z by (simp add: fresh_alloc_def)
  show ?thesis
    using add_ok [OF o, of zmalloc] insert_at_ok [OF o, of zmalloc] free del_at_ok [OF o] rotate_ok [OF o] join_with_ok [OF z o f] dup_swap_ok [OF z o f] room x
    by (cases x) (simp_all del: run_list_op.simps)
qed

lemma run_list_ops_ok:
  assumes z: "fresh_alloc zmalloc" and fin: "finite (dom h0)"
  shows "owns h0 l0 h l as \<Longrightarrow> length as + sum_list (map list_op_size ops) < 2 ^ 64 \<Longrightarrow> \<forall>x \<in> set ops. list_op_ok x \<Longrightarrow>
    \<exists>h' l' as'. run_list_ops zmalloc ops h l = Some (Inr (h', l')) \<and> owns h0 l0 h' l' as' \<and>
      nodes_values h' as' = fold (spec_list_op (l_dup l0)) ops (nodes_values h as)"
proof (induction ops arbitrary: h l as)
  case (Cons x ops)
  have "op_post h0 l0 x h as (run_list_op zmalloc x h l)" by (rule run_list_op_ok [OF z Cons.prems(1) fin]) (use Cons.prems in simp_all)
  then obtain h1 l1 as1 where s: "run_list_op zmalloc x h l = Some (Inr (h1, l1))" "owns h0 l0 h1 l1 as1"
      "nodes_values h1 as1 = spec_list_op (l_dup l0) x (nodes_values h as)" "length as1 \<le> length as + list_op_size x"
    by (auto simp: op_post_def)
  show ?case using Cons.IH [OF s(2)] Cons.prems(2,3) s by simp
qed auto

section \<open>Properties\<close>

text \<open>C22: A doubly linked list behaves as a sequence: after any sequence of insertions at both ends or next to a node
  found by index, deletions, rotations, joins with other lists and replacements by a copy, an iterator
  visits exactly the nodes of the sequence that the same operations give on a list, in order from the head and in
  reverse order from the tail, the length is right, and a search finds the first node that matches. No operation follows
  a null or dangling pointer, and releasing the list gives the heap back exactly as it was before the list was
  created: no node is leaked or freed twice, and no other memory is touched. The allocator is assumed to return
  unused addresses.\<close>

theorem adlist_refines_sequence:
  assumes "fresh_alloc zmalloc" and "finite (dom h0)" and "sum_list (map list_op_size ops) < 2 ^ 64" and "\<forall>x \<in> set ops. list_op_ok x"
  shows "\<exists>h l as. run_list_ops zmalloc ops h0 (listCreate\<lparr>l_dup := d, l_free := f, l_match := m\<rparr>) = Some (Inr (h, l)) \<and>
    nodes_values h as = fold (spec_list_op d) ops [] \<and> l_len l = length as \<and>
    visit h (listGetIterator l AL_START_HEAD) [] = Some (Inr as) \<and> visit h (listGetIterator l AL_START_TAIL) [] = Some (Inr (rev as)) \<and>
    listSearchKey h l key =
      Some (Inr (find (\<lambda>a. case m of Some f \<Rightarrow> f (n_value (the (h a))) key | None \<Rightarrow> key = n_value (the (h a))) as)) \<and>
    listRelease h l = Inr (h0, if f then fold (spec_list_op d) ops [] else [])"
proof -
  let ?l = "listCreate\<lparr>l_dup := d, l_free := f, l_match := m\<rparr>"
  have "owns h0 ?l h0 ?l []" by (simp add: owns_def dl_def listCreate_def same_outside_def same_config_def)
  then obtain h l as where r: "run_list_ops zmalloc ops h0 ?l = Some (Inr (h, l))" "owns h0 ?l h l as"
      "nodes_values h as = fold (spec_list_op d) ops []"
    using run_list_ops_ok [OF assms(1,2), of ?l h0 ?l "[]" ops] assms(3,4) by auto
  then have dl: "dl h l as" and so: "same_outside (set as) h0 h" "\<forall>a \<in> set as. h0 a = None" and c: "l_free l = f" "l_match l = m"
    by (simp_all add: owns_def same_config_def)
  have L: "linked h None as None" "l_head l = fst_of as None" "l_tail l = lst_of None as" "l_len l = length as" using dl by (simp_all add: dl_def)
  have "(\<lambda>a. if a \<in> set as then None else h a) = h0" using so by (auto simp: same_outside_def)
  then have "listRelease h l = Inr (h0, if f then fold (spec_list_op d) ops [] else [])" using listRelease_ok [OF dl] c r(3) by simp
  moreover have "visit h (listGetIterator l AL_START_HEAD) [] = Some (Inr as)" using visit_next [OF L(1)] L(2) by (simp add: listGetIterator_def)
  moreover have "visit h (listGetIterator l AL_START_TAIL) [] = Some (Inr (rev as))" using visit_prev [OF L(1)] L(3) by (simp add: listGetIterator_def)
  moreover have "listSearchKey h l key =
      Some (Inr (find (\<lambda>a. case m of Some f \<Rightarrow> f (n_value (the (h a))) key | None \<Rightarrow> key = n_value (the (h a))) as))"
    using search_loop_ok [OF L(1), of l key] L(2) c(2) by (simp add: listSearchKey_def listRewind_def)
  ultimately show ?thesis using r(1,3) L(4) by blast
qed

lemma fresh_alloc_example: "fresh_alloc (\<lambda>h. Suc (Max (insert 0 (dom h))))"
proof -
  have "Suc (Max (insert 0 (dom h))) \<notin> dom h" if "finite (dom h)" for h :: "'a heap"
  proof
    assume "Suc (Max (insert 0 (dom h))) \<in> dom h"
    then have "Suc (Max (insert 0 (dom h))) \<le> Max (insert 0 (dom h))" using that by (intro Max_ge) auto
    then show False by simp
  qed
  then show ?thesis by (auto simp: fresh_alloc_def)
qed

theorem adlist_refines_sequence_witness:
  "\<exists>h l as. run_list_ops (\<lambda>h. Suc (Max (insert 0 (dom h)))) [AddTail 1, AddTail 2, AddHead 3, InsertAt (-1) 4 False, TailToHead, DelAt 1, DupSwap, JoinWith [5 :: nat]]
      Map.empty (listCreate\<lparr>l_dup := None, l_free := True, l_match := None\<rparr>) = Some (Inr (h, l)) \<and>
    nodes_values h as = [2, 1, 4, 5] \<and> visit h (listGetIterator l AL_START_HEAD) [] = Some (Inr as) \<and>
    listRelease h l = Inr (Map.empty, [2, 1, 4, 5])"
  using adlist_refines_sequence [OF fresh_alloc_example, of Map.empty
      "[AddTail 1, AddTail 2, AddHead 3, InsertAt (-1) 4 False, TailToHead, DelAt 1, DupSwap, JoinWith [5 :: nat]]" None True None 0]
  by (simp add: pos_of_def dup_value_def Let_def) blast

end
