(* ===== verification/Sha1.thy ===== *)
theory Sha1
  imports Bytes "HOL-Library.Multiset"
begin

text \<open>
  \<open>sha1.c\<close>: SHA-1, which names the scripts of Redis and digests the data set, as the code computes it (a
  block expanded in place in a circular buffer of 16 words, with 80 unrolled operations that rename
  five variables; a context fed piece by piece, with a 64-bit count in two words), on a little-endian host; \<open>sha1hex\<close> of
  \<open>scripting.c\<close> and the digests of \<open>debug.c\<close>. The reference is the definition of the standard.
\<close>

section \<open>The code\<close>

definition rol :: "u32 \<Rightarrow> nat \<Rightarrow> u32" where
  "rol v b = push_bit b v OR drop_bit (32 - b) v"

text \<open>The two ways to get the next word of the schedule; both store it in the block.\<close>

definition blk0 :: "nat \<Rightarrow> u32 list \<Rightarrow> u32 \<times> u32 list" where
  "blk0 i l = (let x = (rol (l ! i) 24 AND 0xFF00FF00) OR (rol (l ! i) 8 AND 0x00FF00FF) in (x, l[i := x]))"

definition blk :: "nat \<Rightarrow> u32 list \<Rightarrow> u32 \<times> u32 list" where
  "blk i l =
     (let x = rol (l ! ((i + 13) mod 16) XOR l ! ((i + 8) mod 16) XOR l ! ((i + 2) mod 16) XOR l ! (i mod 16)) 1
      in (x, l[i mod 16 := x]))"

text \<open>The five working variables, as positions of a list, and the block.\<close>

record sha_work =
  vars :: "u32 list"
  block_l :: "u32 list"

definition sha_R :: "(u32 \<Rightarrow> u32 \<Rightarrow> u32 \<Rightarrow> u32) \<Rightarrow> (nat \<Rightarrow> u32 list \<Rightarrow> u32 \<times> u32 list) \<Rightarrow> u32 \<Rightarrow>
    nat \<Rightarrow> nat \<Rightarrow> nat \<Rightarrow> nat \<Rightarrow> nat \<Rightarrow> nat \<Rightarrow> sha_work \<Rightarrow> sha_work" where
  "sha_R f expand k v w x y z i s =
     (case expand i (block_l s) of (m, l) \<Rightarrow>
      let r = vars s;
          r = r[z := r ! z + (f (r ! w) (r ! x) (r ! y) + m + k + rol (r ! v) 5)];
          r = r[w := rol (r ! w) 30]
      in \<lparr> vars = r, block_l = l \<rparr>)"

definition R0 :: "nat \<Rightarrow> nat \<Rightarrow> nat \<Rightarrow> nat \<Rightarrow> nat \<Rightarrow> nat \<Rightarrow> sha_work \<Rightarrow> sha_work" where
  "R0 = sha_R (\<lambda>w x y. (w AND (x XOR y)) XOR y) blk0 0x5A827999"

definition R1 :: "nat \<Rightarrow> nat \<Rightarrow> nat \<Rightarrow> nat \<Rightarrow> nat \<Rightarrow> nat \<Rightarrow> sha_work \<Rightarrow> sha_work" where
  "R1 = sha_R (\<lambda>w x y. (w AND (x XOR y)) XOR y) blk 0x5A827999"

definition R2 :: "nat \<Rightarrow> nat \<Rightarrow> nat \<Rightarrow> nat \<Rightarrow> nat \<Rightarrow> nat \<Rightarrow> sha_work \<Rightarrow> sha_work" where
  "R2 = sha_R (\<lambda>w x y. w XOR x XOR y) blk 0x6ED9EBA1"

definition R3 :: "nat \<Rightarrow> nat \<Rightarrow> nat \<Rightarrow> nat \<Rightarrow> nat \<Rightarrow> nat \<Rightarrow> sha_work \<Rightarrow> sha_work" where
  "R3 = sha_R (\<lambda>w x y. ((w OR x) AND y) OR (w AND x)) blk 0x8F1BBCDC"

definition R4 :: "nat \<Rightarrow> nat \<Rightarrow> nat \<Rightarrow> nat \<Rightarrow> nat \<Rightarrow> nat \<Rightarrow> sha_work \<Rightarrow> sha_work" where
  "R4 = sha_R (\<lambda>w x y. w XOR x XOR y) blk 0xCA62C1D6"

text \<open>The 80 operations in the order of the code, on the variables \<open>a\<close> to \<open>e\<close>.\<close>

definition sha_ops :: "nat \<Rightarrow> nat \<Rightarrow> nat \<Rightarrow> nat \<Rightarrow> nat \<Rightarrow> (sha_work \<Rightarrow> sha_work) list" where
  "sha_ops a b c d e = [
     R0 a b c d e 0, R0 e a b c d 1, R0 d e a b c 2, R0 c d e a b 3,
     R0 b c d e a 4, R0 a b c d e 5, R0 e a b c d 6, R0 d e a b c 7,
     R0 c d e a b 8, R0 b c d e a 9, R0 a b c d e 10, R0 e a b c d 11,
     R0 d e a b c 12, R0 c d e a b 13, R0 b c d e a 14, R0 a b c d e 15,
     R1 e a b c d 16, R1 d e a b c 17, R1 c d e a b 18, R1 b c d e a 19,
     R2 a b c d e 20, R2 e a b c d 21, R2 d e a b c 22, R2 c d e a b 23,
     R2 b c d e a 24, R2 a b c d e 25, R2 e a b c d 26, R2 d e a b c 27,
     R2 c d e a b 28, R2 b c d e a 29, R2 a b c d e 30, R2 e a b c d 31,
     R2 d e a b c 32, R2 c d e a b 33, R2 b c d e a 34, R2 a b c d e 35,
     R2 e a b c d 36, R2 d e a b c 37, R2 c d e a b 38, R2 b c d e a 39,
     R3 a b c d e 40, R3 e a b c d 41, R3 d e a b c 42, R3 c d e a b 43,
     R3 b c d e a 44, R3 a b c d e 45, R3 e a b c d 46, R3 d e a b c 47,
     R3 c d e a b 48, R3 b c d e a 49, R3 a b c d e 50, R3 e a b c d 51,
     R3 d e a b c 52, R3 c d e a b 53, R3 b c d e a 54, R3 a b c d e 55,
     R3 e a b c d 56, R3 d e a b c 57, R3 c d e a b 58, R3 b c d e a 59,
     R4 a b c d e 60, R4 e a b c d 61, R4 d e a b c 62, R4 c d e a b 63,
     R4 b c d e a 64, R4 a b c d e 65, R4 e a b c d 66, R4 d e a b c 67,
     R4 c d e a b 68, R4 b c d e a 69, R4 a b c d e 70, R4 e a b c d 71,
     R4 d e a b c 72, R4 c d e a b 73, R4 b c d e a 74, R4 a b c d e 75,
     R4 e a b c d 76, R4 d e a b c 77, R4 c d e a b 78, R4 b c d e a 79]"

text \<open>The block of 64 bytes read as 16 words of the host.\<close>

definition load_block :: "byte list \<Rightarrow> u32 list" where
  "load_block buffer = map (\<lambda>i. bytes_word (take 4 (drop (4 * i) buffer))) [0..<16]"

definition SHA1Transform :: "u32 list \<Rightarrow> byte list \<Rightarrow> u32 list" where
  "SHA1Transform state buffer =
     (let s = fold (\<lambda>R. R) (sha_ops 0 1 2 3 4) \<lparr> vars = state, block_l = load_block buffer \<rparr>
      in map2 (+) state (vars s))"

record SHA1_CTX =
  sha_state :: "u32 list"
  count0 :: u32
  count1 :: u32
  sha_buffer :: "byte list"

definition SHA1Init :: "SHA1_CTX \<Rightarrow> SHA1_CTX" where
  "SHA1Init ctx = ctx\<lparr> sha_state := [0x67452301, 0xEFCDAB89, 0x98BADCFE, 0x10325476, 0xC3D2E1F0], count0 := 0, count1 := 0 \<rparr>"

text \<open>Reading and copying \<open>n\<close> bytes of the data from position \<open>i\<close>, within the \<open>len\<close> bytes there are.\<close>

definition data_at :: "byte list \<Rightarrow> u32 \<Rightarrow> u32 \<Rightarrow> u32 \<Rightarrow> byte list cres" where
  "data_at data len i n =
     (if unat i + unat n \<le> unat len \<and> unat len \<le> length data then Inr (take (unat n) (drop (unat i) data)) else Inl OutOfBounds)"

definition to_buffer :: "SHA1_CTX \<Rightarrow> u32 \<Rightarrow> byte list \<Rightarrow> SHA1_CTX cres" where
  "to_buffer ctx j bs =
     (if unat j + length bs \<le> length (sha_buffer ctx) then Inr (ctx\<lparr>sha_buffer := store_at (sha_buffer ctx) (unat j) bs\<rparr>)
      else Inl OutOfBounds)"

text \<open>The whole blocks of the data from position \<open>i\<close> on; the result is the position behind them and the state.\<close>

function update_loop :: "byte list \<Rightarrow> u32 \<Rightarrow> u32 \<Rightarrow> u32 list \<Rightarrow> (u32 \<times> u32 list) cres" where
  "update_loop data len i state =
     (if i + 63 < len then
        cbind (data_at data len i 64) (\<lambda>bs. update_loop data len (i + 64) (SHA1Transform state bs))
      else Inr (i, state))"
  by pat_completeness auto
termination
proof (relation "measure (\<lambda>(data, len, i, state). unat len - unat i)", goal_cases)
  case (2 data len i state bs)
  then have le: "unat i + 64 \<le> unat len" by (simp add: data_at_def split: if_splits)
  then have "unat (i + 64) = unat i + 64" using unat_less [of len] by (subst unat_add_lem [THEN iffD1]) simp_all
  with le show ?case by simp
qed simp

declare update_loop.simps [simp del]

definition SHA1Update :: "SHA1_CTX \<Rightarrow> byte list \<Rightarrow> u32 \<Rightarrow> SHA1_CTX cres" where
  "SHA1Update context data len =
     (let j = count0 context;
          context = context\<lparr>count0 := j + push_bit 3 len\<rparr>;
          context = (if count0 context < j then context\<lparr>count1 := count1 context + 1\<rparr> else context);
          context = context\<lparr>count1 := count1 context + drop_bit 29 len\<rparr>;
          j = drop_bit 3 j AND 63 in
      cbind (if j + len > 63 then
               (let i = 64 - j in
                cbind (data_at data len 0 i) (\<lambda>bs.
                cbind (to_buffer context j bs) (\<lambda>context.
                cbind (update_loop data len i (SHA1Transform (sha_state context) (sha_buffer context))) (\<lambda>(i, state).
                Inr (context\<lparr>sha_state := state\<rparr>, 0, i)))))
             else Inr (context, j, 0)) (\<lambda>(context, j, i).
      cbind (data_at data len i (len - i)) (\<lambda>bs. to_buffer context j bs)))"

text \<open>One byte \<open>(w >> ((3 - k) * 8)) & 255\<close>.\<close>

definition be_byte :: "u32 \<Rightarrow> nat \<Rightarrow> byte" where
  "be_byte w k = ucast (drop_bit ((3 - k) * 8) w AND 255)"

lemma update_count0: "SHA1Update ctx data len = Inr ctx' \<Longrightarrow> count0 ctx' = count0 ctx + push_bit 3 len"
  by (auto simp: SHA1Update_def Let_def cbind_eq_Inr_iff to_buffer_def split: if_splits)


lemma and_63_mask: "(w :: u32) AND 63 = take_bit 6 w"
  unfolding take_bit_eq_mask by (simp add: mask_eq_exp_minus_1)

lemma and_63: "unat (drop_bit 3 (j :: u32) AND 63) = unat j div 8 mod 64"
  unfolding and_63_mask unsigned_take_bit_eq unsigned_drop_bit_eq
  using unat_less [of j] by (simp add: take_bit_eq_mod drop_bit_eq_div)

lemma and_504: "(c :: u32) AND 504 = push_bit 3 (take_bit 6 (drop_bit 3 c))"
proof -
  have "(504 :: u32) = push_bit 3 (mask 6)" by (simp add: push_bit_eq_mult mask_eq_exp_minus_1)
  show ?thesis unfolding \<open>504 = push_bit 3 (mask 6)\<close> by (intro bit_word_eqI) (auto simp: bit_simps)
qed

lemma and_504_eq_448: "(c :: u32) AND 504 = 448 \<longleftrightarrow> unat c div 8 mod 64 = 56"
proof -
  have "push_bit 3 (take_bit 6 (drop_bit 3 c)) = push_bit 3 (56 :: u32) \<longleftrightarrow> take_bit 6 (drop_bit 3 c) = 56"
  proof
    assume "push_bit 3 (take_bit 6 (drop_bit 3 c)) = push_bit 3 (56 :: u32)"
    then have "drop_bit 3 (push_bit 3 (take_bit 6 (drop_bit 3 c))) = drop_bit 3 (push_bit 3 (56 :: u32))" by simp
    moreover have "drop_bit 3 (push_bit 3 (take_bit 6 w)) = take_bit 6 w" for w :: u32
      by (intro bit_word_eqI) (auto simp: bit_simps)
    ultimately show "take_bit 6 (drop_bit 3 c) = 56" by simp
  qed simp
  also have "\<dots> \<longleftrightarrow> unat (take_bit 6 (drop_bit 3 c)) = unat (56 :: u32)" by (rule word_unat_eq_iff)
  also have "\<dots> \<longleftrightarrow> unat c div 8 mod 64 = 56" using and_63 [of c] unfolding and_63_mask by simp
  finally show ?thesis unfolding and_504 by (simp add: push_bit_eq_mult)
qed

lemma count_bytes: "unat (c + push_bit 3 (len :: u32)) div 8 mod 64 = (unat c div 8 + unat len) mod 64"
proof -
  have "unat (c + push_bit 3 len) = (unat c + unat len * 8) mod (8 * 2 ^ 29)"
    by (simp add: unat_word_ariths push_bit_eq_mult mod_simps mult.commute)
  also have "\<dots> div 8 = (unat c + unat len * 8) div 8 mod 2 ^ 29"
    unfolding mod_mult2_eq by simp
  finally show ?thesis by (simp add: mod_mod_cancel add.commute)
qed

text \<open>Padding with zero bytes up to 56 bytes of a block.\<close>

function pad_loop :: "SHA1_CTX \<Rightarrow> SHA1_CTX cres" where
  "pad_loop context =
     (if count0 context AND 504 \<noteq> 448 then cbind (SHA1Update context [0] 1) pad_loop else Inr context)"
  by pat_completeness auto
termination
proof (relation "measure (\<lambda>context. (120 - unat (count0 context) div 8 mod 64) mod 64)", goal_cases)
  case (2 u v)
  have next_c: "unat (count0 v) div 8 mod 64 = (unat (count0 u) div 8 mod 64 + 1) mod 64"
    using update_count0 [OF 2(2)] count_bytes [of "count0 u" 1] by (simp add: mod_simps)
  have step: "(120 - (c + 1) mod 64) mod 64 < (120 - c) mod 64" if "c < 64" "c \<noteq> 56" for c :: nat
  proof -
    have "c \<in> set [0..<64]" using that by simp
    then show ?thesis using that(2) by (auto simp: upt_conv_Cons)
  qed
  show ?case using step [of "unat (count0 u) div 8 mod 64"] 2(1) next_c unfolding and_504_eq_448 by simp
qed simp

declare pad_loop.simps [simp del]

definition SHA1Final :: "SHA1_CTX \<Rightarrow> (byte list \<times> SHA1_CTX) cres" where
  "SHA1Final context =
     (let finalcount = map (\<lambda>i. be_byte (if i \<ge> 4 then count0 context else count1 context) (i mod 4)) [0..<8] in
      cbind (SHA1Update context [0x80] 1) (\<lambda>context.
      cbind (pad_loop context) (\<lambda>context.
      cbind (SHA1Update context finalcount 8) (\<lambda>context.
      Inr (map (\<lambda>i. be_byte (sha_state context ! (i div 4)) (i mod 4)) [0..<20],
           \<lparr> sha_state = replicate 5 0, count0 = 0, count1 = 0, sha_buffer = replicate 64 0 \<rparr>)))))"

text \<open>\<open>sha1hex\<close>: a context of unspecified contents on the stack, and the digest in hexadecimal with a terminator.\<close>

definition sha1hex :: "SHA1_CTX \<Rightarrow> byte list \<Rightarrow> byte list cres" where
  "sha1hex ctx script =
     (let cset = bytes ''0123456789abcdef'' in
      cbind (SHA1Update (SHA1Init ctx) script (word_of_nat (length script))) (\<lambda>ctx.
      cbind (SHA1Final ctx) (\<lambda>(hash, ctx).
      Inr (concat (map (\<lambda>j. [cset ! unat (drop_bit 4 (hash ! j AND 0xF0)), cset ! unat (hash ! j AND 0xF)]) [0..<20]) @ [0]))))"

text \<open>The digests of \<open>DEBUG DIGEST\<close>.\<close>

definition xorDigest :: "SHA1_CTX \<Rightarrow> byte list \<Rightarrow> byte list \<Rightarrow> byte list cres" where
  "xorDigest ctx digest s =
     cbind (SHA1Update (SHA1Init ctx) s (word_of_nat (length s))) (\<lambda>ctx.
     cbind (SHA1Final ctx) (\<lambda>(hash, ctx).
     Inr (map (\<lambda>j. digest ! j XOR hash ! j) [0..<20])))"

definition mixDigest :: "SHA1_CTX \<Rightarrow> SHA1_CTX \<Rightarrow> byte list \<Rightarrow> byte list \<Rightarrow> byte list cres" where
  "mixDigest ctx1 ctx2 digest s =
     cbind (xorDigest ctx1 digest s) (\<lambda>digest.
     cbind (SHA1Update (SHA1Init ctx2) digest 20) (\<lambda>ctx.
     cbind (SHA1Final ctx) (\<lambda>(hash, ctx). Inr hash)))"

section \<open>The standard\<close>

definition sha_f :: "nat \<Rightarrow> u32 \<Rightarrow> u32 \<Rightarrow> u32 \<Rightarrow> u32" where
  "sha_f t x y z =
     (if t < 20 then (x AND y) XOR (NOT x AND z)
      else if t < 40 then x XOR y XOR z
      else if t < 60 then (x AND y) XOR (x AND z) XOR (y AND z)
      else x XOR y XOR z)"

definition sha_K :: "nat \<Rightarrow> u32" where
  "sha_K t = (if t < 20 then 0x5A827999 else if t < 40 then 0x6ED9EBA1 else if t < 60 then 0x8F1BBCDC else 0xCA62C1D6)"

fun sha_W :: "u32 list \<Rightarrow> nat \<Rightarrow> u32" where
  "sha_W M t =
     (if t < 16 then M ! t
      else word_rotl 1 (sha_W M (t - 3) XOR sha_W M (t - 8) XOR sha_W M (t - 14) XOR sha_W M (t - 16)))"

declare sha_W.simps [simp del]

type_synonym sha_hash = "u32 \<times> u32 \<times> u32 \<times> u32 \<times> u32"

definition sha_step :: "u32 list \<Rightarrow> nat \<Rightarrow> sha_hash \<Rightarrow> sha_hash" where
  "sha_step M t = (\<lambda>(a, b, c, d, e). (word_rotl 5 a + sha_f t b c d + e + sha_K t + sha_W M t, a, word_rotl 30 b, c, d))"

text \<open>A block of 64 bytes as 16 big-endian words.\<close>

definition be_word :: "byte list \<Rightarrow> u32" where
  "be_word bs = bytes_word (rev bs)"

definition be_words :: "byte list \<Rightarrow> u32 list" where
  "be_words B = map (\<lambda>i. be_word (take 4 (drop (4 * i) B))) [0..<16]"

definition sha_block :: "byte list \<Rightarrow> sha_hash \<Rightarrow> sha_hash" where
  "sha_block B H =
     (case H of (h0, h1, h2, h3, h4) \<Rightarrow> case fold (sha_step (be_words B)) [0..<80] H of (a, b, c, d, e) \<Rightarrow>
      (h0 + a, h1 + b, h2 + c, h3 + d, h4 + e))"

function blocks :: "byte list \<Rightarrow> byte list list" where
  "blocks m = (if length m < 64 then [] else take 64 m # blocks (drop 64 m))"
  by auto
termination by (relation "measure length") auto

declare blocks.simps [simp del]

definition sha_H0 :: sha_hash where
  "sha_H0 = (0x67452301, 0xEFCDAB89, 0x98BADCFE, 0x10325476, 0xC3D2E1F0)"

text \<open>A number as bytes, the most significant first.\<close>

definition be_enc :: "nat \<Rightarrow> nat \<Rightarrow> byte list" where
  "be_enc n v = rev (le_enc n v)"

definition sha_pad :: "byte list \<Rightarrow> byte list" where
  "sha_pad m = m @ [0x80] @ replicate ((119 - length m mod 64) mod 64) 0 @ be_enc 8 (8 * length m)"

definition sha1 :: "byte list \<Rightarrow> byte list" where
  "sha1 m = (case fold sha_block (blocks (sha_pad m)) sha_H0 of (a, b, c, d, e) \<Rightarrow> concat (map (\<lambda>w. be_enc 4 (unat w)) [a, b, c, d, e]))"

section \<open>The operations compute the schedule and the steps\<close>

lemma bit_rol:
  assumes "0 < b" and "b < 32" and "n < 32"
  shows "bit (rol v b) n \<longleftrightarrow> bit v ((n + (32 - b)) mod 32)"
proof (cases "n < b")
  case True
  then show ?thesis using assms by (simp add: rol_def bit_simps add.commute)
next
  case False
  then have "(n + (32 - b)) mod 32 = n - b" using assms by (simp add: mod_if)
  moreover have "\<not> bit v (32 - b + n)" using False assms by (auto dest: bit_imp_le_length)
  ultimately show ?thesis using False assms by (simp add: rol_def bit_simps)
qed

lemma rol_word_rotl: "0 < b \<Longrightarrow> b < 32 \<Longrightarrow> rol v b = word_rotl b v"
  by (rule bit_word_eqI) (simp add: bit_rol bit_word_rotl_iff)

lemma bit_le_val: "bit (le_val bs) n \<longleftrightarrow> n div 8 < length bs \<and> bit (bs ! (n div 8)) (n mod 8)"
proof (induction bs arbitrary: n)
  case (Cons b bs)
  have disj: "bit (unat b) n \<Longrightarrow> n < 8" for n by (auto simp: bit_unsigned_iff dest: bit_imp_le_length)
  have "unat b + 256 * le_val bs = unat b + push_bit 8 (le_val bs)" by (simp add: push_bit_eq_mult)
  also have "\<dots> = unat b OR push_bit 8 (le_val bs)"
    by (rule disjunctive_add) (use disj in \<open>auto simp: bit_simps dest: leD\<close>)
  finally have "bit (le_val (b # bs)) n \<longleftrightarrow> bit (unat b) n \<or> 8 \<le> n \<and> bit (le_val bs) (n - 8)" by (simp add: bit_simps)
  moreover have "n div 8 = Suc ((n - 8) div 8)" "n mod 8 = (n - 8) mod 8" if "8 \<le> n"
    using that by (simp_all add: le_div_geq le_mod_geq)
  ultimately show ?case using Cons [of "n - 8"] disj [of n] by (cases "n < 8") (auto simp: bit_unsigned_iff)
qed simp

lemma bit_bytes_word:
  "bit (bytes_word bs :: 'a::len word) n \<longleftrightarrow> n < LENGTH('a) \<and> n div 8 < length bs \<and> bit (bs ! (n div 8)) (n mod 8)"
proof -
  have "(bytes_word bs :: 'a word) = word_of_int (int (le_val bs))" by (simp add: bytes_word_def)
  then show ?thesis by (simp only: bit_word_of_int_iff bit_of_nat_iff_bit bit_le_val)
qed

lemma bit_swap_masks:
  assumes "n < 32"
  shows "bit (0xFF00FF00 :: u32) n \<longleftrightarrow> n div 8 = 1 \<or> n div 8 = 3" and "bit (0x00FF00FF :: u32) n \<longleftrightarrow> n div 8 = 0 \<or> n div 8 = 2"
proof -
  have n: "n \<in> set [0..<32]" using assms by simp
  from n show "bit (0xFF00FF00 :: u32) n \<longleftrightarrow> n div 8 = 1 \<or> n div 8 = 3" by (auto simp: upt_conv_Cons)
  from n show "bit (0x00FF00FF :: u32) n \<longleftrightarrow> n div 8 = 0 \<or> n div 8 = 2" by (auto simp: upt_conv_Cons)
qed

lemma bit_rotated_bytes:
  assumes "length bs = 4" and "r < 8" and "k < 4" and "0 < m" and "m < 4"
  shows "bit (rol (bytes_word bs) (8 * (4 - m))) (8 * k + r) \<longleftrightarrow> bit (bs ! ((k + m) mod 4)) r"
proof -
  have "(8 * k + r + (32 - 8 * (4 - m))) mod 32 = (8 * (k + m) + r) mod (8 * 4)" using assms by (simp add: algebra_simps)
  also have "\<dots> = 8 * ((k + m) mod 4) + r"
  proof -
    have "(8 * (k + m) + r) div 8 = k + m" "(8 * (k + m) + r) mod 8 = r" using assms(2) by (simp_all del: distrib_left_numeral)
    then show ?thesis unfolding mod_mult2_eq by simp
  qed
  finally have e: "(8 * k + r + (32 - 8 * (4 - m))) mod 32 = 8 * ((k + m) mod 4) + r" .
  have "(k + m) mod 4 < 4" by simp
  then have "8 * ((k + m) mod 4) + r < 32" using assms(2) by linarith
  then have "bit (bytes_word bs :: u32) (8 * ((k + m) mod 4) + r) \<longleftrightarrow> bit (bs ! ((k + m) mod 4)) r"
    using assms(1,2) by (simp add: bit_bytes_word)
  moreover have "0 < 8 * (4 - m)" "8 * (4 - m) < 32" "8 * k + r < 32" using assms by linarith+
  ultimately show ?thesis using bit_rol [of "8 * (4 - m)" "8 * k + r"] e by simp
qed

lemma swap_bytes:
  assumes "length bs = 4"
  shows "(rol (bytes_word bs) 24 AND 0xFF00FF00) OR (rol (bytes_word bs) 8 AND 0x00FF00FF) = be_word bs"
proof (rule bit_word_eqI)
  fix n
  assume "n < LENGTH(32)"
  then have n: "n < 32" by simp
  define k r where "k = n div 8" and "r = n mod 8"
  then have nk: "n = 8 * k + r" "r < 8" "k < 4" using n by auto
  have rot: "bit (rol (bytes_word bs) 24) n \<longleftrightarrow> bit (bs ! ((k + 1) mod 4)) r" "bit (rol (bytes_word bs) 8) n \<longleftrightarrow> bit (bs ! ((k + 3) mod 4)) r"
    using bit_rotated_bytes [OF assms nk(2,3), of 1] bit_rotated_bytes [OF assms nk(2,3), of 3] nk(1) by simp_all
  have be: "bit (be_word bs) n \<longleftrightarrow> bit (bs ! (3 - k)) r"
    using nk n assms by (simp add: be_word_def bit_bytes_word rev_nth)
  have "k = 0 \<or> k = 1 \<or> k = 2 \<or> k = 3" using nk(3) by auto
  then show "bit ((rol (bytes_word bs) 24 AND 0xFF00FF00) OR (rol (bytes_word bs) 8 AND 0x00FF00FF)) n = bit (be_word bs) n"
    unfolding bit_or_iff bit_and_iff rot be bit_swap_masks [OF n, folded k_def] by (elim disjE; simp del: One_nat_def) simp
qed

text \<open>The roles of the variables rotate by one with every operation.\<close>

definition role :: "nat \<Rightarrow> nat \<Rightarrow> nat" where
  "role k t = (k + 4 * (t mod 5)) mod 5"

definition sha_op :: "nat \<Rightarrow> sha_work \<Rightarrow> sha_work" where
  "sha_op t =
     (if t < 16 then R0 else if t < 20 then R1 else if t < 40 then R2 else if t < 60 then R3 else R4)
       (role 0 t) (role 1 t) (role 2 t) (role 3 t) (role 4 t) t"

lemma upt_80: "[0..<80] =
    [0, 1, 2, 3, 4, 5, 6, 7, 8, 9, 10, 11, 12, 13, 14, 15, 16, 17, 18, 19, 20, 21, 22, 23, 24, 25, 26, 27, 28, 29,
    30, 31, 32, 33, 34, 35, 36, 37, 38, 39, 40, 41, 42, 43, 44, 45, 46, 47, 48, 49, 50, 51, 52, 53, 54, 55, 56,
    57, 58, 59, 60, 61, 62, 63, 64, 65, 66, 67, 68, 69, 70, 71, 72, 73, 74, 75, 76, 77, 78, 79]"
  by code_simp

lemma sha_ops_eq: "sha_ops 0 1 2 3 4 = map sha_op [0..<80]"
  unfolding upt_80 by (simp add: sha_ops_def sha_op_def role_def)

definition view :: "nat \<Rightarrow> u32 list \<Rightarrow> sha_hash" where
  "view t r = (r ! role 0 t, r ! role 1 t, r ! role 2 t, r ! role 3 t, r ! role 4 t)"

lemma sha_f_forms:
  "(w AND (x XOR y)) XOR y = (w AND x) XOR (NOT w AND (y :: u32))"
  "((w OR x) AND y) OR (w AND x) = (w AND x) XOR (w AND y) XOR (x AND (y :: u32))"
  by (rule bit_word_eqI; auto simp: bit_simps)+

text \<open>What the block holds before operation \<open>t\<close>: the last 16 words of the schedule, and the words not yet expanded.\<close>

definition block_inv :: "byte list \<Rightarrow> nat \<Rightarrow> u32 list \<Rightarrow> bool" where
  "block_inv B t l \<longleftrightarrow> length l = 16 \<and> (\<forall>j. j < t \<longrightarrow> t \<le> j + 16 \<longrightarrow> l ! (j mod 16) = sha_W (be_words B) j) \<and>
     (\<forall>j. t \<le> j \<longrightarrow> j < 16 \<longrightarrow> l ! j = bytes_word (take 4 (drop (4 * j) B)))"

lemma expand_step:
  assumes inv: "block_inv B t l" and B: "length B = 64"
  shows "(if t < 16 then blk0 else blk) t l = (sha_W (be_words B) t, l[t mod 16 := sha_W (be_words B) t]) \<and>
    block_inv B (Suc t) (l[t mod 16 := sha_W (be_words B) t])"
proof
  show "(if t < 16 then blk0 else blk) t l = (sha_W (be_words B) t, l[t mod 16 := sha_W (be_words B) t])"
  proof (cases "t < 16")
    case True
    then have "length (take 4 (drop (4 * t) B)) = 4" using B by simp
    moreover have "l ! t = bytes_word (take 4 (drop (4 * t) B))" using inv True by (simp add: block_inv_def)
    ultimately have "(rol (l ! t) 24 AND 0xFF00FF00) OR (rol (l ! t) 8 AND 0x00FF00FF) = be_word (take 4 (drop (4 * t) B))"
      using swap_bytes by simp
    then show ?thesis using True by (simp add: blk0_def Let_def sha_W.simps [of _ t] be_words_def)
  next
    case False
    have old: "l ! ((t + k) mod 16) = sha_W (be_words B) (t + k - 16)" if "k < 16" for k
    proof -
      have "(t + k) mod 16 = (t + k - 16) mod 16" using False by (simp add: le_mod_geq)
      then show ?thesis using inv that False by (simp add: block_inv_def)
    qed
    have "t + 13 - 16 = t - 3" "t + 8 - 16 = t - 8" "t + 2 - 16 = t - 14" by simp_all
    then show ?thesis
      using False old [of 13] old [of 8] old [of 2] old [of 0]
      by (simp add: blk_def Let_def sha_W.simps [of _ t] rol_word_rotl)
  qed
next
  have "(l[t mod 16 := sha_W (be_words B) t]) ! (j mod 16) = sha_W (be_words B) j" if "j < Suc t" "Suc t \<le> j + 16" for j
  proof (cases "j = t")
    case True
    then show ?thesis using inv by (simp add: block_inv_def)
  next
    case False
    then have j: "j < t" "t \<le> j + 16" "t < j + 16" using that by simp_all
    have "t mod 16 \<noteq> j mod 16"
    proof
      assume "t mod 16 = j mod 16"
      then have "16 dvd t - j" using j(1) by (simp add: mod_eq_dvd_iff_nat)
      then show False using j by (auto dest: dvd_imp_le)
    qed
    then show ?thesis using inv j by (simp add: block_inv_def)
  qed
  then show "block_inv B (Suc t) (l[t mod 16 := sha_W (be_words B) t])"
    using inv by (simp add: block_inv_def)
qed

lemma vars_5:
  assumes "length r = 5"
  obtains a b c d e where "r = [a, b, c, d, e]"
  using assms by (auto simp: numeral_eq_Suc length_Suc_conv)

lemma sha_R_view:
  assumes r: "length (vars s) = 5" and e: "expand t (block_l s) = (m, l)"
    and s': "s' = sha_R f expand k (role 0 t) (role 1 t) (role 2 t) (role 3 t) (role 4 t) t s"
  shows "block_l s' = l \<and> length (vars s') = 5 \<and>
    view (Suc t) (vars s') = (case view t (vars s) of (a, b, c, d, e) \<Rightarrow> (e + (f b c d + m + k + rol a 5), a, rol b 30, c, d))"
proof -
  obtain a b c d e' where v: "vars s = [a, b, c, d, e']" using r by (rule vars_5)
  have q: "t mod 5 = 0 \<or> t mod 5 = 1 \<or> t mod 5 = 2 \<or> t mod 5 = 3 \<or> t mod 5 = 4" using mod_less_divisor [of 5 t] by linarith
  have s: "Suc t mod 5 = Suc (t mod 5) mod 5" by (simp add: mod_Suc_eq)
  show ?thesis using q unfolding s' view_def role_def s
    by (elim disjE) (simp_all add: sha_R_def e v Let_def)
qed

lemma sha_op_step:
  assumes inv: "block_inv B t (block_l s)" and B: "length B = 64" and r: "length (vars s) = 5" and t: "t < 80"
  shows "block_inv B (Suc t) (block_l (sha_op t s)) \<and> length (vars (sha_op t s)) = 5 \<and>
    view (Suc t) (vars (sha_op t s)) = sha_step (be_words B) t (view t (vars s))"
proof -
  let ?e = "if t < 16 then blk0 else blk" and ?W = "sha_W (be_words B) t"
  let ?l = "(block_l s)[t mod 16 := ?W]"
  let ?f = "\<lambda>w x y. if t < 20 then (w AND (x XOR y)) XOR y else if t < 40 then w XOR x XOR y
    else if t < 60 then ((w OR x) AND y) OR (w AND x) else w XOR x XOR y"
  have e: "?e t (block_l s) = (?W, ?l)" and b: "block_inv B (Suc t) ?l" using expand_step [OF inv B] by auto
  have f: "?f b c d = sha_f t b c d" for b c d by (simp add: sha_f_def sha_f_forms)
  have op: "sha_op t s = sha_R ?f ?e (sha_K t) (role 0 t) (role 1 t) (role 2 t) (role 3 t) (role 4 t) t s"
    by (simp add: sha_op_def R0_def R1_def R2_def R3_def R4_def sha_K_def)
  have "view (Suc t) (vars (sha_op t s)) =
      (case view t (vars s) of (a, b, c, d, e) \<Rightarrow> (e + (sha_f t b c d + ?W + sha_K t + rol a 5), a, rol b 30, c, d))"
    using sha_R_view [where expand = ?e, OF r e op] unfolding f by blast
  also have "\<dots> = sha_step (be_words B) t (view t (vars s))"
    by (simp add: sha_step_def rol_word_rotl ac_simps split: prod.splits)
  finally show ?thesis using b sha_R_view [where expand = ?e, OF r e op] by simp
qed

lemma fold_ops:
  assumes B: "length B = 64" and s: "block_l s = load_block B" "length (vars s) = 5" and t: "t \<le> 80"
  shows "block_inv B t (block_l (fold (\<lambda>R. R) (map sha_op [0..<t]) s)) \<and> length (vars (fold (\<lambda>R. R) (map sha_op [0..<t]) s)) = 5 \<and>
    view t (vars (fold (\<lambda>R. R) (map sha_op [0..<t]) s)) = fold (sha_step (be_words B)) [0..<t] (view 0 (vars s))"
  using t
proof (induction t)
  case 0
  then show ?case using s by (simp add: block_inv_def load_block_def)
next
  case (Suc t)
  then show ?case using sha_op_step [OF _ B, of t "fold (\<lambda>R. R) (map sha_op [0..<t]) s"] by simp
qed

definition hash_list :: "sha_hash \<Rightarrow> u32 list" where
  "hash_list = (\<lambda>(a, b, c, d, e). [a, b, c, d, e])"

lemma SHA1Transform_eq:
  assumes "length B = 64"
  shows "SHA1Transform (hash_list H) B = hash_list (sha_block B H)"
proof -
  obtain h0 h1 h2 h3 h4 where H: "H = (h0, h1, h2, h3, h4)" by (cases H)
  let ?s = "\<lparr>vars = hash_list H, block_l = load_block B\<rparr>"
  have v0: "view 0 (hash_list H) = H" by (simp add: view_def role_def hash_list_def H)
  define r where "r = vars (fold (\<lambda>R. R) (map sha_op [0..<80]) ?s)"
  have "length r = 5" and v: "view 80 r = fold (sha_step (be_words B)) [0..<80] H"
    using fold_ops [OF assms, of ?s 80] v0 by (simp_all add: r_def hash_list_def H)
  then obtain a b c d e where r: "r = [a, b, c, d, e]" by (auto elim: vars_5)
  have "fold (sha_step (be_words B)) [0..<80] H = (a, b, c, d, e)" unfolding v [symmetric] by (simp add: view_def role_def r)
  moreover have "SHA1Transform (hash_list H) B = map2 (+) (hash_list H) r"
    by (simp only: SHA1Transform_def sha_ops_eq r_def Let_def)
  ultimately show ?thesis by (simp add: sha_block_def H hash_list_def r)
qed

section \<open>Feeding a context\<close>

lemma blocks_append: "64 dvd length a \<Longrightarrow> blocks (a @ b) = blocks a @ blocks b"
proof (induction a rule: blocks.induct)
  case (1 a)
  show ?case
  proof (cases "length a < 64")
    case True
    then have "a = []" using 1(2) by (auto dest: dvd_imp_le)
    then show ?thesis by (simp add: blocks.simps [of "[]"])
  next
    case False
    then have "64 dvd length (drop 64 a)" using 1(2) by (simp add: dvd_minus_self)
    with 1(1) False have "blocks (drop 64 a @ b) = blocks (drop 64 a) @ blocks b" by simp
    then show ?thesis using False by (simp add: blocks.simps [of "a @ b"] blocks.simps [of a])
  qed
qed

lemma blocks_short: "length m < 64 \<Longrightarrow> blocks m = []"
  by (simp add: blocks.simps [of m])

lemma blocks_one: "length m = 64 \<Longrightarrow> blocks m = [m]"
  by (simp add: blocks.simps [of m] blocks_short)

definition whole :: "byte list \<Rightarrow> byte list" where
  "whole m = take (64 * (length m div 64)) m"

definition rest :: "byte list \<Rightarrow> byte list" where
  "rest m = drop (64 * (length m div 64)) m"

lemma whole_rest: "whole m @ rest m = m"
  by (simp add: whole_def rest_def)

lemma length_rest: "length (rest m) = length m mod 64"
  by (simp add: rest_def minus_mult_div_eq_mod)

lemma length_whole: "64 dvd length (whole m)"
proof -
  have "64 * (length m div 64) \<le> length m" by (rule times_div_less_eq_dividend)
  then show ?thesis by (simp add: whole_def min_absorb2)
qed

lemma blocks_whole: "blocks m = blocks (whole m)"
  using blocks_append [OF length_whole, of m "rest m"] blocks_short [of "rest m"] by (simp add: whole_rest length_rest)

lemma rest_append: "64 dvd length a \<Longrightarrow> rest (a @ b) = rest b"
  by (auto simp: rest_def dvd_def)

lemma rest_short: "length m < 64 \<Longrightarrow> rest m = m"
  by (simp add: rest_def)

definition digest_of :: "byte list \<Rightarrow> sha_hash" where
  "digest_of m = fold sha_block (blocks m) sha_H0"

definition count_of :: "SHA1_CTX \<Rightarrow> nat" where
  "count_of ctx = unat (count0 ctx) + 2 ^ 32 * unat (count1 ctx)"

definition ctx_ok :: "SHA1_CTX \<Rightarrow> byte list \<Rightarrow> bool" where
  "ctx_ok ctx m \<longleftrightarrow> sha_state ctx = hash_list (digest_of m) \<and> length (sha_buffer ctx) = 64 \<and>
     take (length m mod 64) (sha_buffer ctx) = rest m \<and> count_of ctx = 8 * length m"

lemma SHA1Init_ok: "length (sha_buffer ctx) = 64 \<Longrightarrow> ctx_ok (SHA1Init ctx) []"
  by (simp add: ctx_ok_def SHA1Init_def hash_list_def digest_of_def blocks_short sha_H0_def rest_def count_of_def)

lemma data_at_ok: "unat len = length d \<Longrightarrow> unat i + unat n \<le> length d \<Longrightarrow> data_at d len i n = Inr (take (unat n) (drop (unat i) d))"
  by (simp add: data_at_def)

lemma update_loop_ok:
  assumes "unat len = length d" and "length d + 64 < 2 ^ 32" and "unat i \<le> length d"
  shows "\<exists>i'. update_loop d len i (hash_list H) = Inr (i', hash_list (fold sha_block (blocks (drop (unat i) d)) H)) \<and>
    unat i' \<le> length d \<and> drop (unat i') d = rest (drop (unat i) d)"
  using assms
proof (induction "length d - unat i" arbitrary: i H rule: less_induct)
  case less
  have lt: "i + 63 < len \<longleftrightarrow> unat i + 64 \<le> length d"
  proof -
    have "unat (i + 63) = unat i + 63" using less.prems by (subst unat_add_lem [THEN iffD1]) simp_all
    then show ?thesis using less.prems by (auto simp: word_less_nat_alt)
  qed
  show ?case
  proof (cases "unat i + 64 \<le> length d")
    case True
    have i64: "unat (i + 64) = unat i + 64" using less.prems True by (subst unat_add_lem [THEN iffD1]) simp_all
    have B: "length (take 64 (drop (unat i) d)) = 64" using True by simp
    have dr: "drop (unat (i + 64)) d = drop 64 (drop (unat i) d)" by (simp add: i64 add.commute)
    have bl: "blocks (drop (unat i) d) = take 64 (drop (unat i) d) # blocks (drop (unat (i + 64)) d)"
      and re: "rest (drop (unat i) d) = rest (drop (unat (i + 64)) d)"
      using blocks_append [of "take 64 (drop (unat i) d)" "drop 64 (drop (unat i) d)"] blocks_one [OF B]
        rest_append [of "take 64 (drop (unat i) d)" "drop 64 (drop (unat i) d)"] B dr by (simp_all del: drop_drop)
    have "update_loop d len i (hash_list H) = update_loop d len (i + 64) (hash_list (sha_block (take 64 (drop (unat i) d)) H))"
      using lt True data_at_ok [OF less.prems(1), of i 64] SHA1Transform_eq [OF B] by (subst update_loop.simps) simp
    moreover have "\<exists>i'. update_loop d len (i + 64) (hash_list (sha_block (take 64 (drop (unat i) d)) H)) =
        Inr (i', hash_list (fold sha_block (blocks (drop (unat (i + 64)) d)) (sha_block (take 64 (drop (unat i) d)) H))) \<and>
        unat i' \<le> length d \<and> drop (unat i') d = rest (drop (unat (i + 64)) d)"
      by (rule less.hyps) (use less.prems i64 True in simp_all)
    ultimately show ?thesis unfolding bl re by simp
  next
    case False
    then have "length (drop (unat i) d) < 64" using less.prems by simp
    then show ?thesis using lt False less.prems by (subst update_loop.simps) (simp add: blocks_short rest_short)
  qed
qed

lemma mod_once: "M \<le> x \<Longrightarrow> x < M + M \<Longrightarrow> x mod M = x - (M :: nat)"
  by (simp add: le_mod_geq)

lemma count_add:
  assumes "count_of ctx + 8 * unat len < 2 ^ 64"
    and "count0 ctx' = count0 ctx + push_bit 3 len"
    and "count1 ctx' = (if count0 ctx' < count0 ctx then count1 ctx + 1 else count1 ctx) + drop_bit 29 len"
  shows "count_of ctx' = count_of ctx + 8 * unat len"
proof -
  let ?a = "unat (count0 ctx)" and ?c = "unat (count1 ctx)" and ?L = "unat len"
  let ?lo = "8 * ?L mod 2 ^ 32" and ?hi = "8 * ?L div 2 ^ 32"
  have L: "8 * ?L = ?lo + 2 ^ 32 * ?hi" by (rule mod_mult_div_eq [symmetric])
  have a: "?a < 2 ^ 32" "?lo < 2 ^ 32" using unat_less [of "count0 ctx"] by simp_all
  have p: "unat (push_bit 3 len) = ?lo" by (simp add: push_bit_eq_mult unat_word_ariths mult.commute)
  have d: "unat (drop_bit 29 len) = ?hi"
    unfolding unsigned_drop_bit_eq using unat_less [of len] by (simp add: drop_bit_eq_div take_bit_eq_mod)
  have "?a + 2 ^ 32 * ?c + ?lo + 2 ^ 32 * ?hi < 2 ^ 64" using assms(1) L by (simp add: count_of_def)
  then have tot: "?a + ?lo + 2 ^ 32 * (?c + ?hi) < 2 ^ 32 * 2 ^ 32" by simp
  show ?thesis
  proof (cases "?a + ?lo < 2 ^ 32")
    case True
    then have c0: "unat (count0 ctx') = ?a + ?lo" using assms(2) p by (simp add: unat_word_ariths)
    then have "\<not> count0 ctx' < count0 ctx" by (simp add: word_less_nat_alt)
    moreover have "2 ^ 32 * (?c + ?hi) < 2 ^ 32 * (2 ^ 32 :: nat)" using tot by (rule le_less_trans [rotated]) simp
    then have "?c + ?hi < 2 ^ 32" by (simp only: mult_less_cancel1)
    ultimately have "unat (count1 ctx') = ?c + ?hi" using assms(3) d by (simp add: unat_word_ariths)
    then show ?thesis using c0 L by (simp add: count_of_def)
  next
    case False
    have "unat (count0 ctx') = (?a + ?lo) mod 2 ^ 32" using assms(2) p by (simp add: unat_word_ariths)
    also have "\<dots> = ?a + ?lo - 2 ^ 32" by (rule mod_once) (use False a in linarith)+
    finally have c0: "unat (count0 ctx') = ?a + ?lo - 2 ^ 32" .
    then have "count0 ctx' < count0 ctx" using False a by (simp add: word_less_nat_alt)
    moreover have "2 ^ 32 * (?c + ?hi + 1) < 2 ^ 32 * (2 ^ 32 :: nat)" 
    proof -
      have "M * (x + 1) \<le> y + M * x" if "M \<le> y" for M x y :: nat using that by simp
      then show ?thesis using le_less_trans [OF _ tot] False by (simp only: not_less)
    qed
    then have "?c + ?hi + 1 < 2 ^ 32" by (simp only: mult_less_cancel1)
    ultimately have "unat (count1 ctx') = ?c + ?hi + 1" using assms(3) d by (simp add: unat_word_ariths mod_simps)
    then show ?thesis using c0 L False by (simp add: count_of_def)
  qed
qed

lemma ctx_count:
  assumes "ctx_ok ctx m"
  shows "unat (count0 ctx) div 8 mod 64 = length m mod 64"
proof -
  have cnt: "unat (count0 ctx) + 2 ^ 32 * unat (count1 ctx) = 8 * length m" using assms by (simp add: ctx_ok_def count_of_def)
  have "unat (count0 ctx) = 8 * length m mod (8 * 2 ^ 29)"
    unfolding cnt [symmetric] using unat_less [of "count0 ctx"] by simp
  also have "\<dots> div 8 = length m mod 2 ^ 29" unfolding mod_mult2_eq by simp
  finally show ?thesis by (simp add: mod_mod_cancel)
qed

lemma SHA1Update_ok:
  assumes ctx: "ctx_ok ctx m" and len: "unat len = length d" and d: "length d + 64 < 2 ^ 32" and tot: "length (m @ d) < 2 ^ 61"
  shows "\<exists>ctx'. SHA1Update ctx d len = Inr ctx' \<and> ctx_ok ctx' (m @ d)"
proof -
  let ?j = "length m mod 64"
  define c where "c = ctx\<lparr>count0 := count0 ctx + push_bit 3 len,
    count1 := (if count0 ctx + push_bit 3 len < count0 ctx then count1 ctx + 1 else count1 ctx) + drop_bit 29 len\<rparr>"
  have st: "sha_state ctx = hash_list (digest_of m)" and buf: "length (sha_buffer ctx) = 64"
    and re: "take ?j (sha_buffer ctx) = rest m" and cnt: "count_of ctx = 8 * length m"
    using ctx by (simp_all add: ctx_ok_def)
  have cnt': "count_of c = 8 * length (m @ d)"
    using count_add [of ctx len c] cnt tot len by (simp add: c_def)
  define jw where "jw = drop_bit 3 (count0 ctx) AND 63"
  have j: "unat jw = ?j" unfolding jw_def and_63 by (rule ctx_count [OF ctx])
  have jl: "unat (jw + len) = ?j + length d" using j len d by (subst unat_add_lem [THEN iffD1]) simp_all
  have upd: "SHA1Update ctx d len =
      cbind (if jw + len > 63 then
               cbind (data_at d len 0 (64 - jw)) (\<lambda>bs.
               cbind (to_buffer c jw bs) (\<lambda>c.
               cbind (update_loop d len (64 - jw) (SHA1Transform (sha_state c) (sha_buffer c))) (\<lambda>(i, state).
               Inr (c\<lparr>sha_state := state\<rparr>, 0, i))))
             else Inr (c, jw, 0)) (\<lambda>(c, j, i). cbind (data_at d len i (len - i)) (\<lambda>bs. to_buffer c j bs))"
    by (simp add: SHA1Update_def Let_def c_def jw_def)
  have tail: "\<exists>ctx'. cbind (data_at d len i (len - i)) (\<lambda>bs. to_buffer c' jw' bs) = Inr ctx' \<and> ctx_ok ctx' (m @ d)"
    if c': "sha_state c' = hash_list (digest_of (m @ d))" "length (sha_buffer c') = 64" "count_of c' = count_of c"
      and i: "unat i \<le> length d" and r: "take (unat jw') (sha_buffer c') @ drop (unat i) d = rest (m @ d)"
      and fit: "unat jw' \<le> 64"
    for c' jw' i
  proof -
    let ?bs = "drop (unat i) d"
    have n: "unat (len - i) = length d - unat i" using i len by (simp add: unat_sub word_le_nat_alt)
    have l: "unat jw' + length ?bs = length (m @ d) mod 64"
      using arg_cong [OF r, of length] c'(2) fit by (simp add: length_rest)
    then have b: "unat jw' + length ?bs \<le> length (sha_buffer c')" using c'(2) mod_less_divisor [of 64 "length (m @ d)"] by linarith
    have "data_at d len i (len - i) = Inr ?bs" using data_at_ok [OF len, of i "len - i"] i n by simp
    moreover have "to_buffer c' jw' ?bs = Inr (c'\<lparr>sha_buffer := store_at (sha_buffer c') (unat jw') ?bs\<rparr>)"
      using b by (simp add: to_buffer_def)
    moreover have "ctx_ok (c'\<lparr>sha_buffer := store_at (sha_buffer c') (unat jw') ?bs\<rparr>) (m @ d)"
      using c' cnt' b r take_store_at [OF b] l by (simp add: ctx_ok_def count_of_def)
    ultimately show ?thesis by simp
  qed
  show ?thesis
  proof (cases "jw + len > 63")
    case True
    then have ge: "64 \<le> ?j + length d" using jl by (simp add: word_less_nat_alt)
    have jlt: "?j < 64" and le: "64 - ?j \<le> length d" using ge by simp_all
    have i: "unat (64 - jw) = 64 - ?j" using j jlt by (simp add: unat_sub word_le_nat_alt)
    let ?d = "take (64 - ?j) d" and ?d' = "drop (64 - ?j) d"
    let ?B = "rest m @ ?d"
    have B: "length ?B = 64" using ge by (simp add: length_rest)
    have md: "m @ d = whole m @ ?B @ ?d'" using whole_rest [of m] by (metis append.assoc append_take_drop_id)
    have dg: "digest_of (m @ d) = fold sha_block (blocks ?d') (sha_block ?B (digest_of m))"
      unfolding md digest_of_def blocks_append [OF length_whole] blocks_append [of ?B, unfolded B, OF dvd_refl] blocks_one [OF B] blocks_whole [of m]
      by simp
    have rs: "rest (m @ d) = rest ?d'"
      unfolding md using rest_append [OF length_whole] rest_append [of ?B ?d'] B by simp
    obtain i' where lp: "update_loop d len (64 - jw) (hash_list (sha_block ?B (digest_of m))) = Inr (i', hash_list (digest_of (m @ d)))"
        "unat i' \<le> length d" "drop (unat i') d = rest (m @ d)"
      using update_loop_ok [OF len d, of "64 - jw" "sha_block ?B (digest_of m)"] i le unfolding dg rs by auto
    have da: "data_at d len 0 (64 - jw) = Inr ?d" using data_at_ok [OF len, of 0 "64 - jw"] i ge by simp
    have tb: "to_buffer c jw ?d = Inr (c\<lparr>sha_buffer := ?B\<rparr>)"
      using j buf ge re jlt by (simp add: to_buffer_def c_def store_at_def)
    have e: "SHA1Update ctx d len = cbind (data_at d len i' (len - i')) (\<lambda>bs. to_buffer (c\<lparr>sha_buffer := ?B, sha_state := hash_list (digest_of (m @ d))\<rparr>) 0 bs)"
      unfolding upd using True da tb lp(1) st SHA1Transform_eq [OF B] by (simp add: c_def)
    show ?thesis unfolding e by (rule tail) (use lp B in \<open>simp_all add: count_of_def\<close>)
  next
    case False
    then have lt: "?j + length d < 64" using jl by (simp add: word_less_nat_alt)
    have md: "m @ d = whole m @ (rest m @ d)" using whole_rest [of m] by (metis append.assoc)
    have l: "length (rest m @ d) < 64" using lt by (simp add: length_rest)
    have "digest_of (m @ d) = digest_of m" "rest (m @ d) = rest m @ d"
      unfolding md digest_of_def blocks_append [OF length_whole] blocks_short [OF l] rest_append [OF length_whole] rest_short [OF l]
      using blocks_whole [of m] by simp_all
    moreover have e: "SHA1Update ctx d len = cbind (data_at d len 0 (len - 0)) (\<lambda>bs. to_buffer c jw bs)"
      unfolding upd using False by simp
    ultimately show ?thesis unfolding e by (intro tail) (use st buf re j in \<open>simp_all add: c_def\<close>)
  qed
qed

section \<open>The digest\<close>

text \<open>Padding: the bytes that follow the message, whole or in part.\<close>

lemma pad_loop_ok:
  assumes "ctx_ok ctx m" and "length m + (120 - length m mod 64) mod 64 < 2 ^ 61"
  shows "\<exists>ctx'. pad_loop ctx = Inr ctx' \<and> ctx_ok ctx' (m @ replicate ((120 - length m mod 64) mod 64) 0)"
  using assms
proof (induction "(120 - length m mod 64) mod 64" arbitrary: ctx m)
  case 0
  have "length m mod 64 = 56"
  proof (cases "length m mod 64 \<le> 56")
    case True
    then show ?thesis using 0(1) mod_once [of 64 "120 - length m mod 64"] by simp
  next
    case False
    then show ?thesis using 0(1) mod_less_divisor [of 64 "length m"] by simp
  qed
  then have "pad_loop ctx = Inr ctx" using ctx_count [OF 0(2)] by (subst pad_loop.simps) (simp add: and_504_eq_448)
  then show ?case using 0 by simp
next
  case (Suc n)
  let ?c = "length m mod 64"
  have ne: "?c \<noteq> 56" using Suc(2) by auto
  have n: "(120 - length (m @ [0 :: byte]) mod 64) mod 64 = n"
  proof -
    have "length (m @ [0 :: byte]) mod 64 = Suc ?c mod 64" by (simp add: mod_Suc_eq)
    moreover have "(120 - ?c) mod 64 = Suc ((120 - Suc ?c mod 64) mod 64)"
    proof -
      have "?c \<in> set [0..<64]" by simp
      then show ?thesis using ne by (auto simp: upt_conv_Cons)
    qed
    ultimately show ?thesis using Suc(2) by simp
  qed
  obtain ctx1 where c1: "SHA1Update ctx [0] 1 = Inr ctx1" "ctx_ok ctx1 (m @ [0])"
    using SHA1Update_ok [OF Suc(3), of 1 "[0]"] Suc(2,4) by auto
  have "length (m @ [0 :: byte]) + (120 - length (m @ [0 :: byte]) mod 64) mod 64 < 2 ^ 61" unfolding n using Suc(2,4) by simp
  then obtain ctx2 where "pad_loop ctx1 = Inr ctx2" "ctx_ok ctx2 ((m @ [0]) @ replicate n 0)"
    using Suc(1) [OF n [symmetric] c1(2)] n by auto
  moreover have "pad_loop ctx = pad_loop ctx1"
    using ne ctx_count [OF Suc(3)] c1(1) by (subst pad_loop.simps) (simp add: and_504_eq_448)
  ultimately show ?case unfolding Suc(2) [symmetric] by simp
qed

lemma be_byte_eq: "be_byte w k = word_of_nat (unat w div 2 ^ ((3 - k) * 8))"
proof -
  have m: "(255 :: u32) = mask 8" by (simp add: mask_eq_exp_minus_1)
  have "ucast (x AND mask 8) = (ucast x :: byte)" for x :: u32 by (rule bit_word_eqI) (auto simp: bit_simps)
  then have "be_byte w k = ucast (drop_bit ((3 - k) * 8) w)" by (simp add: be_byte_def m)
  also have "\<dots> = word_of_nat (unat (drop_bit ((3 - k) * 8) w))" by simp
  finally show ?thesis by (simp only: unat_drop_bit_eq) (simp add: drop_bit_eq_div)
qed

lemma le_enc_4: "le_enc 4 v = [word_of_nat v, word_of_nat (v div 2 ^ 8), word_of_nat (v div 2 ^ 16), word_of_nat (v div 2 ^ 24)]"
proof -
  have "(4 :: nat) = Suc (Suc (Suc (Suc 0)))" by simp
  then have "le_enc 4 v = [word_of_nat v, word_of_nat (v div 256), word_of_nat (v div 256 div 256), word_of_nat (v div 256 div 256 div 256)]"
    by (simp only: le_enc.simps)
  then show ?thesis by (simp add: div_mult2_eq [symmetric])
qed

lemma be_enc_4: "be_enc 4 (unat w) = map (be_byte w) [0, 1, 2, 3]"
  by (simp add: be_enc_def le_enc_4 be_byte_eq)

lemma digest_bytes:
  "map (\<lambda>i. be_byte (hash_list H ! (i div 4)) (i mod 4)) [0..<20] =
     (case H of (a, b, c, d, e) \<Rightarrow> concat (map (\<lambda>w. be_enc 4 (unat w)) [a, b, c, d, e]))"
proof -
  have "[0..<20] = [0, 1, 2, 3, 4, 5, 6, 7, 8, 9, 10, 11, 12, 13, 14, 15, 16, 17, 18, 19]" by code_simp
  then show ?thesis by (simp add: be_enc_4 hash_list_def split: prod.splits)
qed

lemma le_enc_add: "le_enc (m + n) v = le_enc m v @ le_enc n (v div 256 ^ m)"
  by (induction m arbitrary: v) (simp_all add: div_mult2_eq)

lemma le_enc_mod: "le_enc n v = le_enc n (v mod 256 ^ n)"
  by (metis le_val_le_enc le_val_inj length_le_enc mod_mod_trivial)

lemma finalcount_bytes:
  assumes "count_of ctx = v"
  shows "map (\<lambda>i. be_byte (if i \<ge> 4 then count0 ctx else count1 ctx) (i mod 4)) [0..<8] = be_enc 8 v"
proof -
  have "[0..<8] = [0, 1, 2, 3, 4, 5, 6, 7 :: nat]" by code_simp
  then have l: "map (\<lambda>i. be_byte (if i \<ge> 4 then count0 ctx else count1 ctx) (i mod 4)) [0..<8] =
      be_enc 4 (unat (count1 ctx)) @ be_enc 4 (unat (count0 ctx))" by (simp add: be_enc_4)
  have "v mod 256 ^ 4 = unat (count0 ctx)" "v div 256 ^ 4 = unat (count1 ctx)"
    using assms unat_less [of "count0 ctx"] by (auto simp: count_of_def)
  then have "le_enc 8 v = le_enc 4 (unat (count0 ctx)) @ le_enc 4 (unat (count1 ctx))"
    using le_enc_add [of 4 4 v] le_enc_mod [of 4 v] by simp
  then show ?thesis unfolding l by (simp add: be_enc_def)
qed

lemma SHA1Final_ok:
  assumes ctx: "ctx_ok ctx m" and len: "length m + 128 < 2 ^ 61"
  shows "\<exists>ctx'. SHA1Final ctx = Inr (sha1 m, ctx')"
proof -
  have lt: "(119 - length m mod 64) mod 64 < 64" by simp
  obtain c1 where c1: "SHA1Update ctx [0x80] 1 = Inr c1" "ctx_ok c1 (m @ [0x80])"
    using SHA1Update_ok [OF ctx, of 1 "[0x80]"] len by auto
  have k: "(120 - length (m @ [0x80 :: byte]) mod 64) mod 64 = (119 - length m mod 64) mod 64"
  proof -
    have "length m mod 64 \<in> set [0..<64]" by simp
    moreover have "length (m @ [0x80 :: byte]) mod 64 = Suc (length m mod 64) mod 64" by (simp add: mod_Suc_eq)
    ultimately show ?thesis by (auto simp: upt_conv_Cons)
  qed
  let ?z = "replicate ((119 - length m mod 64) mod 64) 0"
  obtain c2 where c2: "pad_loop c1 = Inr c2" "ctx_ok c2 ((m @ [0x80]) @ ?z)"
  proof -
    have "length (m @ [0x80 :: byte]) + (119 - length m mod 64) mod 64 < 2 ^ 61"
      using len lt by (simp only: length_append list.size)
    then show thesis using pad_loop_ok [OF c1(2)] that unfolding k by blast
  qed
  obtain c3 where c3: "SHA1Update c2 (be_enc 8 (8 * length m)) 8 = Inr c3" "ctx_ok c3 (((m @ [0x80]) @ ?z) @ be_enc 8 (8 * length m))"
  proof -
    have "length (((m @ [0x80]) @ ?z) @ be_enc 8 (8 * length m)) < 2 ^ 61"
      using len lt by (simp only: length_append list.size length_replicate be_enc_def length_rev length_le_enc)
    then show thesis using SHA1Update_ok [OF c2(2), of 8 "be_enc 8 (8 * length m)"] that by (auto simp: be_enc_def)
  qed
  have fc: "map (\<lambda>i. be_byte (if i \<ge> 4 then count0 ctx else count1 ctx) (i mod 4)) [0..<8] = be_enc 8 (8 * length m)"
    using finalcount_bytes [of ctx] ctx by (simp add: ctx_ok_def)
  have "sha_state c3 = hash_list (digest_of (sha_pad m))" using c3(2) by (simp add: ctx_ok_def sha_pad_def)
  then have "map (\<lambda>i. be_byte (sha_state c3 ! (i div 4)) (i mod 4)) [0..<20] = sha1 m"
    using digest_bytes [of "digest_of (sha_pad m)"] by (simp add: sha1_def digest_of_def)
  then show ?thesis unfolding SHA1Final_def fc Let_def by (simp add: c1(1) c2(1) c3(1))
qed

section \<open>Properties\<close>

fun feed :: "SHA1_CTX \<Rightarrow> byte list list \<Rightarrow> SHA1_CTX cres" where
  "feed ctx [] = Inr ctx"
| "feed ctx (p # ps) = cbind (SHA1Update ctx p (word_of_nat (length p))) (\<lambda>ctx. feed ctx ps)"

lemma feed_ok:
  assumes "ctx_ok ctx m" and "\<forall>p \<in> set ps. length p + 64 < 2 ^ 32" and "length (m @ concat ps) < 2 ^ 61"
  shows "\<exists>ctx'. feed ctx ps = Inr ctx' \<and> ctx_ok ctx' (m @ concat ps)"
  using assms
proof (induction ps arbitrary: ctx m)
  case (Cons p ps)
  have "unat (word_of_nat (length p) :: u32) = length p" using Cons.prems(2) by (intro unat_of_nat_small) simp
  then obtain c where c: "SHA1Update ctx p (word_of_nat (length p)) = Inr c" "ctx_ok c (m @ p)"
    using SHA1Update_ok [OF Cons.prems(1), of "word_of_nat (length p)" p] Cons.prems(2,3) by auto
  then show ?case using Cons.IH [OF c(2)] Cons.prems(2,3) by simp
qed simp

definition hex_of :: "byte list \<Rightarrow> byte list" where
  "hex_of bs = concat (map (\<lambda>b. [bytes ''0123456789abcdef'' ! (unat b div 16), bytes ''0123456789abcdef'' ! (unat b mod 16)]) bs)"

lemma hex_nibbles: "unat (drop_bit 4 (b AND 0xF0)) = unat (b :: byte) div 16" "unat (b AND 0xF) = unat b mod 16"
proof -
  have m: "(0xF :: byte) = mask 4" "(0xF0 :: byte) = push_bit 4 (mask 4)" by (simp_all add: mask_eq_exp_minus_1 push_bit_eq_mult)
  have "drop_bit 4 (b AND push_bit 4 (mask 4)) = drop_bit 4 b" by (rule bit_word_eqI) (auto simp: bit_simps dest: bit_imp_le_length)
  then show "unat (drop_bit 4 (b AND 0xF0)) = unat (b :: byte) div 16"
    unfolding m by (simp only: unat_drop_bit_eq) (simp add: drop_bit_eq_div)
  show "unat (b AND 0xF) = unat b mod 16"
    unfolding m take_bit_eq_mask [symmetric] unsigned_take_bit_eq by (simp add: take_bit_eq_mod)
qed

lemma length_sha1: "length (sha1 m) = 20"
  by (simp add: sha1_def be_enc_def split: prod.splits)

lemma list_upt_20: "length xs = 20 \<Longrightarrow> map (\<lambda>j. f (xs ! j)) [0..<20] = map f xs"
  by (intro nth_equalityI) simp_all

lemma hash_whole:
  assumes "length s + 64 < 2 ^ 32" and "length (sha_buffer ctx) = 64"
  shows "\<exists>ctx1 ctx2. SHA1Update (SHA1Init ctx) s (word_of_nat (length s)) = Inr ctx1 \<and> SHA1Final ctx1 = Inr (sha1 s, ctx2)"
proof -
  have "unat (word_of_nat (length s) :: u32) = length s" using assms(1) by (intro unat_of_nat_small) simp
  then obtain c where "SHA1Update (SHA1Init ctx) s (word_of_nat (length s)) = Inr c" "ctx_ok c s"
    using SHA1Update_ok [OF SHA1Init_ok [OF assms(2)], of "word_of_nat (length s)" s] assms(1) by auto
  then show ?thesis using SHA1Final_ok [of c s] assms(1) by auto
qed

text \<open>C28: The code computes SHA-1: a message of fewer than \<open>2\<^sup>6\<^sup>1 - 128\<close> bytes fed to a fresh context in pieces of any
  lengths (each below \<open>2\<^sup>3\<^sup>2 - 64\<close>) has the digest of the standard, without an access outside the context or the data;
  and \<open>sha1hex\<close> writes its 40 hexadecimal digits and a terminator, which is the name of a script.\<close>

theorem sha1_correct:
  assumes "\<forall>p \<in> set ps. length p + 64 < 2 ^ 32" and "length (concat ps) + 128 < 2 ^ 61" and "length (sha_buffer ctx) = 64"
  shows "(\<exists>ctx'. cbind (feed (SHA1Init ctx) ps) SHA1Final = Inr (sha1 (concat ps), ctx')) \<and>
    (length script + 64 < 2 ^ 32 \<longrightarrow> sha1hex ctx script = Inr (hex_of (sha1 script) @ [0]))"
proof
  obtain c where "feed (SHA1Init ctx) ps = Inr c" "ctx_ok c (concat ps)"
    using feed_ok [OF SHA1Init_ok [OF assms(3)] assms(1)] assms(2) by auto
  then show "\<exists>ctx'. cbind (feed (SHA1Init ctx) ps) SHA1Final = Inr (sha1 (concat ps), ctx')"
    using SHA1Final_ok [of c "concat ps"] assms(2) by simp
next
  show "length script + 64 < 2 ^ 32 \<longrightarrow> sha1hex ctx script = Inr (hex_of (sha1 script) @ [0])"
  proof
    assume "length script + 64 < 2 ^ 32"
    then obtain c1 c2 where c: "SHA1Update (SHA1Init ctx) script (word_of_nat (length script)) = Inr c1" "SHA1Final c1 = Inr (sha1 script, c2)"
      using hash_whole [OF _ assms(3)] by blast
    show "sha1hex ctx script = Inr (hex_of (sha1 script) @ [0])"
      unfolding sha1hex_def Let_def c(1) cbind_Inr c(2) prod.case hex_of_def hex_nibbles
      by (subst list_upt_20 [OF length_sha1]) (rule refl)
  qed
qed

definition ctx_example :: SHA1_CTX where
  "ctx_example = \<lparr> sha_state = [], count0 = 5, count1 = 7, sha_buffer = replicate 64 9 \<rparr>"

theorem sha1_correct_witness:
  "(\<exists>ctx'. cbind (feed (SHA1Init ctx_example) [bytes ''a'', bytes ''bc'']) SHA1Final = Inr (sha1 (bytes ''abc''), ctx')) \<and>
   sha1hex ctx_example (bytes ''abc'') = Inr (hex_of (sha1 (bytes ''abc'')) @ [0])"
  using sha1_correct [of "[bytes ''a'', bytes ''bc'']" ctx_example "bytes ''abc''"] by (simp add: ctx_example_def bytes_def)

text \<open>The data set digest: the elements of a collection are xored into it one after the other.\<close>

fun xor_all :: "SHA1_CTX \<Rightarrow> byte list \<Rightarrow> byte list list \<Rightarrow> byte list cres" where
  "xor_all ctx digest [] = Inr digest"
| "xor_all ctx digest (x # xs) = cbind (xorDigest ctx digest x) (\<lambda>digest. xor_all ctx digest xs)"

definition xor_bytes :: "byte list \<Rightarrow> byte list \<Rightarrow> byte list" where
  "xor_bytes a b = map2 (XOR) a b"

lemma xor_bytes_swap: "xor_bytes (xor_bytes a b) c = xor_bytes (xor_bytes a c) b"
  by (rule nth_equalityI) (simp_all add: xor_bytes_def ac_simps)

lemma xorDigest_ok:
  assumes "length x + 64 < 2 ^ 32" and "length (sha_buffer ctx) = 64" and "length digest = 20"
  shows "xorDigest ctx digest x = Inr (xor_bytes digest (sha1 x))"
proof -
  have "map (\<lambda>j. digest ! j XOR sha1 x ! j) [0..<20] = xor_bytes digest (sha1 x)"
    using assms(3) length_sha1 [of x] by (intro nth_equalityI) (simp_all add: xor_bytes_def)
  then show ?thesis using hash_whole [OF assms(1,2)] by (auto simp: xorDigest_def)
qed

lemma xor_all_ok:
  assumes "\<forall>x \<in> set xs. length x + 64 < 2 ^ 32" and "length (sha_buffer ctx) = 64" and "length digest = 20"
  shows "xor_all ctx digest xs = Inr (fold (\<lambda>x d. xor_bytes d (sha1 x)) xs digest)"
  using assms
proof (induction xs arbitrary: digest)
  case (Cons x xs)
  have "length (xor_bytes digest (sha1 x)) = 20" using Cons.prems(3) by (simp add: xor_bytes_def length_sha1)
  then show ?case using Cons xorDigest_ok [of x ctx digest] by simp
qed simp

text \<open>The digest of a collection does not depend on the order in which its elements are visited, although the order of a
  dictionary depends on the hash seed and on the history of its tables.\<close>

theorem xor_digest_order:
  assumes "\<forall>x \<in> set xs. length x + 64 < 2 ^ 32" and "length (sha_buffer ctx) = 64" and "length digest = 20"
    and "mset xs = mset ys"
  shows "xor_all ctx digest xs = xor_all ctx digest ys \<and> (\<exists>d. xor_all ctx digest xs = Inr d \<and> length d = 20)"
proof -
  have "fold (\<lambda>x d. xor_bytes d (sha1 x)) xs = fold (\<lambda>x d. xor_bytes d (sha1 x)) ys"
    by (rule fold_multiset_equiv [OF _ assms(4)]) (simp add: comp_def xor_bytes_swap)
  moreover have "\<forall>x \<in> set ys. length x + 64 < 2 ^ 32" using assms(1) mset_eq_setD [OF assms(4)] by simp
  moreover have "length (fold (\<lambda>x d. xor_bytes d (sha1 x)) xs digest) = 20"
    using assms(3) by (induction xs arbitrary: digest) (simp_all add: xor_bytes_def length_sha1)
  ultimately show ?thesis using xor_all_ok [OF assms(1-3)] xor_all_ok [of ys ctx digest] assms(2,3) by simp
qed

theorem xor_digest_order_witness:
  "xor_all ctx_example (replicate 20 1) [bytes ''a'', bytes ''b''] = xor_all ctx_example (replicate 20 1) [bytes ''b'', bytes ''a'']"
  using xor_digest_order [of "[bytes ''a'', bytes ''b'']" ctx_example "replicate 20 1" "[bytes ''b'', bytes ''a'']"]
  by (simp add: ctx_example_def add_mset_commute)

end
