(* ===== verification/TSet.thy ===== *)
theory TSet
  imports DictTypes DictIter Intset SdsFmt
begin

text \<open>
  The set type of \<open>t_set.c\<close>: a set of strings is an integer set while all its elements are integers and there are not too
  many of them, and a dictionary without values from then on. The operations choose by the
  encoding, and convert. Strings are byte lists. The string of an integer is made by
  \<open>sdsfromlonglong\<close>, which overflows on the least one, so that element is excluded from the contract.
\<close>

section \<open>Operations\<close>

text \<open>The configuration, and what the environment determines: the hash seed, the switch for resizing, the contents of
  fresh memory and the addresses of tables that enter the fingerprint of an iterator.\<close>

record set_cfg =
  set_max_intset_entries :: nat
  hash_seed :: "byte list"
  can_resize :: bool
  fresh :: "nat \<Rightarrow> byte"
  addr0 :: u64
  addr1 :: u64

datatype set_obj = HT "(byte list, unit) dict" | INTSET intset

definition isSdsRepresentableAsLongLong :: "byte list \<Rightarrow> int option" where
  "isSdsRepresentableAsLongLong s = string2ll s"

definition setTypeCreate :: "byte list \<Rightarrow> set_obj" where
  "setTypeCreate value = (if isSdsRepresentableAsLongLong value \<noteq> None then INTSET intsetNew else HT dictCreate)"

text \<open>Iterators return a string or an integer, as the set is encoded.\<close>

datatype set_iter = HtIter "(byte list, unit) dictIterator" | IntIter nat
datatype set_ele = SdsEle "byte list" | IntEle int

definition setTypeInitIterator :: "set_obj \<Rightarrow> set_iter" where
  "setTypeInitIterator subject = (case subject of HT d \<Rightarrow> HtIter dictGetIterator | INTSET is \<Rightarrow> IntIter 0)"

definition setTypeReleaseIterator :: "set_cfg \<Rightarrow> set_obj \<Rightarrow> set_iter \<Rightarrow> set_obj cres" where
  "setTypeReleaseIterator cfg subject si =
     (case si of
        HtIter di \<Rightarrow> (case subject of
            HT d \<Rightarrow> cbind (dictReleaseIterator (addr0 cfg) (addr1 cfg) di d) (\<lambda>d. Inr (HT d))
          | INTSET is \<Rightarrow> Inl BadPointer)
      | IntIter ii \<Rightarrow> Inr subject)"

definition setTypeNext :: "set_cfg \<Rightarrow> set_obj \<Rightarrow> set_iter \<Rightarrow> (set_ele option \<times> set_iter \<times> set_obj) cres" where
  "setTypeNext cfg subject si =
     (case si of
        HtIter di \<Rightarrow> (case subject of
            HT d \<Rightarrow> cbind (dictNext (addr0 cfg) (addr1 cfg) di d) (\<lambda>(de, di, d).
              Inr (map_option (\<lambda>de. SdsEle (de_key de)) de, HtIter di, HT d))
          | INTSET is \<Rightarrow> Inl BadPointer)
      | IntIter ii \<Rightarrow> (case subject of
            HT d \<Rightarrow> Inl BadPointer
          | INTSET is \<Rightarrow> cbind (intsetGet is ii) (\<lambda>v. Inr (map_option IntEle v, IntIter (ii + 1), subject))))"

text \<open>The string of an element.\<close>

definition ele_sds :: "set_cfg \<Rightarrow> set_ele \<Rightarrow> byte list cres" where
  "ele_sds cfg e = (case e of SdsEle s \<Rightarrow> Inr s | IntEle v \<Rightarrow> cbind (sdsfromlonglong (fresh cfg) v) (\<lambda>s. Inr (sds_str s)))"

definition setTypeNextObject :: "set_cfg \<Rightarrow> set_obj \<Rightarrow> set_iter \<Rightarrow> (byte list option \<times> set_iter \<times> set_obj) cres" where
  "setTypeNextObject cfg subject si =
     cbind (setTypeNext cfg subject si) (\<lambda>(e, si, subject).
     case e of None \<Rightarrow> Inr (None, si, subject) | Some e \<Rightarrow> cbind (ele_sds cfg e) (\<lambda>s. Inr (Some s, si, subject)))"

definition setTypeSize :: "set_obj \<Rightarrow> nat" where
  "setTypeSize subject = (case subject of HT d \<Rightarrow> dictSize d | INTSET is \<Rightarrow> intsetLen is)"

text \<open>The loop of the conversion over the elements of the integer set.\<close>

function convert_loop :: "set_cfg \<Rightarrow> intset \<Rightarrow> nat \<Rightarrow> (byte list, unit) dict \<Rightarrow> (byte list, unit) dict cres" where
  "convert_loop cfg is ii d =
     cbind (intsetGet is ii) (\<lambda>v.
     case v of
       None \<Rightarrow> Inr d
     | Some intele \<Rightarrow>
         cbind (sdsfromlonglong (fresh cfg) intele) (\<lambda>element.
         cbind (dictAdd (setDictType (hash_seed cfg)) (can_resize cfg) d (sds_str element) ()) (\<lambda>(ok, d).
         if ok then convert_loop cfg is (ii + 1) d else Inl AssertFailed)))"
  by pat_completeness auto
termination by (relation "measure (\<lambda>(cfg, is, ii, d). is_length is - ii)") (auto simp: intsetGet_def split: if_splits)

declare convert_loop.simps [simp del]

definition setTypeConvert :: "set_cfg \<Rightarrow> set_obj \<Rightarrow> set_obj cres" where
  "setTypeConvert cfg setobj =
     (case setobj of
        HT d \<Rightarrow> Inl AssertFailed
      | INTSET is \<Rightarrow> cbind (convert_loop cfg is 0 (snd (dictExpand dictCreate (intsetLen is)))) (\<lambda>d. Inr (HT d)))"

definition setTypeAdd :: "set_cfg \<Rightarrow> set_obj \<Rightarrow> byte list \<Rightarrow> (bool \<times> set_obj) cres" where
  "setTypeAdd cfg subject value =
     (case subject of
        HT ht \<Rightarrow>
          cbind (dictAddRaw (setDictType (hash_seed cfg)) (can_resize cfg) ht value ()) (\<lambda>(de, ht). Inr (de = Added, HT ht))
      | INTSET is \<Rightarrow>
          (case isSdsRepresentableAsLongLong value of
             Some llval \<Rightarrow>
               cbind (intsetAdd (fresh cfg) is llval) (\<lambda>(success, is).
               if success then
                 cbind (if intsetLen is > set_max_intset_entries cfg then setTypeConvert cfg (INTSET is) else Inr (INTSET is)) (\<lambda>subject.
                 Inr (True, subject))
               else Inr (False, INTSET is))
           | None \<Rightarrow>
               cbind (setTypeConvert cfg (INTSET is)) (\<lambda>subject.
               case subject of
                 INTSET is \<Rightarrow> Inl BadPointer
               | HT d \<Rightarrow>
                   cbind (dictAdd (setDictType (hash_seed cfg)) (can_resize cfg) d value ()) (\<lambda>(ok, d).
                   if ok then Inr (True, HT d) else Inl AssertFailed))))"

definition HASHTABLE_MIN_FILL :: nat where "HASHTABLE_MIN_FILL = 10"

definition htNeedsResize :: "('k, 'v) dict \<Rightarrow> bool" where
  "htNeedsResize d =
     (let size = dictSlots d; used = dictSize d in size > DICT_HT_INITIAL_SIZE \<and> used * 100 div size < HASHTABLE_MIN_FILL)"

definition setTypeRemove :: "set_cfg \<Rightarrow> set_obj \<Rightarrow> byte list \<Rightarrow> (bool \<times> set_obj) cres" where
  "setTypeRemove cfg setobj value =
     (case setobj of
        HT d \<Rightarrow>
          cbind (dictDelete (setDictType (hash_seed cfg)) d value) (\<lambda>(ok, d).
          if ok then Inr (True, HT (if htNeedsResize d then snd (dictResize (can_resize cfg) d) else d)) else Inr (False, HT d))
      | INTSET is \<Rightarrow>
          (case isSdsRepresentableAsLongLong value of
             Some llval \<Rightarrow> cbind (intsetRemove (fresh cfg) is llval) (\<lambda>(success, is). Inr (success, INTSET is))
           | None \<Rightarrow> Inr (False, setobj)))"

text \<open>A test is a look-up, which can take a step of rehashing.\<close>

definition setTypeIsMember :: "set_cfg \<Rightarrow> set_obj \<Rightarrow> byte list \<Rightarrow> (bool \<times> set_obj) cres" where
  "setTypeIsMember cfg subject value =
     (case subject of
        HT d \<Rightarrow> cbind (dictFind (setDictType (hash_seed cfg)) d value) (\<lambda>(de, d). Inr (de \<noteq> None, HT d))
      | INTSET is \<Rightarrow>
          (case isSdsRepresentableAsLongLong value of
             Some llval \<Rightarrow> cbind (intsetFind is llval) (\<lambda>b. Inr (b, subject))
           | None \<Rightarrow> Inr (False, subject)))"

text \<open>A random element; the numbers of \<open>random()\<close> and \<open>rand()\<close> are given.\<close>

definition setTypeRandomElement :: "set_cfg \<Rightarrow> set_obj \<Rightarrow> randoms \<Rightarrow> (set_ele \<times> set_obj \<times> randoms) cres option" where
  "setTypeRandomElement cfg setobj r =
     (case setobj of
        HT d \<Rightarrow>
          (case dictGetRandomKey (setDictType (hash_seed cfg)) d r of
             None \<Rightarrow> None
           | Some (Inl f) \<Rightarrow> Some (Inl f)
           | Some (Inr (None, d, r)) \<Rightarrow> Some (Inl NullDeref)
           | Some (Inr (Some de, d, r)) \<Rightarrow> Some (Inr (SdsEle (de_key de), HT d, r)))
      | INTSET is \<Rightarrow> (case random r of (x, r) \<Rightarrow> Some (cbind (intsetRandom x is) (\<lambda>v. Inr (IntEle v, setobj, r)))))"

section \<open>The set of strings an object stands for\<close>

definition obj_ok :: "set_cfg \<Rightarrow> set_obj \<Rightarrow> bool" where
  "obj_ok cfg ob = (case ob of HT d \<Rightarrow> sets.dict_ok (hash_seed cfg) d | INTSET is \<Rightarrow> intset_ok is \<and> LLONG_MIN \<notin> elems is)"

definition obj_set :: "set_obj \<Rightarrow> byte list set" where
  "obj_set ob = (case ob of HT d \<Rightarrow> dom (dict_map (\<lambda>k. k) d) | INTSET is \<Rightarrow> sdec ` elems is)"


text \<open>The one string whose integer has no string of its own.\<close>

definition min_sds :: "byte list" where
  "min_sds = sdec LLONG_MIN"

lemma in_width_8: "in_width 8 v \<longleftrightarrow> ll_range v"
  by (auto simp: in_width_def ll_range_def LLONG_MIN_def LLONG_MAX_def)

lemma ll_of_string: "isSdsRepresentableAsLongLong x = Some v \<longleftrightarrow> ll_range v \<and> x = sdec v"
  by (simp add: isSdsRepresentableAsLongLong_def string2ll_iff)

lemma sdec_eq: "ll_range v \<Longrightarrow> ll_range w \<Longrightarrow> sdec v = sdec w \<longleftrightarrow> v = w"
  using string2ll_iff [of "sdec v" v] string2ll_iff [of "sdec v" w] by auto

lemma sdec_inj: "inj_on sdec {v. ll_range v}"
  by (auto intro!: inj_onI simp: sdec_eq)

lemma sds_of_ll:
  assumes "ll_range v" and "v \<noteq> LLONG_MIN"
  shows "\<exists>s. sdsfromlonglong junk v = Inr s \<and> sds_str s = sdec v"
  using sdsfromlonglong_roundtrip [of v junk] assms by (auto simp: ll_range_def string2ll_iff)

lemma rep_range: "is_rep is vs \<Longrightarrow> v \<in> set vs \<Longrightarrow> ll_range v"
  unfolding in_width_8 [symmetric] by (auto simp: is_rep_def in_width_def)

lemma intset_range: "intset_ok is \<Longrightarrow> v \<in> elems is \<Longrightarrow> ll_range v"
  using rep_elems rep_range by (auto simp: intset_ok_def)

lemma min_range: "ll_range LLONG_MIN"
  by (simp add: ll_range_def LLONG_MIN_def LLONG_MAX_def)

lemma min_sds_int: "ll_range v \<Longrightarrow> sdec v = min_sds \<longleftrightarrow> v = LLONG_MIN"
  unfolding min_sds_def using sdec_eq [OF _ min_range] by simp

lemma int_member:
  assumes "intset_ok is"
  shows "x \<in> sdec ` elems is \<longleftrightarrow> (case isSdsRepresentableAsLongLong x of None \<Rightarrow> False | Some v \<Rightarrow> v \<in> elems is)"
proof (cases "isSdsRepresentableAsLongLong x")
  case None
  then show ?thesis using ll_of_string [of x] intset_range [OF assms] by auto
next
  case (Some v)
  then have "ll_range v" "x = sdec v" by (simp_all add: ll_of_string)
  then show ?thesis using Some sdec_eq intset_range [OF assms] by auto
qed

lemma intset_card: "intset_ok is \<Longrightarrow> card (sdec ` elems is) = card (elems is)"
  by (rule card_image) (auto intro!: inj_onI simp: sdec_eq intset_range)

lemma finite_elems: "intset_ok is \<Longrightarrow> finite (elems is)"
  by (rule isi.finite_abs)

lemma intset_size: "intset_ok is \<Longrightarrow> intsetLen is = card (elems is)"
  using rep_card by (auto simp: intset_ok_def intsetLen_def is_rep_def)

lemma intset_small: "intset_ok is \<Longrightarrow> card (elems is) < 2 ^ 28"
  using rep_card by (auto simp: intset_ok_def)

lemma dict_size_card:
  assumes "sets.dict_ok seed d"
  shows "dictSize d = card (dom (dict_map (\<lambda>k. k) d))" "size (entries d) = card (dom (dict_map (\<lambda>k. k) d))"
  using sets.card_dom [OF assms] dictSize_entries [of "setDictType seed" "\<lambda>k. k" d] assms by (simp_all add: sets.dict_ok_def)

lemma dict_map_unit: "dict_map (\<lambda>k. k) d x = None \<or> dict_map (\<lambda>k. k) d x = Some ()"
  by (cases "dict_map (\<lambda>k. k) d x") simp_all

lemma obj_set_finite: "obj_ok cfg ob \<Longrightarrow> finite (obj_set ob)"
  using sets.dmap.finite_dom [of "hash_seed cfg" "\<lparr>dict_can_resize = True, dict_of = d\<rparr>" for d]
  by (auto simp: obj_ok_def obj_set_def finite_elems split: set_obj.splits)

lemma setTypeSize_card: "obj_ok cfg ob \<Longrightarrow> setTypeSize ob = card (obj_set ob)"
  by (auto simp: obj_ok_def obj_set_def setTypeSize_def intset_size intset_card dict_size_card split: set_obj.splits)

section \<open>Conversion\<close>

lemma convert_loop_ok:
  assumes rep: "is_rep is vs" and min: "LLONG_MIN \<notin> set vs" and len: "length vs < 2 ^ 28"
    and d: "sets.dict_ok (hash_seed cfg) d" and dom: "dom (dict_map (\<lambda>k. k) d) = sdec ` set (take ii vs)" and ii: "ii \<le> length vs"
  shows "\<exists>d'. convert_loop cfg is ii d = Inr d' \<and> sets.dict_ok (hash_seed cfg) d' \<and> dom (dict_map (\<lambda>k. k) d') = sdec ` set vs"
  using d dom ii
proof (induction "length vs - ii" arbitrary: ii d)
  case 0
  then have "intsetGet is ii = Inr None" using rep by (simp add: intsetGet_def is_rep_def)
  then show ?case using 0 by (subst convert_loop.simps) simp
next
  case (Suc n)
  then have lt: "ii < length vs" by simp
  let ?v = "vs ! ii"
  have get: "intsetGet is ii = Inr (Some ?v)" using lt rep rep_Get [OF rep lt] by (simp add: intsetGet_def is_rep_def)
  have vr: "ll_range ?v" "?v \<noteq> LLONG_MIN" using rep_range [OF rep nth_mem [OF lt]] min nth_mem [OF lt] by (simp, metis)
  obtain e where e: "sdsfromlonglong (fresh cfg) ?v = Inr e" "sds_str e = sdec ?v" using sds_of_ll [OF vr] by blast
  have new: "sdec ?v \<notin> sdec ` set (take ii vs)"
  proof
    assume "sdec ?v \<in> sdec ` set (take ii vs)"
    then obtain j where "j < ii" "sdec ?v = sdec (vs ! j)" using lt by (auto simp: in_set_conv_nth)
    moreover have "ll_range (vs ! j)" using rep_range [OF rep] \<open>j < ii\<close> lt by simp
    ultimately have "vs ! ii = vs ! j" using sdec_eq vr(1) by simp
    moreover have "distinct vs" using rep by (simp add: is_rep_def strict_sorted_iff)
    ultimately show False using \<open>j < ii\<close> lt by (simp add: nth_eq_iff_index_eq)
  qed
  have "card (sdec ` set (take ii vs)) \<le> ii" using card_image_le [of "set (take ii vs)" sdec] card_length [of "take ii vs"] lt by simp
  then have small: "size (entries d) < 2 ^ 62" using dict_size_card(2) [OF Suc.prems(1)] Suc.prems(2) len lt by simp
  obtain d1 where d1: "dictAdd (setDictType (hash_seed cfg)) (can_resize cfg) d (sdec ?v) () = Inr (dict_map (\<lambda>k. k) d (sdec ?v) = None, d1)"
      "sets.dict_ok (hash_seed cfg) d1"
      "dict_map (\<lambda>k. k) d1 = (if dict_map (\<lambda>k. k) d (sdec ?v) = None then (dict_map (\<lambda>k. k) d)(sdec ?v \<mapsto> ()) else dict_map (\<lambda>k. k) d)"
    using sets.dictAdd_ok [OF Suc.prems(1) _ small, where key = "sdec ?v" and can_resize = "can_resize cfg" and val = "()"] by auto
  have none: "dict_map (\<lambda>k. k) d (sdec ?v) = None" using new Suc.prems(2) by blast
  have "dom (dict_map (\<lambda>k. k) d1) = sdec ` set (take (Suc ii) vs)" using d1(3) none Suc.prems(2) lt by (simp add: take_Suc_nth)
  moreover have "n = length vs - Suc ii" using Suc.hyps(2) by simp
  ultimately obtain d' where "convert_loop cfg is (Suc ii) d1 = Inr d'" "sets.dict_ok (hash_seed cfg) d'" "dom (dict_map (\<lambda>k. k) d') = sdec ` set vs"
    using Suc.hyps(1) [of "Suc ii" d1] d1(2) lt by auto
  moreover have "convert_loop cfg is ii d = convert_loop cfg is (Suc ii) d1"
    using get e d1(1) none by (subst convert_loop.simps) simp
  ultimately show ?case by simp
qed

lemma dict_map_create: "dict_map (\<lambda>k. k) dictCreate = Map.empty"
  by (rule ext) (simp add: dict_map_def dictCreate_def dictReset_def)

lemma setTypeConvert_ok:
  assumes "obj_ok cfg (INTSET is)"
  shows "\<exists>d. setTypeConvert cfg (INTSET is) = Inr (HT d) \<and> obj_ok cfg (HT d) \<and> obj_set (HT d) = obj_set (INTSET is)"
proof -
  obtain vs where vs: "is_rep is vs" "length vs * 8 < 2 ^ 31" using assms by (auto simp: obj_ok_def intset_ok_def)
  obtain b d0 where e: "dictExpand (dictCreate :: (byte list, unit) dict) (intsetLen is) = (b, d0)" by fastforce
  have c: "sets.dict_ok (hash_seed cfg) (dictCreate :: (byte list, unit) dict)" by (rule sets.dictCreate_ok)
  then have "dict_wf (setDictType (hash_seed cfg)) (\<lambda>k. k) d0" "entries d0 = entries dictCreate"
    using dictExpand_ok [OF _ e, of "setDictType (hash_seed cfg)" "\<lambda>k. k"] by (simp_all add: sets.dict_ok_def)
  then have "sets.dict_ok (hash_seed cfg) d0" "dict_map (\<lambda>k. k) d0 = Map.empty"
    using c dict_map_same [of "\<lambda>k. k" dictCreate d0] dict_map_create by (auto simp: sets.dict_ok_def dict_wf_def)
  then show ?thesis
    using convert_loop_ok [OF vs(1), of cfg d0 0] vs assms rep_elems [OF vs(1)] e
    by (auto simp: setTypeConvert_def obj_ok_def obj_set_def)
qed

section \<open>The contract of a set\<close>

lemma ht_add_ok:
  assumes ok: "obj_ok cfg (HT d)" and small: "card (obj_set (HT d)) < 2 ^ 28 - 1"
  shows "\<exists>r d'. dictAddRaw (setDictType (hash_seed cfg)) (can_resize cfg) d x () = Inr (r, d') \<and>
      (r = Added \<longleftrightarrow> x \<notin> obj_set (HT d)) \<and> obj_ok cfg (HT d') \<and> obj_set (HT d') = insert x (obj_set (HT d))"
proof -
  have d: "sets.dict_ok (hash_seed cfg) d" using ok by (simp add: obj_ok_def)
  have "size (entries d) < 2 ^ 62" using small dict_size_card(2) [OF d] by (simp add: obj_set_def)
  then have a: "\<exists>d'. dictAdd (setDictType (hash_seed cfg)) (can_resize cfg) d x () = Inr (dict_map (\<lambda>k. k) d x = None, d') \<and>
      sets.dict_ok (hash_seed cfg) d' \<and>
      dict_map (\<lambda>k. k) d' = (if dict_map (\<lambda>k. k) d x = None then (dict_map (\<lambda>k. k) d)(x \<mapsto> ()) else dict_map (\<lambda>k. k) d)"
    using sets.dictAdd_ok [OF d, where key = x and can_resize = "can_resize cfg" and val = "()"] by simp
  then obtain d' where d': "dictAdd (setDictType (hash_seed cfg)) (can_resize cfg) d x () = Inr (dict_map (\<lambda>k. k) d x = None, d')"
      "sets.dict_ok (hash_seed cfg) d'"
      "dict_map (\<lambda>k. k) d' = (if dict_map (\<lambda>k. k) d x = None then (dict_map (\<lambda>k. k) d)(x \<mapsto> ()) else dict_map (\<lambda>k. k) d)"
    by blast
  obtain r where r: "dictAddRaw (setDictType (hash_seed cfg)) (can_resize cfg) d x () = Inr (r, d')" "(r = Added) = (dict_map (\<lambda>k. k) d x = None)"
    using d'(1) by (auto simp: dictAdd_def cbind_eq_Inr_iff)
  moreover have "dom (dict_map (\<lambda>k. k) d') = insert x (dom (dict_map (\<lambda>k. k) d))" using d'(3) by auto
  ultimately show ?thesis using d'(2) by (auto simp: obj_ok_def obj_set_def)
qed

lemma setTypeAdd_ok:
  assumes ok: "obj_ok cfg ob" and x: "x \<noteq> min_sds" and small: "card (obj_set ob) < 2 ^ 28 - 1"
  shows "\<exists>ob'. setTypeAdd cfg ob x = Inr (x \<notin> obj_set ob, ob') \<and> obj_ok cfg ob' \<and> obj_set ob' = insert x (obj_set ob)"
proof (cases ob)
  case (HT d)
  then show ?thesis using ht_add_ok [of cfg d x] ok small by (auto simp: setTypeAdd_def)
next
  case (INTSET "is")
  have iok: "intset_ok is" and min: "LLONG_MIN \<notin> elems is" using ok INTSET by (simp_all add: obj_ok_def)
  show ?thesis
  proof (cases "isSdsRepresentableAsLongLong x")
    case None
    obtain d where d: "setTypeConvert cfg (INTSET is) = Inr (HT d)" "obj_ok cfg (HT d)" "obj_set (HT d) = obj_set (INTSET is)"
      using setTypeConvert_ok ok INTSET by blast
    have x: "x \<notin> obj_set (HT d)" using d(3) int_member [OF iok, of x] None by (simp add: obj_set_def)
    have "card (obj_set (HT d)) < 2 ^ 28 - 1" using small INTSET d(3) by simp
    then obtain r d' where "dictAddRaw (setDictType (hash_seed cfg)) (can_resize cfg) d x () = Inr (r, d')"
        "r = Added \<longleftrightarrow> x \<notin> obj_set (HT d)" "obj_ok cfg (HT d')" "obj_set (HT d') = insert x (obj_set (HT d))"
      using ht_add_ok [OF d(2), of x] by blast
    then show ?thesis using INTSET None d x by (auto simp: setTypeAdd_def dictAdd_def)
  next
    case (Some v)
    then have v: "ll_range v" "x = sdec v" by (simp_all add: ll_of_string)
    then have vm: "v \<noteq> LLONG_MIN" using x by (auto simp: min_sds_def)
    have mem: "x \<in> obj_set ob \<longleftrightarrow> v \<in> elems is" using int_member [OF iok, of x] Some INTSET by (simp add: obj_set_def)
    have "card (elems is) < 2 ^ 28 - 1" using small INTSET intset_card [OF iok] by (simp add: obj_set_def)
    then obtain is' where i: "intsetAdd (fresh cfg) is v = Inr (v \<notin> elems is, is')" "intset_ok is'" "elems is' = insert v (elems is)"
      using isi.add_ok [OF iok, of v "fresh cfg"] v(1) by (auto simp: in_width_8)
    have ok': "obj_ok cfg (INTSET is')" and set': "obj_set (INTSET is') = insert x (obj_set ob)"
      using i vm min INTSET v(2) by (auto simp: obj_ok_def obj_set_def)
    then obtain d where d: "setTypeConvert cfg (INTSET is') = Inr (HT d)" "obj_ok cfg (HT d)" "obj_set (HT d) = obj_set (INTSET is')"
      using setTypeConvert_ok by blast
    show ?thesis using i(1) mem ok' set' d INTSET Some by (auto simp: setTypeAdd_def)
  qed
qed

lemma setTypeRemove_ok:
  assumes ok: "obj_ok cfg ob"
  shows "\<exists>ob'. setTypeRemove cfg ob x = Inr (x \<in> obj_set ob, ob') \<and> obj_ok cfg ob' \<and> obj_set ob' = obj_set ob - {x}"
proof (cases ob)
  case (HT d)
  then have d: "sets.dict_ok (hash_seed cfg) d" using ok by (simp add: obj_ok_def)
  obtain r d1 where r: "dictGenericDelete (setDictType (hash_seed cfg)) d x = Inr (r, d1)" "sets.dict_ok (hash_seed cfg) d1"
      "dict_map (\<lambda>k. k) d x = map_option de_val r" "dict_map (\<lambda>k. k) d1 = (dict_map (\<lambda>k. k) d)(x := None)"
    using sets.dictGenericDelete_ok [OF d, of x] by blast
  let ?d = "if htNeedsResize d1 then snd (dictResize (can_resize cfg) d1) else d1"
  have "sets.dict_ok (hash_seed cfg) ?d \<and> entries ?d = entries d1"
    using r(2) dictResize_ok [of "setDictType (hash_seed cfg)" "\<lambda>k. k" d1 "can_resize cfg"] by (auto simp: sets.dict_ok_def)
  then have d2: "sets.dict_ok (hash_seed cfg) ?d" "dict_map (\<lambda>k. k) ?d = dict_map (\<lambda>k. k) d1"
    using dict_map_same [of "\<lambda>k. k" d1 ?d] r(2) by (auto simp: sets.dict_ok_def dict_wf_def)
  have "(r \<noteq> None) = (x \<in> dom (dict_map (\<lambda>k. k) d))" using r(3) by (simp add: domIff)
  then show ?thesis
    using HT r d2 by (auto simp: setTypeRemove_def dictDelete_def obj_ok_def obj_set_def)
next
  case (INTSET "is")
  have iok: "intset_ok is" and min: "LLONG_MIN \<notin> elems is" using ok INTSET by (simp_all add: obj_ok_def)
  show ?thesis
  proof (cases "isSdsRepresentableAsLongLong x")
    case None
    then show ?thesis using INTSET ok int_member [OF iok, of x] by (simp add: setTypeRemove_def obj_set_def)
  next
    case (Some v)
    then have v: "ll_range v" "x = sdec v" by (simp_all add: ll_of_string)
    have mem: "x \<in> obj_set ob \<longleftrightarrow> v \<in> elems is" using int_member [OF iok, of x] Some INTSET by (simp add: obj_set_def)
    obtain is' where i: "intsetRemove (fresh cfg) is v = Inr (v \<in> elems is, is')" "intset_ok is'" "elems is' = elems is - {v}"
      using isi.remove_ok [OF iok, of v "fresh cfg"] v(1) by (auto simp: in_width_8)
    have "sdec ` (elems is - {v}) = sdec ` elems is - {sdec v}"
      using inj_on_image_set_diff [OF sdec_inj, of "elems is" "{v}"] intset_range [OF iok] v(1) by auto
    then have "obj_ok cfg (INTSET is')" "obj_set (INTSET is') = obj_set ob - {x}"
      using i(2,3) min INTSET v(2) by (simp_all add: obj_ok_def obj_set_def)
    then show ?thesis using i(1) mem INTSET Some by (intro exI [of _ "INTSET is'"]) (simp add: setTypeRemove_def)
  qed
qed

lemma setTypeIsMember_ok:
  assumes ok: "obj_ok cfg ob"
  shows "\<exists>ob'. setTypeIsMember cfg ob x = Inr (x \<in> obj_set ob, ob') \<and> obj_ok cfg ob' \<and> obj_set ob' = obj_set ob"
proof (cases ob)
  case (HT d)
  then have d: "sets.dict_ok (hash_seed cfg) d" using ok by (simp add: obj_ok_def)
  obtain r d1 where r: "dictFind (setDictType (hash_seed cfg)) d x = Inr (r, d1)" "sets.dict_ok (hash_seed cfg) d1"
      "entries d1 = entries d" "dict_map (\<lambda>k. k) d x = map_option de_val r"
    using sets.dictFind_ok [OF d, of x] by blast
  have "dict_map (\<lambda>k. k) d1 = dict_map (\<lambda>k. k) d" using dict_map_same [of "\<lambda>k. k" d d1] d r(3) by (simp add: sets.dict_ok_def dict_wf_def)
  moreover have "(r \<noteq> None) = (x \<in> dom (dict_map (\<lambda>k. k) d))" using r(4) by (simp add: domIff)
  ultimately show ?thesis using HT r by (auto simp: setTypeIsMember_def obj_ok_def obj_set_def)
next
  case (INTSET "is")
  have iok: "intset_ok is" using ok INTSET by (simp add: obj_ok_def)
  show ?thesis
  proof (cases "isSdsRepresentableAsLongLong x")
    case None
    then show ?thesis using INTSET ok int_member [OF iok, of x] by (simp add: setTypeIsMember_def obj_set_def)
  next
    case (Some v)
    then have "in_width 8 v" by (simp add: ll_of_string in_width_8)
    then have "intsetFind is v = Inr (v \<in> elems is)" using isi.member_ok [OF iok] by (auto simp: intset_member_def cbind_eq_Inr_iff)
    then show ?thesis using Some INTSET ok int_member [OF iok, of x] by (simp add: setTypeIsMember_def obj_set_def)
  qed
qed

interpretation ts: set_impl "obj_ok cfg" obj_set "\<lambda>x. x \<noteq> min_sds" "2 ^ 28 - 1" "setTypeAdd cfg" "setTypeRemove cfg" "setTypeIsMember cfg"
  for cfg
  by unfold_locales (simp_all add: obj_set_finite setTypeAdd_ok setTypeRemove_ok setTypeIsMember_ok)

lemma setTypeCreate_ok: "obj_ok cfg (setTypeCreate x)" "obj_set (setTypeCreate x) = {}"
proof -
  have rep: "is_rep intsetNew []" by (simp add: is_rep_def intsetNew_def INTSET_ENC_INT16_def)
  then have "elems intsetNew = {}" "intset_ok intsetNew" using rep_elems [OF rep] by (auto simp: intset_ok_def)
  then show "obj_ok cfg (setTypeCreate x)" "obj_set (setTypeCreate x) = {}"
    by (simp_all add: obj_ok_def obj_set_def setTypeCreate_def sets.dictCreate_ok dict_map_create)
qed

section \<open>Properties\<close>

text \<open>C8: The set type is a set of strings, whatever its encoding: starting from the set created for a first value, any
  sequence of fewer than \<open>2\<^sup>2\<^sup>8\<close> additions, removals and tests gives the answers of a mathematical set, without a
  fault or a failed assertion, through the upgrades of the integer set and the conversion to a dictionary (at an element that is not an
  integer, or when there are more than \<open>set_max_intset_entries\<close>), and the size is its cardinality. The string of the
  least 64-bit integer is excluded.\<close>

theorem set_type_is_set:
  assumes "\<forall>x \<in> set xs. op_arg x \<noteq> sdec LLONG_MIN" and "length xs \<le> 2 ^ 28 - 1"
  shows "\<exists>ob. run_ops (setTypeAdd cfg) (setTypeRemove cfg) (setTypeIsMember cfg) xs (setTypeCreate a) =
      Inr (fst (spec_ops xs {}), ob) \<and> obj_set ob = snd (spec_ops xs {}) \<and> setTypeSize ob = card (snd (spec_ops xs {}))"
proof -
  have "\<forall>x \<in> set xs. op_arg x \<noteq> min_sds" using assms(1) by (simp add: min_sds_def)
  from ts.ops_refine [OF setTypeCreate_ok(1) [of cfg a] this] obtain ob where
    "run_ops (setTypeAdd cfg) (setTypeRemove cfg) (setTypeIsMember cfg) xs (setTypeCreate a) = Inr (fst (spec_ops xs {}), ob)"
    "obj_ok cfg ob" "obj_set ob = snd (spec_ops xs {})" using assms(2) by (auto simp: setTypeCreate_ok)
  then show ?thesis using setTypeSize_card [of cfg ob] by auto
qed

definition small_cfg :: set_cfg where
  "small_cfg = \<lparr> set_max_intset_entries = 2, hash_seed = replicate 16 3, can_resize = True, fresh = (\<lambda>n. 7), addr0 = 0, addr1 = 0 \<rparr>"

theorem set_type_is_set_witness:
  "\<exists>ob. run_ops (setTypeAdd small_cfg) (setTypeRemove small_cfg) (setTypeIsMember small_cfg)
     [Add (bytes ''5''), Add (bytes ''x''), Member (bytes ''5''), Remove (bytes ''5'')] (setTypeCreate (bytes ''5'')) =
     Inr ([True, True, True, True], ob) \<and> obj_set ob = {bytes ''x''}"
proof -
  have "hd (sdec LLONG_MIN) = 45" by (simp add: sdec_def LLONG_MIN_def)
  moreover have "hd (bytes ''5'') \<noteq> 45" "hd (bytes ''x'') \<noteq> 45" by (simp_all add: bytes_def)
  ultimately have "bytes ''5'' \<noteq> sdec LLONG_MIN" "bytes ''x'' \<noteq> sdec LLONG_MIN" by metis+
  then show ?thesis
    using set_type_is_set [of "[Add (bytes ''5''), Add (bytes ''x''), Member (bytes ''5''), Remove (bytes ''5'')]" small_cfg "bytes ''5''"]
    by (auto simp: bytes_def)
qed
end
