(* ===== verification/SetCommands.thy ===== *)
theory SetCommands
  imports TSet
begin

text \<open>
  The commands on sets of \<open>t_set.c\<close>. Objects live in a heap and the key space is the map from keys to their addresses that its
  dictionary stands for (\<open>DictTypes\<close>), so that a
  set named twice in one command is one object, as in the code. A dictionary takes a step of rehashing when it is looked
  into, while another one is iterated over. Expiry, notifications, watched keys and the buffers of replies are left
  out: a command gives its reply and the new database, with the counter of changes.
\<close>

section \<open>The database\<close>

datatype robj = SetObj set_obj | OtherObj

type_synonym obj_heap = "nat \<Rightarrow> robj option"

record sdb =
  keys :: "byte list \<rightharpoonup> nat"
  objs :: obj_heap
  dirty :: int

datatype reply = RInt int | RBulks int "byte list list" | RWrongType

text \<open>An operation on the set at an address.\<close>

definition on_set :: "obj_heap \<Rightarrow> nat \<Rightarrow> (set_obj \<Rightarrow> ('r \<times> set_obj) cres) \<Rightarrow> ('r \<times> obj_heap) cres" where
  "on_set h p f =
     (case h p of
        Some (SetObj ob) \<Rightarrow> cbind (f ob) (\<lambda>(r, ob). Inr (r, h(p \<mapsto> SetObj ob)))
      | _ \<Rightarrow> Inl BadPointer)"

definition size_at :: "obj_heap \<Rightarrow> nat \<Rightarrow> nat" where
  "size_at h p = (case h p of Some (SetObj ob) \<Rightarrow> setTypeSize ob | _ \<Rightarrow> 0)"

definition is_set :: "obj_heap \<Rightarrow> nat \<Rightarrow> bool" where
  "is_set h p \<longleftrightarrow> (case h p of Some (SetObj ob) \<Rightarrow> True | _ \<Rightarrow> False)"

text \<open>Removing a key releases its object; adding one asserts that it is new.\<close>

definition dbDelete :: "sdb \<Rightarrow> byte list \<Rightarrow> bool \<times> sdb" where
  "dbDelete S key =
     (case keys S key of
        None \<Rightarrow> (False, S)
      | Some p \<Rightarrow> (True, S\<lparr>keys := (keys S)(key := None), objs := (objs S)(p := None)\<rparr>))"

definition dbAdd :: "sdb \<Rightarrow> byte list \<Rightarrow> nat \<Rightarrow> sdb cres" where
  "dbAdd S key p = (if keys S key = None then Inr (S\<lparr>keys := (keys S)(key \<mapsto> p)\<rparr>) else Inl AssertFailed)"

text \<open>
  The loops \<open>while ((... = setTypeNext(si, ...)) != -1)\<close> over the set at an address, with the release of the iterator.
  The loops that call \<open>setTypeNextObject\<close> are those whose body starts by making the string of the element.
\<close>

partial_function (option) for_each ::
  "set_cfg \<Rightarrow> nat \<Rightarrow> (set_ele \<Rightarrow> 's \<Rightarrow> obj_heap \<Rightarrow> ('s \<times> obj_heap) cres) \<Rightarrow> set_iter \<Rightarrow> 's \<Rightarrow> obj_heap \<Rightarrow>
   ('s \<times> obj_heap) cres option" where
  "for_each cfg p body si s h =
     (case h p of
        Some (SetObj ob) \<Rightarrow>
          (case setTypeNext cfg ob si of
             Inl f \<Rightarrow> Some (Inl f)
           | Inr (None, si, ob) \<Rightarrow> Some (cbind (setTypeReleaseIterator cfg ob si) (\<lambda>ob. Inr (s, h(p \<mapsto> SetObj ob))))
           | Inr (Some e, si, ob) \<Rightarrow>
               (case body e s (h(p \<mapsto> SetObj ob)) of
                  Inl f \<Rightarrow> Some (Inl f)
                | Inr (s, h) \<Rightarrow> for_each cfg p body si s h))
      | _ \<Rightarrow> Some (Inl BadPointer))"

definition each_element ::
  "set_cfg \<Rightarrow> nat \<Rightarrow> (set_ele \<Rightarrow> 's \<Rightarrow> obj_heap \<Rightarrow> ('s \<times> obj_heap) cres) \<Rightarrow> 's \<Rightarrow> obj_heap \<Rightarrow> ('s \<times> obj_heap) cres option" where
  "each_element cfg p body s h =
     (case h p of Some (SetObj ob) \<Rightarrow> for_each cfg p body (setTypeInitIterator ob) s h | _ \<Rightarrow> Some (Inl BadPointer))"

section \<open>Commands on one set\<close>

fun add_all :: "set_cfg \<Rightarrow> nat \<Rightarrow> byte list list \<Rightarrow> int \<Rightarrow> obj_heap \<Rightarrow> (int \<times> obj_heap) cres" where
  "add_all cfg p [] added h = Inr (added, h)"
| "add_all cfg p (v # vs) added h =
     cbind (on_set h p (\<lambda>ob. setTypeAdd cfg ob v)) (\<lambda>(b, h). add_all cfg p vs (if b then added + 1 else added) h)"

definition saddCommand :: "set_cfg \<Rightarrow> nat \<Rightarrow> sdb \<Rightarrow> byte list \<Rightarrow> byte list list \<Rightarrow> (reply \<times> sdb) cres" where
  "saddCommand cfg new S key vs =
     cbind (case keys S key of
              None \<Rightarrow> cbind (rd vs 0) (\<lambda>v. cbind (dbAdd (S\<lparr>objs := (objs S)(new \<mapsto> SetObj (setTypeCreate v))\<rparr>) key new) (\<lambda>S. Inr (Some new, S)))
            | Some p \<Rightarrow> Inr (if is_set (objs S) p then Some p else None, S)) (\<lambda>(set, S).
     case set of
       None \<Rightarrow> Inr (RWrongType, S)
     | Some p \<Rightarrow>
         cbind (add_all cfg p vs 0 (objs S)) (\<lambda>(added, h).
         Inr (RInt added, S\<lparr>objs := h, dirty := dirty S + added\<rparr>)))"

text \<open>Removing stops when the set is empty, with the key removed.\<close>

fun remove_all :: "set_cfg \<Rightarrow> byte list \<Rightarrow> nat \<Rightarrow> byte list list \<Rightarrow> int \<Rightarrow> sdb \<Rightarrow> (int \<times> sdb) cres" where
  "remove_all cfg key p [] deleted S = Inr (deleted, S)"
| "remove_all cfg key p (v # vs) deleted S =
     cbind (on_set (objs S) p (\<lambda>ob. setTypeRemove cfg ob v)) (\<lambda>(b, h).
     let S = S\<lparr>objs := h\<rparr> in
     if b then
       if size_at (objs S) p = 0 then Inr (deleted + 1, snd (dbDelete S key)) else remove_all cfg key p vs (deleted + 1) S
     else remove_all cfg key p vs deleted S)"

definition sremCommand :: "set_cfg \<Rightarrow> sdb \<Rightarrow> byte list \<Rightarrow> byte list list \<Rightarrow> (reply \<times> sdb) cres" where
  "sremCommand cfg S key vs =
     (case keys S key of
        None \<Rightarrow> Inr (RInt 0, S)
      | Some p \<Rightarrow>
          if \<not> is_set (objs S) p then Inr (RWrongType, S)
          else cbind (remove_all cfg key p vs 0 S) (\<lambda>(deleted, S).
            Inr (RInt deleted, if deleted \<noteq> 0 then S\<lparr>dirty := dirty S + deleted\<rparr> else S)))"

definition smoveCommand :: "set_cfg \<Rightarrow> nat \<Rightarrow> sdb \<Rightarrow> byte list \<Rightarrow> byte list \<Rightarrow> byte list \<Rightarrow> (reply \<times> sdb) cres" where
  "smoveCommand cfg new S src dst ele =
     (let dstset = keys S dst in
      case keys S src of
        None \<Rightarrow> Inr (RInt 0, S)
      | Some p \<Rightarrow>
          if \<not> is_set (objs S) p \<or> (case dstset of None \<Rightarrow> False | Some q \<Rightarrow> \<not> is_set (objs S) q) then Inr (RWrongType, S)
          else if dstset = Some p then
            cbind (on_set (objs S) p (\<lambda>ob. setTypeIsMember cfg ob ele)) (\<lambda>(b, h). Inr (RInt (if b then 1 else 0), S\<lparr>objs := h\<rparr>))
          else
            cbind (on_set (objs S) p (\<lambda>ob. setTypeRemove cfg ob ele)) (\<lambda>(b, h).
            let S = S\<lparr>objs := h\<rparr> in
            if \<not> b then Inr (RInt 0, S)
            else
              let S = (if size_at (objs S) p = 0 then snd (dbDelete S src) else S) in
              cbind (case dstset of
                       Some q \<Rightarrow> Inr (q, S)
                     | None \<Rightarrow> cbind (dbAdd (S\<lparr>objs := (objs S)(new \<mapsto> SetObj (setTypeCreate ele))\<rparr>) dst new) (\<lambda>S. Inr (new, S))) (\<lambda>(q, S).
              cbind (on_set (objs S) q (\<lambda>ob. setTypeAdd cfg ob ele)) (\<lambda>(b, h).
              Inr (RInt 1, S\<lparr>objs := h, dirty := dirty S + 1 + (if b then 1 else 0)\<rparr>)))))"

definition sismemberCommand :: "set_cfg \<Rightarrow> sdb \<Rightarrow> byte list \<Rightarrow> byte list \<Rightarrow> (reply \<times> sdb) cres" where
  "sismemberCommand cfg S key v =
     (case keys S key of
        None \<Rightarrow> Inr (RInt 0, S)
      | Some p \<Rightarrow>
          if \<not> is_set (objs S) p then Inr (RWrongType, S)
          else cbind (on_set (objs S) p (\<lambda>ob. setTypeIsMember cfg ob v)) (\<lambda>(b, h). Inr (RInt (if b then 1 else 0), S\<lparr>objs := h\<rparr>)))"

definition scardCommand :: "sdb \<Rightarrow> byte list \<Rightarrow> reply" where
  "scardCommand S key =
     (case keys S key of
        None \<Rightarrow> RInt 0
      | Some p \<Rightarrow> if \<not> is_set (objs S) p then RWrongType else RInt (int (size_at (objs S) p)))"

section \<open>Intersection\<close>

text \<open>Looking the sets up, with the two early returns.\<close>

datatype 'a lookup = Sets 'a | NoKey | NoSet

fun lookup_all :: "sdb \<Rightarrow> byte list list \<Rightarrow> nat list lookup" where
  "lookup_all S [] = Sets []"
| "lookup_all S (k # ks) =
     (case keys S k of
        None \<Rightarrow> NoKey
      | Some p \<Rightarrow>
          if \<not> is_set (objs S) p then NoSet
          else case lookup_all S ks of Sets ps \<Rightarrow> Sets (p # ps) | r \<Rightarrow> r)"

text \<open>Whether the other sets have an element of the first one.\<close>

fun in_all :: "set_cfg \<Rightarrow> nat \<Rightarrow> nat list \<Rightarrow> set_ele \<Rightarrow> obj_heap \<Rightarrow> (bool \<times> obj_heap) cres" where
  "in_all cfg p0 [] e h = Inr (True, h)"
| "in_all cfg p0 (p # ps) e h =
     (if p = p0 then in_all cfg p0 ps e h
      else
        cbind (case e of
                 IntEle v \<Rightarrow>
                   (case h p of
                      Some (SetObj (INTSET is)) \<Rightarrow> cbind (intsetFind is v) (\<lambda>b. Inr (b, h))
                    | Some (SetObj (HT d)) \<Rightarrow> cbind (ele_sds cfg e) (\<lambda>s. on_set h p (\<lambda>ob. setTypeIsMember cfg ob s))
                    | _ \<Rightarrow> Inl BadPointer)
               | SdsEle s \<Rightarrow> on_set h p (\<lambda>ob. setTypeIsMember cfg ob s)) (\<lambda>(b, h).
        if b then in_all cfg p0 ps e h else Inr (False, h)))"

text \<open>The bulk reply for an element; the text of an integer is made by \<open>ll2string\<close> in a buffer of 64 bytes.\<close>

definition ele_reply :: "set_cfg \<Rightarrow> set_ele \<Rightarrow> byte list cres" where
  "ele_reply cfg e =
     (case e of SdsEle s \<Rightarrow> Inr s | IntEle v \<Rightarrow> cbind (ll2string (map (fresh cfg) [0..<64]) 64 v) (\<lambda>(len, buf). Inr (take len buf)))"

text \<open>The state of the loop: the elements replied so far, with their number.\<close>

definition sinter_body :: "set_cfg \<Rightarrow> nat \<Rightarrow> nat list \<Rightarrow> nat option \<Rightarrow> set_ele \<Rightarrow> byte list list \<times> int \<Rightarrow> obj_heap \<Rightarrow>
    ((byte list list \<times> int) \<times> obj_heap) cres" where
  "sinter_body cfg p0 ps dstset e out h =
     cbind (in_all cfg p0 ps e h) (\<lambda>(b, h).
     if b then
       case dstset of
         None \<Rightarrow> cbind (ele_reply cfg e) (\<lambda>s. Inr ((fst out @ [s], snd out + 1), h))
       | Some q \<Rightarrow> cbind (ele_sds cfg e) (\<lambda>s. cbind (on_set h q (\<lambda>ob. setTypeAdd cfg ob s)) (\<lambda>(b, h). Inr (out, h)))
     else Inr (out, h))"

text \<open>Storing a result under the destination key: an empty one only removes the key.\<close>

definition store_result :: "sdb \<Rightarrow> byte list \<Rightarrow> nat \<Rightarrow> (reply \<times> sdb) cres" where
  "store_result S dstkey q =
     (let S = snd (dbDelete S dstkey) in
      cbind (if size_at (objs S) q > 0 then cbind (dbAdd S dstkey q) (\<lambda>S. Inr (RInt (int (size_at (objs S) q)), S))
             else Inr (RInt 0, S\<lparr>objs := (objs S)(q := None)\<rparr>)) (\<lambda>(r, S).
      Inr (r, S\<lparr>dirty := dirty S + 1\<rparr>)))"

text \<open>
  The sets are sorted by their size with \<open>qsort\<close>, which leaves the order of sets of equal size open;
  here they keep the order of the arguments, as also in \<open>diff_plan\<close>. The order decides which set is
  iterated, and so the order of the elements replied, but not the set of them.
\<close>

definition sinterGenericCommand :: "set_cfg \<Rightarrow> nat \<Rightarrow> sdb \<Rightarrow> byte list list \<Rightarrow> byte list option \<Rightarrow> (reply \<times> sdb) cres option" where
  "sinterGenericCommand cfg new S setkeys dstkey =
     (case lookup_all S setkeys of
        NoKey \<Rightarrow>
          (case dstkey of
             None \<Rightarrow> Some (Inr (RBulks 0 [], S))
           | Some k \<Rightarrow> (case dbDelete S k of (deleted, S) \<Rightarrow> Some (Inr (RInt 0, if deleted then S\<lparr>dirty := dirty S + 1\<rparr> else S))))
      | NoSet \<Rightarrow> Some (Inr (RWrongType, S))
      | Sets ps \<Rightarrow>
          (case sort_key (size_at (objs S)) ps of
             [] \<Rightarrow> Some (Inl OutOfBounds)
           | p0 # ps \<Rightarrow>
               (case dstkey of
                  None \<Rightarrow>
                    obind (each_element cfg p0 (sinter_body cfg p0 ps None) ([], 0) (objs S)) (\<lambda>((els, n), h).
                    Some (Inr (RBulks n els, S\<lparr>objs := h\<rparr>)))
                | Some k \<Rightarrow>
                    obind (each_element cfg p0 (sinter_body cfg p0 ps (Some new)) ([], 0) ((objs S)(new \<mapsto> SetObj (INTSET intsetNew)))) (\<lambda>(out, h).
                    Some (store_result (S\<lparr>objs := h\<rparr>) k new)))))"

section \<open>Union and difference\<close>

datatype set_op_kind = SET_OP_UNION | SET_OP_DIFF

fun lookup_some :: "sdb \<Rightarrow> byte list list \<Rightarrow> nat option list lookup" where
  "lookup_some S [] = Sets []"
| "lookup_some S (k # ks) =
     (case keys S k of
        None \<Rightarrow> (case lookup_some S ks of Sets ps \<Rightarrow> Sets (None # ps) | r \<Rightarrow> r)
      | Some p \<Rightarrow>
          if \<not> is_set (objs S) p then NoSet
          else case lookup_some S ks of Sets ps \<Rightarrow> Sets (Some p # ps) | r \<Rightarrow> r)"

definition size_opt :: "obj_heap \<Rightarrow> nat option \<Rightarrow> nat" where
  "size_opt h p = (case p of None \<Rightarrow> 0 | Some p \<Rightarrow> size_at h p)"

text \<open>The estimate of the work, and the order of the sets for the first algorithm.\<close>

definition diff_plan :: "obj_heap \<Rightarrow> nat option list \<Rightarrow> nat \<times> nat option list" where
  "diff_plan h sets =
     (case sets of
        Some p0 # rest \<Rightarrow>
          let live = filter (\<lambda>p. p \<noteq> None) sets;
              algo_one_work = length live * size_at h p0 div 2;
              algo_two_work = sum_list (map (size_opt h) live);
              diff_algo = (if algo_one_work \<le> algo_two_work then 1 else 2) in
          (diff_algo, if diff_algo = 1 then Some p0 # sort_key (\<lambda>p. - int (size_opt h p)) rest else sets)
      | _ \<Rightarrow> (1, sets))"

text \<open>Adding the elements of one set to the result, or removing them.\<close>

definition union_body :: "set_cfg \<Rightarrow> nat \<Rightarrow> set_ele \<Rightarrow> int \<Rightarrow> obj_heap \<Rightarrow> (int \<times> obj_heap) cres" where
  "union_body cfg q e n h =
     cbind (ele_sds cfg e) (\<lambda>s. cbind (on_set h q (\<lambda>ob. setTypeAdd cfg ob s)) (\<lambda>(b, h). Inr (if b then n + 1 else n, h)))"

definition remove_body :: "set_cfg \<Rightarrow> nat \<Rightarrow> set_ele \<Rightarrow> int \<Rightarrow> obj_heap \<Rightarrow> (int \<times> obj_heap) cres" where
  "remove_body cfg q e n h =
     cbind (ele_sds cfg e) (\<lambda>s. cbind (on_set h q (\<lambda>ob. setTypeRemove cfg ob s)) (\<lambda>(b, h). Inr (if b then n - 1 else n, h)))"

fun union_sets :: "set_cfg \<Rightarrow> nat \<Rightarrow> nat option list \<Rightarrow> int \<Rightarrow> obj_heap \<Rightarrow> (int \<times> obj_heap) cres option" where
  "union_sets cfg q [] n h = Some (Inr (n, h))"
| "union_sets cfg q (None # ps) n h = union_sets cfg q ps n h"
| "union_sets cfg q (Some p # ps) n h = obind (each_element cfg p (union_body cfg q) n h) (\<lambda>(n, h). union_sets cfg q ps n h)"

text \<open>Algorithm 1: an element of the first set is kept if no other set has it.\<close>

fun in_any :: "set_cfg \<Rightarrow> nat \<Rightarrow> nat option list \<Rightarrow> byte list \<Rightarrow> obj_heap \<Rightarrow> (bool \<times> obj_heap) cres" where
  "in_any cfg p0 [] s h = Inr (False, h)"
| "in_any cfg p0 (None # ps) s h = in_any cfg p0 ps s h"
| "in_any cfg p0 (Some p # ps) s h =
     (if p = p0 then Inr (True, h)
      else cbind (on_set h p (\<lambda>ob. setTypeIsMember cfg ob s)) (\<lambda>(b, h). if b then Inr (True, h) else in_any cfg p0 ps s h))"

definition diff1_body :: "set_cfg \<Rightarrow> nat \<Rightarrow> nat \<Rightarrow> nat option list \<Rightarrow> set_ele \<Rightarrow> int \<Rightarrow> obj_heap \<Rightarrow> (int \<times> obj_heap) cres" where
  "diff1_body cfg q p0 ps e n h =
     cbind (ele_sds cfg e) (\<lambda>s.
     cbind (in_any cfg p0 ps s h) (\<lambda>(b, h).
     if b then Inr (n, h) else cbind (on_set h q (\<lambda>ob. setTypeAdd cfg ob s)) (\<lambda>(b, h). Inr (n + 1, h))))"

text \<open>Algorithm 2: the elements of the other sets are removed from a copy of the first, until it is empty.\<close>

fun diff2_sets :: "set_cfg \<Rightarrow> nat \<Rightarrow> nat option list \<Rightarrow> int \<Rightarrow> obj_heap \<Rightarrow> (int \<times> obj_heap) cres option" where
  "diff2_sets cfg q [] n h = Some (Inr (n, h))"
| "diff2_sets cfg q (None # ps) n h = diff2_sets cfg q ps n h"
| "diff2_sets cfg q (Some p # ps) n h =
     obind (each_element cfg p (remove_body cfg q) n h) (\<lambda>(n, h). if n = 0 then Some (Inr (n, h)) else diff2_sets cfg q ps n h)"

definition set_op_work :: "set_cfg \<Rightarrow> nat \<Rightarrow> set_op_kind \<Rightarrow> nat \<Rightarrow> nat option list \<Rightarrow> obj_heap \<Rightarrow> (int \<times> obj_heap) cres option" where
  "set_op_work cfg q kind diff_algo sets h =
     (case kind of
        SET_OP_UNION \<Rightarrow> union_sets cfg q sets 0 h
      | SET_OP_DIFF \<Rightarrow>
          (case sets of
             Some p0 # ps \<Rightarrow>
               if diff_algo = 1 then each_element cfg p0 (diff1_body cfg q p0 ps) 0 h
               else obind (each_element cfg p0 (union_body cfg q) 0 h) (\<lambda>(n, h).
                    if n = 0 then Some (Inr (n, h)) else diff2_sets cfg q ps n h)
           | None # ps \<Rightarrow> Some (Inr (0, h))
           | [] \<Rightarrow> Some (Inl OutOfBounds)))"

definition reply_body :: "set_cfg \<Rightarrow> set_ele \<Rightarrow> byte list list \<Rightarrow> obj_heap \<Rightarrow> (byte list list \<times> obj_heap) cres" where
  "reply_body cfg e els h = cbind (ele_sds cfg e) (\<lambda>s. Inr (els @ [s], h))"

definition sunionDiffGenericCommand ::
  "set_cfg \<Rightarrow> nat \<Rightarrow> sdb \<Rightarrow> byte list list \<Rightarrow> byte list option \<Rightarrow> set_op_kind \<Rightarrow> (reply \<times> sdb) cres option" where
  "sunionDiffGenericCommand cfg new S setkeys dstkey kind =
     (case lookup_some S setkeys of
        Sets sets \<Rightarrow>
          (case (if kind = SET_OP_DIFF then diff_plan (objs S) sets else (1, sets)) of (diff_algo, sets) \<Rightarrow>
           obind (set_op_work cfg new kind diff_algo sets ((objs S)(new \<mapsto> SetObj (INTSET intsetNew)))) (\<lambda>(cardinality, h).
           case dstkey of
             None \<Rightarrow>
               obind (each_element cfg new (reply_body cfg) [] h) (\<lambda>(els, h).
               Some (Inr (RBulks cardinality els, S\<lparr>objs := h(new := None)\<rparr>)))
           | Some k \<Rightarrow> Some (store_result (S\<lparr>objs := h\<rparr>) k new)))
      | _ \<Rightarrow> Some (Inr (RWrongType, S)))"


section \<open>Iterating over a set\<close>

definition ele_str :: "set_ele \<Rightarrow> byte list" where
  "ele_str e = (case e of SdsEle s \<Rightarrow> s | IntEle v \<Rightarrow> sdec v)"

definition ele_ok :: "set_ele \<Rightarrow> bool" where
  "ele_ok e = (case e of SdsEle s \<Rightarrow> True | IntEle v \<Rightarrow> ll_range v \<and> v \<noteq> LLONG_MIN)"

lemma ele_sds_ok: "ele_ok e \<Longrightarrow> ele_sds cfg e = Inr (ele_str e)"
  using sds_of_ll [of _ "fresh cfg"] by (cases e) (fastforce simp: ele_ok_def ele_sds_def ele_str_def)+

lemma sdec_length: "ll_range v \<Longrightarrow> length (sdec v) \<le> 21"
  using length_dec_20 [of "nat \<bar>v\<bar>"] by (auto simp: sdec_abs ll_range_def LLONG_MIN_def LLONG_MAX_def nat_less_iff)

lemma uniq_distinct: "uniq (\<lambda>k. k) (mset xs) \<Longrightarrow> distinct (map de_key xs)"
proof (induction xs)
  case (Cons x xs)
  then have "uniq (\<lambda>k. k) (mset xs)" "\<forall>y \<in> set xs. de_key y \<noteq> de_key x" using uniq_add [of "\<lambda>k. k" x "mset xs"] by auto
  then show ?case using Cons.IH by auto
qed simp

lemma ele_reply_ok: "ele_ok e \<Longrightarrow> ele_reply cfg e = Inr (ele_str e)"
proof (cases e)
  case (IntEle v)
  assume "ele_ok e"
  then have "ll_range v" using IntEle by (simp add: ele_ok_def)
  moreover have "length (sdec v) < 64" using sdec_length [OF calculation] by simp
  ultimately show ?thesis
    using IntEle ll2string_sdec [of v 64 "map (fresh cfg) [0..<64]"]
    by (simp add: ele_reply_def ele_str_def store_at_def)
qed (simp add: ele_reply_def ele_str_def)

text \<open>The elements that an iterator still has to return.\<close>

definition di_left :: "u64 \<Rightarrow> u64 \<Rightarrow> ('k, 'v) dict \<Rightarrow> ('k, 'v) dictIterator \<Rightarrow> ('k, 'v) dictEntry list \<Rightarrow> bool" where
  "di_left a0 a1 d di xs \<longleftrightarrow> sized d \<and>
     (di = dictGetIterator \<and> xs = buckets_left dictGetIterator d \<or>
      0 \<le> it_index di \<and> \<not> it_safe di \<and> it_fingerprint di = dictFingerprint a0 a1 d \<and> xs = left di d)"

fun iter_left :: "set_cfg \<Rightarrow> set_obj \<Rightarrow> set_iter \<Rightarrow> set_ele list \<Rightarrow> bool" where
  "iter_left cfg (HT d) (HtIter di) es \<longleftrightarrow> (\<exists>xs. es = map (\<lambda>x. SdsEle (de_key x)) xs \<and> di_left (addr0 cfg) (addr1 cfg) d di xs)"
| "iter_left cfg (INTSET is) (IntIter ii) es \<longleftrightarrow> (\<exists>vs. is_rep is vs \<and> es = map IntEle (drop ii vs))"
| "iter_left cfg ob si es \<longleftrightarrow> False"

lemma dictNext_left:
  assumes "di_left a0 a1 d di xs"
  shows "\<exists>e di'. dictNext a0 a1 di d = Inr (e, di', d) \<and> dictReleaseIterator a0 a1 di' d = Inr d \<and>
    (case e of None \<Rightarrow> xs = [] | Some x \<Rightarrow> \<exists>ys. xs = x # ys \<and> di_left a0 a1 d di' ys)"
  using assms [unfolded di_left_def]
proof (elim conjE disjE)
  assume s: "sized d" and di: "0 \<le> it_index di" "\<not> it_safe di" "it_fingerprint di = dictFingerprint a0 a1 d" and xs: "xs = left di d"
  obtain e di' where n: "dictNext a0 a1 di d = Inr (e, di', d)" "0 \<le> it_index di'" "it_safe di' = it_safe di" "it_fingerprint di' = it_fingerprint di"
      "case e of None \<Rightarrow> left di d = [] | Some x \<Rightarrow> left di d = x # left di' d" using dictNext_running [OF s di(1)] by blast
  then show ?thesis using s di xs by (intro exI [of _ e] exI [of _ di']) (auto simp: dictReleaseIterator_def di_left_def split: option.splits)
next
  assume s: "sized d" and di: "di = dictGetIterator" and xs: "xs = buckets_left dictGetIterator d"
  let ?it = "dictGetIterator\<lparr>it_fingerprint := dictFingerprint a0 a1 d\<rparr> :: ('a, 'b) dictIterator"
  have "-1 \<le> it_index ?it" by (simp add: dictGetIterator_def)
  then obtain e di' where n: "next_loop d ?it = Inr (e, di')" "0 \<le> it_index di'" "it_safe di' = it_safe ?it" "it_fingerprint di' = it_fingerprint ?it"
      "it_entry di' = e" "case e of None \<Rightarrow> buckets_left ?it d = [] | Some x \<Rightarrow> buckets_left ?it d = x # it_nextEntry di' @ buckets_left di' d"
    using next_loop_ok [OF s] by blast
  have b: "buckets_left ?it d = xs" by (simp add: xs buckets_left_def)
  have "dictNext a0 a1 di d = Inr (e, di', d)" using n(1) by (simp add: di dictNext_def dictGetIterator_def iter_start_def)
  moreover have "\<not> it_safe di'" "it_fingerprint di' = dictFingerprint a0 a1 d" using n(3,4) by (simp_all add: dictGetIterator_def)
  ultimately show ?thesis using s n b
    by (intro exI [of _ e] exI [of _ di']) (auto simp: dictReleaseIterator_def di_left_def left_def split: option.splits)
qed

lemma setTypeNext_ok:
  assumes "iter_left cfg ob si es"
  shows "\<exists>e si'. setTypeNext cfg ob si = Inr (e, si', ob) \<and> setTypeReleaseIterator cfg ob si' = Inr ob \<and>
    (case e of None \<Rightarrow> es = [] | Some x \<Rightarrow> \<exists>ys. es = x # ys \<and> iter_left cfg ob si' ys)"
proof (cases ob)
  case (INTSET "is")
  then obtain ii vs where v: "si = IntIter ii" "is_rep is vs" "es = map IntEle (drop ii vs)"
    using assms by (cases si) auto
  show ?thesis
  proof (cases "ii < length vs")
    case True
    then have "intsetGet is ii = Inr (Some (vs ! ii))" using v(2) rep_Get [OF v(2) True] by (simp add: intsetGet_def is_rep_def)
    moreover have "drop ii vs = vs ! ii # drop (ii + 1) vs" using True by (simp add: Cons_nth_drop_Suc)
    ultimately show ?thesis using INTSET v by (auto simp: setTypeNext_def setTypeReleaseIterator_def)
  next
    case False
    then have "intsetGet is ii = Inr None" using v(2) by (simp add: intsetGet_def is_rep_def)
    then show ?thesis using INTSET v False by (auto simp: setTypeNext_def setTypeReleaseIterator_def)
  qed
next
  case (HT d)
  then obtain di xs where x: "si = HtIter di" "es = map (\<lambda>x. SdsEle (de_key x)) xs" "di_left (addr0 cfg) (addr1 cfg) d di xs"
    using assms by (cases si) auto
  obtain e di' where n: "dictNext (addr0 cfg) (addr1 cfg) di d = Inr (e, di', d)" "dictReleaseIterator (addr0 cfg) (addr1 cfg) di' d = Inr d"
      "case e of None \<Rightarrow> xs = [] | Some x \<Rightarrow> \<exists>ys. xs = x # ys \<and> di_left (addr0 cfg) (addr1 cfg) d di' ys"
    using dictNext_left [OF x(3)] by blast
  then show ?thesis using HT x(1,2)
    by (cases e) (auto simp: setTypeNext_def setTypeReleaseIterator_def)
qed

lemma setTypeInitIterator_ok:
  assumes "obj_ok cfg ob"
  shows "\<exists>es. iter_left cfg ob (setTypeInitIterator ob) es \<and> distinct (map ele_str es) \<and> ele_str ` set es = obj_set ob \<and> (\<forall>e \<in> set es. ele_ok e)"
proof (cases ob)
  case (INTSET "is")
  then obtain vs where vs: "is_rep is vs" using assms by (auto simp: obj_ok_def intset_ok_def)
  have r: "ll_range v \<and> v \<noteq> LLONG_MIN" if "v \<in> set vs" for v
    using assms INTSET rep_elems [OF vs] rep_range [OF vs that] that by (auto simp: obj_ok_def)
  have "distinct vs" using vs by (simp add: is_rep_def strict_sorted_iff)
  then have "distinct (map sdec vs)" using r by (auto simp: distinct_map intro!: inj_onI simp: sdec_eq)
  then show ?thesis
    using INTSET vs r rep_elems [OF vs]
    by (intro exI [of _ "map IntEle vs"]) (auto simp: setTypeInitIterator_def comp_def ele_str_def ele_ok_def obj_set_def image_image)
next
  case (HT d)
  then have d: "sets.dict_ok (hash_seed cfg) d" using assms by (simp add: obj_ok_def)
  let ?xs = "buckets_left dictGetIterator d"
  have wf: "dict_wf (setDictType (hash_seed cfg)) (\<lambda>k. k) d" using d by (simp add: sets.dict_ok_def)
  then have "ht_entries (ht1 d) = {#}" if "\<not> dictIsRehashing d" using that by (simp add: dict_wf_def)
  then have all: "mset ?xs = entries d"
    by (auto simp: buckets_left_def dictGetIterator_def entries_def ht_entries_def dictIsRehashing_def)
  have u: "uniq (\<lambda>k. k) (entries d)" using wf by (simp add: dict_wf_def)
  have "distinct (map de_key ?xs)" by (rule uniq_distinct) (simp add: all u)
  moreover have "de_key ` set ?xs = dom (dict_map (\<lambda>k. k) d)"
    unfolding set_mset_mset [symmetric] all using dict_map_Some [OF u] by (auto simp: dom_def)
  ultimately show ?thesis
    using HT wf_sized [OF wf]
    by (intro exI [of _ "map (\<lambda>x. SdsEle (de_key x)) ?xs"])
       (auto simp: setTypeInitIterator_def di_left_def comp_def ele_str_def ele_ok_def obj_set_def image_image)
qed

text \<open>
  A loop over a set: an invariant of the strings seen so far, the state of the loop and the heap, kept by the body as long as
  the body leaves the set itself alone, holds of all its strings at the end. This includes that the loop ends.
\<close>

lemma for_each_ok:
  assumes step: "\<And>D e s h. I D s h \<Longrightarrow> h p = Some (SetObj ob) \<Longrightarrow> ele_ok e \<Longrightarrow> ele_str e \<notin> D \<Longrightarrow> ele_str e \<in> obj_set ob \<Longrightarrow>
      \<exists>s' h'. body e s h = Inr (s', h') \<and> h' p = Some (SetObj ob) \<and> I (insert (ele_str e) D) s' h'"
    and left: "iter_left cfg ob si es" and es: "distinct (map ele_str es)" "\<forall>e \<in> set es. ele_ok e \<and> ele_str e \<notin> D \<and> ele_str e \<in> obj_set ob"
    and I: "I D s h" and h: "h p = Some (SetObj ob)"
  shows "\<exists>s' h'. for_each cfg p body si s h = Some (Inr (s', h')) \<and> h' p = Some (SetObj ob) \<and> I (D \<union> ele_str ` set es) s' h'"
  using left es I h
proof (induction es arbitrary: si D s h)
  case Nil
  obtain si' where "setTypeNext cfg ob si = Inr (None, si', ob)" "setTypeReleaseIterator cfg ob si' = Inr ob"
    using setTypeNext_ok [OF Nil.prems(1)] by (fastforce split: option.splits)
  moreover have "h(p \<mapsto> SetObj ob) = h" using Nil.prems(5) by auto
  ultimately show ?case using Nil.prems(4,5) by (subst for_each.simps) simp
next
  case (Cons e es)
  obtain si' where n: "setTypeNext cfg ob si = Inr (Some e, si', ob)" "iter_left cfg ob si' es"
    using setTypeNext_ok [OF Cons.prems(1)] by (fastforce split: option.splits)
  have same: "h(p \<mapsto> SetObj ob) = h" using Cons.prems(5) by auto
  obtain s1 h1 where b: "body e s h = Inr (s1, h1)" "h1 p = Some (SetObj ob)" "I (insert (ele_str e) D) s1 h1"
    using step [OF Cons.prems(4,5), of e] Cons.prems(3) by auto
  obtain s' h' where "for_each cfg p body si' s1 h1 = Some (Inr (s', h'))" "h' p = Some (SetObj ob)" "I (insert (ele_str e) D \<union> ele_str ` set es) s' h'"
    using Cons.IH [OF n(2) _ _ b(3,2)] Cons.prems(2,3) by (force simp: image_iff)
  then show ?case using n(1) b(1) same Cons.prems(5) by (subst for_each.simps) simp
qed

lemma each_element_ok:
  assumes "I {} s h" and h: "h p = Some (SetObj ob)" "obj_ok cfg ob"
    and step: "\<And>D e s h. I D s h \<Longrightarrow> h p = Some (SetObj ob) \<Longrightarrow> ele_ok e \<Longrightarrow> ele_str e \<notin> D \<Longrightarrow> ele_str e \<in> obj_set ob \<Longrightarrow>
      \<exists>s' h'. body e s h = Inr (s', h') \<and> h' p = Some (SetObj ob) \<and> I (insert (ele_str e) D) s' h'"
  shows "\<exists>s' h'. each_element cfg p body s h = Some (Inr (s', h')) \<and> h' p = Some (SetObj ob) \<and> I (obj_set ob) s' h'"
proof -
  obtain es where es: "iter_left cfg ob (setTypeInitIterator ob) es" "distinct (map ele_str es)" "ele_str ` set es = obj_set ob" "\<forall>e \<in> set es. ele_ok e"
    using setTypeInitIterator_ok [OF h(2)] by blast
  then show ?thesis
    using for_each_ok [of I p ob body cfg "setTypeInitIterator ob" es "{}" s h] step assms(1) h(1) by (auto simp: each_element_def)
qed

lemma empty_intset: "obj_ok cfg (INTSET intsetNew)" "obj_set (INTSET intsetNew) = {}"
proof -
  have "isSdsRepresentableAsLongLong (sdec 0) \<noteq> None" using ll_of_string [of "sdec 0" 0] by (simp add: ll_range_def LLONG_MIN_def LLONG_MAX_def)
  then show "obj_ok cfg (INTSET intsetNew)" "obj_set (INTSET intsetNew) = {}"
    using setTypeCreate_ok(1) [of cfg "sdec 0"] setTypeCreate_ok(2) [of "sdec 0"] by (simp_all add: setTypeCreate_def)
qed

section \<open>Heaps of sets\<close>

text \<open>What an address stands for: nothing, a set of strings, or an object of another type. The strings of the whole
  database are taken from a set \<open>U\<close> of fewer than \<open>2\<^sup>2\<^sup>8 - 1\<close> strings, so that no set outgrows an integer set.\<close>

type_synonym obj_view = "byte list set option"

definition hview :: "obj_heap \<Rightarrow> nat \<rightharpoonup> obj_view" where
  "hview h p = map_option (\<lambda>r. case r of SetObj ob \<Rightarrow> Some (obj_set ob) | OtherObj \<Rightarrow> None) (h p)"

definition universe :: "byte list set \<Rightarrow> bool" where
  "universe U \<longleftrightarrow> finite U \<and> card U < 2 ^ 28 - 1 \<and> min_sds \<notin> U"

definition heap_ok :: "set_cfg \<Rightarrow> byte list set \<Rightarrow> obj_heap \<Rightarrow> bool" where
  "heap_ok cfg U h \<longleftrightarrow> universe U \<and> (\<forall>p ob. h p = Some (SetObj ob) \<longrightarrow> obj_ok cfg ob \<and> obj_set ob \<subseteq> U)"

lemma hview_None [simp]: "hview h p = None \<longleftrightarrow> h p = None"
  by (simp add: hview_def)

lemma hview_Some: "hview h p = Some (Some A) \<longleftrightarrow> (\<exists>ob. h p = Some (SetObj ob) \<and> obj_set ob = A)"
  by (cases "h p") (auto simp: hview_def split: robj.splits)

lemma hview_set [simp]: "hview (h(p \<mapsto> SetObj ob)) = (hview h)(p \<mapsto> Some (obj_set ob))"
  by (auto simp: hview_def)

lemma hview_free [simp]: "hview (h(p := None)) = (hview h)(p := None)"
  by (auto simp: hview_def)

lemma is_set_view: "is_set h p \<longleftrightarrow> (\<exists>A. hview h p = Some (Some A))"
  by (auto simp: is_set_def hview_def split: option.splits robj.splits)

lemma heap_ok_upd: "heap_ok cfg U h \<Longrightarrow> obj_ok cfg ob \<Longrightarrow> obj_set ob \<subseteq> U \<Longrightarrow> heap_ok cfg U (h(p \<mapsto> SetObj ob))"
  by (simp add: heap_ok_def)

lemma heap_okD: "heap_ok cfg U h \<Longrightarrow> h p = Some (SetObj ob) \<Longrightarrow> obj_ok cfg ob \<and> obj_set ob \<subseteq> U"
  by (simp add: heap_ok_def)

lemma heap_ok_free: "heap_ok cfg U h \<Longrightarrow> heap_ok cfg U (h(p := None))"
  by (simp add: heap_ok_def)

lemma universe_card: "universe U \<Longrightarrow> A \<subseteq> U \<Longrightarrow> finite A \<and> card A < 2 ^ 28 - 1"
  using finite_subset [of A U] card_mono [of U A] by (auto simp: universe_def)

lemma hview_subset: "heap_ok cfg U h \<Longrightarrow> hview h p = Some (Some A) \<Longrightarrow> A \<subseteq> U"
  by (auto simp: heap_ok_def hview_Some)

lemma size_at_view: "heap_ok cfg U h \<Longrightarrow> hview h p = Some (Some A) \<Longrightarrow> size_at h p = card A"
  using setTypeSize_card [of cfg] by (auto simp: size_at_def hview_Some heap_ok_def)

lemma on_set_add:
  assumes h: "heap_ok cfg U h" "hview h p = Some (Some A)" and x: "x \<in> U"
  shows "\<exists>h'. on_set h p (\<lambda>ob. setTypeAdd cfg ob x) = Inr (x \<notin> A, h') \<and> heap_ok cfg U h' \<and>
    hview h' = (hview h)(p \<mapsto> Some (insert x A)) \<and> (\<forall>q. q \<noteq> p \<longrightarrow> h' q = h q)"
proof -
  obtain ob where ob: "h p = Some (SetObj ob)" "obj_set ob = A" "obj_ok cfg ob" "A \<subseteq> U" using h by (auto simp: hview_Some heap_ok_def)
  have "x \<noteq> min_sds" "card (obj_set ob) < 2 ^ 28 - 1" using x h(1) universe_card [of U A] ob by (auto simp: heap_ok_def universe_def)
  then obtain ob' where "setTypeAdd cfg ob x = Inr (x \<notin> A, ob')" "obj_ok cfg ob'" "obj_set ob' = insert x A"
    using setTypeAdd_ok [OF ob(3), of x] ob(2) by auto
  then show ?thesis using ob h(1) x by (auto simp: on_set_def intro!: heap_ok_upd)
qed

lemma on_set_remove:
  assumes h: "heap_ok cfg U h" "hview h p = Some (Some A)"
  shows "\<exists>h'. on_set h p (\<lambda>ob. setTypeRemove cfg ob x) = Inr (x \<in> A, h') \<and> heap_ok cfg U h' \<and>
    hview h' = (hview h)(p \<mapsto> Some (A - {x})) \<and> (\<forall>q. q \<noteq> p \<longrightarrow> h' q = h q)"
proof -
  obtain ob where ob: "h p = Some (SetObj ob)" "obj_set ob = A" "obj_ok cfg ob" "A \<subseteq> U" using h by (auto simp: hview_Some heap_ok_def)
  then obtain ob' where "setTypeRemove cfg ob x = Inr (x \<in> A, ob')" "obj_ok cfg ob'" "obj_set ob' = A - {x}"
    using setTypeRemove_ok [OF ob(3), of x] by auto
  then show ?thesis using ob h(1) by (auto simp: on_set_def intro!: heap_ok_upd)
qed

lemma on_set_member:
  assumes h: "heap_ok cfg U h" "hview h p = Some (Some A)"
  shows "\<exists>h'. on_set h p (\<lambda>ob. setTypeIsMember cfg ob x) = Inr (x \<in> A, h') \<and> heap_ok cfg U h' \<and>
    hview h' = hview h \<and> (\<forall>q. q \<noteq> p \<longrightarrow> h' q = h q)"
proof -
  obtain ob where ob: "h p = Some (SetObj ob)" "obj_set ob = A" "obj_ok cfg ob" "A \<subseteq> U" using h by (auto simp: hview_Some heap_ok_def)
  then obtain ob' where "setTypeIsMember cfg ob x = Inr (x \<in> A, ob')" "obj_ok cfg ob'" "obj_set ob' = A"
    using setTypeIsMember_ok [OF ob(3), of x] by auto
  then show ?thesis using ob h by (auto simp: on_set_def intro!: heap_ok_upd)
qed

section \<open>Databases of sets\<close>

text \<open>
  The key space as a map from keys to what they stand for. In a well-formed database different keys have different
  objects, and the objects of the heap are those of the keys and the temporary ones in \<open>X\<close>; in a
  database between two commands there are no temporary objects and no empty sets.
\<close>

definition db_view :: "sdb \<Rightarrow> byte list \<rightharpoonup> obj_view" where
  "db_view S k = Option.bind (keys S k) (hview (objs S))"

definition db_wf :: "set_cfg \<Rightarrow> byte list set \<Rightarrow> nat set \<Rightarrow> sdb \<Rightarrow> bool" where
  "db_wf cfg U X S \<longleftrightarrow> heap_ok cfg U (objs S) \<and> inj_on (keys S) (dom (keys S)) \<and> ran (keys S) \<inter> X = {} \<and>
     dom (objs S) = ran (keys S) \<union> X \<and> finite (dom (objs S))"

definition db_ok :: "set_cfg \<Rightarrow> byte list set \<Rightarrow> sdb \<Rightarrow> bool" where
  "db_ok cfg U S \<longleftrightarrow> db_wf cfg U {} S \<and> (\<forall>k. db_view S k \<noteq> Some (Some {}))"

lemma db_wf_key: "db_wf cfg U X S \<Longrightarrow> keys S k = Some p \<Longrightarrow> keys S k' = Some p \<longleftrightarrow> k' = k"
  by (auto simp: db_wf_def inj_on_def dom_def)

lemma db_wf_live: "db_wf cfg U X S \<Longrightarrow> keys S k = Some p \<Longrightarrow> p \<in> dom (objs S) \<and> p \<notin> X"
  by (auto simp: db_wf_def ran_def)

lemma db_view_key: "keys S k = Some p \<Longrightarrow> db_view S k = hview (objs S) p"
  by (simp add: db_view_def)

lemma db_view_None: "db_wf cfg U X S \<Longrightarrow> db_view S k = None \<longleftrightarrow> keys S k = None"
  using db_wf_live [of cfg U X S k] by (cases "keys S k") (auto simp: db_view_def)

lemma hview_dom: "dom (hview h) = dom h"
  by (auto simp: dom_def hview_def)

lemma db_set:
  assumes "db_wf cfg U X S" "keys S k = Some p" "heap_ok cfg U h" "hview h = (hview (objs S))(p \<mapsto> v)"
  shows "db_wf cfg U X (S\<lparr>objs := h\<rparr>)" "db_view (S\<lparr>objs := h\<rparr>) = (db_view S)(k \<mapsto> v)"
proof -
  have "dom h = dom (objs S)" using assms db_wf_live [OF assms(1,2)] hview_dom [of h] hview_dom [of "objs S"] by auto
  then show "db_wf cfg U X (S\<lparr>objs := h\<rparr>)" using assms by (auto simp: db_wf_def)
  show "db_view (S\<lparr>objs := h\<rparr>) = (db_view S)(k \<mapsto> v)"
  proof
    fix k'
    show "db_view (S\<lparr>objs := h\<rparr>) k' = ((db_view S)(k \<mapsto> v)) k'"
      using assms(2,4) db_wf_key [OF assms(1,2), of k'] by (cases "keys S k'") (auto simp: db_view_def)
  qed
qed

lemma db_same:
  assumes "db_wf cfg U X S" "heap_ok cfg U h" "hview h = hview (objs S)"
  shows "db_wf cfg U X (S\<lparr>objs := h\<rparr>)" "db_view (S\<lparr>objs := h\<rparr>) = db_view S"
  using assms hview_dom [of h] hview_dom [of "objs S"] by (auto simp: db_wf_def db_view_def)

lemma db_new:
  assumes "db_wf cfg U X S" "objs S q = None" "obj_ok cfg ob" "obj_set ob \<subseteq> U"
  shows "db_wf cfg U (insert q X) (S\<lparr>objs := (objs S)(q \<mapsto> SetObj ob)\<rparr>)" "db_view (S\<lparr>objs := (objs S)(q \<mapsto> SetObj ob)\<rparr>) = db_view S"
proof -
  have "q \<notin> ran (keys S)" using assms(1,2) by (auto simp: db_wf_def)
  then show "db_wf cfg U (insert q X) (S\<lparr>objs := (objs S)(q \<mapsto> SetObj ob)\<rparr>)" "db_view (S\<lparr>objs := (objs S)(q \<mapsto> SetObj ob)\<rparr>) = db_view S"
    using assms by (auto simp: db_wf_def db_view_def fun_eq_iff ran_def intro!: heap_ok_upd split: Option.bind_splits)
qed

lemma db_temp:
  assumes "db_wf cfg U (insert q X) S" "q \<notin> X" "heap_ok cfg U h" "hview h = (hview (objs S))(q \<mapsto> v)"
  shows "db_wf cfg U (insert q X) (S\<lparr>objs := h\<rparr>)" "db_view (S\<lparr>objs := h\<rparr>) = db_view S"
proof -
  have q: "q \<notin> ran (keys S)" using assms(1) by (auto simp: db_wf_def)
  have "dom h = dom (objs S)" using assms hview_dom [of h] hview_dom [of "objs S"] by (auto simp: db_wf_def)
  then show "db_wf cfg U (insert q X) (S\<lparr>objs := h\<rparr>)" "db_view (S\<lparr>objs := h\<rparr>) = db_view S"
    using assms q by (auto simp: db_wf_def db_view_def fun_eq_iff ran_def split: Option.bind_splits)
qed

lemma db_free:
  assumes "db_wf cfg U (insert q X) S" "q \<notin> X"
  shows "db_wf cfg U X (S\<lparr>objs := (objs S)(q := None)\<rparr>)" "db_view (S\<lparr>objs := (objs S)(q := None)\<rparr>) = db_view S"
proof -
  have q: "q \<notin> ran (keys S)" using assms(1) by (auto simp: db_wf_def)
  then show "db_wf cfg U X (S\<lparr>objs := (objs S)(q := None)\<rparr>)" "db_view (S\<lparr>objs := (objs S)(q := None)\<rparr>) = db_view S"
    using assms by (auto simp: db_wf_def db_view_def fun_eq_iff ran_def intro!: heap_ok_free split: Option.bind_splits)
qed

lemma dbAdd_ok:
  assumes "db_wf cfg U (insert q X) S" "q \<notin> X" "db_view S k = None"
  shows "dbAdd S k q = Inr (S\<lparr>keys := (keys S)(k \<mapsto> q)\<rparr>)" "db_wf cfg U X (S\<lparr>keys := (keys S)(k \<mapsto> q)\<rparr>)"
    "db_view (S\<lparr>keys := (keys S)(k \<mapsto> q)\<rparr>) = (db_view S)(k := hview (objs S) q)"
proof -
  have k: "keys S k = None" using db_view_None [OF assms(1)] assms(3) by simp
  have q: "q \<notin> ran (keys S)" using assms(1) by (auto simp: db_wf_def)
  have "inj_on ((keys S)(k \<mapsto> q)) (dom ((keys S)(k \<mapsto> q)))"
    using assms(1) q by (auto simp: db_wf_def inj_on_def dom_def ran_def)
  then show "db_wf cfg U X (S\<lparr>keys := (keys S)(k \<mapsto> q)\<rparr>)" using assms(1,2) k q by (auto simp: db_wf_def)
  show "dbAdd S k q = Inr (S\<lparr>keys := (keys S)(k \<mapsto> q)\<rparr>)" using k by (simp add: dbAdd_def)
  show "db_view (S\<lparr>keys := (keys S)(k \<mapsto> q)\<rparr>) = (db_view S)(k := hview (objs S) q)" by (auto simp: db_view_def)
qed

lemma dbDelete_ok:
  assumes "db_wf cfg U X S"
  shows "fst (dbDelete S k) \<longleftrightarrow> db_view S k \<noteq> None" "db_wf cfg U X (snd (dbDelete S k))"
    "db_view (snd (dbDelete S k)) = (db_view S)(k := None)" "\<And>q. q \<in> X \<Longrightarrow> objs (snd (dbDelete S k)) q = objs S q"
    "dirty (snd (dbDelete S k)) = dirty S"
proof -
  show "fst (dbDelete S k) \<longleftrightarrow> db_view S k \<noteq> None" using db_view_None [OF assms] by (auto simp: dbDelete_def split: option.splits)
  show "dirty (snd (dbDelete S k)) = dirty S" by (simp add: dbDelete_def split: option.splits)
  show "objs (snd (dbDelete S k)) q = objs S q" if "q \<in> X" for q
    using that db_wf_live [OF assms, of k] by (auto simp: dbDelete_def split: option.splits)
  have "db_wf cfg U X (snd (dbDelete S k)) \<and> db_view (snd (dbDelete S k)) = (db_view S)(k := None)"
  proof (cases "keys S k")
    case None
    then show ?thesis using assms by (auto simp: dbDelete_def db_view_def)
  next
    case (Some p)
    have r: "ran ((keys S)(k := None)) = ran (keys S) - {p}"
    proof (rule set_eqI)
      fix x
      show "x \<in> ran ((keys S)(k := None)) \<longleftrightarrow> x \<in> ran (keys S) - {p}"
        unfolding ran_def using db_wf_key [OF assms Some] Some by simp (metis option.inject)
    qed
    have "inj_on ((keys S)(k := None)) (dom ((keys S)(k := None)))" using assms by (auto simp: db_wf_def inj_on_def)
    then have "db_wf cfg U X (snd (dbDelete S k))"
      unfolding db_wf_def dbDelete_def Some using assms r db_wf_live [OF assms Some] by (auto simp: db_wf_def heap_ok_free)
    moreover have "db_view (snd (dbDelete S k)) = (db_view S)(k := None)"
    proof
      fix k'
      show "db_view (snd (dbDelete S k)) k' = ((db_view S)(k := None)) k'"
        using Some db_wf_key [OF assms Some, of k'] by (cases "keys S k'") (auto simp: dbDelete_def db_view_def)
    qed
    ultimately show ?thesis by simp
  qed
  then show "db_wf cfg U X (snd (dbDelete S k))" "db_view (snd (dbDelete S k)) = (db_view S)(k := None)" by simp_all
qed

end
