(* ===== verification/SetAlgebra.thy ===== *)
theory SetAlgebra
  imports SetCommands
begin

text \<open>
  The commands on sets compute the algebra of sets: what each command promises on the map from keys to sets, and the proof that
  the commands of \<open>SetCommands\<close> keep the promise, by the invariants of their loops. A difference is the same by either of
  the two algorithms, and an intersection whatever the order of the sets.
\<close>

section \<open>What the commands promise\<close>

text \<open>A command, with the destination of its storing variant where it has one.\<close>

datatype scmd =
    SADD "byte list" "byte list list"
  | SREM "byte list" "byte list list"
  | SMOVE "byte list" "byte list" "byte list"
  | SISMEMBER "byte list" "byte list"
  | SCARD "byte list"
  | SINTER "byte list list" "byte list option"
  | SUNION "byte list list" "byte list option"
  | SDIFF "byte list list" "byte list option"

datatype sreply = SInt int | SSet "byte list set" | SWrong

type_synonym db_map = "byte list \<rightharpoonup> obj_view"

definition set_of :: "obj_view option \<Rightarrow> byte list set" where
  "set_of v = (case v of Some (Some A) \<Rightarrow> A | _ \<Rightarrow> {})"

text \<open>A key never holds an empty set.\<close>

definition put :: "db_map \<Rightarrow> byte list \<Rightarrow> byte list set \<Rightarrow> db_map" where
  "put V k A = V(k := if A = {} then None else Some (Some A))"

definition result_to :: "db_map \<Rightarrow> byte list option \<Rightarrow> byte list set \<Rightarrow> sreply \<times> db_map" where
  "result_to V dst A = (case dst of None \<Rightarrow> (SSet A, V) | Some k \<Rightarrow> (SInt (int (card A)), put V k A))"

text \<open>An intersection looks at the keys in order: the first that is absent or not a set decides.\<close>

fun spec_cmd :: "scmd \<Rightarrow> db_map \<Rightarrow> sreply \<times> db_map" where
  "spec_cmd (SADD k vs) V =
     (if V k = Some None then (SWrong, V)
      else (SInt (int (card (set vs - set_of (V k)))), put V k (set_of (V k) \<union> set vs)))"
| "spec_cmd (SREM k vs) V =
     (if V k = Some None then (SWrong, V)
      else (SInt (int (card (set vs \<inter> set_of (V k)))), put V k (set_of (V k) - set vs)))"
| "spec_cmd (SMOVE s d x) V =
     (if V s = None then (SInt 0, V)
      else if V s = Some None \<or> V d = Some None then (SWrong, V)
      else if x \<notin> set_of (V s) then (SInt 0, V)
      else if s = d then (SInt 1, V)
      else (SInt 1, put (put V s (set_of (V s) - {x})) d (insert x (set_of (V d)))))"
| "spec_cmd (SISMEMBER k x) V = (if V k = Some None then (SWrong, V) else (SInt (if x \<in> set_of (V k) then 1 else 0), V))"
| "spec_cmd (SCARD k) V = (if V k = Some None then (SWrong, V) else (SInt (int (card (set_of (V k)))), V))"
| "spec_cmd (SINTER ks dst) V =
     (case dropWhile (\<lambda>k. V k \<noteq> None \<and> V k \<noteq> Some None) ks of
        [] \<Rightarrow> result_to V dst (\<Inter>k \<in> set ks. set_of (V k))
      | k # _ \<Rightarrow> if V k = None then result_to V dst {} else (SWrong, V))"
| "spec_cmd (SUNION ks dst) V =
     (if \<exists>k \<in> set ks. V k = Some None then (SWrong, V) else result_to V dst (\<Union>k \<in> set ks. set_of (V k)))"
| "spec_cmd (SDIFF ks dst) V =
     (if \<exists>k \<in> set ks. V k = Some None then (SWrong, V)
      else result_to V dst (set_of (V (hd ks)) - (\<Union>k \<in> set (tl ks). set_of (V k))))"

text \<open>A bulk reply announces the number of its elements and gives each element of the set once.\<close>

fun reply_ok :: "reply \<Rightarrow> sreply \<Rightarrow> bool" where
  "reply_ok (RInt n) (SInt m) \<longleftrightarrow> n = m"
| "reply_ok (RBulks n els) (SSet A) \<longleftrightarrow> n = int (length els) \<and> distinct els \<and> set els = A"
| "reply_ok RWrongType SWrong \<longleftrightarrow> True"
| "reply_ok _ _ \<longleftrightarrow> False"

definition set_command :: "set_cfg \<Rightarrow> nat \<Rightarrow> scmd \<Rightarrow> sdb \<Rightarrow> (reply \<times> sdb) cres option" where
  "set_command cfg new c S =
     (case c of
        SADD k vs \<Rightarrow> Some (saddCommand cfg new S k vs)
      | SREM k vs \<Rightarrow> Some (sremCommand cfg S k vs)
      | SMOVE s d x \<Rightarrow> Some (smoveCommand cfg new S s d x)
      | SISMEMBER k x \<Rightarrow> Some (sismemberCommand cfg S k x)
      | SCARD k \<Rightarrow> Some (Inr (scardCommand S k, S))
      | SINTER ks dst \<Rightarrow> sinterGenericCommand cfg new S ks dst
      | SUNION ks dst \<Rightarrow> sunionDiffGenericCommand cfg new S ks dst SET_OP_UNION
      | SDIFF ks dst \<Rightarrow> sunionDiffGenericCommand cfg new S ks dst SET_OP_DIFF)"

text \<open>The arguments: every command needs those that its arity asks for, and strings to add come from \<open>U\<close>.\<close>

fun cmd_ok :: "byte list set \<Rightarrow> scmd \<Rightarrow> bool" where
  "cmd_ok U (SADD k vs) \<longleftrightarrow> vs \<noteq> [] \<and> set vs \<subseteq> U"
| "cmd_ok U (SINTER ks dst) \<longleftrightarrow> ks \<noteq> []"
| "cmd_ok U (SUNION ks dst) \<longleftrightarrow> ks \<noteq> []"
| "cmd_ok U (SDIFF ks dst) \<longleftrightarrow> ks \<noteq> []"
| "cmd_ok U _ \<longleftrightarrow> True"

text \<open>Sequences of commands; the allocator chooses the address of the object that a command may create.\<close>

fun run_commands :: "set_cfg \<Rightarrow> (obj_heap \<Rightarrow> nat) \<Rightarrow> scmd list \<Rightarrow> sdb \<Rightarrow> (reply list \<times> sdb) cres option" where
  "run_commands cfg alloc [] S = Some (Inr ([], S))"
| "run_commands cfg alloc (c # cs) S =
     obind (set_command cfg (alloc (objs S)) c S) (\<lambda>(r, S).
     obind (run_commands cfg alloc cs S) (\<lambda>(rs, S). Some (Inr (r # rs, S))))"

fun spec_commands :: "scmd list \<Rightarrow> db_map \<Rightarrow> sreply list \<times> db_map" where
  "spec_commands [] V = ([], V)"
| "spec_commands (c # cs) V = (case spec_cmd c V of (r, V) \<Rightarrow> case spec_commands cs V of (rs, V) \<Rightarrow> (r # rs, V))"

text \<open>The outcome of a command on a database: the reply and the map are right, the database is well formed, and a change of the map
  is counted, so that it is replicated and saved.\<close>

definition right :: "set_cfg \<Rightarrow> byte list set \<Rightarrow> scmd \<Rightarrow> sdb \<Rightarrow> reply \<Rightarrow> sdb \<Rightarrow> bool" where
  "right cfg U c S r S' \<longleftrightarrow> db_ok cfg U S' \<and> reply_ok r (fst (spec_cmd c (db_view S))) \<and> db_view S' = snd (spec_cmd c (db_view S)) \<and>
     dirty S \<le> dirty S' \<and> (db_view S' \<noteq> db_view S \<longrightarrow> dirty S < dirty S')"

lemma put_nonempty: "(\<forall>k. V k \<noteq> Some (Some {})) \<Longrightarrow> \<forall>k'. put V k A k' \<noteq> Some (Some {})"
  by (simp add: put_def)

lemma put_same: "V k = None \<or> V k = Some (Some A) \<Longrightarrow> put V k (set_of (V k)) = V" if "\<forall>k. V k \<noteq> Some (Some {})"
  using that by (auto simp: put_def set_of_def fun_eq_iff)

lemma db_dirty [simp]: "db_wf cfg U X (S\<lparr>dirty := n\<rparr>) = db_wf cfg U X S" "db_view (S\<lparr>dirty := n\<rparr>) = db_view S"
  by (simp_all add: db_wf_def db_view_def fun_eq_iff)

lemma db_ok_dirty [simp]: "db_ok cfg U (S\<lparr>dirty := n\<rparr>) = db_ok cfg U S"
  by (simp add: db_ok_def)

text \<open>The set under a key, or the reasons why there is none.\<close>

lemma db_key_cases [consumes 1, case_names absent other found]:
  assumes "db_ok cfg U S"
  obtains (absent) "keys S k = None" "db_view S k = None"
    | (other) p where "keys S k = Some p" "db_view S k = Some None" "\<not> is_set (objs S) p" "hview (objs S) p = Some None"
    | (found) p A where "keys S k = Some p" "db_view S k = Some (Some A)" "is_set (objs S) p" "hview (objs S) p = Some (Some A)" "A \<noteq> {}"
proof (cases "keys S k")
  case None
  then show ?thesis using absent by (simp add: db_view_def)
next
  case (Some p)
  have wf: "db_wf cfg U {} S" using assms by (simp add: db_ok_def)
  have v: "db_view S k = hview (objs S) p" using Some by (rule db_view_key)
  have "hview (objs S) p \<noteq> None" using db_wf_live [OF wf Some] by auto
  then obtain w where w: "hview (objs S) p = Some w" by blast
  show ?thesis
  proof (cases w)
    case None
    then show ?thesis using other [OF Some] v w by (simp add: is_set_view)
  next
    case (Some A)
    then show ?thesis using found [OF \<open>keys S k = Some p\<close>, of A] v w assms by (auto simp: is_set_view db_ok_def)
  qed
qed

section \<open>Commands on one set are right\<close>

lemma add_all_ok:
  assumes "heap_ok cfg U h" "hview h p = Some (Some A)" "set vs \<subseteq> U"
  shows "\<exists>h'. add_all cfg p vs n h = Inr (n + int (card (set vs - A)), h') \<and> heap_ok cfg U h' \<and>
    hview h' = (hview h)(p \<mapsto> Some (A \<union> set vs))"
  using assms
proof (induction vs arbitrary: n h A)
  case Nil
  then show ?case by (auto simp: fun_eq_iff)
next
  case (Cons v vs)
  obtain h1 where h1: "on_set h p (\<lambda>ob. setTypeAdd cfg ob v) = Inr (v \<notin> A, h1)" "heap_ok cfg U h1" "hview h1 = (hview h)(p \<mapsto> Some (insert v A))"
    using on_set_add [OF Cons.prems(1,2), of v] Cons.prems(3) by auto
  have hv: "hview h1 p = Some (Some (insert v A))" by (simp add: h1(3))
  have vU: "set vs \<subseteq> U" using Cons.prems(3) by simp
  obtain h2 where h2: "add_all cfg p vs (if v \<notin> A then n + 1 else n) h1 = Inr ((if v \<notin> A then n + 1 else n) + int (card (set vs - insert v A)), h2)"
      "heap_ok cfg U h2" "hview h2 = (hview h1)(p \<mapsto> Some (insert v A \<union> set vs))"
    using Cons.IH [OF h1(2) hv vU, of "if v \<notin> A then n + 1 else n"] by blast
  have "set (v # vs) - A = (if v \<in> A then set vs - insert v A else insert v (set vs - insert v A))" by auto
  then have "int (card (set (v # vs) - A)) = (if v \<in> A then 0 else 1) + int (card (set vs - insert v A))" by simp
  then show ?case using h1 h2 by (intro exI [of _ h2]) simp
qed

lemma saddCommand_ok:
  assumes ok: "db_ok cfg U S" and new: "objs S new = None" and vs: "set vs \<subseteq> U" "vs \<noteq> []"
  shows "\<exists>r S'. saddCommand cfg new S k vs = Inr (r, S') \<and> right cfg U (SADD k vs) S r S'"
proof -
  have wf: "db_wf cfg U {} S" and ne: "\<forall>k. db_view S k \<noteq> Some (Some {})" using ok by (simp_all add: db_ok_def)
  have main: "\<exists>h. add_all cfg p vs 0 (objs S1) = Inr (int (card (set vs - A)), h) \<and>
      right cfg U (SADD k vs) S (RInt (int (card (set vs - A)))) (S1\<lparr>objs := h, dirty := dirty S1 + int (card (set vs - A))\<rparr>)"
    if S1: "db_wf cfg U {} S1" "keys S1 k = Some p" "hview (objs S1) p = Some (Some A)" "db_view S1 = (db_view S)(k \<mapsto> Some A)"
      "set_of (db_view S k) = A" "db_view S k \<noteq> Some None" "dirty S1 = dirty S" for S1 p A
  proof -
    have "heap_ok cfg U (objs S1)" using S1(1) by (simp add: db_wf_def)
    then obtain h where h: "add_all cfg p vs 0 (objs S1) = Inr (int (card (set vs - A)), h)" "heap_ok cfg U h"
        "hview h = (hview (objs S1))(p \<mapsto> Some (A \<union> set vs))"
      using add_all_ok [of cfg U "objs S1" p A vs 0] S1(3) vs(1) by auto
    have v: "db_view (S1\<lparr>objs := h\<rparr>) = put (db_view S) k (A \<union> set vs)"
      using db_set(2) [OF S1(1,2) h(2,3)] S1(4) vs(2) by (simp add: put_def)
    have "db_view S k = Some (Some A)" if "set vs \<subseteq> A"
      using that vs(2) S1(5) by (auto simp: set_of_def split: option.splits)
    then have "put (db_view S) k (A \<union> set vs) = db_view S" if "set vs - A = {}"
      using that vs(2) by (auto simp: put_def fun_eq_iff sup.absorb1)
    then show ?thesis
      using h(1) db_set(1) [OF S1(1,2) h(2,3)] v put_nonempty [OF ne] S1(5,6,7) by (auto simp: right_def db_ok_def card_gt_0_iff)
  qed
  from ok show ?thesis
  proof (cases rule: db_key_cases [where k = k])
    case absent
    let ?S0 = "S\<lparr>objs := (objs S)(new \<mapsto> SetObj (setTypeCreate (hd vs)))\<rparr>"
    let ?S1 = "?S0\<lparr>keys := (keys ?S0)(k \<mapsto> new)\<rparr>"
    have S0: "db_wf cfg U {new} ?S0" "db_view ?S0 = db_view S"
      using db_new [OF wf new setTypeCreate_ok(1), of "hd vs"] by (simp_all add: setTypeCreate_ok)
    have S1: "dbAdd ?S0 k new = Inr ?S1" "db_wf cfg U {} ?S1" "db_view ?S1 = (db_view S)(k \<mapsto> Some {})"
      using dbAdd_ok [of cfg U new "{}" ?S0 k] S0 absent(2) by (simp_all add: setTypeCreate_ok)
    have "rd vs 0 = Inr (hd vs)" using vs(2) by (simp add: hd_conv_nth)
    then show ?thesis using main [OF S1(2), of new "{}"] S1(1,3) absent by (auto simp: saddCommand_def set_of_def setTypeCreate_ok)
  next
    case other
    then show ?thesis using ok by (simp add: saddCommand_def right_def)
  next
    case (found p A)
    then have "(db_view S)(k \<mapsto> Some A) = db_view S" by (auto simp: fun_eq_iff)
    then show ?thesis using main [OF wf found(1,4)] found by (auto simp: saddCommand_def set_of_def)
  qed
qed

lemma remove_all_ok:
  assumes "db_wf cfg U {} S" "keys S k = Some p" "hview (objs S) p = Some (Some A)" "A \<noteq> {}"
  shows "\<exists>S'. remove_all cfg k p vs n S = Inr (n + int (card (set vs \<inter> A)), S') \<and> db_wf cfg U {} S' \<and>
    db_view S' = put (db_view S) k (A - set vs) \<and> dirty S' = dirty S"
  using assms
proof (induction vs arbitrary: n S A)
  case Nil
  then have "put (db_view S) k A = db_view S" by (auto simp: put_def fun_eq_iff db_view_key)
  then show ?case using Nil by simp
next
  case (Cons v vs)
  have hk: "heap_ok cfg U (objs S)" using Cons.prems(1) by (simp add: db_wf_def)
  obtain h1 where h1: "on_set (objs S) p (\<lambda>ob. setTypeRemove cfg ob v) = Inr (v \<in> A, h1)" "heap_ok cfg U h1"
      "hview h1 = (hview (objs S))(p \<mapsto> Some (A - {v}))"
    using on_set_remove [OF hk Cons.prems(3), of v] by blast
  let ?S = "S\<lparr>objs := h1\<rparr>"
  have S1: "db_wf cfg U {} ?S" "db_view ?S = (db_view S)(k \<mapsto> Some (A - {v}))" using db_set [OF Cons.prems(1,2) h1(2,3)] by simp_all
  have hv: "hview (objs ?S) p = Some (Some (A - {v}))" by (simp add: h1(3))
  have size: "size_at (objs ?S) p = card (A - {v})" using size_at_view [OF _ hv, of cfg U] h1(2) by simp
  have "finite A" using hview_subset [OF hk Cons.prems(3)] hk universe_card [of U A] by (simp add: heap_ok_def)
  show ?case
  proof (cases "A - {v} = {}")
    case True
    then have A: "A = {v}" using Cons.prems(4) by blast
    have "put (db_view S) k (A - set (v # vs)) = (db_view S)(k := None)" by (auto simp: put_def A)
    then show ?thesis using h1(1) size dbDelete_ok [OF S1(1), where k = k] S1(2) by (intro exI [of _ "snd (dbDelete ?S k)"]) (simp add: A Let_def)
  next
    case False
    let ?n = "if v \<in> A then n + 1 else n"
    obtain S' where S': "remove_all cfg k p vs ?n ?S = Inr (?n + int (card (set vs \<inter> (A - {v}))), S')" "db_wf cfg U {} S'"
        "db_view S' = put (db_view ?S) k (A - {v} - set vs)" "dirty S' = dirty ?S"
      using Cons.IH [OF S1(1) _ hv False, of ?n] Cons.prems(2) by auto
    have "set (v # vs) \<inter> A = (if v \<in> A then insert v (set vs \<inter> (A - {v})) else set vs \<inter> (A - {v}))" by auto
    then have c: "int (card (set (v # vs) \<inter> A)) = (if v \<in> A then 1 else 0) + int (card (set vs \<inter> (A - {v})))" by simp
    have "size_at (objs ?S) p \<noteq> 0" unfolding size using False \<open>finite A\<close> by (simp only: card_eq_0_iff) simp
    then have "remove_all cfg k p (v # vs) n S = remove_all cfg k p vs ?n ?S" using h1(1) by (simp add: Let_def)
    moreover have "A - {v} - set vs = A - set (v # vs)" by auto
    then have "put (db_view ?S) k (A - {v} - set vs) = put (db_view S) k (A - set (v # vs))" using S1(2) by (simp add: put_def)
    ultimately show ?thesis using S' c by simp
  qed
qed

lemma sremCommand_ok:
  assumes ok: "db_ok cfg U S"
  shows "\<exists>r S'. sremCommand cfg S k vs = Inr (r, S') \<and> right cfg U (SREM k vs) S r S'"
  using ok
proof (cases rule: db_key_cases [where k = k])
  case absent
  then have "put (db_view S) k {} = db_view S" by (auto simp: put_def fun_eq_iff)
  then show ?thesis using ok absent by (simp add: sremCommand_def right_def set_of_def)
next
  case other
  then show ?thesis using ok by (simp add: sremCommand_def right_def)
next
  case (found p A)
  have wf: "db_wf cfg U {} S" and ne: "\<forall>k. db_view S k \<noteq> Some (Some {})" using ok by (simp_all add: db_ok_def)
  obtain S' where S': "remove_all cfg k p vs 0 S = Inr (int (card (set vs \<inter> A)), S')" "db_wf cfg U {} S'"
      "db_view S' = put (db_view S) k (A - set vs)" "dirty S' = dirty S"
    using remove_all_ok [OF wf found(1,4,5), of vs 0] by auto
  have "put (db_view S) k (A - set vs) = db_view S" if "set vs \<inter> A = {}"
    using that found(2,5) by (auto simp: put_def fun_eq_iff Diff_triv Int_commute)
  then show ?thesis
    using S' found put_nonempty [OF ne] ne by (auto simp: sremCommand_def right_def db_ok_def set_of_def card_gt_0_iff)
qed

lemma sismemberCommand_ok:
  assumes ok: "db_ok cfg U S"
  shows "\<exists>r S'. sismemberCommand cfg S k x = Inr (r, S') \<and> right cfg U (SISMEMBER k x) S r S'"
  using ok
proof (cases rule: db_key_cases [where k = k])
  case (found p A)
  have wf: "db_wf cfg U {} S" using ok by (simp add: db_ok_def)
  then have hk: "heap_ok cfg U (objs S)" by (simp add: db_wf_def)
  obtain h where h: "on_set (objs S) p (\<lambda>ob. setTypeIsMember cfg ob x) = Inr (x \<in> A, h)" "heap_ok cfg U h" "hview h = hview (objs S)"
    using on_set_member [OF hk found(4), of x] by blast
  then show ?thesis using found db_same [OF wf h(2,3)] ok by (auto simp: sismemberCommand_def right_def set_of_def db_ok_def)
qed (use ok in \<open>simp_all add: sismemberCommand_def right_def set_of_def\<close>)

lemma scardCommand_ok:
  assumes ok: "db_ok cfg U S"
  shows "right cfg U (SCARD k) S (scardCommand S k) S"
  using ok
proof (cases rule: db_key_cases [where k = k])
  case (found p A)
  have "size_at (objs S) p = card A" using size_at_view [OF _ found(4), of cfg U] ok by (simp add: db_ok_def db_wf_def)
  then show ?thesis using found ok by (simp add: scardCommand_def right_def set_of_def)
qed (use ok in \<open>simp_all add: scardCommand_def right_def set_of_def\<close>)

text \<open>Removing the key of a set that has become empty, and getting or creating the set to add to.\<close>

lemma drop_empty:
  assumes "db_wf cfg U {} S" "keys S k = Some p" "hview (objs S) p = Some (Some B)"
    and S': "S' = (if size_at (objs S) p = 0 then snd (dbDelete S k) else S)"
  shows "db_wf cfg U {} S'" "db_view S' = put (db_view S) k B" "dirty S' = dirty S"
    "\<forall>k'. k' \<noteq> k \<longrightarrow> keys S' k' = keys S k'" "\<forall>q. objs S q = None \<longrightarrow> objs S' q = None"
proof -
  have hk: "heap_ok cfg U (objs S)" using assms(1) by (simp add: db_wf_def)
  have "finite B" using hview_subset [OF hk assms(3)] hk universe_card [of U B] by (simp add: heap_ok_def)
  then have e: "size_at (objs S) p = 0 \<longleftrightarrow> B = {}" using size_at_view [OF hk assms(3)] by simp
  have v: "(db_view S)(k \<mapsto> Some B) = db_view S" using assms(2,3) by (auto simp: fun_eq_iff db_view_key)
  show "db_wf cfg U {} S'" "db_view S' = put (db_view S) k B" "dirty S' = dirty S"
    "\<forall>k'. k' \<noteq> k \<longrightarrow> keys S' k' = keys S k'" "\<forall>q. objs S q = None \<longrightarrow> objs S' q = None"
    using assms(1) dbDelete_ok [OF assms(1), where k = k] e v unfolding S' by (auto simp: put_def dbDelete_def split: option.splits)
qed

lemma add_to_key:
  assumes wf: "db_wf cfg U {} S" and d: "db_view S d \<noteq> Some None" and new: "objs S new = None" and x: "x \<in> U"
  shows "\<exists>q S' b h. (case keys S d of
      Some q \<Rightarrow> Inr (q, S)
    | None \<Rightarrow> cbind (dbAdd (S\<lparr>objs := (objs S)(new \<mapsto> SetObj (setTypeCreate x))\<rparr>) d new) (\<lambda>S. Inr (new, S))) = Inr (q, S') \<and>
    on_set (objs S') q (\<lambda>ob. setTypeAdd cfg ob x) = Inr (b, h) \<and> db_wf cfg U {} (S'\<lparr>objs := h\<rparr>) \<and>
    db_view (S'\<lparr>objs := h\<rparr>) = put (db_view S) d (insert x (set_of (db_view S d))) \<and> dirty S' = dirty S"
proof -
  let ?get = "case keys S d of Some q \<Rightarrow> Inr (q, S)
    | None \<Rightarrow> cbind (dbAdd (S\<lparr>objs := (objs S)(new \<mapsto> SetObj (setTypeCreate x))\<rparr>) d new) (\<lambda>S. Inr (new, S))"
  have "\<exists>q S'. ?get = Inr (q, S') \<and> db_wf cfg U {} S' \<and> keys S' d = Some q \<and> hview (objs S') q = Some (Some (set_of (db_view S d))) \<and>
      (\<forall>v. (db_view S')(d \<mapsto> v) = (db_view S)(d \<mapsto> v)) \<and> dirty S' = dirty S"
  proof (cases "keys S d")
    case None
    let ?S0 = "S\<lparr>objs := (objs S)(new \<mapsto> SetObj (setTypeCreate x))\<rparr>"
    have S0: "db_wf cfg U {new} ?S0" "db_view ?S0 = db_view S"
      using db_new [OF wf new setTypeCreate_ok(1), of x] by (simp_all add: setTypeCreate_ok)
    have v: "db_view S d = None" using None by (simp add: db_view_def)
    show ?thesis using None dbAdd_ok [OF S0(1), of d] S0(2) v by (simp add: setTypeCreate_ok set_of_def)
  next
    case (Some q)
    then obtain A where "db_view S d = Some (Some A)" using d db_view_None [OF wf, of d] by (cases "db_view S d") auto
    then show ?thesis using Some wf by (simp add: db_view_key [symmetric] set_of_def)
  qed
  then obtain q S' where S': "?get = Inr (q, S')" "db_wf cfg U {} S'" "keys S' d = Some q"
      "hview (objs S') q = Some (Some (set_of (db_view S d)))" "\<forall>v. (db_view S')(d \<mapsto> v) = (db_view S)(d \<mapsto> v)" "dirty S' = dirty S" by blast
  have "heap_ok cfg U (objs S')" using S'(2) by (simp add: db_wf_def)
  from on_set_add [OF this S'(4) x] obtain b h where h: "on_set (objs S') q (\<lambda>ob. setTypeAdd cfg ob x) = Inr (b, h)" "heap_ok cfg U h"
      "hview h = (hview (objs S'))(q \<mapsto> Some (insert x (set_of (db_view S d))))" by blast
  show ?thesis using S' h(1) db_set [OF S'(2,3) h(2,3)] by (simp add: put_def)
qed

lemma smoveCommand_ok:
  assumes ok: "db_ok cfg U S" and new: "objs S new = None"
  shows "\<exists>r S'. smoveCommand cfg new S s d x = Inr (r, S') \<and> right cfg U (SMOVE s d x) S r S'"
  using ok
proof (cases rule: db_key_cases [where k = s])
  case (found p A)
  have wf: "db_wf cfg U {} S" and ne: "\<forall>k. db_view S k \<noteq> Some (Some {})" using ok by (simp_all add: db_ok_def)
  then have hk: "heap_ok cfg U (objs S)" by (simp add: db_wf_def)
  have same_obj: "keys S d = Some p \<longleftrightarrow> d = s" using db_wf_key [OF wf found(1)] .
  show ?thesis
  proof (cases "db_view S d = Some None")
    case True
    obtain q where "keys S d = Some q" "\<not> is_set (objs S) q" using ok True by (cases rule: db_key_cases [where k = d]) auto
    then show ?thesis using found True ok by (simp add: smoveCommand_def right_def)
  next
    case dst: False
    have wrong: "\<not> (case keys S d of None \<Rightarrow> False | Some q \<Rightarrow> \<not> is_set (objs S) q)"
      using ok dst by (cases rule: db_key_cases [where k = d]) auto
    show ?thesis
    proof (cases "d = s")
      case True
      obtain h where h: "on_set (objs S) p (\<lambda>ob. setTypeIsMember cfg ob x) = Inr (x \<in> A, h)" "heap_ok cfg U h" "hview h = hview (objs S)"
        using on_set_member [OF hk found(4), of x] by blast
      then show ?thesis
        using True found db_same [OF wf h(2,3)] ok by (auto simp: smoveCommand_def right_def set_of_def db_ok_def)
    next
      case ds: False
      obtain h where h: "on_set (objs S) p (\<lambda>ob. setTypeRemove cfg ob x) = Inr (x \<in> A, h)" "heap_ok cfg U h"
          "hview h = (hview (objs S))(p \<mapsto> Some (A - {x}))"
        using on_set_remove [OF hk found(4), of x] by blast
      have S1: "db_wf cfg U {} (S\<lparr>objs := h\<rparr>)" "db_view (S\<lparr>objs := h\<rparr>) = (db_view S)(s \<mapsto> Some (A - {x}))"
        using db_set [OF wf found(1) h(2,3)] by simp_all
      show ?thesis
      proof (cases "x \<in> A")
        case False
        then have "(db_view S)(s \<mapsto> Some (A - {x})) = db_view S" using found(2) by (auto simp: fun_eq_iff)
        then show ?thesis using False found wrong same_obj ds dst h(1) S1 ne
          by (simp add: smoveCommand_def right_def set_of_def db_ok_def Let_def)
      next
        case True
        let ?S1 = "S\<lparr>objs := h\<rparr>"
        define S2 where "S2 = (if size_at (objs ?S1) p = 0 then snd (dbDelete ?S1 s) else ?S1)"
        have "new \<noteq> p" using new found(4) hview_None [of "objs S" p] by auto
        then have hn: "h new = None" using h(3) new hview_None [of h new] by simp
        have S2: "db_wf cfg U {} S2" "db_view S2 = put (db_view ?S1) s (A - {x})" "dirty S2 = dirty S" "keys S2 d = keys S d" "objs S2 new = None"
          using drop_empty [OF S1(1) _ _ S2_def, of "A - {x}"] found(1) h(3) ds hn by simp_all
        have v: "put (db_view ?S1) s (A - {x}) = put (db_view S) s (A - {x})" using S1(2) by (simp add: put_def)
        then have d: "db_view S2 d = db_view S d" using S2(2) ds by (simp add: put_def)
        have "x \<in> U" using True hview_subset [OF hk found(4)] by blast
        from add_to_key [OF S2(1) _ S2(5) this, of d] obtain q S3 b h3 where
          S3: "(case keys S2 d of Some q \<Rightarrow> Inr (q, S2)
              | None \<Rightarrow> cbind (dbAdd (S2\<lparr>objs := (objs S2)(new \<mapsto> SetObj (setTypeCreate x))\<rparr>) d new) (\<lambda>S. Inr (new, S))) = Inr (q, S3)"
            "on_set (objs S3) q (\<lambda>ob. setTypeAdd cfg ob x) = Inr (b, h3)" "db_wf cfg U {} (S3\<lparr>objs := h3\<rparr>)"
            "db_view (S3\<lparr>objs := h3\<rparr>) = put (put (db_view S) s (A - {x})) d (insert x (set_of (db_view S d)))" "dirty S3 = dirty S"
          using d dst S2(2,3) v by auto
        have "smoveCommand cfg new S s d x = Inr (RInt 1, S3\<lparr>objs := h3, dirty := dirty S3 + 1 + (if b then 1 else 0)\<rparr>)"
          using found(1,3) wrong same_obj ds h(1) True S2_def [symmetric] S3(1,2) S2(4) by (simp add: smoveCommand_def Let_def cong: option.case_cong)
        then show ?thesis
          using S3(3,4,5) found(2,3) ds dst True put_nonempty [OF put_nonempty [OF ne]] by (simp add: right_def db_ok_def set_of_def)
      qed
    qed
  qed
qed (use ok in \<open>simp_all add: smoveCommand_def right_def\<close>)

section \<open>Intersections are right\<close>

definition set_at :: "obj_heap \<Rightarrow> nat \<Rightarrow> byte list set" where
  "set_at h p = set_of (hview h p)"

lemma in_all_ok:
  assumes "heap_ok cfg U h" "\<forall>p \<in> set ps. is_set h p" "ele_ok e"
  shows "\<exists>h'. in_all cfg p0 ps e h = Inr (\<forall>p \<in> set ps. p \<noteq> p0 \<longrightarrow> ele_str e \<in> set_at h p, h') \<and>
    heap_ok cfg U h' \<and> hview h' = hview h \<and> h' p0 = h p0"
  using assms
proof (induction ps arbitrary: h)
  case Nil
  then show ?case by simp
next
  case (Cons p ps)
  show ?case
  proof (cases "p = p0")
    case True
    then show ?thesis using Cons.IH [of h] Cons.prems by simp
  next
    case False
    obtain A where A: "hview h p = Some (Some A)" using Cons.prems(2) by (auto simp: is_set_view)
    let ?test = "case e of
        IntEle v \<Rightarrow> (case h p of
            Some (SetObj (INTSET is)) \<Rightarrow> cbind (intsetFind is v) (\<lambda>b. Inr (b, h))
          | Some (SetObj (HT d)) \<Rightarrow> cbind (ele_sds cfg e) (\<lambda>s. on_set h p (\<lambda>ob. setTypeIsMember cfg ob s))
          | _ \<Rightarrow> Inl BadPointer)
      | SdsEle s \<Rightarrow> on_set h p (\<lambda>ob. setTypeIsMember cfg ob s)"
    have "\<exists>h1. ?test = Inr (ele_str e \<in> A, h1) \<and> heap_ok cfg U h1 \<and> hview h1 = hview h \<and> (\<forall>q. q \<noteq> p \<longrightarrow> h1 q = h q)"
    proof (cases "\<exists>v is. e = IntEle v \<and> h p = Some (SetObj (INTSET is))")
      case True
      then obtain v "is" where v: "e = IntEle v" "h p = Some (SetObj (INTSET is))" by blast
      then have i: "intset_ok is" "obj_set (INTSET is) = A" and r: "ll_range v"
        using heap_okD [OF Cons.prems(1) v(2)] Cons.prems(3) A by (auto simp: obj_ok_def hview_Some ele_ok_def)
      have "intsetFind is v = Inr (v \<in> elems is)"
        using isi.member_ok [OF i(1)] r by (auto simp: in_width_8 intset_member_def cbind_eq_Inr_iff)
      moreover have "v \<in> elems is \<longleftrightarrow> sdec v \<in> A"
        using i(2) sdec_eq [OF r intset_range [OF i(1)]] by (auto simp: obj_set_def)
      ultimately show ?thesis using v Cons.prems(1) by (simp add: ele_str_def)
    next
      case False
      obtain ob where "h p = Some (SetObj ob)" using A by (auto simp: hview_Some)
      then have "?test = on_set h p (\<lambda>ob. setTypeIsMember cfg ob (ele_str e))"
        using False ele_sds_ok [OF Cons.prems(3), of cfg] by (auto simp: ele_str_def split: set_ele.splits set_obj.splits)
      then show ?thesis using on_set_member [OF Cons.prems(1) A, of "ele_str e"] by simp
    qed
    then obtain h1 where h1: "?test = Inr (ele_str e \<in> A, h1)" "heap_ok cfg U h1" "hview h1 = hview h" "\<forall>q. q \<noteq> p \<longrightarrow> h1 q = h q" by blast
    have "is_set h1 q = is_set h q" "set_at h1 q = set_at h q" for q by (simp_all add: is_set_view set_at_def h1(3))
    then obtain h2 where h2: "in_all cfg p0 ps e h1 = Inr (\<forall>p \<in> set ps. p \<noteq> p0 \<longrightarrow> ele_str e \<in> set_at h p, h2)"
        "heap_ok cfg U h2" "hview h2 = hview h" "h2 p0 = h1 p0"
      using Cons.IH [OF h1(2) _ Cons.prems(3)] Cons.prems(2) h1(3) by auto
    have "set_at h p = A" using A by (simp add: set_at_def set_of_def)
    then show ?thesis using False h1 h2 by simp
  qed
qed

text \<open>The elements that pass, as a reply and as a new set.\<close>

definition common :: "obj_heap \<Rightarrow> nat list \<Rightarrow> byte list set" where
  "common h ps = {x. \<forall>p \<in> set ps. x \<in> set_at h p}"

lemma sinter_reply_ok:
  assumes h: "heap_ok cfg U h" "\<forall>p \<in> set (p0 # ps). is_set h p"
  shows "\<exists>els h'. each_element cfg p0 (sinter_body cfg p0 ps None) ([], 0) h = Some (Inr ((els, int (length els)), h')) \<and>
    heap_ok cfg U h' \<and> hview h' = hview h \<and> distinct els \<and> set els = common h (p0 # ps)"
proof -
  let ?I = "\<lambda>D s h'. heap_ok cfg U h' \<and> hview h' = hview h \<and> snd s = int (length (fst s)) \<and> distinct (fst s) \<and> set (fst s) = D \<inter> common h ps"
  obtain ob where ob: "h p0 = Some (SetObj ob)" using h(2) by (auto simp: is_set_view hview_Some)
  then have o: "obj_ok cfg ob" "set_at h p0 = obj_set ob" using h(1) by (auto simp: heap_ok_def set_at_def hview_def set_of_def)
  have "\<exists>s' h'. each_element cfg p0 (sinter_body cfg p0 ps None) ([], 0) h = Some (Inr (s', h')) \<and> h' p0 = Some (SetObj ob) \<and> ?I (obj_set ob) s' h'"
  proof (rule each_element_ok [where I = ?I])
    fix D e s h1
    assume I: "?I D s h1" and p0: "h1 p0 = Some (SetObj ob)" and e: "ele_ok e" "ele_str e \<notin> D" "ele_str e \<in> obj_set ob"
    have "is_set h1 q = is_set h q" "set_at h1 q = set_at h q" for q using I by (simp_all add: is_set_view set_at_def)
    then obtain h2 where h2: "in_all cfg p0 ps e h1 = Inr (\<forall>p \<in> set ps. p \<noteq> p0 \<longrightarrow> ele_str e \<in> set_at h p, h2)" "heap_ok cfg U h2" "hview h2 = hview h" "h2 p0 = h1 p0"
      using in_all_ok [of cfg U h1 ps e p0] I h(2) e(1) by auto
    moreover have "(\<forall>p \<in> set ps. p \<noteq> p0 \<longrightarrow> ele_str e \<in> set_at h p) \<longleftrightarrow> ele_str e \<in> common h ps"
      using o(2) e(3) by (auto simp: common_def)
    ultimately have "in_all cfg p0 ps e h1 = Inr (ele_str e \<in> common h ps, h2)" by simp
    moreover obtain els where "s = (els, int (length els))" using I by (cases s) simp
    ultimately show "\<exists>s' h'. sinter_body cfg p0 ps None e s h1 = Inr (s', h') \<and> h' p0 = Some (SetObj ob) \<and> ?I (insert (ele_str e) D) s' h'"
      using h2(2,3,4) I p0 e(2) ele_reply_ok [OF e(1), of cfg] by (auto simp: sinter_body_def)
  qed (use h ob o in auto)
  then obtain s' h' where s': "each_element cfg p0 (sinter_body cfg p0 ps None) ([], 0) h = Some (Inr (s', h'))" "?I (obj_set ob) s' h'" by blast
  moreover have "obj_set ob \<inter> common h ps = common h (p0 # ps)" using o(2) by (auto simp: common_def)
  ultimately show ?thesis by (cases s') auto
qed

lemma sinter_store_ok:
  assumes h: "heap_ok cfg U h" "\<forall>p \<in> set (p0 # ps). is_set h p" and new: "hview h q = Some (Some {})" "q \<notin> set (p0 # ps)"
  shows "\<exists>s h'. each_element cfg p0 (sinter_body cfg p0 ps (Some q)) s0 h = Some (Inr (s, h')) \<and>
    heap_ok cfg U h' \<and> hview h' = (hview h)(q \<mapsto> Some (common h (p0 # ps)))"
proof -
  let ?I = "\<lambda>D s h'. heap_ok cfg U h' \<and> hview h' = (hview h)(q \<mapsto> Some (D \<inter> common h ps))"
  obtain ob where ob: "h p0 = Some (SetObj ob)" using h(2) by (auto simp: is_set_view hview_Some)
  then have o: "obj_ok cfg ob" "set_at h p0 = obj_set ob" "obj_set ob \<subseteq> U" using h(1) by (auto simp: heap_ok_def set_at_def hview_def set_of_def)
  have "\<exists>s' h'. each_element cfg p0 (sinter_body cfg p0 ps (Some q)) s0 h = Some (Inr (s', h')) \<and> h' p0 = Some (SetObj ob) \<and> ?I (obj_set ob) s' h'"
  proof (rule each_element_ok [where I = ?I])
    fix D e s h1
    assume I: "?I D s h1" and p0: "h1 p0 = Some (SetObj ob)" and e: "ele_ok e" "ele_str e \<notin> D" "ele_str e \<in> obj_set ob"
    have same: "is_set h1 p = is_set h p" "set_at h1 p = set_at h p" if "p \<in> set (p0 # ps)" for p
      using I that new(2) by (auto simp: is_set_view set_at_def)
    then obtain h2 where h2: "in_all cfg p0 ps e h1 = Inr (\<forall>p \<in> set ps. p \<noteq> p0 \<longrightarrow> ele_str e \<in> set_at h p, h2)" "heap_ok cfg U h2" "hview h2 = hview h1" "h2 p0 = h1 p0"
      using in_all_ok [of cfg U h1 ps e p0] I h(2) e(1) by auto
    have "(\<forall>p \<in> set ps. p \<noteq> p0 \<longrightarrow> ele_str e \<in> set_at h p) \<longleftrightarrow> ele_str e \<in> common h ps"
      using o(2) e(3) by (auto simp: common_def)
    then have c: "in_all cfg p0 ps e h1 = Inr (ele_str e \<in> common h ps, h2)" using h2(1) by simp
    have q: "hview h2 q = Some (Some (D \<inter> common h ps))" using I h2(3) by simp
    have "ele_str e \<in> U" using e(3) o(3) by blast
    from on_set_add [OF h2(2) q this] obtain h3 where h3: "on_set h2 q (\<lambda>ob. setTypeAdd cfg ob (ele_str e)) = Inr (ele_str e \<notin> D \<inter> common h ps, h3)"
        "heap_ok cfg U h3" "hview h3 = (hview h2)(q \<mapsto> Some (insert (ele_str e) (D \<inter> common h ps)))" "\<forall>p. p \<noteq> q \<longrightarrow> h3 p = h2 p" by blast
    show "\<exists>s' h'. sinter_body cfg p0 ps (Some q) e s h1 = Inr (s', h') \<and> h' p0 = Some (SetObj ob) \<and> ?I (insert (ele_str e) D) s' h'"
      using h2(2,3,4) h3 I p0 c new(2) ele_sds_ok [OF e(1), of cfg] by (auto simp: sinter_body_def)
  qed (use h ob o new(1) in \<open>auto simp: fun_eq_iff\<close>)
  moreover have "obj_set ob \<inter> common h ps = common h (p0 # ps)" using o(2) by (auto simp: common_def)
  ultimately show ?thesis by auto
qed

lemma store_result_ok:
  assumes wf: "db_wf cfg U {q} S" and ne: "\<forall>k. db_view S k \<noteq> Some (Some {})" and q: "hview (objs S) q = Some (Some A)"
  shows "\<exists>S'. store_result S k q = Inr (RInt (int (card A)), S') \<and> db_ok cfg U S' \<and> db_view S' = put (db_view S) k A \<and> dirty S' = dirty S + 1"
proof -
  let ?S = "snd (dbDelete S k)"
  have S1: "db_wf cfg U {q} ?S" "db_view ?S = (db_view S)(k := None)" "objs ?S q = objs S q" "dirty ?S = dirty S"
    using dbDelete_ok [OF wf, where k = k] by simp_all
  then have hq: "hview (objs ?S) q = Some (Some A)" using q by (simp add: hview_def)
  have hk: "heap_ok cfg U (objs ?S)" using S1(1) by (simp add: db_wf_def)
  have size: "size_at (objs ?S) q = card A" by (rule size_at_view [OF hk hq])
  have "finite A" using hview_subset [OF hk hq] hk universe_card [of U A] by (simp add: heap_ok_def)
  show ?thesis
  proof (cases "A = {}")
    case True
    then show ?thesis
      using size S1 db_free [OF S1(1)] ne
      by (intro exI [of _ "?S\<lparr>objs := (objs ?S)(q := None), dirty := dirty ?S + 1\<rparr>"]) (simp add: store_result_def Let_def db_ok_def put_def)
  next
    case False
    then have "0 < card A" using \<open>finite A\<close> by (simp add: card_gt_0_iff)
    then show ?thesis
      using False size S1 dbAdd_ok [OF S1(1), of k] ne hq
      by (intro exI [of _ "?S\<lparr>keys := (keys ?S)(k \<mapsto> q), dirty := dirty ?S + 1\<rparr>"]) (simp add: store_result_def Let_def db_ok_def put_def)
  qed
qed

lemma lookup_all_ok:
  assumes ok: "db_ok cfg U S"
  shows "case lookup_all S ks of
      NoKey \<Rightarrow> \<exists>k rest. dropWhile (\<lambda>k. db_view S k \<noteq> None \<and> db_view S k \<noteq> Some None) ks = k # rest \<and> db_view S k = None
    | NoSet \<Rightarrow> \<exists>k rest. dropWhile (\<lambda>k. db_view S k \<noteq> None \<and> db_view S k \<noteq> Some None) ks = k # rest \<and> db_view S k = Some None
    | Sets ps \<Rightarrow> dropWhile (\<lambda>k. db_view S k \<noteq> None \<and> db_view S k \<noteq> Some None) ks = [] \<and> map Some ps = map (keys S) ks \<and>
        (\<forall>p \<in> set ps. is_set (objs S) p)"
proof (induction ks)
  case (Cons k ks)
  from ok Cons show ?case
    by (cases rule: db_key_cases [where k = k]) (auto split: lookup.splits)
qed simp

lemma common_view: "map Some ps = map (keys S) ks \<Longrightarrow> common (objs S) ps = (\<Inter>k \<in> set ks. set_of (db_view S k))"
proof (induction ps arbitrary: ks)
  case (Cons p ps)
  then obtain k ks' where k: "ks = k # ks'" "keys S k = Some p" "map Some ps = map (keys S) ks'" by (cases ks) auto
  have "common (objs S) (p # ps) = set_at (objs S) p \<inter> common (objs S) ps" by (auto simp: common_def)
  then show ?case using Cons.IH [OF k(3)] k(1,2) by (simp add: set_at_def db_view_key)
qed (simp add: common_def)

lemma sinterGenericCommand_ok:
  assumes ok: "db_ok cfg U S" and new: "objs S new = None" and ks: "ks \<noteq> []"
  shows "\<exists>r S'. sinterGenericCommand cfg new S ks dst = Some (Inr (r, S')) \<and> right cfg U (SINTER ks dst) S r S'"
proof -
  have wf: "db_wf cfg U {} S" and ne: "\<forall>k. db_view S k \<noteq> Some (Some {})" using ok by (simp_all add: db_ok_def)
  then have hk: "heap_ok cfg U (objs S)" by (simp add: db_wf_def)
  note look = lookup_all_ok [OF ok, of ks]
  show ?thesis
  proof (cases "lookup_all S ks")
    case NoSet
    then show ?thesis using look ok by (auto simp: sinterGenericCommand_def right_def)
  next
    case NoKey
    note del = dbDelete_ok [OF wf]
    have "put (db_view S) k {} = db_view S" if "db_view S k = None" for k using that by (auto simp: put_def fun_eq_iff)
    moreover have "db_ok cfg U (snd (dbDelete S (the dst)))" using del(2,3) ne by (simp add: db_ok_def)
    moreover obtain b S' where "dbDelete S (the dst) = (b, S')" by fastforce
    ultimately show ?thesis using NoKey look ok del(1,3,5) [of "the dst"]
      by (cases dst) (auto simp: sinterGenericCommand_def right_def result_to_def put_def)
  next
    case (Sets ps)
    then have l: "dropWhile (\<lambda>k. db_view S k \<noteq> None \<and> db_view S k \<noteq> Some None) ks = []" "map Some ps = map (keys S) ks"
        "\<forall>p \<in> set ps. is_set (objs S) p" using look by simp_all
    then have "ps \<noteq> []" using ks by auto
    then have "sort_key (size_at (objs S)) ps \<noteq> []" by (metis length_0_conv length_sort)
    then obtain p0 qs where s: "sort_key (size_at (objs S)) ps = p0 # qs" by (cases "sort_key (size_at (objs S)) ps") auto
    then have set: "set (p0 # qs) = set ps" by (metis set_sort)
    have com: "common (objs S) (p0 # qs) = (\<Inter>k \<in> set ks. set_of (db_view S k))"
      using common_view [OF l(2)] set by (simp add: common_def)
    have sp: "\<forall>p \<in> set (p0 # qs). is_set (objs S) p" using l(3) set by simp
    have spec: "spec_cmd (SINTER ks dst) (db_view S) = result_to (db_view S) dst (common (objs S) (p0 # qs))"
      unfolding spec_cmd.simps l(1) com by simp
    show ?thesis
    proof (cases dst)
      case None
      obtain els h where h: "each_element cfg p0 (sinter_body cfg p0 qs None) ([], 0) (objs S) = Some (Inr ((els, int (length els)), h))"
          "heap_ok cfg U h" "hview h = hview (objs S)" "distinct els" "set els = common (objs S) (p0 # qs)"
        using sinter_reply_ok [OF hk sp] by blast
      then show ?thesis using None Sets s spec db_same [OF wf h(2,3)] ne
        by (simp add: sinterGenericCommand_def obind_def right_def result_to_def db_ok_def del: spec_cmd.simps)
    next
      case (Some k)
      let ?ob = "INTSET intsetNew" and ?h = "(objs S)(new \<mapsto> SetObj (INTSET intsetNew))"
      have ob: "obj_ok cfg ?ob" "obj_set ?ob = {}" using empty_intset by simp_all
      have S1: "db_wf cfg U {new} (S\<lparr>objs := ?h\<rparr>)" "db_view (S\<lparr>objs := ?h\<rparr>) = db_view S" using db_new [OF wf new ob(1)] ob(2) by simp_all
      have nin: "new \<notin> set (p0 # qs)" using sp new by (auto simp: is_set_def)
      then have same: "is_set ?h p = is_set (objs S) p" "set_at ?h p = set_at (objs S) p" if "p \<in> set (p0 # qs)" for p
        using that by (auto simp: is_set_def set_at_def)
      then have com': "common ?h (p0 # qs) = common (objs S) (p0 # qs)" unfolding common_def by blast
      have "heap_ok cfg U ?h" using hk ob by (simp add: heap_ok_upd)
      then obtain out h where h: "each_element cfg p0 (sinter_body cfg p0 qs (Some new)) ([], 0) ?h = Some (Inr (out, h))"
          "heap_ok cfg U h" "hview h = (hview ?h)(new \<mapsto> Some (common ?h (p0 # qs)))"
        using sinter_store_ok [of cfg U ?h p0 qs new "([], 0)"] sp same nin ob(2) by auto
      have S2: "db_wf cfg U {new} (S\<lparr>objs := h\<rparr>)" "db_view (S\<lparr>objs := h\<rparr>) = db_view S"
        using db_temp [OF S1(1) _ h(2)] h(3) S1(2) by simp_all
      obtain S' where "store_result (S\<lparr>objs := h\<rparr>) k new = Inr (RInt (int (card (common ?h (p0 # qs)))), S')" "db_ok cfg U S'"
          "db_view S' = put (db_view (S\<lparr>objs := h\<rparr>)) k (common ?h (p0 # qs))" "dirty S' = dirty (S\<lparr>objs := h\<rparr>) + 1"
        using store_result_ok [OF S2(1), of "common ?h (p0 # qs)" k] S2(2) ne h(3) by auto
      then show ?thesis using Some Sets s spec com' S2(2) h(1)
        by (simp add: sinterGenericCommand_def obind_def right_def result_to_def del: spec_cmd.simps)
    qed
  qed
qed

section \<open>Unions and differences are right\<close>

definition opt_set :: "obj_heap \<Rightarrow> nat option \<Rightarrow> byte list set" where
  "opt_set h p = (case p of None \<Rightarrow> {} | Some p \<Rightarrow> set_at h p)"

lemma opt_set_simps [simp]: "opt_set h None = {}" "opt_set h (Some p) = set_at h p"
  by (simp_all add: opt_set_def)

lemma finite_view: "heap_ok cfg U h \<Longrightarrow> hview h p = Some (Some A) \<Longrightarrow> finite A"
  using hview_subset [of cfg U h p A] universe_card [of U A] by (simp add: heap_ok_def)

lemma set_at_subset: "heap_ok cfg U h \<Longrightarrow> set_at h p \<subseteq> U"
  using hview_subset [of cfg U h p] by (auto simp: set_at_def set_of_def split: option.splits)

text \<open>The loops over one set \<open>p\<close> that build the result at \<open>q\<close>: whatever the body makes of the strings seen so far (\<open>F\<close>), the
  loop makes of the whole set, and the counter is the size of the result.\<close>

lemma build_loop:
  assumes h: "heap_ok cfg U h" "is_set h p" "p \<noteq> q" and start: "hview h q = Some (Some (F {}))"
    and body: "\<And>D e h1. heap_ok cfg U h1 \<Longrightarrow> hview h1 = (hview h)(q \<mapsto> Some (F D)) \<Longrightarrow> ele_ok e \<Longrightarrow> ele_str e \<notin> D \<Longrightarrow> ele_str e \<in> set_at h p \<Longrightarrow>
      \<exists>h2. body e (int (card (F D))) h1 = Inr (int (card (F (insert (ele_str e) D))), h2) \<and> heap_ok cfg U h2 \<and>
        hview h2 = (hview h)(q \<mapsto> Some (F (insert (ele_str e) D))) \<and> h2 p = h1 p"
  shows "\<exists>h'. each_element cfg p body (int (card (F {}))) h = Some (Inr (int (card (F (set_at h p))), h')) \<and> heap_ok cfg U h' \<and>
    hview h' = (hview h)(q \<mapsto> Some (F (set_at h p)))"
proof -
  let ?I = "\<lambda>D s h'. s = int (card (F D)) \<and> heap_ok cfg U h' \<and> hview h' = (hview h)(q \<mapsto> Some (F D))"
  obtain ob where ob: "h p = Some (SetObj ob)" using h(2) by (auto simp: is_set_view hview_Some)
  then have o: "obj_ok cfg ob" "set_at h p = obj_set ob" using heap_okD [OF h(1)] by (auto simp: set_at_def hview_def set_of_def)
  have "\<exists>s' h'. each_element cfg p body (int (card (F {}))) h = Some (Inr (s', h')) \<and> h' p = Some (SetObj ob) \<and> ?I (obj_set ob) s' h'"
  proof (rule each_element_ok [where I = ?I])
    fix D e s h1
    assume I: "?I D s h1" and p: "h1 p = Some (SetObj ob)" and e: "ele_ok e" "ele_str e \<notin> D" "ele_str e \<in> obj_set ob"
    then show "\<exists>s' h'. body e s h1 = Inr (s', h') \<and> h' p = Some (SetObj ob) \<and> ?I (insert (ele_str e) D) s' h'"
      using body [of h1 D e] o(2) by auto
  qed (use h ob o start in \<open>auto simp: fun_eq_iff\<close>)
  then show ?thesis using o(2) by auto
qed

lemma union_loop:
  assumes h: "heap_ok cfg U h" "is_set h p" "p \<noteq> q" "hview h q = Some (Some A)"
  shows "\<exists>h'. each_element cfg p (union_body cfg q) (int (card A)) h = Some (Inr (int (card (A \<union> set_at h p)), h')) \<and> heap_ok cfg U h' \<and>
    hview h' = (hview h)(q \<mapsto> Some (A \<union> set_at h p))"
proof -
  have "\<exists>h'. each_element cfg p (union_body cfg q) (int (card (A \<union> {}))) h = Some (Inr (int (card (A \<union> set_at h p)), h')) \<and> heap_ok cfg U h' \<and>
      hview h' = (hview h)(q \<mapsto> Some (A \<union> set_at h p))"
  proof (rule build_loop [OF h(1-3), where F = "\<lambda>D. A \<union> D"])
    fix D e h1
    assume h1: "heap_ok cfg U h1" "hview h1 = (hview h)(q \<mapsto> Some (A \<union> D))" and e: "ele_ok e" "ele_str e \<notin> D" "ele_str e \<in> set_at h p"
    have q: "hview h1 q = Some (Some (A \<union> D))" by (simp add: h1(2))
    have x: "ele_str e \<in> U" using e(3) set_at_subset [OF h(1)] by blast
    from on_set_add [OF h1(1) q x] obtain h2 where h2: "on_set h1 q (\<lambda>ob. setTypeAdd cfg ob (ele_str e)) = Inr (ele_str e \<notin> A \<union> D, h2)"
        "heap_ok cfg U h2" "hview h2 = (hview h1)(q \<mapsto> Some (insert (ele_str e) (A \<union> D)))" "\<forall>p. p \<noteq> q \<longrightarrow> h2 p = h1 p" by blast
    show "\<exists>h2. union_body cfg q e (int (card (A \<union> D))) h1 = Inr (int (card (A \<union> insert (ele_str e) D)), h2) \<and> heap_ok cfg U h2 \<and>
        hview h2 = (hview h)(q \<mapsto> Some (A \<union> insert (ele_str e) D)) \<and> h2 p = h1 p"
      using h2 h1(2) h(3) e(1) finite_view [OF h1(1) q] by (intro exI [of _ h2]) (auto simp: union_body_def ele_sds_ok insert_absorb)
  qed (use h(4) in simp)
  then show ?thesis by simp
qed

lemma remove_loop:
  assumes h: "heap_ok cfg U h" "is_set h p" "p \<noteq> q" "hview h q = Some (Some A)"
  shows "\<exists>h'. each_element cfg p (remove_body cfg q) (int (card A)) h = Some (Inr (int (card (A - set_at h p)), h')) \<and> heap_ok cfg U h' \<and>
    hview h' = (hview h)(q \<mapsto> Some (A - set_at h p))"
proof -
  have "\<exists>h'. each_element cfg p (remove_body cfg q) (int (card (A - {}))) h = Some (Inr (int (card (A - set_at h p)), h')) \<and> heap_ok cfg U h' \<and>
      hview h' = (hview h)(q \<mapsto> Some (A - set_at h p))"
  proof (rule build_loop [OF h(1-3), where F = "\<lambda>D. A - D"])
    fix D e h1
    assume h1: "heap_ok cfg U h1" "hview h1 = (hview h)(q \<mapsto> Some (A - D))" and e: "ele_ok e" "ele_str e \<notin> D" "ele_str e \<in> set_at h p"
    have q: "hview h1 q = Some (Some (A - D))" by (simp add: h1(2))
    from on_set_remove [OF h1(1) q] obtain h2 where h2: "on_set h1 q (\<lambda>ob. setTypeRemove cfg ob (ele_str e)) = Inr (ele_str e \<in> A - D, h2)"
        "heap_ok cfg U h2" "hview h2 = (hview h1)(q \<mapsto> Some (A - D - {ele_str e}))" "\<forall>p. p \<noteq> q \<longrightarrow> h2 p = h1 p" by blast
    have d: "A - D - {ele_str e} = A - insert (ele_str e) D" by auto
    have "int (card (A - D - {ele_str e})) = (if ele_str e \<in> A - D then int (card (A - D)) - 1 else int (card (A - D)))"
      using card_Suc_Diff1 [OF finite_view [OF h1(1) q], of "ele_str e"] by auto
    then show "\<exists>h2. remove_body cfg q e (int (card (A - D))) h1 = Inr (int (card (A - insert (ele_str e) D)), h2) \<and> heap_ok cfg U h2 \<and>
        hview h2 = (hview h)(q \<mapsto> Some (A - insert (ele_str e) D)) \<and> h2 p = h1 p"
      using h2 h1(2) h(3) e(1) unfolding d by (intro exI [of _ h2]) (auto simp: remove_body_def ele_sds_ok)
  qed (use h(4) in simp)
  then show ?thesis by simp
qed

text \<open>A set that none of the others is at \<open>q\<close> is seen the same after a step on \<open>q\<close>.\<close>

definition others :: "obj_heap \<Rightarrow> nat \<Rightarrow> nat option list \<Rightarrow> bool" where
  "others h q ps \<longleftrightarrow> (\<forall>p. Some p \<in> set ps \<longrightarrow> p \<noteq> q \<and> is_set h p)"

lemma others_upd:
  assumes "hview h' = (hview h)(q \<mapsto> v)"
  shows "others h' q ps = others h q ps" "others h q ps \<Longrightarrow> (\<Union>p \<in> set ps. opt_set h' p) = (\<Union>p \<in> set ps. opt_set h p)"
proof -
  have "set_at h' p = set_at h p" if "p \<noteq> q" for p using that assms by (simp add: set_at_def)
  moreover have "is_set h' p = is_set h p" if "p \<noteq> q" for p using that assms by (simp add: is_set_view)
  ultimately show "others h' q ps = others h q ps" "others h q ps \<Longrightarrow> (\<Union>p \<in> set ps. opt_set h' p) = (\<Union>p \<in> set ps. opt_set h p)"
    by (auto simp: others_def opt_set_def split: option.splits)
qed

lemma union_sets_ok:
  assumes "heap_ok cfg U h" "others h q ps" "hview h q = Some (Some A)"
  shows "\<exists>h'. union_sets cfg q ps (int (card A)) h = Some (Inr (int (card (A \<union> (\<Union>p \<in> set ps. opt_set h p))), h')) \<and> heap_ok cfg U h' \<and>
    hview h' = (hview h)(q \<mapsto> Some (A \<union> (\<Union>p \<in> set ps. opt_set h p)))"
  using assms
proof (induction ps arbitrary: h A)
  case Nil
  then show ?case by (auto simp: fun_eq_iff)
next
  case (Cons p ps)
  show ?case
  proof (cases p)
    case None
    then show ?thesis using Cons.IH [OF Cons.prems(1) _ Cons.prems(3)] Cons.prems(2) by (simp add: others_def)
  next
    case (Some p')
    let ?A = "A \<union> set_at h p'"
    have p': "is_set h p'" "p' \<noteq> q" "others h q ps" using Cons.prems(2) Some by (auto simp: others_def)
    obtain h1 where h1: "each_element cfg p' (union_body cfg q) (int (card A)) h = Some (Inr (int (card ?A), h1))" "heap_ok cfg U h1"
        "hview h1 = (hview h)(q \<mapsto> Some ?A)" using union_loop [OF Cons.prems(1) p'(1,2) Cons.prems(3)] by blast
    note o = others_upd [OF h1(3), of ps]
    have o1: "others h1 q ps" using o(1) p'(3) by simp
    have "hview h1 q = Some (Some ?A)" by (simp add: h1(3))
    from Cons.IH [OF h1(2) o1 this, unfolded o(2) [OF p'(3)]] obtain h2 where h2: "union_sets cfg q ps (int (card ?A)) h1 =
        Some (Inr (int (card (?A \<union> (\<Union>p \<in> set ps. opt_set h p))), h2))" "heap_ok cfg U h2"
        "hview h2 = (hview h1)(q \<mapsto> Some (?A \<union> (\<Union>p \<in> set ps. opt_set h p)))" by blast
    then show ?thesis using Some h1 by (intro exI [of _ h2]) (simp add: obind_def Un_assoc)
  qed
qed

lemma diff2_sets_ok:
  assumes "heap_ok cfg U h" "others h q ps" "hview h q = Some (Some A)"
  shows "\<exists>h'. diff2_sets cfg q ps (int (card A)) h = Some (Inr (int (card (A - (\<Union>p \<in> set ps. opt_set h p))), h')) \<and> heap_ok cfg U h' \<and>
    hview h' = (hview h)(q \<mapsto> Some (A - (\<Union>p \<in> set ps. opt_set h p)))"
  using assms
proof (induction ps arbitrary: h A)
  case Nil
  then show ?case by (auto simp: fun_eq_iff)
next
  case (Cons p ps)
  show ?case
  proof (cases p)
    case None
    then show ?thesis using Cons.IH [OF Cons.prems(1) _ Cons.prems(3)] Cons.prems(2) by (simp add: others_def)
  next
    case (Some p')
    let ?A = "A - set_at h p'"
    have p': "is_set h p'" "p' \<noteq> q" "others h q ps" using Cons.prems(2) Some by (auto simp: others_def)
    obtain h1 where h1: "each_element cfg p' (remove_body cfg q) (int (card A)) h = Some (Inr (int (card ?A), h1))" "heap_ok cfg U h1"
        "hview h1 = (hview h)(q \<mapsto> Some ?A)" using remove_loop [OF Cons.prems(1) p'(1,2) Cons.prems(3)] by blast
    note o = others_upd [OF h1(3), of ps]
    have o1: "others h1 q ps" using o(1) p'(3) by simp
    have q: "hview h1 q = Some (Some ?A)" by (simp add: h1(3))
    have eq: "?A - (\<Union>p \<in> set ps. opt_set h p) = A - (\<Union>p \<in> set (Some p' # ps). opt_set h p)" by auto
    show ?thesis
    proof (cases "card ?A = 0")
      case True
      then have "?A = {}" using finite_view [OF h1(2) q] by simp
      then have "A - (\<Union>p \<in> set (Some p' # ps). opt_set h p) = ?A" using eq by blast
      then show ?thesis unfolding Some using h1 True by (intro exI [of _ h1]) (simp add: obind_def)
    next
      case False
      from Cons.IH [OF h1(2) o1 q, unfolded o(2) [OF p'(3)]] obtain h2 where h2: "diff2_sets cfg q ps (int (card ?A)) h1 =
          Some (Inr (int (card (?A - (\<Union>p \<in> set ps. opt_set h p))), h2))" "heap_ok cfg U h2"
          "hview h2 = (hview h1)(q \<mapsto> Some (?A - (\<Union>p \<in> set ps. opt_set h p)))" by blast
      then show ?thesis unfolding Some eq [symmetric] using h1 False by (intro exI [of _ h2]) (simp add: obind_def)
    qed
  qed
qed

lemma in_any_ok:
  assumes "heap_ok cfg U h" "others h q ps" "s \<in> set_at h p0"
  shows "\<exists>h'. in_any cfg p0 ps s h = Inr (s \<in> (\<Union>p \<in> set ps. opt_set h p), h') \<and> heap_ok cfg U h' \<and> hview h' = hview h \<and> h' p0 = h p0"
  using assms
proof (induction ps arbitrary: h)
  case (Cons p ps)
  show ?case
  proof (cases p)
    case None
    then show ?thesis using Cons.IH [OF Cons.prems(1)] Cons.prems(2,3) by (simp add: others_def)
  next
    case (Some p')
    then obtain A where A: "hview h p' = Some (Some A)" using Cons.prems(2) by (auto simp: others_def is_set_view)
    obtain h1 where h1: "on_set h p' (\<lambda>ob. setTypeIsMember cfg ob s) = Inr (s \<in> A, h1)" "heap_ok cfg U h1" "hview h1 = hview h" "\<forall>q. q \<noteq> p' \<longrightarrow> h1 q = h q"
      using on_set_member [OF Cons.prems(1) A, of s] by blast
    have same: "set_at h1 = set_at h" "others h1 = others h" using h1(3) by (simp_all add: set_at_def others_def is_set_view fun_eq_iff)
    then have "opt_set h1 = opt_set h" by (simp add: opt_set_def fun_eq_iff split: option.split)
    note same = same this
    obtain h2 where h2: "in_any cfg p0 ps s h1 = Inr (s \<in> (\<Union>p \<in> set ps. opt_set h p), h2)" "heap_ok cfg U h2" "hview h2 = hview h1" "h2 p0 = h1 p0"
      using Cons.IH [OF h1(2)] Cons.prems(2,3) same by (auto simp: others_def)
    have "set_at h p' = A" using A by (simp add: set_at_def set_of_def)
    then show ?thesis using Some h1 h2 Cons.prems(1,3) by (cases "p' = p0") auto
  qed
qed simp

lemma diff1_loop:
  assumes h: "heap_ok cfg U h" "others h q (Some p0 # ps)" "hview h q = Some (Some {})"
  shows "\<exists>h'. each_element cfg p0 (diff1_body cfg q p0 ps) 0 h = Some (Inr (int (card (set_at h p0 - (\<Union>p \<in> set ps. opt_set h p))), h')) \<and>
    heap_ok cfg U h' \<and> hview h' = (hview h)(q \<mapsto> Some (set_at h p0 - (\<Union>p \<in> set ps. opt_set h p)))"
proof -
  let ?B = "\<Union>p \<in> set ps. opt_set h p"
  have p0: "is_set h p0" "p0 \<noteq> q" and ps: "others h q ps" using h(2) by (auto simp: others_def)
  have "\<exists>h'. each_element cfg p0 (diff1_body cfg q p0 ps) (int (card ({} - ?B))) h = Some (Inr (int (card (set_at h p0 - ?B)), h')) \<and>
      heap_ok cfg U h' \<and> hview h' = (hview h)(q \<mapsto> Some (set_at h p0 - ?B))"
  proof (rule build_loop [OF h(1) p0, where F = "\<lambda>D. D - ?B"])
    fix D e h1
    assume h1: "heap_ok cfg U h1" "hview h1 = (hview h)(q \<mapsto> Some (D - ?B))" and e: "ele_ok e" "ele_str e \<notin> D" "ele_str e \<in> set_at h p0"
    note o = others_upd [OF h1(2), of ps]
    have s: "ele_str e \<in> set_at h1 p0" using e(3) p0(2) h1(2) by (simp add: set_at_def)
    have "others h1 q ps" using o(1) ps by simp
    from in_any_ok [OF h1(1) this s, unfolded o(2) [OF ps]] obtain h2 where h2: "in_any cfg p0 ps (ele_str e) h1 = Inr (ele_str e \<in> ?B, h2)"
      "heap_ok cfg U h2" "hview h2 = hview h1" "h2 p0 = h1 p0" by blast
    have q: "hview h2 q = Some (Some (D - ?B))" by (simp add: h2(3) h1(2))
    have x: "ele_str e \<in> U" using e(3) set_at_subset [OF h(1)] by blast
    from on_set_add [OF h2(2) q x] obtain h3 where h3: "on_set h2 q (\<lambda>ob. setTypeAdd cfg ob (ele_str e)) = Inr (ele_str e \<notin> D - ?B, h3)"
        "heap_ok cfg U h3" "hview h3 = (hview h2)(q \<mapsto> Some (insert (ele_str e) (D - ?B)))" "\<forall>p. p \<noteq> q \<longrightarrow> h3 p = h2 p" by blast
    have fin: "finite (D - ?B)" by (rule finite_view [OF h2(2) q])
    show "\<exists>h2. diff1_body cfg q p0 ps e (int (card (D - ?B))) h1 = Inr (int (card (insert (ele_str e) D - ?B)), h2) \<and> heap_ok cfg U h2 \<and>
        hview h2 = (hview h)(q \<mapsto> Some (insert (ele_str e) D - ?B)) \<and> h2 p0 = h1 p0"
    proof (cases "ele_str e \<in> ?B")
      case True
      then have "insert (ele_str e) D - ?B = D - ?B" by blast
      then show ?thesis using True h2 h1(2) e(1) by (intro exI [of _ h2]) (simp add: diff1_body_def ele_sds_ok)
    next
      case False
      then have i: "insert (ele_str e) D - ?B = insert (ele_str e) (D - ?B)" by blast
      have "card (insert (ele_str e) (D - ?B)) = card (D - ?B) + 1" using fin e(2) by simp
      then show ?thesis unfolding i using False h2 h3 h1(2) e(1) p0(2) by (intro exI [of _ h3]) (simp add: diff1_body_def ele_sds_ok)
    qed
  qed (use h(3) in simp)
  then show ?thesis by simp
qed

fun op_result :: "set_op_kind \<Rightarrow> ('a \<Rightarrow> byte list set) \<Rightarrow> 'a list \<Rightarrow> byte list set" where
  "op_result SET_OP_UNION f xs = (\<Union>x \<in> set xs. f x)"
| "op_result SET_OP_DIFF f xs = f (hd xs) - (\<Union>x \<in> set (tl xs). f x)"

lemma set_op_work_ok:
  assumes h: "heap_ok cfg U h" "others h q ps" "hview h q = Some (Some {})" "ps \<noteq> []"
  shows "\<exists>h'. set_op_work cfg q kind algo ps h = Some (Inr (int (card (op_result kind (opt_set h) ps)), h')) \<and> heap_ok cfg U h' \<and>
    hview h' = (hview h)(q \<mapsto> Some (op_result kind (opt_set h) ps))"
proof (cases kind)
  case SET_OP_UNION
  then show ?thesis using union_sets_ok [OF h(1-3)] by (simp add: set_op_work_def)
next
  case SET_OP_DIFF
  obtain p qs where ps: "ps = p # qs" using h(4) by (cases ps) auto
  show ?thesis
  proof (cases p)
    case None
    have "(hview h)(q \<mapsto> Some {}) = hview h" using h(3) by (auto simp: fun_eq_iff)
    then show ?thesis using SET_OP_DIFF ps None h(1) by (intro exI [of _ h]) (simp add: set_op_work_def)
  next
    case (Some p0)
    have o: "others h q (Some p0 # qs)" using h(2) ps Some by simp
    then have p0: "is_set h p0" "p0 \<noteq> q" "others h q qs" by (auto simp: others_def)
    show ?thesis
    proof (cases "algo = 1")
      case True
      then show ?thesis using SET_OP_DIFF ps Some diff1_loop [OF h(1) o h(3)] by (simp add: set_op_work_def)
    next
      case False
      obtain h1 where h1: "each_element cfg p0 (union_body cfg q) 0 h = Some (Inr (int (card (set_at h p0)), h1))" "heap_ok cfg U h1"
          "hview h1 = (hview h)(q \<mapsto> Some (set_at h p0))" using union_loop [OF h(1) p0(1,2) h(3)] by auto
      note oq = others_upd [OF h1(3), of qs]
      have q: "hview h1 q = Some (Some (set_at h p0))" by (simp add: h1(3))
      have o1: "others h1 q qs" using oq(1) p0(3) by simp
      obtain h2 where h2: "diff2_sets cfg q qs (int (card (set_at h p0))) h1 =
          Some (Inr (int (card (set_at h p0 - (\<Union>p \<in> set qs. opt_set h p))), h2))" "heap_ok cfg U h2"
          "hview h2 = (hview h1)(q \<mapsto> Some (set_at h p0 - (\<Union>p \<in> set qs. opt_set h p)))"
        using diff2_sets_ok [OF h1(2) o1 q, unfolded oq(2) [OF p0(3)]] by blast
      show ?thesis
      proof (cases "card (set_at h p0) = 0")
        case True
        then have "set_at h p0 = {}" using finite_view [OF h1(2) q] by simp
        then show ?thesis using SET_OP_DIFF ps Some False h1 by (intro exI [of _ h1]) (simp add: set_op_work_def obind_def)
      next
        case ne: False
        then show ?thesis using SET_OP_DIFF ps Some False h1 h2 by (intro exI [of _ h2]) (simp add: set_op_work_def obind_def)
      qed
    qed
  qed
qed

lemma reply_loop:
  assumes h: "heap_ok cfg U h" "hview h q = Some (Some A)"
  shows "\<exists>els h'. each_element cfg q (reply_body cfg) [] h = Some (Inr (els, h')) \<and> heap_ok cfg U h' \<and> hview h' = hview h \<and> distinct els \<and> set els = A"
proof -
  let ?I = "\<lambda>D els h'. heap_ok cfg U h' \<and> hview h' = hview h \<and> distinct els \<and> set els = D"
  obtain ob where ob: "h q = Some (SetObj ob)" "obj_set ob = A" using h(2) by (auto simp: hview_Some)
  have "\<exists>s' h'. each_element cfg q (reply_body cfg) [] h = Some (Inr (s', h')) \<and> h' q = Some (SetObj ob) \<and> ?I (obj_set ob) s' h'"
  proof (rule each_element_ok [where I = ?I])
    fix D e s h1
    assume "?I D s h1" "h1 q = Some (SetObj ob)" "ele_ok e" "ele_str e \<notin> D"
    then show "\<exists>s' h'. reply_body cfg e s h1 = Inr (s', h') \<and> h' q = Some (SetObj ob) \<and> ?I (insert (ele_str e) D) s' h'"
      by (simp add: reply_body_def ele_sds_ok)
  qed (use h ob heap_okD [OF h(1) ob(1)] in auto)
  then show ?thesis using ob(2) by blast
qed

lemma lookup_some_ok:
  assumes ok: "db_ok cfg U S"
  shows "case lookup_some S ks of
      Sets ps \<Rightarrow> ps = map (keys S) ks \<and> (\<forall>k \<in> set ks. db_view S k \<noteq> Some None) \<and> (\<forall>p. Some p \<in> set ps \<longrightarrow> is_set (objs S) p)
    | NoSet \<Rightarrow> \<exists>k \<in> set ks. db_view S k = Some None
    | NoKey \<Rightarrow> False"
proof (induction ks)
  case (Cons k ks)
  from ok Cons show ?case
    by (cases rule: db_key_cases [where k = k]) (auto split: lookup.splits)
qed simp

lemma diff_plan_ok: "\<exists>algo qs. diff_plan h (p # ps) = (algo, p # qs) \<and> set qs = set ps"
  by (cases p) (auto simp: diff_plan_def Let_def)

lemma op_result_perm:
  assumes "(if kind = SET_OP_DIFF then diff_plan h ps else (1, ps)) = (algo, qs)" "ps \<noteq> []"
  shows "set qs = set ps" "qs \<noteq> []" "op_result kind f qs = op_result kind f ps"
proof -
  obtain p ps' where p: "ps = p # ps'" using assms(2) by (cases ps) auto
  obtain algo' qs' where d: "diff_plan h (p # ps') = (algo', p # qs')" "set qs' = set ps'" using diff_plan_ok by blast
  show "set qs = set ps" "qs \<noteq> []" "op_result kind f qs = op_result kind f ps"
    using assms p d by (cases kind; auto)+
qed

lemma sunionDiffGenericCommand_ok:
  assumes ok: "db_ok cfg U S" and new: "objs S new = None" and ks: "ks \<noteq> []"
    and c: "c = (case kind of SET_OP_UNION \<Rightarrow> SUNION ks dst | SET_OP_DIFF \<Rightarrow> SDIFF ks dst)"
  shows "\<exists>r S'. sunionDiffGenericCommand cfg new S ks dst kind = Some (Inr (r, S')) \<and> right cfg U c S r S'"
proof -
  have wf: "db_wf cfg U {} S" and ne: "\<forall>k. db_view S k \<noteq> Some (Some {})" using ok by (simp_all add: db_ok_def)
  then have hk: "heap_ok cfg U (objs S)" by (simp add: db_wf_def)
  note look = lookup_some_ok [OF ok, of ks]
  show ?thesis
  proof (cases "lookup_some S ks")
    case NoKey
    then show ?thesis using look by simp
  next
    case NoSet
    then show ?thesis using look ok c by (cases kind) (auto simp: sunionDiffGenericCommand_def right_def)
  next
    case (Sets ps)
    then have l: "ps = map (keys S) ks" "\<forall>k \<in> set ks. db_view S k \<noteq> Some None" "\<forall>p. Some p \<in> set ps \<longrightarrow> is_set (objs S) p" using look by simp_all
    have ps: "ps \<noteq> []" using l(1) ks by simp
    obtain algo qs where plan: "(if kind = SET_OP_DIFF then diff_plan (objs S) ps else (1, ps)) = (algo, qs)" by fastforce
    note perm = op_result_perm [OF plan ps]
    let ?R = "op_result kind (\<lambda>k. set_of (db_view S k)) ks"
    have spec: "spec_cmd c (db_view S) = result_to (db_view S) dst ?R" using c l(2) by (cases kind) auto
    let ?h = "(objs S)(new \<mapsto> SetObj (INTSET intsetNew))"
    have S1: "db_wf cfg U {new} (S\<lparr>objs := ?h\<rparr>)" "db_view (S\<lparr>objs := ?h\<rparr>) = db_view S"
      using db_new [OF wf new empty_intset(1)] empty_intset(2) by simp_all
    have hk1: "heap_ok cfg U ?h" using hk empty_intset by (simp add: heap_ok_upd)
    have nin: "p \<noteq> new" if "Some p \<in> set ps" for p using that l(3) new by (auto simp: is_set_def)
    then have o: "others ?h new qs" using l(3) perm(1) by (auto simp: others_def is_set_def)
    have q: "hview ?h new = Some (Some {})" by (simp add: empty_intset)
    have "opt_set ?h (keys S k) = set_of (db_view S k)" if "k \<in> set ks" for k
    proof (cases "keys S k")
      case (Some p)
      then have "p \<noteq> new" using nin [of p] that l(1) by (metis image_eqI list.set_map)
      then show ?thesis using Some by (simp add: db_view_key set_at_def)
    qed (simp add: db_view_def set_of_def)
    then have R: "op_result kind (opt_set ?h) qs = ?R" unfolding perm(3) l(1) using ks by (cases kind) (auto simp: hd_map map_tl [symmetric] dest: list.set_sel)
    obtain h where h: "set_op_work cfg new kind algo qs ?h = Some (Inr (int (card ?R), h))" "heap_ok cfg U h" "hview h = (hview ?h)(new \<mapsto> Some ?R)"
      using set_op_work_ok [OF hk1 o q perm(2), of kind algo, unfolded R] by blast
    have S2: "db_wf cfg U {new} (S\<lparr>objs := h\<rparr>)" "db_view (S\<lparr>objs := h\<rparr>) = db_view S"
      using db_temp [OF S1(1) _ h(2)] h(3) S1(2) by simp_all
    have hq: "hview h new = Some (Some ?R)" by (simp add: h(3))
    show ?thesis
    proof (cases dst)
      case None
      obtain els h' where h': "each_element cfg new (reply_body cfg) [] h = Some (Inr (els, h'))" "heap_ok cfg U h'" "hview h' = hview h"
          "distinct els" "set els = ?R" using reply_loop [OF h(2) hq] by blast
      have S3: "db_wf cfg U {new} (S\<lparr>objs := h'\<rparr>)" "db_view (S\<lparr>objs := h'\<rparr>) = db_view S"
        using db_same [OF S2(1) h'(2)] h'(3) S2(2) by simp_all
      have "db_wf cfg U {} (S\<lparr>objs := h'(new := None)\<rparr>)" "db_view (S\<lparr>objs := h'(new := None)\<rparr>) = db_view S"
        using db_free [OF S3(1)] S3(2) by simp_all
      then show ?thesis using None Sets plan spec h(1) h'(1,4,5) ne distinct_card [OF h'(4)]
        by (simp add: sunionDiffGenericCommand_def obind_def right_def result_to_def db_ok_def)
    next
      case (Some k)
      obtain S' where "store_result (S\<lparr>objs := h\<rparr>) k new = Inr (RInt (int (card ?R)), S')" "db_ok cfg U S'"
          "db_view S' = put (db_view (S\<lparr>objs := h\<rparr>)) k ?R" "dirty S' = dirty (S\<lparr>objs := h\<rparr>) + 1"
        using store_result_ok [OF S2(1), of ?R k] S2(2) ne hq by auto
      then show ?thesis using Some Sets plan spec S2(2) h(1)
        by (simp add: sunionDiffGenericCommand_def obind_def right_def result_to_def)
    qed
  qed
qed

section \<open>Properties\<close>

lemma set_command_ok:
  assumes ok: "db_ok cfg U S" and new: "objs S new = None" and args: "cmd_ok U c"
  shows "\<exists>r S'. set_command cfg new c S = Some (Inr (r, S')) \<and> right cfg U c S r S'"
proof (cases c)
  case (SADD k vs)
  then show ?thesis using saddCommand_ok [OF ok new] args by (fastforce simp: set_command_def)
next
  case (SREM k vs)
  then show ?thesis using sremCommand_ok [OF ok] by (fastforce simp: set_command_def)
next
  case (SMOVE s d x)
  then show ?thesis using smoveCommand_ok [OF ok new] by (fastforce simp: set_command_def)
next
  case (SISMEMBER k x)
  then show ?thesis using sismemberCommand_ok [OF ok] by (fastforce simp: set_command_def)
next
  case (SCARD k)
  then show ?thesis using scardCommand_ok [OF ok] by (simp add: set_command_def)
next
  case (SINTER ks dst)
  then show ?thesis using sinterGenericCommand_ok [OF ok new] args by (simp add: set_command_def)
next
  case (SUNION ks dst)
  then show ?thesis using sunionDiffGenericCommand_ok [OF ok new _, where ks = ks and c = c and kind = SET_OP_UNION and dst = dst] args by (simp add: set_command_def)
next
  case (SDIFF ks dst)
  then show ?thesis using sunionDiffGenericCommand_ok [OF ok new _, where ks = ks and c = c and kind = SET_OP_DIFF and dst = dst] args by (simp add: set_command_def)
qed

text \<open>C9: Any sequence of the commands SADD, SREM, SMOVE, SISMEMBER, SCARD, SINTER, SUNION, SDIFF and the storing variants
  SINTERSTORE, SUNIONSTORE, SDIFFSTORE runs without a fault and ends; with an allocator that returns free addresses, it
  gives the replies and the map from keys to sets that the mathematical operations give, whatever the encodings of the sets,
  the order in which dictionaries are iterated over, the algorithm that is chosen for a difference, and when a key is named twice or is also
  the destination. No command leaves an empty set under a key, two keys with one object or an object without a key, and every change of the
  map is counted. The sets hold at most \<open>2\<^sup>2\<^sup>8 - 2\<close> different strings, none of them that of the least 64-bit integer.\<close>

theorem set_commands_refine:
  assumes "\<forall>h. finite (dom h) \<longrightarrow> h (alloc h) = None"
    and "\<forall>c \<in> set cs. cmd_ok U c" and "db_ok cfg U S"
  shows "\<exists>rs S'. run_commands cfg alloc cs S = Some (Inr (rs, S')) \<and> list_all2 reply_ok rs (fst (spec_commands cs (db_view S))) \<and>
    db_view S' = snd (spec_commands cs (db_view S)) \<and> db_ok cfg U S' \<and>
    dirty S \<le> dirty S' \<and> (db_view S' \<noteq> db_view S \<longrightarrow> dirty S < dirty S')"
  using assms(2,3)
proof (induction cs arbitrary: S)
  case (Cons c cs)
  have "finite (dom (objs S))" using Cons.prems(2) unfolding db_ok_def db_wf_def by blast
  then have new: "objs S (alloc (objs S)) = None" using assms(1) by blast
  obtain r S1 where S1: "set_command cfg (alloc (objs S)) c S = Some (Inr (r, S1))" "right cfg U c S r S1"
    using set_command_ok [OF Cons.prems(2) new, of c] Cons.prems(1) by auto
  then have v: "db_ok cfg U S1" "reply_ok r (fst (spec_cmd c (db_view S)))" "db_view S1 = snd (spec_cmd c (db_view S))"
      "dirty S \<le> dirty S1" "db_view S1 \<noteq> db_view S \<longrightarrow> dirty S < dirty S1" by (simp_all add: right_def)
  obtain rs S' where S': "run_commands cfg alloc cs S1 = Some (Inr (rs, S'))" "list_all2 reply_ok rs (fst (spec_commands cs (db_view S1)))"
      "db_view S' = snd (spec_commands cs (db_view S1))" "db_ok cfg U S'" "dirty S1 \<le> dirty S'" "db_view S' \<noteq> db_view S1 \<longrightarrow> dirty S1 < dirty S'"
    using Cons.IH [OF _ v(1)] Cons.prems(1) by auto
  have "db_view S' \<noteq> db_view S \<longrightarrow> dirty S < dirty S'" using v(4,5) S'(5,6) by (cases "db_view S1 = db_view S") auto
  then show ?case using S1(1) v S'
    by (intro exI [of _ "r # rs"] exI [of _ S']) (simp add: obind_def case_prod_beta)
qed simp

definition empty_db :: sdb where
  "empty_db = \<lparr> keys = Map.empty, objs = Map.empty, dirty = 0 \<rparr>"

theorem set_commands_refine_witness:
  "\<exists>rs S'. run_commands small_cfg (\<lambda>h. Suc (Max (insert 0 (dom h)))) [SADD [1] [[7], [8]], SADD [2] [[8]], SDIFF [[1], [2]] (Some [1])] empty_db = Some (Inr (rs, S')) \<and>
     db_view S' = [[2] \<mapsto> Some {[8]}, [1] \<mapsto> Some {[7]}]"
proof -
  have fresh: "h (Suc (Max (insert 0 (dom h)))) = None" if "finite (dom h)" for h :: obj_heap
  proof (rule ccontr)
    assume "h (Suc (Max (insert 0 (dom h)))) \<noteq> None"
    then have "Suc (Max (insert 0 (dom h))) \<le> Max (insert 0 (dom h))" using that by (intro Max_ge) auto
    then show False by simp
  qed
  have "hd (sdec LLONG_MIN) = 45" by (simp add: sdec_def LLONG_MIN_def)
  then have "min_sds \<noteq> [7]" "min_sds \<noteq> [8]" by (auto simp: min_sds_def)
  then have "universe {[7], [8]}" by (auto simp: universe_def)
  then have ok: "db_ok small_cfg {[7], [8]} empty_db" by (simp add: db_ok_def db_wf_def empty_db_def heap_ok_def db_view_def)
  have empty: "db_view empty_db = Map.empty" by (simp add: db_view_def empty_db_def fun_eq_iff)
  let ?cs = "[SADD [1] [[7], [8]], SADD [2] [[8]], SDIFF [[1], [2]] (Some [1])]"
  have spec: "snd (spec_commands ?cs Map.empty) = [[2] \<mapsto> Some {[8]}, [1] \<mapsto> Some {[7]}]"
    by (auto simp: result_to_def put_def set_of_def fun_eq_iff)
  have "\<forall>c \<in> set ?cs. cmd_ok {[7], [8]} c" by simp
  from set_commands_refine [where alloc = "\<lambda>h. Suc (Max (insert 0 (dom h)))", OF _ this ok]
  show ?thesis unfolding empty spec using fresh by blast
qed
end
