(* ===== verification/Zskiplist.thy ===== *)
theory Zskiplist
  imports DictIter SdsFmt "HOL-Library.List_Lexorder" "HOL-Library.Product_Lexorder"
begin

text \<open>
  The skip lists of \<open>t_zset.c\<close>, on which sorted sets are built: nodes in a heap, each with a forward pointer and a span per
  level, the number of nodes that the pointer crosses. Elements are ordered by score and then by string. Scores are
  the values of type \<open>double\<close> without the NaNs, which \<open>zslInsert\<close> excludes by an assertion: any linear order.
\<close>

section \<open>Operations\<close>

record zskiplistLevel =
  z_forward :: "nat option"
  z_span :: nat

record 'a zskiplistNode =
  z_ele :: "byte list option"
  z_score :: 'a
  z_backward :: "nat option"
  z_level :: "zskiplistLevel list"

type_synonym 'a zheap = "nat \<Rightarrow> 'a zskiplistNode option"

record zskiplist =
  header :: nat
  tail :: "nat option"
  zlength :: nat
  zlevel :: nat

definition ZSKIPLIST_MAXLEVEL :: nat where "ZSKIPLIST_MAXLEVEL = 64"

text \<open>Following a pointer, and a level of a node.\<close>

definition zget :: "'a zheap \<Rightarrow> nat \<Rightarrow> 'a zskiplistNode cres" where
  "zget h a = (case h a of None \<Rightarrow> Inl BadPointer | Some n \<Rightarrow> Inr n)"

definition level_at :: "'a zheap \<Rightarrow> nat \<Rightarrow> nat \<Rightarrow> zskiplistLevel cres" where
  "level_at h a i = cbind (zget h a) (\<lambda>n. rd (z_level n) i)"

definition set_level :: "'a zheap \<Rightarrow> nat \<Rightarrow> nat \<Rightarrow> zskiplistLevel \<Rightarrow> 'a zheap cres" where
  "set_level h a i l = cbind (zget h a) (\<lambda>n. cbind (wr (z_level n) i l) (\<lambda>ls. Inr (h(a \<mapsto> n\<lparr>z_level := ls\<rparr>))))"

definition set_backward :: "'a zheap \<Rightarrow> nat \<Rightarrow> nat option \<Rightarrow> 'a zheap cres" where
  "set_backward h a b = cbind (zget h a) (\<lambda>n. Inr (h(a \<mapsto> n\<lparr>z_backward := b\<rparr>)))"

text \<open>Unsigned arithmetic at the widths of \<open>unsigned int\<close> and \<open>unsigned long\<close>.\<close>

definition u32_diff :: "nat \<Rightarrow> nat \<Rightarrow> nat" where
  "u32_diff a b = (a + (2 ^ 32 - b mod 2 ^ 32)) mod 2 ^ 32"

definition ul_diff :: "nat \<Rightarrow> nat \<Rightarrow> nat" where
  "ul_diff a b = (a + (2 ^ 64 - b mod 2 ^ 64)) mod 2 ^ 64"

text \<open>\<open>sdscmp\<close> on the contents of two strings.\<close>

definition str_cmp :: "byte list \<Rightarrow> byte list \<Rightarrow> int" where
  "str_cmp s t =
     (let m = min (length s) (length t); c = memcmp_sgn (take m s) (take m t) in
      if c = 0 then (if length s > length t then 1 else if length s < length t then -1 else 0) else c)"

text \<open>A new node: its levels and its back pointer are not initialised.\<close>

definition zslCreateNode :: "'a zskiplistNode \<Rightarrow> nat \<Rightarrow> 'a \<Rightarrow> byte list option \<Rightarrow> 'a zskiplistNode" where
  "zslCreateNode junk level score ele =
     \<lparr> z_ele = ele, z_score = score, z_backward = z_backward junk,
       z_level = map (\<lambda>i. if i < length (z_level junk) then z_level junk ! i else \<lparr>z_forward = None, z_span = 0\<rparr>) [0..<level] \<rparr>"

definition zslCreate :: "'a zskiplistNode \<Rightarrow> nat \<Rightarrow> 'a \<Rightarrow> 'a zheap \<Rightarrow> zskiplist \<times> 'a zheap" where
  "zslCreate junk new zero h =
     (let n = zslCreateNode junk ZSKIPLIST_MAXLEVEL zero None;
          n = n\<lparr>z_level := replicate ZSKIPLIST_MAXLEVEL \<lparr>z_forward = None, z_span = 0\<rparr>, z_backward := None\<rparr> in
      (\<lparr> header = new, tail = None, zlength = 0, zlevel = 1 \<rparr>, h(new \<mapsto> n)))"

text \<open>
  Freeing: the loop follows the pointers of the lowest level. An element is a value of its node, not a
  heap object of its own: that \<open>sdsfree\<close> releases it with the node, and that \<open>zslUpdateScore\<close> clears
  \<open>x->ele\<close> before freeing a node whose string has moved to another, has no counterpart here.
\<close>

definition zslFreeNode :: "'a zheap \<Rightarrow> nat \<Rightarrow> 'a zheap cres" where
  "zslFreeNode h a = cbind (zget h a) (\<lambda>n. Inr (h(a := None)))"

partial_function (option) free_loop :: "'a zheap \<Rightarrow> nat option \<Rightarrow> 'a zheap cres option" where
  "free_loop h node =
     (case node of
        None \<Rightarrow> Some (Inr h)
      | Some a \<Rightarrow>
          (case level_at h a 0 of
             Inl f \<Rightarrow> Some (Inl f)
           | Inr l \<Rightarrow>
               (case zslFreeNode h a of
                  Inl f \<Rightarrow> Some (Inl f)
                | Inr h \<Rightarrow> free_loop h (z_forward l))))"

definition zslFree :: "zskiplist \<Rightarrow> 'a zheap \<Rightarrow> 'a zheap cres option" where
  "zslFree zsl h =
     obind (Some (level_at h (header zsl) 0)) (\<lambda>l.
     obind (Some (zslFreeNode h (header zsl))) (\<lambda>h. free_loop h (z_forward l)))"

text \<open>The random level: \<open>ZSKIPLIST_P * 0xFFFF\<close> is 16383.75.\<close>

partial_function (option) level_loop :: "nat \<Rightarrow> randoms \<Rightarrow> (nat \<times> randoms) option" where
  "level_loop level r = (case random r of (x, r) \<Rightarrow> if x mod 2 ^ 16 < 16384 then level_loop (level + 1) r else Some (level, r))"

definition zslRandomLevel :: "randoms \<Rightarrow> (nat \<times> randoms) option" where
  "zslRandomLevel r =
     (case level_loop 1 r of
        None \<Rightarrow> None
      | Some (level, r) \<Rightarrow> Some (if level < ZSKIPLIST_MAXLEVEL then level else ZSKIPLIST_MAXLEVEL, r))"

text \<open>
  The search that every operation starts with: at each level from the top, go forward while the next node and the
  number of nodes crossed with it allow. The crossed nodes are counted at the width \<open>w\<close> of the counter. The result has, for each level, the
  node where the search went down and the count there: \<open>update[i]\<close> and \<open>rank[i]\<close>.
\<close>

partial_function (option) walk ::
  "nat \<Rightarrow> ('a zskiplistNode \<Rightarrow> nat \<Rightarrow> bool) \<Rightarrow> 'a zheap \<Rightarrow> nat \<Rightarrow> nat \<Rightarrow> nat \<Rightarrow> (nat \<times> nat) cres option" where
  "walk w go h i x rank =
     (case level_at h x i of
        Inl f \<Rightarrow> Some (Inl f)
      | Inr l \<Rightarrow>
          (case z_forward l of
             None \<Rightarrow> Some (Inr (x, rank))
           | Some y \<Rightarrow>
               (case zget h y of
                  Inl f \<Rightarrow> Some (Inl f)
                | Inr n \<Rightarrow>
                    if go n ((rank + z_span l) mod 2 ^ w) then walk w go h i y ((rank + z_span l) mod 2 ^ w)
                    else Some (Inr (x, rank)))))"

fun descend :: "nat \<Rightarrow> ('a zskiplistNode \<Rightarrow> nat \<Rightarrow> bool) \<Rightarrow> 'a zheap \<Rightarrow> nat \<Rightarrow> nat \<Rightarrow> nat \<Rightarrow> (nat \<times> nat) list cres option" where
  "descend w go h 0 x rank = Some (Inr [])"
| "descend w go h (Suc i) x rank =
     obind (walk w go h i x rank) (\<lambda>(x, rank).
     obind (descend w go h i x rank) (\<lambda>us. Some (Inr (us @ [(x, rank)]))))"

text \<open>The node comes before a score and a string.\<close>

definition before :: "('a :: linorder) \<Rightarrow> byte list \<Rightarrow> 'a zskiplistNode \<Rightarrow> bool" where
  "before score ele n \<longleftrightarrow> z_score n < score \<or> z_score n = score \<and> str_cmp (the (z_ele n)) ele < 0"

text \<open>Insertion: new levels of the header, then the pointers of the levels of the new node, then the spans above them.\<close>

fun grow_levels :: "'a zheap \<Rightarrow> nat \<Rightarrow> nat \<Rightarrow> nat \<Rightarrow> nat \<Rightarrow> 'a zheap cres" where
  "grow_levels h hdr len i 0 = Inr h"
| "grow_levels h hdr len i (Suc n) =
     cbind (level_at h hdr i) (\<lambda>l. cbind (set_level h hdr i (l\<lparr>z_span := len\<rparr>)) (\<lambda>h. grow_levels h hdr len (i + 1) n))"

fun link_levels :: "'a zheap \<Rightarrow> nat \<Rightarrow> nat \<Rightarrow> nat \<Rightarrow> (nat \<times> nat) list \<Rightarrow> 'a zheap cres" where
  "link_levels h x rank0 i [] = Inr h"
| "link_levels h x rank0 i ((u, rank) # us) =
     cbind (level_at h u i) (\<lambda>l.
     cbind (set_level h u i \<lparr>z_forward = Some x, z_span = (u32_diff rank0 rank + 1) mod 2 ^ 32\<rparr>) (\<lambda>h.
     cbind (set_level h x i \<lparr>z_forward = z_forward l, z_span = ul_diff (z_span l) (u32_diff rank0 rank)\<rparr>) (\<lambda>h.
     link_levels h x rank0 (i + 1) us)))"

fun widen_levels :: "'a zheap \<Rightarrow> nat \<Rightarrow> (nat \<times> nat) list \<Rightarrow> 'a zheap cres" where
  "widen_levels h i [] = Inr h"
| "widen_levels h i ((u, rank) # us) =
     cbind (level_at h u i) (\<lambda>l. cbind (set_level h u i (l\<lparr>z_span := (z_span l + 1) mod 2 ^ 64\<rparr>)) (\<lambda>h. widen_levels h (i + 1) us))"

definition zslInsert ::
  "'a zskiplistNode \<Rightarrow> nat \<Rightarrow> zskiplist \<Rightarrow> ('a :: linorder) zheap \<Rightarrow> 'a \<Rightarrow> byte list \<Rightarrow> randoms \<Rightarrow> (nat \<times> zskiplist \<times> 'a zheap \<times> randoms) cres option" where
  "zslInsert junk new zsl h score ele r =
     obind (descend 32 (\<lambda>n _. before score ele n) h (zlevel zsl) (header zsl) 0) (\<lambda>us.
     case zslRandomLevel r of
       None \<Rightarrow> None
     | Some (level, r) \<Rightarrow>
         Some (cbind (if level > zlevel zsl then
                        cbind (grow_levels h (header zsl) (zlength zsl) (zlevel zsl) (level - zlevel zsl)) (\<lambda>h.
                        Inr (us @ replicate (level - zlevel zsl) (header zsl, 0), zsl\<lparr>zlevel := level\<rparr>, h))
                      else Inr (us, zsl, h)) (\<lambda>(us, zsl, h).
         let h = h(new \<mapsto> zslCreateNode junk level score (Some ele)) in
         cbind (rd us 0) (\<lambda>(u0, rank0).
         cbind (link_levels h new rank0 0 (take level us)) (\<lambda>h.
         cbind (widen_levels h level (drop level us)) (\<lambda>h.
         cbind (set_backward h new (if u0 = header zsl then None else Some u0)) (\<lambda>h.
         cbind (level_at h new 0) (\<lambda>l.
         cbind (case z_forward l of
                  Some y \<Rightarrow> cbind (set_backward h y (Some new)) (\<lambda>h. Inr (zsl, h))
                | None \<Rightarrow> Inr (zsl\<lparr>tail := Some new\<rparr>, h)) (\<lambda>(zsl, h).
         Inr (new, zsl\<lparr>zlength := (zlength zsl + 1) mod 2 ^ 64\<rparr>, h, r))))))))))"

text \<open>Unlinking a node from the levels, given the nodes before it.\<close>

fun unlink_levels :: "'a zheap \<Rightarrow> nat \<Rightarrow> nat \<Rightarrow> nat list \<Rightarrow> 'a zheap cres" where
  "unlink_levels h x i [] = Inr h"
| "unlink_levels h x i (u # us) =
     cbind (level_at h u i) (\<lambda>l.
     cbind (if z_forward l = Some x
            then cbind (level_at h x i) (\<lambda>lx. Inr \<lparr>z_forward = z_forward lx, z_span = (z_span l + ul_diff (z_span lx) 1) mod 2 ^ 64\<rparr>)
            else Inr (l\<lparr>z_span := ul_diff (z_span l) 1\<rparr>)) (\<lambda>l.
     cbind (set_level h u i l) (\<lambda>h. unlink_levels h x (i + 1) us)))"

function drop_levels :: "'a zheap \<Rightarrow> nat \<Rightarrow> nat \<Rightarrow> nat cres" where
  "drop_levels h hdr n =
     (if n > 1 then cbind (level_at h hdr (n - 1)) (\<lambda>l. if z_forward l = None then drop_levels h hdr (n - 1) else Inr n)
      else Inr n)"
  by pat_completeness auto
termination by (relation "measure (\<lambda>(h, hdr, n). n)") auto

declare drop_levels.simps [simp del]

definition zslDeleteNode :: "zskiplist \<Rightarrow> 'a zheap \<Rightarrow> nat \<Rightarrow> nat list \<Rightarrow> (zskiplist \<times> 'a zheap) cres" where
  "zslDeleteNode zsl h x update =
     cbind (unlink_levels h x 0 (take (zlevel zsl) update)) (\<lambda>h.
     cbind (level_at h x 0) (\<lambda>l.
     cbind (zget h x) (\<lambda>n.
     cbind (case z_forward l of
              Some y \<Rightarrow> cbind (set_backward h y (z_backward n)) (\<lambda>h. Inr (zsl, h))
            | None \<Rightarrow> Inr (zsl\<lparr>tail := z_backward n\<rparr>, h)) (\<lambda>(zsl, h).
     cbind (drop_levels h (header zsl) (zlevel zsl)) (\<lambda>level.
     Inr (zsl\<lparr>zlevel := level, zlength := ul_diff (zlength zsl) 1\<rparr>, h))))))"

text \<open>Deleting an element; the node is freed unless the caller asks for it.\<close>

definition zslDelete ::
  "zskiplist \<Rightarrow> ('a :: linorder) zheap \<Rightarrow> 'a \<Rightarrow> byte list \<Rightarrow> bool \<Rightarrow> (nat option \<times> zskiplist \<times> 'a zheap) cres option" where
  "zslDelete zsl h score ele keep =
     obind (descend 64 (\<lambda>n _. before score ele n) h (zlevel zsl) (header zsl) 0) (\<lambda>us.
     Some (cbind (rd us 0) (\<lambda>(u0, _).
           cbind (level_at h u0 0) (\<lambda>l.
           case z_forward l of
             None \<Rightarrow> Inr (None, zsl, h)
           | Some x \<Rightarrow>
               cbind (zget h x) (\<lambda>n.
               if score = z_score n \<and> str_cmp (the (z_ele n)) ele = 0 then
                 cbind (zslDeleteNode zsl h x (map fst us)) (\<lambda>(zsl, h).
                 if keep then Inr (Some x, zsl, h) else cbind (zslFreeNode h x) (\<lambda>h. Inr (Some x, zsl, h)))
               else Inr (None, zsl, h))))))"

definition zslUpdateScore ::
  "'a zskiplistNode \<Rightarrow> nat \<Rightarrow> zskiplist \<Rightarrow> ('a :: linorder) zheap \<Rightarrow> 'a \<Rightarrow> byte list \<Rightarrow> 'a \<Rightarrow> randoms \<Rightarrow>
   (nat \<times> zskiplist \<times> 'a zheap \<times> randoms) cres option" where
  "zslUpdateScore junk new zsl h curscore ele newscore r =
     obind (descend 64 (\<lambda>n _. before curscore ele n) h (zlevel zsl) (header zsl) 0) (\<lambda>us.
     obind (Some (rd us 0)) (\<lambda>(u0, _).
     obind (Some (level_at h u0 0)) (\<lambda>l.
     case z_forward l of
       None \<Rightarrow> Some (Inl AssertFailed)
     | Some x \<Rightarrow>
         obind (Some (zget h x)) (\<lambda>n.
         if \<not> (curscore = z_score n \<and> str_cmp (the (z_ele n)) ele = 0) then Some (Inl AssertFailed)
         else
           obind (Some (case z_backward n of None \<Rightarrow> Inr True | Some b \<Rightarrow> cbind (zget h b) (\<lambda>b. Inr (z_score b < newscore)))) (\<lambda>above.
           obind (Some (if above then
                    cbind (level_at h x 0) (\<lambda>l.
                    case z_forward l of None \<Rightarrow> Inr True | Some y \<Rightarrow> cbind (zget h y) (\<lambda>y. Inr (z_score y > newscore)))
                  else Inr False)) (\<lambda>stay.
           if stay then Some (Inr (x, zsl, h(x \<mapsto> n\<lparr>z_score := newscore\<rparr>), r))
           else
             obind (Some (zslDeleteNode zsl h x (map fst us))) (\<lambda>(zsl, h).
             obind (Some (zget h x)) (\<lambda>n.
             obind (zslInsert junk new zsl h newscore (the (z_ele n)) r) (\<lambda>(newnode, zsl, h, r).
             Some (cbind (zslFreeNode h x) (\<lambda>h. Inr (newnode, zsl, h, r))))))))))))"

text \<open>Ranges of scores.\<close>

record 'a zrangespec =
  range_min :: 'a
  range_max :: 'a
  minex :: bool
  maxex :: bool

definition zslValueGteMin :: "('a :: linorder) \<Rightarrow> 'a zrangespec \<Rightarrow> bool" where
  "zslValueGteMin value spec = (if minex spec then value > range_min spec else value \<ge> range_min spec)"

definition zslValueLteMax :: "('a :: linorder) \<Rightarrow> 'a zrangespec \<Rightarrow> bool" where
  "zslValueLteMax value spec = (if maxex spec then value < range_max spec else value \<le> range_max spec)"

text \<open>The three functions on ranges of scores and those on ranges of strings have the same body, with other tests.\<close>

definition some_in :: "bool \<Rightarrow> ('a zskiplistNode \<Rightarrow> bool) \<Rightarrow> ('a zskiplistNode \<Rightarrow> bool) \<Rightarrow> zskiplist \<Rightarrow> 'a zheap \<Rightarrow> bool cres" where
  "some_in never gte_min lte_max zsl h =
     (if never then Inr False
      else
        case tail zsl of
          None \<Rightarrow> Inr False
        | Some x \<Rightarrow>
            cbind (zget h x) (\<lambda>n.
            if \<not> gte_min n then Inr False
            else
              cbind (level_at h (header zsl) 0) (\<lambda>l.
              case z_forward l of
                None \<Rightarrow> Inr False
              | Some x \<Rightarrow> cbind (zget h x) (\<lambda>n. Inr (lte_max n)))))"

definition first_in :: "bool \<Rightarrow> ('a zskiplistNode \<Rightarrow> bool) \<Rightarrow> ('a zskiplistNode \<Rightarrow> bool) \<Rightarrow> zskiplist \<Rightarrow> 'a zheap \<Rightarrow> nat option cres option" where
  "first_in never gte_min lte_max zsl h =
     obind (Some (some_in never gte_min lte_max zsl h)) (\<lambda>b.
     if \<not> b then Some (Inr None)
     else
       obind (descend 64 (\<lambda>n _. \<not> gte_min n) h (zlevel zsl) (header zsl) 0) (\<lambda>us.
       Some (cbind (rd us 0) (\<lambda>(u0, _).
             cbind (level_at h u0 0) (\<lambda>l.
             case z_forward l of
               None \<Rightarrow> Inl AssertFailed
             | Some x \<Rightarrow> cbind (zget h x) (\<lambda>n. Inr (if \<not> lte_max n then None else Some x)))))))"

definition last_in :: "bool \<Rightarrow> ('a zskiplistNode \<Rightarrow> bool) \<Rightarrow> ('a zskiplistNode \<Rightarrow> bool) \<Rightarrow> zskiplist \<Rightarrow> 'a zheap \<Rightarrow> nat option cres option" where
  "last_in never gte_min lte_max zsl h =
     obind (Some (some_in never gte_min lte_max zsl h)) (\<lambda>b.
     if \<not> b then Some (Inr None)
     else
       obind (descend 64 (\<lambda>n _. lte_max n) h (zlevel zsl) (header zsl) 0) (\<lambda>us.
       Some (cbind (rd us 0) (\<lambda>(x, _). cbind (zget h x) (\<lambda>n. Inr (if \<not> gte_min n then None else Some x))))))"

definition empty_range :: "('a :: linorder) zrangespec \<Rightarrow> bool" where
  "empty_range rng \<longleftrightarrow> range_min rng > range_max rng \<or> (range_min rng = range_max rng \<and> (minex rng \<or> maxex rng))"

definition zslIsInRange :: "zskiplist \<Rightarrow> ('a :: linorder) zheap \<Rightarrow> 'a zrangespec \<Rightarrow> bool cres" where
  "zslIsInRange zsl h rng =
     some_in (empty_range rng) (\<lambda>n. zslValueGteMin (z_score n) rng) (\<lambda>n. zslValueLteMax (z_score n) rng) zsl h"

definition zslFirstInRange :: "zskiplist \<Rightarrow> ('a :: linorder) zheap \<Rightarrow> 'a zrangespec \<Rightarrow> nat option cres option" where
  "zslFirstInRange zsl h rng =
     first_in (empty_range rng) (\<lambda>n. zslValueGteMin (z_score n) rng) (\<lambda>n. zslValueLteMax (z_score n) rng) zsl h"

definition zslLastInRange :: "zskiplist \<Rightarrow> ('a :: linorder) zheap \<Rightarrow> 'a zrangespec \<Rightarrow> nat option cres option" where
  "zslLastInRange zsl h rng =
     last_in (empty_range rng) (\<lambda>n. zslValueGteMin (z_score n) rng) (\<lambda>n. zslValueLteMax (z_score n) rng) zsl h"

text \<open>Ranges of strings; the least and the greatest string are shared objects that are compared by address.\<close>

datatype lex_str = MinString | MaxString | Lex "byte list"

record zlexrangespec =
  lex_min :: lex_str
  lex_max :: lex_str
  lex_minex :: bool
  lex_maxex :: bool

definition sdscmplex :: "lex_str \<Rightarrow> lex_str \<Rightarrow> int" where
  "sdscmplex a b =
     (if a = b then 0
      else if a = MinString \<or> b = MaxString then -1
      else if a = MaxString \<or> b = MinString then 1
      else case (a, b) of (Lex s, Lex t) \<Rightarrow> str_cmp s t | _ \<Rightarrow> 0)"

definition zslLexValueGteMin :: "byte list \<Rightarrow> zlexrangespec \<Rightarrow> bool" where
  "zslLexValueGteMin value spec =
     (if lex_minex spec then sdscmplex (Lex value) (lex_min spec) > 0 else sdscmplex (Lex value) (lex_min spec) \<ge> 0)"

definition zslLexValueLteMax :: "byte list \<Rightarrow> zlexrangespec \<Rightarrow> bool" where
  "zslLexValueLteMax value spec =
     (if lex_maxex spec then sdscmplex (Lex value) (lex_max spec) < 0 else sdscmplex (Lex value) (lex_max spec) \<le> 0)"

definition empty_lex_range :: "zlexrangespec \<Rightarrow> bool" where
  "empty_lex_range rng \<longleftrightarrow>
     (let cmp = sdscmplex (lex_min rng) (lex_max rng) in cmp > 0 \<or> (cmp = 0 \<and> (lex_minex rng \<or> lex_maxex rng)))"

definition zslIsInLexRange :: "zskiplist \<Rightarrow> 'a zheap \<Rightarrow> zlexrangespec \<Rightarrow> bool cres" where
  "zslIsInLexRange zsl h rng =
     some_in (empty_lex_range rng) (\<lambda>n. zslLexValueGteMin (the (z_ele n)) rng) (\<lambda>n. zslLexValueLteMax (the (z_ele n)) rng) zsl h"

definition zslFirstInLexRange :: "zskiplist \<Rightarrow> 'a zheap \<Rightarrow> zlexrangespec \<Rightarrow> nat option cres option" where
  "zslFirstInLexRange zsl h rng =
     first_in (empty_lex_range rng) (\<lambda>n. zslLexValueGteMin (the (z_ele n)) rng) (\<lambda>n. zslLexValueLteMax (the (z_ele n)) rng) zsl h"

definition zslLastInLexRange :: "zskiplist \<Rightarrow> 'a zheap \<Rightarrow> zlexrangespec \<Rightarrow> nat option cres option" where
  "zslLastInLexRange zsl h rng =
     last_in (empty_lex_range rng) (\<lambda>n. zslLexValueGteMin (the (z_ele n)) rng) (\<lambda>n. zslLexValueLteMax (the (z_ele n)) rng) zsl h"

text \<open>Parsing the bounds of a range of strings.\<close>

definition zslParseLexRangeItem :: "byte list \<Rightarrow> (lex_str \<times> bool) option cres" where
  "zslParseLexRangeItem item =
     (let c = item @ [0] in
      cbind (rd c 0) (\<lambda>c0.
      if c0 = 43 then cbind (rd c 1) (\<lambda>c1. Inr (if c1 \<noteq> 0 then None else Some (MaxString, True)))
      else if c0 = 45 then cbind (rd c 1) (\<lambda>c1. Inr (if c1 \<noteq> 0 then None else Some (MinString, True)))
      else if c0 = 40 then Inr (Some (Lex (drop 1 item), True))
      else if c0 = 91 then Inr (Some (Lex (drop 1 item), False))
      else Inr None))"

text \<open>Rank of an element and element of a rank; both can return from within the levels.\<close>

fun rank_loop :: "('a :: linorder) zheap \<Rightarrow> 'a \<Rightarrow> byte list \<Rightarrow> nat \<Rightarrow> nat \<Rightarrow> nat \<Rightarrow> nat cres option" where
  "rank_loop h score ele 0 x rank = Some (Inr 0)"
| "rank_loop h score ele (Suc i) x rank =
     obind (walk 64 (\<lambda>n _. z_score n < score \<or> z_score n = score \<and> str_cmp (the (z_ele n)) ele \<le> 0) h i x rank) (\<lambda>(x, rank).
     obind (Some (zget h x)) (\<lambda>n.
     if (case z_ele n of None \<Rightarrow> False | Some e \<Rightarrow> str_cmp e ele = 0) then Some (Inr rank)
     else rank_loop h score ele i x rank))"

definition zslGetRank :: "zskiplist \<Rightarrow> ('a :: linorder) zheap \<Rightarrow> 'a \<Rightarrow> byte list \<Rightarrow> nat cres option" where
  "zslGetRank zsl h score ele = rank_loop h score ele (zlevel zsl) (header zsl) 0"

fun element_loop :: "'a zheap \<Rightarrow> nat \<Rightarrow> nat \<Rightarrow> nat \<Rightarrow> nat \<Rightarrow> nat option cres option" where
  "element_loop h rank 0 x traversed = Some (Inr None)"
| "element_loop h rank (Suc i) x traversed =
     obind (walk 64 (\<lambda>n t. t \<le> rank) h i x traversed) (\<lambda>(x, traversed).
     if traversed = rank then Some (Inr (Some x)) else element_loop h rank i x traversed)"

definition zslGetElementByRank :: "zskiplist \<Rightarrow> 'a zheap \<Rightarrow> nat \<Rightarrow> nat option cres option" where
  "zslGetElementByRank zsl h rank = element_loop h rank (zlevel zsl) (header zsl) 0"

end
