(* ===== verification/ZskiplistOk.thy ===== *)
theory ZskiplistOk
  imports Zskiplist
begin

text \<open>
  The skip lists of \<open>Zskiplist\<close> represent sorted sequences: what the pointers and spans of a list are, and that every
  operation keeps them so.
\<close>

section \<open>Neighbours on a level\<close>

text \<open>The heights of the nodes, the header first, determine all the pointers: on level \<open>i\<close> the next node after position \<open>p\<close> is the
  first that is higher than \<open>i\<close>, or the end; the previous one at \<open>r\<close> is the last up to \<open>r\<close> that is.\<close>

definition nx :: "nat list \<Rightarrow> nat \<Rightarrow> nat \<Rightarrow> nat" where
  "nx hs i p = (LEAST q. p < q \<and> (q < length hs \<longrightarrow> i < hs ! q))"

fun pv :: "nat list \<Rightarrow> nat \<Rightarrow> nat \<Rightarrow> nat" where
  "pv hs i 0 = 0"
| "pv hs i (Suc r) = (if i < hs ! Suc r then Suc r else pv hs i r)"

lemma nx_bounds:
  assumes "p < length hs"
  shows "p < nx hs i p" "nx hs i p \<le> length hs" "nx hs i p < length hs \<Longrightarrow> i < hs ! nx hs i p" "p < j \<Longrightarrow> j < nx hs i p \<Longrightarrow> hs ! j \<le> i"
proof -
  let ?P = "\<lambda>q. p < q \<and> (q < length hs \<longrightarrow> i < hs ! q)"
  have ex: "?P (length hs)" using assms by simp
  show le: "nx hs i p \<le> length hs" unfolding nx_def using ex by (rule Least_le)
  have P: "?P (nx hs i p)" unfolding nx_def using ex by (rule LeastI)
  then show "p < nx hs i p" "nx hs i p < length hs \<Longrightarrow> i < hs ! nx hs i p" by simp_all
  show "hs ! j \<le> i" if "p < j" "j < nx hs i p"
    using not_less_Least [of j ?P] that by (auto simp: nx_def [symmetric] not_less)
qed

lemma nx_eqI:
  assumes "p < length hs" "p < q" "q \<le> length hs" "q < length hs \<Longrightarrow> i < hs ! q" "\<And>j. p < j \<Longrightarrow> j < q \<Longrightarrow> hs ! j \<le> i"
  shows "nx hs i p = q"
proof (rule ccontr)
  assume "nx hs i p \<noteq> q"
  then consider "nx hs i p < q" | "q < nx hs i p" by linarith
  then show False
  proof cases
    case 1
    then show False using nx_bounds(1,3) [OF assms(1), of i] assms(3) assms(5) [of "nx hs i p"] by simp
  next
    case 2
    then show False using nx_bounds(2) [OF assms(1), of i] nx_bounds(4) [OF assms(1) _ 2] assms(2,4) by simp
  qed
qed

lemma pv_le: "pv hs i r \<le> r"
  by (induction r) auto

lemma pv_height: "i < hs ! 0 \<Longrightarrow> i < hs ! pv hs i r"
  by (induction r) auto

lemma pv_last: "pv hs i r < q \<Longrightarrow> q \<le> r \<Longrightarrow> hs ! q \<le> i"
  by (induction r) (auto simp: le_Suc_eq split: if_splits)

lemma pv_greatest: "p \<le> r \<Longrightarrow> i < hs ! p \<Longrightarrow> p \<le> pv hs i r"
  using pv_last [of hs i r p] by force

lemma pv_pos: "0 < pv hs i r \<Longrightarrow> i < hs ! pv hs i r"
  by (induction r) (auto split: if_splits)

lemma pv_eqI:
  assumes "p \<le> r" "i < hs ! p" "\<And>q. p < q \<Longrightarrow> q \<le> r \<Longrightarrow> hs ! q \<le> i"
  shows "pv hs i r = p"
proof (rule antisym)
  show "p \<le> pv hs i r" using assms(1,2) by (rule pv_greatest)
  show "pv hs i r \<le> p" using assms(3) [of "pv hs i r"] pv_le [of hs i r] pv_pos [of hs i r] by force
qed

text \<open>The node after the previous one at \<open>r\<close> is behind \<open>r\<close>.\<close>

lemma nx_pv:
  assumes "r < length hs" "i < hs ! 0"
  shows "r < nx hs i (pv hs i r)"
proof (rule ccontr)
  assume a: "\<not> r < nx hs i (pv hs i r)"
  have p: "pv hs i r < length hs" using assms(1) pv_le [of hs i r] by simp
  show False using nx_bounds [OF p, of i] a pv_last [of hs i r "nx hs i (pv hs i r)"] assms(1) by force
qed

text \<open>Inserting a height at position \<open>k\<close>.\<close>

definition ins :: "nat \<Rightarrow> 'b \<Rightarrow> 'b list \<Rightarrow> 'b list" where
  "ins k x xs = take k xs @ x # drop k xs"

lemma ins_length [simp]: "length (ins k x xs) = Suc (length xs)"
  by (simp add: ins_def)

lemma ins_nth: "k \<le> length xs \<Longrightarrow> j \<le> length xs \<Longrightarrow> ins k x xs ! j = (if j < k then xs ! j else if j = k then x else xs ! (j - 1))"
  by (auto simp: ins_def nth_append nth_Cons')

lemma map_ins: "map f (ins k x xs) = ins k (f x) (map f xs)"
  by (simp add: ins_def take_map drop_map)

lemma set_ins [simp]: "set (ins k x xs) = insert x (set xs)"
proof -
  have "set (take k xs) \<union> set (drop k xs) = set xs" unfolding set_append [symmetric] by simp
  then show ?thesis by (auto simp: ins_def)
qed

lemma nx_ins:
  assumes k: "0 < k" "k \<le> length hs" and p: "p < length hs"
  shows "p < k \<Longrightarrow> nx (ins k v hs) i p = (if nx hs i p < k then nx hs i p else if i < v then k else Suc (nx hs i p))"
    "k \<le> p \<Longrightarrow> nx (ins k v hs) i (Suc p) = Suc (nx hs i p)"
    "p < k \<Longrightarrow> k \<le> nx hs i p \<Longrightarrow> nx (ins k v hs) i k = Suc (nx hs i p)"
proof -
  note b = nx_bounds [OF p, where i = i]
  show "nx (ins k v hs) i p = (if nx hs i p < k then nx hs i p else if i < v then k else Suc (nx hs i p))" if "p < k"
  proof (rule nx_eqI)
    fix j assume j: "p < j" "j < (if nx hs i p < k then nx hs i p else if i < v then k else Suc (nx hs i p))"
    have "j \<le> length hs" using j b(2) k by (auto split: if_splits)
    then show "ins k v hs ! j \<le> i" using j k b(4) [of j] b(4) [of "j - 1"] that by (auto simp: ins_nth split: if_splits)
  qed (use that k b in \<open>auto simp: ins_nth\<close>)
  show "nx (ins k v hs) i (Suc p) = Suc (nx hs i p)" if "k \<le> p"
  proof (rule nx_eqI)
    fix j assume j: "Suc p < j" "j < Suc (nx hs i p)"
    then show "ins k v hs ! j \<le> i" using that k b(2) b(4) [of "j - 1"] by (auto simp: ins_nth)
  qed (use that k b p in \<open>auto simp: ins_nth\<close>)
  show "nx (ins k v hs) i k = Suc (nx hs i p)" if "p < k" "k \<le> nx hs i p"
  proof (rule nx_eqI)
    fix j assume j: "k < j" "j < Suc (nx hs i p)"
    then show "ins k v hs ! j \<le> i" using that k b(2) b(4) [of "j - 1"] by (auto simp: ins_nth)
  qed (use that k b p in \<open>auto simp: ins_nth\<close>)
qed

section \<open>Two views of the heap\<close>

text \<open>The levels of the nodes, by address and level, and what the nodes hold besides. Writing a level changes only the first.\<close>

record 'a base =
  b_ele :: "byte list option"
  b_score :: 'a
  b_back :: "nat option"
  b_height :: nat

definition base :: "'a zheap \<Rightarrow> nat \<rightharpoonup> 'a base" where
  "base h a = map_option (\<lambda>n. \<lparr>b_ele = z_ele n, b_score = z_score n, b_back = z_backward n, b_height = length (z_level n)\<rparr>) (h a)"

definition lm :: "'a zheap \<Rightarrow> nat \<times> nat \<rightharpoonup> zskiplistLevel" where
  "lm h ai = (case h (fst ai) of None \<Rightarrow> None | Some n \<Rightarrow> if snd ai < length (z_level n) then Some (z_level n ! snd ai) else None)"

lemma heap_ext:
  assumes "base h a = base h' a" "\<And>i. lm h (a, i) = lm h' (a, i)"
  shows "h a = h' a"
proof (cases "h a")
  case None
  then show ?thesis using assms(1) by (simp add: base_def)
next
  case (Some n)
  then obtain n' where n': "h' a = Some n'" using assms(1) by (cases "h' a") (simp_all add: base_def)
  then have b: "z_ele n = z_ele n'" "z_score n = z_score n'" "z_backward n = z_backward n'" "length (z_level n) = length (z_level n')"
    using Some assms(1) by (simp_all add: base_def)
  have "z_level n = z_level n'"
  proof (rule nth_equalityI)
    show "z_level n ! i = z_level n' ! i" if "i < length (z_level n)" for i
      using assms(2) [of i] Some n' that b(4) by (simp add: lm_def)
  qed (rule b(4))
  with b show ?thesis using Some n' by simp
qed

lemma level_at_lm [simp]: "lm h (a, i) = Some l \<Longrightarrow> level_at h a i = Inr l"
  by (auto simp: lm_def level_at_def zget_def split: option.splits if_splits)

lemma set_level_ok:
  assumes "lm h (a, i) = Some l0"
  shows "\<exists>h'. set_level h a i l = Inr h' \<and> base h' = base h \<and> lm h' = (lm h)((a, i) \<mapsto> l)"
proof -
  obtain n where n: "h a = Some n" "i < length (z_level n)" using assms by (auto simp: lm_def split: option.splits if_splits)
  let ?h = "h(a \<mapsto> n\<lparr>z_level := (z_level n)[i := l]\<rparr>)"
  have "set_level h a i l = Inr ?h" using n by (simp add: set_level_def zget_def)
  moreover have "base ?h = base h" using n(1) by (auto simp: base_def fun_eq_iff)
  moreover have "lm ?h = (lm h)((a, i) \<mapsto> l)" using n by (auto simp: lm_def fun_eq_iff)
  ultimately show ?thesis by blast
qed

lemma set_backward_ok:
  assumes "base h a = Some c"
  shows "\<exists>h'. set_backward h a b = Inr h' \<and> base h' = (base h)(a \<mapsto> c\<lparr>b_back := b\<rparr>) \<and> lm h' = lm h"
proof -
  obtain n where n: "h a = Some n" "c = \<lparr>b_ele = z_ele n, b_score = z_score n, b_back = z_backward n, b_height = length (z_level n)\<rparr>"
    using assms by (auto simp: base_def)
  let ?h = "h(a \<mapsto> n\<lparr>z_backward := b\<rparr>)"
  have "set_backward h a b = Inr ?h" using n by (simp add: set_backward_def zget_def)
  moreover have "base ?h = (base h)(a \<mapsto> c\<lparr>b_back := b\<rparr>)" using n by (auto simp: base_def fun_eq_iff)
  moreover have "lm ?h = lm h" using n by (auto simp: lm_def fun_eq_iff)
  ultimately show ?thesis by blast
qed

lemma base_get: "base h a = Some c \<Longrightarrow> \<exists>n. zget h a = Inr n \<and> z_ele n = b_ele c \<and> z_score n = b_score c \<and> z_backward n = b_back c"
  by (auto simp: base_def zget_def)

section \<open>Representation\<close>

text \<open>The nodes in order, the header first.\<close>

record 'a snode =
  sn_addr :: nat
  sn_key :: "'a \<times> byte list"
  sn_height :: nat

abbreviation heights :: "'a snode list \<Rightarrow> nat list" where
  "heights L \<equiv> map sn_height L"

definition fw :: "'a snode list \<Rightarrow> nat \<Rightarrow> nat \<Rightarrow> nat option" where
  "fw L i p = (if nx (heights L) i p < length L then Some (sn_addr (L ! nx (heights L) i p)) else None)"

text \<open>A span counts the nodes to the next one, or to the end of the list.\<close>

definition lev :: "'a snode list \<Rightarrow> nat \<Rightarrow> nat \<Rightarrow> zskiplistLevel" where
  "lev L i p = \<lparr>z_forward = fw L i p, z_span = min (nx (heights L) i p) (length L - 1) - p\<rparr>"

definition cell :: "'a snode list \<Rightarrow> nat \<Rightarrow> 'a base" where
  "cell L p = \<lparr>b_ele = (if p = 0 then None else Some (snd (sn_key (L ! p)))), b_score = fst (sn_key (L ! p)),
     b_back = (if p \<le> 1 then None else Some (sn_addr (L ! (p - 1)))), b_height = sn_height (L ! p)\<rparr>"

definition shape :: "zskiplist \<Rightarrow> ('a :: linorder) snode list \<Rightarrow> bool" where
  "shape z L \<longleftrightarrow> L \<noteq> [] \<and> sn_addr (L ! 0) = header z \<and> sn_height (L ! 0) = ZSKIPLIST_MAXLEVEL \<and> distinct (map sn_addr L) \<and>
     zlength z = length L - 1 \<and> length L \<le> 2 ^ 32 \<and> 1 \<le> zlevel z \<and> zlevel z \<le> ZSKIPLIST_MAXLEVEL \<and>
     (\<forall>p. 0 < p \<and> p < length L \<longrightarrow> 1 \<le> sn_height (L ! p) \<and> sn_height (L ! p) \<le> zlevel z) \<and>
     tail z = (if length L = 1 then None else Some (sn_addr (last L))) \<and> sorted_wrt (<) (map sn_key (tl L))"

text \<open>The levels of the header above those in use have no pointer, and their spans are not maintained.\<close>

definition heap_rep :: "'a zheap \<Rightarrow> nat \<Rightarrow> 'a snode list \<Rightarrow> bool" where
  "heap_rep h lv L \<longleftrightarrow> (\<forall>p < length L. base h (sn_addr (L ! p)) = Some (cell L p) \<and>
     (\<forall>i < sn_height (L ! p). if i < lv then lm h (sn_addr (L ! p), i) = Some (lev L i p)
        else \<exists>s. lm h (sn_addr (L ! p), i) = Some \<lparr>z_forward = None, z_span = s\<rparr>))"

definition zsl_rep :: "('a :: linorder) zheap \<Rightarrow> zskiplist \<Rightarrow> 'a snode list \<Rightarrow> bool" where
  "zsl_rep h z L \<longleftrightarrow> shape z L \<and> heap_rep h (zlevel z) L"

lemma zsl_repD:
  assumes "zsl_rep h z L" "p < length L"
  shows "base h (sn_addr (L ! p)) = Some (cell L p)" "i < sn_height (L ! p) \<Longrightarrow> i < zlevel z \<Longrightarrow> lm h (sn_addr (L ! p), i) = Some (lev L i p)"
  using assms by (auto simp: zsl_rep_def heap_rep_def)

lemma zsl_rep_top:
  assumes "zsl_rep h z L" "p < length L" "i < sn_height (L ! p)" "\<not> i < zlevel z"
  shows "\<exists>s. lm h (sn_addr (L ! p), i) = Some \<lparr>z_forward = None, z_span = s\<rparr>"
  using assms by (auto simp: zsl_rep_def heap_rep_def)

lemma shapeD:
  assumes "shape z L"
  shows "L \<noteq> []" "sn_addr (L ! 0) = header z" "sn_height (L ! 0) = 64" "length L \<le> 2 ^ 32" "1 \<le> zlevel z" "zlevel z \<le> 64"
    "0 < p \<Longrightarrow> p < length L \<Longrightarrow> 1 \<le> sn_height (L ! p) \<and> sn_height (L ! p) \<le> zlevel z" "zlength z = length L - 1"
  using assms by (auto simp: shape_def ZSKIPLIST_MAXLEVEL_def)

lemma addr_eq:
  assumes "shape z L" "p < length L" "q < length L"
  shows "sn_addr (L ! p) = sn_addr (L ! q) \<longleftrightarrow> p = q"
  using assms nth_eq_iff_index_eq [of "map sn_addr L" p q] by (simp add: shape_def)

section \<open>Searching\<close>

text \<open>A search stops at position \<open>r\<close> when the test holds of the nodes up to \<open>r\<close> and of no others.\<close>

definition stops_at :: "'a zheap \<Rightarrow> 'a snode list \<Rightarrow> ('a zskiplistNode \<Rightarrow> nat \<Rightarrow> bool) \<Rightarrow> nat \<Rightarrow> bool" where
  "stops_at h L go r \<longleftrightarrow> r < length L \<and> (\<forall>q n. 0 < q \<and> q < length L \<and> h (sn_addr (L ! q)) = Some n \<longrightarrow> (go n q \<longleftrightarrow> q \<le> r))"

lemma walk_ok:
  assumes rep: "zsl_rep h z L" and stop: "stops_at h L go r" and w: "32 \<le> w" and i: "i < zlevel z"
    and p: "p \<le> r" "i < sn_height (L ! p)"
  shows "walk w go h i (sn_addr (L ! p)) p = Some (Inr (sn_addr (L ! pv (heights L) i r), pv (heights L) i r))"
  using p
proof (induction "r - p" arbitrary: p rule: less_induct)
  case less
  have sh: "shape z L" and r: "r < length L" using rep stop by (simp_all add: zsl_rep_def stops_at_def)
  then have p: "p < length L" using less.prems(1) by simp
  let ?hs = "heights L" and ?q = "nx (heights L) i p"
  have pl: "p < length ?hs" using p by simp
  note b = nx_bounds [OF pl, where i = i]
  have l: "level_at h (sn_addr (L ! p)) i = Inr (lev L i p)" using zsl_repD(2) [OF rep p less.prems(2) i] by simp
  have stay: "pv ?hs i r = p" if "r < ?q"
    by (rule pv_eqI) (use less.prems that b(4) p in auto)
  show ?case
  proof (cases "?q < length L")
    case False
    then show ?thesis using l stay r b(2) by (subst walk.simps) (simp add: lev_def fw_def)
  next
    case True
    obtain n where n: "h (sn_addr (L ! ?q)) = Some n" using zsl_repD(1) [OF rep True] by (auto simp: base_def)
    have "(2 :: nat) ^ 32 \<le> 2 ^ w" using w by (intro power_increasing) auto
    then have "?q < 2 ^ w" using True shapeD(4) [OF sh] by simp
    moreover have "min ?q (length L - 1) = ?q" using True by simp
    ultimately have s: "(p + z_span (lev L i p)) mod 2 ^ w = ?q" using b(1) by (simp add: lev_def)
    have f: "z_forward (lev L i p) = Some (sn_addr (L ! ?q))" "zget h (sn_addr (L ! ?q)) = Inr n" using True n by (simp_all add: lev_def fw_def zget_def)
    have go: "go n ?q \<longleftrightarrow> ?q \<le> r" using stop True n b(1) by (auto simp: stops_at_def)
    show ?thesis
    proof (cases "?q \<le> r")
      case True
      then have "walk w go h i (sn_addr (L ! ?q)) ?q = Some (Inr (sn_addr (L ! pv ?hs i r), pv ?hs i r))"
        using less.hyps [of ?q] b(1,3) \<open>?q < length L\<close> by simp
      then show ?thesis using True by (subst walk.simps) (simp add: l f s go)
    next
      case False
      then show ?thesis using stay by (subst walk.simps) (simp add: l f s go)
    qed
  qed
qed

lemma descend_ok:
  assumes rep: "zsl_rep h z L" and stop: "stops_at h L go r" and w: "32 \<le> w" and "k \<le> zlevel z"
    and "p \<le> r" "0 < k \<Longrightarrow> k - 1 < sn_height (L ! p)"
  shows "descend w go h k (sn_addr (L ! p)) p = Some (Inr (map (\<lambda>i. (sn_addr (L ! pv (heights L) i r), pv (heights L) i r)) [0..<k]))"
  using assms(4-)
proof (induction k arbitrary: p)
  case (Suc k)
  have sh: "shape z L" and r: "r < length L" using rep stop by (simp_all add: zsl_rep_def stops_at_def)
  let ?p = "pv (heights L) k r"
  have "k < heights L ! 0" using shapeD(1,3,6) [OF sh] Suc.prems(1) by simp
  then have "k < heights L ! ?p" by (rule pv_height)
  moreover have "?p < length L" using pv_le [of "heights L" k r] r by simp
  ultimately have "k < sn_height (L ! ?p)" by simp
  then have "descend w go h k (sn_addr (L ! ?p)) ?p = Some (Inr (map (\<lambda>i. (sn_addr (L ! pv (heights L) i r), pv (heights L) i r)) [0..<k]))"
    using Suc.IH [of ?p] Suc.prems(1) pv_le [of "heights L" k r] by simp
  then show ?case using walk_ok [OF rep stop w, of k p] Suc.prems by simp
qed simp

lemma search_ok:
  assumes rep: "zsl_rep h z L" and "stops_at h L go r" and "32 \<le> w"
  shows "descend w go h (zlevel z) (header z) 0 =
    Some (Inr (map (\<lambda>i. (sn_addr (L ! pv (heights L) i r), pv (heights L) i r)) [0..<zlevel z]))"
proof -
  have sh: "shape z L" using rep by (simp add: zsl_rep_def)
  show ?thesis using descend_ok [OF assms, of "zlevel z" 0] shapeD(2,3,6) [OF sh] by simp
qed

section \<open>The order of the elements\<close>

lemma str_cmp_simps [simp]:
  "str_cmp [] [] = 0" "str_cmp [] (b # t) = -1" "str_cmp (a # s) [] = 1"
  "str_cmp (a # s) (b # t) = (if a < b then -1 else if b < a then 1 else str_cmp s t)"
  by (simp_all add: str_cmp_def Let_def)

lemma str_cmp_order: "(str_cmp s t < 0 \<longleftrightarrow> s < t) \<and> (str_cmp s t = 0 \<longleftrightarrow> s = t)"
proof (induction s arbitrary: t)
  case Nil
  then show ?case by (cases t) simp_all
next
  case (Cons a s)
  then show ?case by (cases t) auto
qed

lemmas str_cmp_less = str_cmp_order [THEN conjunct1] and str_cmp_eq = str_cmp_order [THEN conjunct2]

lemma str_cmp_le: "str_cmp s t \<le> 0 \<longleftrightarrow> s \<le> t"
  using str_cmp_order [of s t] by (metis order.order_iff_strict)

text \<open>The comparison of strings is \<open>sdscmp\<close> on the representation of strings.\<close>

lemma sdscmp_str_cmp:
  assumes "sds_ok s" "sds_ok t"
  shows "sdscmp s t = Inr (str_cmp (sds_str s) (sds_str t))"
proof -
  have l: "sdslen s = length (sds_str s)" "sdslen t = length (sds_str t)" "len_field s < length (sds_buf s)" "len_field t < length (sds_buf t)"
    using assms by (auto simp: sds_ok_def sdslen_def sds_str_def)
  then show ?thesis by (auto simp: sdscmp_def str_cmp_def peek_ok sds_str_def Let_def min_def)
qed

definition node_key :: "'a zskiplistNode \<Rightarrow> 'a \<times> byte list" where
  "node_key n = (z_score n, the (z_ele n))"

lemma before_key: "before score ele n \<longleftrightarrow> node_key n < (score, ele)"
  by (auto simp: before_def node_key_def str_cmp_less less_prod_def)

lemma rep_key:
  assumes "zsl_rep h z L" "0 < q" "q < length L" "h (sn_addr (L ! q)) = Some n"
  shows "node_key n = sn_key (L ! q)" "z_ele n = Some (snd (sn_key (L ! q)))" "z_score n = fst (sn_key (L ! q))"
proof -
  show e: "z_ele n = Some (snd (sn_key (L ! q)))" "z_score n = fst (sn_key (L ! q))"
    using zsl_repD(1) [OF assms(1,3)] assms(2,4) by (auto simp: base_def cell_def)
  then show "node_key n = sn_key (L ! q)" by (simp add: node_key_def)
qed

lemma takeWhile_length_iff:
  assumes "\<And>i j. i < j \<Longrightarrow> j < length xs \<Longrightarrow> P (xs ! j) \<Longrightarrow> P (xs ! i)" and "j < length xs"
  shows "P (xs ! j) \<longleftrightarrow> j < length (takeWhile P xs)"
proof
  assume "j < length (takeWhile P xs)"
  then show "P (xs ! j)" by (metis nth_mem set_takeWhileD takeWhile_nth)
next
  assume Pj: "P (xs ! j)"
  show "j < length (takeWhile P xs)"
  proof (rule ccontr)
    assume n: "\<not> j < length (takeWhile P xs)"
    then have l: "length (takeWhile P xs) < length xs" using assms(2) by simp
    then have "\<not> P (xs ! length (takeWhile P xs))" by (rule nth_length_takeWhile)
    then show False using n Pj assms(1) [of "length (takeWhile P xs)" j] assms(2) by (metis nat_neq_iff)
  qed
qed

text \<open>The elements a test holds of, when it is one of the keys and holds downwards.\<close>

definition reach :: "('a snode \<Rightarrow> bool) \<Rightarrow> 'a snode list \<Rightarrow> nat" where
  "reach P L = length (takeWhile P (tl L))"

lemma reach_iff:
  assumes sh: "shape z L" and mono: "\<And>x y. P y \<Longrightarrow> x < y \<Longrightarrow> P x" and q: "0 < q" "q < length L"
  shows "P (sn_key (L ! q)) \<longleftrightarrow> q \<le> reach (\<lambda>n. P (sn_key n)) L" "reach (\<lambda>n. P (sn_key n)) L < length L"
proof -
  have sorted: "sorted_wrt (<) (map sn_key (tl L))" using sh by (simp add: shape_def)
  have "P (sn_key (tl L ! (q - 1))) \<longleftrightarrow> q - 1 < length (takeWhile (\<lambda>n. P (sn_key n)) (tl L))"
  proof (rule takeWhile_length_iff)
    fix i j assume "i < j" "j < length (tl L)" "P (sn_key (tl L ! j))"
    then show "P (sn_key (tl L ! i))" using mono sorted_wrt_nth_less [OF sorted, of i j] by simp
  qed (use q in simp)
  then show "P (sn_key (L ! q)) \<longleftrightarrow> q \<le> reach (\<lambda>n. P (sn_key n)) L" using q by (auto simp: reach_def nth_tl)
  show "reach (\<lambda>n. P (sn_key n)) L < length L"
    using length_takeWhile_le [of "\<lambda>n. P (sn_key n)" "tl L"] q by (simp add: reach_def)
qed

lemma stops_at_key:
  assumes rep: "zsl_rep h z L" and mono: "\<And>x y. P y \<Longrightarrow> x < y \<Longrightarrow> P x" and go: "\<And>n q. z_ele n \<noteq> None \<Longrightarrow> go n q \<longleftrightarrow> P (node_key n)"
  shows "stops_at h L go (reach (\<lambda>n. P (sn_key n)) L)"
proof -
  have sh: "shape z L" using rep by (simp add: zsl_rep_def)
  have "reach (\<lambda>n. P (sn_key n)) L < length L"
    using length_takeWhile_le [of "\<lambda>n. P (sn_key n)" "tl L"] shapeD(1) [OF sh] by (cases L) (auto simp: reach_def)
  moreover have "go n q \<longleftrightarrow> q \<le> reach (\<lambda>n. P (sn_key n)) L" if "0 < q" "q < length L" "h (sn_addr (L ! q)) = Some n" for q n
    using rep_key [OF rep that] go [of n q] reach_iff(1) [OF sh mono that(1,2)] by simp
  ultimately show ?thesis by (auto simp: stops_at_def)
qed

section \<open>Insertion\<close>

lemma grow_levels_ok:
  assumes "\<And>j. i \<le> j \<Longrightarrow> j < i + n \<Longrightarrow> lm h (a, j) \<noteq> None"
  shows "\<exists>h'. grow_levels h a len i n = Inr h' \<and> base h' = base h \<and>
    (\<forall>b j. lm h' (b, j) = (if b = a \<and> i \<le> j \<and> j < i + n then map_option (\<lambda>l. l\<lparr>z_span := len\<rparr>) (lm h (b, j)) else lm h (b, j)))"
  using assms
proof (induction n arbitrary: i h)
  case (Suc n)
  obtain l where l: "lm h (a, i) = Some l" using Suc.prems [of i] by auto
  obtain h1 where h1: "set_level h a i (l\<lparr>z_span := len\<rparr>) = Inr h1" "base h1 = base h" "lm h1 = (lm h)((a, i) \<mapsto> l\<lparr>z_span := len\<rparr>)"
    using set_level_ok [OF l] by blast
  obtain h' where h': "grow_levels h1 a len (i + 1) n = Inr h'" "base h' = base h1"
      "\<forall>b j. lm h' (b, j) = (if b = a \<and> i + 1 \<le> j \<and> j < i + 1 + n then map_option (\<lambda>l. l\<lparr>z_span := len\<rparr>) (lm h1 (b, j)) else lm h1 (b, j))"
    using Suc.IH [of "i + 1" h1] Suc.prems h1(3) by auto
  show ?case using h' l h1 by (intro exI [of _ h']) auto
qed auto

lemma link_levels_ok:
  assumes "\<And>j. j < length us \<Longrightarrow> lm h (fst (us ! j), i + j) = Some (l j)" "\<And>j. j < length us \<Longrightarrow> fst (us ! j) \<noteq> x"
    "\<And>j. j < length us \<Longrightarrow> lm h (x, i + j) \<noteq> None"
  shows "\<exists>h'. link_levels h x r0 i us = Inr h' \<and> base h' = base h \<and>
    (\<forall>a j. lm h' (a, j) =
       (if i \<le> j \<and> j < i + length us then
          if a = x then Some \<lparr>z_forward = z_forward (l (j - i)), z_span = ul_diff (z_span (l (j - i))) (u32_diff r0 (snd (us ! (j - i))))\<rparr>
          else if a = fst (us ! (j - i)) then Some \<lparr>z_forward = Some x, z_span = (u32_diff r0 (snd (us ! (j - i))) + 1) mod 2 ^ 32\<rparr>
          else lm h (a, j)
        else lm h (a, j)))"
  using assms
proof (induction us arbitrary: i h l)
  case (Cons ur us)
  obtain u r where ur: "ur = (u, r)" by (cases ur)
  have l0: "lm h (u, i) = Some (l 0)" "u \<noteq> x" using Cons.prems(1,2) [of 0] ur by simp_all
  obtain lx where lx: "lm h (x, i) = Some lx" using Cons.prems(3) [of 0] by auto
  let ?lu = "\<lparr>z_forward = Some x, z_span = (u32_diff r0 r + 1) mod 2 ^ 32\<rparr>" and
    ?lx = "\<lparr>z_forward = z_forward (l 0), z_span = ul_diff (z_span (l 0)) (u32_diff r0 r)\<rparr>"
  obtain h1 where h1: "set_level h u i ?lu = Inr h1" "base h1 = base h" "lm h1 = (lm h)((u, i) \<mapsto> ?lu)"
    using set_level_ok [OF l0(1)] by blast
  have "lm h1 (x, i) = Some lx" using h1(3) lx l0(2) by simp
  from set_level_ok [OF this] obtain h2 where h2: "set_level h1 x i ?lx = Inr h2" "base h2 = base h1" "lm h2 = (lm h1)((x, i) \<mapsto> ?lx)" by blast
  have keep: "lm h2 (a, Suc i + j) = lm h (a, i + Suc j)" for a j using h1(3) h2(3) by simp
  have p: "lm h2 (fst (us ! j), Suc i + j) = Some (l (Suc j))" "fst (us ! j) \<noteq> x" "lm h2 (x, Suc i + j) \<noteq> None" if "j < length us" for j
    unfolding keep using Cons.prems [of "Suc j"] that by simp_all
  obtain h' where h': "link_levels h2 x r0 (Suc i) us = Inr h'" "base h' = base h2" "\<forall>a j. lm h' (a, j) =
       (if Suc i \<le> j \<and> j < Suc i + length us then
          if a = x then Some \<lparr>z_forward = z_forward (l (Suc (j - Suc i))), z_span = ul_diff (z_span (l (Suc (j - Suc i)))) (u32_diff r0 (snd (us ! (j - Suc i))))\<rparr>
          else if a = fst (us ! (j - Suc i)) then Some \<lparr>z_forward = Some x, z_span = (u32_diff r0 (snd (us ! (j - Suc i))) + 1) mod 2 ^ 32\<rparr>
          else lm h2 (a, j)
        else lm h2 (a, j))"
    using Cons.IH [of h2 "Suc i" "\<lambda>j. l (Suc j)"] p by blast
  have "link_levels h x r0 i (ur # us) = Inr h'" using ur l0(1) h1(1) h2(1) h'(1) by simp
  moreover have "lm h' (a, j) =
       (if i \<le> j \<and> j < i + length (ur # us) then
          if a = x then Some \<lparr>z_forward = z_forward (l (j - i)), z_span = ul_diff (z_span (l (j - i))) (u32_diff r0 (snd ((ur # us) ! (j - i))))\<rparr>
          else if a = fst ((ur # us) ! (j - i)) then Some \<lparr>z_forward = Some x, z_span = (u32_diff r0 (snd ((ur # us) ! (j - i))) + 1) mod 2 ^ 32\<rparr>
          else lm h (a, j)
        else lm h (a, j))" for a j
  proof (cases "j = i")
    case True
    then show ?thesis using h'(3) h2(3) h1(3) ur l0(2) by auto
  next
    case False
    then have "lm h2 (a, j) = lm h (a, j)" using h1(3) h2(3) by simp
    moreover have "j - i = Suc (j - Suc i)" if "Suc i \<le> j" using that by simp
    ultimately show ?thesis using h'(3) False by (auto simp: Suc_le_eq)
  qed
  ultimately show ?case using h'(2) h2(2) h1(2) by (intro exI [of _ h']) simp
qed auto

lemma widen_levels_ok:
  assumes "\<And>j. j < length us \<Longrightarrow> lm h (fst (us ! j), i + j) = Some (l j)"
  shows "\<exists>h'. widen_levels h i us = Inr h' \<and> base h' = base h \<and>
    (\<forall>a j. lm h' (a, j) =
       (if i \<le> j \<and> j < i + length us \<and> a = fst (us ! (j - i)) then Some ((l (j - i))\<lparr>z_span := (z_span (l (j - i)) + 1) mod 2 ^ 64\<rparr>) else lm h (a, j)))"
  using assms
proof (induction us arbitrary: i h l)
  case (Cons ur us)
  obtain u r where ur: "ur = (u, r)" by (cases ur)
  have l0: "lm h (u, i) = Some (l 0)" using Cons.prems(1) [of 0] ur by simp
  let ?lu = "(l 0)\<lparr>z_span := (z_span (l 0) + 1) mod 2 ^ 64\<rparr>"
  obtain h1 where h1: "set_level h u i ?lu = Inr h1" "base h1 = base h" "lm h1 = (lm h)((u, i) \<mapsto> ?lu)"
    using set_level_ok [OF l0(1)] by blast
  have p: "lm h1 (fst (us ! j), Suc i + j) = Some (l (Suc j))" if "j < length us" for j
    using Cons.prems [of "Suc j"] that h1(3) by simp
  obtain h' where h': "widen_levels h1 (Suc i) us = Inr h'" "base h' = base h1" "\<forall>a j. lm h' (a, j) =
       (if Suc i \<le> j \<and> j < Suc i + length us \<and> a = fst (us ! (j - Suc i))
        then Some ((l (Suc (j - Suc i)))\<lparr>z_span := (z_span (l (Suc (j - Suc i))) + 1) mod 2 ^ 64\<rparr>) else lm h1 (a, j))"
    using Cons.IH [of h1 "Suc i" "\<lambda>j. l (Suc j)"] p by blast
  have "widen_levels h i (ur # us) = Inr h'" using ur l0 h1(1) h'(1) by simp
  moreover have "lm h' (a, j) =
       (if i \<le> j \<and> j < i + length (ur # us) \<and> a = fst ((ur # us) ! (j - i)) then Some ((l (j - i))\<lparr>z_span := (z_span (l (j - i)) + 1) mod 2 ^ 64\<rparr>)
        else lm h (a, j))" for a j
  proof (cases "j = i")
    case True
    then show ?thesis using h'(3) h1(3) ur by auto
  next
    case False
    then have "lm h1 (a, j) = lm h (a, j)" using h1(3) by simp
    moreover have "j - i = Suc (j - Suc i)" if "Suc i \<le> j" using that by simp
    ultimately show ?thesis using h'(3) False by (auto simp: Suc_le_eq)
  qed
  ultimately show ?case using h'(2) h1(2) by (intro exI [of _ h']) simp
qed auto

lemma diff_exact: "b \<le> a \<Longrightarrow> a < 2 ^ 32 \<Longrightarrow> u32_diff a b = a - b" "b \<le> a \<Longrightarrow> a < 2 ^ 64 \<Longrightarrow> ul_diff a b = a - b"
proof -
  have m: "(a + (m - b)) mod m = a - b" if "b \<le> a" "a < m" for a b m :: nat
  proof -
    have "a + (m - b) = (a - b) + m" using that by simp
    then have "(a + (m - b)) mod m = (a - b) mod m" by (simp only: mod_add_self2)
    then show ?thesis using that by simp
  qed
  show "b \<le> a \<Longrightarrow> a < 2 ^ 32 \<Longrightarrow> u32_diff a b = a - b" "b \<le> a \<Longrightarrow> a < 2 ^ 64 \<Longrightarrow> ul_diff a b = a - b"
    using m [of b a "2 ^ 32"] m [of b a "2 ^ 64"] by (simp_all add: u32_diff_def ul_diff_def)
qed

lemma pv_bottom:
  assumes "shape z L" "r < length L"
  shows "pv (heights L) 0 r = r"
proof (rule pv_eqI)
  show "0 < heights L ! r" using shapeD(3) [OF assms(1)] shapeD(7) [OF assms(1), of r] assms(2) by (cases "r = 0") auto
qed auto

lemma pv_top:
  assumes "shape z L" "r < length L" "zlevel z \<le> i" "i < 64"
  shows "pv (heights L) i r = 0"
proof (rule pv_eqI)
  show "i < heights L ! 0" using shapeD(1,3) [OF assms(1)] assms(4) by simp
  show "heights L ! q \<le> i" if "0 < q" "q \<le> r" for q
    using shapeD(7) [OF assms(1) that(1)] that(2) assms(2,3) by fastforce
qed simp

lemma nx_top:
  assumes "shape z L" "zlevel z \<le> i"
  shows "nx (heights L) i 0 = length L"
proof (rule nx_eqI)
  show "heights L ! j \<le> i" if "0 < j" "j < length L" for j
    using shapeD(7) [OF assms(1) that] assms(2) that(2) by simp
qed (use shapeD(1) [OF assms(1)] in auto)

text \<open>Raising the level.\<close>

lemma grown:
  assumes rep: "zsl_rep h z L" and level: "zlevel z < level" "level \<le> 64"
  shows "\<exists>h1. grow_levels h (header z) (zlength z) (zlevel z) (level - zlevel z) = Inr h1 \<and> zsl_rep h1 (z\<lparr>zlevel := level\<rparr>) L \<and> base h1 = base h \<and>
    (\<forall>a j. a \<noteq> header z \<longrightarrow> lm h1 (a, j) = lm h (a, j))"
proof -
  have sh: "shape z L" and hp: "heap_rep h (zlevel z) L" using rep by (simp_all add: zsl_rep_def)
  note s = shapeD [OF sh]
  have L0: "0 < length L" using s(1) by simp
  have top: "\<exists>t. lm h (header z, j) = Some \<lparr>z_forward = None, z_span = t\<rparr>" if "zlevel z \<le> j" "j < 64" for j
    using hp [unfolded heap_rep_def, rule_format, OF L0] s(2,3) that by auto
  have some: "lm h (header z, j) \<noteq> None" if "zlevel z \<le> j" "j < zlevel z + (level - zlevel z)" for j
    using top [of j] that level by auto
  obtain h1 where h1: "grow_levels h (header z) (zlength z) (zlevel z) (level - zlevel z) = Inr h1" "base h1 = base h"
      "\<forall>b j. lm h1 (b, j) = (if b = header z \<and> zlevel z \<le> j \<and> j < zlevel z + (level - zlevel z)
         then map_option (\<lambda>l. l\<lparr>z_span := zlength z\<rparr>) (lm h (b, j)) else lm h (b, j))"
    using grow_levels_ok [of "zlevel z" "level - zlevel z" h "header z" "zlength z", OF some] by blast
  have "shape (z\<lparr>zlevel := level\<rparr>) L" using sh level s(7) unfolding shape_def ZSKIPLIST_MAXLEVEL_def by fastforce
  moreover have "heap_rep h1 level L"
    unfolding heap_rep_def
  proof (intro allI impI conjI)
    fix p assume p: "p < length L"
    show "base h1 (sn_addr (L ! p)) = Some (cell L p)" using h1(2) zsl_repD(1) [OF rep p] by simp
    fix i assume i: "i < sn_height (L ! p)"
    have hdr: "sn_addr (L ! p) = header z \<longleftrightarrow> p = 0" using s(2) addr_eq [OF sh p L0] by simp
    show "if i < level then lm h1 (sn_addr (L ! p), i) = Some (lev L i p) else \<exists>s. lm h1 (sn_addr (L ! p), i) = Some \<lparr>z_forward = None, z_span = s\<rparr>"
    proof (cases "i < zlevel z")
      case True
      then show ?thesis using zsl_repD(2) [OF rep p i True] h1(3) level by simp
    next
      case False
      then have p0: "p = 0" using s(7) [of p] i p by force
      have i64: "i < 64" using i p0 s(3) by simp
      obtain t where t: "lm h (header z, i) = Some \<lparr>z_forward = None, z_span = t\<rparr>" using top [of i] False i64 by auto
      have "lev L i 0 = \<lparr>z_forward = None, z_span = zlength z\<rparr>" using nx_top [OF sh, of i] False s(8) by (simp add: lev_def fw_def)
      then show ?thesis using h1(3) t False p0 s(2) level by auto
    qed
  qed
  ultimately show ?thesis using h1 by (auto simp: zsl_rep_def)
qed

text \<open>What insertion makes of the levels.\<close>

lemma nx_below:
  assumes "p \<le> r" "r < length hs" "i < hs ! p" "p \<noteq> pv hs i r"
  shows "nx hs i p \<le> r"
proof -
  have p: "p < length hs" using assms(1,2) by simp
  have "p < pv hs i r" using pv_greatest [OF assms(1,3)] assms(4) by simp
  then have "nx hs i p \<le> pv hs i r" using nx_bounds(4) [OF p] pv_pos [of hs i r] by (metis leD less_nat_zero_code not_gr_zero not_le)
  then show ?thesis using pv_le [of hs i r] by simp
qed

lemma lev_pv:
  assumes "r < length L" "i < sn_height (L ! 0)"
  shows "r - pv (heights L) i r \<le> z_span (lev L i (pv (heights L) i r))" "z_span (lev L i p) < length L"
proof -
  have "r < nx (heights L) i (pv (heights L) i r)" by (rule nx_pv) (use assms in \<open>cases L; simp\<close>)+
  then show "r - pv (heights L) i r \<le> z_span (lev L i (pv (heights L) i r))" using assms(1) by (auto simp: lev_def min_def)
  show "z_span (lev L i p) < length L" using assms(1) by (auto simp: lev_def min_def)
qed

lemma lev_ins:
  fixes x :: "'a snode" and L :: "'a snode list"
  assumes r: "r < length L" and i: "i < sn_height (L ! 0)"
  defines "L' \<equiv> ins (Suc r) x L" and "P \<equiv> pv (heights L) i r"
  shows "p \<le> r \<Longrightarrow> i < sn_height (L ! p) \<Longrightarrow> p \<noteq> P \<Longrightarrow> lev L' i p = lev L i p"
    "i < sn_height x \<Longrightarrow> lev L' i P = \<lparr>z_forward = Some (sn_addr x), z_span = r - P + 1\<rparr>"
    "sn_height x \<le> i \<Longrightarrow> lev L' i P = (lev L i P)\<lparr>z_span := z_span (lev L i P) + 1\<rparr>"
    "lev L' i (Suc r) = \<lparr>z_forward = z_forward (lev L i P), z_span = z_span (lev L i P) - (r - P)\<rparr>"
    "r < p \<Longrightarrow> p < length L \<Longrightarrow> lev L' i (Suc p) = lev L i p"
proof -
  let ?hs = "heights L"
  have hs: "heights L' = ins (Suc r) (sn_height x) ?hs" by (simp add: L'_def map_ins)
  have rl: "r < length ?hs" and i0: "i < ?hs ! 0" using r i by (cases L; simp)+
  have P: "P \<le> r" unfolding P_def by (rule pv_le)
  then have Pl: "P < length ?hs" using rl by simp
  have nP: "Suc r \<le> nx ?hs i P" using nx_pv [OF rl i0] by (simp add: P_def)
  have k: "0 < Suc r" "Suc r \<le> length ?hs" using rl by simp_all
  have len: "length L' = Suc (length L)" by (simp add: L'_def)
  have nth: "L' ! j = (if j < Suc r then L ! j else if j = Suc r then x else L ! (j - 1))" if "j \<le> length L" for j
    unfolding L'_def using that r by (intro ins_nth) simp_all
  note ins = nx_ins [OF k]
  have nl: "nx ?hs i P \<le> length L" using nx_bounds(2) [OF Pl, of i] by simp
  show "lev L' i p = lev L i p" if p: "p \<le> r" "i < sn_height (L ! p)" "p \<noteq> P"
  proof -
    have pl: "p < length ?hs" using p(1) rl by simp
    have n: "nx ?hs i p \<le> r" by (rule nx_below) (use p rl r in \<open>simp_all add: P_def\<close>)
    then have "nx (heights L') i p = nx ?hs i p" unfolding hs using ins(1) [OF pl] p(1) by simp
    then show ?thesis using n r nth [of "nx ?hs i p"] by (simp add: lev_def fw_def len min_def)
  qed
  show "lev L' i P = \<lparr>z_forward = Some (sn_addr x), z_span = r - P + 1\<rparr>" if "i < sn_height x"
  proof -
    have "nx (heights L') i P = Suc r" unfolding hs using ins(1) [OF Pl] P nP that by simp
    then show ?thesis using nth [of "Suc r"] r P by (simp add: lev_def fw_def len)
  qed
  show "lev L' i P = (lev L i P)\<lparr>z_span := z_span (lev L i P) + 1\<rparr>" if "sn_height x \<le> i"
  proof -
    have "nx (heights L') i P = Suc (nx ?hs i P)" unfolding hs using ins(1) [OF Pl] P nP that by simp
    then show ?thesis using nth [of "Suc (nx ?hs i P)"] nP r P nl by (auto simp: lev_def fw_def len min_def)
  qed
  show "lev L' i (Suc r) = \<lparr>z_forward = z_forward (lev L i P), z_span = z_span (lev L i P) - (r - P)\<rparr>"
  proof -
    have "nx (heights L') i (Suc r) = Suc (nx ?hs i P)" unfolding hs using ins(3) [OF Pl] P nP by simp
    then show ?thesis using nth [of "Suc (nx ?hs i P)"] nP r P nl by (auto simp: lev_def fw_def len min_def)
  qed
  show "lev L' i (Suc p) = lev L i p" if p: "r < p" "p < length L"
  proof -
    have pl: "p < length ?hs" using p by simp
    have n: "nx (heights L') i (Suc p) = Suc (nx ?hs i p)" unfolding hs using ins(2) [OF pl] p(1) by simp
    have "p < nx ?hs i p" "nx ?hs i p \<le> length L" using nx_bounds(1,2) [OF pl, of i] by simp_all
    then show ?thesis using n nth [of "Suc (nx ?hs i p)"] p by (auto simp: lev_def fw_def len min_def)
  qed
qed

lemma insert_links:
  fixes L :: "('a :: linorder) snode list" and key :: "'a \<times> byte list"
  assumes rep: "zsl_rep h z L" and r: "r < length L" and level: "1 \<le> level" "level \<le> zlevel z"
    and new: "\<And>p. p < length L \<Longrightarrow> sn_addr (L ! p) \<noteq> new" and c: "length (z_level c) = level" and len: "length L < 2 ^ 32"
  defines "us \<equiv> map (\<lambda>i. (sn_addr (L ! pv (heights L) i r), pv (heights L) i r)) [0..<zlevel z]"
    and "L' \<equiv> ins (Suc r) \<lparr>sn_addr = new, sn_key = key, sn_height = level\<rparr> L" and "h2 \<equiv> h(new \<mapsto> c)"
  shows "\<exists>h3 h4. link_levels h2 new r 0 (take level us) = Inr h3 \<and> widen_levels h3 level (drop level us) = Inr h4 \<and> base h4 = base h2 \<and>
    (\<forall>p i. p < length L \<and> i < sn_height (L ! p) \<and> i < zlevel z \<longrightarrow> lm h4 (sn_addr (L ! p), i) = Some (lev L' i (if p \<le> r then p else Suc p))) \<and>
    (\<forall>i < level. lm h4 (new, i) = Some (lev L' i (Suc r))) \<and>
    (\<forall>a i. zlevel z \<le> i \<or> a \<noteq> new \<and> a \<notin> sn_addr ` set L \<longrightarrow> lm h4 (a, i) = lm h2 (a, i))"
proof -
  have sh: "shape z L" using rep by (simp add: zsl_rep_def)
  note s = shapeD [OF sh]
  let ?pv = "\<lambda>i. pv (heights L) i r" and ?x = "\<lparr>sn_addr = new, sn_key = key, sn_height = level\<rparr>"
  have us: "length us = zlevel z" "\<And>j. j < zlevel z \<Longrightarrow> us ! j = (sn_addr (L ! ?pv j), ?pv j)" by (simp_all add: us_def)
  have i0: "i < sn_height (L ! 0)" if "i < zlevel z" for i using s(3,6) that by simp
  have pvl: "?pv i < length L" for i using pv_le [of "heights L" i r] r by simp
  have ph: "i < sn_height (L ! ?pv i)" if "i < zlevel z" for i
    using pv_height [of i "heights L" r] i0 [OF that] pvl [of i] s(1) by simp
  have old: "lm h2 (sn_addr (L ! p), i) = lm h (sn_addr (L ! p), i)" if "p < length L" for p i
    using new [OF that] by (simp add: h2_def lm_def)
  have lpv: "lm h2 (sn_addr (L ! ?pv i), i) = Some (lev L i (?pv i))" if "i < zlevel z" for i
    using old [OF pvl] zsl_repD(2) [OF rep pvl ph [OF that] that] by simp
  note ins = lev_ins [OF r i0, where x = ?x, folded L'_def]
  have d: "u32_diff r (?pv i) = r - ?pv i" for i using diff_exact(1) [OF pv_le [of "heights L" i r]] r len by simp
  have sp: "z_span (lev L i (?pv i)) < 2 ^ 32" "r - ?pv i \<le> z_span (lev L i (?pv i))" if "i < zlevel z" for i
    using lev_pv(1) [OF r i0 [OF that]] lev_pv(2) [OF r i0 [OF that], of "?pv i"] len by simp_all
  obtain h3 where h3: "link_levels h2 new r 0 (take level us) = Inr h3" "base h3 = base h2"
    "\<forall>a j. lm h3 (a, j) = (if 0 \<le> j \<and> j < 0 + length (take level us) then
          if a = new then Some \<lparr>z_forward = z_forward (lev L (j - 0) (?pv (j - 0))), z_span = ul_diff (z_span (lev L (j - 0) (?pv (j - 0)))) (u32_diff r (snd (take level us ! (j - 0))))\<rparr>
          else if a = fst (take level us ! (j - 0)) then Some \<lparr>z_forward = Some new, z_span = (u32_diff r (snd (take level us ! (j - 0))) + 1) mod 2 ^ 32\<rparr>
          else lm h2 (a, j)
        else lm h2 (a, j))"
    using link_levels_ok [of "take level us" h2 0 "\<lambda>j. lev L j (?pv j)" new r] us level lpv new [OF pvl] c by (auto simp: h2_def lm_def)
  have l3: "lm h3 (a, j) = (if j < level then
          if a = new then Some (lev L' j (Suc r))
          else if a = sn_addr (L ! ?pv j) then Some (lev L' j (?pv j)) else lm h2 (a, j)
        else lm h2 (a, j))" for a j
  proof (cases "j < level")
    case True
    then have j: "j < zlevel z" using level by simp
    have "ul_diff (z_span (lev L j (?pv j))) (r - ?pv j) = z_span (lev L j (?pv j)) - (r - ?pv j)"
      using sp [OF j] by (intro diff_exact(2)) simp_all
    moreover have "(r - ?pv j + 1) mod 2 ^ 32 = r - ?pv j + 1" using r len by simp
    ultimately show ?thesis using h3(3) True us j d ins(2,4) [OF j] by simp
  qed (use h3(3) us level in simp)
  have lw: "lm h3 (fst (drop level us ! j), level + j) = Some (lev L (level + j) (?pv (level + j)))" if "j < length (drop level us)" for j
    using that us l3 lpv by simp
  obtain h4 where h4: "widen_levels h3 level (drop level us) = Inr h4" "base h4 = base h3"
    "\<forall>a j. lm h4 (a, j) = (if level \<le> j \<and> j < level + length (drop level us) \<and> a = fst (drop level us ! (j - level))
        then Some ((lev L (level + (j - level)) (?pv (level + (j - level))))\<lparr>z_span := (z_span (lev L (level + (j - level)) (?pv (level + (j - level)))) + 1) mod 2 ^ 64\<rparr>)
        else lm h3 (a, j))"
    using widen_levels_ok [of "drop level us" h3 level "\<lambda>j. lev L (level + j) (?pv (level + j))", OF lw] by blast
  have l4: "lm h4 (a, j) = (if j < zlevel z \<and> a = sn_addr (L ! ?pv j) then Some (lev L' j (?pv j))
      else if j < level \<and> a = new then Some (lev L' j (Suc r)) else lm h2 (a, j))" for a j
  proof (cases "j < level")
    case True
    then show ?thesis using h4(3) l3 level new [OF pvl] by auto
  next
    case False
    have "(z_span (lev L j (?pv j)) + 1) mod 2 ^ 64 = z_span (lev L j (?pv j)) + 1" if "j < zlevel z" using sp(1) [OF that] by simp
    then show ?thesis using h4(3) l3 us False ins(3) [of j] by auto
  qed
  have "lm h4 (sn_addr (L ! p), i) = Some (lev L' i (if p \<le> r then p else Suc p))"
    if p: "p < length L" "i < sn_height (L ! p)" "i < zlevel z" for p i
    using l4 [of "sn_addr (L ! p)" i] addr_eq [OF sh p(1) pvl, of i] new [OF p(1)] old [OF p(1)] zsl_repD(2) [OF rep p] ins(1) [OF p(3) _ p(2)] ins(5) [OF p(3) _ p(1)] pv_le [of "heights L" i r] p(3)
    by auto
  moreover have "lm h4 (new, i) = Some (lev L' i (Suc r))" if "i < level" for i using l4 [of new i] that new [OF pvl] by auto
  moreover have "lm h4 (a, i) = lm h2 (a, i)" if "zlevel z \<le> i \<or> a \<noteq> new \<and> a \<notin> sn_addr ` set L" for a i
    using l4 [of a i] that nth_mem [OF pvl] level by auto
  ultimately show ?thesis using h3(1) h4(1,2) h3(2) by (intro exI [of _ h3] exI [of _ h4]) simp
qed

lemma level_loop_ge: "level_loop l r = Some y \<Longrightarrow> l \<le> fst y"
  by (erule level_loop.raw_induct [where P = "\<lambda>l r y. l \<le> fst y", rotated]) (fastforce split: prod.splits if_splits)

lemma random_level: "zslRandomLevel r = Some (level, r') \<Longrightarrow> 1 \<le> level \<and> level \<le> 64"
  using level_loop_ge [of 1 r] by (fastforce simp: zslRandomLevel_def ZSKIPLIST_MAXLEVEL_def split: option.splits if_splits)

lemma sorted_ins:
  assumes "sorted_wrt (<) (map f xs)" "\<And>j. j < length xs \<Longrightarrow> f (xs ! j) < f x \<longleftrightarrow> j < k" "\<And>j. j < length xs \<Longrightarrow> f (xs ! j) \<noteq> f x" "k \<le> length xs"
  shows "sorted_wrt (<) (map (f :: 'b \<Rightarrow> 'c :: linorder) (ins k x xs))"
proof -
  have t: "f y < f x" if "y \<in> set (take k xs)" for y using that assms(2,4) by (auto simp: in_set_conv_nth)
  have d: "f x < f y" if y: "y \<in> set (drop k xs)" for y
  proof -
    obtain j where "j < length (drop k xs)" "drop k xs ! j = y" using y in_set_conv_nth [of y "drop k xs"] by blast
    then have j: "k + j < length xs" "y = xs ! (k + j)" using assms(4) by simp_all
    then show ?thesis using assms(2,3) [of "k + j"] by auto
  qed
  have "sorted_wrt (<) (map f (take k xs) @ map f (drop k xs))" using assms(1) by (metis append_take_drop_id map_append)
  then show ?thesis using t d by (auto simp: ins_def sorted_wrt_append)
qed

lemma tl_ins: "xs \<noteq> [] \<Longrightarrow> tl (ins (Suc k) x xs) = ins k x (tl xs)"
  by (cases xs) (simp_all add: ins_def)

text \<open>The cells of the list with the new node, from those without.\<close>

lemma cell_ins:
  fixes x :: "'a snode" and L :: "'a snode list"
  assumes r: "r < length L"
  defines "L' \<equiv> ins (Suc r) x L"
  shows "p \<le> r \<Longrightarrow> cell L' p = cell L p"
    "cell L' (Suc r) = \<lparr>b_ele = Some (snd (sn_key x)), b_score = fst (sn_key x), b_back = (if r = 0 then None else Some (sn_addr (L ! r))), b_height = sn_height x\<rparr>"
    "Suc r < length L \<Longrightarrow> cell L' (Suc (Suc r)) = (cell L (Suc r))\<lparr>b_back := Some (sn_addr x)\<rparr>"
    "Suc r < p \<Longrightarrow> p < length L \<Longrightarrow> cell L' (Suc p) = cell L p"
proof -
  have nth: "L' ! j = (if j < Suc r then L ! j else if j = Suc r then x else L ! (j - 1))" if "j \<le> length L" for j
    unfolding L'_def using that r by (intro ins_nth) simp_all
  show "p \<le> r \<Longrightarrow> cell L' p = cell L p"
    "cell L' (Suc r) = \<lparr>b_ele = Some (snd (sn_key x)), b_score = fst (sn_key x), b_back = (if r = 0 then None else Some (sn_addr (L ! r))), b_height = sn_height x\<rparr>"
    "Suc r < length L \<Longrightarrow> cell L' (Suc (Suc r)) = (cell L (Suc r))\<lparr>b_back := Some (sn_addr x)\<rparr>"
    "Suc r < p \<Longrightarrow> p < length L \<Longrightarrow> cell L' (Suc p) = cell L p"
    using r by (auto simp: cell_def nth)
qed

lemma shape_ins:
  fixes L :: "('a :: linorder) snode list"
  assumes sh: "shape z L" and r: "r = reach (\<lambda>n. sn_key n < sn_key x) L" and fresh: "sn_addr x \<notin> sn_addr ` set L" "sn_key x \<notin> sn_key ` set (tl L)"
    and x: "1 \<le> sn_height x" "sn_height x \<le> zlevel z" and len: "length L < 2 ^ 32"
    and z': "z' = z\<lparr>zlength := length L, tail := (if Suc r < length L then tail z else Some (sn_addr x))\<rparr>"
  shows "shape z' (ins (Suc r) x L)" "r < length L"
proof -
  note s = shapeD [OF sh]
  have mono: "\<And>a b. b < sn_key x \<Longrightarrow> a < b \<Longrightarrow> a < sn_key x" by (rule less_trans)
  show rl: "r < length L"
    using length_takeWhile_le [of "\<lambda>n. sn_key n < sn_key x" "tl L"] s(1) by (cases L) (auto simp: r reach_def)
  have nth: "ins (Suc r) x L ! j = (if j < Suc r then L ! j else if j = Suc r then x else L ! (j - 1))" if "j \<le> length L" for j
    using that rl by (intro ins_nth) simp_all
  have "sorted_wrt (<) (map sn_key (ins r x (tl L)))"
  proof (rule sorted_ins)
    show "sorted_wrt (<) (map sn_key (tl L))" using sh by (simp add: shape_def)
    show "sn_key (tl L ! j) < sn_key x \<longleftrightarrow> j < r" if "j < length (tl L)" for j
      using reach_iff(1) [OF sh, where P = "\<lambda>a. a < sn_key x" and q = "Suc j"] mono that by (simp add: r nth_tl Suc_le_eq)
    show "sn_key (tl L ! j) \<noteq> sn_key x" if "j < length (tl L)" for j using fresh(2) nth_mem [OF that] by (metis imageI)
  qed (use rl in simp)
  then have sorted: "sorted_wrt (<) (map sn_key (tl (ins (Suc r) x L)))" using s(1) by (simp add: tl_ins)
  have "distinct (map sn_addr L)" using sh by (simp add: shape_def)
  then have "distinct (map sn_addr (take (Suc r) L) @ map sn_addr (drop (Suc r) L))" by (metis append_take_drop_id map_append)
  then have dist: "distinct (map sn_addr (ins (Suc r) x L))"
    using fresh(1) by (auto simp: ins_def dest: in_set_takeD in_set_dropD)
  have hs: "1 \<le> sn_height (ins (Suc r) x L ! p) \<and> sn_height (ins (Suc r) x L ! p) \<le> zlevel z" if "0 < p" "p < Suc (length L)" for p
    using that x s(7) [of p] s(7) [of "p - 1"] rl by (auto simp: nth)
  have "last (ins (Suc r) x L) = (if Suc r < length L then last L else x)" using rl by (simp add: ins_def last_drop)
  then have tl: "tail z' = Some (sn_addr (last (ins (Suc r) x L)))" using sh z' rl by (auto simp: shape_def)
  have ne: "ins (Suc r) x L \<noteq> []" by (simp add: ins_def)
  show "shape z' (ins (Suc r) x L)"
    using s sorted dist hs tl ne len rl nth [of 0] unfolding shape_def z' by (simp add: ZSKIPLIST_MAXLEVEL_def)
qed

lemma rep_frame:
  assumes "zsl_rep h z L" "\<And>p. p < length L \<Longrightarrow> base h' (sn_addr (L ! p)) = base h (sn_addr (L ! p))"
    "\<And>p i. p < length L \<Longrightarrow> lm h' (sn_addr (L ! p), i) = lm h (sn_addr (L ! p), i)"
  shows "zsl_rep h' z L"
  using assms by (simp add: zsl_rep_def heap_rep_def)

text \<open>The part of \<open>zslInsert\<close> after the search and the raising of the level.\<close>

lemma insert_node:
  fixes L :: "('a :: linorder) snode list"
  assumes rep: "zsl_rep h z L" and new: "h new = None" and key: "(score, ele) \<notin> sn_key ` set (tl L)" and len: "length L < 2 ^ 32"
    and level: "1 \<le> level" "level \<le> zlevel z"
    and r_def: "r = reach (\<lambda>n. sn_key n < (score, ele)) L"
    and us_def: "us = map (\<lambda>i. (sn_addr (L ! pv (heights L) i r), pv (heights L) i r)) [0..<zlevel z]"
    and x_def: "x = \<lparr>sn_addr = new, sn_key = (score, ele), sn_height = level\<rparr>"
  shows "\<exists>z' h'. cbind (rd us 0) (\<lambda>(u0, rank0).
       cbind (link_levels (h(new \<mapsto> zslCreateNode junk level score (Some ele))) new rank0 0 (take level us)) (\<lambda>h.
       cbind (widen_levels h level (drop level us)) (\<lambda>h.
       cbind (set_backward h new (if u0 = header z then None else Some u0)) (\<lambda>h.
       cbind (level_at h new 0) (\<lambda>l.
       cbind (case z_forward l of
                Some y \<Rightarrow> cbind (set_backward h y (Some new)) (\<lambda>h. Inr (z, h))
              | None \<Rightarrow> Inr (z\<lparr>tail := Some new\<rparr>, h)) (\<lambda>(z, h).
       Inr (new, z\<lparr>zlength := (zlength z + 1) mod 2 ^ 64\<rparr>, h, rnd))))))) = Inr (new, z', h', rnd) \<and>
     zsl_rep h' z' (ins (Suc r) x L) \<and> header z' = header z \<and> (\<forall>a. a \<noteq> new \<and> a \<notin> sn_addr ` set L \<longrightarrow> h' a = h a)"
proof -
  have sh: "shape z L" using rep by (simp add: zsl_rep_def)
  note s = shapeD [OF sh]
  have fresh: "sn_addr (L ! p) \<noteq> new" if "p < length L" for p using zsl_repD(1) [OF rep that] new by (auto simp: base_def)
  then have nin: "new \<notin> sn_addr ` set L" by (metis image_iff in_set_conv_nth)
  let ?c = "zslCreateNode junk level score (Some ele)" and ?L = "ins (Suc r) x L"
  let ?h2 = "h(new \<mapsto> ?c)"
  define z' where "z' = z\<lparr>zlength := length L, tail := (if Suc r < length L then tail z else Some (sn_addr x))\<rparr>"
  have rx: "r = reach (\<lambda>n. sn_key n < sn_key x) L" by (simp add: r_def x_def)
  have sh': "shape z' ?L" and r: "r < length L"
    using shape_ins [OF sh rx _ _ _ _ len z'_def] nin key level by (simp_all add: x_def)
  have c: "length (z_level ?c) = level" by (simp add: zslCreateNode_def)
  obtain h3 h4 where h3: "link_levels ?h2 new r 0 (take level us) = Inr h3" and h4: "widen_levels h3 level (drop level us) = Inr h4" "base h4 = base ?h2"
      "\<forall>p i. p < length L \<and> i < sn_height (L ! p) \<and> i < zlevel z \<longrightarrow> lm h4 (sn_addr (L ! p), i) = Some (lev ?L i (if p \<le> r then p else Suc p))"
      "\<forall>i < level. lm h4 (new, i) = Some (lev ?L i (Suc r))" "\<forall>a i. zlevel z \<le> i \<or> a \<noteq> new \<and> a \<notin> sn_addr ` set L \<longrightarrow> lm h4 (a, i) = lm ?h2 (a, i)"
    using insert_links [OF rep r level fresh c len, where key = "(score, ele)"] unfolding us_def x_def by blast
  have u0: "rd us 0 = Inr (sn_addr (L ! r), r)" using s(5) pv_bottom [OF sh r] by (simp add: us_def)
  have hdr: "sn_addr (L ! r) = header z \<longleftrightarrow> r = 0" using addr_eq [OF sh r, of 0] s(1,2) by simp
  have b2: "base ?h2 new = Some \<lparr>b_ele = Some ele, b_score = score, b_back = z_backward junk, b_height = level\<rparr>"
    using c by (simp add: base_def zslCreateNode_def)
  let ?b = "if sn_addr (L ! r) = header z then None else Some (sn_addr (L ! r))"
  have "\<lparr>b_ele = Some ele, b_score = score, b_back = z_backward junk, b_height = level\<rparr>\<lparr>b_back := ?b\<rparr> = cell ?L (Suc r)"
    using hdr cell_ins(2) [OF r, of x] by (simp add: x_def)
  then obtain h5 where h5: "set_backward h4 new ?b = Inr h5" "base h5 = (base h4)(new \<mapsto> cell ?L (Suc r))" "lm h5 = lm h4"
    using set_backward_ok [OF b2 [folded h4(2)], of ?b] by metis
  have n0: "nx (heights L) 0 r = Suc r"
    by (rule nx_eqI) (use r s(7) [of "Suc r"] in auto)
  have "nx (heights ?L) 0 (Suc r) = Suc (Suc r)"
    using nx_ins(3) [of "Suc r" "heights L" r 0 level] r n0 by (simp add: map_ins x_def)
  moreover have "?L ! Suc (Suc r) = L ! Suc r" if "Suc r < length L" using that r by (simp add: ins_nth)
  ultimately have f: "z_forward (lev ?L 0 (Suc r)) = (if Suc r < length L then Some (sn_addr (L ! Suc r)) else None)" by (simp add: lev_def fw_def)
  have l0: "level_at h5 new 0 = Inr (lev ?L 0 (Suc r))" using h4(4) level(1) h5(3) by simp
  have zl: "(zlength z + 1) mod 2 ^ 64 = length L" using s(1,8) len by (cases L) simp_all
  obtain h6 where h6: "(case z_forward (lev ?L 0 (Suc r)) of
        Some y \<Rightarrow> cbind (set_backward h5 y (Some new)) (\<lambda>h. Inr (z, h)) | None \<Rightarrow> Inr (z\<lparr>tail := Some new\<rparr>, h5)) =
        Inr (if Suc r < length L then z else z\<lparr>tail := Some new\<rparr>, h6)" "lm h6 = lm h4"
      "base h6 = (if Suc r < length L then (base h5)(sn_addr (L ! Suc r) \<mapsto> (cell L (Suc r))\<lparr>b_back := Some new\<rparr>) else base h5)"
  proof (cases "Suc r < length L")
    case True
    have "base h5 (sn_addr (L ! Suc r)) = Some (cell L (Suc r))"
      using h5(2) h4(2) fresh [OF True] zsl_repD(1) [OF rep True] by (simp add: base_def)
    from set_backward_ok [OF this, of "Some new"] obtain h6 where "set_backward h5 (sn_addr (L ! Suc r)) (Some new) = Inr h6"
      "base h6 = (base h5)(sn_addr (L ! Suc r) \<mapsto> (cell L (Suc r))\<lparr>b_back := Some new\<rparr>)" "lm h6 = lm h5" by blast
    then show ?thesis using that [of h6] True f h5(3) by simp
  qed (use that f h5(3) in auto)
  have base6: "base h6 (sn_addr (?L ! p)) = Some (cell ?L p)" if p: "p < Suc (length L)" for p
  proof -
    have old: "base h5 (sn_addr (L ! q)) = Some (cell L q)" if "q < length L" for q
      using h5(2) h4(2) fresh [OF that] zsl_repD(1) [OF rep that] by (simp add: base_def)
    consider "p \<le> r" | "p = Suc r" | "p = Suc (Suc r)" | "Suc (Suc r) < p" by linarith
    then show ?thesis
    proof cases
      case 1
      then show ?thesis using h6(3) old [of p] cell_ins(1) [OF r 1, of x] addr_eq [OF sh, of p "Suc r"] r by (auto simp: ins_nth)
    next
      case 2
      then show ?thesis using h6(3) h5(2) fresh [of "Suc r"] r by (auto simp: ins_nth x_def)
    next
      case 3
      then show ?thesis using h6(3) cell_ins(3) [OF r, of x] p r by (simp add: ins_nth x_def)
    next
      case 4
      then obtain q where "p = Suc q" "Suc r < q" "q < length L" using p by (cases p) auto
      then show ?thesis using h6(3) old [of q] cell_ins(4) [OF r, of q x] addr_eq [OF sh, of q "Suc r"] r by (auto simp: ins_nth)
    qed
  qed
  have lm6: "if i < zlevel z then lm h6 (sn_addr (?L ! p), i) = Some (lev ?L i p) else \<exists>s. lm h6 (sn_addr (?L ! p), i) = Some \<lparr>z_forward = None, z_span = s\<rparr>"
    if p: "p < Suc (length L)" and i: "i < sn_height (?L ! p)" for p i
  proof (cases "p = Suc r")
    case True
    then show ?thesis using h6(2) h4(4) i level r by (simp add: ins_nth x_def)
  next
    case False
    define q where "q = (if p \<le> r then p else p - 1)"
    have q: "q < length L" "?L ! p = L ! q" "p = (if q \<le> r then q else Suc q)" using False p r by (auto simp: q_def ins_nth)
    show ?thesis
    proof (cases "i < zlevel z")
      case True
      then show ?thesis using h6(2) h4(3) q i by simp
    next
      case False
      then have "lm h6 (sn_addr (L ! q), i) = lm h (sn_addr (L ! q), i)" using h6(2) h4(5) fresh [OF q(1)] by (simp add: lm_def)
      then show ?thesis using rep q i False by (auto simp: zsl_rep_def heap_rep_def)
    qed
  qed
  have "zsl_rep h6 z' ?L" using sh' base6 lm6 by (simp add: zsl_rep_def heap_rep_def z'_def)
  moreover have "h6 a = h a" if a: "a \<noteq> new" "a \<notin> sn_addr ` set L" for a
  proof (rule heap_ext)
    have "a \<noteq> sn_addr (L ! Suc r)" if "Suc r < length L" using a(2) that by auto
    then show "base h6 a = base h a" using h6(3) h5(2) h4(2) a(1) by (simp add: base_def)
    show "lm h6 (a, i) = lm h (a, i)" for i using h6(2) h4(5) a by (simp add: lm_def)
  qed
  ultimately show ?thesis
    using u0 h3 h4(1) h5(1) l0 h6(1) zl by (intro exI [of _ z'] exI [of _ h6]) (simp add: z'_def x_def)
qed

lemma before_stops:
  assumes "zsl_rep h z L"
  shows "stops_at h L (\<lambda>n _. before score ele n) (reach (\<lambda>n. sn_key n < (score, ele)) L)"
  using stops_at_key [OF assms, where P = "\<lambda>k. k < (score, ele)"] by (simp add: before_key less_trans)

lemma zslInsert_ok:
  fixes L :: "('a :: linorder) snode list"
  assumes rep: "zsl_rep h z L" and new: "h new = None" and key: "(score, ele) \<notin> sn_key ` set (tl L)" and len: "length L < 2 ^ 32"
    and level: "zslRandomLevel rnd = Some (level, rnd')"
  shows "\<exists>z' h'. zslInsert junk new z h score ele rnd = Some (Inr (new, z', h', rnd')) \<and>
    zsl_rep h' z' (ins (Suc (reach (\<lambda>n. sn_key n < (score, ele)) L)) \<lparr>sn_addr = new, sn_key = (score, ele), sn_height = level\<rparr> L) \<and>
    header z' = header z \<and> (\<forall>a. a \<noteq> new \<and> a \<notin> sn_addr ` set L \<longrightarrow> h' a = h a)"
proof -
  have sh: "shape z L" using rep by (simp add: zsl_rep_def)
  note s = shapeD [OF sh]
  let ?r = "reach (\<lambda>n. sn_key n < (score, ele)) L"
  let ?us = "\<lambda>k. map (\<lambda>i. (sn_addr (L ! pv (heights L) i ?r), pv (heights L) i ?r)) [0..<k]"
  have lv: "1 \<le> level" "level \<le> 64" using random_level [OF level] by simp_all
  have search: "descend 32 (\<lambda>n _. before score ele n) h (zlevel z) (header z) 0 = Some (Inr (?us (zlevel z)))"
    using search_ok [OF rep before_stops [OF rep]] by simp
  have r: "?r < length L" using before_stops [OF rep, of score ele] by (simp add: stops_at_def)
  have "\<exists>z1 h1. (if level > zlevel z then
        cbind (grow_levels h (header z) (zlength z) (zlevel z) (level - zlevel z)) (\<lambda>h.
        Inr (?us (zlevel z) @ replicate (level - zlevel z) (header z, 0), z\<lparr>zlevel := level\<rparr>, h))
      else Inr (?us (zlevel z), z, h)) = Inr (?us (zlevel z1), z1, h1) \<and> zsl_rep h1 z1 L \<and> level \<le> zlevel z1 \<and> header z1 = header z \<and>
      h1 new = None \<and> (\<forall>a. a \<notin> sn_addr ` set L \<longrightarrow> h1 a = h a)"
  proof (cases "level > zlevel z")
    case True
    obtain h1 where h1: "grow_levels h (header z) (zlength z) (zlevel z) (level - zlevel z) = Inr h1" "zsl_rep h1 (z\<lparr>zlevel := level\<rparr>) L"
        "base h1 = base h" "\<forall>a j. a \<noteq> header z \<longrightarrow> lm h1 (a, j) = lm h (a, j)" using grown [OF rep True lv(2)] by blast
    have "header z \<in> sn_addr ` set L" using s(1,2) by (metis image_eqI length_greater_0_conv nth_mem)
    then have "a \<noteq> header z" if "a \<notin> sn_addr ` set L" for a using that by metis
    then have f: "h1 a = h a" if "a \<notin> sn_addr ` set L" for a
      by (intro heap_ext) (use h1(3,4) that in simp_all)
    have "base h1 new = None" using h1(3) new by (simp add: base_def)
    then have n: "h1 new = None" by (simp add: base_def)
    have "pv (heights L) i ?r = 0" if "zlevel z \<le> i" "i < level" for i using pv_top [OF sh r that(1)] that(2) lv(2) by simp
    then have "?us (zlevel z) @ replicate (level - zlevel z) (header z, 0) = ?us level"
      using True s(2) by (intro nth_equalityI) (auto simp: nth_append)
    then show ?thesis using True h1(1,2) f n by (intro exI [of _ "z\<lparr>zlevel := level\<rparr>"] exI [of _ h1]) simp
  next
    case False
    then show ?thesis using rep new by (intro exI [of _ z] exI [of _ h]) simp
  qed
  then obtain z1 h1 where g: "(if level > zlevel z then
        cbind (grow_levels h (header z) (zlength z) (zlevel z) (level - zlevel z)) (\<lambda>h.
        Inr (?us (zlevel z) @ replicate (level - zlevel z) (header z, 0), z\<lparr>zlevel := level\<rparr>, h))
      else Inr (?us (zlevel z), z, h)) = Inr (?us (zlevel z1), z1, h1)" "zsl_rep h1 z1 L" "level \<le> zlevel z1" "header z1 = header z"
      "h1 new = None" "\<forall>a. a \<notin> sn_addr ` set L \<longrightarrow> h1 a = h a" by blast
  from insert_node [OF g(2,5) key len lv(1) g(3) refl refl refl, of junk rnd'] g(4,6)
  show ?thesis unfolding zslInsert_def search level by (simp add: g(1) Let_def del: replicate.simps)
qed

section \<open>Deletion\<close>

definition rem :: "nat \<Rightarrow> 'b list \<Rightarrow> 'b list" where
  "rem k xs = take k xs @ drop (Suc k) xs"

lemma ins_rem: "k < length xs \<Longrightarrow> ins k (xs ! k) (rem k xs) = xs"
  by (simp add: ins_def rem_def id_take_nth_drop [symmetric] min_def)

lemma rem_length: "k < length xs \<Longrightarrow> length (rem k xs) = length xs - 1"
  by (simp add: rem_def)

lemma rem_nth: "k < length xs \<Longrightarrow> j < length xs - 1 \<Longrightarrow> rem k xs ! j = (if j < k then xs ! j else xs ! Suc j)"
  by (auto simp: rem_def nth_append)

lemma pv_cong: "(\<And>q. q \<le> r \<Longrightarrow> hs ! q = hs' ! q) \<Longrightarrow> pv hs i r = pv hs' i r"
  by (induction r) auto

lemma unlink_levels_ok:
  assumes "\<And>j. j < length us \<Longrightarrow> lm h (us ! j, i + j) = Some (l j)" "\<And>j. j < length us \<Longrightarrow> us ! j \<noteq> x"
    "\<And>j. j < length us \<Longrightarrow> z_forward (l j) = Some x \<Longrightarrow> lm h (x, i + j) = Some (lx j)"
  shows "\<exists>h'. unlink_levels h x i us = Inr h' \<and> base h' = base h \<and>
    (\<forall>a j. lm h' (a, j) =
       (if i \<le> j \<and> j < i + length us \<and> a = us ! (j - i) then
          Some (if z_forward (l (j - i)) = Some x
                then \<lparr>z_forward = z_forward (lx (j - i)), z_span = (z_span (l (j - i)) + ul_diff (z_span (lx (j - i))) 1) mod 2 ^ 64\<rparr>
                else (l (j - i))\<lparr>z_span := ul_diff (z_span (l (j - i))) 1\<rparr>)
        else lm h (a, j)))"
  using assms
proof (induction us arbitrary: i h l lx)
  case (Cons u us)
  have l0: "lm h (u, i) = Some (l 0)" "u \<noteq> x" "z_forward (l 0) = Some x \<Longrightarrow> lm h (x, i) = Some (lx 0)"
    using Cons.prems(1,2,3) [of 0] by simp_all
  let ?lu = "if z_forward (l 0) = Some x then \<lparr>z_forward = z_forward (lx 0), z_span = (z_span (l 0) + ul_diff (z_span (lx 0)) 1) mod 2 ^ 64\<rparr>
     else (l 0)\<lparr>z_span := ul_diff (z_span (l 0)) 1\<rparr>"
  obtain h1 where h1: "set_level h u i ?lu = Inr h1" "base h1 = base h" "lm h1 = (lm h)((u, i) \<mapsto> ?lu)"
    using set_level_ok [OF l0(1)] by blast
  have keep: "lm h1 (a, Suc i + j) = lm h (a, i + Suc j)" for a j using h1(3) by simp
  have p: "lm h1 (us ! j, Suc i + j) = Some (l (Suc j))" "us ! j \<noteq> x"
      "z_forward (l (Suc j)) = Some x \<Longrightarrow> lm h1 (x, Suc i + j) = Some (lx (Suc j))" if "j < length us" for j
    unfolding keep using Cons.prems [of "Suc j"] that by simp_all
  obtain h' where h': "unlink_levels h1 x (Suc i) us = Inr h'" "base h' = base h1" "\<forall>a j. lm h' (a, j) =
       (if Suc i \<le> j \<and> j < Suc i + length us \<and> a = us ! (j - Suc i) then
          Some (if z_forward (l (Suc (j - Suc i))) = Some x
                then \<lparr>z_forward = z_forward (lx (Suc (j - Suc i))), z_span = (z_span (l (Suc (j - Suc i))) + ul_diff (z_span (lx (Suc (j - Suc i)))) 1) mod 2 ^ 64\<rparr>
                else (l (Suc (j - Suc i)))\<lparr>z_span := ul_diff (z_span (l (Suc (j - Suc i)))) 1\<rparr>)
        else lm h1 (a, j))"
    using Cons.IH [of h1 "Suc i" "\<lambda>j. l (Suc j)" "\<lambda>j. lx (Suc j)"] p by blast
  have "unlink_levels h x i (u # us) = Inr h'" using l0 h1(1) h'(1) by (cases "z_forward (l 0) = Some x") simp_all
  moreover have "lm h' (a, j) =
       (if i \<le> j \<and> j < i + length (u # us) \<and> a = (u # us) ! (j - i) then
          Some (if z_forward (l (j - i)) = Some x
                then \<lparr>z_forward = z_forward (lx (j - i)), z_span = (z_span (l (j - i)) + ul_diff (z_span (lx (j - i))) 1) mod 2 ^ 64\<rparr>
                else (l (j - i))\<lparr>z_span := ul_diff (z_span (l (j - i))) 1\<rparr>)
        else lm h (a, j))" for a j
  proof (cases "j = i")
    case True
    then show ?thesis using h'(3) h1(3) by auto
  next
    case False
    then have "lm h1 (a, j) = lm h (a, j)" using h1(3) by simp
    moreover have "j - i = Suc (j - Suc i)" if "Suc i \<le> j" using that by simp
    ultimately show ?thesis using h'(3) False by (auto simp: Suc_le_eq)
  qed
  ultimately show ?case using h'(2) h1(2) by (intro exI [of _ h']) simp
qed auto

lemma drop_levels_ok:
  assumes "\<And>i. i < n \<Longrightarrow> \<exists>l. lm h (a, i) = Some l \<and> z_forward l = f i" "1 \<le> n"
  shows "\<exists>m. drop_levels h a n = Inr m \<and> 1 \<le> m \<and> m \<le> n \<and> (\<forall>i. m \<le> i \<and> i < n \<longrightarrow> f i = None) \<and> (1 < m \<longrightarrow> f (m - 1) \<noteq> None)"
  using assms
proof (induction n rule: less_induct)
  case (less n)
  show ?case
  proof (cases "1 < n")
    case False
    then show ?thesis using less.prems(2) by (subst drop_levels.simps) auto
  next
    case True
    obtain l where l: "lm h (a, n - 1) = Some l" "z_forward l = f (n - 1)" using less.prems(1) [of "n - 1"] True by auto
    show ?thesis
    proof (cases "f (n - 1)")
      case None
      obtain m where m: "drop_levels h a (n - 1) = Inr m" "1 \<le> m" "m \<le> n - 1" "\<forall>i. m \<le> i \<and> i < n - 1 \<longrightarrow> f i = None" "1 < m \<longrightarrow> f (m - 1) \<noteq> None"
        using less.IH [of "n - 1"] less.prems(1) True by fastforce
      have "f i = None" if "m \<le> i" "i < n" for i using m(4) None that by (cases "i = n - 1") auto
      moreover have "drop_levels h a n = Inr m" using True l None m(1) by (subst drop_levels.simps) simp
      ultimately show ?thesis using m by (intro exI [of _ m]) auto
    next
      case (Some y)
      then have "drop_levels h a n = Inr n" using True l by (subst drop_levels.simps) simp
      then show ?thesis using True Some by auto
    qed
  qed
qed

lemma ul_dec: "0 < a \<Longrightarrow> a + b < 2 ^ 64 \<Longrightarrow> (a + ul_diff b 1) mod 2 ^ 64 = a + b - 1"
proof -
  assume a: "0 < a" "a + b < 2 ^ 64"
  have "(a + ul_diff b 1) mod 2 ^ 64 = (a + (b + (2 ^ 64 - 1))) mod 2 ^ 64" by (simp add: ul_diff_def mod_add_right_eq)
  also have "a + (b + (2 ^ 64 - 1)) = (a + b - 1) + 2 ^ 64" using a by simp
  also have "(a + b - 1 + 2 ^ 64) mod 2 ^ 64 = (a + b - 1) mod 2 ^ 64" by (rule mod_add_self2)
  also have "\<dots> = a + b - 1" using a by simp
  finally show ?thesis .
qed

text \<open>The levels after unlinking the node at position \<open>k\<close>.\<close>

lemma unlinked:
  fixes L :: "('a :: linorder) snode list"
  assumes rep: "zsl_rep h z L" and k: "0 < k" "k < length L"
    and us: "us = map (\<lambda>i. sn_addr (L ! pv (heights L) i (k - 1))) [0..<zlevel z]"
  shows "\<exists>h'. unlink_levels h (sn_addr (L ! k)) 0 us = Inr h' \<and> base h' = base h \<and>
    (\<forall>p i. p < length L \<and> p \<noteq> k \<and> i < sn_height (L ! p) \<and> i < zlevel z \<longrightarrow>
       lm h' (sn_addr (L ! p), i) = Some (lev (rem k L) i (if p < k then p else p - 1))) \<and>
    (\<forall>a i. zlevel z \<le> i \<or> a \<notin> sn_addr ` set (rem k L) \<longrightarrow> lm h' (a, i) = lm h (a, i))"
proof -
  have sh: "shape z L" using rep by (simp add: zsl_rep_def)
  note s = shapeD [OF sh]
  define r where "r = k - 1"
  have kr: "k = Suc r" using k by (simp add: r_def)
  let ?L0 = "rem k L" and ?x = "L ! k" and ?pv = "\<lambda>i. pv (heights L) i r"
  have L: "L = ins (Suc r) ?x ?L0" using ins_rem [OF k(2)] by (simp add: kr)
  have l0: "length ?L0 = length L - 1" and nth0: "\<And>j. j < length L - 1 \<Longrightarrow> ?L0 ! j = (if j < k then L ! j else L ! Suc j)"
    using rem_length [OF k(2)] rem_nth [OF k(2)] by simp_all
  have rl: "r < length ?L0" "r < length L" using k kr l0 by simp_all
  have pv0: "pv (heights ?L0) i r = ?pv i" for i by (rule pv_cong) (use rl l0 nth0 kr in simp)
  have i0: "i < sn_height (?L0 ! 0)" if "i < zlevel z" for i using s(3,6) that nth0 [of 0] k by simp
  note ins = lev_ins [OF rl(1) i0, where x = ?x, folded L, unfolded pv0]
  have pvl: "?pv i < length L" "?pv i < k" for i using pv_le [of "heights L" i r] rl kr by simp_all
  have ph: "i < sn_height (L ! ?pv i)" if "i < zlevel z" for i
    using pv_height [of i "heights L" r] s(1,3,6) that pvl(1) [of i] by simp
  have lpv: "lm h (sn_addr (L ! ?pv i), i) = Some (lev L i (?pv i))" if "i < zlevel z" for i
    using zsl_repD(2) [OF rep pvl(1) ph [OF that] that] .
  have us': "length us = zlevel z" "\<And>j. j < zlevel z \<Longrightarrow> us ! j = sn_addr (L ! ?pv j)" by (simp_all add: us r_def)
  have fwd: "z_forward (lev L i (?pv i)) = Some (sn_addr ?x) \<longleftrightarrow> i < sn_height ?x" if i: "i < zlevel z" for i
  proof (cases "i < sn_height ?x")
    case True
    then show ?thesis using ins(2) [OF i True] by simp
  next
    case False
    have pl: "?pv i < length (heights L)" using pvl(1) [of i] by simp
    have "nx (heights L) i (?pv i) \<noteq> k" using nx_bounds(3) [OF pl, of i] False k by auto
    then show ?thesis using False addr_eq [OF sh _ k(2), of "nx (heights L) i (?pv i)"] by (auto simp: lev_def fw_def)
  qed
  have pre: "lm h (us ! j, 0 + j) = Some (lev L j (?pv j))" "us ! j \<noteq> sn_addr ?x"
      "z_forward (lev L j (?pv j)) = Some (sn_addr ?x) \<Longrightarrow> lm h (sn_addr ?x, 0 + j) = Some (lev L j k)" if "j < length us" for j
    using that us' lpv fwd zsl_repD(2) [OF rep k(2)] addr_eq [OF sh pvl(1) k(2), of j] pvl(2) [of j] by simp_all
  obtain h' where h': "unlink_levels h (sn_addr ?x) 0 us = Inr h'" "base h' = base h" "\<forall>a j. lm h' (a, j) =
       (if 0 \<le> j \<and> j < 0 + length us \<and> a = us ! (j - 0) then
          Some (if z_forward (lev L (j - 0) (?pv (j - 0))) = Some (sn_addr ?x)
                then \<lparr>z_forward = z_forward (lev L (j - 0) k), z_span = (z_span (lev L (j - 0) (?pv (j - 0))) + ul_diff (z_span (lev L (j - 0) k)) 1) mod 2 ^ 64\<rparr>
                else (lev L (j - 0) (?pv (j - 0)))\<lparr>z_span := ul_diff (z_span (lev L (j - 0) (?pv (j - 0)))) 1\<rparr>)
        else lm h (a, j))"
    using unlink_levels_ok [of us h 0 "\<lambda>j. lev L j (?pv j)" "sn_addr ?x" "\<lambda>j. lev L j k", OF pre] by blast
  have len: "length L \<le> 2 ^ 32" by (rule s(4))
  have lpv': "lm h' (sn_addr (L ! ?pv i), i) = Some (lev ?L0 i (?pv i))" if i: "i < zlevel z" for i
  proof (cases "i < sn_height ?x")
    case True
    have sp: "r - ?pv i \<le> z_span (lev ?L0 i (?pv i))" "z_span (lev ?L0 i (?pv i)) < length ?L0"
      using lev_pv(1) [OF rl(1) i0 [OF i], unfolded pv0] lev_pv(2) [OF rl(1) i0 [OF i]] by simp_all
    have "((r - ?pv i + 1) + ul_diff (z_span (lev ?L0 i (?pv i)) - (r - ?pv i)) 1) mod 2 ^ 64 = z_span (lev ?L0 i (?pv i))"
      using ul_dec [of "r - ?pv i + 1" "z_span (lev ?L0 i (?pv i)) - (r - ?pv i)"] sp len l0 by simp
    then show ?thesis using h'(3) us' i fwd [OF i] True ins(2) [OF i True] ins(4) [OF i] by (simp add: kr)
  next
    case False
    have "ul_diff (z_span (lev ?L0 i (?pv i)) + 1) 1 = z_span (lev ?L0 i (?pv i))"
      using diff_exact(2) [of 1 "z_span (lev ?L0 i (?pv i)) + 1"] lev_pv(2) [OF rl(1) i0 [OF i], of "?pv i"] len l0 by simp
    then show ?thesis using h'(3) us' i fwd [OF i] False ins(3) [OF i] by simp
  qed
  have "lm h' (sn_addr (L ! p), i) = Some (lev ?L0 i (if p < k then p else p - 1))"
    if p: "p < length L" "p \<noteq> k" "i < sn_height (L ! p)" "i < zlevel z" for p i
  proof (cases "p = ?pv i")
    case True
    then show ?thesis using lpv' [OF p(4)] pvl(2) [of i] by simp
  next
    case False
    have same: "lm h' (sn_addr (L ! p), i) = Some (lev L i p)"
      using h'(3) us' p(4) addr_eq [OF sh p(1) pvl(1), of i] False zsl_repD(2) [OF rep p(1,3,4)] by simp
    show ?thesis
    proof (cases "p < k")
      case True
      then show ?thesis using same ins(1) [OF p(4), of p] False p nth0 [of p] kr k(2) by simp
    next
      case False
      then obtain q where q: "p = Suc q" "r < q" "q < length ?L0" using p(1,2) kr l0 by (cases p) auto
      then show ?thesis using same ins(5) [OF p(4) q(2,3)] kr by simp
    qed
  qed
  moreover have "lm h' (a, i) = lm h (a, i)" if a: "zlevel z \<le> i \<or> a \<notin> sn_addr ` set ?L0" for a i
  proof -
    have "?L0 ! ?pv i = L ! ?pv i" "?pv i < length ?L0" using nth0 [of "?pv i"] pvl(2) [of i] k l0 by simp_all
    then have "sn_addr (L ! ?pv i) \<in> sn_addr ` set ?L0" by (metis image_eqI nth_mem)
    then show ?thesis using h'(3) us' a by auto
  qed
  ultimately show ?thesis using h'(1,2) by (intro exI [of _ h']) simp
qed

lemma sorted_rem: "sorted_wrt P xs \<Longrightarrow> sorted_wrt P (rem k xs)"
proof -
  assume "sorted_wrt P xs"
  then have "sorted_wrt P (take k xs @ drop k xs)" by simp
  then show ?thesis unfolding rem_def sorted_wrt_append
    by (metis (no_types, lifting) drop_Suc in_set_dropD drop_drop plus_1_eq_Suc sorted_wrt_drop)
qed

lemma set_rem: "k < length xs \<Longrightarrow> set xs = insert (xs ! k) (set (rem k xs))"
  using set_ins [of k "xs ! k" "rem k xs"] ins_rem [of k xs] by simp

lemma cell_rem:
  assumes k: "0 < k" "k < length L"
  shows "p < k \<Longrightarrow> cell (rem k L) p = cell L p"
    "Suc k < length L \<Longrightarrow> cell (rem k L) k = (cell L (Suc k))\<lparr>b_back := b_back (cell L k)\<rparr>"
    "k < p \<Longrightarrow> p < length L - 1 \<Longrightarrow> cell (rem k L) p = cell L (Suc p)"
  using assms by (auto simp: cell_def rem_nth)

lemma shape_rem:
  fixes L :: "('a :: linorder) snode list"
  assumes sh: "shape z L" and k: "0 < k" "k < length L" and m: "1 \<le> m" "m \<le> zlevel z"
    and hs: "\<And>p. 0 < p \<Longrightarrow> p < length L - 1 \<Longrightarrow> sn_height (rem k L ! p) \<le> m"
    and z': "z' = z\<lparr>zlevel := m, zlength := length L - 2, tail := (if Suc k < length L then tail z else b_back (cell L k))\<rparr>"
  shows "shape z' (rem k L)"
proof -
  note s = shapeD [OF sh]
  have l: "length (rem k L) = length L - 1" by (rule rem_length [OF k(2)])
  have ne: "rem k L \<noteq> []" using l k by (cases "rem k L") simp_all
  have "distinct (map sn_addr L)" using sh by (simp add: shape_def)
  then have dist: "distinct (map sn_addr (rem k L))"
    unfolding rem_def using set_take_disj_set_drop_if_distinct [of "map sn_addr L" k "Suc k"]
    by (simp add: take_map [symmetric] drop_map [symmetric])
  have "tl (rem k L) = rem (k - 1) (tl L)" using k by (cases L; cases k) (auto simp: rem_def)
  then have "map sn_key (tl (rem k L)) = rem (k - 1) (map sn_key (tl L))" by (simp add: rem_def take_map drop_map)
  then have sorted: "sorted_wrt (<) (map sn_key (tl (rem k L)))" using sorted_rem [of "(<)" "map sn_key (tl L)" "k - 1"] sh by (simp add: shape_def)
  have h1: "1 \<le> sn_height (rem k L ! p)" if "0 < p" "p < length L - 1" for p
    using s(7) [of p] s(7) [of "Suc p"] that rem_nth [OF k(2) that(2)] by auto
  have last: "last (rem k L) = (if Suc k < length L then last L else L ! (k - 1))"
  proof (cases "Suc k < length L")
    case True
    then show ?thesis by (simp add: rem_def last_drop)
  next
    case False
    then have "rem k L = take k L" by (simp add: rem_def)
    then show ?thesis using False k by (cases L) (auto simp: last_conv_nth)
  qed
  have "length L = Suc k" if "\<not> Suc k < length L" using that k by simp
  then have tl: "tail z' = (if length (rem k L) = 1 then None else Some (sn_addr (last (rem k L))))"
    using sh z' last l k by (auto simp: shape_def cell_def)
  show ?thesis
    using s ne dist sorted h1 hs m l rem_nth [OF k(2), of 0] k unfolding shape_def tl by (auto simp: z' ZSKIPLIST_MAXLEVEL_def)
qed

lemma addr_rem:
  assumes sh: "shape z L" and k: "k < length L"
  shows "sn_addr (L ! k) \<notin> sn_addr ` set (rem k L)"
proof
  assume "sn_addr (L ! k) \<in> sn_addr ` set (rem k L)"
  then obtain j where j: "j < length L - 1" "sn_addr (rem k L ! j) = sn_addr (L ! k)" using rem_length [OF k] by (auto simp: in_set_conv_nth)
  have "Suc j < length L" using j(1) by simp
  then show False using j addr_eq [OF sh _ k, of "if j < k then j else Suc j"] rem_nth [OF k j(1)] k by (auto split: if_splits)
qed

lemma zslDeleteNode_ok:
  fixes L :: "('a :: linorder) snode list"
  assumes rep: "zsl_rep h z L" and k: "0 < k" "k < length L"
    and us: "take (zlevel z) update = map (\<lambda>i. sn_addr (L ! pv (heights L) i (k - 1))) [0..<zlevel z]"
  shows "\<exists>z' h'. zslDeleteNode z h (sn_addr (L ! k)) update = Inr (z', h') \<and> zsl_rep h' z' (rem k L) \<and> header z' = header z \<and>
    zlevel z' \<le> zlevel z \<and> (\<forall>a. a \<notin> sn_addr ` set (rem k L) \<longrightarrow> h' a = h a)"
proof -
  have sh: "shape z L" using rep by (simp add: zsl_rep_def)
  note s = shapeD [OF sh]
  let ?L0 = "rem k L" and ?x = "sn_addr (L ! k)"
  have l0: "length ?L0 = length L - 1" and nth0: "\<And>j. j < length L - 1 \<Longrightarrow> ?L0 ! j = (if j < k then L ! j else L ! Suc j)"
    using rem_length [OF k(2)] rem_nth [OF k(2)] by simp_all
  obtain h1 where h1: "unlink_levels h ?x 0 (take (zlevel z) update) = Inr h1" "base h1 = base h"
      "\<forall>p i. p < length L \<and> p \<noteq> k \<and> i < sn_height (L ! p) \<and> i < zlevel z \<longrightarrow>
         lm h1 (sn_addr (L ! p), i) = Some (lev ?L0 i (if p < k then p else p - 1))"
      "\<forall>a i. zlevel z \<le> i \<or> a \<notin> sn_addr ` set ?L0 \<longrightarrow> lm h1 (a, i) = lm h (a, i)"
    using unlinked [OF rep k us] by blast
  have xin: "?x \<notin> sn_addr ` set ?L0" by (rule addr_rem [OF sh k(2)])
  have kh: "0 < sn_height (L ! k)" using s(7) [OF k] by simp
  have f: "z_forward (lev L 0 k) = (if Suc k < length L then Some (sn_addr (L ! Suc k)) else None)"
  proof -
    have "nx (heights L) 0 k = Suc k" by (rule nx_eqI) (use k s(7) [of "Suc k"] in auto)
    then show ?thesis by (simp add: lev_def fw_def)
  qed
  have l: "level_at h1 ?x 0 = Inr (lev L 0 k)" using h1(4) xin zsl_repD(2) [OF rep k(2) kh] s(5) by simp
  have b: "base h1 (sn_addr (L ! p)) = Some (cell L p)" if "p < length L" for p using h1(2) zsl_repD(1) [OF rep that] by simp
  obtain n where n: "zget h1 ?x = Inr n" "z_backward n = b_back (cell L k)" using base_get [OF b [OF k(2)]] by blast
  let ?z1 = "if Suc k < length L then z else z\<lparr>tail := z_backward n\<rparr>"
  obtain h2 where h2: "(case z_forward (lev L 0 k) of
        Some y \<Rightarrow> cbind (set_backward h1 y (z_backward n)) (\<lambda>h. Inr (z, h)) | None \<Rightarrow> Inr (z\<lparr>tail := z_backward n\<rparr>, h1)) = Inr (?z1, h2)"
      "lm h2 = lm h1"
      "base h2 = (if Suc k < length L then (base h)(sn_addr (L ! Suc k) \<mapsto> (cell L (Suc k))\<lparr>b_back := b_back (cell L k)\<rparr>) else base h)"
  proof (cases "Suc k < length L")
    case True
    from set_backward_ok [OF b [OF True], of "z_backward n"] obtain h2 where "set_backward h1 (sn_addr (L ! Suc k)) (z_backward n) = Inr h2"
      "base h2 = (base h1)(sn_addr (L ! Suc k) \<mapsto> (cell L (Suc k))\<lparr>b_back := z_backward n\<rparr>)" "lm h2 = lm h1" by blast
    then show ?thesis using that [of h2] True f h1(2) n(2) by simp
  qed (use that f h1(2) in auto)
  have lv: "lm h2 (sn_addr (?L0 ! p), i) = Some (lev ?L0 i p)" if p: "p < length L - 1" and i: "i < sn_height (?L0 ! p)" "i < zlevel z" for p i
  proof -
    define q where "q = (if p < k then p else Suc p)"
    have q: "q < length L" "q \<noteq> k" "?L0 ! p = L ! q" "p = (if q < k then q else q - 1)" using p k nth0 [OF p] by (auto simp: q_def)
    then show ?thesis using h2(2) h1(3) i by simp
  qed
  have hdr: "?L0 ! 0 = L ! 0" using nth0 [of 0] k by simp
  have l1: "0 < length L - 1" using k by simp
  obtain m where m: "drop_levels h2 (header z) (zlevel z) = Inr m" "1 \<le> m" "m \<le> zlevel z" "\<forall>i. m \<le> i \<and> i < zlevel z \<longrightarrow> fw ?L0 i 0 = None"
    using drop_levels_ok [of "zlevel z" h2 "header z" "\<lambda>i. fw ?L0 i 0"] lv [OF l1] hdr s(2,3,5,6) by (auto simp: lev_def)
  have hs: "sn_height (?L0 ! p) \<le> m" if p: "0 < p" "p < length L - 1" for p
  proof (cases "m < zlevel z")
    case True
    have "0 < length (heights ?L0)" using l0 l1 by simp
    from nx_bounds(2,4) [OF this, where i = m] have "heights ?L0 ! p \<le> m" if "nx (heights ?L0) m 0 = length ?L0" using p l0 that by simp
    moreover have "\<not> nx (heights ?L0) m 0 < length ?L0" using m(4) True by (auto simp: fw_def split: if_splits)
    ultimately show ?thesis using nx_bounds(2) [of 0 "heights ?L0" m] l0 p l1 by simp
  next
    case False
    then show ?thesis using m(3) s(7) [of p] s(7) [of "Suc p"] nth0 [OF p(2)] p by auto
  qed
  define z' where "z' = z\<lparr>zlevel := m, zlength := length L - 2, tail := (if Suc k < length L then tail z else b_back (cell L k))\<rparr>"
  have sh': "shape z' ?L0" by (rule shape_rem [OF sh k m(2,3) hs z'_def])
  have "heap_rep h2 m ?L0"
    unfolding heap_rep_def
  proof (intro allI impI conjI)
    fix p assume p: "p < length ?L0"
    then have pl: "p < length L - 1" using l0 by simp
    consider "p < k" | "p = k" "Suc k < length L" | "k < p" using pl k by linarith
    then show "base h2 (sn_addr (?L0 ! p)) = Some (cell ?L0 p)"
    proof cases
      case 1
      then show ?thesis using h2(3) zsl_repD(1) [OF rep, of p] cell_rem(1) [OF k 1] nth0 [OF pl] addr_eq [OF sh, of p "Suc k"] k by auto
    next
      case 2
      then show ?thesis using h2(3) cell_rem(2) [OF k 2(2)] nth0 [OF pl] by simp
    next
      case 3
      then show ?thesis using h2(3) zsl_repD(1) [OF rep, of "Suc p"] cell_rem(3) [OF k 3 pl] nth0 [OF pl] addr_eq [OF sh, of "Suc p" "Suc k"] pl by auto
    qed
    fix i assume i: "i < sn_height (?L0 ! p)"
    show "if i < m then lm h2 (sn_addr (?L0 ! p), i) = Some (lev ?L0 i p) else \<exists>s. lm h2 (sn_addr (?L0 ! p), i) = Some \<lparr>z_forward = None, z_span = s\<rparr>"
    proof (cases "i < m")
      case True
      then show ?thesis using lv [OF pl i] m(3) by simp
    next
      case False
      then have p0: "p = 0" using hs [of p] pl i by force
      show ?thesis
      proof (cases "i < zlevel z")
        case True
        then show ?thesis using lv [OF pl i True] m(4) False p0 by (simp add: lev_def)
      next
        case gt: False
        then have "lm h2 (sn_addr (L ! 0), i) = lm h (sn_addr (L ! 0), i)" using h2(2) h1(4) by simp
        moreover have "\<exists>s. lm h (sn_addr (L ! 0), i) = Some \<lparr>z_forward = None, z_span = s\<rparr>"
          using zsl_rep_top [OF rep, of 0 i] gt i p0 hdr s(1) by simp
        ultimately show ?thesis using False p0 hdr by simp
      qed
    qed
  qed
  then have rep': "zsl_rep h2 z' ?L0" using sh' by (simp add: zsl_rep_def z'_def)
  have frame: "h2 a = h a" if a: "a \<notin> sn_addr ` set ?L0" for a
  proof (rule heap_ext)
    have "L ! Suc k \<in> set ?L0" if "Suc k < length L" using nth0 [of k] that l0 by (metis Suc_lessE diff_Suc_1 less_irrefl nth_mem)
    then show "base h2 a = base h a" using h2(3) a by auto
    show "lm h2 (a, i) = lm h (a, i)" for i using h2(2) h1(4) a by simp
  qed
  have zl: "ul_diff (zlength z) 1 = length L - 2" using diff_exact(2) [of 1 "zlength z"] s(4,8) k by simp
  have "zslDeleteNode z h ?x update = Inr (z', h2)"
    using h1(1) l n h2(1) m(1) zl by (simp add: zslDeleteNode_def z'_def)
  then show ?thesis using rep' frame m(3) by (intro exI [of _ z'] exI [of _ h2]) (simp add: z'_def)
qed

section \<open>The sorted set\<close>

definition keys_of :: "'a snode list \<Rightarrow> ('a \<times> byte list) set" where
  "keys_of L = sn_key ` set (tl L)"

lemma keys_of_iff: "k \<in> keys_of L \<longleftrightarrow> (\<exists>q. 0 < q \<and> q < length L \<and> sn_key (L ! q) = k)"
proof
  assume "k \<in> keys_of L"
  then obtain j where "j < length (tl L)" "sn_key (tl L ! j) = k" by (auto simp: keys_of_def in_set_conv_nth)
  then show "\<exists>q. 0 < q \<and> q < length L \<and> sn_key (L ! q) = k" by (intro exI [of _ "Suc j"]) (auto simp: nth_tl)
next
  assume "\<exists>q. 0 < q \<and> q < length L \<and> sn_key (L ! q) = k"
  then obtain q where "0 < q" "q < length L" "sn_key (L ! q) = k" by blast
  then show "k \<in> keys_of L" unfolding keys_of_def using nth_mem [of "q - 1" "tl L"] by (intro image_eqI [of _ _ "tl L ! (q - 1)"]) (auto simp: nth_tl)
qed

lemma keys_of_ins: "L \<noteq> [] \<Longrightarrow> keys_of (ins (Suc r) x L) = insert (sn_key x) (keys_of L)"
  by (simp add: keys_of_def tl_ins)

lemma key_less:
  assumes "shape z L" "0 < p" "p < q" "q < length L"
  shows "sn_key (L ! p) < sn_key (L ! q)"
proof -
  have "sorted_wrt (<) (map sn_key (tl L))" using assms(1) by (simp add: shape_def)
  from sorted_wrt_nth_less [OF this, of "p - 1" "q - 1"] show ?thesis using assms by (simp add: nth_tl)
qed

lemma keys_of_rem:
  assumes sh: "shape z L" and k: "0 < k" "k < length L"
  shows "keys_of (rem k L) = keys_of L - {sn_key (L ! k)}"
proof -
  have L: "ins (Suc (k - 1)) (L ! k) (rem k L) = L" using ins_rem [OF k(2)] k(1) by simp
  have "rem k L \<noteq> []" using rem_length [OF k(2)] k by (cases "rem k L") simp_all
  then have "keys_of L = insert (sn_key (L ! k)) (keys_of (rem k L))" using keys_of_ins [of "rem k L" "k - 1" "L ! k"] L by simp
  moreover have "sn_key (L ! k) \<notin> keys_of (rem k L)"
  proof
    assume "sn_key (L ! k) \<in> keys_of (rem k L)"
    then obtain q where q: "0 < q" "q < length L - 1" "sn_key (rem k L ! q) = sn_key (L ! k)"
      unfolding keys_of_iff rem_length [OF k(2)] by blast
    have "Suc q < length L" using q(2) by simp
    then show False using q rem_nth [OF k(2) q(2)] key_less [OF sh q(1), of k] key_less [OF sh k(1), of "Suc q"] k(2) by (auto split: if_splits)
  qed
  ultimately show ?thesis by blast
qed

lemma fw_bottom:
  assumes "shape z L" "p < length L"
  shows "z_forward (lev L 0 p) = (if Suc p < length L then Some (sn_addr (L ! Suc p)) else None)"
proof -
  have "nx (heights L) 0 p = Suc p" by (rule nx_eqI) (use assms shapeD(7) [OF assms(1), of "Suc p"] in auto)
  then show ?thesis by (simp add: lev_def fw_def)
qed

text \<open>Where the search for a key ends: right before the key, if it is there.\<close>

lemma found_iff:
  fixes L :: "('a :: linorder) snode list"
  assumes sh: "shape z L" and r: "r = reach (\<lambda>n. sn_key n < key) L"
  shows "r < length L" "key \<in> keys_of L \<longleftrightarrow> Suc r < length L \<and> sn_key (L ! Suc r) = key"
proof -
  show rl: "r < length L"
    using length_takeWhile_le [of "\<lambda>n. sn_key n < key" "tl L"] shapeD(1) [OF sh] by (cases L) (auto simp: r reach_def)
  have iff: "sn_key (L ! q) < key \<longleftrightarrow> q \<le> r" if "0 < q" "q < length L" for q
    unfolding r using reach_iff(1) [OF sh, where P = "\<lambda>k. k < key"] that less_trans by blast
  show "key \<in> keys_of L \<longleftrightarrow> Suc r < length L \<and> sn_key (L ! Suc r) = key"
  proof
    assume "key \<in> keys_of L"
    then obtain q where q: "0 < q" "q < length L" "sn_key (L ! q) = key" unfolding keys_of_iff by blast
    then have "r < q" using iff [of q] by auto
    moreover have "\<not> Suc r < q" using key_less [OF sh _ _ q(2), of "Suc r"] iff [of "Suc r"] q by auto
    ultimately show "Suc r < length L \<and> sn_key (L ! Suc r) = key" using q by (metis Suc_lessI)
  qed (auto simp: keys_of_iff)
qed

lemma found_node:
  fixes L :: "('a :: linorder) snode list"
  assumes rep: "zsl_rep h z L" and q: "0 < q" "q < length L"
  shows "\<exists>n. zget h (sn_addr (L ! q)) = Inr n \<and> h (sn_addr (L ! q)) = Some n \<and> z_ele n = Some (snd (sn_key (L ! q))) \<and>
    z_score n = fst (sn_key (L ! q)) \<and> z_backward n = (if q = 1 then None else Some (sn_addr (L ! (q - 1))))"
proof -
  have "base h (sn_addr (L ! q)) = Some (cell L q)" by (rule zsl_repD(1) [OF rep q(2)])
  then show ?thesis using q(1) by (auto simp: base_def zget_def cell_def)
qed

lemma node_matches: "z_ele n = Some (snd key) \<Longrightarrow> z_score n = fst key \<Longrightarrow> score = z_score n \<and> str_cmp (the (z_ele n)) ele = 0 \<longleftrightarrow> key = (score, ele)"
  by (cases key) (auto simp: str_cmp_eq)

lemma level_bottom:
  assumes rep: "zsl_rep h z L" and p: "p < length L"
  shows "level_at h (sn_addr (L ! p)) 0 = Inr (lev L 0 p)"
proof -
  have sh: "shape z L" using rep by (simp add: zsl_rep_def)
  have "0 < sn_height (L ! p)" using shapeD(3) [OF sh] shapeD(7) [OF sh, of p] p by (cases "p = 0") auto
  then show ?thesis using zsl_repD(2) [OF rep p, of 0] shapeD(5) [OF sh] by simp
qed

lemma zslDelete_ok:
  fixes L :: "('a :: linorder) snode list"
  assumes rep: "zsl_rep h z L"
  shows "(score, ele) \<notin> keys_of L \<Longrightarrow> zslDelete z h score ele keep = Some (Inr (None, z, h))"
    "(score, ele) \<in> keys_of L \<Longrightarrow> \<exists>k z' h'. 0 < k \<and> k < length L \<and> sn_key (L ! k) = (score, ele) \<and>
       zslDelete z h score ele keep = Some (Inr (Some (sn_addr (L ! k)), z', h')) \<and> zsl_rep h' z' (rem k L) \<and> header z' = header z \<and>
       (\<forall>a. a \<notin> sn_addr ` set (rem k L) \<longrightarrow> h' a = (if a = sn_addr (L ! k) \<and> \<not> keep then None else h a))"
proof -
  have sh: "shape z L" using rep by (simp add: zsl_rep_def)
  note s = shapeD [OF sh]
  define r where "r = reach (\<lambda>n. sn_key n < (score, ele)) L"
  note f = found_iff [OF sh r_def]
  let ?us = "map (\<lambda>i. (sn_addr (L ! pv (heights L) i r), pv (heights L) i r)) [0..<zlevel z]"
  have search: "descend 64 (\<lambda>n _. before score ele n) h (zlevel z) (header z) 0 = Some (Inr ?us)"
    using search_ok [OF rep before_stops [OF rep]] by (simp add: r_def)
  have u0: "rd ?us 0 = Inr (sn_addr (L ! r), r)" using s(5) pv_bottom [OF sh f(1)] by simp
  note l = level_bottom [OF rep f(1)] and fb = fw_bottom [OF sh f(1)]
  show "zslDelete z h score ele keep = Some (Inr (None, z, h))" if "(score, ele) \<notin> keys_of L"
  proof (cases "Suc r < length L")
    case False
    then show ?thesis unfolding zslDelete_def search by (simp add: u0 l fb del: map_map)
  next
    case True
    obtain n where n: "zget h (sn_addr (L ! Suc r)) = Inr n" "z_ele n = Some (snd (sn_key (L ! Suc r)))" "z_score n = fst (sn_key (L ! Suc r))"
      using found_node [OF rep _ True] by auto
    have "\<not> (score = z_score n \<and> str_cmp (the (z_ele n)) ele = 0)" unfolding node_matches [OF n(2,3)] using that f(2) True by auto
    then show ?thesis unfolding zslDelete_def search using True n(1) by (auto simp: u0 l fb)
  qed
  assume "(score, ele) \<in> keys_of L"
  then have k: "Suc r < length L" "sn_key (L ! Suc r) = (score, ele)" using f(2) by simp_all
  obtain n where n: "zget h (sn_addr (L ! Suc r)) = Inr n" "z_ele n = Some (snd (sn_key (L ! Suc r)))" "z_score n = fst (sn_key (L ! Suc r))"
    using found_node [OF rep _ k(1)] by auto
  have m: "score = z_score n \<and> str_cmp (the (z_ele n)) ele = 0" unfolding node_matches [OF n(2,3)] by (rule k(2))
  obtain z' h' where d: "zslDeleteNode z h (sn_addr (L ! Suc r)) (map fst ?us) = Inr (z', h')" "zsl_rep h' z' (rem (Suc r) L)" "header z' = header z"
      "\<forall>a. a \<notin> sn_addr ` set (rem (Suc r) L) \<longrightarrow> h' a = h a"
    using zslDeleteNode_ok [OF rep _ k(1), of "map fst ?us"] by (auto simp: comp_def)
  let ?x = "sn_addr (L ! Suc r)" and ?h = "if keep then h' else h'(sn_addr (L ! Suc r) := None)"
  have xin: "?x \<notin> sn_addr ` set (rem (Suc r) L)" by (rule addr_rem [OF sh k(1)])
  then have xp: "sn_addr (rem (Suc r) L ! p) \<noteq> ?x" if "p < length (rem (Suc r) L)" for p using nth_mem [OF that] by (metis image_eqI)
  have fr: "zslFreeNode h' ?x = Inr (h'(?x := None))" using d(4) xin n(1) by (auto simp: zslFreeNode_def zget_def split: option.splits)
  have "zslDelete z h score ele keep = Some (Inr (Some ?x, z', ?h))"
    unfolding zslDelete_def search using k(1) n(1) m d(1) fr by (simp add: u0 l fb)
  moreover have "zsl_rep ?h z' (rem (Suc r) L)"
    by (rule rep_frame [OF d(2)]) (use xp in \<open>simp_all add: base_def lm_def\<close>)
  moreover have "\<forall>a. a \<notin> sn_addr ` set (rem (Suc r) L) \<longrightarrow> ?h a = (if a = ?x \<and> \<not> keep then None else h a)" using d(4) by auto
  ultimately show "\<exists>k z' h'. 0 < k \<and> k < length L \<and> sn_key (L ! k) = (score, ele) \<and>
       zslDelete z h score ele keep = Some (Inr (Some (sn_addr (L ! k)), z', h')) \<and> zsl_rep h' z' (rem k L) \<and> header z' = header z \<and>
       (\<forall>a. a \<notin> sn_addr ` set (rem k L) \<longrightarrow> h' a = (if a = sn_addr (L ! k) \<and> \<not> keep then None else h a))"
    using k d(3) by blast
qed
end
