(* ===== verification/ZskiplistOps.thy ===== *)
theory ZskiplistOps
  imports ZskiplistOk
begin

text \<open>
  What the operations on skip lists promise: updates change the set of pairs of scores and strings, queries answer from
  the order of the pairs.
\<close>

section \<open>Updating a score\<close>

lemma rescore:
  fixes L :: "('a :: linorder) snode list"
  assumes rep: "zsl_rep h z L" and k: "0 < k" "k < length L" and n: "h (sn_addr (L ! k)) = Some n"
    and below: "1 < k \<Longrightarrow> fst (sn_key (L ! (k - 1))) < score" and above: "Suc k < length L \<Longrightarrow> score < fst (sn_key (L ! Suc k))"
  defines "L' \<equiv> L[k := (L ! k)\<lparr>sn_key := (score, snd (sn_key (L ! k)))\<rparr>]"
  shows "zsl_rep (h(sn_addr (L ! k) \<mapsto> n\<lparr>z_score := score\<rparr>)) z L'"
proof -
  have sh: "shape z L" using rep by (simp add: zsl_rep_def)
  note s = shapeD [OF sh]
  have len: "length L' = length L" by (simp add: L'_def)
  have nth: "L' ! p = (if p = k then (L ! k)\<lparr>sn_key := (score, snd (sn_key (L ! k)))\<rparr> else L ! p)" if "p < length L" for p
    using that by (simp add: L'_def)
  have addr: "map sn_addr L' = map sn_addr L" and hs: "heights L' = heights L"
    by (rule nth_equalityI; simp add: len nth)+
  have a: "sn_addr (L' ! p) = sn_addr (L ! p)" "sn_height (L' ! p) = sn_height (L ! p)" if "p < length L" for p
    using that by (simp_all add: nth)
  have lev: "lev L' i p = lev L i p" for i p using a by (simp add: lev_def fw_def hs len)
  have sorted: "sorted_wrt (<) (map sn_key (tl L'))"
    unfolding sorted_wrt_iff_nth_less
  proof (intro allI impI)
    fix i j assume ij: "i < j" "j < length (map sn_key (tl L'))"
    let ?p = "Suc i" and ?q = "Suc j"
    have pq: "0 < ?p" "?p < ?q" "?q < length L" using ij len by simp_all
    have kk: "sn_key (L ! ?p) < sn_key (L ! ?q)" by (rule key_less [OF sh pq])
    have "sn_key (L' ! ?p) < sn_key (L' ! ?q)"
    proof (cases "?p = k \<or> ?q = k")
      case False
      then show ?thesis using kk pq by (simp add: nth)
    next
      case True
      then show ?thesis
      proof
        assume p: "?p = k"
        then have "fst (sn_key (L ! Suc k)) \<le> fst (sn_key (L ! ?q))"
          using key_less [OF sh, of "Suc k" ?q] pq by (cases "Suc k = ?q") (auto simp: less_prod_def)
        then have "score < fst (sn_key (L ! ?q))" using above p pq by simp
        then show ?thesis using p pq by (simp add: nth less_prod_def)
      next
        assume q: "?q = k"
        then have "fst (sn_key (L ! ?p)) \<le> fst (sn_key (L ! (k - 1)))"
          using key_less [OF sh, of ?p "k - 1"] pq k by (cases "?p = k - 1") (auto simp: less_prod_def)
        then have "fst (sn_key (L ! ?p)) < score" using below q pq by simp
        then show ?thesis using q pq by (simp add: nth less_prod_def)
      qed
    qed
    then show "map sn_key (tl L') ! i < map sn_key (tl L') ! j" using ij by (simp add: nth_tl)
  qed
  have last: "sn_addr (last L') = sn_addr (last L)" if "L \<noteq> []"
    using that len a by (metis last_conv_nth length_0_conv diff_less length_greater_0_conv zero_less_one)
  have "shape z L'"
    using sh sorted last addr len a by (auto simp: shape_def)
  moreover have "heap_rep (h(sn_addr (L ! k) \<mapsto> n\<lparr>z_score := score\<rparr>)) (zlevel z) L'"
    unfolding heap_rep_def
  proof (intro allI impI conjI)
    let ?h = "h(sn_addr (L ! k) \<mapsto> n\<lparr>z_score := score\<rparr>)"
    have lm: "lm ?h = lm h" using n by (auto simp: lm_def fun_eq_iff)
    fix p assume "p < length L'"
    then have p: "p < length L" using len by simp
    have c: "base h (sn_addr (L ! p)) = Some (cell L p)" by (rule zsl_repD(1) [OF rep p])
    show "base ?h (sn_addr (L' ! p)) = Some (cell L' p)"
    proof (cases "p = k")
      case True
      then show ?thesis using c n k by (auto simp: base_def cell_def nth)
    next
      case False
      then have "sn_addr (L ! p) \<noteq> sn_addr (L ! k)" using addr_eq [OF sh p k(2)] by simp
      then show ?thesis using c False p by (auto simp: base_def cell_def nth)
    qed
    fix i assume i: "i < sn_height (L' ! p)"
    show "if i < zlevel z then lm ?h (sn_addr (L' ! p), i) = Some (lev L' i p) else \<exists>s. lm ?h (sn_addr (L' ! p), i) = Some \<lparr>z_forward = None, z_span = s\<rparr>"
      using zsl_repD(2) [OF rep p] zsl_rep_top [OF rep p] i a [OF p] by (simp add: lm lev)
  qed
  ultimately show ?thesis by (simp add: zsl_rep_def)
qed

lemma keys_rescore:
  assumes "shape z L" "0 < k" "k < length L"
  shows "keys_of (L[k := (L ! k)\<lparr>sn_key := y\<rparr>]) = insert y (keys_of L - {sn_key (L ! k)})"
proof -
  have nth: "L[k := (L ! k)\<lparr>sn_key := y\<rparr>] ! q = (if q = k then (L ! k)\<lparr>sn_key := y\<rparr> else L ! q)" if "q < length L" for q using that by simp
  have ne: "sn_key (L ! q) \<noteq> sn_key (L ! k)" if "0 < q" "q < length L" "q \<noteq> k" for q
    using key_less [OF assms(1), of q k] key_less [OF assms(1), of k q] that assms(2,3) by (cases "q < k") auto
  show ?thesis
  proof (rule set_eqI)
    fix x
    show "x \<in> keys_of (L[k := (L ! k)\<lparr>sn_key := y\<rparr>]) \<longleftrightarrow> x \<in> insert y (keys_of L - {sn_key (L ! k)})"
      unfolding insert_iff Diff_iff keys_of_iff using nth ne assms(2,3) by (auto simp: nth_list_update) metis
  qed
qed

text \<open>Which node holds which key.\<close>

definition node_pairs :: "'a snode list \<Rightarrow> (('a \<times> byte list) \<times> nat) set" where
  "node_pairs L = (\<lambda>n. (sn_key n, sn_addr n)) ` set (tl L)"

lemma node_pairs_iff: "(k, a) \<in> node_pairs L \<longleftrightarrow> (\<exists>q. 0 < q \<and> q < length L \<and> sn_key (L ! q) = k \<and> sn_addr (L ! q) = a)"
proof
  assume "(k, a) \<in> node_pairs L"
  then obtain j where "j < length (tl L)" "sn_key (tl L ! j) = k" "sn_addr (tl L ! j) = a" by (auto simp: node_pairs_def in_set_conv_nth)
  then show "\<exists>q. 0 < q \<and> q < length L \<and> sn_key (L ! q) = k \<and> sn_addr (L ! q) = a" by (intro exI [of _ "Suc j"]) (auto simp: nth_tl)
next
  assume "\<exists>q. 0 < q \<and> q < length L \<and> sn_key (L ! q) = k \<and> sn_addr (L ! q) = a"
  then obtain q where "0 < q" "q < length L" "sn_key (L ! q) = k" "sn_addr (L ! q) = a" by blast
  then show "(k, a) \<in> node_pairs L" unfolding node_pairs_def using nth_mem [of "q - 1" "tl L"] by (intro image_eqI [of _ _ "tl L ! (q - 1)"]) (auto simp: nth_tl)
qed

lemma keys_node_pairs: "keys_of L = fst ` node_pairs L"
  by (simp add: keys_of_def node_pairs_def image_image)

lemma node_pairs_ins: "L \<noteq> [] \<Longrightarrow> node_pairs (ins (Suc r) x L) = insert (sn_key x, sn_addr x) (node_pairs L)"
  by (simp add: node_pairs_def tl_ins)

lemma node_pairs_rem:
  assumes sh: "shape z L" and k: "0 < k" "k < length L"
  shows "node_pairs (rem k L) = node_pairs L - {(sn_key (L ! k), sn_addr (L ! k))}"
proof -
  have L: "ins (Suc (k - 1)) (L ! k) (rem k L) = L" using ins_rem [OF k(2)] k(1) by simp
  have "rem k L \<noteq> []" using rem_length [OF k(2)] k by (cases "rem k L") simp_all
  then have "node_pairs L = insert (sn_key (L ! k), sn_addr (L ! k)) (node_pairs (rem k L))"
    using node_pairs_ins [of "rem k L" "k - 1" "L ! k"] L by simp
  moreover have "(sn_key (L ! k), sn_addr (L ! k)) \<notin> node_pairs (rem k L)"
  proof
    assume "(sn_key (L ! k), sn_addr (L ! k)) \<in> node_pairs (rem k L)"
    then have "sn_key (L ! k) \<in> keys_of (rem k L)" unfolding keys_node_pairs by (metis fst_conv image_eqI)
    then show False using keys_of_rem [OF sh k] by simp
  qed
  ultimately show ?thesis by blast
qed

lemma node_pairs_rescore:
  assumes "shape z L" "0 < k" "k < length L"
  shows "node_pairs (L[k := (L ! k)\<lparr>sn_key := y\<rparr>]) = insert (y, sn_addr (L ! k)) (node_pairs L - {(sn_key (L ! k), sn_addr (L ! k))})"
proof -
  have nth: "L[k := (L ! k)\<lparr>sn_key := y\<rparr>] ! q = (if q = k then (L ! k)\<lparr>sn_key := y\<rparr> else L ! q)" if "q < length L" for q using that by simp
  have ne: "sn_addr (L ! q) \<noteq> sn_addr (L ! k)" if "0 < q" "q < length L" "q \<noteq> k" for q
    using addr_eq [OF assms(1) that(2) assms(3)] that(3) by simp
  have "(x, a) \<in> node_pairs (L[k := (L ! k)\<lparr>sn_key := y\<rparr>]) \<longleftrightarrow>
      (x, a) \<in> insert (y, sn_addr (L ! k)) (node_pairs L - {(sn_key (L ! k), sn_addr (L ! k))})" for x a
    unfolding insert_iff Diff_iff node_pairs_iff using nth ne assms(2,3) by (auto simp: nth_list_update) metis+
  then show ?thesis by (auto simp del: insert_iff Diff_iff)
qed

lemma rep_dom:
  assumes "zsl_rep h z L" "a \<in> sn_addr ` set L"
  shows "h a \<noteq> None"
proof -
  obtain p where p: "p < length L" "a = sn_addr (L ! p)" using assms(2) by (auto simp: in_set_conv_nth)
  then show ?thesis using zsl_repD(1) [OF assms(1) p(1)] by (auto simp: base_def)
qed

lemma zslUpdateScore_ok:
  fixes L :: "('a :: linorder) snode list"
  assumes rep: "zsl_rep h z L" and cur: "(cur, ele) \<in> keys_of L" and key: "(score, ele) \<notin> keys_of L - {(cur, ele)}"
    and new: "h new = None" and level: "zslRandomLevel rnd = Some (level, rnd')" and own: "dom h = sn_addr ` set L"
  shows "\<exists>a z' h' L' r'. zslUpdateScore junk new z h cur ele score rnd = Some (Inr (a, z', h', r')) \<and> zsl_rep h' z' L' \<and> header z' = header z \<and>
    keys_of L' = insert (score, ele) (keys_of L - {(cur, ele)}) \<and> dom h' = sn_addr ` set L' \<and> length L' = length L \<and> r' \<in> {rnd, rnd'} \<and>
    (\<exists>old. ((cur, ele), old) \<in> node_pairs L \<and> node_pairs L' = insert ((score, ele), a) (node_pairs L - {((cur, ele), old)}))"
proof -
  have sh: "shape z L" using rep by (simp add: zsl_rep_def)
  note s = shapeD [OF sh]
  define r where "r = reach (\<lambda>n. sn_key n < (cur, ele)) L"
  note f = found_iff [OF sh r_def]
  have k: "Suc r < length L" "sn_key (L ! Suc r) = (cur, ele)" using cur f(2) by simp_all
  let ?us = "map (\<lambda>i. (sn_addr (L ! pv (heights L) i r), pv (heights L) i r)) [0..<zlevel z]" and ?x = "sn_addr (L ! Suc r)"
  have search: "descend 64 (\<lambda>n _. before cur ele n) h (zlevel z) (header z) 0 = Some (Inr ?us)"
    using search_ok [OF rep before_stops [OF rep]] by (simp add: r_def)
  have u0: "rd ?us 0 = Inr (sn_addr (L ! r), r)" using s(5) pv_bottom [OF sh f(1)] by simp
  have l: "level_at h (sn_addr (L ! r)) 0 = Inr (lev L 0 r)" "z_forward (lev L 0 r) = Some ?x"
    using level_bottom [OF rep f(1)] fw_bottom [OF sh f(1)] k(1) by simp_all
  have lx: "level_at h ?x 0 = Inr (lev L 0 (Suc r))" by (rule level_bottom [OF rep k(1)])
  note fx = fw_bottom [OF sh k(1)]
  obtain n where n: "zget h ?x = Inr n" "h ?x = Some n" "z_ele n = Some ele" "z_score n = cur" "z_backward n = (if Suc r = 1 then None else Some (sn_addr (L ! r)))"
    using found_node [OF rep _ k(1)] k(2) by auto
  have m: "cur = z_score n \<and> str_cmp (the (z_ele n)) ele = 0" using n(3,4) by (simp add: str_cmp_eq)
  let ?below = "1 < Suc r \<longrightarrow> fst (sn_key (L ! r)) < score" and ?above = "Suc (Suc r) < length L \<longrightarrow> score < fst (sn_key (L ! Suc (Suc r)))"
  have b: "(case z_backward n of None \<Rightarrow> Inr True | Some b \<Rightarrow> cbind (zget h b) (\<lambda>b. Inr (z_score b < score))) = Inr ?below"
  proof (cases "r = 0")
    case False
    then show ?thesis using found_node [OF rep _ f(1)] n(5) by auto
  qed (simp add: n(5))
  have ab: "(case z_forward (lev L 0 (Suc r)) of None \<Rightarrow> Inr True | Some y \<Rightarrow> cbind (zget h y) (\<lambda>y. Inr (z_score y > score))) = Inr ?above"
    using found_node [OF rep, of "Suc (Suc r)"] fx by (cases "Suc (Suc r) < length L") auto
  let ?go = "zslUpdateScore junk new z h cur ele score rnd"
  show ?thesis
  proof (cases "?below \<and> ?above")
    case True
    let ?L = "L[Suc r := (L ! Suc r)\<lparr>sn_key := (score, ele)\<rparr>]" and ?h = "h(?x \<mapsto> n\<lparr>z_score := score\<rparr>)"
    have "?go = Some (Inr (?x, z, ?h, rnd))"
      unfolding zslUpdateScore_def search using True m by (simp add: u0 l lx n(1) b ab)
    moreover have "zsl_rep ?h z ?L" using rescore [OF rep _ k(1) n(2), of score] True k(2) by simp
    moreover have "keys_of ?L = insert (score, ele) (keys_of L - {(cur, ele)})" using keys_rescore [OF sh _ k(1), of "(score, ele)"] k(2) by simp
    moreover have "map sn_addr ?L = map sn_addr L" using k(1) by (simp add: map_update list_update_same_conv [THEN iffD2])
    then have "sn_addr ` set ?L = sn_addr ` set L" by (metis list.set_map)
    then have "dom ?h = sn_addr ` set ?L" using own n(2) by auto
    moreover have "((cur, ele), ?x) \<in> node_pairs L" "node_pairs ?L = insert ((score, ele), ?x) (node_pairs L - {((cur, ele), ?x)})"
      using node_pairs_rescore [OF sh _ k(1), of "(score, ele)"] k by (auto simp: node_pairs_iff)
    ultimately show ?thesis by (intro exI [of _ ?x] exI [of _ z] exI [of _ ?h] exI [of _ ?L] exI [of _ rnd]) (auto simp del: insert_iff Diff_iff)
  next
    case False
    obtain z1 h1 where d: "zslDeleteNode z h ?x (map fst ?us) = Inr (z1, h1)" "zsl_rep h1 z1 (rem (Suc r) L)" "header z1 = header z"
        "\<forall>a. a \<notin> sn_addr ` set (rem (Suc r) L) \<longrightarrow> h1 a = h a"
      using zslDeleteNode_ok [OF rep _ k(1), of "map fst ?us"] by (auto simp: comp_def)
    let ?R = "rem (Suc r) L"
    have keys0: "keys_of ?R = keys_of L - {(cur, ele)}" using keys_of_rem [OF sh _ k(1)] k(2) by simp
    have set: "set L = insert (L ! Suc r) (set ?R)" by (rule set_rem [OF k(1)])
    have xin: "?x \<notin> sn_addr ` set ?R" by (rule addr_rem [OF sh k(1)])
    have nin: "new \<notin> sn_addr ` set L" using own new by auto
    have new1: "h1 new = None" using d(4) nin set new by auto
    have x1: "h1 ?x = Some n" using d(4) xin n(2) by simp
    have len0: "length ?R < 2 ^ 32" "?R \<noteq> []" using rem_length [OF k(1)] s(4) k(1) by (cases ?R; simp)+
    let ?y = "\<lparr>sn_addr = new, sn_key = (score, ele), sn_height = level\<rparr>" and ?p = "Suc (reach (\<lambda>n. sn_key n < (score, ele)) ?R)"
    let ?I = "ins ?p ?y ?R"
    have "(score, ele) \<notin> sn_key ` set (tl ?R)" using key keys0 by (simp add: keys_of_def)
    from zslInsert_ok [OF d(2) new1 this len0(1) level, of junk] obtain z2 h2 where
      i: "zslInsert junk new z1 h1 score ele rnd = Some (Inr (new, z2, h2, rnd'))" "zsl_rep h2 z2 ?I" "header z2 = header z1"
        "\<forall>a. a \<noteq> new \<and> a \<notin> sn_addr ` set ?R \<longrightarrow> h2 a = h1 a" by blast
    have xn: "?x \<noteq> new" using n(2) new by auto
    then have x2: "h2 ?x = Some n" using i(4) xin x1 by simp
    let ?h = "h2(?x := None)"
    have g: "zget h1 ?x = Inr n" "zslFreeNode h2 ?x = Inr ?h" using x1 x2 by (simp_all add: zget_def zslFreeNode_def)
    have "?go = Some (Inr (new, z2, ?h, rnd'))"
      unfolding zslUpdateScore_def search using False m d(1) i(1) n(3)
      by (cases ?below) (simp_all add: u0 l lx n(1) b ab g)
    moreover have addrs: "sn_addr ` set ?I = insert new (sn_addr ` set ?R)" by simp
    have ne: "sn_addr (?I ! q) \<noteq> ?x" if "q < length ?I" for q
    proof -
      have "sn_addr (?I ! q) \<in> sn_addr ` set ?I" using nth_mem [OF that] by (rule imageI)
      then show ?thesis unfolding addrs using xin xn by (metis insert_iff)
    qed
    have "zsl_rep ?h z2 ?I" by (rule rep_frame [OF i(2)]) (use ne in \<open>simp_all add: base_def lm_def\<close>)
    moreover have "keys_of ?I = insert (score, ele) (keys_of L - {(cur, ele)})" using keys_of_ins [OF len0(2)] keys0 by simp
    moreover have "dom ?h = sn_addr ` set ?I"
    proof (rule set_eqI)
      fix a
      have in2: "h2 a \<noteq> None" if "a \<in> sn_addr ` set ?I" by (rule rep_dom [OF i(2) that])
      have out2: "h2 a = h a" if "a \<notin> sn_addr ` set ?I" using that addrs i(4) d(4) by simp
      show "a \<in> dom ?h \<longleftrightarrow> a \<in> sn_addr ` set ?I"
        using in2 out2 addrs xin xn own set by (cases "a = ?x") auto
    qed
    moreover have "length ?I = length L" using rem_length [OF k(1)] k(1) by simp
    moreover have "((cur, ele), ?x) \<in> node_pairs L" using k by (auto simp: node_pairs_iff)
    moreover have "node_pairs ?I = insert ((score, ele), new) (node_pairs L - {((cur, ele), ?x)})"
      using node_pairs_rem [OF sh _ k(1)] k(2) node_pairs_ins [OF len0(2)] by simp
    ultimately have all: "?go = Some (Inr (new, z2, ?h, rnd')) \<and> zsl_rep ?h z2 ?I \<and> header z2 = header z \<and>
      keys_of ?I = insert (score, ele) (keys_of L - {(cur, ele)}) \<and> dom ?h = sn_addr ` set ?I \<and> length ?I = length L \<and> rnd' \<in> {rnd, rnd'} \<and>
      (\<exists>old. ((cur, ele), old) \<in> node_pairs L \<and> node_pairs ?I = insert ((score, ele), new) (node_pairs L - {((cur, ele), old)}))"
      using d(3) i(3) by (intro conjI exI [of _ ?x]) simp_all
    show ?thesis by (rule exI [of _ new], rule exI [of _ z2], rule exI [of _ ?h], rule exI [of _ ?I], rule exI [of _ rnd'], rule all)
  qed
qed

section \<open>Queries\<close>

text \<open>A test of the keys that holds downwards splits the list at a position, where the search stops.\<close>

lemma split_position:
  fixes L :: "('a :: linorder) snode list"
  assumes rep: "zsl_rep h z L" and down: "\<And>x y. x \<in> keys_of L \<Longrightarrow> y \<in> keys_of L \<Longrightarrow> P y \<Longrightarrow> x < y \<Longrightarrow> P x"
    and go: "\<And>n q. node_key n \<in> keys_of L \<Longrightarrow> go n q \<longleftrightarrow> P (node_key n)"
  shows "\<exists>r. stops_at h L go r \<and> r < length L \<and> (\<forall>q. 0 < q \<and> q < length L \<longrightarrow> (P (sn_key (L ! q)) \<longleftrightarrow> q \<le> r))"
proof -
  have sh: "shape z L" using rep by (simp add: zsl_rep_def)
  let ?P = "\<lambda>n. P (sn_key n)"
  let ?r = "length (takeWhile ?P (tl L))"
  have key: "sn_key (L ! q) \<in> keys_of L" if "0 < q" "q < length L" for q using that by (auto simp: keys_of_iff)
  have split: "?P (L ! q) \<longleftrightarrow> q \<le> ?r" if q: "0 < q" "q < length L" for q
  proof -
    have "?P (tl L ! (q - 1)) \<longleftrightarrow> q - 1 < ?r"
    proof (rule takeWhile_length_iff)
      fix i j assume "i < j" "j < length (tl L)" "?P (tl L ! j)"
      then show "?P (tl L ! i)" using down [OF key [of "Suc i"] key [of "Suc j"]] key_less [OF sh, of "Suc i" "Suc j"] by (simp add: nth_tl)
    qed (use q in simp)
    then show ?thesis using q by (auto simp: nth_tl)
  qed
  moreover have "?r < length L" using length_takeWhile_le [of ?P "tl L"] shapeD(1) [OF sh] by (cases L) auto
  moreover have "go n q \<longleftrightarrow> q \<le> ?r" if "0 < q" "q < length L" "h (sn_addr (L ! q)) = Some n" for q n
    using rep_key(1) [OF rep that] go [of n q] key [OF that(1,2)] split [OF that(1,2)] by simp
  ultimately show ?thesis by (intro exI [of _ ?r]) (auto simp: stops_at_def)
qed

text \<open>What a query for an element of a set of keys answers: a node, or nothing when the set is empty.\<close>

definition answers :: "'a zheap \<Rightarrow> ('a \<times> byte list) set \<Rightarrow> 'a \<times> byte list \<Rightarrow> nat option \<Rightarrow> bool" where
  "answers h X k res \<longleftrightarrow> (case res of None \<Rightarrow> X = {} | Some a \<Rightarrow> X \<noteq> {} \<and> (\<exists>n. h a = Some n \<and> z_ele n = Some (snd k) \<and> z_score n = fst k))"

lemma some_in_ok:
  fixes L :: "('a :: linorder) snode list"
  assumes rep: "zsl_rep h z L"
    and up: "\<And>x y. x \<in> keys_of L \<Longrightarrow> y \<in> keys_of L \<Longrightarrow> G x \<Longrightarrow> x < y \<Longrightarrow> G y"
    and down: "\<And>x y. x \<in> keys_of L \<Longrightarrow> y \<in> keys_of L \<Longrightarrow> M y \<Longrightarrow> x < y \<Longrightarrow> M x"
    and gte: "\<And>n. node_key n \<in> keys_of L \<Longrightarrow> gte n \<longleftrightarrow> G (node_key n)" and lte: "\<And>n. node_key n \<in> keys_of L \<Longrightarrow> lte n \<longleftrightarrow> M (node_key n)"
    and never: "never \<Longrightarrow> {k \<in> keys_of L. G k \<and> M k} = {}"
  shows "\<exists>b. some_in never gte lte z h = Inr b \<and> (b \<longrightarrow> 1 < length L \<and> G (sn_key (L ! (length L - 1))) \<and> M (sn_key (L ! 1))) \<and>
    (\<not> b \<longrightarrow> {k \<in> keys_of L. G k \<and> M k} = {})"
proof (cases "never \<or> length L \<le> 1")
  case True
  have sh: "shape z L" using rep by (simp add: zsl_rep_def)
  have "keys_of L = {}" "tail z = None" if "length L \<le> 1" using that sh shapeD(1) [OF sh] by (cases L; simp add: keys_of_def shape_def)+
  then show ?thesis using True never by (auto simp: some_in_def)
next
  case False
  have sh: "shape z L" using rep by (simp add: zsl_rep_def)
  note s = shapeD [OF sh]
  let ?e = "length L - 1"
  have l: "0 < ?e" "?e < length L" "(0 :: nat) < 1" "1 < length L" using False by auto
  have t: "tail z = Some (sn_addr (L ! ?e))" using sh False by (auto simp: shape_def last_conv_nth)
  obtain n where n: "zget h (sn_addr (L ! ?e)) = Inr n" "h (sn_addr (L ! ?e)) = Some n" using found_node [OF rep l(1,2)] by blast
  obtain m where m: "zget h (sn_addr (L ! 1)) = Inr m" "h (sn_addr (L ! 1)) = Some m" using found_node [OF rep l(3,4)] by blast
  have k: "sn_key (L ! q) \<in> keys_of L" if "0 < q" "q < length L" for q using that by (auto simp: keys_of_iff)
  have g: "gte n \<longleftrightarrow> G (sn_key (L ! ?e))" "lte m \<longleftrightarrow> M (sn_key (L ! 1))"
    using gte [of n] lte [of m] rep_key(1) [OF rep l(1,2) n(2)] rep_key(1) [OF rep l(3,4) m(2)] k [OF l(1,2)] k [OF l(3,4)] by simp_all
  have f: "level_at h (header z) 0 = Inr (lev L 0 0)" "z_forward (lev L 0 0) = Some (sn_addr (L ! 1))"
    using level_bottom [OF rep, of 0] s(1,2) fw_bottom [OF sh, of 0] l(4) by simp_all
  have "some_in never gte lte z h = Inr (G (sn_key (L ! ?e)) \<and> M (sn_key (L ! 1)))"
    using False by (simp add: some_in_def t n(1) m(1) f g del: One_nat_def)
  moreover have "{k \<in> keys_of L. G k \<and> M k} = {}" if "\<not> (G (sn_key (L ! ?e)) \<and> M (sn_key (L ! 1)))"
  proof (rule ccontr)
    assume "{k \<in> keys_of L. G k \<and> M k} \<noteq> {}"
    then obtain q where q: "0 < q" "q < length L" "G (sn_key (L ! q))" "M (sn_key (L ! q))" by (auto simp: keys_of_iff)
    have "G (sn_key (L ! ?e))" using q up [OF k k, of q ?e] key_less [OF sh q(1), of ?e] l by (cases "q = ?e") auto
    moreover have "M (sn_key (L ! 1))" using q down [OF k k, of 1 q] key_less [OF sh l(3), of q] l by (cases "q = 1") auto
    ultimately show False using that by simp
  qed
  ultimately show ?thesis using l(4) by blast
qed

lemma min_max_key:
  fixes L :: "('a :: linorder) snode list"
  assumes sh: "shape z L" and q: "0 < q" "q < length L" and X: "X \<subseteq> keys_of L" "sn_key (L ! q) \<in> X"
  shows "(\<And>p. 0 < p \<Longrightarrow> p < length L \<Longrightarrow> sn_key (L ! p) \<in> X \<Longrightarrow> q \<le> p) \<Longrightarrow> Min X = sn_key (L ! q)"
    "(\<And>p. 0 < p \<Longrightarrow> p < length L \<Longrightarrow> sn_key (L ! p) \<in> X \<Longrightarrow> p \<le> q) \<Longrightarrow> Max X = sn_key (L ! q)"
proof -
  have fin: "finite X" using X(1) finite_subset by (fastforce simp: keys_of_def)
  have le: "sn_key (L ! p) \<le> sn_key (L ! p')" if "0 < p" "p \<le> p'" "p' < length L" for p p'
    using key_less [OF sh that(1), of p'] that by (cases "p = p'") auto
  show "Min X = sn_key (L ! q)" if a: "\<And>p. 0 < p \<Longrightarrow> p < length L \<Longrightarrow> sn_key (L ! p) \<in> X \<Longrightarrow> q \<le> p"
  proof (rule Min_eqI [OF fin _ X(2)])
    fix x assume x: "x \<in> X"
    then obtain p where "0 < p" "p < length L" "sn_key (L ! p) = x" using X(1) by (auto simp: keys_of_iff dest!: subsetD)
    then show "sn_key (L ! q) \<le> x" using a [of p] le [of q p] q(1) x by auto
  qed
  show "Max X = sn_key (L ! q)" if a: "\<And>p. 0 < p \<Longrightarrow> p < length L \<Longrightarrow> sn_key (L ! p) \<in> X \<Longrightarrow> p \<le> q"
  proof (rule Max_eqI [OF fin _ X(2)])
    fix x assume x: "x \<in> X"
    then obtain p where "0 < p" "p < length L" "sn_key (L ! p) = x" using X(1) by (auto simp: keys_of_iff dest!: subsetD)
    then show "x \<le> sn_key (L ! q)" using a [of p] le [of p q] q(2) x by auto
  qed
qed

lemma rd_map_upt: "i < n \<Longrightarrow> rd (map f [0..<n]) i = Inr (f i)"
  by simp

lemma first_last_ok:
  fixes L :: "('a :: linorder) snode list"
  assumes rep: "zsl_rep h z L"
    and up: "\<And>x y. x \<in> keys_of L \<Longrightarrow> y \<in> keys_of L \<Longrightarrow> G x \<Longrightarrow> x < y \<Longrightarrow> G y"
    and down: "\<And>x y. x \<in> keys_of L \<Longrightarrow> y \<in> keys_of L \<Longrightarrow> M y \<Longrightarrow> x < y \<Longrightarrow> M x"
    and gte: "\<And>n. node_key n \<in> keys_of L \<Longrightarrow> gte n \<longleftrightarrow> G (node_key n)" and lte: "\<And>n. node_key n \<in> keys_of L \<Longrightarrow> lte n \<longleftrightarrow> M (node_key n)"
    and never: "never \<Longrightarrow> {k \<in> keys_of L. G k \<and> M k} = {}"
  shows "\<exists>res. first_in never gte lte z h = Some (Inr res) \<and> answers h {k \<in> keys_of L. G k \<and> M k} (Min {k \<in> keys_of L. G k \<and> M k}) res"
    "\<exists>res. last_in never gte lte z h = Some (Inr res) \<and> answers h {k \<in> keys_of L. G k \<and> M k} (Max {k \<in> keys_of L. G k \<and> M k}) res"
proof -
  let ?X = "{k \<in> keys_of L. G k \<and> M k}"
  have sh: "shape z L" using rep by (simp add: zsl_rep_def)
  note s = shapeD [OF sh]
  have "\<exists>b. some_in never gte lte z h = Inr b \<and> (b \<longrightarrow> 1 < length L \<and> G (sn_key (L ! (length L - 1))) \<and> M (sn_key (L ! 1))) \<and> (\<not> b \<longrightarrow> ?X = {})"
    by (rule some_in_ok [OF rep]) (fact up down gte lte never)+
  then obtain b where b: "some_in never gte lte z h = Inr b" "b \<Longrightarrow> 1 < length L \<and> G (sn_key (L ! (length L - 1))) \<and> M (sn_key (L ! 1))" "\<not> b \<Longrightarrow> ?X = {}"
    by blast
  have k: "sn_key (L ! q) \<in> keys_of L" if "0 < q" "q < length L" for q using that by (auto simp: keys_of_iff)
  have node: "\<exists>n. zget h (sn_addr (L ! q)) = Inr n \<and> h (sn_addr (L ! q)) = Some n \<and> z_ele n = Some (snd (sn_key (L ! q))) \<and>
      z_score n = fst (sn_key (L ! q)) \<and> (gte n \<longleftrightarrow> G (sn_key (L ! q))) \<and> (lte n \<longleftrightarrow> M (sn_key (L ! q)))" if q: "0 < q" "q < length L" for q
  proof -
    obtain n where n: "zget h (sn_addr (L ! q)) = Inr n" "h (sn_addr (L ! q)) = Some n" "z_ele n = Some (snd (sn_key (L ! q)))"
      "z_score n = fst (sn_key (L ! q))" using found_node [OF rep q] by blast
    then show ?thesis using rep_key(1) [OF rep q n(2)] gte [of n] lte [of n] k [OF q] by simp
  qed
  have ex: "\<exists>p. 0 < p \<and> p < length L \<and> sn_key (L ! p) \<in> ?X" if ne: "?X \<noteq> {}"
  proof -
    obtain x where x: "x \<in> ?X" using ne by blast
    then obtain p where "0 < p" "p < length L" "sn_key (L ! p) = x" using keys_of_iff [of x L] by blast
    with x show ?thesis by blast
  qed
  have hit: "answers h ?X (f ?X) (Some (sn_addr (L ! q)))" if q: "0 < q" "q < length L" "G (sn_key (L ! q))" "M (sn_key (L ! q))"
    "f ?X = sn_key (L ! q)" for q f
  proof -
    have "?X \<noteq> {}" using q k [OF q(1,2)] by blast
    then show ?thesis using node [OF q(1,2)] q(5) by (auto simp: answers_def)
  qed
  show "\<exists>res. first_in never gte lte z h = Some (Inr res) \<and> answers h ?X (Min ?X) res"
  proof (cases b)
    case False
    then show ?thesis using b by (simp add: first_in_def answers_def)
  next
    case True
    obtain r where r: "stops_at h L (\<lambda>n _. \<not> gte n) r" "r < length L" "\<forall>q. 0 < q \<and> q < length L \<longrightarrow> (\<not> G (sn_key (L ! q)) \<longleftrightarrow> q \<le> r)"
      using split_position [OF rep, where P = "\<lambda>k. \<not> G k" and go = "\<lambda>n _. \<not> gte n"] up gte by blast
    have sr: "Suc r < length L"
      using r(2) r(3) [rule_format, of "length L - 1"] b(2) [OF True] by (cases "Suc r = length L") auto
    have d: "rd (map (\<lambda>i. (sn_addr (L ! pv (heights L) i r), pv (heights L) i r)) [0..<zlevel z]) 0 = Inr (sn_addr (L ! r), r)"
      using s(5) pv_bottom [OF sh r(2)] by simp
    obtain n where n: "zget h (sn_addr (L ! Suc r)) = Inr n" "lte n \<longleftrightarrow> M (sn_key (L ! Suc r))" using node [OF _ sr] by auto
    have first: "first_in never gte lte z h = Some (Inr (if M (sn_key (L ! Suc r)) then Some (sn_addr (L ! Suc r)) else None))"
      unfolding first_in_def b(1) using True search_ok [OF rep r(1)] sr
      by (simp add: d level_bottom [OF rep r(2)] fw_bottom [OF sh r(2)] n)
    have G: "G (sn_key (L ! Suc r))" using r(3) sr by auto
    have ge: "Suc r \<le> p" if "0 < p" "p < length L" "sn_key (L ! p) \<in> ?X" for p using r(3) that by auto
    show ?thesis
    proof (cases "M (sn_key (L ! Suc r))")
      case True
      have "Min ?X = sn_key (L ! Suc r)" by (rule min_max_key(1) [OF sh _ sr]) (use True G k [OF _ sr] ge in auto)
      then show ?thesis unfolding first using hit [OF _ sr G True] True by simp
    next
      case False
      have "?X = {}"
      proof (rule ccontr)
        assume "?X \<noteq> {}"
        then obtain p where p: "0 < p" "p < length L" "sn_key (L ! p) \<in> ?X" using ex by blast
        then show False using ge [OF p] False down [OF k [OF _ sr] k [OF p(1,2)]] key_less [OF sh, of "Suc r" p] by (cases "Suc r = p") auto
      qed
      then show ?thesis unfolding first using False by (simp add: answers_def)
    qed
  qed
  show "\<exists>res. last_in never gte lte z h = Some (Inr res) \<and> answers h ?X (Max ?X) res"
  proof (cases b)
    case False
    then show ?thesis using b by (simp add: last_in_def answers_def)
  next
    case True
    obtain r where r: "stops_at h L (\<lambda>n _. lte n) r" "r < length L" "\<forall>q. 0 < q \<and> q < length L \<longrightarrow> (M (sn_key (L ! q)) \<longleftrightarrow> q \<le> r)"
      using split_position [OF rep, where P = M and go = "\<lambda>n _. lte n"] down lte by blast
    have r0: "0 < r" using r(3) [rule_format, of 1] b(2) [OF True] by simp
    have d: "rd (map (\<lambda>i. (sn_addr (L ! pv (heights L) i r), pv (heights L) i r)) [0..<zlevel z]) 0 = Inr (sn_addr (L ! r), r)"
      using s(5) pv_bottom [OF sh r(2)] by simp
    obtain n where n: "zget h (sn_addr (L ! r)) = Inr n" "gte n \<longleftrightarrow> G (sn_key (L ! r))" using node [OF r0 r(2)] by auto
    have last: "last_in never gte lte z h = Some (Inr (if G (sn_key (L ! r)) then Some (sn_addr (L ! r)) else None))"
      unfolding last_in_def b(1) using True search_ok [OF rep r(1)] by (simp add: d n)
    have M: "M (sn_key (L ! r))" using r r0 by auto
    have le: "p \<le> r" if "0 < p" "p < length L" "sn_key (L ! p) \<in> ?X" for p using r(3) that by auto
    show ?thesis
    proof (cases "G (sn_key (L ! r))")
      case True
      have "Max ?X = sn_key (L ! r)" by (rule min_max_key(2) [OF sh r0 r(2)]) (use True M k [OF r0 r(2)] le in auto)
      then show ?thesis unfolding last using hit [OF r0 r(2) True M] True by simp
    next
      case False
      have "?X = {}"
      proof (rule ccontr)
        assume "?X \<noteq> {}"
        then obtain p where p: "0 < p" "p < length L" "sn_key (L ! p) \<in> ?X" using ex by blast
        then show False using le [OF p] False up [OF k [OF p(1,2)] k [OF r0 r(2)]] key_less [OF sh p(1), of r] r(2) by (cases "p = r") auto
      qed
      then show ?thesis unfolding last using False by (simp add: answers_def)
    qed
  qed
qed

end
