(* ===== verification/ZskiplistUse.thy ===== *)
theory ZskiplistUse
  imports ZskiplistOps
begin

text \<open>
  What the users of skip lists rely on: queries by score, string and rank, freeing, and sequences of updates.
\<close>

section \<open>Queries by score and by string\<close>

lemma range_ok:
  fixes L :: "('a :: linorder) snode list" and rng :: "'a zrangespec"
  assumes rep: "zsl_rep h z L"
  defines "X \<equiv> {k \<in> keys_of L. zslValueGteMin (fst k) rng \<and> zslValueLteMax (fst k) rng}"
  shows "\<exists>res. zslFirstInRange z h rng = Some (Inr res) \<and> answers h X (Min X) res" "\<exists>res. zslLastInRange z h rng = Some (Inr res) \<and> answers h X (Max X) res"
proof -
  let ?G = "\<lambda>k. zslValueGteMin (fst k) rng" and ?M = "\<lambda>k. zslValueLteMax (fst k) rng"
  have up: "?G x \<Longrightarrow> x < y \<Longrightarrow> ?G y" and down: "?M y \<Longrightarrow> x < y \<Longrightarrow> ?M x" for x y :: "'a \<times> byte list"
    by (auto simp: zslValueGteMin_def zslValueLteMax_def less_prod_def split: if_splits)
  have never: "X = {}" if "empty_range rng"
    using that by (auto simp: X_def empty_range_def zslValueGteMin_def zslValueLteMax_def split: if_splits)
  note q = first_last_ok [OF rep, where G = ?G and M = ?M, folded X_def]
  show "\<exists>res. zslFirstInRange z h rng = Some (Inr res) \<and> answers h X (Min X) res"
    unfolding zslFirstInRange_def by (rule q(1)) (auto simp: node_key_def dest: up down never)
  show "\<exists>res. zslLastInRange z h rng = Some (Inr res) \<and> answers h X (Max X) res"
    unfolding zslLastInRange_def by (rule q(2)) (auto simp: node_key_def dest: up down never)
qed

text \<open>Ranges of strings: the order of the elements of one score, with a least and a greatest string.\<close>

fun lex_le :: "lex_str \<Rightarrow> lex_str \<Rightarrow> bool" where
  "lex_le MinString b = True"
| "lex_le a MaxString = True"
| "lex_le (Lex s) (Lex t) = (s \<le> t)"
| "lex_le a b = False"

lemma sdscmplex_order: "(sdscmplex a b < 0 \<longleftrightarrow> lex_le a b \<and> a \<noteq> b) \<and> (sdscmplex a b \<le> 0 \<longleftrightarrow> lex_le a b) \<and> (sdscmplex a b = 0 \<longleftrightarrow> a = b)"
  by (cases a; cases b) (auto simp: sdscmplex_def str_cmp_less str_cmp_le str_cmp_eq)

lemma lex_le_linear: "lex_le a b \<or> lex_le b a"
  by (cases a; cases b) auto

lemma lex_le_antisym: "lex_le a b \<Longrightarrow> lex_le b a \<Longrightarrow> a = b"
  by (cases a; cases b) auto

lemma lex_le_trans: "lex_le a b \<Longrightarrow> lex_le b c \<Longrightarrow> lex_le a c"
  by (cases a; cases b; cases c) auto

definition lex_gt_min :: "byte list \<Rightarrow> zlexrangespec \<Rightarrow> bool" where
  "lex_gt_min s rng \<longleftrightarrow> lex_le (lex_min rng) (Lex s) \<and> (lex_minex rng \<longrightarrow> Lex s \<noteq> lex_min rng)"

definition lex_lt_max :: "byte list \<Rightarrow> zlexrangespec \<Rightarrow> bool" where
  "lex_lt_max s rng \<longleftrightarrow> lex_le (Lex s) (lex_max rng) \<and> (lex_maxex rng \<longrightarrow> Lex s \<noteq> lex_max rng)"

lemma lex_bounds: "zslLexValueGteMin s rng \<longleftrightarrow> lex_gt_min s rng" "zslLexValueLteMax s rng \<longleftrightarrow> lex_lt_max s rng"
proof -
  have "sdscmplex a b > 0 \<longleftrightarrow> lex_le b a \<and> a \<noteq> b" "sdscmplex a b \<ge> 0 \<longleftrightarrow> lex_le b a" for a b
    using sdscmplex_order [of a b] lex_le_linear [of a b] lex_le_antisym [of a b] unfolding not_le [symmetric] by (metis not_less)+
  then show "zslLexValueGteMin s rng \<longleftrightarrow> lex_gt_min s rng" by (auto simp: zslLexValueGteMin_def lex_gt_min_def)
  show "zslLexValueLteMax s rng \<longleftrightarrow> lex_lt_max s rng" using sdscmplex_order [of "Lex s" "lex_max rng"] by (auto simp: zslLexValueLteMax_def lex_lt_max_def)
qed

lemma lex_empty: "empty_lex_range rng \<Longrightarrow> \<not> (lex_gt_min s rng \<and> lex_lt_max s rng)"
  unfolding empty_lex_range_def lex_gt_min_def lex_lt_max_def Let_def not_le [symmetric]
  using sdscmplex_order [of "lex_min rng" "lex_max rng"] lex_le_trans [of "lex_min rng" "Lex s" "lex_max rng"] lex_le_antisym [of "lex_min rng" "Lex s"]
  by metis

lemma lex_mono:
  assumes "s < t"
  shows "lex_gt_min s rng \<Longrightarrow> lex_gt_min t rng" "lex_lt_max t rng \<Longrightarrow> lex_lt_max s rng"
proof -
  have st: "lex_le (Lex s) (Lex t)" "Lex s \<noteq> Lex t" using assms by auto
  show "lex_gt_min s rng \<Longrightarrow> lex_gt_min t rng" "lex_lt_max t rng \<Longrightarrow> lex_lt_max s rng"
    using st lex_le_antisym lex_le_trans unfolding lex_gt_min_def lex_lt_max_def by metis+
qed

lemma lex_range_ok:
  fixes L :: "('a :: linorder) snode list" and rng :: zlexrangespec
  assumes rep: "zsl_rep h z L" and same: "fst ` keys_of L \<subseteq> {score}"
  defines "X \<equiv> {k \<in> keys_of L. lex_gt_min (snd k) rng \<and> lex_lt_max (snd k) rng}"
  shows "\<exists>res. zslFirstInLexRange z h rng = Some (Inr res) \<and> answers h X (Min X) res" "\<exists>res. zslLastInLexRange z h rng = Some (Inr res) \<and> answers h X (Max X) res"
proof -
  let ?G = "\<lambda>k. lex_gt_min (snd k) rng" and ?M = "\<lambda>k. lex_lt_max (snd k) rng"
  have snd_less: "snd x < snd y" if "x \<in> keys_of L" "y \<in> keys_of L" "x < y" for x y
  proof -
    have "fst x = fst y" using same that(1,2) by blast
    then show ?thesis using that(3) by (auto simp: less_prod_def)
  qed
  have up: "?G y" if "x \<in> keys_of L" "y \<in> keys_of L" "?G x" "x < y" for x y using lex_mono(1) [OF snd_less] that by blast
  have down: "?M x" if "x \<in> keys_of L" "y \<in> keys_of L" "?M y" "x < y" for x y using lex_mono(2) [OF snd_less] that by blast
  have never: "X = {}" if "empty_lex_range rng" using lex_empty [OF that] by (auto simp: X_def)
  note q = first_last_ok [OF rep, where G = ?G and M = ?M, folded X_def]
  show "\<exists>res. zslFirstInLexRange z h rng = Some (Inr res) \<and> answers h X (Min X) res"
    unfolding zslFirstInLexRange_def lex_bounds by (rule q(1)) (auto simp: node_key_def intro: up down dest: never)
  show "\<exists>res. zslLastInLexRange z h rng = Some (Inr res) \<and> answers h X (Max X) res"
    unfolding zslLastInLexRange_def lex_bounds by (rule q(2)) (auto simp: node_key_def intro: up down dest: never)
qed

section \<open>Ranks\<close>

text \<open>The positions are the ranks in the order of the keys.\<close>

lemma keys_sorted_list:
  fixes L :: "('a :: linorder) snode list"
  assumes "shape z L"
  shows "sorted_list_of_set (keys_of L) = map sn_key (tl L)" "card (keys_of L) = length L - 1" "finite (keys_of L)"
proof -
  have s: "sorted_wrt (<) (map sn_key (tl L))" using assms by (simp add: shape_def)
  show e: "sorted_list_of_set (keys_of L) = map sn_key (tl L)"
    using sorted_list_of_set.idem_if_sorted_distinct [of "map sn_key (tl L)"] strict_sorted_iff [of "map sn_key (tl L)"] s by (simp add: keys_of_def)
  show "finite (keys_of L)" by (simp add: keys_of_def)
  then have "card (keys_of L) = length (sorted_list_of_set (keys_of L))" by simp
  also have "\<dots> = length L - 1" unfolding e by simp
  finally show "card (keys_of L) = length L - 1" .
qed

lemma rank_loop_ok:
  fixes L :: "('a :: linorder) snode list"
  assumes rep: "zsl_rep h z L" and stop: "stops_at h L (\<lambda>n _. z_score n < score \<or> z_score n = score \<and> str_cmp (the (z_ele n)) ele \<le> 0) r"
    and k: "k \<le> zlevel z" and p: "p \<le> r" "0 < k \<Longrightarrow> k - 1 < sn_height (L ! p)"
    and only: "\<And>q. 0 < q \<Longrightarrow> q \<le> r \<Longrightarrow> snd (sn_key (L ! q)) = ele \<Longrightarrow> q = r"
  shows "rank_loop h score ele k (sn_addr (L ! p)) p = Some (Inr (if 0 < k \<and> 0 < r \<and> snd (sn_key (L ! r)) = ele then r else 0))"
  using k p
proof (induction k arbitrary: p)
  case (Suc k)
  have sh: "shape z L" and r: "r < length L" using rep stop by (simp_all add: zsl_rep_def stops_at_def)
  note s = shapeD [OF sh]
  let ?p = "pv (heights L) k r"
  have pr: "?p \<le> r" by (rule pv_le)
  have "k < heights L ! 0" using s(1,3,6) Suc.prems(1) by simp
  then have "k < heights L ! ?p" by (rule pv_height)
  then have kp: "k < sn_height (L ! ?p)" using pr r by simp
  have w: "walk 64 (\<lambda>n _. z_score n < score \<or> z_score n = score \<and> str_cmp (the (z_ele n)) ele \<le> 0) h k (sn_addr (L ! p)) p = Some (Inr (sn_addr (L ! ?p), ?p))"
    using walk_ok [OF rep stop, of 64 k p] Suc.prems by simp
  obtain n where n: "zget h (sn_addr (L ! ?p)) = Inr n" "z_ele n = (if ?p = 0 then None else Some (snd (sn_key (L ! ?p))))"
    using base_get [OF zsl_repD(1) [OF rep, of ?p]] pr r by (auto simp: cell_def)
  show ?case
  proof (cases "0 < ?p \<and> snd (sn_key (L ! ?p)) = ele")
    case True
    then have "?p = r" using only pr by blast
    then show ?thesis using w n True by (simp add: str_cmp_eq)
  next
    case False
    have "rank_loop h score ele k (sn_addr (L ! ?p)) ?p = Some (Inr (if 0 < k \<and> 0 < r \<and> snd (sn_key (L ! r)) = ele then r else 0))"
      using Suc.IH [of ?p] Suc.prems(1) pr kp by simp
    moreover have "k \<noteq> 0 \<or> \<not> (0 < r \<and> snd (sn_key (L ! r)) = ele)" using False pv_bottom [OF sh r] by auto
    ultimately show ?thesis using w n False by (auto simp: str_cmp_eq)
  qed
qed simp

lemma rank_ok:
  fixes L :: "('a :: linorder) snode list"
  assumes rep: "zsl_rep h z L" and uniq: "inj_on snd (keys_of L)"
  shows "(score, ele) \<in> keys_of L \<Longrightarrow> zslGetRank z h score ele = Some (Inr (card {k \<in> keys_of L. k \<le> (score, ele)}))"
    "ele \<notin> snd ` keys_of L \<Longrightarrow> zslGetRank z h score ele = Some (Inr 0)"
proof -
  have sh: "shape z L" using rep by (simp add: zsl_rep_def)
  note s = shapeD [OF sh]
  let ?go = "\<lambda>n _. z_score n < score \<or> z_score n = score \<and> str_cmp (the (z_ele n)) ele \<le> 0"
  have go: "?go n q \<longleftrightarrow> node_key n \<le> (score, ele)" for n :: "'a zskiplistNode" and q :: nat
    by (auto simp: node_key_def str_cmp_le less_eq_prod_def)
  have "\<exists>r. stops_at h L ?go r \<and> r < length L \<and> (\<forall>q. 0 < q \<and> q < length L \<longrightarrow> (sn_key (L ! q) \<le> (score, ele) \<longleftrightarrow> q \<le> r))"
    by (rule split_position [OF rep]) (use go in \<open>auto intro: order_trans less_imp_le\<close>)
  then obtain r where r: "stops_at h L ?go r" "r < length L" "\<forall>q. 0 < q \<and> q < length L \<longrightarrow> (sn_key (L ! q) \<le> (score, ele) \<longleftrightarrow> q \<le> r)" by blast
  have key: "sn_key (L ! q) \<in> keys_of L" if "0 < q" "q < length L" for q using that by (auto simp: keys_of_iff)
  have rank: "zslGetRank z h score ele = Some (Inr (if 0 < r \<and> snd (sn_key (L ! r)) = ele then r else 0))"
    if "\<And>q. 0 < q \<Longrightarrow> q \<le> r \<Longrightarrow> snd (sn_key (L ! q)) = ele \<Longrightarrow> q = r"
    using rank_loop_ok [OF rep r(1) order_refl, of 0] that s(2,3,5,6) by (simp add: zslGetRank_def)
  show "zslGetRank z h score ele = Some (Inr (card {k \<in> keys_of L. k \<le> (score, ele)}))" if m: "(score, ele) \<in> keys_of L"
  proof -
    obtain q where q: "0 < q" "q < length L" "sn_key (L ! q) = (score, ele)" using m by (auto simp: keys_of_iff)
    have eq: "p = q" if "0 < p" "p < length L" "snd (sn_key (L ! p)) = ele" for p
    proof (rule ccontr)
      assume "p \<noteq> q"
      moreover have "sn_key (L ! p) = sn_key (L ! q)" using inj_onD [OF uniq _ key key, of p q] that q by simp
      ultimately show False using key_less [OF sh, of p q] key_less [OF sh, of q p] that q by (metis less_irrefl nat_neq_iff)
    qed
    have "q \<le> r" using r(3) q by auto
    moreover have "\<not> q < r" using r(3) [rule_format, of r] r(2) key_less [OF sh q(1), of r] q(3) by auto
    ultimately have qr: "q = r" by simp
    have "bij_betw (\<lambda>p. sn_key (L ! p)) {0<..r} {k \<in> keys_of L. k \<le> (score, ele)}"
      unfolding bij_betw_def
    proof
      show "inj_on (\<lambda>p. sn_key (L ! p)) {0<..r}"
        using r(2) key_less [OF sh] by (intro inj_onI) (metis greaterThanAtMost_iff le_less_trans less_irrefl nat_neq_iff)
      show "(\<lambda>p. sn_key (L ! p)) ` {0<..r} = {k \<in> keys_of L. k \<le> (score, ele)}"
      proof (rule set_eqI)
        fix k
        have "k \<in> keys_of L \<and> k \<le> (score, ele) \<longleftrightarrow> (\<exists>p. 0 < p \<and> p \<le> r \<and> k = sn_key (L ! p))"
          unfolding keys_of_iff using r(2,3) by fastforce
        then show "k \<in> (\<lambda>p. sn_key (L ! p)) ` {0<..r} \<longleftrightarrow> k \<in> {k \<in> keys_of L. k \<le> (score, ele)}" by auto
      qed
    qed
    from bij_betw_same_card [OF this] have "card {k \<in> keys_of L. k \<le> (score, ele)} = r" by simp
    then show ?thesis using rank eq qr q r(2) by simp
  qed
  show "zslGetRank z h score ele = Some (Inr 0)" if m: "ele \<notin> snd ` keys_of L"
  proof -
    have "snd (sn_key (L ! q)) \<noteq> ele" if "0 < q" "q < length L" for q using key [OF that] m by blast
    then show ?thesis using rank r(2) by auto
  qed
qed

lemma element_loop_ok:
  fixes L :: "('a :: linorder) snode list"
  assumes rep: "zsl_rep h z L" and stop: "stops_at h L (\<lambda>n t. t \<le> rank) r"
    and k: "k \<le> zlevel z" and p: "p \<le> r" "0 < k \<Longrightarrow> k - 1 < sn_height (L ! p)" and r: "r \<le> rank"
  shows "element_loop h rank k (sn_addr (L ! p)) p = Some (Inr (if 0 < k \<and> r = rank then Some (sn_addr (L ! r)) else None))"
  using k p
proof (induction k arbitrary: p)
  case (Suc k)
  have sh: "shape z L" and rl: "r < length L" using rep stop by (simp_all add: zsl_rep_def stops_at_def)
  note s = shapeD [OF sh]
  let ?p = "pv (heights L) k r"
  have pr: "?p \<le> r" by (rule pv_le)
  have "k < heights L ! 0" using s(1,3,6) Suc.prems(1) by simp
  then have "k < heights L ! ?p" by (rule pv_height)
  then have kp: "k < sn_height (L ! ?p)" using pr rl by simp
  have w: "walk 64 (\<lambda>n t. t \<le> rank) h k (sn_addr (L ! p)) p = Some (Inr (sn_addr (L ! ?p), ?p))"
    using walk_ok [OF rep stop, of 64 k p] Suc.prems by simp
  show ?case
  proof (cases "?p = rank")
    case True
    then show ?thesis using w pr r by simp
  next
    case False
    have "element_loop h rank k (sn_addr (L ! ?p)) ?p = Some (Inr (if 0 < k \<and> r = rank then Some (sn_addr (L ! r)) else None))"
      using Suc.IH [of ?p] Suc.prems(1) pr kp by simp
    moreover have "k \<noteq> 0 \<or> r \<noteq> rank" using False pv_bottom [OF sh rl] by auto
    ultimately show ?thesis using w False by auto
  qed
qed simp

lemma element_ok:
  fixes L :: "('a :: linorder) snode list"
  assumes rep: "zsl_rep h z L"
  shows "zslGetElementByRank z h rank = Some (Inr (if rank < length L then Some (sn_addr (L ! rank)) else None))"
proof -
  have sh: "shape z L" using rep by (simp add: zsl_rep_def)
  note s = shapeD [OF sh]
  let ?r = "min rank (length L - 1)"
  have "length L \<noteq> 0" using s(1) by simp
  then have "?r < length L" by linarith
  then have "stops_at h L (\<lambda>n t. t \<le> rank) ?r" by (auto simp: stops_at_def)
  from element_loop_ok [OF rep this order_refl, of 0] show ?thesis
    using s(2,3,5,6) \<open>length L \<noteq> 0\<close> by (cases "rank < length L") (auto simp: zslGetElementByRank_def min_absorb1 min_absorb2)
qed

section \<open>Freeing\<close>

lemma ivl_left: "p < n \<Longrightarrow> {p..<n} = insert p {Suc p..<n}" for p n :: nat
  by auto

lemma free_loop_ok:
  fixes L :: "('a :: linorder) snode list"
  assumes rep: "zsl_rep h z L" and p: "0 < p" "p \<le> length L" and same: "\<And>q. p \<le> q \<Longrightarrow> q < length L \<Longrightarrow> h' (sn_addr (L ! q)) = h (sn_addr (L ! q))"
  shows "free_loop h' (if p < length L then Some (sn_addr (L ! p)) else None) =
    Some (Inr (\<lambda>a. if a \<in> (\<lambda>q. sn_addr (L ! q)) ` {p..<length L} then None else h' a))"
  using p same
proof (induction "length L - p" arbitrary: p h')
  case 0
  then show ?case by (subst free_loop.simps) simp
next
  case (Suc d)
  have sh: "shape z L" using rep by (simp add: zsl_rep_def)
  have p: "p < length L" using Suc.hyps(2) by simp
  let ?a = "sn_addr (L ! p)"
  have "level_at h' ?a 0 = level_at h ?a 0" using Suc.prems(3) [of p] p by (simp add: level_at_def zget_def)
  then have l: "level_at h' ?a 0 = Inr (lev L 0 p)" by (simp add: level_bottom [OF rep p])
  obtain n where n: "h ?a = Some n" using found_node [OF rep Suc.prems(1) p] by blast
  then have f: "zslFreeNode h' ?a = Inr (h'(?a := None))" using Suc.prems(3) [of p] p by (simp add: zslFreeNode_def zget_def)
  have "(h'(?a := None)) (sn_addr (L ! q)) = h (sn_addr (L ! q))" if "Suc p \<le> q" "q < length L" for q
    using Suc.prems(3) [of q] that addr_eq [OF sh p that(2)] by auto
  from Suc.hyps(1) [of "Suc p" "h'(?a := None)", OF _ _ _ this] have
    "free_loop (h'(?a := None)) (z_forward (lev L 0 p)) =
     Some (Inr (\<lambda>a. if a \<in> (\<lambda>q. sn_addr (L ! q)) ` {Suc p..<length L} then None else (h'(?a := None)) a))"
    using Suc.hyps(2) fw_bottom [OF sh p] by simp
  moreover have "(\<lambda>q. sn_addr (L ! q)) ` {p..<length L} = insert ?a ((\<lambda>q. sn_addr (L ! q)) ` {Suc p..<length L})"
    unfolding ivl_left [OF p] by simp
  ultimately show ?case using p l f by (subst free_loop.simps) (auto simp: fun_eq_iff)
qed

lemma zslFree_ok:
  fixes L :: "('a :: linorder) snode list"
  assumes rep: "zsl_rep h z L"
  shows "zslFree z h = Some (Inr (\<lambda>a. if a \<in> sn_addr ` set L then None else h a))"
proof -
  have sh: "shape z L" using rep by (simp add: zsl_rep_def)
  note s = shapeD [OF sh]
  have l0: "0 < length L" using s(1) by simp
  let ?h = "h(header z := None)"
  have "?h (sn_addr (L ! q)) = h (sn_addr (L ! q))" if "1 \<le> q" "q < length L" for q
    using addr_eq [OF sh that(2) l0] that(1) s(2) by auto
  from free_loop_ok [OF rep _ _ this, of 1] l0 have
    f: "free_loop ?h (z_forward (lev L 0 0)) = Some (Inr (\<lambda>a. if a \<in> (\<lambda>q. sn_addr (L ! q)) ` {1..<length L} then None else ?h a))"
    unfolding fw_bottom [OF sh l0] One_nat_def by linarith
  obtain n where "h (header z) = Some n" using zsl_repD(1) [OF rep l0] s(2) by (auto simp: base_def)
  then have "zslFree z h = Some (Inr (\<lambda>a. if a \<in> (\<lambda>q. sn_addr (L ! q)) ` {1..<length L} then None else ?h a))"
    using level_bottom [OF rep l0] s(2) f by (simp add: zslFree_def zslFreeNode_def zget_def)
  moreover have "sn_addr ` set L = insert (header z) ((\<lambda>q. sn_addr (L ! q)) ` {1..<length L})"
  proof -
    have "set L = (!) L ` {0..<length L}" by (metis list.set_map map_nth set_upt)
    also have "{0..<length L} = insert 0 {1..<length L}" using l0 by auto
    finally show ?thesis using s(2) by (simp add: image_image)
  qed
  ultimately show ?thesis by (auto simp: fun_eq_iff)
qed

section \<open>Sequences of updates\<close>

datatype 'a zop = ZInsert 'a "byte list" | ZDelete 'a "byte list" | ZUpdate 'a "byte list" 'a

record 'a zstate =
  zs_list :: zskiplist
  zs_heap :: "'a zheap"
  zs_rnd :: randoms

fun zstep :: "('a zheap \<Rightarrow> nat) \<Rightarrow> 'a zskiplistNode \<Rightarrow> ('a :: linorder) zop \<Rightarrow> 'a zstate \<Rightarrow> 'a zstate cres option" where
  "zstep alloc junk (ZInsert score ele) st =
     obind (zslInsert junk (alloc (zs_heap st)) (zs_list st) (zs_heap st) score ele (zs_rnd st)) (\<lambda>(a, z, h, r). Some (Inr \<lparr>zs_list = z, zs_heap = h, zs_rnd = r\<rparr>))"
| "zstep alloc junk (ZDelete score ele) st =
     obind (zslDelete (zs_list st) (zs_heap st) score ele False) (\<lambda>(a, z, h). Some (Inr \<lparr>zs_list = z, zs_heap = h, zs_rnd = zs_rnd st\<rparr>))"
| "zstep alloc junk (ZUpdate cur ele score) st =
     obind (zslUpdateScore junk (alloc (zs_heap st)) (zs_list st) (zs_heap st) cur ele score (zs_rnd st)) (\<lambda>(a, z, h, r). Some (Inr \<lparr>zs_list = z, zs_heap = h, zs_rnd = r\<rparr>))"

fun zrun :: "('a zheap \<Rightarrow> nat) \<Rightarrow> 'a zskiplistNode \<Rightarrow> ('a :: linorder) zop list \<Rightarrow> 'a zstate \<Rightarrow> 'a zstate cres option" where
  "zrun alloc junk [] st = Some (Inr st)"
| "zrun alloc junk (op # ops) st = obind (zstep alloc junk op st) (zrun alloc junk ops)"

text \<open>The sorted set that they stand for; callers insert only new elements and update only present ones.\<close>

fun zspec :: "'a zop \<Rightarrow> ('a \<times> byte list) set \<Rightarrow> ('a \<times> byte list) set" where
  "zspec (ZInsert score ele) S = insert (score, ele) S"
| "zspec (ZDelete score ele) S = S - {(score, ele)}"
| "zspec (ZUpdate cur ele score) S = insert (score, ele) (S - {(cur, ele)})"

fun zlegal :: "'a zop list \<Rightarrow> ('a \<times> byte list) set \<Rightarrow> bool" where
  "zlegal [] S = True"
| "zlegal (op # ops) S =
     ((case op of ZInsert score ele \<Rightarrow> ele \<notin> snd ` S | ZDelete score ele \<Rightarrow> True | ZUpdate cur ele score \<Rightarrow> (cur, ele) \<in> S) \<and>
      zlegal ops (zspec op S))"

text \<open>The generator comes back to values that end the loop of \<open>zslRandomLevel\<close>.\<close>

definition fair :: "randoms \<Rightarrow> bool" where
  "fair r \<longleftrightarrow> (\<forall>n. \<exists>m\<ge>n. 16384 \<le> r m mod 2 ^ 16)"

definition zsl_inv :: "('a :: linorder) zstate \<Rightarrow> 'a snode list \<Rightarrow> bool" where
  "zsl_inv st L \<longleftrightarrow> zsl_rep (zs_heap st) (zs_list st) L \<and> dom (zs_heap st) = sn_addr ` set L \<and> inj_on snd (keys_of L) \<and> fair (zs_rnd st)"

lemma level_loop_returns:
  assumes "16384 \<le> r m mod 2 ^ 16"
  shows "\<exists>level k. level_loop l r = Some (level, \<lambda>n. r (n + k))"
  using assms
proof (induction m arbitrary: r l)
  case 0
  then show ?case by (subst level_loop.simps) (auto simp: random_def intro!: exI [of _ "1 :: nat"])
next
  case (Suc m)
  obtain level k where IH: "level_loop (l + 1) (\<lambda>n. r (Suc n)) = Some (level, \<lambda>n. r (Suc (n + k)))" using Suc.IH [of "\<lambda>n. r (Suc n)" "l + 1"] Suc.prems by auto
  show ?case
  proof (cases "r 0 mod 2 ^ 16 < 16384")
    case True
    then show ?thesis using IH by (subst level_loop.simps) (auto simp: random_def intro!: exI [of _ "Suc k"])
  next
    case False
    then show ?thesis by (subst level_loop.simps) (auto simp: random_def intro!: exI [of _ "1 :: nat"])
  qed
qed

lemma random_level_returns:
  assumes "fair r"
  shows "\<exists>level r'. zslRandomLevel r = Some (level, r') \<and> fair r'"
proof -
  obtain m where "16384 \<le> r m mod 2 ^ 16" using assms by (auto simp: fair_def)
  then obtain level k where l: "level_loop 1 r = Some (level, \<lambda>n. r (n + k))" using level_loop_returns by blast
  have "fair (\<lambda>n. r (n + k))"
    unfolding fair_def
  proof
    fix n
    obtain m where "n + k \<le> m" "16384 \<le> r m mod 2 ^ 16" using assms by (auto simp: fair_def)
    then show "\<exists>m\<ge>n. 16384 \<le> r (m + k) mod 2 ^ 16" by (intro exI [of _ "m - k"]) auto
  qed
  then show ?thesis using l by (simp add: zslRandomLevel_def)
qed

lemma zstep_ok:
  fixes L :: "('a :: linorder) snode list"
  assumes inv: "zsl_inv st L" and legal: "zlegal (op # ops) (keys_of L)" and len: "length L < 2 ^ 32"
    and alloc: "\<And>h. finite (dom h) \<Longrightarrow> h (alloc h) = None"
  shows "\<exists>st' L'. zstep alloc junk op st = Some (Inr st') \<and> zsl_inv st' L' \<and> keys_of L' = zspec op (keys_of L) \<and> length L' \<le> Suc (length L)"
proof -
  have rep: "zsl_rep (zs_heap st) (zs_list st) L" and own: "dom (zs_heap st) = sn_addr ` set L" and inj: "inj_on snd (keys_of L)" and fr: "fair (zs_rnd st)"
    using inv by (simp_all add: zsl_inv_def)
  have sh: "shape (zs_list st) L" using rep by (simp add: zsl_rep_def)
  have new: "zs_heap st (alloc (zs_heap st)) = None" by (rule alloc) (simp add: own)
  obtain level r' where lv: "zslRandomLevel (zs_rnd st) = Some (level, r')" "fair r'" using random_level_returns [OF fr] by blast
  show ?thesis
  proof (cases op)
    case (ZInsert score ele)
    let ?x = "\<lparr>sn_addr = alloc (zs_heap st), sn_key = (score, ele), sn_height = level\<rparr>" and ?r = "reach (\<lambda>n. sn_key n < (score, ele)) L"
    have e: "ele \<notin> snd ` keys_of L" using legal ZInsert by simp
    then have "(score, ele) \<notin> keys_of L" by (metis image_eqI snd_conv)
    then have "(score, ele) \<notin> sn_key ` set (tl L)" by (simp add: keys_of_def)
    from zslInsert_ok [OF rep new this len lv(1), of junk] obtain z' h' where
      i: "zslInsert junk (alloc (zs_heap st)) (zs_list st) (zs_heap st) score ele (zs_rnd st) = Some (Inr (alloc (zs_heap st), z', h', r'))"
        "zsl_rep h' z' (ins (Suc ?r) ?x L)" "\<forall>a. a \<noteq> alloc (zs_heap st) \<and> a \<notin> sn_addr ` set L \<longrightarrow> h' a = zs_heap st a" by blast
    have k: "keys_of (ins (Suc ?r) ?x L) = insert (score, ele) (keys_of L)" unfolding keys_of_ins [OF shapeD(1) [OF sh]] by simp
    have "dom h' = sn_addr ` set (ins (Suc ?r) ?x L)"
    proof (rule set_eqI)
      fix a
      show "a \<in> dom h' \<longleftrightarrow> a \<in> sn_addr ` set (ins (Suc ?r) ?x L)"
        using rep_dom [OF i(2), of a] i(3) own by (cases "a \<in> sn_addr ` set (ins (Suc ?r) ?x L)") auto
    qed
    moreover have "inj_on snd (keys_of (ins (Suc ?r) ?x L))" unfolding k using inj e by (auto intro: rev_image_eqI)
    ultimately have "zsl_inv \<lparr>zs_list = z', zs_heap = h', zs_rnd = r'\<rparr> (ins (Suc ?r) ?x L)" using i(2) lv(2) by (simp add: zsl_inv_def)
    then show ?thesis using i(1) k ZInsert by (intro exI [of _ "\<lparr>zs_list = z', zs_heap = h', zs_rnd = r'\<rparr>"] exI [of _ "ins (Suc ?r) ?x L"]) simp
  next
    case (ZDelete score ele)
    show ?thesis
    proof (cases "(score, ele) \<in> keys_of L")
      case False
      then have "zstep alloc junk op st = Some (Inr st)" "zspec op (keys_of L) = keys_of L" using zslDelete_ok(1) [OF rep False] ZDelete by simp_all
      then show ?thesis using inv by (intro exI [of _ st] exI [of _ L]) simp
    next
      case True
      from zslDelete_ok(2) [OF rep True, of False] obtain k z' h' where
        d: "0 < k" "k < length L" "sn_key (L ! k) = (score, ele)" "zslDelete (zs_list st) (zs_heap st) score ele False = Some (Inr (Some (sn_addr (L ! k)), z', h'))"
          "zsl_rep h' z' (rem k L)" "\<forall>a. a \<notin> sn_addr ` set (rem k L) \<longrightarrow> h' a = (if a = sn_addr (L ! k) \<and> \<not> False then None else zs_heap st a)" by blast
      have k: "keys_of (rem k L) = keys_of L - {(score, ele)}" using keys_of_rem [OF sh d(1,2)] d(3) by simp
      have "dom h' = sn_addr ` set (rem k L)"
      proof (rule set_eqI)
        fix a
        have "h' a = None" if "a \<notin> sn_addr ` set (rem k L)"
          using d(6) own set_rem [OF d(2)] that by (cases "a = sn_addr (L ! k)") (auto simp: domIff set_eq_iff)
        then show "a \<in> dom h' \<longleftrightarrow> a \<in> sn_addr ` set (rem k L)" using rep_dom [OF d(5), of a] by (cases "a \<in> sn_addr ` set (rem k L)") auto
      qed
      moreover have "inj_on snd (keys_of (rem k L))" unfolding k by (rule inj_on_subset [OF inj]) auto
      ultimately have "zsl_inv \<lparr>zs_list = z', zs_heap = h', zs_rnd = zs_rnd st\<rparr> (rem k L)" using d(5) fr by (simp add: zsl_inv_def)
      then show ?thesis using d(4) k ZDelete rem_length [OF d(2)]
        by (intro exI [of _ "\<lparr>zs_list = z', zs_heap = h', zs_rnd = zs_rnd st\<rparr>"] exI [of _ "rem k L"]) simp
    qed
  next
    case (ZUpdate cur ele score)
    have cur: "(cur, ele) \<in> keys_of L" using legal ZUpdate by simp
    have oth: "ele \<notin> snd ` (keys_of L - {(cur, ele)})"
    proof
      assume "ele \<in> snd ` (keys_of L - {(cur, ele)})"
      then obtain x where "x \<in> keys_of L" "x \<noteq> (cur, ele)" "snd x = ele" by blast
      then show False using inj_onD [OF inj _ _ cur, of x] by simp
    qed
    have "(score, ele) \<notin> keys_of L - {(cur, ele)}" using imageI [of "(score, ele)" _ snd] oth by auto
    from zslUpdateScore_ok [OF rep cur this new lv(1) own, of junk] obtain a z' h' L' r where
      "zslUpdateScore junk (alloc (zs_heap st)) (zs_list st) (zs_heap st) cur ele score (zs_rnd st) = Some (Inr (a, z', h', r)) \<and>
        zsl_rep h' z' L' \<and> header z' = header (zs_list st) \<and>
        keys_of L' = insert (score, ele) (keys_of L - {(cur, ele)}) \<and> dom h' = sn_addr ` set L' \<and> length L' = length L \<and> r \<in> {zs_rnd st, r'} \<and>
        (\<exists>old. ((cur, ele), old) \<in> node_pairs L \<and> node_pairs L' = insert ((score, ele), a) (node_pairs L - {((cur, ele), old)}))"
      by (elim exE) (rule that)
    then have u: "zslUpdateScore junk (alloc (zs_heap st)) (zs_list st) (zs_heap st) cur ele score (zs_rnd st) = Some (Inr (a, z', h', r))" "zsl_rep h' z' L'"
        "keys_of L' = insert (score, ele) (keys_of L - {(cur, ele)})" "dom h' = sn_addr ` set L'" "length L' = length L" "r \<in> {zs_rnd st, r'}" by (simp_all only: simp_thms)
    have "inj_on snd (keys_of L')" unfolding u(3) using inj_on_subset [OF inj, of "keys_of L - {(cur, ele)}"] oth by auto
    then have "zsl_inv \<lparr>zs_list = z', zs_heap = h', zs_rnd = r\<rparr> L'" using u fr lv(2) by (auto simp: zsl_inv_def)
    then show ?thesis using u(1,3,5) ZUpdate by (intro exI [of _ "\<lparr>zs_list = z', zs_heap = h', zs_rnd = r\<rparr>"] exI [of _ L']) simp
  qed
qed

lemma zrun_ok:
  fixes L :: "('a :: linorder) snode list"
  assumes "zsl_inv st L" "zlegal ops (keys_of L)" "length L + length ops \<le> 2 ^ 32" "\<And>h. finite (dom h) \<Longrightarrow> h (alloc h) = None"
  shows "\<exists>st' L'. zrun alloc junk ops st = Some (Inr st') \<and> zsl_inv st' L' \<and> keys_of L' = fold zspec ops (keys_of L)"
  using assms(1-3)
proof (induction ops arbitrary: st L)
  case Nil
  then show ?case by auto
next
  case (Cons op ops)
  have len: "length L < 2 ^ 32" using Cons.prems(3) by simp
  obtain st1 L1 where s: "zstep alloc junk op st = Some (Inr st1)" "zsl_inv st1 L1" "keys_of L1 = zspec op (keys_of L)" "length L1 \<le> Suc (length L)"
    using zstep_ok [OF Cons.prems(1,2) len, of alloc junk] assms(4) by blast
  then show ?case using Cons.IH [OF s(2)] Cons.prems(2,3) by simp
qed

lemma zslCreate_ok:
  fixes zero :: "'a :: linorder"
  shows "zslCreate junk new zero h = (z, h') \<Longrightarrow> zsl_rep h' z [\<lparr>sn_addr = new, sn_key = (zero, []), sn_height = 64\<rparr>]"
  using nx_bounds(1) [of 0 "[64]" 0]
  by (auto simp: zslCreate_def Let_def zsl_rep_def shape_def heap_rep_def ZSKIPLIST_MAXLEVEL_def base_def lm_def cell_def lev_def fw_def
      zslCreateNode_def split: if_splits simp del: replicate.simps)

section \<open>Properties\<close>

definition zalloc_fresh :: "('a zheap \<Rightarrow> nat) \<Rightarrow> bool" where
  "zalloc_fresh alloc \<longleftrightarrow> (\<forall>h. finite (dom h) \<longrightarrow> h (alloc h) = None)"

definition zsl_start :: "'a zskiplistNode \<Rightarrow> nat \<Rightarrow> 'a \<Rightarrow> randoms \<Rightarrow> 'a zstate" where
  "zsl_start junk new zero r = (case zslCreate junk new zero (\<lambda>_. None) of (z, h) \<Rightarrow> \<lparr>zs_list = z, zs_heap = h, zs_rnd = r\<rparr>)"

lemma history_ok:
  fixes ops :: "('a :: linorder) zop list"
  assumes "zlegal ops {}" "length ops < 2 ^ 32" "zalloc_fresh alloc" "fair r"
  shows "\<exists>st L. zrun alloc junk ops (zsl_start junk new zero r) = Some (Inr st) \<and> zsl_inv st L \<and> keys_of L = fold zspec ops {}"
proof -
  let ?L = "[\<lparr>sn_addr = new, sn_key = (zero, []), sn_height = 64\<rparr>]" and ?st = "zsl_start junk new zero r"
  obtain z h where c: "zslCreate junk new zero (\<lambda>_. None) = (z, h)" by fastforce
  then have "dom h = {new}" by (auto simp: zslCreate_def Let_def split: if_splits)
  then have "zsl_inv ?st ?L" using zslCreate_ok [OF c] assms(4) c by (simp add: zsl_inv_def zsl_start_def keys_of_def)
  moreover have "zlegal ops (keys_of ?L)" using assms(1) by (simp add: keys_of_def)
  ultimately show ?thesis using zrun_ok [of ?st ?L ops alloc junk] assms(2,3) by (simp add: zalloc_fresh_def keys_of_def)
qed

lemma nth_sorted_keys:
  fixes L :: "('a :: linorder) snode list"
  assumes "shape z L" "0 < k" "k < length L"
  shows "sorted_list_of_set (keys_of L) ! (k - 1) = sn_key (L ! k)"
  using assms keys_sorted_list(1) [OF assms(1)] by (simp add: nth_tl)

text \<open>C15: a skip list made by \<open>zslCreate\<close> and changed by any sequence of \<open>zslInsert\<close>, \<open>zslDelete\<close> and \<open>zslUpdateScore\<close> calls, where
  only new elements are inserted and only present ones updated, is after each sequence the finite set of pairs of score and string that the
  calls describe, with every forward pointer, span and back pointer in place; no call faults, fails an assertion or loops, whatever the random
  levels are; the nodes allocated are exactly those of the list, and \<open>zslFree\<close> leaves none.\<close>

theorem zskiplist_refines_set:
  fixes ops :: "('a :: linorder) zop list"
  assumes "zlegal ops {}" "length ops < 2 ^ 32" "zalloc_fresh alloc" "fair r"
  shows "\<exists>st L. zrun alloc junk ops (zsl_start junk new zero r) = Some (Inr st) \<and> zsl_rep (zs_heap st) (zs_list st) L \<and>
    keys_of L = fold zspec ops {} \<and> zlength (zs_list st) = card (fold zspec ops {}) \<and> dom (zs_heap st) = sn_addr ` set L \<and>
    zslFree (zs_list st) (zs_heap st) = Some (Inr (\<lambda>_. None))"
proof -
  obtain st L where h: "zrun alloc junk ops (zsl_start junk new zero r) = Some (Inr st)" "zsl_inv st L" "keys_of L = fold zspec ops {}"
    using history_ok [OF assms] by blast
  have rep: "zsl_rep (zs_heap st) (zs_list st) L" and own: "dom (zs_heap st) = sn_addr ` set L" using h(2) by (simp_all add: zsl_inv_def)
  have sh: "shape (zs_list st) L" using rep by (simp add: zsl_rep_def)
  have "(\<lambda>a. if a \<in> sn_addr ` set L then None else zs_heap st a) = (\<lambda>_. None)" using own by (auto simp: fun_eq_iff)
  then have "zslFree (zs_list st) (zs_heap st) = Some (Inr (\<lambda>_. None))" using zslFree_ok [OF rep] by simp
  moreover have "zlength (zs_list st) = card (fold zspec ops {})" using shapeD(8) [OF sh] keys_sorted_list(2) [OF sh] h(3) by simp
  ultimately show ?thesis using h rep own by blast
qed

lemma least_alloc: "zalloc_fresh (\<lambda>h. LEAST a. h a = None)"
  unfolding zalloc_fresh_def
proof (intro allI impI)
  fix h :: "nat \<Rightarrow> 'b option" assume "finite (dom h)"
  then have "dom h \<noteq> UNIV" by auto
  then have "\<exists>a. h a = None" by auto
  then show "h (LEAST a. h a = None) = None" by (rule LeastI_ex)
qed

lemma fair_const: "16384 \<le> c mod 2 ^ 16 \<Longrightarrow> fair (\<lambda>_. c)"
  by (auto simp: fair_def)

theorem zskiplist_refines_set_witness:
  "\<exists>st L. zrun (\<lambda>h. LEAST a. h a = None) \<lparr>z_ele = None, z_score = 0, z_backward = None, z_level = []\<rparr>
      [ZInsert 3 [97], ZInsert (1 :: nat) [98], ZUpdate 3 [97] 0, ZDelete 1 [98], ZInsert 0 [98]]
      (zsl_start \<lparr>z_ele = None, z_score = 0, z_backward = None, z_level = []\<rparr> 0 0 (\<lambda>_. 16384)) = Some (Inr st) \<and>
    zsl_rep (zs_heap st) (zs_list st) L \<and> keys_of L = {(0, [97]), (0, [98])} \<and> zlength (zs_list st) = 2 \<and>
    dom (zs_heap st) = sn_addr ` set L \<and> zslFree (zs_list st) (zs_heap st) = Some (Inr (\<lambda>_. None))"
proof -
  let ?ops = "[ZInsert 3 [97], ZInsert (1 :: nat) [98], ZUpdate 3 [97] 0, ZDelete 1 [98], ZInsert 0 [98 :: byte]]"
  have S: "fold zspec ?ops {} = {(0, [97]), (0, [98])}" "card {(0 :: nat, [97 :: byte]), (0, [98])} = 2" by auto
  have "zlegal ?ops {}" "length ?ops < 2 ^ 32" "fair (\<lambda>_. 16384)" by (auto simp: fair_const)
  from zskiplist_refines_set [OF this(1,2) least_alloc this(3)] show ?thesis unfolding S .
qed

text \<open>C16: queries on such a skip list: the first and the last node in a range of scores hold the least and the greatest pair of the range, and there is
  none exactly when no pair is in the range; the rank of a pair is the number of pairs up to it, an absent string has rank 0, and the node of a
  rank is the one at that place in the order.\<close>

theorem zskiplist_queries:
  fixes ops :: "('a :: linorder) zop list" and rng :: "'a zrangespec"
  assumes "zlegal ops {}" "length ops < 2 ^ 32" "zalloc_fresh alloc" "fair r"
  defines "S \<equiv> fold zspec ops {}" and "X \<equiv> {k \<in> fold zspec ops {}. zslValueGteMin (fst k) rng \<and> zslValueLteMax (fst k) rng}"
  shows "\<exists>st first last el. zrun alloc junk ops (zsl_start junk new zero r) = Some (Inr st) \<and>
    zslFirstInRange (zs_list st) (zs_heap st) rng = Some (Inr first) \<and> answers (zs_heap st) X (Min X) first \<and>
    zslLastInRange (zs_list st) (zs_heap st) rng = Some (Inr last) \<and> answers (zs_heap st) X (Max X) last \<and>
    ((score, ele) \<in> S \<longrightarrow> zslGetRank (zs_list st) (zs_heap st) score ele = Some (Inr (card {k \<in> S. k \<le> (score, ele)}))) \<and>
    (ele \<notin> snd ` S \<longrightarrow> zslGetRank (zs_list st) (zs_heap st) score ele = Some (Inr 0)) \<and>
    zslGetElementByRank (zs_list st) (zs_heap st) rank = Some (Inr el) \<and>
    (0 < rank \<longrightarrow> answers (zs_heap st) (if rank \<le> card S then S else {}) (sorted_list_of_set S ! (rank - 1)) el)"
proof -
  obtain st L where h: "zrun alloc junk ops (zsl_start junk new zero r) = Some (Inr st)" "zsl_inv st L" "keys_of L = S"
    using history_ok [OF assms(1-4)] unfolding S_def by blast
  have rep: "zsl_rep (zs_heap st) (zs_list st) L" and inj: "inj_on snd (keys_of L)" using h(2) by (simp_all add: zsl_inv_def)
  have sh: "shape (zs_list st) L" using rep by (simp add: zsl_rep_def)
  have X: "X = {k \<in> keys_of L. zslValueGteMin (fst k) rng \<and> zslValueLteMax (fst k) rng}" using h(3) by (simp add: X_def S_def)
  obtain first where f: "zslFirstInRange (zs_list st) (zs_heap st) rng = Some (Inr first)" "answers (zs_heap st) X (Min X) first"
    using range_ok(1) [OF rep, of rng] unfolding X by blast
  obtain last where l: "zslLastInRange (zs_list st) (zs_heap st) rng = Some (Inr last)" "answers (zs_heap st) X (Max X) last"
    using range_ok(2) [OF rep, of rng] unfolding X by blast
  note rk = rank_ok [OF rep inj, where score = score and ele = ele, unfolded h(3)]
  let ?el = "if rank < length L then Some (sn_addr (L ! rank)) else None"
  have el: "zslGetElementByRank (zs_list st) (zs_heap st) rank = Some (Inr ?el)" by (rule element_ok [OF rep])
  have card: "card S = length L - 1" using keys_sorted_list(2) [OF sh] h(3) by simp
  have "answers (zs_heap st) (if rank \<le> card S then S else {}) (sorted_list_of_set S ! (rank - 1)) ?el" if r0: "0 < rank"
  proof (cases "rank < length L")
    case True
    obtain n where "zs_heap st (sn_addr (L ! rank)) = Some n" "z_ele n = Some (snd (sn_key (L ! rank)))" "z_score n = fst (sn_key (L ! rank))"
      using found_node [OF rep r0 True] by blast
    moreover have "S \<noteq> {}" using card True r0 by auto
    ultimately show ?thesis using True nth_sorted_keys [OF sh r0 True] h(3) card by (simp add: answers_def)
  next
    case False
    then show ?thesis using card shapeD(1) [OF sh] r0 by (cases "rank \<le> card S") (simp_all add: answers_def)
  qed
  with h(1) f l rk el show ?thesis by (intro exI [of _ st] exI [of _ first] exI [of _ last] exI [of _ ?el]) simp
qed

theorem zskiplist_queries_witness:
  "\<exists>st first last el. zrun (\<lambda>h. LEAST a. h a = None) \<lparr>z_ele = None, z_score = 0, z_backward = None, z_level = []\<rparr>
      [ZInsert 3 [97], ZInsert (1 :: nat) [98], ZInsert 2 [99]]
      (zsl_start \<lparr>z_ele = None, z_score = 0, z_backward = None, z_level = []\<rparr> 0 0 (\<lambda>_. 16384)) = Some (Inr st) \<and>
    zslFirstInRange (zs_list st) (zs_heap st) \<lparr>range_min = 1, range_max = 3, minex = False, maxex = True\<rparr> = Some (Inr first) \<and>
    answers (zs_heap st) {(1, [98]), (2, [99])} (1, [98]) first \<and>
    zslLastInRange (zs_list st) (zs_heap st) \<lparr>range_min = 1, range_max = 3, minex = False, maxex = True\<rparr> = Some (Inr last) \<and>
    answers (zs_heap st) {(1, [98]), (2, [99])} (2, [99]) last \<and>
    zslGetRank (zs_list st) (zs_heap st) 2 [99] = Some (Inr 2) \<and>
    zslGetElementByRank (zs_list st) (zs_heap st) 3 = Some (Inr el) \<and>
    answers (zs_heap st) {(1, [98]), (2, [99]), (3, [97])} (3, [97]) el"
proof -
  let ?ops = "[ZInsert 3 [97], ZInsert (1 :: nat) [98], ZInsert 2 [99 :: byte]]" and ?rng = "\<lparr>range_min = 1, range_max = 3, minex = False, maxex = True\<rparr> :: nat zrangespec"
  have S: "fold zspec ?ops {} = {(1, [98]), (2, [99]), (3, [97])}" by auto
  have X: "{k \<in> {(1, [98]), (2, [99]), (3, [97])}. zslValueGteMin (fst k) ?rng \<and> zslValueLteMax (fst k) ?rng} = {(1, [98]), (2, [99 :: byte])}"
    by (auto simp: zslValueGteMin_def zslValueLteMax_def)
  have le: "{k \<in> {(1, [98]), (2, [99]), (3 :: nat, [97 :: byte])}. k \<le> (2, [99])} = {(1, [98]), (2, [99])}" by auto
  have m: "Min {(1 :: nat, [98 :: byte]), (2, [99])} = (1, [98])" "Max {(1 :: nat, [98 :: byte]), (2, [99])} = (2, [99])" by (simp_all add: min_def max_def)
  have sl: "sorted_list_of_set {(1, [98]), (2, [99]), (3 :: nat, [97 :: byte])} = [(1, [98]), (2, [99]), (3, [97])]" by simp
  have c: "card {(1, [98]), (2, [99]), (3 :: nat, [97 :: byte])} = 3" "card {(1, [98]), (2 :: nat, [99 :: byte])} = 2" by simp_all
  have n: "[(1, [98]), (2, [99]), (3 :: nat, [97 :: byte])] ! (3 - 1) = (3, [97])" "(0 :: nat) < 3" "(3 :: nat) \<le> 3"
    "(2, [99]) \<in> {(1, [98]), (2, [99]), (3 :: nat, [97 :: byte])}" by simp_all
  have "zlegal ?ops {}" "length ?ops < 2 ^ 32" "fair (\<lambda>_. 16384)" by (simp_all add: fair_const)
  from zskiplist_queries [OF this(1,2) least_alloc this(3), where rng = ?rng and score = 2 and ele = "[99]" and rank = 3 and
        junk = "\<lparr>z_ele = None, z_score = 0, z_backward = None, z_level = []\<rparr>" and new = 0 and zero = 0]
  show ?thesis unfolding S X le m sl c by (simp only: n simp_thms if_True) blast
qed

end
