(* ===== verification/ZSet.thy ===== *)
theory ZSet
  imports ZskiplistUse TSet
begin

text \<open>
  Sorted sets of \<open>t_zset.c\<close> in the encoding for large sets: a dictionary from strings to scores beside a skip list of
  the same elements. The value of a dictionary entry is the address of the score in the node of the element. Addition of scores is an
  argument: it gives none where the sum is not a number, and so does a score that is no number.
\<close>

section \<open>Operations\<close>

definition zsetDictType :: "byte list \<Rightarrow> byte list dictType" where
  "zsetDictType seed = \<lparr> hashFunction = dictSdsHash seed, keyCompare = dictSdsKeyCompare \<rparr>"

text \<open>What the environment determines: the hash seed, the switch for resizing, the allocator, the contents of fresh memory and addition.\<close>

record 'a zcfg =
  zc_seed :: "byte list"
  zc_can_resize :: bool
  zc_alloc :: "'a zheap \<Rightarrow> nat"
  zc_junk :: "'a zskiplistNode"
  zc_add :: "'a \<Rightarrow> 'a \<Rightarrow> 'a option"

record 'a zset =
  zset_dict :: "(byte list, nat) dict"
  zset_zsl :: zskiplist
  zset_heap :: "'a zheap"
  zset_rnd :: randoms

text \<open>\<open>createZsetObject\<close>.\<close>

definition createZsetObject :: "'a zcfg \<Rightarrow> 'a \<Rightarrow> 'a zheap \<Rightarrow> randoms \<Rightarrow> 'a zset" where
  "createZsetObject cfg zero h r =
     (case zslCreate (zc_junk cfg) (zc_alloc cfg h) zero h of
        (zsl, h) \<Rightarrow> \<lparr> zset_dict = dictCreate, zset_zsl = zsl, zset_heap = h, zset_rnd = r \<rparr>)"

text \<open>The score that the value of an entry points to.\<close>

definition entry_score :: "'a zheap \<Rightarrow> nat \<Rightarrow> 'a cres" where
  "entry_score h a = cbind (zget h a) (\<lambda>n. Inr (z_score n))"

text \<open>Assigning to the value of the entry that \<open>dictFind\<close> has found for a key.\<close>

definition dict_set_entry :: "'k dictType \<Rightarrow> ('k, 'v) dict \<Rightarrow> 'k \<Rightarrow> 'v \<Rightarrow> ('k, 'v) dict cres" where
  "dict_set_entry dt d key v =
     (let idx0 = dictHashKey dt key AND sizemask (ht0 d); idx1 = dictHashKey dt key AND sizemask (ht1 d) in
      cbind (chain_of dt key (ht0 d)) (\<lambda>ch.
      case pos_of (\<lambda>he. keyCompare dt key (de_key he)) ch of
        Some j \<Rightarrow> cbind (set_val_at idx0 j v (ht0 d)) (\<lambda>h. Inr (d\<lparr>ht0 := h\<rparr>))
      | None \<Rightarrow>
          cbind (chain_of dt key (ht1 d)) (\<lambda>ch.
          case pos_of (\<lambda>he. keyCompare dt key (de_key he)) ch of
            Some j \<Rightarrow> cbind (set_val_at idx1 j v (ht1 d)) (\<lambda>h. Inr (d\<lparr>ht1 := h\<rparr>))
          | None \<Rightarrow> Inl NullDeref)))"

definition zsetLength :: "'a zset \<Rightarrow> nat" where
  "zsetLength zs = zlength (zset_zsl zs)"

definition zsetScore :: "'a zcfg \<Rightarrow> 'a zset \<Rightarrow> byte list \<Rightarrow> ('a option \<times> 'a zset) cres" where
  "zsetScore cfg zs member =
     cbind (dictFind (zsetDictType (zc_seed cfg)) (zset_dict zs) member) (\<lambda>(de, d).
     let zs = zs\<lparr>zset_dict := d\<rparr> in
     case de of
       None \<Rightarrow> Inr (None, zs)
     | Some de \<Rightarrow> cbind (entry_score (zset_heap zs) (de_val de)) (\<lambda>s. Inr (Some s, zs)))"

text \<open>The flags of \<open>zsetAdd\<close>.\<close>

definition ZADD_INCR :: "32 word" where "ZADD_INCR = 1"
definition ZADD_NX :: "32 word" where "ZADD_NX = 2"
definition ZADD_XX :: "32 word" where "ZADD_XX = 4"
definition ZADD_NOP :: "32 word" where "ZADD_NOP = 8"
definition ZADD_NAN :: "32 word" where "ZADD_NAN = 16"
definition ZADD_ADDED :: "32 word" where "ZADD_ADDED = 32"
definition ZADD_UPDATED :: "32 word" where "ZADD_UPDATED = 64"

text \<open>The result: the return value, the output flags and what is stored in \<open>newscore\<close>, if anything.\<close>

record 'a zadd_result =
  za_ok :: bool
  za_flags :: "32 word"
  za_newscore :: "'a option"

definition zsetAdd ::
  "('a :: linorder) zcfg \<Rightarrow> 'a zset \<Rightarrow> 'a option \<Rightarrow> byte list \<Rightarrow> 32 word \<Rightarrow> ('a zadd_result \<times> 'a zset) cres option" where
  "zsetAdd cfg zs score ele flags =
     (let incr = (flags AND ZADD_INCR) \<noteq> 0; nx = (flags AND ZADD_NX) \<noteq> 0; xx = (flags AND ZADD_XX) \<noteq> 0 in
      case score of
        None \<Rightarrow> Some (Inr (\<lparr> za_ok = False, za_flags = ZADD_NAN, za_newscore = None \<rparr>, zs))
      | Some score \<Rightarrow>
          obind (Some (dictFind (zsetDictType (zc_seed cfg)) (zset_dict zs) ele)) (\<lambda>(de, d).
          let zs = zs\<lparr>zset_dict := d\<rparr> in
          case de of
            Some de \<Rightarrow>
              if nx then Some (Inr (\<lparr> za_ok = True, za_flags = ZADD_NOP, za_newscore = None \<rparr>, zs))
              else
                obind (Some (entry_score (zset_heap zs) (de_val de))) (\<lambda>curscore.
                case (if incr then zc_add cfg score curscore else Some score) of
                  None \<Rightarrow> Some (Inr (\<lparr> za_ok = False, za_flags = ZADD_NAN, za_newscore = None \<rparr>, zs))
                | Some score \<Rightarrow>
                    let newscore = (if incr then Some score else None) in
                    if score \<noteq> curscore then
                      obind (zslUpdateScore (zc_junk cfg) (zc_alloc cfg (zset_heap zs)) (zset_zsl zs) (zset_heap zs) curscore ele score (zset_rnd zs))
                        (\<lambda>(znode, zsl, h, r).
                      obind (Some (dict_set_entry (zsetDictType (zc_seed cfg)) (zset_dict zs) ele znode)) (\<lambda>d.
                      Some (Inr (\<lparr> za_ok = True, za_flags = ZADD_UPDATED, za_newscore = newscore \<rparr>,
                                 \<lparr> zset_dict = d, zset_zsl = zsl, zset_heap = h, zset_rnd = r \<rparr>))))
                    else Some (Inr (\<lparr> za_ok = True, za_flags = 0, za_newscore = newscore \<rparr>, zs)))
          | None \<Rightarrow>
              if \<not> xx then
                obind (zslInsert (zc_junk cfg) (zc_alloc cfg (zset_heap zs)) (zset_zsl zs) (zset_heap zs) score ele (zset_rnd zs))
                  (\<lambda>(znode, zsl, h, r).
                obind (Some (dictAdd (zsetDictType (zc_seed cfg)) (zc_can_resize cfg) (zset_dict zs) ele znode)) (\<lambda>(ok, d).
                if ok then
                  Some (Inr (\<lparr> za_ok = True, za_flags = ZADD_ADDED, za_newscore = Some score \<rparr>,
                             \<lparr> zset_dict = d, zset_zsl = zsl, zset_heap = h, zset_rnd = r \<rparr>))
                else Some (Inl AssertFailed)))
              else Some (Inr (\<lparr> za_ok = True, za_flags = ZADD_NOP, za_newscore = None \<rparr>, zs))))"

definition zsetDel :: "('a :: linorder) zcfg \<Rightarrow> 'a zset \<Rightarrow> byte list \<Rightarrow> (bool \<times> 'a zset) cres option" where
  "zsetDel cfg zs ele =
     obind (Some (dictUnlink (zsetDictType (zc_seed cfg)) (zset_dict zs) ele)) (\<lambda>(de, d).
     case de of
       None \<Rightarrow> Some (Inr (False, zs\<lparr>zset_dict := d\<rparr>))
     | Some de \<Rightarrow>
         obind (Some (entry_score (zset_heap zs) (de_val de))) (\<lambda>score.
         obind (zslDelete (zset_zsl zs) (zset_heap zs) score ele False) (\<lambda>(x, zsl, h).
         if x = None then Some (Inl AssertFailed)
         else
           let d = (if htNeedsResize d then snd (dictResize (zc_can_resize cfg) d) else d) in
           Some (Inr (True, zs\<lparr>zset_dict := d, zset_zsl := zsl, zset_heap := h\<rparr>)))))"

text \<open>The rank from the start or from the end; \<open>None\<close> is the result -1.\<close>

definition zsetRank :: "('a :: linorder) zcfg \<Rightarrow> 'a zset \<Rightarrow> byte list \<Rightarrow> bool \<Rightarrow> (nat option \<times> 'a zset) cres option" where
  "zsetRank cfg zs ele reverse =
     (let llen = zsetLength zs in
      obind (Some (dictFind (zsetDictType (zc_seed cfg)) (zset_dict zs) ele)) (\<lambda>(de, d).
      let zs = zs\<lparr>zset_dict := d\<rparr> in
      case de of
        None \<Rightarrow> Some (Inr (None, zs))
      | Some de \<Rightarrow>
          obind (Some (entry_score (zset_heap zs) (de_val de))) (\<lambda>score.
          obind (zslGetRank (zset_zsl zs) (zset_heap zs) score ele) (\<lambda>rank.
          if rank = 0 then Some (Inl AssertFailed)
          else Some (Inr (Some (if reverse then ul_diff llen rank else rank - 1), zs))))))"

text \<open>Deleting ranges: the search for the first node, then the loop that deletes nodes while they are in the range. The three
  functions differ in the tests.\<close>

partial_function (option) delete_loop ::
  "'a zcfg \<Rightarrow> ('a zskiplistNode \<Rightarrow> nat \<Rightarrow> bool) \<Rightarrow> nat list \<Rightarrow> nat option \<Rightarrow> nat \<Rightarrow> nat \<Rightarrow> 'a zset \<Rightarrow> (nat \<times> 'a zset) cres option" where
  "delete_loop cfg go update x traversed removed zs =
     (case x of
        None \<Rightarrow> Some (Inr (removed, zs))
      | Some a \<Rightarrow>
          (case zget (zset_heap zs) a of
             Inl f \<Rightarrow> Some (Inl f)
           | Inr n \<Rightarrow>
               if go n traversed then
                 (case cbind (level_at (zset_heap zs) a 0) (\<lambda>l.
                       cbind (zslDeleteNode (zset_zsl zs) (zset_heap zs) a update) (\<lambda>(zsl, h).
                       cbind (zget h a) (\<lambda>n.
                       cbind (dictDelete (zsetDictType (zc_seed cfg)) (zset_dict zs) (the (z_ele n))) (\<lambda>(_, d).
                       cbind (zslFreeNode h a) (\<lambda>h.
                       Inr (z_forward l, zs\<lparr>zset_dict := d, zset_zsl := zsl, zset_heap := h\<rparr>)))))) of
                    Inl f \<Rightarrow> Some (Inl f)
                  | Inr (x, zs) \<Rightarrow> delete_loop cfg go update x ((traversed + 1) mod 2 ^ 64) ((removed + 1) mod 2 ^ 64) zs)
               else Some (Inr (removed, zs))))"

definition delete_range ::
  "'a zcfg \<Rightarrow> ('a zskiplistNode \<Rightarrow> nat \<Rightarrow> bool) \<Rightarrow> ('a zskiplistNode \<Rightarrow> nat \<Rightarrow> bool) \<Rightarrow> 'a zset \<Rightarrow> (nat \<times> 'a zset) cres option" where
  "delete_range cfg skip go zs =
     obind (descend 64 skip (zset_heap zs) (zlevel (zset_zsl zs)) (header (zset_zsl zs)) 0) (\<lambda>us.
     obind (Some (rd us 0)) (\<lambda>(u0, traversed).
     obind (Some (level_at (zset_heap zs) u0 0)) (\<lambda>l.
     delete_loop cfg go (map fst us) (z_forward l) ((traversed + 1) mod 2 ^ 64) 0 zs)))"

definition zslDeleteRangeByScore :: "('a :: linorder) zcfg \<Rightarrow> 'a zset \<Rightarrow> 'a zrangespec \<Rightarrow> (nat \<times> 'a zset) cres option" where
  "zslDeleteRangeByScore cfg zs rng =
     delete_range cfg (\<lambda>n _. if minex rng then z_score n \<le> range_min rng else z_score n < range_min rng)
       (\<lambda>n _. if maxex rng then z_score n < range_max rng else z_score n \<le> range_max rng) zs"

definition zslDeleteRangeByLex :: "'a zcfg \<Rightarrow> 'a zset \<Rightarrow> zlexrangespec \<Rightarrow> (nat \<times> 'a zset) cres option" where
  "zslDeleteRangeByLex cfg zs rng =
     delete_range cfg (\<lambda>n _. \<not> zslLexValueGteMin (the (z_ele n)) rng) (\<lambda>n _. zslLexValueLteMax (the (z_ele n)) rng) zs"

definition zslDeleteRangeByRank :: "'a zcfg \<Rightarrow> 'a zset \<Rightarrow> nat \<Rightarrow> nat \<Rightarrow> (nat \<times> 'a zset) cres option" where
  "zslDeleteRangeByRank cfg zs start stop = delete_range cfg (\<lambda>n t. t < start) (\<lambda>n t. t \<le> stop) zs"

section \<open>Invariant\<close>

interpretation zsets: dict_type "zsetDictType seed" "\<lambda>k. k" "\<lambda>k. True" for seed
  by unfold_locales (simp_all add: zsetDictType_def dictSdsKeyCompare_eq)

text \<open>The pairs of a map from strings to scores.\<close>

definition mgraph :: "(byte list \<rightharpoonup> 'a) \<Rightarrow> ('a \<times> byte list) set" where
  "mgraph M = {(s, e). M e = Some s}"

lemma mgraph_simps [simp]: "(s, e) \<in> mgraph M \<longleftrightarrow> M e = Some s" "mgraph Map.empty = {}"
  by (simp_all add: mgraph_def)

lemma mgraph_upd: "mgraph (M(e \<mapsto> s)) = insert (s, e) {k \<in> mgraph M. snd k \<noteq> e}"
  by (auto simp: mgraph_def)

lemma inj_mgraph: "inj_on snd (mgraph M)"
  by (auto simp: inj_on_def mgraph_def)

text \<open>The dictionary maps each element to its node; the allocated nodes are those of the list.\<close>

definition zset_inv :: "('a :: linorder) zcfg \<Rightarrow> 'a zset \<Rightarrow> (byte list \<rightharpoonup> 'a) \<Rightarrow> 'a snode list \<Rightarrow> bool" where
  "zset_inv cfg zs M L \<longleftrightarrow> zsl_rep (zset_heap zs) (zset_zsl zs) L \<and> dom (zset_heap zs) = sn_addr ` set L \<and> fair (zset_rnd zs) \<and>
     keys_of L = mgraph M \<and> zsets.dict_ok (zc_seed cfg) (zset_dict zs) \<and>
     (\<forall>e a. dict_map (\<lambda>k. k) (zset_dict zs) e = Some a \<longleftrightarrow> (\<exists>s. ((s, e), a) \<in> node_pairs L))"

lemma zset_invD:
  assumes "zset_inv cfg zs M L"
  shows "zsl_rep (zset_heap zs) (zset_zsl zs) L" "dom (zset_heap zs) = sn_addr ` set L" "fair (zset_rnd zs)" "keys_of L = mgraph M"
    "zsets.dict_ok (zc_seed cfg) (zset_dict zs)" "dict_map (\<lambda>k. k) (zset_dict zs) e = Some a \<longleftrightarrow> (\<exists>s. ((s, e), a) \<in> node_pairs L)"
    "shape (zset_zsl zs) L"
  using assms by (simp_all add: zset_inv_def zsl_rep_def)

lemma pair_in_keys: "(k, a) \<in> node_pairs L \<Longrightarrow> k \<in> keys_of L" "k \<in> keys_of L \<Longrightarrow> \<exists>a. (k, a) \<in> node_pairs L"
  unfolding keys_node_pairs by force+

lemma dict_value:
  assumes inv: "zset_inv cfg zs M L"
  shows "dict_map (\<lambda>k. k) (zset_dict zs) e = None \<longleftrightarrow> M e = None"
    "dict_map (\<lambda>k. k) (zset_dict zs) e = Some a \<Longrightarrow> \<exists>s. M e = Some s \<and> ((s, e), a) \<in> node_pairs L \<and> entry_score (zset_heap zs) a = Inr s"
proof -
  note i = zset_invD [OF inv]
  show "dict_map (\<lambda>k. k) (zset_dict zs) e = None \<longleftrightarrow> M e = None"
  proof (cases "M e")
    case None
    then have "((s, e), a) \<notin> node_pairs L" for s a using pair_in_keys(1) [of "(s, e)" a L] i(4) by auto
    then show ?thesis using None i(6) [of e] by (cases "dict_map (\<lambda>k. k) (zset_dict zs) e") auto
  next
    case (Some s)
    then have "(s, e) \<in> keys_of L" using i(4) by simp
    then show ?thesis using pair_in_keys(2) i(6) [of e] Some by force
  qed
  assume "dict_map (\<lambda>k. k) (zset_dict zs) e = Some a"
  then obtain s where p: "((s, e), a) \<in> node_pairs L" using i(6) by blast
  then have "M e = Some s" using pair_in_keys(1) [OF p] i(4) by simp
  moreover obtain q where q: "0 < q" "q < length L" "sn_key (L ! q) = (s, e)" "sn_addr (L ! q) = a" using p by (auto simp: node_pairs_iff)
  then have "entry_score (zset_heap zs) a = Inr s" using found_node [OF i(1) q(1,2)] by (auto simp: entry_score_def)
  ultimately show "\<exists>s. M e = Some s \<and> ((s, e), a) \<in> node_pairs L \<and> entry_score (zset_heap zs) a = Inr s" using p by blast
qed

text \<open>A look-up keeps the invariant and finds the score.\<close>

lemma find_ok:
  assumes inv: "zset_inv cfg zs M L"
  shows "\<exists>de d. dictFind (zsetDictType (zc_seed cfg)) (zset_dict zs) e = Inr (de, d) \<and> zset_inv cfg (zs\<lparr>zset_dict := d\<rparr>) M L \<and>
    size (entries d) = size (entries (zset_dict zs)) \<and>
    (case de of None \<Rightarrow> M e = None | Some de \<Rightarrow> \<exists>s. M e = Some s \<and> ((s, e), de_val de) \<in> node_pairs L \<and> entry_score (zset_heap zs) (de_val de) = Inr s)"
proof -
  note i = zset_invD [OF inv]
  obtain de d where f: "dictFind (zsetDictType (zc_seed cfg)) (zset_dict zs) e = Inr (de, d)" "zsets.dict_ok (zc_seed cfg) d" "entries d = entries (zset_dict zs)"
      "dict_map (\<lambda>k. k) (zset_dict zs) e = map_option de_val de" using zsets.dictFind_ok [OF i(5), of e] by blast
  have same: "dict_map (\<lambda>k. k) d = dict_map (\<lambda>k. k) (zset_dict zs)" using dict_map_same [OF zsets.dict_ok_uniq [OF i(5)] f(3)] .
  then have "zset_inv cfg (zs\<lparr>zset_dict := d\<rparr>) M L" using inv f(2) by (simp add: zset_inv_def)
  moreover have "case de of None \<Rightarrow> M e = None | Some de \<Rightarrow> \<exists>s. M e = Some s \<and> ((s, e), de_val de) \<in> node_pairs L \<and> entry_score (zset_heap zs) (de_val de) = Inr s"
    using dict_value [OF inv, of e] f(4) by (cases de) simp_all
  ultimately show ?thesis using f(1,3) by auto
qed

lemma zsetScore_ok:
  assumes inv: "zset_inv cfg zs M L"
  shows "\<exists>d. zsetScore cfg zs e = Inr (M e, zs\<lparr>zset_dict := d\<rparr>) \<and> zset_inv cfg (zs\<lparr>zset_dict := d\<rparr>) M L"
proof -
  obtain de d where f: "dictFind (zsetDictType (zc_seed cfg)) (zset_dict zs) e = Inr (de, d)" "zset_inv cfg (zs\<lparr>zset_dict := d\<rparr>) M L"
      "case de of None \<Rightarrow> M e = None | Some de \<Rightarrow> \<exists>s. M e = Some s \<and> ((s, e), de_val de) \<in> node_pairs L \<and> entry_score (zset_heap zs) (de_val de) = Inr s"
    using find_ok [OF inv] by blast
  then show ?thesis by (intro exI [of _ d]) (auto simp: zsetScore_def Let_def split: option.splits)
qed

lemma zsetLength_ok: "zset_inv cfg zs M L \<Longrightarrow> zsetLength zs = card (dom M)"
proof -
  assume inv: "zset_inv cfg zs M L"
  note i = zset_invD [OF inv]
  have "zsetLength zs = card (mgraph M)" using shapeD(8) [OF i(7)] keys_sorted_list(2) [OF i(7)] i(4) by (simp add: zsetLength_def)
  also have "card (mgraph M) = card (snd ` mgraph M)" by (rule card_image [OF inj_mgraph, symmetric])
  also have "snd ` mgraph M = dom M" by (auto simp: mgraph_def image_iff)
  finally show ?thesis .
qed

lemma size_dict:
  assumes inv: "zset_inv cfg zs M L"
  shows "size (entries (zset_dict zs)) = card (dom M)" "card (dom M) < 2 ^ 32"
proof -
  note i = zset_invD [OF inv]
  have "dom (dict_map (\<lambda>k. k) (zset_dict zs)) = dom M" by (intro set_eqI) (simp add: domIff dict_value(1) [OF inv] del: not_None_eq)
  then show "size (entries (zset_dict zs)) = card (dom M)" using zsets.card_dom [OF i(5)] by simp
  have "length L - 1 = card (dom M)" using zsetLength_ok [OF inv] shapeD(8) [OF i(7)] by (simp add: zsetLength_def)
  then show "card (dom M) < 2 ^ 32" using shapeD(1,4) [OF i(7)] by (cases L) auto
qed

section \<open>Adding and deleting\<close>

lemma dict_set_entry_ok:
  assumes ok: "zsets.dict_ok seed d" and some: "dict_map (\<lambda>k. k) d key \<noteq> None"
  shows "\<exists>d'. dict_set_entry (zsetDictType seed) d key v = Inr d' \<and> zsets.dict_ok seed d' \<and> dict_map (\<lambda>k. k) d' = (dict_map (\<lambda>k. k) d)(key \<mapsto> v)"
proof -
  let ?dt = "zsetDictType seed" and ?P = "\<lambda>he. keyCompare (zsetDictType seed) key (de_key he)"
  note t = zsets.ok_tables [OF ok]
  have ne: "entries d \<noteq> {#}" using some dict_map_None [OF zsets.dict_ok_uniq [OF ok], of key] by auto
  obtain c0 where c0: "rd (table (ht0 d)) (dictHashKey ?dt key AND sizemask (ht0 d)) = Inr c0" "dictHashKey ?dt key AND sizemask (ht0 d) < length (table (ht0 d))"
      "c0 = table (ht0 d) ! (dictHashKey ?dt key AND sizemask (ht0 d))"
      "case pos_of ?P c0 of None \<Rightarrow> \<forall>e \<in># ht_entries (ht0 d). de_key e \<noteq> key | Some j \<Rightarrow> j < length c0 \<and> de_key (c0 ! j) = key"
    using zsets.pos_chain [OF t(3) [OF ne] _ t(1), of key] by auto
  show ?thesis
  proof (cases "pos_of ?P c0")
    case (Some j)
    then have "zsets.at_place seed d key False (dictHashKey ?dt key AND sizemask (ht0 d)) j" using c0 t(3) [OF ne] by (simp add: zsets.at_place_def)
    from zsets.set_val_ok [OF ok this, of v] show ?thesis
      using Some c0(1) by (auto simp: dict_set_entry_def chain_of_def zsets.table_at_def zsets.set_table_def)
  next
    case None
    have re: "dictIsRehashing d"
    proof (rule ccontr)
      assume "\<not> dictIsRehashing d"
      then show False using zsets.map_of_miss [OF ok, of key] c0(4) None t(5) some by simp
    qed
    obtain c1 where c1: "rd (table (ht1 d)) (dictHashKey ?dt key AND sizemask (ht1 d)) = Inr c1" "dictHashKey ?dt key AND sizemask (ht1 d) < length (table (ht1 d))"
        "c1 = table (ht1 d) ! (dictHashKey ?dt key AND sizemask (ht1 d))"
        "case pos_of ?P c1 of None \<Rightarrow> \<forall>e \<in># ht_entries (ht1 d). de_key e \<noteq> key | Some j \<Rightarrow> j < length c1 \<and> de_key (c1 ! j) = key"
      using zsets.pos_chain [OF t(4) [OF re] _ t(2), of key] by auto
    obtain j where j: "pos_of ?P c1 = Some j" using zsets.map_of_miss [OF ok, of key] c0(4) c1(4) None some by (cases "pos_of ?P c1") auto
    then have "zsets.at_place seed d key True (dictHashKey ?dt key AND sizemask (ht1 d)) j" using c1 t(4) [OF re] by (simp add: zsets.at_place_def)
    from zsets.set_val_ok [OF ok this, of v] show ?thesis
      using None j c0(1) c1(1) by (auto simp: dict_set_entry_def chain_of_def zsets.table_at_def zsets.set_table_def)
  qed
qed

lemma pair_unique:
  assumes sh: "shape z L" and "(k, a) \<in> node_pairs L" "(k, b) \<in> node_pairs L"
  shows "a = b"
proof -
  obtain p q where p: "0 < p" "p < length L" "sn_key (L ! p) = k" "sn_addr (L ! p) = a"
    and q: "0 < q" "q < length L" "sn_key (L ! q) = k" "sn_addr (L ! q) = b" using assms(2,3) unfolding node_pairs_iff by blast
  have "p = q"
    using key_less [OF sh p(1) _ q(2)] key_less [OF sh q(1) _ p(2)] p(3) q(3) by (metis less_irrefl nat_neq_iff)
  then show ?thesis using p(4) q(4) by simp
qed

text \<open>What \<open>zsetAdd\<close> promises on the map from strings to scores.\<close>

definition zadd_spec :: "('a \<Rightarrow> 'a \<Rightarrow> 'a option) \<Rightarrow> (byte list \<rightharpoonup> 'a) \<Rightarrow> 'a option \<Rightarrow> byte list \<Rightarrow> 32 word \<Rightarrow> 'a zadd_result \<times> (byte list \<rightharpoonup> 'a)" where
  "zadd_spec add M score ele flags =
     (let incr = (flags AND ZADD_INCR) \<noteq> 0; nx = (flags AND ZADD_NX) \<noteq> 0; xx = (flags AND ZADD_XX) \<noteq> 0;
          nan = \<lparr> za_ok = False, za_flags = ZADD_NAN, za_newscore = None \<rparr>; nop = \<lparr> za_ok = True, za_flags = ZADD_NOP, za_newscore = None \<rparr> in
      case (score, M ele) of
        (None, _) \<Rightarrow> (nan, M)
      | (Some s, None) \<Rightarrow>
          if xx then (nop, M) else (\<lparr> za_ok = True, za_flags = ZADD_ADDED, za_newscore = Some s \<rparr>, M(ele \<mapsto> s))
      | (Some s, Some cur) \<Rightarrow>
          if nx then (nop, M)
          else
            (case (if incr then add s cur else Some s) of
               None \<Rightarrow> (nan, M)
             | Some s \<Rightarrow> (\<lparr> za_ok = True, za_flags = (if s \<noteq> cur then ZADD_UPDATED else 0), za_newscore = (if incr then Some s else None) \<rparr>, M(ele \<mapsto> s))))"

lemma zset_insert_ok:
  assumes inv: "zset_inv cfg zs M L" and fresh: "zalloc_fresh (zc_alloc cfg)" and small: "card (dom M) + 1 < 2 ^ 32" and none: "M ele = None"
  shows "\<exists>zsl h r d L'. zslInsert (zc_junk cfg) (zc_alloc cfg (zset_heap zs)) (zset_zsl zs) (zset_heap zs) score ele (zset_rnd zs) =
      Some (Inr (zc_alloc cfg (zset_heap zs), zsl, h, r)) \<and>
    dictAdd (zsetDictType (zc_seed cfg)) (zc_can_resize cfg) (zset_dict zs) ele (zc_alloc cfg (zset_heap zs)) = Inr (True, d) \<and>
    zset_inv cfg \<lparr> zset_dict = d, zset_zsl = zsl, zset_heap = h, zset_rnd = r \<rparr> (M(ele \<mapsto> score)) L'"
proof -
  note i = zset_invD [OF inv]
  let ?new = "zc_alloc cfg (zset_heap zs)"
  have new: "zset_heap zs ?new = None" using fresh i(2) by (simp add: zalloc_fresh_def)
  obtain level r where lv: "zslRandomLevel (zset_rnd zs) = Some (level, r)" "fair r" using random_level_returns [OF i(3)] by blast
  let ?x = "\<lparr>sn_addr = ?new, sn_key = (score, ele), sn_height = level\<rparr>" and ?r = "reach (\<lambda>n. sn_key n < (score, ele)) L"
  have key: "(score, ele) \<notin> sn_key ` set (tl L)" using i(4) none unfolding keys_of_def [symmetric] by simp
  have len: "length L < 2 ^ 32" using small zsetLength_ok [OF inv] shapeD(8) [OF i(7)] by (simp add: zsetLength_def)
  from zslInsert_ok [OF i(1) new key len lv(1), of "zc_junk cfg"] obtain zsl h where
    z: "zslInsert (zc_junk cfg) ?new (zset_zsl zs) (zset_heap zs) score ele (zset_rnd zs) = Some (Inr (?new, zsl, h, r))"
      "zsl_rep h zsl (ins (Suc ?r) ?x L)" "\<forall>a. a \<noteq> ?new \<and> a \<notin> sn_addr ` set L \<longrightarrow> h a = zset_heap zs a" by blast
  have sz: "size (entries (zset_dict zs)) < 2 ^ 62" using size_dict [OF inv] by simp
  have nd: "dict_map (\<lambda>k. k) (zset_dict zs) ele = None" using dict_value(1) [OF inv] none by simp
  obtain d where d: "dictAdd (zsetDictType (zc_seed cfg)) (zc_can_resize cfg) (zset_dict zs) ele ?new = Inr (True, d)" "zsets.dict_ok (zc_seed cfg) d"
      "dict_map (\<lambda>k. k) d = (dict_map (\<lambda>k. k) (zset_dict zs))(ele \<mapsto> ?new)"
    using zsets.dictAdd_ok [OF i(5) _ sz, where key = ele and can_resize = "zc_can_resize cfg" and val = ?new] nd by auto
  let ?L = "ins (Suc ?r) ?x L"
  have k: "keys_of ?L = mgraph (M(ele \<mapsto> score))"
    unfolding keys_of_ins [OF shapeD(1) [OF i(7)]] i(4) mgraph_upd using none by auto
  have p: "node_pairs ?L = insert ((score, ele), ?new) (node_pairs L)" using node_pairs_ins [OF shapeD(1) [OF i(7)]] by simp
  have own: "dom h = sn_addr ` set ?L"
  proof (rule set_eqI)
    fix a
    show "a \<in> dom h \<longleftrightarrow> a \<in> sn_addr ` set ?L"
      using rep_dom [OF z(2), of a] z(3) i(2) by (cases "a \<in> sn_addr ` set ?L") auto
  qed
  have no: "((s, ele), a) \<notin> node_pairs L" for s a using pair_in_keys(1) [of "(s, ele)" a L] i(4) none by auto
  have "dict_map (\<lambda>k. k) d e = Some a \<longleftrightarrow> (\<exists>s. ((s, e), a) \<in> node_pairs ?L)" for e a
    unfolding d(3) p using no i(6) [of e a] by (cases "e = ele") auto
  then have "zset_inv cfg \<lparr> zset_dict = d, zset_zsl = zsl, zset_heap = h, zset_rnd = r \<rparr> (M(ele \<mapsto> score)) ?L"
    using z(2) own lv(2) k d(2) by (simp add: zset_inv_def)
  then show ?thesis using z(1) d(1) by blast
qed

lemma zset_update_ok:
  assumes inv: "zset_inv cfg zs M L" and fresh: "zalloc_fresh (zc_alloc cfg)" and cur: "M ele = Some cur"
  shows "\<exists>a zsl h r d L'. zslUpdateScore (zc_junk cfg) (zc_alloc cfg (zset_heap zs)) (zset_zsl zs) (zset_heap zs) cur ele score (zset_rnd zs) =
      Some (Inr (a, zsl, h, r)) \<and>
    dict_set_entry (zsetDictType (zc_seed cfg)) (zset_dict zs) ele a = Inr d \<and>
    zset_inv cfg \<lparr> zset_dict = d, zset_zsl = zsl, zset_heap = h, zset_rnd = r \<rparr> (M(ele \<mapsto> score)) L'"
proof -
  note i = zset_invD [OF inv]
  have new: "zset_heap zs (zc_alloc cfg (zset_heap zs)) = None" using fresh i(2) by (simp add: zalloc_fresh_def)
  obtain level r' where lv: "zslRandomLevel (zset_rnd zs) = Some (level, r')" "fair r'" using random_level_returns [OF i(3)] by blast
  have c: "(cur, ele) \<in> keys_of L" "(score, ele) \<notin> keys_of L - {(cur, ele)}" using cur i(4) by auto
  from zslUpdateScore_ok [OF i(1) c new lv(1) i(2), of "zc_junk cfg"] obtain a zsl h L' r where
    "zslUpdateScore (zc_junk cfg) (zc_alloc cfg (zset_heap zs)) (zset_zsl zs) (zset_heap zs) cur ele score (zset_rnd zs) = Some (Inr (a, zsl, h, r)) \<and>
      zsl_rep h zsl L' \<and> header zsl = header (zset_zsl zs) \<and> keys_of L' = insert (score, ele) (keys_of L - {(cur, ele)}) \<and> dom h = sn_addr ` set L' \<and>
      length L' = length L \<and> r \<in> {zset_rnd zs, r'} \<and>
      (\<exists>old. ((cur, ele), old) \<in> node_pairs L \<and> node_pairs L' = insert ((score, ele), a) (node_pairs L - {((cur, ele), old)}))"
    by (elim exE) (rule that)
  then obtain old where u: "zslUpdateScore (zc_junk cfg) (zc_alloc cfg (zset_heap zs)) (zset_zsl zs) (zset_heap zs) cur ele score (zset_rnd zs) = Some (Inr (a, zsl, h, r))"
      "zsl_rep h zsl L'" "keys_of L' = insert (score, ele) (keys_of L - {(cur, ele)})" "dom h = sn_addr ` set L'" "r \<in> {zset_rnd zs, r'}"
      "((cur, ele), old) \<in> node_pairs L" "node_pairs L' = insert ((score, ele), a) (node_pairs L - {((cur, ele), old)})" by (elim conjE exE) (rule that)
  have "dict_map (\<lambda>k. k) (zset_dict zs) ele \<noteq> None" using dict_value(1) [OF inv, of ele] cur by simp
  from dict_set_entry_ok [OF i(5) this, of a] obtain d where
    d: "dict_set_entry (zsetDictType (zc_seed cfg)) (zset_dict zs) ele a = Inr d" "zsets.dict_ok (zc_seed cfg) d"
      "dict_map (\<lambda>k. k) d = (dict_map (\<lambda>k. k) (zset_dict zs))(ele \<mapsto> a)" by blast
  have k: "keys_of L' = mgraph (M(ele \<mapsto> score))" unfolding u(3) i(4) mgraph_upd using cur by auto
  have only: "s = cur \<and> b = old" if "((s, ele), b) \<in> node_pairs L" for s b
    using pair_in_keys(1) [OF that] i(4) cur pair_unique [OF i(7) that, of old] u(6) by auto
  have "dict_map (\<lambda>k. k) d e = Some b \<longleftrightarrow> (\<exists>s. ((s, e), b) \<in> node_pairs L')" for e b
    unfolding d(3) u(7) using only i(6) [of e b] by (cases "e = ele") auto
  then have "zset_inv cfg \<lparr> zset_dict = d, zset_zsl = zsl, zset_heap = h, zset_rnd = r \<rparr> (M(ele \<mapsto> score)) L'"
    using u(2,4,5) i(3) lv(2) k d(2) by (auto simp: zset_inv_def)
  then show ?thesis using u(1) d(1) by blast
qed

lemma zsetAdd_ok:
  assumes inv: "zset_inv cfg zs M L" and fresh: "zalloc_fresh (zc_alloc cfg)" and small: "card (dom M) + 1 < 2 ^ 32"
  shows "\<exists>zs' L'. zsetAdd cfg zs score ele flags = Some (Inr (fst (zadd_spec (zc_add cfg) M score ele flags), zs')) \<and>
    zset_inv cfg zs' (snd (zadd_spec (zc_add cfg) M score ele flags)) L'"
proof (cases score)
  case None
  then show ?thesis using inv by (intro exI [of _ zs] exI [of _ L]) (simp add: zsetAdd_def zadd_spec_def Let_def)
next
  case (Some s)
  obtain de d where f: "dictFind (zsetDictType (zc_seed cfg)) (zset_dict zs) ele = Inr (de, d)" "zset_inv cfg (zs\<lparr>zset_dict := d\<rparr>) M L"
      "case de of None \<Rightarrow> M ele = None | Some de \<Rightarrow> \<exists>s. M ele = Some s \<and> ((s, ele), de_val de) \<in> node_pairs L \<and> entry_score (zset_heap zs) (de_val de) = Inr s"
    using find_ok [OF inv] by blast
  let ?zs = "zs\<lparr>zset_dict := d\<rparr>"
  show ?thesis
  proof (cases de)
    case none: None
    then have M: "M ele = None" using f(3) by simp
    from zset_insert_ok [OF f(2) fresh small M, of s] obtain zsl h r d' L' where
      "zslInsert (zc_junk cfg) (zc_alloc cfg (zset_heap ?zs)) (zset_zsl ?zs) (zset_heap ?zs) s ele (zset_rnd ?zs) = Some (Inr (zc_alloc cfg (zset_heap ?zs), zsl, h, r))"
      "dictAdd (zsetDictType (zc_seed cfg)) (zc_can_resize cfg) (zset_dict ?zs) ele (zc_alloc cfg (zset_heap ?zs)) = Inr (True, d')"
      "zset_inv cfg \<lparr> zset_dict = d', zset_zsl = zsl, zset_heap = h, zset_rnd = r \<rparr> (M(ele \<mapsto> s)) L'" by blast
    then show ?thesis using Some f(1,2) none M by (auto simp: zsetAdd_def zadd_spec_def Let_def)
  next
    case de: (Some de')
    then obtain cur where cur: "M ele = Some cur" "entry_score (zset_heap zs) (de_val de') = Inr cur" using f(3) by auto
    let ?sum = "if (flags AND ZADD_INCR) \<noteq> 0 then zc_add cfg s cur else Some s"
    show ?thesis
    proof (cases "(flags AND ZADD_NX) \<noteq> 0 \<or> ?sum = None \<or> ?sum = Some cur")
      case True
      have "M(ele \<mapsto> cur) = M" using cur(1) by auto
      then show ?thesis using True Some de f(1,2) cur by (intro exI [of _ ?zs] exI [of _ L]) (auto simp: zsetAdd_def zadd_spec_def Let_def split: option.splits if_splits)
    next
      case False
      then obtain s' where s': "?sum = Some s'" "s' \<noteq> cur" by (cases ?sum) auto
      from zset_update_ok [OF f(2) fresh cur(1), of s'] obtain a zsl h r d' L' where
        "zslUpdateScore (zc_junk cfg) (zc_alloc cfg (zset_heap ?zs)) (zset_zsl ?zs) (zset_heap ?zs) cur ele s' (zset_rnd ?zs) = Some (Inr (a, zsl, h, r))"
        "dict_set_entry (zsetDictType (zc_seed cfg)) (zset_dict ?zs) ele a = Inr d'"
        "zset_inv cfg \<lparr> zset_dict = d', zset_zsl = zsl, zset_heap = h, zset_rnd = r \<rparr> (M(ele \<mapsto> s')) L'" by blast
      then show ?thesis using False Some de f(1) cur s' by (auto simp: zsetAdd_def zadd_spec_def Let_def split: if_splits)
    qed
  qed
qed

text \<open>The state after a node is unlinked, its entry deleted and its memory freed.\<close>

lemma removed_inv:
  assumes inv: "zset_inv cfg zs M L" and k: "0 < k" "k < length L" "sn_key (L ! k) = (s, ele)"
    and rep: "zsl_rep h z (rem k L)" and h: "\<And>a. a \<notin> sn_addr ` set (rem k L) \<Longrightarrow> h a = (if a = sn_addr (L ! k) then None else zset_heap zs a)"
    and d: "zsets.dict_ok (zc_seed cfg) d" "dict_map (\<lambda>k. k) d = (dict_map (\<lambda>k. k) (zset_dict zs))(ele := None)"
  shows "zset_inv cfg (zs\<lparr>zset_dict := d, zset_zsl := z, zset_heap := h\<rparr>) (M(ele := None)) (rem k L)"
proof -
  note i = zset_invD [OF inv]
  have M: "M ele = Some s" using i(4) k unfolding keys_of_iff set_eq_iff by (metis keys_of_iff mgraph_simps(1))
  have keys: "keys_of (rem k L) = mgraph (M(ele := None))"
    unfolding keys_of_rem [OF i(7) k(1,2)] i(4) k(3) using M by (auto simp: mgraph_def)
  have pairs: "node_pairs (rem k L) = node_pairs L - {((s, ele), sn_addr (L ! k))}" using node_pairs_rem [OF i(7) k(1,2)] k(3) by simp
  have own: "dom h = sn_addr ` set (rem k L)"
  proof (rule set_eqI)
    fix a
    have "h a = None" if "a \<notin> sn_addr ` set (rem k L)"
      using h [OF that] i(2) set_rem [OF k(2)] that by (cases "a = sn_addr (L ! k)") (auto simp: domIff set_eq_iff)
    then show "a \<in> dom h \<longleftrightarrow> a \<in> sn_addr ` set (rem k L)" using rep_dom [OF rep, of a] by (cases "a \<in> sn_addr ` set (rem k L)") auto
  qed
  have p: "((s, ele), sn_addr (L ! k)) \<in> node_pairs L" using k by (auto simp: node_pairs_iff)
  have only: "t = s \<and> b = sn_addr (L ! k)" if "((t, ele), b) \<in> node_pairs L" for t b
    using pair_in_keys(1) [OF that] i(4) M pair_unique [OF i(7) that, of "sn_addr (L ! k)"] p by auto
  have "dict_map (\<lambda>k. k) d e = Some b \<longleftrightarrow> (\<exists>t. ((t, e), b) \<in> node_pairs (rem k L))" for e b
    unfolding d(2) pairs using only i(6) [of e b] by (cases "e = ele") auto
  then show ?thesis using rep own i(3) keys d(1) by (simp add: zset_inv_def)
qed

lemma zsetDel_ok:
  assumes inv: "zset_inv cfg zs M L"
  shows "\<exists>zs' L'. zsetDel cfg zs ele = Some (Inr (M ele \<noteq> None, zs')) \<and> zset_inv cfg zs' (M(ele := None)) L'"
proof -
  note i = zset_invD [OF inv]
  obtain r d1 where r: "dictGenericDelete (zsetDictType (zc_seed cfg)) (zset_dict zs) ele = Inr (r, d1)" "zsets.dict_ok (zc_seed cfg) d1"
      "dict_map (\<lambda>k. k) (zset_dict zs) ele = map_option de_val r" "dict_map (\<lambda>k. k) d1 = (dict_map (\<lambda>k. k) (zset_dict zs))(ele := None)"
    using zsets.dictGenericDelete_ok [OF i(5), of ele] by blast
  show ?thesis
  proof (cases r)
    case None
    then have M: "M ele = None" using dict_value(1) [OF inv, of ele] r(3) by simp
    then have "M(ele := None) = M" by auto
    moreover have "dict_map (\<lambda>k. k) d1 = dict_map (\<lambda>k. k) (zset_dict zs)" using r(3,4) None by (simp add: fun_upd_idem)
    then have "zset_inv cfg (zs\<lparr>zset_dict := d1\<rparr>) M L" using inv r(2) by (simp add: zset_inv_def)
    ultimately show ?thesis using r(1) None M by (intro exI [of _ "zs\<lparr>zset_dict := d1\<rparr>"] exI [of _ L]) (simp add: zsetDel_def dictUnlink_def)
  next
    case (Some de)
    then obtain s where s: "M ele = Some s" "((s, ele), de_val de) \<in> node_pairs L" "entry_score (zset_heap zs) (de_val de) = Inr s"
      using dict_value(2) [OF inv] r(3) by fastforce
    let ?d = "if htNeedsResize d1 then snd (dictResize (zc_can_resize cfg) d1) else d1"
    have "zsets.dict_ok (zc_seed cfg) ?d \<and> entries ?d = entries d1"
      using r(2) dictResize_ok [of "zsetDictType (zc_seed cfg)" "\<lambda>k. k" d1 "zc_can_resize cfg"] by (auto simp: zsets.dict_ok_def)
    then have d2: "zsets.dict_ok (zc_seed cfg) ?d" "dict_map (\<lambda>k. k) ?d = (dict_map (\<lambda>k. k) (zset_dict zs))(ele := None)"
      using dict_map_same [of "\<lambda>k. k" d1 ?d] r(2,4) by (auto simp: zsets.dict_ok_def dict_wf_def)
    have "(s, ele) \<in> keys_of L" using s(1) i(4) by simp
    from zslDelete_ok(2) [OF i(1) this, of False] obtain k z' h' where
      z: "0 < k" "k < length L" "sn_key (L ! k) = (s, ele)" "zslDelete (zset_zsl zs) (zset_heap zs) s ele False = Some (Inr (Some (sn_addr (L ! k)), z', h'))"
        "zsl_rep h' z' (rem k L)" "\<forall>a. a \<notin> sn_addr ` set (rem k L) \<longrightarrow> h' a = (if a = sn_addr (L ! k) \<and> \<not> False then None else zset_heap zs a)" by blast
    have "zset_inv cfg (zs\<lparr>zset_dict := ?d, zset_zsl := z', zset_heap := h'\<rparr>) (M(ele := None)) (rem k L)"
      by (rule removed_inv [OF inv z(1,2,3,5) _ d2]) (use z(6) in simp)
    moreover have "zsetDel cfg zs ele = Some (Inr (True, zs\<lparr>zset_dict := ?d, zset_zsl := z', zset_heap := h'\<rparr>))"
      using r(1) Some s(3) z(4) by (simp add: zsetDel_def dictUnlink_def Let_def)
    ultimately show ?thesis using s(1) by auto
  qed
qed

text \<open>The rank of an element: how many pairs come before it, from one end or the other.\<close>

definition zrank_spec :: "(byte list \<rightharpoonup> 'a :: linorder) \<Rightarrow> byte list \<Rightarrow> bool \<Rightarrow> nat option" where
  "zrank_spec M ele reverse =
     map_option (\<lambda>s. card (if reverse then {k \<in> mgraph M. (s, ele) < k} else {k \<in> mgraph M. k < (s, ele)})) (M ele)"

lemma zsetRank_ok:
  assumes inv: "zset_inv cfg zs M L"
  shows "\<exists>d. zsetRank cfg zs ele reverse = Some (Inr (zrank_spec M ele reverse, zs\<lparr>zset_dict := d\<rparr>)) \<and> zset_inv cfg (zs\<lparr>zset_dict := d\<rparr>) M L"
proof -
  obtain de d where f: "dictFind (zsetDictType (zc_seed cfg)) (zset_dict zs) ele = Inr (de, d)" "zset_inv cfg (zs\<lparr>zset_dict := d\<rparr>) M L"
      "case de of None \<Rightarrow> M ele = None | Some de \<Rightarrow> \<exists>s. M ele = Some s \<and> ((s, ele), de_val de) \<in> node_pairs L \<and> entry_score (zset_heap zs) (de_val de) = Inr s"
    using find_ok [OF inv] by blast
  note i = zset_invD [OF inv]
  show ?thesis
  proof (cases de)
    case None
    then show ?thesis using f by (intro exI [of _ d]) (simp add: zsetRank_def zrank_spec_def Let_def)
  next
    case (Some de')
    then obtain s where s: "M ele = Some s" "entry_score (zset_heap zs) (de_val de') = Inr s" using f(3) by auto
    let ?S = "mgraph M" and ?k = "(s, ele)"
    have m: "?k \<in> keys_of L" "?k \<in> ?S" using s(1) i(4) by simp_all
    have inj: "inj_on snd (keys_of L)" using inj_mgraph i(4) by metis
    have rank: "zslGetRank (zset_zsl zs) (zset_heap zs) s ele = Some (Inr (card {k \<in> ?S. k \<le> ?k}))" using rank_ok(1) [OF i(1) inj m(1)] i(4) by simp
    have fin: "finite ?S" using keys_sorted_list(3) [OF i(7)] i(4) by simp
    have le: "{k \<in> ?S. k \<le> ?k} = insert ?k {k \<in> ?S. k < ?k}" using m(2) by (auto simp del: mgraph_simps)
    then have c1: "card {k \<in> ?S. k \<le> ?k} = Suc (card {k \<in> ?S. k < ?k})" using fin by simp
    have "?S = {k \<in> ?S. k \<le> ?k} \<union> {k \<in> ?S. ?k < k}" by (auto simp del: mgraph_simps)
    moreover have "{k \<in> ?S. k \<le> ?k} \<inter> {k \<in> ?S. ?k < k} = {}" by auto
    ultimately have c2: "card ?S = card {k \<in> ?S. k \<le> ?k} + card {k \<in> ?S. ?k < k}" using fin card_Un_disjoint [of "{k \<in> ?S. k \<le> ?k}" "{k \<in> ?S. ?k < k}"] by simp
    have len: "zsetLength zs = card ?S" using shapeD(8) [OF i(7)] keys_sorted_list(2) [OF i(7)] i(4) by (simp add: zsetLength_def)
    have "card ?S < 2 ^ 64" using shapeD(1,4) [OF i(7)] keys_sorted_list(2) [OF i(7)] i(4) by (simp add: less_le_trans)
    then have "ul_diff (card ?S) (card {k \<in> ?S. k \<le> ?k}) = card {k \<in> ?S. ?k < k}" using diff_exact(2) c2 by simp
    then show ?thesis using f(1,2) Some s rank c1 len by (intro exI [of _ d]) (simp add: zsetRank_def zrank_spec_def Let_def)
  qed
qed

section \<open>Deleting ranges\<close>

text \<open>The nodes before the range stay the predecessors of the first node in it while nodes are deleted.\<close>

lemma predecessors_stay:
  assumes "Suc r < length L"
  shows "pv (heights (rem (Suc r) L)) i r = pv (heights L) i r" "rem (Suc r) L ! pv (heights L) i r = L ! pv (heights L) i r"
proof -
  have nth: "rem (Suc r) L ! q = L ! q" if "q \<le> r" for q using rem_nth [OF assms, of q] that assms by simp
  have "length (rem (Suc r) L) = length L - 1" by (rule rem_length [OF assms])
  then show "pv (heights (rem (Suc r) L)) i r = pv (heights L) i r" using nth assms by (intro pv_cong) simp
  show "rem (Suc r) L ! pv (heights L) i r = L ! pv (heights L) i r" by (rule nth [OF pv_le])
qed

text \<open>One round of the loop.\<close>

lemma delete_round:
  assumes inv: "zset_inv cfg zs M L" and k: "Suc r < length L" "sn_key (L ! Suc r) = (s, ele)"
    and us: "take (zlevel (zset_zsl zs)) update = map (\<lambda>i. sn_addr (L ! pv (heights L) i r)) [0..<zlevel (zset_zsl zs)]"
  shows "\<exists>d z h. cbind (level_at (zset_heap zs) (sn_addr (L ! Suc r)) 0) (\<lambda>l.
        cbind (zslDeleteNode (zset_zsl zs) (zset_heap zs) (sn_addr (L ! Suc r)) update) (\<lambda>(zsl, h).
        cbind (zget h (sn_addr (L ! Suc r))) (\<lambda>n.
        cbind (dictDelete (zsetDictType (zc_seed cfg)) (zset_dict zs) (the (z_ele n))) (\<lambda>(_, d).
        cbind (zslFreeNode h (sn_addr (L ! Suc r))) (\<lambda>h.
        Inr (z_forward l, zs\<lparr>zset_dict := d, zset_zsl := zsl, zset_heap := h\<rparr>)))))) =
      Inr (if Suc (Suc r) < length L then Some (sn_addr (L ! Suc (Suc r))) else None, zs\<lparr>zset_dict := d, zset_zsl := z, zset_heap := h\<rparr>) \<and>
    zset_inv cfg (zs\<lparr>zset_dict := d, zset_zsl := z, zset_heap := h\<rparr>) (M(ele := None)) (rem (Suc r) L) \<and> zlevel z \<le> zlevel (zset_zsl zs)"
proof -
  note i = zset_invD [OF inv]
  let ?x = "sn_addr (L ! Suc r)"
  have l: "level_at (zset_heap zs) ?x 0 = Inr (lev L 0 (Suc r))" by (rule level_bottom [OF i(1) k(1)])
  obtain n where n: "zset_heap zs ?x = Some n" "z_ele n = Some ele" using found_node [OF i(1) _ k(1)] k(2) by auto
  obtain z h where z: "zslDeleteNode (zset_zsl zs) (zset_heap zs) ?x update = Inr (z, h)" "zsl_rep h z (rem (Suc r) L)" "zlevel z \<le> zlevel (zset_zsl zs)"
      "\<forall>a. a \<notin> sn_addr ` set (rem (Suc r) L) \<longrightarrow> h a = zset_heap zs a"
    using zslDeleteNode_ok [OF i(1) _ k(1), of update] us by auto
  have xin: "?x \<notin> sn_addr ` set (rem (Suc r) L)" by (rule addr_rem [OF i(7) k(1)])
  then have hx: "h ?x = Some n" using z(4) n(1) by simp
  obtain e d where d: "dictGenericDelete (zsetDictType (zc_seed cfg)) (zset_dict zs) ele = Inr (e, d)" "zsets.dict_ok (zc_seed cfg) d"
      "dict_map (\<lambda>k. k) d = (dict_map (\<lambda>k. k) (zset_dict zs))(ele := None)"
    using zsets.dictGenericDelete_ok [OF i(5), of ele] by blast
  let ?h = "h(?x := None)"
  have ne: "sn_addr (rem (Suc r) L ! q) \<noteq> ?x" if "q < length (rem (Suc r) L)" for q
    using imageI [OF nth_mem [OF that], of sn_addr] xin by metis
  have rep: "zsl_rep ?h z (rem (Suc r) L)" by (rule rep_frame [OF z(2)]) (use ne in \<open>simp_all add: base_def lm_def\<close>)
  have "zset_inv cfg (zs\<lparr>zset_dict := d, zset_zsl := z, zset_heap := ?h\<rparr>) (M(ele := None)) (rem (Suc r) L)"
    by (rule removed_inv [OF inv _ k rep _ d(2,3)]) (use z(4) in auto)
  then show ?thesis
    using z(1,3) hx n(2) d(1) l fw_bottom [OF i(7) k(1)] by (intro exI [of _ d] exI [of _ z] exI [of _ ?h]) (simp add: zget_def dictDelete_def zslFreeNode_def)
qed

lemma delete_loop_ok:
  assumes inv: "zset_inv cfg zs M L" and r: "r \<le> e" "e < length L"
    and us: "take (zlevel (zset_zsl zs)) update = map (\<lambda>i. sn_addr (L ! pv (heights L) i r)) [0..<zlevel (zset_zsl zs)]"
    and go: "\<And>n t. z_ele n \<noteq> None \<Longrightarrow> go n t \<longleftrightarrow> G (node_key n) t"
    and G: "\<And>q. r < q \<Longrightarrow> q < length L \<Longrightarrow> G (sn_key (L ! q)) (t + (q - Suc r)) \<longleftrightarrow> q \<le> e"
    and small: "t + length L < 2 ^ 64" "c + length L < 2 ^ 64"
  shows "\<exists>zs' L'. delete_loop cfg go update (if Suc r < length L then Some (sn_addr (L ! Suc r)) else None) t c zs = Some (Inr (c + (e - r), zs')) \<and>
    zset_inv cfg zs' (M |` (- (\<lambda>q. snd (sn_key (L ! q))) ` {r<..e})) L'"
  using inv r us G small
proof (induction "e - r" arbitrary: e zs M L t c)
  case 0
  then have e: "e = r" by simp
  note i = zset_invD [OF "0.prems"(1)]
  have "delete_loop cfg go update (if Suc r < length L then Some (sn_addr (L ! Suc r)) else None) t c zs = Some (Inr (c, zs))"
  proof (cases "Suc r < length L")
    case True
    obtain n where n: "zget (zset_heap zs) (sn_addr (L ! Suc r)) = Inr n" "z_ele n \<noteq> None" "node_key n = sn_key (L ! Suc r)"
      using found_node [OF i(1) _ True] by (auto simp: node_key_def)
    have "\<not> go n t" using "0.prems"(5) [OF _ True] n(2,3) go [of n t] e by simp
    then show ?thesis using True n(1) by (subst delete_loop.simps) simp
  qed (subst delete_loop.simps, simp)
  then show ?case using "0.prems"(1) e by auto
next
  case (Suc m)
  note i = zset_invD [OF Suc.prems(1)]
  have k: "Suc r < length L" "Suc r \<le> e" using Suc.hyps(2) Suc.prems(3) by simp_all
  obtain s ele where key: "sn_key (L ! Suc r) = (s, ele)" by fastforce
  obtain n where n: "zget (zset_heap zs) (sn_addr (L ! Suc r)) = Inr n" "z_ele n \<noteq> None" "node_key n = sn_key (L ! Suc r)"
    using found_node [OF i(1) _ k(1)] by (auto simp: node_key_def)
  have gon: "go n t" using Suc.prems(5) [OF _ k(1)] n(2,3) go [of n t] k(2) by simp
  let ?R = "rem (Suc r) L"
  have nth: "?R ! q = (if q < Suc r then L ! q else L ! Suc q)" if "q < length L - 1" for q using rem_nth [OF k(1) that] .
  have len: "length ?R = length L - 1" by (rule rem_length [OF k(1)])
  from delete_round [OF Suc.prems(1) k(1) key Suc.prems(4)] obtain d z h where
    d: "cbind (level_at (zset_heap zs) (sn_addr (L ! Suc r)) 0) (\<lambda>l.
        cbind (zslDeleteNode (zset_zsl zs) (zset_heap zs) (sn_addr (L ! Suc r)) update) (\<lambda>(zsl, h).
        cbind (zget h (sn_addr (L ! Suc r))) (\<lambda>n.
        cbind (dictDelete (zsetDictType (zc_seed cfg)) (zset_dict zs) (the (z_ele n))) (\<lambda>(_, d).
        cbind (zslFreeNode h (sn_addr (L ! Suc r))) (\<lambda>h.
        Inr (z_forward l, zs\<lparr>zset_dict := d, zset_zsl := zsl, zset_heap := h\<rparr>)))))) =
      Inr (if Suc (Suc r) < length L then Some (sn_addr (L ! Suc (Suc r))) else None, zs\<lparr>zset_dict := d, zset_zsl := z, zset_heap := h\<rparr>)"
      "zset_inv cfg (zs\<lparr>zset_dict := d, zset_zsl := z, zset_heap := h\<rparr>) (M(ele := None)) ?R" "zlevel z \<le> zlevel (zset_zsl zs)" by blast
  let ?zs = "zs\<lparr>zset_dict := d, zset_zsl := z, zset_heap := h\<rparr>"
  have nxt: "(if Suc (Suc r) < length L then Some (sn_addr (L ! Suc (Suc r))) else None) = (if Suc r < length ?R then Some (sn_addr (?R ! Suc r)) else None)"
    using nth [of "Suc r"] len by auto
  have us: "take (zlevel (zset_zsl ?zs)) update = map (\<lambda>i. sn_addr (?R ! pv (heights ?R) i r)) [0..<zlevel (zset_zsl ?zs)]"
    using arg_cong [OF Suc.prems(4), of "take (zlevel z)"] d(3) predecessors_stay [OF k(1)] by (simp add: take_map min_def)
  have G: "G (sn_key (?R ! q)) (Suc t + (q - Suc r)) \<longleftrightarrow> q \<le> e - 1" if "r < q" "q < length ?R" for q
  proof -
    have "Suc t + (q - Suc r) = t + (Suc q - Suc r)" "Suc q \<le> e \<longleftrightarrow> q \<le> e - 1" using that(1) k(2) by auto
    then show ?thesis using Suc.prems(5) [of "Suc q"] that nth [of q] len by (simp del: diff_Suc_Suc)
  qed
  have pre: "m = e - 1 - r" "r \<le> e - 1" "e - 1 < length ?R" "Suc t + length ?R < 2 ^ 64" "Suc c + length ?R < 2 ^ 64"
    using Suc.hyps(2) Suc.prems(3,6,7) len k by auto
  from Suc.hyps(1) [OF pre(1) d(2) pre(2,3) us G pre(4,5)] obtain zs' L' where
    IH: "delete_loop cfg go update (if Suc r < length ?R then Some (sn_addr (?R ! Suc r)) else None) (Suc t) (Suc c) ?zs = Some (Inr (Suc c + (e - 1 - r), zs'))"
      "zset_inv cfg zs' (M(ele := None) |` (- (\<lambda>q. snd (sn_key (?R ! q))) ` {r<..e - 1})) L'"
    by blast
  have mods: "Suc t mod 2 ^ 64 = Suc t" "Suc c mod 2 ^ 64 = Suc c" using Suc.prems(6,7) k(1) by simp_all
  have step: "delete_loop cfg go update (Some (sn_addr (L ! Suc r))) t c zs =
      delete_loop cfg go update (if Suc r < length ?R then Some (sn_addr (?R ! Suc r)) else None) (Suc t) (Suc c) ?zs"
    using gon n(1) d(1) nxt mods by (subst delete_loop.simps) simp
  have E: "(\<lambda>q. snd (sn_key (L ! q))) ` {r<..e} = insert ele ((\<lambda>q. snd (sn_key (?R ! q))) ` {r<..e - 1})"
  proof -
    have "x \<in> {r<..e} \<longleftrightarrow> x \<in> insert (Suc r) (Suc ` {r<..e - 1})" for x using k(2) by (cases x) auto
    then have "{r<..e} = insert (Suc r) (Suc ` {r<..e - 1})" by blast
    moreover have "sn_key (?R ! q) = sn_key (L ! Suc q)" if "q \<in> {r<..e - 1}" for q using nth [of q] that Suc.prems(3) by auto
    ultimately show ?thesis using key by (auto simp: image_iff)
  qed
  have "M(ele := None) |` (- (\<lambda>q. snd (sn_key (?R ! q))) ` {r<..e - 1}) = M |` (- (\<lambda>q. snd (sn_key (L ! q))) ` {r<..e})"
    unfolding E by (auto simp: restrict_map_def fun_eq_iff)
  then show ?case using step IH k by auto
qed

text \<open>Deleting from the end of the part that is skipped as far as the second test holds.\<close>

lemma delete_range_ok:
  assumes inv: "zset_inv cfg zs M L" and stop: "stops_at (zset_heap zs) L skip r" and e: "e < length L"
    and go: "\<And>n t. z_ele n \<noteq> None \<Longrightarrow> go n t \<longleftrightarrow> G (node_key n) t"
    and G: "\<And>q. r < q \<Longrightarrow> q < length L \<Longrightarrow> G (sn_key (L ! q)) q \<longleftrightarrow> q \<le> e"
  shows "\<exists>zs' L'. delete_range cfg skip go zs = Some (Inr (card {r<..e}, zs')) \<and> zset_inv cfg zs' (M |` (- (\<lambda>q. snd (sn_key (L ! q))) ` {r<..e})) L'"
proof -
  note i = zset_invD [OF inv]
  note s = shapeD [OF i(7)]
  have r: "r < length L" using stop by (simp add: stops_at_def)
  let ?e = "max r e"
  let ?us = "map (\<lambda>i. (sn_addr (L ! pv (heights L) i r), pv (heights L) i r)) [0..<zlevel (zset_zsl zs)]"
  have search: "descend 64 skip (zset_heap zs) (zlevel (zset_zsl zs)) (header (zset_zsl zs)) 0 = Some (Inr ?us)"
    using search_ok [OF i(1) stop] by simp
  have u0: "rd ?us 0 = Inr (sn_addr (L ! r), r)" using s(5) pv_bottom [OF i(7) r] by simp
  have big: "Suc r + length L < 2 ^ 64" using r s(4) by simp
  have us: "take (zlevel (zset_zsl zs)) (map fst ?us) = map (\<lambda>i. sn_addr (L ! pv (heights L) i r)) [0..<zlevel (zset_zsl zs)]" by simp
  have Gq: "G (sn_key (L ! q)) (Suc r + (q - Suc r)) \<longleftrightarrow> q \<le> ?e" if "r < q" "q < length L" for q using G [OF that] that by auto
  have "\<exists>zs' L'. delete_loop cfg go (map fst ?us) (if Suc r < length L then Some (sn_addr (L ! Suc r)) else None) (Suc r) 0 zs = Some (Inr (0 + (?e - r), zs')) \<and>
      zset_inv cfg zs' (M |` (- (\<lambda>q. snd (sn_key (L ! q))) ` {r<..?e})) L'"
    by (rule delete_loop_ok [OF inv _ _ us go Gq big]) (use e r s(4) in auto)
  moreover have "delete_range cfg skip go zs = delete_loop cfg go (map fst ?us) (if Suc r < length L then Some (sn_addr (L ! Suc r)) else None) (Suc r) 0 zs"
    unfolding delete_range_def search using u0 level_bottom [OF i(1) r] fw_bottom [OF i(7) r] r s(4) by (simp del: map_map)
  moreover have "{r<..?e} = {r<..e}" "0 + (?e - r) = card {r<..e}" by auto
  ultimately show ?thesis by (simp only:)
qed

lemma positions_of:
  assumes inv: "zset_inv cfg zs M L" and P: "\<And>q. 0 < q \<Longrightarrow> q < length L \<Longrightarrow> P (sn_key (L ! q)) \<longleftrightarrow> r < q \<and> q \<le> e" and e: "e < length L"
  shows "M |` (- (\<lambda>q. snd (sn_key (L ! q))) ` {r<..e}) = (\<lambda>x. case M x of None \<Rightarrow> None | Some s \<Rightarrow> if P (s, x) then None else Some s)"
    "card {r<..e} = card {k \<in> mgraph M. P k}"
proof -
  note i = zset_invD [OF inv]
  have img: "(\<lambda>q. sn_key (L ! q)) ` {r<..e} = {k \<in> mgraph M. P k}"
  proof (rule set_eqI)
    fix k
    have "k \<in> mgraph M \<and> P k \<longleftrightarrow> (\<exists>q. 0 < q \<and> q < length L \<and> sn_key (L ! q) = k \<and> P k)" unfolding i(4) [symmetric] keys_of_iff by blast
    also have "\<dots> \<longleftrightarrow> (\<exists>q. r < q \<and> q \<le> e \<and> sn_key (L ! q) = k)"
    proof
      assume "\<exists>q. 0 < q \<and> q < length L \<and> sn_key (L ! q) = k \<and> P k"
      then obtain q where q: "0 < q" "q < length L" "sn_key (L ! q) = k" "P k" by blast
      then show "\<exists>q. r < q \<and> q \<le> e \<and> sn_key (L ! q) = k" using P [OF q(1,2)] by auto
    next
      assume "\<exists>q. r < q \<and> q \<le> e \<and> sn_key (L ! q) = k"
      then obtain q where q: "r < q" "q \<le> e" "sn_key (L ! q) = k" by blast
      then show "\<exists>q. 0 < q \<and> q < length L \<and> sn_key (L ! q) = k \<and> P k" using P [of q] e by (intro exI [of _ q]) auto
    qed
    finally show "k \<in> (\<lambda>q. sn_key (L ! q)) ` {r<..e} \<longleftrightarrow> k \<in> {k \<in> mgraph M. P k}" by auto
  qed
  have "(\<lambda>q. snd (sn_key (L ! q))) ` {r<..e} = snd ` {k \<in> mgraph M. P k}" unfolding img [symmetric] by (simp add: image_image)
  then show "M |` (- (\<lambda>q. snd (sn_key (L ! q))) ` {r<..e}) = (\<lambda>x. case M x of None \<Rightarrow> None | Some s \<Rightarrow> if P (s, x) then None else Some s)"
    by (auto simp: restrict_map_def mgraph_def image_iff fun_eq_iff split: option.splits)
  have "inj_on (\<lambda>q. sn_key (L ! q)) {r<..e}"
  proof (rule inj_onI)
    fix p q assume "p \<in> {r<..e}" "q \<in> {r<..e}" "sn_key (L ! p) = sn_key (L ! q)"
    then show "p = q" using key_less [OF i(7), of p q] key_less [OF i(7), of q p] e by (cases p q rule: linorder_cases) auto
  qed
  then show "card {r<..e} = card {k \<in> mgraph M. P k}" using card_image img by metis
qed

text \<open>The three deletions on the map: the elements in the range go, the others stay.\<close>

definition zdrop :: "('a \<times> byte list \<Rightarrow> bool) \<Rightarrow> (byte list \<rightharpoonup> 'a) \<Rightarrow> (byte list \<rightharpoonup> 'a)" where
  "zdrop P M = (\<lambda>x. case M x of None \<Rightarrow> None | Some s \<Rightarrow> if P (s, x) then None else Some s)"

lemma delete_keys_ok:
  assumes inv: "zset_inv cfg zs M L"
    and up: "\<And>x y. x \<in> keys_of L \<Longrightarrow> y \<in> keys_of L \<Longrightarrow> S y \<Longrightarrow> x < y \<Longrightarrow> S x"
    and down: "\<And>x y. x \<in> keys_of L \<Longrightarrow> y \<in> keys_of L \<Longrightarrow> G y \<Longrightarrow> x < y \<Longrightarrow> G x"
    and skip: "\<And>n q. z_ele n \<noteq> None \<Longrightarrow> skip n q \<longleftrightarrow> S (node_key n)" and go: "\<And>n q. z_ele n \<noteq> None \<Longrightarrow> go n q \<longleftrightarrow> G (node_key n)"
  shows "\<exists>zs' L'. delete_range cfg skip go zs = Some (Inr (card {k \<in> mgraph M. \<not> S k \<and> G k}, zs')) \<and> zset_inv cfg zs' (zdrop (\<lambda>k. \<not> S k \<and> G k) M) L'"
proof -
  note i = zset_invD [OF inv]
  have "\<exists>r. stops_at (zset_heap zs) L (\<lambda>n _. S (node_key n)) r \<and> r < length L \<and> (\<forall>q. 0 < q \<and> q < length L \<longrightarrow> (S (sn_key (L ! q)) \<longleftrightarrow> q \<le> r))"
    by (rule split_position [OF i(1)]) (erule (3) up, rule refl)
  then obtain r where r: "stops_at (zset_heap zs) L (\<lambda>n _. S (node_key n)) r" "r < length L" "\<And>q. 0 < q \<Longrightarrow> q < length L \<Longrightarrow> S (sn_key (L ! q)) \<longleftrightarrow> q \<le> r" by blast
  have "\<exists>r. stops_at (zset_heap zs) L (\<lambda>n _. G (node_key n)) r \<and> r < length L \<and> (\<forall>q. 0 < q \<and> q < length L \<longrightarrow> (G (sn_key (L ! q)) \<longleftrightarrow> q \<le> r))"
    by (rule split_position [OF i(1)]) (erule (3) down, rule refl)
  then obtain e where e: "e < length L" "\<And>q. 0 < q \<Longrightarrow> q < length L \<Longrightarrow> G (sn_key (L ! q)) \<longleftrightarrow> q \<le> e" by blast
  have stop: "stops_at (zset_heap zs) L skip r" unfolding stops_at_def
  proof (intro conjI allI impI)
    fix q n assume q: "0 < q \<and> q < length L \<and> zset_heap zs (sn_addr (L ! q)) = Some n"
    then show "skip n q \<longleftrightarrow> q \<le> r" using skip [of n q] rep_key(1,2) [OF i(1), of q n] r(3) [of q] by simp
  qed (rule r(2))
  have "\<exists>zs' L'. delete_range cfg skip go zs = Some (Inr (card {r<..e}, zs')) \<and> zset_inv cfg zs' (M |` (- (\<lambda>q. snd (sn_key (L ! q))) ` {r<..e})) L'"
    by (rule delete_range_ok [OF inv stop e(1), where G = "\<lambda>k t. G k"]) (use e(2) go in auto)
  moreover have "\<not> S (sn_key (L ! q)) \<and> G (sn_key (L ! q)) \<longleftrightarrow> r < q \<and> q \<le> e" if "0 < q" "q < length L" for q using r(3) e(2) that by auto
  note p = positions_of [OF inv, of "\<lambda>k. \<not> S k \<and> G k", OF this e(1)]
  ultimately show ?thesis unfolding p zdrop_def by simp
qed

lemma zslDeleteRangeByScore_ok:
  fixes rng :: "('a :: linorder) zrangespec"
  assumes inv: "zset_inv cfg zs M L"
  defines "P \<equiv> \<lambda>k :: 'a \<times> byte list. zslValueGteMin (fst k) rng \<and> zslValueLteMax (fst k) rng"
  shows "\<exists>zs' L'. zslDeleteRangeByScore cfg zs rng = Some (Inr (card {k \<in> mgraph M. P k}, zs')) \<and> zset_inv cfg zs' (zdrop P M) L'"
proof -
  have P: "P = (\<lambda>k. \<not> \<not> zslValueGteMin (fst k) rng \<and> zslValueLteMax (fst k) rng)" by (simp add: P_def)
  show ?thesis unfolding P zslDeleteRangeByScore_def
    by (rule delete_keys_ok [OF inv]) (auto simp: zslValueGteMin_def zslValueLteMax_def node_key_def less_prod_def split: if_splits)
qed

lemma zslDeleteRangeByLex_ok:
  fixes rng :: zlexrangespec and M :: "byte list \<rightharpoonup> ('a :: linorder)"
  assumes inv: "zset_inv cfg zs M L" and same: "fst ` mgraph M \<subseteq> {score}"
  defines "P \<equiv> \<lambda>k :: 'a \<times> byte list. lex_gt_min (snd k) rng \<and> lex_lt_max (snd k) rng"
  shows "\<exists>zs' L'. zslDeleteRangeByLex cfg zs rng = Some (Inr (card {k \<in> mgraph M. P k}, zs')) \<and> zset_inv cfg zs' (zdrop P M) L'"
proof -
  have P: "P = (\<lambda>k. \<not> \<not> lex_gt_min (snd k) rng \<and> lex_lt_max (snd k) rng)" by (simp add: P_def)
  have less: "snd x < snd y" if "x \<in> keys_of L" "y \<in> keys_of L" "x < y" for x y
  proof -
    have "fst x = fst y" using same that(1,2) zset_invD(4) [OF inv] by blast
    then show ?thesis using that(3) by (auto simp: less_prod_def)
  qed
  show ?thesis unfolding P zslDeleteRangeByLex_def lex_bounds
    by (rule delete_keys_ok [OF inv]) (use lex_mono [OF less] in \<open>auto simp: node_key_def\<close>)
qed

lemma zslDeleteRangeByRank_ok:
  fixes start stop :: nat
  assumes inv: "zset_inv cfg zs M L" and start: "0 < start"
  defines "P \<equiv> \<lambda>k. start \<le> card {k' \<in> mgraph M. k' \<le> k} \<and> card {k' \<in> mgraph M. k' \<le> k} \<le> stop"
  shows "\<exists>zs' L'. zslDeleteRangeByRank cfg zs start stop = Some (Inr (card {k \<in> mgraph M. P k}, zs')) \<and> zset_inv cfg zs' (zdrop P M) L'"
proof -
  note i = zset_invD [OF inv]
  have len: "0 < length L" using shapeD(1) [OF i(7)] by simp
  let ?r = "min (start - 1) (length L - 1)" and ?e = "min stop (length L - 1)"
  have pos: "card {k' \<in> mgraph M. k' \<le> sn_key (L ! q)} = q" if q: "0 < q" "q < length L" for q
  proof -
    have "{k' \<in> mgraph M. k' \<le> sn_key (L ! q)} = (\<lambda>p. sn_key (L ! p)) ` {0<..q}"
    proof (rule set_eqI)
      fix k
      have le: "sn_key (L ! p) \<le> sn_key (L ! q) \<longleftrightarrow> p \<le> q" if "0 < p" "p < length L" for p
        using key_less [OF i(7) that(1), of q] key_less [OF i(7) q(1), of p] that q by (cases p q rule: linorder_cases) auto
      have "k \<in> mgraph M \<and> k \<le> sn_key (L ! q) \<longleftrightarrow> (\<exists>p. 0 < p \<and> p \<le> q \<and> sn_key (L ! p) = k)"
        unfolding i(4) [symmetric] keys_of_iff using le q(2) by fastforce
      then show "k \<in> {k' \<in> mgraph M. k' \<le> sn_key (L ! q)} \<longleftrightarrow> k \<in> (\<lambda>p. sn_key (L ! p)) ` {0<..q}" by auto
    qed
    moreover have "inj_on (\<lambda>p. sn_key (L ! p)) {0<..q}"
    proof (rule inj_onI)
      fix a b assume "a \<in> {0<..q}" "b \<in> {0<..q}" "sn_key (L ! a) = sn_key (L ! b)"
      then show "a = b" using key_less [OF i(7), of a b] key_less [OF i(7), of b a] q by (cases a b rule: linorder_cases) auto
    qed
    ultimately show ?thesis using card_image by fastforce
  qed
  have stop: "stops_at (zset_heap zs) L (\<lambda>n t. t < start) ?r" using len start by (auto simp: stops_at_def min_less_iff_disj)
  have e: "?e < length L" using len by (auto simp: min_less_iff_disj)
  have "\<exists>zs' L'. delete_range cfg (\<lambda>n t. t < start) (\<lambda>n t. t \<le> stop) zs = Some (Inr (card {?r<..?e}, zs')) \<and>
      zset_inv cfg zs' (M |` (- (\<lambda>q. snd (sn_key (L ! q))) ` {?r<..?e})) L'"
    by (rule delete_range_ok [OF inv stop e, where G = "\<lambda>k t. t \<le> stop"]) auto
  moreover have "P (sn_key (L ! q)) \<longleftrightarrow> ?r < q \<and> q \<le> ?e" if "0 < q" "q < length L" for q
    using that start by (auto simp: P_def pos [OF that])
  note p = positions_of [OF inv, of P, OF this e]
  ultimately show ?thesis unfolding p zdrop_def zslDeleteRangeByRank_def by simp
qed

end
