(* ===== verification/ZSetUse.thy ===== *)
theory ZSetUse
  imports ZSet
begin

text \<open>
  Sequences of operations on a sorted set: dictionary and skip list together behave as one finite map from strings to scores.
\<close>

section \<open>Sequences of operations\<close>

datatype 'a zset_op =
    ZAdd "'a option" "byte list" "32 word"
  | ZRem "byte list"
  | ZScore "byte list"
  | ZRank "byte list" bool
  | ZCard
  | ZRemByScore "'a zrangespec"
  | ZRemByLex zlexrangespec
  | ZRemByRank nat nat

datatype 'a zset_ans = AnsAdd "'a zadd_result" | AnsDel bool | AnsScore "'a option" | AnsRank "nat option" | AnsCount nat

fun zset_step :: "('a :: linorder) zcfg \<Rightarrow> 'a zset_op \<Rightarrow> 'a zset \<Rightarrow> ('a zset_ans \<times> 'a zset) cres option" where
  "zset_step cfg (ZAdd score ele flags) zs = obind (zsetAdd cfg zs score ele flags) (\<lambda>(a, zs). Some (Inr (AnsAdd a, zs)))"
| "zset_step cfg (ZRem ele) zs = obind (zsetDel cfg zs ele) (\<lambda>(b, zs). Some (Inr (AnsDel b, zs)))"
| "zset_step cfg (ZScore ele) zs = obind (Some (zsetScore cfg zs ele)) (\<lambda>(s, zs). Some (Inr (AnsScore s, zs)))"
| "zset_step cfg (ZRank ele reverse) zs = obind (zsetRank cfg zs ele reverse) (\<lambda>(r, zs). Some (Inr (AnsRank r, zs)))"
| "zset_step cfg ZCard zs = Some (Inr (AnsCount (zsetLength zs), zs))"
| "zset_step cfg (ZRemByScore rng) zs = obind (zslDeleteRangeByScore cfg zs rng) (\<lambda>(n, zs). Some (Inr (AnsCount n, zs)))"
| "zset_step cfg (ZRemByLex rng) zs = obind (zslDeleteRangeByLex cfg zs rng) (\<lambda>(n, zs). Some (Inr (AnsCount n, zs)))"
| "zset_step cfg (ZRemByRank start stop) zs = obind (zslDeleteRangeByRank cfg zs start stop) (\<lambda>(n, zs). Some (Inr (AnsCount n, zs)))"

fun zset_run :: "('a :: linorder) zcfg \<Rightarrow> 'a zset_op list \<Rightarrow> 'a zset \<Rightarrow> ('a zset_ans list \<times> 'a zset) cres option" where
  "zset_run cfg [] zs = Some (Inr ([], zs))"
| "zset_run cfg (op # ops) zs =
     obind (zset_step cfg op zs) (\<lambda>(a, zs). obind (zset_run cfg ops zs) (\<lambda>(as, zs). Some (Inr (a # as, zs))))"

text \<open>The same on a map from strings to scores.\<close>

definition zremove :: "('a \<times> byte list \<Rightarrow> bool) \<Rightarrow> (byte list \<rightharpoonup> 'a) \<Rightarrow> 'a zset_ans \<times> (byte list \<rightharpoonup> 'a)" where
  "zremove P M = (AnsCount (card {k \<in> mgraph M. P k}), zdrop P M)"

fun zmap_step :: "('a \<Rightarrow> 'a \<Rightarrow> 'a option) \<Rightarrow> ('a :: linorder) zset_op \<Rightarrow> (byte list \<rightharpoonup> 'a) \<Rightarrow> 'a zset_ans \<times> (byte list \<rightharpoonup> 'a)" where
  "zmap_step add (ZAdd score ele flags) M = apfst AnsAdd (zadd_spec add M score ele flags)"
| "zmap_step add (ZRem ele) M = (AnsDel (M ele \<noteq> None), M(ele := None))"
| "zmap_step add (ZScore ele) M = (AnsScore (M ele), M)"
| "zmap_step add (ZRank ele reverse) M = (AnsRank (zrank_spec M ele reverse), M)"
| "zmap_step add ZCard M = (AnsCount (card (dom M)), M)"
| "zmap_step add (ZRemByScore rng) M = zremove (\<lambda>k. zslValueGteMin (fst k) rng \<and> zslValueLteMax (fst k) rng) M"
| "zmap_step add (ZRemByLex rng) M = zremove (\<lambda>k. lex_gt_min (snd k) rng \<and> lex_lt_max (snd k) rng) M"
| "zmap_step add (ZRemByRank start stop) M =
     zremove (\<lambda>k. start \<le> card {k' \<in> mgraph M. k' \<le> k} \<and> card {k' \<in> mgraph M. k' \<le> k} \<le> stop) M"

fun zmap_run :: "('a \<Rightarrow> 'a \<Rightarrow> 'a option) \<Rightarrow> ('a :: linorder) zset_op list \<Rightarrow> (byte list \<rightharpoonup> 'a) \<Rightarrow> 'a zset_ans list \<times> (byte list \<rightharpoonup> 'a)" where
  "zmap_run add [] M = ([], M)"
| "zmap_run add (op # ops) M = (case zmap_step add op M of (a, M) \<Rightarrow> apfst ((#) a) (zmap_run add ops M))"

text \<open>Ranks count from 1, and ranges of strings are for sets whose scores are all the same.\<close>

fun zop_legal :: "'a zset_op \<Rightarrow> (byte list \<rightharpoonup> 'a) \<Rightarrow> bool" where
  "zop_legal (ZRemByLex rng) M \<longleftrightarrow> (\<exists>score. fst ` mgraph M \<subseteq> {score})"
| "zop_legal (ZRemByRank start stop) M \<longleftrightarrow> 0 < start"
| "zop_legal op M \<longleftrightarrow> True"

fun zops_legal :: "('a \<Rightarrow> 'a \<Rightarrow> 'a option) \<Rightarrow> ('a :: linorder) zset_op list \<Rightarrow> (byte list \<rightharpoonup> 'a) \<Rightarrow> bool" where
  "zops_legal add [] M \<longleftrightarrow> True"
| "zops_legal add (op # ops) M \<longleftrightarrow> zop_legal op M \<and> zops_legal add ops (snd (zmap_step add op M))"

lemma zset_finite: "zset_inv cfg zs M L \<Longrightarrow> finite (dom M)"
proof -
  assume inv: "zset_inv cfg zs M L"
  have "finite (mgraph M)" using keys_sorted_list(3) [OF zset_invD(7) [OF inv]] zset_invD(4) [OF inv] by simp
  moreover have "dom M = snd ` mgraph M" by (auto simp: mgraph_def image_iff)
  ultimately show ?thesis by simp
qed

lemma dom_zdrop: "dom (zdrop P M) \<subseteq> dom M"
  by (auto simp: zdrop_def split: option.splits if_splits)

lemma zmap_step_card:
  assumes "finite (dom M)"
  shows "card (dom (snd (zmap_step add op M))) \<le> Suc (card (dom M))"
proof -
  have drop: "card (dom (zdrop P M)) \<le> Suc (card (dom M))" for P using card_mono [OF assms dom_zdrop] by (rule le_SucI)
  have upd: "card (dom (M(e \<mapsto> s))) \<le> Suc (card (dom M))" for e s using card_insert_le_m1 [of "Suc (card (dom M))" "dom M" e] by simp
  have cut: "card (dom (M(e := None))) \<le> Suc (card (dom M))" for e using card_mono [OF assms, of "dom M - {e}"] by (simp add: le_SucI)
  show ?thesis
  proof (cases op)
    case (ZAdd score ele flags)
    then show ?thesis using upd by (auto simp: zadd_spec_def Let_def split: option.splits simp del: dom_fun_upd)
  qed (use drop cut in \<open>auto simp: zremove_def simp del: dom_fun_upd\<close>)
qed

lemma zset_step_ok:
  assumes inv: "zset_inv cfg zs M L" and legal: "zop_legal op M" and fresh: "zalloc_fresh (zc_alloc cfg)" and small: "card (dom M) + 1 < 2 ^ 32"
  shows "\<exists>zs' L'. zset_step cfg op zs = Some (Inr (fst (zmap_step (zc_add cfg) op M), zs')) \<and> zset_inv cfg zs' (snd (zmap_step (zc_add cfg) op M)) L'"
proof (cases op)
  case (ZAdd score ele flags)
  then show ?thesis using zsetAdd_ok [OF inv fresh small, of score ele flags] by auto
next
  case (ZRem ele)
  then show ?thesis using zsetDel_ok [OF inv, of ele] by auto
next
  case (ZScore ele)
  then show ?thesis using zsetScore_ok [OF inv, of ele] by auto
next
  case (ZRank ele reverse)
  then show ?thesis using zsetRank_ok [OF inv, of ele reverse] by auto
next
  case ZCard
  then show ?thesis using zsetLength_ok [OF inv] inv by auto
next
  case (ZRemByScore rng)
  then show ?thesis using zslDeleteRangeByScore_ok [OF inv, of rng] by (auto simp: zremove_def)
next
  case (ZRemByLex rng)
  then obtain score where "fst ` mgraph M \<subseteq> {score}" using legal by auto
  then show ?thesis using zslDeleteRangeByLex_ok [OF inv, of score rng] ZRemByLex by (auto simp: zremove_def)
next
  case (ZRemByRank start stop)
  then show ?thesis using zslDeleteRangeByRank_ok [OF inv, of start stop] legal by (auto simp: zremove_def)
qed

lemma zset_run_ok:
  assumes "zset_inv cfg zs M L" "zops_legal (zc_add cfg) ops M" "zalloc_fresh (zc_alloc cfg)" "card (dom M) + length ops + 1 \<le> 2 ^ 32"
  shows "\<exists>zs' L'. zset_run cfg ops zs = Some (Inr (fst (zmap_run (zc_add cfg) ops M), zs')) \<and> zset_inv cfg zs' (snd (zmap_run (zc_add cfg) ops M)) L'"
  using assms(1,2,4)
proof (induction ops arbitrary: zs M L)
  case Nil
  then show ?case by auto
next
  case (Cons op ops)
  obtain a M1 where s: "zmap_step (zc_add cfg) op M = (a, M1)" by fastforce
  obtain zs1 L1 where z: "zset_step cfg op zs = Some (Inr (a, zs1))" "zset_inv cfg zs1 M1 L1"
    using zset_step_ok [OF Cons.prems(1) _ assms(3), of op] Cons.prems(2,3) s by auto
  have "card (dom M1) \<le> Suc (card (dom M))" using zmap_step_card [OF zset_finite [OF Cons.prems(1)], of "zc_add cfg" op] s by simp
  then obtain zs2 L2 where "zset_run cfg ops zs1 = Some (Inr (fst (zmap_run (zc_add cfg) ops M1), zs2))" "zset_inv cfg zs2 (snd (zmap_run (zc_add cfg) ops M1)) L2"
    using Cons.IH [OF z(2)] Cons.prems(2,3) s by auto
  then show ?case using z(1) s by (cases "zmap_run (zc_add cfg) ops M1") auto
qed

lemma createZsetObject_ok:
  assumes "fair r"
  shows "zset_inv cfg (createZsetObject cfg zero (\<lambda>_. None) r) Map.empty [\<lparr>sn_addr = zc_alloc cfg (\<lambda>_. None), sn_key = (zero, []), sn_height = 64\<rparr>]"
proof -
  let ?new = "zc_alloc cfg (\<lambda>_. None)"
  obtain z h where c: "zslCreate (zc_junk cfg) ?new zero (\<lambda>_. None) = (z, h)" by fastforce
  then have "dom h = {?new}" by (auto simp: zslCreate_def Let_def split: if_splits)
  then show ?thesis using zslCreate_ok [OF c] assms c
    by (simp add: zset_inv_def createZsetObject_def keys_of_def node_pairs_def zsets.dictCreate_ok)
qed

section \<open>Properties\<close>

text \<open>C10: a sorted set in the encoding of a dictionary beside a skip list is a finite map from strings to scores: any sequence of fewer than \<open>2\<^sup>3\<^sup>2 - 1\<close> calls of
  \<open>zsetAdd\<close> with any flags, \<open>zsetDel\<close>, \<open>zsetScore\<close>, \<open>zsetRank\<close>, \<open>zsetLength\<close> and the deletions of ranges by score, string and rank runs without a fault, a
  failed assertion or an endless loop, and gives the answers of the map and of the order of its pairs; at the end the dictionary, the skip list and the heap still describe
  that one map, so that no entry points to a freed node.\<close>

theorem zset_refines_map:
  fixes ops :: "('a :: linorder) zset_op list"
  assumes "zops_legal (zc_add cfg) ops Map.empty" "zalloc_fresh (zc_alloc cfg)" "fair r" "length ops < 2 ^ 32 - 1"
  shows "\<exists>zs L. zset_run cfg ops (createZsetObject cfg zero (\<lambda>_. None) r) = Some (Inr (fst (zmap_run (zc_add cfg) ops Map.empty), zs)) \<and>
    zset_inv cfg zs (snd (zmap_run (zc_add cfg) ops Map.empty)) L"
  using zset_run_ok [OF createZsetObject_ok [OF assms(3)] assms(1,2)] assms(4) by simp

definition zcfg_nat :: "nat zcfg" where
  "zcfg_nat = \<lparr> zc_seed = [], zc_can_resize = True, zc_alloc = (\<lambda>h. LEAST a. h a = None),
     zc_junk = \<lparr>z_ele = None, z_score = 0, z_backward = None, z_level = []\<rparr>, zc_add = (\<lambda>x y. Some (x + y)) \<rparr>"

theorem zset_refines_map_witness:
  "\<exists>zs L. zset_run zcfg_nat
      [ZAdd (Some 3) [97] 0, ZAdd (Some 1) [98] 0, ZAdd (Some 4) [98] ZADD_INCR, ZAdd (Some 9) [97] ZADD_NX, ZScore [98], ZRank [98] False, ZAdd None [99] 0,
       ZRemByScore \<lparr>range_min = 4, range_max = 9, minex = False, maxex = False\<rparr>, ZScore [98], ZRem [97], ZCard]
      (createZsetObject zcfg_nat 0 (\<lambda>_. None) (\<lambda>_. 16384)) =
    Some (Inr ([AnsAdd \<lparr>za_ok = True, za_flags = ZADD_ADDED, za_newscore = Some 3\<rparr>, AnsAdd \<lparr>za_ok = True, za_flags = ZADD_ADDED, za_newscore = Some 1\<rparr>,
       AnsAdd \<lparr>za_ok = True, za_flags = ZADD_UPDATED, za_newscore = Some 5\<rparr>, AnsAdd \<lparr>za_ok = True, za_flags = ZADD_NOP, za_newscore = None\<rparr>,
       AnsScore (Some 5), AnsRank (Some 1), AnsAdd \<lparr>za_ok = False, za_flags = ZADD_NAN, za_newscore = None\<rparr>,
       AnsCount 1, AnsScore None, AnsDel True, AnsCount 0], zs)) \<and>
    zset_inv zcfg_nat zs Map.empty L"
proof -
  let ?ops = "[ZAdd (Some 3) [97] 0, ZAdd (Some 1) [98] 0, ZAdd (Some 4) [98] ZADD_INCR, ZAdd (Some 9) [97] ZADD_NX, ZScore [98], ZRank [98] False, ZAdd None [99] 0,
       ZRemByScore \<lparr>range_min = 4, range_max = 9, minex = False, maxex = False\<rparr>, ZScore [98], ZRem [97], ZCard] :: nat zset_op list"
  have c: "zc_add zcfg_nat = (\<lambda>x y. Some (x + y))" "zalloc_fresh (zc_alloc zcfg_nat)" by (simp_all add: zcfg_nat_def least_alloc)
  have g: "mgraph (Map.empty([97] \<mapsto> 3, [98] \<mapsto> 5)) = {(3 :: nat, [97]), (5, [98])}" by (auto simp: mgraph_def split: if_splits)
  have r: "{k. (k = (3 :: nat, [97 :: byte]) \<or> k = (5, [98])) \<and> k < (5, [98])} = {(3, [97])}" by auto
  have d: "{k. (k = (3 :: nat, [97 :: byte]) \<or> k = (5, [98])) \<and> 4 \<le> fst k \<and> fst k \<le> 9} = {(5, [98])}" by auto
  have z: "zdrop (\<lambda>k. 4 \<le> fst k \<and> fst k \<le> 9) (Map.empty([97] \<mapsto> 3 :: nat, [98] \<mapsto> 5)) = [[97] \<mapsto> 3]" by (auto simp: zdrop_def fun_eq_iff)
  have run: "zmap_run (zc_add zcfg_nat) ?ops Map.empty =
    ([AnsAdd \<lparr>za_ok = True, za_flags = ZADD_ADDED, za_newscore = Some 3\<rparr>, AnsAdd \<lparr>za_ok = True, za_flags = ZADD_ADDED, za_newscore = Some 1\<rparr>,
       AnsAdd \<lparr>za_ok = True, za_flags = ZADD_UPDATED, za_newscore = Some 5\<rparr>, AnsAdd \<lparr>za_ok = True, za_flags = ZADD_NOP, za_newscore = None\<rparr>,
       AnsScore (Some 5), AnsRank (Some 1), AnsAdd \<lparr>za_ok = False, za_flags = ZADD_NAN, za_newscore = None\<rparr>,
       AnsCount 1, AnsScore None, AnsDel True, AnsCount 0], Map.empty)"
    by (simp add: c zadd_spec_def Let_def ZADD_INCR_def ZADD_NX_def ZADD_XX_def zrank_spec_def g r d zremove_def z zslValueGteMin_def zslValueLteMax_def)
  have "zops_legal (zc_add zcfg_nat) ?ops Map.empty" by simp
  from zset_refines_map [OF this c(2) fair_const, of 16384 0] show ?thesis unfolding run by simp
qed

end
