(* ===== verification/Rio.thy ===== *)
theory Rio
  imports Crc64
begin

text \<open>
  The streams of \<open>rio.h\<close> and \<open>rio.c\<close> with the targets buffer and file: what is written or read goes through in chunks of bounded
  size, and a checksum is kept of it. A file is the bytes in it, with the room that the device has left, after which \<open>fwrite\<close> fails.
\<close>

section \<open>Operations\<close>

datatype rio_target = BufferIO | FileIO nat

record rio =
  io_target :: rio_target
  io_ptr :: "byte list"
  io_pos :: nat
  update_cksum :: bool
  cksum :: u64
  processed_bytes :: nat
  max_processing_chunk :: nat

definition rioBufferWrite :: "rio \<Rightarrow> byte list \<Rightarrow> bool \<times> rio" where
  "rioBufferWrite r buf = (True, r\<lparr>io_ptr := io_ptr r @ buf, io_pos := io_pos r + length buf\<rparr>)"

definition rioBufferRead :: "rio \<Rightarrow> nat \<Rightarrow> byte list option \<times> rio" where
  "rioBufferRead r len =
     (if length (io_ptr r) - io_pos r < len then (None, r)
      else (Some (take len (drop (io_pos r) (io_ptr r))), r\<lparr>io_pos := io_pos r + len\<rparr>))"

definition rioFileWrite :: "nat \<Rightarrow> rio \<Rightarrow> byte list \<Rightarrow> bool \<times> rio" where
  "rioFileWrite room r buf =
     (if length buf \<le> room
      then (True, r\<lparr>io_target := FileIO (room - length buf), io_ptr := io_ptr r @ buf, io_pos := io_pos r + length buf\<rparr>)
      else (False, r\<lparr>io_target := FileIO 0, io_ptr := io_ptr r @ take room buf, io_pos := io_pos r + room\<rparr>))"

definition rio_write :: "rio \<Rightarrow> byte list \<Rightarrow> bool \<times> rio" where
  "rio_write r buf = (case io_target r of BufferIO \<Rightarrow> rioBufferWrite r buf | FileIO room \<Rightarrow> rioFileWrite room r buf)"

text \<open>\<open>fread\<close> of one item succeeds when that many bytes are left, as for a buffer.\<close>

definition rio_read :: "rio \<Rightarrow> nat \<Rightarrow> byte list option \<times> rio" where
  "rio_read r len = rioBufferRead r len"

definition rioInitWithBuffer :: "byte list \<Rightarrow> rio" where
  "rioInitWithBuffer s =
     \<lparr> io_target = BufferIO, io_ptr = s, io_pos = 0, update_cksum = False, cksum = 0, processed_bytes = 0, max_processing_chunk = 0 \<rparr>"

definition rioGenericUpdateChecksum :: "rio \<Rightarrow> byte list \<Rightarrow> rio" where
  "rioGenericUpdateChecksum r buf = r\<lparr>cksum := crc64 (cksum r) buf\<rparr>"

definition chunk_size :: "rio \<Rightarrow> nat \<Rightarrow> nat" where
  "chunk_size r len = (if max_processing_chunk r \<noteq> 0 \<and> max_processing_chunk r < len then max_processing_chunk r else len)"

function rioWrite :: "rio \<Rightarrow> byte list \<Rightarrow> bool \<times> rio" where
  "rioWrite r buf =
     (if buf = [] then (True, r)
      else
        let n = chunk_size r (length buf);
            r = (if update_cksum r then rioGenericUpdateChecksum r (take n buf) else r) in
        case rio_write r (take n buf) of
          (False, r) \<Rightarrow> (False, r)
        | (True, r) \<Rightarrow> rioWrite (r\<lparr>processed_bytes := processed_bytes r + n\<rparr>) (drop n buf))"
  by pat_completeness auto
termination by (relation "measure (\<lambda>(r, buf). length buf)") (auto simp: chunk_size_def)

declare rioWrite.simps [simp del]

function rioRead :: "rio \<Rightarrow> nat \<Rightarrow> byte list option \<times> rio" where
  "rioRead r len =
     (if len = 0 then (Some [], r)
      else
        let n = chunk_size r len in
        case rio_read r n of
          (None, r) \<Rightarrow> (None, r)
        | (Some bs, r) \<Rightarrow>
            let r = (if update_cksum r then rioGenericUpdateChecksum r bs else r) in
            case rioRead (r\<lparr>processed_bytes := processed_bytes r + n\<rparr>) (len - n) of
              (None, r) \<Rightarrow> (None, r)
            | (Some rest, r) \<Rightarrow> (Some (bs @ rest), r))"
  by pat_completeness auto
termination by (relation "measure (\<lambda>(r, len). len)") (auto simp: chunk_size_def)

declare rioRead.simps [simp del]

section \<open>Chunks do not show\<close>

text \<open>The effect of writing or reading some bytes at once.\<close>

definition account :: "rio \<Rightarrow> byte list \<Rightarrow> rio" where
  "account r bs = r\<lparr>cksum := (if update_cksum r then crc64 (cksum r) bs else cksum r), processed_bytes := processed_bytes r + length bs\<rparr>"

definition written :: "rio \<Rightarrow> byte list \<Rightarrow> rio" where
  "written r bs = (account r bs)\<lparr>io_target := (case io_target r of BufferIO \<Rightarrow> BufferIO | FileIO room \<Rightarrow> FileIO (room - length bs)),
     io_ptr := io_ptr r @ bs, io_pos := io_pos r + length bs\<rparr>"

definition consumed :: "rio \<Rightarrow> byte list \<Rightarrow> rio" where
  "consumed r bs = (account r bs)\<lparr>io_pos := io_pos r + length bs\<rparr>"

definition has_room :: "rio \<Rightarrow> nat \<Rightarrow> bool" where
  "has_room r n \<longleftrightarrow> (case io_target r of BufferIO \<Rightarrow> True | FileIO room \<Rightarrow> n \<le> room)"

definition pending :: "rio \<Rightarrow> byte list" where
  "pending r = drop (io_pos r) (io_ptr r)"

lemma crc64_append: "crc64 c (xs @ ys) = crc64 (crc64 c xs) ys"
  by (simp add: crc64_def)

lemma written_append [simp]: "written r [] = r" "written (written r xs) ys = written r (xs @ ys)"
  by (simp_all add: written_def account_def crc64_append add.assoc crc64_def split: rio_target.splits)

lemma consumed_append [simp]: "consumed r [] = r" "consumed (consumed r xs) ys = consumed r (xs @ ys)"
  by (simp_all add: consumed_def account_def crc64_append add.assoc crc64_def)

lemma chunk_bounds: "0 < len \<Longrightarrow> 0 < chunk_size r len \<and> chunk_size r len \<le> len"
  by (auto simp: chunk_size_def)

lemma rioWrite_ok: "has_room r (length buf) \<Longrightarrow> rioWrite r buf = (True, written r buf)"
proof (induction "length buf" arbitrary: r buf rule: less_induct)
  case less
  show ?case
  proof (cases "buf = []")
    case True
    then show ?thesis by (subst rioWrite.simps) simp
  next
    case False
    let ?n = "chunk_size r (length buf)"
    let ?a = "take ?n buf" and ?b = "drop ?n buf"
    have n: "0 < ?n" "?n \<le> length buf" using chunk_bounds [of "length buf" r] False by simp_all
    have step: "rioWrite r buf = rioWrite (written r ?a) ?b"
      using False n less.prems
      by (subst rioWrite.simps) (auto simp: Let_def rio_write_def rioBufferWrite_def rioFileWrite_def rioGenericUpdateChecksum_def
          written_def account_def has_room_def split: rio_target.splits intro!: arg_cong2 [of _ _ _ _ rioWrite])
    have "has_room (written r ?a) (length ?b)" using less.prems n by (auto simp: has_room_def written_def split: rio_target.splits)
    then show ?thesis unfolding step using less.hyps [of ?b "written r ?a"] n by simp
  qed
qed

lemma rioWrite_full: "\<not> has_room r (length buf) \<Longrightarrow> \<exists>r'. rioWrite r buf = (False, r')"
proof (induction "length buf" arbitrary: r buf rule: less_induct)
  case less
  have ne: "buf \<noteq> []" using less.prems by (auto simp: has_room_def split: rio_target.splits)
  let ?n = "chunk_size r (length buf)"
  have n: "0 < ?n" "?n \<le> length buf" using chunk_bounds [of "length buf" r] ne by simp_all
  obtain room where room: "io_target r = FileIO room" "room < length buf" using less.prems by (auto simp: has_room_def not_le split: rio_target.splits)
  show ?case
  proof (cases "?n \<le> room")
    case False
    then show ?thesis using ne n room by (subst rioWrite.simps) (simp add: Let_def rio_write_def rioFileWrite_def rioGenericUpdateChecksum_def)
  next
    case True
    have step: "rioWrite r buf = rioWrite (written r (take ?n buf)) (drop ?n buf)"
      using ne n room True by (subst rioWrite.simps) (auto simp: Let_def rio_write_def rioFileWrite_def rioGenericUpdateChecksum_def
          written_def account_def intro!: arg_cong2 [of _ _ _ _ rioWrite])
    have "\<not> has_room (written r (take ?n buf)) (length (drop ?n buf))" using room True n by (simp add: has_room_def written_def)
    then show ?thesis unfolding step using less.hyps [of "drop ?n buf" "written r (take ?n buf)"] n by simp
  qed
qed

lemma rioRead_step:
  assumes "0 < len" and n: "n = chunk_size r len" "n \<le> length (pending r)"
  shows "rioRead r len = (case rioRead (consumed r (take n (pending r))) (len - n) of
      (None, r') \<Rightarrow> (None, r') | (Some rest, r') \<Rightarrow> (Some (take n (pending r) @ rest), r'))"
proof -
  have rd: "rio_read r n = (Some (take n (pending r)), r\<lparr>io_pos := io_pos r + n\<rparr>)" using n(2) by (simp add: rio_read_def rioBufferRead_def pending_def)
  have c: "consumed r (take n (pending r)) = r\<lparr>io_pos := io_pos r + n, cksum := (if update_cksum r then crc64 (cksum r) (take n (pending r)) else cksum r),
      processed_bytes := processed_bytes r + n\<rparr>" using n(2) by (simp add: consumed_def account_def)
  show ?thesis unfolding c using assms(1) rd by (subst rioRead.simps) (cases "update_cksum r"; simp add: Let_def n(1) [symmetric] rioGenericUpdateChecksum_def)
qed

lemma pending_consumed: "n \<le> length (pending r) \<Longrightarrow> pending (consumed r (take n (pending r))) = drop n (pending r)"
  by (simp add: pending_def consumed_def account_def add.commute)

lemma rioRead_ok: "len \<le> length (pending r) \<Longrightarrow> rioRead r len = (Some (take len (pending r)), consumed r (take len (pending r)))"
proof (induction len arbitrary: r rule: less_induct)
  case (less len)
  show ?case
  proof (cases "len = 0")
    case True
    then show ?thesis by (subst rioRead.simps) simp
  next
    case False
    let ?n = "chunk_size r len"
    let ?r = "consumed r (take ?n (pending r))"
    have n: "0 < ?n" "?n \<le> len" "?n \<le> length (pending r)" using chunk_bounds [of len r] False less.prems by simp_all
    note pen = pending_consumed [OF n(3)]
    have IH: "rioRead ?r (len - ?n) = (Some (take (len - ?n) (pending ?r)), consumed ?r (take (len - ?n) (pending ?r)))"
      using less.IH [of "len - ?n" ?r] n less.prems pen by simp
    have "take ?n (pending r) @ take (len - ?n) (pending ?r) = take len (pending r)" unfolding pen using n by (metis le_add_diff_inverse take_add)
    then show ?thesis using rioRead_step [OF _ refl n(3)] False IH by simp
  qed
qed

lemma rioRead_short: "length (pending r) < len \<Longrightarrow> \<exists>r'. rioRead r len = (None, r')"
proof (induction len arbitrary: r rule: less_induct)
  case (less len)
  let ?n = "chunk_size r len"
  let ?r = "consumed r (take ?n (pending r))"
  have n: "0 < ?n" "?n \<le> len" using chunk_bounds [of len r] less.prems by simp_all
  show ?case
  proof (cases "length (pending r) < ?n")
    case True
    then show ?thesis using n by (subst rioRead.simps) (simp add: Let_def rio_read_def rioBufferRead_def pending_def)
  next
    case False
    then have n': "?n \<le> length (pending r)" by simp
    have "length (pending r) - ?n < len - ?n" using n' less.prems by linarith
    then obtain r' where "rioRead ?r (len - ?n) = (None, r')" using less.IH [of "len - ?n" ?r] n pending_consumed [OF n'] by auto
    then show ?thesis using rioRead_step [OF _ refl n'] n by simp
  qed
qed

end
