(* ===== verification/Rdb.thy ===== *)
theory Rdb
  imports Rio Lzf Numconv Endianconv SdsFmt
begin

text \<open>
  The encodings of lengths, integers and strings in the dump files of \<open>rdb.c\<close>. Saving writes to a stream, or only counts the bytes when the
  stream is null. Loading reads from a stream of arbitrary bytes: it can return an object, return an error, or end the process
  with a report of a corrupt file.
\<close>

section \<open>Saving\<close>

text \<open>The result is the number of bytes, -1 after a failed write. It is returned as an \<open>int\<close>, so a number beyond its range wraps around.\<close>

definition int_of_size :: "nat \<Rightarrow> int" where
  "int_of_size n = sint (word_of_nat n :: 32 word)"

definition rdbWriteRaw :: "rio option \<Rightarrow> byte list \<Rightarrow> int \<times> rio option" where
  "rdbWriteRaw rdb p =
     (case rdb of
        None \<Rightarrow> (int_of_size (length p), None)
      | Some r \<Rightarrow> (case rioWrite r p of (ok, r) \<Rightarrow> (if ok then int_of_size (length p) else -1, Some r)))"

text \<open>Continue after a write, unless it failed.\<close>

definition save_bind :: "int \<times> rio option \<Rightarrow> (int \<Rightarrow> rio option \<Rightarrow> int \<times> rio option) \<Rightarrow> int \<times> rio option" where
  "save_bind x f = (case x of (n, rdb) \<Rightarrow> if n = -1 then (-1, rdb) else f n rdb)"

definition rdbSaveType :: "rio option \<Rightarrow> byte \<Rightarrow> int \<times> rio option" where
  "rdbSaveType rdb type = rdbWriteRaw rdb [type]"

definition rdbSaveMillisecondTime :: "rio option \<Rightarrow> 64 word \<Rightarrow> int \<times> rio option" where
  "rdbSaveMillisecondTime rdb t = rdbWriteRaw rdb (word_bytes t)"

definition RDB_6BITLEN :: nat where "RDB_6BITLEN = 0"
definition RDB_14BITLEN :: nat where "RDB_14BITLEN = 1"
definition RDB_32BITLEN :: nat where "RDB_32BITLEN = 128"
definition RDB_64BITLEN :: nat where "RDB_64BITLEN = 129"
definition RDB_ENCVAL :: nat where "RDB_ENCVAL = 3"
definition RDB_LENERR :: nat where "RDB_LENERR = 2 ^ 64 - 1"

text \<open>\<open>htonl\<close> and \<open>htonu64\<close> on a little-endian machine, as the bytes in memory.\<close>

definition htonl_bytes :: "nat \<Rightarrow> byte list" where
  "htonl_bytes v = rev (le_enc 4 v)"

definition htonu64_bytes :: "nat \<Rightarrow> byte list cres" where
  "htonu64_bytes v = cbind (intrev64 (word_of_nat v)) (\<lambda>w. Inr (word_bytes w))"

definition rdbSaveLen :: "rio option \<Rightarrow> nat \<Rightarrow> (int \<times> rio option) cres" where
  "rdbSaveLen rdb len =
     (if len < 2 ^ 6 then
        Inr (save_bind (rdbWriteRaw rdb [word_of_nat ((len AND 0xFF) OR push_bit 6 RDB_6BITLEN)]) (\<lambda>_ rdb. (1, rdb)))
      else if len < 2 ^ 14 then
        Inr (save_bind (rdbWriteRaw rdb [word_of_nat ((drop_bit 8 len AND 0xFF) OR push_bit 6 RDB_14BITLEN), word_of_nat (len AND 0xFF)])
          (\<lambda>_ rdb. (2, rdb)))
      else if len \<le> 2 ^ 32 - 1 then
        Inr (save_bind (rdbWriteRaw rdb [word_of_nat RDB_32BITLEN]) (\<lambda>_ rdb.
             save_bind (rdbWriteRaw rdb (htonl_bytes len)) (\<lambda>_ rdb. (1 + 4, rdb))))
      else
        cbind (htonu64_bytes len) (\<lambda>b.
        Inr (save_bind (rdbWriteRaw rdb [word_of_nat RDB_64BITLEN]) (\<lambda>_ rdb.
             save_bind (rdbWriteRaw rdb b) (\<lambda>_ rdb. (1 + 8, rdb))))))"

definition RDB_ENC_INT8 :: nat where "RDB_ENC_INT8 = 0"
definition RDB_ENC_INT16 :: nat where "RDB_ENC_INT16 = 1"
definition RDB_ENC_INT32 :: nat where "RDB_ENC_INT32 = 2"
definition RDB_ENC_LZF :: nat where "RDB_ENC_LZF = 3"

definition enc_byte :: "nat \<Rightarrow> byte" where
  "enc_byte e = word_of_nat (push_bit 6 RDB_ENCVAL OR e)"

text \<open>The bytes of an encoded integer; none when it does not fit.\<close>

definition rdbEncodeInteger :: "int \<Rightarrow> byte list" where
  "rdbEncodeInteger v =
     (if v \<ge> - (2 ^ 7) \<and> v \<le> 2 ^ 7 - 1 then [enc_byte RDB_ENC_INT8, word_of_int (v AND 0xFF)]
      else if v \<ge> - (2 ^ 15) \<and> v \<le> 2 ^ 15 - 1 then
        [enc_byte RDB_ENC_INT16, word_of_int (v AND 0xFF), word_of_int (drop_bit 8 v AND 0xFF)]
      else if v \<ge> - (2 ^ 31) \<and> v \<le> 2 ^ 31 - 1 then
        [enc_byte RDB_ENC_INT32, word_of_int (v AND 0xFF), word_of_int (drop_bit 8 v AND 0xFF),
         word_of_int (drop_bit 16 v AND 0xFF), word_of_int (drop_bit 24 v AND 0xFF)]
      else [])"

text \<open>The string is followed by a zero byte in memory.\<close>

definition rdbTryIntegerEncoding :: "(nat \<Rightarrow> byte) \<Rightarrow> byte list \<Rightarrow> byte list cres" where
  "rdbTryIntegerEncoding junk s =
     (let mem = s @ [0]; (v, n) = strtol10 (takeWhile (\<lambda>c. c \<noteq> 0) mem) in
      cbind (rd mem n) (\<lambda>c.
      if c \<noteq> 0 then Inr []
      else
        cbind (ll2string (map junk [0..<32]) 32 v) (\<lambda>(_, buf).
        cbind (strlen buf 0) (\<lambda>l.
        if l \<noteq> length s \<or> take (length s) buf \<noteq> take (length s) mem then Inr [] else Inr (rdbEncodeInteger v)))))"

definition rdbSaveLzfBlob :: "rio option \<Rightarrow> byte list \<Rightarrow> nat \<Rightarrow> (int \<times> rio option) cres" where
  "rdbSaveLzfBlob rdb data original_len =
     (case rdbWriteRaw rdb [enc_byte RDB_ENC_LZF] of (n1, rdb) \<Rightarrow>
      if n1 = -1 then Inr (-1, rdb)
      else
        cbind (rdbSaveLen rdb (length data)) (\<lambda>(n2, rdb).
        if n2 = -1 then Inr (-1, rdb)
        else
          cbind (rdbSaveLen rdb original_len) (\<lambda>(n3, rdb).
          if n3 = -1 then Inr (-1, rdb)
          else Inr (save_bind (rdbWriteRaw rdb data) (\<lambda>n4 rdb. (n1 + n2 + n3 + n4, rdb))))))"

text \<open>The hash table of the compressor and the output buffer are not initialised.\<close>

definition rdbSaveLzfStringObject :: "(nat \<Rightarrow> u32) \<Rightarrow> (nat \<Rightarrow> byte) \<Rightarrow> rio option \<Rightarrow> byte list \<Rightarrow> (int \<times> rio option) cres" where
  "rdbSaveLzfStringObject htab junk rdb s =
     (if length s \<le> 4 then Inr (0, rdb)
      else
        cbind (lzf_compress htab s (map junk [0..<length s - 4])) (\<lambda>(comprlen, out).
        if comprlen = 0 then Inr (0, rdb) else rdbSaveLzfBlob rdb (take comprlen out) (length s)))"

definition rdbSaveRawString ::
  "bool \<Rightarrow> (nat \<Rightarrow> u32) \<Rightarrow> (nat \<Rightarrow> byte) \<Rightarrow> rio option \<Rightarrow> byte list \<Rightarrow> (int \<times> rio option) cres" where
  "rdbSaveRawString rdb_compression htab junk rdb s =
     cbind (if length s \<le> 11 then rdbTryIntegerEncoding junk s else Inr []) (\<lambda>enc.
     if enc \<noteq> [] then Inr (save_bind (rdbWriteRaw rdb enc) (\<lambda>_ rdb. (int (length enc), rdb)))
     else
       cbind (if rdb_compression \<and> length s > 20 then rdbSaveLzfStringObject htab junk rdb s else Inr (0, rdb)) (\<lambda>(n, rdb).
       if n = -1 then Inr (-1, rdb)
       else if n > 0 then Inr (n, rdb)
       else
         cbind (rdbSaveLen rdb (length s)) (\<lambda>x.
         Inr (save_bind x (\<lambda>n rdb.
              if length s > 0 then save_bind (rdbWriteRaw rdb s) (\<lambda>_ rdb. (n + int (length s), rdb)) else (n, rdb))))))"

definition rdbSaveLongLongAsStringObject :: "(nat \<Rightarrow> byte) \<Rightarrow> rio option \<Rightarrow> int \<Rightarrow> (int \<times> rio option) cres" where
  "rdbSaveLongLongAsStringObject junk rdb v =
     (let enc = rdbEncodeInteger v in
      if enc \<noteq> [] then Inr (rdbWriteRaw rdb enc)
      else
        cbind (ll2string (map junk [0..<32]) 32 v) (\<lambda>(enclen, buf).
        if \<not> enclen < 32 then Inl AssertFailed
        else
          cbind (rdbSaveLen rdb enclen) (\<lambda>x.
          Inr (save_bind x (\<lambda>n rdb. save_bind (rdbWriteRaw rdb (take enclen buf)) (\<lambda>m rdb. (n + m, rdb)))))))"

text \<open>String objects; a null pointer does not occur.\<close>

datatype str_obj = IntStr int | RawStr "byte list" | EmbStr "byte list"

definition rdbSaveStringObject ::
  "bool \<Rightarrow> (nat \<Rightarrow> u32) \<Rightarrow> (nat \<Rightarrow> byte) \<Rightarrow> rio option \<Rightarrow> str_obj \<Rightarrow> (int \<times> rio option) cres" where
  "rdbSaveStringObject rdb_compression htab junk rdb obj =
     (case obj of
        IntStr v \<Rightarrow> rdbSaveLongLongAsStringObject junk rdb v
      | RawStr s \<Rightarrow> rdbSaveRawString rdb_compression htab junk rdb s
      | EmbStr s \<Rightarrow> rdbSaveRawString rdb_compression htab junk rdb s)"

section \<open>Loading\<close>

datatype 'a load = Loaded 'a | LoadError | CorruptExit

definition load_bind :: "'a load cres \<Rightarrow> ('a \<Rightarrow> 'b load cres) \<Rightarrow> 'b load cres" where
  "load_bind x f = cbind x (\<lambda>l. case l of Loaded a \<Rightarrow> f a | LoadError \<Rightarrow> Inr LoadError | CorruptExit \<Rightarrow> Inr CorruptExit)"

text \<open>A read that returns an error to the caller, and one that ends the process.\<close>

definition load_read :: "rio \<Rightarrow> nat \<Rightarrow> (byte list \<times> rio) load cres" where
  "load_read rdb len = (case rioRead rdb len of (None, _) \<Rightarrow> Inr LoadError | (Some bs, rdb) \<Rightarrow> Inr (Loaded (bs, rdb)))"

definition rdbLoadRaw :: "rio \<Rightarrow> nat \<Rightarrow> (byte list \<times> rio) load cres" where
  "rdbLoadRaw rdb len = (case rioRead rdb len of (None, _) \<Rightarrow> Inr CorruptExit | (Some bs, rdb) \<Rightarrow> Inr (Loaded (bs, rdb)))"

definition rdbLoadType :: "rio \<Rightarrow> (byte \<times> rio) load cres" where
  "rdbLoadType rdb = load_bind (load_read rdb 1) (\<lambda>(bs, rdb). cbind (rd bs 0) (\<lambda>type. Inr (Loaded (type, rdb))))"

definition rdbLoadTime :: "rio \<Rightarrow> (int \<times> rio) load cres" where
  "rdbLoadTime rdb = load_bind (rdbLoadRaw rdb 4) (\<lambda>(bs, rdb). Inr (Loaded (sint (bytes_word bs :: 32 word), rdb)))"

text \<open>The conversion for new versions does nothing on a little-endian machine.\<close>

definition rdbLoadMillisecondTime :: "rio \<Rightarrow> (64 word \<times> rio) load cres" where
  "rdbLoadMillisecondTime rdb = load_bind (rdbLoadRaw rdb 8) (\<lambda>(bs, rdb). Inr (Loaded (bytes_word bs, rdb)))"

definition ntohl :: "byte list \<Rightarrow> nat" where
  "ntohl bs = le_val (rev bs)"

definition ntohu64 :: "byte list \<Rightarrow> nat cres" where
  "ntohu64 bs = cbind (intrev64 (bytes_word bs)) (\<lambda>w. Inr (unat w))"

definition rdbLoadLenByRef :: "rio \<Rightarrow> ((bool \<times> nat) \<times> rio) load cres" where
  "rdbLoadLenByRef rdb =
     load_bind (load_read rdb 1) (\<lambda>(bs, rdb).
     cbind (rd bs 0) (\<lambda>b.
     let buf0 = unat b; type = drop_bit 6 (buf0 AND 0xC0) in
     if type = RDB_ENCVAL then Inr (Loaded ((True, buf0 AND 0x3F), rdb))
     else if type = RDB_6BITLEN then Inr (Loaded ((False, buf0 AND 0x3F), rdb))
     else if type = RDB_14BITLEN then
       load_bind (load_read rdb 1) (\<lambda>(bs, rdb). cbind (rd bs 0) (\<lambda>b1. Inr (Loaded ((False, push_bit 8 (buf0 AND 0x3F) OR unat b1), rdb))))
     else if buf0 = RDB_32BITLEN then load_bind (load_read rdb 4) (\<lambda>(bs, rdb). Inr (Loaded ((False, ntohl bs), rdb)))
     else if buf0 = RDB_64BITLEN then load_bind (load_read rdb 8) (\<lambda>(bs, rdb). cbind (ntohu64 bs) (\<lambda>len. Inr (Loaded ((False, len), rdb))))
     else Inr CorruptExit))"

text \<open>The value \<open>RDB_LENERR\<close> stands for an error, also when it is read.\<close>

definition load_len :: "rio \<Rightarrow> ((bool \<times> nat) \<times> rio) load cres" where
  "load_len rdb =
     load_bind (rdbLoadLenByRef rdb) (\<lambda>((isencoded, len), rdb). Inr (if len = RDB_LENERR then LoadError else Loaded ((isencoded, len), rdb)))"

record load_flags =
  lf_enc :: bool
  lf_plain :: bool
  lf_sds :: bool

datatype rdb_val = PlainVal "byte list" | SdsVal "byte list" | ObjVal str_obj

text \<open>Integer objects: a shared one has the same value as one of its own.\<close>

definition createStringObjectFromLongLongForValue :: "(nat \<Rightarrow> byte) \<Rightarrow> int \<Rightarrow> str_obj cres" where
  "createStringObjectFromLongLongForValue junk v =
     (if v \<ge> - (2 ^ 63) \<and> v \<le> 2 ^ 63 - 1 then Inr (IntStr v)
      else cbind (sdsfromlonglong junk v) (\<lambda>s. Inr (RawStr (sds_str s))))"

definition integer_value :: "rio \<Rightarrow> nat \<Rightarrow> (int \<times> rio) load cres" where
  "integer_value rdb enctype =
     (if enctype = RDB_ENC_INT8 then
        load_bind (load_read rdb 1) (\<lambda>(enc, rdb). cbind (rd enc 0) (\<lambda>b0. Inr (Loaded (sint b0, rdb))))
      else if enctype = RDB_ENC_INT16 then
        load_bind (load_read rdb 2) (\<lambda>(enc, rdb).
        cbind (rd enc 0) (\<lambda>b0. cbind (rd enc 1) (\<lambda>b1.
        Inr (Loaded (sint (word_of_nat (unat b0 OR push_bit 8 (unat b1)) :: 16 word), rdb)))))
      else if enctype = RDB_ENC_INT32 then
        load_bind (load_read rdb 4) (\<lambda>(enc, rdb).
        cbind (rd enc 0) (\<lambda>b0. cbind (rd enc 1) (\<lambda>b1. cbind (rd enc 2) (\<lambda>b2. cbind (rd enc 3) (\<lambda>b3.
        Inr (Loaded (sint (word_of_nat (unat b0 OR push_bit 8 (unat b1) OR push_bit 16 (unat b2) OR push_bit 24 (unat b3)) :: 32 word), rdb)))))))
      else Inr CorruptExit)"

definition integer_object :: "(nat \<Rightarrow> byte) \<Rightarrow> load_flags \<Rightarrow> int \<Rightarrow> rdb_val cres" where
  "integer_object junk flags v =
     (if lf_plain flags \<or> lf_sds flags then
        cbind (ll2string (map junk [0..<21]) 21 v) (\<lambda>(len, buf). Inr ((if lf_plain flags then PlainVal else SdsVal) (take len buf)))
      else if lf_enc flags then cbind (createStringObjectFromLongLongForValue junk v) (\<lambda>obj. Inr (ObjVal obj))
      else cbind (sdsfromlonglong junk v) (\<lambda>s. Inr (ObjVal (RawStr (sds_str s)))))"

definition rdbLoadIntegerObject :: "(nat \<Rightarrow> byte) \<Rightarrow> rio \<Rightarrow> nat \<Rightarrow> load_flags \<Rightarrow> (rdb_val \<times> rio) load cres" where
  "rdbLoadIntegerObject junk rdb enctype flags =
     load_bind (integer_value rdb enctype) (\<lambda>(v, rdb). cbind (integer_object junk flags v) (\<lambda>x. Inr (Loaded (x, rdb))))"

text \<open>
  Allocation with the sizes that the file gives; a failed allocation ends the process. The size of a dynamic string with its header and terminator is computed in a
  \<open>size_t\<close>: when it wraps around, the block is too small for the header and the terminator that are then written.
\<close>

definition sds_noinit :: "(nat \<Rightarrow> byte) \<Rightarrow> nat \<Rightarrow> byte list cres" where
  "sds_noinit junk initlen =
     (let type = sdsReqType initlen;
          type = (if type = SDS_TYPE_5 \<and> initlen = 0 then SDS_TYPE_8 else type);
          hdrlen = sdsHdrSize type;
          size = (hdrlen + initlen + 1) mod 2 ^ 64 in
      if size < hdrlen + initlen + 1 then Inl OutOfBounds else Inr (map junk [0..<initlen]))"

text \<open>
  The call of the decompressor passes both lengths as \<open>unsigned int\<close>. With a length of 0 the first byte is still read, after which the input counts as exhausted.
\<close>

definition lzf_decompress_uint :: "byte list \<Rightarrow> byte list \<Rightarrow> (nat \<times> byte list) cres" where
  "lzf_decompress_uint c val =
     (let in_len = length c mod 2 ^ 32; out_len = length val mod 2 ^ 32 in
      if in_len = 0 then cbind (rd c 0) (\<lambda>_. Inr (0, val))
      else cbind (lzf_decompress (take in_len c) (take out_len val)) (\<lambda>(n, out). Inr (n, out @ drop out_len val)))"

definition rdbLoadLzfStringObject :: "(nat \<Rightarrow> byte) \<Rightarrow> rio \<Rightarrow> load_flags \<Rightarrow> (rdb_val \<times> rio) load cres" where
  "rdbLoadLzfStringObject junk rdb flags =
     load_bind (load_len rdb) (\<lambda>((_, clen), rdb).
     load_bind (load_len rdb) (\<lambda>((_, len), rdb).
     cbind (if lf_plain flags then Inr (map junk [0..<len]) else sds_noinit junk len) (\<lambda>val.
     load_bind (load_read rdb clen) (\<lambda>(c, rdb).
     cbind (lzf_decompress_uint c val) (\<lambda>(n, val).
     if n = 0 then Inr LoadError
     else Inr (Loaded ((if lf_plain flags then PlainVal val else if lf_sds flags then SdsVal val else ObjVal (RawStr val)), rdb)))))))"

definition OBJ_ENCODING_EMBSTR_SIZE_LIMIT :: nat where "OBJ_ENCODING_EMBSTR_SIZE_LIMIT = 44"

definition createStringObject :: "byte list \<Rightarrow> str_obj" where
  "createStringObject s = (if length s \<le> OBJ_ENCODING_EMBSTR_SIZE_LIMIT then EmbStr s else RawStr s)"

definition rdbGenericLoadStringObject :: "(nat \<Rightarrow> byte) \<Rightarrow> rio \<Rightarrow> load_flags \<Rightarrow> (rdb_val \<times> rio) load cres" where
  "rdbGenericLoadStringObject junk rdb flags =
     load_bind (load_len rdb) (\<lambda>((isencoded, len), rdb).
     if isencoded then
       (if len \<in> {RDB_ENC_INT8, RDB_ENC_INT16, RDB_ENC_INT32} then rdbLoadIntegerObject junk rdb len flags
        else if len = RDB_ENC_LZF then rdbLoadLzfStringObject junk rdb flags
        else Inr CorruptExit)
     else
       cbind (if lf_plain flags \<or> \<not> lf_sds flags \<and> lf_enc flags \<and> len \<le> OBJ_ENCODING_EMBSTR_SIZE_LIMIT then Inr (map junk [0..<len])
              else sds_noinit junk len) (\<lambda>_.
       load_bind (if len = 0 then Inr (Loaded ([], rdb)) else load_read rdb len) (\<lambda>(buf, rdb).
       Inr (Loaded
         (if lf_plain flags then PlainVal buf else if lf_sds flags then SdsVal buf
          else if lf_enc flags then ObjVal (createStringObject buf) else ObjVal (RawStr buf), rdb)))))"

end
