(* ===== verification/RdbUse.thy ===== *)
theory RdbUse
  imports Rdb TSet
begin

text \<open>
  What \<open>rdb.c\<close> saves it can load: the contracts of the encodings of lengths, integers and strings.
\<close>

section \<open>Writing and reading back\<close>

text \<open>A saving routine writes certain bytes: with no stream it counts them, with room for them it appends them and returns their number, added
  to what was written before, without room it reports the failure.\<close>

definition saves :: "int \<Rightarrow> (rio option \<Rightarrow> (int \<times> rio option) cres) \<Rightarrow> byte list \<Rightarrow> bool" where
  "saves k f bs \<longleftrightarrow> f None = Inr (k + int (length bs), None) \<and>
     (\<forall>r. has_room r (length bs) \<longrightarrow> f (Some r) = Inr (k + int (length bs), Some (written r bs))) \<and>
     (\<forall>r. \<not> has_room r (length bs) \<longrightarrow> (\<exists>r'. f (Some r) = Inr (-1, Some r')))"

text \<open>A loading routine takes exactly certain bytes from the stream and returns a value.\<close>

definition loads :: "(rio \<Rightarrow> ('a \<times> rio) load cres) \<Rightarrow> byte list \<Rightarrow> 'a \<Rightarrow> bool" where
  "loads f bs x \<longleftrightarrow> (\<forall>r rest. pending r = bs @ rest \<longrightarrow> f r = Inr (Loaded (x, consumed r bs)))"

lemma room_written: "has_room r (length bs) \<Longrightarrow> has_room (written r bs) n \<longleftrightarrow> has_room r (length bs + n)"
  by (auto simp: has_room_def written_def split: rio_target.splits)

lemma room_less: "has_room r n \<Longrightarrow> m \<le> n \<Longrightarrow> has_room r m"
  by (auto simp: has_room_def split: rio_target.splits)

lemma int_of_size: "n < 2 ^ 31 \<Longrightarrow> int_of_size n = int n"
  by (simp add: int_of_size_def signed_of_nat signed_take_bit_int_eq_self)

lemma saves_write: "length p < 2 ^ 31 \<Longrightarrow> saves 0 (\<lambda>rdb. Inr (rdbWriteRaw rdb p)) p"
  using rioWrite_ok rioWrite_full by (fastforce simp: saves_def rdbWriteRaw_def int_of_size)

lemma room_none: "has_room r 0"
  by (cases "io_target r") (simp_all add: has_room_def)

lemma saves_return: "saves k (\<lambda>rdb. Inr (k, rdb)) []"
  by (simp add: saves_def room_none)

lemma saves_bind:
  assumes f: "saves 0 f bs" and g: "saves (k + int (length bs)) (g (int (length bs))) cs"
  shows "saves k (\<lambda>rdb. cbind (f rdb) (\<lambda>(n, rdb). if n = -1 then Inr (-1, rdb) else g n rdb)) (bs @ cs)" (is "saves k ?h _")
proof -
  have n: "?h None = Inr (k + int (length (bs @ cs)), None)" using f g by (simp add: saves_def)
  have ok: "?h (Some r) = Inr (k + int (length (bs @ cs)), Some (written r (bs @ cs)))" if "has_room r (length (bs @ cs))" for r
    using f g that room_less [OF that, of "length bs"] by (simp add: saves_def room_written)
  have "\<exists>r'. ?h (Some r) = Inr (-1, Some r')" if full: "\<not> has_room r (length (bs @ cs))" for r
  proof (cases "has_room r (length bs)")
    case True
    then have "\<not> has_room (written r bs) (length cs)" using full by (simp add: room_written)
    then obtain r' where "g (int (length bs)) (Some (written r bs)) = Inr (-1, Some r')" using g by (auto simp: saves_def)
    then show ?thesis using f True by (simp add: saves_def)
  next
    case False
    then obtain r' where "f (Some r) = Inr (-1, Some r')" using f by (auto simp: saves_def)
    then show ?thesis by simp
  qed
  then show ?thesis using n ok by (simp add: saves_def)
qed

lemma save_bind_cbind: "Inr (save_bind x f) = cbind (Inr x) (\<lambda>(n, rdb). if n = -1 then Inr (-1, rdb) else Inr (f n rdb))"
  by (simp add: save_bind_def split: prod.splits)

lemma saves_write_bind:
  assumes "length p < 2 ^ 31" and "saves (k + int (length p)) (\<lambda>rdb. Inr (f (int (length p)) rdb)) cs"
  shows "saves k (\<lambda>rdb. Inr (save_bind (rdbWriteRaw rdb p) f)) (p @ cs)"
  unfolding save_bind_cbind using assms(2) by (rule saves_bind [OF saves_write [OF assms(1)], where g = "\<lambda>n rdb. Inr (f n rdb)"])

lemma saves_write_last:
  assumes "m = k + int (length p)" and "length p < 2 ^ 31"
  shows "saves k (\<lambda>rdb. Inr (save_bind (rdbWriteRaw rdb p) (\<lambda>_ rdb. (m, rdb)))) p"
  using saves_write_bind [of p k "\<lambda>_ rdb. (m, rdb)" "[]"] saves_return [of m] assms by simp

section \<open>Lengths\<close>

definition len_bytes :: "nat \<Rightarrow> byte list" where
  "len_bytes len =
     (if len < 2 ^ 6 then [word_of_nat len]
      else if len < 2 ^ 14 then [word_of_nat (64 + len div 256), word_of_nat len]
      else if len < 2 ^ 32 then 128 # rev (le_enc 4 len)
      else 129 # rev (le_enc 8 len))"

lemma saves_two:
  assumes "n = 1 + int (length p)" and "length p < 2 ^ 31"
  shows "saves 0 (\<lambda>rdb. Inr (save_bind (rdbWriteRaw rdb [b]) (\<lambda>_ rdb. save_bind (rdbWriteRaw rdb p) (\<lambda>_ rdb. (n, rdb))))) (b # p)"
  using saves_write_bind [of "[b]" 0 "\<lambda>_ rdb. save_bind (rdbWriteRaw rdb p) (\<lambda>_ rdb. (n, rdb))" p] saves_write_last [of n 1 p] assms by simp

lemma unat_small_byte: "n < 256 \<Longrightarrow> unat (word_of_nat n :: byte) = n"
  by (simp add: unat_of_nat_small)

lemma and_masks: "n AND 0xFF = n mod 256" "n AND 0x3F = n mod 64" "drop_bit 6 (n AND 0xC0) = n div 64 mod 4" for n :: nat
proof -
  show "n AND 0xFF = n mod 256" using take_bit_eq_mask [of 8 n] by (simp add: take_bit_eq_mod mask_eq_exp_minus_1)
  show "n AND 0x3F = n mod 64" using take_bit_eq_mask [of 6 n] by (simp add: take_bit_eq_mod mask_eq_exp_minus_1)
  have "drop_bit 6 (n AND 0xC0) = drop_bit 6 n AND drop_bit 6 0xC0" by (rule drop_bit_and)
  also have "drop_bit 6 (0xC0 :: nat) = mask 2" by (simp add: drop_bit_eq_div mask_eq_exp_minus_1)
  also have "drop_bit 6 n AND mask 2 = n div 64 mod 4" by (simp add: drop_bit_eq_div take_bit_eq_mod flip: take_bit_eq_mask)
  finally show "drop_bit 6 (n AND 0xC0) = n div 64 mod 4" .
qed

lemma or_high: "a < 2 ^ k \<Longrightarrow> a OR push_bit k b = a + 2 ^ k * b" for a b :: nat
proof -
  assume "a < 2 ^ k"
  then have a: "take_bit k a = a" by (simp add: take_bit_nat_eq_self)
  have "a + push_bit k b = a OR push_bit k b"
    by (rule disjunctive_add_eq_or, rule bit_eqI) (subst a [symmetric], simp add: bit_simps)
  then show ?thesis by (simp add: push_bit_eq_mult mult.commute)
qed

lemma htonu64: "v < 2 ^ 64 \<Longrightarrow> htonu64_bytes v = Inr (rev (le_enc 8 v))"
proof -
  assume "v < 2 ^ 64"
  then have "word_bytes (word_of_nat v :: 64 word) = le_enc 8 v" by (simp add: word_bytes_def unat_of_nat_small)
  then show ?thesis using word_bytes_word [of "rev (le_enc 8 v)", where 'a = 64] by (simp add: htonu64_bytes_def intrev_eq)
qed

lemma ntohu64: "length bs = 8 \<Longrightarrow> ntohu64 bs = Inr (le_val (rev bs))"
proof -
  assume len: "length bs = 8"
  have "le_val (rev bs) < 2 ^ 64" using le_val_bound [of "rev bs"] len by simp
  then show ?thesis using word_bytes_word [of bs, where 'a = 64] len by (simp add: ntohu64_def intrev_eq bytes_word_def unat_of_nat_small)
qed

lemma saves_len: "len < 2 ^ 64 \<Longrightarrow> saves 0 (\<lambda>rdb. rdbSaveLen rdb len) (len_bytes len)"
proof -
  assume len: "len < 2 ^ 64"
  consider "len < 2 ^ 6" | "2 ^ 6 \<le> len" "len < 2 ^ 14" | "2 ^ 14 \<le> len" "len < 2 ^ 32" | "2 ^ 32 \<le> len" by linarith
  then show ?thesis
  proof cases
    case 1
    then have f: "rdbSaveLen rdb len = Inr (save_bind (rdbWriteRaw rdb [word_of_nat len]) (\<lambda>_ rdb. (int (length [word_of_nat len :: byte]), rdb)))" for rdb
      by (simp add: rdbSaveLen_def RDB_6BITLEN_def and_masks)
    show ?thesis using 1 saves_write_last [of 1 0 "[word_of_nat len]"] unfolding f by (simp add: len_bytes_def)
  next
    case 2
    let ?b = "[word_of_nat (64 + len div 256), word_of_nat len :: byte]"
    have h: "drop_bit 8 len AND 0xFF OR push_bit 6 RDB_14BITLEN = 64 + len div 256"
      using 2 or_high [of "len div 256" 6 1] by (simp add: and_masks drop_bit_eq_div RDB_14BITLEN_def)
    have m: "word_of_nat (len mod 256) = (word_of_nat len :: byte)" by (simp add: word_of_nat_eq_iff take_bit_eq_mod)
    have f: "rdbSaveLen rdb len = Inr (save_bind (rdbWriteRaw rdb ?b) (\<lambda>_ rdb. (int (length ?b), rdb)))" for rdb
      using 2 h m by (simp add: rdbSaveLen_def and_masks(1))
    show ?thesis using 2 saves_write_last [of 2 0 ?b] unfolding f by (simp add: len_bytes_def)
  next
    case 3
    then have f: "rdbSaveLen rdb len = Inr (save_bind (rdbWriteRaw rdb [128]) (\<lambda>_ rdb. save_bind (rdbWriteRaw rdb (rev (le_enc 4 len))) (\<lambda>_ rdb. (5, rdb))))" for rdb
      by (simp add: rdbSaveLen_def htonl_bytes_def RDB_32BITLEN_def)
    show ?thesis using 3 saves_two [of 5 "rev (le_enc 4 len)" 128] unfolding f by (simp add: len_bytes_def)
  next
    case 4
    then have f: "rdbSaveLen rdb len = Inr (save_bind (rdbWriteRaw rdb [129]) (\<lambda>_ rdb. save_bind (rdbWriteRaw rdb (rev (le_enc 8 len))) (\<lambda>_ rdb. (9, rdb))))" for rdb
      using len by (simp add: rdbSaveLen_def htonu64 RDB_64BITLEN_def)
    show ?thesis using 4 saves_two [of 9 "rev (le_enc 8 len)" 129] unfolding f by (simp add: len_bytes_def)
  qed
qed

lemma loads_read: "loads (\<lambda>r. load_read r (length bs)) bs bs"
  by (simp add: loads_def load_read_def rioRead_ok)

lemma pending_after: "pending r = bs @ rest \<Longrightarrow> pending (consumed r bs) = rest"
  using pending_consumed [of "length bs" r] by simp

lemma load_step: "loads f bs x \<Longrightarrow> pending r = bs @ rest \<Longrightarrow> load_bind (f r) g = g (x, consumed r bs)"
  by (simp add: loads_def load_bind_def)

lemma read_step: "pending r = bs @ rest \<Longrightarrow> length bs = n \<Longrightarrow> load_bind (load_read r n) g = g (bs, consumed r bs)"
  using load_step [OF loads_read] by blast

lemma byte_step: "pending r = b # rest \<Longrightarrow> load_bind (load_read r 1) g = g ([b], consumed r [b])"
  using read_step [of r "[b]" rest 1 g] by simp

lemma loads_len:
  assumes "len < 2 ^ 64 - 1"
  shows "loads load_len (len_bytes len) (False, len)"
proof -
  have "load_len r = Inr (Loaded ((False, len), consumed r (len_bytes len)))" if pen: "pending r = len_bytes len @ rest" for r rest
  proof -
    have ne: "len \<noteq> RDB_LENERR" using assms by (simp add: RDB_LENERR_def)
    have r: "rdbLoadLenByRef r = Inr (Loaded ((False, len), consumed r (len_bytes len)))"
    proof -
      consider "len < 2 ^ 6" | "2 ^ 6 \<le> len" "len < 2 ^ 14" | "2 ^ 14 \<le> len" "len < 2 ^ 32" | "2 ^ 32 \<le> len" by linarith
      then show ?thesis
      proof cases
        case 1
        then have l: "len_bytes len = [word_of_nat len]" by (simp add: len_bytes_def)
        have p: "pending r = word_of_nat len # rest" using pen l by simp
        have b: "unat (word_of_nat len :: byte) = len" using 1 by (intro unat_small_byte) simp
        show ?thesis unfolding rdbLoadLenByRef_def byte_step [OF p] l
          using 1 by (simp add: b and_masks RDB_ENCVAL_def RDB_6BITLEN_def Let_def del: drop_bit_and)
      next
        case 2
        define b where "b = (word_of_nat (64 + len div 256) :: byte)"
        define c where "c = (word_of_nat len :: byte)"
        have l: "len_bytes len = [b, c]" using 2 by (simp add: len_bytes_def b_def c_def)
        have b: "unat b = 64 + len div 256" unfolding b_def using 2 by (intro unat_small_byte) (simp add: less_mult_imp_div_less [of len 64 256, simplified] div_less_iff_less_mult add.commute)
        have c: "unat c = len mod 256" unfolding c_def by (simp add: unat_of_nat)
        have m: "(64 + len div 256) mod 64 = len div 256" "len div 256 mod 64 = len div 256" "(64 + len div 256) div 64 mod 4 = 1" using 2 by auto
        have o: "push_bit 8 (len div 256) OR (len mod 256) = len" using or_high [of "len mod 256" 8 "len div 256"] by (simp add: or.commute)
        have p: "pending r = b # (c # rest)" using pen l by simp
        have p2: "pending (consumed r [b]) = c # rest" using pending_after [of r "[b]"] p by simp
        show ?thesis unfolding rdbLoadLenByRef_def byte_step [OF p] byte_step [OF p2] l
          by (simp add: and_masks b c m o RDB_ENCVAL_def RDB_6BITLEN_def RDB_14BITLEN_def Let_def byte_step [OF p2, simplified] del: drop_bit_and)
      next
        case 3
        have l: "len_bytes len = 128 # rev (le_enc 4 len)" using 3 by (simp add: len_bytes_def)
        have p: "pending r = 128 # (rev (le_enc 4 len) @ rest)" using pen l by simp
        have p2: "pending (consumed r [128]) = rev (le_enc 4 len) @ rest" using pending_after [of r "[128]"] p by simp
        have n: "ntohl (rev (le_enc 4 len)) = len" using 3 by (simp add: ntohl_def le_val_le_enc)
        show ?thesis unfolding rdbLoadLenByRef_def byte_step [OF p] l
          by (simp add: read_step [OF p2] n and_masks RDB_ENCVAL_def RDB_6BITLEN_def RDB_14BITLEN_def RDB_32BITLEN_def Let_def)
      next
        case 4
        have l: "len_bytes len = 129 # rev (le_enc 8 len)" using 4 by (simp add: len_bytes_def)
        have p: "pending r = 129 # (rev (le_enc 8 len) @ rest)" using pen l by simp
        have p2: "pending (consumed r [129]) = rev (le_enc 8 len) @ rest" using pending_after [of r "[129]"] p by simp
        have n: "ntohu64 (rev (le_enc 8 len)) = Inr len" using assms by (simp add: ntohu64 le_val_le_enc)
        show ?thesis unfolding rdbLoadLenByRef_def byte_step [OF p] l
          by (simp add: read_step [OF p2] n and_masks RDB_ENCVAL_def RDB_6BITLEN_def RDB_14BITLEN_def RDB_32BITLEN_def RDB_64BITLEN_def Let_def)
      qed
    qed
    show ?thesis using ne by (simp add: load_len_def r load_bind_def)
  qed
  then show ?thesis by (simp add: loads_def)
qed

section \<open>Integers\<close>

definition small_range :: "int \<Rightarrow> bool" where
  "small_range v \<longleftrightarrow> - (2 ^ 31) \<le> v \<and> v < 2 ^ 31"

lemma encode_none: "rdbEncodeInteger v = [] \<longleftrightarrow> \<not> small_range v"
  by (auto simp: rdbEncodeInteger_def small_range_def)

lemma length_sdec: "ll_range v \<Longrightarrow> length (sdec v) \<le> 20"
proof -
  assume "ll_range v"
  then have "nat \<bar>v\<bar> < 10 ^ Suc 18" by (auto simp: ll_range_def LLONG_MIN_def LLONG_MAX_def)
  then have "length (dec (nat \<bar>v\<bar>)) \<le> Suc 18" by (rule length_dec_le)
  then show ?thesis by (cases "v < 0") (simp_all add: sdec_abs)
qed

lemma sdec_nonzero: "0 \<notin> set (sdec v)"
  using dec_digits [of 0 "nat \<bar>v\<bar>"] by (auto simp: sdec_abs dig_def)

lemma digits_end: "snd (digits_value s acc) \<le> length s"
  by (induction s acc rule: digits_value.induct) (auto split: prod.splits)

lemma strtol10_end: "snd (strtol10 s) \<le> length s"
proof -
  let ?k = "length (takeWhile isspace s)"
  have k: "?k \<le> length s" by (rule length_takeWhile_le)
  have d: "snd (digits_value u 0) \<le> length u" for u by (rule digits_end)
  show ?thesis
  proof (cases "drop ?k s")
    case Nil
    then show ?thesis by (simp add: strtol10_def)
  next
    case (Cons c u)
    then have "length s = ?k + Suc (length u)" using k by (metis add_diff_cancel_left' append_take_drop_id length_Cons length_append length_take min.absorb2)
    moreover have "drop (Suc ?k) s = u" using Cons by (simp add: drop_Suc drop_tl)
    ultimately show ?thesis using d [of u] d [of "c # u"] Cons by (auto simp: strtol10_def Let_def simp del: digits_value.simps split: prod.splits)
  qed
qed

lemma strtol10_range: "ll_range (fst (strtol10 s))"
  by (simp add: strtol10_def Let_def clamp64_def ll_range_def LLONG_MIN_def LLONG_MAX_def split: prod.splits)

lemma try_integer:
  "\<exists>e. rdbTryIntegerEncoding junk s = Inr e \<and> (e = [] \<or> (\<exists>v. ll_range v \<and> s = sdec v \<and> e = rdbEncodeInteger v))"
proof -
  let ?mem = "s @ [0 :: byte]"
  let ?t = "takeWhile (\<lambda>c. c \<noteq> 0) ?mem"
  obtain v n where vn: "strtol10 ?t = (v, n)" by (cases "strtol10 ?t")
  have "length ?t \<le> length s" by (induction s) auto
  then have n: "n < length ?mem" using strtol10_end [of ?t] vn by simp
  have v: "ll_range v" using strtol10_range [of ?t] vn by simp
  let ?buf = "store_at (map junk [0..<32]) 0 (sdec v @ [0])"
  have l: "length (sdec v) < 32" using length_sdec [OF v] by simp
  have ll: "ll2string (map junk [0..<32]) 32 v = Inr (length (sdec v), ?buf)" using ll2string_sdec [OF v, of 32 "map junk [0..<32]"] l by simp
  have buf: "?buf = sdec v @ 0 # drop (length (sdec v) + 1) (map junk [0..<32])" by (simp add: store_at_def)
  have sl: "strlen ?buf 0 = Inr (length (sdec v))" unfolding buf by (rule strlen_text) (simp add: sdec_nonzero)
  have r: "rd ?mem n = Inr (?mem ! n)" using n by (simp add: rd_def)
  show ?thesis
  proof (cases "?mem ! n \<noteq> 0 \<or> length (sdec v) \<noteq> length s \<or> take (length s) ?buf \<noteq> s")
    case True
    then show ?thesis unfolding rdbTryIntegerEncoding_def Let_def vn prod.case r ll cbind_Inr sl by auto
  next
    case False
    have "s = sdec v" using False unfolding buf by simp
    then show ?thesis unfolding rdbTryIntegerEncoding_def Let_def vn prod.case r ll cbind_Inr sl using False v by auto
  qed
qed

text \<open>The three widths: the bytes are the value in two's complement, the low byte first.\<close>

lemma and_255_int: "v AND 0xFF = v mod 256" for v :: int
  using take_bit_eq_mask [of 8 v] by (simp add: take_bit_eq_mod mask_eq_exp_minus_1)

lemma unat_byte_int: "unat (word_of_int (v AND 0xFF) :: byte) = nat (v mod 256)"
  by (simp add: and_255_int unat_eq_nat_uint uint_word_of_int)

lemma sint_of_bytes:
  assumes "- (2 ^ (LENGTH('a::len) - 1)) \<le> v" and "v < 2 ^ (LENGTH('a) - 1)" and "int n mod 2 ^ LENGTH('a) = v mod 2 ^ LENGTH('a)"
  shows "sint (word_of_nat n :: 'a word) = v"
proof -
  have "(word_of_nat n :: 'a word) = word_of_int v" using assms(3) by (metis of_int_of_nat_eq take_bit_eq_mod word_of_int_eq_iff)
  then show ?thesis using assms(1,2) by (simp add: sint_sbintrunc' signed_take_bit_int_eq_self)
qed

lemma bytes_mod_16: "nat (v mod 256) OR push_bit 8 (nat (drop_bit 8 v mod 256)) = nat (v mod 2 ^ 16)" for v :: int
proof -
  have "v mod 2 ^ 16 = v mod 256 + 256 * (v div 256 mod 256)" using mod_mult2_eq' [of v 256 256] by simp
  then show ?thesis using or_high [of "nat (v mod 256)" 8 "nat (drop_bit 8 v mod 256)"]
    by (simp add: drop_bit_eq_div nat_add_distrib nat_mult_distrib)
qed

lemma bytes_mod_32: "nat (v mod 256) OR push_bit 8 (nat (drop_bit 8 v mod 256)) OR push_bit 16 (nat (drop_bit 16 v mod 256)) OR
    push_bit 24 (nat (drop_bit 24 v mod 256)) = nat (v mod 2 ^ 32)" for v :: int
proof -
  have a: "nat (v mod 256) OR push_bit 8 (nat (drop_bit 8 v mod 256)) = nat (v mod 2 ^ 16)" for v :: int by (rule bytes_mod_16)
  have b: "push_bit 16 (nat (drop_bit 16 v mod 2 ^ 16)) = push_bit 16 (nat (drop_bit 16 v mod 256)) OR push_bit 24 (nat (drop_bit 24 v mod 256))"
    unfolding a [of "drop_bit 16 v", symmetric] by (simp add: push_bit_or)
  have "nat (v mod 256) OR push_bit 8 (nat (drop_bit 8 v mod 256)) OR push_bit 16 (nat (drop_bit 16 v mod 256)) OR
      push_bit 24 (nat (drop_bit 24 v mod 256)) = nat (v mod 2 ^ 16) OR push_bit 16 (nat (drop_bit 16 v mod 2 ^ 16))"
    unfolding b a [of v, symmetric] by (simp only: or.assoc)
  also have "\<dots> = nat (v mod 2 ^ 16) + 2 ^ 16 * nat (drop_bit 16 v mod 2 ^ 16)" by (rule or_high) (simp add: nat_less_iff)
  also have "\<dots> = nat (v mod 2 ^ 16 + 2 ^ 16 * (v div 2 ^ 16 mod 2 ^ 16))" by (simp add: drop_bit_eq_div nat_add_distrib nat_mult_distrib)
  also have "v mod 2 ^ 16 + 2 ^ 16 * (v div 2 ^ 16 mod 2 ^ 16) = v mod 2 ^ 32" using mod_mult2_eq' [of v "2 ^ 16" "2 ^ 16"] by simp
  finally show ?thesis .
qed

text \<open>The integer that the bytes stand for, and the type byte in front of them.\<close>

definition enc_type :: "int \<Rightarrow> nat" where
  "enc_type v = (if - (2 ^ 7) \<le> v \<and> v < 2 ^ 7 then RDB_ENC_INT8 else if - (2 ^ 15) \<le> v \<and> v < 2 ^ 15 then RDB_ENC_INT16 else RDB_ENC_INT32)"

lemma loads_integer:
  assumes small: "small_range v"
  shows "loads (\<lambda>r. integer_value r (enc_type v)) (tl (rdbEncodeInteger v)) v"
proof -
  consider "- (2 ^ 7) \<le> v" "v < 2 ^ 7" | "\<not> (- (2 ^ 7) \<le> v \<and> v < 2 ^ 7)" "- (2 ^ 15) \<le> v" "v < 2 ^ 15"
    | "\<not> (- (2 ^ 15) \<le> v \<and> v < 2 ^ 15)" by linarith
  then show ?thesis
  proof cases
    case 1
    let ?b = "word_of_int (v AND 0xFF) :: byte"
    have e: "tl (rdbEncodeInteger v) = [?b]" "enc_type v = RDB_ENC_INT8" using 1 by (simp_all add: rdbEncodeInteger_def enc_type_def)
    have "sint ?b = v" unfolding and_255_int using sint_of_bytes [where 'a = 8, of v "nat (v mod 256)"] 1 by simp
    then show ?thesis unfolding e by (simp add: loads_def integer_value_def byte_step [simplified])
  next
    case 2
    let ?b = "word_of_int (v AND 0xFF) :: byte" and ?c = "word_of_int (drop_bit 8 v AND 0xFF) :: byte"
    have e: "tl (rdbEncodeInteger v) = [?b, ?c]" "enc_type v = RDB_ENC_INT16" using 2 by (auto simp: rdbEncodeInteger_def enc_type_def)
    have "sint (word_of_nat (unat ?b OR push_bit 8 (unat ?c)) :: 16 word) = v"
      unfolding unat_byte_int unfolding bytes_mod_16 by (rule sint_of_bytes) (use 2 in simp_all)
    then show ?thesis unfolding e
      by (simp add: loads_def integer_value_def read_step [of _ "[?b, ?c]"] RDB_ENC_INT8_def RDB_ENC_INT16_def)
  next
    case 3
    let ?b = "word_of_int (v AND 0xFF) :: byte" and ?c = "word_of_int (drop_bit 8 v AND 0xFF) :: byte"
    let ?d = "word_of_int (drop_bit 16 v AND 0xFF) :: byte" and ?e = "word_of_int (drop_bit 24 v AND 0xFF) :: byte"
    have e: "tl (rdbEncodeInteger v) = [?b, ?c, ?d, ?e]" "enc_type v = RDB_ENC_INT32"
      using 3 small by (auto simp: rdbEncodeInteger_def enc_type_def small_range_def)
    have "sint (word_of_nat (unat ?b OR push_bit 8 (unat ?c) OR push_bit 16 (unat ?d) OR push_bit 24 (unat ?e)) :: 32 word) = v"
      unfolding unat_byte_int unfolding bytes_mod_32 by (rule sint_of_bytes) (use small in \<open>simp_all add: small_range_def\<close>)
    then show ?thesis unfolding e
      by (simp add: loads_def integer_value_def read_step [of _ "[?b, ?c, ?d, ?e]"] RDB_ENC_INT8_def RDB_ENC_INT16_def RDB_ENC_INT32_def)
  qed
qed

section \<open>Strings\<close>

fun obj_str :: "str_obj \<Rightarrow> byte list" where
  "obj_str (IntStr v) = sdec v"
| "obj_str (RawStr s) = s"
| "obj_str (EmbStr s) = s"

definition loaded_as :: "load_flags \<Rightarrow> byte list \<Rightarrow> rdb_val \<Rightarrow> bool" where
  "loaded_as flags s v \<longleftrightarrow>
     (if lf_plain flags then v = PlainVal s else if lf_sds flags then v = SdsVal s else \<exists>obj. v = ObjVal obj \<and> obj_str obj = s)"

lemma integer_object_ok:
  assumes "small_range v"
  shows "\<exists>x. integer_object junk flags v = Inr x \<and> loaded_as flags (sdec v) x"
proof -
  have v: "ll_range v" "v \<noteq> LLONG_MIN" using assms by (simp_all add: small_range_def ll_range_def LLONG_MIN_def LLONG_MAX_def)
  have l: "length (sdec v) < 21" using length_sdec [OF v(1)] by simp
  have ll: "ll2string (map junk [0..<21]) 21 v = Inr (length (sdec v), store_at (map junk [0..<21]) 0 (sdec v @ [0]))"
    using ll2string_sdec [OF v(1), of 21 "map junk [0..<21]"] l by simp
  obtain s where s: "sdsfromlonglong junk v = Inr s" "sds_str s = sdec v" using sds_of_ll [OF v] by blast
  have r: "- (2 ^ 63) \<le> v" "v \<le> 2 ^ 63 - 1" using assms by (simp_all add: small_range_def)
  show ?thesis using s r
    by (simp add: integer_object_def ll loaded_as_def store_at_def createStringObjectFromLongLongForValue_def)
qed

lemma loads_enc: "e < 4 \<Longrightarrow> loads load_len [enc_byte e] (True, e)"
proof -
  assume e: "e < 4"
  have "enc_byte e = word_of_nat (192 + e)" using e or_high [of e 6 3] by (simp add: enc_byte_def RDB_ENCVAL_def or.commute add.commute)
  then have u: "unat (enc_byte e) = 192 + e" using e unat_small_byte [of "192 + e"] by (simp only:)
  have m: "(192 + e) mod 64 = e" "(192 + e) div 64 mod 4 = 3" "e mod 64 = e"
  proof -
    consider "e = 0" | "e = 1" | "e = 2" | "e = 3" using e by linarith
    then show "(192 + e) mod 64 = e" "(192 + e) div 64 mod 4 = 3" "e mod 64 = e" by (cases, simp_all)+
  qed
  have "load_len r = Inr (Loaded ((True, e), consumed r [enc_byte e]))" if p: "pending r = enc_byte e # rest" for r rest
    unfolding load_len_def rdbLoadLenByRef_def byte_step [OF p] using e
    by (simp add: u m and_masks RDB_ENCVAL_def Let_def load_bind_def RDB_LENERR_def del: drop_bit_and)
  then show ?thesis by (simp add: loads_def)
qed

lemma enc_head: "small_range v \<Longrightarrow> rdbEncodeInteger v = enc_byte (enc_type v) # tl (rdbEncodeInteger v)"
  by (auto simp: rdbEncodeInteger_def enc_type_def small_range_def)

lemma enc_type_cases: "enc_type v \<in> {RDB_ENC_INT8, RDB_ENC_INT16, RDB_ENC_INT32}"
  by (simp add: enc_type_def)

lemma loads_int_string:
  assumes "small_range v"
  shows "\<exists>x. loads (\<lambda>r. rdbGenericLoadStringObject junk r flags) (rdbEncodeInteger v) x \<and> loaded_as flags (sdec v) x"
proof -
  obtain x where x: "integer_object junk flags v = Inr x" "loaded_as flags (sdec v) x" using integer_object_ok [OF assms] by blast
  let ?t = "tl (rdbEncodeInteger v)" and ?e = "enc_byte (enc_type v)"
  have e: "enc_type v < 4" by (simp add: enc_type_def RDB_ENC_INT8_def RDB_ENC_INT16_def RDB_ENC_INT32_def)
  have "rdbGenericLoadStringObject junk r flags = Inr (Loaded (x, consumed r (?e # ?t)))" if p: "pending r = [?e] @ (?t @ rest)" for r rest
  proof -
    have p2: "pending (consumed r [?e]) = ?t @ rest" using pending_after [OF p] .
    show ?thesis unfolding rdbGenericLoadStringObject_def load_step [OF loads_enc [OF e] p]
      using enc_type_cases [of v] x(1) by (simp add: rdbLoadIntegerObject_def load_step [OF loads_integer [OF assms] p2])
  qed
  then have "loads (\<lambda>r. rdbGenericLoadStringObject junk r flags) (?e # ?t) x" by (simp add: loads_def)
  then show ?thesis using x(2) enc_head [OF assms] by auto
qed

lemma saves_blob:
  assumes "length data < 2 ^ 31" and "n < 2 ^ 64"
  shows "saves 0 (\<lambda>rdb. rdbSaveLzfBlob rdb data n) (enc_byte RDB_ENC_LZF # len_bytes (length data) @ len_bytes n @ data)"
proof -
  let ?b = "[enc_byte RDB_ENC_LZF]" and ?c = "len_bytes (length data)" and ?d = "len_bytes n"
  have f: "rdbSaveLzfBlob rdb data n = cbind (Inr (rdbWriteRaw rdb ?b)) (\<lambda>(n1, rdb). if n1 = -1 then Inr (-1, rdb) else
      cbind (rdbSaveLen rdb (length data)) (\<lambda>(n2, rdb). if n2 = -1 then Inr (-1, rdb) else
      cbind (rdbSaveLen rdb n) (\<lambda>(n3, rdb). if n3 = -1 then Inr (-1, rdb) else
      Inr (save_bind (rdbWriteRaw rdb data) (\<lambda>n4 rdb. (n1 + n2 + n3 + n4, rdb))))))" for rdb
    by (simp add: rdbSaveLzfBlob_def split: prod.splits)
  have s4: "saves k (\<lambda>rdb. Inr (save_bind (rdbWriteRaw rdb data) (\<lambda>n4 rdb. (k + n4, rdb)))) data" for k
    using saves_write_bind [OF assms(1), of k "\<lambda>n4 rdb. (k + n4, rdb)" "[]"] saves_return [of "k + int (length data)"] by simp
  have data: "length data < 2 ^ 64" using assms(1) by simp
  have "saves 0 (\<lambda>rdb. rdbSaveLzfBlob rdb data n) (?b @ ?c @ ?d @ data)"
    unfolding f by (intro saves_bind saves_write saves_len data assms(2)) (use s4 in simp_all)
  then show ?thesis by simp
qed

lemma enc_lzf_byte: "enc_byte RDB_ENC_LZF = 0xC3"
  by (simp add: enc_byte_def RDB_ENC_LZF_def RDB_ENCVAL_def)

lemma sds_noinit_ok: "n < 2 ^ 64 - 18 \<Longrightarrow> sds_noinit junk n = Inr (map junk [0..<n])"
  by (simp add: sds_noinit_def sdsReqType_def Let_def)

lemma lzf_uint_small:
  assumes "length c < 2 ^ 32" "length val < 2 ^ 32"
  shows "lzf_decompress_uint c val = (if c = [] then Inl OutOfBounds else lzf_decompress c val)"
proof (cases "c = []")
  case False
  have "cbind r (\<lambda>(n, out). Inr (n, out)) = (r :: (nat \<times> byte list) cres)" for r by (cases r) auto
  then show ?thesis using assms False by (simp add: lzf_decompress_uint_def)
qed (simp add: lzf_decompress_uint_def rd_def)

lemma lzf_decompress_Nil: "lzf_decompress [] out = Inl OutOfBounds"
  unfolding lzf_decompress_def by (subst dec_loop.simps) (simp add: rd_def)

lemma lzf_uint_eq: "length c < 2 ^ 32 \<Longrightarrow> length val < 2 ^ 32 \<Longrightarrow> lzf_decompress_uint c val = lzf_decompress c val"
  by (simp add: lzf_uint_small lzf_decompress_Nil)

lemma load_lzf_step:
  assumes p: "pending r = [0xC3] @ (len_bytes (length c) @ (len_bytes len @ (c @ rest)))" and len: "length c < 2 ^ 32" "len < 2 ^ 32"
  shows "rdbGenericLoadStringObject junk r flags = cbind (lzf_decompress c (map junk [0..<len])) (\<lambda>(n, val).
    if n = 0 then Inr LoadError
    else Inr (Loaded (if lf_plain flags then PlainVal val else if lf_sds flags then SdsVal val else ObjVal (RawStr val),
      consumed r ([0xC3] @ len_bytes (length c) @ len_bytes len @ c))))"
proof -
  have l: "loads load_len [0xC3] (True, RDB_ENC_LZF)" using loads_enc [of RDB_ENC_LZF] by (simp add: enc_lzf_byte) (simp add: RDB_ENC_LZF_def)
  have c: "loads load_len (len_bytes (length c)) (False, length c)" "loads load_len (len_bytes len) (False, len)" using len by (simp_all add: loads_len)
  note p1 = pending_after [OF p]
  note p2 = pending_after [OF p1]
  note p3 = pending_after [OF p2]
  have g: "rdbGenericLoadStringObject junk r flags = rdbLoadLzfStringObject junk (consumed r [0xC3]) flags"
    unfolding rdbGenericLoadStringObject_def load_step [OF l p] prod.case
    by (simp add: RDB_ENC_LZF_def RDB_ENC_INT8_def RDB_ENC_INT16_def RDB_ENC_INT32_def)
  have a: "(if lf_plain flags then Inr (map junk [0..<len]) else sds_noinit junk len) = Inr (map junk [0..<len])" using len by (simp add: sds_noinit_ok)
  show ?thesis unfolding g rdbLoadLzfStringObject_def load_step [OF c(1) p1] prod.case load_step [OF c(2) p2] a cbind_Inr read_step [OF p3 refl]
    using len by (simp add: lzf_uint_eq cong: if_cong)
qed

lemma loads_blob:
  assumes dec: "lzf_decompress data (map junk [0..<length s]) = Inr (length s, s)" and len: "length data < 2 ^ 32" "length s < 2 ^ 32" "s \<noteq> []"
  shows "\<exists>x. loads (\<lambda>r. rdbGenericLoadStringObject junk r flags)
      (enc_byte RDB_ENC_LZF # len_bytes (length data) @ len_bytes (length s) @ data) x \<and> loaded_as flags s x"
proof -
  let ?x = "if lf_plain flags then PlainVal s else if lf_sds flags then SdsVal s else ObjVal (RawStr s)"
  have "loads (\<lambda>r. rdbGenericLoadStringObject junk r flags) (0xC3 # len_bytes (length data) @ len_bytes (length s) @ data) ?x"
    using load_lzf_step [where c = data and len = "length s"] len dec by (simp add: loads_def)
  moreover have "loaded_as flags s ?x" by (simp add: loaded_as_def)
  ultimately show ?thesis unfolding enc_lzf_byte by blast
qed

lemma loads_plain:
  assumes len: "length s < 2 ^ 32"
  shows "\<exists>x. loads (\<lambda>r. rdbGenericLoadStringObject junk r flags) (len_bytes (length s) @ s) x \<and> loaded_as flags s x"
proof -
  let ?x = "if lf_plain flags then PlainVal s else if lf_sds flags then SdsVal s
      else if lf_enc flags then ObjVal (createStringObject s) else ObjVal (RawStr s)"
  have "rdbGenericLoadStringObject junk r flags = Inr (Loaded (?x, consumed r (len_bytes (length s) @ s)))"
    if p: "pending r = len_bytes (length s) @ (s @ rest)" for r rest
  proof -
    have l: "loads load_len (len_bytes (length s)) (False, length s)" using len by (simp add: loads_len)
    have a: "(if lf_plain flags \<or> \<not> lf_sds flags \<and> lf_enc flags \<and> length s \<le> OBJ_ENCODING_EMBSTR_SIZE_LIMIT then Inr (map junk [0..<length s])
        else sds_noinit junk (length s)) = Inr (map junk [0..<length s])" using len by (simp add: sds_noinit_ok)
    show ?thesis unfolding rdbGenericLoadStringObject_def load_step [OF l p] prod.case if_False a cbind_Inr
      by (cases "s = []") (simp_all add: load_bind_def [of "Inr _"] read_step [OF pending_after [OF p] refl])
  qed
  then have "loads (\<lambda>r. rdbGenericLoadStringObject junk r flags) (len_bytes (length s) @ s) ?x" by (simp add: loads_def)
  moreover have "loaded_as flags s ?x" by (simp add: loaded_as_def createStringObject_def)
  ultimately show ?thesis by blast
qed

lemma saves_plain:
  assumes "n < 2 ^ 31" and "n = length s"
  shows "saves 0 (\<lambda>rdb. cbind (rdbSaveLen rdb n) (\<lambda>x. Inr (save_bind x (\<lambda>n rdb.
      if length s > 0 then save_bind (rdbWriteRaw rdb s) (\<lambda>_ rdb. (n + int (length s), rdb)) else (n, rdb))))) (len_bytes n @ s)"
proof -
  let ?g = "\<lambda>n rdb. Inr (if length s > 0 then save_bind (rdbWriteRaw rdb s) (\<lambda>_ rdb. (n + int (length s), rdb)) else (n, rdb))"
  have g: "saves k (?g k) s" for k
    using saves_write_last [of "k + int (length s)" k s] saves_return [of k] assms by (cases "s = []") simp_all
  have n: "n < 2 ^ 64" using assms(1) by simp
  have f: "cbind (rdbSaveLen rdb n) (\<lambda>x. Inr (save_bind x (\<lambda>n rdb.
      if length s > 0 then save_bind (rdbWriteRaw rdb s) (\<lambda>_ rdb. (n + int (length s), rdb)) else (n, rdb)))) =
    cbind (rdbSaveLen rdb n) (\<lambda>(n, rdb). if n = -1 then Inr (-1, rdb) else ?g n rdb)" for rdb
    by (rule cbind_cong [OF refl]) (simp add: save_bind_def split: prod.splits)
  show ?thesis unfolding f using saves_bind [OF saves_len [OF n], of 0 ?g s] g by simp
qed

text \<open>What is written for a string depends on its contents: an integer in its shortest form, a compressed string, or the bytes themselves.\<close>

lemma raw_string_ok:
  assumes len: "length s < 2 ^ 31"
  shows "\<exists>bs. saves 0 (\<lambda>rdb. rdbSaveRawString rdb_compression htab junk rdb s) bs \<and>
    (\<forall>junk' flags. \<exists>x. loads (\<lambda>r. rdbGenericLoadStringObject junk' r flags) bs x \<and> loaded_as flags s x)"
proof -
  let ?enc = "if length s \<le> 11 then rdbTryIntegerEncoding junk s else Inr []"
  obtain e where e: "?enc = Inr e" "e = [] \<or> (\<exists>v. ll_range v \<and> s = sdec v \<and> e = rdbEncodeInteger v)"
    using try_integer [of junk s] by (cases "length s \<le> 11") auto
  let ?plain = "\<lambda>rdb. cbind (rdbSaveLen rdb (length s)) (\<lambda>x. Inr (save_bind x (\<lambda>n rdb.
      if length s > 0 then save_bind (rdbWriteRaw rdb s) (\<lambda>_ rdb. (n + int (length s), rdb)) else (n, rdb))))"
  have plain: ?thesis if f: "\<And>rdb. rdbSaveRawString rdb_compression htab junk rdb s = ?plain rdb"
    unfolding f using len saves_plain [of "length s" s] loads_plain [of s] by (intro exI [of _ "len_bytes (length s) @ s"]) auto
  show ?thesis
  proof (cases "e = []")
    case False
    then obtain v where v: "s = sdec v" "e = rdbEncodeInteger v" "small_range v" using e(2) encode_none by auto
    have f: "rdbSaveRawString rdb_compression htab junk rdb s = Inr (save_bind (rdbWriteRaw rdb e) (\<lambda>_ rdb. (int (length e), rdb)))" for rdb
      using False unfolding rdbSaveRawString_def e(1) by simp
    have "length e < 2 ^ 31" unfolding v(2) by (simp add: rdbEncodeInteger_def)
    then show ?thesis unfolding f using saves_write_last [of "int (length e)" 0 e] loads_int_string [OF v(3)] unfolding v(1,2)
      by (intro exI [of _ "rdbEncodeInteger v"]) simp
  next
    case True
    show ?thesis
    proof (cases "rdb_compression \<and> length s > 20")
      case False
      show ?thesis by (rule plain) (simp add: rdbSaveRawString_def e(1) True if_not_P [OF False] split del: if_split)
    next
      case big: True
      obtain n out where c: "lzf_compress htab s (map junk [0..<length s - 4]) = Inr (n, out)" "n \<le> length s - 4" "length out = length s - 4"
          "n = 0 \<or> (\<forall>buf. length buf = length s \<longrightarrow> lzf_decompress (take n out) buf = Inr (length s, s))"
        using lzf_inverts [of s htab "map junk [0..<length s - 4]"] len big by auto
      have z: "rdbSaveLzfStringObject htab junk rdb s = (if n = 0 then Inr (0, rdb) else rdbSaveLzfBlob rdb (take n out) (length s))" for rdb
        using big by (simp add: rdbSaveLzfStringObject_def c(1))
      show ?thesis
      proof (cases "n = 0")
        case n0: True
        show ?thesis by (rule plain) (use big n0 in \<open>simp add: rdbSaveRawString_def e(1) True z split del: if_split\<close>)
      next
        case False
        let ?data = "take n out"
        let ?bs = "enc_byte RDB_ENC_LZF # len_bytes (length ?data) @ len_bytes (length s) @ ?data"
        have d: "length ?data = n" "n < 2 ^ 31" using c(2,3) len by simp_all
        have b: "saves 0 (\<lambda>rdb. rdbSaveLzfBlob rdb ?data (length s)) ?bs" using d len by (intro saves_blob) simp_all
        have f: "rdbSaveRawString rdb_compression htab junk rdb s = cbind (rdbSaveLzfBlob rdb ?data (length s)) (\<lambda>(n, rdb).
            if n = -1 then Inr (-1, rdb) else if n > 0 then Inr (n, rdb) else ?plain rdb)" for rdb
          using big False by (simp add: rdbSaveRawString_def e(1) True z)
        have s: "saves 0 (\<lambda>rdb. rdbSaveRawString rdb_compression htab junk rdb s) ?bs"
          using saves_bind [OF b, of 0 "\<lambda>n rdb. if n > 0 then Inr (n, rdb) else ?plain rdb" "[]"] saves_return [of "int (length ?bs)"]
          unfolding f by simp
        have "\<exists>x. loads (\<lambda>r. rdbGenericLoadStringObject junk' r flags) ?bs x \<and> loaded_as flags s x" for junk' flags
          using c(4) False d len big by (intro loads_blob) auto
        then show ?thesis using s by blast
      qed
    qed
  qed
qed

lemma saves_long_long:
  assumes "ll_range v"
  shows "\<exists>bs. saves 0 (\<lambda>rdb. rdbSaveLongLongAsStringObject junk rdb v) bs \<and>
    (\<forall>junk' flags. \<exists>x. loads (\<lambda>r. rdbGenericLoadStringObject junk' r flags) bs x \<and> loaded_as flags (sdec v) x)"
proof (cases "small_range v")
  case True
  have f: "rdbSaveLongLongAsStringObject junk rdb v = Inr (rdbWriteRaw rdb (rdbEncodeInteger v))" for rdb
    using True encode_none [of v] by (simp add: rdbSaveLongLongAsStringObject_def)
  have "length (rdbEncodeInteger v) < 2 ^ 31" by (simp add: rdbEncodeInteger_def)
  then show ?thesis unfolding f using saves_write loads_int_string [OF True] by blast
next
  case False
  have l: "length (sdec v) < 32" using length_sdec [OF assms] by simp
  have ll: "ll2string (map junk [0..<32]) 32 v = Inr (length (sdec v), store_at (map junk [0..<32]) 0 (sdec v @ [0]))"
    using ll2string_sdec [OF assms, of 32 "map junk [0..<32]"] l by simp
  have t: "take (length (sdec v)) (store_at (map junk [0..<32]) 0 (sdec v @ [0])) = sdec v" by (simp add: store_at_def)
  have f: "rdbSaveLongLongAsStringObject junk rdb v = cbind (rdbSaveLen rdb (length (sdec v))) (\<lambda>(n, rdb). if n = -1 then Inr (-1, rdb) else
      Inr (save_bind (rdbWriteRaw rdb (sdec v)) (\<lambda>m rdb. (n + m, rdb))))" for rdb
    using False encode_none [of v] l unfolding rdbSaveLongLongAsStringObject_def Let_def ll cbind_Inr prod.case t
    by (auto simp: save_bind_def intro!: cbind_cong)
  have g: "saves k (\<lambda>rdb. Inr (save_bind (rdbWriteRaw rdb (sdec v)) (\<lambda>m rdb. (k + m, rdb)))) (sdec v)" for k
    using saves_write_bind [of "sdec v" k "\<lambda>m rdb. (k + m, rdb)" "[]"] saves_return [of "k + int (length (sdec v))"] l by simp
  have "saves 0 (\<lambda>rdb. rdbSaveLongLongAsStringObject junk rdb v) (len_bytes (length (sdec v)) @ sdec v)"
    unfolding f using l by (intro saves_bind saves_len) (simp_all add: g)
  then show ?thesis using loads_plain [of "sdec v"] l by auto
qed

section \<open>Properties\<close>

definition obj_ok :: "str_obj \<Rightarrow> bool" where
  "obj_ok obj \<longleftrightarrow> (case obj of IntStr v \<Rightarrow> ll_range v | RawStr s \<Rightarrow> length s < 2 ^ 31 | EmbStr s \<Rightarrow> length s < 2 ^ 31)"

text \<open>C17: Every string object, whatever its encoding, its contents (binary bytes, digits, compressible or not), the switch for compression and the
  memory the compressor starts from, is saved as certain bytes. With no stream to write to these are only counted; with room on the device they are
  appended, whatever the chunk size, and their number is returned; on a device that fills up the result is -1. Loading takes exactly these bytes from
  any stream that goes on with them, and returns, as the flags ask, a plain buffer, a dynamic string or an object with the same contents.
  The checksums of the two streams are updated with the same bytes.\<close>

theorem rdb_string_roundtrip:
  assumes "obj_ok obj"
  shows "\<exists>bs. saves 0 (\<lambda>rdb. rdbSaveStringObject rdb_compression htab junk rdb obj) bs \<and>
    (\<forall>junk' flags. \<exists>x. loads (\<lambda>r. rdbGenericLoadStringObject junk' r flags) bs x \<and> loaded_as flags (obj_str obj) x)"
  using assms raw_string_ok saves_long_long by (cases obj) (simp_all add: obj_ok_def rdbSaveStringObject_def)

theorem rdb_string_roundtrip_witness:
  "\<exists>n w x r. rdbSaveStringObject True (\<lambda>k. 7) (\<lambda>k. 8) (Some (rioInitWithBuffer [])) (RawStr (bytes ''-1234'')) = Inr (n, Some w) \<and>
    rdbGenericLoadStringObject (\<lambda>k. 9) (rioInitWithBuffer (io_ptr w @ [255])) \<lparr>lf_enc = True, lf_plain = False, lf_sds = True\<rparr>
      = Inr (Loaded (SdsVal (bytes ''-1234''), r)) \<and> pending r = [255]"
proof -
  let ?o = "RawStr (bytes ''-1234'')" and ?f = "\<lparr>lf_enc = True, lf_plain = False, lf_sds = True\<rparr>"
  obtain bs where s: "saves 0 (\<lambda>rdb. rdbSaveStringObject True (\<lambda>k. 7) (\<lambda>k. 8) rdb ?o) bs"
    and "\<forall>junk' flags. \<exists>x. loads (\<lambda>r. rdbGenericLoadStringObject junk' r flags) bs x \<and> loaded_as flags (obj_str ?o) x"
    using rdb_string_roundtrip [of ?o True "\<lambda>k. 7" "\<lambda>k. 8"] by (auto simp: obj_ok_def bytes_def)
  then obtain x where l: "loads (\<lambda>r. rdbGenericLoadStringObject (\<lambda>k. 9) r ?f) bs x" "loaded_as ?f (bytes ''-1234'') x" by (metis obj_str.simps(2))
  let ?w = "written (rioInitWithBuffer []) bs"
  have w: "io_ptr ?w = bs" by (simp add: written_def account_def rioInitWithBuffer_def)
  have p: "pending (rioInitWithBuffer (bs @ [255])) = bs @ [255]" by (simp add: pending_def rioInitWithBuffer_def)
  have sv: "rdbSaveStringObject True (\<lambda>k. 7) (\<lambda>k. 8) (Some (rioInitWithBuffer [])) ?o = Inr (int (length bs), Some ?w)"
    using s by (simp add: saves_def has_room_def rioInitWithBuffer_def)
  have "rdbGenericLoadStringObject (\<lambda>k. 9) (rioInitWithBuffer (io_ptr ?w @ [255])) ?f = Inr (Loaded (SdsVal (bytes ''-1234''),
      consumed (rioInitWithBuffer (bs @ [255])) bs))"
    using l p unfolding w by (simp add: loads_def loaded_as_def)
  then show ?thesis using sv pending_after [OF p] by blast
qed

end
