(* ===== verification/RdbSafe.thy ===== *)
theory RdbSafe
  imports RdbUse
begin

text \<open>
  Loading a string from a stream of arbitrary bytes, as from a corrupted dump file: faults, the bytes taken and the kind of the value.
\<close>

section \<open>Loading arbitrary bytes\<close>

definition no_fault :: "'a load cres \<Rightarrow> bool" where
  "no_fault x \<longleftrightarrow> (\<exists>l. x = Inr l)"

lemma load_read_cases:
  "load_read r n = Inr LoadError \<or> (n \<le> length (pending r) \<and> load_read r n = Inr (Loaded (take n (pending r), consumed r (take n (pending r)))))"
  using rioRead_ok [of n r] rioRead_short [of r n] by (cases "n \<le> length (pending r)") (auto simp: load_read_def)

lemma no_fault_read:
  assumes "\<And>bs. length bs = n \<Longrightarrow> pending r = bs @ drop n (pending r) \<Longrightarrow> no_fault (g (bs, consumed r bs))"
  shows "no_fault (load_bind (load_read r n) g)"
  using load_read_cases [of r n] assms [of "take n (pending r)"] by (auto simp: load_bind_def no_fault_def)

lemma no_fault_Inr [simp]: "no_fault (Inr x)"
  by (simp add: no_fault_def)

lemma no_fault_len: "no_fault (load_len r)"
proof -
  have "no_fault (rdbLoadLenByRef r)"
    unfolding rdbLoadLenByRef_def by (rule no_fault_read) (auto simp: length_Suc_conv ntohu64 Let_def intro!: no_fault_read)
  then show ?thesis by (auto simp: load_len_def load_bind_def no_fault_def split: load.splits)
qed

lemma no_fault_len_bind: "(\<And>isencoded len r'. load_len r = Inr (Loaded ((isencoded, len), r')) \<Longrightarrow> no_fault (g ((isencoded, len), r'))) \<Longrightarrow>
    no_fault (load_bind (load_len r) g)"
  using no_fault_len [of r] by (auto simp: no_fault_def load_bind_def split: load.splits)

lemma sint_small_range: "small_range (sint (w :: 8 word))" "small_range (sint (w' :: 16 word))" "small_range (sint (w'' :: 32 word))"
  using sint_greater_eq [of w] sint_less [of w] sint_greater_eq [of w'] sint_less [of w'] sint_greater_eq [of w''] sint_less [of w'']
  by (simp_all add: small_range_def)

lemma no_fault_integer: "no_fault (rdbLoadIntegerObject junk r e flags)"
proof -
  have v: "no_fault (integer_value r e) \<and> (\<forall>v r'. integer_value r e = Inr (Loaded (v, r')) \<longrightarrow> small_range v)"
  proof -
    consider "e = RDB_ENC_INT8" | "e \<noteq> RDB_ENC_INT8" "e = RDB_ENC_INT16" | "e \<noteq> RDB_ENC_INT8" "e \<noteq> RDB_ENC_INT16" "e = RDB_ENC_INT32"
      | "e \<noteq> RDB_ENC_INT8" "e \<noteq> RDB_ENC_INT16" "e \<noteq> RDB_ENC_INT32" by blast
    then show ?thesis
    proof cases
      case 1
      then show ?thesis using load_read_cases [of r 1] by (cases "pending r") (auto simp: integer_value_def load_bind_def rd_def sint_small_range)
    next
      case 2
      then show ?thesis using load_read_cases [of r 2] by (cases "pending r") (auto simp: integer_value_def load_bind_def rd_def sint_small_range)
    next
      case 3
      then show ?thesis using load_read_cases [of r 4] by (cases "pending r") (auto simp: integer_value_def load_bind_def rd_def sint_small_range)
    next
      case 4
      then show ?thesis by (simp add: integer_value_def)
    qed
  qed
  have "no_fault (cbind (integer_object junk flags v) (\<lambda>x. Inr (Loaded (x, r'))))" if "small_range v" for v r'
    using integer_object_ok [OF that, of junk flags] by auto
  then show ?thesis using v unfolding rdbLoadIntegerObject_def by (auto simp: no_fault_def load_bind_def split: load.splits)
qed

lemma lzf_uint_total:
  assumes "c \<noteq> []"
  shows "\<exists>n out. lzf_decompress_uint c val = Inr (n, out)"
proof (cases "length c mod 2 ^ 32 = 0")
  case True
  then show ?thesis using assms by (simp add: lzf_decompress_uint_def rd_def)
next
  case False
  then have "take (length c mod 2 ^ 32) c \<noteq> []" using assms by (simp add: mod_0)
  then obtain n out where "lzf_decompress (take (length c mod 2 ^ 32) c) (take (length val mod 2 ^ 32) val) = Inr (n, out)"
    using dec_loop_ok [of 0 "take (length c mod 2 ^ 32) c" "[]" "take (length val mod 2 ^ 32) val"] by (auto simp: lzf_decompress_def)
  then show ?thesis using False by (simp add: lzf_decompress_uint_def)
qed

lemma no_fault_lzf:
  assumes c: "\<And>b r'. load_len r \<noteq> Inr (Loaded ((b, 0), r'))"
    and v: "\<And>b clen r' b' len r''. load_len r = Inr (Loaded ((b, clen), r')) \<Longrightarrow> load_len r' = Inr (Loaded ((b', len), r'')) \<Longrightarrow> lf_plain flags \<or> len < 2 ^ 64 - 18"
  shows "no_fault (rdbLoadLzfStringObject junk r flags)"
  unfolding rdbLoadLzfStringObject_def
proof (rule no_fault_len_bind, unfold prod.case, rule no_fault_len_bind, unfold prod.case)
  fix b clen r' b' len r''
  assume l: "load_len r = Inr (Loaded ((b, clen), r'))" "load_len r' = Inr (Loaded ((b', len), r''))"
  have a: "(if lf_plain flags then Inr (map junk [0..<len]) else sds_noinit junk len) = Inr (map junk [0..<len])"
    using v [OF l] by (auto simp: sds_noinit_ok)
  show "no_fault (cbind (if lf_plain flags then Inr (map junk [0..<len]) else sds_noinit junk len) (\<lambda>val. load_bind (load_read r'' clen) (\<lambda>(c, rdb).
      cbind (lzf_decompress_uint c val) (\<lambda>(n, val). if n = 0 then Inr LoadError
        else Inr (Loaded (if lf_plain flags then PlainVal val else if lf_sds flags then SdsVal val else ObjVal (RawStr val), rdb))))))"
    unfolding a cbind_Inr
  proof (rule no_fault_read, unfold prod.case)
    fix bs :: "byte list" assume "length bs = clen"
    then have "bs \<noteq> []" using c l(1) by auto
    then obtain n out where "lzf_decompress_uint bs (map junk [0..<len]) = Inr (n, out)" using lzf_uint_total by blast
    then show "no_fault (cbind (lzf_decompress_uint bs (map junk [0..<len])) (\<lambda>(n, val). if n = 0 then Inr LoadError
        else Inr (Loaded (if lf_plain flags then PlainVal val else if lf_sds flags then SdsVal val else ObjVal (RawStr val), consumed r'' bs))))"
      by simp
  qed
qed

lemma load_bind_Loaded: "load_bind x g = Inr (Loaded y) \<longleftrightarrow> (\<exists>a. x = Inr (Loaded a) \<and> g a = Inr (Loaded y))"
  by (cases x) (auto simp: load_bind_def split: load.splits)

lemma load_read_Loaded:
  "load_read r n = Inr (Loaded (bs, r')) \<Longrightarrow> length bs = n \<and> (\<exists>rest. pending r = bs @ rest) \<and> r' = consumed r bs"
  using load_read_cases [of r n] append_take_drop_id [of n "pending r"] by (auto simp del: append_take_drop_id intro: sym)

lemma load_len_lzf:
  assumes "load_len r = Inr (Loaded ((True, RDB_ENC_LZF), r'))"
  shows "\<exists>rest. pending r = 0xC3 # rest \<and> r' = consumed r [0xC3]"
proof -
  have "rdbLoadLenByRef r = Inr (Loaded ((True, RDB_ENC_LZF), r'))" using assms by (auto simp: load_len_def load_bind_Loaded split: if_splits)
  then obtain b r1 where b: "load_read r 1 = Inr (Loaded ([b], r1))" and t: "unat b div 64 mod 4 = 3" "unat b mod 64 = RDB_ENC_LZF" "r' = r1"
    unfolding rdbLoadLenByRef_def load_bind_Loaded
    by (auto simp: Let_def and_masks RDB_ENCVAL_def load_bind_Loaded cbind_eq_Inr_iff length_Suc_conv dest!: load_read_Loaded split: if_splits simp del: drop_bit_and)
  have "unat b < 256" using unat_less [of b] by simp
  then have "unat b div 64 = 3" using t(1) by (simp add: div_less_iff_less_mult)
  then have "unat b = 195" using t(2) div_mult_mod_eq [of "unat b" 64] by (simp add: RDB_ENC_LZF_def)
  then have "b = 0xC3" by (simp add: word_unat_eq_iff)
  then show ?thesis using load_read_Loaded [OF b] t(3) by auto
qed

section \<open>Types\<close>

text \<open>What a routine leaves of the stream: it has taken some bytes, at least \<open>n\<close>.\<close>

definition took :: "nat \<Rightarrow> rio \<Rightarrow> rio \<Rightarrow> bool" where
  "took n r r' \<longleftrightarrow> (\<exists>bs. n \<le> length bs \<and> pending r = bs @ pending r' \<and> r' = consumed r bs)"

lemma took_refl: "took 0 r r"
  by (auto simp: took_def intro!: exI [of _ "[]"])

lemma took_trans: "took m r r' \<Longrightarrow> took n r' r'' \<Longrightarrow> took m r r''"
proof -
  assume "took m r r'" "took n r' r''"
  then obtain xs ys where "m \<le> length xs" "pending r = xs @ pending r'" "r' = consumed r xs" "pending r' = ys @ pending r''" "r'' = consumed r' ys"
    by (auto simp: took_def)
  then show ?thesis unfolding took_def by (intro exI [of _ "xs @ ys"]) simp
qed

lemma took_read: "load_read r n = Inr (Loaded (bs, r')) \<Longrightarrow> took n r r' \<and> length bs = n"
  using load_read_Loaded [of r n bs r'] pending_after unfolding took_def by fastforce

lemma took_len:
  assumes "load_len r = Inr (Loaded (x, r'))"
  shows "took 1 r r'"
proof -
  have "rdbLoadLenByRef r = Inr (Loaded (x, r'))" using assms by (auto simp: load_len_def load_bind_Loaded split: if_splits)
  then obtain bs r1 where r1: "load_read r 1 = Inr (Loaded (bs, r1))" "r' = r1 \<or> (\<exists>n cs. load_read r1 n = Inr (Loaded (cs, r')))"
    unfolding rdbLoadLenByRef_def load_bind_Loaded by (auto simp: Let_def load_bind_Loaded cbind_eq_Inr_iff split: if_splits)
  then show ?thesis using took_read took_trans by blast
qed

lemma took_integer:
  assumes "integer_value r e = Inr (Loaded (v, r'))"
  shows "took 1 r r' \<and> small_range v"
proof -
  obtain n bs where n: "load_read r n = Inr (Loaded (bs, r'))" "1 \<le> n" "small_range v"
    using assms unfolding integer_value_def
    by (auto simp: load_bind_Loaded cbind_eq_Inr_iff sint_small_range split: if_splits)
  then have "took n r r'" using took_read by blast
  then show ?thesis using n(2,3) le_trans unfolding took_def by blast
qed

text \<open>The kind of value that the flags ask for: integers stay integers, and short strings are embedded, only where encoding is allowed.\<close>

definition val_type :: "load_flags \<Rightarrow> rdb_val \<Rightarrow> bool" where
  "val_type flags x \<longleftrightarrow>
     (case x of
        PlainVal _ \<Rightarrow> lf_plain flags
      | SdsVal _ \<Rightarrow> \<not> lf_plain flags \<and> lf_sds flags
      | ObjVal obj \<Rightarrow> \<not> lf_plain flags \<and> \<not> lf_sds flags \<and>
          (case obj of IntStr v \<Rightarrow> lf_enc flags \<and> small_range v
           | EmbStr s \<Rightarrow> lf_enc flags \<and> length s \<le> OBJ_ENCODING_EMBSTR_SIZE_LIMIT
           | RawStr _ \<Rightarrow> True))"

lemma integer_type: "small_range v \<Longrightarrow> integer_object junk flags v = Inr x \<Longrightarrow> val_type flags x"
  by (auto simp: integer_object_def val_type_def createStringObjectFromLongLongForValue_def cbind_eq_Inr_iff split: if_splits)

section \<open>Properties\<close>

text \<open>The lengths that the file announces for the string: its own, or that before compression.\<close>

definition announced :: "rio \<Rightarrow> nat \<Rightarrow> bool" where
  "announced r len \<longleftrightarrow> (\<exists>r'. load_len r = Inr (Loaded ((False, len), r'))) \<or>
     (\<exists>rest b clen r' b' r''. pending r = 0xC3 # rest \<and> load_len (consumed r [0xC3]) = Inr (Loaded ((b, clen), r')) \<and> load_len r' = Inr (Loaded ((b', len), r'')))"

text \<open>C18: Loading a string from arbitrary bytes ends and never reads or writes outside its buffers: it returns a value, an error, or reports a
  corrupt file, with two exceptions, both of corrupt files: a compressed string that says its compressed length is zero, and, unless a plain buffer is asked for,
  a string that says its length is within 18 of \<open>2\<^sup>6\<^sup>4\<close>. (An allocation that fails ends the process.)\<close>

theorem rdb_load_safe:
  "no_fault (rdbGenericLoadStringObject junk r flags) \<or>
   (\<exists>b rest r'. pending r = 0xC3 # rest \<and> load_len (consumed r [0xC3]) = Inr (Loaded ((b, 0), r'))) \<or>
   \<not> lf_plain flags \<and> (\<exists>len. announced r len \<and> 2 ^ 64 - 18 \<le> len)"
proof (rule disjCI)
  assume none: "\<not> ((\<exists>b rest r'. pending r = 0xC3 # rest \<and> load_len (consumed r [0xC3]) = Inr (Loaded ((b, 0), r'))) \<or>
    \<not> lf_plain flags \<and> (\<exists>len. announced r len \<and> 2 ^ 64 - 18 \<le> len))"
  then have small: "announced r len \<Longrightarrow> lf_plain flags \<or> len < 2 ^ 64 - 18" for len by (meson not_le)
  show "no_fault (rdbGenericLoadStringObject junk r flags)"
    unfolding rdbGenericLoadStringObject_def
  proof (rule no_fault_len_bind, unfold prod.case)
    fix isencoded len r1 assume l: "load_len r = Inr (Loaded ((isencoded, len), r1))"
    have lzf: "no_fault (rdbLoadLzfStringObject junk r1 flags)" if e: "isencoded" "len = RDB_ENC_LZF"
    proof (rule no_fault_lzf)
      obtain rest where r1: "pending r = 0xC3 # rest" "r1 = consumed r [0xC3]" using load_len_lzf [of r r1] l e by auto
      then show "load_len r1 \<noteq> Inr (Loaded ((b, 0), r'))" for b r' using none by blast
      fix b clen r' b' n r'' assume "load_len r1 = Inr (Loaded ((b, clen), r'))" "load_len r' = Inr (Loaded ((b', n), r''))"
      then have "announced r n" unfolding announced_def using r1 by blast
      then show "lf_plain flags \<or> n < 2 ^ 64 - 18" by (rule small)
    qed
    have raw: "(if lf_plain flags \<or> \<not> lf_sds flags \<and> lf_enc flags \<and> len \<le> OBJ_ENCODING_EMBSTR_SIZE_LIMIT then Inr (map junk [0..<len])
        else sds_noinit junk len) = Inr (map junk [0..<len])" if "\<not> isencoded"
    proof -
      have "announced r len" unfolding announced_def using l that by auto
      then show ?thesis using small [of len] by (auto simp: sds_noinit_ok)
    qed
    show "no_fault (if isencoded then if len \<in> {RDB_ENC_INT8, RDB_ENC_INT16, RDB_ENC_INT32} then rdbLoadIntegerObject junk r1 len flags
          else if len = RDB_ENC_LZF then rdbLoadLzfStringObject junk r1 flags else Inr CorruptExit
        else cbind (if lf_plain flags \<or> \<not> lf_sds flags \<and> lf_enc flags \<and> len \<le> OBJ_ENCODING_EMBSTR_SIZE_LIMIT then Inr (map junk [0..<len])
            else sds_noinit junk len) (\<lambda>_. load_bind (if len = 0 then Inr (Loaded ([], r1)) else load_read r1 len) (\<lambda>(buf, rdb).
          Inr (Loaded (if lf_plain flags then PlainVal buf else if lf_sds flags then SdsVal buf
            else if lf_enc flags then ObjVal (createStringObject buf) else ObjVal (RawStr buf), rdb)))))"
    proof (cases isencoded)
      case True
      then show ?thesis using lzf by (simp add: no_fault_integer)
    next
      case False
      show ?thesis unfolding raw [OF False] cbind_Inr using False by (auto simp: load_bind_def [of "Inr _"] intro!: no_fault_read)
    qed
  qed
qed

text \<open>The number of bytes is returned as an \<open>int\<close>: one length that does not fit reads as a failed write.\<close>

theorem rdb_length_wraps: "length p = 2 ^ 32 - 1 \<Longrightarrow> fst (rdbWriteRaw rdb p) = -1"
  by (cases rdb) (simp_all add: rdbWriteRaw_def int_of_size_def split: prod.splits)

text \<open>The exception: the loop of \<open>lzf_decompress\<close> reads its first byte before it tests the length.\<close>

theorem rdb_empty_lzf_faults:
  "rdbGenericLoadStringObject junk (rioInitWithBuffer [0xC3, 0, 1]) flags = Inl OutOfBounds"
proof -
  have "pending (rioInitWithBuffer [0xC3, 0, 1]) = [0xC3] @ (len_bytes (length ([] :: byte list)) @ (len_bytes 1 @ ([] @ [])))"
    by (simp add: pending_def rioInitWithBuffer_def len_bytes_def)
  then show ?thesis using load_lzf_step [of "rioInitWithBuffer [0xC3, 0, 1]" "[]" 1 "[]"] by (simp add: lzf_decompress_Nil)
qed

text \<open>The other exception: the size of the allocation wraps around, and the header is written past the block.\<close>

theorem rdb_huge_length_faults:
  assumes "\<not> lf_plain flags"
  shows "rdbGenericLoadStringObject junk (rioInitWithBuffer (len_bytes (2 ^ 64 - 2))) flags = Inl OutOfBounds"
proof -
  let ?n = "2 ^ 64 - 2 :: nat"
  have l: "loads load_len (len_bytes ?n) (False, ?n)" by (rule loads_len) simp
  have p: "pending (rioInitWithBuffer (len_bytes ?n)) = len_bytes ?n @ []" by (simp add: pending_def rioInitWithBuffer_def)
  have "sds_noinit junk ?n = Inl OutOfBounds" by (simp add: sds_noinit_def sdsReqType_def Let_def)
  then show ?thesis unfolding rdbGenericLoadStringObject_def load_step [OF l p] prod.case using assms by (simp add: OBJ_ENCODING_EMBSTR_SIZE_LIMIT_def)
qed

text \<open>A compressed string that expands to fewer bytes than announced is accepted: the rest of the value is whatever was in memory.\<close>

theorem rdb_short_lzf_accepted:
  "\<exists>r. rdbGenericLoadStringObject junk (rioInitWithBuffer [0xC3, 2, 4, 0, 97]) \<lparr>lf_enc = False, lf_plain = False, lf_sds = False\<rparr>
     = Inr (Loaded (ObjVal (RawStr [97, junk 1, junk 2, junk 3]), r))"
proof -
  have p: "pending (rioInitWithBuffer [0xC3, 2, 4, 0, 97]) = [0xC3] @ (len_bytes (length [0 :: byte, 97]) @ (len_bytes 4 @ ([0, 97] @ [])))"
    by (simp add: pending_def rioInitWithBuffer_def len_bytes_def)
  have "lzf_decompress [0, 97] [junk 0, junk 1, junk 2, junk 3] = Inr (1, [97, junk 1, junk 2, junk 3])" by code_simp
  moreover have "map junk [0..<4] = [junk 0, junk 1, junk 2, junk 3]" by (simp add: upt_rec numeral_eq_Suc)
  ultimately have "lzf_decompress [0, 97] (map junk [0..<4]) = Inr (1, [97, junk 1, junk 2, junk 3])" by (simp only:)
  then show ?thesis using load_lzf_step [OF p, of junk "\<lparr>lf_enc = False, lf_plain = False, lf_sds = False\<rparr>"] by simp
qed

text \<open>C40: Whatever bytes a string is loaded from, a value that is returned is of the kind the flags ask for: a plain buffer, a dynamic
  string or an object; an object holds an integer only where encoding is allowed, and then one of 32 bits, and is embedded only up to the limit
  of the allocator's small blocks. At least one byte was taken, and the stream stands behind the bytes taken, with the checksum and the
  count brought up to date by them.\<close>

theorem rdb_load_typed:
  assumes "rdbGenericLoadStringObject junk r flags = Inr (Loaded (x, r'))"
  shows "val_type flags x \<and> took 1 r r'"
proof -
  obtain isencoded len r1 where l: "load_len r = Inr (Loaded ((isencoded, len), r1))"
    using assms by (auto simp: rdbGenericLoadStringObject_def load_bind_Loaded)
  have t: "took 1 r r1" using took_len [OF l] .
  consider (int) "rdbLoadIntegerObject junk r1 len flags = Inr (Loaded (x, r'))" | (lzf) "rdbLoadLzfStringObject junk r1 flags = Inr (Loaded (x, r'))"
    | (raw) buf where "(if len = 0 then Inr (Loaded ([], r1)) else load_read r1 len) = Inr (Loaded (buf, r'))"
        "x = (if lf_plain flags then PlainVal buf else if lf_sds flags then SdsVal buf
          else if lf_enc flags then ObjVal (createStringObject buf) else ObjVal (RawStr buf))"
    using assms unfolding rdbGenericLoadStringObject_def by (auto simp: load_bind_Loaded l cbind_eq_Inr_iff split: if_splits)
  then show ?thesis
  proof cases
    case int
    then obtain v where v: "integer_value r1 len = Inr (Loaded (v, r'))" "integer_object junk flags v = Inr x"
      by (auto simp: rdbLoadIntegerObject_def load_bind_Loaded cbind_eq_Inr_iff)
    then show ?thesis using took_integer [OF v(1)] integer_type t took_trans by blast
  next
    case lzf
    then obtain a r2 b r3 c n val where s: "load_len r1 = Inr (Loaded (a, r2))" "load_len r2 = Inr (Loaded (b, r3))" "load_read r3 (snd a) = Inr (Loaded (c, r'))"
      and x: "x = (if lf_plain flags then PlainVal val else if lf_sds flags then SdsVal val else ObjVal (RawStr val))"
      by (auto simp: rdbLoadLzfStringObject_def load_bind_Loaded cbind_eq_Inr_iff split: if_splits)
    have "took 1 r r'" using t took_len [OF s(1)] took_len [OF s(2)] took_read [OF s(3)] took_trans by blast
    then show ?thesis by (simp add: x val_type_def)
  next
    case raw
    have "took 1 r r'" using raw(1) t took_read [of r1 len buf r'] took_trans by (auto split: if_splits)
    then show ?thesis by (simp add: raw(2) val_type_def createStringObject_def)
  qed
qed

theorem rdb_load_typed_witness:
  "\<exists>x r'. rdbGenericLoadStringObject (\<lambda>k. 7) (rioInitWithBuffer [1, 97, 98]) \<lparr>lf_enc = True, lf_plain = False, lf_sds = False\<rparr> = Inr (Loaded (x, r')) \<and>
    val_type \<lparr>lf_enc = True, lf_plain = False, lf_sds = False\<rparr> x \<and> took 1 (rioInitWithBuffer [1, 97, 98]) r'"
proof -
  let ?f = "\<lparr>lf_enc = True, lf_plain = False, lf_sds = False\<rparr>" and ?r = "rioInitWithBuffer [1, 97, 98]"
  obtain x where "loads (\<lambda>r. rdbGenericLoadStringObject (\<lambda>k. 7) r ?f) (len_bytes (length [97 :: byte]) @ [97]) x"
    using loads_plain [of "[97]" "\<lambda>k. 7" ?f] by auto
  moreover have "pending ?r = (len_bytes (length [97 :: byte]) @ [97]) @ [98]" by (simp add: pending_def rioInitWithBuffer_def len_bytes_def)
  ultimately obtain r' where r: "rdbGenericLoadStringObject (\<lambda>k. 7) ?r ?f = Inr (Loaded (x, r'))" unfolding loads_def by blast
  show ?thesis using rdb_load_typed [OF r] r by blast
qed

end
