(* ===== verification/Networking.thy ===== *)
theory Networking
  imports SdsArgs TSet RdbUse
begin

text \<open>
  The protocol parser of \<open>networking.c\<close>: what a client sends is gathered in its query buffer, a dynamic string, and cut into commands, inline lines
  or arrays of bulk strings, however the bytes arrive. Running a command is an argument; it can change the state of the server and the flags of the
  client, and it can free the client.
\<close>

section \<open>Clients\<close>

record client_flags =
  CLIENT_SLAVE :: bool
  CLIENT_MASTER :: bool
  CLIENT_MONITOR :: bool
  CLIENT_MULTI :: bool
  CLIENT_BLOCKED :: bool
  BLOCKED_MODULE :: bool
  CLIENT_CLOSE_AFTER_REPLY :: bool
  CLIENT_CLOSE_ASAP :: bool

datatype proto_error =
  TooBigInline | UnbalancedQuotes | TooBigMbulkCount | InvalidMbulkLen | TooBigBulkCount | ExpectedDollar byte | InvalidBulkLen

text \<open>The vector of arguments is allocated with \<open>argv_size\<close> entries, of which \<open>argc\<close> are in use.\<close>

record client =
  querybuf :: sds
  qb_pos :: nat
  pending_querybuf :: sds
  querybuf_peak :: nat
  argv :: "str_obj list"
  argv_size :: nat
  reqtype :: nat
  multibulklen :: nat
  bulklen :: int
  client_flags :: client_flags
  errors :: "proto_error list"
  lastinteraction :: int
  read_reploff :: int
  reploff :: int
  repl_ack_time :: int

record proto_cfg =
  proto_max_bulk_len :: int
  client_max_querybuf_len :: nat
  clients_paused :: bool
  lua_timedout :: bool
  unixtime :: int
  fresh_mem :: "nat \<Rightarrow> byte"

definition PROTO_IOBUF_LEN :: nat where "PROTO_IOBUF_LEN = 1024 * 16"
definition PROTO_INLINE_MAX_SIZE :: nat where "PROTO_INLINE_MAX_SIZE = 1024 * 64"
definition PROTO_MBULK_BIG_ARG :: int where "PROTO_MBULK_BIG_ARG = 1024 * 32"
definition PROTO_REQ_INLINE :: nat where "PROTO_REQ_INLINE = 1"
definition PROTO_REQ_MULTIBULK :: nat where "PROTO_REQ_MULTIBULK = 2"

text \<open>The bytes not yet parsed, in the arithmetic of \<open>size_t\<close>.\<close>

definition unparsed :: "client \<Rightarrow> nat" where
  "unparsed c = nat ((int (sdslen (querybuf c)) - int (qb_pos c)) mod 2 ^ 64)"

definition createClient :: "proto_cfg \<Rightarrow> client cres" where
  "createClient cfg =
     cbind (sdsempty (fresh_mem cfg)) (\<lambda>q.
     cbind (sdsempty (fresh_mem cfg)) (\<lambda>pq.
     Inr \<lparr> querybuf = q, qb_pos = 0, pending_querybuf = pq, querybuf_peak = 0, argv = [], argv_size = 0, reqtype = 0, multibulklen = 0, bulklen = -1,
           client_flags = \<lparr> CLIENT_SLAVE = False, CLIENT_MASTER = False, CLIENT_MONITOR = False, CLIENT_MULTI = False, CLIENT_BLOCKED = False,
             BLOCKED_MODULE = False, CLIENT_CLOSE_AFTER_REPLY = False, CLIENT_CLOSE_ASAP = False \<rparr>,
           errors = [], lastinteraction = unixtime cfg, read_reploff = 0, reploff = 0, repl_ack_time = 0 \<rparr>))"

definition setProtocolError :: "proto_error \<Rightarrow> client \<Rightarrow> client" where
  "setProtocolError err c = c\<lparr>errors := errors c @ [err], client_flags := (client_flags c)\<lparr>CLIENT_CLOSE_AFTER_REPLY := True\<rparr>\<rparr>"

definition resetClient :: "client \<Rightarrow> client" where
  "resetClient c = c\<lparr>argv := [], reqtype := 0, multibulklen := 0, bulklen := -1\<rparr>"

section \<open>Parsing\<close>

definition is_slave :: "client \<Rightarrow> bool" where
  "is_slave c \<longleftrightarrow> \<not> CLIENT_MASTER (client_flags c) \<and> CLIENT_SLAVE (client_flags c) \<and> \<not> CLIENT_MONITOR (client_flags c)"

definition processInlineBuffer :: "proto_cfg \<Rightarrow> client \<Rightarrow> (bool \<times> client) cres" where
  "processInlineBuffer cfg c =
     (let buf = sds_buf (querybuf c); pos = qb_pos c in
      cbind (strchr buf pos 10) (\<lambda>newline.
      case newline of
        None \<Rightarrow> Inr (False, if unparsed c > PROTO_INLINE_MAX_SIZE then setProtocolError TooBigInline c else c)
      | Some newline \<Rightarrow>
          cbind (if newline \<noteq> pos then cbind (rd buf (newline - 1)) (\<lambda>b. Inr (b = 13)) else Inr False) (\<lambda>cr.
          let querylen = newline - of_bool cr - pos; linefeed_chars = 1 + of_bool cr in
          cbind (peek (querybuf c) pos querylen) (\<lambda>line.
          cbind (sdsnewlen (fresh_mem cfg) (Some line) querylen) (\<lambda>aux.
          cbind (sdssplitargs (fresh_mem cfg) (sds_buf aux)) (\<lambda>args.
          case args of
            None \<Rightarrow> Inr (False, setProtocolError UnbalancedQuotes c)
          | Some args \<Rightarrow>
              let c = (if querylen = 0 \<and> is_slave c then c\<lparr>repl_ack_time := unixtime cfg\<rparr> else c);
                  c = c\<lparr>qb_pos := pos + (querylen + linefeed_chars)\<rparr>;
                  c = (if args \<noteq> [] then c\<lparr>argv_size := length args\<rparr> else c) in
              Inr (True, c\<lparr>argv := map (\<lambda>v. RawStr (sds_str v)) args\<rparr>)))))))"

text \<open>An early return, with or without a command, or the client to go on with.\<close>

datatype parse = Return bool client | Proceed client

text \<open>The end of a line with a count: the carriage return, once the byte behind it has arrived too.\<close>

definition find_cr :: "proto_error \<Rightarrow> client \<Rightarrow> (nat option \<times> client) cres" where
  "find_cr too_big c =
     cbind (strchr (sds_buf (querybuf c)) (qb_pos c) 13) (\<lambda>newline.
     case newline of
       None \<Rightarrow> Inr (None, if unparsed c > PROTO_INLINE_MAX_SIZE then setProtocolError too_big c else c)
     | Some newline \<Rightarrow>
         if int newline - int (qb_pos c) > sint (word_of_int (int (sdslen (querybuf c)) - int (qb_pos c) - 2) :: 64 word) then Inr (None, c)
         else Inr (Some newline, c))"

definition multibulk_header :: "client \<Rightarrow> parse cres" where
  "multibulk_header c =
     (if multibulklen c \<noteq> 0 then Inr (Proceed c)
      else if argv c \<noteq> [] then Inl AssertFailed
      else
        cbind (find_cr TooBigMbulkCount c) (\<lambda>(newline, c).
        case newline of
          None \<Rightarrow> Inr (Return False c)
        | Some newline \<Rightarrow>
            cbind (rd (sds_buf (querybuf c)) (qb_pos c)) (\<lambda>b.
            if b \<noteq> 42 then Inl AssertFailed
            else
              cbind (peek (querybuf c) (qb_pos c + 1) (newline - (qb_pos c + 1))) (\<lambda>s.
              case string2ll s of
                None \<Rightarrow> Inr (Return False (setProtocolError InvalidMbulkLen c))
              | Some ll \<Rightarrow>
                  if ll > 1024 * 1024 then Inr (Return False (setProtocolError InvalidMbulkLen c))
                  else
                    let c = c\<lparr>qb_pos := newline + 2\<rparr> in
                    if ll \<le> 0 then Inr (Return True c)
                    else Inr (Proceed (c\<lparr>multibulklen := nat ll, argv_size := nat ll\<rparr>))))))"

definition bulk_header :: "proto_cfg \<Rightarrow> client \<Rightarrow> parse cres" where
  "bulk_header cfg c =
     (if bulklen c \<noteq> -1 then Inr (Proceed c)
      else
        cbind (find_cr TooBigBulkCount c) (\<lambda>(newline, c).
        case newline of
          None \<Rightarrow> Inr (Return False c)
        | Some newline \<Rightarrow>
            cbind (rd (sds_buf (querybuf c)) (qb_pos c)) (\<lambda>b.
            if b \<noteq> 36 then Inr (Return False (setProtocolError (ExpectedDollar b) c))
            else
              cbind (peek (querybuf c) (qb_pos c + 1) (newline - (qb_pos c + 1))) (\<lambda>s.
              case string2ll s of
                None \<Rightarrow> Inr (Return False (setProtocolError InvalidBulkLen c))
              | Some ll \<Rightarrow>
                  if ll < 0 \<or> ll > proto_max_bulk_len cfg then Inr (Return False (setProtocolError InvalidBulkLen c))
                  else
                    let c = c\<lparr>qb_pos := newline + 2\<rparr> in
                    cbind (if ll \<ge> PROTO_MBULK_BIG_ARG \<and> int (unparsed c) \<le> ll + 2 then
                             cbind (sdsrange (querybuf c) (int (qb_pos c)) (-1)) (\<lambda>q.
                             cbind (sdsMakeRoomFor (fresh_mem cfg) q (nat ll + 2)) (\<lambda>q.
                             Inr (c\<lparr>querybuf := q, qb_pos := 0\<rparr>)))
                           else Inr c) (\<lambda>c.
                    Inr (Proceed (c\<lparr>bulklen := ll\<rparr>)))))))"

text \<open>Entering an argument in the vector.\<close>

definition put_arg :: "client \<Rightarrow> str_obj \<Rightarrow> client cres" where
  "put_arg c obj = (if length (argv c) < argv_size c then Inr (c\<lparr>argv := argv c @ [obj]\<rparr>) else Inl OutOfBounds)"

text \<open>A large argument that is all of the buffer takes the buffer over; a new one is allocated, whose contents do not matter.\<close>

definition bulk_data :: "proto_cfg \<Rightarrow> client \<Rightarrow> parse cres" where
  "bulk_data cfg c =
     (if int (unparsed c) < bulklen c + 2 then Inr (Return False c)
      else
        cbind
          (if qb_pos c = 0 \<and> bulklen c \<ge> PROTO_MBULK_BIG_ARG \<and> int (sdslen (querybuf c)) = bulklen c + 2 then
             cbind (sdsIncrLen (querybuf c) (-2)) (\<lambda>q.
             cbind (put_arg c (RawStr (sds_str q))) (\<lambda>c.
             let n = nat (bulklen c + 2) in
             cbind (sdsnewlen (fresh_mem cfg) (Some (map (fresh_mem cfg) [0..<n])) n) (\<lambda>q.
             cbind (sdsclear q) (\<lambda>q. Inr (c\<lparr>querybuf := q\<rparr>)))))
           else
             cbind (peek (querybuf c) (qb_pos c) (nat (bulklen c))) (\<lambda>s.
             cbind (put_arg c (createStringObject s)) (\<lambda>c.
             Inr (c\<lparr>qb_pos := qb_pos c + nat (bulklen c + 2)\<rparr>)))) (\<lambda>c.
        Inr (Proceed (c\<lparr>bulklen := -1, multibulklen := multibulklen c - 1\<rparr>))))"

lemma find_cr_keeps: "find_cr e c = Inr (nl, c') \<Longrightarrow> multibulklen c' = multibulklen c"
  by (auto simp: find_cr_def cbind_eq_Inr_iff setProtocolError_def split: option.splits if_splits)

lemma bulk_header_keeps: "bulk_header cfg c = Inr (Proceed c') \<Longrightarrow> multibulklen c' = multibulklen c"
  by (auto simp: bulk_header_def cbind_eq_Inr_iff Let_def dest!: find_cr_keeps split: option.splits if_splits)

lemma bulk_data_counts: "bulk_data cfg c = Inr (Proceed c') \<Longrightarrow> multibulklen c' = multibulklen c - 1"
  by (auto simp: bulk_data_def put_arg_def cbind_eq_Inr_iff Let_def split: if_splits)

function bulk_loop :: "proto_cfg \<Rightarrow> client \<Rightarrow> (bool \<times> client) cres" where
  "bulk_loop cfg c =
     (if multibulklen c = 0 then Inr (True, c)
      else
        cbind (bulk_header cfg c) (\<lambda>p.
        case p of
          Return ok c \<Rightarrow> Inr (ok, c)
        | Proceed c \<Rightarrow>
            cbind (bulk_data cfg c) (\<lambda>p.
            case p of Return ok c \<Rightarrow> Inr (ok, c) | Proceed c \<Rightarrow> bulk_loop cfg c)))"
  by pat_completeness auto
termination
  by (relation "measure (\<lambda>(cfg, c). multibulklen c)") (auto dest!: bulk_header_keeps bulk_data_counts)

declare bulk_loop.simps [simp del]

definition processMultibulkBuffer :: "proto_cfg \<Rightarrow> client \<Rightarrow> (bool \<times> client) cres" where
  "processMultibulkBuffer cfg c =
     cbind (multibulk_header c) (\<lambda>p.
     case p of
       Return ok c \<Rightarrow> Inr (ok, c)
     | Proceed c \<Rightarrow> if multibulklen c = 0 then Inl AssertFailed else bulk_loop cfg c)"

section \<open>The input of a client\<close>

text \<open>What running a command gives: the state of the server, the flags of the client, \<open>C_OK\<close> or not, and whether the client still exists.\<close>

record 's cmd_result =
  r_state :: 's
  r_flags :: client_flags
  r_ok :: bool
  r_alive :: bool

type_synonym 's runner = "'s \<Rightarrow> str_obj list \<Rightarrow> client_flags \<Rightarrow> 's cmd_result"

definition must_wait :: "proto_cfg \<Rightarrow> client_flags \<Rightarrow> bool" where
  "must_wait cfg fl \<longleftrightarrow> \<not> CLIENT_SLAVE fl \<and> clients_paused cfg \<or> CLIENT_BLOCKED fl \<or> lua_timedout cfg \<and> CLIENT_MASTER fl \<or>
     CLIENT_CLOSE_AFTER_REPLY fl \<or> CLIENT_CLOSE_ASAP fl"

definition next_request :: "proto_cfg \<Rightarrow> client \<Rightarrow> (bool \<times> client) cres" where
  "next_request cfg c =
     cbind (if reqtype c = 0 then
              cbind (rd (sds_buf (querybuf c)) (qb_pos c)) (\<lambda>b.
              Inr (c\<lparr>reqtype := (if b = 42 then PROTO_REQ_MULTIBULK else PROTO_REQ_INLINE)\<rparr>))
            else Inr c) (\<lambda>c.
     if reqtype c = PROTO_REQ_INLINE then processInlineBuffer cfg c
     else if reqtype c = PROTO_REQ_MULTIBULK then processMultibulkBuffer cfg c
     else Inl AssertFailed)"

text \<open>After a command: the offset of the replication stream, and the reset. They use the client, so after \<open>C_OK\<close> it must still exist.\<close>

definition after_command :: "'s cmd_result \<Rightarrow> client \<Rightarrow> client" where
  "after_command r c =
     (let c = c\<lparr>client_flags := r_flags r\<rparr> in
      if r_ok r then
        let c = (if CLIENT_MASTER (client_flags c) \<and> \<not> CLIENT_MULTI (client_flags c)
                 then c\<lparr>reploff := read_reploff c - int (sdslen (querybuf c)) + int (qb_pos c)\<rparr> else c) in
        if \<not> CLIENT_BLOCKED (client_flags c) \<or> \<not> BLOCKED_MODULE (client_flags c) then resetClient c else c
      else c)"

text \<open>One turn of the loop: the loop is left, or it goes on.\<close>

datatype 's turn = Leave 's client bool | Again 's client

definition input_turn :: "proto_cfg \<Rightarrow> 's runner \<Rightarrow> 's \<Rightarrow> client \<Rightarrow> 's turn cres" where
  "input_turn cfg processCommand st c =
     (if \<not> qb_pos c < sdslen (querybuf c) then Inr (Leave st c True)
      else if must_wait cfg (client_flags c) then Inr (Leave st c True)
      else
        cbind (next_request cfg c) (\<lambda>(ok, c).
        if \<not> ok then Inr (Leave st c True)
        else if argv c = [] then Inr (Again st (resetClient c))
        else
          let r = processCommand st (argv c) (client_flags c) in
          if r_ok r \<and> \<not> r_alive r then Inl BadPointer
          else Inr (if \<not> r_alive r then Leave (r_state r) (after_command r c) False else Again (r_state r) (after_command r c))))"

partial_function (option) input_loop :: "proto_cfg \<Rightarrow> 's runner \<Rightarrow> 's \<Rightarrow> client \<Rightarrow> ('s \<times> client \<times> bool) cres option" where
  "input_loop cfg processCommand st c =
     (case input_turn cfg processCommand st c of
        Inl f \<Rightarrow> Some (Inl f)
      | Inr t \<Rightarrow> (case t of Leave st c alive \<Rightarrow> Some (Inr (st, c, alive)) | Again st c \<Rightarrow> input_loop cfg processCommand st c))"

definition processInputBuffer :: "proto_cfg \<Rightarrow> 's runner \<Rightarrow> 's \<Rightarrow> client \<Rightarrow> ('s \<times> client \<times> bool) cres option" where
  "processInputBuffer cfg processCommand st c =
     obind (input_loop cfg processCommand st c) (\<lambda>(st, c, alive).
     if alive \<and> qb_pos c \<noteq> 0 then
       obind (Some (sdsrange (querybuf c) (int (qb_pos c)) (-1))) (\<lambda>q. Some (Inr (st, c\<lparr>querybuf := q, qb_pos := 0\<rparr>, alive)))
     else Some (Inr (st, c, alive)))"

text \<open>A master's stream is passed on as far as it was applied. The bytes passed on are the third component.\<close>

definition processInputBufferAndReplicate ::
  "proto_cfg \<Rightarrow> 's runner \<Rightarrow> 's \<Rightarrow> client \<Rightarrow> ('s \<times> client option \<times> byte list) cres option" where
  "processInputBufferAndReplicate cfg processCommand st c =
     obind (processInputBuffer cfg processCommand st c) (\<lambda>(st, c', alive).
     if \<not> alive then Some (Inr (st, None, []))
     else if \<not> CLIENT_MASTER (client_flags c) then Some (Inr (st, Some c', []))
     else
       let applied = nat ((reploff c' - reploff c) mod 2 ^ 64) in
       if applied = 0 then Some (Inr (st, Some c', []))
       else
         obind (Some (peek (pending_querybuf c') 0 applied)) (\<lambda>fed.
         obind (Some (sdsrange (pending_querybuf c') (int applied) (-1))) (\<lambda>q.
         Some (Inr (st, Some (c'\<lparr>pending_querybuf := q\<rparr>), fed)))))"

datatype read_result = ReadAgain | ReadError | ReadEof | ReadData "byte list"

definition read_len :: "client \<Rightarrow> nat" where
  "read_len c =
     (if reqtype c = PROTO_REQ_MULTIBULK \<and> multibulklen c \<noteq> 0 \<and> bulklen c \<noteq> -1 \<and> bulklen c \<ge> PROTO_MBULK_BIG_ARG then
        let remaining = sint (word_of_int (bulklen c + 2 - int (sdslen (querybuf c))) :: 64 word) in
        if remaining > 0 \<and> remaining < int PROTO_IOBUF_LEN then nat remaining else PROTO_IOBUF_LEN
      else PROTO_IOBUF_LEN)"

text \<open>The kernel is asked for some bytes; \<open>None\<close> for the client after it is freed.\<close>

definition readQueryFromClient ::
  "proto_cfg \<Rightarrow> 's runner \<Rightarrow> (nat \<Rightarrow> read_result) \<Rightarrow> 's \<Rightarrow> client \<Rightarrow> ('s \<times> client option \<times> byte list) cres option" where
  "readQueryFromClient cfg processCommand sock st c =
     (let readlen = read_len c; qblen = sdslen (querybuf c);
          c = (if querybuf_peak c < qblen then c\<lparr>querybuf_peak := qblen\<rparr> else c) in
      obind (Some (sdsMakeRoomFor (fresh_mem cfg) (querybuf c) readlen)) (\<lambda>q.
      case sock readlen of
        ReadAgain \<Rightarrow> Some (Inr (st, Some (c\<lparr>querybuf := q\<rparr>), []))
      | ReadError \<Rightarrow> Some (Inr (st, None, []))
      | ReadEof \<Rightarrow> Some (Inr (st, None, []))
      | ReadData bs \<Rightarrow>
          obind (Some (poke q qblen bs)) (\<lambda>q.
          obind (Some (if CLIENT_MASTER (client_flags c) then sdscatlen (fresh_mem cfg) (pending_querybuf c) bs else Inr (pending_querybuf c))) (\<lambda>pq.
          obind (Some (sdsIncrLen q (int (length bs)))) (\<lambda>q.
          let c = c\<lparr>querybuf := q, pending_querybuf := pq, lastinteraction := unixtime cfg,
                    read_reploff := read_reploff c + (if CLIENT_MASTER (client_flags c) then int (length bs) else 0)\<rparr> in
          if sdslen (querybuf c) > client_max_querybuf_len cfg then Some (Inr (st, None, []))
          else processInputBufferAndReplicate cfg processCommand st c)))))"

end
