(* ===== verification/NetworkingOk.thy ===== *)
theory NetworkingOk
  imports Networking
begin

text \<open>
  What the parts of the parser do to the bytes not yet parsed.
\<close>

section \<open>The view of the buffer\<close>

definition view :: "client \<Rightarrow> byte list" where
  "view c = drop (qb_pos c) (sds_str (querybuf c))"

definition buf_ok :: "client \<Rightarrow> bool" where
  "buf_ok c \<longleftrightarrow> sds_ok (querybuf c) \<and> qb_pos c \<le> sdslen (querybuf c) \<and> sdslen (querybuf c) < 2 ^ 60"

text \<open>Some bytes were taken from the buffer, which may have been moved.\<close>

definition moved :: "nat \<Rightarrow> client \<Rightarrow> client \<Rightarrow> bool" where
  "moved n c c' \<longleftrightarrow> buf_ok c' \<and> view c' = drop n (view c) \<and> sdslen (querybuf c') \<le> sdslen (querybuf c)"

lemma length_view: "buf_ok c \<Longrightarrow> length (view c) = sdslen (querybuf c) - qb_pos c"
  by (simp add: view_def buf_ok_def length_sds_str)

lemma unparsed_view: "buf_ok c \<Longrightarrow> unparsed c = length (view c)"
proof -
  assume ok: "buf_ok c"
  then have "int (sdslen (querybuf c)) - int (qb_pos c) = int (length (view c))" "length (view c) < 2 ^ 64"
    using length_view [OF ok] by (auto simp: buf_ok_def of_nat_diff)
  then show ?thesis by (simp add: unparsed_def)
qed

lemma buf_split: "sds_ok q \<Longrightarrow> \<exists>junk. sds_buf q = sds_str q @ 0 # junk"
  using id_take_nth_drop [of "len_field q" "sds_buf q"] by (auto simp: sds_ok_def sds_str_def)

lemma buf_view: "buf_ok c \<Longrightarrow> \<exists>junk. drop (qb_pos c) (sds_buf (querybuf c)) = view c @ 0 # junk"
proof -
  assume ok: "buf_ok c"
  then obtain junk where "sds_buf (querybuf c) = sds_str (querybuf c) @ 0 # junk" using buf_split by (auto simp: buf_ok_def)
  then show ?thesis using ok by (simp add: view_def buf_ok_def length_sds_str)
qed

text \<open>The position of a byte in the view, before any zero byte.\<close>

definition find_byte :: "byte \<Rightarrow> byte list \<Rightarrow> nat option" where
  "find_byte ch v = (let k = length (takeWhile (\<lambda>b. b \<noteq> 0 \<and> b \<noteq> ch) v) in if k < length v \<and> v ! k = ch then Some k else None)"

lemma scan_stops: "p z \<Longrightarrow> scan p (xs @ z # ys) = Inr (length (takeWhile (\<lambda>b. \<not> p b) xs))"
  by (induction xs) auto

lemma strchr_view:
  assumes ok: "buf_ok c" and ch: "ch \<noteq> 0"
  shows "strchr (sds_buf (querybuf c)) (qb_pos c) ch = Inr (map_option (\<lambda>k. qb_pos c + k) (find_byte ch (view c)))"
proof -
  obtain junk where d: "drop (qb_pos c) (sds_buf (querybuf c)) = view c @ 0 # junk" using buf_view [OF ok] by blast
  let ?k = "length (takeWhile (\<lambda>b. b \<noteq> 0 \<and> b \<noteq> ch) (view c))"
  have s: "scan (\<lambda>b. b = 0 \<or> b = ch) (view c @ 0 # junk) = Inr ?k" using scan_stops [of "\<lambda>b. b = 0 \<or> b = ch" 0 "view c" junk] by simp
  have n: "sds_buf (querybuf c) ! (qb_pos c + ?k) = (view c @ 0 # junk) ! ?k"
    unfolding d [symmetric] using ok by (simp add: buf_ok_def sds_ok_def sdslen_def)
  have k: "?k \<le> length (view c)" by (rule length_takeWhile_le)
  show ?thesis unfolding strchr_def scan_from_def d s cbind_Inr n find_byte_def Let_def
    using k ch by (cases "?k < length (view c)") (auto simp: nth_append)
qed

lemma find_byte_less: "find_byte ch v = Some k \<Longrightarrow> k < length v \<and> v ! k = ch"
  by (auto simp: find_byte_def Let_def split: if_splits)

lemma peek_view:
  assumes "buf_ok c" and "j + n \<le> length (view c)"
  shows "peek (querybuf c) (qb_pos c + j) n = Inr (take n (drop j (view c)))"
proof -
  have l: "qb_pos c + j + n \<le> sdslen (querybuf c)" using assms length_view [OF assms(1)] by (simp add: buf_ok_def) linarith
  then have "peek (querybuf c) (qb_pos c + j) n = Inr (take n (drop (qb_pos c + j) (sds_buf (querybuf c))))"
    using assms(1) by (intro peek_ok) (simp add: buf_ok_def sds_ok_def sdslen_def)
  moreover have "take n (drop (qb_pos c + j) (sds_buf (querybuf c))) = take n (drop j (view c))"
    using l by (simp add: view_def sds_str_def sdslen_def drop_take min_def add.commute)
  ultimately show ?thesis by simp
qed

lemma rd_view: "buf_ok c \<Longrightarrow> view c \<noteq> [] \<Longrightarrow> rd (sds_buf (querybuf c)) (qb_pos c) = Inr (hd (view c))"
proof -
  assume ok: "buf_ok c" and ne: "view c \<noteq> []"
  have "qb_pos c < sdslen (querybuf c)" using length_view [OF ok] ne by (cases "view c") auto
  then show ?thesis using ok by (simp add: rd_def view_def buf_ok_def sds_ok_def sdslen_def sds_str_def hd_drop_conv_nth)
qed

text \<open>Moving the position.\<close>

lemma moved_pos:
  assumes "buf_ok c" and "n \<le> length (view c)"
  shows "moved n c (c\<lparr>qb_pos := qb_pos c + n\<rparr>)"
  using assms length_view [OF assms(1)] by (auto simp: moved_def buf_ok_def view_def add.commute)

lemma moved_trans: "moved m c c' \<Longrightarrow> moved n c' c'' \<Longrightarrow> moved (m + n) c c''"
  by (auto simp: moved_def add.commute)

section \<open>Lines with a count\<close>

definition count_line :: "byte list \<Rightarrow> nat option" where
  "count_line v = (case find_byte 13 v of None \<Rightarrow> None | Some k \<Rightarrow> if k + 2 \<le> length v then Some k else None)"

lemma count_line_less: "count_line v = Some k \<Longrightarrow> k + 2 \<le> length v \<and> v ! k = 13"
  by (auto simp: count_line_def dest: find_byte_less split: option.splits if_splits)

text \<open>Waiting for more of a line leaves the client as it is, or marks it for closing when the line is too long.\<close>

definition waits :: "proto_error \<Rightarrow> client \<Rightarrow> client \<Rightarrow> bool" where
  "waits e c c' \<longleftrightarrow> c' = c \<or> c' = setProtocolError e c \<and> PROTO_INLINE_MAX_SIZE < length (view c)"

lemma room_sint: "buf_ok c \<Longrightarrow> sint (word_of_int (int (sdslen (querybuf c)) - int (qb_pos c) - 2) :: 64 word) = int (length (view c)) - 2"
proof -
  assume ok: "buf_ok c"
  then have "int (sdslen (querybuf c)) - int (qb_pos c) = int (length (view c))" "length (view c) < 2 ^ 60"
    using length_view [OF ok] by (auto simp: buf_ok_def of_nat_diff)
  then show ?thesis unfolding sint_sbintrunc' by (simp add: signed_take_bit_int_eq_self)
qed

lemma find_cr_view:
  assumes "buf_ok c"
  shows "case count_line (view c) of
      Some k \<Rightarrow> find_cr e c = Inr (Some (qb_pos c + k), c)
    | None \<Rightarrow> \<exists>c'. find_cr e c = Inr (None, c') \<and> waits e c c'"
  using strchr_view [OF assms, of 13] unfolding find_cr_def room_sint [OF assms] unparsed_view [OF assms]
  by (auto simp: count_line_def waits_def split: option.splits)

lemma multibulk_header_wait:
  assumes "buf_ok c" and "multibulklen c = 0" and "argv c = []" and "count_line (view c) = None"
  shows "\<exists>c'. multibulk_header c = Inr (Return False c') \<and> waits TooBigMbulkCount c c'"
  using find_cr_view [OF assms(1), of TooBigMbulkCount] assms(2-4) by (auto simp: multibulk_header_def)

lemma count_line_tail:
  assumes "buf_ok c" and k: "count_line (view c) = Some k" and "hd (view c) = b" and "b \<noteq> 13"
  shows "view c \<noteq> []" "1 \<le> k" "k + 2 \<le> length (view c)" "peek (querybuf c) (qb_pos c + 1) (k - 1) = Inr (take (k - 1) (tl (view c)))"
proof -
  show l: "k + 2 \<le> length (view c)" and ne: "view c \<noteq> []" using count_line_less [OF k] by auto
  have "view c ! 0 = b" using assms(3) ne by (simp add: hd_conv_nth)
  then show k1: "1 \<le> k" using count_line_less [OF k] assms(4) by (cases k) auto
  show "peek (querybuf c) (qb_pos c + 1) (k - 1) = Inr (take (k - 1) (tl (view c)))" using peek_view [OF assms(1), of 1 "k - 1"] l k1 by (simp add: drop_Suc)
qed

lemma multibulk_header_line:
  assumes ok: "buf_ok c" and new: "multibulklen c = 0" "argv c = []" and k: "count_line (view c) = Some k" and star: "hd (view c) = 42"
  shows "multibulk_header c = Inr (
    case string2ll (take (k - 1) (tl (view c))) of
      None \<Rightarrow> Return False (setProtocolError InvalidMbulkLen c)
    | Some ll \<Rightarrow>
        if ll > 1024 * 1024 then Return False (setProtocolError InvalidMbulkLen c)
        else if ll \<le> 0 then Return True (c\<lparr>qb_pos := qb_pos c + (k + 2)\<rparr>)
        else Proceed (c\<lparr>qb_pos := qb_pos c + (k + 2), multibulklen := nat ll, argv_size := nat ll\<rparr>))"
proof -
  have f: "find_cr TooBigMbulkCount c = Inr (Some (qb_pos c + k), c)" using find_cr_view [OF ok, of TooBigMbulkCount] k by simp
  have t: "view c \<noteq> []" "1 \<le> k" "k + 2 \<le> length (view c)" "peek (querybuf c) (qb_pos c + 1) (k - 1) = Inr (take (k - 1) (tl (view c)))"
    using count_line_tail [OF ok k star] by simp_all
  have j: "qb_pos c + k - (qb_pos c + 1) = k - 1" by simp
  show ?thesis unfolding multibulk_header_def f cbind_Inr prod.case option.case rd_view [OF ok t(1), simplified] j t(4) star
    by (simp add: new Let_def add.assoc split: option.split)
qed

definition same_but_buffer :: "client \<Rightarrow> client \<Rightarrow> bool" where
  "same_but_buffer c c' \<longleftrightarrow> c' = c\<lparr>querybuf := querybuf c', qb_pos := qb_pos c'\<rparr>"

lemma same_but_bufferD: "same_but_buffer c c' \<Longrightarrow> \<exists>q p. c' = c\<lparr>querybuf := q, qb_pos := p\<rparr>"
  by (auto simp: same_but_buffer_def)

lemma bulk_header_wait:
  assumes "buf_ok c" and "bulklen c = -1" and "count_line (view c) = None"
  shows "\<exists>c'. bulk_header cfg c = Inr (Return False c') \<and> waits TooBigBulkCount c c'"
  using find_cr_view [OF assms(1), of TooBigBulkCount] assms(2-3) by (auto simp: bulk_header_def)

lemma bulk_header_bad:
  assumes ok: "buf_ok c" and new: "bulklen c = -1" and k: "count_line (view c) = Some k"
    and bad: "hd (view c) \<noteq> 36 \<or> (case string2ll (take (k - 1) (tl (view c))) of None \<Rightarrow> True | Some ll \<Rightarrow> ll < 0 \<or> ll > proto_max_bulk_len cfg)"
  shows "\<exists>e. bulk_header cfg c = Inr (Return False (setProtocolError e c))"
proof -
  have f: "find_cr TooBigBulkCount c = Inr (Some (qb_pos c + k), c)" using find_cr_view [OF ok, of TooBigBulkCount] k by simp
  have ne: "view c \<noteq> []" using count_line_less [OF k] by auto
  have j: "qb_pos c + k - (qb_pos c + 1) = k - 1" by simp
  show ?thesis
  proof (cases "hd (view c) = 36")
    case True
    have p: "peek (querybuf c) (qb_pos c + 1) (k - 1) = Inr (take (k - 1) (tl (view c)))" using count_line_tail [OF ok k True] by simp
    show ?thesis unfolding bulk_header_def f cbind_Inr prod.case option.case rd_view [OF ok ne] j p
      using bad new True by (auto split: option.split)
  next
    case False
    then show ?thesis unfolding bulk_header_def f cbind_Inr prod.case option.case rd_view [OF ok ne] using new by auto
  qed
qed

section \<open>Bulk strings\<close>

lemma sdsrange_tail:
  assumes "sds_ok q" and "p \<le> sdslen q" and "sdslen q < 2 ^ 60"
  shows "\<exists>q'. sdsrange q (int p) (-1) = Inr q' \<and> sds_ok q' \<and> sds_str q' = drop p (sds_str q)"
proof -
  have l: "length (sds_str q) = sdslen q" using length_sds_str [OF assms(1)] .
  have "slice (sds_str q) (int p) (-1) = drop p (sds_str q)" using assms(2,3) by (auto simp: slice_def Let_def l nat_diff_distrib)
  then show ?thesis using sdsrange_ok [OF assms(1), of "int p" "-1"] assms(3) by auto
qed

lemma sdsIncrLen_back:
  assumes "sds_ok q" and "2 \<le> sdslen q" and "sdslen q < 2 ^ 60"
  shows "\<exists>q'. sdsIncrLen q (-2) = Inr q' \<and> sds_str q' = take (sdslen q - 2) (sds_str q)"
proof -
  let ?n = "sdslen q - 2"
  have l: "len_field q = sdslen q" by (simp add: sdslen_def)
  have n: "nat ((int (sdslen q) + - 2) mod 2 ^ 64) = ?n" using assms(2,3) by (simp add: nat_diff_distrib)
  have len: "?n < length (sds_buf q)" "len_field (sdssetlen q ?n) = ?n" using assms(1,2) by (auto simp: sds_ok_def sdssetlen_def sdslen_def)
  have b: "sds_buf (sdssetlen q ?n) = sds_buf q" by (simp add: sdssetlen_def)
  have "sdsIncrLen q (-2) = poke (sdssetlen q ?n) ?n [0]" using assms(2) unfolding sdsIncrLen_def l n Let_def by (simp add: len(2))
  also have "\<dots> = Inr ((sdssetlen q ?n)\<lparr>sds_buf := store_at (sds_buf q) ?n [0]\<rparr>)" using poke_ok [of ?n "[0]" "sdssetlen q ?n"] len b by simp
  finally show ?thesis using len by (auto simp: sds_str_def store_at_def l)
qed

lemma bulk_header_line:
  assumes ok: "buf_ok c" and new: "bulklen c = -1" and k: "count_line (view c) = Some k" and dollar: "hd (view c) = 36"
    and ll: "string2ll (take (k - 1) (tl (view c))) = Some ll" "0 \<le> ll" "ll \<le> proto_max_bulk_len cfg" and max: "proto_max_bulk_len cfg < 2 ^ 60"
  shows "\<exists>c'. bulk_header cfg c = Inr (Proceed (c'\<lparr>bulklen := ll\<rparr>)) \<and> moved (k + 2) c c' \<and> same_but_buffer c c'"
proof -
  have f: "find_cr TooBigBulkCount c = Inr (Some (qb_pos c + k), c)" using find_cr_view [OF ok, of TooBigBulkCount] k by simp
  have t: "view c \<noteq> []" "1 \<le> k" "k + 2 \<le> length (view c)" "peek (querybuf c) (qb_pos c + 1) (k - 1) = Inr (take (k - 1) (tl (view c)))"
    using count_line_tail [OF ok k dollar] by simp_all
  have j: "qb_pos c + k - (qb_pos c + 1) = k - 1" "qb_pos c + k + 2 = qb_pos c + (k + 2)" by simp_all
  let ?c = "c\<lparr>qb_pos := qb_pos c + (k + 2)\<rparr>"
  have m: "moved (k + 2) c ?c" using moved_pos [OF ok t(3)] .
  let ?big = "if ll \<ge> PROTO_MBULK_BIG_ARG \<and> int (unparsed ?c) \<le> ll + 2 then
      cbind (sdsrange (querybuf ?c) (int (qb_pos ?c)) (-1)) (\<lambda>q. cbind (sdsMakeRoomFor (fresh_mem cfg) q (nat ll + 2)) (\<lambda>q. Inr (?c\<lparr>querybuf := q, qb_pos := 0\<rparr>)))
    else Inr ?c"
  have h: "bulk_header cfg c = cbind ?big (\<lambda>c. Inr (Proceed (c\<lparr>bulklen := ll\<rparr>)))"
    unfolding bulk_header_def f cbind_Inr prod.case option.case rd_view [OF ok t(1)] j t(4) ll(1) Let_def dollar using new ll(2,3) by simp
  have "\<exists>c'. ?big = Inr c' \<and> moved (k + 2) c c' \<and> same_but_buffer c c'"
  proof (cases "ll \<ge> PROTO_MBULK_BIG_ARG \<and> int (unparsed ?c) \<le> ll + 2")
    case True
    obtain q where q: "sdsrange (querybuf ?c) (int (qb_pos ?c)) (-1) = Inr q" "sds_ok q" "sds_str q = view ?c"
      using sdsrange_tail [of "querybuf ?c" "qb_pos ?c"] m by (auto simp: moved_def buf_ok_def view_def)
    have l: "sdslen q = length (view ?c)" using length_sds_str [OF q(2)] q(3) by simp
    have lv: "length (view ?c) \<le> sdslen (querybuf c)" using m length_view [of ?c] by (auto simp: moved_def)
    have "nat ll < 2 ^ 60" using ll(2,3) max by (simp add: nat_less_iff)
    then have "sdslen q + (nat ll + 2) < 2 ^ 62" using lv ok by (simp add: l buf_ok_def)
    then obtain q2 where q2: "sdsMakeRoomFor (fresh_mem cfg) q (nat ll + 2) = Inr q2" "sds_ok q2" "sds_str q2 = sds_str q" "sdslen q2 = sdslen q"
      using sdsMakeRoomFor_ok [OF q(2)] by blast
    have "moved (k + 2) c (?c\<lparr>querybuf := q2, qb_pos := 0\<rparr>)"
      using m q2 q(3) l lv ok by (auto simp: moved_def buf_ok_def view_def)
    then show ?thesis using True q(1) q2(1) by (auto simp: same_but_buffer_def)
  next
    case False
    then show ?thesis using m by (auto simp: same_but_buffer_def)
  qed
  then show ?thesis unfolding h by auto
qed

lemma bulk_data_short: "buf_ok c \<Longrightarrow> int (length (view c)) < bulklen c + 2 \<Longrightarrow> bulk_data cfg c = Inr (Return False c)"
  by (simp add: bulk_data_def unparsed_view)

lemma bulk_data_full:
  assumes ok: "buf_ok c" and n: "bulklen c = int n" and len: "n + 2 \<le> length (view c)" and room: "length (argv c) < argv_size c"
  shows "\<exists>c' obj. bulk_data cfg c = Inr (Proceed (c'\<lparr>argv := argv c @ [obj], bulklen := -1, multibulklen := multibulklen c - 1\<rparr>)) \<and>
    moved (n + 2) c c' \<and> same_but_buffer c c' \<and> obj_str obj = take n (view c)"
proof (cases "qb_pos c = 0 \<and> bulklen c \<ge> PROTO_MBULK_BIG_ARG \<and> int (sdslen (querybuf c)) = bulklen c + 2")
  case True
  have s: "sdslen (querybuf c) = n + 2" "view c = sds_str (querybuf c)" using True n by (simp_all add: view_def)
  obtain q where q: "sdsIncrLen (querybuf c) (-2) = Inr q" "sds_str q = take n (view c)"
    using sdsIncrLen_back [of "querybuf c"] ok s by (auto simp: buf_ok_def)
  let ?new = "map (fresh_mem cfg) [0..<n + 2]"
  obtain q2 where q2: "sdsnewlen (fresh_mem cfg) (Some ?new) (n + 2) = Inr q2" "sds_ok q2"
    using sdsnewlen_ok [of ?new "fresh_mem cfg"] ok s(1) by (auto simp: buf_ok_def)
  obtain q3 where q3: "sdsclear q2 = Inr q3" "sds_ok q3" "sds_str q3 = []" using sdsclear_ok [OF q2(2)] by blast
  have l3: "sdslen q3 = 0" using length_sds_str [OF q3(2)] q3(3) by simp
  have v: "length (view c) = n + 2" using length_view [OF ok] s(1) True by simp
  have m: "moved (n + 2) c (c\<lparr>querybuf := q3\<rparr>)" using q3 l3 True v by (simp add: moved_def buf_ok_def view_def)
  have nn: "nat (bulklen c + 2) = n + 2" using n by simp
  have "bulk_data cfg c = Inr (Proceed (c\<lparr>querybuf := q3, argv := argv c @ [RawStr (sds_str q)], bulklen := -1, multibulklen := multibulklen c - 1\<rparr>))"
    unfolding bulk_data_def if_P [OF True] q(1) cbind_Inr put_arg_def if_P [OF room] Let_def
    using len n nn q2(1) q3(1) by (simp add: unparsed_view [OF ok])
  then show ?thesis using m q(2) by (intro exI [of _ "c\<lparr>querybuf := q3\<rparr>"] exI [of _ "RawStr (sds_str q)"]) (simp add: same_but_buffer_def)
next
  case False
  have nn: "nat (bulklen c) = n" "nat (bulklen c + 2) = n + 2" using n by simp_all
  have p: "peek (querybuf c) (qb_pos c) n = Inr (take n (view c))" using peek_view [OF ok, of 0 n] len by simp
  let ?c = "c\<lparr>qb_pos := qb_pos c + (n + 2)\<rparr>" and ?o = "createStringObject (take n (view c))"
  have "bulk_data cfg c = Inr (Proceed (?c\<lparr>argv := argv c @ [?o], bulklen := -1, multibulklen := multibulklen c - 1\<rparr>))"
    unfolding bulk_data_def if_not_P [OF False] nn p cbind_Inr put_arg_def if_P [OF room] using len n by (simp add: unparsed_view [OF ok])
  moreover have "obj_str ?o = take n (view c)" by (simp add: createStringObject_def)
  ultimately show ?thesis using moved_pos [OF ok len] by (intro exI [of _ ?c] exI [of _ ?o]) (simp add: same_but_buffer_def)
qed

section \<open>Inline commands\<close>

lemma sdsnewlen_buf:
  assumes "length t < 2 ^ 62"
  shows "\<exists>s. sdsnewlen junk (Some t) (length t) = Inr s \<and> sds_buf s = t @ [0]"
proof -
  obtain s where s: "sdsnewlen junk (Some t) (length t) = Inr s" "sds_ok s" "sds_str s = t" using sdsnewlen_ok [OF assms] by blast
  have "length (sds_buf s) = length t + 1"
    using s(1) by (auto simp: sdsnewlen_def Let_def poke_def blit_def cbind_eq_Inr_iff split: if_splits)
  moreover obtain tail where "sds_buf s = t @ 0 # tail" using buf_split [OF s(2)] s(3) by auto
  ultimately show ?thesis using s(1) by auto
qed

text \<open>The line that ends at the line feed, without the carriage return before it.\<close>

definition cr_before :: "byte list \<Rightarrow> nat \<Rightarrow> bool" where
  "cr_before v k \<longleftrightarrow> k \<noteq> 0 \<and> v ! (k - 1) = 13"

definition inline_text :: "byte list \<Rightarrow> nat \<Rightarrow> byte list" where
  "inline_text v k = take (k - of_bool (cr_before v k)) v"

lemma inline_wait:
  assumes "buf_ok c" and "find_byte 10 (view c) = None"
  shows "\<exists>c'. processInlineBuffer cfg c = Inr (False, c') \<and> waits TooBigInline c c'"
  using strchr_view [OF assms(1), of 10] assms by (auto simp: processInlineBuffer_def waits_def unparsed_view)

lemma inline_line:
  assumes ok: "buf_ok c" and k: "find_byte 10 (view c) = Some k"
  shows "processInlineBuffer cfg c = cbind (sdssplitargs (fresh_mem cfg) (inline_text (view c) k @ [0])) (\<lambda>args.
    case args of
      None \<Rightarrow> Inr (False, setProtocolError UnbalancedQuotes c)
    | Some args \<Rightarrow>
        Inr (True, c\<lparr>repl_ack_time := (if inline_text (view c) k = [] \<and> is_slave c then unixtime cfg else repl_ack_time c), qb_pos := qb_pos c + (k + 1),
          argv_size := (if args \<noteq> [] then length args else argv_size c), argv := map (\<lambda>v. RawStr (sds_str v)) args\<rparr>))"
proof -
  let ?p = "qb_pos c" and ?cr = "cr_before (view c) k"
  let ?n = "k - of_bool ?cr"
  have s: "strchr (sds_buf (querybuf c)) ?p 10 = Inr (Some (?p + k))" using strchr_view [OF ok, of 10] k by simp
  have kl: "k < length (view c)" using find_byte_less [OF k] by simp
  have cr: "(if ?p + k \<noteq> ?p then cbind (rd (sds_buf (querybuf c)) (?p + k - 1)) (\<lambda>b. Inr (b = 13)) else Inr False) = Inr ?cr"
  proof (cases "k = 0")
    case False
    have "?p + k < sdslen (querybuf c)" using kl length_view [OF ok] by linarith
    then have "?p + k - 1 < length (sds_buf (querybuf c))" "?p + k - 1 < len_field (querybuf c)"
      using ok by (simp_all only: buf_ok_def sds_ok_def sdslen_def) linarith+
    then have "rd (sds_buf (querybuf c)) (?p + k - 1) = Inr (view c ! (k - 1))" using False by (cases k) (simp_all add: rd_def view_def sds_str_def)
    then show ?thesis using False by (simp add: cr_before_def)
  qed (simp add: cr_before_def)
  have n: "?p + k - of_bool ?cr - ?p = ?n" by (simp add: cr_before_def)
  have n1: "?n + (1 + of_bool ?cr) = k + 1" by (simp add: cr_before_def)
  have pk: "peek (querybuf c) ?p ?n = Inr (inline_text (view c) k)" using peek_view [OF ok, of 0 ?n] kl by (simp add: inline_text_def)
  have tl: "length (inline_text (view c) k) = ?n" using kl by (simp add: inline_text_def)
  have "length (view c) < 2 ^ 62" using ok length_view [OF ok] by (simp add: buf_ok_def) linarith
  then have "length (inline_text (view c) k) < 2 ^ 62" using kl by (simp add: inline_text_def)
  then obtain aux where aux: "sdsnewlen (fresh_mem cfg) (Some (inline_text (view c) k)) ?n = Inr aux" "sds_buf aux = inline_text (view c) k @ [0]"
    using sdsnewlen_buf [of "inline_text (view c) k" "fresh_mem cfg"] tl by auto
  have z: "?n = 0 \<longleftrightarrow> inline_text (view c) k = []" using tl by auto
  show ?thesis unfolding processInlineBuffer_def Let_def s cbind_Inr option.case cr n n1 pk aux z
    by (rule cbind_cong [OF refl]) (auto split: option.split)
qed

section \<open>Arbitrary input\<close>

text \<open>Between two reads, a client that may go on is in the middle of at most one request.\<close>

definition parse_ok :: "client \<Rightarrow> bool" where
  "parse_ok c \<longleftrightarrow> reqtype c \<in> {0, PROTO_REQ_INLINE, PROTO_REQ_MULTIBULK} \<and> -1 \<le> bulklen c \<and>
     (if multibulklen c = 0 then argv c = [] else reqtype c = PROTO_REQ_MULTIBULK \<and> length (argv c) + multibulklen c \<le> argv_size c) \<and>
     (reqtype c = PROTO_REQ_MULTIBULK \<and> multibulklen c = 0 \<longrightarrow> view c \<noteq> [] \<and> hd (view c) = 42)"

text \<open>What a step of the parser may do to the buffer and leaves alone.\<close>

definition advances :: "client \<Rightarrow> client \<Rightarrow> bool" where
  "advances c c' \<longleftrightarrow> buf_ok c' \<and> (\<exists>n. view c' = drop n (view c)) \<and> sdslen (querybuf c') \<le> sdslen (querybuf c) \<and>
     reqtype c' = reqtype c \<and> CLIENT_MASTER (client_flags c') = CLIENT_MASTER (client_flags c) \<and> pending_querybuf c' = pending_querybuf c \<and>
     (CLIENT_CLOSE_AFTER_REPLY (client_flags c) \<longrightarrow> CLIENT_CLOSE_AFTER_REPLY (client_flags c'))"

lemma advances_refl: "buf_ok c \<Longrightarrow> advances c c"
  by (auto simp: advances_def intro: exI [of _ 0])

lemma advances_trans: "advances c c' \<Longrightarrow> advances c' c'' \<Longrightarrow> advances c c''"
  by (auto simp: advances_def)

lemma advances_moved: "buf_ok c \<Longrightarrow> moved n c c' \<Longrightarrow> same_but_buffer c c' \<Longrightarrow> advances c c'"
  by (drule same_but_bufferD) (auto simp: advances_def moved_def)

lemma error_keeps [simp]:
  "buf_ok (setProtocolError e c) = buf_ok c" "view (setProtocolError e c) = view c" "querybuf (setProtocolError e c) = querybuf c"
  "CLIENT_CLOSE_AFTER_REPLY (client_flags (setProtocolError e c))" "multibulklen (setProtocolError e c) = multibulklen c"
  by (simp_all add: setProtocolError_def buf_ok_def view_def)

lemma advances_error: "buf_ok c \<Longrightarrow> advances c (setProtocolError e c)"
  by (auto simp: advances_def) (auto simp: setProtocolError_def intro: exI [of _ 0])

definition same_args :: "client \<Rightarrow> client \<Rightarrow> bool" where
  "same_args c c' \<longleftrightarrow> argv c' = argv c \<and> argv_size c' = argv_size c \<and> multibulklen c' = multibulklen c"

lemma same_args_trans: "same_args c c' \<Longrightarrow> same_args c' c'' \<Longrightarrow> same_args c c''"
  by (simp add: same_args_def)

lemma waits_safe: "waits e c c' \<Longrightarrow> buf_ok c \<Longrightarrow> advances c c' \<and> same_args c c' \<and> bulklen c' = bulklen c"
  using advances_error advances_refl by (auto simp: waits_def same_args_def) (simp_all add: setProtocolError_def)

lemma advances_bulklen: "advances c c' \<Longrightarrow> advances c (c'\<lparr>bulklen := l\<rparr>)"
  by (simp add: advances_def buf_ok_def view_def)

lemma bulk_header_safe:
  assumes ok: "buf_ok c" and l: "-1 \<le> bulklen c" and max: "proto_max_bulk_len cfg < 2 ^ 60"
  shows "\<exists>c'. advances c c' \<and> same_args c c' \<and>
    (bulk_header cfg c = Inr (Return False c') \<and> bulklen c' = bulklen c \<or> bulk_header cfg c = Inr (Proceed c') \<and> 0 \<le> bulklen c')"
proof (cases "bulklen c = -1")
  case False
  then show ?thesis using l advances_refl [OF ok] by (intro exI [of _ c]) (simp add: bulk_header_def same_args_def)
next
  case new: True
  show ?thesis
  proof (cases "count_line (view c)")
    case None
    then show ?thesis using bulk_header_wait [OF ok new None, of cfg] waits_safe [OF _ ok] by blast
  next
    case (Some k)
    show ?thesis
    proof (cases "hd (view c) \<noteq> 36 \<or> (case string2ll (take (k - 1) (tl (view c))) of None \<Rightarrow> True | Some ll \<Rightarrow> ll < 0 \<or> ll > proto_max_bulk_len cfg)")
      case True
      then obtain e where "bulk_header cfg c = Inr (Return False (setProtocolError e c))" using bulk_header_bad [OF ok new Some] by blast
      then show ?thesis using advances_error [OF ok] by (intro exI [of _ "setProtocolError e c"]) (simp add: same_args_def, simp add: setProtocolError_def)
    next
      case False
      then obtain ll where ll: "string2ll (take (k - 1) (tl (view c))) = Some ll" "0 \<le> ll" "ll \<le> proto_max_bulk_len cfg" "hd (view c) = 36"
        by (auto split: option.splits)
      obtain c' where c': "bulk_header cfg c = Inr (Proceed (c'\<lparr>bulklen := ll\<rparr>))" "moved (k + 2) c c'" "same_but_buffer c c'"
        using bulk_header_line [OF ok new Some ll(4) ll(1-3) max] by blast
      have "same_args c (c'\<lparr>bulklen := ll\<rparr>)" using same_but_bufferD [OF c'(3)] by (auto simp: same_args_def)
      then show ?thesis using c'(1) ll(2) advances_bulklen [OF advances_moved [OF ok c'(2,3)]] by (intro exI [of _ "c'\<lparr>bulklen := ll\<rparr>"]) simp
    qed
  qed
qed

lemma bulk_loop_safe:
  assumes "buf_ok c" and "-1 \<le> bulklen c" and "length (argv c) + multibulklen c \<le> argv_size c" and "proto_max_bulk_len cfg < 2 ^ 60"
  shows "\<exists>ok c'. bulk_loop cfg c = Inr (ok, c') \<and> advances c c' \<and> -1 \<le> bulklen c' \<and> length (argv c') + multibulklen c' \<le> argv_size c' \<and>
    (ok \<longleftrightarrow> multibulklen c' = 0) \<and> (ok \<and> multibulklen c \<noteq> 0 \<longrightarrow> argv c' \<noteq> [] \<and> length (view c') < length (view c))"
  using assms
proof (induction "multibulklen c" arbitrary: c rule: less_induct)
  case less
  show ?case
  proof (cases "multibulklen c = 0")
    case True
    then show ?thesis using less.prems advances_refl [of c] by (subst bulk_loop.simps) auto
  next
    case mbl: False
    obtain c1 where a1: "advances c c1" "same_args c c1"
      and r1: "bulk_header cfg c = Inr (Return False c1) \<and> bulklen c1 = bulklen c \<or> bulk_header cfg c = Inr (Proceed c1) \<and> 0 \<le> bulklen c1"
      using bulk_header_safe [OF less.prems(1,2,4)] by blast
    have ok1: "buf_ok c1" using a1(1) by (simp add: advances_def)
    show ?thesis
    proof (cases "bulk_header cfg c = Inr (Return False c1)")
      case True
      then show ?thesis using r1 a1 mbl less.prems by (subst bulk_loop.simps) (auto simp: same_args_def)
    next
      case False
      then have h: "bulk_header cfg c = Inr (Proceed c1)" "0 \<le> bulklen c1" using r1 by auto
      define n where "n = nat (bulklen c1)"
      have n: "bulklen c1 = int n" using h(2) by (simp add: n_def)
      have u: "bulk_loop cfg c = cbind (bulk_data cfg c1) (\<lambda>p. case p of Return ok c \<Rightarrow> Inr (ok, c) | Proceed c \<Rightarrow> bulk_loop cfg c)"
        using mbl h(1) by (subst bulk_loop.simps) simp
      show ?thesis
      proof (cases "n + 2 \<le> length (view c1)")
        case False
        then have "bulk_data cfg c1 = Inr (Return False c1)" using n by (intro bulk_data_short [OF ok1]) simp
        then show ?thesis unfolding u using a1 mbl less.prems n by (auto simp: same_args_def)
      next
        case True
        have room: "length (argv c1) < argv_size c1" using a1(2) mbl less.prems(3) by (simp add: same_args_def)
        obtain c2 obj where d: "bulk_data cfg c1 = Inr (Proceed (c2\<lparr>argv := argv c1 @ [obj], bulklen := -1, multibulklen := multibulklen c1 - 1\<rparr>))"
            "moved (n + 2) c1 c2" "same_but_buffer c1 c2" using bulk_data_full [OF ok1 n True room] by blast
        let ?c = "c2\<lparr>argv := argv c1 @ [obj], bulklen := -1, multibulklen := multibulklen c1 - 1\<rparr>"
        have b2: "buf_ok ?c" "view ?c = drop (n + 2) (view c1)" "multibulklen ?c < multibulklen c" "argv_size ?c = argv_size c" "length (argv ?c) = length (argv c) + 1"
          using d(2) same_but_bufferD [OF d(3)] a1(2) mbl by (auto simp: moved_def buf_ok_def view_def same_args_def)
        have a2: "advances c ?c" using advances_trans [OF a1(1) advances_moved [OF ok1 d(2,3)]] by (simp add: advances_def buf_ok_def view_def)
        have lv: "length (view ?c) < length (view c)" using b2(2) True a1(1) by (auto simp: advances_def)
        have "\<exists>ok c'. bulk_loop cfg ?c = Inr (ok, c') \<and> advances ?c c' \<and> -1 \<le> bulklen c' \<and> length (argv c') + multibulklen c' \<le> argv_size c' \<and>
            (ok \<longleftrightarrow> multibulklen c' = 0) \<and> (ok \<and> multibulklen ?c \<noteq> 0 \<longrightarrow> argv c' \<noteq> [] \<and> length (view c') < length (view ?c))"
          using less.hyps [of ?c] b2 less.prems(3,4) mbl a1(2) by (simp add: same_args_def)
        then obtain ok c' where r: "bulk_loop cfg ?c = Inr (ok, c')" "advances ?c c'" "-1 \<le> bulklen c'" "length (argv c') + multibulklen c' \<le> argv_size c'"
            "ok \<longleftrightarrow> multibulklen c' = 0" "ok \<and> multibulklen ?c \<noteq> 0 \<longrightarrow> argv c' \<noteq> [] \<and> length (view c') < length (view ?c)" by blast
        have z: "ok \<longrightarrow> argv c' \<noteq> [] \<and> length (view c') < length (view c)"
        proof (cases "multibulklen ?c = 0")
          case True
          then have "c' = ?c" using r(1) by (subst (asm) bulk_loop.simps) simp
          then show ?thesis using lv by simp
        next
          case False
          then show ?thesis using r(6) lv by auto
        qed
        show ?thesis unfolding u d(1) using r z advances_trans [OF a2 r(2)] by auto
      qed
    qed
  qed
qed

end
