(* ===== verification/NetworkingSafe.thy ===== *)
theory NetworkingSafe
  imports NetworkingOk
begin

text \<open>
  Whatever a client sends, in whatever pieces, the parser reads and writes only its buffers, no assertion fails, and it comes to an end.
\<close>

section \<open>Requests\<close>

lemma multibulk_safe:
  assumes ok: "buf_ok c" and p: "parse_ok c" "reqtype c = PROTO_REQ_MULTIBULK" and max: "proto_max_bulk_len cfg < 2 ^ 60"
  shows "\<exists>ok c'. processMultibulkBuffer cfg c = Inr (ok, c') \<and> advances c c' \<and> (ok \<longrightarrow> length (view c') < length (view c)) \<and>
    (\<not> ok \<longrightarrow> parse_ok c' \<or> CLIENT_CLOSE_AFTER_REPLY (client_flags c'))"
proof -
  have loop: "\<exists>ok c'. bulk_loop cfg c1 = Inr (ok, c') \<and> advances c c' \<and> (ok \<longrightarrow> length (view c') < length (view c)) \<and> (\<not> ok \<longrightarrow> parse_ok c')"
    if c1: "advances c c1" "-1 \<le> bulklen c1" "length (argv c1) + multibulklen c1 \<le> argv_size c1" "multibulklen c1 \<noteq> 0" for c1
  proof -
    have b1: "buf_ok c1" using c1(1) by (simp add: advances_def)
    obtain ok c' where r: "bulk_loop cfg c1 = Inr (ok, c')" "advances c1 c'" "-1 \<le> bulklen c'" "length (argv c') + multibulklen c' \<le> argv_size c'"
        "ok \<longleftrightarrow> multibulklen c' = 0" "ok \<and> multibulklen c1 \<noteq> 0 \<longrightarrow> argv c' \<noteq> [] \<and> length (view c') < length (view c1)"
      using bulk_loop_safe [OF b1 c1(2,3) max] by blast
    have "reqtype c' = PROTO_REQ_MULTIBULK" using r(2) c1(1) p(2) by (simp add: advances_def)
    then have "\<not> ok \<longrightarrow> parse_ok c'" using r(3,4,5) by (simp add: parse_ok_def)
    moreover have "length (view c1) \<le> length (view c)" using c1(1) by (auto simp: advances_def)
    ultimately show ?thesis using r(1,6) c1(4) advances_trans [OF c1(1) r(2)] by auto
  qed
  show ?thesis
  proof (cases "multibulklen c = 0")
    case False
    then have h: "multibulk_header c = Inr (Proceed c)" by (simp add: multibulk_header_def)
    have "-1 \<le> bulklen c" "length (argv c) + multibulklen c \<le> argv_size c" using p False by (simp_all add: parse_ok_def)
    then show ?thesis using loop [OF advances_refl [OF ok]] False by (auto simp: processMultibulkBuffer_def h)
  next
    case new: True
    then have a: "argv c = []" "hd (view c) = 42" using p by (simp_all add: parse_ok_def)
    show ?thesis
    proof (cases "count_line (view c)")
      case None
      then obtain c' where c': "multibulk_header c = Inr (Return False c')" "waits TooBigMbulkCount c c'" using multibulk_header_wait [OF ok new a(1)] by blast
      have "parse_ok c' \<or> CLIENT_CLOSE_AFTER_REPLY (client_flags c')" using c'(2) p(1) by (auto simp: waits_def)
      then show ?thesis using c' waits_safe [OF c'(2) ok] by (auto simp: processMultibulkBuffer_def)
    next
      case (Some k)
      note h = multibulk_header_line [OF ok new a(1) Some a(2)]
      let ?c = "c\<lparr>qb_pos := qb_pos c + (k + 2)\<rparr>"
      have l: "k + 2 \<le> length (view c)" using count_line_less [OF Some] by simp
      have m: "advances c ?c" "length (view ?c) < length (view c)"
        using advances_moved [OF ok moved_pos [OF ok l]] moved_pos [OF ok l] l by (auto simp: same_but_buffer_def moved_def)
      show ?thesis
      proof (cases "string2ll (take (k - 1) (tl (view c)))")
        case None
        then show ?thesis using h advances_error [OF ok] by (auto simp: processMultibulkBuffer_def)
      next
        case (Some ll)
        let ?d = "?c\<lparr>multibulklen := nat ll, argv_size := nat ll\<rparr>"
        have d: "advances c ?d" using m(1) by (simp add: advances_def buf_ok_def view_def)
        consider "ll > 1024 * 1024" | "ll \<le> 0" | "ll \<le> 1024 * 1024" "0 < ll" by linarith
        then show ?thesis
        proof cases
          case 1
          then show ?thesis using h Some advances_error [OF ok] by (auto simp: processMultibulkBuffer_def)
        next
          case 2
          then show ?thesis using h Some m by (auto simp: processMultibulkBuffer_def)
        next
          case 3
          have "-1 \<le> bulklen ?d" "length (argv ?d) + multibulklen ?d \<le> argv_size ?d" "multibulklen ?d \<noteq> 0" using p(1) a(1) 3(2) by (simp_all add: parse_ok_def)
          then show ?thesis using loop [OF d] h Some 3 by (auto simp: processMultibulkBuffer_def)
        qed
      qed
    qed
  qed
qed

lemma splitargs_defined: "length line < 2 ^ 60 \<Longrightarrow> \<exists>r. sdssplitargs junk (line @ [0]) = Inr r"
  using splitargs_total [of 0 "line @ [0]" "[]" junk] by (auto simp: sdssplitargs_def)

lemma inline_safe:
  assumes ok: "buf_ok c" and p: "parse_ok c"
  shows "\<exists>ok c'. processInlineBuffer cfg c = Inr (ok, c') \<and> advances c c' \<and> (ok \<longrightarrow> length (view c') < length (view c)) \<and>
    (\<not> ok \<longrightarrow> parse_ok c' \<or> CLIENT_CLOSE_AFTER_REPLY (client_flags c'))"
proof (cases "find_byte 10 (view c)")
  case None
  then obtain c' where c': "processInlineBuffer cfg c = Inr (False, c')" "waits TooBigInline c c'" using inline_wait [OF ok] by blast
  have "parse_ok c' \<or> CLIENT_CLOSE_AFTER_REPLY (client_flags c')" using c'(2) p by (auto simp: waits_def)
  then show ?thesis using c'(1) waits_safe [OF c'(2) ok] by auto
next
  case (Some k)
  note h = inline_line [OF ok Some, of cfg]
  have kl: "k < length (view c)" using find_byte_less [OF Some] by simp
  have "length (view c) < 2 ^ 60" using ok length_view [OF ok] by (simp add: buf_ok_def) linarith
  then have "length (inline_text (view c) k) < 2 ^ 60" by (simp add: inline_text_def)
  then obtain r where r: "sdssplitargs (fresh_mem cfg) (inline_text (view c) k @ [0]) = Inr r" using splitargs_defined by blast
  show ?thesis
  proof (cases r)
    case None
    then show ?thesis using h r advances_error [OF ok] by auto
  next
    case (Some args)
    let ?c = "c\<lparr>qb_pos := qb_pos c + (k + 1)\<rparr>"
    have l: "k + 1 \<le> length (view c)" using kl by simp
    have m: "advances c ?c" "length (view ?c) < length (view c)"
      using advances_moved [OF ok moved_pos [OF ok l]] moved_pos [OF ok l] l by (auto simp: same_but_buffer_def moved_def)
    obtain s n as where d: "processInlineBuffer cfg c = Inr (True, c\<lparr>repl_ack_time := s, qb_pos := qb_pos c + (k + 1), argv_size := n, argv := as\<rparr>)"
      using h r Some by (simp only: cbind_Inr option.case)
    let ?d = "c\<lparr>repl_ack_time := s, qb_pos := qb_pos c + (k + 1), argv_size := n, argv := as\<rparr>"
    have "advances c ?d \<and> length (view ?d) < length (view c)" using m by (simp add: advances_def buf_ok_def view_def)
    then show ?thesis using d by blast
  qed
qed

lemma view_reqtype [simp]: "view (c\<lparr>reqtype := t\<rparr>) = view c" "buf_ok (c\<lparr>reqtype := t\<rparr>) = buf_ok c"
  by (simp_all add: view_def buf_ok_def)

lemma next_request_safe:
  assumes ok: "buf_ok c" and p: "parse_ok c" and ne: "view c \<noteq> []" and max: "proto_max_bulk_len cfg < 2 ^ 60"
  shows "\<exists>ok c' t. next_request cfg c = Inr (ok, c') \<and> advances (c\<lparr>reqtype := t\<rparr>) c' \<and> (ok \<longrightarrow> length (view c') < length (view c)) \<and>
    (\<not> ok \<longrightarrow> parse_ok c' \<or> CLIENT_CLOSE_AFTER_REPLY (client_flags c'))"
proof -
  let ?t = "if reqtype c = 0 then (if hd (view c) = 42 then PROTO_REQ_MULTIBULK else PROTO_REQ_INLINE) else reqtype c"
  let ?c = "c\<lparr>reqtype := ?t\<rparr>"
  have r: "next_request cfg c = (if reqtype ?c = PROTO_REQ_INLINE then processInlineBuffer cfg ?c
      else if reqtype ?c = PROTO_REQ_MULTIBULK then processMultibulkBuffer cfg ?c else Inl AssertFailed)"
  proof (cases "reqtype c = 0")
    case False
    then have c: "?c = c" by (cases c) simp
    show ?thesis unfolding c next_request_def using False by simp
  qed (use rd_view [OF ok ne] in \<open>simp add: next_request_def\<close>)
  have p': "parse_ok ?c" using p ne by (auto simp: parse_ok_def PROTO_REQ_INLINE_def PROTO_REQ_MULTIBULK_def)
  have t: "?t = PROTO_REQ_INLINE \<or> ?t = PROTO_REQ_MULTIBULK" using p by (auto simp: parse_ok_def)
  have "\<exists>ok c'. next_request cfg c = Inr (ok, c') \<and> advances ?c c' \<and> (ok \<longrightarrow> length (view c') < length (view ?c)) \<and>
    (\<not> ok \<longrightarrow> parse_ok c' \<or> CLIENT_CLOSE_AFTER_REPLY (client_flags c'))"
  proof (cases "?t = PROTO_REQ_INLINE")
    case True
    then show ?thesis using inline_safe [of ?c cfg] ok p' unfolding r by simp
  next
    case False
    then show ?thesis using multibulk_safe [of ?c cfg] ok p' max t unfolding r by simp
  qed
  then show ?thesis by auto
qed

section \<open>The loop\<close>

text \<open>What the code relies on of the execution of commands: it does not turn the client into the link to a master; when it reports success the client still exists
  (as the comment of \<open>processCommand\<close> says); and when it reports an error for a client that remains, it has marked the client for closing.\<close>

definition runner_ok :: "'s runner \<Rightarrow> bool" where
  "runner_ok run \<longleftrightarrow> (\<forall>st args fl. (CLIENT_MASTER (r_flags (run st args fl)) \<longrightarrow> CLIENT_MASTER fl) \<and> (r_ok (run st args fl) \<longrightarrow> r_alive (run st args fl)) \<and>
     (\<not> r_ok (run st args fl) \<longrightarrow> r_alive (run st args fl) \<longrightarrow> CLIENT_CLOSE_AFTER_REPLY (r_flags (run st args fl))))"

definition stopped :: "client_flags \<Rightarrow> bool" where
  "stopped fl \<longleftrightarrow> CLIENT_BLOCKED fl \<or> CLIENT_CLOSE_AFTER_REPLY fl \<or> CLIENT_CLOSE_ASAP fl"

text \<open>The invariant of a client between two events.\<close>

definition client_inv :: "proto_cfg \<Rightarrow> client \<Rightarrow> bool" where
  "client_inv cfg c \<longleftrightarrow> buf_ok c \<and> sdslen (querybuf c) \<le> client_max_querybuf_len cfg \<and> (parse_ok c \<or> stopped (client_flags c)) \<and>
     \<not> CLIENT_MASTER (client_flags c)"

definition cfg_ok :: "proto_cfg \<Rightarrow> bool" where
  "cfg_ok cfg \<longleftrightarrow> proto_max_bulk_len cfg < 2 ^ 60 \<and> client_max_querybuf_len cfg < 2 ^ 60"

lemma parse_ok_reset: "parse_ok (resetClient c)"
  by (simp add: parse_ok_def resetClient_def PROTO_REQ_MULTIBULK_def)

lemma reset_buffer [simp]: "buf_ok (resetClient c) = buf_ok c" "view (resetClient c) = view c" "querybuf (resetClient c) = querybuf c"
    "client_flags (resetClient c) = client_flags c" "qb_pos (resetClient c) = qb_pos c"
  by (simp_all add: resetClient_def buf_ok_def view_def)

lemma after_buffer [simp]: "buf_ok (after_command r c) = buf_ok c" "view (after_command r c) = view c" "querybuf (after_command r c) = querybuf c"
    "client_flags (after_command r c) = r_flags r"
  by (simp_all add: after_command_def Let_def buf_ok_def view_def)

lemma after_inv: "\<not> r_ok r \<longrightarrow> CLIENT_CLOSE_AFTER_REPLY (r_flags r) \<Longrightarrow> parse_ok (after_command r c) \<or> stopped (r_flags r)"
  by (auto simp: after_command_def Let_def parse_ok_reset stopped_def)

lemma must_wait_stopped: "stopped fl \<Longrightarrow> must_wait cfg fl"
  by (auto simp: stopped_def must_wait_def)

lemma view_empty: "buf_ok c \<Longrightarrow> view c = [] \<longleftrightarrow> \<not> qb_pos c < sdslen (querybuf c)"
  using length_view [of c] by (auto simp flip: length_0_conv)

lemma input_turn_safe:
  assumes inv: "client_inv cfg c" and cfg: "cfg_ok cfg" and run: "runner_ok run"
  shows "(\<exists>st' c' alive. input_turn cfg run st c = Inr (Leave st' c' alive) \<and> (alive \<longrightarrow> client_inv cfg c')) \<or>
    (\<exists>st' c'. input_turn cfg run st c = Inr (Again st' c') \<and> client_inv cfg c' \<and> length (view c') < length (view c))"
proof (cases "view c = [] \<or> must_wait cfg (client_flags c)")
  case True
  then have "input_turn cfg run st c = Inr (Leave st c True)" using inv view_empty [of c] by (auto simp: input_turn_def client_inv_def)
  then show ?thesis using inv by blast
next
  case False
  then have p: "buf_ok c" "parse_ok c" "view c \<noteq> []" "qb_pos c < sdslen (querybuf c)" "\<not> must_wait cfg (client_flags c)" "\<not> CLIENT_MASTER (client_flags c)"
    using inv must_wait_stopped view_empty [of c] by (auto simp: client_inv_def)
  obtain ok c' t where n: "next_request cfg c = Inr (ok, c')" "advances (c\<lparr>reqtype := t\<rparr>) c'" "ok \<longrightarrow> length (view c') < length (view c)"
      "\<not> ok \<longrightarrow> parse_ok c' \<or> CLIENT_CLOSE_AFTER_REPLY (client_flags c')"
    using next_request_safe [OF p(1-3), of cfg] cfg by (auto simp: cfg_ok_def)
  have b: "buf_ok c'" "sdslen (querybuf c') \<le> client_max_querybuf_len cfg" "\<not> CLIENT_MASTER (client_flags c')"
    using n(2) inv p(6) by (auto simp: advances_def client_inv_def)
  show ?thesis
  proof (cases ok)
    case False
    then have "client_inv cfg c'" using b n(4) by (auto simp: client_inv_def stopped_def)
    then show ?thesis using n(1) False p(4,5) by (auto simp: input_turn_def)
  next
    case ok: True
    show ?thesis
    proof (cases "argv c' = []")
      case True
      have "client_inv cfg (resetClient c')" using b parse_ok_reset by (simp add: client_inv_def)
      then show ?thesis using n(1,3) ok p(4,5) True by (auto simp: input_turn_def)
    next
      case False
      define r where "r = run st (argv c') (client_flags c')"
      have rn: "CLIENT_MASTER (r_flags r) \<longrightarrow> CLIENT_MASTER (client_flags c')" "r_alive r \<longrightarrow> \<not> r_ok r \<longrightarrow> CLIENT_CLOSE_AFTER_REPLY (r_flags r)"
        "r_ok r \<longrightarrow> r_alive r" using run unfolding runner_ok_def r_def by blast+
      have "client_inv cfg (after_command r c')" if "r_alive r"
        using b rn that after_inv [of r c'] by (auto simp: client_inv_def)
      then show ?thesis using n(1,3) ok p(4,5) False rn(3) unfolding input_turn_def by (auto simp: Let_def r_def [symmetric])
    qed
  qed
qed

lemma input_loop_safe:
  assumes "client_inv cfg c" and "cfg_ok cfg" and "runner_ok run"
  shows "\<exists>st' c' alive. input_loop cfg run st c = Some (Inr (st', c', alive)) \<and> (alive \<longrightarrow> client_inv cfg c')"
  using assms(1)
proof (induction "length (view c)" arbitrary: c st rule: less_induct)
  case less
  consider st' c' alive where "input_turn cfg run st c = Inr (Leave st' c' alive)" "alive \<longrightarrow> client_inv cfg c'"
    | st' c' where "input_turn cfg run st c = Inr (Again st' c')" "client_inv cfg c'" "length (view c') < length (view c)"
    using input_turn_safe [OF less.prems assms(2,3)] by blast
  then show ?case
  proof cases
    case 1
    then show ?thesis by (subst input_loop.simps) simp
  next
    case 2
    then show ?thesis using less.hyps [of c' st'] by (subst input_loop.simps) simp
  qed
qed

section \<open>Reading\<close>

lemma trim_view:
  assumes "buf_ok c"
  shows "\<exists>q. sdsrange (querybuf c) (int (qb_pos c)) (-1) = Inr q \<and> sds_ok q \<and> sds_str q = view c \<and> sdslen q = length (view c)"
proof -
  obtain q where "sdsrange (querybuf c) (int (qb_pos c)) (-1) = Inr q" "sds_ok q" "sds_str q = view c"
    using sdsrange_tail [of "querybuf c" "qb_pos c"] assms by (auto simp: buf_ok_def view_def)
  then show ?thesis using length_sds_str [of q] by auto
qed

lemma trimmed_inv:
  assumes inv: "client_inv cfg c" and q: "sds_ok q" "sds_str q = view c" "sdslen q = length (view c)"
  shows "client_inv cfg (c\<lparr>querybuf := q, qb_pos := 0\<rparr>)" "view (c\<lparr>querybuf := q, qb_pos := 0\<rparr>) = view c"
proof -
  show v: "view (c\<lparr>querybuf := q, qb_pos := 0\<rparr>) = view c" using q(2) by (simp add: view_def)
  have "length (view c) \<le> sdslen (querybuf c)" using inv length_view [of c] by (simp add: client_inv_def)
  moreover have "parse_ok (c\<lparr>querybuf := q, qb_pos := 0\<rparr>) = parse_ok c" by (simp add: parse_ok_def v)
  ultimately show "client_inv cfg (c\<lparr>querybuf := q, qb_pos := 0\<rparr>)" using inv q by (simp add: client_inv_def buf_ok_def)
qed

lemma processInputBuffer_safe:
  assumes "client_inv cfg c" and "cfg_ok cfg" and "runner_ok run"
  shows "\<exists>st' c' alive. processInputBuffer cfg run st c = Some (Inr (st', c', alive)) \<and> (alive \<longrightarrow> client_inv cfg c')"
proof -
  obtain st' c' alive where l: "input_loop cfg run st c = Some (Inr (st', c', alive))" "alive \<longrightarrow> client_inv cfg c'"
    using input_loop_safe [OF assms] by blast
  show ?thesis
  proof (cases "alive \<and> qb_pos c' \<noteq> 0")
    case True
    then have inv: "client_inv cfg c'" using l(2) by simp
    obtain q where q: "sdsrange (querybuf c') (int (qb_pos c')) (-1) = Inr q" "sds_ok q" "sds_str q = view c'" "sdslen q = length (view c')"
      using trim_view [of c'] inv by (auto simp: client_inv_def)
    show ?thesis using l(1) q(1) True trimmed_inv(1) [OF inv q(2-4)] by (auto simp: processInputBuffer_def)
  next
    case False
    then show ?thesis using l unfolding processInputBuffer_def by (auto simp del: not_gr_zero)
  qed
qed

lemma read_len_bound: "read_len c \<le> PROTO_IOBUF_LEN" "0 < read_len c"
  by (auto simp: read_len_def Let_def PROTO_IOBUF_LEN_def nat_le_iff)

lemma read_steps:
  assumes ok: "sds_ok q" and len: "sdslen q < 2 ^ 60" and n: "n \<le> PROTO_IOBUF_LEN" and bs: "bs \<noteq> []" "length bs \<le> n"
  shows "\<exists>q1 q2 q3. sdsMakeRoomFor junk q n = Inr q1 \<and> poke q1 (sdslen q) bs = Inr q2 \<and> sdsIncrLen q2 (int (length bs)) = Inr q3 \<and>
    sds_ok q3 \<and> sds_str q3 = sds_str q @ bs \<and> sdslen q3 = sdslen q + length bs"
proof -
  have "sdslen q + n < 2 ^ 62" using len n by (simp add: PROTO_IOBUF_LEN_def)
  then obtain q3 where q3: "read_into junk q n bs = Inr q3" "sds_ok q3" "sds_str q3 = sds_str q @ bs" using read_into_ok [OF ok _ bs] by blast
  then show ?thesis using length_sds_str [OF q3(2)] length_sds_str [OF ok] by (auto simp: read_into_def cbind_eq_Inr_iff Let_def)
qed

lemma appended_inv:
  assumes inv: "client_inv cfg c" and q: "sds_ok q" "sds_str q = sds_str (querybuf c) @ bs" "sdslen q = sdslen (querybuf c) + length bs"
    and max: "sdslen q \<le> client_max_querybuf_len cfg" "cfg_ok cfg"
    and c': "c' = c\<lparr>querybuf := q, querybuf_peak := m, pending_querybuf := pq, lastinteraction := t, read_reploff := o'\<rparr>"
  shows "client_inv cfg c'" "view c' = view c @ bs"
proof -
  have l: "length (sds_str (querybuf c)) = sdslen (querybuf c)" using inv length_sds_str by (auto simp: client_inv_def buf_ok_def)
  show v: "view c' = view c @ bs" using inv l q(2) by (simp add: c' view_def client_inv_def buf_ok_def)
  have "buf_ok c'" using inv q(1,3) max by (simp add: c' client_inv_def buf_ok_def cfg_ok_def)
  moreover have "parse_ok c \<Longrightarrow> parse_ok c'" using v by (simp add: parse_ok_def c')
  ultimately show "client_inv cfg c'" using inv max(1) by (auto simp: client_inv_def c')
qed

text \<open>The kernel fills at most the room that it is given.\<close>

definition sock_ok :: "(nat \<Rightarrow> read_result) \<Rightarrow> bool" where
  "sock_ok sock \<longleftrightarrow> (\<forall>n bs. sock n = ReadData bs \<longrightarrow> bs \<noteq> [] \<and> length bs \<le> n)"

lemma read_query_data:
  assumes inv: "client_inv cfg c" and cfg: "cfg_ok cfg" and bs: "sock (read_len c) = ReadData bs" "bs \<noteq> []" "length bs \<le> read_len c"
  shows "\<exists>q m t. let c' = c\<lparr>querybuf := q, querybuf_peak := m, lastinteraction := t\<rparr> in
    sds_str q = sds_str (querybuf c) @ bs \<and> sdslen q = sdslen (querybuf c) + length bs \<and>
    (sdslen q \<le> client_max_querybuf_len cfg \<longrightarrow> client_inv cfg c' \<and> view c' = view c @ bs) \<and>
    readQueryFromClient cfg run sock st c =
      (if sdslen q > client_max_querybuf_len cfg then Some (Inr (st, None, [])) else processInputBufferAndReplicate cfg run st c')"
proof -
  have ok: "sds_ok (querybuf c)" "sdslen (querybuf c) < 2 ^ 60" "\<not> CLIENT_MASTER (client_flags c)" using inv by (simp_all add: client_inv_def buf_ok_def)
  obtain q1 q2 q where q: "sdsMakeRoomFor (fresh_mem cfg) (querybuf c) (read_len c) = Inr q1" "poke q1 (sdslen (querybuf c)) bs = Inr q2"
      "sdsIncrLen q2 (int (length bs)) = Inr q" "sds_ok q" "sds_str q = sds_str (querybuf c) @ bs" "sdslen q = sdslen (querybuf c) + length bs"
    using read_steps [OF ok(1,2) read_len_bound(1) bs(2,3)] by blast
  define m where "m = (if querybuf_peak c < sdslen (querybuf c) then sdslen (querybuf c) else querybuf_peak c)"
  let ?c = "c\<lparr>querybuf := q, querybuf_peak := m, lastinteraction := unixtime cfg\<rparr>"
  have r: "readQueryFromClient cfg run sock st c =
      (if sdslen q > client_max_querybuf_len cfg then Some (Inr (st, None, [])) else processInputBufferAndReplicate cfg run st ?c)"
    using ok(3) bs(1) q(1-3) by (cases c) (simp add: readQueryFromClient_def Let_def m_def)
  have c: "?c = c\<lparr>querybuf := q, querybuf_peak := m, pending_querybuf := pending_querybuf c, lastinteraction := unixtime cfg, read_reploff := read_reploff c\<rparr>"
    by (cases c) simp
  have "client_inv cfg ?c \<and> view ?c = view c @ bs" if "sdslen q \<le> client_max_querybuf_len cfg"
    using appended_inv [OF inv q(4-6) that cfg c] by blast
  then show ?thesis unfolding Let_def using q(5,6) r by (intro exI [of _ q] exI [of _ m] exI [of _ "unixtime cfg"]) blast
qed

section \<open>Properties\<close>

text \<open>C12: Whatever bytes a client sends, in whatever pieces they arrive, whatever the reads of the socket return and whatever the commands do, an event
  on a client's socket is handled completely: no byte is read or written outside a buffer, no assertion fails, no argument is stored behind
  the end of its vector, and the loop over the requests comes to an end. The client is freed, or it is again in a state
  between two requests or inside one, or stopped, with the buffer within its limit.\<close>

theorem client_input_safe:
  assumes "client_inv cfg c" and "cfg_ok cfg" and "runner_ok run" and "sock_ok sock"
  shows "\<exists>st' c' fed. readQueryFromClient cfg run sock st c = Some (Inr (st', c', fed)) \<and> (case c' of None \<Rightarrow> True | Some c' \<Rightarrow> client_inv cfg c')"
proof -
  have pr: "\<exists>st' c' fed. processInputBufferAndReplicate cfg run st d = Some (Inr (st', c', fed)) \<and> (case c' of None \<Rightarrow> True | Some c' \<Rightarrow> client_inv cfg c')"
    if "client_inv cfg d" for d
    using processInputBuffer_safe [OF that assms(2,3), of st] that unfolding processInputBufferAndReplicate_def by (auto simp: client_inv_def [of cfg d])
  have ok: "sds_ok (querybuf c)" "sdslen (querybuf c) < 2 ^ 60" using assms(1) by (simp_all add: client_inv_def buf_ok_def)
  then obtain q where q: "sdsMakeRoomFor (fresh_mem cfg) (querybuf c) (read_len c) = Inr q" "sds_ok q" "sds_str q = sds_str (querybuf c)" "sdslen q = sdslen (querybuf c)"
    using sdsMakeRoomFor_ok [OF ok(1), of "read_len c"] read_len_bound(1) [of c] by (auto simp: PROTO_IOBUF_LEN_def)
  show ?thesis
  proof (cases "sock (read_len c)")
    case (ReadData bs)
    then have bs: "bs \<noteq> []" "length bs \<le> read_len c" using assms(4) by (auto simp: sock_ok_def)
    obtain q m t where d: "let c' = c\<lparr>querybuf := q, querybuf_peak := m, lastinteraction := t\<rparr> in
        sds_str q = sds_str (querybuf c) @ bs \<and> sdslen q = sdslen (querybuf c) + length bs \<and>
        (sdslen q \<le> client_max_querybuf_len cfg \<longrightarrow> client_inv cfg c' \<and> view c' = view c @ bs) \<and>
        readQueryFromClient cfg run sock st c =
          (if sdslen q > client_max_querybuf_len cfg then Some (Inr (st, None, [])) else processInputBufferAndReplicate cfg run st c')"
      using read_query_data [where sock = sock, OF assms(1,2) ReadData bs, of run st] by blast
    then show ?thesis using pr by (auto simp: Let_def not_less)
  next
    case ReadAgain
    define m where "m = (if querybuf_peak c < sdslen (querybuf c) then sdslen (querybuf c) else querybuf_peak c)"
    let ?c = "c\<lparr>querybuf := q, querybuf_peak := m\<rparr>"
    have r: "readQueryFromClient cfg run sock st c = Some (Inr (st, Some ?c, []))" using ReadAgain q(1) by (cases c) (simp add: readQueryFromClient_def Let_def m_def)
    have c: "?c = c\<lparr>querybuf := q, querybuf_peak := m, pending_querybuf := pending_querybuf c, lastinteraction := lastinteraction c, read_reploff := read_reploff c\<rparr>"
      by (cases c) simp
    have "sdslen q \<le> client_max_querybuf_len cfg" using q(4) assms(1) by (simp add: client_inv_def)
    then have "client_inv cfg ?c" using q(3,4) by (intro appended_inv(1) [OF assms(1) q(2) _ _ _ assms(2) c, of "[]"]) simp_all
    then show ?thesis using r by auto
  qed (use q(1) in \<open>simp_all add: readQueryFromClient_def Let_def\<close>)
qed

lemma createClient_ok: "\<exists>c. createClient cfg = Inr c \<and> buf_ok c \<and> view c = [] \<and> sdslen (querybuf c) = 0 \<and> parse_ok c \<and> qb_pos c = 0 \<and>
    argv c = [] \<and> multibulklen c = 0 \<and> bulklen c = -1 \<and> reqtype c = 0 \<and> errors c = [] \<and>
    client_flags c = \<lparr> CLIENT_SLAVE = False, CLIENT_MASTER = False, CLIENT_MONITOR = False, CLIENT_MULTI = False, CLIENT_BLOCKED = False,
      BLOCKED_MODULE = False, CLIENT_CLOSE_AFTER_REPLY = False, CLIENT_CLOSE_ASAP = False \<rparr>"
proof -
  obtain q where q: "sdsempty (fresh_mem cfg) = Inr q" "sds_ok q" "sds_str q = []" using sdsempty_ok by blast
  have "sdslen q = 0" using length_sds_str [OF q(2)] q(3) by simp
  then show ?thesis using q by (simp add: createClient_def buf_ok_def view_def parse_ok_def PROTO_REQ_MULTIBULK_def)
qed

theorem client_input_safe_witness:
  "\<exists>cfg c st' c' fed. cfg = \<lparr>proto_max_bulk_len = 536870912, client_max_querybuf_len = 1073741824, clients_paused = False, lua_timedout = False, unixtime = 0, fresh_mem = (\<lambda>n. 7)\<rparr> \<and>
    createClient cfg = Inr c \<and>
    readQueryFromClient cfg (\<lambda>st args fl. \<lparr>r_state = st + 1, r_flags = fl, r_ok = True, r_alive = True\<rparr>) (\<lambda>n. if n = 0 then ReadEof else ReadData [42]) (0 :: nat) c
      = Some (Inr (st', c', fed))"
proof -
  let ?cfg = "\<lparr>proto_max_bulk_len = 536870912, client_max_querybuf_len = 1073741824, clients_paused = False, lua_timedout = False, unixtime = 0, fresh_mem = (\<lambda>n. 7)\<rparr>"
  let ?run = "\<lambda>st args fl. \<lparr>r_state = st + 1, r_flags = fl, r_ok = True, r_alive = True\<rparr> :: nat cmd_result"
  let ?sock = "\<lambda>n. if n = 0 then ReadEof else ReadData [42]"
  obtain c where c: "createClient ?cfg = Inr c" "client_inv ?cfg c" using createClient_ok [of ?cfg] by (auto simp: client_inv_def)
  have cfg: "cfg_ok ?cfg" by (simp add: cfg_ok_def)
  have run: "runner_ok ?run" by (simp add: runner_ok_def)
  have sock: "sock_ok ?sock" by (simp add: sock_ok_def)
  show ?thesis using client_input_safe [OF c(2) cfg run sock, of 0] c(1) by blast
qed

end
