(* ===== verification/NetworkingUse.thy ===== *)
theory NetworkingUse
  imports NetworkingSafe
begin

text \<open>
  The parser inverts the encoding of requests, however the bytes are cut into reads.
\<close>

section \<open>Requests and their text\<close>

datatype request = Bulk "byte list list" | Inline "byte list" bool "byte list list"

definition crlf :: "byte list" where "crlf = [13, 10]"

definition enc_bulk :: "byte list \<Rightarrow> byte list" where
  "enc_bulk a = 36 # sdec (int (length a)) @ crlf @ a @ crlf"

text \<open>An inline request is a line, with its terminator and the arguments that it is split into.\<close>

fun enc_request :: "request \<Rightarrow> byte list" where
  "enc_request (Bulk args) = 42 # sdec (int (length args)) @ crlf @ concat (map enc_bulk args)"
| "enc_request (Inline line cr args) = line @ (if cr then crlf else [10])"

fun req_args :: "request \<Rightarrow> byte list list" where
  "req_args (Bulk args) = args"
| "req_args (Inline line cr args) = args"

definition splits_into :: "byte list \<Rightarrow> byte list list \<Rightarrow> bool" where
  "splits_into line args \<longleftrightarrow> (\<forall>junk. \<exists>vs. sdssplitargs junk (line @ [0]) = Inr (Some vs) \<and> map sds_str vs = args)"

fun req_ok :: "proto_cfg \<Rightarrow> request \<Rightarrow> bool" where
  "req_ok cfg (Bulk args) \<longleftrightarrow> length args \<le> 1024 * 1024 \<and> (\<forall>a \<in> set args. int (length a) \<le> proto_max_bulk_len cfg)"
| "req_ok cfg (Inline line cr args) \<longleftrightarrow> 0 \<notin> set line \<and> 10 \<notin> set line \<and> (line \<noteq> [] \<longrightarrow> hd line \<noteq> 42 \<and> last line \<noteq> 13) \<and>
     length line + 2 \<le> PROTO_INLINE_MAX_SIZE \<and> splits_into line args"

section \<open>Prefixes of a text\<close>

lemma prefix_split:
  assumes "v @ f = a @ b" and "length a \<le> length v"
  shows "\<exists>u. v = a @ u \<and> u @ f = b"
  using assms by (metis append_eq_append_conv_if append_take_drop_id)

lemma find_byte_prefix:
  assumes "v @ f = l @ ch # rest" and "ch \<notin> set l" and "0 \<notin> set l"
  shows "find_byte ch v = (if length l < length v then Some (length l) else None)"
proof (cases "length l < length v")
  case True
  then obtain u where u: "v = l @ ch # u" using prefix_split [of v f "l @ [ch]" rest] assms(1) by auto
  have "takeWhile (\<lambda>b. b \<noteq> 0 \<and> b \<noteq> ch) v = l" unfolding u using assms(2,3) by (subst takeWhile_append2) auto
  then show ?thesis using True by (simp add: find_byte_def u)
next
  case False
  have "take (length v) (v @ f) = take (length v) (l @ ch # rest)" by (simp add: assms(1))
  then have "v = take (length v) l" using False by simp
  then have "set v \<subseteq> set l" using set_take_subset by metis
  then have "\<forall>b \<in> set v. b \<noteq> 0 \<and> b \<noteq> ch" using assms(2,3) by auto
  then have tw: "takeWhile (\<lambda>b. b \<noteq> 0 \<and> b \<noteq> ch) v = v" by (simp add: takeWhile_eq_all_conv)
  show ?thesis unfolding find_byte_def Let_def tw using False by simp
qed

lemma count_line_prefix:
  assumes "v @ f = l @ crlf @ rest" and "13 \<notin> set l" and "0 \<notin> set l"
  shows "count_line v = (if length l + 2 \<le> length v then Some (length l) else None)"
  using find_byte_prefix [of v f l 13 "10 # rest"] assms by (simp add: count_line_def crlf_def)

lemma prefix_short: "v @ f = a @ b \<Longrightarrow> length v < length a \<Longrightarrow> f \<noteq> []"
  by (auto dest: arg_cong [where f = length])

lemma sdec_no: "13 \<notin> set (sdec (int n))" "0 \<notin> set (sdec (int n))"
  using dec_digits [of 13 n] dec_digits [of 0 n] by (auto simp: sdec_def dig_def)

lemma count_value: "n < 2 ^ 60 \<Longrightarrow> string2ll (sdec (int n)) = Some (int n)"
  by (simp add: string2ll_iff ll_range_def LLONG_MIN_def LLONG_MAX_def)

section \<open>Inside an array\<close>

text \<open>Some arguments are done, the text that is left, in the buffer and still to come, holds the others and then the rest.\<close>

definition inside :: "client \<Rightarrow> byte list \<Rightarrow> byte list list \<Rightarrow> byte list list \<Rightarrow> byte list \<Rightarrow> bool" where
  "inside c f xs todo rest \<longleftrightarrow> buf_ok c \<and> map obj_str (argv c) = xs \<and> multibulklen c = length todo \<and> length xs + length todo \<le> argv_size c \<and>
     (bulklen c = -1 \<and> view c @ f = concat (map enc_bulk todo) @ rest \<or>
      (\<exists>a as. todo = a # as \<and> bulklen c = int (length a) \<and> view c @ f = a @ crlf @ concat (map enc_bulk as) @ rest))"

definition same_mode :: "client \<Rightarrow> client \<Rightarrow> bool" where
  "same_mode c c' \<longleftrightarrow> client_flags c' = client_flags c \<and> errors c' = errors c \<and> reqtype c' = reqtype c \<and> sdslen (querybuf c') \<le> sdslen (querybuf c)"

lemma same_mode_trans: "same_mode c c' \<Longrightarrow> same_mode c' c'' \<Longrightarrow> same_mode c c''"
  by (simp add: same_mode_def)

lemma count_digits: "n < 2 ^ 60 \<Longrightarrow> length (sdec (int n)) \<le> 20"
  by (rule length_sdec) (simp add: ll_range_def LLONG_MIN_def LLONG_MAX_def)

lemma inside_header:
  assumes i: "inside c f xs (a # as) rest" and new: "bulklen c = -1" and a: "int (length a) \<le> proto_max_bulk_len cfg" and max: "proto_max_bulk_len cfg < 2 ^ 60"
  shows "bulk_header cfg c = Inr (Return False c) \<and> f \<noteq> [] \<and> length (view c) \<le> 22 \<or>
    (\<exists>c'. bulk_header cfg c = Inr (Proceed c') \<and> bulklen c' = int (length a) \<and> inside c' f xs (a # as) rest \<and> same_mode c c' \<and> argv_size c' = argv_size c)"
proof -
  let ?n = "length a"
  let ?l = "36 # sdec (int ?n)"
  let ?t = "a @ crlf @ concat (map enc_bulk as) @ rest"
  have ok: "buf_ok c" using i by (simp add: inside_def)
  have "int ?n < 2 ^ 60" using a max by (rule le_less_trans)
  then have n: "?n < 2 ^ 60" by simp
  have v: "view c @ f = ?l @ crlf @ ?t" using i new by (auto simp: inside_def enc_bulk_def)
  have cl: "count_line (view c) = (if length ?l + 2 \<le> length (view c) then Some (length ?l) else None)"
    using count_line_prefix [OF v] sdec_no [of ?n] by simp
  show ?thesis
  proof (cases "length ?l + 2 \<le> length (view c)")
    case False
    have s: "length (view c) \<le> 22" using False count_digits [OF n] by simp
    have "f \<noteq> []" using prefix_short [of "view c" f "?l @ crlf" ?t] v False by (simp add: crlf_def)
    moreover obtain c' where "bulk_header cfg c = Inr (Return False c')" "waits TooBigBulkCount c c'" using bulk_header_wait [OF ok new] cl False by auto
    ultimately show ?thesis using s by (auto simp: waits_def PROTO_INLINE_MAX_SIZE_def)
  next
    case True
    obtain u where u: "view c = (?l @ crlf) @ u" "u @ f = ?t" using prefix_split [of "view c" f "?l @ crlf" ?t] v True by (auto simp: crlf_def)
    have k: "count_line (view c) = Some (length ?l)" using cl True by simp
    have hd: "hd (view c) = 36" using u(1) by simp
    have ll: "string2ll (take (length ?l - 1) (tl (view c))) = Some (int ?n)" using u(1) count_value [OF n] by simp
    obtain c' where c': "bulk_header cfg c = Inr (Proceed (c'\<lparr>bulklen := int ?n\<rparr>))" "moved (length ?l + 2) c c'" "same_but_buffer c c'"
      using bulk_header_line [OF ok new k hd ll _ a max] by auto
    have "view c' = u" using c'(2) u(1) by (simp add: moved_def crlf_def)
    then have "inside (c'\<lparr>bulklen := int ?n\<rparr>) f xs (a # as) rest"
      using i c'(2) same_but_bufferD [OF c'(3)] u(2) by (auto simp: inside_def moved_def buf_ok_def view_def)
    moreover have "same_mode c (c'\<lparr>bulklen := int ?n\<rparr>)" using c'(2) same_but_bufferD [OF c'(3)] by (auto simp: same_mode_def moved_def)
    moreover have "argv_size c' = argv_size c" using same_but_bufferD [OF c'(3)] by auto
    ultimately show ?thesis using c'(1) by (intro disjI2 exI [of _ "c'\<lparr>bulklen := int ?n\<rparr>"]) simp
  qed
qed

lemma inside_data:
  assumes i: "inside c f xs (a # as) rest" and l: "bulklen c = int (length a)"
  shows "bulk_data cfg c = Inr (Return False c) \<and> f \<noteq> [] \<and> length (view c) < length a + 2 \<or>
    (\<exists>c'. bulk_data cfg c = Inr (Proceed c') \<and> inside c' f (xs @ [a]) as rest \<and> bulklen c' = -1 \<and> same_mode c c')"
proof -
  have ok: "buf_ok c" using i by (simp add: inside_def)
  have v: "view c @ f = (a @ crlf) @ concat (map enc_bulk as) @ rest" using i l by (auto simp: inside_def)
  show ?thesis
  proof (cases "length a + 2 \<le> length (view c)")
    case False
    then show ?thesis using bulk_data_short [OF ok, of cfg] l prefix_short [OF v] by (simp add: crlf_def)
  next
    case True
    obtain u where u: "view c = (a @ crlf) @ u" "u @ f = concat (map enc_bulk as) @ rest" using prefix_split [OF v] True by (auto simp: crlf_def)
    have "map obj_str (argv c) = xs" using i by (simp add: inside_def)
    then have "length (argv c) = length xs" by (metis length_map)
    then have room: "length (argv c) < argv_size c" using i by (simp add: inside_def)
    obtain c' obj where c': "bulk_data cfg c = Inr (Proceed (c'\<lparr>argv := argv c @ [obj], bulklen := -1, multibulklen := multibulklen c - 1\<rparr>))"
        "moved (length a + 2) c c'" "same_but_buffer c c'" "obj_str obj = take (length a) (view c)"
      using bulk_data_full [OF ok l True room] by blast
    let ?c = "c'\<lparr>argv := argv c @ [obj], bulklen := -1, multibulklen := multibulklen c - 1\<rparr>"
    have "view c' = u" using c'(2) u(1) by (simp add: moved_def crlf_def)
    then have vc: "view ?c = u" "buf_ok ?c" using c'(2) by (simp_all add: moved_def view_def buf_ok_def)
    have "argv_size ?c = argv_size c" using same_but_bufferD [OF c'(3)] by auto
    then have "inside ?c f (xs @ [a]) as rest" using i vc u c'(4) by (simp add: inside_def)
    moreover have "same_mode c ?c" using c'(2) same_but_bufferD [OF c'(3)] by (auto simp: same_mode_def moved_def)
    ultimately show ?thesis using c'(1) by (intro disjI2 exI [of _ ?c]) simp
  qed
qed

text \<open>The bytes that stay in the buffer when more are needed.\<close>

definition left_bound :: "proto_cfg \<Rightarrow> nat" where
  "left_bound cfg = nat (proto_max_bulk_len cfg) + 2 + PROTO_INLINE_MAX_SIZE"

lemma inside_loop:
  assumes "inside c f xs todo rest" and "\<forall>a \<in> set todo. int (length a) \<le> proto_max_bulk_len cfg" and "proto_max_bulk_len cfg < 2 ^ 60" and "todo = [] \<longrightarrow> bulklen c = -1"
  shows "(\<exists>c'. bulk_loop cfg c = Inr (True, c') \<and> inside c' f (xs @ todo) [] rest \<and> same_mode c c' \<and> bulklen c' = -1) \<or>
    (\<exists>c' ys zs. bulk_loop cfg c = Inr (False, c') \<and> inside c' f ys zs rest \<and> ys @ zs = xs @ todo \<and> zs \<noteq> [] \<and> same_mode c c' \<and> f \<noteq> [] \<and>
      length (view c') \<le> left_bound cfg)"
  using assms
proof (induction todo arbitrary: c xs)
  case Nil
  then have "bulk_loop cfg c = Inr (True, c)" by (subst bulk_loop.simps) (simp add: inside_def)
  then show ?case using Nil by (simp add: same_mode_def)
next
  case (Cons a as)
  have len: "int (length a) \<le> proto_max_bulk_len cfg" using Cons.prems(2) by simp
  then have lb: "length a + 2 \<le> left_bound cfg" by (simp add: left_bound_def)
  have mbl: "multibulklen d \<noteq> 0" if "inside d f xs (a # as) rest" for d using that by (simp add: inside_def)
  have data: ?case if u: "bulk_loop cfg c = cbind (bulk_data cfg d) (\<lambda>p. case p of Return ok c \<Rightarrow> Inr (ok, c) | Proceed c \<Rightarrow> bulk_loop cfg c)"
    and d: "inside d f xs (a # as) rest" "bulklen d = int (length a)" "same_mode c d" for d
    using inside_data [OF d(1,2), of cfg]
  proof
    assume b: "bulk_data cfg d = Inr (Return False d) \<and> f \<noteq> [] \<and> length (view d) < length a + 2"
    then show ?thesis using u d lb by (intro disjI2 exI [of _ d] exI [of _ xs] exI [of _ "a # as"]) simp
  next
    assume "\<exists>c'. bulk_data cfg d = Inr (Proceed c') \<and> inside c' f (xs @ [a]) as rest \<and> bulklen c' = -1 \<and> same_mode d c'"
    then obtain e where e: "bulk_data cfg d = Inr (Proceed e)" "inside e f (xs @ [a]) as rest" "bulklen e = -1" "same_mode d e" by blast
    have m: "same_mode c e" using same_mode_trans [OF d(3) e(4)] .
    have r: "bulk_loop cfg c = bulk_loop cfg e" using u e(1) by simp
    show ?thesis unfolding r using Cons.IH [OF e(2)] Cons.prems(2,3) e(3) same_mode_trans [OF m] by fastforce
  qed
  show ?case
  proof (cases "bulklen c = -1")
    case True
    from inside_header [OF Cons.prems(1) True len Cons.prems(3)] show ?thesis
    proof
      assume h: "bulk_header cfg c = Inr (Return False c) \<and> f \<noteq> [] \<and> length (view c) \<le> 22"
      have "bulk_loop cfg c = Inr (False, c)" using h mbl [OF Cons.prems(1)] by (subst bulk_loop.simps) simp
      then show ?thesis using h Cons.prems(1) by (intro disjI2 exI [of _ c] exI [of _ xs] exI [of _ "a # as"]) (simp add: same_mode_def left_bound_def PROTO_INLINE_MAX_SIZE_def)
    next
      assume "\<exists>c'. bulk_header cfg c = Inr (Proceed c') \<and> bulklen c' = int (length a) \<and> inside c' f xs (a # as) rest \<and> same_mode c c' \<and> argv_size c' = argv_size c"
      then obtain d where d: "bulk_header cfg c = Inr (Proceed d)" "bulklen d = int (length a)" "inside d f xs (a # as) rest" "same_mode c d" by blast
      show ?thesis using mbl [OF Cons.prems(1)] d(1) by (intro data [OF _ d(3,2,4)]) (subst bulk_loop.simps, simp)
    qed
  next
    case False
    then have l: "bulklen c = int (length a)" using Cons.prems(1) by (auto simp: inside_def)
    show ?thesis using mbl [OF Cons.prems(1)] l by (intro data [OF _ Cons.prems(1) l]) (subst bulk_loop.simps, simp add: bulk_header_def, simp add: same_mode_def)
  qed
qed

section \<open>One request\<close>

fun kind :: "request \<Rightarrow> nat" where
  "kind (Bulk args) = PROTO_REQ_MULTIBULK"
| "kind (Inline line cr args) = PROTO_REQ_INLINE"

text \<open>The requests that are still to be run, the first one perhaps in part parsed already. \<open>f\<close> is what has not arrived yet.\<close>

definition expects :: "proto_cfg \<Rightarrow> client \<Rightarrow> byte list \<Rightarrow> request list \<Rightarrow> bool" where
  "expects cfg c f rs \<longleftrightarrow> buf_ok c \<and> (\<forall>r \<in> set rs. req_ok cfg r) \<and>
     (multibulklen c = 0 \<and> argv c = [] \<and> bulklen c = -1 \<and> view c @ f = concat (map enc_request rs) \<and>
        (reqtype c = 0 \<or> view c \<noteq> [] \<and> reqtype c = kind (hd rs)) \<or>
      (\<exists>xs todo rs'. todo \<noteq> [] \<and> rs = Bulk (xs @ todo) # rs' \<and> reqtype c = PROTO_REQ_MULTIBULK \<and> inside c f xs todo (concat (map enc_request rs'))))"

text \<open>A request was completed, or the bytes that are there do not complete it.\<close>

definition completed :: "client \<Rightarrow> byte list \<Rightarrow> request \<Rightarrow> request list \<Rightarrow> client \<Rightarrow> bool" where
  "completed c f r rs c' \<longleftrightarrow> map obj_str (argv c') = req_args r \<and> buf_ok c' \<and> view c' @ f = concat (map enc_request rs) \<and> same_mode c c'"

definition needs_more :: "proto_cfg \<Rightarrow> client \<Rightarrow> byte list \<Rightarrow> request list \<Rightarrow> client \<Rightarrow> bool" where
  "needs_more cfg c f rs c' \<longleftrightarrow> expects cfg c' f rs \<and> f \<noteq> [] \<and> same_mode c c' \<and> length (view c') \<le> left_bound cfg"

lemma mode_first:
  "same_mode c d \<Longrightarrow> completed d f r rs c' \<Longrightarrow> completed c f r rs c'" "same_mode c d \<Longrightarrow> needs_more cfg d f rs c' \<Longrightarrow> needs_more cfg c f rs c'"
  by (auto simp: completed_def needs_more_def dest: same_mode_trans)

lemma inside_step:
  assumes i: "inside c f xs todo (concat (map enc_request rs))" "todo \<noteq> []" "reqtype c = PROTO_REQ_MULTIBULK" and r: "\<forall>r \<in> set (Bulk (xs @ todo) # rs). req_ok cfg r"
    and max: "proto_max_bulk_len cfg < 2 ^ 60"
  shows "(\<exists>c'. bulk_loop cfg c = Inr (True, c') \<and> completed c f (Bulk (xs @ todo)) rs c') \<or>
    (\<exists>c'. bulk_loop cfg c = Inr (False, c') \<and> needs_more cfg c f (Bulk (xs @ todo) # rs) c')"
proof -
  let ?rest = "concat (map enc_request rs)"
  have t: "\<forall>a \<in> set todo. int (length a) \<le> proto_max_bulk_len cfg" "todo = [] \<longrightarrow> bulklen c = -1" using r i(2) by auto
  from inside_loop [OF i(1) t(1) max t(2)] show ?thesis
  proof (elim disjE exE conjE)
    fix c'
    assume "bulk_loop cfg c = Inr (True, c')" "inside c' f (xs @ todo) [] ?rest" "same_mode c c'" "bulklen c' = -1"
    then show ?thesis by (intro disjI1 exI [of _ c']) (simp add: completed_def inside_def)
  next
    fix c' ys zs
    assume c': "bulk_loop cfg c = Inr (False, c')" "inside c' f ys zs ?rest" "ys @ zs = xs @ todo" "zs \<noteq> []" "same_mode c c'" "f \<noteq> []" "length (view c') \<le> left_bound cfg"
    have "reqtype c' = PROTO_REQ_MULTIBULK" using c'(5) i(3) by (simp add: same_mode_def)
    then have "expects cfg c' f (Bulk (xs @ todo) # rs)" unfolding expects_def using c'(2,3,4) r
      by (intro conjI disjI2 exI [of _ ys] exI [of _ zs] exI [of _ rs]) (simp_all add: inside_def)
    then show ?thesis using c' by (intro disjI2 exI [of _ c']) (simp add: needs_more_def)
  qed
qed

lemma bulk_request:
  assumes ok: "buf_ok c" and st: "multibulklen c = 0" "argv c = []" "bulklen c = -1" "reqtype c = PROTO_REQ_MULTIBULK" and ne: "view c \<noteq> []"
    and v: "view c @ f = concat (map enc_request (Bulk args # rs))" and r: "\<forall>r \<in> set (Bulk args # rs). req_ok cfg r" and max: "proto_max_bulk_len cfg < 2 ^ 60"
  shows "(\<exists>c'. processMultibulkBuffer cfg c = Inr (True, c') \<and> completed c f (Bulk args) rs c') \<or>
    (\<exists>c'. processMultibulkBuffer cfg c = Inr (False, c') \<and> needs_more cfg c f (Bulk args # rs) c')"
proof -
  let ?n = "length args" and ?rest = "concat (map enc_request rs)"
  let ?l = "42 # sdec (int ?n)" and ?t = "concat (map enc_bulk args) @ ?rest"
  have n: "?n \<le> 1024 * 1024" "?n < 2 ^ 60" using r by simp_all
  have v': "view c @ f = ?l @ crlf @ ?t" using v by simp
  have cl: "count_line (view c) = (if length ?l + 2 \<le> length (view c) then Some (length ?l) else None)"
    using count_line_prefix [OF v'] sdec_no [of ?n] by simp
  show ?thesis
  proof (cases "length ?l + 2 \<le> length (view c)")
    case False
    have s: "length (view c) \<le> 22" using False count_digits [OF n(2)] by simp
    have f: "f \<noteq> []" using prefix_short [of "view c" f "?l @ crlf" ?t] v' False by (simp add: crlf_def)
    obtain c' where "multibulk_header c = Inr (Return False c')" "waits TooBigMbulkCount c c'" using multibulk_header_wait [OF ok st(1,2)] cl False by auto
    then have "processMultibulkBuffer cfg c = Inr (False, c)" using s by (simp add: processMultibulkBuffer_def waits_def PROTO_INLINE_MAX_SIZE_def)
    moreover have "expects cfg c f (Bulk args # rs)" using ok st v r ne by (simp add: expects_def)
    ultimately show ?thesis using s f by (intro disjI2 exI [of _ c]) (simp add: needs_more_def same_mode_def left_bound_def PROTO_INLINE_MAX_SIZE_def)
  next
    case True
    obtain u where u: "view c = (?l @ crlf) @ u" "u @ f = ?t" using prefix_split [of "view c" f "?l @ crlf" ?t] v' True by (auto simp: crlf_def)
    have k: "count_line (view c) = Some (length ?l)" using cl True by simp
    have star: "hd (view c) = 42" using u(1) by simp
    have ll: "string2ll (take (length ?l - 1) (tl (view c))) = Some (int ?n)" using u(1) count_value [OF n(2)] by simp
    let ?c = "c\<lparr>qb_pos := qb_pos c + (length ?l + 2)\<rparr>" and ?d = "c\<lparr>qb_pos := qb_pos c + (length ?l + 2), multibulklen := nat (int ?n), argv_size := nat (int ?n)\<rparr>"
    have m: "buf_ok ?c" "view ?c = u" "same_mode c ?c" using moved_pos [OF ok True] u(1) by (simp_all add: moved_def crlf_def same_mode_def)
    have h: "multibulk_header c = Inr (if int ?n \<le> 0 then Return True ?c else Proceed ?d)"
      unfolding multibulk_header_line [OF ok st(1,2) k star] ll using n(1) by simp
    show ?thesis
    proof (cases "args = []")
      case True
      then have "processMultibulkBuffer cfg c = Inr (True, ?c)" using h by (simp add: processMultibulkBuffer_def)
      moreover have "completed c f (Bulk args) rs ?c" using m u(2) st(2) True by (simp add: completed_def)
      ultimately show ?thesis by blast
    next
      case False
      have p: "processMultibulkBuffer cfg c = bulk_loop cfg ?d" using h False by (simp add: processMultibulkBuffer_def)
      have i: "inside ?d f [] args ?rest" using m u(2) st by (simp add: inside_def buf_ok_def view_def)
      have q: "reqtype ?d = PROTO_REQ_MULTIBULK" "same_mode c ?d" using st(4) by (simp_all add: same_mode_def)
      have "(\<exists>c'. bulk_loop cfg ?d = Inr (True, c') \<and> completed ?d f (Bulk args) rs c') \<or>
          (\<exists>c'. bulk_loop cfg ?d = Inr (False, c') \<and> needs_more cfg ?d f (Bulk args # rs) c')"
        using inside_step [OF i False q(1), of cfg] r max by simp
      then show ?thesis unfolding p using mode_first [OF q(2)] by blast
    qed
  qed
qed

lemma inline_request:
  assumes ok: "buf_ok c" and st: "multibulklen c = 0" "argv c = []" "bulklen c = -1" "reqtype c = PROTO_REQ_INLINE" and ne: "view c \<noteq> []"
    and v: "view c @ f = concat (map enc_request (Inline line cr args # rs))" and r: "\<forall>r \<in> set (Inline line cr args # rs). req_ok cfg r"
  shows "(\<exists>c'. processInlineBuffer cfg c = Inr (True, c') \<and> completed c f (Inline line cr args) rs c') \<or>
    (\<exists>c'. processInlineBuffer cfg c = Inr (False, c') \<and> needs_more cfg c f (Inline line cr args # rs) c')"
proof -
  let ?l = "line @ (if cr then [13] else [])" and ?rest = "concat (map enc_request rs)"
  have l: "0 \<notin> set line" "10 \<notin> set line" "line \<noteq> [] \<longrightarrow> last line \<noteq> 13" "length line + 2 \<le> PROTO_INLINE_MAX_SIZE" "splits_into line args" using r by simp_all
  have v': "view c @ f = ?l @ 10 # ?rest" using v by (simp add: crlf_def)
  have fb: "find_byte 10 (view c) = (if length ?l < length (view c) then Some (length ?l) else None)" using find_byte_prefix [OF v'] l(1,2) by simp
  show ?thesis
  proof (cases "length ?l < length (view c)")
    case False
    have s: "length (view c) \<le> PROTO_INLINE_MAX_SIZE" using False l(4) by (simp split: if_splits)
    have f: "f \<noteq> []" using prefix_short [of "view c" f "?l @ [10]" ?rest] v' False by simp
    obtain c' where "processInlineBuffer cfg c = Inr (False, c')" "waits TooBigInline c c'" using inline_wait [OF ok] fb False by auto
    then have "processInlineBuffer cfg c = Inr (False, c)" using s by (simp add: waits_def)
    moreover have "expects cfg c f (Inline line cr args # rs)" using ok st v r ne by (simp add: expects_def)
    ultimately show ?thesis using s f by (intro disjI2 exI [of _ c]) (simp add: needs_more_def same_mode_def left_bound_def)
  next
    case True
    let ?k = "length ?l"
    obtain u where u: "view c = (?l @ [10]) @ u" "u @ f = ?rest" using prefix_split [of "view c" f "?l @ [10]" ?rest] v' True by auto
    have cr: "cr_before (view c) ?k = cr"
      using l(3) unfolding u(1) by (cases line rule: rev_cases) (auto simp: cr_before_def nth_append)
    have t: "inline_text (view c) ?k = line" unfolding inline_text_def cr unfolding u(1) by simp
    obtain vs where vs: "sdssplitargs (fresh_mem cfg) (line @ [0]) = Inr (Some vs)" "map sds_str vs = args" using l(5) by (auto simp: splits_into_def)
    have k: "find_byte 10 (view c) = Some ?k" using fb True by simp
    obtain s m as where p: "processInlineBuffer cfg c = Inr (True, c\<lparr>repl_ack_time := s, qb_pos := qb_pos c + (?k + 1), argv_size := m, argv := as\<rparr>)"
        "as = map (\<lambda>v. RawStr (sds_str v)) vs"
      using inline_line [OF ok k, of cfg] unfolding t vs(1) by (simp only: cbind_Inr option.case)
    let ?c = "c\<lparr>repl_ack_time := s, qb_pos := qb_pos c + (?k + 1), argv_size := m, argv := as\<rparr>"
    let ?m = "c\<lparr>qb_pos := qb_pos c + (?k + 1)\<rparr>"
    have m: "moved (?k + 1) c ?m" using moved_pos [OF ok, of "?k + 1"] True by simp
    have d: "drop (?k + 1) (view c) = u" unfolding u(1) by simp
    have "view ?m = u" using m unfolding moved_def d by blast
    then have "buf_ok ?c" "view ?c = u" using m by (simp_all add: moved_def buf_ok_def view_def)
    moreover have "map obj_str as = args" using p(2) vs(2) by auto
    ultimately have "completed c f (Inline line cr args) rs ?c" using u(2) by (simp add: completed_def same_mode_def)
    then show ?thesis using p(1) by blast
  qed
qed

lemma enc_nonempty: "enc_request r \<noteq> []"
  by (cases r) (auto simp: crlf_def)

lemma enc_kind: "req_ok cfg r \<Longrightarrow> (hd (enc_request r) = 42) = (kind r = PROTO_REQ_MULTIBULK)"
proof (cases r)
  case (Inline line cr args)
  assume "req_ok cfg r"
  then show ?thesis using Inline by (cases line) (auto simp: crlf_def PROTO_REQ_INLINE_def PROTO_REQ_MULTIBULK_def)
qed simp

lemma kind_cases: "kind r = PROTO_REQ_INLINE \<or> kind r = PROTO_REQ_MULTIBULK"
  by (cases r) simp_all

lemma next_request_step:
  assumes e: "expects cfg c f rs" and ne: "view c \<noteq> []" and max: "proto_max_bulk_len cfg < 2 ^ 60"
  shows "\<exists>t. (\<exists>c' r rs'. next_request cfg c = Inr (True, c') \<and> rs = r # rs' \<and> completed (c\<lparr>reqtype := t\<rparr>) f r rs' c') \<or>
    (\<exists>c'. next_request cfg c = Inr (False, c') \<and> needs_more cfg (c\<lparr>reqtype := t\<rparr>) f rs c')"
proof -
  have ok: "buf_ok c" and rok: "\<forall>r \<in> set rs. req_ok cfg r" using e by (simp_all add: expects_def)
  from e consider (start) "multibulklen c = 0" "argv c = []" "bulklen c = -1" "view c @ f = concat (map enc_request rs)" "reqtype c = 0 \<or> reqtype c = kind (hd rs)"
    | (mid) xs todo rs' where "todo \<noteq> []" "rs = Bulk (xs @ todo) # rs'" "reqtype c = PROTO_REQ_MULTIBULK" "inside c f xs todo (concat (map enc_request rs'))"
    by (auto simp: expects_def)
  then show ?thesis
  proof cases
    case mid
    have "multibulklen c \<noteq> 0" using mid(1,4) by (simp add: inside_def)
    then have n: "next_request cfg c = bulk_loop cfg c"
      using mid(3) by (simp add: next_request_def processMultibulkBuffer_def multibulk_header_def PROTO_REQ_INLINE_def PROTO_REQ_MULTIBULK_def)
    have c: "c\<lparr>reqtype := reqtype c\<rparr> = c" by (cases c) simp
    have "(\<exists>c'. bulk_loop cfg c = Inr (True, c') \<and> completed c f (Bulk (xs @ todo)) rs' c') \<or>
        (\<exists>c'. bulk_loop cfg c = Inr (False, c') \<and> needs_more cfg c f (Bulk (xs @ todo) # rs') c')"
      using inside_step [OF mid(4,1,3), of cfg] rok mid(2) max by simp
    then show ?thesis unfolding n mid(2) by (intro exI [of _ "reqtype c"]) (simp only: c list.inject, blast)
  next
    case start
    obtain r rs' where rs: "rs = r # rs'" using start(4) ne by (cases rs) auto
    let ?c = "c\<lparr>reqtype := kind r\<rparr>"
    have r: "req_ok cfg r" using rok rs by simp
    have "hd (view c @ f) = hd (enc_request r)" using start(4) enc_nonempty [of r] by (simp add: rs)
    then have "(hd (view c) = 42) = (kind r = PROTO_REQ_MULTIBULK)" using ne enc_kind [OF r] by simp
    moreover have "c\<lparr>reqtype := reqtype c\<rparr> = c" by (cases c) simp
    ultimately have "(if reqtype c = 0 then cbind (rd (sds_buf (querybuf c)) (qb_pos c)) (\<lambda>b.
        Inr (c\<lparr>reqtype := (if b = 42 then PROTO_REQ_MULTIBULK else PROTO_REQ_INLINE)\<rparr>)) else Inr c) = Inr ?c"
      using rd_view [OF ok ne] kind_cases [of r] start(5) by (auto simp: rs)
    then have n: "next_request cfg c = (if kind r = PROTO_REQ_INLINE then processInlineBuffer cfg ?c else processMultibulkBuffer cfg ?c)"
      unfolding next_request_def using kind_cases [of r] by auto
    have st: "buf_ok ?c" "multibulklen ?c = 0" "argv ?c = []" "bulklen ?c = -1" "reqtype ?c = kind r" "view ?c \<noteq> []" "view ?c @ f = concat (map enc_request (r # rs'))"
      using ok start ne by (simp_all add: rs)
    have "(\<exists>c'. next_request cfg c = Inr (True, c') \<and> completed ?c f r rs' c') \<or> (\<exists>c'. next_request cfg c = Inr (False, c') \<and> needs_more cfg ?c f (r # rs') c')"
    proof (cases r)
      case (Bulk args)
      then show ?thesis using bulk_request [OF st(1-4) _ st(6) _ _ max, of f args rs'] st(5,7) rok rs n by (simp add: PROTO_REQ_INLINE_def PROTO_REQ_MULTIBULK_def)
    next
      case (Inline line cr args)
      then show ?thesis using inline_request [OF st(1-4) _ st(6), of f line cr args rs' cfg] st(5,7) rok rs n by simp
    qed
    then show ?thesis unfolding rs by blast
  qed
qed

section \<open>All requests\<close>

text \<open>Commands that only change the state of the server, as a function of their arguments.\<close>

definition runs :: "'s runner \<Rightarrow> ('s \<Rightarrow> byte list list \<Rightarrow> 's) \<Rightarrow> bool" where
  "runs run g \<longleftrightarrow> (\<forall>st args fl. run st args fl = \<lparr>r_state = g st (map obj_str args), r_flags = fl, r_ok = True, r_alive = True\<rparr>)"

definition run_all :: "('s \<Rightarrow> byte list list \<Rightarrow> 's) \<Rightarrow> request list \<Rightarrow> 's \<Rightarrow> 's" where
  "run_all g rs st = fold (\<lambda>r st. if req_args r = [] then st else g st (req_args r)) rs st"

lemma expects_end: "expects cfg c f rs \<Longrightarrow> view c @ f = [] \<Longrightarrow> rs = []"
  unfolding expects_def
proof (elim conjE disjE exE)
  assume "view c @ f = []" "view c @ f = concat (map enc_request rs)"
  then show "rs = []" using enc_nonempty by (cases rs) auto
next
  fix xs todo rs'
  assume "view c @ f = []" "inside c f xs todo (concat (map enc_request rs'))" "todo \<noteq> []"
  then show "rs = []" by (cases todo) (auto simp: inside_def enc_bulk_def crlf_def)
qed (auto simp only: append_is_Nil_conv)

lemma expects_reset:
  assumes "buf_ok c" and "view c @ f = concat (map enc_request rs)" and "\<forall>r \<in> set rs. req_ok cfg r"
  shows "expects cfg (resetClient c) f rs"
proof -
  have "multibulklen (resetClient c) = 0" "argv (resetClient c) = []" "bulklen (resetClient c) = -1" "reqtype (resetClient c) = 0"
    by (simp_all add: resetClient_def)
  then show ?thesis using assms by (simp add: expects_def)
qed

lemma after_reset: "r_ok r \<Longrightarrow> \<not> CLIENT_BLOCKED (r_flags r) \<Longrightarrow> \<exists>o'. after_command r c = resetClient (c\<lparr>client_flags := r_flags r, reploff := o'\<rparr>)"
  by (rule exI [of _ "if CLIENT_MASTER (r_flags r) \<and> \<not> CLIENT_MULTI (r_flags r) then read_reploff c - int (sdslen (querybuf c)) + int (qb_pos c) else reploff c"], cases c)
    (simp add: after_command_def Let_def)

text \<open>What the client keeps besides its buffer and the state of the parser.\<close>

definition same_client :: "client \<Rightarrow> client \<Rightarrow> bool" where
  "same_client c c' \<longleftrightarrow> client_flags c' = client_flags c \<and> errors c' = errors c \<and> sdslen (querybuf c') \<le> sdslen (querybuf c)"

lemma same_client_trans: "same_client c c' \<Longrightarrow> same_client c' c'' \<Longrightarrow> same_client c c''"
  by (simp add: same_client_def)

lemma mode_client: "same_mode (c\<lparr>reqtype := t\<rparr>) c' \<Longrightarrow> same_client c c'"
  by (simp add: same_mode_def same_client_def)

lemma loop_step:
  assumes e: "expects cfg c f rs" and max: "proto_max_bulk_len cfg < 2 ^ 60" and w: "\<not> must_wait cfg (client_flags c)" and run: "runs run g" and ne: "view c \<noteq> []"
  shows "(\<exists>c'. input_turn cfg run st c = Inr (Leave st c' True) \<and> expects cfg c' f rs \<and> same_client c c' \<and> f \<noteq> [] \<and> length (view c') \<le> left_bound cfg) \<or>
    (\<exists>c' r rs'. input_turn cfg run st c = Inr (Again (run_all g [r] st) c') \<and> rs = r # rs' \<and> expects cfg c' f rs' \<and> same_client c c')"
proof -
  have p: "qb_pos c < sdslen (querybuf c)" using e ne view_empty [of c] by (auto simp: expects_def)
  have rok: "\<forall>r \<in> set rs. req_ok cfg r" using e by (simp add: expects_def)
  obtain t where "(\<exists>c' r rs'. next_request cfg c = Inr (True, c') \<and> rs = r # rs' \<and> completed (c\<lparr>reqtype := t\<rparr>) f r rs' c') \<or>
      (\<exists>c'. next_request cfg c = Inr (False, c') \<and> needs_more cfg (c\<lparr>reqtype := t\<rparr>) f rs c')"
    using next_request_step [OF e ne max] by blast
  then show ?thesis
  proof (elim disjE exE conjE)
    fix c'
    assume "next_request cfg c = Inr (False, c')" "needs_more cfg (c\<lparr>reqtype := t\<rparr>) f rs c'"
    then show ?thesis using p w mode_client by (intro disjI1 exI [of _ c']) (auto simp: input_turn_def needs_more_def)
  next
    fix c' r rs'
    assume n: "next_request cfg c = Inr (True, c')" "rs = r # rs'" "completed (c\<lparr>reqtype := t\<rparr>) f r rs' c'"
    have c': "map obj_str (argv c') = req_args r" "buf_ok c'" "view c' @ f = concat (map enc_request rs')" "same_client c c'"
      using n(3) mode_client by (auto simp: completed_def)
    have args: "argv c' = [] \<longleftrightarrow> req_args r = []" using c'(1) by auto
    show ?thesis
    proof (cases "argv c' = []")
      case True
      have "input_turn cfg run st c = Inr (Again (run_all g [r] st) (resetClient c'))" using n(1) p w True args by (simp add: input_turn_def run_all_def)
      moreover have "expects cfg (resetClient c') f rs'" using expects_reset [OF c'(2,3)] rok n(2) by simp
      moreover have "same_client c (resetClient c')" using c'(4) by (simp add: same_client_def resetClient_def)
      ultimately show ?thesis using n(2) by blast
    next
      case False
      define res where "res = run st (argv c') (client_flags c')"
      have res: "r_state res = g st (req_args r)" "r_flags res = client_flags c'" "r_ok res" "r_alive res" using run c'(1) by (simp_all add: runs_def res_def)
      have "\<not> CLIENT_BLOCKED (r_flags res)" using w c'(4) res(2) by (simp add: must_wait_def same_client_def)
      then obtain o' where a: "after_command res c' = resetClient (c'\<lparr>client_flags := client_flags c', reploff := o'\<rparr>)"
        using after_reset [OF res(3)] res(2) by metis
      let ?d = "c'\<lparr>client_flags := client_flags c', reploff := o'\<rparr>"
      have "input_turn cfg run st c = Inr (Again (run_all g [r] st) (resetClient ?d))"
        using n(1) p w False args res unfolding a [symmetric] input_turn_def by (simp add: Let_def res_def [symmetric] run_all_def)
      moreover have "expects cfg (resetClient ?d) f rs'" using expects_reset [of ?d f rs' cfg] c'(2,3) rok n(2) by (simp add: buf_ok_def view_def)
      moreover have "same_client c (resetClient ?d)" using c'(4) by (simp add: same_client_def resetClient_def)
      ultimately show ?thesis using n(2) by blast
    qed
  qed
qed

lemma run_all_append: "run_all g (xs @ ys) st = run_all g ys (run_all g xs st)"
  by (simp add: run_all_def)

lemma input_loop_runs:
  assumes "expects cfg c f rs" and "proto_max_bulk_len cfg < 2 ^ 60" and "\<not> must_wait cfg (client_flags c)" and "runs run g"
  shows "\<exists>c' xs ys. input_loop cfg run st c = Some (Inr (run_all g xs st, c', True)) \<and> rs = xs @ ys \<and> expects cfg c' f ys \<and> same_client c c' \<and>
    length (view c') \<le> left_bound cfg \<and> (f = [] \<longrightarrow> ys = [])"
  using assms(1,3)
proof (induction "length rs" arbitrary: c rs st rule: less_induct)
  case less
  show ?case
  proof (cases "view c = []")
    case True
    then have "input_turn cfg run st c = Inr (Leave st c True)" using less.prems(1) view_empty [of c] by (auto simp: input_turn_def expects_def)
    then have "input_loop cfg run st c = Some (Inr (run_all g [] st, c, True))" by (subst input_loop.simps) (simp add: run_all_def)
    moreover have "f = [] \<longrightarrow> rs = []" using expects_end [OF less.prems(1)] True by simp
    ultimately show ?thesis using less.prems True by (intro exI [of _ c] exI [of _ "[]"] exI [of _ rs]) (simp add: same_client_def)
  next
    case False
    from loop_step [OF less.prems(1) assms(2) less.prems(2) assms(4) False, of st] show ?thesis
    proof (elim disjE exE conjE)
      fix c'
      assume c': "input_turn cfg run st c = Inr (Leave st c' True)" "expects cfg c' f rs" "same_client c c'" "f \<noteq> []" "length (view c') \<le> left_bound cfg"
      have "input_loop cfg run st c = Some (Inr (run_all g [] st, c', True))" using c'(1) by (subst input_loop.simps) (simp add: run_all_def)
      then show ?thesis using c' by (intro exI [of _ c'] exI [of _ "[]"] exI [of _ rs]) simp
    next
      fix d r rs'
      assume d: "input_turn cfg run st c = Inr (Again (run_all g [r] st) d)" "rs = r # rs'" "expects cfg d f rs'" "same_client c d"
      have w: "\<not> must_wait cfg (client_flags d)" using less.prems(2) d(4) by (simp add: same_client_def)
      obtain c' xs ys where c': "input_loop cfg run (run_all g [r] st) d = Some (Inr (run_all g xs (run_all g [r] st), c', True))" "rs' = xs @ ys" "expects cfg c' f ys"
          "same_client d c'" "length (view c') \<le> left_bound cfg" "f = [] \<longrightarrow> ys = []"
        using less.hyps [OF _ d(3) w, of "run_all g [r] st"] d(2) by auto
      have "input_loop cfg run st c = Some (Inr (run_all g ([r] @ xs) st, c', True))" using d(1) c'(1) unfolding run_all_append by (subst input_loop.simps) simp
      then show ?thesis using c' d(2) same_client_trans [OF d(4)] by (intro exI [of _ c'] exI [of _ "[r] @ xs"] exI [of _ ys]) simp
    qed
  qed
qed

lemma expects_buffer:
  assumes e: "expects cfg c (b @ f) rs" and c': "buf_ok c'" "view c' = view c @ b" "argv c' = argv c" "argv_size c' = argv_size c" "multibulklen c' = multibulklen c"
    "bulklen c' = bulklen c" "reqtype c' = reqtype c"
  shows "expects cfg c' f rs"
proof -
  have "inside c (b @ f) xs todo rest \<Longrightarrow> inside c' f xs todo rest" for xs todo rest using c' by (auto simp: inside_def)
  then show ?thesis using e c' unfolding expects_def by (auto 0 4)
qed

lemma expects_parse_ok:
  assumes "expects cfg c f rs"
  shows "parse_ok c"
  using assms unfolding expects_def
proof (elim conjE disjE exE)
  assume c: "multibulklen c = 0" "argv c = []" "bulklen c = -1" "reqtype c = 0"
  then show ?thesis by (simp add: parse_ok_def PROTO_REQ_MULTIBULK_def)
next
  assume c: "multibulklen c = 0" "argv c = []" "bulklen c = -1" "view c @ f = concat (map enc_request rs)" "view c \<noteq> []" "reqtype c = kind (hd rs)" "\<forall>r \<in> set rs. req_ok cfg r"
  then obtain r rs' where rs: "rs = r # rs'" by (cases rs) auto
  have "hd (view c) = hd (enc_request r)" using c(4,5) enc_nonempty [of r] unfolding rs by (metis concat.simps(2) hd_append2 list.simps(9))
  then show ?thesis using c enc_kind [of cfg r] kind_cases [of r] by (auto simp: rs parse_ok_def)
next
  fix xs todo rs'
  assume c: "todo \<noteq> []" "reqtype c = PROTO_REQ_MULTIBULK" "inside c f xs todo (concat (map enc_request rs'))"
  then have "length (argv c) = length xs" by (metis inside_def length_map)
  then show ?thesis using c by (auto simp: parse_ok_def inside_def)
qed

text \<open>Events on the socket: each reads a piece of the stream, of any size up to what is asked for.\<close>

fun serve :: "proto_cfg \<Rightarrow> 's runner \<Rightarrow> nat list \<Rightarrow> byte list \<Rightarrow> 's \<Rightarrow> client \<Rightarrow> ('s \<times> client option \<times> byte list) cres option" where
  "serve cfg run [] stream st c = Some (Inr (st, Some c, stream))"
| "serve cfg run (n # ns) stream st c =
     (if stream = [] then Some (Inr (st, Some c, stream))
      else
        let k = min (Suc n) (read_len c) in
        obind (readQueryFromClient cfg run (\<lambda>_. ReadData (take k stream)) st c) (\<lambda>(st, c', _).
        case c' of None \<Rightarrow> Some (Inr (st, None, drop k stream)) | Some c' \<Rightarrow> serve cfg run ns (drop k stream) st c'))"

text \<open>The limit of the buffer leaves room for one argument, one line and one read.\<close>

definition limits_ok :: "proto_cfg \<Rightarrow> bool" where
  "limits_ok cfg \<longleftrightarrow> cfg_ok cfg \<and> left_bound cfg + PROTO_IOBUF_LEN \<le> client_max_querybuf_len cfg"

text \<open>Between events.\<close>

definition settled :: "proto_cfg \<Rightarrow> client \<Rightarrow> byte list \<Rightarrow> request list \<Rightarrow> bool" where
  "settled cfg c f rs \<longleftrightarrow> expects cfg c f rs \<and> \<not> must_wait cfg (client_flags c) \<and> \<not> CLIENT_MASTER (client_flags c) \<and> qb_pos c = 0 \<and> length (view c) \<le> left_bound cfg"

lemma process_input_runs:
  assumes e: "expects cfg c f rs" and l: "limits_ok cfg" and w: "\<not> must_wait cfg (client_flags c)" "\<not> CLIENT_MASTER (client_flags c)" and run: "runs run g"
  shows "\<exists>c' xs ys. processInputBufferAndReplicate cfg run st c = Some (Inr (run_all g xs st, Some c', [])) \<and> rs = xs @ ys \<and> settled cfg c' f ys \<and>
    errors c' = errors c \<and> client_flags c' = client_flags c \<and> (f = [] \<longrightarrow> ys = [])"
proof -
  have max: "proto_max_bulk_len cfg < 2 ^ 60" using l by (simp add: limits_ok_def cfg_ok_def)
  obtain d xs ys where d: "input_loop cfg run st c = Some (Inr (run_all g xs st, d, True))" "rs = xs @ ys" "expects cfg d f ys" "same_client c d"
      "length (view d) \<le> left_bound cfg" "f = [] \<longrightarrow> ys = []" using input_loop_runs [OF e max w(1) run] by blast
  have ok: "buf_ok d" using d(3) by (simp add: expects_def)
  show ?thesis
  proof (cases "qb_pos d = 0")
    case True
    then have "processInputBufferAndReplicate cfg run st c = Some (Inr (run_all g xs st, Some d, []))"
      using d(1) w(2) by (simp add: processInputBufferAndReplicate_def processInputBuffer_def)
    then show ?thesis using True d w by (intro exI [of _ d] exI [of _ xs] exI [of _ ys]) (simp add: settled_def same_client_def)
  next
    case False
    obtain q where q: "sdsrange (querybuf d) (int (qb_pos d)) (-1) = Inr q" "sds_ok q" "sds_str q = view d" "sdslen q = length (view d)" using trim_view [OF ok] by blast
    let ?d = "d\<lparr>querybuf := q, qb_pos := 0\<rparr>"
    have v: "view ?d = view d @ []" using q(3) by (simp add: view_def)
    have "length (view d) \<le> sdslen (querybuf d)" using length_view [OF ok] by simp
    then have b: "buf_ok ?d" using q ok by (simp add: buf_ok_def)
    have "expects cfg ?d f ys" using expects_buffer [of cfg d "[]" f ys ?d] d(3) b v by simp
    moreover have "processInputBufferAndReplicate cfg run st c = Some (Inr (run_all g xs st, Some ?d, []))"
      using d(1) w(2) False q(1) by (simp add: processInputBufferAndReplicate_def processInputBuffer_def)
    ultimately show ?thesis using d w v by (intro exI [of _ ?d] exI [of _ xs] exI [of _ ys]) (simp add: settled_def same_client_def)
  qed
qed

lemma settled_inv:
  assumes s: "settled cfg c f rs" and l: "limits_ok cfg"
  shows "client_inv cfg c" "sdslen (querybuf c) \<le> left_bound cfg"
proof -
  have x: "expects cfg c f rs" using s by (simp add: settled_def)
  then have e: "buf_ok c" "parse_ok c" using expects_parse_ok [OF x] by (simp_all add: expects_def)
  have "qb_pos c = 0" "length (view c) \<le> left_bound cfg" using s by (simp_all add: settled_def)
  then show b: "sdslen (querybuf c) \<le> left_bound cfg" using length_view [OF e(1)] by simp
  then show "client_inv cfg c" using e s l by (simp add: client_inv_def settled_def limits_ok_def)
qed

lemma event_runs:
  assumes s: "settled cfg c (bs @ f) rs" and l: "limits_ok cfg" and run: "runs run g" and bs: "sock (read_len c) = ReadData bs" "bs \<noteq> []" "length bs \<le> read_len c"
  shows "\<exists>c' xs ys. readQueryFromClient cfg run sock st c = Some (Inr (run_all g xs st, Some c', [])) \<and> rs = xs @ ys \<and> settled cfg c' f ys \<and>
    errors c' = errors c \<and> (f = [] \<longrightarrow> ys = [])"
proof -
  have cfg: "cfg_ok cfg" using l by (simp add: limits_ok_def)
  obtain q m t where d: "let c' = c\<lparr>querybuf := q, querybuf_peak := m, lastinteraction := t\<rparr> in
      sds_str q = sds_str (querybuf c) @ bs \<and> sdslen q = sdslen (querybuf c) + length bs \<and>
      (sdslen q \<le> client_max_querybuf_len cfg \<longrightarrow> client_inv cfg c' \<and> view c' = view c @ bs) \<and>
      readQueryFromClient cfg run sock st c =
        (if sdslen q > client_max_querybuf_len cfg then Some (Inr (st, None, [])) else processInputBufferAndReplicate cfg run st c')"
    using read_query_data [where sock = sock, OF settled_inv(1) [OF s l] cfg bs, of run st] by blast
  let ?c = "c\<lparr>querybuf := q, querybuf_peak := m, lastinteraction := t\<rparr>"
  have "sdslen q \<le> left_bound cfg + PROTO_IOBUF_LEN" using d settled_inv(2) [OF s l] bs(3) read_len_bound(1) [of c] by (simp add: Let_def)
  then have q: "sdslen q \<le> client_max_querybuf_len cfg" using l by (simp add: limits_ok_def)
  have r: "readQueryFromClient cfg run sock st c = processInputBufferAndReplicate cfg run st ?c" "client_inv cfg ?c" "view ?c = view c @ bs"
    using d q by (simp_all add: Let_def)
  have e: "expects cfg ?c f rs" using expects_buffer [of cfg c bs f rs ?c] s r(2,3) by (simp add: settled_def client_inv_def)
  have w: "\<not> must_wait cfg (client_flags ?c)" "\<not> CLIENT_MASTER (client_flags ?c)" using s by (simp_all add: settled_def)
  obtain c' xs ys where "processInputBufferAndReplicate cfg run st ?c = Some (Inr (run_all g xs st, Some c', []))" "rs = xs @ ys" "settled cfg c' f ys"
      "errors c' = errors ?c" "f = [] \<longrightarrow> ys = []" using process_input_runs [OF e l w run, of st] by blast
  then show ?thesis unfolding r(1) by (intro exI [of _ c'] exI [of _ xs] exI [of _ ys]) simp
qed

lemma serve_runs:
  assumes "settled cfg c stream rs" and "limits_ok cfg" and "runs run g"
  shows "\<exists>c' rest xs ys. serve cfg run ns stream st c = Some (Inr (run_all g xs st, Some c', rest)) \<and> rs = xs @ ys \<and> errors c' = errors c \<and>
    settled cfg c' rest ys \<and> (rest = [] \<longrightarrow> stream = [] \<or> ys = []) \<and> length rest \<le> length stream - length ns"
  using assms(1)
proof (induction ns arbitrary: stream rs st c)
  case Nil
  then show ?case by (intro exI [of _ c] exI [of _ stream] exI [of _ "[]"] exI [of _ rs]) (simp add: run_all_def)
next
  case (Cons n ns)
  show ?case
  proof (cases "stream = []")
    case True
    then show ?thesis using Cons.prems by (intro exI [of _ c] exI [of _ stream] exI [of _ "[]"] exI [of _ rs]) (simp add: run_all_def)
  next
    case False
    let ?k = "min (Suc n) (read_len c)"
    let ?bs = "take ?k stream" and ?f = "drop ?k stream"
    have k: "0 < ?k" using read_len_bound(2) [of c] by simp
    have bs: "?bs \<noteq> []" "length ?bs \<le> read_len c" using k False by auto
    have s: "settled cfg c (?bs @ ?f) rs" using Cons.prems by simp
    obtain d xs ys where d: "readQueryFromClient cfg run (\<lambda>_. ReadData ?bs) st c = Some (Inr (run_all g xs st, Some d, []))" "rs = xs @ ys" "settled cfg d ?f ys"
        "errors d = errors c" "?f = [] \<longrightarrow> ys = []"
      using event_runs [where sock = "\<lambda>_. ReadData ?bs", OF s assms(2,3) refl bs, of st] by blast
    obtain c' rest zs ws where c': "serve cfg run ns ?f (run_all g xs st) d = Some (Inr (run_all g zs (run_all g xs st), Some c', rest))" "ys = zs @ ws"
        "errors c' = errors d" "settled cfg c' rest ws" "rest = [] \<longrightarrow> ?f = [] \<or> ws = []" "length rest \<le> length ?f - length ns"
      using Cons.IH [OF d(3), of "run_all g xs st"] by blast
    have "serve cfg run (n # ns) stream st c = Some (Inr (run_all g (xs @ zs) st, Some c', rest))" using False d(1) c'(1) by (simp add: Let_def run_all_append)
    moreover have "rest = [] \<longrightarrow> ws = []" using c'(2,5) d(5) by auto
    moreover have "length rest \<le> length stream - length (n # ns)" using c'(6) k by simp
    ultimately show ?thesis using d(2,4) c' by (intro exI [of _ c'] exI [of _ rest] exI [of _ "xs @ zs"] exI [of _ ws]) simp
  qed
qed

section \<open>Properties\<close>

text \<open>A client between two requests, with nothing in its buffer.\<close>

definition idle :: "proto_cfg \<Rightarrow> client \<Rightarrow> bool" where
  "idle cfg c \<longleftrightarrow> buf_ok c \<and> view c = [] \<and> qb_pos c = 0 \<and> argv c = [] \<and> multibulklen c = 0 \<and> bulklen c = -1 \<and> reqtype c = 0 \<and>
     \<not> must_wait cfg (client_flags c) \<and> \<not> CLIENT_MASTER (client_flags c)"

text \<open>C11: The parser inverts the encoding of requests however the bytes are cut. A client sends any sequence of requests, arrays of binary-safe strings or
  inline lines, within the limits of the protocol. The events on its socket read pieces of any sizes. At every moment a prefix of the requests
  has been run, each once, in order and with exactly its arguments, without a protocol error. After as many events as the stream has bytes,
  or as soon as all of it has been read, all requests have been run and the client is idle with an empty buffer.\<close>

theorem client_stream_correct:
  assumes "\<forall>r \<in> set rs. req_ok cfg r" and "limits_ok cfg" and "runs run g" and "idle cfg c"
  shows "\<exists>c' rest xs ys. serve cfg run ns (concat (map enc_request rs)) st c = Some (Inr (run_all g xs st, Some c', rest)) \<and> rs = xs @ ys \<and>
    errors c' = errors c \<and> length rest \<le> length (concat (map enc_request rs)) - length ns \<and> (rest = [] \<longrightarrow> ys = [] \<and> idle cfg c')"
proof -
  have s: "settled cfg c (concat (map enc_request rs)) rs" using assms(1,4) by (simp add: settled_def expects_def idle_def)
  obtain c' rest xs ys where c': "serve cfg run ns (concat (map enc_request rs)) st c = Some (Inr (run_all g xs st, Some c', rest))" "rs = xs @ ys" "errors c' = errors c"
      "settled cfg c' rest ys" "rest = [] \<longrightarrow> concat (map enc_request rs) = [] \<or> ys = []" "length rest \<le> length (concat (map enc_request rs)) - length ns"
    using serve_runs [OF s assms(2,3)] by blast
  have ys: "ys = []" if "rest = []" using c'(2,5) that enc_nonempty by (cases ys) auto
  have "idle cfg c'" if "rest = []" using c'(4) ys [OF that] that by (auto simp: idle_def settled_def expects_def)
  then show ?thesis using c' ys by blast
qed

theorem client_stream_correct_witness:
  "\<exists>cfg c c'. cfg = \<lparr>proto_max_bulk_len = 536870912, client_max_querybuf_len = 1073741824, clients_paused = False, lua_timedout = False, unixtime = 0, fresh_mem = (\<lambda>n. 7)\<rparr> \<and>
    createClient cfg = Inr c \<and>
    serve cfg (\<lambda>st args fl. \<lparr>r_state = st @ [map obj_str args], r_flags = fl, r_ok = True, r_alive = True\<rparr>) (replicate 60 2)
      (concat (map enc_request [Bulk [bytes ''GET'', [0, 13, 10]], Bulk [], Inline (quoted (bytes ''PING'')) True [bytes ''PING'']])) [] c =
      Some (Inr ([[bytes ''GET'', [0, 13, 10]], [bytes ''PING'']], Some c', []))"
proof -
  let ?cfg = "\<lparr>proto_max_bulk_len = 536870912, client_max_querybuf_len = 1073741824, clients_paused = False, lua_timedout = False, unixtime = 0, fresh_mem = (\<lambda>n. 7)\<rparr>"
  let ?run = "\<lambda>st args fl. \<lparr>r_state = st @ [map obj_str args], r_flags = fl, r_ok = True, r_alive = True\<rparr>"
  let ?rs = "[Bulk [bytes ''GET'', [0, 13, 10]], Bulk [], Inline (quoted (bytes ''PING'')) True [bytes ''PING'']]"
  obtain c where c: "createClient ?cfg = Inr c" "idle ?cfg c" using createClient_ok [of ?cfg] by (auto simp: idle_def must_wait_def)
  have sp: "splits_into (quoted (bytes ''PING'')) [bytes ''PING'']"
  proof -
    have l: "quoted (bytes ''PING'') @ [0] = join_with [32] (map quoted [bytes ''PING'']) @ 0 # []" "\<forall>x \<in> set [bytes ''PING'']. length x < 2 ^ 62" by (simp_all add: bytes_def)
    have "\<exists>vs. sdssplitargs junk (quoted (bytes ''PING'') @ [0]) = Inr (Some vs) \<and> map sds_str vs = [bytes ''PING'']" for junk
      using splitargs_line [OF l, of junk] by (elim exE conjE) (intro exI conjI)
    then show ?thesis by (simp only: splits_into_def) blast
  qed
  have qt: "quoted [80, 73, 78, 71] = [34, 80, 73, 78, 71, 34]" by code_simp
  have rs: "\<forall>r \<in> set ?rs. req_ok ?cfg r" using sp by (simp add: bytes_def qt PROTO_INLINE_MAX_SIZE_def)
  have l: "limits_ok ?cfg" by (simp add: limits_ok_def cfg_ok_def left_bound_def PROTO_INLINE_MAX_SIZE_def PROTO_IOBUF_LEN_def)
  have run: "runs ?run (\<lambda>st args. st @ [args])" by (simp add: runs_def)
  have len: "length (concat (map enc_request ?rs)) \<le> length (replicate 60 (2 :: nat))"
    by (simp add: enc_bulk_def crlf_def sdec_def dec_small bytes_def qt)
  obtain c' rest xs ys where s: "serve ?cfg ?run (replicate 60 2) (concat (map enc_request ?rs)) [] c = Some (Inr (run_all (\<lambda>st args. st @ [args]) xs [], Some c', rest))" "?rs = xs @ ys"
      "length rest \<le> length (concat (map enc_request ?rs)) - length (replicate 60 (2 :: nat))" "rest = [] \<longrightarrow> ys = []"
    using client_stream_correct [OF rs l run c(2), of "replicate 60 2" "[]"] by blast
  have "rest = []" using s(3) len by simp
  then have "serve ?cfg ?run (replicate 60 2) (concat (map enc_request ?rs)) [] c = Some (Inr (run_all (\<lambda>st args. st @ [args]) ?rs [], Some c', []))" using s(1,2,4) by simp
  moreover have "run_all (\<lambda>st args. st @ [args]) ?rs [] = [[bytes ''GET'', [0, 13, 10]], [bytes ''PING'']]" by (simp add: run_all_def)
  ultimately show ?thesis using c(1) by (intro exI [of _ ?cfg] exI [of _ c] exI [of _ c']) (simp only: simp_thms)
qed

end
