(* ===== verification/Db.thy ===== *)
theory Db
  imports Numconv "HOL-Library.Mapping"
begin

text \<open>
  The key space: \<open>db.c\<close> with \<open>SET\<close> and \<open>GET\<close> of \<open>t_string.c\<close>, the commands of \<open>expire.c\<close> and the touching of watched keys
  of \<open>multi.c\<close>. The dictionaries of a database are mappings, as \<open>Dict\<close> implements them. Clients are objects in a heap: the clients that watch a key
  are found from the key, and the keys that a client watches from the client. Values are of any type, with the type tag of the object as an argument; their
  access times and reference counts are not modelled, nor are cluster mode, keyspace events, the eviction of keys when memory is short, and the service of blocked
  clients. The configuration does not change, and the clock stands still while one event is handled. A reply is logged, not encoded. Of what is sent to replicas,
  the log has the start of a transaction and the deletion of expired keys.
\<close>

section \<open>State\<close>

type_synonym mkey = "byte list"

datatype obj_type = OBJ_STRING | OBJ_LIST | OBJ_SET | OBJ_ZSET | OBJ_HASH | OBJ_MODULE | OBJ_STREAM

datatype set_cond = OBJ_SET_NO_FLAGS | OBJ_SET_NX | OBJ_SET_XX

datatype time_unit = UNIT_SECONDS | UNIT_MILLISECONDS

text \<open>The commands that are run by \<open>call\<close>, with their arguments as strings.\<close>

datatype 'v tcmd =
    SetCmd set_cond mkey 'v "(byte list \<times> time_unit) option"
  | GetCmd mkey
  | DelCmd bool "mkey list"
  | ExistsCmd "mkey list"
  | ExpireCmd bool time_unit mkey "byte list"  \<comment> \<open>relative to the clock or absolute\<close>
  | TtlCmd bool mkey
  | PersistCmd mkey
  | RenameCmd bool mkey mkey
  | MoveCmd mkey "byte list"
  | SwapdbCmd "byte list" "byte list"
  | SelectCmd "byte list"
  | FlushdbCmd "byte list list"
  | FlushallCmd "byte list list"
  | UnwatchCmd

record 'v redisDb =
  db_dict :: "(mkey, 'v) mapping"
  db_expires :: "(mkey, int) mapping"
  db_watched_keys :: "(mkey, nat list) mapping"
  db_blocking_keys :: "mkey list"
  db_ready_keys :: "mkey set"

record 'v mclient =
  mc_db :: nat
  watched_keys :: "(nat \<times> mkey) list"
  commands :: "'v tcmd list"
  cmd_flags_write :: bool
  CLIENT_MULTI :: bool
  CLIENT_DIRTY_CAS :: bool
  CLIENT_DIRTY_EXEC :: bool
  CLIENT_MASTER :: bool

datatype 'v mreply = RpOk | RpQueued | RpError string | RpExecAbort | RpNullMultiBulk | RpMultiBulkLen nat | RpInt int | RpNullBulk | RpBulk 'v

datatype prop_item = PropMulti nat | PropDel bool nat mkey

record 'v mserver =
  dbs :: "nat \<Rightarrow> 'v redisDb"
  client_list :: "nat list"
  client_heap :: "nat \<rightharpoonup> 'v mclient"
  replies :: "(nat \<times> 'v mreply) list"
  srv_ready_keys :: "(nat \<times> mkey) list"
  slaveKeysWithExpire :: "(mkey \<times> nat) set"
  prop_log :: "prop_item list"
  monitor_feed :: "(nat \<times> nat) list"
  server_dirty :: int
  clock :: int             \<comment> \<open>what \<open>mstime()\<close> gives\<close>
  server_mstime :: int     \<comment> \<open>the time cached when the command was called\<close>
  stat_expiredkeys :: nat
  stat_keyspace_hits :: nat
  stat_keyspace_misses :: nat

record 'v mcfg =
  val_otype :: "'v \<Rightarrow> obj_type"
  dbnum :: nat
  srv_loading :: bool
  srv_masterhost :: bool
  srv_master :: "nat option"
  repl_slave_ro :: bool
  lazyfree_lazy_expire :: bool
  srv_monitors :: bool

definition get_client :: "'v mserver \<Rightarrow> nat \<Rightarrow> 'v mclient cres" where
  "get_client S i = (case client_heap S i of None \<Rightarrow> Inl NullDeref | Some c \<Rightarrow> Inr c)"

definition put_client :: "nat \<Rightarrow> 'v mclient \<Rightarrow> 'v mserver \<Rightarrow> 'v mserver" where
  "put_client i c S = S\<lparr>client_heap := (client_heap S)(i \<mapsto> c)\<rparr>"

definition upd_db :: "nat \<Rightarrow> ('v redisDb \<Rightarrow> 'v redisDb) \<Rightarrow> 'v mserver \<Rightarrow> 'v mserver" where
  "upd_db db f S = S\<lparr>dbs := (dbs S)(db := f (dbs S db))\<rparr>"

definition addReply :: "nat \<Rightarrow> 'v mreply \<Rightarrow> 'v mserver \<Rightarrow> 'v mserver" where
  "addReply i r S = S\<lparr>replies := replies S @ [(i, r)]\<rparr>"

definition add_dirty :: "int \<Rightarrow> 'v mserver \<Rightarrow> 'v mserver" where
  "add_dirty n S = S\<lparr>server_dirty := server_dirty S + n\<rparr>"

section \<open>Touching watched keys\<close>

fun mark_dirty :: "nat list \<Rightarrow> 'v mserver \<Rightarrow> 'v mserver cres" where
  "mark_dirty [] S = Inr S"
| "mark_dirty (i # is) S = cbind (get_client S i) (\<lambda>c. mark_dirty is (put_client i (c\<lparr>CLIENT_DIRTY_CAS := True\<rparr>) S))"

definition touchWatchedKey :: "nat \<Rightarrow> mkey \<Rightarrow> 'v mserver \<Rightarrow> 'v mserver cres" where
  "touchWatchedKey db key S = (case Mapping.lookup (db_watched_keys (dbs S db)) key of None \<Rightarrow> Inr S | Some clients \<Rightarrow> mark_dirty clients S)"

fun flush_loop :: "nat option \<Rightarrow> nat list \<Rightarrow> 'v mserver \<Rightarrow> 'v mserver cres" where
  "flush_loop dbid [] S = Inr S"
| "flush_loop dbid (i # is) S =
     cbind (get_client S i) (\<lambda>c.
     let hit = list_ex (\<lambda>(db, key). (dbid = None \<or> dbid = Some db) \<and> Mapping.lookup (db_dict (dbs S db)) key \<noteq> None) (watched_keys c) in
     flush_loop dbid is (if hit then put_client i (c\<lparr>CLIENT_DIRTY_CAS := True\<rparr>) S else S))"

text \<open>\<open>None\<close> stands for the \<open>-1\<close> of all databases.\<close>

definition touchWatchedKeysOnFlush :: "nat option \<Rightarrow> 'v mserver \<Rightarrow> 'v mserver cres" where
  "touchWatchedKeysOnFlush dbid S = flush_loop dbid (client_list S) S"

definition signalModifiedKey :: "nat \<Rightarrow> mkey \<Rightarrow> 'v mserver \<Rightarrow> 'v mserver cres" where
  "signalModifiedKey db key S = touchWatchedKey db key S"

definition signalFlushedDb :: "nat option \<Rightarrow> 'v mserver \<Rightarrow> 'v mserver cres" where
  "signalFlushedDb dbid S = touchWatchedKeysOnFlush dbid S"

section \<open>Keys, values and times to live\<close>

definition signalKeyAsReady :: "nat \<Rightarrow> mkey \<Rightarrow> 'v mserver \<Rightarrow> 'v mserver" where
  "signalKeyAsReady db key S =
     (if key \<notin> set (db_blocking_keys (dbs S db)) \<or> key \<in> db_ready_keys (dbs S db) then S
      else upd_db db (\<lambda>d. d\<lparr>db_ready_keys := insert key (db_ready_keys d)\<rparr>) (S\<lparr>srv_ready_keys := srv_ready_keys S @ [(db, key)]\<rparr>))"

definition lookupKey :: "nat \<Rightarrow> mkey \<Rightarrow> 'v mserver \<Rightarrow> 'v option" where
  "lookupKey db key S = Mapping.lookup (db_dict (dbs S db)) key"

definition dbAdd_k :: "'v mcfg \<Rightarrow> nat \<Rightarrow> mkey \<Rightarrow> 'v \<Rightarrow> 'v mserver \<Rightarrow> 'v mserver cres" where
  "dbAdd_k cfg db key v S =
     (if Mapping.lookup (db_dict (dbs S db)) key \<noteq> None then Inl AssertFailed
      else
        let S = upd_db db (\<lambda>d. d\<lparr>db_dict := Mapping.update key v (db_dict d)\<rparr>) S in
        Inr (if val_otype cfg v = OBJ_LIST \<or> val_otype cfg v = OBJ_ZSET then signalKeyAsReady db key S else S))"

definition dbOverwrite :: "nat \<Rightarrow> mkey \<Rightarrow> 'v \<Rightarrow> 'v mserver \<Rightarrow> 'v mserver cres" where
  "dbOverwrite db key v S =
     (if Mapping.lookup (db_dict (dbs S db)) key = None then Inl AssertFailed
      else Inr (upd_db db (\<lambda>d. d\<lparr>db_dict := Mapping.update key v (db_dict d)\<rparr>) S))"

text \<open>The asynchronous variant does the same to the dictionaries and leaves the value to another thread to free.\<close>

definition dbSyncDelete :: "nat \<Rightarrow> mkey \<Rightarrow> 'v mserver \<Rightarrow> bool \<times> 'v mserver" where
  "dbSyncDelete db key S =
     (Mapping.lookup (db_dict (dbs S db)) key \<noteq> None,
      upd_db db (\<lambda>d. d\<lparr>db_dict := Mapping.delete key (db_dict d), db_expires := Mapping.delete key (db_expires d)\<rparr>) S)"

definition removeExpire :: "nat \<Rightarrow> mkey \<Rightarrow> 'v mserver \<Rightarrow> (bool \<times> 'v mserver) cres" where
  "removeExpire db key S =
     (if Mapping.lookup (db_dict (dbs S db)) key = None then Inl AssertFailed
      else Inr (Mapping.lookup (db_expires (dbs S db)) key \<noteq> None, upd_db db (\<lambda>d. d\<lparr>db_expires := Mapping.delete key (db_expires d)\<rparr>) S))"

definition rememberSlaveKeyWithExpire :: "nat \<Rightarrow> mkey \<Rightarrow> 'v mserver \<Rightarrow> 'v mserver" where
  "rememberSlaveKeyWithExpire db key S = (if 63 < db then S else S\<lparr>slaveKeysWithExpire := insert (key, db) (slaveKeysWithExpire S)\<rparr>)"

definition setExpire :: "'v mcfg \<Rightarrow> nat \<Rightarrow> nat \<Rightarrow> mkey \<Rightarrow> int \<Rightarrow> 'v mserver \<Rightarrow> 'v mserver cres" where
  "setExpire cfg i db key when S =
     (if Mapping.lookup (db_dict (dbs S db)) key = None then Inl AssertFailed
      else
        let S = upd_db db (\<lambda>d. d\<lparr>db_expires := Mapping.update key when (db_expires d)\<rparr>) S in
        cbind (get_client S i) (\<lambda>c.
        Inr (if srv_masterhost cfg \<and> \<not> repl_slave_ro cfg \<and> \<not> CLIENT_MASTER c then rememberSlaveKeyWithExpire db key S else S)))"

definition getExpire :: "nat \<Rightarrow> mkey \<Rightarrow> 'v mserver \<Rightarrow> int cres" where
  "getExpire db key S =
     (case Mapping.lookup (db_expires (dbs S db)) key of
        None \<Rightarrow> Inr (- 1)
      | Some when \<Rightarrow> if Mapping.lookup (db_dict (dbs S db)) key = None then Inl AssertFailed else Inr when)"

definition keyIsExpired :: "'v mcfg \<Rightarrow> nat \<Rightarrow> mkey \<Rightarrow> 'v mserver \<Rightarrow> bool cres" where
  "keyIsExpired cfg db key S =
     cbind (getExpire db key S) (\<lambda>when.
     if when < 0 then Inr False else if srv_loading cfg then Inr False else Inr (server_mstime S > when))"

definition propagateExpire :: "nat \<Rightarrow> mkey \<Rightarrow> bool \<Rightarrow> 'v mserver \<Rightarrow> 'v mserver" where
  "propagateExpire db key lazy S = S\<lparr>prop_log := prop_log S @ [PropDel lazy db key]\<rparr>"

definition expireIfNeeded :: "'v mcfg \<Rightarrow> nat \<Rightarrow> mkey \<Rightarrow> 'v mserver \<Rightarrow> (bool \<times> 'v mserver) cres" where
  "expireIfNeeded cfg db key S =
     cbind (keyIsExpired cfg db key S) (\<lambda>expired.
     if \<not> expired then Inr (False, S)
     else if srv_masterhost cfg then Inr (True, S)
     else Inr (dbSyncDelete db key (propagateExpire db key (lazyfree_lazy_expire cfg) (S\<lparr>stat_expiredkeys := stat_expiredkeys S + 1\<rparr>))))"

text \<open>The background cycle tries to expire entries that it samples from the dictionary of times; it has its own test, on the clock.\<close>

definition activeExpireCycleTryExpire :: "'v mcfg \<Rightarrow> nat \<Rightarrow> mkey \<Rightarrow> int \<Rightarrow> int \<Rightarrow> 'v mserver \<Rightarrow> bool \<times> 'v mserver" where
  "activeExpireCycleTryExpire cfg db key t now S =
     (if now > t then
        let S = snd (dbSyncDelete db key (propagateExpire db key (lazyfree_lazy_expire cfg) S)) in
        (True, S\<lparr>stat_expiredkeys := stat_expiredkeys S + 1\<rparr>)
      else (False, S))"

text \<open>The lookup for reading hides an expired key of a replica from the reading commands of its clients, of which all callers here are.\<close>

definition lookupKeyRead :: "'v mcfg \<Rightarrow> nat \<Rightarrow> nat \<Rightarrow> mkey \<Rightarrow> 'v mserver \<Rightarrow> ('v option \<times> 'v mserver) cres" where
  "lookupKeyRead cfg i db key S =
     cbind (expireIfNeeded cfg db key S) (\<lambda>(expired, S).
     if expired \<and> (\<not> srv_masterhost cfg \<or> srv_master cfg \<noteq> Some i) then Inr (None, S\<lparr>stat_keyspace_misses := stat_keyspace_misses S + 1\<rparr>)
     else
       case lookupKey db key S of
         None \<Rightarrow> Inr (None, S\<lparr>stat_keyspace_misses := stat_keyspace_misses S + 1\<rparr>)
       | Some v \<Rightarrow> Inr (Some v, S\<lparr>stat_keyspace_hits := stat_keyspace_hits S + 1\<rparr>))"

definition lookupKeyWrite :: "'v mcfg \<Rightarrow> nat \<Rightarrow> mkey \<Rightarrow> 'v mserver \<Rightarrow> ('v option \<times> 'v mserver) cres" where
  "lookupKeyWrite cfg db key S = cbind (expireIfNeeded cfg db key S) (\<lambda>(_, S). Inr (lookupKey db key S, S))"

definition setKey :: "'v mcfg \<Rightarrow> nat \<Rightarrow> mkey \<Rightarrow> 'v \<Rightarrow> 'v mserver \<Rightarrow> 'v mserver cres" where
  "setKey cfg db key v S =
     cbind (lookupKeyWrite cfg db key S) (\<lambda>(old, S).
     cbind (if old = None then dbAdd_k cfg db key v S else dbOverwrite db key v S) (\<lambda>S.
     cbind (removeExpire db key S) (\<lambda>(_, S).
     signalModifiedKey db key S)))"

text \<open>The parameter of \<open>selectDb\<close> and those of \<open>dbSwapDatabases\<close> are of type \<open>int\<close>: the \<open>long\<close> that was parsed loses its upper half.\<close>

definition long_to_int :: "int \<Rightarrow> int" where
  "long_to_int n = (n + 2 ^ 31) mod 2 ^ 32 - 2 ^ 31"

definition selectDb :: "'v mcfg \<Rightarrow> int \<Rightarrow> nat option" where
  "selectDb cfg n = (if n < 0 \<or> n \<ge> int (dbnum cfg) then None else Some (nat n))"

section \<open>Commands\<close>

text \<open>Arithmetic on \<open>long long\<close>.\<close>

definition sll :: "int \<Rightarrow> int cres" where
  "sll x = (if LLONG_MIN \<le> x \<and> x \<le> LLONG_MAX then Inr x else Inl SignedOverflow)"

definition setGenericCommand :: "'v mcfg \<Rightarrow> nat \<Rightarrow> nat \<Rightarrow> set_cond \<Rightarrow> mkey \<Rightarrow> 'v \<Rightarrow> (byte list \<times> time_unit) option \<Rightarrow> 'v mserver \<Rightarrow> 'v mserver cres" where
  "setGenericCommand cfg i db flags key v expire S =
     (let go = (\<lambda>ms.
        cbind (if flags = OBJ_SET_NO_FLAGS then Inr (False, S)
               else cbind (lookupKeyWrite cfg db key S) (\<lambda>(old, S). Inr (if flags = OBJ_SET_NX then old \<noteq> None else old = None, S))) (\<lambda>(abort, S).
        if abort then Inr (addReply i RpNullBulk S)
        else
          cbind (setKey cfg db key v S) (\<lambda>S.
          let S = add_dirty 1 S in
          cbind (case ms of None \<Rightarrow> Inr S | Some t \<Rightarrow> cbind (sll (clock S + t)) (\<lambda>w. setExpire cfg i db key w S)) (\<lambda>S.
          Inr (addReply i RpOk S))))) in
      case expire of
        None \<Rightarrow> go None
      | Some (arg, unit) \<Rightarrow>
          (case string2ll arg of
             None \<Rightarrow> Inr (addReply i (RpError ''value is not an integer or out of range'') S)
           | Some ms \<Rightarrow>
               if ms \<le> 0 then Inr (addReply i (RpError ''invalid expire time'') S)
               else cbind (if unit = UNIT_SECONDS then sll (ms * 1000) else Inr ms) (\<lambda>ms. go (Some ms))))"

definition getGenericCommand :: "'v mcfg \<Rightarrow> nat \<Rightarrow> nat \<Rightarrow> mkey \<Rightarrow> 'v mserver \<Rightarrow> 'v mserver cres" where
  "getGenericCommand cfg i db key S =
     cbind (lookupKeyRead cfg i db key S) (\<lambda>(v, S).
     Inr (addReply i (case v of None \<Rightarrow> RpNullBulk
                      | Some v \<Rightarrow> if val_otype cfg v \<noteq> OBJ_STRING then RpError ''WRONGTYPE'' else RpBulk v) S))"

fun del_loop :: "'v mcfg \<Rightarrow> nat \<Rightarrow> mkey list \<Rightarrow> int \<Rightarrow> 'v mserver \<Rightarrow> (int \<times> 'v mserver) cres" where
  "del_loop cfg db [] numdel S = Inr (numdel, S)"
| "del_loop cfg db (key # keys) numdel S =
     cbind (expireIfNeeded cfg db key S) (\<lambda>(_, S).
     case dbSyncDelete db key S of (deleted, S) \<Rightarrow>
       if deleted then cbind (signalModifiedKey db key S) (\<lambda>S. del_loop cfg db keys (numdel + 1) (add_dirty 1 S))
       else del_loop cfg db keys numdel S)"

definition delGenericCommand :: "'v mcfg \<Rightarrow> nat \<Rightarrow> nat \<Rightarrow> mkey list \<Rightarrow> 'v mserver \<Rightarrow> 'v mserver cres" where
  "delGenericCommand cfg i db keys S = cbind (del_loop cfg db keys 0 S) (\<lambda>(numdel, S). Inr (addReply i (RpInt numdel) S))"

fun exists_loop :: "'v mcfg \<Rightarrow> nat \<Rightarrow> nat \<Rightarrow> mkey list \<Rightarrow> int \<Rightarrow> 'v mserver \<Rightarrow> (int \<times> 'v mserver) cres" where
  "exists_loop cfg i db [] n S = Inr (n, S)"
| "exists_loop cfg i db (key # keys) n S =
     cbind (lookupKeyRead cfg i db key S) (\<lambda>(v, S). exists_loop cfg i db keys (if v \<noteq> None then n + 1 else n) S)"

definition existsCommand :: "'v mcfg \<Rightarrow> nat \<Rightarrow> nat \<Rightarrow> mkey list \<Rightarrow> 'v mserver \<Rightarrow> 'v mserver cres" where
  "existsCommand cfg i db keys S = cbind (exists_loop cfg i db keys 0 S) (\<lambda>(n, S). Inr (addReply i (RpInt n) S))"

definition selectCommand :: "'v mcfg \<Rightarrow> nat \<Rightarrow> byte list \<Rightarrow> 'v mserver \<Rightarrow> 'v mserver cres" where
  "selectCommand cfg i arg S =
     (case string2ll arg of
        None \<Rightarrow> Inr (addReply i (RpError ''invalid DB index'') S)
      | Some n \<Rightarrow>
          (case selectDb cfg (long_to_int n) of
             None \<Rightarrow> Inr (addReply i (RpError ''DB index is out of range'') S)
           | Some db \<Rightarrow> cbind (get_client S i) (\<lambda>c. Inr (addReply i RpOk (put_client i (c\<lparr>mc_db := db\<rparr>) S)))))"

definition checkAlreadyExpired :: "'v mcfg \<Rightarrow> int \<Rightarrow> 'v mserver \<Rightarrow> bool" where
  "checkAlreadyExpired cfg when S = (when \<le> clock S \<and> \<not> srv_loading cfg \<and> \<not> srv_masterhost cfg)"

definition expireGenericCommand :: "'v mcfg \<Rightarrow> nat \<Rightarrow> nat \<Rightarrow> int \<Rightarrow> time_unit \<Rightarrow> mkey \<Rightarrow> byte list \<Rightarrow> 'v mserver \<Rightarrow> 'v mserver cres" where
  "expireGenericCommand cfg i db basetime unit key param S =
     (case string2ll param of
        None \<Rightarrow> Inr (addReply i (RpError ''value is not an integer or out of range'') S)
      | Some when \<Rightarrow>
          cbind (if unit = UNIT_SECONDS then sll (when * 1000) else Inr when) (\<lambda>when.
          cbind (sll (when + basetime)) (\<lambda>when.
          cbind (lookupKeyWrite cfg db key S) (\<lambda>(old, S).
          if old = None then Inr (addReply i (RpInt 0) S)
          else if checkAlreadyExpired cfg when S then
            (case dbSyncDelete db key S of (deleted, S) \<Rightarrow>
               if \<not> deleted then Inl AssertFailed
               else cbind (signalModifiedKey db key (add_dirty 1 S)) (\<lambda>S. Inr (addReply i (RpInt 1) S)))
          else
            cbind (setExpire cfg i db key when S) (\<lambda>S.
            cbind (signalModifiedKey db key (addReply i (RpInt 1) S)) (\<lambda>S. Inr (add_dirty 1 S)))))))"

definition ttlGenericCommand :: "'v mcfg \<Rightarrow> nat \<Rightarrow> nat \<Rightarrow> bool \<Rightarrow> mkey \<Rightarrow> 'v mserver \<Rightarrow> 'v mserver cres" where
  "ttlGenericCommand cfg i db output_ms key S =
     cbind (lookupKeyRead cfg i db key S) (\<lambda>(v, S).
     if v = None then Inr (addReply i (RpInt (- 2)) S)
     else
       cbind (getExpire db key S) (\<lambda>expire.
       cbind (if expire \<noteq> - 1 then cbind (sll (expire - clock S)) (\<lambda>ttl. Inr (if ttl < 0 then 0 else ttl)) else Inr (- 1)) (\<lambda>ttl.
       if ttl = - 1 then Inr (addReply i (RpInt (- 1)) S)
       else if output_ms then Inr (addReply i (RpInt ttl) S)
       else cbind (sll (ttl + 500)) (\<lambda>t. Inr (addReply i (RpInt (t div 1000)) S)))))"

definition persistCommand :: "'v mcfg \<Rightarrow> nat \<Rightarrow> nat \<Rightarrow> mkey \<Rightarrow> 'v mserver \<Rightarrow> 'v mserver cres" where
  "persistCommand cfg i db key S =
     cbind (lookupKeyWrite cfg db key S) (\<lambda>(v, S).
     if v = None then Inr (addReply i (RpInt 0) S)
     else
       cbind (removeExpire db key S) (\<lambda>(removed, S).
       Inr (if removed then add_dirty 1 (addReply i (RpInt 1) S) else addReply i (RpInt 0) S)))"

definition renameGenericCommand :: "'v mcfg \<Rightarrow> nat \<Rightarrow> nat \<Rightarrow> bool \<Rightarrow> mkey \<Rightarrow> mkey \<Rightarrow> 'v mserver \<Rightarrow> 'v mserver cres" where
  "renameGenericCommand cfg i db nx src dst S =
     cbind (lookupKeyWrite cfg db src S) (\<lambda>(old, S).
     case old of
       None \<Rightarrow> Inr (addReply i (RpError ''no such key'') S)
     | Some v \<Rightarrow>
         if src = dst then Inr (addReply i (if nx then RpInt 0 else RpOk) S)
         else
           cbind (getExpire db src S) (\<lambda>expire.
           cbind (lookupKeyWrite cfg db dst S) (\<lambda>(old, S).
           if old \<noteq> None \<and> nx then Inr (addReply i (RpInt 0) S)
           else
             cbind (dbAdd_k cfg db dst v (if old \<noteq> None then snd (dbSyncDelete db dst S) else S)) (\<lambda>S.
             cbind (if expire \<noteq> - 1 then setExpire cfg i db dst expire S else Inr S) (\<lambda>S.
             cbind (signalModifiedKey db src (snd (dbSyncDelete db src S))) (\<lambda>S.
             cbind (signalModifiedKey db dst S) (\<lambda>S.
             Inr (addReply i (if nx then RpInt 1 else RpOk) (add_dirty 1 S)))))))))"

definition moveCommand :: "'v mcfg \<Rightarrow> nat \<Rightarrow> nat \<Rightarrow> mkey \<Rightarrow> byte list \<Rightarrow> 'v mserver \<Rightarrow> 'v mserver cres" where
  "moveCommand cfg i src key arg S =
     (case Option.bind (string2ll arg) (\<lambda>dbid. if dbid < - (2 ^ 31) \<or> dbid > 2 ^ 31 - 1 then None else selectDb cfg dbid) of
        None \<Rightarrow> Inr (addReply i (RpError ''index out of range'') S)
      | Some dst \<Rightarrow>
          if src = dst then Inr (addReply i (RpError ''source and destination objects are the same'') S)
          else
            cbind (lookupKeyWrite cfg src key S) (\<lambda>(old, S).
            case old of
              None \<Rightarrow> Inr (addReply i (RpInt 0) S)
            | Some v \<Rightarrow>
                cbind (getExpire src key S) (\<lambda>expire.
                cbind (lookupKeyWrite cfg dst key S) (\<lambda>(there, S).
                if there \<noteq> None then Inr (addReply i (RpInt 0) S)
                else
                  cbind (dbAdd_k cfg dst key v S) (\<lambda>S.
                  cbind (if expire \<noteq> - 1 then setExpire cfg i dst key expire S else Inr S) (\<lambda>S.
                  Inr (addReply i (RpInt 1) (add_dirty 1 (snd (dbSyncDelete src key S))))))))))"

text \<open>The keys with clients blocked on them, in the order in which the dictionary gives them.\<close>

definition ready_type :: "obj_type \<Rightarrow> bool" where
  "ready_type t = (t = OBJ_LIST \<or> t = OBJ_STREAM \<or> t = OBJ_ZSET)"

fun scan_ready :: "'v mcfg \<Rightarrow> nat \<Rightarrow> mkey list \<Rightarrow> 'v mserver \<Rightarrow> 'v mserver" where
  "scan_ready cfg db [] S = S"
| "scan_ready cfg db (key # keys) S =
     scan_ready cfg db keys (case lookupKey db key S of None \<Rightarrow> S | Some v \<Rightarrow> if ready_type (val_otype cfg v) then signalKeyAsReady db key S else S)"

definition scanDatabaseForReadyLists :: "'v mcfg \<Rightarrow> nat \<Rightarrow> 'v mserver \<Rightarrow> 'v mserver" where
  "scanDatabaseForReadyLists cfg db S = scan_ready cfg db (db_blocking_keys (dbs S db)) S"

definition swap_dicts :: "nat \<Rightarrow> nat \<Rightarrow> 'v mserver \<Rightarrow> 'v mserver" where
  "swap_dicts id1 id2 S =
     (let aux = dbs S id1; d2 = dbs S id2 in
      upd_db id2 (\<lambda>d. d\<lparr>db_dict := db_dict aux, db_expires := db_expires aux\<rparr>)
        (upd_db id1 (\<lambda>d. d\<lparr>db_dict := db_dict d2, db_expires := db_expires d2\<rparr>) S))"

definition dbSwapDatabases :: "'v mcfg \<Rightarrow> int \<Rightarrow> int \<Rightarrow> 'v mserver \<Rightarrow> bool \<times> 'v mserver" where
  "dbSwapDatabases cfg id1 id2 S =
     (case (selectDb cfg id1, selectDb cfg id2) of
        (Some d1, Some d2) \<Rightarrow>
          if d1 = d2 then (True, S)
          else (True, scanDatabaseForReadyLists cfg d2 (scanDatabaseForReadyLists cfg d1 (swap_dicts d1 d2 S)))
      | _ \<Rightarrow> (False, S))"

definition swapdbCommand :: "'v mcfg \<Rightarrow> nat \<Rightarrow> byte list \<Rightarrow> byte list \<Rightarrow> 'v mserver \<Rightarrow> 'v mserver cres" where
  "swapdbCommand cfg i arg1 arg2 S =
     (case string2ll arg1 of
        None \<Rightarrow> Inr (addReply i (RpError ''invalid first DB index'') S)
      | Some id1 \<Rightarrow>
          (case string2ll arg2 of
             None \<Rightarrow> Inr (addReply i (RpError ''invalid second DB index'') S)
           | Some id2 \<Rightarrow>
               (case dbSwapDatabases cfg (long_to_int id1) (long_to_int id2) S of (ok, S) \<Rightarrow>
                  Inr (if ok then addReply i RpOk (add_dirty 1 S) else addReply i (RpError ''DB index is out of range'') S))))"

section \<open>Flushing\<close>

definition getFlushCommandFlags :: "byte list list \<Rightarrow> bool option cres" where
  "getFlushCommandFlags args =
     (case args of
        [] \<Rightarrow> Inr (Some False)
      | [a] \<Rightarrow> cbind (strcasecmp (a @ [0]) [97, 115, 121, 110, 99, 0]) (\<lambda>d. Inr (if d \<noteq> 0 then None else Some True))
      | _ \<Rightarrow> Inr None)"

fun emptyDb_loop :: "nat list \<Rightarrow> int \<Rightarrow> 'v mserver \<Rightarrow> int \<times> 'v mserver" where
  "emptyDb_loop [] removed S = (removed, S)"
| "emptyDb_loop (j # js) removed S =
     emptyDb_loop js (removed + int (Mapping.size (db_dict (dbs S j)))) (upd_db j (\<lambda>d. d\<lparr>db_dict := Mapping.empty, db_expires := Mapping.empty\<rparr>) S)"

definition emptyDb :: "'v mcfg \<Rightarrow> nat option \<Rightarrow> 'v mserver \<Rightarrow> int \<times> 'v mserver" where
  "emptyDb cfg dbid S =
     (case dbid of
        Some db \<Rightarrow> if db \<ge> dbnum cfg then (- 1, S) else emptyDb_loop [db] 0 S
      | None \<Rightarrow> (case emptyDb_loop [0..<dbnum cfg] 0 S of (removed, S) \<Rightarrow> (removed, S\<lparr>slaveKeysWithExpire := {}\<rparr>)))"

definition flushdbCommand :: "'v mcfg \<Rightarrow> nat \<Rightarrow> nat \<Rightarrow> byte list list \<Rightarrow> 'v mserver \<Rightarrow> 'v mserver cres" where
  "flushdbCommand cfg i db args S =
     cbind (getFlushCommandFlags args) (\<lambda>flags.
     if flags = None then Inr (addReply i (RpError ''syntax error'') S)
     else
       cbind (signalFlushedDb (Some db) S) (\<lambda>S.
       case emptyDb cfg (Some db) S of (removed, S) \<Rightarrow> Inr (addReply i RpOk (add_dirty removed S))))"

text \<open>\<open>FLUSHALL\<close> also stops a save that is under way and, where saving is configured, writes an empty dump, around which it keeps \<open>server.dirty\<close> in an \<open>int\<close>; files are not part of the state.\<close>

definition flushallCommand :: "'v mcfg \<Rightarrow> nat \<Rightarrow> byte list list \<Rightarrow> 'v mserver \<Rightarrow> 'v mserver cres" where
  "flushallCommand cfg i args S =
     cbind (getFlushCommandFlags args) (\<lambda>flags.
     if flags = None then Inr (addReply i (RpError ''syntax error'') S)
     else
       cbind (signalFlushedDb None S) (\<lambda>S.
       case emptyDb cfg None S of (removed, S) \<Rightarrow> Inr (add_dirty 1 (addReply i RpOk (add_dirty removed S)))))"

end
