(* ===== verification/Multi.thy ===== *)
theory Multi
  imports Db
begin

text \<open>
  Transactions: \<open>multi.c\<close> with the part of \<open>processCommand\<close> that queues commands and the call of a command. Lists are lists, as \<open>Adlist\<close> implements them.
  The configuration does not change while commands run (\<open>REPLICAOF\<close> is not modelled). Of \<open>call\<close>, the update of the cached time and the call of the command
  are modelled; the slow log, the statistics and the propagation of the command are not.
\<close>

section \<open>Watching\<close>

definition watchForKey :: "nat \<Rightarrow> mkey \<Rightarrow> 'v mserver \<Rightarrow> 'v mserver cres" where
  "watchForKey i key S =
     cbind (get_client S i) (\<lambda>c.
     if (mc_db c, key) \<in> set (watched_keys c) then Inr S
     else
       let clients = (case Mapping.lookup (db_watched_keys (dbs S (mc_db c))) key of None \<Rightarrow> [] | Some l \<Rightarrow> l);
           S = upd_db (mc_db c) (\<lambda>d. d\<lparr>db_watched_keys := Mapping.update key (clients @ [i]) (db_watched_keys d)\<rparr>) S in
       Inr (put_client i (c\<lparr>watched_keys := watched_keys c @ [(mc_db c, key)]\<rparr>) S))"

text \<open>The keys are taken off the client one by one. Deleting a node that was not found follows a null pointer.\<close>

fun unwatch_loop :: "nat \<Rightarrow> (nat \<times> mkey) list \<Rightarrow> 'v mserver \<Rightarrow> 'v mserver cres" where
  "unwatch_loop i [] S = Inr S"
| "unwatch_loop i ((db, key) # wks) S =
     (case Mapping.lookup (db_watched_keys (dbs S db)) key of
        None \<Rightarrow> Inl AssertFailed
      | Some clients \<Rightarrow>
          if i \<notin> set clients then Inl NullDeref
          else
            let clients = remove1 i clients;
                S = upd_db db (\<lambda>d. d\<lparr>db_watched_keys :=
                      (if clients = [] then Mapping.delete key (db_watched_keys d) else Mapping.update key clients (db_watched_keys d))\<rparr>) S in
            cbind (get_client S i) (\<lambda>c. unwatch_loop i wks (put_client i (c\<lparr>watched_keys := wks\<rparr>) S)))"

definition unwatchAllKeys :: "nat \<Rightarrow> 'v mserver \<Rightarrow> 'v mserver cres" where
  "unwatchAllKeys i S = cbind (get_client S i) (\<lambda>c. unwatch_loop i (watched_keys c) S)"

fun watch_keys :: "nat \<Rightarrow> mkey list \<Rightarrow> 'v mserver \<Rightarrow> 'v mserver cres" where
  "watch_keys i [] S = Inr S"
| "watch_keys i (key # keys) S = cbind (watchForKey i key S) (\<lambda>S. watch_keys i keys S)"

definition watchCommand :: "nat \<Rightarrow> mkey list \<Rightarrow> 'v mserver \<Rightarrow> 'v mserver cres" where
  "watchCommand i keys S =
     cbind (get_client S i) (\<lambda>c.
     if CLIENT_MULTI c then Inr (addReply i (RpError ''WATCH inside MULTI is not allowed'') S)
     else cbind (watch_keys i keys S) (\<lambda>S. Inr (addReply i RpOk S)))"

definition unwatchCommand :: "nat \<Rightarrow> 'v mserver \<Rightarrow> 'v mserver cres" where
  "unwatchCommand i S =
     cbind (unwatchAllKeys i S) (\<lambda>S.
     cbind (get_client S i) (\<lambda>c. Inr (addReply i RpOk (put_client i (c\<lparr>CLIENT_DIRTY_CAS := False\<rparr>) S))))"

section \<open>Commands and their flags\<close>

definition updateCachedTime :: "'v mserver \<Rightarrow> 'v mserver" where
  "updateCachedTime S = S\<lparr>server_mstime := clock S\<rparr>"

definition run_tcmd :: "'v mcfg \<Rightarrow> nat \<Rightarrow> nat \<Rightarrow> 'v tcmd \<Rightarrow> 'v mserver \<Rightarrow> 'v mserver cres" where
  "run_tcmd cfg i db cmd S =
     (case cmd of
        SetCmd flags key v expire \<Rightarrow> setGenericCommand cfg i db flags key v expire S
      | GetCmd key \<Rightarrow> getGenericCommand cfg i db key S
      | DelCmd lazy keys \<Rightarrow> delGenericCommand cfg i db keys S
      | ExistsCmd keys \<Rightarrow> existsCommand cfg i db keys S
      | ExpireCmd relative unit key param \<Rightarrow> expireGenericCommand cfg i db (if relative then clock S else 0) unit key param S
      | TtlCmd output_ms key \<Rightarrow> ttlGenericCommand cfg i db output_ms key S
      | PersistCmd key \<Rightarrow> persistCommand cfg i db key S
      | RenameCmd nx src dst \<Rightarrow> renameGenericCommand cfg i db nx src dst S
      | MoveCmd key arg \<Rightarrow> moveCommand cfg i db key arg S
      | SwapdbCmd a b \<Rightarrow> swapdbCommand cfg i a b S
      | SelectCmd a \<Rightarrow> selectCommand cfg i a S
      | FlushdbCmd args \<Rightarrow> flushdbCommand cfg i db args S
      | FlushallCmd args \<Rightarrow> flushallCommand cfg i args S
      | UnwatchCmd \<Rightarrow> unwatchCommand i S)"

definition call_tcmd :: "'v mcfg \<Rightarrow> nat \<Rightarrow> 'v tcmd \<Rightarrow> 'v mserver \<Rightarrow> 'v mserver cres" where
  "call_tcmd cfg i cmd S = cbind (get_client S i) (\<lambda>c. run_tcmd cfg i (mc_db c) cmd (updateCachedTime S))"

fun cmd_readonly :: "'v tcmd \<Rightarrow> bool" where
  "cmd_readonly (GetCmd _) = True"
| "cmd_readonly (ExistsCmd _) = True"
| "cmd_readonly (TtlCmd _ _) = True"
| "cmd_readonly _ = False"

fun cmd_write :: "'v tcmd \<Rightarrow> bool" where
  "cmd_write (SelectCmd _) = False"
| "cmd_write UnwatchCmd = False"
| "cmd_write cmd = (\<not> cmd_readonly cmd)"

section \<open>Transactions\<close>

definition initClientMultiState :: "'v mclient \<Rightarrow> 'v mclient" where
  "initClientMultiState c = c\<lparr>commands := [], cmd_flags_write := False\<rparr>"

definition queueMultiCommand :: "'v tcmd \<Rightarrow> 'v mclient \<Rightarrow> 'v mclient" where
  "queueMultiCommand cmd c = c\<lparr>commands := commands c @ [cmd], cmd_flags_write := (cmd_flags_write c \<or> cmd_write cmd)\<rparr>"

definition discardTransaction :: "nat \<Rightarrow> 'v mserver \<Rightarrow> 'v mserver cres" where
  "discardTransaction i S =
     cbind (get_client S i) (\<lambda>c.
     unwatchAllKeys i (put_client i ((initClientMultiState c)\<lparr>CLIENT_MULTI := False, CLIENT_DIRTY_CAS := False, CLIENT_DIRTY_EXEC := False\<rparr>) S))"

definition flagTransaction :: "nat \<Rightarrow> 'v mserver \<Rightarrow> 'v mserver cres" where
  "flagTransaction i S =
     cbind (get_client S i) (\<lambda>c. Inr (if CLIENT_MULTI c then put_client i (c\<lparr>CLIENT_DIRTY_EXEC := True\<rparr>) S else S))"

definition multiCommand :: "nat \<Rightarrow> 'v mserver \<Rightarrow> 'v mserver cres" where
  "multiCommand i S =
     cbind (get_client S i) (\<lambda>c.
     if CLIENT_MULTI c then Inr (addReply i (RpError ''MULTI calls can not be nested'') S)
     else Inr (addReply i RpOk (put_client i (c\<lparr>CLIENT_MULTI := True\<rparr>) S)))"

definition discardCommand :: "nat \<Rightarrow> 'v mserver \<Rightarrow> 'v mserver cres" where
  "discardCommand i S =
     cbind (get_client S i) (\<lambda>c.
     if \<not> CLIENT_MULTI c then Inr (addReply i (RpError ''DISCARD without MULTI'') S)
     else cbind (discardTransaction i S) (\<lambda>S. Inr (addReply i RpOk S)))"

definition execCommandPropagateMulti :: "nat \<Rightarrow> 'v mserver \<Rightarrow> 'v mserver" where
  "execCommandPropagateMulti db S = S\<lparr>prop_log := prop_log S @ [PropMulti db]\<rparr>"

fun exec_loop :: "'v mcfg \<Rightarrow> nat \<Rightarrow> 'v tcmd list \<Rightarrow> bool \<Rightarrow> 'v mserver \<Rightarrow> (bool \<times> 'v mserver) cres" where
  "exec_loop cfg i [] must_propagate S = Inr (must_propagate, S)"
| "exec_loop cfg i (cmd # cmds) must_propagate S =
     cbind (get_client S i) (\<lambda>c.
     let first = (\<not> must_propagate \<and> \<not> cmd_readonly cmd);
         S = (if first then execCommandPropagateMulti (mc_db c) S else S) in
     cbind (call_tcmd cfg i cmd S) (\<lambda>S. exec_loop cfg i cmds (must_propagate \<or> first) S))"

definition handle_monitor :: "'v mcfg \<Rightarrow> nat \<Rightarrow> 'v mserver \<Rightarrow> 'v mserver cres" where
  "handle_monitor cfg i S =
     cbind (get_client S i) (\<lambda>c.
     Inr (if srv_monitors cfg \<and> \<not> srv_loading cfg then S\<lparr>monitor_feed := monitor_feed S @ [(i, mc_db c)]\<rparr> else S))"

definition execCommand :: "'v mcfg \<Rightarrow> nat \<Rightarrow> 'v mserver \<Rightarrow> 'v mserver cres" where
  "execCommand cfg i S =
     cbind (get_client S i) (\<lambda>c.
     if \<not> CLIENT_MULTI c then Inr (addReply i (RpError ''EXEC without MULTI'') S)
     else if CLIENT_DIRTY_CAS c \<or> CLIENT_DIRTY_EXEC c then
       cbind (discardTransaction i (addReply i (if CLIENT_DIRTY_EXEC c then RpExecAbort else RpNullMultiBulk) S)) (handle_monitor cfg i)
     else if \<not> srv_loading cfg \<and> srv_masterhost cfg \<and> repl_slave_ro cfg \<and> \<not> CLIENT_MASTER c \<and> cmd_flags_write c then
       cbind (discardTransaction i (addReply i (RpError ''read-only slave'') S)) (handle_monitor cfg i)
     else
       cbind (unwatchAllKeys i S) (\<lambda>S.
       cbind (exec_loop cfg i (commands c) False (addReply i (RpMultiBulkLen (length (commands c))) S)) (\<lambda>(must_propagate, S).
       cbind (discardTransaction i S) (\<lambda>S.
       handle_monitor cfg i (if must_propagate then add_dirty 1 S else S)))))"

text \<open>The end of \<open>processCommand\<close>: inside \<open>MULTI\<close> all commands but those that steer it are queued.\<close>

definition dispatch :: "'v mcfg \<Rightarrow> nat \<Rightarrow> 'v tcmd \<Rightarrow> 'v mserver \<Rightarrow> 'v mserver cres" where
  "dispatch cfg i cmd S =
     cbind (get_client S i) (\<lambda>c.
     if CLIENT_MULTI c then Inr (addReply i RpQueued (put_client i (queueMultiCommand cmd c) S))
     else call_tcmd cfg i cmd S)"

text \<open>
  Clients come, marked as the link to a master or not, and go. Of \<open>freeClient\<close>, what concerns watched keys and the list of clients is modelled; that the link to a
  master may be kept aside for a later resynchronisation is not.
\<close>

definition linkClient :: "nat \<Rightarrow> bool \<Rightarrow> 'v mserver \<Rightarrow> 'v mserver" where
  "linkClient i master S = put_client i
     \<lparr> mc_db = 0, watched_keys = [], commands = [], cmd_flags_write = False, CLIENT_MULTI = False, CLIENT_DIRTY_CAS = False, CLIENT_DIRTY_EXEC = False,
       CLIENT_MASTER = master \<rparr> (S\<lparr>client_list := client_list S @ [i]\<rparr>)"

definition freeClient :: "nat \<Rightarrow> 'v mserver \<Rightarrow> 'v mserver cres" where
  "freeClient i S = cbind (unwatchAllKeys i S) (\<lambda>S. Inr (S\<lparr>client_list := remove1 i (client_list S), client_heap := (client_heap S)(i := None)\<rparr>))"

text \<open>One choice of the background cycle, which only runs on a master: any key that has a time to live.\<close>

definition expire_event :: "'v mcfg \<Rightarrow> nat \<Rightarrow> mkey \<Rightarrow> 'v mserver \<Rightarrow> 'v mserver" where
  "expire_event cfg db key S =
     (case Mapping.lookup (db_expires (dbs S db)) key of
        None \<Rightarrow> S
      | Some t \<Rightarrow> if srv_masterhost cfg then S else snd (activeExpireCycleTryExpire cfg db key t (clock S) S))"

text \<open>What reaches the server from its clients, one event at a time, the background cycle and the passing of time.\<close>

datatype 'v mop =
    OpWatch nat "mkey list" | OpMulti nat | OpExec nat | OpDiscard nat | OpCmd nat "'v tcmd" | OpFlag nat
  | OpConnect nat bool | OpClose nat | OpExpire nat mkey | OpTime int

fun do_op :: "'v mcfg \<Rightarrow> 'v mop \<Rightarrow> 'v mserver \<Rightarrow> 'v mserver cres" where
  "do_op cfg (OpWatch i keys) S = watchCommand i keys S"
| "do_op cfg (OpMulti i) S = multiCommand i S"
| "do_op cfg (OpExec i) S = execCommand cfg i S"
| "do_op cfg (OpDiscard i) S = discardCommand i S"
| "do_op cfg (OpCmd i cmd) S = dispatch cfg i cmd S"
| "do_op cfg (OpFlag i) S = flagTransaction i S"
| "do_op cfg (OpConnect i master) S = Inr (linkClient i master S)"
| "do_op cfg (OpClose i) S = freeClient i S"
| "do_op cfg (OpExpire db key) S = Inr (expire_event cfg db key S)"
| "do_op cfg (OpTime t) S = Inr (S\<lparr>clock := t\<rparr>)"

fun run_events :: "'v mcfg \<Rightarrow> 'v mop list \<Rightarrow> 'v mserver \<Rightarrow> 'v mserver cres" where
  "run_events cfg [] S = Inr S"
| "run_events cfg (x # xs) S = cbind (do_op cfg x S) (\<lambda>S. run_events cfg xs S)"

end
