(* ===== verification/DbUse.thy ===== *)
theory DbUse
  imports Multi
begin

text \<open>
  What the commands on the key space keep: the two directions of the watch structure agree, a key with a time to live exists, and a key that is changed, unless it is only removed
  because its time is over, has its watchers marked.
\<close>

section \<open>Results\<close>

definition ends :: "('a \<Rightarrow> bool) \<Rightarrow> 'a cres \<Rightarrow> bool" where
  "ends P r \<longleftrightarrow> (\<exists>x. r = Inr x \<and> P x)"

lemma ends_simps [simp]: "ends P (Inr x) = P x" "\<not> ends P (Inl e)"
  by (simp_all add: ends_def)

lemma ends_cbind: "ends Q r \<Longrightarrow> (\<And>x. Q x \<Longrightarrow> ends P (f x)) \<Longrightarrow> ends P (cbind r f)"
  by (auto simp: ends_def)

lemma ends_bind2: "ends (\<lambda>(a, b). Q a b) r \<Longrightarrow> (\<And>a b. Q a b \<Longrightarrow> ends P (f (a, b))) \<Longrightarrow> ends P (cbind r f)"
  by (auto simp: ends_def)

lemma ends_mono: "ends Q r \<Longrightarrow> (\<And>x. Q x \<Longrightarrow> P x) \<Longrightarrow> ends P r"
  by (auto simp: ends_def)

section \<open>Invariants\<close>

abbreviation watchers :: "'v mserver \<Rightarrow> nat \<Rightarrow> mkey \<Rightarrow> nat list option" where
  "watchers S db k \<equiv> Mapping.lookup (db_watched_keys (dbs S db)) k"

abbreviation val_at :: "'v mserver \<Rightarrow> nat \<Rightarrow> mkey \<Rightarrow> 'v option" where
  "val_at S db k \<equiv> Mapping.lookup (db_dict (dbs S db)) k"

abbreviation exp_at :: "'v mserver \<Rightarrow> nat \<Rightarrow> mkey \<Rightarrow> int option" where
  "exp_at S db k \<equiv> Mapping.lookup (db_expires (dbs S db)) k"

definition watches :: "'v mserver \<Rightarrow> nat \<Rightarrow> nat \<Rightarrow> mkey \<Rightarrow> bool" where
  "watches S i db k \<longleftrightarrow> (\<exists>c. client_heap S i = Some c \<and> (db, k) \<in> set (watched_keys c))"

definition watch_inv :: "'v mserver \<Rightarrow> bool" where
  "watch_inv S \<longleftrightarrow> distinct (client_list S) \<and> set (client_list S) = dom (client_heap S) \<and>
     (\<forall>i c. client_heap S i = Some c \<longrightarrow> distinct (watched_keys c)) \<and>
     (\<forall>db k l. watchers S db k = Some l \<longrightarrow> l \<noteq> [] \<and> distinct l) \<and>
     (\<forall>db k i. (\<exists>l. watchers S db k = Some l \<and> i \<in> set l) \<longleftrightarrow> watches S i db k)"

definition data_inv :: "'v mserver \<Rightarrow> bool" where
  "data_inv S \<longleftrightarrow> (\<forall>db k w. exp_at S db k = Some w \<longrightarrow> val_at S db k \<noteq> None \<and> \<bar>w\<bar> \<le> 2 ^ 62) \<and> 0 \<le> clock S \<and> clock S \<le> 2 ^ 61"

lemma watch_invD:
  assumes "watch_inv S"
  shows "distinct (client_list S)" "set (client_list S) = dom (client_heap S)" "client_heap S i = Some c \<Longrightarrow> distinct (watched_keys c)"
    "watchers S db k = Some l \<Longrightarrow> l \<noteq> [] \<and> distinct l"
    "(\<exists>l. watchers S db k = Some l \<and> i \<in> set l) \<longleftrightarrow> watches S i db k"
  using assms unfolding watch_inv_def by blast+

lemma data_invD:
  assumes "data_inv S"
  shows "exp_at S db k = Some w \<Longrightarrow> val_at S db k \<noteq> None" "exp_at S db k = Some w \<Longrightarrow> \<bar>w\<bar> \<le> 2 ^ 62" "0 \<le> clock S" "clock S \<le> 2 ^ 61"
  using assms unfolding data_inv_def by blast+

text \<open>What a client is, but for the database that it has selected and the mark.\<close>

definition core :: "'v mclient \<Rightarrow> 'v mclient" where
  "core c = c\<lparr>mc_db := 0, CLIENT_DIRTY_CAS := False\<rparr>"

definition is_dirty :: "'v mserver \<Rightarrow> nat \<Rightarrow> bool" where
  "is_dirty S i \<longleftrightarrow> (\<exists>c. client_heap S i = Some c \<and> CLIENT_DIRTY_CAS c)"

definition all_dirty :: "'v mserver \<Rightarrow> nat \<Rightarrow> mkey \<Rightarrow> bool" where
  "all_dirty S db k \<longleftrightarrow> (\<forall>i. watches S i db k \<longrightarrow> is_dirty S i)"

definition same_ctl :: "'v mserver \<Rightarrow> 'v mserver \<Rightarrow> bool" where
  "same_ctl S S' \<longleftrightarrow> client_list S' = client_list S \<and> (\<forall>db. db_watched_keys (dbs S' db) = db_watched_keys (dbs S db)) \<and>
     clock S' = clock S \<and> server_mstime S' = server_mstime S \<and>
     (\<forall>i. map_option core (client_heap S' i) = map_option core (client_heap S i)) \<and> (\<forall>i. is_dirty S i \<longrightarrow> is_dirty S' i)"

lemma core_eqD: "core c = core c' \<Longrightarrow> watched_keys c = watched_keys c' \<and> commands c = commands c' \<and> CLIENT_MULTI c = CLIENT_MULTI c' \<and>
    CLIENT_DIRTY_EXEC c = CLIENT_DIRTY_EXEC c' \<and> CLIENT_MASTER c = CLIENT_MASTER c' \<and> cmd_flags_write c = cmd_flags_write c'"
  by (cases c; cases c') (simp add: core_def)

lemma core_watched: "core c = core c' \<Longrightarrow> watched_keys c = watched_keys c'"
  by (drule core_eqD) blast

lemma same_ctl_refl [simp]: "same_ctl S S"
  by (simp add: same_ctl_def)

lemma same_ctl_trans: "same_ctl S S' \<Longrightarrow> same_ctl S' S'' \<Longrightarrow> same_ctl S S''"
  by (simp add: same_ctl_def)

lemma same_ctl_heap: "same_ctl S S' \<Longrightarrow> map_option core (client_heap S' i) = map_option core (client_heap S i)"
  by (simp add: same_ctl_def)

lemma same_ctl_client: "same_ctl S S' \<Longrightarrow> client_heap S i = Some c \<Longrightarrow> \<exists>c'. client_heap S' i = Some c' \<and> core c' = core c"
  using same_ctl_heap [of S S' i] by (cases "client_heap S' i") simp_all

lemma same_ctl_back: "same_ctl S S' \<Longrightarrow> client_heap S' i = Some c' \<Longrightarrow> \<exists>c. client_heap S i = Some c \<and> core c' = core c"
  using same_ctl_heap [of S S' i] by (cases "client_heap S i") simp_all

lemma same_ctl_dom: "same_ctl S S' \<Longrightarrow> dom (client_heap S') = dom (client_heap S)"
  using same_ctl_client same_ctl_back by (fastforce simp: dom_def)

lemma same_ctl_watches: "same_ctl S S' \<Longrightarrow> watches S' i db k \<longleftrightarrow> watches S i db k"
  using same_ctl_heap [of S S' i] by (cases "client_heap S i"; cases "client_heap S' i") (auto simp: watches_def dest: core_watched)

lemma same_ctl_inv:
  assumes s: "same_ctl S S'" and i: "watch_inv S"
  shows "watch_inv S'"
proof -
  note d = same_ctl_dom [OF s]
  have "client_heap S' j = Some c \<Longrightarrow> distinct (watched_keys c)" for j c
    using same_ctl_back [OF s] core_eqD watch_invD(3) [OF i] by metis
  moreover have "watchers S' db k = watchers S db k" "client_list S' = client_list S" for db k using s by (simp_all add: same_ctl_def)
  ultimately show ?thesis using watch_invD(1,2,4) [OF i] watch_invD(5) [OF i] unfolding watch_inv_def d same_ctl_watches [OF s] by metis
qed

lemma same_ctl_all_dirty: "same_ctl S S' \<Longrightarrow> all_dirty S db k \<Longrightarrow> all_dirty S' db k"
  unfolding all_dirty_def by (simp add: same_ctl_watches) (simp add: same_ctl_def)

section \<open>Changes that need no mark\<close>

text \<open>A value that stays, perhaps without its time to live, or that is gone because its time was over.\<close>

fun quiet :: "int \<Rightarrow> 'v option \<times> int option \<Rightarrow> 'v option \<times> int option \<Rightarrow> bool" where
  "quiet now (v, x) (v', x') = (v' = v \<and> (x' = x \<or> x' = None) \<or> v' = None \<and> x' = None \<and> (\<exists>w. x = Some w \<and> w < now))"

abbreviation entry :: "'v mserver \<Rightarrow> nat \<Rightarrow> mkey \<Rightarrow> 'v option \<times> int option" where
  "entry S db k \<equiv> (val_at S db k, exp_at S db k)"

lemma quiet_refl [simp]: "quiet now e e"
  by (cases e) simp

lemma quiet_trans: "quiet now e e' \<Longrightarrow> now \<le> now' \<Longrightarrow> quiet now' e' e'' \<Longrightarrow> quiet now' e e''"
  by (cases e; cases e'; cases e'') auto

definition tracks :: "(nat \<times> mkey) set \<Rightarrow> 'v mserver \<Rightarrow> 'v mserver \<Rightarrow> bool" where
  "tracks T S0 S \<longleftrightarrow> watch_inv S \<and> data_inv S \<and> same_ctl S0 S \<and>
     (\<forall>db k. (db, k) \<in> T \<or> quiet (clock S) (entry S0 db k) (entry S db k) \<or> all_dirty S db k)"

lemma tracksD:
  assumes "tracks T S0 S"
  shows "watch_inv S" "data_inv S" "same_ctl S0 S" "(db, k) \<in> T \<or> quiet (clock S) (entry S0 db k) (entry S db k) \<or> all_dirty S db k"
  using assms unfolding tracks_def by blast+

lemma tracks_refl: "watch_inv S \<Longrightarrow> data_inv S \<Longrightarrow> tracks {} S S"
  by (simp add: tracks_def)

text \<open>Changes of the data: a key whose entry is changed in another way is pending until it is signalled.\<close>

lemma tracks_data:
  assumes u: "tracks T S0 S" and h: "client_heap S' = client_heap S" "client_list S' = client_list S" "clock S' = clock S" "server_mstime S' = server_mstime S"
    and w: "\<And>db. db_watched_keys (dbs S' db) = db_watched_keys (dbs S db)"
    and i: "\<And>db k w. exp_at S' db k = Some w \<Longrightarrow> exp_at S db k \<noteq> Some w \<or> val_at S' db k = None \<Longrightarrow> val_at S' db k \<noteq> None \<and> \<bar>w\<bar> \<le> 2 ^ 62"
    and q: "\<And>db k. (db, k) \<notin> T' \<Longrightarrow> (db, k) \<notin> T \<and> quiet (clock S) (entry S db k) (entry S' db k)"
  shows "tracks T' S0 S'"
proof -
  have s: "same_ctl S S'" by (simp add: same_ctl_def h w is_dirty_def)
  have "data_inv S'" unfolding data_inv_def h using data_invD [OF tracksD(2) [OF u]] i by blast
  moreover have "(db, k) \<in> T' \<or> quiet (clock S') (entry S0 db k) (entry S' db k) \<or> all_dirty S' db k" for db k
    using tracksD(4) [OF u, of db k] q [of db k] same_ctl_all_dirty [OF s, of db k] quiet_trans [of "clock S" "entry S0 db k" "entry S db k" "clock S" "entry S' db k"] h(3) by auto
  ultimately show ?thesis unfolding tracks_def using same_ctl_inv [OF s tracksD(1) [OF u]] same_ctl_trans [OF tracksD(3) [OF u] s] by blast
qed

lemma tracks_same:
  assumes t: "tracks T S0 S" and "dbs S' = dbs S" "client_heap S' = client_heap S" "client_list S' = client_list S" "clock S' = clock S"
    "server_mstime S' = server_mstime S"
  shows "tracks T S0 S'"
  using assms data_invD(1) [OF tracksD(2) [OF t]] by (intro tracks_data [OF t]) (simp, simp, simp, simp, simp, fastforce, simp)

text \<open>Changes of the clients that only add marks.\<close>

lemma tracks_clients:
  assumes u: "tracks T S0 S" and s: "same_ctl S S'" and d: "\<And>db. db_dict (dbs S' db) = db_dict (dbs S db) \<and> db_expires (dbs S' db) = db_expires (dbs S db)"
    and T: "\<And>db k. (db, k) \<in> T \<Longrightarrow> (db, k) \<notin> T' \<Longrightarrow> all_dirty S' db k"
  shows "tracks T' S0 S'"
proof -
  have "data_inv S'" using tracksD(2) [OF u] s by (simp add: data_inv_def d same_ctl_def)
  moreover have "(db, k) \<in> T' \<or> quiet (clock S') (entry S0 db k) (entry S' db k) \<or> all_dirty S' db k" for db k
    using tracksD(4) [OF u, of db k] T [of db k] same_ctl_all_dirty [OF s, of db k] s by (auto simp: d same_ctl_def)
  ultimately show ?thesis unfolding tracks_def using same_ctl_inv [OF s tracksD(1) [OF u]] same_ctl_trans [OF tracksD(3) [OF u] s] by blast
qed

section \<open>The parts of the state\<close>

lemma put_simps [simp]:
  "client_heap (put_client i c S) = (client_heap S)(i \<mapsto> c)" "client_list (put_client i c S) = client_list S" "dbs (put_client i c S) = dbs S"
  "replies (put_client i c S) = replies S" "clock (put_client i c S) = clock S" "server_mstime (put_client i c S) = server_mstime S"
  by (simp_all add: put_client_def)

lemma upd_simps [simp]:
  "client_heap (upd_db db f S) = client_heap S" "client_list (upd_db db f S) = client_list S" "dbs (upd_db db f S) = (dbs S)(db := f (dbs S db))"
  "replies (upd_db db f S) = replies S" "clock (upd_db db f S) = clock S" "server_mstime (upd_db db f S) = server_mstime S"
  by (simp_all add: upd_db_def)

lemma reply_simps [simp]:
  "client_heap (addReply i r S) = client_heap S" "client_list (addReply i r S) = client_list S" "dbs (addReply i r S) = dbs S"
  "replies (addReply i r S) = replies S @ [(i, r)]" "clock (addReply i r S) = clock S" "server_mstime (addReply i r S) = server_mstime S"
  by (simp_all add: addReply_def)

lemma add_dirty_simps [simp]:
  "client_heap (add_dirty n S) = client_heap S" "client_list (add_dirty n S) = client_list S" "dbs (add_dirty n S) = dbs S"
  "replies (add_dirty n S) = replies S" "clock (add_dirty n S) = clock S" "server_mstime (add_dirty n S) = server_mstime S"
  by (simp_all add: add_dirty_def)

lemma get_Some [simp]: "client_heap S i = Some c \<Longrightarrow> get_client S i = Inr c"
  by (simp add: get_client_def)

lemma tracks_quiet [intro]:
  assumes "tracks T S0 S"
  shows "tracks T S0 (addReply i r S)" "tracks T S0 (add_dirty n S)" "tracks T S0 (S\<lparr>stat_keyspace_misses := m\<rparr>)" "tracks T S0 (S\<lparr>stat_keyspace_hits := m\<rparr>)"
    "tracks T S0 (S\<lparr>stat_expiredkeys := m\<rparr>)" "tracks T S0 (S\<lparr>prop_log := pl\<rparr>)" "tracks T S0 (S\<lparr>slaveKeysWithExpire := sk\<rparr>)" "tracks T S0 (S\<lparr>srv_ready_keys := rk\<rparr>)"
  by (rule tracks_same [OF assms]; simp)+

lemma tracks_subset: "tracks T S0 S \<Longrightarrow> T \<subseteq> T' \<Longrightarrow> tracks T' S0 S"
  unfolding tracks_def by blast

lemma lookup_delete' [simp]: "Mapping.lookup (Mapping.delete k m) k' = (if k = k' then None else Mapping.lookup m k')"
  by (cases "k = k'") simp_all

section \<open>Marking\<close>

lemma put_dirty:
  assumes "client_heap S i = Some c"
  shows "same_ctl S (put_client i (c\<lparr>CLIENT_DIRTY_CAS := True\<rparr>) S)"
  using assms by (auto simp: same_ctl_def core_def is_dirty_def)

lemma mark_dirty_ok:
  assumes "set is \<subseteq> dom (client_heap S)"
  shows "ends (\<lambda>S'. same_ctl S S' \<and> dbs S' = dbs S \<and> (\<forall>i \<in> set is. is_dirty S' i)) (mark_dirty is S)"
  using assms
proof (induction "is" arbitrary: S)
  case (Cons i "is")
  then obtain c where c: "client_heap S i = Some c" by auto
  let ?S = "put_client i (c\<lparr>CLIENT_DIRTY_CAS := True\<rparr>) S"
  have s: "same_ctl S ?S" by (rule put_dirty [OF c])
  have "set is \<subseteq> dom (client_heap ?S)" using Cons.prems by auto
  moreover have "is_dirty ?S i" by (simp add: is_dirty_def)
  ultimately show ?case using c
    by (simp, intro ends_mono [OF Cons.IH [of ?S]]) (auto intro: same_ctl_trans [OF s], auto simp: same_ctl_def)
qed simp

lemma touch_ok:
  assumes t: "tracks T S0 S"
  shows "ends (\<lambda>S'. tracks (T - {(db, k)}) S0 S' \<and> dbs S' = dbs S \<and> all_dirty S' db k) (signalModifiedKey db k S)"
proof (cases "watchers S db k")
  case None
  then have "all_dirty S db k" using watch_invD(5) [OF tracksD(1) [OF t], of db k] by (auto simp: all_dirty_def)
  then have "tracks (T - {(db, k)}) S0 S" by (intro tracks_clients [OF t same_ctl_refl]) auto
  then show ?thesis using None \<open>all_dirty S db k\<close> by (simp add: signalModifiedKey_def touchWatchedKey_def)
next
  case (Some l)
  have l: "i \<in> set l \<longleftrightarrow> watches S i db k" for i using watch_invD(5) [OF tracksD(1) [OF t], of db k i] Some by auto
  then have "set l \<subseteq> dom (client_heap S)" by (auto simp: watches_def)
  from mark_dirty_ok [OF this] show ?thesis unfolding signalModifiedKey_def touchWatchedKey_def Some option.case
  proof (rule ends_mono)
    fix S' assume S': "same_ctl S S' \<and> dbs S' = dbs S \<and> (\<forall>i \<in> set l. is_dirty S' i)"
    then have d: "all_dirty S' db k" using l same_ctl_watches [of S S'] by (auto simp: all_dirty_def)
    then have "tracks (T - {(db, k)}) S0 S'" using S' by (intro tracks_clients [OF t]) auto
    then show "tracks (T - {(db, k)}) S0 S' \<and> dbs S' = dbs S \<and> all_dirty S' db k" using S' d by simp
  qed
qed

section \<open>The primitives\<close>

lemma ready_simps [simp]:
  "client_heap (signalKeyAsReady db key S) = client_heap S" "client_list (signalKeyAsReady db key S) = client_list S" "clock (signalKeyAsReady db key S) = clock S"
  "server_mstime (signalKeyAsReady db key S) = server_mstime S" "db_dict (dbs (signalKeyAsReady db key S) d) = db_dict (dbs S d)"
  "db_expires (dbs (signalKeyAsReady db key S) d) = db_expires (dbs S d)" "db_watched_keys (dbs (signalKeyAsReady db key S) d) = db_watched_keys (dbs S d)"
  by (simp_all add: signalKeyAsReady_def)

lemma dbAdd_k_ok:
  assumes t: "tracks T S0 S" and n: "val_at S db k = None"
  shows "ends (\<lambda>S'. tracks (insert (db, k) T) S0 S' \<and>
    (\<forall>d. db_dict (dbs S' d) = (if d = db then Mapping.update k v (db_dict (dbs S d)) else db_dict (dbs S d)) \<and> db_expires (dbs S' d) = db_expires (dbs S d)))
    (dbAdd_k cfg db k v S)"
proof -
  let ?S = "if val_otype cfg v = OBJ_LIST \<or> val_otype cfg v = OBJ_ZSET then signalKeyAsReady db k (upd_db db (\<lambda>d. d\<lparr>db_dict := Mapping.update k v (db_dict d)\<rparr>) S)
    else upd_db db (\<lambda>d. d\<lparr>db_dict := Mapping.update k v (db_dict d)\<rparr>) S"
  have e: "db_dict (dbs ?S d) = (if d = db then Mapping.update k v (db_dict (dbs S d)) else db_dict (dbs S d))" "db_expires (dbs ?S d) = db_expires (dbs S d)" for d by auto
  have "tracks (insert (db, k) T) S0 ?S"
    by (rule tracks_data [OF t], unfold e) (auto simp: lookup_update' dest: data_invD(1,2) [OF tracksD(2) [OF t]] split: if_splits)
  then show ?thesis using n e by (simp add: dbAdd_k_def Let_def)
qed

lemma dbOverwrite_ok:
  assumes t: "tracks T S0 S" and n: "val_at S db k \<noteq> None"
  shows "ends (\<lambda>S'. tracks (insert (db, k) T) S0 S' \<and> val_at S' db k = Some v) (dbOverwrite db k v S)"
  using n by (simp add: dbOverwrite_def) (rule tracks_data [OF t]; auto simp: lookup_update' dest: data_invD(1,2) [OF tracksD(2) [OF t]])

lemma delete_ok:
  assumes t: "tracks T S0 S"
  shows "tracks (insert (db, k) T) S0 (snd (dbSyncDelete db k S))"
  by (simp add: dbSyncDelete_def) (rule tracks_data [OF t]; auto dest: data_invD(1,2) [OF tracksD(2) [OF t]] split: if_splits)

lemma removeExpire_ok:
  assumes t: "tracks T S0 S" and n: "val_at S db k \<noteq> None"
  shows "ends (\<lambda>(b, S'). tracks T S0 S' \<and> (\<forall>d. db_dict (dbs S' d) = db_dict (dbs S d))) (removeExpire db k S)"
  using n by (simp add: removeExpire_def) (rule tracks_data [OF t]; auto dest: data_invD(1,2) [OF tracksD(2) [OF t]] split: if_splits)

lemma setExpire_ok:
  assumes t: "tracks T S0 S" and n: "val_at S db k \<noteq> None" and w: "\<bar>w\<bar> \<le> 2 ^ 62" and c: "client_heap S i = Some c"
  shows "ends (\<lambda>S'. tracks (insert (db, k) T) S0 S' \<and> client_heap S' = client_heap S \<and> (\<forall>d. db_dict (dbs S' d) = db_dict (dbs S d))) (setExpire cfg i db k w S)"
proof -
  let ?S = "upd_db db (\<lambda>d. d\<lparr>db_expires := Mapping.update k w (db_expires d)\<rparr>) S"
  have "tracks (insert (db, k) T) S0 ?S"
    by (rule tracks_data [OF t]) (use w n in \<open>auto simp: lookup_update' dest: data_invD(1,2) [OF tracksD(2) [OF t]] split: if_splits\<close>)
  then show ?thesis using n c by (auto simp: setExpire_def Let_def rememberSlaveKeyWithExpire_def)
qed

lemma getExpire_ok:
  assumes "data_inv S"
  shows "getExpire db k S = Inr (case exp_at S db k of None \<Rightarrow> - 1 | Some w \<Rightarrow> w)"
  using data_invD(1) [OF assms, of db k] by (cases "exp_at S db k") (simp_all add: getExpire_def)

lemma expireIfNeeded_ok:
  assumes t: "tracks T S0 S" and m: "server_mstime S = clock S"
  shows "ends (\<lambda>(b, S'). tracks T S0 S' \<and> (\<forall>k'. k' \<noteq> k \<longrightarrow> entry S' db k' = entry S db k') \<and> (\<forall>d. d \<noteq> db \<longrightarrow> dbs S' d = dbs S d)) (expireIfNeeded cfg db k S)"
proof (cases "exp_at S db k")
  case None
  then show ?thesis using t by (simp add: expireIfNeeded_def keyIsExpired_def getExpire_ok [OF tracksD(2) [OF t]])
next
  case (Some w)
  let ?S = "propagateExpire db k (lazyfree_lazy_expire cfg) (S\<lparr>stat_expiredkeys := stat_expiredkeys S + 1\<rparr>)"
  have "tracks T S0 (snd (dbSyncDelete db k ?S))" if "w < clock S" using that Some
    by (simp add: dbSyncDelete_def propagateExpire_def) (rule tracks_data [OF t]; auto dest: data_invD(1,2) [OF tracksD(2) [OF t]] split: if_splits)
  then show ?thesis using t Some m
    by (simp add: expireIfNeeded_def keyIsExpired_def getExpire_ok [OF tracksD(2) [OF t]]) (auto simp: dbSyncDelete_def propagateExpire_def)
qed

lemma tracks_time: "tracks T S0 S \<Longrightarrow> server_mstime S0 = clock S0 \<Longrightarrow> server_mstime S = clock S"
  using tracksD(3) [of T S0 S] by (simp add: same_ctl_def)

lemma tracks_client: "tracks T S0 S \<Longrightarrow> i \<in> dom (client_heap S0) \<Longrightarrow> \<exists>c. client_heap S i = Some c"
  using same_ctl_dom [OF tracksD(3) [of T S0 S]] by blast

lemma tracks_clear: "tracks (insert (db, k) T) S0 S \<Longrightarrow> all_dirty S db k \<Longrightarrow> tracks T S0 S"
  unfolding tracks_def by (metis insert_iff prod.inject)

lemma all_dirty_heap: "client_heap S' = client_heap S \<Longrightarrow> all_dirty S' db k = all_dirty S db k"
  by (simp add: all_dirty_def watches_def is_dirty_def)

lemma delete_absent:
  assumes t: "tracks T S0 S" and n: "val_at S db k = None"
  shows "tracks T S0 (snd (dbSyncDelete db k S))"
proof -
  have "exp_at S db k = None" using data_invD(1) [OF tracksD(2) [OF t], of db k] n by (cases "exp_at S db k") auto
  then show ?thesis using n by (simp add: dbSyncDelete_def) (rule tracks_data [OF t]; auto dest: data_invD(1,2) [OF tracksD(2) [OF t]] split: if_splits)
qed

lemma lookupKeyWrite_ok:
  assumes t: "tracks T S0 S" and m: "server_mstime S0 = clock S0"
  shows "ends (\<lambda>(v, S'). tracks T S0 S' \<and> v = val_at S' db k \<and> (\<forall>k'. k' \<noteq> k \<longrightarrow> entry S' db k' = entry S db k') \<and> (\<forall>d. d \<noteq> db \<longrightarrow> dbs S' d = dbs S d))
    (lookupKeyWrite cfg db k S)"
  using expireIfNeeded_ok [OF t tracks_time [OF t m], where cfg = cfg and db = db and k = k] unfolding lookupKeyWrite_def lookupKey_def
  by (elim ends_bind2 [where Q = "\<lambda>b S'. tracks T S0 S' \<and> (\<forall>k'. k' \<noteq> k \<longrightarrow> entry S' db k' = entry S db k') \<and> (\<forall>d. d \<noteq> db \<longrightarrow> dbs S' d = dbs S d)"]) simp

lemma lookupKeyRead_ok:
  assumes t: "tracks T S0 S" and m: "server_mstime S0 = clock S0"
  shows "ends (\<lambda>(v, S'). tracks T S0 S' \<and> (v = None \<or> v = val_at S' db k)) (lookupKeyRead cfg i db k S)"
  unfolding lookupKeyRead_def
proof (rule ends_bind2 [where Q = "\<lambda>b S'. tracks T S0 S'"])
  show "ends (\<lambda>(b, S'). tracks T S0 S') (expireIfNeeded cfg db k S)" using expireIfNeeded_ok [OF t tracks_time [OF t m], where cfg = cfg and db = db and k = k] by (rule ends_mono) auto
qed (auto simp: lookupKey_def split: option.splits)

section \<open>The commands\<close>

lemma setKey_ok:
  assumes t: "tracks T S0 S" and m: "server_mstime S0 = clock S0"
  shows "ends (\<lambda>S'. tracks T S0 S' \<and> val_at S' db k = Some v \<and> all_dirty S' db k) (setKey cfg db k v S)"
  unfolding setKey_def
proof (rule ends_bind2 [OF lookupKeyWrite_ok [OF t m]])
  fix old S1 assume 1: "tracks T S0 S1 \<and> old = val_at S1 db k \<and> (\<forall>k'. k' \<noteq> k \<longrightarrow> entry S1 db k' = entry S db k') \<and> (\<forall>d. d \<noteq> db \<longrightarrow> dbs S1 d = dbs S d)"
  have 2: "ends (\<lambda>S'. tracks (insert (db, k) T) S0 S' \<and> val_at S' db k = Some v) (if old = None then dbAdd_k cfg db k v S1 else dbOverwrite db k v S1)"
    using 1 dbAdd_k_ok [of T S0 S1 db k v cfg] dbOverwrite_ok [of T S0 S1 db k v] by (auto elim!: ends_mono simp: lookup_update')
  show "ends (\<lambda>S'. tracks T S0 S' \<and> val_at S' db k = Some v \<and> all_dirty S' db k) (case (old, S1) of (old, S1) \<Rightarrow>
      cbind (if old = None then dbAdd_k cfg db k v S1 else dbOverwrite db k v S1) (\<lambda>S. cbind (removeExpire db k S) (\<lambda>(uu, S). signalModifiedKey db k S)))"
    unfolding prod.case
  proof (rule ends_cbind [OF 2])
    fix S2 assume 2: "tracks (insert (db, k) T) S0 S2 \<and> val_at S2 db k = Some v"
    then have 3: "ends (\<lambda>(b, S'). tracks (insert (db, k) T) S0 S' \<and> (\<forall>d. db_dict (dbs S' d) = db_dict (dbs S2 d))) (removeExpire db k S2)"
      by (intro removeExpire_ok) auto
    show "ends (\<lambda>S'. tracks T S0 S' \<and> val_at S' db k = Some v \<and> all_dirty S' db k) (cbind (removeExpire db k S2) (\<lambda>(uu, S). signalModifiedKey db k S))"
      by (rule ends_bind2 [OF 3]) (use 2 in \<open>auto intro!: ends_mono [OF touch_ok] intro: tracks_subset\<close>)
  qed
qed

end
