(* ===== verification/DbCmds.thy ===== *)
theory DbCmds
  imports DbUse
begin

text \<open>
  Every command on the key space returns from a state that satisfies the invariants, provided that the times to live it is given are not so large that their sums overflow,
  and marks the watchers of the keys that it changes. Two commands do not: \<open>MOVE\<close> and \<open>SWAPDB\<close>.
\<close>

section \<open>Times that do not overflow\<close>

definition small_time :: "byte list \<Rightarrow> time_unit \<Rightarrow> bool" where
  "small_time arg unit \<longleftrightarrow> (case string2ll arg of None \<Rightarrow> True | Some t \<Rightarrow> \<bar>if unit = UNIT_SECONDS then t * 1000 else t\<bar> \<le> 2 ^ 61)"

fun small_cmd :: "'v tcmd \<Rightarrow> bool" where
  "small_cmd (SetCmd _ _ _ (Some (arg, unit))) = small_time arg unit"
| "small_cmd (ExpireCmd _ unit _ arg) = small_time arg unit"
| "small_cmd _ = True"

lemma sll_small: "\<bar>x\<bar> \<le> 2 ^ 62 \<Longrightarrow> sll x = Inr x"
  by (auto simp: sll_def LLONG_MIN_def LLONG_MAX_def)

section \<open>Commands that mark what they change\<close>

lemma set_abort_ok:
  assumes t: "tracks T S0 S" and m: "server_mstime S0 = clock S0"
  shows "ends (\<lambda>(b, S'). tracks T S0 S') (if flags = OBJ_SET_NO_FLAGS then Inr (False, S)
     else cbind (lookupKeyWrite cfg db k S) (\<lambda>(old, S). Inr (if flags = OBJ_SET_NX then old \<noteq> None else old = None, S)))"
  using t by (auto intro!: ends_bind2 [OF lookupKeyWrite_ok [OF t m]])

lemma set_expire_ok:
  assumes t: "tracks T S0 S" and v: "val_at S db k \<noteq> None" and d: "all_dirty S db k" and i: "i \<in> dom (client_heap S0)" and ms: "\<forall>x. ms = Some x \<longrightarrow> \<bar>x\<bar> \<le> 2 ^ 61"
  shows "ends (tracks T S0) (case ms of None \<Rightarrow> Inr S | Some t \<Rightarrow> cbind (sll (clock S + t)) (\<lambda>w. setExpire cfg i db k w S))"
proof (cases ms)
  case (Some x)
  obtain c where c: "client_heap S i = Some c" using tracks_client [OF t i] by blast
  have w: "\<bar>clock S + x\<bar> \<le> 2 ^ 62" using ms Some data_invD(3,4) [OF tracksD(2) [OF t]] by auto
  have "ends (tracks T S0) (setExpire cfg i db k (clock S + x) S)"
    by (rule ends_mono [OF setExpire_ok [OF t v w c]]) (use d all_dirty_heap in \<open>blast intro: tracks_clear\<close>)
  then show ?thesis using Some sll_small [OF w] by simp
qed (use t in simp)

lemma setGeneric_ok:
  assumes t: "tracks T S0 S" and m: "server_mstime S0 = clock S0" and i: "i \<in> dom (client_heap S0)"
    and small: "small_cmd (SetCmd flags k v expire)"
  shows "ends (tracks T S0) (setGenericCommand cfg i db flags k v expire S)"
proof -
  have go: "ends (tracks T S0) (cbind (if flags = OBJ_SET_NO_FLAGS then Inr (False, S)
       else cbind (lookupKeyWrite cfg db k S) (\<lambda>(old, S). Inr (if flags = OBJ_SET_NX then old \<noteq> None else old = None, S))) (\<lambda>(abort, S).
     if abort then Inr (addReply i RpNullBulk S)
     else cbind (setKey cfg db k v S) (\<lambda>S. let S = add_dirty 1 S in
       cbind (case ms of None \<Rightarrow> Inr S | Some t \<Rightarrow> cbind (sll (clock S + t)) (\<lambda>w. setExpire cfg i db k w S)) (\<lambda>S. Inr (addReply i RpOk S)))))"
    if ms: "\<forall>x. ms = Some x \<longrightarrow> \<bar>x\<bar> \<le> 2 ^ 61" for ms
  proof (rule ends_bind2 [OF set_abort_ok [OF t m]], unfold prod.case)
    fix abort S1 assume 1: "tracks T S0 S1"
    have "ends (tracks T S0) (cbind (setKey cfg db k v S1) (\<lambda>S. let S = add_dirty 1 S in
       cbind (case ms of None \<Rightarrow> Inr S | Some t \<Rightarrow> cbind (sll (clock S + t)) (\<lambda>w. setExpire cfg i db k w S)) (\<lambda>S. Inr (addReply i RpOk S))))"
    proof (rule ends_cbind [OF setKey_ok [OF 1 m]], unfold Let_def)
      fix S2 assume 2: "tracks T S0 S2 \<and> val_at S2 db k = Some v \<and> all_dirty S2 db k"
      then have "all_dirty (add_dirty 1 S2) db k" using all_dirty_heap [of "add_dirty 1 S2" S2] by simp
      then have "ends (tracks T S0) (case ms of None \<Rightarrow> Inr (add_dirty 1 S2) | Some t \<Rightarrow> cbind (sll (clock (add_dirty 1 S2) + t)) (\<lambda>w. setExpire cfg i db k w (add_dirty 1 S2)))"
        using 2 ms by (intro set_expire_ok [OF _ _ _ i]) auto
      then show "ends (tracks T S0) (cbind (case ms of None \<Rightarrow> Inr (add_dirty 1 S2) | Some t \<Rightarrow> cbind (sll (clock (add_dirty 1 S2) + t)) (\<lambda>w. setExpire cfg i db k w (add_dirty 1 S2)))
          (\<lambda>S. Inr (addReply i RpOk S)))" by (rule ends_cbind) auto
    qed
    then show "ends (tracks T S0) (if abort then Inr (addReply i RpNullBulk S1) else cbind (setKey cfg db k v S1) (\<lambda>S. let S = add_dirty 1 S in
       cbind (case ms of None \<Rightarrow> Inr S | Some t \<Rightarrow> cbind (sll (clock S + t)) (\<lambda>w. setExpire cfg i db k w S)) (\<lambda>S. Inr (addReply i RpOk S))))"
      using 1 by auto
  qed
  show ?thesis
  proof (cases expire)
    case None
    then show ?thesis using go [of None] by (simp add: setGenericCommand_def Let_def)
  next
    case (Some p)
    obtain arg unit where p: "p = (arg, unit)" by (cases p)
    show ?thesis
    proof (cases "string2ll arg")
      case None
      then show ?thesis using t Some p by (auto simp: setGenericCommand_def Let_def)
    next
      case (Some x)
      define ms where "ms = (if unit = UNIT_SECONDS then x * 1000 else x)"
      have b: "\<bar>ms\<bar> \<le> 2 ^ 61" using small Some \<open>expire = Some p\<close> p by (simp add: small_time_def ms_def)
      then have "(if unit = UNIT_SECONDS then sll (x * 1000) else Inr x) = Inr ms" using sll_small [of ms] by (cases unit) (simp_all add: ms_def)
      then show ?thesis using go [of "Some ms"] b t Some \<open>expire = Some p\<close> p by (auto simp: setGenericCommand_def Let_def)
    qed
  qed
qed

lemma getGeneric_ok:
  assumes t: "tracks T S0 S" and m: "server_mstime S0 = clock S0"
  shows "ends (tracks T S0) (getGenericCommand cfg i db k S)"
  unfolding getGenericCommand_def by (rule ends_bind2 [OF lookupKeyRead_ok [OF t m]]) auto

lemma del_loop_ok:
  assumes t: "tracks T S0 S" and m: "server_mstime S0 = clock S0"
  shows "ends (\<lambda>(n, S'). tracks T S0 S') (del_loop cfg db keys n S)"
  using t
proof (induction keys arbitrary: n S)
  case (Cons k keys)
  have del: "ends (\<lambda>(n, S'). tracks T S0 S') (case dbSyncDelete db k S1 of (deleted, S) \<Rightarrow>
      if deleted then cbind (signalModifiedKey db k S) (\<lambda>S. del_loop cfg db keys (n + 1) (add_dirty 1 S)) else del_loop cfg db keys n S)"
    if 1: "tracks T S0 S1" for S1
  proof (cases "val_at S1 db k")
    case None
    then have "fst (dbSyncDelete db k S1) = False" by (simp add: dbSyncDelete_def)
    then show ?thesis using Cons.IH [OF delete_absent [OF 1 None]] by (cases "dbSyncDelete db k S1") simp
  next
    case (Some v)
    then have f: "fst (dbSyncDelete db k S1) = True" by (simp add: dbSyncDelete_def)
    have "ends (\<lambda>(n, S'). tracks T S0 S') (cbind (signalModifiedKey db k (snd (dbSyncDelete db k S1))) (\<lambda>S. del_loop cfg db keys (n + 1) (add_dirty 1 S)))"
    proof (rule ends_cbind [OF touch_ok [OF delete_ok [OF 1]]])
      fix S2 assume "tracks (insert (db, k) T - {(db, k)}) S0 S2 \<and> dbs S2 = dbs (snd (dbSyncDelete db k S1)) \<and> all_dirty S2 db k"
      then have "tracks T S0 (add_dirty 1 S2)" by (auto intro: tracks_subset)
      from Cons.IH [OF this] show "ends (\<lambda>(n, S'). tracks T S0 S') (del_loop cfg db keys (n + 1) (add_dirty 1 S2))" .
    qed
    then show ?thesis using f by (cases "dbSyncDelete db k S1") simp
  qed
  show ?case unfolding del_loop.simps
    by (rule ends_bind2 [OF expireIfNeeded_ok [OF Cons.prems tracks_time [OF Cons.prems m]]]) (use del in auto)
qed simp

lemma delGeneric_ok:
  assumes t: "tracks T S0 S" and m: "server_mstime S0 = clock S0"
  shows "ends (tracks T S0) (delGenericCommand cfg i db keys S)"
  unfolding delGenericCommand_def by (rule ends_bind2 [OF del_loop_ok [OF t m]]) auto

lemma exists_loop_ok:
  assumes t: "tracks T S0 S" and m: "server_mstime S0 = clock S0"
  shows "ends (\<lambda>(n, S'). tracks T S0 S') (exists_loop cfg i db keys n S)"
  using t
proof (induction keys arbitrary: n S)
  case (Cons k keys)
  show ?case unfolding exists_loop.simps by (rule ends_bind2 [OF lookupKeyRead_ok [OF Cons.prems m]]) (use Cons.IH in auto)
qed simp

lemma exists_ok:
  assumes t: "tracks T S0 S" and m: "server_mstime S0 = clock S0"
  shows "ends (tracks T S0) (existsCommand cfg i db keys S)"
  unfolding existsCommand_def by (rule ends_bind2 [OF exists_loop_ok [OF t m]]) auto

lemma select_ok:
  assumes t: "tracks T S0 S" and i: "i \<in> dom (client_heap S0)"
  shows "ends (tracks T S0) (selectCommand cfg i arg S)"
proof -
  obtain c where c: "client_heap S i = Some c" using tracks_client [OF t i] by blast
  have "tracks T S0 (put_client i (c\<lparr>mc_db := db\<rparr>) S)" for db
    by (rule tracks_clients [OF t]) (use c in \<open>auto simp: same_ctl_def core_def is_dirty_def\<close>)
  then show ?thesis using c t by (auto simp: selectCommand_def split: option.splits)
qed

lemma persist_ok:
  assumes t: "tracks T S0 S" and m: "server_mstime S0 = clock S0"
  shows "ends (tracks T S0) (persistCommand cfg i db k S)"
  unfolding persistCommand_def
proof (rule ends_bind2 [OF lookupKeyWrite_ok [OF t m]], unfold prod.case)
  fix v S1 assume 1: "tracks T S0 S1 \<and> v = val_at S1 db k \<and> (\<forall>k'. k' \<noteq> k \<longrightarrow> entry S1 db k' = entry S db k') \<and> (\<forall>d. d \<noteq> db \<longrightarrow> dbs S1 d = dbs S d)"
  show "ends (tracks T S0) (if v = None then Inr (addReply i (RpInt 0) S1)
      else cbind (removeExpire db k S1) (\<lambda>(removed, S). Inr (if removed then add_dirty 1 (addReply i (RpInt 1) S) else addReply i (RpInt 0) S)))"
  proof (cases "v = None")
    case False
    then have "ends (tracks T S0) (cbind (removeExpire db k S1) (\<lambda>(removed, S). Inr (if removed then add_dirty 1 (addReply i (RpInt 1) S) else addReply i (RpInt 0) S)))"
      using 1 by (intro ends_bind2 [OF removeExpire_ok [of T S0]]) auto
    then show ?thesis using False by auto
  qed (use 1 in auto)
qed

lemma ttl_ok:
  assumes t: "tracks T S0 S" and m: "server_mstime S0 = clock S0"
  shows "ends (tracks T S0) (ttlGenericCommand cfg i db output_ms k S)"
  unfolding ttlGenericCommand_def
proof (rule ends_bind2 [OF lookupKeyRead_ok [OF t m]], unfold prod.case)
  fix v S1 assume 1: "tracks T S0 S1 \<and> (v = None \<or> v = val_at S1 db k)"
  note d = data_invD [OF tracksD(2) [of T S0 S1]]
  have r: "tracks T S0 (addReply i r S1)" for r using 1 by auto
  show "ends (tracks T S0) (if v = None then Inr (addReply i (RpInt (- 2)) S1) else
     cbind (getExpire db k S1) (\<lambda>expire.
     cbind (if expire \<noteq> - 1 then cbind (sll (expire - clock S1)) (\<lambda>ttl. Inr (if ttl < 0 then 0 else ttl)) else Inr (- 1)) (\<lambda>ttl.
     if ttl = - 1 then Inr (addReply i (RpInt (- 1)) S1)
     else if output_ms then Inr (addReply i (RpInt ttl) S1)
     else cbind (sll (ttl + 500)) (\<lambda>t. Inr (addReply i (RpInt (t div 1000)) S1)))))"
  proof (cases "exp_at S1 db k")
    case None
    then show ?thesis using r 1 by (simp add: getExpire_ok [OF tracksD(2) [OF conjunct1 [OF 1]]])
  next
    case (Some w)
    have "sll (w - clock S1) = Inr (w - clock S1)" "sll (w - clock S1 + 500) = Inr (w - clock S1 + 500)" "sll 500 = Inr 500"
      using d(2) [OF _ Some] d(3,4) 1 by (auto simp: sll_def LLONG_MIN_def LLONG_MAX_def)
    then show ?thesis using r 1 Some by (auto simp: getExpire_ok [OF tracksD(2) [OF conjunct1 [OF 1]]])
  qed
qed

lemma touch_clear:
  assumes t: "tracks (insert (db, k) T) S0 S"
  shows "ends (\<lambda>S'. tracks T S0 S' \<and> dbs S' = dbs S) (signalModifiedKey db k S)"
  by (rule ends_mono [OF touch_ok [OF t]]) (auto intro: tracks_subset)

lemma expireGeneric_ok:
  assumes t: "tracks T S0 S" and m: "server_mstime S0 = clock S0" and i: "i \<in> dom (client_heap S0)"
    and small: "small_time param unit" and b: "basetime = 0 \<or> basetime = clock S"
  shows "ends (tracks T S0) (expireGenericCommand cfg i db basetime unit k param S)"
proof (cases "string2ll param")
  case (Some x)
  define ms where "ms = (if unit = UNIT_SECONDS then x * 1000 else x)"
  have ms: "\<bar>ms\<bar> \<le> 2 ^ 61" using small Some by (simp add: small_time_def ms_def)
  then have w: "\<bar>ms + basetime\<bar> \<le> 2 ^ 62" using b data_invD(3,4) [OF tracksD(2) [OF t]] by auto
  have 0: "(if unit = UNIT_SECONDS then sll (x * 1000) else Inr x) = Inr ms" using sll_small [of ms] ms by (cases unit) (simp_all add: ms_def)
  note 0 = this sll_small [OF w]
  show ?thesis unfolding expireGenericCommand_def Some option.case 0 cbind_Inr
  proof (rule ends_bind2 [OF lookupKeyWrite_ok [OF t m]], unfold prod.case)
    fix old S1 assume "tracks T S0 S1 \<and> old = val_at S1 db k \<and> (\<forall>k'. k' \<noteq> k \<longrightarrow> entry S1 db k' = entry S db k') \<and> (\<forall>d. d \<noteq> db \<longrightarrow> dbs S1 d = dbs S d)"
    then have 1: "tracks T S0 S1" "old = val_at S1 db k" by blast+
    obtain c where c: "client_heap S1 i = Some c" using tracks_client [OF 1(1) i] by blast
    have del: "ends (tracks T S0) (cbind (signalModifiedKey db k (add_dirty 1 (snd (dbSyncDelete db k S1)))) (\<lambda>S. Inr (addReply i (RpInt 1) S)))"
      by (rule ends_cbind [OF touch_clear]) (use delete_ok [OF 1(1)] in auto)
    have set: "ends (tracks T S0) (cbind (setExpire cfg i db k (ms + basetime) S1) (\<lambda>S. cbind (signalModifiedKey db k (addReply i (RpInt 1) S)) (\<lambda>S. Inr (add_dirty 1 S))))"
      if "old \<noteq> None" using that 1(2) by (intro ends_cbind [OF setExpire_ok [OF 1(1) _ w c]]) (auto intro!: ends_cbind [OF touch_clear])
    have "dbSyncDelete db k S1 = (True, snd (dbSyncDelete db k S1))" if "old \<noteq> None" using that 1(2) by (auto simp: dbSyncDelete_def)
    then show "ends (tracks T S0) (if old = None then Inr (addReply i (RpInt 0) S1)
       else if checkAlreadyExpired cfg (ms + basetime) S1 then
         (case dbSyncDelete db k S1 of (deleted, S) \<Rightarrow>
            if \<not> deleted then Inl AssertFailed else cbind (signalModifiedKey db k (add_dirty 1 S)) (\<lambda>S. Inr (addReply i (RpInt 1) S)))
       else cbind (setExpire cfg i db k (ms + basetime) S1) (\<lambda>S. cbind (signalModifiedKey db k (addReply i (RpInt 1) S)) (\<lambda>S. Inr (add_dirty 1 S))))"
      using 1(1) del set by (cases old) (auto split: prod.splits)
  qed
qed (use t in \<open>auto simp: expireGenericCommand_def\<close>)

text \<open>A value is added under a free name, with the time to live that it had under another.\<close>

lemma add_with_expire:
  assumes t: "tracks T S0 S" and n: "val_at S db k = None" and i: "i \<in> dom (client_heap S0)" and w: "\<bar>w\<bar> \<le> 2 ^ 62"
  shows "ends (tracks (insert (db, k) T) S0) (cbind (dbAdd_k cfg db k v S) (\<lambda>S. if w \<noteq> - 1 then setExpire cfg i db k w S else Inr S))"
proof (rule ends_cbind [OF dbAdd_k_ok [OF t n]])
  fix S1 assume 1: "tracks (insert (db, k) T) S0 S1 \<and> (\<forall>d. db_dict (dbs S1 d) = (if d = db then Mapping.update k v (db_dict (dbs S d)) else db_dict (dbs S d)) \<and>
    db_expires (dbs S1 d) = db_expires (dbs S d))"
  then obtain c where c: "client_heap S1 i = Some c" using tracks_client [OF _ i] by blast
  have "ends (tracks (insert (db, k) (insert (db, k) T)) S0) (setExpire cfg i db k w S1)"
    by (rule ends_mono [OF setExpire_ok [OF conjunct1 [OF 1] _ w c]]) (use 1 in auto)
  then show "ends (tracks (insert (db, k) T) S0) (if w \<noteq> - 1 then setExpire cfg i db k w S1 else Inr S1)" using 1 by auto
qed

lemma getExpire_small: "data_inv S \<Longrightarrow> \<exists>w. getExpire db k S = Inr w \<and> \<bar>w\<bar> \<le> 2 ^ 62"
  using data_invD(2) [of S db k] by (cases "exp_at S db k") (simp_all add: getExpire_ok)

lemma rename_ok:
  assumes t: "tracks T S0 S" and m: "server_mstime S0 = clock S0" and i: "i \<in> dom (client_heap S0)"
  shows "ends (tracks T S0) (renameGenericCommand cfg i db nx src dst S)"
  unfolding renameGenericCommand_def
proof (rule ends_bind2 [OF lookupKeyWrite_ok [OF t m]], unfold prod.case)
  fix old S1 assume "tracks T S0 S1 \<and> old = val_at S1 db src \<and> (\<forall>k'. k' \<noteq> src \<longrightarrow> entry S1 db k' = entry S db k') \<and> (\<forall>d. d \<noteq> db \<longrightarrow> dbs S1 d = dbs S d)"
  then have 1: "tracks T S0 S1" by blast
  obtain w where w: "getExpire db src S1 = Inr w" "\<bar>w\<bar> \<le> 2 ^ 62" using getExpire_small [OF tracksD(2) [OF 1]] by blast
  have move: "ends (tracks T S0) (cbind (lookupKeyWrite cfg db dst S1) (\<lambda>(old, S).
       if old \<noteq> None \<and> nx then Inr (addReply i (RpInt 0) S)
       else
         cbind (dbAdd_k cfg db dst v (if old \<noteq> None then snd (dbSyncDelete db dst S) else S)) (\<lambda>S.
         cbind (if w \<noteq> - 1 then setExpire cfg i db dst w S else Inr S) (\<lambda>S.
         cbind (signalModifiedKey db src (snd (dbSyncDelete db src S))) (\<lambda>S.
         cbind (signalModifiedKey db dst S) (\<lambda>S.
         Inr (addReply i (if nx then RpInt 1 else RpOk) (add_dirty 1 S))))))))" for v
  proof (rule ends_bind2 [OF lookupKeyWrite_ok [OF 1 m]], unfold prod.case)
    fix old2 S2 assume 2: "tracks T S0 S2 \<and> old2 = val_at S2 db dst \<and> (\<forall>k'. k' \<noteq> dst \<longrightarrow> entry S2 db k' = entry S1 db k') \<and> (\<forall>d. d \<noteq> db \<longrightarrow> dbs S2 d = dbs S1 d)"
    let ?S = "if old2 \<noteq> None then snd (dbSyncDelete db dst S2) else S2"
    have 3: "tracks (insert (db, dst) T) S0 ?S" using 2 delete_ok [of T S0 S2 db dst] by (auto intro: tracks_subset)
    have 4: "val_at ?S db dst = None" using 2 by (simp add: dbSyncDelete_def)
    have "ends (tracks T S0) (cbind (dbAdd_k cfg db dst v ?S) (\<lambda>S.
         cbind (if w \<noteq> - 1 then setExpire cfg i db dst w S else Inr S) (\<lambda>S.
         cbind (signalModifiedKey db src (snd (dbSyncDelete db src S))) (\<lambda>S.
         cbind (signalModifiedKey db dst S) (\<lambda>S.
         Inr (addReply i (if nx then RpInt 1 else RpOk) (add_dirty 1 S)))))))"
      unfolding cbind_assoc [symmetric, where r = "dbAdd_k cfg db dst v ?S"]
    proof (rule ends_cbind [OF add_with_expire [OF 3 4 i w(2)]])
      fix S3 assume "tracks (insert (db, dst) (insert (db, dst) T)) S0 S3"
      then have "tracks (insert (db, src) (insert (db, dst) T)) S0 (snd (dbSyncDelete db src S3))" using delete_ok by auto
      then show "ends (tracks T S0) (cbind (signalModifiedKey db src (snd (dbSyncDelete db src S3))) (\<lambda>S. cbind (signalModifiedKey db dst S) (\<lambda>S.
         Inr (addReply i (if nx then RpInt 1 else RpOk) (add_dirty 1 S)))))"
        by (rule ends_cbind [OF touch_clear]) (rule ends_cbind [OF touch_clear], auto)
    qed
    then show "ends (tracks T S0) (if old2 \<noteq> None \<and> nx then Inr (addReply i (RpInt 0) S2)
       else cbind (dbAdd_k cfg db dst v ?S) (\<lambda>S. cbind (if w \<noteq> - 1 then setExpire cfg i db dst w S else Inr S) (\<lambda>S.
         cbind (signalModifiedKey db src (snd (dbSyncDelete db src S))) (\<lambda>S. cbind (signalModifiedKey db dst S) (\<lambda>S.
         Inr (addReply i (if nx then RpInt 1 else RpOk) (add_dirty 1 S)))))))"
      using 2 by (auto simp del: if_cancel)
  qed
  then show "ends (tracks T S0) (case old of None \<Rightarrow> Inr (addReply i (RpError ''no such key'') S1)
     | Some v \<Rightarrow> if src = dst then Inr (addReply i (if nx then RpInt 0 else RpOk) S1)
         else cbind (getExpire db src S1) (\<lambda>expire. cbind (lookupKeyWrite cfg db dst S1) (\<lambda>(old, S).
           if old \<noteq> None \<and> nx then Inr (addReply i (RpInt 0) S)
           else cbind (dbAdd_k cfg db dst v (if old \<noteq> None then snd (dbSyncDelete db dst S) else S)) (\<lambda>S.
             cbind (if expire \<noteq> - 1 then setExpire cfg i db dst expire S else Inr S) (\<lambda>S.
             cbind (signalModifiedKey db src (snd (dbSyncDelete db src S))) (\<lambda>S. cbind (signalModifiedKey db dst S) (\<lambda>S.
             Inr (addReply i (if nx then RpInt 1 else RpOk) (add_dirty 1 S)))))))))"
    unfolding w(1) cbind_Inr using 1 by (cases old) auto
qed

section \<open>Flushing\<close>

lemma flush_loop_ok:
  assumes "set is \<subseteq> dom (client_heap S)"
  shows "ends (\<lambda>S'. same_ctl S S' \<and> dbs S' = dbs S \<and>
      (\<forall>i \<in> set is. \<forall>db k. watches S i db k \<and> (dbid = None \<or> dbid = Some db) \<and> val_at S db k \<noteq> None \<longrightarrow> is_dirty S' i)) (flush_loop dbid is S)"
  using assms
proof (induction "is" arbitrary: S)
  case (Cons i "is")
  then obtain c where c: "client_heap S i = Some c" by auto
  define hit where "hit = list_ex (\<lambda>(db, key). (dbid = None \<or> dbid = Some db) \<and> val_at S db key \<noteq> None) (watched_keys c)"
  let ?S = "if hit then put_client i (c\<lparr>CLIENT_DIRTY_CAS := True\<rparr>) S else S"
  have s: "same_ctl S ?S" "dbs ?S = dbs S" using put_dirty [OF c] by simp_all
  have h: "is_dirty ?S i" if "watches S i db k" "dbid = None \<or> dbid = Some db" "val_at S db k \<noteq> None" for db k
    using that c by (auto simp: hit_def list_ex_iff watches_def is_dirty_def)
  have d: "set is \<subseteq> dom (client_heap ?S)" using Cons.prems same_ctl_dom [OF s(1)] by auto
  have e: "flush_loop dbid (i # is) S = flush_loop dbid is ?S" using c by (simp add: hit_def)
  show ?case unfolding e
  proof (rule ends_mono [OF Cons.IH [OF d]])
    fix S' assume a: "same_ctl ?S S' \<and> dbs S' = dbs ?S \<and>
      (\<forall>j \<in> set is. \<forall>db k. watches ?S j db k \<and> (dbid = None \<or> dbid = Some db) \<and> val_at ?S db k \<noteq> None \<longrightarrow> is_dirty S' j)"
    then have "is_dirty ?S i \<Longrightarrow> is_dirty S' i" by (simp add: same_ctl_def)
    then show "same_ctl S S' \<and> dbs S' = dbs S \<and>
      (\<forall>i \<in> set (i # is). \<forall>db k. watches S i db k \<and> (dbid = None \<or> dbid = Some db) \<and> val_at S db k \<noteq> None \<longrightarrow> is_dirty S' i)"
      using a h same_ctl_trans [OF s(1)] unfolding same_ctl_watches [OF s(1)] s(2) by (metis set_ConsD)
  qed
qed simp

lemma empty_loop_simps [simp]:
  "dbs (snd (emptyDb_loop js r S)) d = (if d \<in> set js then (dbs S d)\<lparr>db_dict := Mapping.empty, db_expires := Mapping.empty\<rparr> else dbs S d)"
  "client_heap (snd (emptyDb_loop js r S)) = client_heap S" "client_list (snd (emptyDb_loop js r S)) = client_list S"
  "clock (snd (emptyDb_loop js r S)) = clock S" "server_mstime (snd (emptyDb_loop js r S)) = server_mstime S"
  by (induction js arbitrary: r S) auto

lemma emptyDb_simps [simp]:
  "client_heap (snd (emptyDb cfg dbid S)) = client_heap S" "client_list (snd (emptyDb cfg dbid S)) = client_list S"
  "clock (snd (emptyDb cfg dbid S)) = clock S" "server_mstime (snd (emptyDb cfg dbid S)) = server_mstime S"
  "dbs (snd (emptyDb cfg dbid S)) d = (if d < dbnum cfg \<and> (dbid = None \<or> dbid = Some d) then (dbs S d)\<lparr>db_dict := Mapping.empty, db_expires := Mapping.empty\<rparr> else dbs S d)"
  by (auto simp: emptyDb_def case_prod_beta split: option.splits)

lemma tracks_clear_set: "tracks (T \<union> D) S0 S \<Longrightarrow> (\<And>db k. (db, k) \<in> D \<Longrightarrow> all_dirty S db k) \<Longrightarrow> tracks T S0 S"
  unfolding tracks_def by (metis Un_iff)

lemma flush_ok:
  assumes t: "tracks T S0 S"
  shows "ends (\<lambda>S'. tracks T S0 (snd (emptyDb cfg dbid S'))) (signalFlushedDb dbid S)"
  unfolding signalFlushedDb_def touchWatchedKeysOnFlush_def
proof (rule ends_mono [OF flush_loop_ok [of "client_list S" S dbid]])
  note l = watch_invD(2) [OF tracksD(1) [OF t]]
  show "set (client_list S) \<subseteq> dom (client_heap S)" using l by simp
  fix S1 assume 1: "same_ctl S S1 \<and> dbs S1 = dbs S \<and>
      (\<forall>i \<in> set (client_list S). \<forall>db k. watches S i db k \<and> (dbid = None \<or> dbid = Some db) \<and> val_at S db k \<noteq> None \<longrightarrow> is_dirty S1 i)"
  then have t1: "tracks T S0 S1" by (intro tracks_clients [OF t]) auto
  let ?D = "{(db, k). all_dirty S1 db k}"
  have d: "(db, k) \<in> ?D" if "dbid = None \<or> dbid = Some db" "val_at S1 db k \<noteq> None" for db k
  proof -
    have "is_dirty S1 i" if w: "watches S1 i db k" for i
    proof -
      have "watches S i db k" using w 1 same_ctl_watches by blast
      moreover from this have "i \<in> set (client_list S)" using l by (auto simp: watches_def)
      ultimately show ?thesis using 1 \<open>dbid = None \<or> dbid = Some db\<close> \<open>val_at S1 db k \<noteq> None\<close> by metis
    qed
    then show ?thesis by (simp add: all_dirty_def)
  qed
  have n: "exp_at S1 db k = None" if "val_at S1 db k = None" for db k
    using data_invD(1) [OF tracksD(2) [OF t1], of db k] that by (cases "exp_at S1 db k") auto
  have "tracks (T \<union> ?D) S0 (snd (emptyDb cfg dbid S1))"
  proof (rule tracks_data [OF t1])
    fix db k w assume "exp_at (snd (emptyDb cfg dbid S1)) db k = Some w"
    then show "val_at (snd (emptyDb cfg dbid S1)) db k \<noteq> None \<and> \<bar>w\<bar> \<le> 2 ^ 62"
      using data_invD(1,2) [OF tracksD(2) [OF t1], of db k w] by (auto split: if_splits)
  next
    fix db k assume a: "(db, k) \<notin> T \<union> ?D"
    then have "\<not> (dbid = None \<or> dbid = Some db) \<or> val_at S1 db k = None" using d by blast
    then show "(db, k) \<notin> T \<and> quiet (clock S1) (entry S1 db k) (entry (snd (emptyDb cfg dbid S1)) db k)"
      using a n [of db k] by (cases "db < dbnum cfg \<and> (dbid = None \<or> dbid = Some db)") auto
  qed simp_all
  then show "tracks T S0 (snd (emptyDb cfg dbid S1))"
    by (rule tracks_clear_set) (use all_dirty_heap [of "snd (emptyDb cfg dbid S1)" S1] in auto)
qed

lemma strcasecmp_sds_total: "\<exists>d. strcasecmp (a @ [0]) (b @ [0]) = Inr d"
proof (induction a arbitrary: b)
  case Nil
  show ?case by (cases b) auto
next
  case (Cons x a)
  then show ?case by (cases b) auto
qed

lemma flush_flags: "\<exists>f. getFlushCommandFlags args = Inr f"
proof -
  have "\<exists>d. strcasecmp (a @ [0]) [97, 115, 121, 110, 99, 0] = Inr d" for a using strcasecmp_sds_total [of a "[97, 115, 121, 110, 99]"] by simp
  then show ?thesis unfolding getFlushCommandFlags_def by (cases args rule: remdups_adj.cases) (auto, metis cbind_Inr)
qed

lemma flushdb_ok:
  assumes t: "tracks T S0 S"
  shows "ends (tracks T S0) (flushdbCommand cfg i db args S)"
proof -
  obtain f where f: "getFlushCommandFlags args = Inr f" using flush_flags by blast
  have "ends (tracks T S0) (cbind (signalFlushedDb (Some db) S) (\<lambda>S. case emptyDb cfg (Some db) S of (removed, S) \<Rightarrow> Inr (addReply i RpOk (add_dirty removed S))))"
    by (rule ends_cbind [OF flush_ok [OF t]]) (auto simp: case_prod_beta)
  then show ?thesis using t by (auto simp: flushdbCommand_def f)
qed

lemma flushall_ok:
  assumes t: "tracks T S0 S"
  shows "ends (tracks T S0) (flushallCommand cfg i args S)"
proof -
  obtain f where f: "getFlushCommandFlags args = Inr f" using flush_flags by blast
  have "ends (tracks T S0) (cbind (signalFlushedDb None S) (\<lambda>S. case emptyDb cfg None S of (removed, S) \<Rightarrow> Inr (add_dirty 1 (addReply i RpOk (add_dirty removed S)))))"
    by (rule ends_cbind [OF flush_ok [OF t]]) (auto simp: case_prod_beta)
  then show ?thesis using t by (auto simp: flushallCommand_def f)
qed

section \<open>Commands that do not mark what they change\<close>

lemma delete_UNIV: "tracks UNIV S0 S \<Longrightarrow> tracks UNIV S0 (snd (dbSyncDelete db k S))"
  using delete_ok [of UNIV S0 S db k] by simp

lemma moveCommand_ok:
  assumes t: "tracks UNIV S0 S" and m: "server_mstime S0 = clock S0" and i: "i \<in> dom (client_heap S0)"
  shows "ends (tracks UNIV S0) (moveCommand cfg i src k arg S)"
proof -
  have work: "ends (tracks UNIV S0) (cbind (lookupKeyWrite cfg src k S) (\<lambda>(old, S).
     case old of None \<Rightarrow> Inr (addReply i (RpInt 0) S)
     | Some v \<Rightarrow> cbind (getExpire src k S) (\<lambda>expire. cbind (lookupKeyWrite cfg dst k S) (\<lambda>(there, S).
         if there \<noteq> None then Inr (addReply i (RpInt 0) S)
         else cbind (dbAdd_k cfg dst k v S) (\<lambda>S. cbind (if expire \<noteq> - 1 then setExpire cfg i dst k expire S else Inr S) (\<lambda>S.
           Inr (addReply i (RpInt 1) (add_dirty 1 (snd (dbSyncDelete src k S))))))))))" for dst
  proof (rule ends_bind2 [OF lookupKeyWrite_ok [OF t m]], unfold prod.case)
    fix old S1 assume "tracks UNIV S0 S1 \<and> old = val_at S1 src k \<and> (\<forall>k'. k' \<noteq> k \<longrightarrow> entry S1 src k' = entry S src k') \<and> (\<forall>d. d \<noteq> src \<longrightarrow> dbs S1 d = dbs S d)"
    then have 1: "tracks UNIV S0 S1" by blast
    obtain w where w: "getExpire src k S1 = Inr w" "\<bar>w\<bar> \<le> 2 ^ 62" using getExpire_small [OF tracksD(2) [OF 1]] by blast
    have "ends (tracks UNIV S0) (cbind (lookupKeyWrite cfg dst k S1) (\<lambda>(there, S).
         if there \<noteq> None then Inr (addReply i (RpInt 0) S)
         else cbind (dbAdd_k cfg dst k v S) (\<lambda>S. cbind (if w \<noteq> - 1 then setExpire cfg i dst k w S else Inr S) (\<lambda>S.
           Inr (addReply i (RpInt 1) (add_dirty 1 (snd (dbSyncDelete src k S))))))))" for v
    proof (rule ends_bind2 [OF lookupKeyWrite_ok [OF 1 m]], unfold prod.case)
      fix there S2
      assume 2: "tracks UNIV S0 S2 \<and> there = val_at S2 dst k \<and> (\<forall>k'. k' \<noteq> k \<longrightarrow> entry S2 dst k' = entry S1 dst k') \<and> (\<forall>d. d \<noteq> dst \<longrightarrow> dbs S2 d = dbs S1 d)"
      have "ends (tracks UNIV S0) (cbind (dbAdd_k cfg dst k v S2) (\<lambda>S. cbind (if w \<noteq> - 1 then setExpire cfg i dst k w S else Inr S) (\<lambda>S.
           Inr (addReply i (RpInt 1) (add_dirty 1 (snd (dbSyncDelete src k S)))))))" if "there = None"
        unfolding cbind_assoc [symmetric, where r = "dbAdd_k cfg dst k v S2"]
        by (rule ends_cbind [OF add_with_expire [OF conjunct1 [OF 2] _ i w(2)]]) (use that 2 in \<open>auto intro!: tracks_quiet delete_UNIV\<close>)
      then show "ends (tracks UNIV S0) (if there \<noteq> None then Inr (addReply i (RpInt 0) S2)
         else cbind (dbAdd_k cfg dst k v S2) (\<lambda>S. cbind (if w \<noteq> - 1 then setExpire cfg i dst k w S else Inr S) (\<lambda>S.
           Inr (addReply i (RpInt 1) (add_dirty 1 (snd (dbSyncDelete src k S)))))))" using 2 by (cases there) auto
    qed
    then show "ends (tracks UNIV S0) (case old of None \<Rightarrow> Inr (addReply i (RpInt 0) S1)
     | Some v \<Rightarrow> cbind (getExpire src k S1) (\<lambda>expire. cbind (lookupKeyWrite cfg dst k S1) (\<lambda>(there, S).
         if there \<noteq> None then Inr (addReply i (RpInt 0) S)
         else cbind (dbAdd_k cfg dst k v S) (\<lambda>S. cbind (if expire \<noteq> - 1 then setExpire cfg i dst k expire S else Inr S) (\<lambda>S.
           Inr (addReply i (RpInt 1) (add_dirty 1 (snd (dbSyncDelete src k S)))))))))"
      unfolding w(1) cbind_Inr using 1 by (cases old) auto
  qed
  show ?thesis unfolding moveCommand_def using t work by (auto split: option.split)
qed

lemma scan_ready_simps [simp]:
  "client_heap (scan_ready cfg db keys S) = client_heap S" "client_list (scan_ready cfg db keys S) = client_list S" "clock (scan_ready cfg db keys S) = clock S"
  "server_mstime (scan_ready cfg db keys S) = server_mstime S" "db_dict (dbs (scan_ready cfg db keys S) d) = db_dict (dbs S d)"
  "db_expires (dbs (scan_ready cfg db keys S) d) = db_expires (dbs S d)" "db_watched_keys (dbs (scan_ready cfg db keys S) d) = db_watched_keys (dbs S d)"
  by (induction keys arbitrary: S) (simp_all split: option.split)

lemma swap_simps [simp]:
  "client_heap (swap_dicts a b S) = client_heap S" "client_list (swap_dicts a b S) = client_list S" "clock (swap_dicts a b S) = clock S"
  "server_mstime (swap_dicts a b S) = server_mstime S" "db_watched_keys (dbs (swap_dicts a b S) d) = db_watched_keys (dbs S d)"
  "db_dict (dbs (swap_dicts a b S) d) = db_dict (dbs S (if d = b then a else if d = a then b else d))"
  "db_expires (dbs (swap_dicts a b S) d) = db_expires (dbs S (if d = b then a else if d = a then b else d))"
  by (simp_all add: swap_dicts_def Let_def)

lemma swapdb_ok:
  assumes t: "tracks UNIV S0 S"
  shows "ends (tracks UNIV S0) (swapdbCommand cfg i arg1 arg2 S)"
proof -
  have "tracks UNIV S0 (scanDatabaseForReadyLists cfg b (scanDatabaseForReadyLists cfg a (swap_dicts a b S)))" for a b
    by (rule tracks_data [OF t]) (auto simp: scanDatabaseForReadyLists_def dest: data_invD(1,2) [OF tracksD(2) [OF t]] split: if_splits)
  then have "tracks UNIV S0 (snd (dbSwapDatabases cfg id1 id2 S))" for id1 id2 using t by (auto simp: dbSwapDatabases_def split: option.split)
  then show ?thesis using t by (auto simp: swapdbCommand_def case_prod_beta split: option.split)
qed

section \<open>All commands\<close>

text \<open>The keys that a command may change without marking their watchers.\<close>

fun unsignalled :: "'v tcmd \<Rightarrow> (nat \<times> mkey) set" where
  "unsignalled (MoveCmd _ _) = UNIV"
| "unsignalled (SwapdbCmd _ _) = UNIV"
| "unsignalled _ = {}"

lemma run_tcmd_ok:
  assumes inv: "watch_inv S" "data_inv S" and m: "server_mstime S = clock S" and i: "i \<in> dom (client_heap S)" and small: "small_cmd cmd" and u: "cmd \<noteq> UnwatchCmd"
  shows "ends (tracks (unsignalled cmd) S) (run_tcmd cfg i db cmd S)"
proof -
  note t = tracks_refl [OF inv]
  have tU: "tracks UNIV S S" using t by (rule tracks_subset) simp
  show ?thesis
  proof (cases cmd)
    case (SetCmd flags k v expire)
    then show ?thesis using setGeneric_ok [OF t m i] small by (simp add: run_tcmd_def)
  next
    case (ExpireCmd relative unit k param)
    then show ?thesis using expireGeneric_ok [OF t m i] small by (simp add: run_tcmd_def)
  qed (use u t tU m i getGeneric_ok [OF t m] delGeneric_ok [OF t m] exists_ok [OF t m] select_ok [OF t i] persist_ok [OF t m] ttl_ok [OF t m] rename_ok [OF t m i]
      flushdb_ok [OF t] flushall_ok [OF t] moveCommand_ok [OF tU m i] swapdb_ok [OF tU] in \<open>simp_all add: run_tcmd_def\<close>)
qed

end
