(* ===== verification/MultiUse.thy ===== *)
theory MultiUse
  imports DbCmds
begin

text \<open>
  Sequences of events from several clients. No assertion of the code fails and no client that is gone is reached; a transaction is run as a whole or not at all,
  and if it is run, the keys that were watched have the values they had when they were watched, but for keys whose time to live is over.
\<close>

section \<open>Watching and unwatching\<close>

lemma unwatch_step:
  assumes inv: "watch_inv S" and c: "client_heap S i = Some c" "watched_keys c = (db, key) # wks"
  shows "\<exists>l. watchers S db key = Some l \<and> i \<in> set l \<and>
    watch_inv (put_client i (c\<lparr>watched_keys := wks\<rparr>) (upd_db db (\<lambda>d. d\<lparr>db_watched_keys :=
      (if remove1 i l = [] then Mapping.delete key (db_watched_keys d) else Mapping.update key (remove1 i l) (db_watched_keys d))\<rparr>) S))"
proof -
  obtain l where l: "watchers S db key = Some l" "i \<in> set l" using watch_invD(5) [OF inv, of db key i] c by (auto simp: watches_def)
  have dl: "distinct l" "distinct (watched_keys c)" using watch_invD(4) [OF inv l(1)] watch_invD(3) [OF inv c(1)] by auto
  define S' where "S' = put_client i (c\<lparr>watched_keys := wks\<rparr>) (upd_db db (\<lambda>d. d\<lparr>db_watched_keys :=
      (if remove1 i l = [] then Mapping.delete key (db_watched_keys d) else Mapping.update key (remove1 i l) (db_watched_keys d))\<rparr>) S)"
  have w: "watchers S' d k = (if d = db \<and> k = key then (if remove1 i l = [] then None else Some (remove1 i l)) else watchers S d k)" for d k
    by (simp add: S'_def lookup_update')
  have h: "client_heap S' = (client_heap S)(i \<mapsto> c\<lparr>watched_keys := wks\<rparr>)" "client_list S' = client_list S" by (simp_all add: S'_def)
  have rhs: "watches S' j d k \<longleftrightarrow> watches S j d k \<and> \<not> (d = db \<and> k = key \<and> j = i)" for j d k
    using c dl(2) by (auto simp: watches_def h)
  have lhs: "(\<exists>l'. watchers S' d k = Some l' \<and> j \<in> set l') \<longleftrightarrow> (\<exists>l'. watchers S d k = Some l' \<and> j \<in> set l') \<and> \<not> (d = db \<and> k = key \<and> j = i)" for j d k
  proof (cases "d = db \<and> k = key")
    case True
    have "(\<exists>l'. watchers S' d k = Some l' \<and> j \<in> set l') \<longleftrightarrow> j \<in> set (remove1 i l)" using True by (auto simp: w)
    then show ?thesis using True l dl(1) by (auto simp: set_remove1_eq)
  qed (auto simp: w)
  have "watch_inv S'" unfolding watch_inv_def
  proof (intro conjI allI impI)
    show "distinct (client_list S')" "set (client_list S') = dom (client_heap S')" using watch_invD(1,2) [OF inv] c(1) by (auto simp: h)
    show "distinct (watched_keys c')" if "client_heap S' j = Some c'" for j c'
      using that watch_invD(3) [OF inv] dl(2) c(2) by (auto simp: h split: if_splits)
    show "l' \<noteq> []" "distinct l'" if "watchers S' d k = Some l'" for d k l'
      using that watch_invD(4) [OF inv] dl(1) by (auto simp: w split: if_splits)
    show "(\<exists>l'. watchers S' d k = Some l' \<and> j \<in> set l') \<longleftrightarrow> watches S' j d k" for d k j unfolding lhs rhs watch_invD(5) [OF inv] ..
  qed
  then show ?thesis using l unfolding S'_def by blast
qed

text \<open>What unwatching leaves alone: the data, and all of the clients but the watched keys of one.\<close>

definition same_data :: "'v mserver \<Rightarrow> 'v mserver \<Rightarrow> bool" where
  "same_data S S' \<longleftrightarrow> (\<forall>db. db_dict (dbs S' db) = db_dict (dbs S db) \<and> db_expires (dbs S' db) = db_expires (dbs S db)) \<and> clock S' = clock S \<and>
     server_mstime S' = server_mstime S \<and> client_list S' = client_list S \<and> replies S' = replies S"

lemma unwatch_loop_ok:
  assumes "watch_inv S" and "client_heap S i = Some c" and "watched_keys c = wks"
  shows "ends (\<lambda>S'. watch_inv S' \<and> same_data S S' \<and> client_heap S' = (client_heap S)(i \<mapsto> c\<lparr>watched_keys := []\<rparr>)) (unwatch_loop i wks S)"
  using assms
proof (induction wks arbitrary: S c)
  case Nil
  have "c\<lparr>watched_keys := []\<rparr> = c" using Nil.prems(3) by (cases c) simp
  then show ?case using Nil.prems(1,2) by (simp add: same_data_def fun_upd_idem)
next
  case (Cons wk wks)
  obtain db key where wk: "wk = (db, key)" by (cases wk)
  obtain l where l: "watchers S db key = Some l" "i \<in> set l" and inv: "watch_inv (put_client i (c\<lparr>watched_keys := wks\<rparr>) (upd_db db (\<lambda>d. d\<lparr>db_watched_keys :=
      (if remove1 i l = [] then Mapping.delete key (db_watched_keys d) else Mapping.update key (remove1 i l) (db_watched_keys d))\<rparr>) S))"
    using unwatch_step [OF Cons.prems(1,2)] Cons.prems(3) wk by blast
  let ?S = "put_client i (c\<lparr>watched_keys := wks\<rparr>) (upd_db db (\<lambda>d. d\<lparr>db_watched_keys :=
      (if remove1 i l = [] then Mapping.delete key (db_watched_keys d) else Mapping.update key (remove1 i l) (db_watched_keys d))\<rparr>) S)"
  have c: "client_heap ?S i = Some (c\<lparr>watched_keys := wks\<rparr>)" "watched_keys (c\<lparr>watched_keys := wks\<rparr>) = wks" by simp_all
  have u: "unwatch_loop i (wk # wks) S = unwatch_loop i wks ?S" using l Cons.prems(2) by (simp add: wk Let_def)
  show ?case unfolding u by (rule ends_mono [OF Cons.IH [OF inv c]]) (auto simp: same_data_def fun_eq_iff)
qed

lemma unwatchAllKeys_ok:
  assumes "watch_inv S" and "client_heap S i = Some c"
  shows "ends (\<lambda>S'. watch_inv S' \<and> same_data S S' \<and> client_heap S' = (client_heap S)(i \<mapsto> c\<lparr>watched_keys := []\<rparr>)) (unwatchAllKeys i S)"
  using unwatch_loop_ok [OF assms refl] assms(2) by (simp add: unwatchAllKeys_def)

lemma watchForKey_ok:
  assumes inv: "watch_inv S" and c: "client_heap S i = Some c"
  shows "ends (\<lambda>S'. watch_inv S' \<and> same_data S S' \<and>
    (\<exists>w. client_heap S' = (client_heap S)(i \<mapsto> c\<lparr>watched_keys := w\<rparr>) \<and> set w = insert (mc_db c, k) (set (watched_keys c)))) (watchForKey i k S)"
proof (cases "(mc_db c, k) \<in> set (watched_keys c)")
  case True
  then show ?thesis using inv c
    by (auto simp: watchForKey_def same_data_def fun_upd_idem insert_absorb intro!: exI [of _ "watched_keys c"])
next
  case False
  define cl where "cl = (case watchers S (mc_db c) k of None \<Rightarrow> [] | Some l \<Rightarrow> l)"
  define S' where "S' = put_client i (c\<lparr>watched_keys := watched_keys c @ [(mc_db c, k)]\<rparr>)
     (upd_db (mc_db c) (\<lambda>d. d\<lparr>db_watched_keys := Mapping.update k (cl @ [i]) (db_watched_keys d)\<rparr>) S)"
  have w: "watchers S' d k' = (if d = mc_db c \<and> k' = k then Some (cl @ [i]) else watchers S d k')" for d k' by (simp add: S'_def lookup_update')
  have h: "client_heap S' = (client_heap S)(i \<mapsto> c\<lparr>watched_keys := watched_keys c @ [(mc_db c, k)]\<rparr>)" "client_list S' = client_list S" by (simp_all add: S'_def)
  have cl: "j \<in> set cl \<longleftrightarrow> watches S j (mc_db c) k" for j using watch_invD(5) [OF inv, of "mc_db c" k j] by (auto simp: cl_def split: option.splits)
  have ncl: "i \<notin> set cl" "distinct cl" using cl [of i] False c watch_invD(4) [OF inv, of "mc_db c" k] by (auto simp: watches_def cl_def split: option.splits)
  have ws: "watches S' j d k' \<longleftrightarrow> watches S j d k' \<or> (j = i \<and> d = mc_db c \<and> k' = k)" for j d k' using c by (auto simp: watches_def h)
  have "watch_inv S'" unfolding watch_inv_def
  proof (intro conjI allI impI)
    show "distinct (client_list S')" "set (client_list S') = dom (client_heap S')" using watch_invD(1,2) [OF inv] c by (auto simp: h)
    show "distinct (watched_keys c')" if "client_heap S' j = Some c'" for j c'
      using that watch_invD(3) [OF inv] c False by (auto simp: h split: if_splits)
    show "l' \<noteq> []" "distinct l'" if "watchers S' d k' = Some l'" for d k' l'
      using that watch_invD(4) [OF inv] ncl by (auto simp: w split: if_splits)
    show "(\<exists>l'. watchers S' d k' = Some l' \<and> j \<in> set l') \<longleftrightarrow> watches S' j d k'" for d k' j
      using watch_invD(5) [OF inv, of d k' j] cl [of j] unfolding w ws by auto
  qed
  moreover have "watchForKey i k S = Inr S'" using c False by (simp add: watchForKey_def S'_def cl_def Let_def)
  moreover have "same_data S S'" by (simp add: same_data_def S'_def)
  ultimately show ?thesis by (auto simp: h)
qed

lemma watch_keys_ok:
  assumes "watch_inv S" and "client_heap S i = Some c"
  shows "ends (\<lambda>S'. watch_inv S' \<and> same_data S S' \<and>
    (\<exists>w. client_heap S' = (client_heap S)(i \<mapsto> c\<lparr>watched_keys := w\<rparr>) \<and> set w = Pair (mc_db c) ` set keys \<union> set (watched_keys c))) (watch_keys i keys S)"
  using assms
proof (induction keys arbitrary: S c)
  case Nil
  then show ?case by (auto simp: same_data_def fun_upd_idem intro!: exI [of _ "watched_keys c"])
next
  case (Cons k keys)
  show ?case unfolding watch_keys.simps
  proof (rule ends_cbind [OF watchForKey_ok [OF Cons.prems]])
    fix S1 assume "watch_inv S1 \<and> same_data S S1 \<and>
      (\<exists>w. client_heap S1 = (client_heap S)(i \<mapsto> c\<lparr>watched_keys := w\<rparr>) \<and> set w = insert (mc_db c, k) (set (watched_keys c)))"
    then obtain w where 1: "watch_inv S1" "same_data S S1" "client_heap S1 = (client_heap S)(i \<mapsto> c\<lparr>watched_keys := w\<rparr>)" "set w = insert (mc_db c, k) (set (watched_keys c))"
      by blast
    have c1: "client_heap S1 i = Some (c\<lparr>watched_keys := w\<rparr>)" using 1(3) by simp
    show "ends (\<lambda>S'. watch_inv S' \<and> same_data S S' \<and>
      (\<exists>w. client_heap S' = (client_heap S)(i \<mapsto> c\<lparr>watched_keys := w\<rparr>) \<and> set w = Pair (mc_db c) ` set (k # keys) \<union> set (watched_keys c))) (watch_keys i keys S1)"
    proof (rule ends_mono [OF Cons.IH [OF 1(1) c1]], elim conjE exE)
      fix S2 w2 assume 2: "watch_inv S2" "same_data S1 S2" "client_heap S2 = (client_heap S1)(i \<mapsto> c\<lparr>watched_keys := w\<rparr>\<lparr>watched_keys := w2\<rparr>)"
        "set w2 = Pair (mc_db (c\<lparr>watched_keys := w\<rparr>)) ` set keys \<union> set (watched_keys (c\<lparr>watched_keys := w\<rparr>))"
      have "client_heap S2 = (client_heap S)(i \<mapsto> c\<lparr>watched_keys := w2\<rparr>)" using 2(3) 1(3) by (simp add: fun_eq_iff)
      moreover have "set w2 = Pair (mc_db c) ` set (k # keys) \<union> set (watched_keys c)" using 2(4) 1(4) by auto
      moreover have "same_data S S2" using 1(2) 2(2) by (simp add: same_data_def)
      ultimately show "watch_inv S2 \<and> same_data S S2 \<and>
        (\<exists>w. client_heap S2 = (client_heap S)(i \<mapsto> c\<lparr>watched_keys := w\<rparr>) \<and> set w = Pair (mc_db c) ` set (k # keys) \<union> set (watched_keys c))" using 2(1) by blast
    qed
  qed
qed

end
