(* ===== verification/MultiSafe.thy ===== *)
theory MultiSafe
  imports MultiUse
begin

text \<open>
  The steps of the server as a whole: what every event keeps of the invariants and of what a watching client relies on.
\<close>

section \<open>What a watching client relies on\<close>

text \<open>The client still watches the key, and unless it is marked the key is as it was.\<close>

definition holds :: "nat \<Rightarrow> nat \<Rightarrow> mkey \<Rightarrow> 'v option \<times> int option \<Rightarrow> 'v mserver \<Rightarrow> bool" where
  "holds i db k e S \<longleftrightarrow> watches S i db k \<and> (is_dirty S i \<or> quiet (clock S) e (entry S db k))"

definition kept :: "nat \<Rightarrow> 'v mserver \<Rightarrow> 'v mserver \<Rightarrow> bool" where
  "kept i S S' \<longleftrightarrow> (\<forall>db k e. holds i db k e S \<longrightarrow> holds i db k e S')"

lemma kept_refl [simp]: "kept i S S"
  by (simp add: kept_def)

lemma kept_trans: "kept i S S' \<Longrightarrow> kept i S' S'' \<Longrightarrow> kept i S S''"
  by (simp add: kept_def)

lemma kept_tracks:
  assumes t: "tracks {} S S'"
  shows "kept i S S'"
  unfolding kept_def holds_def
proof (intro allI impI)
  fix db k e assume a: "watches S i db k \<and> (is_dirty S i \<or> quiet (clock S) e (entry S db k))"
  note s = tracksD(3) [OF t]
  have w: "watches S' i db k" using a same_ctl_watches [OF s] by blast
  have c: "clock S' = clock S" "is_dirty S i \<Longrightarrow> is_dirty S' i" using s by (simp_all add: same_ctl_def)
  have "quiet (clock S') (entry S db k) (entry S' db k) \<or> is_dirty S' i" using tracksD(4) [OF t, of db k] w by (auto simp: all_dirty_def)
  then show "watches S' i db k \<and> (is_dirty S' i \<or> quiet (clock S') e (entry S' db k))"
    using a w c quiet_trans [of "clock S" e "entry S db k" "clock S'" "entry S' db k"] by (cases "is_dirty S i") (simp_all, blast)
qed

lemma kept_other:
  assumes d: "\<And>db. db_dict (dbs S' db) = db_dict (dbs S db) \<and> db_expires (dbs S' db) = db_expires (dbs S db)" and c: "clock S \<le> clock S'"
    and h: "\<And>x. client_heap S i = Some x \<Longrightarrow> \<exists>x'. client_heap S' i = Some x' \<and> set (watched_keys x) \<subseteq> set (watched_keys x') \<and> CLIENT_DIRTY_CAS x' = CLIENT_DIRTY_CAS x"
  shows "kept i S S'"
  unfolding kept_def holds_def
proof (intro allI impI)
  fix db k e assume a: "watches S i db k \<and> (is_dirty S i \<or> quiet (clock S) e (entry S db k))"
  then obtain x where x: "client_heap S i = Some x" "(db, k) \<in> set (watched_keys x)" by (auto simp: watches_def)
  obtain x' where x': "client_heap S' i = Some x'" "set (watched_keys x) \<subseteq> set (watched_keys x')" "CLIENT_DIRTY_CAS x' = CLIENT_DIRTY_CAS x" using h [OF x(1)] by blast
  have "quiet (clock S) e (entry S db k) \<Longrightarrow> quiet (clock S') e (entry S' db k)" using quiet_trans [OF _ c, of e "entry S db k" "entry S db k"] d by simp
  then show "watches S' i db k \<and> (is_dirty S' i \<or> quiet (clock S') e (entry S' db k))" using a x x' by (auto simp: watches_def is_dirty_def)
qed

section \<open>Transactions and events\<close>

text \<open>After a transaction, however it ended, the client is as if it had never begun one.\<close>

definition reset :: "nat \<Rightarrow> 'v mserver \<Rightarrow> bool" where
  "reset j S \<longleftrightarrow> (\<exists>c. client_heap S j = Some c \<and> commands c = [] \<and> watched_keys c = [] \<and> \<not> CLIENT_MULTI c \<and> \<not> CLIENT_DIRTY_CAS c \<and> \<not> CLIENT_DIRTY_EXEC c)"

text \<open>When a transaction is refused, and with which reply.\<close>

fun refusal :: "'v mcfg \<Rightarrow> 'v mclient \<Rightarrow> 'v mreply option" where
  "refusal cfg c =
     (if CLIENT_DIRTY_EXEC c then Some RpExecAbort
      else if CLIENT_DIRTY_CAS c then Some RpNullMultiBulk
      else if \<not> srv_loading cfg \<and> srv_masterhost cfg \<and> repl_slave_ro cfg \<and> \<not> CLIENT_MASTER c \<and> cmd_flags_write c then Some (RpError ''read-only slave'')
      else None)"

text \<open>The clients and the time that a sequence of events starts with, and what each event asks of them.\<close>

fun event_ok :: "('v tcmd \<Rightarrow> bool) \<Rightarrow> nat list \<Rightarrow> int \<Rightarrow> 'v mop \<Rightarrow> bool" where
  "event_ok P cl now (OpWatch i _) = (i \<in> set cl)"
| "event_ok P cl now (OpMulti i) = (i \<in> set cl)"
| "event_ok P cl now (OpExec i) = (i \<in> set cl)"
| "event_ok P cl now (OpDiscard i) = (i \<in> set cl)"
| "event_ok P cl now (OpCmd i cmd) = (i \<in> set cl \<and> P cmd)"
| "event_ok P cl now (OpFlag i) = (i \<in> set cl)"
| "event_ok P cl now (OpConnect i _) = (i \<notin> set cl)"
| "event_ok P cl now (OpClose i) = (i \<in> set cl)"
| "event_ok P cl now (OpExpire db k) = True"
| "event_ok P cl now (OpTime t) = (now \<le> t \<and> t \<le> 2 ^ 61)"

fun next_clients :: "'v mop \<Rightarrow> nat list \<Rightarrow> nat list" where
  "next_clients (OpConnect i _) cl = cl @ [i]"
| "next_clients (OpClose i) cl = remove1 i cl"
| "next_clients _ cl = cl"

fun next_time :: "'v mop \<Rightarrow> int \<Rightarrow> int" where
  "next_time (OpTime t) now = t"
| "next_time _ now = now"

fun legal :: "('v tcmd \<Rightarrow> bool) \<Rightarrow> nat list \<Rightarrow> int \<Rightarrow> 'v mop list \<Rightarrow> bool" where
  "legal P cl now [] = True"
| "legal P cl now (x # xs) = (event_ok P cl now x \<and> legal P (next_clients x cl) (next_time x now) xs)"

text \<open>Events after which a client still watches what it watched.\<close>

fun keeps_watch :: "nat \<Rightarrow> 'v mop \<Rightarrow> bool" where
  "keeps_watch i (OpExec j) = (i \<noteq> j)"
| "keeps_watch i (OpDiscard j) = (i \<noteq> j)"
| "keeps_watch i (OpCmd j cmd) = (i \<noteq> j \<or> (case cmd of UnwatchCmd \<Rightarrow> False | _ \<Rightarrow> True))"
| "keeps_watch i (OpClose j) = (i \<noteq> j)"
| "keeps_watch i _ = True"

section \<open>Sets of commands\<close>

text \<open>
  The events are looked at for the commands that a predicate admits: those whose times do not overflow, and those that also signal what they change.
\<close>

locale command_set =
  fixes P :: "'v tcmd \<Rightarrow> bool"
  assumes P_small: "P cmd \<Longrightarrow> small_cmd cmd"
begin

definition safe :: "'v mserver \<Rightarrow> bool" where
  "safe S \<longleftrightarrow> watch_inv S \<and> data_inv S \<and> (\<forall>i c. client_heap S i = Some c \<longrightarrow> list_all P (commands c))"

definition signals :: bool where
  "signals \<longleftrightarrow> (\<forall>cmd. P cmd \<longrightarrow> unsignalled cmd = {})"

text \<open>A step: the invariant holds, the clients are the same, and the others are not disturbed, nor those in a set.\<close>

definition step :: "nat set \<Rightarrow> 'v mserver \<Rightarrow> 'v mserver \<Rightarrow> bool" where
  "step K S S' \<longleftrightarrow> safe S' \<and> client_list S' = client_list S \<and> clock S' = clock S \<and> (signals \<longrightarrow> (\<forall>i \<in> K. kept i S S'))"

lemma safeD: "safe S \<Longrightarrow> watch_inv S" "safe S \<Longrightarrow> data_inv S" "safe S \<Longrightarrow> client_heap S i = Some c \<Longrightarrow> list_all P (commands c)"
  by (simp_all add: safe_def)

lemma step_refl: "safe S \<Longrightarrow> step K S S"
  by (simp add: step_def)

lemma step_trans: "step K S S' \<Longrightarrow> step K S' S'' \<Longrightarrow> step K S S''"
  unfolding step_def using kept_trans by metis

lemma step_subset: "step K S S' \<Longrightarrow> K' \<subseteq> K \<Longrightarrow> step K' S S'"
  unfolding step_def by blast

lemma step_safe: "step K S S' \<Longrightarrow> safe S'"
  by (simp add: step_def)

lemma step_client: "step K S S' \<Longrightarrow> safe S \<Longrightarrow> dom (client_heap S') = dom (client_heap S)"
  using watch_invD(2) [OF safeD(1)] by (metis step_def)

text \<open>Steps that change one client and no data.\<close>

lemma step_same_data:
  assumes i: "safe S" and w: "watch_inv S'" and d: "same_data S S'" and h: "client_heap S' = (client_heap S)(j \<mapsto> c')" and q: "list_all P (commands c')"
  shows "step (- {j}) S S'"
proof -
  have "data_inv S'" using safeD(2) [OF i] d by (simp add: data_inv_def same_data_def)
  moreover have "client_heap S' n = Some x \<Longrightarrow> list_all P (commands x)" for n x using safeD(3) [OF i] q by (auto simp: h split: if_splits)
  moreover have "n \<noteq> j \<Longrightarrow> kept n S S'" for n using d by (intro kept_other) (auto simp: h same_data_def)
  ultimately show ?thesis using w d by (auto simp: step_def safe_def same_data_def)
qed

lemma safe_reply: "safe S \<Longrightarrow> safe (addReply i r S)"
  by (simp add: safe_def watch_inv_def data_inv_def watches_def)

lemma step_reply:
  assumes i: "safe S"
  shows "step K S (addReply j r S)"
proof -
  have "kept n S (addReply j r S)" for n by (rule kept_other) auto
  then show ?thesis using safe_reply [OF i] by (simp add: step_def)
qed

lemma step_irrelevant:
  assumes i: "safe S" and e: "dbs S' = dbs S" "client_heap S' = client_heap S" "client_list S' = client_list S" "clock S' = clock S"
  shows "step K S S'"
proof -
  have "safe S'" using i by (simp add: safe_def watch_inv_def data_inv_def watches_def e)
  moreover have "kept n S S'" for n by (rule kept_other) (auto simp: e)
  ultimately show ?thesis using e by (simp add: step_def)
qed

lemma put_keeps:
  assumes i: "safe S" and c: "client_heap S j = Some c" "watched_keys c' = watched_keys c" and q: "list_all P (commands c')"
  shows "step (- {j}) S (put_client j c' S)"
proof (rule step_same_data [OF i _ _ _ q])
  have s: "watches (put_client j c' S) n db k = watches S n db k" for n db k using c by (auto simp: watches_def)
  have "dom (client_heap (put_client j c' S)) = dom (client_heap S)" using c(1) by auto
  moreover have "client_heap (put_client j c' S) n = Some x \<Longrightarrow> distinct (watched_keys x)" for n x using watch_invD(3) [OF safeD(1) [OF i]] c by (auto split: if_splits)
  ultimately show "watch_inv (put_client j c' S)" using safeD(1) [OF i] unfolding watch_inv_def s by (simp del: fun_upd_apply)
qed (simp_all add: same_data_def)

section \<open>Calls\<close>

lemma unwatch_cmd_step:
  assumes i: "safe S" and c: "client_heap S j = Some c"
  shows "ends (step (- {j}) S) (unwatchCommand j S)"
  unfolding unwatchCommand_def
proof (rule ends_cbind [OF unwatchAllKeys_ok [OF safeD(1) [OF i] c]], elim conjE)
  fix S1 assume 1: "watch_inv S1" "same_data S S1" "client_heap S1 = (client_heap S)(j \<mapsto> c\<lparr>watched_keys := []\<rparr>)"
  have s1: "step (- {j}) S S1" using safeD(3) [OF i c] by (intro step_same_data [OF i 1]) simp
  let ?S = "put_client j (c\<lparr>watched_keys := [], CLIENT_DIRTY_CAS := False\<rparr>) S1"
  have "step (- {j}) S1 ?S" using safeD(3) [OF i c] by (intro put_keeps [OF step_safe [OF s1], where c = "c\<lparr>watched_keys := []\<rparr>"]) (simp_all add: 1(3))
  then have "step (- {j}) S (addReply j RpOk ?S)" using step_trans [OF s1] step_trans step_reply step_safe by metis
  then show "ends (step (- {j}) S) (cbind (get_client S1 j) (\<lambda>c. Inr (addReply j RpOk (put_client j (c\<lparr>CLIENT_DIRTY_CAS := False\<rparr>) S1))))"
    by (simp add: get_client_def 1(3))
qed

lemma tracks_step:
  assumes i: "safe S" and t: "tracks (unsignalled cmd) S S'" and p: "P cmd"
  shows "step K S S'"
proof -
  have "client_heap S' n = Some x \<Longrightarrow> list_all P (commands x)" for n x
    using same_ctl_back [OF tracksD(3) [OF t]] core_eqD safeD(3) [OF i] by metis
  moreover have "signals \<Longrightarrow> tracks {} S S'" using t p by (simp add: signals_def)
  moreover have "client_list S' = client_list S" "clock S' = clock S" using tracksD(3) [OF t] by (simp_all add: same_ctl_def)
  ultimately show ?thesis using tracksD(1,2) [OF t] kept_tracks by (auto simp: step_def safe_def)
qed

lemma call_step:
  assumes i: "safe S" and c: "client_heap S j = Some c" and p: "P cmd" and K: "cmd = UnwatchCmd \<Longrightarrow> j \<notin> K"
  shows "ends (step K S) (call_tcmd cfg j cmd S)"
proof -
  let ?S = "updateCachedTime S"
  have t: "step K S ?S" by (rule step_irrelevant [OF i]) (simp_all add: updateCachedTime_def)
  note i1 = step_safe [OF t]
  have c1: "client_heap ?S j = Some c" "server_mstime ?S = clock ?S" using c by (simp_all add: updateCachedTime_def)
  have "ends (step K ?S) (run_tcmd cfg j (mc_db c) cmd ?S)"
  proof (cases "cmd = UnwatchCmd")
    case True
    then show ?thesis using ends_mono [OF unwatch_cmd_step [OF i1 c1(1)] step_subset] K by (auto simp: run_tcmd_def)
  next
    case False
    show ?thesis
      by (rule ends_mono [OF run_tcmd_ok [OF safeD(1,2) [OF i1] c1(2) _ P_small [OF p] False]]) (use c1(1) tracks_step [OF i1 _ p] in auto)
  qed
  then show ?thesis using c by (simp add: call_tcmd_def) (erule ends_mono, erule step_trans [OF t])
qed

lemma exec_loop_step:
  assumes "safe S" and "j \<in> dom (client_heap S)" and "list_all P cmds"
  shows "ends (\<lambda>(b, S'). step (- {j}) S S') (exec_loop cfg j cmds mp S)"
  using assms
proof (induction cmds arbitrary: mp S)
  case (Cons cmd cmds)
  obtain c where c: "client_heap S j = Some c" using Cons.prems(2) by blast
  let ?first = "\<not> mp \<and> \<not> cmd_readonly cmd"
  let ?S = "if ?first then execCommandPropagateMulti (mc_db c) S else S"
  have t: "step (- {j}) S ?S" by (rule step_irrelevant [OF Cons.prems(1)]) (simp_all add: execCommandPropagateMulti_def)
  have c1: "client_heap ?S j = Some c" using c by (simp add: execCommandPropagateMulti_def)
  have p: "P cmd" "list_all P cmds" using Cons.prems(3) by simp_all
  have "ends (\<lambda>(b, S'). step (- {j}) S S') (cbind (call_tcmd cfg j cmd ?S) (\<lambda>S. exec_loop cfg j cmds (mp \<or> ?first) S))"
  proof (rule ends_cbind [OF call_step [OF step_safe [OF t] c1 p(1), of "- {j}"]])
    fix S1 assume 1: "step (- {j}) ?S S1"
    have "j \<in> dom (client_heap S1)" using step_client [OF 1 step_safe [OF t]] c1 by blast
    from ends_mono [OF Cons.IH [OF step_safe [OF 1] this p(2)]] show "ends (\<lambda>(b, S'). step (- {j}) S S') (exec_loop cfg j cmds (mp \<or> ?first) S1)"
      using step_trans [OF step_trans [OF t 1]] by auto
  qed simp
  then show ?case using c by (simp add: Let_def)
qed (simp add: step_refl)

lemma discard_step:
  assumes i: "safe S" and j: "j \<in> dom (client_heap S)"
  shows "ends (\<lambda>S'. step (- {j}) S S' \<and> same_data S S' \<and> reset j S') (discardTransaction j S)"
proof -
  obtain c where c: "client_heap S j = Some c" using j by blast
  let ?c = "(initClientMultiState c)\<lparr>CLIENT_MULTI := False, CLIENT_DIRTY_CAS := False, CLIENT_DIRTY_EXEC := False\<rparr>"
  let ?S = "put_client j ?c S"
  have s: "step (- {j}) S ?S" by (rule put_keeps [OF i c]) (simp_all add: initClientMultiState_def)
  have c1: "client_heap ?S j = Some ?c" by simp
  have "ends (\<lambda>S'. step (- {j}) S S' \<and> same_data S S' \<and> reset j S') (unwatchAllKeys j ?S)"
  proof (rule ends_mono [OF unwatchAllKeys_ok [OF safeD(1) [OF step_safe [OF s]] c1]], elim conjE)
    fix S1 assume 1: "watch_inv S1" "same_data ?S S1" "client_heap S1 = (client_heap ?S)(j \<mapsto> ?c\<lparr>watched_keys := []\<rparr>)"
    have "step (- {j}) ?S S1" by (rule step_same_data [OF step_safe [OF s] 1]) (simp add: initClientMultiState_def)
    moreover have "reset j S1" by (simp add: reset_def 1(3) initClientMultiState_def)
    moreover have "same_data S S1" using 1(2) by (simp add: same_data_def)
    ultimately show "step (- {j}) S S1 \<and> same_data S S1 \<and> reset j S1" using step_trans [OF s] by blast
  qed
  then show ?thesis using c by (simp add: discardTransaction_def)
qed

section \<open>EXEC\<close>

lemma monitor_step:
  assumes i: "safe S" and c: "reset j S"
  shows "ends (\<lambda>S'. step K S S' \<and> same_data S S' \<and> reset j S') (handle_monitor cfg j S)"
proof -
  have "step K S (if b then S\<lparr>monitor_feed := m\<rparr> else S)" for b m by (rule step_irrelevant [OF i]) simp_all
  then show ?thesis using c by (auto simp: handle_monitor_def reset_def same_data_def)
qed

lemma refused_step:
  assumes i: "safe S" and c: "client_heap S j = Some c"
  shows "ends (\<lambda>S'. step (- {j}) S S' \<and> same_data (addReply j r S) S' \<and> reset j S') (cbind (discardTransaction j (addReply j r S)) (handle_monitor cfg j))"
proof -
  have j: "j \<in> dom (client_heap (addReply j r S))" using c by auto
  show ?thesis
  proof (rule ends_cbind [OF discard_step [OF safe_reply [OF i] j]], elim conjE)
    fix S1 assume 1: "step (- {j}) (addReply j r S) S1" "same_data (addReply j r S) S1" "reset j S1"
    show "ends (\<lambda>S'. step (- {j}) S S' \<and> same_data (addReply j r S) S' \<and> reset j S') (handle_monitor cfg j S1)"
      by (rule ends_mono [OF monitor_step [OF step_safe [OF 1(1)] 1(3)]]) (use step_trans [OF step_trans [OF step_reply [OF i] 1(1)]] 1(2) in \<open>auto simp: same_data_def\<close>)
  qed
qed

lemma accepted_step:
  assumes i: "safe S" and c: "client_heap S j = Some c"
  shows "ends (\<lambda>S'. step (- {j}) S S' \<and> reset j S') (cbind (unwatchAllKeys j S) (\<lambda>S.
       cbind (exec_loop cfg j (commands c) False (addReply j (RpMultiBulkLen (length (commands c))) S)) (\<lambda>(mp, S).
       cbind (discardTransaction j S) (\<lambda>S. handle_monitor cfg j (if mp then add_dirty 1 S else S)))))"
proof (rule ends_cbind [OF unwatchAllKeys_ok [OF safeD(1) [OF i] c]], elim conjE)
  fix S1 assume 1: "watch_inv S1" "same_data S S1" "client_heap S1 = (client_heap S)(j \<mapsto> c\<lparr>watched_keys := []\<rparr>)"
  have s1: "step (- {j}) S S1" using safeD(3) [OF i c] by (intro step_same_data [OF i 1]) simp
  let ?S = "addReply j (RpMultiBulkLen (length (commands c))) S1"
  have j: "j \<in> dom (client_heap ?S)" by (simp add: 1(3))
  show "ends (\<lambda>S'. step (- {j}) S S' \<and> reset j S') (cbind (exec_loop cfg j (commands c) False ?S) (\<lambda>(mp, S).
       cbind (discardTransaction j S) (\<lambda>S. handle_monitor cfg j (if mp then add_dirty 1 S else S))))"
  proof (rule ends_bind2 [OF exec_loop_step [OF safe_reply [OF step_safe [OF s1]] j safeD(3) [OF i c]]], unfold prod.case)
    fix mp S2 assume "step (- {j}) ?S S2"
    then have 2: "step (- {j}) S S2" using step_trans [OF step_trans [OF s1 step_reply [OF step_safe [OF s1]]]] by blast
    have j2: "j \<in> dom (client_heap S2)" using step_client [OF 2 i] c by blast
    show "ends (\<lambda>S'. step (- {j}) S S' \<and> reset j S') (cbind (discardTransaction j S2) (\<lambda>S. handle_monitor cfg j (if mp then add_dirty 1 S else S)))"
    proof (rule ends_cbind [OF discard_step [OF step_safe [OF 2] j2]], elim conjE)
      fix S3 assume 3: "step (- {j}) S2 S3" "same_data S2 S3" "reset j S3"
      let ?S3 = "if mp then add_dirty 1 S3 else S3"
      have s3: "step (- {j}) S ?S3" "reset j ?S3" using 3(3) step_trans [OF step_trans [OF 2 3(1)] step_irrelevant [OF step_safe [OF 3(1)], of ?S3]] by (simp_all add: reset_def)
      show "ends (\<lambda>S'. step (- {j}) S S' \<and> reset j S') (handle_monitor cfg j ?S3)"
        by (rule ends_mono [OF monitor_step [OF step_safe [OF s3(1)] s3(2)]]) (use step_trans [OF s3(1)] in blast)
    qed
  qed
qed

lemma exec_step:
  assumes i: "safe S" and c: "client_heap S j = Some c"
  shows "ends (\<lambda>S'. step (- {j}) S S' \<and> (CLIENT_MULTI c \<longrightarrow> reset j S') \<and>
      (CLIENT_MULTI c \<longrightarrow> (\<forall>r. refusal cfg c = Some r \<longrightarrow> same_data (addReply j r S) S')) \<and>
      (\<not> CLIENT_MULTI c \<longrightarrow> S' = addReply j (RpError ''EXEC without MULTI'') S)) (execCommand cfg j S)"
proof (cases "CLIENT_MULTI c")
  case False
  then show ?thesis using c step_reply [OF i] by (simp add: execCommand_def)
next
  case True
  show ?thesis
  proof (cases "refusal cfg c")
    case None
    then show ?thesis using accepted_step [OF i c, of cfg] True c by (auto simp: execCommand_def split: if_splits elim!: ends_mono)
  next
    case (Some r)
    have "execCommand cfg j S = cbind (discardTransaction j (addReply j r S)) (handle_monitor cfg j)"
      using Some True c by (auto simp: execCommand_def split: if_splits)
    then show ?thesis using refused_step [OF i c, of r cfg] Some True by (auto elim!: ends_mono)
  qed
qed

section \<open>Events\<close>

lemma put_keeps_all:
  assumes i: "safe S" and c: "client_heap S j = Some c" "watched_keys c' = watched_keys c" "CLIENT_DIRTY_CAS c' = CLIENT_DIRTY_CAS c" and q: "list_all P (commands c')"
  shows "step UNIV S (put_client j c' S)"
proof -
  have "kept n S (put_client j c' S)" for n by (rule kept_other) (use c in auto)
  then show ?thesis using put_keeps [OF i c(1,2) q] by (simp add: step_def)
qed

lemma watch_step:
  assumes i: "safe S" and c: "client_heap S j = Some c"
  shows "ends (\<lambda>S'. step UNIV S S' \<and> same_data (addReply j RpOk S) S' \<and> (\<forall>k \<in> set keys. watches S' j (mc_db c) k)) (cbind (watch_keys j keys S) (\<lambda>S. Inr (addReply j RpOk S)))"
proof (rule ends_cbind [OF watch_keys_ok [OF safeD(1) [OF i] c]], elim conjE exE)
  fix S1 w assume 1: "watch_inv S1" "same_data S S1" "client_heap S1 = (client_heap S)(j \<mapsto> c\<lparr>watched_keys := w\<rparr>)" "set w = Pair (mc_db c) ` set keys \<union> set (watched_keys c)"
  have s1: "step (- {j}) S S1" using safeD(3) [OF i c] by (intro step_same_data [OF i 1(1-3)]) simp
  have "kept n S S1" for n by (rule kept_other) (use 1 c in \<open>auto simp: same_data_def split: if_splits\<close>)
  then have "step UNIV S S1" using s1 by (simp add: step_def)
  then have "step UNIV S (addReply j RpOk S1)" using step_trans step_reply step_safe by metis
  then show "ends (\<lambda>S'. step UNIV S S' \<and> same_data (addReply j RpOk S) S' \<and> (\<forall>k \<in> set keys. watches S' j (mc_db c) k)) (Inr (addReply j RpOk S1))"
    using 1 by (auto simp: same_data_def watches_def)
qed

lemma dispatch_step:
  assumes i: "safe S" and c: "client_heap S j = Some c" and p: "P cmd" and K: "cmd = UnwatchCmd \<Longrightarrow> j \<notin> K"
  shows "ends (step K S) (dispatch cfg j cmd S)"
proof (cases "CLIENT_MULTI c")
  case True
  have "step UNIV S (put_client j (queueMultiCommand cmd c) S)"
    by (rule put_keeps_all [OF i c]) (use safeD(3) [OF i c] p in \<open>simp_all add: queueMultiCommand_def\<close>)
  then have "step UNIV S (addReply j RpQueued (put_client j (queueMultiCommand cmd c) S))" using step_trans step_reply step_safe by metis
  then have "step K S (addReply j RpQueued (put_client j (queueMultiCommand cmd c) S))" by (rule step_subset) simp
  then show ?thesis using True c by (simp add: dispatch_def)
next
  case False
  then show ?thesis using call_step [OF i c p K] c by (simp add: dispatch_def)
qed

lemma connect_ok:
  assumes i: "safe S" and j: "j \<notin> set (client_list S)"
  shows "safe (linkClient j m S) \<and> client_list (linkClient j m S) = client_list S @ [j] \<and> clock (linkClient j m S) = clock S \<and> kept n S (linkClient j m S)"
proof -
  note w = watch_invD [OF safeD(1) [OF i]]
  have n: "client_heap S j = None" using j w(2) by auto
  let ?S = "linkClient j m S"
  have h: "client_list ?S = client_list S @ [j]" "dbs ?S = dbs S" "clock ?S = clock S" by (simp_all add: linkClient_def)
  have ws: "watches ?S n db k = watches S n db k" for n db k using n by (auto simp: linkClient_def watches_def)
  have "dom (client_heap ?S) = insert j (dom (client_heap S))" by (auto simp: linkClient_def)
  moreover have "client_heap ?S n = Some x \<Longrightarrow> distinct (watched_keys x) \<and> list_all P (commands x)" for n x
    using w(3) safeD(3) [OF i] by (auto simp: linkClient_def split: if_splits)
  ultimately have "watch_inv ?S" using w(1,2,4) w(5) j unfolding watch_inv_def h ws by auto
  moreover have "data_inv ?S" using safeD(2) [OF i] by (simp add: data_inv_def h)
  moreover have "kept n S ?S" by (rule kept_other) (use n in \<open>auto simp: linkClient_def\<close>)
  ultimately show ?thesis using \<open>\<And>n x. client_heap ?S n = Some x \<Longrightarrow> distinct (watched_keys x) \<and> list_all P (commands x)\<close> by (simp add: safe_def h)
qed

lemma close_ok:
  assumes i: "safe S" and c: "client_heap S j = Some c"
  shows "ends (\<lambda>S'. safe S' \<and> client_list S' = remove1 j (client_list S) \<and> clock S' = clock S \<and> (\<forall>n. n \<noteq> j \<longrightarrow> kept n S S')) (freeClient j S)"
  unfolding freeClient_def
proof (rule ends_cbind [OF unwatchAllKeys_ok [OF safeD(1) [OF i] c]], elim conjE)
  fix S1 assume 1: "watch_inv S1" "same_data S S1" "client_heap S1 = (client_heap S)(j \<mapsto> c\<lparr>watched_keys := []\<rparr>)"
  note w = watch_invD [OF 1(1)]
  define S2 where "S2 = S1\<lparr>client_list := remove1 j (client_list S1), client_heap := (client_heap S1)(j := None)\<rparr>"
  have h: "client_list S2 = remove1 j (client_list S1)" "dbs S2 = dbs S1" "clock S2 = clock S1" "client_heap S2 = (client_heap S1)(j := None)" by (simp_all add: S2_def)
  have ws: "watches S2 n db k = watches S1 n db k" for n db k by (auto simp: watches_def h 1(3))
  have "dom (client_heap S2) = dom (client_heap S1) - {j}" by (auto simp: h)
  then have "watch_inv S2" using w(1-4) w(5) unfolding watch_inv_def h(1,2) ws by (auto simp: h(4) set_remove1_eq split: if_splits)
  moreover have "data_inv S2" using safeD(2) [OF i] 1(2) by (simp add: data_inv_def h same_data_def)
  moreover have "client_heap S2 n = Some x \<Longrightarrow> list_all P (commands x)" for n x using safeD(3) [OF i] by (auto simp: h 1(3) split: if_splits)
  moreover have "n \<noteq> j \<Longrightarrow> kept n S S2" for n by (rule kept_other) (use 1 in \<open>auto simp: h same_data_def\<close>)
  ultimately show "ends (\<lambda>S'. safe S' \<and> client_list S' = remove1 j (client_list S) \<and> clock S' = clock S \<and> (\<forall>n. n \<noteq> j \<longrightarrow> kept n S S'))
      (Inr (S1\<lparr>client_list := remove1 j (client_list S1), client_heap := (client_heap S1)(j := None)\<rparr>))"
    using 1(2) unfolding S2_def [symmetric] by (simp add: safe_def h same_data_def)
qed

lemma time_ok: "safe S \<Longrightarrow> clock S \<le> t \<Longrightarrow> t \<le> 2 ^ 61 \<Longrightarrow> safe (S\<lparr>clock := t\<rparr>) \<and> kept n S (S\<lparr>clock := t\<rparr>)"
  by (intro conjI kept_other) (auto simp: safe_def watch_inv_def data_inv_def watches_def)

lemma expire_event_ok:
  assumes i: "safe S"
  shows "step UNIV S (expire_event cfg db k S)"
proof -
  have t: "tracks {} S S" using tracks_refl [OF safeD(1) [OF i] safeD(2) [OF i]] .
  have h: "client_heap (expire_event cfg db k S) = client_heap S"
    by (simp add: expire_event_def activeExpireCycleTryExpire_def dbSyncDelete_def propagateExpire_def upd_db_def Let_def split: option.split)
  have u: "tracks {} S (expire_event cfg db k S)"
  proof (cases "\<exists>w. exp_at S db k = Some w \<and> w < clock S \<and> \<not> srv_masterhost cfg")
    case True
    then show ?thesis
      by (auto simp: expire_event_def activeExpireCycleTryExpire_def dbSyncDelete_def propagateExpire_def Let_def)
        (rule tracks_data [OF t]; auto dest: data_invD(1,2) [OF safeD(2) [OF i]] split: if_splits)
  next
    case False
    then have "expire_event cfg db k S = S" by (auto simp: expire_event_def activeExpireCycleTryExpire_def split: option.split)
    then show ?thesis using t by simp
  qed
  then show ?thesis using kept_tracks [OF u] tracksD(1-3) [OF u] safeD(3) [OF i] unfolding step_def safe_def h same_ctl_def by blast
qed

definition event :: "'v mop \<Rightarrow> 'v mserver \<Rightarrow> 'v mserver \<Rightarrow> bool" where
  "event x S S' \<longleftrightarrow> safe S' \<and> client_list S' = next_clients x (client_list S) \<and> clock S' = next_time x (clock S) \<and>
     (signals \<longrightarrow> (\<forall>n. keeps_watch n x \<longrightarrow> kept n S S'))"

lemma event_step: "step K S S' \<Longrightarrow> (\<And>cl. next_clients x cl = cl) \<Longrightarrow> (\<And>t. next_time x t = t) \<Longrightarrow> (\<And>n. keeps_watch n x \<Longrightarrow> n \<in> K) \<Longrightarrow> event x S S'"
  by (simp add: event_def step_def)

lemma do_op_event:
  assumes i: "safe S" and x: "event_ok P (client_list S) (clock S) x"
  shows "ends (event x S) (do_op cfg x S)"
proof -
  have cl: "\<exists>c. client_heap S j = Some c" if "j \<in> set (client_list S)" for j using that watch_invD(2) [OF safeD(1) [OF i]] by auto
  have r: "step UNIV S (addReply j r S)" for j r by (rule step_reply [OF i])
  have r2: "step UNIV S (addReply j r S')" if "step UNIV S S'" for j r S' using that step_trans step_reply step_safe by metis
  show ?thesis
  proof (cases x)
    case (OpWatch j keys)
    then obtain c where c: "client_heap S j = Some c" using x cl by auto
    then show ?thesis using watch_step [OF i c, of keys] r OpWatch by (auto simp: watchCommand_def elim!: ends_mono intro!: event_step [where K = UNIV])
  next
    case (OpMulti j)
    then obtain c where c: "client_heap S j = Some c" using x cl by auto
    have "step UNIV S (put_client j (c\<lparr>CLIENT_MULTI := True\<rparr>) S)" using safeD(3) [OF i c] by (intro put_keeps_all [OF i c]) simp_all
    then show ?thesis using c r r2 OpMulti by (auto simp: multiCommand_def intro!: event_step [where K = UNIV])
  next
    case (OpExec j)
    then obtain c where c: "client_heap S j = Some c" using x cl by auto
    show ?thesis unfolding OpExec do_op.simps by (rule ends_mono [OF exec_step [OF i c]]) (auto intro!: event_step [where K = "- {j}"])
  next
    case (OpDiscard j)
    then obtain c where c: "client_heap S j = Some c" using x cl by auto
    have j: "j \<in> dom (client_heap S)" using c by blast
    have "ends (event x S) (cbind (discardTransaction j S) (\<lambda>S. Inr (addReply j RpOk S)))"
    proof (rule ends_cbind [OF discard_step [OF i j]], elim conjE)
      fix S1 assume "step (- {j}) S S1"
      then have "step (- {j}) S (addReply j RpOk S1)" using step_trans step_reply step_safe by metis
      then show "ends (event x S) (Inr (addReply j RpOk S1))" using OpDiscard by (auto intro!: event_step [where K = "- {j}"])
    qed
    then show ?thesis using c r OpDiscard by (auto simp: discardCommand_def intro!: event_step [where K = UNIV])
  next
    case (OpCmd j cmd)
    then obtain c where c: "client_heap S j = Some c" using x cl by auto
    have p: "P cmd" using x OpCmd by simp
    show ?thesis unfolding OpCmd do_op.simps
      by (rule ends_mono [OF dispatch_step [OF i c p, where K = "if cmd = UnwatchCmd then - {j} else UNIV"]]) (auto intro!: event_step split: if_splits)
  next
    case (OpFlag j)
    then obtain c where c: "client_heap S j = Some c" using x cl by auto
    have "step UNIV S (put_client j (c\<lparr>CLIENT_DIRTY_EXEC := True\<rparr>) S)" using safeD(3) [OF i c] by (intro put_keeps_all [OF i c]) simp_all
    then show ?thesis using c step_refl [OF i, of UNIV] OpFlag by (auto simp: flagTransaction_def intro!: event_step [where K = UNIV])
  next
    case (OpConnect j m)
    then show ?thesis using connect_ok [OF i] x by (auto simp: event_def)
  next
    case (OpClose j)
    then obtain c where c: "client_heap S j = Some c" using x cl by auto
    show ?thesis unfolding OpClose do_op.simps by (rule ends_mono [OF close_ok [OF i c]]) (auto simp: event_def)
  next
    case (OpExpire db k)
    then show ?thesis using expire_event_ok [OF i] by (auto intro!: event_step [where K = UNIV])
  next
    case (OpTime t)
    then show ?thesis using time_ok [OF i, of t] x by (auto simp: event_def)
  qed
qed

lemma run_events_ok:
  assumes "safe S" and "legal P (client_list S) (clock S) (xs @ ys)"
  shows "ends (\<lambda>S'. safe S' \<and> legal P (client_list S') (clock S') ys \<and> (signals \<longrightarrow> (\<forall>n. list_all (keeps_watch n) xs \<longrightarrow> kept n S S'))) (run_events cfg xs S)"
  using assms
proof (induction xs arbitrary: S)
  case (Cons x xs)
  show ?case unfolding run_events.simps
  proof (rule ends_cbind [OF do_op_event [OF Cons.prems(1)]])
    show "event_ok P (client_list S) (clock S) x" using Cons.prems(2) by simp
    fix S1 assume 1: "event x S S1"
    then have "safe S1" "legal P (client_list S1) (clock S1) (xs @ ys)" using Cons.prems(2) by (simp_all add: event_def)
    then show "ends (\<lambda>S'. safe S' \<and> legal P (client_list S') (clock S') ys \<and> (signals \<longrightarrow> (\<forall>n. list_all (keeps_watch n) (x # xs) \<longrightarrow> kept n S S'))) (run_events cfg xs S1)"
      by (rule ends_mono [OF Cons.IH]) (use 1 in \<open>auto simp: event_def intro: kept_trans\<close>)
  qed
qed simp

text \<open>
  From the watching of keys to the execution of the transaction. The events in between may come from all clients, as long as the watching client does not give up its keys.
\<close>

lemma watched_until:
  assumes i: "safe S0" and c: "client_heap S0 i = Some c" "\<not> CLIENT_MULTI c" and l: "legal P (client_list S0) (clock S0) (OpWatch i keys # ops)"
    and sg: signals and k: "list_all (keeps_watch i) ops" and r: "run_events cfg (OpWatch i keys # ops) S0 = Inr S1" and key: "key \<in> set keys"
  shows "safe S1 \<and> holds i (mc_db c) key (entry S0 (mc_db c) key) S1"
proof -
  have "ends (\<lambda>S'. step UNIV S0 S' \<and> same_data (addReply i RpOk S0) S' \<and> (\<forall>k \<in> set keys. watches S' i (mc_db c) k)) (do_op cfg (OpWatch i keys) S0)"
    using watch_step [OF i c(1), of keys] c by (simp add: watchCommand_def)
  then obtain S' where S': "do_op cfg (OpWatch i keys) S0 = Inr S'" "step UNIV S0 S'" "same_data (addReply i RpOk S0) S'" "watches S' i (mc_db c) key"
    using key by (auto simp: ends_def)
  have e: "entry S' (mc_db c) key = entry S0 (mc_db c) key" using S'(3) by (simp add: same_data_def)
  then have h: "holds i (mc_db c) key (entry S0 (mc_db c) key) S'" using S'(4) unfolding holds_def e by simp
  have "legal P (client_list S') (clock S') (ops @ [])" using l S'(2) by (simp add: step_def)
  from run_events_ok [OF step_safe [OF S'(2)] this, of cfg] have "safe S1" "kept i S' S1" using r S'(1) sg k by (auto simp: ends_def)
  then show ?thesis using h by (simp add: kept_def)
qed

end

section \<open>The commands admitted\<close>

definition signalling_cmd :: "'v tcmd \<Rightarrow> bool" where
  "signalling_cmd cmd \<longleftrightarrow> small_cmd cmd \<and> (case cmd of MoveCmd _ _ \<Rightarrow> False | SwapdbCmd _ _ \<Rightarrow> False | _ \<Rightarrow> True)"

interpretation all_cmds: command_set small_cmd
  by unfold_locales

interpretation sig_cmds: command_set signalling_cmd
  by unfold_locales (simp add: signalling_cmd_def)

lemma sig_signals: "sig_cmds.signals TYPE('v)"
  unfolding sig_cmds.signals_def
proof (intro allI impI)
  fix cmd :: "'v tcmd" assume "signalling_cmd cmd"
  then show "unsignalled cmd = {}" by (cases cmd) (simp_all add: signalling_cmd_def)
qed

text \<open>The server when it starts, with no client and no data.\<close>

definition initServer :: "int \<Rightarrow> 'v mserver" where
  "initServer t = \<lparr> dbs = (\<lambda>_. \<lparr> db_dict = Mapping.empty, db_expires = Mapping.empty, db_watched_keys = Mapping.empty, db_blocking_keys = [], db_ready_keys = {} \<rparr>),
     client_list = [], client_heap = Map.empty, replies = [], srv_ready_keys = [], slaveKeysWithExpire = {}, prop_log = [], monitor_feed = [], server_dirty = 0,
     clock = t, server_mstime = t, stat_expiredkeys = 0, stat_keyspace_hits = 0, stat_keyspace_misses = 0 \<rparr>"

lemma init_simps [simp]: "client_list (initServer t) = []" "client_heap (initServer t) = Map.empty" "clock (initServer t) = t"
  by (simp_all add: initServer_def)

lemma init_inv: "0 \<le> t \<Longrightarrow> t \<le> 2 ^ 61 \<Longrightarrow> watch_inv (initServer t) \<and> data_inv (initServer t)"
  by (simp add: watch_inv_def data_inv_def watches_def initServer_def)

end
