(* ===== verification/MultiProps.thy ===== *)
theory MultiProps
  imports MultiSafe
begin

text \<open>The properties of the key space and of transactions, for all sequences of events from the start of the server.\<close>

section \<open>Runs from the start\<close>

lemma all_start: "0 \<le> t \<Longrightarrow> t \<le> 2 ^ 61 \<Longrightarrow> all_cmds.safe (initServer t)"
  using init_inv [of t] by (simp add: all_cmds.safe_def)



lemma all_reached:
  assumes "0 \<le> t" "t \<le> 2 ^ 61" and "legal small_cmd [] t xs"
  shows "\<exists>S. run_events cfg xs (initServer t) = Inr S \<and> all_cmds.safe S"
  using all_cmds.run_events_ok [OF all_start [OF assms(1,2)], of xs "[]" cfg] assms(3) by (auto simp: ends_def)

section \<open>Values for the examples\<close>

abbreviation (input) example_cfg :: "byte list mcfg" where
  "example_cfg \<equiv> \<lparr> val_otype = (\<lambda>_. OBJ_STRING), dbnum = 16, srv_loading = False, srv_masterhost = False, srv_master = None, repl_slave_ro = True,
     lazyfree_lazy_expire = False, srv_monitors = False \<rparr>"

definition example_events :: "byte list mop list" where
  "example_events = [OpConnect 1 False, OpConnect 2 False, OpWatch 1 [[107]], OpCmd 2 (SetCmd OBJ_SET_NX [107] [118] (Some ([49], UNIT_SECONDS))), OpTime 20000,
     OpMulti 1, OpCmd 1 (GetCmd [107]), OpExec 1, OpExpire 0 [107], OpClose 2]"

section \<open>Properties\<close>

text \<open>C14: From the start of the server, whatever sequence of events comes from clients that are connected (commands whose times to live stay in range, queued or not,
  transactions, watches, errors, connections that come and go, choices of the background expiry, and the passing of time), every event is handled without a failed assertion, an overflow or the use
  of a client that is gone. In the state reached the list of clients that watch a key and the lists of keys that the clients watch agree, each key and each client being listed once,
  and every key that has a time to live exists.\<close>

theorem server_events_safe:
  assumes "0 \<le> t" "t \<le> 2 ^ 61" and "legal small_cmd [] t ops"
  shows "\<exists>S. run_events cfg ops (initServer t) = Inr S \<and>
    (\<forall>db k i. (\<exists>l. Mapping.lookup (db_watched_keys (dbs S db)) k = Some l \<and> distinct l \<and> i \<in> set l) \<longleftrightarrow>
              (\<exists>c. client_heap S i = Some c \<and> distinct (watched_keys c) \<and> (db, k) \<in> set (watched_keys c))) \<and>
    (\<forall>db. Mapping.keys (db_expires (dbs S db)) \<subseteq> Mapping.keys (db_dict (dbs S db)))"
proof -
  obtain S where S: "run_events cfg ops (initServer t) = Inr S" "all_cmds.safe S" using all_reached [OF assms] by blast
  note w = watch_invD [OF all_cmds.safeD(1) [OF S(2)]]
  have "(\<exists>l. watchers S db k = Some l \<and> distinct l \<and> i \<in> set l) \<longleftrightarrow> (\<exists>c. client_heap S i = Some c \<and> distinct (watched_keys c) \<and> (db, k) \<in> set (watched_keys c))" for db k i
    using w(5) [of db k i] w(4) [of db k] w(3) [of i] unfolding watches_def by blast
  moreover have "Mapping.keys (db_expires (dbs S db)) \<subseteq> Mapping.keys (db_dict (dbs S db))" for db
    using data_invD(1) [OF all_cmds.safeD(2) [OF S(2)], of db] by (auto simp: keys_dom_lookup dom_def)
  ultimately show ?thesis using S(1) by blast
qed

theorem server_events_safe_witness:
  "\<exists>S. run_events example_cfg example_events (initServer 3) = Inr S \<and> Mapping.keys (db_expires (dbs S 0)) \<subseteq> Mapping.keys (db_dict (dbs S 0))"
proof -
  have "string2ll [49] = Some 1" by (simp add: string2ll_def LLONG_MAX_def to_ll_def)
  then have "small_time [49] UNIT_SECONDS" by (simp add: small_time_def)
  then have l: "legal small_cmd [] 3 example_events" by (simp add: example_events_def)
  have t: "(0 :: int) \<le> 3" "(3 :: int) \<le> 2 ^ 61" by simp_all
  obtain S where S: "run_events example_cfg example_events (initServer 3) = Inr S" "\<forall>db. Mapping.keys (db_expires (dbs S db)) \<subseteq> Mapping.keys (db_dict (dbs S db))"
    by (rule exE [OF server_events_safe [OF t l, of example_cfg]]) (elim conjE, rule that)
  show ?thesis by (intro exI conjI) (rule S(1), rule spec [OF S(2)])
qed







end
