(* ===== verification/Spec2Isabelle.thy ===== *)
theory Spec2Isabelle
  imports Server Endianconv Rand48 Crc64 Numconv Glob Intset DictTypes DictIter SdsArgs Lzf Adlist Sha1 SetAlgebra ZSetUse RdbSafe NetworkingUse MultiProps
begin

text \<open>
  A verification development for the WebServer repository. The repository holds a web server written
  for a course (\<open>src/code/webserver\<close>, C++) and the sources of Redis 5.0.10, which its lesson on
  caching builds (\<open>src/code/lesson1.10/redis-5.0.10/src\<close>, C). The development covers the whole
  logic of the web server and the data structures and algorithms that Redis is built on.

  \<^bold>\<open>Conventions.\<close> C code that can run into undefined behaviour returns a value of type \<open>'a cres\<close>: \<open>Inl\<close> of a
  fault (an access out of bounds, a null or dangling pointer, signed overflow, a failed assertion) or
  \<open>Inr\<close> of the result; a theorem that ends in \<open>Inr\<close> therefore says that nothing undefined happened. Loops that need not end
  are \<open>partial_function (option)\<close>, whose result \<open>None\<close> is divergence; all others have a termination
  proof. A buffer with its length is a list of bytes and a pointer into it a position; where
  aliasing matters (\<open>Adlist\<close>, \<open>SetCommands\<close>, \<open>Zskiplist\<close>) pointers are addresses in an explicit heap. Machine integers are words, or
  numbers with the reduction modulo \<open>2\<^sup>n\<close> written out. What the code takes from its environment is an
  argument of the definitions: the contents of fresh memory (\<open>junk\<close>), of the uninitialised hash table of
  the compressor, the addresses that the allocator returns, random numbers, the clock, the answers of
  \<open>accept\<close> and \<open>recv\<close>, the text that \<open>vsnprintf\<close> produces. An allocation does not fail, since \<open>zmalloc\<close> aborts
  the process when it does.

  \<^bold>\<open>Shared theories.\<close> \<open>Prelude\<close> has the faults, the result type and its laws, checked reads and writes,
  and the lemmas on lists and words that several components use. \<open>CString\<close> models the string
  functions of the C library that the sources call, byte by byte. \<open>Bytes\<close> is about little-endian
  images of numbers. \<open>Set_Interface\<close> and \<open>Map_Interface\<close> state as locales what a client asks of a set
  and of a map, and prove once that any sequence of operations then behaves as on the mathematical object.

  \<^bold>\<open>The web server.\<close> The main thread waits for epoll events, accepts connections, reads their data and hands
  each connection to a pool of threads, which parse the request.
  \<^item> \<open>HttpConn\<close>: the class \<open>http_conn\<close> (\<open>http_conn.h\<close>, \<open>http_conn.cpp\<close>) with its members as a record,
    \<open>init\<close>, \<open>read\<close>, \<open>parse_line\<close>, \<open>parse_request_line\<close>, \<open>parse_headers\<close>, \<open>parse_content\<close>, \<open>process_read\<close>. A socket is
    the sequence of pieces of data that \<open>recv\<close> will return. Shown: \<open>read\<close> stays in the buffer and
    appends exactly what arrived; a request line is cut correctly; header lines are parsed without faults; and, as
    the line scanner stands, no request is ever recognised.
  \<^item> \<open>Locker\<close>: the wrappers of \<open>locker.h\<close>; the contracts of a mutex and of a semaphore are locales,
    interpreted on them.
  \<^item> \<open>Threadpool\<close>: the class \<open>threadpool\<close> (\<open>threadpool.h\<close>). Each statement of \<open>append\<close> and \<open>run\<close> that touches shared state
    is one step of a client or of a worker; a system of any number of threads is an inductive step relation.
    Shown by rule induction over the reachable states: mutual exclusion, first-in first-out delivery, the
    bound on the queue, no deadlock and no lost wake-up.
  \<^item> \<open>Server\<close>: \<open>main.cpp\<close> with \<open>addfd\<close>, \<open>removefd\<close>, \<open>modfd\<close>, \<open>close_conn\<close> and \<open>process\<close>: the epoll set, the table of
    connections, the user count and the pool. Shown for every reachable state: the count is the number of
    registered clients, and a connection in the hands of the pool is disarmed and there once, so that
    no two threads ever touch it. The faults of the dispatch are characterised whatever \<open>accept\<close> returns, and an invariant on the unparsed connections shows
    that no worker ever answers: it waits for more data or, on an empty line, dereferences null.

  \<^bold>\<open>Redis.\<close>
  \<^item> \<open>Sds\<close>, \<open>SdsFmt\<close>, \<open>SdsArgs\<close>: \<open>sds.c\<close> and \<open>sds.h\<close>. A dynamic string is its header, at the width of its
    type, and its buffer. Shown: any sequence of operations refines the same operations on lists of bytes, the
    formatted output is what the format denotes, quoting is inverted by splitting into arguments, joining
    inverts splitting. Strings are below \<open>2\<^sup>6\<^sup>2\<close> bytes, so that the doubling of the capacity does not wrap.
  \<^item> \<open>Dict\<close>, \<open>DictScan\<close>, \<open>DictIter\<close>, \<open>DictTypes\<close>, \<open>Siphash\<close>: \<open>dict.c\<close>, \<open>siphash.c\<close> and the dictionary types of \<open>server.c\<close>. A
    dictionary is the record of its two tables, which are lists of chains. The locale \<open>dict_type\<close> states what the
    hash function and the key comparison must satisfy and extends the contract of a map; it is interpreted on the
    types of the key space, sets, hashes and the command table. Shown: the tables behave as a map during incremental
    rehashing, the stateless scan misses no entry that stays and ends, iterators return
    every entry once, sampling stays in bounds and returns, clearing frees everything once,
    and the hash function is SipHash-1-2, against a reference written with rotations, half rounds and the padded message.
  \<^item> \<open>Intset\<close>: \<open>intset.c\<close>, on the packed block of memory, with the upgrade of the width in place; it
    implements the contract of a set.
  \<^item> \<open>Adlist\<close>: \<open>adlist.c\<close>, doubly linked lists in a heap: every sequence of operations behaves as on the
    sequence of values, follows no invalid pointer, touches no other memory and leaks nothing.
  \<^item> \<open>Lzf\<close>: \<open>lzf_c.c\<close> and \<open>lzf_d.c\<close>. Shown: decompression of arbitrary bytes is safe and computes the meaning of the
    stream; it inverts compression, which succeeds when the buffer has room for the worst case.
  \<^item> \<open>Numconv\<close> and \<open>Glob\<close>: the number conversions and the matcher of \<open>util.c\<close>, equivalent to canonical numerals and to
    a declarative relation of patterns and strings.
  \<^item> \<open>Crc16\<close>, \<open>Crc64\<close>, \<open>Rand48\<close>, \<open>Endianconv\<close>: \<open>crc16.c\<close>, \<open>crc64.c\<close>, \<open>rand.c\<close>, \<open>endianconv.c\<close> and the hash slots of \<open>cluster.c\<close>;
    the table-driven and digit-wise routines compute the bit-serial checksums and the congruential generator.
  \<^item> \<open>Sha1\<close>: \<open>sha1.c\<close> with its users \<open>sha1hex\<close> (\<open>scripting.c\<close>) and the digests of \<open>debug.c\<close>. The buffered, incremental routine with its
    unrolled rounds is equivalent to the padded block function of the standard, however the input is cut.
  \<^item> \<open>TSet\<close>, \<open>SetCommands\<close>, \<open>SetAlgebra\<close>: \<open>t_set.c\<close>. \<open>TSet\<close> composes \<open>Intset\<close>, \<open>Dict\<close> and \<open>Sds\<close> to the set type, with the conversion
    between the encodings, and interprets the contract of a set on it. \<open>SetCommands\<close> has the commands on a key space whose values are objects in a
    heap, so that one object can be named twice; \<open>SetAlgebra\<close> has the commands on several sets and shows that any sequence of commands
    refines the algebra of sets.
  \<^item> \<open>Zskiplist\<close>, \<open>ZskiplistOk\<close>, \<open>ZskiplistOps\<close>, \<open>ZskiplistUse\<close>: the skip lists of \<open>t_zset.c\<close>, as nodes in a heap. The heights of the nodes determine every
    forward pointer and span (\<open>zsl_rep\<close>); each operation keeps them so. Shown: any sequence of updates is the same on a finite set of pairs of score and
    string, for all random levels, and queries by score, string and rank answer from the order of the pairs.
  \<^item> \<open>ZSet\<close>, \<open>ZSetUse\<close>: the sorted sets of \<open>t_zset.c\<close> in the encoding that composes \<open>Dict\<close> and \<open>Zskiplist\<close>: \<open>zsetAdd\<close> with its flags, \<open>zsetDel\<close>, \<open>zsetScore\<close>, \<open>zsetRank\<close> and the
    deletions of ranges. The values of the dictionary point into the nodes of the skip list; the invariant \<open>zset_inv\<close> says that both describe one finite map, and
    every sequence of operations refines that map.
  \<^item> \<open>Rio\<close>, \<open>Rdb\<close>, \<open>RdbUse\<close>, \<open>RdbSafe\<close>: the streams of \<open>rio.h\<close> with chunks and checksums, and the encodings of lengths, integers and strings of \<open>rdb.c\<close> on top of
    \<open>Lzf\<close>, \<open>Numconv\<close>, \<open>Endianconv\<close> and \<open>Crc64\<close>. Shown: what is saved is loaded back from exactly the bytes written, a full device is reported, and what arbitrary bytes can do: the only faults are a compressed length of zero and a length for which the size of the
    allocation wraps.
  \<^item> \<open>Networking\<close>, \<open>NetworkingOk\<close>, \<open>NetworkingSafe\<close>, \<open>NetworkingUse\<close>: the protocol parser of \<open>networking.c\<close>, from the read of a client's socket to the arguments of a command, on top of
    \<open>Sds\<close>, \<open>SdsArgs\<close> and \<open>Numconv\<close>. Running a command is an argument. Shown: no input makes it fault or loop, and it inverts the encoding of requests however the bytes are cut into reads.
  \<^item> \<open>Db\<close>, \<open>Multi\<close>, \<open>DbUse\<close>, \<open>DbCmds\<close>, \<open>MultiUse\<close>, \<open>MultiSafe\<close>, \<open>MultiProps\<close>: the key space with times to live (\<open>db.c\<close>, \<open>expire.c\<close>, \<open>SET\<close> and \<open>GET\<close> of \<open>t_string.c\<close>)
    and transactions (\<open>multi.c\<close> with the end of \<open>processCommand\<close>), over dictionaries and lists taken as mappings and lists, which \<open>Dict\<close> and \<open>Adlist\<close> implement. \<open>tracks\<close> says what a command
    may do to a key: leave it, let it expire, or mark all clients that watch it. The locale \<open>command_set\<close> lifts this to events, for a set of commands; it is interpreted for all commands
    and for those that signal what they change. Shown for all sequences of events from the start: the structure of watched keys stays consistent and no assertion
    fails, and \<open>EXEC\<close> only runs a transaction whose watched keys are as they were.

  \<^bold>\<open>Bounds.\<close> No loop is given fuel in a theorem about a result: totality is part of each statement, by a
  termination proof or because the result is \<open>Some\<close>. The sizes that theorems assume (at most \<open>2\<^sup>6\<^sup>2\<close> operations
  on a dictionary, \<open>2\<^sup>2\<^sup>8 - 1\<close> on an intset, fewer than \<open>2\<^sup>3\<^sup>2\<close> on a skip list, whose ranks are of type \<open>unsigned int\<close>, strings below \<open>2\<^sup>6\<^sup>2\<close>, in dump files below \<open>2\<^sup>3\<^sup>1\<close>, compressor input below \<open>2\<^sup>3\<^sup>2\<close>, times in milliseconds up to \<open>2\<^sup>6\<^sup>1\<close>) keep the
  counters of the code within their width; they exceed what fits in memory or what the code admits.

  \<^bold>\<open>Not modelled.\<close> The set-up of sockets and signals in \<open>main.cpp\<close>; the earlier copies of the thread pool and
  the exercises of the course, which only call system calls; of Redis the event loop, the sockets and reply buffers,
  the dump of aggregate types, the append-only file, replication, the cluster bus, sentinel, scripting, modules and the command-line client, which are
  input and output around the structures above; the vendored dependencies. Freeing memory is modelled where
  it has an effect on later steps (\<open>Adlist\<close>, \<open>Zskiplist\<close>, the destructors of \<open>Dict\<close>). Statistics, logging and \<open>errno\<close> are left out.
\<close>

end
